(* ===== verification/Prelude.thy ===== *)
theory Prelude
  imports Main "HOL-Library.Word" "HOL-Library.Monad_Syntax"
begin

text \<open>
  Shared vocabulary of the kernel model: machine types, the kernel's error codes, the
  treatment of \<open>assert\<close> and \<open>panic\<close>, the address arithmetic macros of
  \<^verbatim>\<open>libs/defs.h\<close>, the bit operations of \<^verbatim>\<open>libs/atomic.h\<close>, the FIFO queue interface that the
  linked lists of the kernel implement, and the generic lemmas the components use.

  Conventions.
  \<^item> A failed \<open>assert\<close> and a \<open>panic\<close> stop the kernel: an operation that can do so has an
    option type, and \<open>None\<close> is the panic. The option monad's \<open>do\<close> notation sequences such
    operations.
  \<^item> A C function that returns \<open>0\<close> or \<open>-E_XXX\<close> returns a sum here: \<open>Inl e\<close> is the error
    \<open>-e\<close>, \<open>Inr v\<close> is success with the values the C code stores through its pointers.
  \<^item> \<open>local_intr_save\<close>/\<open>local_intr_restore\<close> make a block atomic on the single processor;
    an operation is one atomic step of the model.
\<close>

unbundle bit_operations_syntax

section \<open>Machine types\<close>

type_synonym u8 = "8 word"
type_synonym u16 = "16 word"
type_synonym u32 = "32 word"
type_synonym u64 = "64 word"
type_synonym s32 = "32 word" \<comment> \<open>read with \<open>sint\<close>\<close>
type_synonym addr = nat

section \<open>Kernel errors, \<open>assert\<close> and \<open>panic\<close>\<close>

datatype kerror =
    E_UNSPECIFIED | E_BAD_PROC | E_INVAL | E_NO_MEM | E_NO_FREE_PROC | E_FAULT
  | E_SWAP_FAULT | E_INVAL_ELF | E_KILLED | E_PANIC | E_TIMEOUT | E_TOO_BIG
  | E_NO_DEV | E_NA_DEV | E_BUSY | E_NOENT | E_ISDIR | E_NOTDIR | E_XDEV
  | E_UNIMP | E_SEEK | E_MAX_OPEN | E_EXISTS | E_NOTEMPTY

fun errno :: "kerror \<Rightarrow> int" where
  "errno E_UNSPECIFIED = 1"
| "errno E_BAD_PROC = 2"
| "errno E_INVAL = 3"
| "errno E_NO_MEM = 4"
| "errno E_NO_FREE_PROC = 5"
| "errno E_FAULT = 6"
| "errno E_SWAP_FAULT = 7"
| "errno E_INVAL_ELF = 8"
| "errno E_KILLED = 9"
| "errno E_PANIC = 10"
| "errno E_TIMEOUT = 11"
| "errno E_TOO_BIG = 12"
| "errno E_NO_DEV = 13"
| "errno E_NA_DEV = 14"
| "errno E_BUSY = 15"
| "errno E_NOENT = 16"
| "errno E_ISDIR = 17"
| "errno E_NOTDIR = 18"
| "errno E_XDEV = 19"
| "errno E_UNIMP = 20"
| "errno E_SEEK = 21"
| "errno E_MAX_OPEN = 22"
| "errno E_EXISTS = 23"
| "errno E_NOTEMPTY = 24"

definition MAXERROR :: int where
  "MAXERROR = 24"

definition kassert :: "bool \<Rightarrow> unit option" where
  "kassert b = (if b then Some () else None)"

text \<open>
  Sequencing of operations that return an error code and change a state: the idiom
  \<open>if ((ret = f(...)) != 0) return ret;\<close>.
\<close>

definition and_then ::
  "((kerror + 'a) \<times> 's) option \<Rightarrow> ('a \<Rightarrow> 's \<Rightarrow> ((kerror + 'b) \<times> 's) option) \<Rightarrow> ((kerror + 'b) \<times> 's) option" where
  "and_then r f =
     (case r of
        None \<Rightarrow> None
      | Some (Inl e, s) \<Rightarrow> Some (Inl e, s)
      | Some (Inr v, s) \<Rightarrow> f v s)"

section \<open>Rounding macros (\<^verbatim>\<open>libs/defs.h\<close>)\<close>

definition ROUNDDOWN :: "u32 \<Rightarrow> u32 \<Rightarrow> u32" where
  "ROUNDDOWN a n = a - a mod n"

definition ROUNDUP :: "u32 \<Rightarrow> u32 \<Rightarrow> u32" where
  "ROUNDUP a n = ROUNDDOWN (a + n - 1) n"

definition ROUNDUP_DIV :: "u32 \<Rightarrow> u32 \<Rightarrow> u32" where
  "ROUNDUP_DIV a n = (a + n - 1) div n"

section \<open>Multiplicative hashing (\<^verbatim>\<open>libs/hash.c\<close>)\<close>

definition GOLDEN_RATIO_PRIME_32 :: u32 where "GOLDEN_RATIO_PRIME_32 = 0x9e370001"

definition hash32 :: "u32 \<Rightarrow> nat \<Rightarrow> u32" where
  "hash32 val bits = (let hash = val * GOLDEN_RATIO_PRIME_32 in drop_bit (32 - bits) hash)"

section \<open>Integers\<close>

text \<open>\<open>off_t\<close> is a signed word of 32 bits, \<open>size_t\<close> an unsigned one.\<close>

definition off_t :: "int \<Rightarrow> int" where
  "off_t x = sint (word_of_int x :: 32 word)"

lemma off_t_id: "0 \<le> x \<Longrightarrow> x < 2 ^ 31 \<Longrightarrow> off_t x = x"
  by (simp only: off_t_def sint_sbintrunc') (simp add: signed_take_bit_int_eq_self)

section \<open>Little-endian words\<close>

definition le32 :: "u32 \<Rightarrow> u8 list" where
  "le32 w = map (\<lambda>i. ucast (drop_bit (8 * i) w)) [0..<4]"

definition le16 :: "u16 \<Rightarrow> u8 list" where
  "le16 w = map (\<lambda>i. ucast (drop_bit (8 * i) w)) [0..<2]"

definition un_le32 :: "u8 list \<Rightarrow> u32" where
  "un_le32 bs = ucast (bs ! 0) OR push_bit 8 (ucast (bs ! 1)) OR push_bit 16 (ucast (bs ! 2)) OR push_bit 24 (ucast (bs ! 3))"

definition un_le16 :: "u8 list \<Rightarrow> u16" where
  "un_le16 bs = ucast (bs ! 0) OR push_bit 8 (ucast (bs ! 1))"

section \<open>Bit operations on a flag word (\<^verbatim>\<open>libs/atomic.h\<close>)\<close>

definition atomic_set_bit :: "nat \<Rightarrow> u32 \<Rightarrow> u32" where
  "atomic_set_bit nr w = w OR push_bit nr 1"

definition atomic_clear_bit :: "nat \<Rightarrow> u32 \<Rightarrow> u32" where
  "atomic_clear_bit nr w = w AND NOT (push_bit nr 1)"

definition atomic_change_bit :: "nat \<Rightarrow> u32 \<Rightarrow> u32" where
  "atomic_change_bit nr w = w XOR push_bit nr 1"

definition atomic_test_bit :: "nat \<Rightarrow> u32 \<Rightarrow> bool" where
  "atomic_test_bit nr w \<longleftrightarrow> w AND push_bit nr 1 \<noteq> 0"

definition atomic_test_and_set_bit :: "nat \<Rightarrow> u32 \<Rightarrow> bool \<times> u32" where
  "atomic_test_and_set_bit nr w = (w AND push_bit nr 1 \<noteq> 0, w OR push_bit nr 1)"

definition atomic_test_and_clear_bit :: "nat \<Rightarrow> u32 \<Rightarrow> bool \<times> u32" where
  "atomic_test_and_clear_bit nr w = (w AND push_bit nr 1 \<noteq> 0, w AND NOT (push_bit nr 1))"

section \<open>Lemma collections\<close>

named_theorems bit_defs \<open>definitions of the flag-word operations\<close>
named_theorems frame_simps \<open>fields that an operation leaves alone\<close>

lemmas atomic_defs [bit_defs] =
  atomic_set_bit_def atomic_clear_bit_def atomic_change_bit_def atomic_test_bit_def
  atomic_test_and_set_bit_def atomic_test_and_clear_bit_def

section \<open>Asserts\<close>

lemma kassert_True [simp]: "kassert True = Some ()"
  by (simp add: kassert_def)

lemma kassert_eq_Some [simp]: "kassert b = Some u \<longleftrightarrow> b"
  by (simp add: kassert_def)

lemma kassert_eq_None [simp]: "kassert b = None \<longleftrightarrow> \<not> b"
  by (simp add: kassert_def)

lemma bind_kassert_Some [simp]:
  "Option.bind (kassert b) f = Some r \<longleftrightarrow> b \<and> f () = Some r"
  by (simp add: kassert_def)

lemma bind_kassert: "Option.bind (kassert b) f = (if b then f () else None)"
  by (simp add: kassert_def)

lemma and_then_simps [simp]:
  "and_then None f = None"
  "and_then (Some (Inl e, s)) f = Some (Inl e, s)"
  "and_then (Some (Inr v, s)) f = f v s"
  by (simp_all add: and_then_def)

lemma and_then_eq_Inr:
  "and_then r f = Some (Inr w, t) \<longleftrightarrow> (\<exists>v s. r = Some (Inr v, s) \<and> f v s = Some (Inr w, t))"
  by (auto simp: and_then_def split: option.splits sum.splits)

lemma and_then_eq_Some:
  "and_then r f = Some y \<longleftrightarrow>
     (\<exists>e s. r = Some (Inl e, s) \<and> y = (Inl e, s)) \<or> (\<exists>v s. r = Some (Inr v, s) \<and> f v s = Some y)"
  by (auto simp: and_then_def split: option.splits sum.splits)

lemma bind_case_sum:
  "Option.bind m (case_sum f g) = Some y \<longleftrightarrow>
     (\<exists>e. m = Some (Inl e) \<and> f e = Some y) \<or> (\<exists>v. m = Some (Inr v) \<and> g v = Some y)"
  by (cases m) (auto split: sum.splits)

lemma bind_case_sum_state:
  "Option.bind m (\<lambda>(r, s). case r of Inl e \<Rightarrow> f e s | Inr v \<Rightarrow> g v s) = Some y \<longleftrightarrow>
     (\<exists>e s. m = Some (Inl e, s) \<and> f e s = Some y) \<or> (\<exists>v s. m = Some (Inr v, s) \<and> g v s = Some y)"
  by (cases m) (auto split: sum.splits)

lemma errno_inject: "errno a = errno b \<longleftrightarrow> a = b"
  by (cases a; cases b) simp_all

lemma errno_range: "0 < errno e \<and> errno e \<le> MAXERROR"
  by (cases e) (simp_all add: MAXERROR_def)

section \<open>Words\<close>

lemma bit_atomic_set [simp]:
  "bit (atomic_set_bit nr w) k \<longleftrightarrow> bit w k \<or> (k = nr \<and> k < 32)"
  by (auto simp: atomic_set_bit_def bit_simps)

lemma bit_atomic_clear [simp]:
  "bit (atomic_clear_bit nr w) k \<longleftrightarrow> bit w k \<and> k \<noteq> nr"
  by (auto simp: atomic_clear_bit_def bit_simps dest: bit_imp_le_length)

lemma atomic_test_bit_iff [simp]: "atomic_test_bit nr w \<longleftrightarrow> bit w nr"
  by (simp add: atomic_test_bit_def and_exp_eq_0_iff_not_bit)

lemma unat_ROUNDDOWN: "unat (ROUNDDOWN a n) = unat a - unat a mod unat n"
  by (simp add: ROUNDDOWN_def unat_mod unat_sub word_le_nat_alt)

lemma un_le32_le32 [simp]: "un_le32 (le32 w) = w"
proof (rule bit_eqI)
  fix n assume "possible_bit TYPE(32 word) n"
  then have n: "n < 32"
    by simp
  have u: "[0..<4] = [0, 1, 2, 3 :: nat]"
    by (simp add: upt_rec)
  show "bit (un_le32 (le32 w)) n = bit w n"
    using n by (cases "n < 16"; cases "n < 24") (auto simp: un_le32_def le32_def u bit_simps not_less)
qed

lemma un_le16_le16 [simp]: "un_le16 (le16 w) = w"
proof (rule bit_eqI)
  fix n assume "possible_bit TYPE(16 word) n"
  then have n: "n < 16"
    by simp
  have u: "[0..<2] = [0, 1 :: nat]"
    by (simp add: upt_rec)
  show "bit (un_le16 (le16 w)) n = bit w n"
    using n by (auto simp: un_le16_def le16_def u bit_simps)
qed

section \<open>Lists\<close>

lemma sorted_wrt_less_Cons_ge:
  "sorted_wrt (<) (x # xs) \<Longrightarrow> y \<in> set (x # xs) \<Longrightarrow> x \<le> (y::nat)"
  by auto

lemma sum_list_remove1:
  "x \<in> set xs \<Longrightarrow> sum_list (map f (remove1 x xs)) = sum_list (map f xs) - (f x :: nat)"
  by (induction xs) (auto simp: member_le_sum_list)

end
