(* ===== verification/KList.thy ===== *)
theory KList
  imports Prelude
begin

text \<open>
  The kernel's circular doubly linked list (\<^verbatim>\<open>libs/list.h\<close>) over an explicit store of
  \<open>prev\<close>/\<open>next\<close> pointers, and the refinement that lets every other component treat such a
  list as an Isabelle list. \<open>dll h head xs\<close> says that, in store \<open>h\<close>, the list headed by \<open>head\<close>
  holds exactly the entries \<open>xs\<close> in order. The interface \<open>fifo_queue\<close> is what the run queue,
  the wait queues and the FIFO page replacement rely on; it is interpreted here on the
  pointer implementation itself.
\<close>

section \<open>The store and the operations\<close>

record list_heap =
  le_prev :: "addr \<Rightarrow> addr"
  le_next :: "addr \<Rightarrow> addr"

definition set_prev :: "addr \<Rightarrow> addr \<Rightarrow> list_heap \<Rightarrow> list_heap" where
  "set_prev a v h = h\<lparr>le_prev := (le_prev h)(a := v)\<rparr>"

definition set_next :: "addr \<Rightarrow> addr \<Rightarrow> list_heap \<Rightarrow> list_heap" where
  "set_next a v h = h\<lparr>le_next := (le_next h)(a := v)\<rparr>"

definition list_init :: "addr \<Rightarrow> list_heap \<Rightarrow> list_heap" where
  "list_init elm h = set_prev elm elm (set_next elm elm h)"

definition list_next :: "list_heap \<Rightarrow> addr \<Rightarrow> addr" where
  "list_next h listelm = le_next h listelm"

definition list_prev :: "list_heap \<Rightarrow> addr \<Rightarrow> addr" where
  "list_prev h listelm = le_prev h listelm"

definition list_empty :: "list_heap \<Rightarrow> addr \<Rightarrow> bool" where
  "list_empty h lst \<longleftrightarrow> le_next h lst = lst"

definition list_add_raw :: "addr \<Rightarrow> addr \<Rightarrow> addr \<Rightarrow> list_heap \<Rightarrow> list_heap" where
  "list_add_raw elm prv nxt h =
     set_prev elm prv (set_next elm nxt (set_next prv elm (set_prev nxt elm h)))"

definition list_del_raw :: "addr \<Rightarrow> addr \<Rightarrow> list_heap \<Rightarrow> list_heap" where
  "list_del_raw prv nxt h = set_prev nxt prv (set_next prv nxt h)"

definition list_add_before :: "addr \<Rightarrow> addr \<Rightarrow> list_heap \<Rightarrow> list_heap" where
  "list_add_before listelm elm h = list_add_raw elm (le_prev h listelm) listelm h"

definition list_add_after :: "addr \<Rightarrow> addr \<Rightarrow> list_heap \<Rightarrow> list_heap" where
  "list_add_after listelm elm h = list_add_raw elm listelm (le_next h listelm) h"

definition list_add :: "addr \<Rightarrow> addr \<Rightarrow> list_heap \<Rightarrow> list_heap" where
  "list_add listelm elm h = list_add_after listelm elm h"

definition list_del :: "addr \<Rightarrow> list_heap \<Rightarrow> list_heap" where
  "list_del listelm h = list_del_raw (le_prev h listelm) (le_next h listelm) h"

definition list_del_init :: "addr \<Rightarrow> list_heap \<Rightarrow> list_heap" where
  "list_del_init listelm h = list_init listelm (list_del listelm h)"

section \<open>The abstract list held by the store\<close>

fun linked :: "list_heap \<Rightarrow> addr list \<Rightarrow> bool" where
  "linked h (x # y # zs) \<longleftrightarrow> le_next h x = y \<and> le_prev h y = x \<and> linked h (y # zs)"
| "linked h _ \<longleftrightarrow> True"

definition dll :: "list_heap \<Rightarrow> addr \<Rightarrow> addr list \<Rightarrow> bool" where
  "dll h head xs \<longleftrightarrow> distinct (head # xs) \<and> linked h (head # xs @ [head])"

definition dll_view :: "addr \<Rightarrow> list_heap \<Rightarrow> addr list" where
  "dll_view head h = (THE xs. dll h head xs)"

text \<open>Walking the list from its head, as the \<open>while ((le = list_next(le)) != head)\<close> loops do.\<close>

fun walk :: "nat \<Rightarrow> list_heap \<Rightarrow> addr \<Rightarrow> addr \<Rightarrow> addr list" where
  "walk 0 h head le = []"
| "walk (Suc n) h head le =
     (if list_next h le = head then [] else list_next h le # walk n h head (list_next h le))"

section \<open>The queue interface\<close>

text \<open>
  A FIFO queue as the kernel uses it: entries are added at the tail, the first one is looked
  at, any entry can be unlinked. An operation that asserts returns an option. \<open>serve\<close> takes
  the first \<open>n\<close> entries off the queue, one at a time.
\<close>

primrec serve ::
  "('q \<Rightarrow> 'a option) \<Rightarrow> ('a \<Rightarrow> 'q \<Rightarrow> 'q option) \<Rightarrow> nat \<Rightarrow> 'q \<Rightarrow> ('a list \<times> 'q) option" where
  "serve fst_of rem 0 q = Some ([], q)"
| "serve fst_of rem (Suc n) q =
     do { x \<leftarrow> fst_of q; q' \<leftarrow> rem x q; (xs, q'') \<leftarrow> serve fst_of rem n q'; Some (x # xs, q'') }"

locale fifo_queue =
  fixes view :: "'q \<Rightarrow> 'a list"
    and invar :: "'q \<Rightarrow> bool"
    and elem :: "'q \<Rightarrow> 'a \<Rightarrow> bool"
    and enq :: "'a \<Rightarrow> 'q \<Rightarrow> 'q option"
    and first :: "'q \<Rightarrow> 'a option"
    and remove :: "'a \<Rightarrow> 'q \<Rightarrow> 'q option"
  assumes distinct_view: "invar q \<Longrightarrow> distinct (view q)"
    and enq_ok: "invar q \<Longrightarrow> elem q x \<Longrightarrow> x \<notin> set (view q) \<Longrightarrow>
      \<exists>q'. enq x q = Some q' \<and> invar q' \<and> view q' = view q @ [x]"
    and first_ok: "invar q \<Longrightarrow> first q = (case view q of [] \<Rightarrow> None | x # _ \<Rightarrow> Some x)"
    and remove_ok: "invar q \<Longrightarrow> x \<in> set (view q) \<Longrightarrow>
      \<exists>q'. remove x q = Some q' \<and> invar q' \<and> view q' = remove1 x (view q)"
begin

lemma first_None: "invar q \<Longrightarrow> first q = None \<longleftrightarrow> view q = []"
  by (simp add: first_ok split: list.splits)

lemma serve_prefix:
  "invar q \<Longrightarrow> n \<le> length (view q) \<Longrightarrow>
    \<exists>q'. serve first remove n q = Some (take n (view q), q') \<and> invar q' \<and> view q' = drop n (view q)"
proof (induction n arbitrary: q)
  case 0
  then show ?case by simp
next
  case (Suc n)
  then obtain x xs where v: "view q = x # xs"
    by (cases "view q") auto
  with Suc.prems obtain q1 where q1: "remove x q = Some q1" "invar q1" "view q1 = xs"
    using remove_ok [of q x] by auto
  with Suc v obtain q2 where
    "serve first remove n q1 = Some (take n xs, q2)" "invar q2" "view q2 = drop n xs"
    using Suc.IH [of q1] by auto
  with v q1 Suc.prems show ?case
    by (simp add: first_ok)
qed

text \<open>An entry is served exactly after the entries that were queued before it.\<close>

lemma enq_served_last:
  assumes "invar q" "elem q x" "x \<notin> set (view q)"
  shows "\<exists>q' q''. enq x q = Some q' \<and>
    serve first remove (Suc (length (view q))) q' = Some (view q @ [x], q'') \<and> view q'' = []"
proof -
  from assms obtain q' where q': "enq x q = Some q'" "invar q'" "view q' = view q @ [x]"
    using enq_ok by blast
  with serve_prefix [of q' "Suc (length (view q))"] show ?thesis
    by auto
qed

text \<open>Looking at the first entry and unlinking it takes the head off.\<close>

lemma first_remove:
  assumes "invar q" "first q = Some x"
  shows "\<exists>q'. remove x q = Some q' \<and> invar q' \<and> view q = x # view q'"
proof -
  from assms obtain xs where v: "view q = x # xs"
    by (auto simp: first_ok split: list.splits)
  with assms(1) remove_ok [of q x] show ?thesis
    by auto
qed

end

section \<open>The store lemmas\<close>

lemmas heap_defs = list_init_def list_add_raw_def list_del_raw_def list_add_before_def
  list_add_after_def list_add_def list_del_def list_del_init_def set_prev_def set_next_def

lemma linked_append:
  "linked h (xs @ x # ys) \<longleftrightarrow> linked h (xs @ [x]) \<and> linked h (x # ys)"
proof (induction xs)
  case Nil
  show ?case by simp
next
  case (Cons z zs)
  then show ?case by (cases zs) auto
qed

lemma linked_cong:
  assumes "\<And>u. u \<in> set (butlast xs) \<Longrightarrow> le_next h u = le_next h' u"
    and "\<And>u. u \<in> set (tl xs) \<Longrightarrow> le_prev h u = le_prev h' u"
  shows "linked h xs = linked h' xs"
  using assms
proof (induction xs rule: induct_list012)
  case (3 x y zs)
  then have "linked h (y # zs) = linked h' (y # zs)"
    by (cases zs) auto
  with 3 show ?case by auto
qed auto

text \<open>The general step of both insertions: \<open>e\<close> goes between two neighbours \<open>a\<close> and \<open>b\<close>.\<close>

lemma linked_insert:
  assumes l: "linked h (pre @ a # b # post)"
    and "a \<notin> set pre" "a \<notin> set (butlast (b # post))"
    and "b \<notin> set (tl (pre @ [a]))" "b \<notin> set post"
    and "e \<notin> set (pre @ a # b # post)"
  shows "linked (list_add_raw e a b h) (pre @ a # e # b # post)"
proof -
  let ?h = "list_add_raw e a b h"
  from l have l1: "linked h (pre @ [a])" and l2: "linked h (b # post)"
    by (auto simp: linked_append [of h pre a "b # post"])
  have "linked ?h (pre @ [a]) = linked h (pre @ [a])"
    using assms by (intro linked_cong) (auto simp: heap_defs butlast_append dest: in_set_butlastD
      list.set_sel(2) [rotated])
  moreover have "linked ?h (b # post) = linked h (b # post)"
    using assms
    by (intro linked_cong) (auto simp: heap_defs dest: in_set_butlastD split: if_splits)
  ultimately show ?thesis
    using l1 l2 assms
    by (auto simp: linked_append [of _ pre a "e # b # post"] heap_defs)
qed

text \<open>The unlinking step: \<open>e\<close> leaves its two neighbours pointing at each other.\<close>

lemma linked_delete:
  assumes l: "linked h (pre @ a # e # b # post)"
    and "a \<notin> set pre" "a \<notin> set (butlast (b # post))"
    and "b \<notin> set (tl (pre @ [a]))" "b \<notin> set post"
  shows "linked (list_del_raw a b h) (pre @ a # b # post)"
proof -
  let ?h = "list_del_raw a b h"
  from l have l1: "linked h (pre @ [a])" and l2: "linked h (b # post)"
    by (auto simp: linked_append [of h pre a "e # b # post"])
  have "linked ?h (pre @ [a]) = linked h (pre @ [a])"
    using assms by (intro linked_cong) (auto simp: heap_defs butlast_append)
  moreover have "linked ?h (b # post) = linked h (b # post)"
    using assms by (intro linked_cong) (auto simp: heap_defs split: if_splits)
  ultimately show ?thesis
    using l1 l2 assms
    by (auto simp: linked_append [of _ pre a "b # post"] heap_defs)
qed

text \<open>Splitting the circle \<open>head # xs @ ys @ [head]\<close> at the gap between \<open>xs\<close> and \<open>ys\<close>.\<close>

lemma circle_split:
  "head # (xs @ ys) @ [head] =
     butlast (head # xs) @ last (head # xs) # hd (ys @ [head]) # tl (ys @ [head])"
proof -
  have "head # xs = butlast (head # xs) @ [last (head # xs)]"
    by (rule append_butlast_last_id [symmetric]) simp
  moreover have "ys @ [head] = hd (ys @ [head]) # tl (ys @ [head])"
    by (cases ys) simp_all
  ultimately show ?thesis
    by (metis append.assoc append_Cons append_Nil)
qed

lemma dll_distinct: "dll h head xs \<Longrightarrow> distinct (head # xs)"
  by (simp add: dll_def)

lemma dll_unique: "dll h head xs \<Longrightarrow> dll h head ys \<Longrightarrow> xs = ys"
  unfolding dll_def
proof -
  have *: "linked h (a # xs @ [head]) \<Longrightarrow> linked h (a # ys @ [head]) \<Longrightarrow>
      head \<notin> set xs \<Longrightarrow> head \<notin> set ys \<Longrightarrow> xs = ys" for a
  proof (induction xs arbitrary: a ys)
    case Nil
    then show ?case by (cases ys) auto
  next
    case (Cons x xs)
    then show ?case by (cases ys) auto
  qed
  assume "distinct (head # xs) \<and> linked h (head # xs @ [head])"
    and "distinct (head # ys) \<and> linked h (head # ys @ [head])"
  with * [of head] show ?thesis by auto
qed

text \<open>The neighbours at a gap point at each other.\<close>

lemma dll_gap:
  assumes "dll h head (xs @ ys)"
  shows "le_next h (last (head # xs)) = hd (ys @ [head])"
    and "le_prev h (hd (ys @ [head])) = last (head # xs)"
proof -
  have "linked h (last (head # xs) # hd (ys @ [head]) # tl (ys @ [head]))"
    using assms circle_split [of head xs ys] linked_append
    unfolding dll_def by metis
  then show "le_next h (last (head # xs)) = hd (ys @ [head])"
    and "le_prev h (hd (ys @ [head])) = last (head # xs)"
    by (simp_all only: linked.simps)
qed

lemma gap_distinct:
  assumes "distinct (head # xs @ ys)"
  shows "last (head # xs) \<notin> set (butlast (head # xs))"
    and "last (head # xs) \<notin> set (butlast (hd (ys @ [head]) # tl (ys @ [head])))"
    and "hd (ys @ [head]) \<notin> set (tl (butlast (head # xs) @ [last (head # xs)]))"
    and "hd (ys @ [head]) \<notin> set (tl (ys @ [head]))"
proof -
  have last_in: "last (head # xs) \<in> set (head # xs)"
    by (rule last_in_set) simp
  have pre: "butlast (head # xs) @ [last (head # xs)] = head # xs"
    by (rule append_butlast_last_id) simp
  have "distinct (head # xs)"
    using assms by simp
  then show "last (head # xs) \<notin> set (butlast (head # xs))"
    by (metis pre distinct_append disjoint_iff list.set_intros(1))
  have "hd (ys @ [head]) # tl (ys @ [head]) = ys @ [head]"
    by (cases ys) simp_all
  then show "last (head # xs) \<notin> set (butlast (hd (ys @ [head]) # tl (ys @ [head])))"
    using last_in assms by (auto simp: butlast_append)
  show "hd (ys @ [head]) \<notin> set (tl (butlast (head # xs) @ [last (head # xs)]))"
    unfolding pre using assms by (cases ys) auto
  show "hd (ys @ [head]) \<notin> set (tl (ys @ [head]))"
    using assms by (cases ys) auto
qed

lemma dll_insert:
  assumes "dll h head (xs @ ys)" "e \<notin> set (head # xs @ ys)"
  shows "dll (list_add_raw e (last (head # xs)) (hd (ys @ [head])) h) head (xs @ e # ys)"
proof -
  let ?pre = "butlast (head # xs)" and ?a = "last (head # xs)"
  let ?b = "hd (ys @ [head])" and ?post = "tl (ys @ [head])"
  have d: "distinct (head # xs @ ys)"
    using assms(1) by (rule dll_distinct)
  have "linked h (?pre @ ?a # ?b # ?post)"
    using assms(1) by (simp only: dll_def circle_split [symmetric] append.assoc)
  moreover have "e \<notin> set (?pre @ ?a # ?b # ?post)"
    using assms(2) by (simp only: circle_split [symmetric]) auto
  ultimately have "linked (list_add_raw e ?a ?b h) (?pre @ ?a # e # ?b # ?post)"
    using gap_distinct [OF d] by (intro linked_insert)
  moreover have "?pre @ ?a # e # ?b # ?post = head # (xs @ e # ys) @ [head]"
  proof -
    have "?pre @ [?a] = head # xs"
      by (rule append_butlast_last_id) simp
    moreover have "?b # ?post = ys @ [head]"
      by (cases ys) simp_all
    ultimately show ?thesis
      by (metis append.assoc append_Cons append_Nil)
  qed
  ultimately have l: "linked (list_add_raw e ?a ?b h) (head # (xs @ e # ys) @ [head])"
    by (simp only:)
  have "distinct (head # xs @ e # ys)"
    using d assms(2) by auto
  then show ?thesis
    unfolding dll_def using l by (rule conjI)
qed

lemma dll_delete:
  assumes "dll h head (xs @ e # ys)"
  shows "dll (list_del e h) head (xs @ ys)"
proof -
  let ?pre = "butlast (head # xs)" and ?a = "last (head # xs)"
  let ?b = "hd (ys @ [head])" and ?post = "tl (ys @ [head])"
  have d: "distinct (head # xs @ ys)"
    using dll_distinct [OF assms] by auto
  have pre: "?pre @ [?a] = head # xs"
    by (rule append_butlast_last_id) simp
  have post: "?b # ?post = ys @ [head]"
    by (cases ys) simp_all
  have circle: "?pre @ ?a # e # ?b # ?post = head # (xs @ e # ys) @ [head]"
    using pre post by (metis append.assoc append_Cons append_Nil)
  have "le_prev h e = ?a"
    using dll_gap(2) [of h head xs "e # ys"] assms by simp
  moreover have "le_next h e = ?b"
    using dll_gap(1) [of h head "xs @ [e]" ys] assms by simp
  moreover have "linked h (?pre @ ?a # e # ?b # ?post)"
    using assms by (simp only: circle dll_def append.assoc)
  then have "linked (list_del_raw ?a ?b h) (?pre @ ?a # ?b # ?post)"
    using gap_distinct [OF d] by (rule linked_delete)
  moreover have "?pre @ ?a # ?b # ?post = head # (xs @ ys) @ [head]"
    by (rule circle_split [symmetric])
  ultimately have l: "linked (list_del e h) (head # (xs @ ys) @ [head])"
    by (simp only: list_del_def)
  show ?thesis
    unfolding dll_def using d l by (rule conjI)
qed

lemma dll_view_eq [simp]: "dll h head xs \<Longrightarrow> dll_view head h = xs"
  unfolding dll_view_def by (rule the_equality) (auto intro: dll_unique)

lemma dll_init: "dll (list_init e h) e []"
  by (simp add: dll_def heap_defs)

lemma dll_list_next: "dll h head xs \<Longrightarrow> list_next h head = hd (xs @ [head])"
  using dll_gap(1) [of h head "[]" xs] by (simp add: list_next_def)

lemma dll_list_empty: "dll h head xs \<Longrightarrow> list_empty h head \<longleftrightarrow> xs = []"
  using dll_list_next [of h head xs] dll_distinct [of h head xs]
  by (cases xs) (auto simp: list_empty_def list_next_def)

text \<open>A list is untouched by work on the pointers of entries outside it.\<close>

lemma dll_frame:
  assumes "dll h head xs"
    and "\<And>u. u \<in> set (head # xs) \<Longrightarrow> le_next h' u = le_next h u \<and> le_prev h' u = le_prev h u"
  shows "dll h' head xs"
proof -
  have "linked h' (head # xs @ [head]) = linked h (head # xs @ [head])"
    using assms(2) by (intro linked_cong) (auto simp: butlast_append dest: in_set_butlastD)
  with assms(1) show ?thesis
    by (simp add: dll_def)
qed

lemma dll_insert_after:
  assumes "dll h head (xs @ ys)" "e \<notin> set (head # xs @ ys)"
  shows "dll (list_add_after (last (head # xs)) e h) head (xs @ e # ys)"
  using dll_insert [OF assms] dll_gap(1) [OF assms(1)] by (simp only: list_add_after_def)

lemma dll_insert_before:
  assumes "dll h head (xs @ ys)" "e \<notin> set (head # xs @ ys)"
  shows "dll (list_add_before (hd (ys @ [head])) e h) head (xs @ e # ys)"
  using dll_insert [OF assms] dll_gap(2) [OF assms(1)] by (simp only: list_add_before_def)

lemma dll_del_init:
  assumes "dll h head (xs @ e # ys)"
  shows "dll (list_del_init e h) head (xs @ ys)"
    and "list_empty (list_del_init e h) e"
proof -
  have e: "e \<notin> set (head # xs @ ys)"
    using dll_distinct [OF assms] by auto
  then show "dll (list_del_init e h) head (xs @ ys)"
    by (intro dll_frame [OF dll_delete [OF assms]])
      (auto simp: list_del_init_def list_init_def set_prev_def set_next_def)
  show "list_empty (list_del_init e h) e"
    unfolding list_del_init_def using dll_list_empty [OF dll_init] by simp
qed

lemma walk_linked:
  "linked h (a # xs @ [head]) \<Longrightarrow> head \<notin> set xs \<Longrightarrow> length xs < n \<Longrightarrow> walk n h head a = xs"
proof (induction xs arbitrary: a n)
  case Nil
  then show ?case by (cases n) (auto simp: list_next_def)
next
  case (Cons x xs)
  then show ?case by (cases n) (auto simp: list_next_def)
qed

text \<open>The pointer list is a FIFO queue: this is the contract the kernel's queues build on.\<close>

interpretation klist: fifo_queue "dll_view head" "\<lambda>h. \<exists>xs. dll h head xs" "\<lambda>_ e. e \<noteq> head"
  "\<lambda>e h. Some (list_add_before head e h)"
  "\<lambda>h. if list_empty h head then None else Some (list_next h head)"
  "\<lambda>e h. Some (list_del_init e h)" for head
proof (unfold_locales, goal_cases)
  case (1 q)
  then show ?case using dll_distinct by fastforce
next
  case (2 q x)
  then obtain xs where xs: "dll q head xs" by blast
  with 2 have "dll (list_add_before head x q) head (xs @ [x])"
    using dll_insert_before [of q head xs "[]" x] by simp
  with xs show ?case by auto
next
  case (3 q)
  then obtain xs where xs: "dll q head xs" by blast
  then show ?case
    by (cases xs) (simp_all add: dll_list_empty dll_list_next)
next
  case (4 q x)
  then obtain xs where xs: "dll q head xs" by blast
  with 4 obtain us vs where split: "xs = us @ x # vs" "x \<notin> set us"
    by (auto dest: split_list_first)
  with xs have "dll (list_del_init x q) head (us @ vs)"
    by (auto intro: dll_del_init)
  with xs split show ?case
    by (auto simp: remove1_append)
qed

section \<open>Properties\<close>

text \<open>
  Insertion refines list insertion: when the circular list headed by \<open>head\<close> holds \<open>xs @ ys\<close> and
  \<open>e\<close> is not on it, \<open>list_add_after\<close> at the entry that ends \<open>xs\<close> (the head itself when \<open>xs\<close> is
  empty) and \<open>list_add_before\<close> at the entry that starts \<open>ys\<close> both give a well-formed circular
  list that holds \<open>xs @ e # ys\<close>.
\<close>

theorem list_add_refines:
  assumes "dll h head (xs @ ys)" "e \<notin> set (head # xs @ ys)"
  shows "dll (list_add_after (last (head # xs)) e h) head (xs @ e # ys) \<and>
    dll (list_add_before (hd (ys @ [head])) e h) head (xs @ e # ys)"
  using dll_insert_after [OF assms] dll_insert_before [OF assms] by (rule conjI)

theorem list_add_refines_witness:
  "dll (list_add_after 0 7 (list_init 0 \<lparr>le_prev = id, le_next = id\<rparr>)) 0 [7]"
  using list_add_refines [of "list_init 0 \<lparr>le_prev = id, le_next = id\<rparr>" 0 "[]" "[]" 7]
    dll_init [of 0 "\<lparr>le_prev = id, le_next = id\<rparr>"] by simp

text \<open>
  Deletion refines list deletion: unlinking an entry with \<open>list_del\<close> or \<open>list_del_init\<close> leaves
  a well-formed circular list with exactly the other entries in their order; after
  \<open>list_del_init\<close> the unlinked entry tests as empty; and walking the list with \<open>list_next\<close>
  until the head comes back visits exactly the entries of the list.
\<close>

theorem list_del_refines:
  assumes "dll h head (xs @ e # ys)"
  shows "dll (list_del e h) head (xs @ ys) \<and> dll (list_del_init e h) head (xs @ ys) \<and>
    list_empty (list_del_init e h) e \<and>
    walk (Suc (length xs + length ys)) (list_del e h) head head = xs @ ys"
proof -
  have d: "dll (list_del e h) head (xs @ ys)"
    using assms by (rule dll_delete)
  then have "walk (Suc (length xs + length ys)) (list_del e h) head head = xs @ ys"
    by (intro walk_linked) (auto simp: dll_def)
  with d dll_del_init [OF assms] show ?thesis by blast
qed

theorem list_del_refines_witness:
  "dll (list_del 7 (list_add_after 0 7 (list_init 0 \<lparr>le_prev = id, le_next = id\<rparr>))) 0 []"
proof -
  have "dll (list_add_after 0 7 (list_init 0 \<lparr>le_prev = id, le_next = id\<rparr>)) 0 ([] @ 7 # [])"
    using dll_insert_after [of _ 0 "[]" "[]" 7, simplified, OF dll_init] by simp
  from list_del_refines [OF this] show ?thesis by simp
qed

end
