(* ===== verification/Sched.thy ===== *)
theory Sched
  imports KList
begin

text \<open>
  Processes as the scheduler sees them, the round-robin run queue
  (\<^verbatim>\<open>kern/schedule/default_sched.c\<close>), \<open>wakeup_proc\<close>, \<open>schedule\<close> and the timers
  (\<^verbatim>\<open>kern/schedule/sched.c\<close>), with \<open>struct proc_struct\<close> (\<^verbatim>\<open>kern/process/proc.h\<close>) and
  \<open>proc_run\<close> (\<^verbatim>\<open>kern/process/proc.c\<close>).

  Pointers to processes and timers are naturals, \<open>0\<close> is \<open>NULL\<close>; the structures they point to are
  kept in stores. The run queue and the timer list are the lists of pointers that the circular
  lists of the code hold (theory \<open>KList\<close>); \<open>list_empty\<close> of the link of an entry is that the
  entry is not on the list. The only scheduling class the kernel installs is
  \<open>default_sched_class\<close>, so the calls through \<open>sched_class\<close> are calls of its functions.
  The state record is extensible: the theories of the other components add their fields to it.
\<close>

section \<open>Data\<close>

datatype proc_state = PROC_UNINIT | PROC_SLEEPING | PROC_RUNNABLE | PROC_ZOMBIE

record kcontext =
  ctx_ra :: u32
  ctx_sp :: u32
  ctx_s :: "u32 list"
  ctx_gp :: u32
  ctx_fp :: u32

record proc_struct =
  p_state :: proc_state
  p_pid :: int
  p_runs :: int
  p_kstack :: u32
  p_need_resched :: bool
  p_parent :: addr
  p_mm :: addr
  p_context :: kcontext
  p_tf :: u32
  p_pgdir :: u32
  p_flags :: u32
  p_name :: string
  p_exit_code :: int
  p_wait_state :: u32
  p_cptr :: addr
  p_yptr :: addr
  p_optr :: addr
  p_rq :: bool \<comment> \<open>\<open>proc->rq\<close> is the run queue (there is one)\<close>
  p_time_slice :: int
  p_lab6_priority :: u32
  p_filesp :: addr

record timer =
  t_expires :: nat
  t_proc :: addr

record sched =
  procs :: "addr \<Rightarrow> proc_struct"
  current :: addr
  idleproc :: addr
  run_list :: "addr list"
  proc_num :: u32
  max_time_slice :: int
  timer_list :: "addr list"
  timers :: "addr \<Rightarrow> timer"
  cpu_ksp :: u32
  cur_pgdir :: u32

definition WT_INTERRUPTED :: u32 where "WT_INTERRUPTED = 0x80000000"

definition WT_CHILD :: u32 where "WT_CHILD = 0x00000001 OR WT_INTERRUPTED"

definition WT_KSEM :: u32 where "WT_KSEM = 0x00000100"

definition WT_TIMER :: u32 where "WT_TIMER = 0x00000002 OR WT_INTERRUPTED"

definition WT_KBD :: u32 where "WT_KBD = 0x00000004 OR WT_INTERRUPTED"

definition PF_EXITING :: u32 where "PF_EXITING = 0x00000001"

definition MAX_TIME_SLICE :: int where "MAX_TIME_SLICE = 20"

definition KSTACKSIZE :: u32 where "KSTACKSIZE = 2 * 4096"

definition upd_proc :: "addr \<Rightarrow> (proc_struct \<Rightarrow> proc_struct) \<Rightarrow> 'a sched_scheme \<Rightarrow> 'a sched_scheme" where
  "upd_proc p f s = s\<lparr>procs := (procs s)(p := f (procs s p))\<rparr>"

definition set_expires :: "addr \<Rightarrow> nat \<Rightarrow> 'a sched_scheme \<Rightarrow> 'a sched_scheme" where
  "set_expires t n s = s\<lparr>timers := (timers s)(t := (timers s t)\<lparr>t_expires := n\<rparr>)\<rparr>"

section \<open>The round-robin run queue\<close>

definition RR_init :: "'a sched_scheme \<Rightarrow> 'a sched_scheme" where
  "RR_init s = s\<lparr>run_list := [], proc_num := 0\<rparr>"

definition RR_enqueue :: "addr \<Rightarrow> 'a sched_scheme \<Rightarrow> 'a sched_scheme option" where
  "RR_enqueue proc s =
     do { kassert (proc \<notin> set (run_list s));
          let s = s\<lparr>run_list := run_list s @ [proc]\<rparr>;
          let s = (if p_time_slice (procs s proc) = 0 \<or> p_time_slice (procs s proc) > max_time_slice s
                   then upd_proc proc (\<lambda>p. p\<lparr>p_time_slice := max_time_slice s\<rparr>) s else s);
          let s = upd_proc proc (\<lambda>p. p\<lparr>p_rq := True\<rparr>) s;
          Some (s\<lparr>proc_num := proc_num s + 1\<rparr>) }"

definition RR_dequeue :: "addr \<Rightarrow> 'a sched_scheme \<Rightarrow> 'a sched_scheme option" where
  "RR_dequeue proc s =
     do { kassert (proc \<in> set (run_list s) \<and> p_rq (procs s proc));
          let s = s\<lparr>run_list := remove1 proc (run_list s)\<rparr>;
          Some (s\<lparr>proc_num := proc_num s - 1\<rparr>) }"

definition RR_pick_next :: "'a sched_scheme \<Rightarrow> addr option" where
  "RR_pick_next s = (case run_list s of [] \<Rightarrow> None | p # _ \<Rightarrow> Some p)"

definition RR_proc_tick :: "addr \<Rightarrow> 'a sched_scheme \<Rightarrow> 'a sched_scheme" where
  "RR_proc_tick proc s =
     (let s = (if p_time_slice (procs s proc) > 0
               then upd_proc proc (\<lambda>p. p\<lparr>p_time_slice := p_time_slice p - 1\<rparr>) s else s)
      in if p_time_slice (procs s proc) = 0
         then upd_proc proc (\<lambda>p. p\<lparr>p_need_resched := True\<rparr>) s else s)"

section \<open>The scheduler\<close>

definition sched_class_enqueue :: "addr \<Rightarrow> 'a sched_scheme \<Rightarrow> 'a sched_scheme option" where
  "sched_class_enqueue proc s = (if proc \<noteq> idleproc s then RR_enqueue proc s else Some s)"

definition sched_class_dequeue :: "addr \<Rightarrow> 'a sched_scheme \<Rightarrow> 'a sched_scheme option" where
  "sched_class_dequeue proc s = RR_dequeue proc s"

definition sched_class_pick_next :: "'a sched_scheme \<Rightarrow> addr option" where
  "sched_class_pick_next s = RR_pick_next s"

definition sched_class_proc_tick :: "addr \<Rightarrow> 'a sched_scheme \<Rightarrow> 'a sched_scheme" where
  "sched_class_proc_tick proc s =
     (if proc \<noteq> idleproc s then RR_proc_tick proc s
      else upd_proc proc (\<lambda>p. p\<lparr>p_need_resched := True\<rparr>) s)"

definition sched_init :: "'a sched_scheme \<Rightarrow> 'a sched_scheme" where
  "sched_init s = RR_init (s\<lparr>timer_list := [], max_time_slice := MAX_TIME_SLICE\<rparr>)"

definition wakeup_proc :: "addr \<Rightarrow> 'a sched_scheme \<Rightarrow> 'a sched_scheme option" where
  "wakeup_proc proc s =
     do { kassert (p_state (procs s proc) \<noteq> PROC_ZOMBIE);
          if p_state (procs s proc) \<noteq> PROC_RUNNABLE then
            let s = upd_proc proc (\<lambda>p. p\<lparr>p_state := PROC_RUNNABLE, p_wait_state := 0\<rparr>) s
            in if proc \<noteq> current s then sched_class_enqueue proc s else Some s
          else Some s }"

text \<open>
  \<open>proc_run\<close> up to \<open>switch_to\<close>, which continues with the code of the process switched to.
\<close>

definition load_ksp :: "u32 \<Rightarrow> 'a sched_scheme \<Rightarrow> 'a sched_scheme" where
  "load_ksp ksp s = s\<lparr>cpu_ksp := ksp\<rparr>"

definition proc_run :: "addr \<Rightarrow> 'a sched_scheme \<Rightarrow> 'a sched_scheme" where
  "proc_run proc s =
     (if proc \<noteq> current s then
        let s = s\<lparr>current := proc\<rparr>;
            s = load_ksp (p_kstack (procs s proc) + KSTACKSIZE) s
        in s\<lparr>cur_pgdir := p_pgdir (procs s proc)\<rparr>
      else s)"

definition schedule :: "'a sched_scheme \<Rightarrow> 'a sched_scheme option" where
  "schedule s =
     do { let s = upd_proc (current s) (\<lambda>p. p\<lparr>p_need_resched := False\<rparr>) s;
          s \<leftarrow> (if p_state (procs s (current s)) = PROC_RUNNABLE
               then sched_class_enqueue (current s) s else Some s);
          (next, s) \<leftarrow> (case sched_class_pick_next s of
              Some next \<Rightarrow> do { s \<leftarrow> sched_class_dequeue next s; Some (next, s) }
            | None \<Rightarrow> Some (idleproc s, s));
          let s = upd_proc next (\<lambda>p. p\<lparr>p_runs := p_runs p + 1\<rparr>) s;
          Some (if next \<noteq> current s then proc_run next s else s) }"

section \<open>Timers\<close>

text \<open>
  The timer list is a delta list: \<open>expires\<close> of an entry counts from the expiry of the entry before.
  \<open>add_timer_loop\<close> is the loop of \<open>add_timer\<close>: it returns the entries passed, so that the timer
  goes between these and the rest.
\<close>

definition timer_init :: "addr \<Rightarrow> addr \<Rightarrow> nat \<Rightarrow> 'a sched_scheme \<Rightarrow> 'a sched_scheme" where
  "timer_init timer proc expires s =
     s\<lparr>timers := (timers s)(timer := \<lparr>t_expires = expires, t_proc = proc\<rparr>)\<rparr>"

fun add_timer_loop :: "addr \<Rightarrow> addr list \<Rightarrow> 'a sched_scheme \<Rightarrow> addr list \<times> 'a sched_scheme" where
  "add_timer_loop timer [] s = ([timer], s)"
| "add_timer_loop timer (nxt # ts) s =
     (if t_expires (timers s timer) < t_expires (timers s nxt) then
        (timer # nxt # ts,
         set_expires nxt (t_expires (timers s nxt) - t_expires (timers s timer)) s)
      else
        (let s = set_expires timer (t_expires (timers s timer) - t_expires (timers s nxt)) s;
             (ts', s') = add_timer_loop timer ts s
         in (nxt # ts', s')))"

definition add_timer :: "addr \<Rightarrow> 'a sched_scheme \<Rightarrow> 'a sched_scheme option" where
  "add_timer timer s =
     do { kassert (t_expires (timers s timer) > 0 \<and> t_proc (timers s timer) \<noteq> 0);
          kassert (timer \<notin> set (timer_list s));
          let (ts, s) = add_timer_loop timer (timer_list s) s;
          Some (s\<lparr>timer_list := ts\<rparr>) }"

text \<open>The entry that follows \<open>x\<close> on a list, \<open>None\<close> when the next entry is the list head.\<close>

fun list_succ :: "'a \<Rightarrow> 'a list \<Rightarrow> 'a option" where
  "list_succ x (y # z # zs) = (if x = y then Some z else list_succ x (z # zs))"
| "list_succ x _ = None"

definition del_timer :: "addr \<Rightarrow> 'a sched_scheme \<Rightarrow> 'a sched_scheme" where
  "del_timer timer s =
     (if timer \<in> set (timer_list s) then
        let s1 =
          (if t_expires (timers s timer) \<noteq> 0 then
             case list_succ timer (timer_list s) of
               Some nxt \<Rightarrow>
                 set_expires nxt ((t_expires (timers s nxt) + t_expires (timers s timer)) mod 2 ^ 32) s
             | None \<Rightarrow> s
           else s)
        in s1\<lparr>timer_list := remove1 timer (timer_list s1)\<rparr>
      else s)"

text \<open>The \<open>while\<close> loop of \<open>run_timer_list\<close>; the list holds the timers from the current one on.\<close>

fun expire_loop :: "addr list \<Rightarrow> 'a sched_scheme \<Rightarrow> 'a sched_scheme option" where
  "expire_loop [] s = Some s"
| "expire_loop (timer # ts) s =
     (if t_expires (timers s timer) = 0 then
        do { let proc = t_proc (timers s timer);
             kassert (p_wait_state (procs s proc) \<noteq> 0 \<longrightarrow>
               p_wait_state (procs s proc) AND WT_INTERRUPTED \<noteq> 0);
             s \<leftarrow> wakeup_proc proc s;
             expire_loop ts (del_timer timer s) }
      else Some s)"

definition run_timer_list :: "'a sched_scheme \<Rightarrow> 'a sched_scheme option" where
  "run_timer_list s =
     do { s \<leftarrow> (case timer_list s of
              [] \<Rightarrow> Some s
            | timer # ts \<Rightarrow>
                do { kassert (t_expires (timers s timer) \<noteq> 0);
                     expire_loop (timer # ts)
                       (set_expires timer (t_expires (timers s timer) - 1) s) });
          Some (sched_class_proc_tick (current s) s) }"

section \<open>Specification\<close>

definition rq_inv :: "'a sched_scheme \<Rightarrow> bool" where
  "rq_inv s \<longleftrightarrow> distinct (run_list s) \<and> (\<forall>p \<in> set (run_list s). p_rq (procs s p))"

definition sched_inv :: "'a sched_scheme \<Rightarrow> bool" where
  "sched_inv s \<longleftrightarrow>
     rq_inv s \<and> current s \<notin> set (run_list s) \<and> idleproc s \<notin> set (run_list s) \<and>
     (\<forall>p \<in> set (run_list s). p_state (procs s p) = PROC_RUNNABLE \<and>
        0 < p_time_slice (procs s p) \<and> p_time_slice (procs s p) \<le> max_time_slice s) \<and>
     (\<forall>p. p_state (procs s p) = PROC_RUNNABLE \<longrightarrow>
        p \<in> set (run_list s) \<or> p = current s \<or> p = idleproc s) \<and>
     (\<forall>p. 0 \<le> p_time_slice (procs s p)) \<and>
     proc_num s = of_nat (length (run_list s)) \<and> 0 < max_time_slice s \<and>
     p_state (procs s (idleproc s)) = PROC_RUNNABLE"

text \<open>The queue \<open>schedule\<close> picks from: the running process joins it when it can go on running.\<close>

definition ready_queue :: "'a sched_scheme \<Rightarrow> addr list" where
  "ready_queue s = run_list s @
     (if p_state (procs s (current s)) = PROC_RUNNABLE \<and> current s \<noteq> idleproc s
      then [current s] else [])"

text \<open>The process state and wait state, all that other components see change.\<close>

definition run_state :: "'a sched_scheme \<Rightarrow> addr \<Rightarrow> proc_state \<times> u32" where
  "run_state s p = (p_state (procs s p), p_wait_state (procs s p))"

text \<open>
  What can happen between two scheduling decisions, and the decisions themselves. The number
  counts the calls of \<open>schedule\<close>.
\<close>

inductive sched_run :: "'a sched_scheme \<Rightarrow> nat \<Rightarrow> 'a sched_scheme \<Rightarrow> bool" for s0 where
  start: "sched_run s0 0 s0"
| resched: "sched_run s0 n s \<Longrightarrow> schedule s = Some s' \<Longrightarrow> sched_run s0 (Suc n) s'"
| wake: "sched_run s0 n s \<Longrightarrow> wakeup_proc p s = Some s' \<Longrightarrow> sched_run s0 n s'"
| block: "sched_run s0 n s \<Longrightarrow> current s \<noteq> idleproc s \<Longrightarrow> st \<in> {PROC_SLEEPING, PROC_ZOMBIE} \<Longrightarrow>
    sched_run s0 n (upd_proc (current s) (\<lambda>p. p\<lparr>p_state := st, p_wait_state := w\<rparr>) s)"
| tick: "sched_run s0 n s \<Longrightarrow> sched_run s0 n (sched_class_proc_tick (current s) s)"
| timer_add: "sched_run s0 n s \<Longrightarrow> add_timer t s = Some s' \<Longrightarrow> sched_run s0 n s'"
| timer_del: "sched_run s0 n s \<Longrightarrow> sched_run s0 n (del_timer t s)"
| timer_tick: "sched_run s0 n s \<Longrightarrow> run_timer_list s = Some s' \<Longrightarrow> sched_run s0 n s'"

text \<open>
  Pending timers with the number of ticks left until each expires: the running sums of the
  delta list, shifted by \<open>d\<close>.
\<close>

fun due_from :: "nat \<Rightarrow> (addr \<Rightarrow> timer) \<Rightarrow> addr list \<Rightarrow> (addr \<times> nat) list" where
  "due_from d tm [] = []"
| "due_from d tm (t # ts) =
     (t, d + t_expires (tm t)) # due_from (d + t_expires (tm t)) tm ts"

definition due :: "'a sched_scheme \<Rightarrow> (addr \<times> nat) list" where
  "due s = due_from 0 (timers s) (timer_list s)"

text \<open>Insertion into the pending timers, after those that expire no later.\<close>

fun insert_due :: "addr \<times> nat \<Rightarrow> (addr \<times> nat) list \<Rightarrow> (addr \<times> nat) list" where
  "insert_due x [] = [x]"
| "insert_due x (y # ys) = (if snd x < snd y then x # y # ys else y # insert_due x ys)"

definition timers_ok :: "'a sched_scheme \<Rightarrow> bool" where
  "timers_ok s \<longleftrightarrow> distinct (timer_list s) \<and>
     (\<forall>(t, d) \<in> set (due s). 0 < d \<and> d < 2 ^ 32)"

text \<open>A timer may wake a process that is not dead and that waits interruptibly, if at all.\<close>

definition wake_ok :: "proc_state \<times> u32 \<Rightarrow> bool" where
  "wake_ok r \<longleftrightarrow> fst r \<noteq> PROC_ZOMBIE \<and> (snd r \<noteq> 0 \<longrightarrow> snd r AND WT_INTERRUPTED \<noteq> 0)"

text \<open>The processes of a set get runnable.\<close>

definition woken :: "addr set \<Rightarrow> (addr \<Rightarrow> proc_state \<times> u32) \<Rightarrow> addr \<Rightarrow> proc_state \<times> u32" where
  "woken P r p = (if p \<in> P \<and> fst (r p) \<noteq> PROC_RUNNABLE then (PROC_RUNNABLE, 0) else r p)"

text \<open>
  A small system: process 1 is idle, 2 is running, 3 is queued, 4 sleeps on the timer 9 that
  expires with the next tick.
\<close>

definition blank_proc :: proc_struct where
  "blank_proc = \<lparr>p_state = PROC_UNINIT, p_pid = 0, p_runs = 0, p_kstack = 0, p_need_resched = False,
     p_parent = 0, p_mm = 0,
     p_context = \<lparr>ctx_ra = 0, ctx_sp = 0, ctx_s = replicate 8 0, ctx_gp = 0, ctx_fp = 0\<rparr>,
     p_tf = 0, p_pgdir = 0, p_flags = 0, p_name = replicate 51 (CHR 0x00), p_exit_code = 0,
     p_wait_state = 0, p_cptr = 0, p_yptr = 0, p_optr = 0, p_rq = False, p_time_slice = 0,
     p_lab6_priority = 0, p_filesp = 0\<rparr>"

definition four_procs :: sched where
  "four_procs =
     \<lparr>procs = (\<lambda>_. blank_proc)(
        1 := blank_proc\<lparr>p_state := PROC_RUNNABLE\<rparr>,
        2 := blank_proc\<lparr>p_state := PROC_RUNNABLE, p_time_slice := 5\<rparr>,
        3 := blank_proc\<lparr>p_state := PROC_RUNNABLE, p_time_slice := 20, p_rq := True\<rparr>,
        4 := blank_proc\<lparr>p_state := PROC_SLEEPING, p_wait_state := WT_TIMER\<rparr>),
      current = 2, idleproc = 1, run_list = [3], proc_num = 1, max_time_slice = 20,
      timer_list = [9], timers = (\<lambda>_. \<lparr>t_expires = 0, t_proc = 0\<rparr>)(9 := \<lparr>t_expires = 1, t_proc = 4\<rparr>),
      cpu_ksp = 0, cur_pgdir = 0\<rparr>"

section \<open>Frame lemmas\<close>

lemma upd_proc_simps [simp]:
  "procs (upd_proc p f s) = (procs s)(p := f (procs s p))"
  "current (upd_proc p f s) = current s"
  "idleproc (upd_proc p f s) = idleproc s"
  "run_list (upd_proc p f s) = run_list s"
  "proc_num (upd_proc p f s) = proc_num s"
  "max_time_slice (upd_proc p f s) = max_time_slice s"
  "timer_list (upd_proc p f s) = timer_list s"
  "timers (upd_proc p f s) = timers s"
  "sched.more (upd_proc p f s) = sched.more s"
  by (simp_all add: upd_proc_def)

lemma set_expires_simps [simp]:
  "procs (set_expires t n s) = procs s"
  "current (set_expires t n s) = current s"
  "idleproc (set_expires t n s) = idleproc s"
  "run_list (set_expires t n s) = run_list s"
  "proc_num (set_expires t n s) = proc_num s"
  "max_time_slice (set_expires t n s) = max_time_slice s"
  "timer_list (set_expires t n s) = timer_list s"
  "timers (set_expires t n s) = (timers s)(t := (timers s t)\<lparr>t_expires := n\<rparr>)"
  "sched.more (set_expires t n s) = sched.more s"
  by (simp_all add: set_expires_def)

text \<open>The scheduler's invariant depends on these fields only.\<close>

lemma sched_inv_cong:
  "procs s = procs s' \<Longrightarrow> current s = current s' \<Longrightarrow> idleproc s = idleproc s' \<Longrightarrow>
    run_list s = run_list s' \<Longrightarrow> proc_num s = proc_num s' \<Longrightarrow>
    max_time_slice s = max_time_slice s' \<Longrightarrow> sched_inv s = sched_inv s'"
  by (simp add: sched_inv_def rq_inv_def)

section \<open>The run queue is a FIFO queue\<close>

text \<open>\<open>enq_slice\<close>: the time slice a process has once it is queued.\<close>

definition enq_slice :: "int \<Rightarrow> int \<Rightarrow> int" where
  "enq_slice mx ts = (if ts = 0 \<or> ts > mx then mx else ts)"

lemma RR_enqueue_eq:
  "RR_enqueue p s = (if p \<in> set (run_list s) then None else Some (s\<lparr>
     procs := (procs s)(p := (procs s p)\<lparr>p_rq := True,
       p_time_slice := enq_slice (max_time_slice s) (p_time_slice (procs s p))\<rparr>),
     run_list := run_list s @ [p], proc_num := proc_num s + 1\<rparr>))"
  by (auto simp: RR_enqueue_def bind_kassert Let_def upd_proc_def enq_slice_def
    intro!: sched.equality ext proc_struct.equality)

lemma enq_slice_bounds:
  "0 \<le> ts \<Longrightarrow> 0 < mx \<Longrightarrow> 0 < enq_slice mx ts \<and> enq_slice mx ts \<le> mx"
  by (auto simp: enq_slice_def)

lemma RR_dequeue_eq:
  "RR_dequeue p s = (if p \<in> set (run_list s) \<and> p_rq (procs s p)
     then Some (s\<lparr>run_list := remove1 p (run_list s), proc_num := proc_num s - 1\<rparr>) else None)"
  by (simp add: RR_dequeue_def bind_kassert Let_def)

interpretation rr: fifo_queue run_list rq_inv "\<lambda>_ _. True" RR_enqueue RR_pick_next RR_dequeue
  by unfold_locales
    (auto simp: rq_inv_def RR_enqueue_eq RR_dequeue_eq RR_pick_next_def dest: notin_set_remove1)

section \<open>Scheduling\<close>

lemma wakeup_proc_ok:
  assumes inv: "sched_inv s" and z: "p_state (procs s p) \<noteq> PROC_ZOMBIE"
  shows "\<exists>s'. wakeup_proc p s = Some s' \<and> sched_inv s' \<and> current s' = current s \<and>
    idleproc s' = idleproc s \<and> timers s' = timers s \<and> timer_list s' = timer_list s \<and>
    sched.more s' = sched.more s \<and>
    run_list s' = run_list s @ (if p_state (procs s p) = PROC_RUNNABLE \<or> p = current s then [] else [p]) \<and>
    run_state s' = woken {p} (run_state s)"
proof (cases "p_state (procs s p) = PROC_RUNNABLE")
  case True
  with inv show ?thesis
    by (auto simp: wakeup_proc_def woken_def run_state_def fun_eq_iff)
next
  case False
  with inv have p: "p \<noteq> idleproc s" "p \<notin> set (run_list s)"
    by (auto simp: sched_inv_def)
  show ?thesis
  proof (cases "p = current s")
    case True
    with False z inv show ?thesis
      by (auto simp: wakeup_proc_def Let_def bind_kassert sched_inv_def rq_inv_def run_state_def
        woken_def fun_eq_iff)
  next
    case cur: False
    let ?s = "upd_proc p (\<lambda>p. p\<lparr>p_state := PROC_RUNNABLE, p_wait_state := 0\<rparr>) s"
    have "wakeup_proc p s = RR_enqueue p ?s"
      using False z p cur by (simp add: wakeup_proc_def bind_kassert sched_class_enqueue_def Let_def)
    moreover have "0 < enq_slice (max_time_slice s) (p_time_slice (procs s p)) \<and>
        enq_slice (max_time_slice s) (p_time_slice (procs s p)) \<le> max_time_slice s"
      using inv by (intro enq_slice_bounds) (simp_all add: sched_inv_def)
    ultimately show ?thesis
      using False z inv p cur
      by (auto simp: RR_enqueue_eq sched_inv_def rq_inv_def run_state_def woken_def fun_eq_iff)
  qed
qed

lemma wakeup_proc_SomeD:
  assumes "sched_inv s" "wakeup_proc p s = Some s'"
  shows "p_state (procs s p) \<noteq> PROC_ZOMBIE" and "sched_inv s'" and "current s' = current s"
    and "idleproc s' = idleproc s" and "timers s' = timers s" and "timer_list s' = timer_list s"
    and "\<exists>xs. run_list s' = run_list s @ xs"
proof -
  from assms(2) show z: "p_state (procs s p) \<noteq> PROC_ZOMBIE"
    by (simp add: wakeup_proc_def)
  from wakeup_proc_ok [OF assms(1) z] assms(2)
  show "sched_inv s'" "current s' = current s" "idleproc s' = idleproc s" "timers s' = timers s"
    "timer_list s' = timer_list s" "\<exists>xs. run_list s' = run_list s @ xs"
    by auto
qed

text \<open>The first half of \<open>schedule\<close>: the running process joins the queue when it is runnable.\<close>

lemma schedule_enqueue:
  assumes inv: "sched_inv s"
    and s1: "s1 = upd_proc (current s) (\<lambda>p. p\<lparr>p_need_resched := False\<rparr>) s"
  shows "\<exists>s2. (if p_state (procs s1 (current s1)) = PROC_RUNNABLE
      then sched_class_enqueue (current s1) s1 else Some s1) = Some s2 \<and>
    run_list s2 = ready_queue s \<and> current s2 = current s \<and> idleproc s2 = idleproc s \<and>
    timers s2 = timers s \<and> timer_list s2 = timer_list s \<and> sched.more s2 = sched.more s \<and>
    run_state s2 = run_state s \<and> max_time_slice s2 = max_time_slice s \<and>
    distinct (ready_queue s) \<and> idleproc s \<notin> set (ready_queue s) \<and>
    proc_num s2 = of_nat (length (ready_queue s)) \<and>
    (\<forall>p \<in> set (ready_queue s). p_rq (procs s2 p) \<and> p_state (procs s2 p) = PROC_RUNNABLE \<and>
      0 < p_time_slice (procs s2 p) \<and> p_time_slice (procs s2 p) \<le> max_time_slice s) \<and>
    (\<forall>p. 0 \<le> p_time_slice (procs s2 p)) \<and>
    (\<forall>p. p_state (procs s2 p) = PROC_RUNNABLE \<longrightarrow> p \<in> set (ready_queue s) \<or> p = idleproc s)"
proof (cases "p_state (procs s (current s)) = PROC_RUNNABLE \<and> current s \<noteq> idleproc s")
  case False
  then have q: "ready_queue s = run_list s"
    by (simp add: ready_queue_def)
  have "(if p_state (procs s1 (current s1)) = PROC_RUNNABLE
      then sched_class_enqueue (current s1) s1 else Some s1) = Some s1"
    using False by (auto simp: s1 sched_class_enqueue_def)
  moreover have "p_state (procs s p) = PROC_RUNNABLE \<longrightarrow> p \<in> set (run_list s) \<or> p = idleproc s" for p
    using inv False by (auto simp: sched_inv_def)
  ultimately show ?thesis
    using inv unfolding q
    by (intro exI [of _ s1] conjI) (auto simp: s1 sched_inv_def rq_inv_def run_state_def fun_eq_iff)
next
  case True
  let ?c = "current s"
  have q: "ready_queue s = run_list s @ [?c]"
    using True by (simp add: ready_queue_def)
  have c: "?c \<notin> set (run_list s)"
    using inv by (simp add: sched_inv_def)
  have b: "0 < enq_slice (max_time_slice s) (p_time_slice (procs s ?c)) \<and>
      enq_slice (max_time_slice s) (p_time_slice (procs s ?c)) \<le> max_time_slice s"
    using inv by (intro enq_slice_bounds) (simp_all add: sched_inv_def)
  define s2 where "s2 = s1\<lparr>procs := (procs s1)(?c := (procs s1 ?c)\<lparr>p_rq := True,
       p_time_slice := enq_slice (max_time_slice s) (p_time_slice (procs s ?c))\<rparr>),
     run_list := run_list s @ [?c], proc_num := proc_num s + 1\<rparr>"
  have "(if p_state (procs s1 (current s1)) = PROC_RUNNABLE
      then sched_class_enqueue (current s1) s1 else Some s1) = Some s2"
    using True c by (simp add: s1 s2_def sched_class_enqueue_def RR_enqueue_eq)
  then show ?thesis
    using inv True b c unfolding q
    by (intro exI [of _ s2] conjI)
      (auto simp: s1 s2_def sched_inv_def rq_inv_def run_state_def fun_eq_iff)
qed

text \<open>The second half: switching to the process taken from the queue.\<close>

lemma schedule_switch:
  assumes "s' = (let s = upd_proc x (\<lambda>p. p\<lparr>p_runs := p_runs p + 1\<rparr>) s3
        in if x \<noteq> current s then proc_run x s else s)"
  shows "current s' = x" and "run_list s' = run_list s3" and "idleproc s' = idleproc s3"
    and "timers s' = timers s3" and "timer_list s' = timer_list s3" and "sched.more s' = sched.more s3"
    and "run_state s' = run_state s3" and "proc_num s' = proc_num s3"
    and "max_time_slice s' = max_time_slice s3"
    and "p_rq (procs s' p) = p_rq (procs s3 p)" and "p_state (procs s' p) = p_state (procs s3 p)"
    and "p_time_slice (procs s' p) = p_time_slice (procs s3 p)"
  by (auto simp: assms proc_run_def load_ksp_def Let_def run_state_def fun_eq_iff)

lemma schedule_ok:
  assumes inv: "sched_inv s"
  shows "\<exists>s'. schedule s = Some s' \<and> sched_inv s' \<and> idleproc s' = idleproc s \<and>
    run_state s' = run_state s \<and> timers s' = timers s \<and> timer_list s' = timer_list s \<and>
    sched.more s' = sched.more s \<and> p_state (procs s' (current s')) = PROC_RUNNABLE \<and>
    (case ready_queue s of
       [] \<Rightarrow> current s' = idleproc s \<and> run_list s' = []
     | x # xs \<Rightarrow> current s' = x \<and> run_list s' = xs)"
proof -
  define s1 where "s1 = upd_proc (current s) (\<lambda>p. p\<lparr>p_need_resched := False\<rparr>) s"
  obtain s2 where enq: "(if p_state (procs s1 (current s1)) = PROC_RUNNABLE
      then sched_class_enqueue (current s1) s1 else Some s1) = Some s2"
    and s2: "run_list s2 = ready_queue s" "current s2 = current s" "idleproc s2 = idleproc s"
    "timers s2 = timers s" "timer_list s2 = timer_list s" "sched.more s2 = sched.more s"
    "run_state s2 = run_state s" "max_time_slice s2 = max_time_slice s"
    and q: "distinct (ready_queue s)" "idleproc s \<notin> set (ready_queue s)"
    "proc_num s2 = of_nat (length (ready_queue s))"
    "\<forall>p \<in> set (ready_queue s). p_rq (procs s2 p) \<and> p_state (procs s2 p) = PROC_RUNNABLE \<and>
      0 < p_time_slice (procs s2 p) \<and> p_time_slice (procs s2 p) \<le> max_time_slice s"
    "\<forall>p. 0 \<le> p_time_slice (procs s2 p)"
    "\<forall>p. p_state (procs s2 p) = PROC_RUNNABLE \<longrightarrow> p \<in> set (ready_queue s) \<or> p = idleproc s"
    using schedule_enqueue [OF inv s1_def] by (elim exE conjE) blast
  have "p_state (procs s2 p) = p_state (procs s p)" for p
    using fun_cong [OF s2(7), of p] by (simp add: run_state_def)
  then have idle: "p_state (procs s2 (idleproc s)) = PROC_RUNNABLE" "0 < max_time_slice s"
    using inv by (simp_all add: sched_inv_def)
  show ?thesis
  proof (cases "ready_queue s")
    case Nil
    obtain s' where s': "s' = (let t = upd_proc (idleproc s) (\<lambda>p. p\<lparr>p_runs := p_runs p + 1\<rparr>) s2
        in if idleproc s \<noteq> current t then proc_run (idleproc s) t else t)" by blast
    then have "schedule s = Some s'"
      using Nil enq s2(1-3) by (simp add: schedule_def s1_def [symmetric] sched_class_pick_next_def
        RR_pick_next_def Let_def)
    moreover note sw = schedule_switch [OF s']
    have "sched_inv s'"
      unfolding sched_inv_def rq_inv_def
    proof (intro conjI)
      show "\<forall>p. p_state (procs s' p) = PROC_RUNNABLE \<longrightarrow>
          p \<in> set (run_list s') \<or> p = current s' \<or> p = idleproc s'"
        using q(6) Nil sw(1,11) by (metis empty_iff empty_set)
    qed (use Nil q(1-5) s2 idle sw in simp_all)
    ultimately show ?thesis
      using Nil q(1-5) s2 idle sw by simp
  next
    case (Cons x xs)
    define s3 where "s3 = s2\<lparr>run_list := xs, proc_num := proc_num s2 - 1\<rparr>"
    have "RR_dequeue x s2 = Some s3"
      using Cons q s2 by (simp add: RR_dequeue_eq s3_def)
    moreover obtain s' where s': "s' = (let s = upd_proc x (\<lambda>p. p\<lparr>p_runs := p_runs p + 1\<rparr>) s3
        in if x \<noteq> current s then proc_run x s else s)" by blast
    ultimately have "schedule s = Some s'"
      using Cons enq s2(1-3) by (simp add: schedule_def s1_def [symmetric] sched_class_pick_next_def
        sched_class_dequeue_def RR_pick_next_def Let_def)
    moreover have "run_state s3 = run_state s2" "proc_num s3 = of_nat (length xs)"
      using q(3) Cons by (simp_all add: s3_def run_state_def fun_eq_iff)
    ultimately show ?thesis
      using Cons q s2 idle schedule_switch [OF s']
      by (simp add: sched_inv_def rq_inv_def s3_def) blast
  qed
qed

section \<open>Timers\<close>

lemma due_from_fst [simp]: "map fst (due_from d tm ts) = ts"
  by (induction ts arbitrary: d) auto

lemma due_from_set: "fst ` set (due_from d tm ts) = set ts"
  by (metis due_from_fst set_map)

lemma due_from_cong:
  "(\<And>t. t \<in> set ts \<Longrightarrow> t_expires (tm t) = t_expires (tm' t)) \<Longrightarrow> due_from d tm ts = due_from d tm' ts"
  by (induction ts arbitrary: d) auto

lemma due_from_ge: "(t, e) \<in> set (due_from d tm ts) \<Longrightarrow> d \<le> e"
  by (induction ts arbitrary: d) force+

lemma add_timer_loop_ok:
  "add_timer_loop t ts s = (ts', s') \<Longrightarrow> t \<notin> set ts \<Longrightarrow> distinct ts \<Longrightarrow>
    due_from d (timers s') ts' =
      insert_due (t, d + t_expires (timers s t)) (due_from d (timers s) ts) \<and>
    set ts' = insert t (set ts) \<and> distinct ts' \<and>
    (\<forall>x. x \<notin> insert t (set ts) \<longrightarrow> timers s' x = timers s x) \<and>
    (\<forall>x. t_proc (timers s' x) = t_proc (timers s x)) \<and>
    s' = s\<lparr>timers := timers s'\<rparr>"
proof (induction ts arbitrary: d s ts' s')
  case (Cons u ts)
  show ?case
  proof (cases "t_expires (timers s t) < t_expires (timers s u)")
    case True
    define k where "k = t_expires (timers s u) - t_expires (timers s t)"
    have e: "ts' = t # u # ts" "s' = set_expires u k s"
      using True Cons.prems(1) by (simp_all add: k_def)
    have "due_from e (timers s') ts = due_from e (timers s) ts" for e
      using Cons.prems by (intro due_from_cong) (auto simp: e)
    moreover have "t_expires (timers s' u) = k" "timers s' t = timers s t"
      using Cons.prems by (simp_all add: e)
    moreover have "s' = s\<lparr>timers := timers s'\<rparr>"
      by (simp add: e set_expires_def)
    ultimately show ?thesis
      using True Cons.prems(2,3) by (simp add: e(1) k_def) (simp add: e(2))
  next
    case False
    define s1 where "s1 = set_expires t (t_expires (timers s t) - t_expires (timers s u)) s"
    from False Cons.prems(1) obtain ts1 where ts1: "add_timer_loop t ts s1 = (ts1, s')" "ts' = u # ts1"
      by (auto simp: s1_def Let_def split: prod.splits)
    note IH = Cons.IH [OF ts1(1), of "d + t_expires (timers s u)"]
    have "due_from e (timers s1) ts = due_from e (timers s) ts" for e
      using Cons.prems by (intro due_from_cong) (auto simp: s1_def)
    moreover have "t_expires (timers s1 t) = t_expires (timers s t) - t_expires (timers s u)"
      by (simp add: s1_def)
    moreover have "timers s' u = timers s u"
      using IH Cons.prems by (auto simp: s1_def)
    moreover have "s' = s\<lparr>timers := timers s'\<rparr>"
    proof -
      have "s' = s1\<lparr>timers := timers s'\<rparr>"
        using IH Cons.prems by simp
      also have "\<dots> = s\<lparr>timers := timers s'\<rparr>"
        by (simp add: s1_def set_expires_def)
      finally show ?thesis .
    qed
    moreover have "timers s1 x = timers s x" if "x \<noteq> t" for x
      using that by (simp add: s1_def)
    moreover have "t_proc (timers s1 x) = t_proc (timers s x)" for x
      by (simp add: s1_def)
    ultimately show ?thesis
      using IH Cons.prems(2,3) False ts1(2) by (auto simp del: set_expires_simps)
  qed
qed auto

lemma add_timer_ok:
  assumes ok: "timers_ok s" and t: "t \<notin> set (timer_list s)" "t_proc (timers s t) \<noteq> 0"
    "0 < t_expires (timers s t)" "t_expires (timers s t) < 2 ^ 32"
  shows "\<exists>s'. add_timer t s = Some s' \<and> timers_ok s' \<and>
    due s' = insert_due (t, t_expires (timers s t)) (due s) \<and>
    (\<forall>x. t_proc (timers s' x) = t_proc (timers s x)) \<and>
    s' = s\<lparr>timers := timers s', timer_list := timer_list s'\<rparr>"
proof -
  obtain ts' s1 where loop: "add_timer_loop t (timer_list s) s = (ts', s1)"
    by fastforce
  have d: "distinct (timer_list s)"
    using ok by (simp add: timers_ok_def)
  note L = add_timer_loop_ok [OF loop t(1) d, of 0]
  have "set (insert_due x xs) = insert x (set xs)" for x :: "addr \<times> nat" and xs
    by (induction xs) auto
  with L ok t have "timers_ok (s1\<lparr>timer_list := ts'\<rparr>)"
    by (auto simp: timers_ok_def due_def)
  moreover have "add_timer t s = Some (s1\<lparr>timer_list := ts'\<rparr>)"
    using t loop by (simp add: add_timer_def bind_kassert)
  moreover from L have "s1\<lparr>timer_list := ts'\<rparr> = s\<lparr>timers := timers s1, timer_list := ts'\<rparr>"
    by metis
  moreover have "due (s1\<lparr>timer_list := ts'\<rparr>) = insert_due (t, t_expires (timers s t)) (due s)"
    using L by (simp add: due_def)
  moreover have "\<forall>x. t_proc (timers (s1\<lparr>timer_list := ts'\<rparr>) x) = t_proc (timers s x)"
    using L by simp
  ultimately show ?thesis
    by (intro exI [of _ "s1\<lparr>timer_list := ts'\<rparr>"]) simp
qed

lemma list_succ_None: "x \<notin> set xs \<Longrightarrow> list_succ x (xs @ [x]) = None"
  by (induction xs rule: induct_list012) auto

lemma list_succ_Some: "x \<notin> set xs \<Longrightarrow> list_succ x (xs @ x # y # ys) = Some y"
  by (induction xs rule: induct_list012) auto

lemma due_from_append:
  "due_from d tm (xs @ ys) = due_from d tm xs @ due_from (d + (\<Sum>x\<leftarrow>xs. t_expires (tm x))) tm ys"
  by (induction xs arbitrary: d) (auto simp: add.assoc)

lemma del_timer_ok:
  assumes ok: "timers_ok s" and t: "t \<in> set (timer_list s)"
  shows "timers_ok (del_timer t s)" and "due (del_timer t s) = filter (\<lambda>x. fst x \<noteq> t) (due s)"
    and "del_timer t s = s\<lparr>timers := timers (del_timer t s), timer_list := remove1 t (timer_list s)\<rparr>"
proof -
  from t obtain xs ys where sp: "timer_list s = xs @ t # ys" "t \<notin> set xs"
    by (meson split_list_first)
  with ok have d: "t \<notin> set ys" "distinct (xs @ ys)"
    by (auto simp: timers_ok_def)
  have filt: "filter (\<lambda>x. fst x \<noteq> t) (due_from e tm zs) = due_from e tm zs" if "t \<notin> set zs" for e tm zs
    using that due_from_set [of e tm zs] by (intro filter_True) force
  show rec: "del_timer t s = s\<lparr>timers := timers (del_timer t s), timer_list := remove1 t (timer_list s)\<rparr>"
    using t by (auto simp: del_timer_def set_expires_def split: option.splits)
  show due: "due (del_timer t s) = filter (\<lambda>x. fst x \<noteq> t) (due s)"
  proof (cases ys)
    case Nil
    with sp d t show ?thesis
      by (simp add: due_def del_timer_def list_succ_None due_from_append filt remove1_append)
  next
    case (Cons y zs)
    let ?e = "(\<Sum>x\<leftarrow>xs. t_expires (timers s x))"
    have "(y, ?e + t_expires (timers s t) + t_expires (timers s y)) \<in> set (due s)"
      using sp Cons by (simp add: due_def due_from_append)
    with ok have lt: "t_expires (timers s y) + t_expires (timers s t) < 2 ^ 32"
      by (fastforce simp: timers_ok_def)
    have cong: "due_from e ((timers s)(y := (timers s y)\<lparr>t_expires := k\<rparr>)) us = due_from e (timers s) us"
      if "y \<notin> set us" for e k us
      using that by (intro due_from_cong) auto
    have "(\<Sum>x\<leftarrow>xs. t_expires (((timers s)(y := (timers s y)\<lparr>t_expires := k\<rparr>)) x)) = ?e" for k
      using d Cons by (intro arg_cong [where f = sum_list] map_cong) auto
    with sp d t Cons lt cong [of xs] cong [of zs] filt [of xs] filt [of zs] show ?thesis
      by (auto simp: due_def del_timer_def list_succ_Some due_from_append remove1_append ac_simps)
  qed
  have "timer_list (del_timer t s) = remove1 t (timer_list s)"
    by (subst rec) simp
  with due ok show "timers_ok (del_timer t s)"
    by (auto simp: timers_ok_def distinct_remove1)
qed

lemma del_timer_zero:
  "t_expires (timers s t) = 0 \<Longrightarrow> t \<in> set (timer_list s) \<Longrightarrow>
    del_timer t s = s\<lparr>timer_list := remove1 t (timer_list s)\<rparr>"
  by (simp add: del_timer_def)

lemma proc_tick_frame:
  "run_state (sched_class_proc_tick p s) = run_state s"
  "timers (sched_class_proc_tick p s) = timers s"
  "timer_list (sched_class_proc_tick p s) = timer_list s"
  "run_list (sched_class_proc_tick p s) = run_list s"
  "current (sched_class_proc_tick p s) = current s"
  "idleproc (sched_class_proc_tick p s) = idleproc s"
  "sched.more (sched_class_proc_tick p s) = sched.more s"
  by (auto simp: sched_class_proc_tick_def RR_proc_tick_def Let_def run_state_def fun_eq_iff)

lemma proc_tick_inv: "sched_inv s \<Longrightarrow> sched_inv (sched_class_proc_tick (current s) s)"
  by (auto simp: sched_class_proc_tick_def RR_proc_tick_def Let_def sched_inv_def rq_inv_def)

lemma expire_loop_ok:
  "sched_inv s \<Longrightarrow> timer_list s = ts \<Longrightarrow> distinct ts \<Longrightarrow>
    \<forall>t \<in> set (takeWhile (\<lambda>t. t_expires (timers s t) = 0) ts). wake_ok (run_state s (t_proc (timers s t))) \<Longrightarrow>
    \<exists>s'. expire_loop ts s = Some s' \<and> sched_inv s' \<and> timers s' = timers s \<and>
      timer_list s' = dropWhile (\<lambda>t. t_expires (timers s t) = 0) ts \<and>
      current s' = current s \<and> idleproc s' = idleproc s \<and> (\<exists>xs. run_list s' = run_list s @ xs) \<and>
      run_state s' = woken ((\<lambda>t. t_proc (timers s t)) `
        set (takeWhile (\<lambda>t. t_expires (timers s t) = 0) ts)) (run_state s)"
proof (induction ts arbitrary: s)
  case Nil
  then show ?case by (auto simp: woken_def)
next
  case (Cons t ts)
  show ?case
  proof (cases "t_expires (timers s t) = 0")
    case False
    with Cons.prems show ?thesis by (auto simp: woken_def)
  next
    case True
    let ?p = "t_proc (timers s t)"
    have w: "wake_ok (run_state s ?p)"
      using Cons.prems(4) True by simp
    then obtain s1 where s1: "wakeup_proc ?p s = Some s1" "sched_inv s1" "current s1 = current s"
      "idleproc s1 = idleproc s" "timers s1 = timers s" "timer_list s1 = timer_list s"
      "\<exists>xs. run_list s1 = run_list s @ xs" "run_state s1 = woken {?p} (run_state s)"
      using wakeup_proc_ok [OF Cons.prems(1), of ?p] by (auto simp: wake_ok_def run_state_def)
    define s2 where "s2 = s1\<lparr>timer_list := ts\<rparr>"
    have s2: "sched_inv s2" "timer_list s2 = ts" "timers s2 = timers s" "run_state s2 = run_state s1"
      "current s2 = current s" "idleproc s2 = idleproc s" "run_list s2 = run_list s1"
      using s1 sched_inv_cong [of s1 s2] by (simp_all add: s2_def run_state_def fun_eq_iff)
    have "wake_ok (run_state s2 q)" if "wake_ok (run_state s q)" for q
      using that by (simp add: s2 s1 woken_def wake_ok_def)
    with Cons.prems(3,4) True obtain s' where s': "expire_loop ts s2 = Some s'" "sched_inv s'"
      "timers s' = timers s" "timer_list s' = dropWhile (\<lambda>t. t_expires (timers s t) = 0) ts"
      "current s' = current s" "idleproc s' = idleproc s" "\<exists>xs. run_list s' = run_list s1 @ xs"
      "run_state s' = woken ((\<lambda>t. t_proc (timers s t)) `
        set (takeWhile (\<lambda>t. t_expires (timers s t) = 0) ts)) (run_state s2)"
      using Cons.IH [OF s2(1,2)] by (auto simp: s2(3,5,6,7))
    have "del_timer t s1 = s2"
      using True s1 Cons.prems(2) by (simp add: del_timer_zero s2_def)
    then have "expire_loop (t # ts) s = Some s'"
      using True s1(1) s'(1) w by (simp add: bind_kassert wake_ok_def run_state_def Let_def)
    moreover have "run_state s' = woken ((\<lambda>t. t_proc (timers s t)) `
        set (takeWhile (\<lambda>t. t_expires (timers s t) = 0) (t # ts))) (run_state s)"
      using True by (auto simp: s'(8) s2(4) s1(8) woken_def fun_eq_iff)
    moreover from s'(7) s1(7) have "\<exists>xs. run_list s' = run_list s @ xs"
      by auto
    ultimately show ?thesis
      using True s'(2-6) by (intro exI [of _ s']) simp
  qed
qed

lemma due_from_shift:
  "map (\<lambda>(t, x). (t, x - 1)) (due_from (Suc d) tm ts) = due_from d tm ts"
  by (induction ts arbitrary: d) auto

lemma due_from_drop_zero:
  "due_from 0 tm (dropWhile (\<lambda>t. t_expires (tm t) = 0) ts) =
    filter (\<lambda>x. 0 < snd x) (due_from 0 tm ts)"
proof (induction ts)
  case (Cons t ts)
  have "filter (\<lambda>x. 0 < snd x) (due_from e tm ts) = due_from e tm ts" if "0 < e" for e
    using that by (intro filter_True) (auto dest: due_from_ge)
  with Cons show ?case by auto
qed simp

lemma due_from_take_zero:
  "set (takeWhile (\<lambda>t. t_expires (tm t) = 0) ts) = {t. (t, 0) \<in> set (due_from 0 tm ts)}"
proof (induction ts)
  case (Cons t ts)
  have "(u, 0) \<notin> set (due_from e tm ts)" if "0 < e" for e u
    using that by (auto dest: due_from_ge)
  with Cons show ?case
    by (cases "t_expires (tm t) = 0") auto
qed simp

lemma due_decrement:
  assumes "timer_list s = t # ts" "distinct (t # ts)" "0 < t_expires (timers s t)"
  shows "due (set_expires t (t_expires (timers s t) - 1) s) = map (\<lambda>(t, x). (t, x - 1)) (due s)"
proof -
  let ?s = "set_expires t (t_expires (timers s t) - 1) s"
  have "due_from e (timers ?s) ts = due_from e (timers s) ts" for e
    using assms(2) by (intro due_from_cong) auto
  with assms(3) due_from_shift [of "t_expires (timers s t) - 1" "timers s" ts] show ?thesis
    by (simp add: due_def assms(1) del: set_expires_simps(8)) simp
qed

lemma run_timer_list_ok:
  assumes inv: "sched_inv s" and ok: "timers_ok s"
    and wk: "\<forall>t. (t, 1) \<in> set (due s) \<longrightarrow> wake_ok (run_state s (t_proc (timers s t)))"
  shows "\<exists>s'. run_timer_list s = Some s' \<and> sched_inv s' \<and> timers_ok s' \<and>
    due s' = map (\<lambda>(t, d). (t, d - 1)) (filter (\<lambda>(t, d). 1 < d) (due s)) \<and>
    run_state s' = woken {t_proc (timers s t) | t. (t, 1) \<in> set (due s)} (run_state s) \<and>
    current s' = current s \<and> idleproc s' = idleproc s \<and> (\<exists>xs. run_list s' = run_list s @ xs)"
proof (cases "timer_list s")
  case Nil
  then have "run_timer_list s = Some (sched_class_proc_tick (current s) s)"
    by (simp add: run_timer_list_def)
  with Nil proc_tick_inv [OF inv] ok show ?thesis
    by (auto simp: due_def timers_ok_def proc_tick_frame woken_def)
next
  case (Cons t ts)
  define s1 where "s1 = set_expires t (t_expires (timers s t) - 1) s"
  have d: "distinct (t # ts)"
    using ok Cons by (simp add: timers_ok_def)
  have pos: "0 < t_expires (timers s t)"
    using ok Cons by (auto simp: timers_ok_def due_def)
  have due1: "due s1 = map (\<lambda>(t, x). (t, x - 1)) (due s)"
    unfolding s1_def by (rule due_decrement [OF Cons d pos])
  have s1: "timer_list s1 = t # ts" "sched_inv s1" "run_state s1 = run_state s"
    "current s1 = current s" "idleproc s1 = idleproc s" "run_list s1 = run_list s"
    "\<And>x. t_proc (timers s1 x) = t_proc (timers s x)"
    using Cons inv sched_inv_cong [of s1 s] by (simp_all add: s1_def run_state_def fun_eq_iff)
  have "(u, 0) \<in> set (due s1) \<longleftrightarrow> (u, 1) \<in> set (due s)" for u
  proof
    assume "(u, 0) \<in> set (due s1)"
    then obtain x where x: "(u, x) \<in> set (due s)" "x - 1 = 0"
      unfolding due1 by auto
    with ok have "x = 1"
      by (fastforce simp: timers_ok_def)
    with x show "(u, 1) \<in> set (due s)" by simp
  qed (force simp: due1)
  then have ex: "set (takeWhile (\<lambda>t. t_expires (timers s1 t) = 0) (t # ts)) = {t. (t, 1) \<in> set (due s)}"
    unfolding due_from_take_zero by (simp only: due_def s1(1))
  obtain s2 where s2: "expire_loop (t # ts) s1 = Some s2" "sched_inv s2" "timers s2 = timers s1"
    "timer_list s2 = dropWhile (\<lambda>t. t_expires (timers s1 t) = 0) (t # ts)"
    "current s2 = current s" "idleproc s2 = idleproc s" "\<exists>xs. run_list s2 = run_list s @ xs"
    "run_state s2 = woken ((\<lambda>t. t_proc (timers s t)) ` {t. (t, 1) \<in> set (due s)}) (run_state s)"
    using expire_loop_ok [OF s1(2,1) d, unfolded ex s1(3-7)] wk by blast
  let ?s = "sched_class_proc_tick (current s2) s2"
  have due2: "due ?s = map (\<lambda>(t, d). (t, d - 1)) (filter (\<lambda>(t, d). 1 < d) (due s))"
  proof -
    have "due ?s = filter (\<lambda>x. 0 < snd x) (due s1)"
      by (simp add: due_def proc_tick_frame s2(3,4) due_from_drop_zero s1(1)
        del: dropWhile.simps due_from.simps)
    also have "\<dots> = map (\<lambda>(t, d). (t, d - 1)) (filter (\<lambda>(t, d). 1 < d) (due s))"
      by (simp add: due1 filter_map comp_def case_prod_unfold)
    finally show ?thesis .
  qed
  moreover have "timers_ok ?s"
  proof -
    have "distinct (timer_list ?s)"
      using d s2(4) distinct_dropWhile [OF d] by (simp add: proc_tick_frame del: dropWhile.simps)
    with ok show ?thesis
      by (auto simp: timers_ok_def due2)
  qed
  moreover have "run_timer_list s = Some ?s"
    using Cons pos s2(1) by (simp add: run_timer_list_def bind_kassert s1_def del: expire_loop.simps)
  moreover have "{t_proc (timers s t) |t. (t, 1) \<in> set (due s)} =
      (\<lambda>t. t_proc (timers s t)) ` {t. (t, 1) \<in> set (due s)}"
    by auto
  ultimately show ?thesis
    using proc_tick_inv [OF s2(2)] s2 by (auto simp: proc_tick_frame)
qed

section \<open>Runs of the scheduler\<close>

lemma block_inv:
  assumes "sched_inv s" "current s \<noteq> idleproc s" "st \<noteq> PROC_RUNNABLE"
  shows "sched_inv (upd_proc (current s) (\<lambda>p. p\<lparr>p_state := st, p_wait_state := w\<rparr>) s)"
  using assms by (auto simp: sched_inv_def rq_inv_def)

lemma add_timer_frame:
  assumes "add_timer t s = Some s'"
  shows "run_list s' = run_list s" and "sched_inv s' = sched_inv s" and "current s' = current s"
    and "idleproc s' = idleproc s"
proof -
  have loop: "procs s2 = procs s1 \<and> current s2 = current s1 \<and> idleproc s2 = idleproc s1 \<and>
      run_list s2 = run_list s1 \<and> proc_num s2 = proc_num s1 \<and> max_time_slice s2 = max_time_slice s1"
    if "add_timer_loop t ts s1 = (ts', s2)" for ts ts' and s1 s2 :: "'a sched_scheme"
    using that by (induction ts arbitrary: s1 ts') (force split: if_splits prod.splits simp: Let_def)+
  from assms obtain ts s1 where "add_timer_loop t (timer_list s) s = (ts, s1)"
    "s' = s1\<lparr>timer_list := ts\<rparr>"
    by (auto simp: add_timer_def split: prod.splits)
  note l = loop [OF this(1)] this(2)
  from l show "run_list s' = run_list s" "current s' = current s" "idleproc s' = idleproc s"
    by simp_all
  from l show "sched_inv s' = sched_inv s"
    by (intro sched_inv_cong) simp_all
qed

lemma del_timer_frame:
  "run_list (del_timer t s) = run_list s" "current (del_timer t s) = current s"
  "idleproc (del_timer t s) = idleproc s" "sched_inv (del_timer t s) = sched_inv s"
proof -
  have "run_list (del_timer t s) = run_list s \<and> current (del_timer t s) = current s \<and>
    idleproc (del_timer t s) = idleproc s \<and> procs (del_timer t s) = procs s \<and>
    proc_num (del_timer t s) = proc_num s \<and> max_time_slice (del_timer t s) = max_time_slice s"
    by (simp add: del_timer_def Let_def split: option.splits)
  then show "run_list (del_timer t s) = run_list s" "current (del_timer t s) = current s"
    "idleproc (del_timer t s) = idleproc s" "sched_inv (del_timer t s) = sched_inv s"
    using sched_inv_cong [of "del_timer t s" s] by simp_all
qed

lemma expire_loop_frame:
  "expire_loop ts s = Some s' \<Longrightarrow> sched_inv s \<Longrightarrow>
    sched_inv s' \<and> current s' = current s \<and> idleproc s' = idleproc s \<and>
    (\<exists>xs. run_list s' = run_list s @ xs)"
proof (induction ts arbitrary: s)
  case (Cons t ts)
  show ?case
  proof (cases "t_expires (timers s t) = 0")
    case True
    with Cons.prems(1) obtain s1 where s1: "wakeup_proc (t_proc (timers s t)) s = Some s1"
      "expire_loop ts (del_timer t s1) = Some s'"
      by (auto simp: Let_def bind_eq_Some_conv)
    note w = wakeup_proc_SomeD [OF Cons.prems(2) s1(1)]
    from Cons.IH [OF s1(2)] w show ?thesis
      by (auto simp: del_timer_frame)
  next
    case False
    with Cons.prems show ?thesis by auto
  qed
qed auto

lemma run_timer_list_frame:
  assumes "run_timer_list s = Some s'" "sched_inv s"
  shows "sched_inv s' \<and> current s' = current s \<and> idleproc s' = idleproc s \<and>
    (\<exists>xs. run_list s' = run_list s @ xs)"
proof -
  from assms(1) obtain s1 where s1: "s' = sched_class_proc_tick (current s1) s1"
    "s1 = s \<or> (\<exists>t n ts. expire_loop ts (set_expires t n s) = Some s1)"
    by (auto simp: run_timer_list_def bind_eq_Some_conv simp del: expire_loop.simps split: list.splits)
  have "sched_inv (set_expires t n s)" for t n
    using assms(2) sched_inv_cong [of "set_expires t n s" s] by simp
  with s1(2) assms(2) have "sched_inv s1 \<and> current s1 = current s \<and> idleproc s1 = idleproc s \<and>
    (\<exists>xs. run_list s1 = run_list s @ xs)"
    by (auto dest!: expire_loop_frame)
  with proc_tick_inv [of s1] show ?thesis
    by (auto simp: s1(1) proc_tick_frame)
qed

lemma sched_run_inv:
  "sched_run s0 n s \<Longrightarrow> sched_inv s0 \<Longrightarrow> sched_inv s"
proof (induction rule: sched_run.induct)
  case (resched n s s')
  then show ?case
    using schedule_ok [of s] by auto
next
  case (wake n s p s')
  then show ?case
    by (auto intro: wakeup_proc_SomeD)
next
  case (block n s st w)
  then show ?case
    by (intro block_inv) auto
next
  case (tick n s)
  then show ?case
    by (intro proc_tick_inv) auto
next
  case (timer_tick n s s')
  then show ?case
    by (auto dest: run_timer_list_frame)
qed (auto simp: add_timer_frame del_timer_frame)

text \<open>A queued process moves one place forward with every call of \<open>schedule\<close>, whatever else happens.\<close>

lemma sched_run_position:
  assumes "sched_run s0 n s" "sched_inv s0"
  shows "n \<le> length (run_list s0) \<Longrightarrow> \<exists>xs. run_list s = drop n (run_list s0) @ xs"
  using assms
proof (induction rule: sched_run.induct)
  case (resched n s s')
  then obtain xs where xs: "run_list s = drop n (run_list s0) @ xs"
    by auto
  have "drop n (run_list s0) = run_list s0 ! n # drop (Suc n) (run_list s0)"
    using resched.prems(1) by (simp add: Cons_nth_drop_Suc)
  moreover have "sched_inv s"
    using resched sched_run_inv by blast
  ultimately show ?case
    using xs schedule_ok [of s] resched.hyps(2) by (auto simp: ready_queue_def)
next
  case (wake n s p s')
  then have "sched_inv s"
    using sched_run_inv by blast
  with wake wakeup_proc_SomeD(7) [of s p s'] show ?case
    by auto
next
  case (timer_tick n s s')
  then have "sched_inv s"
    using sched_run_inv by blast
  with timer_tick run_timer_list_frame [of s s'] show ?case
    by auto
qed (auto simp: proc_tick_frame add_timer_frame del_timer_frame)

lemma proc_tick_fields:
  assumes "p \<noteq> idleproc s" "0 \<le> p_time_slice (procs s p)"
  shows "p_time_slice (procs (sched_class_proc_tick p s) p) = max 0 (p_time_slice (procs s p) - 1)"
    and "p_need_resched (procs (sched_class_proc_tick p s) p) \<longleftrightarrow>
      p_need_resched (procs s p) \<or> p_time_slice (procs s p) \<le> 1"
  using assms by (auto simp: sched_class_proc_tick_def RR_proc_tick_def Let_def)

lemma four_procs_inv: "sched_inv four_procs"
  by (auto simp: sched_inv_def rq_inv_def four_procs_def blank_proc_def)

lemma four_procs_due: "due four_procs = [(9, 1)]"
  by (simp add: due_def four_procs_def)

lemma four_procs_timers_ok: "timers_ok four_procs"
  by (simp add: timers_ok_def four_procs_due) (simp add: four_procs_def)

section \<open>Properties\<close>

text \<open>
  C25. \<open>schedule\<close> on a well-formed scheduler state never fails an assertion and keeps the state
  well-formed. It hands the processor to the head of the run queue, to which the running
  process has been appended when it can go on running; to the idle process only when that queue is empty.
  The process it picks is runnable, and no process changes its state or its wait state.
\<close>

theorem schedule_correct:
  assumes "sched_inv s"
  shows "\<exists>s'. schedule s = Some s' \<and> sched_inv s' \<and> run_state s' = run_state s \<and>
    p_state (procs s' (current s')) = PROC_RUNNABLE \<and>
    (case ready_queue s of
       [] \<Rightarrow> current s' = idleproc s \<and> run_list s' = []
     | x # xs \<Rightarrow> current s' = x \<and> run_list s' = xs)"
  using schedule_ok [OF assms] by blast

theorem schedule_correct_witness:
  "\<exists>s'. schedule four_procs = Some s' \<and> current s' = 3 \<and> run_list s' = [2]"
  using schedule_correct [OF four_procs_inv]
  by (auto simp: ready_queue_def four_procs_def blank_proc_def)

text \<open>
  C24. Round robin is fair: the process at position \<open>k\<close> of the run queue (counted from 0) gets the
  processor with the call of \<open>schedule\<close> that follows \<open>k\<close> others, whatever wake-ups, timers,
  ticks, exits and sleeps happen in between.
\<close>

theorem rr_bounded_waiting:
  assumes run: "sched_run s0 k s" and inv: "sched_inv s0" and k: "k < length (run_list s0)"
    and next_s: "schedule s = Some s'"
  shows "current s' = run_list s0 ! k"
proof -
  obtain xs where xs: "run_list s = drop k (run_list s0) @ xs"
    using sched_run_position [OF run inv] k by auto
  have "ready_queue s = run_list s0 ! k # drop (Suc k) (run_list s0) @ xs @ drop (length (run_list s)) (ready_queue s)"
    using k by (auto simp: ready_queue_def xs Cons_nth_drop_Suc [symmetric])
  with schedule_ok [OF sched_run_inv [OF run inv]] next_s show ?thesis
    by (auto split: list.splits)
qed

theorem rr_bounded_waiting_witness:
  "\<exists>s'. schedule four_procs = Some s' \<and> current s' = run_list four_procs ! 0"
proof -
  obtain s' where s': "schedule four_procs = Some s'"
    using schedule_ok [OF four_procs_inv] by blast
  have "0 < length (run_list four_procs)"
    by (simp add: four_procs_def)
  from rr_bounded_waiting [OF sched_run.start four_procs_inv this s'] s' show ?thesis by blast
qed

text \<open>
  A running process is asked to give up the processor exactly when its time slice is used
  up: after \<open>n\<close> ticks (at least one) the reschedule flag is set if it was set before or if the slice is at
  most \<open>n\<close>, and the slice never gets negative.
\<close>

theorem rr_tick_preempts:
  assumes "p \<noteq> idleproc s" and "0 \<le> p_time_slice (procs s p)"
  shows "p_time_slice (procs ((sched_class_proc_tick p ^^ n) s) p) =
      max 0 (p_time_slice (procs s p) - int n) \<and>
    (0 < n \<longrightarrow> (p_need_resched (procs ((sched_class_proc_tick p ^^ n) s) p) \<longleftrightarrow>
      p_need_resched (procs s p) \<or> p_time_slice (procs s p) \<le> int n))"
  using assms
proof (induction n)
  case (Suc n)
  have "idleproc ((sched_class_proc_tick p ^^ n) s) = idleproc s"
    by (induction n) (simp_all add: proc_tick_frame)
  with Suc.IH [OF Suc.prems] Suc.prems
    proc_tick_fields [of p "(sched_class_proc_tick p ^^ n) s"] show ?case
    by (cases "n = 0") auto
qed simp

theorem rr_tick_preempts_witness:
  "p_need_resched (procs ((sched_class_proc_tick 2 ^^ 5) four_procs) 2)"
proof -
  have "2 \<noteq> idleproc four_procs" "0 \<le> p_time_slice (procs four_procs 2)"
    "p_time_slice (procs four_procs 2) \<le> int 5"
    by (simp_all add: four_procs_def blank_proc_def)
  with rr_tick_preempts [of 2 four_procs 5] show ?thesis by simp
qed

text \<open>
  C31. The delta list of timers implements a list of timers with absolute times: \<open>add_timer\<close>
  inserts the timer at its time, after those due no later, and leaves the time of every other
  timer alone; \<open>del_timer\<close> takes it out again and restores exactly the former list.
\<close>

theorem add_timer_correct:
  assumes "timers_ok s" and "t \<notin> set (timer_list s)" and "t_proc (timers s t) \<noteq> 0"
    and "0 < t_expires (timers s t)" and "t_expires (timers s t) < 2 ^ 32"
  shows "\<exists>s'. add_timer t s = Some s' \<and> timers_ok s' \<and>
    due s' = insert_due (t, t_expires (timers s t)) (due s) \<and>
    timers_ok (del_timer t s') \<and> due (del_timer t s') = due s"
proof -
  obtain s' where s': "add_timer t s = Some s'" "timers_ok s'"
    "due s' = insert_due (t, t_expires (timers s t)) (due s)"
    using add_timer_ok [OF assms] by blast
  have "filter (\<lambda>x. fst x \<noteq> t) (insert_due (t, e) xs) = xs" if "t \<notin> fst ` set xs" for e xs
    using that by (induction xs) (force intro: filter_True)+
  moreover have "t \<notin> fst ` set (due s)"
    using assms(2) by (simp add: due_def due_from_set)
  moreover have "t \<in> fst ` set (insert_due (t, e) xs)" for e xs
    by (induction xs) auto
  then have "t \<in> set (timer_list s')"
    using s'(3) by (metis due_def due_from_set)
  ultimately show ?thesis
    using s' del_timer_ok(1,2) [OF s'(2)] by auto
qed

theorem add_timer_correct_witness:
  "\<exists>s'. add_timer 8 (timer_init 8 3 7 four_procs) = Some s' \<and> timers_ok s' \<and>
    due s' = [(9, 1), (8, 7)] \<and> due (del_timer 8 s') = [(9, 1)]"
proof -
  have "timers_ok (timer_init 8 3 7 four_procs)" "due (timer_init 8 3 7 four_procs) = [(9, 1)]"
    by (simp_all add: timers_ok_def due_def timer_init_def four_procs_def)
  with add_timer_correct [of "timer_init 8 3 7 four_procs" 8] show ?thesis
    by (auto simp: timer_init_def four_procs_def)
qed

text \<open>
  C32. One timer tick lets every pending timer come one tick nearer, removes exactly the timers
  that are due and wakes exactly their processes; no assertion fails as long as these processes
  wait interruptibly (or not at all) and are not dead.
\<close>

theorem run_timer_list_correct:
  assumes "sched_inv s" and "timers_ok s"
    and "\<forall>t. (t, 1) \<in> set (due s) \<longrightarrow> wake_ok (run_state s (t_proc (timers s t)))"
  shows "\<exists>s'. run_timer_list s = Some s' \<and> sched_inv s' \<and> timers_ok s' \<and>
    due s' = map (\<lambda>(t, d). (t, d - 1)) (filter (\<lambda>(t, d). 1 < d) (due s)) \<and>
    run_state s' = woken {t_proc (timers s t) | t. (t, 1) \<in> set (due s)} (run_state s)"
  using run_timer_list_ok [OF assms] by blast

theorem run_timer_list_correct_witness:
  "\<exists>s'. run_timer_list four_procs = Some s' \<and> due s' = [] \<and>
    run_state s' = woken {4} (run_state four_procs)"
proof -
  have "t_proc (timers four_procs 9) = 4" "wake_ok (run_state four_procs 4)"
    by (simp_all add: four_procs_def blank_proc_def wake_ok_def run_state_def WT_TIMER_def
      WT_INTERRUPTED_def)
  with run_timer_list_correct [OF four_procs_inv four_procs_timers_ok] show ?thesis
    by (auto simp: four_procs_due)
qed

end
