(* ===== verification/Sync.thy ===== *)
theory Sync
  imports Sched
begin

text \<open>
  Wait queues, semaphores and monitors (\<^verbatim>\<open>kern/sync/wait.c\<close>, \<^verbatim>\<open>kern/sync/sem.c\<close>,
  \<^verbatim>\<open>kern/sync/monitor.c\<close>). The scheduler state is extended by the stores of \<open>wait_t\<close>,
  wait queues, semaphores and condition variables. A \<open>wait_t\<close> records whether its \<open>wait_link\<close> is
  on a list. The wait queue of a semaphore at address \<open>a\<close> is embedded at \<open>a + 4\<close>.

  A function that blocks is cut at its call of \<open>schedule\<close>: the first part runs up to and
  including the switch to another process, the second part is what the process does when it runs
  again. Each part runs with interrupts off, as one step.
\<close>

section \<open>Wait queues\<close>

record wait =
  w_proc :: addr
  w_flags :: u32
  w_queue :: addr
  w_linked :: bool

record sync = sched +
  waits :: "addr \<Rightarrow> wait"
  wqs :: "addr \<Rightarrow> addr list"
  sem_value :: "addr \<Rightarrow> int"

definition upd_wait :: "addr \<Rightarrow> (wait \<Rightarrow> wait) \<Rightarrow> 'a sync_scheme \<Rightarrow> 'a sync_scheme" where
  "upd_wait w f s = s\<lparr>waits := (waits s)(w := f (waits s w))\<rparr>"

definition wait_init :: "addr \<Rightarrow> addr \<Rightarrow> 'a sync_scheme \<Rightarrow> 'a sync_scheme" where
  "wait_init wait proc =
     upd_wait wait (\<lambda>w. w\<lparr>w_proc := proc, w_flags := WT_INTERRUPTED, w_linked := False\<rparr>)"

definition wait_queue_init :: "addr \<Rightarrow> 'a sync_scheme \<Rightarrow> 'a sync_scheme" where
  "wait_queue_init queue s = s\<lparr>wqs := (wqs s)(queue := [])\<rparr>"

definition wait_queue_add :: "addr \<Rightarrow> addr \<Rightarrow> 'a sync_scheme \<Rightarrow> 'a sync_scheme option" where
  "wait_queue_add queue wait s =
     do { kassert (\<not> w_linked (waits s wait) \<and> w_proc (waits s wait) \<noteq> 0);
          let s = upd_wait wait (\<lambda>w. w\<lparr>w_queue := queue, w_linked := True\<rparr>) s;
          Some (s\<lparr>wqs := (wqs s)(queue := wqs s queue @ [wait])\<rparr>) }"

definition wait_queue_del :: "addr \<Rightarrow> addr \<Rightarrow> 'a sync_scheme \<Rightarrow> 'a sync_scheme option" where
  "wait_queue_del queue wait s =
     do { kassert (w_linked (waits s wait) \<and> w_queue (waits s wait) = queue);
          let s = upd_wait wait (\<lambda>w. w\<lparr>w_linked := False\<rparr>) s;
          Some (s\<lparr>wqs := (wqs s)(queue := remove1 wait (wqs s queue))\<rparr>) }"

definition wait_queue_next :: "addr \<Rightarrow> addr \<Rightarrow> 'a sync_scheme \<Rightarrow> addr option option" where
  "wait_queue_next queue wait s =
     do { kassert (w_linked (waits s wait) \<and> w_queue (waits s wait) = queue);
          Some (list_succ wait (wqs s queue)) }"

definition wait_queue_prev :: "addr \<Rightarrow> addr \<Rightarrow> 'a sync_scheme \<Rightarrow> addr option option" where
  "wait_queue_prev queue wait s =
     do { kassert (w_linked (waits s wait) \<and> w_queue (waits s wait) = queue);
          Some (list_succ wait (rev (wqs s queue))) }"

definition wait_queue_first :: "addr \<Rightarrow> 'a sync_scheme \<Rightarrow> addr option" where
  "wait_queue_first queue s = (case wqs s queue of [] \<Rightarrow> None | w # _ \<Rightarrow> Some w)"

definition wait_queue_last :: "addr \<Rightarrow> 'a sync_scheme \<Rightarrow> addr option" where
  "wait_queue_last queue s = (case rev (wqs s queue) of [] \<Rightarrow> None | w # _ \<Rightarrow> Some w)"

definition wait_queue_empty :: "addr \<Rightarrow> 'a sync_scheme \<Rightarrow> bool" where
  "wait_queue_empty queue s \<longleftrightarrow> wqs s queue = []"

definition wait_in_queue :: "addr \<Rightarrow> 'a sync_scheme \<Rightarrow> bool" where
  "wait_in_queue wait s \<longleftrightarrow> w_linked (waits s wait)"

definition wakeup_wait :: "addr \<Rightarrow> addr \<Rightarrow> u32 \<Rightarrow> bool \<Rightarrow> 'a sync_scheme \<Rightarrow> 'a sync_scheme option" where
  "wakeup_wait queue wait wakeup_flags del s =
     do { s \<leftarrow> (if del then wait_queue_del queue wait s else Some s);
          let s = upd_wait wait (\<lambda>w. w\<lparr>w_flags := wakeup_flags\<rparr>) s;
          wakeup_proc (w_proc (waits s wait)) s }"

definition wakeup_first :: "addr \<Rightarrow> u32 \<Rightarrow> bool \<Rightarrow> 'a sync_scheme \<Rightarrow> 'a sync_scheme option" where
  "wakeup_first queue wakeup_flags del s =
     (case wait_queue_first queue s of
        None \<Rightarrow> Some s
      | Some wait \<Rightarrow> wakeup_wait queue wait wakeup_flags del s)"

text \<open>The two loops of \<open>wakeup_queue\<close>; not ending is \<open>None\<close>, like a failed assertion.\<close>

partial_function (option) wakeup_queue_del ::
  "addr \<Rightarrow> u32 \<Rightarrow> addr \<Rightarrow> 'a sync_scheme \<Rightarrow> 'a sync_scheme option" where
  "wakeup_queue_del queue wakeup_flags wait s =
     do { s \<leftarrow> wakeup_wait queue wait wakeup_flags True s;
          case wait_queue_first queue s of
            None \<Rightarrow> Some s
          | Some wait' \<Rightarrow> wakeup_queue_del queue wakeup_flags wait' s }"

partial_function (option) wakeup_queue_keep ::
  "addr \<Rightarrow> u32 \<Rightarrow> addr \<Rightarrow> 'a sync_scheme \<Rightarrow> 'a sync_scheme option" where
  "wakeup_queue_keep queue wakeup_flags wait s =
     do { s \<leftarrow> wakeup_wait queue wait wakeup_flags False s;
          nxt \<leftarrow> wait_queue_next queue wait s;
          case nxt of
            None \<Rightarrow> Some s
          | Some wait' \<Rightarrow> wakeup_queue_keep queue wakeup_flags wait' s }"

definition wakeup_queue :: "addr \<Rightarrow> u32 \<Rightarrow> bool \<Rightarrow> 'a sync_scheme \<Rightarrow> 'a sync_scheme option" where
  "wakeup_queue queue wakeup_flags del s =
     (case wait_queue_first queue s of
        None \<Rightarrow> Some s
      | Some wait \<Rightarrow>
          if del then wakeup_queue_del queue wakeup_flags wait s
          else wakeup_queue_keep queue wakeup_flags wait s)"

definition wait_current_set :: "addr \<Rightarrow> addr \<Rightarrow> u32 \<Rightarrow> 'a sync_scheme \<Rightarrow> 'a sync_scheme option" where
  "wait_current_set queue wait wait_state s =
     do { kassert (current s \<noteq> 0);
          let s = wait_init wait (current s) s;
          let s = upd_proc (current s) (\<lambda>p. p\<lparr>p_state := PROC_SLEEPING, p_wait_state := wait_state\<rparr>) s;
          wait_queue_add queue wait s }"

definition wait_current_del :: "addr \<Rightarrow> addr \<Rightarrow> 'a sync_scheme \<Rightarrow> 'a sync_scheme option" where
  "wait_current_del queue wait s =
     (if wait_in_queue wait s then wait_queue_del queue wait s else Some s)"

section \<open>Semaphores\<close>

definition sem_wq :: "addr \<Rightarrow> addr" where
  "sem_wq sem = sem + 4"

definition set_value :: "addr \<Rightarrow> int \<Rightarrow> 'a sync_scheme \<Rightarrow> 'a sync_scheme" where
  "set_value sem v s = s\<lparr>sem_value := (sem_value s)(sem := v)\<rparr>"

definition sem_init :: "addr \<Rightarrow> int \<Rightarrow> 'a sync_scheme \<Rightarrow> 'a sync_scheme" where
  "sem_init sem v s = wait_queue_init (sem_wq sem) (set_value sem v s)"

definition sem_up :: "addr \<Rightarrow> u32 \<Rightarrow> 'a sync_scheme \<Rightarrow> 'a sync_scheme option" where
  "sem_up sem wait_state s =
     (case wait_queue_first (sem_wq sem) s of
        None \<Rightarrow> Some (set_value sem (sem_value s sem + 1) s)
      | Some wait \<Rightarrow>
          do { kassert (p_wait_state (procs s (w_proc (waits s wait))) = wait_state);
               wakeup_wait (sem_wq sem) wait wait_state True s })"

text \<open>
  \<open>__down\<close> up to its return (\<open>True\<close>) or up to the switch to another process (\<open>False\<close>), and from
  there to its end. \<open>wait\<close> is the address of the \<open>wait_t\<close> on the stack of the caller.
\<close>

definition sem_down :: "addr \<Rightarrow> addr \<Rightarrow> u32 \<Rightarrow> 'a sync_scheme \<Rightarrow> (bool \<times> 'a sync_scheme) option" where
  "sem_down sem wait wait_state s =
     (if sem_value s sem > 0 then Some (True, set_value sem (sem_value s sem - 1) s)
      else do { s \<leftarrow> wait_current_set (sem_wq sem) wait wait_state s;
                s \<leftarrow> schedule s;
                Some (False, s) })"

definition sem_down_resume :: "addr \<Rightarrow> addr \<Rightarrow> u32 \<Rightarrow> 'a sync_scheme \<Rightarrow> (u32 \<times> 'a sync_scheme) option" where
  "sem_down_resume sem wait wait_state s =
     do { s \<leftarrow> wait_current_del (sem_wq sem) wait s;
          Some (if w_flags (waits s wait) \<noteq> wait_state then w_flags (waits s wait) else 0, s) }"

definition up :: "addr \<Rightarrow> 'a sync_scheme \<Rightarrow> 'a sync_scheme option" where
  "up sem = sem_up sem WT_KSEM"

definition down :: "addr \<Rightarrow> addr \<Rightarrow> 'a sync_scheme \<Rightarrow> (bool \<times> 'a sync_scheme) option" where
  "down sem wait = sem_down sem wait WT_KSEM"

definition down_resume :: "addr \<Rightarrow> addr \<Rightarrow> 'a sync_scheme \<Rightarrow> 'a sync_scheme option" where
  "down_resume sem wait s =
     do { (flags, s) \<leftarrow> sem_down_resume sem wait WT_KSEM s; kassert (flags = 0); Some s }"

definition try_down :: "addr \<Rightarrow> 'a sync_scheme \<Rightarrow> bool \<times> 'a sync_scheme" where
  "try_down sem s =
     (if sem_value s sem > 0 then (True, set_value sem (sem_value s sem - 1) s) else (False, s))"

section \<open>Monitors\<close>

text \<open>
  A condition variable is \<open>{sem, count, owner}\<close>, a monitor is \<open>{mutex, next, next_count, cv}\<close>.
  The semaphores they embed are at the addresses the fields name.
\<close>

record condvar =
  cv_sem :: addr
  cv_count :: int
  cv_owner :: addr

record monitor =
  mt_mutex :: addr
  mt_next :: addr
  mt_next_count :: int
  mt_cv :: "addr list"

record msync = sync +
  condvars :: "addr \<Rightarrow> condvar"
  monitors :: "addr \<Rightarrow> monitor"

definition upd_cv :: "addr \<Rightarrow> (condvar \<Rightarrow> condvar) \<Rightarrow> 'a msync_scheme \<Rightarrow> 'a msync_scheme" where
  "upd_cv c f s = s\<lparr>condvars := (condvars s)(c := f (condvars s c))\<rparr>"

definition upd_mt :: "addr \<Rightarrow> (monitor \<Rightarrow> monitor) \<Rightarrow> 'a msync_scheme \<Rightarrow> 'a msync_scheme" where
  "upd_mt m f s = s\<lparr>monitors := (monitors s)(m := f (monitors s m))\<rparr>"

text \<open>
  \<open>cvs\<close> are the addresses of the \<open>num_cv\<close> condition variables in the block that \<open>kmalloc\<close>
  returned, \<open>None\<close> when it returned \<open>NULL\<close>.
\<close>

definition monitor_init ::
  "addr \<Rightarrow> nat \<Rightarrow> (nat \<Rightarrow> addr list option) \<Rightarrow> 'a msync_scheme \<Rightarrow> 'a msync_scheme option" where
  "monitor_init mtp num_cv kmalloc_cvs s =
     do { kassert (num_cv > 0);
          let s = upd_mt mtp (\<lambda>m. m\<lparr>mt_next_count := 0, mt_cv := []\<rparr>) s;
          let s = sem_init (mt_mutex (monitors s mtp)) 1 s;
          let s = sem_init (mt_next (monitors s mtp)) 0 s;
          cvs \<leftarrow> kmalloc_cvs num_cv;
          let s = upd_mt mtp (\<lambda>m. m\<lparr>mt_cv := cvs\<rparr>) s;
          Some (fold (\<lambda>cvp s.
            let s = upd_cv cvp (\<lambda>c. c\<lparr>cv_count := 0\<rparr>) s;
                s = sem_init (cv_sem (condvars s cvp)) 0 s
            in upd_cv cvp (\<lambda>c. c\<lparr>cv_owner := mtp\<rparr>) s) cvs s) }"

definition cond_signal :: "addr \<Rightarrow> addr \<Rightarrow> 'a msync_scheme \<Rightarrow> (bool \<times> 'a msync_scheme) option" where
  "cond_signal cvp wait s =
     (if cv_count (condvars s cvp) > 0 then
        do { let mtp = cv_owner (condvars s cvp);
             let s = upd_mt mtp (\<lambda>m. m\<lparr>mt_next_count := mt_next_count m + 1\<rparr>) s;
             s \<leftarrow> up (cv_sem (condvars s cvp)) s;
             (got, s) \<leftarrow> down (mt_next (monitors s mtp)) wait s;
             Some (got, if got then upd_mt mtp (\<lambda>m. m\<lparr>mt_next_count := mt_next_count m - 1\<rparr>) s else s) }
      else Some (True, s))"

definition cond_signal_resume :: "addr \<Rightarrow> addr \<Rightarrow> 'a msync_scheme \<Rightarrow> 'a msync_scheme option" where
  "cond_signal_resume cvp wait s =
     do { let mtp = cv_owner (condvars s cvp);
          s \<leftarrow> down_resume (mt_next (monitors s mtp)) wait s;
          Some (upd_mt mtp (\<lambda>m. m\<lparr>mt_next_count := mt_next_count m - 1\<rparr>) s) }"

definition cond_wait :: "addr \<Rightarrow> addr \<Rightarrow> 'a msync_scheme \<Rightarrow> (bool \<times> 'a msync_scheme) option" where
  "cond_wait cvp wait s =
     do { let s = upd_cv cvp (\<lambda>c. c\<lparr>cv_count := cv_count c + 1\<rparr>) s;
          let mtp = cv_owner (condvars s cvp);
          s \<leftarrow> (if mt_next_count (monitors s mtp) > 0 then up (mt_next (monitors s mtp)) s
               else up (mt_mutex (monitors s mtp)) s);
          (got, s) \<leftarrow> down (cv_sem (condvars s cvp)) wait s;
          Some (got, if got then upd_cv cvp (\<lambda>c. c\<lparr>cv_count := cv_count c - 1\<rparr>) s else s) }"

definition cond_wait_resume :: "addr \<Rightarrow> addr \<Rightarrow> 'a msync_scheme \<Rightarrow> 'a msync_scheme option" where
  "cond_wait_resume cvp wait s =
     do { s \<leftarrow> down_resume (cv_sem (condvars s cvp)) wait s;
          Some (upd_cv cvp (\<lambda>c. c\<lparr>cv_count := cv_count c - 1\<rparr>) s) }"

section \<open>Specification\<close>

definition wq_inv :: "addr \<Rightarrow> 'a sync_scheme \<Rightarrow> bool" where
  "wq_inv q s \<longleftrightarrow> distinct (wqs s q) \<and>
     (\<forall>w \<in> set (wqs s q). w_linked (waits s w) \<and> w_queue (waits s w) = q)"

text \<open>
  A semaphore counts units; processes wait for it only while there is none. The waiting
  processes sleep, each with one \<open>wait_t\<close>, in the wait state of the semaphore.
\<close>

definition sem_inv :: "addr \<Rightarrow> u32 \<Rightarrow> 'a sync_scheme \<Rightarrow> bool" where
  "sem_inv sem ws s \<longleftrightarrow>
     0 \<le> sem_value s sem \<and> (0 < sem_value s sem \<longrightarrow> wqs s (sem_wq sem) = []) \<and>
     wq_inv (sem_wq sem) s \<and>
     distinct (map (\<lambda>w. w_proc (waits s w)) (wqs s (sem_wq sem))) \<and>
     (\<forall>w \<in> set (wqs s (sem_wq sem)). run_state s (w_proc (waits s w)) = (PROC_SLEEPING, ws))"

text \<open>A step of the rest of the kernel: it does not touch the semaphores nor wake their waiters.\<close>

definition env_step :: "addr \<Rightarrow> 'a sync_scheme \<Rightarrow> 'a sync_scheme \<Rightarrow> bool" where
  "env_step sem s s' \<longleftrightarrow> sched_inv s' \<and> sem_value s' sem = sem_value s sem \<and>
     wqs s' (sem_wq sem) = wqs s (sem_wq sem) \<and>
     (\<forall>w \<in> set (wqs s (sem_wq sem)). waits s' w = waits s w \<and>
        run_state s' (w_proc (waits s w)) = run_state s (w_proc (waits s w)))"

text \<open>
  Runs in which processes go down and up on a semaphore. The two numbers count the units
  that processes have got, at once or handed over by the \<open>up\<close> that woke them, and the
  calls of \<open>up\<close>.
\<close>

inductive sem_run :: "addr \<Rightarrow> 'a sync_scheme \<Rightarrow> nat \<Rightarrow> nat \<Rightarrow> 'a sync_scheme \<Rightarrow> bool" for sem s0 where
  start: "sem_run sem s0 0 0 s0"
| down: "sem_run sem s0 got ups s \<Longrightarrow> current s \<noteq> 0 \<Longrightarrow> current s \<noteq> idleproc s \<Longrightarrow>
    p_state (procs s (current s)) = PROC_RUNNABLE \<Longrightarrow> w \<notin> set (wqs s (sem_wq sem)) \<Longrightarrow>
    down sem w s = Some (now, s') \<Longrightarrow> sem_run sem s0 (if now then got + 1 else got) ups s'"
| nowait: "sem_run sem s0 got ups s \<Longrightarrow> try_down sem s = (ok, s') \<Longrightarrow>
    sem_run sem s0 (if ok then got + 1 else got) ups s'"
| up: "sem_run sem s0 got ups s \<Longrightarrow> up sem s = Some s' \<Longrightarrow>
    sem_run sem s0 (if wait_queue_empty (sem_wq sem) s then got else got + 1) (ups + 1) s'"
| env: "sem_run sem s0 got ups s \<Longrightarrow> env_step sem s s' \<Longrightarrow> sem_run sem s0 got ups s'"

text \<open>
  The same runs with two logs: the processes that \<open>down\<close> put to sleep, in the order in which it did, and the
  processes whose run state \<open>up\<close> changed, in the order in which it did. The logs are kept from what happens
  to the processes; they do not look at the wait queue.
\<close>

inductive sem_log :: "addr \<Rightarrow> 'a sync_scheme \<Rightarrow> addr list \<Rightarrow> addr list \<Rightarrow> 'a sync_scheme \<Rightarrow> bool" for sem s0 where
  start: "sem_log sem s0 [] [] s0"
| down: "sem_log sem s0 slept wk s \<Longrightarrow> current s \<noteq> 0 \<Longrightarrow> current s \<noteq> idleproc s \<Longrightarrow>
    p_state (procs s (current s)) = PROC_RUNNABLE \<Longrightarrow> w \<notin> set (wqs s (sem_wq sem)) \<Longrightarrow>
    down sem w s = Some (now, s') \<Longrightarrow> sem_log sem s0 (if now then slept else slept @ [current s]) wk s'"
| nowait: "sem_log sem s0 slept wk s \<Longrightarrow> try_down sem s = (ok, s') \<Longrightarrow> sem_log sem s0 slept wk s'"
| up: "sem_log sem s0 slept wk s \<Longrightarrow> up sem s = Some s' \<Longrightarrow>
    set ps = {p. run_state s' p \<noteq> run_state s p} \<Longrightarrow> distinct ps \<Longrightarrow> sem_log sem s0 slept (wk @ ps) s'"
| env: "sem_log sem s0 slept wk s \<Longrightarrow> env_step sem s s' \<Longrightarrow> sem_log sem s0 slept wk s'"

definition sem_waiters :: "addr \<Rightarrow> 'a sync_scheme \<Rightarrow> addr list" where
  "sem_waiters sem s = map (\<lambda>w. w_proc (waits s w)) (wqs s (sem_wq sem))"

text \<open>\<open>n\<close> calls of \<open>up\<close> in a row.\<close>

primrec ups :: "addr \<Rightarrow> nat \<Rightarrow> 'a sync_scheme \<Rightarrow> 'a sync_scheme option" where
  "ups sem 0 s = Some s"
| "ups sem (Suc n) s = do { s \<leftarrow> up sem s; ups sem n s }"

text \<open>
  The processes of \<open>four_procs\<close> with a semaphore at 100, no unit left, on which process 4 waits
  with the \<open>wait_t\<close> at 50; a second semaphore at 200 is free.
\<close>

definition waiting_procs :: sync where
  "waiting_procs = sched.extend
     (four_procs\<lparr>procs := (procs four_procs)(4 := blank_proc\<lparr>p_state := PROC_SLEEPING, p_wait_state := WT_KSEM\<rparr>),
        timer_list := []\<rparr>)
     \<lparr>waits = (\<lambda>_. \<lparr>w_proc = 0, w_flags = 0, w_queue = 0, w_linked = False\<rparr>)
        (50 := \<lparr>w_proc = 4, w_flags = WT_INTERRUPTED, w_queue = 104, w_linked = True\<rparr>),
      wqs = (\<lambda>_. [])(104 := [50]), sem_value = (\<lambda>_. 0)(200 := 1)\<rparr>"

section \<open>Frame lemmas\<close>

lemma upd_wait_simps [simp]:
  "waits (upd_wait w f s) = (waits s)(w := f (waits s w))"
  "wqs (upd_wait w f s) = wqs s"
  "sem_value (upd_wait w f s) = sem_value s"
  "procs (upd_wait w f s) = procs s"
  "current (upd_wait w f s) = current s"
  "idleproc (upd_wait w f s) = idleproc s"
  "run_state (upd_wait w f s) = run_state s"
  "sched_inv (upd_wait w f s) = sched_inv s"
  by (simp_all add: upd_wait_def run_state_def fun_eq_iff sched_inv_def rq_inv_def)

lemma wqs_upd_simps [simp]:
  "run_state (s\<lparr>wqs := f\<rparr>) = run_state s"
  "sched_inv (s\<lparr>wqs := f\<rparr>) = sched_inv s"
  by (simp_all add: run_state_def fun_eq_iff sched_inv_def rq_inv_def)

lemma set_value_simps [simp]:
  "sem_value (set_value x v s) = (sem_value s)(x := v)"
  "waits (set_value x v s) = waits s"
  "wqs (set_value x v s) = wqs s"
  "procs (set_value x v s) = procs s"
  "current (set_value x v s) = current s"
  "idleproc (set_value x v s) = idleproc s"
  "run_state (set_value x v s) = run_state s"
  "sched_inv (set_value x v s) = sched_inv s"
  "sync.more (set_value x v s) = sync.more s"
  by (simp_all add: set_value_def run_state_def fun_eq_iff sched_inv_def rq_inv_def)

lemma more_eqD:
  assumes "sched.more s' = sched.more (s :: 'a sync_scheme)"
  shows "waits s' = waits s" and "wqs s' = wqs s" and "sem_value s' = sem_value s"
    and "sync.more s' = sync.more s"
  using assms by (cases s; cases s'; simp)+

lemma upd_proc_sync_simps [simp]:
  "waits (upd_proc p f s) = waits s" "wqs (upd_proc p f s) = wqs s"
  "sem_value (upd_proc p f s) = sem_value s"
  by (simp_all add: upd_proc_def)

section \<open>Wait queues are FIFO queues\<close>

lemma wait_queue_del_eq:
  "wq_inv q s \<Longrightarrow> w \<in> set (wqs s q) \<Longrightarrow> wait_queue_del q w s =
    Some (s\<lparr>waits := (waits s)(w := (waits s w)\<lparr>w_linked := False\<rparr>),
      wqs := (wqs s)(q := remove1 w (wqs s q))\<rparr>)"
  by (simp add: wait_queue_del_def bind_kassert wq_inv_def upd_wait_def Let_def)

interpretation wq: fifo_queue "\<lambda>s. wqs s q" "wq_inv q"
  "\<lambda>s w. \<not> w_linked (waits s w) \<and> w_proc (waits s w) \<noteq> 0"
  "wait_queue_add q" "wait_queue_first q" "wait_queue_del q" for q
  by unfold_locales
    (auto simp: wq_inv_def wait_queue_add_def wait_queue_first_def wait_queue_del_eq bind_kassert Let_def)

lemma wakeup_wait_ok:
  assumes inv: "sched_inv s" and q: "wq_inv q s" "wqs s q = w # ws"
    and z: "p_state (procs s (w_proc (waits s w))) \<noteq> PROC_ZOMBIE"
  shows "\<exists>s'. wakeup_wait q w fl True s = Some s' \<and> sched_inv s' \<and> wq_inv q s' \<and>
    wqs s' = (wqs s)(q := ws) \<and> sem_value s' = sem_value s \<and>
    waits s' = (waits s)(w := (waits s w)\<lparr>w_linked := False, w_flags := fl\<rparr>) \<and>
    current s' = current s \<and> idleproc s' = idleproc s \<and> sync.more s' = sync.more s \<and>
    run_state s' = woken {w_proc (waits s w)} (run_state s)"
proof -
  define s1 where "s1 = s\<lparr>wqs := (wqs s)(q := ws),
      waits := (waits s)(w := (waits s w)\<lparr>w_linked := False, w_flags := fl\<rparr>)\<rparr>"
  have s1: "sched_inv s1" "p_state (procs s1 (w_proc (waits s w))) \<noteq> PROC_ZOMBIE"
    "run_state s1 = run_state s" "current s1 = current s" "idleproc s1 = idleproc s"
    "sem_value s1 = sem_value s" "wqs s1 = (wqs s)(q := ws)" "sync.more s1 = sync.more s"
    "waits s1 = (waits s)(w := (waits s w)\<lparr>w_linked := False, w_flags := fl\<rparr>)"
    using inv z sched_inv_cong [of s s1] by (simp_all add: s1_def run_state_def fun_eq_iff)
  have eq: "wakeup_wait q w fl True s = wakeup_proc (w_proc (waits s w)) s1"
    using q by (simp add: wakeup_wait_def wait_queue_del_eq upd_wait_def s1_def)
  obtain s' where s': "wakeup_proc (w_proc (waits s w)) s1 = Some s'" "sched_inv s'"
    "current s' = current s1" "idleproc s' = idleproc s1" "sched.more s' = sched.more s1"
    "run_state s' = woken {w_proc (waits s w)} (run_state s1)"
    using wakeup_proc_ok [OF s1(1,2)] by blast
  have "wq_inv q s'"
    using q more_eqD [OF s'(5)] by (auto simp: wq_inv_def s1(7,9))
  with eq s' more_eqD [OF s'(5)] s1 show ?thesis
    by simp
qed

lemma wakeup_queue_del_ok:
  "sched_inv s \<Longrightarrow> wq_inv q s \<Longrightarrow> wqs s q = w # ws \<Longrightarrow>
    \<forall>w \<in> set (wqs s q). p_state (procs s (w_proc (waits s w))) \<noteq> PROC_ZOMBIE \<Longrightarrow>
    \<exists>s'. wakeup_queue_del q fl w s = Some s' \<and> sched_inv s' \<and> wqs s' = (wqs s)(q := []) \<and>
      (\<forall>x. w_flags (waits s' x) = (if x \<in> set (wqs s q) then fl else w_flags (waits s x))) \<and>
      run_state s' = woken ((\<lambda>w. w_proc (waits s w)) ` set (wqs s q)) (run_state s)"
proof (induction ws arbitrary: w s)
  case Nil
  then obtain s' where "wakeup_wait q w fl True s = Some s'" "sched_inv s'" "wqs s' = (wqs s)(q := [])"
    "waits s' = (waits s)(w := (waits s w)\<lparr>w_linked := False, w_flags := fl\<rparr>)"
    "run_state s' = woken {w_proc (waits s w)} (run_state s)"
    using wakeup_wait_ok [OF Nil(1-3), of fl] by auto
  with Nil(3) show ?case
    by (subst wakeup_queue_del.simps) (auto simp: wait_queue_first_def)
next
  case (Cons v ws)
  then obtain s1 where s1: "wakeup_wait q w fl True s = Some s1" "sched_inv s1" "wq_inv q s1"
    "wqs s1 = (wqs s)(q := v # ws)"
    "waits s1 = (waits s)(w := (waits s w)\<lparr>w_linked := False, w_flags := fl\<rparr>)"
    "run_state s1 = woken {w_proc (waits s w)} (run_state s)"
    using wakeup_wait_ok [OF Cons.prems(1-3), of fl] by auto
  have p: "w_proc (waits s1 x) = w_proc (waits s x)" for x
    by (simp add: s1(5))
  have "p_state (procs s1 p) \<noteq> PROC_ZOMBIE" if "p_state (procs s p) \<noteq> PROC_ZOMBIE" for p
    using that fun_cong [OF s1(6), of p] by (auto simp: woken_def run_state_def split: if_splits)
  then have z: "\<forall>x \<in> set (wqs s1 q). p_state (procs s1 (w_proc (waits s1 x))) \<noteq> PROC_ZOMBIE"
    using Cons.prems(3,4) by (simp add: s1(4) p)
  have q1: "wqs s1 q = v # ws"
    by (simp add: s1(4))
  from Cons.IH [OF s1(2,3) q1 z, unfolded q1 p] obtain s' where
    s': "wakeup_queue_del q fl v s1 = Some s'" "sched_inv s'" "wqs s' = (wqs s1)(q := [])"
    "\<forall>x. w_flags (waits s' x) = (if x \<in> set (v # ws) then fl else w_flags (waits s1 x))"
    "run_state s' = woken ((\<lambda>w. w_proc (waits s w)) ` set (v # ws)) (run_state s1)"
    by blast
  have "run_state s' = woken ((\<lambda>w. w_proc (waits s w)) ` set (wqs s q)) (run_state s)"
    by (auto simp: s'(5) s1(6) Cons.prems(3) woken_def fun_eq_iff)
  moreover have "wakeup_queue_del q fl w s = Some s'"
    using s1(1,4) s'(1) by (subst wakeup_queue_del.simps) (simp add: wait_queue_first_def)
  moreover have "\<forall>x. w_flags (waits s' x) = (if x \<in> set (wqs s q) then fl else w_flags (waits s x))"
    using s'(4) Cons.prems(3) by (simp add: s1(5))
  moreover have "wqs s' = (wqs s)(q := [])"
    by (simp only: s'(3) s1(4) fun_upd_upd)
  ultimately show ?case
    using s'(2) by blast
qed

section \<open>Semaphores\<close>

lemma sem_up_ok:
  assumes inv: "sched_inv s" and sem: "sem_inv sem ws s"
  shows "\<exists>s'. sem_up sem ws s = Some s' \<and> sched_inv s' \<and> sem_inv sem ws s' \<and>
    sem_value s' = (sem_value s)(sem := sem_value s sem + (if wqs s (sem_wq sem) = [] then 1 else 0)) \<and>
    wqs s' = (wqs s)(sem_wq sem := tl (wqs s (sem_wq sem))) \<and>
    waits s' = (case wqs s (sem_wq sem) of [] \<Rightarrow> waits s
      | w # _ \<Rightarrow> (waits s)(w := (waits s w)\<lparr>w_linked := False, w_flags := ws\<rparr>)) \<and>
    current s' = current s \<and> idleproc s' = idleproc s \<and> sync.more s' = sync.more s \<and>
    run_state s' = woken (set (map (\<lambda>w. w_proc (waits s w)) (take 1 (wqs s (sem_wq sem))))) (run_state s) \<and>
    (\<forall>w \<in> set (take 1 (wqs s (sem_wq sem))). w_flags (waits s' w) = ws \<and> \<not> w_linked (waits s' w))"
proof (cases "wqs s (sem_wq sem)")
  case Nil
  with assms show ?thesis
    by (auto simp: sem_up_def wait_queue_first_def sem_inv_def wq_inv_def woken_def fun_eq_iff fun_upd_idem)
next
  case (Cons w rest)
  let ?q = "sem_wq sem"
  have w: "run_state s (w_proc (waits s w)) = (PROC_SLEEPING, ws)" and q: "wq_inv ?q s"
    using sem Cons by (simp_all add: sem_inv_def)
  then obtain s' where s': "wakeup_wait ?q w ws True s = Some s'" "sched_inv s'" "wq_inv ?q s'"
    "wqs s' = (wqs s)(?q := rest)" "sem_value s' = sem_value s"
    "waits s' = (waits s)(w := (waits s w)\<lparr>w_linked := False, w_flags := ws\<rparr>)"
    "run_state s' = woken {w_proc (waits s w)} (run_state s)"
    "current s' = current s" "idleproc s' = idleproc s" "sync.more s' = sync.more s"
    using wakeup_wait_ok [OF inv q Cons, of ws] by (auto simp: run_state_def)
  have "sem_up sem ws s = Some s'"
    using Cons w s'(1) by (simp add: sem_up_def wait_queue_first_def run_state_def)
  moreover have "sem_inv sem ws s'"
  proof -
    have d: "distinct (w # rest)" "distinct (map (\<lambda>w. w_proc (waits s w)) (w # rest))"
      using sem Cons by (auto simp: sem_inv_def wq_inv_def)
    then have "map (\<lambda>w. w_proc (waits s' w)) rest = map (\<lambda>w. w_proc (waits s w)) rest"
      by (auto simp: s'(6))
    with d(2) have "distinct (map (\<lambda>w. w_proc (waits s' w)) rest)"
      by (simp only:) simp
    moreover have "run_state s' (w_proc (waits s' v)) = (PROC_SLEEPING, ws)" if "v \<in> set rest" for v
    proof -
      have "w_proc (waits s v) \<noteq> w_proc (waits s w)" "v \<noteq> w"
        using that d by (auto simp: image_iff)
      with that sem Cons show ?thesis
        by (simp add: s'(6,7) woken_def sem_inv_def)
    qed
    ultimately show ?thesis
      using sem Cons d s'(3-5) by (simp add: sem_inv_def)
  qed
  ultimately show ?thesis
    using Cons s' by auto
qed

lemma sem_down_now:
  "0 < sem_value s sem \<Longrightarrow> sem_down sem w ws s = Some (True, set_value sem (sem_value s sem - 1) s)"
  by (simp add: sem_down_def)

lemma sem_down_block:
  assumes inv: "sched_inv s" and sem: "sem_inv sem ws s" and v: "sem_value s sem = 0"
    and cur: "current s \<noteq> 0" "current s \<noteq> idleproc s" "p_state (procs s (current s)) = PROC_RUNNABLE"
    and w: "w \<notin> set (wqs s (sem_wq sem))"
  shows "\<exists>s'. sem_down sem w ws s = Some (False, s') \<and> sched_inv s' \<and> sem_inv sem ws s' \<and>
    sem_value s' = sem_value s \<and> wqs s' = (wqs s)(sem_wq sem := wqs s (sem_wq sem) @ [w]) \<and>
    waits s' = (waits s)(w := (waits s w)\<lparr>w_proc := current s, w_flags := WT_INTERRUPTED,
      w_queue := sem_wq sem, w_linked := True\<rparr>) \<and>
    idleproc s' = idleproc s \<and> sync.more s' = sync.more s \<and>
    run_state s' = (run_state s)(current s := (PROC_SLEEPING, ws))"
proof -
  let ?q = "sem_wq sem" and ?c = "current s"
  define s1 where "s1 = upd_proc ?c (\<lambda>p. p\<lparr>p_state := PROC_SLEEPING, p_wait_state := ws\<rparr>) s"
  define s2 where "s2 = s1\<lparr>waits := (waits s)(w := (waits s w)\<lparr>w_proc := ?c, w_flags := WT_INTERRUPTED,
      w_queue := ?q, w_linked := True\<rparr>), wqs := (wqs s)(?q := wqs s ?q @ [w])\<rparr>"
  have "sched_inv s1"
    unfolding s1_def using inv cur by (intro block_inv) auto
  then have inv2: "sched_inv s2"
    using sched_inv_cong [of s1 s2] by (simp add: s2_def)
  have rs: "run_state s2 = (run_state s)(?c := (PROC_SLEEPING, ws))"
    by (auto simp: s2_def s1_def run_state_def)
  have "wait_current_set ?q w ws s = Some s2"
    using cur by (simp add: wait_current_set_def wait_queue_add_def wait_init_def bind_kassert Let_def
      s2_def s1_def upd_wait_def upd_proc_def)
  moreover obtain s' where s': "schedule s2 = Some s'" "sched_inv s'" "run_state s' = run_state s2"
    "sched.more s' = sched.more s2" "idleproc s' = idleproc s2"
    using schedule_ok [OF inv2] by blast
  ultimately have "sem_down sem w ws s = Some (False, s')"
    using v by (simp add: sem_down_def)
  moreover have f: "waits s' = waits s2" "wqs s' = wqs s2" "sem_value s' = sem_value s"
    "sync.more s' = sync.more s" "idleproc s' = idleproc s"
    using more_eqD [OF s'(4)] s'(5) by (simp_all add: s2_def s1_def upd_proc_def)
  moreover have "sem_inv sem ws s'"
  proof -
    have W: "waits s2 x = waits s x" if "x \<in> set (wqs s ?q)" for x
      using that w by (auto simp: s2_def)
    have c: "?c \<notin> (\<lambda>w. w_proc (waits s w)) ` set (wqs s ?q)"
      using sem cur(3) by (auto simp: sem_inv_def run_state_def)
    have "distinct (map (\<lambda>w. w_proc (waits s2 w)) (wqs s ?q))"
      using sem W by (simp add: sem_inv_def cong: map_cong)
    moreover have "w_proc (waits s2 w) = ?c" "w_linked (waits s2 w)" "w_queue (waits s2 w) = ?q"
      "wqs s2 ?q = wqs s ?q @ [w]"
      by (simp_all add: s2_def)
    ultimately show ?thesis
      using sem w W c v unfolding sem_inv_def wq_inv_def f s'(3) rs by auto
  qed
  ultimately show ?thesis
    using s'(2,3) rs by (auto simp: s2_def)
qed

lemma sem_run_ok:
  assumes "sem_run sem s0 got rel s" "sched_inv s0" "sem_inv sem WT_KSEM s0"
  shows "sched_inv s \<and> sem_inv sem WT_KSEM s \<and> sem_value s sem + int got = sem_value s0 sem + int rel"
  using assms
proof (induction rule: sem_run.induct)
  case (down got rel s w now s')
  then have I: "sched_inv s" "sem_inv sem WT_KSEM s" by simp_all
  show ?case
  proof (cases "0 < sem_value s sem")
    case True
    with down I show ?thesis
      by (auto simp: Sync.down_def sem_down_now sem_inv_def wq_inv_def)
  next
    case False
    with I(2) have "sem_value s sem = 0"
      by (simp add: sem_inv_def)
    with sem_down_block [OF I this down.hyps(2-5)] down show ?thesis
      by (auto simp: Sync.down_def)
  qed
next
  case (nowait got rel s ok s')
  then show ?case
    by (auto simp: try_down_def sem_inv_def wq_inv_def split: if_splits)
next
  case (up got rel s s')
  then have I: "sched_inv s" "sem_inv sem WT_KSEM s" by simp_all
  from sem_up_ok [OF I] up show ?case
    by (auto simp: Sync.up_def wait_queue_empty_def)
next
  case (env got rel s s')
  then have "sem_inv sem WT_KSEM s" by simp
  moreover from this env.hyps(2) have "sem_inv sem WT_KSEM s'"
    by (auto simp: sem_inv_def wq_inv_def env_step_def cong: map_cong)
  ultimately show ?case
    using env by (simp add: env_step_def)
qed auto

lemma ups_ok:
  "sched_inv s \<Longrightarrow> sem_inv sem WT_KSEM s \<Longrightarrow> n \<le> length (wqs s (sem_wq sem)) \<Longrightarrow>
    \<exists>s'. ups sem n s = Some s' \<and> sched_inv s' \<and> sem_inv sem WT_KSEM s' \<and>
      sem_value s' sem = sem_value s sem \<and> wqs s' (sem_wq sem) = drop n (wqs s (sem_wq sem)) \<and>
      run_state s' = woken ((\<lambda>w. w_proc (waits s w)) ` set (take n (wqs s (sem_wq sem)))) (run_state s)"
proof (induction n arbitrary: s)
  case 0
  then show ?case by (auto simp: woken_def fun_eq_iff)
next
  case (Suc n)
  let ?q = "sem_wq sem"
  from Suc.prems(3) obtain w ws where q: "wqs s ?q = w # ws"
    by (cases "wqs s ?q") auto
  obtain s1 where s1: "up sem s = Some s1" "sched_inv s1" "sem_inv sem WT_KSEM s1"
    "sem_value s1 sem = sem_value s sem" "wqs s1 ?q = ws"
    "run_state s1 = woken {w_proc (waits s w)} (run_state s)"
    "waits s1 = (waits s)(w := (waits s w)\<lparr>w_linked := False, w_flags := WT_KSEM\<rparr>)"
  proof -
    have w: "run_state s (w_proc (waits s w)) = (PROC_SLEEPING, WT_KSEM)" "wq_inv ?q s"
      using Suc.prems(2) q by (simp_all add: sem_inv_def)
    then have "up sem s = wakeup_wait ?q w WT_KSEM True s"
      using q by (simp add: up_def sem_up_def wait_queue_first_def run_state_def)
    with that sem_up_ok [OF Suc.prems(1,2)] wakeup_wait_ok [OF Suc.prems(1) w(2) q, of WT_KSEM] w q
    show ?thesis by (auto simp: up_def run_state_def)
  qed
  from Suc.IH [OF s1(2,3)] Suc.prems(3) q obtain s' where s': "ups sem n s1 = Some s'" "sched_inv s'"
    "sem_inv sem WT_KSEM s'" "sem_value s' sem = sem_value s1 sem" "wqs s' ?q = drop n ws"
    "run_state s' = woken ((\<lambda>w. w_proc (waits s1 w)) ` set (take n ws)) (run_state s1)"
    by (auto simp: s1(5))
  have "(\<lambda>w. w_proc (waits s1 w)) = (\<lambda>w. w_proc (waits s w))"
    by (simp add: s1(7) fun_eq_iff)
  then have "run_state s' = woken ((\<lambda>w. w_proc (waits s w)) ` set (take (Suc n) (wqs s ?q))) (run_state s)"
    unfolding s'(6) s1(6) by (auto simp: q woken_def fun_eq_iff)
  with s' s1 q show ?case by auto
qed

lemma sem_waiters_upd:
  assumes "wqs s (sem_wq sem) = w # ws" "distinct (w # ws)" "wqs s' (sem_wq sem) = ws"
    "waits s' = (waits s)(w := (waits s w)\<lparr>w_linked := False, w_flags := fl\<rparr>)"
  shows "sem_waiters sem s = w_proc (waits s w) # sem_waiters sem s'"
  using assms by (auto simp: sem_waiters_def)

lemma up_wakes_first:
  assumes I: "sched_inv s" "sem_inv sem WT_KSEM s" and u: "up sem s = Some s'"
  shows "sem_waiters sem s = take 1 (sem_waiters sem s) @ sem_waiters sem s'"
    and "{p. run_state s' p \<noteq> run_state s p} = set (take 1 (sem_waiters sem s))"
proof -
  have up: "wqs s' (sem_wq sem) = tl (wqs s (sem_wq sem))"
    "waits s' = (case wqs s (sem_wq sem) of [] \<Rightarrow> waits s
      | w # _ \<Rightarrow> (waits s)(w := (waits s w)\<lparr>w_linked := False, w_flags := WT_KSEM\<rparr>))"
    "run_state s' = woken (set (map (\<lambda>w. w_proc (waits s w)) (take 1 (wqs s (sem_wq sem))))) (run_state s)"
    using sem_up_ok [OF I] u by (auto simp: Sync.up_def)
  have d: "distinct (wqs s (sem_wq sem))"
    using I(2) by (simp add: sem_inv_def wq_inv_def)
  show "sem_waiters sem s = take 1 (sem_waiters sem s) @ sem_waiters sem s'"
  proof (cases "wqs s (sem_wq sem)")
    case (Cons w ws)
    then show ?thesis
      using sem_waiters_upd [OF Cons, of s' WT_KSEM] up(1,2) d by simp
  qed (simp add: sem_waiters_def up(1))
  show "{p. run_state s' p \<noteq> run_state s p} = set (take 1 (sem_waiters sem s))"
    using I(2) by (cases "wqs s (sem_wq sem)") (auto simp: up(3) woken_def sem_inv_def sem_waiters_def)
qed

lemma sem_log_run: "sem_log sem s0 slept wk s \<Longrightarrow> \<exists>got rel. sem_run sem s0 got rel s"
  by (induction rule: sem_log.induct) (blast intro: sem_run.intros)+

lemma distinct_take1:
  assumes "distinct ps" "set ps = set (take 1 xs)"
  shows "ps = take 1 xs"
proof (cases xs)
  case (Cons x ys)
  then have "length ps = 1"
    using distinct_card [OF assms(1)] assms(2) by simp
  then show ?thesis
    using assms(2) Cons by (cases ps) simp_all
qed (use assms in simp)

lemma sem_log_order:
  assumes "sem_log sem s0 slept wk s" "sched_inv s0" "sem_inv sem WT_KSEM s0"
  shows "sem_waiters sem s0 @ slept = wk @ sem_waiters sem s"
  using assms(1)
proof (induction rule: sem_log.induct)
  case (down slept wk s w now s')
  have I: "sched_inv s" "sem_inv sem WT_KSEM s"
    using sem_log_run [OF down.hyps(1)] sem_run_ok assms(2,3) by blast+
  show ?case
  proof (cases "0 < sem_value s sem")
    case True
    with down show ?thesis
      by (auto simp: Sync.down_def sem_down_now sem_waiters_def)
  next
    case False
    with I(2) have "sem_value s sem = 0"
      by (simp add: sem_inv_def)
    from sem_down_block [OF I this down.hyps(2-5)] down.hyps(6)
    have "now = False" "sem_waiters sem s' = sem_waiters sem s @ [current s]"
      using down.hyps(5) by (auto simp: Sync.down_def sem_waiters_def)
    with down.IH show ?thesis
      by (metis append_assoc)
  qed
next
  case (nowait slept wk s ok s')
  then show ?case
    by (auto simp: try_down_def sem_waiters_def split: if_splits)
next
  case (up slept wk s s' ps)
  have I: "sched_inv s" "sem_inv sem WT_KSEM s"
    using sem_log_run [OF up.hyps(1)] sem_run_ok assms(2,3) by blast+
  note first = up_wakes_first [OF I up.hyps(2)]
  have "set ps = set (take 1 (sem_waiters sem s))"
    using up.hyps(3) first(2) by (rule trans)
  then have "ps = take 1 (sem_waiters sem s)"
    by (rule distinct_take1 [OF up.hyps(4)])
  with up.IH first(1) show ?case
    by (metis append_assoc)
next
  case (env slept wk s s')
  then show ?case
    by (simp add: env_step_def sem_waiters_def cong: map_cong)
qed simp

lemma waiting_procs_ok:
  "sched_inv waiting_procs" "sem_inv 100 WT_KSEM waiting_procs" "sem_inv 200 WT_KSEM waiting_procs"
  "wqs waiting_procs (sem_wq 100) = [50]" "w_proc (waits waiting_procs 50) = 4"
  "wq_inv (sem_wq 100) waiting_procs"
  by (auto simp: waiting_procs_def sched.defs sched_inv_def rq_inv_def four_procs_def blank_proc_def
    sem_inv_def wq_inv_def sem_wq_def run_state_def)

section \<open>Properties\<close>

text \<open>
  C14. A semaphore neither loses nor invents units: in every run of \<open>down\<close>, \<open>try_down\<close> and
  \<open>up\<close>, mixed with steps of the rest of the kernel, the units got by processes and those left
  in the semaphore are the initial value plus the units given back. In particular a semaphore that starts with
  1 is a mutual exclusion lock. (The value is a number here; the C \<open>int\<close> would overflow after \<open>2 ^ 31 - 1\<close> units.) Processes wait only while the value is 0, and \<open>up\<close> never fails an assertion.
\<close>

theorem semaphore_conserves_units:
  assumes "sem_run sem s0 got rel s" and "sched_inv s0" and "sem_inv sem WT_KSEM s0"
  shows "sem_value s sem + int got = sem_value s0 sem + int rel \<and> 0 \<le> sem_value s sem \<and>
    (wqs s (sem_wq sem) \<noteq> [] \<longrightarrow> sem_value s sem = 0) \<and> sched_inv s \<and>
    (\<exists>s'. up sem s = Some s')"
proof -
  have I: "sched_inv s" "sem_inv sem WT_KSEM s"
    "sem_value s sem + int got = sem_value s0 sem + int rel"
    using sem_run_ok [OF assms] by simp_all
  moreover obtain s' where "up sem s = Some s'"
    using sem_up_ok [OF I(1,2)] by (auto simp: up_def)
  ultimately show ?thesis
    by (auto simp: sem_inv_def)
qed

theorem semaphore_conserves_units_witness:
  "\<exists>s s'. sem_run 200 waiting_procs 1 0 s \<and> sem_value s 200 = 0 \<and> up 200 s = Some s'"
proof -
  have v: "sem_value waiting_procs 200 = 1"
    by (simp add: waiting_procs_def sched.defs)
  then have "try_down 200 waiting_procs = (True, set_value 200 0 waiting_procs)"
    by (simp add: try_down_def)
  from sem_run.nowait [OF sem_run.start this]
  have "sem_run 200 waiting_procs 1 0 (set_value 200 0 waiting_procs)" by simp
  with semaphore_conserves_units [OF this waiting_procs_ok(1,3)] v show ?thesis by auto
qed

text \<open>
  C33. Units are handed over in the order in which processes began to wait. In every run of \<open>down\<close>,
  \<open>try_down\<close> and \<open>up\<close>, mixed with steps of the rest of the kernel, the processes that waited at the
  start followed by those that \<open>down\<close> put to sleep since, in this order, are the processes \<open>up\<close> has woken,
  in the order in which it woke them, followed by those that still wait. So \<open>n\<close> further calls of \<open>up\<close>, for
  at least \<open>n\<close> waiters, wake exactly the next \<open>n\<close>, without changing the value or failing an assertion.
\<close>

theorem semaphore_fifo:
  assumes "sem_log sem s0 slept wk s" and "sched_inv s0" and "sem_inv sem WT_KSEM s0"
  shows "\<exists>rest. sem_waiters sem s0 @ slept = wk @ rest \<and>
    (\<forall>p \<in> set rest. run_state s p = (PROC_SLEEPING, WT_KSEM)) \<and>
    (\<forall>n \<le> length rest. \<exists>s'. ups sem n s = Some s' \<and> sem_value s' sem = sem_value s sem \<and>
       run_state s' = woken (set (take n rest)) (run_state s))"
proof -
  have I: "sched_inv s" "sem_inv sem WT_KSEM s"
    using sem_log_run [OF assms(1)] sem_run_ok assms(2,3) by blast+
  moreover have "\<forall>p \<in> set (sem_waiters sem s). run_state s p = (PROC_SLEEPING, WT_KSEM)"
    using I(2) by (auto simp: sem_inv_def sem_waiters_def)
  moreover have "\<exists>s'. ups sem n s = Some s' \<and> sem_value s' sem = sem_value s sem \<and>
      run_state s' = woken (set (take n (sem_waiters sem s))) (run_state s)" if "n \<le> length (sem_waiters sem s)" for n
    using ups_ok [OF I, of n] that by (auto simp: sem_waiters_def take_map)
  ultimately show ?thesis
    using sem_log_order [OF assms] by blast
qed

text \<open>Process 2 goes down on the semaphore on which process 4 waits; the next call of \<open>up\<close> wakes 4.\<close>

theorem semaphore_fifo_witness:
  "\<exists>s s'. sem_log 100 waiting_procs [current waiting_procs] [] s \<and> ups 100 1 s = Some s' \<and>
    run_state s' = woken {4} (run_state s)"
proof -
  let ?s = waiting_procs
  have c: "current ?s \<noteq> 0" "current ?s \<noteq> idleproc ?s" "p_state (procs ?s (current ?s)) = PROC_RUNNABLE"
    "60 \<notin> set (wqs ?s (sem_wq 100))" "sem_value ?s 100 = 0"
    by (simp_all add: waiting_procs_def sched.defs four_procs_def blank_proc_def sem_wq_def)
  obtain s where "down 100 60 ?s = Some (False, s)"
    using sem_down_block [OF waiting_procs_ok(1,2) c(5,1-4)] by (auto simp: Sync.down_def)
  from sem_log.down [OF sem_log.start c(1-4) this]
  have l: "sem_log 100 ?s [current ?s] [] s" by simp
  have "sem_waiters 100 ?s = [4]"
    by (simp add: sem_waiters_def waiting_procs_ok(4,5))
  with semaphore_fifo [OF l waiting_procs_ok(1,2)] obtain s' where "ups 100 1 s = Some s'" "run_state s' = woken {4} (run_state s)"
    by (auto dest: spec [of _ 1])
  with l show ?thesis by blast
qed

text \<open>
  \<open>wakeup_queue\<close> with \<open>del\<close> ends, leaves the wait queue empty and makes every process that
  waited on it runnable, with the given wake-up flags; processes that did not wait keep their
  state.
\<close>

theorem wakeup_queue_correct:
  assumes "sched_inv s" and "wq_inv q s"
    and "\<forall>w \<in> set (wqs s q). p_state (procs s (w_proc (waits s w))) \<noteq> PROC_ZOMBIE"
  shows "\<exists>s'. wakeup_queue q fl True s = Some s' \<and> sched_inv s' \<and> wqs s' = (wqs s)(q := []) \<and>
    (\<forall>w \<in> set (wqs s q). w_flags (waits s' w) = fl) \<and>
    run_state s' = woken ((\<lambda>w. w_proc (waits s w)) ` set (wqs s q)) (run_state s)"
proof (cases "wqs s q")
  case Nil
  with assms(1) show ?thesis
    by (auto simp: wakeup_queue_def wait_queue_first_def woken_def fun_eq_iff)
next
  case (Cons w ws)
  with wakeup_queue_del_ok [OF assms(1,2) Cons assms(3), of fl] show ?thesis
    by (auto simp: wakeup_queue_def wait_queue_first_def)
qed

theorem wakeup_queue_correct_witness:
  "\<exists>s'. wakeup_queue 104 7 True waiting_procs = Some s' \<and> wqs s' 104 = [] \<and>
    run_state s' = woken {4} (run_state waiting_procs)"
proof -
  have "p_state (procs waiting_procs 4) \<noteq> PROC_ZOMBIE" "sem_wq 100 = 104"
    by (simp_all add: waiting_procs_def sched.defs blank_proc_def sem_wq_def)
  with wakeup_queue_correct [OF waiting_procs_ok(1,6), of 7] show ?thesis
    using waiting_procs_ok(4,5) by auto
qed

end
