(* ===== verification/ProcTable.thy ===== *)
theory ProcTable
  imports Sync
begin

text \<open>
  The process table (\<^verbatim>\<open>kern/process/proc.c\<close>): pid allocation, the pid hash lists with
  \<open>hash32\<close> (\<^verbatim>\<open>libs/hash.c\<close>), the family links, and the system call handlers that work on
  them: \<open>do_kill\<close>, \<open>do_yield\<close>, \<open>do_sleep\<close>, the search and the reaping of \<open>do_wait\<close>, and the
  hand-over of the children in \<open>do_exit\<close>.

  \<open>proc_list\<close> and the buckets of \<open>hash_list\<close> are the lists of process pointers their circular
  lists hold, \<open>list_add\<close> puts an entry in front.
\<close>

section \<open>Data\<close>

record proctab = msync +
  proc_list :: "addr list"
  hash_list :: "nat \<Rightarrow> addr list"
  nr_process :: int
  next_safe :: int
  last_pid :: int
  initproc :: addr

definition MAX_PROCESS :: int where "MAX_PROCESS = 4096"

definition MAX_PID :: int where "MAX_PID = MAX_PROCESS * 2"

definition HASH_SHIFT :: nat where "HASH_SHIFT = 10"

definition HASH_LIST_SIZE :: nat where "HASH_LIST_SIZE = 2 ^ HASH_SHIFT"

definition PROC_NAME_LEN :: nat where "PROC_NAME_LEN = 50"

definition pid_hashfn :: "int \<Rightarrow> nat" where
  "pid_hashfn pid = unat (hash32 (word_of_int pid) HASH_SHIFT)"

section \<open>Names\<close>

text \<open>
  \<open>memcpy\<close> reads \<open>PROC_NAME_LEN\<close> bytes from \<open>name\<close>; the buffer of the process has one byte more, which stays 0.
\<close>

definition set_proc_name :: "addr \<Rightarrow> string \<Rightarrow> 'a sched_scheme \<Rightarrow> 'a sched_scheme" where
  "set_proc_name proc name =
     upd_proc proc (\<lambda>p. p\<lparr>p_name := take PROC_NAME_LEN name @ [CHR 0x00]\<rparr>)"

definition get_proc_name :: "addr \<Rightarrow> 'a sched_scheme \<Rightarrow> string" where
  "get_proc_name proc s = take PROC_NAME_LEN (p_name (procs s proc)) @ [CHR 0x00]"

section \<open>Family links\<close>

definition set_links :: "addr \<Rightarrow> 'a proctab_scheme \<Rightarrow> 'a proctab_scheme" where
  "set_links proc s =
     (let s = s\<lparr>proc_list := proc # proc_list s\<rparr>;
          s = upd_proc proc (\<lambda>p. p\<lparr>p_yptr := 0\<rparr>) s;
          s = upd_proc proc (\<lambda>p. p\<lparr>p_optr := p_cptr (procs s (p_parent (procs s proc)))\<rparr>) s;
          s = (if p_optr (procs s proc) \<noteq> 0
               then upd_proc (p_optr (procs s proc)) (\<lambda>p. p\<lparr>p_yptr := proc\<rparr>) s else s);
          s = upd_proc (p_parent (procs s proc)) (\<lambda>p. p\<lparr>p_cptr := proc\<rparr>) s
      in s\<lparr>nr_process := nr_process s + 1\<rparr>)"

definition remove_links :: "addr \<Rightarrow> 'a proctab_scheme \<Rightarrow> 'a proctab_scheme" where
  "remove_links proc s =
     (let s = s\<lparr>proc_list := remove1 proc (proc_list s)\<rparr>;
          s = (if p_optr (procs s proc) \<noteq> 0
               then upd_proc (p_optr (procs s proc)) (\<lambda>p. p\<lparr>p_yptr := p_yptr (procs s proc)\<rparr>) s
               else s);
          s = (if p_yptr (procs s proc) \<noteq> 0
               then upd_proc (p_yptr (procs s proc)) (\<lambda>p. p\<lparr>p_optr := p_optr (procs s proc)\<rparr>) s
               else upd_proc (p_parent (procs s proc)) (\<lambda>p. p\<lparr>p_cptr := p_optr (procs s proc)\<rparr>) s)
      in s\<lparr>nr_process := nr_process s - 1\<rparr>)"

section \<open>Pid allocation\<close>

text \<open>
  One pass over the process list. \<open>Inl last_pid\<close> is \<open>goto repeat\<close>, \<open>Inr\<close> the end of the
  pass with \<open>last_pid\<close> and \<open>next_safe\<close>.
\<close>

fun pid_scan :: "int list \<Rightarrow> int \<Rightarrow> int \<Rightarrow> int + int \<times> int" where
  "pid_scan [] lp safe = Inr (lp, safe)"
| "pid_scan (pid # pids) lp safe =
     (if pid = lp then
        (if lp + 1 \<ge> safe then Inl (if lp + 1 \<ge> MAX_PID then 1 else lp + 1)
         else pid_scan pids (lp + 1) safe)
      else if pid > lp \<and> safe > pid then pid_scan pids lp pid
      else pid_scan pids lp safe)"

partial_function (option) pid_repeat :: "int list \<Rightarrow> int \<Rightarrow> (int \<times> int) option" where
  "pid_repeat pids lp =
     (case pid_scan pids lp MAX_PID of
        Inl lp' \<Rightarrow> pid_repeat pids lp'
      | Inr r \<Rightarrow> Some r)"

definition proc_pids :: "'a proctab_scheme \<Rightarrow> int list" where
  "proc_pids s = map (\<lambda>p. p_pid (procs s p)) (proc_list s)"

definition get_pid :: "'a proctab_scheme \<Rightarrow> (int \<times> 'a proctab_scheme) option" where
  "get_pid s =
     (let lp = last_pid s + 1 in
      if lp \<ge> MAX_PID \<or> lp \<ge> next_safe s then
        do { (lp', safe) \<leftarrow> pid_repeat (proc_pids s) (if lp \<ge> MAX_PID then 1 else lp);
             Some (lp', s\<lparr>last_pid := lp', next_safe := safe\<rparr>) }
      else Some (lp, s\<lparr>last_pid := lp\<rparr>))"

section \<open>The pid hash lists\<close>

definition hash_proc :: "addr \<Rightarrow> 'a proctab_scheme \<Rightarrow> 'a proctab_scheme" where
  "hash_proc proc s =
     (let k = pid_hashfn (p_pid (procs s proc))
      in s\<lparr>hash_list := (hash_list s)(k := proc # hash_list s k)\<rparr>)"

text \<open>\<open>list_del\<close> of \<open>hash_link\<close>: the entry is on the list its pid hashes to.\<close>

definition unhash_proc :: "addr \<Rightarrow> 'a proctab_scheme \<Rightarrow> 'a proctab_scheme" where
  "unhash_proc proc s =
     (let k = pid_hashfn (p_pid (procs s proc))
      in s\<lparr>hash_list := (hash_list s)(k := remove1 proc (hash_list s k))\<rparr>)"

definition find_proc :: "int \<Rightarrow> 'a proctab_scheme \<Rightarrow> addr option" where
  "find_proc pid s =
     (if 0 < pid \<and> pid < MAX_PID
      then find (\<lambda>p. p_pid (procs s p) = pid) (hash_list s (pid_hashfn pid)) else None)"

section \<open>System calls on the process table\<close>

definition do_yield :: "'a sched_scheme \<Rightarrow> 'a sched_scheme" where
  "do_yield s = upd_proc (current s) (\<lambda>p. p\<lparr>p_need_resched := True\<rparr>) s"

definition lab6_set_priority :: "u32 \<Rightarrow> 'a sched_scheme \<Rightarrow> 'a sched_scheme" where
  "lab6_set_priority priority s =
     upd_proc (current s) (\<lambda>p. p\<lparr>p_lab6_priority := if priority = 0 then 1 else priority\<rparr>) s"

definition do_kill :: "int \<Rightarrow> 'a proctab_scheme \<Rightarrow> ((kerror + unit) \<times> 'a proctab_scheme) option" where
  "do_kill pid s =
     (case find_proc pid s of
        None \<Rightarrow> Some (Inl E_INVAL, s)
      | Some proc \<Rightarrow>
          if p_flags (procs s proc) AND PF_EXITING = 0 then
            do { let s = upd_proc proc (\<lambda>p. p\<lparr>p_flags := p_flags p OR PF_EXITING\<rparr>) s;
                 s \<leftarrow> (if p_wait_state (procs s proc) AND WT_INTERRUPTED \<noteq> 0
                      then wakeup_proc proc s else Some s);
                 Some (Inr (), s) }
          else Some (Inl E_KILLED, s))"

text \<open>
  \<open>do_sleep\<close> up to the switch (\<open>True\<close> when it returns at once), and after it. \<open>timer\<close> is the
  address of the timer on the stack of the caller.
\<close>

definition do_sleep :: "nat \<Rightarrow> addr \<Rightarrow> 'a sched_scheme \<Rightarrow> (bool \<times> 'a sched_scheme) option" where
  "do_sleep time timer s =
     (if time = 0 then Some (True, s)
      else
        do { let s = timer_init timer (current s) time s;
             let s = upd_proc (current s)
                       (\<lambda>p. p\<lparr>p_state := PROC_SLEEPING, p_wait_state := WT_TIMER\<rparr>) s;
             s \<leftarrow> add_timer timer s;
             s \<leftarrow> schedule s;
             Some (False, s) })"

definition do_sleep_resume :: "addr \<Rightarrow> 'a sched_scheme \<Rightarrow> 'a sched_scheme" where
  "do_sleep_resume timer s = del_timer timer s"

text \<open>
  The loop of \<open>do_wait\<close> over the children: the first zombie, and whether there is a child.
\<close>

partial_function (option) wait_any ::
  "addr \<Rightarrow> bool \<Rightarrow> 'a sched_scheme \<Rightarrow> (bool \<times> addr option) option" where
  "wait_any proc haskid s =
     (if proc = 0 then Some (haskid, None)
      else if p_state (procs s proc) = PROC_ZOMBIE then Some (True, Some proc)
      else wait_any (p_optr (procs s proc)) True s)"

definition wait_one :: "int \<Rightarrow> 'a proctab_scheme \<Rightarrow> bool \<times> addr option" where
  "wait_one pid s =
     (case find_proc pid s of
        Some proc \<Rightarrow>
          if p_parent (procs s proc) = current s then
            (True, if p_state (procs s proc) = PROC_ZOMBIE then Some proc else None)
          else (False, None)
      | None \<Rightarrow> (False, None))"

definition wait_search :: "int \<Rightarrow> 'a proctab_scheme \<Rightarrow> (bool \<times> addr option) option" where
  "wait_search pid s =
     (if pid \<noteq> 0 then Some (wait_one pid s) else wait_any (p_cptr (procs s (current s))) False s)"

text \<open>The end of \<open>do_wait\<close> for the zombie found; the stack and the structure are freed by the caller.\<close>

definition wait_found :: "addr \<Rightarrow> 'a proctab_scheme \<Rightarrow> (int \<times> 'a proctab_scheme) option" where
  "wait_found proc s =
     do { kassert (proc \<noteq> idleproc s \<and> proc \<noteq> initproc s);
          Some (p_exit_code (procs s proc), remove_links proc (unhash_proc proc s)) }"

text \<open>The loop of \<open>do_exit\<close> that gives the children of the current process to \<open>initproc\<close>.\<close>

definition exit_relink :: "addr \<Rightarrow> 'a proctab_scheme \<Rightarrow> 'a proctab_scheme" where
  "exit_relink proc s =
     (let s = upd_proc (current s) (\<lambda>p. p\<lparr>p_cptr := p_optr (procs s proc)\<rparr>) s;
          s = upd_proc proc (\<lambda>p. p\<lparr>p_yptr := 0\<rparr>) s;
          s = upd_proc proc (\<lambda>p. p\<lparr>p_optr := p_cptr (procs s (initproc s))\<rparr>) s;
          s = (if p_optr (procs s proc) \<noteq> 0
               then upd_proc (p_cptr (procs s (initproc s))) (\<lambda>p. p\<lparr>p_yptr := proc\<rparr>) s else s);
          s = upd_proc proc (\<lambda>p. p\<lparr>p_parent := initproc s\<rparr>) s
      in upd_proc (initproc s) (\<lambda>p. p\<lparr>p_cptr := proc\<rparr>) s)"

definition exit_child :: "addr \<Rightarrow> 'a proctab_scheme \<Rightarrow> 'a proctab_scheme option" where
  "exit_child proc s =
     (let s = exit_relink proc s
      in if p_state (procs s proc) = PROC_ZOMBIE \<and> p_wait_state (procs s (initproc s)) = WT_CHILD
         then wakeup_proc (initproc s) s else Some s)"

partial_function (option) exit_children :: "'a proctab_scheme \<Rightarrow> 'a proctab_scheme option" where
  "exit_children s =
     (if p_cptr (procs s (current s)) = 0 then Some s
      else do { s \<leftarrow> exit_child (p_cptr (procs s (current s))) s; exit_children s })"

section \<open>Specification\<close>

text \<open>No live pid lies strictly between the last pid handed out and \<open>next_safe\<close>.\<close>

definition pid_inv :: "'a proctab_scheme \<Rightarrow> bool" where
  "pid_inv s \<longleftrightarrow> 1 \<le> last_pid s \<and> next_safe s \<le> MAX_PID \<and>
     (\<forall>pid \<in> set (proc_pids s). 0 < pid \<and> pid < MAX_PID \<and> (pid \<le> last_pid s \<or> next_safe s \<le> pid))"

text \<open>The hash lists hold exactly the processes on the process list, each in the bucket of its pid.\<close>

definition hash_inv :: "'a proctab_scheme \<Rightarrow> bool" where
  "hash_inv s \<longleftrightarrow> distinct (proc_list s) \<and> distinct (proc_pids s) \<and>
     (\<forall>k. distinct (hash_list s k) \<and>
        set (hash_list s k) = {p \<in> set (proc_list s). pid_hashfn (p_pid (procs s p)) = k})"

definition ptab_inv :: "'a proctab_scheme \<Rightarrow> bool" where
  "ptab_inv s \<longleftrightarrow> pid_inv s \<and> hash_inv s \<and> nr_process s = int (length (proc_list s)) + 1"

text \<open>
  What \<open>do_fork\<close> does with the process table once the process structure is complete.
\<close>

definition enter_proc :: "addr \<Rightarrow> 'a proctab_scheme \<Rightarrow> (int \<times> 'a proctab_scheme) option" where
  "enter_proc proc s =
     do { (pid, s) \<leftarrow> get_pid s;
          let s = upd_proc proc (\<lambda>p. p\<lparr>p_pid := pid\<rparr>) s;
          Some (pid, set_links proc (hash_proc proc s)) }"

text \<open>
  The children of a process: the list, youngest first, that \<open>cptr\<close>, \<open>optr\<close> and \<open>yptr\<close> link.
\<close>

definition hd0 :: "addr list \<Rightarrow> addr" where
  "hd0 ks = (case ks of [] \<Rightarrow> 0 | k # _ \<Rightarrow> k)"

fun chain :: "(addr \<Rightarrow> proc_struct) \<Rightarrow> addr \<Rightarrow> addr \<Rightarrow> addr list \<Rightarrow> bool" where
  "chain P par y [] \<longleftrightarrow> True"
| "chain P par y (k # ks) \<longleftrightarrow>
     p_parent (P k) = par \<and> p_yptr (P k) = y \<and> p_optr (P k) = hd0 ks \<and> chain P par k ks"

definition kids :: "(addr \<Rightarrow> proc_struct) \<Rightarrow> addr \<Rightarrow> addr list \<Rightarrow> bool" where
  "kids P par ks \<longleftrightarrow> distinct ks \<and> 0 \<notin> set ks \<and> p_cptr (P par) = hd0 ks \<and> chain P par 0 ks"

definition family :: "(addr \<Rightarrow> addr list) \<Rightarrow> 'a sched_scheme \<Rightarrow> bool" where
  "family F s \<longleftrightarrow> (\<forall>q. kids (procs s) q (F q))"

text \<open>
  A table with two processes, 3 (pid 1) and 4 (pid 2, a dead child of 3); process 2 is running
  and not on the list.
\<close>

definition two_procs :: proctab where
  "two_procs =
     \<lparr>procs = (\<lambda>_. blank_proc)(
        1 := blank_proc\<lparr>p_state := PROC_RUNNABLE\<rparr>,
        2 := blank_proc\<lparr>p_state := PROC_RUNNABLE, p_parent := 1\<rparr>,
        3 := blank_proc\<lparr>p_state := PROC_RUNNABLE, p_time_slice := 20, p_rq := True, p_pid := 1, p_cptr := 4\<rparr>,
        4 := blank_proc\<lparr>p_state := PROC_ZOMBIE, p_pid := 2, p_parent := 3\<rparr>),
      current = 2, idleproc = 1, run_list = [3], proc_num = 1, max_time_slice = 20,
      timer_list = [], timers = \<lambda>_. \<lparr>t_expires = 0, t_proc = 0\<rparr>, cpu_ksp = 0, cur_pgdir = 0,
      waits = \<lambda>_. \<lparr>w_proc = 0, w_flags = 0, w_queue = 0, w_linked = False\<rparr>, wqs = \<lambda>_. [],
      sem_value = \<lambda>_. 0, condvars = \<lambda>_. \<lparr>cv_sem = 0, cv_count = 0, cv_owner = 0\<rparr>,
      monitors = \<lambda>_. \<lparr>mt_mutex = 0, mt_next = 0, mt_next_count = 0, mt_cv = []\<rparr>,
      proc_list = [4, 3],
      hash_list = \<lambda>k. (if k = pid_hashfn 2 then [4] else []) @ (if k = pid_hashfn 1 then [3] else []),
      nr_process = 3, next_safe = 8192, last_pid = 2, initproc = 3\<rparr>"

section \<open>Pid allocation is correct\<close>

lemma pid_scan_Inr:
  "pid_scan pids lp safe = Inr (l, sf) \<Longrightarrow> lp < safe \<Longrightarrow>
    lp \<le> l \<and> l < sf \<and> sf \<le> safe \<and> (\<forall>p \<in> set pids. p < l \<or> sf \<le> p)"
  by (induction pids lp safe rule: pid_scan.induct) (force split: if_splits)+

lemma pid_scan_Inl:
  "pid_scan pids lp safe = Inl l \<Longrightarrow> lp < safe \<Longrightarrow> 1 \<le> lp \<Longrightarrow> f \<notin> set pids \<Longrightarrow> f < MAX_PID \<Longrightarrow>
    (if lp \<le> f then lp < l \<and> l \<le> f else l = 1 \<or> lp < l) \<and> 1 \<le> l \<and> l < MAX_PID"
proof (induction pids lp safe rule: pid_scan.induct)
  case (2 pid pids lp safe)
  have "(1::int) < MAX_PID"
    by (simp add: MAX_PID_def MAX_PROCESS_def)
  with 2 show ?case
    by (force split: if_splits)
qed simp

lemma pid_repeat_ok:
  assumes f: "f \<notin> set pids" "1 \<le> f" "f < MAX_PID"
  shows "1 \<le> lp \<Longrightarrow> lp < MAX_PID \<Longrightarrow>
    \<exists>l sf. pid_repeat pids lp = Some (l, sf) \<and> 1 \<le> l \<and> l < sf \<and> sf \<le> MAX_PID \<and>
      (\<forall>p \<in> set pids. p < l \<or> sf \<le> p)"
proof (induction "nat (if lp \<le> f then f - lp else MAX_PID - lp + MAX_PID)" arbitrary: lp
    rule: less_induct)
  case less
  show ?case
  proof (cases "pid_scan pids lp MAX_PID")
    case (Inl l)
    note A = pid_scan_Inl [OF Inl less.prems(2,1) f(1,3)]
    with less.prems f have "nat (if l \<le> f then f - l else MAX_PID - l + MAX_PID) <
        nat (if lp \<le> f then f - lp else MAX_PID - lp + MAX_PID)"
      by (auto split: if_splits)
    from less.hyps [OF this] A Inl show ?thesis
      by (subst pid_repeat.simps) auto
  next
    case (Inr r)
    obtain l sf where "r = (l, sf)" by fastforce
    with Inr pid_scan_Inr [of pids lp MAX_PID l sf] less.prems show ?thesis
      by (subst pid_repeat.simps) auto
  qed
qed

lemma free_pid_exists:
  assumes "int (length pids) < MAX_PID - 1"
  shows "\<exists>f. f \<notin> set pids \<and> 1 \<le> f \<and> f < MAX_PID"
proof (rule ccontr)
  assume "\<not> ?thesis"
  then have "{1..<MAX_PID} \<subseteq> set pids"
    by auto
  then have "card {1..<MAX_PID} \<le> card (set pids)"
    by (intro card_mono) auto
  also have "\<dots> \<le> length pids"
    by (rule card_length)
  finally show False
    using assms by simp
qed

lemma get_pid_ok:
  assumes inv: "pid_inv s" and len: "int (length (proc_list s)) < MAX_PID - 1"
  shows "\<exists>pid safe. get_pid s = Some (pid, s\<lparr>last_pid := pid, next_safe := safe\<rparr>) \<and>
    1 \<le> pid \<and> pid < MAX_PID \<and> pid \<notin> set (proc_pids s) \<and> safe \<le> MAX_PID \<and>
    (\<forall>p \<in> set (proc_pids s). p < pid \<or> safe \<le> p)"
proof (cases "last_pid s + 1 \<ge> MAX_PID \<or> last_pid s + 1 \<ge> next_safe s")
  case True
  let ?lp = "if last_pid s + 1 \<ge> MAX_PID then 1 else last_pid s + 1"
  have lp: "1 \<le> ?lp" "?lp < MAX_PID"
    using inv by (auto simp: pid_inv_def MAX_PID_def MAX_PROCESS_def)
  obtain f where f: "f \<notin> set (proc_pids s)" "1 \<le> f" "f < MAX_PID"
    using free_pid_exists [of "proc_pids s"] len by (auto simp: proc_pids_def)
  obtain l sf where r: "pid_repeat (proc_pids s) ?lp = Some (l, sf)" "1 \<le> l" "l < sf" "sf \<le> MAX_PID"
    "\<forall>p \<in> set (proc_pids s). p < l \<or> sf \<le> p"
    using pid_repeat_ok [OF f lp] by blast
  from r(1) True have "get_pid s = Some (l, s\<lparr>last_pid := l, next_safe := sf\<rparr>)"
    by (simp add: get_pid_def Let_def)
  with r(2-5) show ?thesis by force
next
  case False
  then have "get_pid s = Some (last_pid s + 1, s\<lparr>last_pid := last_pid s + 1, next_safe := next_safe s\<rparr>)"
    by (simp add: get_pid_def Let_def)
  with False inv show ?thesis
    by (force simp: pid_inv_def)
qed

section \<open>The process table\<close>

lemma find_proc_Some:
  assumes "hash_inv s" "pid_inv s"
  shows "find_proc pid s = Some p \<longleftrightarrow> p \<in> set (proc_list s) \<and> p_pid (procs s p) = pid"
proof
  assume "find_proc pid s = Some p"
  then have "p \<in> set (hash_list s (pid_hashfn pid))" "p_pid (procs s p) = pid"
    by (auto simp: find_proc_def find_Some_iff split: if_splits)
  with assms show "p \<in> set (proc_list s) \<and> p_pid (procs s p) = pid"
    by (simp add: hash_inv_def)
next
  assume p: "p \<in> set (proc_list s) \<and> p_pid (procs s p) = pid"
  with assms have b: "0 < pid" "pid < MAX_PID" "p \<in> set (hash_list s (pid_hashfn pid))"
    by (auto simp: pid_inv_def hash_inv_def proc_pids_def)
  then obtain q where q: "find (\<lambda>p. p_pid (procs s p) = pid) (hash_list s (pid_hashfn pid)) = Some q"
    using p by (cases "find (\<lambda>p. p_pid (procs s p) = pid) (hash_list s (pid_hashfn pid))")
      (auto simp: find_None_iff)
  then have "q \<in> set (hash_list s (pid_hashfn pid))" "p_pid (procs s q) = pid"
    by (auto simp: find_Some_iff)
  with assms(1) have "q \<in> set (proc_list s)"
    by (simp add: hash_inv_def)
  moreover have "inj_on (\<lambda>p. p_pid (procs s p)) (set (proc_list s))"
    using assms(1) by (simp add: hash_inv_def proc_pids_def distinct_map)
  ultimately have "q = p"
    using p \<open>p_pid (procs s q) = pid\<close> by (auto dest: inj_onD)
  with q b show "find_proc pid s = Some p"
    by (simp add: find_proc_def)
qed

lemma set_links_frame:
  "proc_list (set_links p s) = p # proc_list s" "hash_list (set_links p s) = hash_list s"
  "nr_process (set_links p s) = nr_process s + 1" "last_pid (set_links p s) = last_pid s"
  "next_safe (set_links p s) = next_safe s" "p_pid (procs (set_links p s) q) = p_pid (procs s q)"
  by (auto simp: set_links_def Let_def upd_proc_def)

lemma remove_links_frame:
  "proc_list (remove_links p s) = remove1 p (proc_list s)" "hash_list (remove_links p s) = hash_list s"
  "nr_process (remove_links p s) = nr_process s - 1" "last_pid (remove_links p s) = last_pid s"
  "next_safe (remove_links p s) = next_safe s" "p_pid (procs (remove_links p s) q) = p_pid (procs s q)"
  by (auto simp: remove_links_def Let_def upd_proc_def)

lemma enter_proc_ok:
  assumes inv: "ptab_inv s" and nr: "nr_process s < MAX_PROCESS" and new: "p \<notin> set (proc_list s)"
  shows "\<exists>pid s'. enter_proc p s = Some (pid, s') \<and> ptab_inv s' \<and> pid \<notin> set (proc_pids s) \<and>
    proc_list s' = p # proc_list s \<and> (\<forall>q. p_pid (procs s' q) = (if q = p then pid else p_pid (procs s q)))"
proof -
  have "int (length (proc_list s)) < MAX_PID - 1"
    using inv nr by (simp add: ptab_inv_def MAX_PID_def MAX_PROCESS_def)
  then obtain pid safe where g: "get_pid s = Some (pid, s\<lparr>last_pid := pid, next_safe := safe\<rparr>)"
    "1 \<le> pid" "pid < MAX_PID" "pid \<notin> set (proc_pids s)" "safe \<le> MAX_PID"
    "\<forall>p \<in> set (proc_pids s). p < pid \<or> safe \<le> p"
    using get_pid_ok [of s] inv by (auto simp: ptab_inv_def)
  define s1 where "s1 = upd_proc p (\<lambda>p. p\<lparr>p_pid := pid\<rparr>) (s\<lparr>last_pid := pid, next_safe := safe\<rparr>)"
  define s' where "s' = set_links p (hash_proc p s1)"
  have e: "enter_proc p s = Some (pid, s')"
    using g(1) by (simp add: enter_proc_def s1_def s'_def Let_def)
  have s1: "procs (hash_proc p s1) = procs s1" "proc_list (hash_proc p s1) = proc_list s"
    "last_pid (hash_proc p s1) = pid" "next_safe (hash_proc p s1) = safe"
    "nr_process (hash_proc p s1) = nr_process s"
    "hash_list (hash_proc p s1) = (hash_list s)(pid_hashfn pid := p # hash_list s (pid_hashfn pid))"
    by (simp_all add: hash_proc_def Let_def s1_def upd_proc_def)
  have pid: "p_pid (procs s' q) = (if q = p then pid else p_pid (procs s q))" for q
    by (simp add: s'_def set_links_frame s1(1)) (simp add: s1_def)
  have pl: "proc_list s' = p # proc_list s"
    by (simp add: s'_def set_links_frame s1)
  have "proc_pids s' = pid # proc_pids s"
    using new by (auto simp: proc_pids_def pl pid)
  moreover have "hash_list s' = (hash_list s)(pid_hashfn pid := p # hash_list s (pid_hashfn pid))"
    by (simp add: s'_def set_links_frame s1)
  ultimately have "hash_inv s'"
    using inv g(4) new by (auto simp: hash_inv_def ptab_inv_def pl pid)
  moreover have "pid_inv s'"
    using inv g \<open>proc_pids s' = pid # proc_pids s\<close>
    by (force simp: pid_inv_def ptab_inv_def s'_def set_links_frame s1)
  moreover have "nr_process s' = int (length (proc_list s')) + 1"
    using inv by (simp add: ptab_inv_def s'_def set_links_frame s1)
  ultimately have "ptab_inv s'"
    by (simp add: ptab_inv_def)
  with e g(4) pl pid show ?thesis by auto
qed

lemma wait_found_ok:
  assumes inv: "ptab_inv s" and p: "p \<in> set (proc_list s)" "p \<noteq> idleproc s" "p \<noteq> initproc s"
  shows "\<exists>s'. wait_found p s = Some (p_exit_code (procs s p), s') \<and> ptab_inv s' \<and>
    proc_list s' = remove1 p (proc_list s) \<and> (\<forall>q. p_pid (procs s' q) = p_pid (procs s q))"
proof -
  define s' where "s' = remove_links p (unhash_proc p s)"
  have u: "procs (unhash_proc p s) = procs s" "proc_list (unhash_proc p s) = proc_list s"
    "last_pid (unhash_proc p s) = last_pid s" "next_safe (unhash_proc p s) = next_safe s"
    "nr_process (unhash_proc p s) = nr_process s"
    "hash_list (unhash_proc p s) = (hash_list s)(pid_hashfn (p_pid (procs s p)) :=
       remove1 p (hash_list s (pid_hashfn (p_pid (procs s p)))))"
    by (simp_all add: unhash_proc_def Let_def)
  note f = remove_links_frame [of p "unhash_proc p s", folded s'_def, unfolded u]
  have pids: "proc_pids s' = map (\<lambda>p. p_pid (procs s p)) (remove1 p (proc_list s))"
    by (simp add: proc_pids_def f)
  have H: "distinct (proc_list s)" "distinct (proc_pids s)" "\<And>k. distinct (hash_list s k)"
    "\<And>k. set (hash_list s k) = {p \<in> set (proc_list s). pid_hashfn (p_pid (procs s p)) = k}"
    using inv by (auto simp: ptab_inv_def hash_inv_def)
  have "hash_inv s'"
    using H p(1) by (auto simp: hash_inv_def f pids distinct_map proc_pids_def intro: inj_on_subset)
  moreover have "pid_inv s'"
    using inv by (auto simp: pid_inv_def ptab_inv_def pids f proc_pids_def dest: notin_set_remove1)
  moreover have "nr_process s' = int (length (proc_list s')) + 1"
    using inv p(1) length_pos_if_in_set [OF p(1)]
    by (cases "length (proc_list s)") (auto simp: ptab_inv_def f length_remove1)
  moreover have "wait_found p s = Some (p_exit_code (procs s p), s')"
    using p(2,3) by (simp add: wait_found_def bind_kassert s'_def)
  ultimately show ?thesis
    by (simp add: ptab_inv_def f)
qed

section \<open>Family links\<close>

lemma hd0_simps [simp]: "hd0 [] = 0" "hd0 (k # ks) = k"
  by (simp_all add: hd0_def)

lemma chain_cong:
  "(\<And>k. k \<in> set ks \<Longrightarrow> p_parent (P k) = p_parent (Q k) \<and> p_yptr (P k) = p_yptr (Q k) \<and>
      p_optr (P k) = p_optr (Q k)) \<Longrightarrow> chain P par y ks = chain Q par y ks"
  by (induction ks arbitrary: y) auto

lemma kids_cong:
  "(\<And>k. k \<in> set ks \<Longrightarrow> p_parent (P k) = p_parent (Q k) \<and> p_yptr (P k) = p_yptr (Q k) \<and>
      p_optr (P k) = p_optr (Q k)) \<Longrightarrow> p_cptr (P par) = p_cptr (Q par) \<Longrightarrow>
    kids P par ks = kids Q par ks"
  using chain_cong [of ks P Q par 0] by (simp add: kids_def)

lemma chain_parent: "chain P par y ks \<Longrightarrow> k \<in> set ks \<Longrightarrow> p_parent (P k) = par"
  by (induction ks arbitrary: y) auto

lemma chain_optr: "chain P par y ks \<Longrightarrow> k \<in> set ks \<Longrightarrow> p_optr (P k) \<in> insert 0 (set ks)"
proof (induction ks arbitrary: y)
  case (Cons x ks)
  then show ?case
    by (cases ks) auto
qed simp

lemma chain_yptr: "chain P par y ks \<Longrightarrow> k \<in> set ks \<Longrightarrow> p_yptr (P k) \<in> insert y (set ks)"
proof (induction ks arbitrary: y)
  case (Cons x ks)
  then show ?case by auto
qed simp

lemma family_parent: "family F s \<Longrightarrow> k \<in> set (F q) \<Longrightarrow> p_parent (procs s k) = q"
  by (auto simp: family_def kids_def dest: chain_parent)

lemma kids_front:
  assumes "kids P par ks" "k \<notin> set ks" "k \<noteq> 0"
    and Q: "p_cptr (Q par) = k" "p_parent (Q k) = par" "p_yptr (Q k) = 0" "p_optr (Q k) = hd0 ks"
    and old: "\<And>x. x \<in> set ks \<Longrightarrow> p_parent (Q x) = p_parent (P x) \<and> p_optr (Q x) = p_optr (P x) \<and>
      p_yptr (Q x) = (if x = hd0 ks then k else p_yptr (P x))"
  shows "kids Q par (k # ks)"
proof (cases ks)
  case Nil
  with assms show ?thesis by (simp add: kids_def)
next
  case (Cons x xs)
  then have "x \<notin> set xs"
    using assms(1) by (simp add: kids_def)
  then have "chain Q par x xs = chain P par x xs"
    using Cons old by (intro chain_cong) auto
  with assms Cons show ?thesis
    by (auto simp: kids_def)
qed

lemma set_links_procs:
  assumes "p_parent (procs s p) = par" "o1 = p_cptr (procs s par)" "o1 \<noteq> p"
  defines "P \<equiv> procs (set_links p s)"
  shows "p_cptr (P q) = (if q = par then p else p_cptr (procs s q))"
    and "p_parent (P q) = p_parent (procs s q)"
    and "p_optr (P q) = (if q = p then o1 else p_optr (procs s q))"
    and "p_yptr (P q) = (if o1 \<noteq> 0 \<and> q = o1 then p else if q = p then 0 else p_yptr (procs s q))"
  using assms(1-3) by (auto simp: P_def set_links_def Let_def)

lemma set_links_family:
  assumes fam: "family F s" and p: "p \<noteq> 0" "\<forall>q. p \<notin> set (F q)"
    and par: "par = p_parent (procs s p)"
  shows "family (F(par := p # F par)) (set_links p s)"
  unfolding family_def
proof
  fix q
  have K: "kids (procs s) q (F q)" for q
    using fam by (simp add: family_def)
  have o1: "p_cptr (procs s par) = hd0 (F par)"
    using K [of par] by (simp add: kids_def)
  have hd: "hd0 (F par) \<in> insert 0 (set (F par))"
    by (cases "F par") auto
  then have ne: "hd0 (F par) \<noteq> p"
    using p by auto
  note L = set_links_procs [OF par [symmetric] o1 [symmetric] ne]
  show "kids (procs (set_links p s)) q ((F(par := p # F par)) q)"
  proof (cases "q = par")
    case True
    have "kids (procs (set_links p s)) par (p # F par)"
      using p K [of par] par ne by (intro kids_front [OF K]) (auto simp: L kids_def)
    with True show ?thesis by simp
  next
    case False
    have "x \<noteq> p \<and> x \<noteq> hd0 (F par)" if "x \<in> set (F q)" for x
      using that p(2) hd family_parent [OF fam, of x q] family_parent [OF fam, of x par] False K [of q]
      by (auto simp: kids_def)
    with False have "kids (procs (set_links p s)) q (F q) = kids (procs s) q (F q)"
      by (intro kids_cong) (auto simp: L)
    with False K show ?thesis by simp
  qed
qed

lemma chain_remove:
  assumes "\<And>x. p_parent (Q x) = p_parent (P x)"
    and Y: "\<And>x. p_yptr (Q x) = (if p_optr (P k) \<noteq> 0 \<and> x = p_optr (P k) then p_yptr (P k) else p_yptr (P x))"
    and O: "\<And>x. p_optr (Q x) = (if p_yptr (P k) \<noteq> 0 \<and> x = p_yptr (P k) then p_optr (P k) else p_optr (P x))"
  shows "chain P par y ks \<Longrightarrow> distinct ks \<Longrightarrow> 0 \<notin> set ks \<Longrightarrow> y \<notin> set ks \<Longrightarrow> k \<in> set ks \<Longrightarrow>
    chain Q par y (remove1 k ks)"
proof (induction ks arbitrary: y)
  case (Cons x ks)
  show ?case
  proof (cases "x = k")
    case True
    show ?thesis
    proof (cases ks)
      case (Cons z zs)
      have "chain Q par z zs = chain P par z zs"
        using Cons.prems True Cons by (intro chain_cong) (auto simp: assms)
      with Cons.prems True Cons show ?thesis
        by (auto simp: assms)
    qed (simp add: True)
  next
    case False
    with Cons.prems have k: "k \<in> set ks" "chain P par x ks"
      by auto
    have IH: "chain Q par x (remove1 k ks)"
      using Cons.IH [OF k(2)] Cons.prems k by simp
    have "p_optr (P k) \<noteq> x"
      using chain_optr [OF k(2,1)] Cons.prems by auto
    moreover have "p_optr (Q x) = hd0 (remove1 k ks)"
    proof (cases ks)
      case (Cons z zs)
      show ?thesis
      proof (cases "z = k")
        case True
        with Cons k Cons.prems show ?thesis
          by (auto simp: O)
      next
        case F: False
        with Cons k have "p_yptr (P k) \<in> insert z (set zs)"
          by (auto dest: chain_yptr)
        with Cons F Cons.prems show ?thesis
          by (auto simp: O)
      qed
    qed (use k in simp)
    ultimately show ?thesis
      using IH False Cons.prems by (simp add: assms(1) Y)
  qed
qed simp

lemma remove_links_procs:
  assumes "y = p_yptr (procs s p)" "z = p_optr (procs s p)" "y \<noteq> p" "z \<noteq> p"
  defines "P \<equiv> procs (remove_links p s)"
  shows "p_cptr (P q) = (if y = 0 \<and> q = p_parent (procs s p) then z else p_cptr (procs s q))"
    and "p_parent (P q) = p_parent (procs s q)"
    and "p_yptr (P q) = (if z \<noteq> 0 \<and> q = z then y else p_yptr (procs s q))"
    and "p_optr (P q) = (if y \<noteq> 0 \<and> q = y then z else p_optr (procs s q))"
  using assms(1-4) by (auto simp: P_def remove_links_def Let_def)

lemma chain_neq_self:
  "chain P par y ks \<Longrightarrow> distinct ks \<Longrightarrow> 0 \<notin> set ks \<Longrightarrow> y \<notin> set ks \<Longrightarrow> k \<in> set ks \<Longrightarrow>
    p_yptr (P k) \<noteq> k \<and> p_optr (P k) \<noteq> k"
proof (induction ks arbitrary: y)
  case (Cons x ks)
  show ?case
  proof (cases "x = k")
    case True
    with Cons.prems show ?thesis
      by (cases ks) auto
  next
    case False
    with Cons show ?thesis by auto
  qed
qed simp

lemma kids_remove_cptr:
  assumes "kids P par ks" "k \<in> set ks"
  shows "hd0 (remove1 k ks) = (if p_yptr (P k) = 0 then p_optr (P k) else p_cptr (P par))"
proof (cases ks)
  case (Cons x xs)
  show ?thesis
  proof (cases "x = k")
    case True
    with assms Cons show ?thesis
      by (auto simp: kids_def)
  next
    case False
    with assms Cons have "p_yptr (P k) \<in> insert x (set xs)"
      by (auto simp: kids_def dest: chain_yptr)
    with assms Cons False show ?thesis
      by (auto simp: kids_def)
  qed
qed (use assms in simp)

lemma remove_links_family:
  assumes fam: "family F s" and p: "p \<in> set (F par)"
  shows "family (F(par := remove1 p (F par))) (remove_links p s)"
  unfolding family_def
proof
  fix q
  have K: "kids (procs s) q (F q)" for q
    using fam by (simp add: family_def)
  have par: "p_parent (procs s p) = par"
    by (rule family_parent [OF fam p])
  have C: "chain (procs s) par 0 (F par)" "distinct (F par)" "0 \<notin> set (F par)"
    using K [of par] by (auto simp: kids_def)
  note L = remove_links_procs [OF refl refl chain_neq_self [THEN conjunct1, OF C C(3) p]
      chain_neq_self [THEN conjunct2, OF C C(3) p]]
  show "kids (procs (remove_links p s)) q ((F(par := remove1 p (F par))) q)"
  proof (cases "q = par")
    case True
    have "chain (procs (remove_links p s)) par 0 (remove1 p (F par))"
      by (rule chain_remove [OF L(2-4) C C(3) p])
    with True C kids_remove_cptr [OF K p] show ?thesis
      by (auto simp: kids_def L(1) par dest: notin_set_remove1)
  next
    case False
    have "x \<notin> set (F par)" if "x \<in> set (F q)" for x
      using that False family_parent [OF fam] by blast
    moreover have "p_optr (procs s p) \<in> insert 0 (set (F par))" "p_yptr (procs s p) \<in> insert 0 (set (F par))"
      using chain_optr [OF C(1) p] chain_yptr [OF C(1) p] by auto
    moreover have "0 \<notin> set (F q)"
      using K by (simp add: kids_def)
    ultimately have "kids (procs (remove_links p s)) q (F q) = kids (procs s) q (F q)"
      using False by (intro kids_cong) (auto simp: L par)
    with False K show ?thesis by simp
  qed
qed

lemma sched_inv_fields:
  assumes "\<And>q. p_state (procs s' q) = p_state (procs s q) \<and> p_rq (procs s' q) = p_rq (procs s q) \<and>
      p_time_slice (procs s' q) = p_time_slice (procs s q)"
    and "current s' = current s" "idleproc s' = idleproc s" "run_list s' = run_list s"
    "proc_num s' = proc_num s" "max_time_slice s' = max_time_slice s"
  shows "sched_inv s' = sched_inv s"
  using assms by (simp add: sched_inv_def rq_inv_def)

lemma wakeup_proc_links:
  assumes "wakeup_proc p s = Some s'"
  shows "p_cptr (procs s' q) = p_cptr (procs s q)" and "p_optr (procs s' q) = p_optr (procs s q)"
    and "p_yptr (procs s' q) = p_yptr (procs s q)" and "p_parent (procs s' q) = p_parent (procs s q)"
    and "p_pid (procs s' q) = p_pid (procs s q)"
    and "current s' = current s" and "sched.more s' = sched.more s"
  using assms by (auto simp: wakeup_proc_def sched_class_enqueue_def RR_enqueue_eq Let_def split: if_splits)

lemma more_eq_initproc:
  "sched.more s' = sched.more (s :: 'a proctab_scheme) \<Longrightarrow> initproc s' = initproc s"
  by (cases s; cases s'; simp)

text \<open>
  While \<open>do_exit\<close> hands the children over, the ones left (\<open>ks\<close>) are still linked with each other,
  but the youngest of them still names its former younger sibling \<open>y\<close>.
\<close>

definition leaving :: "(addr \<Rightarrow> addr list) \<Rightarrow> addr list \<Rightarrow> addr \<Rightarrow> 'a proctab_scheme \<Rightarrow> bool" where
  "leaving G ks y s \<longleftrightarrow> (\<forall>q. q \<noteq> current s \<longrightarrow> kids (procs s) q (G q)) \<and> distinct ks \<and> 0 \<notin> set ks \<and>
     p_cptr (procs s (current s)) = hd0 ks \<and> chain (procs s) (current s) y ks"

lemma initproc_upd_proc [simp]: "initproc (upd_proc p f s) = initproc s"
  by (simp add: upd_proc_def)

lemma exit_relink_links:
  assumes "p_cptr (procs s i) \<noteq> k" "i = initproc s" "i \<noteq> current s"
  shows "p_cptr (procs (exit_relink k s) q) = (if q = i then k else if q = current s
      then p_optr (procs s k) else p_cptr (procs s q))"
    and "p_parent (procs (exit_relink k s) q) = (if q = k then i else p_parent (procs s q))"
    and "p_optr (procs (exit_relink k s) q) = (if q = k then p_cptr (procs s i) else p_optr (procs s q))"
    and "p_yptr (procs (exit_relink k s) q) = (if p_cptr (procs s i) \<noteq> 0 \<and> q = p_cptr (procs s i) then k
      else if q = k then 0 else p_yptr (procs s q))"
proof -
  define s1 where "s1 = upd_proc (current s) (\<lambda>p. p\<lparr>p_cptr := p_optr (procs s k)\<rparr>) s"
  define s2 where "s2 = upd_proc k (\<lambda>p. p\<lparr>p_yptr := 0\<rparr>) s1"
  have i2: "p_cptr (procs s2 i) = p_cptr (procs s i)" "initproc s2 = i"
    using assms by (simp_all add: s2_def s1_def)
  define s3 where "s3 = upd_proc k (\<lambda>p. p\<lparr>p_optr := p_cptr (procs s i)\<rparr>) s2"
  have i3: "p_optr (procs s3 k) = p_cptr (procs s i)" "p_cptr (procs s3 i) = p_cptr (procs s i)"
    using i2 by (cases "i = k"; simp add: s3_def)+
  define s4 where "s4 = (if p_cptr (procs s i) \<noteq> 0
    then upd_proc (p_cptr (procs s i)) (\<lambda>p. p\<lparr>p_yptr := k\<rparr>) s3 else s3)"
  have i4: "initproc s4 = i" "initproc s3 = i"
    using i2 by (simp_all add: s4_def s3_def)
  have e: "exit_relink k s = upd_proc i (\<lambda>p. p\<lparr>p_cptr := k\<rparr>) (upd_proc k (\<lambda>p. p\<lparr>p_parent := i\<rparr>) s4)"
    unfolding exit_relink_def Let_def s1_def [symmetric] s2_def [symmetric]
    by (simp only: i2 s3_def [symmetric] i3 i4 s4_def [symmetric]) (simp only: initproc_upd_proc i4)
  have s3: "p_cptr (procs s3 q) = (if q = current s then p_optr (procs s k) else p_cptr (procs s q))"
    "p_parent (procs s3 q) = p_parent (procs s q)"
    "p_optr (procs s3 q) = (if q = k then p_cptr (procs s i) else p_optr (procs s q))"
    "p_yptr (procs s3 q) = (if q = k then 0 else p_yptr (procs s q))" for q
    by (simp_all add: s3_def s2_def s1_def)
  have s4: "p_cptr (procs s4 q) = p_cptr (procs s3 q)" "p_parent (procs s4 q) = p_parent (procs s3 q)"
    "p_optr (procs s4 q) = p_optr (procs s3 q)"
    "p_yptr (procs s4 q) = (if p_cptr (procs s i) \<noteq> 0 \<and> q = p_cptr (procs s i) then k else p_yptr (procs s3 q))" for q
    by (simp_all add: s4_def)
  show "p_cptr (procs (exit_relink k s) q) = (if q = i then k else if q = current s
      then p_optr (procs s k) else p_cptr (procs s q))"
    and "p_parent (procs (exit_relink k s) q) = (if q = k then i else p_parent (procs s q))"
    and "p_optr (procs (exit_relink k s) q) = (if q = k then p_cptr (procs s i) else p_optr (procs s q))"
    and "p_yptr (procs (exit_relink k s) q) = (if p_cptr (procs s i) \<noteq> 0 \<and> q = p_cptr (procs s i) then k
      else if q = k then 0 else p_yptr (procs s q))"
    using assms(1) by (simp_all add: e s4 s3)
qed

lemma upd_proc_keeps:
  "(\<And>x. p_state (f x) = p_state x) \<Longrightarrow> p_state (procs (upd_proc p f s) q) = p_state (procs s q)"
  "(\<And>x. p_rq (f x) = p_rq x) \<Longrightarrow> p_rq (procs (upd_proc p f s) q) = p_rq (procs s q)"
  "(\<And>x. p_time_slice (f x) = p_time_slice x) \<Longrightarrow>
    p_time_slice (procs (upd_proc p f s) q) = p_time_slice (procs s q)"
  "(\<And>x. p_wait_state (f x) = p_wait_state x) \<Longrightarrow>
    p_wait_state (procs (upd_proc p f s) q) = p_wait_state (procs s q)"
  by simp_all

lemma exit_relink_frame:
  "p_state (procs (exit_relink k s) q) = p_state (procs s q)"
  "p_rq (procs (exit_relink k s) q) = p_rq (procs s q)"
  "p_time_slice (procs (exit_relink k s) q) = p_time_slice (procs s q)"
  "p_wait_state (procs (exit_relink k s) q) = p_wait_state (procs s q)"
  "current (exit_relink k s) = current s" "idleproc (exit_relink k s) = idleproc s"
  "run_list (exit_relink k s) = run_list s" "proc_num (exit_relink k s) = proc_num s"
  "max_time_slice (exit_relink k s) = max_time_slice s" "initproc (exit_relink k s) = initproc s"
  by (simp_all add: exit_relink_def Let_def upd_proc_keeps del: upd_proc_simps(1) split del: if_split
    split: if_split)

lemma exit_child_links:
  assumes "p_cptr (procs s i) \<noteq> k" "i = initproc s" "i \<noteq> current s"
    and "exit_child k s = Some s'"
  shows "p_cptr (procs s' q) = (if q = i then k else if q = current s then p_optr (procs s k)
      else p_cptr (procs s q))"
    and "p_parent (procs s' q) = (if q = k then i else p_parent (procs s q))"
    and "p_optr (procs s' q) = (if q = k then p_cptr (procs s i) else p_optr (procs s q))"
    and "p_yptr (procs s' q) = (if p_cptr (procs s i) \<noteq> 0 \<and> q = p_cptr (procs s i) then k
      else if q = k then 0 else p_yptr (procs s q))"
proof -
  have "s' = exit_relink k s \<or> wakeup_proc i (exit_relink k s) = Some s'"
    using assms(2,4) by (auto simp: exit_child_def Let_def exit_relink_frame split: if_splits)
  then have "p_cptr (procs s' q) = p_cptr (procs (exit_relink k s) q) \<and>
    p_parent (procs s' q) = p_parent (procs (exit_relink k s) q) \<and>
    p_optr (procs s' q) = p_optr (procs (exit_relink k s) q) \<and>
    p_yptr (procs s' q) = p_yptr (procs (exit_relink k s) q)"
    using wakeup_proc_links(1-4) [of i "exit_relink k s" s' q] by auto
  then show "p_cptr (procs s' q) = (if q = i then k else if q = current s then p_optr (procs s k)
      else p_cptr (procs s q))"
    "p_parent (procs s' q) = (if q = k then i else p_parent (procs s q))"
    "p_optr (procs s' q) = (if q = k then p_cptr (procs s i) else p_optr (procs s q))"
    "p_yptr (procs s' q) = (if p_cptr (procs s i) \<noteq> 0 \<and> q = p_cptr (procs s i) then k
      else if q = k then 0 else p_yptr (procs s q))"
    using exit_relink_links [OF assms(1-3), of q] by simp_all
qed

lemma exit_child_sched:
  assumes inv: "sched_inv s" and i: "i = initproc s" "p_state (procs s i) \<noteq> PROC_ZOMBIE"
  shows "\<exists>s'. exit_child k s = Some s' \<and> sched_inv s' \<and> current s' = current s \<and>
    initproc s' = i \<and> p_state (procs s' i) \<noteq> PROC_ZOMBIE"
proof -
  let ?s = "exit_relink k s"
  have inv1: "sched_inv ?s"
    using inv sched_inv_fields [of ?s s] by (simp add: exit_relink_frame)
  show ?thesis
  proof (cases "p_state (procs s k) = PROC_ZOMBIE \<and> p_wait_state (procs s i) = WT_CHILD")
    case True
    have z: "p_state (procs ?s i) \<noteq> PROC_ZOMBIE"
      using i(2) by (simp add: exit_relink_frame)
    obtain s' where s': "wakeup_proc i ?s = Some s'" "sched_inv s'" "current s' = current ?s"
      "sched.more s' = sched.more ?s" "run_state s' = woken {i} (run_state ?s)"
      using wakeup_proc_ok [OF inv1 z] by blast
    have "p_state (procs s' i) = PROC_RUNNABLE"
      using fun_cong [OF s'(5), of i] by (auto simp: run_state_def woken_def split: if_splits)
    with s' True i(1) more_eq_initproc [OF s'(4)] show ?thesis
      by (simp add: exit_child_def exit_relink_frame)
  next
    case False
    with inv1 i show ?thesis
      by (intro exI [of _ ?s]) (auto simp: exit_child_def exit_relink_frame)
  qed
qed

lemma exit_children_ok:
  "sched_inv s \<Longrightarrow> leaving G ks y s \<Longrightarrow> initproc s \<noteq> current s \<Longrightarrow>
    p_state (procs s (initproc s)) \<noteq> PROC_ZOMBIE \<Longrightarrow>
    \<exists>s'. exit_children s = Some s' \<and> sched_inv s' \<and> current s' = current s \<and> initproc s' = initproc s \<and>
      leaving (G(initproc s := rev ks @ G (initproc s))) [] 0 s'"
proof (induction ks arbitrary: s G y)
  case Nil
  then show ?case
    by (subst exit_children.simps) (auto simp: leaving_def)
next
  case (Cons k ks)
  let ?i = "initproc s" and ?c = "current s"
  obtain s1 where s1: "exit_child k s = Some s1" "sched_inv s1" "current s1 = ?c" "initproc s1 = ?i"
    "p_state (procs s1 ?i) \<noteq> PROC_ZOMBIE"
    using exit_child_sched [OF Cons.prems(1) refl Cons.prems(4)] by blast
  have K: "kids (procs s) q (G q)" if "q \<noteq> ?c" for q
    using Cons.prems(2) that by (simp add: leaving_def)
  have C: "p_parent (procs s x) = ?c" if "x \<in> set (k # ks)" for x
    using Cons.prems(2) that by (auto simp: leaving_def dest: chain_parent)
  have P: "p_parent (procs s x) = q" if "x \<in> set (G q)" "q \<noteq> ?c" for x q
    using K [OF that(2)] that(1) by (auto simp: kids_def dest: chain_parent)
  have hd: "p_cptr (procs s ?i) = hd0 (G ?i)" "hd0 (G ?i) \<in> insert 0 (set (G ?i))"
    using K [OF Cons.prems(3)] by (cases "G ?i"; simp add: kids_def)+
  have k: "k \<noteq> 0" "k \<notin> set ks" "distinct ks" "0 \<notin> set ks" "chain (procs s) ?c k ks"
    "p_optr (procs s k) = hd0 ks" "p_cptr (procs s ?c) = k"
    using Cons.prems(2) by (auto simp: leaving_def)
  have ne: "p_cptr (procs s ?i) \<noteq> k"
    using hd k(1) P [OF _ Cons.prems(3)] C [of k] Cons.prems(3) by auto
  note L = exit_child_links [OF ne refl Cons.prems(3) s1(1)]
  have "kids (procs s1) q ((G(?i := k # G ?i)) q)" if "q \<noteq> ?c" for q
  proof (cases "q = ?i")
    case True
    have "k \<notin> set (G ?i)"
      using P [OF _ Cons.prems(3)] C [of k] Cons.prems(3) by auto
    with ne have "kids (procs s1) ?i (k # G ?i)"
      using hd k(1) K [OF Cons.prems(3)]
      by (intro kids_front [OF K [OF Cons.prems(3)]]) (auto simp: L kids_def)
    with True show ?thesis by simp
  next
    case False
    have "x \<noteq> k \<and> x \<noteq> hd0 (G ?i)" if "x \<in> set (G q)" for x
    proof -
      have "0 \<notin> set (G q)"
        using K [OF \<open>q \<noteq> ?c\<close>] by (simp add: kids_def)
      with that have "x \<noteq> 0" by metis
      with P [OF that \<open>q \<noteq> ?c\<close>] P [OF _ Cons.prems(3), of x] C [of k] hd(2) False \<open>q \<noteq> ?c\<close>
      show ?thesis by auto
    qed
    with False that have "kids (procs s1) q (G q) = kids (procs s) q (G q)"
      by (intro kids_cong) (auto simp: L hd(1))
    with False K [OF that] show ?thesis by simp
  qed
  moreover have "chain (procs s1) ?c k ks"
  proof -
    have "x \<noteq> k \<and> x \<noteq> hd0 (G ?i)" if "x \<in> set ks" for x
      using that k(2,4) C [of x] P [OF _ Cons.prems(3), of x] hd(2) Cons.prems(3) by auto
    then have "chain (procs s1) ?c k ks = chain (procs s) ?c k ks"
      by (intro chain_cong) (auto simp: L hd(1))
    with k(5) show ?thesis by simp
  qed
  ultimately have "leaving (G(?i := k # G ?i)) ks k s1"
    using k Cons.prems(3) by (auto simp: leaving_def s1(3) L)
  from Cons.IH [OF s1(2) this, unfolded s1(3,4)] s1(5) Cons.prems(3) obtain s' where
    "exit_children s1 = Some s'" "sched_inv s'" "current s' = ?c" "initproc s' = ?i"
    and l: "leaving ((G(?i := k # G ?i))(?i := rev ks @ (G(?i := k # G ?i)) ?i)) [] 0 s'"
    by blast
  moreover have "leaving (G(?i := rev (k # ks) @ G ?i)) [] 0 s'"
    using l unfolding fun_upd_upd by simp
  moreover have "exit_children s = exit_children s1"
    using k(1,7) s1(1) by (subst exit_children.simps) simp
  ultimately show ?case
    by (auto simp: fun_upd_def)
qed

lemma exit_children_family:
  assumes "sched_inv s" "family F s" "initproc s \<noteq> current s" "p_state (procs s (initproc s)) \<noteq> PROC_ZOMBIE"
  shows "\<exists>s'. exit_children s = Some s' \<and> sched_inv s' \<and> current s' = current s \<and>
    family (F(current s := [], initproc s := rev (F (current s)) @ F (initproc s))) s'"
proof -
  have "leaving F (F (current s)) 0 s"
    using assms(2) by (auto simp: leaving_def family_def kids_def)
  from exit_children_ok [OF assms(1) this assms(3,4)] assms(3) show ?thesis
    by (fastforce simp: leaving_def family_def kids_def)
qed

section \<open>Lookup after entering and reaping\<close>

lemma find_proc_eq:
  assumes "ptab_inv s'"
    and "\<And>p. p \<in> set (proc_list s') \<and> p_pid (procs s' p) = pid \<longleftrightarrow> r = Some p"
  shows "find_proc pid s' = r"
proof -
  have "find_proc pid s' = Some p \<longleftrightarrow> r = Some p" for p
    using assms find_proc_Some [of s' pid p] by (simp add: ptab_inv_def)
  then show ?thesis
    by (metis not_Some_eq)
qed

lemma find_proc_enter:
  assumes inv: "ptab_inv s" and nr: "nr_process s < MAX_PROCESS" and new: "p \<notin> set (proc_list s)"
  shows "\<exists>pid s'. enter_proc p s = Some (pid, s') \<and> ptab_inv s' \<and> find_proc pid s = None \<and>
    (\<forall>q. find_proc q s' = (if q = pid then Some p else find_proc q s))"
proof -
  obtain pid s' where e: "enter_proc p s = Some (pid, s')" "ptab_inv s'" "pid \<notin> set (proc_pids s)"
    "proc_list s' = p # proc_list s" "\<forall>q. p_pid (procs s' q) = (if q = p then pid else p_pid (procs s q))"
    using enter_proc_ok [OF assms] by blast
  have S: "find_proc q s = Some x \<longleftrightarrow> x \<in> set (proc_list s) \<and> p_pid (procs s x) = q" for q x
    using inv find_proc_Some [of s q x] by (simp add: ptab_inv_def)
  have pid: "p_pid (procs s x) \<noteq> pid" if "x \<in> set (proc_list s)" for x
    using e(3) that by (auto simp: proc_pids_def)
  then have none: "find_proc pid s = None"
    using S [of pid] by (metis not_Some_eq)
  moreover have "find_proc q s' = (if q = pid then Some p else find_proc q s)" for q
  proof (rule find_proc_eq [OF e(2)])
    fix x
    show "x \<in> set (proc_list s') \<and> p_pid (procs s' x) = q \<longleftrightarrow>
        (if q = pid then Some p else find_proc q s) = Some x"
      using S [of q x] pid [of x] new by (auto simp: e(4) e(5) [rule_format])
  qed
  ultimately show ?thesis
    using e(1,2) by blast
qed

lemma find_proc_reap:
  assumes inv: "ptab_inv s" and p: "find_proc pid s = Some p" "p \<noteq> idleproc s" "p \<noteq> initproc s"
  shows "\<exists>s'. wait_found p s = Some (p_exit_code (procs s p), s') \<and> ptab_inv s' \<and>
    (\<forall>q. find_proc q s' = (if q = pid then None else find_proc q s))"
proof -
  have S: "find_proc q s = Some x \<longleftrightarrow> x \<in> set (proc_list s) \<and> p_pid (procs s x) = q" for q x
    using inv find_proc_Some [of s q x] by (simp add: ptab_inv_def)
  then have m: "p \<in> set (proc_list s)" "p_pid (procs s p) = pid"
    using p(1) by auto
  obtain s' where s': "wait_found p s = Some (p_exit_code (procs s p), s')" "ptab_inv s'"
    "proc_list s' = remove1 p (proc_list s)" "\<forall>q. p_pid (procs s' q) = p_pid (procs s q)"
    using wait_found_ok [OF inv m(1) p(2,3)] by blast
  have d: "distinct (proc_list s)"
    using inv by (simp add: ptab_inv_def hash_inv_def)
  have uniq: "x = p" if "x \<in> set (proc_list s)" "p_pid (procs s x) = pid" for x
    using S [of pid x] that p(1) by simp
  have "find_proc q s' = (if q = pid then None else find_proc q s)" for q
  proof (rule find_proc_eq [OF s'(2)])
    fix x
    show "x \<in> set (proc_list s') \<and> p_pid (procs s' x) = q \<longleftrightarrow>
        (if q = pid then None else find_proc q s) = Some x"
    proof (cases "x = p")
      case True
      with m d S [of q p] show ?thesis
        by (auto simp: s'(3) s'(4) [rule_format])
    next
      case False
      with uniq have "x \<in> set (proc_list s) \<longrightarrow> p_pid (procs s x) \<noteq> pid"
        by blast
      with False S [of q x] show ?thesis
        by (auto simp: s'(3) s'(4) [rule_format])
    qed
  qed
  with s'(1,2) show ?thesis by blast
qed

lemma two_procs_inv: "ptab_inv two_procs" "sched_inv two_procs"
proof -
  have "proc_pids two_procs = [2, 1]" "last_pid two_procs = 2" "next_safe two_procs = MAX_PID"
    "nr_process two_procs = int (length (proc_list two_procs)) + 1" "proc_list two_procs = [4, 3]"
    "p_pid (procs two_procs 4) = 2" "p_pid (procs two_procs 3) = 1"
    "hash_list two_procs = (\<lambda>k. (if k = pid_hashfn 2 then [4] else []) @ (if k = pid_hashfn 1 then [3] else []))"
    by (simp_all add: proc_pids_def two_procs_def MAX_PID_def MAX_PROCESS_def)
  then show "ptab_inv two_procs"
    by (auto simp: ptab_inv_def pid_inv_def hash_inv_def MAX_PID_def MAX_PROCESS_def)
  show "sched_inv two_procs"
    by (auto simp: sched_inv_def rq_inv_def two_procs_def blank_proc_def)
qed

lemma two_procs_family: "family ((\<lambda>_. [])(3 := [4])) two_procs"
  by (auto simp: family_def kids_def two_procs_def blank_proc_def)

lemma two_procs_find: "find_proc 2 two_procs = Some 4" "find_proc 1 two_procs = Some 3"
proof -
  have "proc_list two_procs = [4, 3]" "p_pid (procs two_procs 4) = 2" "p_pid (procs two_procs 3) = 1"
    by (simp_all add: two_procs_def)
  with two_procs_inv(1) show "find_proc 2 two_procs = Some 4" "find_proc 1 two_procs = Some 3"
    by (simp_all add: find_proc_Some ptab_inv_def)
qed

section \<open>Properties\<close>

text \<open>
  C34. \<open>get_pid\<close> ends and hands out a pid that no process on the process list has, between 1 and
  \<open>MAX_PID\<close>, as long as the list has not all pids; the window between \<open>last_pid\<close> and
  \<open>next_safe\<close> stays free of live pids.
\<close>

theorem get_pid_correct:
  assumes "pid_inv s" and "int (length (proc_list s)) < MAX_PID - 1"
  shows "\<exists>pid s'. get_pid s = Some (pid, s') \<and> 1 \<le> pid \<and> pid < MAX_PID \<and>
    pid \<notin> set (proc_pids s) \<and> last_pid s' = pid \<and> pid_inv s'"
proof -
  obtain pid safe where "get_pid s = Some (pid, s\<lparr>last_pid := pid, next_safe := safe\<rparr>)"
    "1 \<le> pid" "pid < MAX_PID" "pid \<notin> set (proc_pids s)" "safe \<le> MAX_PID"
    "\<forall>p \<in> set (proc_pids s). p < pid \<or> safe \<le> p"
    using get_pid_ok [OF assms] by blast
  with assms(1) show ?thesis
    by (force simp: pid_inv_def proc_pids_def)
qed

theorem get_pid_correct_witness:
  "\<exists>pid s'. get_pid two_procs = Some (pid, s') \<and> pid \<notin> {1, 2} \<and> pid_inv s'"
proof -
  have "pid_inv two_procs" "int (length (proc_list two_procs)) < MAX_PID - 1"
    "set (proc_pids two_procs) = {1, 2}"
    using two_procs_inv(1)
    by (auto simp: ptab_inv_def proc_pids_def two_procs_def MAX_PID_def MAX_PROCESS_def)
  with get_pid_correct [of two_procs] show ?thesis by fastforce
qed

text \<open>
  The process table is a finite map from pids to processes: entering a process (pid, hash
  list, links) binds a pid that was unbound and leaves all other lookups alone.
\<close>

theorem find_proc_after_enter:
  assumes "ptab_inv s" and "nr_process s < MAX_PROCESS" and "p \<notin> set (proc_list s)"
  shows "\<exists>pid s'. enter_proc p s = Some (pid, s') \<and> ptab_inv s' \<and> find_proc pid s = None \<and>
    (\<forall>q. find_proc q s' = (if q = pid then Some p else find_proc q s))"
  using assms by (rule find_proc_enter)

theorem find_proc_after_enter_witness:
  "\<exists>pid s'. enter_proc 7 two_procs = Some (pid, s') \<and> find_proc pid s' = Some 7"
proof -
  have "nr_process two_procs < MAX_PROCESS" "7 \<notin> set (proc_list two_procs)"
    by (simp_all add: two_procs_def MAX_PROCESS_def)
  from find_proc_after_enter [OF two_procs_inv(1) this] show ?thesis by auto
qed

text \<open>
  Reaping a child unbinds exactly its pid: the exit code is returned, the invariant of the
  table holds, later lookups of the pid fail and all others are unchanged.
\<close>

theorem find_proc_after_reap:
  assumes "ptab_inv s" and "find_proc pid s = Some p" and "p \<noteq> idleproc s" and "p \<noteq> initproc s"
  shows "\<exists>s'. wait_found p s = Some (p_exit_code (procs s p), s') \<and> ptab_inv s' \<and>
    (\<forall>q. find_proc q s' = (if q = pid then None else find_proc q s))"
  using assms by (rule find_proc_reap)

theorem find_proc_after_reap_witness:
  "\<exists>s'. wait_found 4 two_procs = Some (0, s') \<and> find_proc 2 s' = None \<and> find_proc 1 s' = Some 3"
proof -
  have "4 \<noteq> idleproc two_procs" "4 \<noteq> initproc two_procs" "p_exit_code (procs two_procs 4) = 0"
    by (simp_all add: two_procs_def blank_proc_def)
  with find_proc_after_reap [OF two_procs_inv(1) two_procs_find(1)] show ?thesis
    by (auto simp: two_procs_find(2))
qed

text \<open>
  The family links keep their shape: when the children of every process form a well-linked
  list, \<open>set_links\<close> puts a new process in front of its parent's children and \<open>remove_links\<close>
  takes one out, and the lists of all processes are well linked again.
\<close>

theorem family_links_correct:
  assumes "family F s"
  shows "(p \<noteq> 0 \<longrightarrow> (\<forall>q. p \<notin> set (F q)) \<longrightarrow>
      family (F(p_parent (procs s p) := p # F (p_parent (procs s p)))) (set_links p s)) \<and>
    (p \<in> set (F par) \<longrightarrow> family (F(par := remove1 p (F par))) (remove_links p s))"
  using set_links_family [OF assms, of p] remove_links_family [OF assms, of p par] by auto

theorem family_links_correct_witness:
  "family ((\<lambda>_. [])(3 := [])) (remove_links 4 two_procs) \<and>
    family ((\<lambda>_. [])(3 := [4], 1 := [2])) (set_links 2 two_procs)"
proof
  show "family ((\<lambda>_. [])(3 := [])) (remove_links 4 two_procs)"
    using family_links_correct [OF two_procs_family, of 4 3] by simp
  have "p_parent (procs two_procs 2) = 1"
    by (simp add: two_procs_def)
  then show "family ((\<lambda>_. [])(3 := [4], 1 := [2])) (set_links 2 two_procs)"
    using family_links_correct [OF two_procs_family, of 2 3] by simp
qed

text \<open>
  When a process exits, the loop over its children ends, all of them become children of
  \<open>initproc\<close>, in front of the ones it has, and the exiting process has none left; no assertion
  fails and the scheduler state stays well-formed, also when \<open>initproc\<close> is woken to reap.
\<close>

theorem exit_children_correct:
  assumes "sched_inv s" and "family F s" and "initproc s \<noteq> current s"
    and "p_state (procs s (initproc s)) \<noteq> PROC_ZOMBIE"
  shows "\<exists>s'. exit_children s = Some s' \<and> sched_inv s' \<and> current s' = current s \<and>
    family (F(current s := [], initproc s := rev (F (current s)) @ F (initproc s))) s'"
  using assms by (rule exit_children_family)

theorem exit_children_correct_witness:
  "\<exists>s'. exit_children two_procs = Some s' \<and> family ((\<lambda>_. [])(3 := [4], 2 := [], 3 := [4])) s'"
proof -
  have c: "current two_procs = 2" "initproc two_procs = 3"
    "p_state (procs two_procs 3) \<noteq> PROC_ZOMBIE"
    by (simp_all add: two_procs_def)
  with exit_children_correct [OF two_procs_inv(2) two_procs_family] show ?thesis by auto
qed

text \<open>
  C35. \<open>do_kill\<close> answers \<open>-E_INVAL\<close> when there is no such process and \<open>-E_KILLED\<close> when it is already
  marked, both without an effect; otherwise it marks the process and wakes it exactly when it
  waits interruptibly. No assertion fails when a process that waits interruptibly is not dead.
\<close>

theorem do_kill_correct:
  assumes inv: "sched_inv s"
    and alive: "\<forall>p. p_wait_state (procs s p) AND WT_INTERRUPTED \<noteq> 0 \<longrightarrow> p_state (procs s p) \<noteq> PROC_ZOMBIE"
  shows "\<exists>r s'. do_kill pid s = Some (r, s') \<and> sched_inv s' \<and>
    (case find_proc pid s of
       None \<Rightarrow> r = Inl E_INVAL \<and> s' = s
     | Some p \<Rightarrow>
         if p_flags (procs s p) AND PF_EXITING \<noteq> 0 then r = Inl E_KILLED \<and> s' = s
         else r = Inr () \<and> p_flags (procs s' p) = p_flags (procs s p) OR PF_EXITING \<and>
           run_state s' = woken (if p_wait_state (procs s p) AND WT_INTERRUPTED \<noteq> 0 then {p} else {})
             (run_state s))"
proof (cases "find_proc pid s")
  case None
  with inv show ?thesis by (simp add: do_kill_def)
next
  case (Some p)
  show ?thesis
  proof (cases "p_flags (procs s p) AND PF_EXITING = 0")
    case False
    with Some inv show ?thesis by (simp add: do_kill_def)
  next
    case True
    define s1 where "s1 = upd_proc p (\<lambda>p. p\<lparr>p_flags := p_flags p OR PF_EXITING\<rparr>) s"
    have inv1: "sched_inv s1"
      using inv sched_inv_fields [of s1 s] by (simp add: s1_def)
    have s1: "run_state s1 = run_state s" "p_wait_state (procs s1 p) = p_wait_state (procs s p)"
      "p_flags (procs s1 p) = p_flags (procs s p) OR PF_EXITING"
      "p_state (procs s1 p) = p_state (procs s p)"
      by (simp_all add: s1_def run_state_def fun_eq_iff)
    show ?thesis
    proof (cases "p_wait_state (procs s p) AND WT_INTERRUPTED = 0")
      case w: True
      then have "do_kill pid s = Some (Inr (), s1)"
        using Some True s1(2) by (simp add: do_kill_def s1_def [symmetric] Let_def)
      with Some True w inv1 s1 show ?thesis
        by (simp add: woken_def fun_eq_iff)
    next
      case w: False
      have "p_state (procs s1 p) \<noteq> PROC_ZOMBIE"
        using alive w s1(4) by simp
      from wakeup_proc_ok [OF inv1 this] obtain s' where s': "wakeup_proc p s1 = Some s'" "sched_inv s'"
        "run_state s' = woken {p} (run_state s1)"
        by blast
      have "p_flags (procs s' p) = p_flags (procs s1 p)"
        using s'(1) by (auto simp: wakeup_proc_def sched_class_enqueue_def RR_enqueue_eq Let_def
          split: if_splits)
      moreover have "do_kill pid s = Some (Inr (), s')"
        using Some True w s1(2) s'(1) by (simp add: do_kill_def s1_def [symmetric] Let_def)
      ultimately show ?thesis
        using Some True w s' s1 by simp
    qed
  qed
qed

theorem do_kill_correct_witness:
  "\<exists>r s'. do_kill 1 two_procs = Some (r, s') \<and> r = Inr () \<and>
    p_flags (procs s' 3) = p_flags (procs two_procs 3) OR PF_EXITING"
proof -
  have "\<forall>p. p_wait_state (procs two_procs p) = 0" "p_flags (procs two_procs 3) = 0"
    by (simp_all add: two_procs_def blank_proc_def)
  with do_kill_correct [OF two_procs_inv(2), of 1] two_procs_find(2) show ?thesis
    by auto
qed

end
