(* ===== verification/KArith.thy ===== *)
theory KArith
  imports Prelude "HOL-Library.Signed_Division"
begin

text \<open>
  Arithmetic routines that stand in for instructions the processor does not have: \<open>do_div\<close>
  (\<^verbatim>\<open>libs/mips32s.h\<close>), \<open>divmod\<close> (\<^verbatim>\<open>kern/libs/divmod.h\<close>) with the handler of the reserved
  instruction exception that emulates \<open>div\<close> (\<^verbatim>\<open>kern/trap/ri.h\<close>), the division of the user
  library (\<^verbatim>\<open>user/libs/intrinsic.c\<close>) and the random numbers (\<^verbatim>\<open>libs/rand.c\<close>).
  A C \<open>int\<close> is a 32-bit word read with \<open>sint\<close>; \<open>>>\<close> on it is \<open>signed_drop_bit\<close>.
\<close>

section \<open>Definitions\<close>

text \<open>\<open>do_div(n, base)\<close>: the remainder it returns and the new value of \<open>n\<close>. \<open>q\<close> and \<open>__mod\<close> have 32 bits.\<close>

definition do_div :: "u64 \<Rightarrow> u32 \<Rightarrow> u32 \<times> u64" where
  "do_div n base =
     (if base = 10 then
        let q = ucast (drop_bit 1 n + drop_bit 2 n) :: u32;
            q = q + drop_bit 4 q;
            q = q + drop_bit 8 q;
            q = q + drop_bit 16 q;
            q = drop_bit 3 q;
            md = ucast (n - ucast (push_bit 1 (push_bit 2 q + q))) :: u32;
            q = q + drop_bit 4 (md + 6);
            md = ucast (n - ucast (push_bit 1 (push_bit 2 q + q))) :: u32
        in (md, ucast q)
      else if base = 16 then (ucast (n AND 0xf), drop_bit 4 n)
      else if base = 8 then (ucast (n AND 0x7), drop_bit 3 n)
      else if base = 2147483648 then (ucast (n AND 0x7fffffff), drop_bit 31 n)
      else (3, 1))"

text \<open>One round of the shift-and-subtract division: \<open>r\<close>, \<open>a\<close> and \<open>q\<close> after it.\<close>

definition div_round :: "s32 \<Rightarrow> s32 \<times> s32 \<times> s32 \<Rightarrow> s32 \<times> s32 \<times> s32" where
  "div_round b = (\<lambda>(r, a, q).
     let r = push_bit 1 r OR (signed_drop_bit 31 a AND 1);
         a = push_bit 1 a;
         q = push_bit 1 q
     in if sint r \<ge> sint b then (r - b, a, q OR 1) else (r, a, q))"

definition divmod :: "s32 \<Rightarrow> s32 \<Rightarrow> (s32 \<times> s32) option" where
  "divmod a b =
     (if b = 0 then None
      else
        let sign_mod = sint a < 0;
            sign_div = ((sint a < 0) \<noteq> (sint b < 0));
            a = (if sint a < 0 then - a else a);
            b = (if sint b < 0 then - b else b);
            (r, a, q) = (div_round b ^^ 32) (0, a, 0)
        in Some (if sign_div then - q else q, if sign_mod then - r else r))"

record ri_frame =
  ri_regs :: "nat \<Rightarrow> u32"
  ri_lo :: u32
  ri_hi :: u32
  ri_epc :: u32
  ri_cause :: u32

definition EXC_RI :: u32 where "EXC_RI = 10"

text \<open>\<open>inst\<close> is the word at \<open>tf_EPC\<close>. \<open>Inl\<close> is the result \<open>-1\<close>.\<close>

definition ri_handler :: "u32 \<Rightarrow> ri_frame \<Rightarrow> (unit + ri_frame) option" where
  "ri_handler inst tf =
     do { kassert (drop_bit 2 (ri_cause tf) AND 0x1f = EXC_RI);
          if inst AND 0xfc00ffff = 0x0000001a then
            let reg1 = unat (drop_bit 21 inst AND 0x1f);
                reg2 = unat (drop_bit 16 inst AND 0x1f)
            in case divmod (ri_regs tf reg1) (ri_regs tf reg2) of
                 None \<Rightarrow> Some (Inl ())
               | Some (q, r) \<Rightarrow> Some (Inr (tf\<lparr>ri_lo := q, ri_hi := r, ri_epc := ri_epc tf + 4\<rparr>))
          else Some (Inl ()) }"

text \<open>
  The loop of \<open>_Div\<close> and \<open>_Rem\<close>: \<open>n\<close> rounds are left, the next one takes bit \<open>n - 1\<close>.
\<close>

fun udiv_loop :: "nat \<Rightarrow> s32 \<Rightarrow> s32 \<Rightarrow> s32 \<times> s32 \<Rightarrow> s32 \<times> s32" where
  "udiv_loop 0 xx yy (remainder, quot) = (remainder, quot)"
| "udiv_loop (Suc i) xx yy (remainder, quot) =
     (let remainder = push_bit 1 remainder OR (signed_drop_bit i xx AND 1)
      in if sint remainder \<ge> sint yy
         then udiv_loop i xx yy (remainder - yy, quot OR push_bit i 1)
         else udiv_loop i xx yy (remainder, quot))"

definition abs_int :: "s32 \<Rightarrow> s32" where
  "abs_int x = (if sint x > 0 then x else - x)"

definition Div_int :: "s32 \<Rightarrow> s32 \<Rightarrow> s32" where
  "Div_int x y =
     (let (remainder, quot) = udiv_loop 32 (abs_int x) (abs_int y) (0, 0)
      in if (sint x > 0 \<and> sint y > 0) \<or> (sint x < 0 \<and> sint y < 0) then quot else - quot)"

definition Rem_int :: "s32 \<Rightarrow> s32 \<Rightarrow> s32" where
  "Rem_int x y =
     (let (remainder, quot) = udiv_loop 32 (abs_int x) (abs_int y) (0, 0)
      in if sint x > 0 then remainder else - remainder)"

definition RAND_MAX :: u32 where "RAND_MAX = 2147483647"

definition rand :: "u64 \<Rightarrow> u32 \<times> u64" where
  "rand nxt =
     (let nxt = ucast ((ucast nxt :: u32) * 1103515245 + 12345) :: u64
      in ((ucast nxt :: u32) mod (RAND_MAX + 1), nxt))"

definition srand :: "u32 \<Rightarrow> u64" where
  "srand seed = ucast seed"

text \<open>
  What the two loops keep: after \<open>k\<close> rounds (with \<open>i\<close> rounds left) they have divided the leading
  bits of the dividend.
\<close>

definition div_state :: "nat \<Rightarrow> nat \<Rightarrow> nat \<Rightarrow> s32 \<times> s32 \<times> s32 \<Rightarrow> bool" where
  "div_state A B k = (\<lambda>(r, a, q).
     unat r = drop_bit (32 - k) A mod B \<and> unat q = drop_bit (32 - k) A div B \<and>
     unat a = take_bit 32 (push_bit k A))"

definition udiv_state :: "nat \<Rightarrow> nat \<Rightarrow> nat \<Rightarrow> s32 \<times> s32 \<Rightarrow> bool" where
  "udiv_state A B i = (\<lambda>(r, q).
     unat r = drop_bit i A mod B \<and> unat q = push_bit i (drop_bit i A div B))"

section \<open>Division by ten\<close>

text \<open>
  The quotient approximated by shifts and additions: the five inequalities bound every step, and
  together they put the candidate at most one below the quotient.
\<close>

lemma divu10_chain:
  fixes n f q1 q2 q3 q4 :: int
  assumes "4 * q1 \<le> 3 * n" "16 * q2 \<le> 17 * q1" "256 * q3 \<le> 257 * q2" "65536 * q4 \<le> 65537 * q3"
    "8 * f \<le> q4"
    and "3 * n \<le> 4 * q1 + 5" "17 * q1 \<le> 16 * q2 + 15" "257 * q2 \<le> 256 * q3 + 255"
    "65537 * q3 \<le> 65536 * q4 + 65535" "q4 \<le> 8 * f + 7"
    and "0 \<le> n" "n < 4294967296"
  shows "10 * f \<le> n" and "n \<le> 10 * f + 19" and "q4 < 4294967296"
proof -
  show "10 * f \<le> n"
    using assms(1-5,11) by linarith
  show "n \<le> 10 * f + 19"
    using assms(6-10,12) by linarith
  show "q4 < 4294967296"
    using assms(1-4,11,12) by linarith
qed

lemma divu10_bounds:
  fixes n :: nat
  assumes n: "n < 2 ^ 32"
  defines "q1 \<equiv> n div 2 + n div 4"
  defines "q2 \<equiv> q1 + q1 div 16"
  defines "q3 \<equiv> q2 + q2 div 256"
  defines "q4 \<equiv> q3 + q3 div 65536"
  shows "10 * (q4 div 8) \<le> n" and "n \<le> 10 * (q4 div 8) + 19" and "q4 < 2 ^ 32"
    and "q1 \<le> q2" and "q2 \<le> q3" and "q3 \<le> q4"
proof -
  have D: "k * (m div k) \<le> m \<and> m \<le> k * (m div k) + (k - 1)" if "0 < k" for m k :: nat
    using that mult_div_mod_eq [of k m] mod_less_divisor [of k m] by linarith
  have 1: "4 * q1 \<le> 3 * n \<and> 3 * n \<le> 4 * q1 + 5"
    using D [of 2 n] D [of 4 n] unfolding q1_def by simp
  have 2: "16 * q2 \<le> 17 * q1 \<and> 17 * q1 \<le> 16 * q2 + 15"
    using D [of 16 q1] unfolding q2_def by simp
  have 3: "256 * q3 \<le> 257 * q2 \<and> 257 * q2 \<le> 256 * q3 + 255"
    using D [of 256 q2] unfolding q3_def by simp
  have 4: "65536 * q4 \<le> 65537 * q3 \<and> 65537 * q3 \<le> 65536 * q4 + 65535"
    using D [of 65536 q3] unfolding q4_def by simp
  have 5: "8 * (q4 div 8) \<le> q4 \<and> q4 \<le> 8 * (q4 div 8) + 7"
    using D [of 8 q4] by simp
  note I = 1 2 3 4 5 n [simplified]
  have "10 * int (q4 div 8) \<le> int n \<and> int n \<le> 10 * int (q4 div 8) + 19 \<and> int q4 < 4294967296"
  proof (intro conjI)
    show "10 * int (q4 div 8) \<le> int n"
      by (rule divu10_chain(1) [of "int q1" _ "int q2" "int q3" "int q4"]) (use I in linarith)+
    show "int n \<le> 10 * int (q4 div 8) + 19"
      by (rule divu10_chain(2) [of "int q1" _ "int q2" "int q3" "int q4"]) (use I in linarith)+
    show "int q4 < 4294967296"
      by (rule divu10_chain(3) [of "int q1" "int n" "int q2" "int q3" _ "int (q4 div 8)"])
        (use I in linarith)+
  qed
  then show "10 * (q4 div 8) \<le> n" "n \<le> 10 * (q4 div 8) + 19" "q4 < 2 ^ 32"
    by simp_all
  show "q1 \<le> q2" "q2 \<le> q3" "q3 \<le> q4"
    by (simp_all add: q2_def q3_def q4_def)
qed

lemma unat_add_small: "unat x + unat y < 2 ^ 32 \<Longrightarrow> unat (x + y) = unat x + unat (y :: u32)"
  by (simp add: unat_word_ariths)

lemma unat_shr: "unat (drop_bit k (x :: 'a::len word)) = unat x div 2 ^ k"
  by (simp only: unat_drop_bit_eq) (simp only: drop_bit_eq_div)

lemma unat_ucast_up: "unat (ucast (m :: u32) :: u64) = unat m"
proof -
  have "unat m < 2 ^ 32"
    using unsigned_less [of m] by simp
  then show ?thesis
    by (simp add: unsigned_ucast_eq take_bit_nat_eq_self)
qed

lemma unat_times10: "10 * unat q < 2 ^ 32 \<Longrightarrow> unat (push_bit 1 (push_bit 2 q + q) :: u32) = 10 * unat q"
proof -
  assume *: "10 * unat q < 2 ^ 32"
  have "push_bit 1 (push_bit 2 q + q) = 10 * q"
    by (simp add: push_bit_eq_mult)
  with * show ?thesis
    by (simp add: unat_word_ariths)
qed

lemma unat_sub64:
  fixes n :: u64 and m :: u32
  shows "unat m \<le> unat n \<Longrightarrow> unat n < 2 ^ 32 \<Longrightarrow> unat (ucast (n - ucast m) :: u32) = unat n - unat m"
proof -
  assume "unat m \<le> unat n" "unat n < 2 ^ 32"
  moreover have "unat (ucast m :: u64) = unat m"
    by (rule unat_ucast_up)
  ultimately have "unat (n - ucast m) = unat n - unat m"
    by (simp add: unat_sub word_le_nat_alt)
  with \<open>unat n < 2 ^ 32\<close> show ?thesis
    by (simp add: unsigned_ucast_eq take_bit_nat_eq_self)
qed

lemma do_div_10:
  assumes n: "unat n < 2 ^ 32"
  shows "unat (fst (do_div n 10)) = unat n mod 10 \<and> unat (snd (do_div n 10)) = unat n div 10"
proof -
  define N where "N = unat n"
  define q1 where "q1 = (ucast (drop_bit 1 n + drop_bit 2 n) :: u32)"
  define q2 where "q2 = q1 + drop_bit 4 q1"
  define q3 where "q3 = q2 + drop_bit 8 q2"
  define q4 where "q4 = q3 + drop_bit 16 q3"
  define q5 where "q5 = drop_bit 3 q4"
  define md where "md = (ucast (n - ucast (push_bit 1 (push_bit 2 q5 + q5))) :: u32)"
  define q6 where "q6 = q5 + drop_bit 4 (md + 6)"
  define md6 where "md6 = (ucast (n - ucast (push_bit 1 (push_bit 2 q6 + q6))) :: u32)"
  have e: "do_div n 10 = (md6, ucast q6)"
    by (simp add: do_div_def Let_def q1_def q2_def q3_def q4_def q5_def md_def q6_def md6_def)
  define Q1 where "Q1 = N div 2 + N div 4"
  define Q2 where "Q2 = Q1 + Q1 div 16"
  define Q3 where "Q3 = Q2 + Q2 div 256"
  define Q4 where "Q4 = Q3 + Q3 div 65536"
  note B = divu10_bounds [OF n, folded N_def, folded Q1_def, folded Q2_def, folded Q3_def, folded Q4_def]
  have lt: "Q2 < 2 ^ 32" "Q3 < 2 ^ 32" "Q4 < 2 ^ 32"
    using B(3-6) by linarith+
  have 1: "unat q1 = Q1"
    using n by (simp add: q1_def unsigned_ucast_eq take_bit_eq_mod unat_word_ariths unat_shr N_def Q1_def)
  have 2: "unat q2 = Q2"
    using unat_add_small [of q1 "drop_bit 4 q1"] lt(1) by (simp add: q2_def Q2_def unat_shr 1)
  have 3: "unat q3 = Q3"
    using unat_add_small [of q2 "drop_bit 8 q2"] lt(2) by (simp add: q3_def Q3_def unat_shr 2)
  have 4: "unat q4 = Q4"
    using unat_add_small [of q3 "drop_bit 16 q3"] lt(3) by (simp add: q4_def Q4_def unat_shr 3)
  have 5: "unat q5 = Q4 div 8"
    by (simp add: q5_def unat_shr 4)
  have b: "10 * unat q5 \<le> N" "N \<le> 10 * unat q5 + 19"
    using B(1,2) by (simp_all add: 5)
  have md: "unat md = N - 10 * unat q5"
    using b n unat_times10 [of q5] unat_sub64 [of "push_bit 1 (push_bit 2 q5 + q5)" n]
    unfolding md_def N_def by linarith
  have "unat (drop_bit 4 (md + 6)) = (N - 10 * unat q5 + 6) div 16"
    using md b unat_add_small [of md 6] by (simp add: unat_shr)
  moreover have "unat q5 + (N - 10 * unat q5 + 6) div 16 = N div 10"
  proof (cases "N - 10 * unat q5 < 10")
    case True
    then have "(N - 10 * unat q5 + 6) div 16 = 0" "N div 10 = unat q5"
      using b(1) by (auto intro!: div_nat_eqI)
    then show ?thesis by simp
  next
    case False
    then have "(N - 10 * unat q5 + 6) div 16 = 1" "N div 10 = unat q5 + 1"
      using b by (auto intro!: div_nat_eqI)
    then show ?thesis by simp
  qed
  moreover have "N div 10 < 2 ^ 32"
    using n by (simp add: N_def)
  ultimately have 6: "unat q6 = N div 10"
    by (simp add: q6_def unat_add_small)
  have "unat md6 = N - 10 * (N div 10)"
    using n unat_times10 [of q6] unat_sub64 [of "push_bit 1 (push_bit 2 q6 + q6)" n]
    unfolding md6_def 6 N_def by linarith
  moreover have "unat (ucast q6 :: u64) = unat q6"
    by (rule unat_ucast_up)
  ultimately show ?thesis
    by (simp add: e 6 N_def minus_mult_div_eq_mod)
qed

section \<open>Shift-and-subtract division\<close>

lemma sint_small: "unat (w :: u32) < 2 ^ 31 \<Longrightarrow> sint w = int (unat w)"
proof -
  assume "unat w < 2 ^ 31"
  then have "int (unat w) < int (2 ^ 31)"
    by (simp only: of_nat_less_iff)
  then have "uint w < 2 ^ 31"
    by simp
  moreover have "- (2 ^ 31) \<le> uint w"
    by (rule order_trans [of _ 0]) simp_all
  ultimately have "signed_take_bit 31 (uint w) = uint w"
    by (intro signed_take_bit_int_eq_self)
  then show ?thesis
    by (simp add: sint_uint)
qed

lemma drop_bit_step: "drop_bit n (A :: nat) = 2 * drop_bit (Suc n) A + of_bool (bit A n)"
proof -
  have "drop_bit (Suc n) A = drop_bit n A div 2"
    by (simp add: drop_bit_Suc drop_bit_half)
  moreover have "drop_bit n A mod 2 = of_bool (bit A n)"
    by (simp add: bit_iff_odd_drop_bit mod2_eq_if)
  ultimately show ?thesis
    by (metis mult_div_mod_eq)
qed

lemma shift_in:
  fixes r :: u32
  assumes "2 * unat r + of_bool c < (2 :: nat) ^ 32"
  shows "unat (push_bit 1 r OR of_bool c) = 2 * unat r + of_bool c"
proof -
  have "push_bit 1 r OR of_bool c = 2 * r + of_bool c"
    by (cases c) (simp_all add: or_one_eq push_bit_eq_mult mult.commute)
  then show ?thesis
    using assms by (cases c) (simp_all add: unat_word_ariths)
qed

lemma sign_bit: "signed_drop_bit 31 (a :: u32) AND 1 = of_bool (bit a 31)"
  by (simp add: and_one_eq mod_2_eq_odd bit_signed_drop_bit_iff flip: bit_0)

text \<open>One step of long division in binary: the next bit of the dividend is shifted in.\<close>

lemma long_division_step:
  fixes P B c :: nat
  assumes "0 < B" "c < 2"
  shows "2 * (P mod B) + c < B \<Longrightarrow> (2 * P + c) mod B = 2 * (P mod B) + c \<and> (2 * P + c) div B = 2 * (P div B)"
    and "\<not> 2 * (P mod B) + c < B \<Longrightarrow> (2 * P + c) mod B = 2 * (P mod B) + c - B \<and>
      (2 * P + c) div B = 2 * (P div B) + 1"
proof -
  have P: "2 * P + c = (2 * (P mod B) + c) + B * (2 * (P div B))"
  proof -
    have "2 * P = 2 * (B * (P div B) + P mod B)"
      by (simp only: mult_div_mod_eq)
    then show ?thesis
      by (simp only: distrib_left mult.left_commute [of 2 B] add.commute add.assoc add.left_commute)
  qed
  have m: "P mod B < B"
    using assms(1) by simp
  show "(2 * P + c) mod B = 2 * (P mod B) + c \<and> (2 * P + c) div B = 2 * (P div B)"
    if "2 * (P mod B) + c < B"
    unfolding P using that assms(1) by simp
  show "(2 * P + c) mod B = 2 * (P mod B) + c - B \<and> (2 * P + c) div B = 2 * (P div B) + 1"
    if "\<not> 2 * (P mod B) + c < B"
  proof -
    have "2 * P + c = (2 * (P mod B) + c - B) + B * (2 * (P div B) + 1)"
      using P that by (simp add: algebra_simps)
    moreover have "2 * (P mod B) + c - B < B"
      using m that assms by linarith
    moreover have "(x + B * y) mod B = x \<and> (x + B * y) div B = y" if "x < B" for x y
      using that by simp
    ultimately show ?thesis
      by metis
  qed
qed

lemma div_round_ok:
  assumes st: "div_state A B k st" and k: "k < 32" and A: "A < 2 ^ 31"
    and b: "unat b = B" "0 < B" "B < 2 ^ 31"
  shows "div_state A B (Suc k) (div_round b st)"
proof -
  obtain r a q where [simp]: "st = (r, a, q)" by (cases st)
  define P where "P = drop_bit (32 - k) A"
  define c where "c = (of_bool (bit A (31 - k)) :: nat)"
  have r: "unat r = P mod B" and q: "unat q = P div B" and a: "unat a = take_bit 32 (push_bit k A)"
    using st by (simp_all add: div_state_def P_def)
  have "bit a 31 = bit (unat a) 31"
    by (simp add: bit_unsigned_iff)
  then have c: "(of_bool (bit a 31) :: nat) = c"
    using k by (simp add: a c_def bit_simps)
  have P': "drop_bit (31 - k) A = 2 * P + c"
  proof -
    have "Suc (31 - k) = 32 - k"
      using k by simp
    with drop_bit_step [of "31 - k" A] show ?thesis
      by (simp add: P_def c_def)
  qed
  then have P32: "drop_bit (32 - Suc k) A = 2 * P + c"
    by simp
  have "drop_bit (31 - k) A \<le> A"
    by (simp add: drop_bit_eq_div)
  then have le: "2 * P + c < 2 ^ 31"
    using A P' by simp
  have mP: "P mod B \<le> P" "P div B \<le> P"
    by (simp_all add: mod_less_eq_dividend div_le_dividend)
  have "P < 1073741824"
    using le by simp
  with mP have sm: "P mod B < 1073741824" "P div B < 1073741824"
    by linarith+
  define r' where "r' = push_bit 1 r OR of_bool (bit a 31)"
  have r': "unat r' = 2 * (P mod B) + c"
  proof -
    have "2 * (P mod B) + c \<le> 2 * P + c"
      by simp
    also note le
    also have "(2 :: nat) ^ 31 < 2 ^ 32"
      by simp
    finally show ?thesis
      unfolding r'_def c [symmetric] r [symmetric] by (rule shift_in)
  qed
  have q2: "unat (push_bit 1 q) = 2 * (P div B)"
    using shift_in [of q False] sm(2) by (simp add: q)
  have q3: "unat (push_bit 1 q OR 1) = 2 * (P div B) + 1"
    using shift_in [of q True] sm(2) by (simp add: q)
  have a': "unat (push_bit 1 a) = take_bit 32 (push_bit (Suc k) A)"
  proof -
    have "unat (push_bit 1 a) = 2 * unat a mod 2 ^ 32"
      by (simp add: push_bit_eq_mult mult.commute unat_word_ariths)
    then show ?thesis
      by (simp add: a take_bit_eq_mod push_bit_eq_mult mod_mult_right_eq mult.left_commute)
  qed
  have cmp: "sint r' \<ge> sint b \<longleftrightarrow> \<not> 2 * (P mod B) + c < B"
  proof -
    have "unat r' < 2 ^ 31"
      using sm(1) by (simp add: r' c_def)
    then show ?thesis
      using sint_small [of r'] sint_small [of b] b by (simp only: r') linarith
  qed
  have c2: "c < 2"
    by (simp add: c_def)
  have rd: "div_round b (r, a, q) = (if sint r' \<ge> sint b then (r' - b, push_bit 1 a, push_bit 1 q OR 1)
      else (r', push_bit 1 a, push_bit 1 q))"
    by (simp add: div_round_def sign_bit r'_def Let_def)
  show ?thesis
  proof (cases "2 * (P mod B) + c < B")
    case True
    then have e: "div_round b st = (r', push_bit 1 a, push_bit 1 q)"
      using rd cmp by auto
    from True long_division_step(1) [OF b(2) c2, of P] show ?thesis
      unfolding div_state_def e by (simp only: split r' q2 a' P32)
  next
    case False
    then have "unat (r' - b) = 2 * (P mod B) + c - B"
      using b(1) r' by (simp add: unat_sub word_le_nat_alt)
    moreover have e: "div_round b st = (r' - b, push_bit 1 a, push_bit 1 q OR 1)"
      using False rd cmp by auto
    moreover note long_division_step(2) [OF b(2) c2 False]
    ultimately show ?thesis
      unfolding div_state_def by (simp only: split q3 a' P32)
  qed
qed

lemma div_rounds:
  assumes A: "unat a < 2 ^ 31" and b: "0 < unat b" "unat b < 2 ^ 31"
  shows "\<exists>r q a'. (div_round b ^^ 32) (0, a, 0) = (r, a', q) \<and>
    unat r = unat a mod unat b \<and> unat q = unat a div unat b"
proof -
  have "k \<le> 32 \<Longrightarrow> div_state (unat a) (unat b) k ((div_round b ^^ k) (0, a, 0))" for k
  proof (induction k)
    case 0
    have "drop_bit 32 (unat a) = 0"
      using A by (simp add: drop_bit_eq_div)
    with A show ?case
      by (simp add: div_state_def take_bit_nat_eq_self)
  next
    case (Suc k)
    then show ?case
      using div_round_ok [OF _ _ A refl b] by simp
  qed
  from this [of 32] show ?thesis
    by (cases "(div_round b ^^ 32) (0, a, 0)") (simp add: div_state_def)
qed

lemma abs_word:
  fixes a :: s32
  assumes "sint a \<noteq> - (2 ^ 31)"
  shows "int (unat (if sint a < 0 then - a else a)) = \<bar>sint a\<bar>"
    and "unat (if sint a < 0 then - a else a) < 2 ^ 31"
proof -
  have r: "- (2 ^ 31) \<le> sint a" "sint a < 2 ^ 31"
    using sint_ge [of a] sint_lt [of a] by simp_all
  have "int (unat (if sint a < 0 then - a else a)) = \<bar>sint a\<bar> \<and>
    unat (if sint a < 0 then - a else a) < 2 ^ 31"
  proof (cases "sint a < 0")
    case True
    have "uint (- a) = (- uint a) mod 2 ^ 32"
      by (simp add: uint_word_ariths)
    also have "\<dots> = (- sint a) mod 2 ^ 32"
      unfolding uint_sint [of a] by (simp add: take_bit_eq_mod mod_minus_eq)
    also have "\<dots> = - sint a"
      using True r assms by (intro mod_pos_pos_trivial) auto
    finally have "int (unat (- a)) = - sint a"
      by simp
    moreover have "- (2 ^ 31) < sint a"
      using r(1) assms by simp
    with calculation have "int (unat (- a)) < int (2 ^ 31)"
      by simp
    then have "unat (- a) < 2 ^ 31"
      by (simp only: of_nat_less_iff)
    ultimately show ?thesis
      using True by simp
  next
    case False
    have "uint a = sint a mod 2 ^ 32"
      by (simp add: uint_sint take_bit_eq_mod)
    also have "\<dots> = sint a"
      using False r by (intro mod_pos_pos_trivial) auto
    finally have "int (unat a) = sint a"
      by simp
    moreover from this r have "int (unat a) < int (2 ^ 31)"
      by simp
    then have "unat a < 2 ^ 31"
      by (simp only: of_nat_less_iff)
    ultimately show ?thesis
      using False by simp
  qed
  then show "int (unat (if sint a < 0 then - a else a)) = \<bar>sint a\<bar>"
    and "unat (if sint a < 0 then - a else a) < 2 ^ 31"
    by simp_all
qed

lemma sint_neg_small:
  fixes w :: s32
  assumes "unat w < 2 ^ 31"
  shows "sint (- w) = - int (unat w)"
proof -
  have "sint (- w) = signed_take_bit 31 (- sint w)"
    by (simp add: sint_word_ariths)
  also have "\<dots> = - sint w"
  proof -
    have "int (unat w) < int (2 ^ 31)"
      using assms by (simp only: of_nat_less_iff)
    then have "sint w < 2 ^ 31" "0 \<le> sint w"
      using sint_small [OF assms] by simp_all
    then show ?thesis
      by (intro signed_take_bit_int_eq_self) auto
  qed
  finally show ?thesis
    using sint_small [OF assms] by simp
qed

lemma signed_parts:
  fixes q r :: s32 and x y :: int
  assumes "int (unat q) = \<bar>x\<bar> div \<bar>y\<bar>" "int (unat r) = \<bar>x\<bar> mod \<bar>y\<bar>" "\<bar>x\<bar> < 2 ^ 31" "y \<noteq> 0"
  shows "sint (if (x < 0) \<noteq> (y < 0) then - q else q) = x sdiv y"
    and "sint (if x < 0 then - r else r) = x smod y"
proof -
  have "\<bar>x\<bar> div \<bar>y\<bar> \<le> \<bar>x\<bar>"
    using zdiv_mono2 [of "\<bar>x\<bar>" 1 "\<bar>y\<bar>"] assms(4) by simp
  moreover have "\<bar>x\<bar> mod \<bar>y\<bar> \<le> \<bar>x\<bar>"
    using assms(4) by (intro zmod_le_nonneg_dividend) auto
  ultimately have "int (unat q) < int (2 ^ 31)" "int (unat r) < int (2 ^ 31)"
    using assms(1-3) by simp_all
  then have s: "unat q < 2 ^ 31" "unat r < 2 ^ 31"
    by (simp_all only: of_nat_less_iff)
  show "sint (if (x < 0) \<noteq> (y < 0) then - q else q) = x sdiv y"
    using assms(1,4) sint_small [OF s(1)] sint_neg_small [OF s(1)]
    by (auto simp: signed_divide_int_def sgn_if)
  show "sint (if x < 0 then - r else r) = x smod y"
    using assms(2) sint_small [OF s(2)] sint_neg_small [OF s(2)]
    by (auto simp: signed_modulo_int_def sgn_if)
qed

lemma abs_int_eq: "abs_int x = (if sint x < 0 then - x else x)"
proof (cases "sint x = 0")
  case True
  then have "x = 0"
    by (metis signed_word_eqI signed_0)
  then show ?thesis
    by (simp add: abs_int_def)
qed (auto simp: abs_int_def)

lemma set_fresh_bit:
  fixes q :: u32
  assumes "unat q = push_bit (Suc i) m" "i < 32"
  shows "q OR push_bit i 1 = q + push_bit i 1"
proof (rule disjunctive_add [symmetric])
  have "\<not> bit q i"
  proof -
    have "bit q i = bit (unat q) i"
      using assms(2) by (simp add: bit_unsigned_iff)
    then show ?thesis
      by (simp add: assms(1) bit_push_bit_iff_nat bit_0)
  qed
  then show "\<not> bit q k \<or> \<not> bit (push_bit i 1 :: u32) k" for k
    by (auto simp: bit_simps)
qed

lemma udiv_round_ok:
  assumes st: "udiv_state A B (Suc i) (r, q)" and i: "i < 32"
    and x: "unat xx = A" "A < 2 ^ 31" and y: "unat yy = B" "0 < B" "B < 2 ^ 31"
  defines "r' \<equiv> push_bit 1 r OR (signed_drop_bit i xx AND 1)"
  shows "udiv_state A B i (if sint r' \<ge> sint yy then (r' - yy, q OR push_bit i 1) else (r', q))"
proof -
  define P where "P = drop_bit (Suc i) A"
  define c where "c = (of_bool (bit A i) :: nat)"
  have r: "unat r = P mod B" and q: "unat q = push_bit (Suc i) (P div B)"
    using st by (simp_all add: udiv_state_def P_def)
  have P': "drop_bit i A = 2 * P + c"
    by (simp add: P_def c_def drop_bit_step [of i A])
  have c2: "c < 2"
    by (simp add: c_def)
  have "drop_bit i A \<le> A"
    by (simp add: drop_bit_eq_div)
  then have le: "2 * P + c < 2 ^ 31"
    using x(2) P' by simp
  have sm: "2 * (P mod B) + c \<le> 2 * P + c"
    by simp
  have r': "unat r' = 2 * (P mod B) + c"
  proof -
    have b: "signed_drop_bit i xx AND 1 = of_bool (bit xx i)"
      using i by (simp add: and_one_eq mod_2_eq_odd bit_signed_drop_bit_iff flip: bit_0)
    have c: "of_bool (bit xx i) = c"
      using i by (simp add: c_def x(1) [symmetric] bit_unsigned_iff)
    show ?thesis
      unfolding r'_def b c [symmetric] r [symmetric]
      by (rule shift_in, unfold r c) (use le_less_trans [OF sm le] in simp)
  qed
  have cmp: "sint r' \<ge> sint yy \<longleftrightarrow> \<not> 2 * (P mod B) + c < B"
    using sint_small [of r'] sint_small [of yy] y sm le by (simp only: r') linarith
  have qle: "push_bit i (drop_bit i A div B) \<le> A"
  proof -
    have "push_bit i (drop_bit i A div B) \<le> push_bit i (drop_bit i A)"
      by (simp add: push_bit_eq_mult)
    also have "\<dots> \<le> A"
      by (simp add: push_bit_eq_mult drop_bit_eq_div)
    finally show ?thesis .
  qed
  show ?thesis
  proof (cases "2 * (P mod B) + c < B")
    case True
    with long_division_step(1) [OF y(2) c2 True] show ?thesis
      by (simp add: udiv_state_def cmp r' q P' mult.commute)
  next
    case False
    note D = long_division_step(2) [OF y(2) c2 False]
    have "unat (r' - yy) = 2 * (P mod B) + c - B"
      using False y(1) r' by (simp add: unat_sub word_le_nat_alt)
    moreover have "unat (q OR push_bit i 1) = push_bit i (2 * (P div B) + 1)"
    proof -
      have "push_bit i (2 * (P div B) + 1) = unat q + 2 ^ i"
        by (simp add: q push_bit_eq_mult)
      moreover have "unat (push_bit i 1 :: u32) = 2 ^ i"
        using i by (simp only: unsigned_push_bit_eq) (simp add: take_bit_nat_eq_self)
      moreover have "push_bit i (2 * (P div B) + 1) < 2 ^ 32"
        using qle D P' x(2) by simp
      ultimately show ?thesis
        unfolding set_fresh_bit [OF q i] by (simp add: unat_add_small)
    qed
    ultimately show ?thesis
      using False D by (simp add: udiv_state_def cmp P')
  qed
qed

lemma udiv_loop_ok:
  assumes "unat xx < 2 ^ 31" "0 < unat yy" "unat yy < 2 ^ 31"
  shows "i \<le> 32 \<Longrightarrow> udiv_state (unat xx) (unat yy) i st \<Longrightarrow>
    udiv_state (unat xx) (unat yy) 0 (udiv_loop i xx yy st)"
proof (induction i arbitrary: st)
  case 0
  then show ?case by (cases st) simp
next
  case (Suc i)
  obtain r q where st: "st = (r, q)" by (cases st)
  from Suc.prems have "udiv_state (unat xx) (unat yy) (Suc i) (r, q)" "i < 32"
    by (simp_all add: st)
  from udiv_round_ok [OF this refl assms(1) refl assms(2,3)] Suc.IH Suc.prems show ?case
    by (auto simp: st Let_def)
qed

lemma udiv_result:
  assumes "unat xx < 2 ^ 31" "0 < unat yy" "unat yy < 2 ^ 31"
  obtains r q where "udiv_loop 32 xx yy (0, 0) = (r, q)" "unat r = unat xx mod unat yy"
    "unat q = unat xx div unat yy"
proof -
  have "drop_bit 32 (unat xx) = 0"
    using assms(1) by (simp add: drop_bit_eq_div)
  then have "udiv_state (unat xx) (unat yy) 32 (0, 0)"
    by (simp add: udiv_state_def)
  from udiv_loop_ok [OF assms _ this] show thesis
    by (cases "udiv_loop 32 xx yy (0, 0)") (auto simp: udiv_state_def that)
qed

section \<open>Properties of the division routines\<close>

lemma signed_range: "sint (a :: s32) \<noteq> - (2 ^ 31) \<Longrightarrow> \<bar>sint a\<bar> < 2 ^ 31"
  using sint_ge [of a] sint_lt [of a] by simp

lemma abs_word_pos:
  fixes b :: s32
  assumes "b \<noteq> 0" "sint b \<noteq> - (2 ^ 31)"
  shows "0 < unat (if sint b < 0 then - b else b)" and "sint b \<noteq> 0"
proof -
  show nz: "sint b \<noteq> 0"
    using assms(1) by (metis signed_word_eqI signed_0)
  show "0 < unat (if sint b < 0 then - b else b)"
    using abs_word(1) [OF assms(2)] nz by linarith
qed

lemma divmod_correct:
  fixes a b :: s32
  assumes "b \<noteq> 0" and "sint a \<noteq> - (2 ^ 31)" and "sint b \<noteq> - (2 ^ 31)"
  shows "divmod a 0 = None \<and> (\<exists>q r. divmod a b = Some (q, r) \<and>
    sint q = sint a sdiv sint b \<and> sint r = sint a smod sint b \<and>
    sint a = sint q * sint b + sint r)"
proof -
  define a1 where "a1 = (if sint a < 0 then - a else a)"
  define b1 where "b1 = (if sint b < 0 then - b else b)"
  note A = abs_word [OF assms(2), folded a1_def] and B = abs_word [OF assms(3), folded b1_def]
  have b0: "0 < unat b1" "sint b \<noteq> 0"
    using abs_word_pos [OF assms(1,3)] by (simp_all add: b1_def)
  obtain r q a' where e: "(div_round b1 ^^ 32) (0, a1, 0) = (r, a', q)"
    and r: "unat r = unat a1 mod unat b1" and q: "unat q = unat a1 div unat b1"
    using div_rounds [OF A(2) b0(1) B(2)] by blast
  have "int (unat q) = \<bar>sint a\<bar> div \<bar>sint b\<bar>" "int (unat r) = \<bar>sint a\<bar> mod \<bar>sint b\<bar>"
    by (simp_all only: q r zdiv_int zmod_int A(1) B(1))
  from signed_parts [OF this signed_range [OF assms(2)] b0(2)]
  show ?thesis
    using assms(1) e by (simp add: divmod_def Let_def sdiv_mult_smod_eq flip: a1_def b1_def)
qed

text \<open>
  The divisor \<open>INT_MIN\<close> is its own negation, and every intermediate remainder compares as larger: each
  of the 32 rounds sets a bit of the quotient.
\<close>

lemma divmod_by_min_int:
  fixes a b :: s32
  assumes "sint b = - (2 ^ 31)"
  shows "\<exists>r. divmod a b = Some (if sint a < 0 then - 1 else 1, r)"
proof -
  have b: "b = 0x80000000"
    using assms signed_word_eqI [of b "0x80000000", where 'a = int] by simp
  have ge: "sint b \<le> sint r" for r :: s32
    using sint_ge [of r] assms by simp
  have q: "snd (snd ((div_round b ^^ n) (0, x, 0))) = mask n" for n x
  proof (induction n)
    case (Suc n)
    then show ?case
      by (cases "(div_round b ^^ n) (0, x, 0)")
        (simp add: div_round_def Let_def ge mask_Suc_double or.commute push_bit_eq_mult mult.commute)
  qed simp
  obtain r a' q' where e: "(div_round b ^^ 32) (0, if sint a < 0 then - a else a, 0) = (r, a', q')"
    by (cases "(div_round b ^^ 32) (0, if sint a < 0 then - a else a, 0)") auto
  have "q' = - 1"
    using q [of 32 "if sint a < 0 then - a else a"] e by (simp add: mask_eq_exp_minus_1)
  moreover have "- b = b"
    by (simp add: b)
  then have "div_round (- b) = div_round b"
    by (rule arg_cong)
  moreover have "b \<noteq> 0" "sint b < 0"
    using assms by auto
  ultimately show ?thesis
    using e by (cases "sint a < 0") (simp_all add: divmod_def Let_def)
qed

text \<open>
  C36. The exception handler emulates the \<open>div\<close> instruction the processor lacks, except for the operand
  \<open>INT_MIN\<close> (\<open>-2^31\<close>), which it negates. When the faulting word is \<open>div rs, rt\<close> and neither
  operand is \<open>INT_MIN\<close>, the quotient truncated towards zero goes to \<open>LO\<close>, the remainder with the
  dividend's sign to \<open>HI\<close>, the two recompose the dividend, execution resumes after the instruction and the
  general registers are unchanged. A zero divisor is refused with the frame as it was. With the divisor
  \<open>INT_MIN\<close> the handler stores the quotient \<open>1\<close> for a dividend that is not negative and \<open>-1\<close>
  for a negative one, which is never the right one. The dividend \<open>INT_MIN\<close> with another divisor is not
  covered (\<open>divmod_min_int_wrong\<close> below is an input for which the result is wrong).
\<close>

theorem ri_handler_divides:
  fixes tf :: ri_frame and inst :: u32
  defines "a \<equiv> ri_regs tf (unat (drop_bit 21 inst AND 0x1f))"
    and "b \<equiv> ri_regs tf (unat (drop_bit 16 inst AND 0x1f))"
  assumes "drop_bit 2 (ri_cause tf) AND 0x1f = EXC_RI" and "inst AND 0xfc00ffff = 0x0000001a"
  shows "(b = 0 \<longrightarrow> ri_handler inst tf = Some (Inl ())) \<and>
    (b \<noteq> 0 \<and> sint a \<noteq> - (2 ^ 31) \<and> sint b \<noteq> - (2 ^ 31) \<longrightarrow>
      (\<exists>tf'. ri_handler inst tf = Some (Inr tf') \<and>
        sint (ri_lo tf') = sint a sdiv sint b \<and> sint (ri_hi tf') = sint a smod sint b \<and>
        sint a = sint (ri_lo tf') * sint b + sint (ri_hi tf') \<and>
        ri_epc tf' = ri_epc tf + 4 \<and> ri_regs tf' = ri_regs tf \<and> ri_cause tf' = ri_cause tf)) \<and>
    (sint b = - (2 ^ 31) \<longrightarrow>
      (\<exists>tf'. ri_handler inst tf = Some (Inr tf') \<and> sint (ri_lo tf') = (if sint a < 0 then - 1 else 1) \<and>
        sint (ri_lo tf') \<noteq> sint a sdiv sint b))"
proof -
  have e: "ri_handler inst tf = (case divmod a b of None \<Rightarrow> Some (Inl ())
      | Some (q, r) \<Rightarrow> Some (Inr (tf\<lparr>ri_lo := q, ri_hi := r, ri_epc := ri_epc tf + 4\<rparr>)))"
    using assms(3,4) by (simp add: ri_handler_def Let_def a_def b_def)
  have "divmod a 0 = None"
    by (simp add: divmod_def)
  moreover have "\<exists>tf'. ri_handler inst tf = Some (Inr tf') \<and>
        sint (ri_lo tf') = sint a sdiv sint b \<and> sint (ri_hi tf') = sint a smod sint b \<and>
        sint a = sint (ri_lo tf') * sint b + sint (ri_hi tf') \<and>
        ri_epc tf' = ri_epc tf + 4 \<and> ri_regs tf' = ri_regs tf \<and> ri_cause tf' = ri_cause tf"
    if nz: "b \<noteq> 0" "sint a \<noteq> - (2 ^ 31)" "sint b \<noteq> - (2 ^ 31)"
  proof -
    obtain q r where d: "divmod a b = Some (q, r)" "sint q = sint a sdiv sint b"
      "sint r = sint a smod sint b"
      using divmod_correct [OF nz] by blast
    show ?thesis
      by (rule exI [of _ "tf\<lparr>ri_lo := q, ri_hi := r, ri_epc := ri_epc tf + 4\<rparr>"], intro conjI)
        (simp_all add: e d sdiv_mult_smod_eq)
  qed
  moreover have "\<exists>tf'. ri_handler inst tf = Some (Inr tf') \<and> sint (ri_lo tf') = (if sint a < 0 then - 1 else 1) \<and>
      sint (ri_lo tf') \<noteq> sint a sdiv sint b" if m: "sint b = - (2 ^ 31)"
  proof -
    obtain r where d: "divmod a b = Some (if sint a < 0 then - 1 else 1, r)"
      using divmod_by_min_int [OF m] by blast
    have "sint a sdiv sint b \<noteq> (if sint a < 0 then - 1 else 1)"
      using sint_ge [of a] sint_lt [of a] by (auto simp: m signed_divide_int_def sgn_if)
    then show ?thesis
      by (auto simp: e d)
  qed
  ultimately show ?thesis
    by (auto simp: e)
qed

theorem ri_handler_divides_witness:
  "\<exists>tf'. ri_handler 0x0064001a \<lparr>ri_regs = (\<lambda>n. if n = 3 then - 7 else 2), ri_lo = 0, ri_hi = 0,
     ri_epc = 0x80001000, ri_cause = 40\<rparr> = Some (Inr tf') \<and>
   sint (ri_lo tf') = - 3 \<and> sint (ri_hi tf') = - 1 \<and> ri_epc tf' = 0x80001004"
  using ri_handler_divides [of "\<lparr>ri_regs = (\<lambda>n. if n = 3 then - 7 else 2), ri_lo = 0, ri_hi = 0,
     ri_epc = 0x80001000, ri_cause = 40\<rparr>" "0x0064001a"]
  by (auto simp: EXC_RI_def)

text \<open>
  The routines of the user library that the compiler calls for \<open>/\<close> and \<open>%\<close> compute
  the same quotient and remainder as C.
\<close>

theorem intrinsic_division_correct:
  fixes x y :: s32
  assumes "y \<noteq> 0" and "sint x \<noteq> - (2 ^ 31)" and "sint y \<noteq> - (2 ^ 31)"
  shows "sint (Div_int x y) = sint x sdiv sint y \<and> sint (Rem_int x y) = sint x smod sint y"
proof -
  define x1 where "x1 = abs_int x"
  define y1 where "y1 = abs_int y"
  note A = abs_word [OF assms(2), folded abs_int_eq, folded x1_def]
    and B = abs_word [OF assms(3), folded abs_int_eq, folded y1_def]
  have y0: "0 < unat y1" "sint y \<noteq> 0"
    using abs_word_pos [OF assms(1,3)] by (simp_all add: y1_def abs_int_eq)
  obtain r q where e: "udiv_loop 32 x1 y1 (0, 0) = (r, q)"
    and r: "unat r = unat x1 mod unat y1" and q: "unat q = unat x1 div unat y1"
    using udiv_result [OF A(2) y0(1) B(2)] by blast
  have "int (unat q) = \<bar>sint x\<bar> div \<bar>sint y\<bar>" "int (unat r) = \<bar>sint x\<bar> mod \<bar>sint y\<bar>"
    by (simp_all only: q r zdiv_int zmod_int A(1) B(1))
  note S = signed_parts [OF this signed_range [OF assms(2)] y0(2)]
  have z: "q = 0 \<and> r = 0" if "sint x = 0"
  proof -
    have "unat x1 = 0"
      using A(1) that by linarith
    then have "unat q = 0 \<and> unat r = 0"
      by (simp add: q r)
    then show ?thesis
      by (simp add: unat_eq_zero)
  qed
  have "Div_int x y = (if (sint x < 0) \<noteq> (sint y < 0) then - q else q)"
    using y0(2) z by (auto simp: Div_int_def e simp flip: x1_def y1_def)
  moreover have "Rem_int x y = (if sint x < 0 then - r else r)"
    using z by (auto simp: Rem_int_def e simp flip: x1_def y1_def)
  ultimately show ?thesis
    using S by simp
qed

theorem intrinsic_division_correct_witness:
  "sint (Div_int (- 7) 2) = - 3 \<and> sint (Rem_int (- 7) 2) = - 1"
  using intrinsic_division_correct [of 2 "- 7"]
  by (simp add: signed_divide_int_def signed_modulo_int_def)

lemma do_div_8_10_16:
  assumes "base = 8 \<or> base = 16 \<or> base = 10 \<and> unat n < 2 ^ 32"
  shows "unat (fst (do_div n base)) = unat n mod unat base \<and>
    unat (snd (do_div n base)) = unat n div unat base"
proof -
  have m: "unat (ucast (n AND mask k) :: u32) = unat n mod 2 ^ k" if "k \<le> 31" for k
  proof -
    have "unat (n AND mask k) = unat n mod 2 ^ k"
      by (simp only: take_bit_eq_mask [symmetric] unsigned_take_bit_eq) (rule take_bit_eq_mod)
    moreover have "unat n mod 2 ^ k < 2 ^ k"
      by simp
    moreover have "(2 :: nat) ^ k < 2 ^ 32"
      using that by (intro power_strict_increasing) simp_all
    ultimately have "unat (n AND mask k) < 2 ^ 32"
      by linarith
    then show ?thesis
      by (simp add: unsigned_ucast_eq take_bit_nat_eq_self \<open>unat (n AND mask k) = _\<close>)
  qed
  have "n AND mask 3 = n AND 0x7" "n AND mask 4 = n AND 0xf"
    by (simp_all add: mask_eq_exp_minus_1)
  then have e: "do_div n 8 = (ucast (n AND mask 3), drop_bit 3 n)"
    "do_div n 16 = (ucast (n AND mask 4), drop_bit 4 n)"
    by (simp_all only: do_div_def) simp_all
  from assms consider "base = 8" | "base = 16" | "base = 10" "unat n < 2 ^ 32"
    by blast
  then show ?thesis
  proof cases
    case 1
    show ?thesis
      unfolding 1 e fst_conv snd_conv unat_shr m [of 3, simplified] by simp
  next
    case 2
    show ?thesis
      unfolding 2 e fst_conv snd_conv unat_shr m [of 4, simplified] by simp
  next
    case 3
    then show ?thesis
      using do_div_10 [of n] by simp
  qed
qed

text \<open>
  C37. \<open>do_div\<close> leaves the quotient in its first argument and returns the remainder, for the three
  bases the formatted output uses; base ten, computed by shifts and additions only, is exact for
  every value of 32 bits.
\<close>

theorem do_div_correct:
  assumes "base = 8 \<or> base = 16 \<or> base = 10 \<and> unat n < 2 ^ 32"
  shows "unat (fst (do_div n base)) = unat n mod unat base \<and>
    unat (snd (do_div n base)) = unat n div unat base"
  using assms by (rule do_div_8_10_16)

theorem do_div_correct_witness:
  "unat (fst (do_div 4294967295 10)) = 5 \<and> unat (snd (do_div 4294967295 10)) = 429496729"
  using do_div_correct [of 10 4294967295] by simp

text \<open>A larger number is truncated: the result for \<open>2 ^ 33\<close> is not its tenth.\<close>

lemma do_div_10_truncates: "snd (do_div 8589934592 10) \<noteq> 858993459"
  by (simp add: do_div_def Let_def)

text \<open>The most negative dividend: the intermediate remainder overflows when \<open>\<bar>b\<bar> > 2 ^ 30\<close>.\<close>

lemma divmod_min_int_wrong: "divmod 0x80000000 0x60000000 = Some (0, 0x80000000)"
proof -
  have it: "(f ^^ numeral k) x = (f ^^ pred_numeral k) (f x)" for f :: "'a \<Rightarrow> 'a" and k x
    by (simp add: numeral_eq_Suc funpow_swap1)
  show ?thesis
    by (simp add: divmod_def it) (simp add: div_round_def)
qed

end
