(* ===== verification/KString.thy ===== *)
theory KString
  imports Prelude
begin

text \<open>
  The string library (\<^verbatim>\<open>libs/string.c\<close>) and the two allocating helpers of the kernel
  (\<^verbatim>\<open>kern/libs/string.c\<close>). Memory is a byte store addressed by numbers; a string is a pointer into
  it. A function that writes returns the new store (its C result is its first argument); a loop
  that looks for the terminating zero is a \<open>partial_function (option)\<close>, so \<open>None\<close> is a loop that
  never ends. \<open>size_t\<close> counters that only count down to zero are natural numbers;
  \<open>memcpy_flash\<close>, whose counter can wrap, keeps its 32 bits. \<open>long\<close> and \<open>int\<close> are 32-bit words.
\<close>

section \<open>Definitions\<close>

type_synonym mem = "addr \<Rightarrow> u8"

text \<open>Bytes written to memory.\<close>

definition store_bytes :: "mem \<Rightarrow> addr \<Rightarrow> u8 list \<Rightarrow> mem" where
  "store_bytes m p bs = (\<lambda>a. if p \<le> a \<and> a < p + length bs then bs ! (a - p) else m a)"

abbreviation ch :: "char \<Rightarrow> u8" where
  "ch c \<equiv> of_char c"

partial_function (option) strlen_loop :: "mem \<Rightarrow> addr \<Rightarrow> nat \<Rightarrow> nat option" where
  "strlen_loop m s cnt = (if m s \<noteq> 0 then strlen_loop m (s + 1) (cnt + 1) else Some cnt)"

definition strlen :: "mem \<Rightarrow> addr \<Rightarrow> nat option" where
  "strlen m s = strlen_loop m s 0"

fun strnlen_loop :: "mem \<Rightarrow> addr \<Rightarrow> nat \<Rightarrow> nat \<Rightarrow> nat" where
  "strnlen_loop m s 0 cnt = cnt"
| "strnlen_loop m s (Suc k) cnt = (if m s \<noteq> 0 then strnlen_loop m (s + 1) k (cnt + 1) else cnt)"

text \<open>The second argument of the loop is \<open>len - cnt\<close>, the bytes still allowed.\<close>

definition strnlen :: "mem \<Rightarrow> addr \<Rightarrow> nat \<Rightarrow> nat" where
  "strnlen m s len = strnlen_loop m s len 0"

partial_function (option) strcpy :: "mem \<Rightarrow> addr \<Rightarrow> addr \<Rightarrow> mem option" where
  "strcpy m p src =
     (let c = m src; m = m(p := c)
      in if c \<noteq> 0 then strcpy m (p + 1) (src + 1) else Some m)"

definition strcat :: "mem \<Rightarrow> addr \<Rightarrow> addr \<Rightarrow> mem option" where
  "strcat m dst src = do { n \<leftarrow> strlen m dst; strcpy m (dst + n) src }"

fun strncpy :: "mem \<Rightarrow> addr \<Rightarrow> addr \<Rightarrow> nat \<Rightarrow> mem" where
  "strncpy m p src 0 = m"
| "strncpy m p src (Suc len) =
     (let c = m src; m = m(p := c)
      in strncpy m (p + 1) (if c \<noteq> 0 then src + 1 else src) len)"

definition byte_diff :: "u8 \<Rightarrow> u8 \<Rightarrow> s32" where
  "byte_diff a b = ucast a - ucast b"

partial_function (option) strcmp :: "mem \<Rightarrow> addr \<Rightarrow> addr \<Rightarrow> s32 option" where
  "strcmp m s1 s2 =
     (if m s1 \<noteq> 0 \<and> m s1 = m s2 then strcmp m (s1 + 1) (s2 + 1)
      else Some (byte_diff (m s1) (m s2)))"

fun strncmp :: "mem \<Rightarrow> addr \<Rightarrow> addr \<Rightarrow> nat \<Rightarrow> s32" where
  "strncmp m s1 s2 0 = 0"
| "strncmp m s1 s2 (Suc n) =
     (if m s1 \<noteq> 0 \<and> m s1 = m s2 then strncmp m (s1 + 1) (s2 + 1) n
      else byte_diff (m s1) (m s2))"

text \<open>The inner \<open>None\<close> of \<open>strchr\<close> is the null pointer.\<close>

partial_function (option) strchr :: "mem \<Rightarrow> addr \<Rightarrow> u8 \<Rightarrow> addr option option" where
  "strchr m s c =
     (if m s \<noteq> 0 then (if m s = c then Some (Some s) else strchr m (s + 1) c) else Some None)"

partial_function (option) strfind :: "mem \<Rightarrow> addr \<Rightarrow> u8 \<Rightarrow> addr option" where
  "strfind m s c =
     (if m s \<noteq> 0 then (if m s = c then Some s else strfind m (s + 1) c) else Some s)"

partial_function (option) skip_blanks :: "mem \<Rightarrow> addr \<Rightarrow> addr option" where
  "skip_blanks m s =
     (if m s = ch CHR '' '' \<or> m s = ch CHR 0x09 then skip_blanks m (s + 1) else Some s)"

definition digit_of :: "u8 \<Rightarrow> int option" where
  "digit_of c =
     (if ch CHR ''0'' \<le> c \<and> c \<le> ch CHR ''9'' then Some (uint c - uint (ch CHR ''0''))
      else if ch CHR ''a'' \<le> c \<and> c \<le> ch CHR ''z'' then Some (uint c - uint (ch CHR ''a'') + 10)
      else if ch CHR ''A'' \<le> c \<and> c \<le> ch CHR ''Z'' then Some (uint c - uint (ch CHR ''A'') + 10)
      else None)"

partial_function (option) strtol_digits :: "mem \<Rightarrow> addr \<Rightarrow> int \<Rightarrow> s32 \<Rightarrow> (s32 \<times> addr) option" where
  "strtol_digits m s base val =
     (case digit_of (m s) of
        None \<Rightarrow> Some (val, s)
      | Some dig \<Rightarrow>
          if dig \<ge> base then Some (val, s)
          else strtol_digits m (s + 1) base (val * word_of_int base + word_of_int dig))"

definition strtol_sign :: "mem \<Rightarrow> addr \<Rightarrow> addr \<times> bool" where
  "strtol_sign m s =
     (if m s = ch CHR ''+'' then (s + 1, False)
      else if m s = ch CHR ''-'' then (s + 1, True)
      else (s, False))"

definition strtol_prefix :: "mem \<Rightarrow> addr \<Rightarrow> int \<Rightarrow> addr \<times> int" where
  "strtol_prefix m s base =
     (if (base = 0 \<or> base = 16) \<and> m s = ch CHR ''0'' \<and> m (s + 1) = ch CHR ''x'' then (s + 2, 16)
      else if base = 0 \<and> m s = ch CHR ''0'' then (s + 1, 8)
      else if base = 0 then (s, 10)
      else (s, base))"

definition strtol :: "mem \<Rightarrow> addr \<Rightarrow> int \<Rightarrow> (s32 \<times> addr) option" where
  "strtol m s base =
     do { s \<leftarrow> skip_blanks m s;
          let (s, neg) = strtol_sign m s;
          let (s, base) = strtol_prefix m s base;
          (val, s) \<leftarrow> strtol_digits m s base 0;
          Some (if neg then - val else val, s) }"

fun memset :: "mem \<Rightarrow> addr \<Rightarrow> u8 \<Rightarrow> nat \<Rightarrow> mem" where
  "memset m p c 0 = m"
| "memset m p c (Suc n) = memset (m(p := c)) (p + 1) c n"

fun copy_up :: "mem \<Rightarrow> addr \<Rightarrow> addr \<Rightarrow> nat \<Rightarrow> mem" where
  "copy_up m d s 0 = m"
| "copy_up m d s (Suc n) = copy_up (m(d := m s)) (d + 1) (s + 1) n"

fun copy_down :: "mem \<Rightarrow> addr \<Rightarrow> addr \<Rightarrow> nat \<Rightarrow> mem" where
  "copy_down m d s 0 = m"
| "copy_down m d s (Suc n) = copy_down (m(d - 1 := m (s - 1))) (d - 1) (s - 1) n"

definition memmove :: "mem \<Rightarrow> addr \<Rightarrow> addr \<Rightarrow> nat \<Rightarrow> mem" where
  "memmove m dst src n =
     (if src < dst \<and> src + n > dst then copy_down m (dst + n) (src + n) n
      else copy_up m dst src n)"

definition memcpy :: "mem \<Rightarrow> addr \<Rightarrow> addr \<Rightarrow> nat \<Rightarrow> mem" where
  "memcpy m dst src n = copy_up m dst src n"

partial_function (option) memcpy_flash :: "mem \<Rightarrow> addr \<Rightarrow> addr \<Rightarrow> u32 \<Rightarrow> mem option" where
  "memcpy_flash m d s n =
     (if n > 0 then
        let m = m(d := m s); m = m(d + 1 := m (s + 1))
        in memcpy_flash m (d + 2) (s + 4) (n - 2)
      else Some m)"

fun memcmp :: "mem \<Rightarrow> addr \<Rightarrow> addr \<Rightarrow> nat \<Rightarrow> s32" where
  "memcmp m s1 s2 0 = 0"
| "memcmp m s1 s2 (Suc n) =
     (if m s1 \<noteq> m s2 then byte_diff (m s1) (m s2) else memcmp m (s1 + 1) (s2 + 1) n)"

text \<open>
  The kernel's helpers take the block from \<open>kmalloc\<close>: its answer for the requested size is a
  parameter, \<open>None\<close> the null pointer.
\<close>

definition strdup :: "(nat \<Rightarrow> addr option) \<Rightarrow> mem \<Rightarrow> addr \<Rightarrow> (addr option \<times> mem) option" where
  "strdup kmalloc m src =
     do { len \<leftarrow> strlen m src;
          case kmalloc (len + 1) of
            None \<Rightarrow> Some (None, m)
          | Some dst \<Rightarrow> Some (Some dst, (memcpy m dst src len)(dst + len := 0)) }"

definition stradd :: "(nat \<Rightarrow> addr option) \<Rightarrow> mem \<Rightarrow> addr \<Rightarrow> addr \<Rightarrow> (addr option \<times> mem) option" where
  "stradd kmalloc m src1 src2 =
     do { len1 \<leftarrow> strlen m src1;
          len2 \<leftarrow> strlen m src2;
          case kmalloc (len1 + len2 + 1) of
            None \<Rightarrow> Some (None, m)
          | Some ret \<Rightarrow>
              let m = memcpy m ret src1 len1;
                  m = memcpy m (ret + len1) src2 len2
              in Some (Some ret, m(ret + len1 + len2 := 0)) }"

text \<open>\<open>cstr m p xs\<close>: the zero-terminated string at \<open>p\<close> is \<open>xs\<close>. \<open>bytes m p n\<close>: the \<open>n\<close> bytes at \<open>p\<close>.\<close>

fun cstr :: "mem \<Rightarrow> addr \<Rightarrow> u8 list \<Rightarrow> bool" where
  "cstr m p [] \<longleftrightarrow> m p = 0"
| "cstr m p (x # xs) \<longleftrightarrow> m p = x \<and> x \<noteq> 0 \<and> cstr m (p + 1) xs"

definition bytes :: "mem \<Rightarrow> addr \<Rightarrow> nat \<Rightarrow> u8 list" where
  "bytes m p n = map (\<lambda>i. m (p + i)) [0..<n]"

text \<open>The order of strings: the first byte that differs decides, and a prefix is smaller.\<close>

fun str_less :: "u8 list \<Rightarrow> u8 list \<Rightarrow> bool" where
  "str_less xs [] \<longleftrightarrow> False"
| "str_less [] (y # ys) \<longleftrightarrow> True"
| "str_less (x # xs) (y # ys) \<longleftrightarrow> x < y \<or> x = y \<and> str_less xs ys"

text \<open>The value of a digit string in a base, most significant digit first.\<close>

definition digits_val :: "int \<Rightarrow> int list \<Rightarrow> int" where
  "digits_val base ds = foldl (\<lambda>v d. v * base + d) 0 ds"

section \<open>Memory blocks\<close>

lemma copy_up_other: "k < d \<or> d + n \<le> k \<Longrightarrow> copy_up m d s n k = m k"
  by (induction n arbitrary: m d s) auto

lemma copy_down_other: "n \<le> d \<Longrightarrow> k < d - n \<or> d \<le> k \<Longrightarrow> copy_down m d s n k = m k"
proof (induction n arbitrary: m d s)
  case (Suc n)
  then have "n \<le> d - 1" "k < d - 1 - n \<or> d - 1 \<le> k" "k \<noteq> d - 1"
    by auto
  then show ?case
    using Suc.IH by simp
qed simp

lemma copy_up_block:
  "d \<le> s \<or> s + n \<le> d \<Longrightarrow> i < n \<Longrightarrow> copy_up m d s n (d + i) = m (s + i)"
proof (induction n arbitrary: m d s i)
  case (Suc n)
  show ?case
  proof (cases i)
    case 0
    then show ?thesis
      by (simp add: copy_up_other)
  next
    case (Suc j)
    have "copy_up (m(d := m s)) (d + 1) (s + 1) n (d + 1 + j) = (m(d := m s)) (s + 1 + j)"
      by (rule Suc.IH) (use Suc.prems Suc in auto)
    moreover have "s + 1 + j \<noteq> d"
      using Suc.prems Suc by auto
    ultimately show ?thesis
      by (simp add: Suc)
  qed
qed simp

lemma copy_down_block:
  "s < d \<Longrightarrow> n \<le> s \<Longrightarrow> i < n \<Longrightarrow> copy_down m d s n (d - n + i) = m (s - n + i)"
proof (induction n arbitrary: m d s)
  case (Suc n)
  show ?case
  proof (cases "i = n")
    case True
    with Suc.prems show ?thesis
      by (simp add: copy_down_other)
  next
    case False
    have "copy_down (m(d - 1 := m (s - 1))) (d - 1) (s - 1) n (d - 1 - n + i) =
        (m(d - 1 := m (s - 1))) (s - 1 - n + i)"
      by (rule Suc.IH) (use Suc.prems False in auto)
    moreover have "s - 1 - n + i \<noteq> d - 1"
      using Suc.prems False by auto
    ultimately show ?thesis
      by simp
  qed
qed simp

lemma memmove_ok:
  "memmove m dst src n = (\<lambda>k. if dst \<le> k \<and> k < dst + n then m (src + (k - dst)) else m k)"
proof
  fix k
  show "memmove m dst src n k = (if dst \<le> k \<and> k < dst + n then m (src + (k - dst)) else m k)"
  proof (cases "dst \<le> k \<and> k < dst + n")
    case True
    then obtain i where i: "k = dst + i" "i < n"
      by (metis add_less_cancel_left le_Suc_ex)
    show ?thesis
    proof (cases "src < dst \<and> src + n > dst")
      case True
      then have "copy_down m (dst + n) (src + n) n (dst + n - n + i) = m (src + n - n + i)"
        by (intro copy_down_block) (use i in auto)
      with True i show ?thesis
        by (simp add: memmove_def)
    next
      case False
      then have "copy_up m dst src n (dst + i) = m (src + i)"
        by (intro copy_up_block) (use i in auto)
      moreover have "memmove m dst src n = copy_up m dst src n"
        using False by (auto simp: memmove_def)
      ultimately show ?thesis
        using i by simp
    qed
  next
    case False
    then have "copy_down m (dst + n) (src + n) n k = m k" "copy_up m dst src n k = m k"
      by (auto intro!: copy_up_other copy_down_other)
    moreover from False have "(dst \<le> k \<and> k < dst + n) = False"
      by simp
    ultimately show ?thesis
      by (simp only: memmove_def if_False split: if_split) simp
  qed
qed

lemma memset_ok: "memset m p c n = (\<lambda>k. if p \<le> k \<and> k < p + n then c else m k)"
  by (induction n arbitrary: m p) (auto simp: fun_eq_iff)

lemma copy_up_eq_memmove: "d \<le> s \<or> s + n \<le> d \<Longrightarrow> copy_up m d s n = memmove m d s n"
  by (auto simp: memmove_def)

section \<open>Strings\<close>

lemma cstr_nonzero: "cstr m p xs \<Longrightarrow> 0 \<notin> set xs"
  by (induction xs arbitrary: p) auto

lemma cstr_bytes: "cstr m p xs \<Longrightarrow> i < length xs \<Longrightarrow> m (p + i) = xs ! i"
proof (induction xs arbitrary: p i)
  case (Cons x xs)
  then show ?case
    using Cons.IH [of "p + 1" "i - 1"] by (cases i) auto
qed simp

lemma cstr_end: "cstr m p xs \<Longrightarrow> m (p + length xs) = 0"
proof (induction xs arbitrary: p)
  case (Cons x xs)
  then show ?case
    using Cons.IH [of "p + 1"] by simp
qed simp

lemma cstr_cong:
  "(\<And>i. i \<le> length xs \<Longrightarrow> m' (q + i) = m (p + i)) \<Longrightarrow> cstr m' q xs = cstr m p xs"
proof (induction xs arbitrary: p q)
  case Nil
  from Nil [of 0] show ?case by simp
next
  case (Cons x xs)
  have "cstr m' (q + 1) xs = cstr m (p + 1) xs"
    by (rule Cons.IH) (use Cons.prems [of "Suc _"] in simp)
  with Cons.prems [of 0] show ?case by simp
qed

lemma cstr_append:
  "cstr m p (xs @ ys) \<longleftrightarrow> 0 \<notin> set xs \<and> (\<forall>i<length xs. m (p + i) = xs ! i) \<and> cstr m (p + length xs) ys"
  by (induction xs arbitrary: p) (auto simp: nth_Cons All_less_Suc2 split: nat.splits)

lemma strlen_loop_ok: "cstr m p xs \<Longrightarrow> strlen_loop m p cnt = Some (cnt + length xs)"
  by (induction xs arbitrary: p cnt) (simp_all add: strlen_loop.simps [of m])

lemma strlen_ok: "cstr m p xs \<Longrightarrow> strlen m p = Some (length xs)"
  by (simp add: strlen_def strlen_loop_ok)

lemma strcpy_copy:
  "cstr m s xs \<Longrightarrow> d \<le> s \<or> s + length xs < d \<Longrightarrow> strcpy m d s = Some (copy_up m d s (length xs + 1))"
proof (induction xs arbitrary: m d s)
  case Nil
  then show ?case
    by (simp add: strcpy.simps [of m] fun_upd_def)
next
  case (Cons x xs)
  define m1 where "m1 = m(d := m s)"
  have "cstr m1 (s + 1) xs = cstr m (s + 1) xs"
    by (rule cstr_cong) (use Cons.prems(2) in \<open>auto simp: m1_def\<close>)
  with Cons.prems have "strcpy m1 (d + 1) (s + 1) = Some (copy_up m1 (d + 1) (s + 1) (length xs + 1))"
    by (intro Cons.IH) auto
  moreover have "strcpy m d s = strcpy m1 (d + 1) (s + 1)"
    using Cons.prems(1) by (simp add: strcpy.simps [of m] m1_def)
  ultimately show ?case
    by (simp add: m1_def)
qed

lemma strcpy_ok:
  assumes "cstr m s xs" "d \<le> s \<or> s + length xs < d"
  shows "strcpy m d s = Some (memmove m d s (length xs + 1))"
  using strcpy_copy [OF assms] copy_up_eq_memmove [of d s "length xs + 1" m] assms(2) by auto

lemma memmove_cstr: "cstr m s xs \<Longrightarrow> cstr (memmove m d s (length xs + 1)) d xs"
  by (subst cstr_cong [of xs _ d m s]) (auto simp: memmove_ok)

text \<open>The comparison loops.\<close>

lemma sint_byte_diff: "sint (byte_diff a b) = uint a - uint b"
proof -
  have r: "0 \<le> uint a" "uint a < 256" "0 \<le> uint b" "uint b < 256"
    using uint_lt2p [of a] uint_lt2p [of b] by simp_all
  have "uint (ucast a :: u32) = uint a" "uint (ucast b :: u32) = uint b"
    using r by (simp_all add: unsigned_ucast_eq take_bit_int_eq_self)
  then have "byte_diff a b = word_of_int (uint a) - word_of_int (uint b)"
    by (metis byte_diff_def word_of_int_uint)
  then have "byte_diff a b = word_of_int (uint a - uint b)"
    by (simp only: of_int_diff)
  moreover have "- 2147483648 \<le> uint a - uint b" "uint a - uint b < 2147483648"
    using r by linarith+
  ultimately show ?thesis
    by (simp only: sint_sbintrunc') (simp add: signed_take_bit_int_eq_self)
qed

lemma byte_diff_zero: "byte_diff a b = 0 \<longleftrightarrow> a = b"
proof
  assume "byte_diff a b = 0"
  with sint_byte_diff [of a b] have "uint a = uint b"
    by simp
  then show "a = b"
    by (simp add: word_uint_eq_iff)
qed (simp add: byte_diff_def)

lemma strcmp_ok:
  "cstr m p xs \<Longrightarrow> cstr m q ys \<Longrightarrow>
   \<exists>r. strcmp m p q = Some r \<and> (sint r < 0 \<longleftrightarrow> str_less xs ys) \<and> (sint r = 0 \<longleftrightarrow> xs = ys) \<and>
     (sint r > 0 \<longleftrightarrow> str_less ys xs)"
proof (induction xs ys arbitrary: p q rule: str_less.induct)
  case (1 xs)
  then have "strcmp m p q = Some (byte_diff (m p) 0)"
    by (simp add: strcmp.simps [of m p q])
  moreover have "0 < uint (m p)" if "xs \<noteq> []"
    using 1 that by (cases xs) (auto simp: word_neq_0_conv word_less_def)
  ultimately show ?case
    using 1 by (cases xs) (auto simp: sint_byte_diff)
next
  case (2 y ys)
  then have "strcmp m p q = Some (byte_diff 0 (m q))"
    by (simp add: strcmp.simps [of m p q])
  moreover have "0 < uint (m q)"
    using 2 by (auto simp: word_neq_0_conv word_less_def)
  ultimately show ?case
    by (auto simp: sint_byte_diff)
next
  case (3 x xs y ys)
  show ?case
  proof (cases "x = y")
    case True
    with "3.prems" "3.IH" [of "p + 1" "q + 1"] show ?thesis
      by (auto simp: strcmp.simps [of m p q])
  next
    case False
    with "3.prems" have "strcmp m p q = Some (byte_diff x y)"
      by (simp add: strcmp.simps [of m p q])
    moreover have "uint x \<noteq> uint y"
      using False by (simp add: word_uint_eq_iff)
    ultimately show ?thesis
      by (auto simp: sint_byte_diff word_less_def)
  qed
qed

lemma strncmp_ok:
  "cstr m p xs \<Longrightarrow> cstr m q ys \<Longrightarrow> strncmp m p q n = 0 \<longleftrightarrow> take n xs = take n ys"
proof (induction n arbitrary: p q xs ys)
  case (Suc n)
  then show ?case
    by (cases xs; cases ys) (auto simp: byte_diff_zero)
qed simp

lemma strnlen_loop_ok: "cstr m p xs \<Longrightarrow> strnlen_loop m p k cnt = cnt + min k (length xs)"
proof (induction k arbitrary: p xs cnt)
  case (Suc k)
  then show ?case by (cases xs) auto
qed simp

lemma strfind_ok: "cstr m p xs \<Longrightarrow> strfind m p c = Some (p + length (takeWhile (\<lambda>x. x \<noteq> c) xs))"
  by (induction xs arbitrary: p) (auto simp: strfind.simps [of m])

lemma strchr_ok:
  "cstr m p xs \<Longrightarrow> strchr m p c = Some (if c \<in> set xs then Some (p + length (takeWhile (\<lambda>x. x \<noteq> c) xs))
     else None)"
  by (induction xs arbitrary: p) (auto simp: strchr.simps [of m])

lemma memcmp_ok: "memcmp m p q n = 0 \<longleftrightarrow> bytes m p n = bytes m q n"
proof (induction n arbitrary: p q)
  case (Suc n)
  have "bytes m r (Suc n) = m r # bytes m (r + 1) n" for r
    by (simp add: bytes_def upt_conv_Cons map_Suc_upt [symmetric] del: upt_Suc)
  then show ?case
    using Suc by (auto simp: byte_diff_zero)
qed (simp add: bytes_def)

section \<open>Numbers\<close>

lemma digits_val_Nil [simp]: "digits_val b [] = 0"
  by (simp add: digits_val_def)

lemma digits_val_snoc [simp]: "digits_val b (ds @ [d]) = digits_val b ds * b + d"
  by (simp add: digits_val_def)

lemma strtol_digits_ok:
  assumes "cstr m s (xs @ ys)" "map digit_of xs = map Some ds" "\<forall>d\<in>set ds. d < base"
    and "ys \<noteq> [] \<Longrightarrow> (case digit_of (hd ys) of None \<Rightarrow> True | Some d \<Rightarrow> base \<le> d)"
  shows "strtol_digits m s base (word_of_int v) =
    Some (word_of_int (foldl (\<lambda>v d. v * base + d) v ds), s + length xs)"
  using assms
proof (induction xs arbitrary: s v ds)
  case Nil
  have "digit_of 0 = None"
    by (simp add: digit_of_def)
  with Nil have "case digit_of (m s) of None \<Rightarrow> True | Some d \<Rightarrow> base \<le> d"
    by (cases ys) auto
  with Nil show ?case
    by (auto simp: strtol_digits.simps [of m s] split: option.splits)
next
  case (Cons x xs)
  then obtain d ds' where ds: "ds = d # ds'" "digit_of x = Some d" "map digit_of xs = map Some ds'"
    by (cases ds) auto
  have "strtol_digits m (s + 1) base (word_of_int (v * base + d)) =
      Some (word_of_int (foldl (\<lambda>v d. v * base + d) (v * base + d) ds'), s + 1 + length xs)"
    by (rule Cons.IH) (use Cons.prems ds in auto)
  with Cons.prems ds show ?case
    by (simp add: strtol_digits.simps [of m s])
qed

section \<open>Concatenation\<close>

lemma memcpy_cstr:
  assumes "cstr m src xs" "d \<le> src \<or> src + length xs \<le> d"
  shows "memcpy m d src (length xs) = memmove m d src (length xs)"
  using assms copy_up_eq_memmove [of d src "length xs" m] by (simp add: memcpy_def)

lemma cstr_append_intro:
  assumes "0 \<notin> set xs" "\<And>i. i < length xs \<Longrightarrow> m (p + i) = xs ! i" "cstr m (p + length xs) ys"
  shows "cstr m p (xs @ ys)"
  using assms by (simp add: cstr_append)

text \<open>A block handed out by \<open>kmalloc\<close> does not overlap the strings that are in use.\<close>

lemma strdup_ok:
  assumes "cstr m src xs" "kmalloc (length xs + 1) = Some dst"
    and "dst + length xs < src \<or> src + length xs < dst"
  shows "\<exists>m'. strdup kmalloc m src = Some (Some dst, m') \<and> cstr m' dst xs \<and> cstr m' src xs \<and>
    (\<forall>k. k < dst \<or> dst + length xs < k \<longrightarrow> m' k = m k)"
proof -
  define m' where "m' = (memmove m dst src (length xs))(dst + length xs := 0)"
  have e: "strdup kmalloc m src = Some (Some dst, m')"
    using assms memcpy_cstr [of m src xs dst] by (auto simp: strdup_def strlen_ok m'_def)
  have fr: "m' k = m k" if "k < dst \<or> dst + length xs < k" for k
    using that by (auto simp: m'_def memmove_ok)
  have "cstr m' dst (xs @ [])"
  proof (rule cstr_append_intro)
    show "0 \<notin> set xs"
      using assms(1) by (rule cstr_nonzero)
    show "m' (dst + i) = xs ! i" if "i < length xs" for i
      using that cstr_bytes [OF assms(1) that] by (simp add: m'_def memmove_ok)
  qed (simp add: m'_def)
  moreover have "cstr m' src xs = cstr m src xs"
    by (rule cstr_cong) (use fr assms(3) in auto)
  ultimately show ?thesis
    using e fr assms(1) by auto
qed

lemma stradd_ok:
  assumes "cstr m s1 xs" "cstr m s2 ys" "kmalloc (length xs + length ys + 1) = Some ret"
    and "ret + length xs + length ys < s1 \<or> s1 + length xs < ret"
    and "ret + length xs + length ys < s2 \<or> s2 + length ys < ret"
  shows "\<exists>m'. stradd kmalloc m s1 s2 = Some (Some ret, m') \<and> cstr m' ret (xs @ ys) \<and>
    (\<forall>k. k < ret \<or> ret + length xs + length ys < k \<longrightarrow> m' k = m k)"
proof -
  define m1 where "m1 = memmove m ret s1 (length xs)"
  define m' where "m' = (memmove m1 (ret + length xs) s2 (length ys))(ret + length xs + length ys := 0)"
  have m1: "memcpy m ret s1 (length xs) = m1"
    using memcpy_cstr [OF assms(1), of ret] assms(4) by (auto simp: m1_def)
  have "cstr m1 s2 ys = cstr m s2 ys"
    by (rule cstr_cong) (use assms(5) in \<open>auto simp: m1_def memmove_ok\<close>)
  with assms(2) have c2: "cstr m1 s2 ys"
    by simp
  have "stradd kmalloc m s1 s2 = Some (Some ret, m')"
    using assms memcpy_cstr [OF c2, of "ret + length xs"]
    by (auto simp: stradd_def strlen_ok m1 m'_def Let_def)
  moreover have "cstr m' ret ((xs @ ys) @ [])"
  proof (rule cstr_append_intro)
    show "0 \<notin> set (xs @ ys)"
      using assms(1,2) by (auto dest: cstr_nonzero)
    show "m' (ret + i) = (xs @ ys) ! i" if "i < length (xs @ ys)" for i
    proof (cases "i < length xs")
      case True
      then show ?thesis
        using cstr_bytes [OF assms(1) True] by (simp add: m'_def m1_def memmove_ok nth_append)
    next
      case False
      with that have "i - length xs < length ys"
        by simp
      with False that cstr_bytes [OF c2 this] show ?thesis
        by (simp add: m'_def memmove_ok nth_append)
    qed
  qed (simp add: m'_def)
  moreover have "m' k = m k" if "k < ret \<or> ret + length xs + length ys < k" for k
    using that by (auto simp: m'_def m1_def memmove_ok)
  ultimately show ?thesis
    by auto
qed

section \<open>Properties of the string library\<close>

text \<open>
  \<open>memmove\<close> copies a block correctly however source and destination overlap: the
  destination receives the \<^emph>\<open>old\<close> source bytes and no other byte changes. \<open>memcpy\<close> agrees with it
  unless the destination starts inside the source block.
\<close>

theorem memmove_correct:
  "bytes (memmove m dst src n) dst n = bytes m src n \<and>
   (\<forall>k. k < dst \<or> dst + n \<le> k \<longrightarrow> memmove m dst src n k = m k) \<and>
   (dst \<le> src \<or> src + n \<le> dst \<longrightarrow> memcpy m dst src n = memmove m dst src n)"
  by (auto simp: bytes_def memmove_ok memcpy_def copy_up_eq_memmove)

theorem memmove_correct_witness:
  "bytes (memmove (\<lambda>a. of_nat a) 12 10 4) 12 4 = [10, 11, 12, 13] \<and>
   memmove (\<lambda>a. of_nat a) 12 10 4 11 = 11 \<and>
   memcpy (\<lambda>a. of_nat a) 10 12 4 = memmove (\<lambda>a. of_nat a) 10 12 4"
  using memmove_correct [of "\<lambda>a. of_nat a" 12 10 4] memmove_correct [of "\<lambda>a. of_nat a" 10 12 4]
  by (simp add: bytes_def upt_rec)

text \<open>
  \<open>strcmp\<close> on two terminated strings returns, and the sign of its result is the lexicographic
  order of the strings by unsigned bytes: zero exactly for equal strings.
\<close>

theorem strcmp_correct:
  assumes "cstr m p xs" and "cstr m q ys"
  shows "\<exists>r. strcmp m p q = Some r \<and> (sint r < 0 \<longleftrightarrow> str_less xs ys) \<and> (sint r = 0 \<longleftrightarrow> xs = ys) \<and>
    (sint r > 0 \<longleftrightarrow> str_less ys xs)"
  using assms by (rule strcmp_ok)

theorem strcmp_correct_witness:
  "\<exists>r. strcmp ((\<lambda>_. 0)(10 := 65, 11 := 200, 20 := 65, 21 := 66, 22 := 67)) 10 20 = Some r \<and> sint r > 0"
proof -
  define m :: mem where "m = (\<lambda>_. 0)(10 := 65, 11 := 200, 20 := 65, 21 := 66, 22 := 67)"
  have "cstr m 10 [65, 200]" "cstr m 20 [65, 66, 67]"
    by (simp_all add: m_def)
  from strcmp_correct [OF this] show ?thesis
    unfolding m_def [symmetric] by auto
qed

text \<open>
  \<open>strcat\<close> returns and appends: the destination then holds the concatenation, and only the
  bytes from its old end to its new end are written. The source must not lie in those bytes.
\<close>

theorem strcat_correct:
  assumes "cstr m dst xs" and "cstr m src ys"
    and "dst + length xs + length ys < src \<or> src + length ys < dst + length xs"
  shows "\<exists>m'. strcat m dst src = Some m' \<and> cstr m' dst (xs @ ys) \<and>
    (\<forall>k. k < dst + length xs \<or> dst + length xs + length ys < k \<longrightarrow> m' k = m k)"
proof -
  define d where "d = dst + length xs"
  define m' where "m' = memmove m d src (length ys + 1)"
  have "strcat m dst src = Some m'"
    using strcpy_ok [OF assms(2), of d] assms(3) by (auto simp: strcat_def strlen_ok [OF assms(1)] m'_def d_def)
  moreover have fr: "m' k = m k" if "k < d \<or> d + length ys < k" for k
    using that by (auto simp: m'_def memmove_ok)
  moreover have "cstr m' dst (xs @ ys)"
  proof (rule cstr_append_intro)
    show "0 \<notin> set xs"
      using assms(1) by (rule cstr_nonzero)
    show "m' (dst + i) = xs ! i" if "i < length xs" for i
      using that cstr_bytes [OF assms(1) that] fr by (simp add: d_def)
    show "cstr m' (dst + length xs) ys"
      using memmove_cstr [OF assms(2)] by (simp add: m'_def d_def)
  qed
  ultimately show ?thesis
    by (auto simp: d_def)
qed

theorem strcat_correct_witness:
  "\<exists>m'. strcat ((\<lambda>_. 0)(10 := 65, 20 := 66, 21 := 67)) 10 20 = Some m' \<and> cstr m' 10 [65, 66, 67]"
proof -
  define m :: mem where "m = (\<lambda>_. 0)(10 := 65, 20 := 66, 21 := 67)"
  have "cstr m 10 [65]" "cstr m 20 [66, 67]"
    by (simp_all add: m_def)
  from strcat_correct [OF this] show ?thesis
    unfolding m_def [symmetric] by auto
qed

end
