(* ===== verification/Printfmt.thy ===== *)
theory Printfmt
  imports KArith KString
begin

text \<open>
  Formatted output (\<^verbatim>\<open>libs/printfmt.c\<close>). The callback \<open>putch\<close> is a parameter, a function on
  the caller's data \<open>'d\<close> (the C \<open>putdat\<close>); its character is a C \<open>int\<close>. The format is the
  list of its bytes up to the terminating zero, so reading past the end reads that zero (\<open>[]\<close>).
  Variable arguments are a list of typed values; reading an argument that is missing or has
  another type is undefined in C and \<open>None\<close> here. \<open>width\<close> and \<open>precision\<close> are integers.
\<close>

section \<open>Definitions\<close>

type_synonym 'd putch = "s32 \<Rightarrow> 'd \<Rightarrow> 'd"

abbreviation chi :: "char \<Rightarrow> s32" where
  "chi c \<equiv> of_char c"

definition str_bytes :: "string \<Rightarrow> u8 list" where
  "str_bytes s = map of_char s"

text \<open>\<open>error_string\<close>: three codes below \<open>MAXERROR\<close> have no entry.\<close>

definition error_string :: "int \<Rightarrow> string option" where
  "error_string e =
     (if e = errno E_UNSPECIFIED then Some ''unspecified error''
      else if e = errno E_BAD_PROC then Some ''bad process''
      else if e = errno E_INVAL then Some ''invalid parameter''
      else if e = errno E_NO_MEM then Some ''out of memory''
      else if e = errno E_NO_FREE_PROC then Some ''out of processes''
      else if e = errno E_FAULT then Some ''segmentation fault''
      else if e = errno E_INVAL_ELF then Some ''invalid elf file''
      else if e = errno E_KILLED then Some ''process is killed''
      else if e = errno E_PANIC then Some ''panic failure''
      else if e = errno E_NO_DEV then Some ''no such device''
      else if e = errno E_NA_DEV then Some ''device not available''
      else if e = errno E_BUSY then Some ''device/file is busy''
      else if e = errno E_NOENT then Some ''no such file or directory''
      else if e = errno E_ISDIR then Some ''is a directory''
      else if e = errno E_NOTDIR then Some ''not a directory''
      else if e = errno E_XDEV then Some ''cross device link''
      else if e = errno E_UNIMP then Some ''unimplemented feature''
      else if e = errno E_SEEK then Some ''illegal seek''
      else if e = errno E_MAX_OPEN then Some ''too many files are open''
      else if e = errno E_EXISTS then Some ''file or directory already exists''
      else if e = errno E_NOTEMPTY then Some ''directory is not empty''
      else None)"

text \<open>\<open>putn\<close> is the padding loop: \<open>w\<close> characters when \<open>w\<close> is positive.\<close>

definition putn :: "'d putch \<Rightarrow> s32 \<Rightarrow> int \<Rightarrow> 'd \<Rightarrow> 'd" where
  "putn putch c w d = (putch c ^^ nat w) d"

text \<open>A digit index outside the literal \<open>"0123456789abcdef"\<close> is undefined.\<close>

definition digit_char :: "u32 \<Rightarrow> s32 option" where
  "digit_char k = (if unat k < 16 then Some (chi (''0123456789abcdef'' ! unat k)) else None)"

partial_function (option) printnum ::
  "'d putch \<Rightarrow> u64 \<Rightarrow> u32 \<Rightarrow> int \<Rightarrow> s32 \<Rightarrow> 'd \<Rightarrow> 'd option" where
  "printnum putch num base width padc d =
     (let (md, result) = do_div num base
      in do { d \<leftarrow> (if num \<ge> ucast base then printnum putch result base (width - 1) padc d
                    else Some (putn putch padc (width - 1) d));
              c \<leftarrow> digit_char md;
              Some (putch c d) })"

datatype va = VInt u32 | VLongLong u64 | VStr "u8 list option"

fun va_int :: "va list \<Rightarrow> (u32 \<times> va list) option" where
  "va_int (VInt w # ap) = Some (w, ap)"
| "va_int ap = None"

fun va_longlong :: "va list \<Rightarrow> (u64 \<times> va list) option" where
  "va_longlong (VLongLong w # ap) = Some (w, ap)"
| "va_longlong ap = None"

fun va_str :: "va list \<Rightarrow> (u8 list option \<times> va list) option" where
  "va_str (VStr s # ap) = Some (s, ap)"
| "va_str ap = None"

text \<open>\<open>int\<close> and \<open>long\<close> both have 32 bits.\<close>

definition getuint :: "va list \<Rightarrow> nat \<Rightarrow> (u64 \<times> va list) option" where
  "getuint ap lflag =
     (if lflag \<ge> 2 then va_longlong ap
      else do { (w, ap) \<leftarrow> va_int ap; Some (ucast w, ap) })"

definition getint :: "va list \<Rightarrow> nat \<Rightarrow> (u64 \<times> va list) option" where
  "getint ap lflag =
     (if lflag \<ge> 2 then va_longlong ap
      else do { (w, ap) \<leftarrow> va_int ap; Some (scast w, ap) })"

record fmt_flags =
  f_padc :: s32
  f_width :: int
  f_precision :: int
  f_lflag :: nat
  f_altflag :: bool

definition fmt_flags_init :: fmt_flags where
  "fmt_flags_init = \<lparr>f_padc = chi CHR '' '', f_width = -1, f_precision = -1, f_lflag = 0, f_altflag = False\<rparr>"

definition process_precision :: "fmt_flags \<Rightarrow> fmt_flags" where
  "process_precision fl =
     (if f_width fl < 0 then fl\<lparr>f_width := f_precision fl, f_precision := -1\<rparr> else fl)"

definition is_digit :: "u8 \<Rightarrow> bool" where
  "is_digit c \<longleftrightarrow> ch CHR ''0'' \<le> c \<and> c \<le> ch CHR ''9''"

text \<open>The loop of the width field: \<open>c\<close> is the digit read last.\<close>

fun width_loop :: "int \<Rightarrow> u8 \<Rightarrow> u8 list \<Rightarrow> int \<times> u8 list" where
  "width_loop precision c [] = (precision * 10 + uint c - 48, [])"
| "width_loop precision c (c' # fmt) =
     (if is_digit c' then width_loop (precision * 10 + uint c - 48) c' fmt
      else (precision * 10 + uint c - 48, c' # fmt))"

text \<open>\<open>strnlen(p, precision)\<close>: the precision is converted to \<open>size_t\<close>, so \<open>-1\<close> is no limit.\<close>

definition fmt_strnlen :: "u8 list \<Rightarrow> int \<Rightarrow> int" where
  "fmt_strnlen p precision = int (min (length p) (nat (precision mod 2 ^ 32)))"

fun str_loop :: "'d putch \<Rightarrow> bool \<Rightarrow> u8 list \<Rightarrow> int \<Rightarrow> int \<Rightarrow> 'd \<Rightarrow> int \<times> 'd" where
  "str_loop putch altflag [] precision width d = (width, d)"
| "str_loop putch altflag (x # p) precision width d =
     (if precision < 0 \<or> precision - 1 \<ge> 0 then
        let c = scast x :: s32;
            c = (if altflag \<and> (sint c < 32 \<or> sint c > 126) then chi CHR ''?'' else c)
        in str_loop putch altflag p (if precision < 0 then precision else precision - 1) (width - 1) (putch c d)
      else (width, d))"

definition put_string :: "'d putch \<Rightarrow> fmt_flags \<Rightarrow> u8 list option \<Rightarrow> 'd \<Rightarrow> 'd" where
  "put_string putch fl p d =
     (let p = (case p of None \<Rightarrow> str_bytes ''(null)'' | Some p \<Rightarrow> p);
          (width, d) =
            (if f_width fl > 0 \<and> f_padc fl \<noteq> chi CHR ''-'' then
               let w = f_width fl - fmt_strnlen p (f_precision fl)
               in (min w 0, putn putch (f_padc fl) w d)
             else (f_width fl, d));
          (width, d) = str_loop putch (f_altflag fl) p (f_precision fl) width d
      in putn putch (chi CHR '' '') width d)"

definition put_signed :: "'d putch \<Rightarrow> fmt_flags \<Rightarrow> u64 \<Rightarrow> 'd \<Rightarrow> 'd option" where
  "put_signed putch fl num d =
     (let (num, d) = (if sint num < 0 then (- num, putch (chi CHR ''-'') d) else (num, d))
      in printnum putch num 10 (f_width fl) (f_padc fl) d)"

text \<open>
  The switch on the character after \<open>%\<close>. The characters that set a flag and go back to
  \<open>reswitch\<close> are \<open>flag_step\<close>: the new flags, format and arguments, or \<open>NotFlag\<close>; a missing
  argument of \<open>*\<close> is \<open>Undef\<close>.
\<close>

datatype flag_result = NotFlag | Undef | Flag fmt_flags "u8 list" "va list"

definition flag_step :: "fmt_flags \<Rightarrow> u8 \<Rightarrow> u8 list \<Rightarrow> va list \<Rightarrow> flag_result" where
  "flag_step fl c fmt ap =
     (if c = ch CHR ''-'' then Flag (fl\<lparr>f_padc := chi CHR ''-''\<rparr>) fmt ap
      else if c = ch CHR ''0'' then Flag (fl\<lparr>f_padc := chi CHR ''0''\<rparr>) fmt ap
      else if is_digit c then
        (case width_loop 0 c fmt of (w, fmt') \<Rightarrow> Flag (process_precision (fl\<lparr>f_precision := w\<rparr>)) fmt' ap)
      else if c = ch CHR ''*'' then
        (case va_int ap of
           None \<Rightarrow> Undef
         | Some (w, ap) \<Rightarrow> Flag (process_precision (fl\<lparr>f_precision := sint w\<rparr>)) fmt ap)
      else if c = ch CHR ''.'' then Flag (if f_width fl < 0 then fl\<lparr>f_width := 0\<rparr> else fl) fmt ap
      else if c = ch CHR ''#'' then Flag (fl\<lparr>f_altflag := True\<rparr>) fmt ap
      else if c = ch CHR ''l'' then Flag (fl\<lparr>f_lflag := f_lflag fl + 1\<rparr>) fmt ap
      else NotFlag)"

definition put_number ::
  "'d putch \<Rightarrow> fmt_flags \<Rightarrow> u32 \<Rightarrow> va list \<Rightarrow> 'd \<Rightarrow> ('d \<times> va list) option" where
  "put_number putch fl base ap d =
     do { (num, ap) \<leftarrow> getuint ap (f_lflag fl);
          d \<leftarrow> printnum putch num base (f_width fl) (f_padc fl) d;
          Some (d, ap) }"

text \<open>The error code \<open>INT_MIN\<close> has no negative, and indexes the table out of bounds.\<close>

definition put_error ::
  "(u8 list \<Rightarrow> va list \<Rightarrow> 'd \<Rightarrow> 'd option) \<Rightarrow> u32 \<Rightarrow> 'd \<Rightarrow> 'd option" where
  "put_error nested w d =
     (let err = (if sint w < 0 then - w else w)
      in if sint err < 0 then None
         else if sint err > MAXERROR then nested (str_bytes ''error %d'') [VInt err] d
         else case error_string (sint err) of
           None \<Rightarrow> nested (str_bytes ''error %d'') [VInt err] d
         | Some p \<Rightarrow> nested (str_bytes ''%s'') [VStr (Some (str_bytes p))] d)"

text \<open>
  The characters that end a conversion. \<open>nested\<close> is the recursive call of \<open>printfmt\<close> for \<open>%e\<close>.
  The last component of the result tells an unrecognized character.
\<close>

definition convert ::
  "'d putch \<Rightarrow> (u8 list \<Rightarrow> va list \<Rightarrow> 'd \<Rightarrow> 'd option) \<Rightarrow> fmt_flags \<Rightarrow> u8 \<Rightarrow> va list \<Rightarrow> 'd
    \<Rightarrow> ('d \<times> va list \<times> bool) option" where
  "convert putch nested fl c ap d =
     (if c = ch CHR ''c'' then do { (w, ap) \<leftarrow> va_int ap; Some (putch w d, ap, False) }
      else if c = ch CHR ''e'' then
        do { (w, ap) \<leftarrow> va_int ap; d \<leftarrow> put_error nested w d; Some (d, ap, False) }
      else if c = ch CHR ''s'' then
        do { (p, ap) \<leftarrow> va_str ap; Some (put_string putch fl p d, ap, False) }
      else if c = ch CHR ''d'' then
        do { (num, ap) \<leftarrow> getint ap (f_lflag fl); d \<leftarrow> put_signed putch fl num d; Some (d, ap, False) }
      else if c = ch CHR ''u'' then do { (d, ap) \<leftarrow> put_number putch fl 10 ap d; Some (d, ap, False) }
      else if c = ch CHR ''o'' then do { (d, ap) \<leftarrow> put_number putch fl 8 ap d; Some (d, ap, False) }
      else if c = ch CHR ''p'' then
        do { (w, ap) \<leftarrow> va_int ap;
             d \<leftarrow> printnum putch (ucast w) 16 (f_width fl) (f_padc fl)
                   (putch (chi CHR ''x'') (putch (chi CHR ''0'') d));
             Some (d, ap, False) }
      else if c = ch CHR ''x'' then do { (d, ap) \<leftarrow> put_number putch fl 16 ap d; Some (d, ap, False) }
      else if c = ch CHR ''%'' then Some (putch (chi CHR ''%'') d, ap, False)
      else Some (putch (chi CHR ''%'') d, ap, True))"

lemma width_loop_length: "width_loop w c fmt = (w', fmt') \<Longrightarrow> length fmt' \<le> length fmt"
  by (induction w c fmt rule: width_loop.induct) (auto split: if_splits)

lemma flag_step_length: "flag_step fl c fmt ap = Flag fl' fmt' ap' \<Longrightarrow> length fmt' \<le> length fmt"
  by (auto simp: flag_step_def split: if_splits prod.splits option.splits dest: width_loop_length)

text \<open>
  One conversion: \<open>start\<close> is the format right after the \<open>%\<close>, where an unrecognized sequence
  resumes. The result is the callback's data, the rest of the format and the remaining arguments.
\<close>

function (sequential) reswitch ::
  "'d putch \<Rightarrow> (u8 list \<Rightarrow> va list \<Rightarrow> 'd \<Rightarrow> 'd option) \<Rightarrow> u8 list \<Rightarrow> fmt_flags \<Rightarrow> u8 list \<Rightarrow> va list \<Rightarrow> 'd
    \<Rightarrow> ('d \<times> u8 list \<times> va list) option" where
  "reswitch putch nested start fl [] ap d = Some (putch (chi CHR ''%'') d, start, ap)"
| "reswitch putch nested start fl (c # fmt) ap d =
     (case flag_step fl c fmt ap of
        Flag fl' fmt' ap' \<Rightarrow> reswitch putch nested start fl' fmt' ap' d
      | Undef \<Rightarrow> None
      | NotFlag \<Rightarrow>
          do { (d, ap, unrecognized) \<leftarrow> convert putch nested fl c ap d;
               Some (d, if unrecognized then start else fmt, ap) })"
  by pat_completeness auto

termination reswitch
  by (relation "measure (\<lambda>(_, _, _, _, fmt, _, _). length fmt)")
    (auto simp: less_Suc_eq_le dest: flag_step_length)

lemma reswitch_rest:
  "reswitch putch nested start fl fmt ap d = Some (d', rest, ap') \<Longrightarrow> length fmt \<le> length start \<Longrightarrow>
    length rest \<le> length start"
proof (induction putch nested start fl fmt ap d rule: reswitch.induct)
  case (2 putch nested start fl c fmt ap d)
  show ?case
  proof (cases "flag_step fl c fmt ap")
    case (Flag fl' fmt' ap1)
    with 2 flag_step_length [OF Flag] show ?thesis
      by simp
  qed (use "2.prems" in \<open>auto simp: bind_eq_Some_conv split: if_splits\<close>)
qed auto

text \<open>The outer loop: plain characters are printed, \<open>%\<close> starts a conversion.\<close>

function (sequential) vprintfmt_loop ::
  "'d putch \<Rightarrow> (u8 list \<Rightarrow> va list \<Rightarrow> 'd \<Rightarrow> 'd option) \<Rightarrow> u8 list \<Rightarrow> va list \<Rightarrow> 'd \<Rightarrow> 'd option" where
  "vprintfmt_loop putch nested [] ap d = Some d"
| "vprintfmt_loop putch nested (c # fmt) ap d =
     (if c \<noteq> ch CHR ''%'' then vprintfmt_loop putch nested fmt ap (putch (ucast c) d)
      else case reswitch putch nested fmt fmt_flags_init fmt ap d of
             None \<Rightarrow> None
           | Some (d, rest, ap) \<Rightarrow> vprintfmt_loop putch nested rest ap d)"
  by pat_completeness auto

termination vprintfmt_loop
  by (relation "measure (\<lambda>(_, _, fmt, _, _). length fmt)")
    (auto simp: less_Suc_eq_le dest: reswitch_rest)

text \<open>
  The recursion of \<open>%e\<close> through \<open>printfmt\<close>: its formats contain no \<open>%e\<close>, so two levels are
  enough (\<open>vprintfmt_depth\<close> below).
\<close>

primrec vprintfmt_level :: "nat \<Rightarrow> 'd putch \<Rightarrow> u8 list \<Rightarrow> va list \<Rightarrow> 'd \<Rightarrow> 'd option" where
  "vprintfmt_level 0 putch = (\<lambda>fmt ap d. None)"
| "vprintfmt_level (Suc n) putch = vprintfmt_loop putch (vprintfmt_level n putch)"

definition vprintfmt :: "'d putch \<Rightarrow> u8 list \<Rightarrow> va list \<Rightarrow> 'd \<Rightarrow> 'd option" where
  "vprintfmt = vprintfmt_level 2"

record sprintbuf =
  sb_mem :: mem
  sb_buf :: addr
  sb_ebuf :: addr
  sb_cnt :: nat

definition sprintputch :: "s32 \<Rightarrow> sprintbuf \<Rightarrow> sprintbuf" where
  "sprintputch c b =
     (let b = b\<lparr>sb_cnt := sb_cnt b + 1\<rparr>
      in if sb_buf b < sb_ebuf b
         then b\<lparr>sb_mem := (sb_mem b)(sb_buf b := ucast c), sb_buf := sb_buf b + 1\<rparr>
         else b)"

definition vsnprintf :: "mem \<Rightarrow> addr \<Rightarrow> nat \<Rightarrow> u8 list \<Rightarrow> va list \<Rightarrow> (kerror + mem \<times> nat) option" where
  "vsnprintf m str sz fmt ap =
     (let b = \<lparr>sb_mem = m, sb_buf = str, sb_ebuf = nat ((int str + int sz - 1) mod 2 ^ 32), sb_cnt = 0\<rparr>
      in if str = 0 \<or> sb_buf b > sb_ebuf b then Some (Inl E_INVAL)
         else do { b \<leftarrow> vprintfmt sprintputch fmt ap b; Some (Inr ((sb_mem b)(sb_buf b := 0), sb_cnt b)) })"

text \<open>The characters a format generates, and the digits of a number.\<close>

definition emit :: "s32 \<Rightarrow> s32 list \<Rightarrow> s32 list" where
  "emit c cs = cs @ [c]"

function num_digits :: "nat \<Rightarrow> nat \<Rightarrow> nat list" where
  "num_digits b n = (if n < b \<or> b < 2 then [n] else num_digits b (n div b) @ [n mod b])"
  by pat_completeness auto

termination num_digits
  by (relation "measure snd") auto

text \<open>The bases of the conversions, with the range in which \<open>do_div\<close> is exact.\<close>

definition num_ok :: "u32 \<Rightarrow> u64 \<Rightarrow> bool" where
  "num_ok base num \<longleftrightarrow> base = 8 \<or> base = 16 \<or> base = 10 \<and> unat num < 2 ^ 32"

definition digit_chars :: "nat list \<Rightarrow> s32 list" where
  "digit_chars ds = map (\<lambda>k. chi (''0123456789abcdef'' ! k)) ds"

definition digit_bytes :: "nat list \<Rightarrow> u8 list" where
  "digit_bytes ds = map ucast (digit_chars ds)"

section \<open>Numbers\<close>

declare num_digits.simps [simp del]

lemma num_digits_nonempty [simp]: "num_digits b n \<noteq> []"
  by (subst num_digits.simps) simp

lemma num_digits_less: "2 \<le> b \<Longrightarrow> k \<in> set (num_digits b n) \<Longrightarrow> k < b"
proof (induction b n rule: num_digits.induct)
  case (1 b n)
  from "1.prems"(2) have "k \<in> set (if n < b \<or> b < 2 then [n] else num_digits b (n div b) @ [n mod b])"
    by (simp only: num_digits.simps [of b n])
  with 1 show ?case
    by (auto split: if_splits)
qed

lemma num_digits_val: "2 \<le> b \<Longrightarrow> digits_val (int b) (map int (num_digits b n)) = int n"
proof (induction b n rule: num_digits.induct)
  case (1 b n)
  show ?case
  proof (cases "n < b")
    case True
    then show ?thesis
      by (subst num_digits.simps) (simp add: digits_val_def)
  next
    case False
    with 1 have "digits_val (int b) (map int (num_digits b (n div b))) = int (n div b)"
      by simp
    with False 1(2) show ?thesis
      by (subst num_digits.simps) (simp flip: of_nat_mult of_nat_add)
  qed
qed

lemma putn_fold: "putn putch c w d = fold putch (replicate (nat w) c) d"
  by (simp add: putn_def fold_replicate)

lemma do_div_ok:
  assumes "num_ok base num"
  obtains md result where "do_div num base = (md, result)" "unat md = unat num mod unat base"
    "unat result = unat num div unat base" "num_ok base result"
proof -
  obtain md result where e: "do_div num base = (md, result)"
    by (cases "do_div num base")
  have "unat md = unat num mod unat base" "unat result = unat num div unat base"
    using do_div_8_10_16 [of base num] assms by (auto simp: e num_ok_def)
  moreover from this have "num_ok base result"
    using assms by (auto simp: num_ok_def intro: le_less_trans [OF div_le_dividend])
  ultimately show thesis
    using e that by blast
qed

lemma num_ok_base: "num_ok base num \<Longrightarrow> 8 \<le> unat base \<and> unat base \<le> 16"
  by (auto simp: num_ok_def)

lemma printnum_ok:
  "num_ok base num \<Longrightarrow> printnum putch num base width padc d =
     Some (fold putch (replicate (nat (width - int (length (num_digits (unat base) (unat num))))) padc @
       digit_chars (num_digits (unat base) (unat num))) d)"
proof (induction "unat num" arbitrary: num width d rule: less_induct)
  case less
  obtain md result where e: "do_div num base = (md, result)" "unat md = unat num mod unat base"
    "unat result = unat num div unat base" "num_ok base result"
    using do_div_ok [OF less.prems] .
  note b = num_ok_base [OF less.prems]
  have md_ok: "digit_char md = Some (chi (''0123456789abcdef'' ! (unat num mod unat base)))"
  proof -
    have "unat num mod unat base < unat base"
      using b by (intro mod_less_divisor) simp
    with b have "unat md < 16"
      unfolding e(2) by linarith
    then show ?thesis
      by (simp only: digit_char_def if_True e(2))
  qed
  have cmp: "num \<ge> ucast base \<longleftrightarrow> \<not> unat num < unat base"
    by (simp add: word_le_nat_alt unat_ucast_up not_less)
  show ?case
  proof (cases "unat num < unat base")
    case True
    then have "num_digits (unat base) (unat num) = [unat num]"
      by (subst num_digits.simps) simp
    with True show ?thesis
      by (simp add: printnum.simps [of putch num] e(1) cmp md_ok putn_fold digit_chars_def)
  next
    case False
    have nd: "num_digits (unat base) (unat num) =
        num_digits (unat base) (unat result) @ [unat num mod unat base]"
      using False b by (subst num_digits.simps) (simp add: e(3))
    have "0 < unat num"
      using False b by linarith
    then have "unat result < unat num"
      using b by (simp add: e(3))
    from less.hyps [OF this e(4), of "width - 1" d] False show ?thesis
      by (simp add: printnum.simps [of putch num] e(1) cmp md_ok nd digit_chars_def algebra_simps)
  qed
qed

section \<open>The callback\<close>

text \<open>
  Formatting does not depend on the callback: when \<open>h\<close> turns the data of one callback into the
  data of another, it turns one run into the other.
\<close>

lemma printnum_unfold:
  "printnum putch num base width padc d =
     (case do_div num base of (md, result) \<Rightarrow>
        Option.bind (if num \<ge> ucast base then printnum putch result base (width - 1) padc d
          else Some (putn putch padc (width - 1) d))
        (\<lambda>d. Option.bind (digit_char md) (\<lambda>c. Some (putch c d))))"
  by (subst printnum.simps) (simp add: Let_def)

lemma do_div_10_result: "num_ok 10 (snd (do_div num 10))"
proof -
  obtain q :: u32 where "snd (do_div num 10) = ucast q"
    by (simp add: do_div_def Let_def)
  then show ?thesis
    using unsigned_less [of q] by (simp add: num_ok_def unat_ucast_up)
qed

locale putch_hom =
  fixes p :: "'a putch" and q :: "'b putch" and h :: "'a \<Rightarrow> 'b"
  assumes hom: "h (p c x) = q c (h x)"
begin

lemma hom_fold: "fold q cs (h x) = h (fold p cs x)"
  by (induction cs arbitrary: x) (simp_all flip: hom)

lemma hom_putn: "putn q c w (h x) = h (putn p c w x)"
  by (simp only: putn_fold hom_fold)

lemma hom_printnum:
  assumes "base = 8 \<or> base = 10 \<or> base = 16"
  shows "printnum q num base width padc (h x) = map_option h (printnum p num base width padc x)"
proof (cases "num_ok base num")
  case True
  then show ?thesis
    by (simp only: printnum_ok hom_fold option.map)
next
  case False
  with assms have b: "base = 10" "\<not> unat num < 2 ^ 32"
    by (auto simp: num_ok_def)
  obtain md result where e: "do_div num 10 = (md, result)"
    by (cases "do_div num 10")
  have IH: "printnum q result 10 (width - 1) padc (h x) =
      map_option h (printnum p result 10 (width - 1) padc x)"
    using do_div_10_result [of num] by (simp only: e snd_conv printnum_ok hom_fold option.map)
  show ?thesis
    unfolding b(1) printnum_unfold [of _ num] e prod.case
    by (cases "printnum p result 10 (width - 1) padc x"; cases "digit_char md")
      (simp_all add: IH hom_putn hom)
qed

lemma hom_str_loop:
  "str_loop q alt cs prec width (h x) = map_prod id h (str_loop p alt cs prec width x)"
  by (induction cs arbitrary: prec width x) (simp_all add: Let_def flip: hom)

lemma hom_put_string: "put_string q fl s (h x) = h (put_string p fl s x)"
proof -
  have *: "(case map_prod id h r of (width, d) \<Rightarrow> putn q c width d) = h (case r of (width, d) \<Rightarrow> putn p c width d)"
    for r c
    by (cases r) (simp add: hom_putn)
  show ?thesis
    unfolding put_string_def Let_def by (simp add: hom_putn hom_str_loop * split: if_split)
qed

lemma hom_put_signed: "put_signed q fl num (h x) = map_option h (put_signed p fl num x)"
  by (simp add: put_signed_def hom_printnum flip: hom)

lemma hom_put_number:
  "base = 8 \<or> base = 10 \<or> base = 16 \<Longrightarrow>
    put_number q fl base ap (h x) = map_option (map_prod h id) (put_number p fl base ap x)"
  by (auto simp: put_number_def hom_printnum map_option_case split: option.splits bind_splits)

lemma hom_convert:
  assumes "\<And>fmt ap x. nq fmt ap (h x) = map_option h (np fmt ap x)"
  shows "convert q nq fl c ap (h x) = map_option (map_prod h id) (convert p np fl c ap x)"
proof -
  have e: "put_error nq w (h x) = map_option h (put_error np w x)" for w
    by (simp add: put_error_def Let_def assms split: option.split)
  show ?thesis
    unfolding convert_def
    by (simp add: e hom_put_string hom_put_signed hom_put_number hom_printnum bind_map_option map_option_bind
        case_prod_unfold comp_def flip: hom)
qed

lemma hom_reswitch:
  assumes "\<And>fmt ap x. nq fmt ap (h x) = map_option h (np fmt ap x)"
  shows "reswitch q nq start fl fmt ap (h x) = map_option (map_prod h id) (reswitch p np start fl fmt ap x)"
proof (induction "length fmt" arbitrary: fl fmt ap rule: less_induct)
  case less
  show ?case
  proof (cases fmt)
    case (Cons c fmt1)
    show ?thesis
    proof (cases "flag_step fl c fmt1 ap")
      case (Flag fl' fmt' ap')
      with less Cons flag_step_length [OF Flag] show ?thesis
        by simp
    qed (simp_all add: Cons hom_convert [of nq np, OF assms] bind_map_option map_option_bind case_prod_unfold comp_def)
  qed (simp add: hom)
qed

lemma hom_vprintfmt_loop:
  assumes "\<And>fmt ap x. nq fmt ap (h x) = map_option h (np fmt ap x)"
  shows "vprintfmt_loop q nq fmt ap (h x) = map_option h (vprintfmt_loop p np fmt ap x)"
proof (induction "length fmt" arbitrary: fmt ap x rule: less_induct)
  case less
  show ?case
  proof (cases fmt)
    case (Cons c fmt1)
    show ?thesis
    proof (cases "c = ch CHR ''%''")
      case True
      show ?thesis
      proof (cases "reswitch p np fmt1 fmt_flags_init fmt1 ap x")
        case (Some r)
        obtain d rest ap' where r: "r = (d, rest, ap')"
          by (cases r)
        with Some have "length rest < length fmt"
          using reswitch_rest [of p np fmt1] by (fastforce simp: Cons)
        from less [OF this] True Some show ?thesis
          by (simp add: Cons r hom_reswitch [of nq np, OF assms])
      qed (use True in \<open>simp add: Cons hom_reswitch [of nq np, OF assms]\<close>)
    next
      case False
      with less [of fmt1] show ?thesis
        by (simp add: Cons flip: hom)
    qed
  qed simp
qed

lemma hom_vprintfmt: "vprintfmt q fmt ap (h x) = map_option h (vprintfmt p fmt ap x)"
proof -
  have "vprintfmt_level n q fmt ap (h x) = map_option h (vprintfmt_level n p fmt ap x)" for n fmt ap x
    by (induction n arbitrary: fmt ap x) (simp_all add: hom_vprintfmt_loop)
  then show ?thesis
    by (simp add: vprintfmt_def)
qed

end

interpretation emit_hom: putch_hom emit putch "\<lambda>cs. fold putch cs d" for putch d
  by unfold_locales (simp add: emit_def)

text \<open>A format's effect is that of its characters, put one after the other.\<close>

lemma vprintfmt_emit:
  "vprintfmt putch fmt ap d = map_option (\<lambda>cs. fold putch cs d) (vprintfmt emit fmt ap [])"
  using emit_hom.hom_vprintfmt [where putch = putch and d = d and x = "[]"] by simp

text \<open>Two levels of \<open>printfmt\<close> are enough: a deeper recursion changes nothing.\<close>

lemma reswitch_nested_cong:
  assumes "\<And>w x. put_error n1 w x = put_error n2 w x"
  shows "reswitch putch n1 start fl fmt ap d = reswitch putch n2 start fl fmt ap d"
proof (induction "length fmt" arbitrary: fl fmt ap rule: less_induct)
  case less
  have c: "convert putch n1 fl c ap d = convert putch n2 fl c ap d" for fl c ap
    unfolding convert_def assms ..
  show ?case
  proof (cases fmt)
    case (Cons c fmt1)
    then show ?thesis
      using less [of "_ :: u8 list"] flag_step_length [of fl c fmt1 ap]
      by (cases "flag_step fl c fmt1 ap") (auto simp: c less_Suc_eq_le)
  qed simp
qed

lemma vprintfmt_loop_nested_cong:
  assumes "\<And>w x. put_error n1 w x = put_error n2 w x"
  shows "vprintfmt_loop putch n1 fmt ap d = vprintfmt_loop putch n2 fmt ap d"
proof (induction "length fmt" arbitrary: fmt ap d rule: less_induct)
  case less
  show ?case
  proof (cases fmt)
    case (Cons c fmt1)
    then show ?thesis
      using less [of "_ :: u8 list"] reswitch_rest [of putch n2 fmt1 fmt_flags_init fmt1 ap d]
      by (auto simp: reswitch_nested_cong [OF assms] less_Suc_eq_le split: option.split)
  qed simp
qed

lemma vprintfmt_flat:
  "vprintfmt_loop putch n1 (str_bytes ''error %d'') ap d = vprintfmt_loop putch n2 (str_bytes ''error %d'') ap d"
  "vprintfmt_loop putch n1 (str_bytes ''%s'') ap d = vprintfmt_loop putch n2 (str_bytes ''%s'') ap d"
  by (simp_all add: str_bytes_def flag_step_def is_digit_def convert_def)
    (auto simp: bind_eq_Some_conv split: option.split)

lemma vprintfmt_depth: "2 \<le> n \<Longrightarrow> vprintfmt_level n putch fmt ap d = vprintfmt putch fmt ap d"
proof -
  assume "2 \<le> n"
  then obtain k where k: "n = Suc (Suc k)"
    by (metis add_2_eq_Suc le_Suc_ex)
  have "vprintfmt_level (Suc k) putch (str_bytes ''error %d'') = vprintfmt_level 1 putch (str_bytes ''error %d'')"
    "vprintfmt_level (Suc k) putch (str_bytes ''%s'') = vprintfmt_level 1 putch (str_bytes ''%s'')"
    by (simp_all add: fun_eq_iff vprintfmt_flat [of putch "vprintfmt_level k putch" _ _ "\<lambda>_ _ _. None"])
  then have "put_error (vprintfmt_level (Suc k) putch) w x = put_error (vprintfmt_level 1 putch) w x" for w x
    by (simp only: put_error_def)
  from vprintfmt_loop_nested_cong [of "vprintfmt_level (Suc k) putch", OF this] show ?thesis
    by (simp add: k vprintfmt_def numeral_2_eq_2)
qed

lemma vprintfmt_unfold: "vprintfmt putch = vprintfmt_loop putch (vprintfmt_level 1 putch)"
  by (simp add: vprintfmt_def numeral_2_eq_2)

section \<open>Printing into a buffer\<close>

lemma fold_sprintputch:
  "sb_buf b \<le> sb_ebuf b \<Longrightarrow> fold sprintputch cs b =
     b\<lparr>sb_mem := (\<lambda>k. if sb_buf b \<le> k \<and> k < sb_buf b + min (length cs) (sb_ebuf b - sb_buf b)
                      then ucast (cs ! (k - sb_buf b)) else sb_mem b k),
       sb_buf := sb_buf b + min (length cs) (sb_ebuf b - sb_buf b),
       sb_cnt := sb_cnt b + length cs\<rparr>"
proof (induction cs arbitrary: b)
  case (Cons c cs)
  have "sb_buf (sprintputch c b) \<le> sb_ebuf (sprintputch c b)"
    using Cons.prems by (simp add: sprintputch_def Let_def)
  from Cons.IH [OF this] Cons.prems show ?case
    by (auto simp: sprintputch_def Let_def fun_eq_iff nth_Cons' intro!: sprintbuf.equality)
qed (auto simp: fun_eq_iff intro!: sprintbuf.equality)

lemma vsnprintf_refused:
  "vsnprintf m 0 sz fmt ap = Some (Inl E_INVAL)" "vsnprintf m str 0 fmt ap = Some (Inl E_INVAL)"
  "str < 2 ^ 32 \<and> sz < 2 ^ 32 \<and> 2 ^ 32 < str + sz \<longrightarrow> vsnprintf m str sz fmt ap = Some (Inl E_INVAL)"
proof -
  show "vsnprintf m 0 sz fmt ap = Some (Inl E_INVAL)"
    by (simp add: vsnprintf_def)
  show "vsnprintf m str 0 fmt ap = Some (Inl E_INVAL)"
  proof (cases "str = 0")
    case False
    then have "nat ((int str - 1) mod 2 ^ 32) < str"
      using zmod_le_nonneg_dividend [of "int str - 1" "2 ^ 32"] by simp
    then show ?thesis
      by (simp add: vsnprintf_def)
  qed (simp add: vsnprintf_def)
  have "vsnprintf m str sz fmt ap = Some (Inl E_INVAL)" if w: "str < 2 ^ 32" "sz < 2 ^ 32" "2 ^ 32 < str + sz"
  proof -
    have "(int str + int sz - 1) mod 2 ^ 32 = (int str + int sz - 1 - 2 ^ 32) mod 2 ^ 32"
      by (rule minus_mod_self2 [symmetric])
    also have "\<dots> = int str + int sz - 1 - 2 ^ 32"
      using w by (intro mod_pos_pos_trivial) auto
    finally have "nat ((int str + int sz - 1) mod 2 ^ 32) < str"
      using w by simp
    then show ?thesis
      by (simp add: vsnprintf_def)
  qed
  then show "str < 2 ^ 32 \<and> sz < 2 ^ 32 \<and> 2 ^ 32 < str + sz \<longrightarrow> vsnprintf m str sz fmt ap = Some (Inl E_INVAL)"
    by blast
qed

lemma vsnprintf_fits:
  assumes that: "0 < str" "0 < sz" "str + sz \<le> 2 ^ 32"
  shows "case vprintfmt emit fmt ap [] of
        None \<Rightarrow> vsnprintf m str sz fmt ap = None
      | Some cs \<Rightarrow> \<exists>m'. vsnprintf m str sz fmt ap = Some (Inr (m', length cs)) \<and>
          bytes m' str (min (length cs) (sz - 1)) = map ucast (take (sz - 1) cs) \<and>
          m' (str + min (length cs) (sz - 1)) = 0 \<and>
          (\<forall>a. a < str \<or> str + sz \<le> a \<longrightarrow> m' a = m a)"
proof -
  have ebuf: "nat ((int str + int sz - 1) mod 2 ^ 32) = str + sz - 1"
    using that by (subst mod_pos_pos_trivial) auto
  show ?thesis
  proof (cases "vprintfmt emit fmt ap []")
    case None
    with that show ?thesis
      unfolding vsnprintf_def ebuf by (simp add: vprintfmt_emit [of sprintputch])
  next
    case (Some cs)
    define k where "k = min (length cs) (sz - 1)"
    define m1 where "m1 = (\<lambda>a. if str \<le> a \<and> a < str + k then ucast (cs ! (a - str)) else m a)"
    define m' where "m' = m1(str + k := 0)"
    have 1: "vsnprintf m str sz fmt ap = Some (Inr (m', length cs))"
      using that Some unfolding vsnprintf_def ebuf
      by (auto simp: vprintfmt_emit [of sprintputch] fold_sprintputch k_def m1_def m'_def)
    have 2: "bytes m' str k = map ucast (take (sz - 1) cs)"
      by (rule nth_equalityI) (auto simp: bytes_def m'_def m1_def k_def)
    have 3: "m' (str + k) = 0" "\<forall>a. a < str \<or> str + sz \<le> a \<longrightarrow> m' a = m a"
      using that by (auto simp: m'_def m1_def k_def)
    show ?thesis
      unfolding Some option.case k_def [symmetric] by (intro exI [of _ m'] conjI 1 2 3)
  qed
qed

lemma vsnprintf_ok:
  "vsnprintf m 0 sz fmt ap = Some (Inl E_INVAL) \<and> vsnprintf m str 0 fmt ap = Some (Inl E_INVAL) \<and>
   (str < 2 ^ 32 \<and> sz < 2 ^ 32 \<and> 2 ^ 32 < str + sz \<longrightarrow> vsnprintf m str sz fmt ap = Some (Inl E_INVAL)) \<and>
   (0 < str \<and> 0 < sz \<and> str + sz \<le> 2 ^ 32 \<longrightarrow>
     (case vprintfmt emit fmt ap [] of
        None \<Rightarrow> vsnprintf m str sz fmt ap = None
      | Some cs \<Rightarrow> \<exists>m'. vsnprintf m str sz fmt ap = Some (Inr (m', length cs)) \<and>
          bytes m' str (min (length cs) (sz - 1)) = map ucast (take (sz - 1) cs) \<and>
          m' (str + min (length cs) (sz - 1)) = 0 \<and>
          (\<forall>a. a < str \<or> str + sz \<le> a \<longrightarrow> m' a = m a)))"
  by (intro conjI vsnprintf_refused impI vsnprintf_fits) simp_all

text \<open>
  C30. \<open>vsnprintf\<close> implements the unbounded formatter within a buffer of the 32-bit address space: when the
  format generates the characters \<open>cs\<close> (fewer than \<open>2 ^ 31\<close>, what the counter of type \<open>int\<close>
  holds) it returns their number, the buffer holds the longest prefix that fits with a terminating zero, and no byte outside
  the buffer changes; it fails when the format does. A null or empty buffer is refused, and so is a size for which
  the address of the last byte wraps around.
\<close>

theorem vsnprintf_correct:
  "vsnprintf m 0 sz fmt ap = Some (Inl E_INVAL) \<and> vsnprintf m str 0 fmt ap = Some (Inl E_INVAL) \<and>
   (str < 2 ^ 32 \<and> sz < 2 ^ 32 \<and> 2 ^ 32 < str + sz \<longrightarrow> vsnprintf m str sz fmt ap = Some (Inl E_INVAL)) \<and>
   (0 < str \<and> 0 < sz \<and> str + sz \<le> 2 ^ 32 \<longrightarrow>
     (case vprintfmt emit fmt ap [] of
        None \<Rightarrow> vsnprintf m str sz fmt ap = None
      | Some cs \<Rightarrow> length cs < 2 ^ 31 \<longrightarrow> (\<exists>m'. vsnprintf m str sz fmt ap = Some (Inr (m', length cs)) \<and>
          bytes m' str (min (length cs) (sz - 1)) = map ucast (take (sz - 1) cs) \<and>
          m' (str + min (length cs) (sz - 1)) = 0 \<and>
          (\<forall>a. a < str \<or> str + sz \<le> a \<longrightarrow> m' a = m a))))"
  using vsnprintf_ok [of m sz fmt ap str] by (auto split: option.split)

theorem vsnprintf_correct_witness:
  "\<exists>m'. vsnprintf (\<lambda>_. 7) 100 3 (str_bytes ''a%%bc'') [] = Some (Inr (m', 4)) \<and>
     bytes m' 100 2 = str_bytes ''a%'' \<and> m' 102 = 0 \<and> m' 103 = 7"
proof -
  have "vprintfmt emit (str_bytes ''a%%bc'') [] [] = Some (map chi ''a%bc'')"
    by (simp add: vprintfmt_unfold str_bytes_def flag_step_def is_digit_def convert_def emit_def)
  moreover have n: "Suc (Suc (Suc (Suc 0))) = 4" "Suc (Suc 0) = 2"
    by simp_all
  moreover note vsnprintf_correct [of "\<lambda>_. 7" 3 "str_bytes ''a%%bc''" "[]" 100]
  ultimately obtain m' where "vsnprintf (\<lambda>_. 7) 100 3 (str_bytes ''a%%bc'') [] = Some (Inr (m', 4))"
    "bytes m' 100 2 = str_bytes ''a%''" "m' 102 = 0" "\<forall>a. a < 100 \<or> 103 \<le> a \<longrightarrow> m' a = 7"
    by (simp add: str_bytes_def n) blast
  then show ?thesis
    by auto
qed

section \<open>Printing and reading back\<close>

lemma num_digits_length: "2 \<le> b \<Longrightarrow> n < b ^ Suc k \<Longrightarrow> length (num_digits b n) \<le> Suc k"
proof (induction k arbitrary: n)
  case 0
  then show ?case
    by (subst num_digits.simps) simp
next
  case (Suc k)
  then have "n div b < b ^ Suc k"
    by (intro less_mult_imp_div_less) (simp add: mult.commute)
  with Suc show ?case
    by (subst num_digits.simps) simp
qed

text \<open>What \<open>printnum\<close> writes for a digit is what \<open>strtol\<close> reads.\<close>

lemma digit_of_digit_char:
  assumes "k < 16"
  shows "digit_of (ucast (chi (''0123456789abcdef'' ! k))) = Some (int k)"
    and "ucast (chi (''0123456789abcdef'' ! k)) \<noteq> (0 :: u8)"
    and "ucast (chi (''0123456789abcdef'' ! k)) \<notin> {ch CHR '' '', ch CHR 0x09, ch CHR ''+'', ch CHR ''-'', ch CHR ''x''}"
proof -
  have "\<forall>k \<in> set [0..<16]. digit_of (ucast (chi (''0123456789abcdef'' ! k))) = Some (int k) \<and>
    ucast (chi (''0123456789abcdef'' ! k)) \<noteq> (0 :: u8) \<and>
    ucast (chi (''0123456789abcdef'' ! k)) \<notin> {ch CHR '' '', ch CHR 0x09, ch CHR ''+'', ch CHR ''-'', ch CHR ''x''}"
    by (simp add: upt_rec digit_of_def)
  then have "digit_of (ucast (chi (''0123456789abcdef'' ! k))) = Some (int k) \<and>
    ucast (chi (''0123456789abcdef'' ! k)) \<noteq> (0 :: u8) \<and>
    ucast (chi (''0123456789abcdef'' ! k)) \<notin> {ch CHR '' '', ch CHR 0x09, ch CHR ''+'', ch CHR ''-'', ch CHR ''x''}"
    using assms by (elim ballE) auto
  then show "digit_of (ucast (chi (''0123456789abcdef'' ! k))) = Some (int k)"
    and "ucast (chi (''0123456789abcdef'' ! k)) \<noteq> (0 :: u8)"
    and "ucast (chi (''0123456789abcdef'' ! k)) \<notin> {ch CHR '' '', ch CHR 0x09, ch CHR ''+'', ch CHR ''-'', ch CHR ''x''}"
    by blast+
qed

text \<open>\<open>strtol\<close> on an optional sign and the digits of a number.\<close>

lemma strtol_digits_bytes:
  assumes c: "cstr m p (digit_bytes (num_digits b n))" and b: "2 \<le> b" "b \<le> 16"
  shows "strtol_prefix m p (int b) = (p, int b)"
    and "strtol_digits m p (int b) 0 = Some (word_of_int (int n), p + length (num_digits b n))"
    and "m p \<notin> {ch CHR '' '', ch CHR 0x09, ch CHR ''+'', ch CHR ''-''}"
proof -
  have lt: "k < 16" if "k \<in> set (num_digits b n)" for k
    using num_digits_less [OF b(1) that] b(2) by linarith
  obtain k ks where ks: "num_digits b n = k # ks"
    by (cases "num_digits b n") auto
  have hd: "m p = ucast (chi (''0123456789abcdef'' ! k))"
    using c by (simp add: ks digit_bytes_def digit_chars_def)
  then show "m p \<notin> {ch CHR '' '', ch CHR 0x09, ch CHR ''+'', ch CHR ''-''}"
    using digit_of_digit_char(3) [OF lt, of k] by (auto simp: ks)
  have "m (p + 1) \<noteq> ch CHR ''x''"
  proof (cases ks)
    case Nil
    with c show ?thesis
      by (simp add: ks digit_bytes_def digit_chars_def)
  next
    case (Cons k' ks')
    then have "m (p + 1) = ucast (chi (''0123456789abcdef'' ! k'))"
      using c by (simp add: ks digit_bytes_def digit_chars_def)
    then show ?thesis
      using digit_of_digit_char(3) [OF lt, of k'] by (auto simp: ks Cons)
  qed
  then show "strtol_prefix m p (int b) = (p, int b)"
    using b by (auto simp: strtol_prefix_def)
  have "map digit_of (digit_bytes (num_digits b n)) = map Some (map int (num_digits b n))"
    using lt by (auto simp: digit_bytes_def digit_chars_def digit_of_digit_char)
  from strtol_digits_ok [OF _ this, of m p "[]" "int b" 0] c b(1)
  show "strtol_digits m p (int b) 0 = Some (word_of_int (int n), p + length (num_digits b n))"
    using num_digits_val [OF b(1), of n]
    by (auto simp: digits_val_def digit_bytes_def digit_chars_def dest: num_digits_less)
qed

lemma sprint_cstr:
  assumes "0 < str" "length cs < sz" "str + sz \<le> 2 ^ 32" "vprintfmt emit fmt ap [] = Some cs" "0 \<notin> set (map ucast cs :: u8 list)"
  shows "\<exists>m'. vsnprintf m str sz fmt ap = Some (Inr (m', length cs)) \<and> cstr m' str (map ucast cs)"
proof -
  obtain m' where v: "vsnprintf m str sz fmt ap = Some (Inr (m', length cs))"
    and b: "bytes m' str (length cs) = map ucast cs" and z: "m' (str + length cs) = 0"
    using vsnprintf_ok [of m sz fmt ap str] assms by (auto simp: min_absorb1)
  have "m' (str + i) = map ucast cs ! i" if "i < length cs" for i
    using arg_cong [OF b, of "\<lambda>xs. xs ! i"] that by (simp add: bytes_def)
  then have "cstr m' str (map ucast cs @ [])"
    using assms(5) z by (intro cstr_append_intro) simp_all
  with v show ?thesis
    by auto
qed

lemma fold_emit: "fold emit cs xs = xs @ cs"
  by (induction cs arbitrary: xs) (simp_all add: emit_def)

lemma emit_number:
  assumes "num_ok base num"
  shows "printnum emit num base (- 1) padc xs = Some (xs @ digit_chars (num_digits (unat base) (unat num)))"
  by (simp add: printnum_ok [OF assms] fold_emit)

lemmas fmt_eval = vprintfmt_unfold str_bytes_def flag_step_def is_digit_def convert_def put_number_def
  put_signed_def getuint_def getint_def fmt_flags_init_def

lemma unat_ucast64: "unat (ucast (w :: u32) :: u64) = unat w"
  by (rule unat_ucast_up)

lemma emit_unsigned:
  "vprintfmt emit (str_bytes ''%x'') [VInt w] [] = Some (digit_chars (num_digits 16 (unat w)))"
  "vprintfmt emit (str_bytes ''%o'') [VInt w] [] = Some (digit_chars (num_digits 8 (unat w)))"
  by (simp_all add: fmt_eval emit_number num_ok_def unat_ucast64)

lemma emit_signed:
  "vprintfmt emit (str_bytes ''%d'') [VInt w] [] =
     Some ((if sint w < 0 then [chi CHR ''-''] else []) @ digit_chars (num_digits 10 (nat \<bar>sint w\<bar>)))"
proof -
  define num where "num = (scast w :: u64)"
  have r: "- 2147483648 \<le> sint w" "sint w < 2147483648"
    using sint_ge [of w] sint_lt [of w] by simp_all
  have num: "num = word_of_int (sint w)"
    by (simp add: num_def)
  have s: "sint num = sint w"
    unfolding num sint_sbintrunc' using r by (intro signed_take_bit_int_eq_self) simp_all
  have u: "unat (if sint w < 0 then - num else num) = nat \<bar>sint w\<bar>"
  proof -
    have "(if sint w < 0 then - num else num) = word_of_int \<bar>sint w\<bar>"
      by (simp add: num)
    moreover have "take_bit 64 \<bar>sint w\<bar> = \<bar>sint w\<bar>"
      using r by (intro take_bit_int_eq_self) auto
    then have "uint (word_of_int \<bar>sint w\<bar> :: u64) = \<bar>sint w\<bar>"
      by (simp only: unsigned_of_int) simp
    ultimately show ?thesis
      by (simp only: unat_eq_nat_uint)
  qed
  have ok: "num_ok 10 (if sint w < 0 then - num else num)"
    using r by (simp only: num_ok_def u) auto
  show ?thesis
    using emit_number [OF ok, unfolded u] s
    by (auto simp: fmt_eval num_def [symmetric] emit_def)
qed

lemma digit_bytes_nonzero: "2 \<le> b \<Longrightarrow> b \<le> 16 \<Longrightarrow> 0 \<notin> set (digit_bytes (num_digits b n))"
  using digit_of_digit_char(2) num_digits_less by (force simp: digit_bytes_def digit_chars_def)

lemma strtol_unsigned:
  assumes "cstr m p (digit_bytes (num_digits b n))" "2 \<le> b" "b \<le> 16"
  shows "strtol m p (int b) = Some (word_of_int (int n), p + length (num_digits b n))"
  using strtol_digits_bytes [OF assms]
  by (simp add: strtol_def skip_blanks.simps [of m p] strtol_sign_def)

lemma strtol_negative:
  assumes "cstr m p (ch CHR ''-'' # digit_bytes (num_digits b n))" "2 \<le> b" "b \<le> 16"
  shows "strtol m p (int b) = Some (- word_of_int (int n), p + 1 + length (num_digits b n))"
proof -
  have "cstr m (p + 1) (digit_bytes (num_digits b n))" "m p = ch CHR ''-''"
    using assms(1) by simp_all
  with strtol_digits_bytes [OF this(1) assms(2,3)] show ?thesis
    by (simp add: strtol_def skip_blanks.simps [of m p] strtol_sign_def)
qed

lemma print_read:
  assumes "0 < str" "2 \<le> b" "b \<le> 16" "length (num_digits b n) + 1 < sz" "str + sz \<le> 2 ^ 32"
    and e: "vprintfmt emit fmt ap [] = Some ((if neg then [chi CHR ''-''] else []) @ digit_chars (num_digits b n))"
  shows "\<exists>m' k. vsnprintf m str sz fmt ap = Some (Inr (m', k)) \<and>
    strtol m' str (int b) = Some (if neg then - word_of_int (int n) else word_of_int (int n), str + k)"
proof -
  define cs where "cs = (if neg then [chi CHR ''-''] else []) @ digit_chars (num_digits b n)"
  have b: "map ucast cs = (if neg then [ch CHR ''-''] else []) @ digit_bytes (num_digits b n)"
    by (simp add: cs_def digit_bytes_def)
  have "length cs < sz" "0 \<notin> set (map ucast cs :: u8 list)"
    using assms(4) digit_bytes_nonzero [OF assms(2,3), of n] unfolding b
    by (auto simp: cs_def digit_chars_def)
  from sprint_cstr [OF assms(1) this(1) assms(5) e [folded cs_def] this(2), of m]
  obtain m' where m': "vsnprintf m str sz fmt ap = Some (Inr (m', length cs))" "cstr m' str (map ucast cs)"
    by blast
  have "strtol m' str (int b) = Some (if neg then - word_of_int (int n) else word_of_int (int n), str + length cs)"
    using m'(2) strtol_unsigned [of m' str b n] strtol_negative [of m' str b n] assms(2,3)
    unfolding b by (auto simp: cs_def digit_chars_def)
  with m'(1) show ?thesis
    by blast
qed

text \<open>
  C38. Printing and parsing are inverse: a 32-bit number formatted with \<open>%d\<close>, \<open>%x\<close> or \<open>%o\<close>
  into a buffer of at least thirteen bytes that lies in the address space is read back by \<open>strtol\<close> in the base of the
  conversion, to the last character.
\<close>

theorem print_read_roundtrip:
  assumes "0 < str" and "13 \<le> sz" and "str + sz \<le> 2 ^ 32"
    and "(c, base) \<in> {(''%d'', 10), (''%x'', 16), (''%o'', 8)}"
  shows "\<exists>m' n. vsnprintf m str sz (str_bytes c) [VInt w] = Some (Inr (m', n)) \<and>
    strtol m' str base = Some (w, str + n)"
proof -
  have w: "unat w < 2 ^ 32" "nat \<bar>sint w\<bar> < 2 ^ 32"
    using unsigned_less [of w] sint_ge [of w] sint_lt [of w] by auto
  have len: "length (num_digits b n) + 1 < sz" if "8 \<le> b" "n < 2 ^ 32" for b n
  proof -
    have "(8 :: nat) ^ 11 \<le> b ^ 11"
      using that(1) by (rule power_mono) simp
    then have "n < b ^ Suc 10"
      using that(2) by simp
    with num_digits_length [of b n 10] that(1) assms(2) show ?thesis
      by simp
  qed
  have u: "word_of_int (int (unat w)) = w"
    by simp
  have s: "(if sint w < 0 then - word_of_int (int (nat \<bar>sint w\<bar>)) else word_of_int (int (nat \<bar>sint w\<bar>))) = w"
    by simp
  from assms(4) consider "c = ''%d''" "base = int 10" | "c = ''%x''" "base = int 16" | "c = ''%o''" "base = int 8"
    by auto
  then show ?thesis
  proof cases
    case 1
    show ?thesis
      using print_read [OF assms(1) _ _ len [OF _ w(2)] assms(3) emit_signed, where m = m] unfolding 1 s by simp
  next
    case 2
    show ?thesis
      using print_read [OF assms(1) _ _ len [OF _ w(1)] assms(3), where m = m and neg = False and b = 16
          and fmt = "str_bytes ''%x''" and ap = "[VInt w]"] emit_unsigned(1) [of w]
      unfolding 2 u by simp
  next
    case 3
    show ?thesis
      using print_read [OF assms(1) _ _ len [OF _ w(1)] assms(3), where m = m and neg = False and b = 8
          and fmt = "str_bytes ''%o''" and ap = "[VInt w]"] emit_unsigned(2) [of w]
      unfolding 3 u by simp
  qed
qed

theorem print_read_roundtrip_witness:
  "\<exists>m' n. vsnprintf (\<lambda>_. 0) 4096 16 (str_bytes ''%d'') [VInt (- 120)] = Some (Inr (m', n)) \<and>
     strtol m' 4096 10 = Some (- 120, 4096 + n)"
  using print_read_roundtrip [of 4096 16 "''%d''" 10 "\<lambda>_. 0" "- 120"] by simp

end
