(* ===== verification/Bitmap.thy ===== *)
theory Bitmap
  imports Prelude
begin

text \<open>
  The free-block bitmap of the file system (\<^verbatim>\<open>kern/fs/sfs/bitmap.c\<close>): an array of 32-bit words in
  which a set bit marks a free index. The operations are shown to implement a finite set of
  free indices, with allocation of the smallest one.
\<close>

section \<open>Definitions\<close>

definition WORD_BITS :: nat where "WORD_BITS = 32"

record bitmap =
  nbits :: nat
  nwords :: nat
  bits :: "u32 list"

text \<open>Marking the bits from \<open>overbits\<close> on in use; \<open>k\<close> of them are left.\<close>

fun mark_overbits :: "nat \<Rightarrow> nat \<Rightarrow> u32 \<Rightarrow> u32" where
  "mark_overbits overbits 0 w = w"
| "mark_overbits overbits (Suc k) w = mark_overbits (Suc overbits) k (w XOR push_bit overbits 1)"

text \<open>
  \<open>have_bitmap\<close> and \<open>have_map\<close> are the answers of the two calls of \<open>kmalloc\<close>. The first
  assertion includes the test that \<open>nbits + WORD_BITS\<close> does not wrap around.
\<close>

definition bitmap_create :: "bool \<Rightarrow> bool \<Rightarrow> nat \<Rightarrow> bitmap option option" where
  "bitmap_create have_bitmap have_map n =
     do { kassert (n \<noteq> 0 \<and> n + WORD_BITS < 2 ^ 32);
          if \<not> have_bitmap then Some None
          else
            let nw = (n + WORD_BITS - 1) div WORD_BITS
            in if \<not> have_map then Some None
               else
                 let map = replicate nw (- 1)
                 in if n \<noteq> nw * WORD_BITS then
                      let ix = nw - 1; overbits = n - ix * WORD_BITS
                      in do { kassert (n div WORD_BITS = ix);
                              kassert (overbits > 0 \<and> overbits < WORD_BITS);
                              Some (Some \<lparr>nbits = n, nwords = nw,
                                bits = map[ix := mark_overbits overbits (WORD_BITS - overbits) (map ! ix)]\<rparr>) }
                    else Some (Some \<lparr>nbits = n, nwords = nw, bits = map\<rparr>) }"

text \<open>The inner loop: the first set bit at \<open>offset\<close> or above, \<open>k\<close> bits left.\<close>

fun scan_word :: "u32 \<Rightarrow> nat \<Rightarrow> nat \<Rightarrow> nat option" where
  "scan_word w offset 0 = None"
| "scan_word w offset (Suc k) = (if w AND push_bit offset 1 \<noteq> 0 then Some offset else scan_word w (Suc offset) k)"

text \<open>The outer loop over the words from \<open>ix\<close> on; the assertion after the inner loop is the panic.\<close>

fun scan_words :: "nat \<Rightarrow> u32 list \<Rightarrow> (nat \<times> nat) option option" where
  "scan_words ix [] = Some None"
| "scan_words ix (w # ws) =
     (if w \<noteq> 0 then
        (case scan_word w 0 WORD_BITS of None \<Rightarrow> None | Some offset \<Rightarrow> Some (Some (ix, offset)))
      else scan_words (Suc ix) ws)"

definition bitmap_alloc :: "bitmap \<Rightarrow> ((kerror + nat) \<times> bitmap) option" where
  "bitmap_alloc b =
     do { r \<leftarrow> scan_words 0 (bits b);
          case r of
            None \<Rightarrow> Some (Inl E_NO_MEM, b)
          | Some (ix, offset) \<Rightarrow>
              Some (Inr (ix * WORD_BITS + offset),
                b\<lparr>bits := (bits b)[ix := bits b ! ix XOR push_bit offset 1]\<rparr>) }"

definition bitmap_translate :: "bitmap \<Rightarrow> nat \<Rightarrow> (nat \<times> u32) option" where
  "bitmap_translate b index =
     do { kassert (index < nbits b);
          Some (index div WORD_BITS, push_bit (index mod WORD_BITS) 1) }"

definition bitmap_test :: "bitmap \<Rightarrow> nat \<Rightarrow> bool option" where
  "bitmap_test b index =
     do { (ix, mask) \<leftarrow> bitmap_translate b index;
          Some (bits b ! ix AND mask \<noteq> 0) }"

definition bitmap_free :: "bitmap \<Rightarrow> nat \<Rightarrow> bitmap option" where
  "bitmap_free b index =
     do { (ix, mask) \<leftarrow> bitmap_translate b index;
          kassert (bits b ! ix AND mask = 0);
          Some (b\<lparr>bits := (bits b)[ix := bits b ! ix OR mask]\<rparr>) }"

definition bitmap_getdata :: "bitmap \<Rightarrow> u32 list \<times> nat" where
  "bitmap_getdata b = (bits b, 4 * nwords b)"

text \<open>The invariant, and the set of free indices a bitmap stands for.\<close>

definition bitmap_bit :: "bitmap \<Rightarrow> nat \<Rightarrow> bool" where
  "bitmap_bit b i \<longleftrightarrow> i div WORD_BITS < length (bits b) \<and> bit (bits b ! (i div WORD_BITS)) (i mod WORD_BITS)"

definition bitmap_inv :: "bitmap \<Rightarrow> bool" where
  "bitmap_inv b \<longleftrightarrow> length (bits b) = nwords b \<and> nbits b \<le> nwords b * WORD_BITS \<and>
     (\<forall>i. bitmap_bit b i \<longrightarrow> i < nbits b)"

definition free_bits :: "bitmap \<Rightarrow> nat set" where
  "free_bits b = {i. i < nbits b \<and> bitmap_bit b i}"

section \<open>Single bits\<close>

lemma and_push_bit_1 [simp]: "(w :: u32) AND 2 ^ n = 0 \<longleftrightarrow> \<not> bit w n"
  by (rule and_exp_eq_0_iff_not_bit)

lemma bit_mark_overbits:
  "bit (mark_overbits o' k w) n \<longleftrightarrow> (if o' \<le> n \<and> n < o' + k \<and> n < 32 then \<not> bit w n else bit w n)"
  by (induction k arbitrary: o' w) (auto simp: bit_simps dest: bit_imp_le_length)

lemma scan_word_ok:
  "case scan_word w off k of
     None \<Rightarrow> \<forall>n. off \<le> n \<and> n < off + k \<longrightarrow> \<not> bit w n
   | Some n \<Rightarrow> off \<le> n \<and> n < off + k \<and> bit w n \<and> (\<forall>j. off \<le> j \<and> j < n \<longrightarrow> \<not> bit w j)"
proof (induction k arbitrary: off)
  case (Suc k)
  show ?case
  proof (cases "bit w off")
    case False
    with Suc [of "Suc off"] show ?thesis
      by (auto split: option.splits) (metis le_antisym not_less_eq_eq)+
  qed auto
qed (auto dest: le_less_trans)

lemma scan_words_ok:
  "case scan_words ix ws of
     None \<Rightarrow> False
   | Some None \<Rightarrow> \<forall>w\<in>set ws. w = 0
   | Some (Some (i, n)) \<Rightarrow> ix \<le> i \<and> i < ix + length ws \<and> n < 32 \<and> bit (ws ! (i - ix)) n \<and>
       (\<forall>j. j < n \<longrightarrow> \<not> bit (ws ! (i - ix)) j) \<and> (\<forall>j < i - ix. ws ! j = 0)"
proof (induction ws arbitrary: ix)
  case (Cons w ws)
  show ?case
  proof (cases "w = 0")
    case True
    with Cons [of "Suc ix"] show ?thesis
      by (auto simp: nth_Cons' Suc_le_eq less_Suc_eq_0_disj split: option.splits)
  next
    case False
    then obtain n where "bit w n" "n < 32"
      by (auto simp: bit_eq_iff dest: bit_imp_le_length)
    with scan_word_ok [where w = w and off = 0 and k = 32] False show ?thesis
      by (auto simp: WORD_BITS_def split: option.splits)
  qed
qed simp

section \<open>The bitmap as a set of free indices\<close>

lemma index_split: "ix * WORD_BITS + off = i \<Longrightarrow> off < WORD_BITS \<Longrightarrow> i div WORD_BITS = ix \<and> i mod WORD_BITS = off"
  by (auto simp: WORD_BITS_def)

lemma bitmap_bit_index:
  "off < 32 \<Longrightarrow> bitmap_bit b (ix * WORD_BITS + off) \<longleftrightarrow> ix < length (bits b) \<and> bit (bits b ! ix) off"
  by (simp add: bitmap_bit_def WORD_BITS_def)

lemma mod_WORD_BITS: "i mod WORD_BITS < 32"
  by (simp add: WORD_BITS_def)

lemma bitmap_bit_update:
  assumes "i div WORD_BITS < length (bits b)"
  shows "bitmap_bit (b\<lparr>bits := (bits b)[i div WORD_BITS := w]\<rparr>) j \<longleftrightarrow>
    (if j div WORD_BITS = i div WORD_BITS then bit w (j mod WORD_BITS) else bitmap_bit b j)"
  using assms by (auto simp: bitmap_bit_def nth_list_update)

lemma same_word_same_index: "j div WORD_BITS = i div WORD_BITS \<Longrightarrow> j mod WORD_BITS = i mod WORD_BITS \<longleftrightarrow> j = i"
  by (metis div_mult_mod_eq)

lemma flip_index:
  assumes "i div WORD_BITS < length (bits b)"
  shows "bitmap_bit (b\<lparr>bits := (bits b)[i div WORD_BITS := bits b ! (i div WORD_BITS) XOR push_bit (i mod WORD_BITS) 1]\<rparr>) j \<longleftrightarrow>
      (if j = i then \<not> bitmap_bit b j else bitmap_bit b j)"
    and "bitmap_bit (b\<lparr>bits := (bits b)[i div WORD_BITS := bits b ! (i div WORD_BITS) OR push_bit (i mod WORD_BITS) 1]\<rparr>) j \<longleftrightarrow>
      j = i \<or> bitmap_bit b j"
  unfolding bitmap_bit_update [OF assms] using assms same_word_same_index [of j i] mod_WORD_BITS [of j]
  by (auto simp: bitmap_bit_def bit_simps)

lemma bitmap_create_ok:
  assumes "n \<noteq> 0" "n + WORD_BITS < 2 ^ 32"
  shows "\<exists>b. bitmap_create True True n = Some (Some b) \<and> bitmap_inv b \<and> nbits b = n \<and> free_bits b = {..<n}"
proof -
  define nw where "nw = (n + WORD_BITS - 1) div WORD_BITS"
  have nw: "0 < nw" "n \<le> nw * 32" "nw * 32 < n + 32"
    using assms(1) by (auto simp: nw_def WORD_BITS_def)
  define ov where "ov = n - (nw - 1) * 32"
  define w where "w = (if n = nw * 32 then - 1 else mark_overbits ov (32 - ov) (- 1) :: u32)"
  define b where "b = \<lparr>nbits = n, nwords = nw, bits = (replicate nw (- 1))[nw - 1 := w]\<rparr>"
  have ov: "0 < ov" "ov \<le> 32" "n \<noteq> nw * 32 \<Longrightarrow> ov < 32" "n \<noteq> nw * 32 \<Longrightarrow> n div 32 = nw - 1"
    using nw by (auto simp: ov_def algebra_simps)
  have "bitmap_create True True n = Some (Some b)"
  proof (cases "n = nw * 32")
    case True
    have "(replicate nw (- 1 :: u32))[nw - 1 := - 1] = replicate nw (- 1)"
      by (rule nth_equalityI) (simp_all add: nth_list_update)
    with True assms show ?thesis
      unfolding bitmap_create_def Let_def nw_def [symmetric] by (simp add: WORD_BITS_def b_def w_def)
  next
    case False
    have "replicate nw (- 1 :: u32) ! (nw - 1) = - 1"
      using nw(1) by simp
    with False assms ov(1) ov(3,4) [OF False] show ?thesis
      unfolding bitmap_create_def Let_def nw_def [symmetric]
      unfolding WORD_BITS_def ov_def [symmetric] b_def w_def by simp
  qed
  moreover have wb: "bit w k \<longleftrightarrow> k < ov" if "k < 32" for k
    using that ov by (auto simp: w_def bit_mark_overbits ov_def)
  have "bitmap_bit b i \<longleftrightarrow> i < n" for i
  proof -
    consider "i div 32 < nw - 1" | "i div 32 = nw - 1" | "nw \<le> i div 32"
      using nw(1) by linarith
    then show ?thesis
    proof cases
      case 1
      then have "i < n"
        using nw by linarith
      with 1 show ?thesis
        by (simp add: bitmap_bit_def b_def WORD_BITS_def nth_list_update)
    next
      case 2
      have "i = (nw - 1) * 32 + i mod 32"
        by (metis 2 div_mult_mod_eq)
      then have "i < n \<longleftrightarrow> i mod 32 < ov"
        using ov(1) unfolding ov_def by linarith
      with 2 nw(1) show ?thesis
        by (simp add: bitmap_bit_def b_def WORD_BITS_def wb)
    next
      case 3
      then have "\<not> i < n"
        using nw by linarith
      with 3 show ?thesis
        by (simp add: bitmap_bit_def b_def WORD_BITS_def)
    qed
  qed
  moreover have "length (bits b) = nw" "nbits b = n" "nwords b = nw"
    by (simp_all add: b_def)
  ultimately show ?thesis
    using nw(2) by (intro exI [of _ b]) (auto simp: bitmap_inv_def free_bits_def WORD_BITS_def)
qed

lemma bitmap_alloc_ok:
  assumes inv: "bitmap_inv b"
  shows "if free_bits b = {} then bitmap_alloc b = Some (Inl E_NO_MEM, b)
    else \<exists>b'. bitmap_alloc b = Some (Inr (Min (free_bits b)), b') \<and> bitmap_inv b' \<and> nbits b' = nbits b \<and>
      free_bits b' = free_bits b - {Min (free_bits b)}"
proof -
  have fin: "finite (free_bits b)"
    by (simp add: free_bits_def)
  have fb: "i \<in> free_bits b \<longleftrightarrow> bitmap_bit b i" for i
    using inv by (auto simp: free_bits_def bitmap_inv_def)
  note S = scan_words_ok [where ix = 0 and ws = "bits b"]
  show ?thesis
  proof (cases "scan_words 0 (bits b)")
    case None
    with S show ?thesis by simp
  next
    case (Some r)
    show ?thesis
    proof (cases r)
      case None
      then have "\<forall>w\<in>set (bits b). w = 0"
        using S Some by simp
      then have "bits b ! k = 0" if "k < length (bits b)" for k
        using that by simp
      then have "free_bits b = {}"
        using fb by (auto simp: bitmap_bit_def)
      then show ?thesis
        using Some None by (simp add: bitmap_alloc_def)
    next
      case (Some p)
      obtain ix n where p: "p = (ix, n)"
        by (cases p)
      have S': "ix < length (bits b)" "n < 32" "bit (bits b ! ix) n" "\<And>j. j < n \<Longrightarrow> \<not> bit (bits b ! ix) j"
        "\<And>j. j < ix \<Longrightarrow> bits b ! j = 0"
        using S \<open>scan_words 0 (bits b) = Some r\<close> Some p by auto
      define i where "i = ix * WORD_BITS + n"
      have i: "i div WORD_BITS = ix" "i mod WORD_BITS = n"
        using index_split [OF i_def [symmetric]] S'(2) by (simp_all add: WORD_BITS_def)
      define b' where "b' = b\<lparr>bits := (bits b)[ix := bits b ! ix XOR push_bit n 1]\<rparr>"
      have bit': "bitmap_bit b' j \<longleftrightarrow> (if j = i then \<not> bitmap_bit b j else bitmap_bit b j)" for j
        using flip_index(1) [of i b j] S'(1) unfolding i b'_def .
      have mem: "i \<in> free_bits b"
        using S' i by (simp add: fb bitmap_bit_def)
      have "i \<le> j" if "j \<in> free_bits b" for j
      proof -
        have "bitmap_bit b j"
          using that fb by simp
        then have "ix \<le> j div WORD_BITS" "j div WORD_BITS = ix \<Longrightarrow> n \<le> j mod WORD_BITS"
          using S'(4,5) by (auto simp: bitmap_bit_def not_less [symmetric])
        then show ?thesis
          using i by (metis div_le_mono div_mult_mod_eq nat_add_left_cancel_le nat_less_le not_less)
      qed
      then have "Min (free_bits b) = i"
        using fin mem by (intro Min_eqI) auto
      moreover have "bitmap_inv b'" "free_bits b' = free_bits b - {i}"
        using inv bit' mem fb by (auto simp: bitmap_inv_def free_bits_def b'_def)
      ultimately show ?thesis
        using mem \<open>scan_words 0 (bits b) = Some r\<close> Some p
        by (auto simp: bitmap_alloc_def b'_def i_def)
    qed
  qed
qed

lemma bitmap_translate_in_range:
  "bitmap_inv b \<Longrightarrow> i < nbits b \<Longrightarrow> i div WORD_BITS < length (bits b)"
  by (auto simp: bitmap_inv_def WORD_BITS_def)

lemma bitmap_test_ok:
  assumes "bitmap_inv b"
  shows "bitmap_test b i = (if i < nbits b then Some (i \<in> free_bits b) else None)"
  using bitmap_translate_in_range [OF assms, of i]
  by (simp add: bitmap_test_def bitmap_translate_def bind_kassert free_bits_def bitmap_bit_def)

lemma bitmap_free_ok:
  assumes inv: "bitmap_inv b"
  shows "if i < nbits b \<and> i \<notin> free_bits b
    then \<exists>b'. bitmap_free b i = Some b' \<and> bitmap_inv b' \<and> nbits b' = nbits b \<and> free_bits b' = insert i (free_bits b)
    else bitmap_free b i = None"
proof (cases "i < nbits b \<and> i \<notin> free_bits b")
  case True
  then have lt: "i div WORD_BITS < length (bits b)"
    using bitmap_translate_in_range [OF inv] by blast
  define b' where "b' = b\<lparr>bits := (bits b)[i div WORD_BITS := bits b ! (i div WORD_BITS) OR push_bit (i mod WORD_BITS) 1]\<rparr>"
  have "bitmap_bit b' j \<longleftrightarrow> j = i \<or> bitmap_bit b j" for j
    unfolding b'_def by (rule flip_index(2) [OF lt])
  then have "bitmap_inv b'" "free_bits b' = insert i (free_bits b)" "nbits b' = nbits b"
    using inv True by (auto simp: bitmap_inv_def free_bits_def b'_def)
  moreover have "bitmap_free b i = Some b'"
    using True lt by (simp add: bitmap_free_def bitmap_translate_def bind_kassert free_bits_def bitmap_bit_def b'_def)
  ultimately show ?thesis
    using True by simp
next
  case False
  then show ?thesis
    using bitmap_translate_in_range [OF inv, of i]
    by (auto simp: bitmap_free_def bitmap_translate_def bind_kassert free_bits_def bitmap_bit_def)
qed

section \<open>Properties\<close>

text \<open>
  C29. The bitmap implements a set of free indices: creation makes all \<open>n\<close> indices free,
  allocation takes the smallest free index and fails exactly when there is none, a test tells
  membership, and freeing returns an index that is in use (freeing a free or an invalid index
  stops the kernel). So allocating again after freeing the smallest index gives it back.
\<close>

theorem bitmap_correct:
  assumes "bitmap_inv b"
  shows "(0 < n \<and> n + WORD_BITS < 2 ^ 32 \<longrightarrow>
      (\<exists>b0. bitmap_create True True n = Some (Some b0) \<and> bitmap_inv b0 \<and> nbits b0 = n \<and> free_bits b0 = {..<n})) \<and>
    (if free_bits b = {} then bitmap_alloc b = Some (Inl E_NO_MEM, b)
     else \<exists>b'. bitmap_alloc b = Some (Inr (Min (free_bits b)), b') \<and> bitmap_inv b' \<and>
       free_bits b' = free_bits b - {Min (free_bits b)}) \<and>
    bitmap_test b i = (if i < nbits b then Some (i \<in> free_bits b) else None) \<and>
    (if i < nbits b \<and> i \<notin> free_bits b
     then \<exists>b'. bitmap_free b i = Some b' \<and> bitmap_inv b' \<and> free_bits b' = insert i (free_bits b)
     else bitmap_free b i = None)"
  using bitmap_create_ok [of n] bitmap_alloc_ok [OF assms] bitmap_test_ok [OF assms] bitmap_free_ok [OF assms, of i]
  by (auto split: if_splits)

theorem bitmap_correct_witness:
  "fst (the (bitmap_alloc \<lparr>nbits = 20, nwords = 1, bits = [6]\<rparr>)) = Inr 1"
proof -
  define b :: bitmap where "b = \<lparr>nbits = 20, nwords = 1, bits = [6]\<rparr>"
  have "(6 :: u32) = push_bit 1 1 OR push_bit 2 1"
    by simp
  then have six: "bit (6 :: u32) k \<longleftrightarrow> k = 1 \<or> k = 2" for k
    by (simp only: bit_or_iff bit_push_bit_iff) (auto simp: bit_1_iff)
  have "bitmap_bit b i \<longleftrightarrow> i = 1 \<or> i = 2" for i
    using six [of "i mod 32"] by (cases "i < 32") (auto simp: bitmap_bit_def b_def WORD_BITS_def)
  then have "bitmap_inv b" "free_bits b = {1, 2}"
    by (auto simp: bitmap_inv_def free_bits_def b_def WORD_BITS_def)
  with bitmap_correct [of b 1 0] show ?thesis
    unfolding b_def [symmetric] by auto
qed

end
