(* ===== verification/SfsIo.thy ===== *)
theory SfsIo
  imports Bitmap
begin

text \<open>
  The simple file system, lower half: the on-disk format (\<^verbatim>\<open>kern/fs/sfs/sfs.h\<close>), block I/O
  (\<^verbatim>\<open>kern/fs/sfs/sfs_io.c\<close>) and, from \<^verbatim>\<open>kern/fs/sfs/sfs_inode.c\<close>, the allocation of blocks and the map
  from the block index in a file to the block on disk. A block is the list of its bytes; the
  device is the function \<open>d_io\<close> of its \<open>struct device\<close>, a field of the file system, which
  answers a request with data or an error and may change the blocks. Data buffers are passed by
  value. Block numbers and sizes are natural numbers: the offset \<open>blkno * SFS_BLKSIZE\<close> that the C code passes to the device is
  a 32-bit \<open>off_t\<close>, so the model is that of volumes of less than \<open>2 ^ 19\<close> blocks (\<open>disk0\<close> has 1024); on
  disk they are 32-bit little-endian words. The locks of the C code are taken and released
  inside one operation, which is one step here.
\<close>

section \<open>Definitions: the disk format\<close>

type_synonym block = "u8 list"

type_synonym blkdev = "bool \<Rightarrow> nat \<Rightarrow> block \<Rightarrow> (nat \<Rightarrow> block) \<Rightarrow> (kerror + block) \<times> (nat \<Rightarrow> block)"

definition SFS_BLKSIZE :: nat where "SFS_BLKSIZE = 4096"

definition SFS_NDIRECT :: nat where "SFS_NDIRECT = 12"

definition SFS_MAX_FNAME_LEN :: nat where "SFS_MAX_FNAME_LEN = 255"

definition SFS_MAX_FILE_SIZE :: nat where "SFS_MAX_FILE_SIZE = 1024 * 1024 * 128"

definition SFS_BLKN_SUPER :: nat where "SFS_BLKN_SUPER = 0"

definition SFS_BLKN_FREEMAP :: nat where "SFS_BLKN_FREEMAP = 2"

definition SFS_BLKBITS :: nat where "SFS_BLKBITS = SFS_BLKSIZE * 8"

definition SFS_BLK_NENTRY :: nat where "SFS_BLK_NENTRY = SFS_BLKSIZE div 4"

definition SFS_TYPE_FILE :: u16 where "SFS_TYPE_FILE = 1"

definition SFS_TYPE_DIR :: u16 where "SFS_TYPE_DIR = 2"

definition SFS_TYPE_LINK :: u16 where "SFS_TYPE_LINK = 3"

record sfs_super =
  sb_magic :: u32
  sb_blocks :: nat
  sb_unused :: nat
  sb_info :: "u8 list"

record sfs_disk_inode =
  di_size :: nat
  di_type :: u16
  di_nlinks :: u16
  di_blocks :: nat
  di_direct :: "nat list"
  di_indirect :: nat

record sfs_disk_entry =
  de_ino :: nat
  de_name :: "u8 list"

text \<open>
  An inode in memory is a \<open>struct inode\<close> whose first member is the \<open>struct sfs_inode\<close> (or the
  device), so both have the same address; their fields are in two stores. The last field of the
  file system is what the coming calls of \<open>kmalloc\<close> return.
\<close>

record sfs_inode =
  si_din :: sfs_disk_inode
  si_ino :: nat
  si_dirty :: bool
  reclaim_count :: int

datatype inode_ops = Sfs_node_dirops | Sfs_node_fileops | Dev_node_ops

datatype in_type = Inode_type_device_info | Inode_type_sfs_inode_info

record inode =
  in_type :: in_type
  ref_count :: int
  open_count :: int
  in_fs :: bool
  in_ops :: inode_ops

record sfs_fs =
  super :: sfs_super
  d_io :: blkdev
  disk :: "nat \<Rightarrow> block"
  freemap :: bitmap
  super_dirty :: bool
  sfs_buffer :: block
  sins :: "addr \<Rightarrow> sfs_inode"
  inode_list :: "addr list"
  hash_list :: "nat \<Rightarrow> addr list"
  inodes :: "addr \<Rightarrow> inode"
  kmem :: "addr option list"

definition kmalloc_next :: "sfs_fs \<Rightarrow> addr option \<times> sfs_fs" where
  "kmalloc_next s = (case kmem s of [] \<Rightarrow> (None, s) | r # rs \<Rightarrow> (r, s\<lparr>kmem := rs\<rparr>))"

definition le32n :: "nat \<Rightarrow> u8 list" where
  "le32n n = le32 (of_nat n)"

definition un_le32n :: "u8 list \<Rightarrow> nat" where
  "un_le32n bs = unat (un_le32 bs)"

definition encode_super :: "sfs_super \<Rightarrow> u8 list" where
  "encode_super sb = le32 (sb_magic sb) @ le32n (sb_blocks sb) @ le32n (sb_unused sb) @ sb_info sb"

definition SIZEOF_DINODE :: nat where "SIZEOF_DINODE = 64"

definition encode_inode :: "sfs_disk_inode \<Rightarrow> u8 list" where
  "encode_inode din = le32n (di_size din) @ le16 (di_type din) @ le16 (di_nlinks din) @ le32n (di_blocks din) @
     concat (map le32n (di_direct din)) @ le32n (di_indirect din)"

definition decode_inode :: "u8 list \<Rightarrow> sfs_disk_inode" where
  "decode_inode bs = \<lparr>di_size = un_le32n bs, di_type = un_le16 (drop 4 bs), di_nlinks = un_le16 (drop 6 bs),
     di_blocks = un_le32n (drop 8 bs), di_direct = map (\<lambda>i. un_le32n (drop (12 + 4 * i) bs)) [0..<12],
     di_indirect = un_le32n (drop 60 bs)\<rparr>"

definition SIZEOF_DENTRY :: nat where "SIZEOF_DENTRY = 260"

definition decode_entry :: "u8 list \<Rightarrow> sfs_disk_entry" where
  "decode_entry bs = \<lparr>de_ino = un_le32n bs, de_name = take 256 (drop 4 bs)\<rparr>"

section \<open>Definitions: block I/O\<close>

definition sfs_rwblock_nolock :: "bool \<Rightarrow> bool \<Rightarrow> nat \<Rightarrow> block \<Rightarrow> sfs_fs \<Rightarrow> ((kerror + block) \<times> sfs_fs) option" where
  "sfs_rwblock_nolock wr check blkno data s =
     do { kassert ((blkno \<noteq> 0 \<or> \<not> check) \<and> blkno < sb_blocks (super s));
          let (r, d) = d_io s wr blkno data (disk s);
          Some (r, s\<lparr>disk := d\<rparr>) }"

text \<open>\<open>nblks\<close> blocks from \<open>blkno\<close> on: written from \<open>data\<close>, or read and returned in one buffer.\<close>

fun sfs_rwblock :: "bool \<Rightarrow> nat \<Rightarrow> nat \<Rightarrow> u8 list \<Rightarrow> sfs_fs \<Rightarrow> ((kerror + u8 list) \<times> sfs_fs) option" where
  "sfs_rwblock wr blkno 0 data s = Some (Inr [], s)"
| "sfs_rwblock wr blkno (Suc nblks) data s =
     and_then (sfs_rwblock_nolock wr True blkno (take SFS_BLKSIZE data) s) (\<lambda>b s.
     and_then (sfs_rwblock wr (Suc blkno) nblks (drop SFS_BLKSIZE data) s) (\<lambda>bs s.
       Some (Inr (b @ bs), s)))"

definition sfs_rblock :: "nat \<Rightarrow> nat \<Rightarrow> sfs_fs \<Rightarrow> ((kerror + u8 list) \<times> sfs_fs) option" where
  "sfs_rblock blkno nblks s = sfs_rwblock False blkno nblks [] s"

definition sfs_wblock :: "u8 list \<Rightarrow> nat \<Rightarrow> nat \<Rightarrow> sfs_fs \<Rightarrow> ((kerror + u8 list) \<times> sfs_fs) option" where
  "sfs_wblock data blkno nblks s = sfs_rwblock True blkno nblks data s"

definition sfs_rbuf :: "nat \<Rightarrow> nat \<Rightarrow> nat \<Rightarrow> sfs_fs \<Rightarrow> ((kerror + u8 list) \<times> sfs_fs) option" where
  "sfs_rbuf len blkno offset s =
     do { kassert (offset < SFS_BLKSIZE \<and> offset + len \<le> SFS_BLKSIZE);
          and_then (sfs_rwblock_nolock False True blkno (sfs_buffer s) s) (\<lambda>b s.
            Some (Inr (take len (drop offset b)), s\<lparr>sfs_buffer := b\<rparr>)) }"

definition sfs_wbuf :: "u8 list \<Rightarrow> nat \<Rightarrow> nat \<Rightarrow> sfs_fs \<Rightarrow> ((kerror + unit) \<times> sfs_fs) option" where
  "sfs_wbuf data blkno offset s =
     do { kassert (offset < SFS_BLKSIZE \<and> offset + length data \<le> SFS_BLKSIZE);
          and_then (sfs_rwblock_nolock False True blkno (sfs_buffer s) s) (\<lambda>b s.
            let b = take offset b @ data @ drop (offset + length data) b
            in and_then (sfs_rwblock_nolock True True blkno b (s\<lparr>sfs_buffer := b\<rparr>)) (\<lambda>_ s. Some (Inr (), s))) }"

definition sfs_sync_super :: "sfs_fs \<Rightarrow> ((kerror + unit) \<times> sfs_fs) option" where
  "sfs_sync_super s =
     (let e = encode_super (super s); b = e @ replicate (SFS_BLKSIZE - length e) 0
      in and_then (sfs_rwblock_nolock True False SFS_BLKN_SUPER b (s\<lparr>sfs_buffer := b\<rparr>)) (\<lambda>_ s. Some (Inr (), s)))"

definition sfs_freemap_blocks :: "sfs_super \<Rightarrow> nat" where
  "sfs_freemap_blocks sb = (sb_blocks sb + SFS_BLKBITS - 1) div SFS_BLKBITS"

definition sfs_sync_freemap :: "sfs_fs \<Rightarrow> ((kerror + u8 list) \<times> sfs_fs) option" where
  "sfs_sync_freemap s =
     sfs_wblock (concat (map le32 (fst (bitmap_getdata (freemap s))))) SFS_BLKN_FREEMAP (sfs_freemap_blocks (super s)) s"

fun clear_loop :: "nat \<Rightarrow> nat \<Rightarrow> sfs_fs \<Rightarrow> ((kerror + unit) \<times> sfs_fs) option" where
  "clear_loop blkno 0 s = Some (Inr (), s)"
| "clear_loop blkno (Suc nblks) s =
     and_then (sfs_rwblock_nolock True True blkno (sfs_buffer s) s) (\<lambda>_ s. clear_loop (Suc blkno) nblks s)"

text \<open>With no block to clear the C function returns an uninitialized variable; it is called with one.\<close>

definition sfs_clear_block :: "nat \<Rightarrow> nat \<Rightarrow> sfs_fs \<Rightarrow> ((kerror + unit) \<times> sfs_fs) option" where
  "sfs_clear_block blkno nblks s = clear_loop blkno nblks (s\<lparr>sfs_buffer := replicate SFS_BLKSIZE 0\<rparr>)"

section \<open>Definitions: block allocation\<close>

definition sfs_block_inuse :: "sfs_fs \<Rightarrow> nat \<Rightarrow> bool option" where
  "sfs_block_inuse s ino =
     (if ino \<noteq> 0 \<and> ino < sb_blocks (super s) then map_option Not (bitmap_test (freemap s) ino) else None)"

definition upd_super :: "(sfs_super \<Rightarrow> sfs_super) \<Rightarrow> sfs_fs \<Rightarrow> sfs_fs" where
  "upd_super f s = s\<lparr>super := f (super s), super_dirty := True\<rparr>"

definition sfs_block_alloc :: "sfs_fs \<Rightarrow> ((kerror + nat) \<times> sfs_fs) option" where
  "sfs_block_alloc s =
     do { (r, fm) \<leftarrow> bitmap_alloc (freemap s);
          case r of
            Inl e \<Rightarrow> Some (Inl e, s)
          | Inr ino \<Rightarrow>
              do { kassert (sb_unused (super s) > 0);
                   let s = upd_super (\<lambda>sb. sb\<lparr>sb_unused := sb_unused sb - 1\<rparr>) (s\<lparr>freemap := fm\<rparr>);
                   u \<leftarrow> sfs_block_inuse s ino;
                   kassert u;
                   and_then (sfs_clear_block ino 1 s) (\<lambda>_ s. Some (Inr ino, s)) } }"

definition sfs_block_free :: "nat \<Rightarrow> sfs_fs \<Rightarrow> sfs_fs option" where
  "sfs_block_free ino s =
     do { u \<leftarrow> sfs_block_inuse s ino;
          kassert u;
          fm \<leftarrow> bitmap_free (freemap s) ino;
          Some (upd_super (\<lambda>sb. sb\<lparr>sb_unused := sb_unused sb + 1\<rparr>) (s\<lparr>freemap := fm\<rparr>)) }"

section \<open>Definitions: the block map of a file\<close>

definition upd_sin :: "addr \<Rightarrow> (sfs_inode \<Rightarrow> sfs_inode) \<Rightarrow> sfs_fs \<Rightarrow> sfs_fs" where
  "upd_sin sin f s = s\<lparr>sins := (sins s)(sin := f (sins s sin))\<rparr>"

definition upd_din :: "addr \<Rightarrow> (sfs_disk_inode \<Rightarrow> sfs_disk_inode) \<Rightarrow> sfs_fs \<Rightarrow> sfs_fs" where
  "upd_din sin f = upd_sin sin (\<lambda>x. x\<lparr>si_din := f (si_din x)\<rparr>)"

text \<open>The cleanup of \<open>sfs_bmap_get_sub_nolock\<close> frees an entry block that was allocated in the call.\<close>

definition sub_cleanup :: "kerror \<Rightarrow> nat \<Rightarrow> nat \<Rightarrow> sfs_fs \<Rightarrow> ((kerror + 'a) \<times> sfs_fs) option" where
  "sub_cleanup e ent entp s =
     (if ent \<noteq> entp then do { s \<leftarrow> sfs_block_free ent s; Some (Inl e, s) } else Some (Inl e, s))"

text \<open>The second half, from the allocation of the data block on. The result is \<open>*entp\<close> and \<open>*ino_store\<close>.\<close>

definition sub_alloc :: "nat \<Rightarrow> nat \<Rightarrow> nat \<Rightarrow> sfs_fs \<Rightarrow> ((kerror + nat \<times> nat) \<times> sfs_fs) option" where
  "sub_alloc ent entp offset s =
     (case sfs_block_alloc s of
        None \<Rightarrow> None
      | Some (Inl e, s) \<Rightarrow> sub_cleanup e ent entp s
      | Some (Inr ino, s) \<Rightarrow>
          (case sfs_wbuf (le32n ino) ent offset s of
             None \<Rightarrow> None
           | Some (Inl e, s) \<Rightarrow> do { s \<leftarrow> sfs_block_free ino s; sub_cleanup e ent entp s }
           | Some (Inr _, s) \<Rightarrow> Some (Inr (ent, ino), s)))"

definition sfs_bmap_get_sub_nolock ::
  "nat \<Rightarrow> nat \<Rightarrow> bool \<Rightarrow> sfs_fs \<Rightarrow> ((kerror + nat \<times> nat) \<times> sfs_fs) option" where
  "sfs_bmap_get_sub_nolock entp index create s =
     do { kassert (index < SFS_BLK_NENTRY);
          let offset = index * 4;
          if entp \<noteq> 0 then
            and_then (sfs_rbuf 4 entp offset s) (\<lambda>bs s.
              let ino = un_le32n bs
              in if ino \<noteq> 0 \<or> \<not> create then Some (Inr (entp, ino), s) else sub_alloc entp entp offset s)
          else if \<not> create then Some (Inr (entp, 0), s)
          else and_then (sfs_block_alloc s) (\<lambda>ent s. sub_alloc ent entp offset s) }"

definition sfs_bmap_get_nolock :: "addr \<Rightarrow> nat \<Rightarrow> bool \<Rightarrow> sfs_fs \<Rightarrow> ((kerror + nat) \<times> sfs_fs) option" where
  "sfs_bmap_get_nolock sin index create s =
     and_then
       (if index < SFS_NDIRECT then
          let ino = di_direct (si_din (sins s sin)) ! index
          in if ino = 0 \<and> create then
               and_then (sfs_block_alloc s) (\<lambda>ino s.
                 Some (Inr ino, upd_sin sin (\<lambda>x. x\<lparr>si_dirty := True\<rparr>)
                   (upd_din sin (\<lambda>din. din\<lparr>di_direct := (di_direct din)[index := ino]\<rparr>) s)))
             else Some (Inr ino, s)
        else
          let index = index - SFS_NDIRECT; ent0 = di_indirect (si_din (sins s sin))
          in if index < SFS_BLK_NENTRY then
               and_then (sfs_bmap_get_sub_nolock ent0 index create s) (\<lambda>(ent, ino) s.
                 if ent \<noteq> di_indirect (si_din (sins s sin)) then
                   do { kassert (di_indirect (si_din (sins s sin)) = 0);
                        Some (Inr ino, upd_sin sin (\<lambda>x. x\<lparr>si_dirty := True\<rparr>)
                          (upd_din sin (\<lambda>din. din\<lparr>di_indirect := ent\<rparr>) s)) }
                 else Some (Inr ino, s))
             else None)
       (\<lambda>ino s.
         do { u \<leftarrow> (if ino = 0 then Some True else sfs_block_inuse s ino);
              kassert u;
              Some (Inr ino, s) })"

definition sfs_bmap_free_sub_nolock :: "nat \<Rightarrow> nat \<Rightarrow> sfs_fs \<Rightarrow> ((kerror + unit) \<times> sfs_fs) option" where
  "sfs_bmap_free_sub_nolock ent index s =
     do { u \<leftarrow> sfs_block_inuse s ent;
          kassert (u \<and> index < SFS_BLK_NENTRY);
          and_then (sfs_rbuf 4 ent (index * 4) s) (\<lambda>bs s.
            let ino = un_le32n bs
            in if ino \<noteq> 0 then
                 and_then (sfs_wbuf (le32n 0) ent (index * 4) s) (\<lambda>_ s.
                   do { s \<leftarrow> sfs_block_free ino s; Some (Inr (), s) })
               else Some (Inr (), s)) }"

definition sfs_bmap_free_nolock :: "addr \<Rightarrow> nat \<Rightarrow> sfs_fs \<Rightarrow> ((kerror + unit) \<times> sfs_fs) option" where
  "sfs_bmap_free_nolock sin index s =
     (let din = si_din (sins s sin)
      in if index < SFS_NDIRECT then
           let ino = di_direct din ! index
           in if ino \<noteq> 0 then
                do { s \<leftarrow> sfs_block_free ino s;
                     Some (Inr (), upd_sin sin (\<lambda>x. x\<lparr>si_dirty := True\<rparr>)
                       (upd_din sin (\<lambda>din. din\<lparr>di_direct := (di_direct din)[index := 0]\<rparr>) s)) }
              else Some (Inr (), s)
         else if index - SFS_NDIRECT < SFS_BLK_NENTRY then
           if di_indirect din \<noteq> 0 then sfs_bmap_free_sub_nolock (di_indirect din) (index - SFS_NDIRECT) s
           else Some (Inr (), s)
         else Some (Inr (), s))"

definition sfs_bmap_load_nolock :: "addr \<Rightarrow> nat \<Rightarrow> sfs_fs \<Rightarrow> ((kerror + nat) \<times> sfs_fs) option" where
  "sfs_bmap_load_nolock sin index s =
     do { kassert (index \<le> di_blocks (si_din (sins s sin)));
          let create = (index = di_blocks (si_din (sins s sin)));
          and_then (sfs_bmap_get_nolock sin index create s) (\<lambda>ino s.
            do { u \<leftarrow> sfs_block_inuse s ino;
                 kassert u;
                 Some (Inr ino, if create then upd_din sin (\<lambda>din. din\<lparr>di_blocks := di_blocks din + 1\<rparr>) s else s) }) }"

definition sfs_bmap_truncate_nolock :: "addr \<Rightarrow> sfs_fs \<Rightarrow> ((kerror + unit) \<times> sfs_fs) option" where
  "sfs_bmap_truncate_nolock sin s =
     do { kassert (di_blocks (si_din (sins s sin)) \<noteq> 0);
          and_then (sfs_bmap_free_nolock sin (di_blocks (si_din (sins s sin)) - 1) s) (\<lambda>_ s.
            Some (Inr (), upd_sin sin (\<lambda>x. x\<lparr>si_dirty := True\<rparr>)
              (upd_din sin (\<lambda>din. din\<lparr>di_blocks := di_blocks din - 1\<rparr>) s))) }"


section \<open>Definitions: what is shown\<close>

text \<open>
  The device: reading gives the block and writing reports success; either all that is written is kept or, as in
  the driver of \<^verbatim>\<open>kern/fs/devs/dev_disk0.c\<close>, none of it (theory \<open>SfsFs\<close> shows that the driver is such a device). The
  invariant of the file system in memory: the free blocks of the map are blocks of the volume, the superblock counts them, and
  blocks have their size. \<open>bmap_of\<close> is the block map an inode stands for: the direct entries,
  then those in the indirect block.
\<close>

definition dev_keeps :: "sfs_fs \<Rightarrow> bool" where
  "dev_keeps s \<longleftrightarrow> (\<forall>b < sb_blocks (super s). \<forall>data d. d_io s True b data d = (Inr data, d(b := data)))"

definition dev_drops :: "sfs_fs \<Rightarrow> bool" where
  "dev_drops s \<longleftrightarrow> (\<forall>b < sb_blocks (super s). \<forall>data d. d_io s True b data d = (Inr data, d))"

definition dev_works :: "sfs_fs \<Rightarrow> bool" where
  "dev_works s \<longleftrightarrow> (\<forall>b < sb_blocks (super s). \<forall>data d. d_io s False b data d = (Inr (d b), d)) \<and>
     (dev_keeps s \<or> dev_drops s)"

text \<open>The blocks of the device after a write.\<close>

definition after_write :: "sfs_fs \<Rightarrow> (nat \<Rightarrow> block) \<Rightarrow> nat \<Rightarrow> block \<Rightarrow> nat \<Rightarrow> block" where
  "after_write s d b v = (if dev_keeps s then d(b := v) else d)"

definition free_blocks :: "sfs_fs \<Rightarrow> nat set" where
  "free_blocks s = free_bits (freemap s)"

definition sfs_ok :: "sfs_fs \<Rightarrow> bool" where
  "sfs_ok s \<longleftrightarrow> dev_works s \<and> bitmap_inv (freemap s) \<and>
     sb_blocks (super s) \<le> nbits (freemap s) \<and> sb_blocks (super s) < 2 ^ 32 \<and>
     free_blocks s \<subseteq> {0<..<sb_blocks (super s)} \<and> sb_unused (super s) = card (free_blocks s) \<and>
     (\<forall>b < sb_blocks (super s). length (disk s b) = SFS_BLKSIZE)"

definition used_block :: "sfs_fs \<Rightarrow> nat \<Rightarrow> bool" where
  "used_block s b \<longleftrightarrow> 0 < b \<and> b < sb_blocks (super s) \<and> b \<notin> free_blocks s"

definition SFS_MAX_BLOCKS :: nat where
  "SFS_MAX_BLOCKS = SFS_NDIRECT + SFS_BLK_NENTRY"

definition zero_block :: block where
  "zero_block = replicate SFS_BLKSIZE 0"

definition patch :: "block \<Rightarrow> nat \<Rightarrow> u8 list \<Rightarrow> block" where
  "patch b offset data = take offset b @ data @ drop (offset + length data) b"

definition entry_at :: "block \<Rightarrow> nat \<Rightarrow> nat" where
  "entry_at b i = un_le32n (take 4 (drop (i * 4) b))"

definition bmap_of :: "sfs_fs \<Rightarrow> sfs_disk_inode \<Rightarrow> nat \<Rightarrow> nat" where
  "bmap_of s din i =
     (if i < SFS_NDIRECT then di_direct din ! i
      else if di_indirect din = 0 then 0
      else entry_at (disk s (di_indirect din)) (i - SFS_NDIRECT))"

text \<open>
  A well-formed file: its blocks are in use, different from one another and from the indirect
  block, and there is no entry behind them.
\<close>

definition file_ok :: "sfs_fs \<Rightarrow> sfs_disk_inode \<Rightarrow> bool" where
  "file_ok s din \<longleftrightarrow> length (di_direct din) = SFS_NDIRECT \<and> di_blocks din \<le> SFS_MAX_BLOCKS \<and>
     (\<forall>i < di_blocks din. used_block s (bmap_of s din i) \<and> bmap_of s din i \<noteq> di_indirect din) \<and>
     inj_on (bmap_of s din) {..<di_blocks din} \<and>
     (\<forall>i. di_blocks din \<le> i \<and> i < SFS_MAX_BLOCKS \<longrightarrow> bmap_of s din i = 0) \<and>
     (di_indirect din \<noteq> 0 \<longrightarrow> used_block s (di_indirect din))"

text \<open>Appending block \<open>b\<close> to the file \<open>sin\<close>: what may differ between the two states.\<close>

definition blocks_needed :: "sfs_disk_inode \<Rightarrow> nat" where
  "blocks_needed din = (if di_blocks din < SFS_NDIRECT \<or> di_indirect din \<noteq> 0 then 1 else 2)"

definition appended :: "addr \<Rightarrow> nat \<Rightarrow> sfs_fs \<Rightarrow> sfs_fs \<Rightarrow> bool" where
  "appended sin b s s' \<longleftrightarrow>
     (let din = si_din (sins s sin); din' = si_din (sins s' sin)
      in sfs_ok s' \<and> file_ok s' din' \<and> di_blocks din' = di_blocks din + 1 \<and> di_size din' = di_size din \<and>
         di_type din' = di_type din \<and> di_nlinks din' = di_nlinks din \<and>
         (\<forall>i < SFS_MAX_BLOCKS. bmap_of s' din' i = (if i = di_blocks din then b else bmap_of s din i)) \<and>
         b \<in> free_blocks s \<and> (if dev_keeps s then disk s' b = zero_block else disk s' = disk s) \<and>
         (if blocks_needed din = 1 then di_indirect din' = di_indirect din
          else di_indirect din' \<in> free_blocks s \<and> di_indirect din' \<noteq> b) \<and>
         free_blocks s' = free_blocks s - {b} - {di_indirect din'} \<and>
         card (free_blocks s) = card (free_blocks s') + blocks_needed din \<and>
         (\<forall>c. c \<noteq> b \<and> (c = 0 \<or> c \<noteq> di_indirect din') \<longrightarrow> disk s' c = disk s c) \<and>
         (\<forall>x. x \<noteq> sin \<longrightarrow> sins s' x = sins s x) \<and> sb_blocks (super s') = sb_blocks (super s) \<and> d_io s' = d_io s)"

text \<open>Dropping the last block of the file \<open>sin\<close>.\<close>

definition dropped :: "addr \<Rightarrow> sfs_fs \<Rightarrow> sfs_fs \<Rightarrow> bool" where
  "dropped sin s s' \<longleftrightarrow>
     (let din = si_din (sins s sin); din' = si_din (sins s' sin); n = di_blocks din - 1
      in sfs_ok s' \<and> file_ok s' din' \<and> di_blocks din' = n \<and> di_size din' = di_size din \<and>
         di_type din' = di_type din \<and> di_nlinks din' = di_nlinks din \<and> di_indirect din' = di_indirect din \<and>
         (\<forall>i < SFS_MAX_BLOCKS. bmap_of s' din' i = (if i = n then 0 else bmap_of s din i)) \<and>
         free_blocks s' = insert (bmap_of s din n) (free_blocks s) \<and>
         (\<forall>c. c = 0 \<or> c \<noteq> di_indirect din \<longrightarrow> disk s' c = disk s c) \<and> (dev_keeps s \<or> disk s' = disk s) \<and>
         (\<forall>x. x \<noteq> sin \<longrightarrow> sins s' x = sins s x) \<and> sb_blocks (super s') = sb_blocks (super s) \<and> d_io s' = d_io s)"

text \<open>A failed operation: free blocks, inodes and the contents of used blocks are as before.\<close>

definition undone :: "sfs_fs \<Rightarrow> sfs_fs \<Rightarrow> bool" where
  "undone s s' \<longleftrightarrow> sfs_ok s' \<and> free_blocks s' = free_blocks s \<and> sins s' = sins s \<and>
     sb_blocks (super s') = sb_blocks (super s) \<and> d_io s' = d_io s \<and> (\<forall>c. c \<notin> free_blocks s \<longrightarrow> disk s' c = disk s c) \<and>
     (dev_keeps s \<or> disk s' = disk s)"

text \<open>
  A volume of eight blocks with an empty file, on a device that keeps what is written; the driver of \<open>disk0\<close> as a device of
  \<open>n\<close> blocks: the witness states.
\<close>

definition disk0_dev :: "nat \<Rightarrow> blkdev" where
  "disk0_dev n wr b data d = (if b < n then if wr then (Inr data, d) else (Inr (d b), d) else (Inl E_INVAL, d))"

definition ram_disk :: blkdev where
  "ram_disk wr b data d = (if wr then (Inr data, d(b := data)) else (Inr (d b), d))"

definition empty_din :: sfs_disk_inode where
  "empty_din = \<lparr>di_size = 0, di_type = SFS_TYPE_FILE, di_nlinks = 1, di_blocks = 0, di_direct = replicate 12 0, di_indirect = 0\<rparr>"

definition demo_fs :: sfs_fs where
  "demo_fs = \<lparr>super = \<lparr>sb_magic = 0x2f8dbe2a, sb_blocks = 8, sb_unused = 4, sb_info = []\<rparr>, d_io = ram_disk,
     disk = (\<lambda>_. zero_block), freemap = \<lparr>nbits = 8, nwords = 1, bits = [0xF0]\<rparr>, super_dirty = False, sfs_buffer = [],
     sins = (\<lambda>_. \<lparr>si_din = empty_din, si_ino = 3, si_dirty = False, reclaim_count = 1\<rparr>), inode_list = [],
     hash_list = (\<lambda>_. []),
     inodes = (\<lambda>_. \<lparr>in_type = Inode_type_sfs_inode_info, ref_count = 1, open_count = 0, in_fs = True, in_ops = Sfs_node_fileops\<rparr>),
     kmem = [Some 100, Some 200]\<rparr>"

definition disk0_fs :: sfs_fs where
  "disk0_fs = demo_fs\<lparr>d_io := disk0_dev 1024\<rparr>"

section \<open>Little-endian words\<close>

lemma length_le [simp]: "length (le32 w) = 4" "length (le16 h) = 2" "length (le32n n) = 4"
  by (simp_all add: le32_def le16_def le32n_def)

lemma un_le32n_le32n [simp]: "n < 2 ^ 32 \<Longrightarrow> un_le32n (le32n n) = n"
  by (simp add: un_le32n_def le32n_def unat_of_nat take_bit_nat_eq_self)

text \<open>The readers look at the first bytes only.\<close>

lemma un_le_append [simp]:
  "un_le32n (le32n n @ bs) = un_le32n (le32n n)" "un_le16 (le16 w @ bs) = w"
  "un_le32 (le32 v @ bs) = v"
  using un_le16_le16 [of w] un_le32_le32 [of v]
  by (simp_all add: un_le32n_def un_le32_def un_le16_def nth_append le32n_def)


section \<open>Block I/O on a working device\<close>

lemma SFS_pos [simp]: "0 < SFS_BLKSIZE" "0 < SFS_BLK_NENTRY"
  by (simp_all add: SFS_BLKSIZE_def SFS_BLK_NENTRY_def)

lemma length_zero_block [simp]: "length zero_block = SFS_BLKSIZE"
  by (simp add: zero_block_def)

lemma rwblock_nolock_read [simp]:
  "dev_works s \<Longrightarrow> 0 < b \<Longrightarrow> b < sb_blocks (super s) \<Longrightarrow>
     sfs_rwblock_nolock False chk b data s = Some (Inr (disk s b), s)"
  by (simp add: sfs_rwblock_nolock_def dev_works_def)

lemma rwblock_nolock_write [simp]:
  "dev_works s \<Longrightarrow> 0 < b \<or> \<not> chk \<Longrightarrow> b < sb_blocks (super s) \<Longrightarrow>
     sfs_rwblock_nolock True chk b data s = Some (Inr data, s\<lparr>disk := after_write s (disk s) b data\<rparr>)"
  by (auto simp: sfs_rwblock_nolock_def dev_works_def dev_keeps_def dev_drops_def after_write_def)

lemma dev_keeps_upd [simp]:
  "dev_keeps (s\<lparr>disk := d\<rparr>) = dev_keeps s" "dev_keeps (s\<lparr>sfs_buffer := bf\<rparr>) = dev_keeps s"
  "dev_keeps (s\<lparr>freemap := fm\<rparr>) = dev_keeps s" "dev_keeps (s\<lparr>super_dirty := sd\<rparr>) = dev_keeps s"
  "dev_keeps (s\<lparr>sins := ss\<rparr>) = dev_keeps s"
  by (simp_all add: dev_keeps_def)

lemma dev_same:
  assumes "sb_blocks (super s') = sb_blocks (super s)" "d_io s' = d_io s"
  shows "dev_keeps s' = dev_keeps s" "dev_works s' = dev_works s" "after_write s' = after_write s"
  using assms by (simp_all add: dev_keeps_def dev_drops_def dev_works_def after_write_def fun_eq_iff)

lemma after_write_upd [simp]:
  "after_write (s\<lparr>disk := d\<rparr>) = after_write s" "after_write (s\<lparr>sfs_buffer := bf\<rparr>) = after_write s"
  by (simp_all add: after_write_def fun_eq_iff)

lemma after_write_keeps: "dev_keeps s \<Longrightarrow> after_write s d b v = d(b := v)"
  by (simp add: after_write_def)

lemma after_write_other [simp]: "c \<noteq> b \<Longrightarrow> after_write s d b v c = d c"
  by (simp add: after_write_def)

lemma length_after_write: "length v = n \<Longrightarrow> length (d c) = n \<Longrightarrow> length (after_write s d b v c) = n"
  by (simp add: after_write_def)

lemma dev_works_upd [simp]:
  "dev_works (s\<lparr>disk := d\<rparr>) = dev_works s" "dev_works (s\<lparr>sfs_buffer := bf\<rparr>) = dev_works s"
  "dev_works (s\<lparr>freemap := fm\<rparr>) = dev_works s" "dev_works (s\<lparr>super_dirty := sd\<rparr>) = dev_works s"
  "dev_works (s\<lparr>sins := ss\<rparr>) = dev_works s"
  by (rule dev_same; simp)+

lemma sfs_rbuf_ok:
  "dev_works s \<Longrightarrow> 0 < b \<Longrightarrow> b < sb_blocks (super s) \<Longrightarrow> offset < SFS_BLKSIZE \<Longrightarrow> offset + len \<le> SFS_BLKSIZE \<Longrightarrow>
     sfs_rbuf len b offset s = Some (Inr (take len (drop offset (disk s b))), s\<lparr>sfs_buffer := disk s b\<rparr>)"
  by (simp add: sfs_rbuf_def)

lemma sfs_wbuf_ok:
  "dev_works s \<Longrightarrow> 0 < b \<Longrightarrow> b < sb_blocks (super s) \<Longrightarrow> offset < SFS_BLKSIZE \<Longrightarrow>
     offset + length data \<le> SFS_BLKSIZE \<Longrightarrow>
     sfs_wbuf data b offset s = Some (Inr (), s\<lparr>sfs_buffer := patch (disk s b) offset data,
       disk := after_write s (disk s) b (patch (disk s b) offset data)\<rparr>)"
  by (simp add: sfs_wbuf_def patch_def Let_def)

lemma length_patch [simp]: "offset + length data \<le> length b \<Longrightarrow> length (patch b offset data) = length b"
  by (simp add: patch_def)

lemma entry_at_patch:
  assumes "length b = SFS_BLKSIZE" "i < SFS_BLK_NENTRY" "j < SFS_BLK_NENTRY" "v < 2 ^ 32"
  shows "entry_at (patch b (i * 4) (le32n v)) j = (if j = i then v else entry_at b j)"
proof -
  have "i * 4 + 4 \<le> length b" "j * 4 + 4 \<le> length b"
    using assms by (auto simp: SFS_BLK_NENTRY_def SFS_BLKSIZE_def)
  moreover have "j = i \<or> j * 4 + 4 \<le> i * 4 \<or> i * 4 + 4 \<le> j * 4"
    by arith
  ultimately show ?thesis
    using assms(4) by (auto simp: entry_at_def patch_def min_absorb1 take_drop drop_drop)
qed

lemma entry_at_zero [simp]: "j < SFS_BLK_NENTRY \<Longrightarrow> entry_at zero_block j = 0"
proof -
  assume "j < SFS_BLK_NENTRY"
  then have "j * 4 + 4 \<le> SFS_BLKSIZE"
    by (simp add: SFS_BLK_NENTRY_def SFS_BLKSIZE_def)
  then have "take 4 (drop (j * 4) zero_block) = le32n 0"
    by (simp add: zero_block_def le32n_def le32_def upt_rec numeral_eq_Suc)
  then show ?thesis
    by (simp add: entry_at_def)
qed

lemma sfs_clear_block_ok:
  "dev_works s \<Longrightarrow> 0 < b \<Longrightarrow> b < sb_blocks (super s) \<Longrightarrow>
     sfs_clear_block b 1 s = Some (Inr (), s\<lparr>sfs_buffer := zero_block, disk := after_write s (disk s) b zero_block\<rparr>)"
  by (simp add: sfs_clear_block_def zero_block_def [symmetric])


section \<open>Block allocation\<close>

lemma free_blocks_upd [simp]:
  "free_blocks (s\<lparr>disk := d\<rparr>) = free_blocks s" "free_blocks (s\<lparr>sfs_buffer := bf\<rparr>) = free_blocks s"
  "free_blocks (s\<lparr>freemap := fm\<rparr>) = free_bits fm" "free_blocks (s\<lparr>super_dirty := sd\<rparr>) = free_blocks s"
  "free_blocks (s\<lparr>super := sb\<rparr>) = free_blocks s" "free_blocks (s\<lparr>sins := ss\<rparr>) = free_blocks s"
  by (simp_all add: free_blocks_def)

lemma finite_free_blocks [simp]: "finite (free_blocks s)"
  by (simp add: free_blocks_def free_bits_def)

lemma sfs_block_inuse_ok:
  "sfs_ok s \<Longrightarrow> sfs_block_inuse s b =
     (if 0 < b \<and> b < sb_blocks (super s) then Some (used_block s b) else None)"
  by (auto simp: sfs_block_inuse_def sfs_ok_def used_block_def bitmap_test_ok free_blocks_def)

text \<open>What allocation and release change, as a relation between two states.\<close>

lemma sfs_block_alloc_ok:
  assumes "sfs_ok s"
  shows "if free_blocks s = {} then sfs_block_alloc s = Some (Inl E_NO_MEM, s)
    else \<exists>b s'. sfs_block_alloc s = Some (Inr b, s') \<and> b \<in> free_blocks s \<and> free_blocks s' = free_blocks s - {b} \<and>
      sfs_ok s' \<and> disk s' = after_write s (disk s) b zero_block \<and> sins s' = sins s \<and> sb_blocks (super s') = sb_blocks (super s) \<and> d_io s' = d_io s"
proof -
  have inv: "bitmap_inv (freemap s)" "dev_works s"
    using assms by (simp_all add: sfs_ok_def)
  note al = bitmap_alloc_ok [OF inv(1), folded free_blocks_def]
  show ?thesis
  proof (cases "free_blocks s = {}")
    case True
    then show ?thesis
      using al by (simp add: sfs_block_alloc_def free_blocks_def)
  next
    case False
    define b where "b = Min (free_blocks s)"
    have b: "b \<in> free_blocks s"
      using False by (simp add: b_def)
    then have bs: "0 < b" "b < sb_blocks (super s)"
      using assms by (auto simp: sfs_ok_def)
    obtain fm where fm: "bitmap_alloc (freemap s) = Some (Inr b, fm)" "bitmap_inv fm" "nbits fm = nbits (freemap s)"
      "free_bits fm = free_blocks s - {b}"
      using al False unfolding b_def free_blocks_def by auto
    define s1 where "s1 = upd_super (\<lambda>sb. sb\<lparr>sb_unused := sb_unused sb - 1\<rparr>) (s\<lparr>freemap := fm\<rparr>)"
    have s1: "super s1 = (super s)\<lparr>sb_unused := sb_unused (super s) - 1\<rparr>" "freemap s1 = fm" "disk s1 = disk s" "sins s1 = sins s" "d_io s1 = d_io s"
      by (simp_all add: s1_def upd_super_def)
    have f1: "free_blocks s1 = free_blocks s - {b}"
      using fm s1 by (simp add: free_blocks_def)
    have dw1: "dev_works s1" "after_write s1 = after_write s"
      using inv(2) dev_same [of s1 s] s1 by simp_all
    have ok1: "sfs_ok s1"
      using assms fm s1 f1 dw1 b unfolding sfs_ok_def by (auto simp: card_Diff_singleton)
    define s2 where "s2 = s1\<lparr>sfs_buffer := zero_block, disk := after_write s (disk s) b zero_block\<rparr>"
    have pos: "0 < sb_unused (super s)"
      using b assms by (auto simp: sfs_ok_def card_gt_0_iff)
    have "sfs_block_inuse s1 b = Some True"
      using sfs_block_inuse_ok [OF ok1] bs s1 f1 by (simp add: used_block_def)
    then have r: "sfs_block_alloc s = Some (Inr b, s2)"
      using fm pos bs s1 dw1 by (simp add: sfs_block_alloc_def s1_def [symmetric] sfs_clear_block_ok s2_def del: One_nat_def)
    have ok2: "sfs_ok s2"
      using ok1 s1(3) unfolding s2_def sfs_ok_def by (auto intro: length_after_write)
    from r ok2 b f1 s1 False show ?thesis
      by (auto simp: s2_def)
  qed
qed

text \<open>
  On a device that fails to write, the block that allocation could not clear is neither returned nor given back to the free map.
\<close>

lemma sfs_block_alloc_leak:
  assumes "bitmap_inv (freemap s)" "free_blocks s \<noteq> {}" "free_blocks s \<subseteq> {0<..<sb_blocks (super s)}" "sb_unused (super s) > 0"
    and "\<And>b data d. d_io s True b data d = (Inl e, d)"
  shows "\<exists>b s'. sfs_block_alloc s = Some (Inl e, s') \<and> b \<in> free_blocks s \<and> free_blocks s' = free_blocks s - {b}"
proof -
  define b where "b = Min (free_blocks s)"
  have "b \<in> free_blocks s"
    using assms(2) by (simp add: b_def)
  with assms(3) have b: "b \<in> free_blocks s" "0 < b" "b < sb_blocks (super s)"
    by auto
  obtain fm where fm: "bitmap_alloc (freemap s) = Some (Inr b, fm)" "bitmap_inv fm" "nbits fm = nbits (freemap s)"
    "free_bits fm = free_blocks s - {b}"
    using bitmap_alloc_ok [OF assms(1)] assms(2) unfolding b_def free_blocks_def by auto
  define s1 where "s1 = upd_super (\<lambda>sb. sb\<lparr>sb_unused := sb_unused sb - 1\<rparr>) (s\<lparr>freemap := fm\<rparr>)"
  have s1: "sb_blocks (super s1) = sb_blocks (super s)" "freemap s1 = fm" "d_io s1 = d_io s"
    by (simp_all add: s1_def upd_super_def)
  have "b < nbits fm"
    using b(1) fm(3) by (auto simp: free_blocks_def free_bits_def)
  then have "sfs_block_inuse s1 b = Some True"
    using b fm s1 bitmap_test_ok [OF fm(2)] by (simp add: sfs_block_inuse_def)
  moreover have "sfs_clear_block b 1 s1 = Some (Inl e, s1\<lparr>sfs_buffer := zero_block\<rparr>)"
    using b s1 assms(5) by (simp add: sfs_clear_block_def zero_block_def [symmetric] sfs_rwblock_nolock_def)
  ultimately have "sfs_block_alloc s = Some (Inl e, s1\<lparr>sfs_buffer := zero_block\<rparr>)"
    using fm assms(4) by (simp add: sfs_block_alloc_def s1_def [symmetric] del: One_nat_def)
  with b(1) fm(4) s1(2) show ?thesis
    by (auto simp: free_blocks_def)
qed

lemma sfs_block_free_ok:
  assumes "sfs_ok s" "used_block s b"
  shows "\<exists>s'. sfs_block_free b s = Some s' \<and> free_blocks s' = insert b (free_blocks s) \<and> sfs_ok s' \<and>
    disk s' = disk s \<and> sins s' = sins s \<and> sb_blocks (super s') = sb_blocks (super s) \<and> d_io s' = d_io s"
proof -
  have ub: "0 < b" "b < sb_blocks (super s)" "b \<notin> free_blocks s"
    using assms(2) by (auto simp: used_block_def)
  have inv: "bitmap_inv (freemap s)" "b < nbits (freemap s)"
    using assms(1) ub by (auto simp: sfs_ok_def)
  obtain fm where fm: "bitmap_free (freemap s) b = Some fm" "bitmap_inv fm" "nbits fm = nbits (freemap s)"
    "free_bits fm = insert b (free_blocks s)"
    using bitmap_free_ok [OF inv(1), of b] inv(2) ub(3) by (auto simp: free_blocks_def)
  define s1 where "s1 = upd_super (\<lambda>sb. sb\<lparr>sb_unused := sb_unused sb + 1\<rparr>) (s\<lparr>freemap := fm\<rparr>)"
  have s1: "super s1 = (super s)\<lparr>sb_unused := sb_unused (super s) + 1\<rparr>" "freemap s1 = fm" "disk s1 = disk s"
    "sins s1 = sins s" "d_io s1 = d_io s"
    by (simp_all add: s1_def upd_super_def)
  have f1: "free_blocks s1 = insert b (free_blocks s)"
    using fm s1 by (simp add: free_blocks_def)
  have ok1: "sfs_ok s1"
    using assms(1) fm s1 f1 ub dev_same(2) [of s1 s] unfolding sfs_ok_def by auto
  have "sfs_block_free b s = Some s1"
    using assms ub fm by (simp add: sfs_block_free_def sfs_block_inuse_ok s1_def)
  with ok1 f1 s1 show ?thesis
    by auto
qed


section \<open>The block map\<close>

lemma NDIRECT_le_MAX [simp]: "i < SFS_NDIRECT \<Longrightarrow> i < SFS_MAX_BLOCKS"
  by (simp add: SFS_MAX_BLOCKS_def)

lemma MAX_BLOCKS_sub: "\<not> i < SFS_NDIRECT \<Longrightarrow> i < SFS_MAX_BLOCKS \<Longrightarrow> i - SFS_NDIRECT < SFS_BLK_NENTRY"
  by (auto simp: SFS_MAX_BLOCKS_def)

lemma entry_offset: "i < SFS_BLK_NENTRY \<Longrightarrow> i * 4 < SFS_BLKSIZE \<and> i * 4 + 4 \<le> SFS_BLKSIZE"
  by (simp add: SFS_BLK_NENTRY_def SFS_BLKSIZE_def)

lemma used_blockD: "used_block s b \<Longrightarrow> 0 < b \<and> b < sb_blocks (super s) \<and> b \<notin> free_blocks s"
  by (simp add: used_block_def)

lemma free_blockD: "sfs_ok s \<Longrightarrow> b \<in> free_blocks s \<Longrightarrow> 0 < b \<and> b < sb_blocks (super s) \<and> b < 2 ^ 32 \<and> \<not> used_block s b"
  by (auto simp: sfs_ok_def used_block_def)

lemma sfs_ok_buffer [simp]: "sfs_ok (s\<lparr>sfs_buffer := bf\<rparr>) = sfs_ok s"
  by (simp add: sfs_ok_def)

lemma sfs_ok_sins [simp]: "sfs_ok (s\<lparr>sins := ss\<rparr>) = sfs_ok s"
  by (simp add: sfs_ok_def)

lemma sfs_ok_disk: "sfs_ok s \<Longrightarrow> length d = SFS_BLKSIZE \<Longrightarrow> sfs_ok (s\<lparr>disk := (disk s)(b := d)\<rparr>)"
  by (simp add: sfs_ok_def)

lemma upd_sin_simps [simp]:
  "sins (upd_sin sin f s) = (sins s)(sin := f (sins s sin))" "disk (upd_sin sin f s) = disk s"
  "super (upd_sin sin f s) = super s" "free_blocks (upd_sin sin f s) = free_blocks s"
  "sfs_ok (upd_sin sin f s) = sfs_ok s" "sfs_block_inuse (upd_sin sin f s) b = sfs_block_inuse s b"
  "d_io (upd_sin sin f s) = d_io s"
  by (simp_all add: upd_sin_def sfs_block_inuse_def)

lemma bmap_of_cong:
  "di_direct din' = di_direct din \<Longrightarrow> di_indirect din' = di_indirect din \<Longrightarrow>
     (di_indirect din \<noteq> 0 \<Longrightarrow> disk s' (di_indirect din) = disk s (di_indirect din)) \<Longrightarrow>
     bmap_of s' din' i = bmap_of s din i"
  by (simp add: bmap_of_def)

lemma inuse_buffer [simp]: "sfs_block_inuse (s\<lparr>sfs_buffer := bf\<rparr>) b = sfs_block_inuse s b"
  by (simp add: sfs_block_inuse_def)

lemma inuse_used: "sfs_ok s \<Longrightarrow> used_block s b \<Longrightarrow> sfs_block_inuse s b = Some True"
  by (simp add: sfs_block_inuse_ok used_block_def)

text \<open>Blocks that exist: the map is read, nothing changes but the buffer.\<close>

lemma bmap_get_existing:
  assumes ok: "sfs_ok s" and f: "file_ok s (si_din (sins s sin))" and i: "i < di_blocks (si_din (sins s sin))"
  shows "\<exists>bf. sfs_bmap_get_nolock sin i create s =
    Some (Inr (bmap_of s (si_din (sins s sin)) i), s\<lparr>sfs_buffer := bf\<rparr>)"
proof -
  define din where "din = si_din (sins s sin)"
  have u: "used_block s (bmap_of s din i)" and mx: "i < SFS_MAX_BLOCKS"
    using f i by (auto simp: file_ok_def din_def)
  have inuse: "sfs_block_inuse (s\<lparr>sfs_buffer := bf\<rparr>) (bmap_of s din i) = Some True" for bf
    using inuse_used [OF ok u] by simp
  show ?thesis
  proof (cases "i < SFS_NDIRECT")
    case True
    then have "bmap_of s din i = di_direct din ! i"
      by (simp add: bmap_of_def)
    with True u inuse [of "sfs_buffer s"] show ?thesis
      by (auto simp: sfs_bmap_get_nolock_def din_def [symmetric] used_block_def intro!: exI [of _ "sfs_buffer s"])
  next
    case False
    define ent where "ent = di_indirect din"
    define k where "k = i - SFS_NDIRECT"
    have k: "k < SFS_BLK_NENTRY"
      using MAX_BLOCKS_sub [OF False mx] by (simp add: k_def)
    have ent: "ent \<noteq> 0" "bmap_of s din i = entry_at (disk s ent) k"
      using u False by (auto simp: bmap_of_def ent_def k_def used_block_def split: if_splits)
    then have ue: "0 < ent" "ent < sb_blocks (super s)"
      using f by (auto simp: file_ok_def ent_def din_def used_block_def)
    have "sfs_bmap_get_sub_nolock ent k create s =
        Some (Inr (ent, bmap_of s din i), s\<lparr>sfs_buffer := disk s ent\<rparr>)"
      using ok k ent ue u entry_offset [OF k]
      by (simp add: sfs_bmap_get_sub_nolock_def sfs_rbuf_ok sfs_ok_def entry_at_def [symmetric] used_block_def Let_def)
    with False k u inuse show ?thesis
      by (auto simp: sfs_bmap_get_nolock_def din_def [symmetric] ent_def [symmetric] k_def [symmetric] used_block_def Let_def)
  qed
qed

lemma bmap_load_existing:
  assumes ok: "sfs_ok s" and f: "file_ok s (si_din (sins s sin))" and i: "i < di_blocks (si_din (sins s sin))"
  shows "\<exists>bf. sfs_bmap_load_nolock sin i s =
    Some (Inr (bmap_of s (si_din (sins s sin)) i), s\<lparr>sfs_buffer := bf\<rparr>)"
proof -
  obtain bf where g: "sfs_bmap_get_nolock sin i False s =
      Some (Inr (bmap_of s (si_din (sins s sin)) i), s\<lparr>sfs_buffer := bf\<rparr>)"
    using bmap_get_existing [OF ok f i] by blast
  have "used_block s (bmap_of s (si_din (sins s sin)) i)"
    using f i by (simp add: file_ok_def)
  then have "sfs_block_inuse (s\<lparr>sfs_buffer := bf\<rparr>) (bmap_of s (si_din (sins s sin)) i) = Some True"
    using inuse_used [OF ok] by simp
  with g i show ?thesis
    by (auto simp: sfs_bmap_load_nolock_def Let_def)
qed


text \<open>The map after an append determines that the file stays well-formed.\<close>

lemma file_ok_append:
  assumes ok: "sfs_ok s" and f: "file_ok s din" and b: "b \<in> free_blocks s"
    and n: "di_blocks din < SFS_MAX_BLOCKS" "di_blocks din' = di_blocks din + 1" "length (di_direct din') = SFS_NDIRECT"
    and fr: "free_blocks s' = free_blocks s - {b} - {di_indirect din'}" and sb: "sb_blocks (super s') = sb_blocks (super s)"
    and ind: "di_indirect din' = di_indirect din \<or> (di_indirect din = 0 \<and> di_indirect din' \<in> free_blocks s \<and> di_indirect din' \<noteq> b)"
    and m: "\<And>i. i < SFS_MAX_BLOCKS \<Longrightarrow> bmap_of s' din' i = (if i = di_blocks din then b else bmap_of s din i)"
  shows "file_ok s' din'"
proof -
  have ub: "used_block s' c" if "used_block s c" for c
    using that fr sb by (auto simp: used_block_def)
  have us: "used_block s (bmap_of s din i) \<and> bmap_of s din i \<noteq> di_indirect din" if "i < di_blocks din" for i
    using f that by (simp add: file_ok_def)
  have bn: "used_block s' b" "b \<noteq> di_indirect din'"
    using free_blockD [OF ok b] fr sb f ind by (auto simp: used_block_def file_ok_def)
  have ui: "bmap_of s din i \<noteq> di_indirect din' \<and> bmap_of s din i \<noteq> b" if "i < di_blocks din" for i
    using us [OF that] ind b by (auto simp: used_block_def)
  have entries: "used_block s' (bmap_of s' din' i) \<and> bmap_of s' din' i \<noteq> di_indirect din'" if "i < di_blocks din'" for i
    using that m [of i] n ub [of "bmap_of s din i"] us [of i] ui [of i] bn by (auto simp: less_Suc_eq)
  have "inj_on (bmap_of s din) {..<di_blocks din}"
    using f by (simp add: file_ok_def)
  then have inj: "inj_on (bmap_of s' din') {..<di_blocks din'}"
    using ui m n by (fastforce simp: inj_on_def less_Suc_eq)
  have "di_indirect din' \<noteq> 0 \<longrightarrow> used_block s' (di_indirect din')"
    using ind ub f free_blockD [OF ok] fr sb by (auto simp: file_ok_def used_block_def)
  then show ?thesis
    using entries inj m n f unfolding file_ok_def by (auto simp: less_Suc_eq)
qed

lemma appendedI:
  assumes "sfs_ok s" "file_ok s (si_din (sins s sin))" "di_blocks (si_din (sins s sin)) < SFS_MAX_BLOCKS"
    and "b \<in> free_blocks s" "sfs_ok s'" "if dev_keeps s then disk s' b = zero_block else disk s' = disk s"
    and "di_blocks (si_din (sins s' sin)) = di_blocks (si_din (sins s sin)) + 1"
    and "di_size (si_din (sins s' sin)) = di_size (si_din (sins s sin))"
    and "di_type (si_din (sins s' sin)) = di_type (si_din (sins s sin))"
    and "di_nlinks (si_din (sins s' sin)) = di_nlinks (si_din (sins s sin))"
    and "length (di_direct (si_din (sins s' sin))) = SFS_NDIRECT"
    and "\<And>i. i < SFS_MAX_BLOCKS \<Longrightarrow> bmap_of s' (si_din (sins s' sin)) i =
      (if i = di_blocks (si_din (sins s sin)) then b else bmap_of s (si_din (sins s sin)) i)"
    and "free_blocks s' = free_blocks s - {b} - {di_indirect (si_din (sins s' sin))}"
    and "if blocks_needed (si_din (sins s sin)) = 1 then di_indirect (si_din (sins s' sin)) = di_indirect (si_din (sins s sin))
      else di_indirect (si_din (sins s' sin)) \<in> free_blocks s \<and> di_indirect (si_din (sins s' sin)) \<noteq> b"
    and "\<And>c. c \<noteq> b \<Longrightarrow> c = 0 \<or> c \<noteq> di_indirect (si_din (sins s' sin)) \<Longrightarrow> disk s' c = disk s c"
    and "\<And>x. x \<noteq> sin \<Longrightarrow> sins s' x = sins s x" "sb_blocks (super s') = sb_blocks (super s)" "d_io s' = d_io s"
  shows "appended sin b s s'"
proof -
  have ind: "di_indirect (si_din (sins s' sin)) = di_indirect (si_din (sins s sin)) \<or>
    (di_indirect (si_din (sins s sin)) = 0 \<and> di_indirect (si_din (sins s' sin)) \<in> free_blocks s \<and> di_indirect (si_din (sins s' sin)) \<noteq> b)"
    using assms(14) by (auto simp: blocks_needed_def split: if_splits)
  have f: "file_ok s' (si_din (sins s' sin))"
    by (rule file_ok_append [OF assms(1,2,4,3,7,11,13,17) ind assms(12)])
  have "card (free_blocks s) = card (free_blocks s') + blocks_needed (si_din (sins s sin))"
  proof (cases "blocks_needed (si_din (sins s sin)) = 1")
    case True
    then have "di_indirect (si_din (sins s' sin)) \<notin> free_blocks s"
      using assms(2,14) free_blockD [OF assms(1), of "di_indirect (si_din (sins s' sin))"] by (auto simp: file_ok_def)
    then have "free_blocks s' = free_blocks s - {b}"
      using assms(13) by blast
    then show ?thesis
      using True assms(4) card_Suc_Diff1 [OF finite_free_blocks assms(4)] by simp
  next
    case False
    then have d: "di_indirect (si_din (sins s' sin)) \<in> free_blocks s - {b}" "blocks_needed (si_din (sins s sin)) = 2"
      using assms(14) by (auto simp: blocks_needed_def split: if_splits)
    have "finite (free_blocks s - {b})"
      by simp
    from card_Suc_Diff1 [OF this d(1)] card_Suc_Diff1 [OF finite_free_blocks assms(4)] d(2) assms(13) show ?thesis
      by simp
  qed
  with f assms show ?thesis
    unfolding appended_def Let_def by blast
qed


text \<open>Appending a direct block.\<close>

lemma bmap_load_append_direct:
  assumes ok: "sfs_ok s" and f: "file_ok s (si_din (sins s sin))" and i: "di_blocks (si_din (sins s sin)) < SFS_NDIRECT"
  shows "if free_blocks s = {} then sfs_bmap_load_nolock sin (di_blocks (si_din (sins s sin))) s = Some (Inl E_NO_MEM, s)
    else \<exists>b s'. sfs_bmap_load_nolock sin (di_blocks (si_din (sins s sin))) s = Some (Inr b, s') \<and> appended sin b s s'"
proof -
  define din where "din = si_din (sins s sin)"
  define n where "n = di_blocks din"
  have n: "n < SFS_NDIRECT" "length (di_direct din) = SFS_NDIRECT"
    using i f by (simp_all add: n_def din_def file_ok_def)
  have z: "di_direct din ! n = 0"
    using f n NDIRECT_le_MAX [OF n(1)] by (auto simp: file_ok_def bmap_of_def n_def din_def [symmetric])
  show ?thesis
  proof (cases "free_blocks s = {}")
    case True
    then show ?thesis
      using sfs_block_alloc_ok [OF ok] n z
      by (simp add: sfs_bmap_load_nolock_def sfs_bmap_get_nolock_def din_def [symmetric] n_def [symmetric])
  next
    case False
    then obtain b s1 where al: "sfs_block_alloc s = Some (Inr b, s1)" "b \<in> free_blocks s"
      "free_blocks s1 = free_blocks s - {b}" "sfs_ok s1" "disk s1 = after_write s (disk s) b zero_block" "sins s1 = sins s"
      "sb_blocks (super s1) = sb_blocks (super s)" "d_io s1 = d_io s"
      using sfs_block_alloc_ok [OF ok] by auto
    note fb = free_blockD [OF ok al(2)]
    have "used_block s1 b"
      using fb al by (simp add: used_block_def)
    from inuse_used [OF al(4) this] have u: "sfs_block_inuse s1 b = Some True" .
    define s3 where "s3 = upd_din sin (\<lambda>din. din\<lparr>di_blocks := di_blocks din + 1\<rparr>)
      (upd_sin sin (\<lambda>x. x\<lparr>si_dirty := True\<rparr>) (upd_din sin (\<lambda>din. din\<lparr>di_direct := (di_direct din)[n := b]\<rparr>) s1))"
    have load: "sfs_bmap_load_nolock sin n s = Some (Inr b, s3)"
      using n z al u fb by (simp add: sfs_bmap_load_nolock_def sfs_bmap_get_nolock_def din_def [symmetric]
          n_def [symmetric] s3_def upd_din_def Let_def)
    have s3: "si_din (sins s3 sin) = din\<lparr>di_blocks := n + 1, di_direct := (di_direct din)[n := b]\<rparr>"
      "disk s3 = after_write s (disk s) b zero_block" "free_blocks s3 = free_blocks s - {b}" "sfs_ok s3"
      "super s3 = super s1" "d_io s3 = d_io s" "\<And>x. x \<noteq> sin \<Longrightarrow> sins s3 x = sins s x"
      using al by (simp_all add: s3_def upd_din_def din_def n_def)
    have "di_indirect din \<noteq> b" "di_indirect din \<notin> free_blocks s"
      using f fb free_blockD [OF ok, of "di_indirect din"] by (auto simp: file_ok_def din_def)
    then have "appended sin b s s3"
      using n s3 al by (intro appendedI [OF ok f])
        (auto simp: din_def [symmetric] n_def [symmetric] bmap_of_def nth_list_update blocks_needed_def after_write_def)
    with load False show ?thesis
      by (auto simp: din_def n_def)
  qed
qed

text \<open>The second half of an append behind the direct blocks: a block for the data and its entry.\<close>

lemma sub_alloc_ok:
  assumes ok: "sfs_ok s" and kp: "dev_keeps s" and e: "used_block s ent" and k: "k < SFS_BLK_NENTRY" and c: "ent = entp \<or> entp = 0"
  shows "if free_blocks s = {} then
      \<exists>s'. sub_alloc ent entp (k * 4) s = Some (Inl E_NO_MEM, s') \<and>
        (if ent = entp then s' = s
         else free_blocks s' = insert ent (free_blocks s) \<and> sfs_ok s' \<and> disk s' = disk s \<and> sins s' = sins s \<and>
           sb_blocks (super s') = sb_blocks (super s) \<and> d_io s' = d_io s)
    else \<exists>b s'. sub_alloc ent entp (k * 4) s = Some (Inr (ent, b), s') \<and> b \<in> free_blocks s \<and>
      free_blocks s' = free_blocks s - {b} \<and> sfs_ok s' \<and>
      disk s' = (disk s)(b := zero_block, ent := patch (disk s ent) (k * 4) (le32n b)) \<and> sins s' = sins s \<and>
      sb_blocks (super s') = sb_blocks (super s) \<and> d_io s' = d_io s"
proof (cases "free_blocks s = {}")
  case True
  then show ?thesis
    using sfs_block_alloc_ok [OF ok] sfs_block_free_ok [OF ok e] by (auto simp: sub_alloc_def sub_cleanup_def)
next
  case False
  then obtain b s1 where al: "sfs_block_alloc s = Some (Inr b, s1)" "b \<in> free_blocks s"
    "free_blocks s1 = free_blocks s - {b}" "sfs_ok s1" "disk s1 = (disk s)(b := zero_block)" "sins s1 = sins s"
    "sb_blocks (super s1) = sb_blocks (super s)" "d_io s1 = d_io s"
    using sfs_block_alloc_ok [OF ok] after_write_keeps [OF kp] by auto
  have kp1: "after_write s1 d c v = d(c := v)" for d c v
    using dev_same(3) [OF al(7,8)] after_write_keeps [OF kp] by simp
  note ue = used_blockD [OF e]
  have neq: "ent \<noteq> b"
    using al(2) ue by auto
  then have de: "disk s1 ent = disk s ent"
    using al by simp
  define p where "p = patch (disk s ent) (k * 4) (le32n b)"
  have "length (disk s ent) = SFS_BLKSIZE"
    using ok ue by (simp add: sfs_ok_def)
  then have lp: "length p = SFS_BLKSIZE"
    using entry_offset [OF k] by (simp add: p_def)
  define s2 where "s2 = s1\<lparr>sfs_buffer := p, disk := (disk s1)(ent := p)\<rparr>"
  have "sfs_wbuf (le32n b) ent (k * 4) s1 = Some (Inr (), s2)"
    using sfs_wbuf_ok [of s1 ent "k * 4" "le32n b"] neq al ue entry_offset [OF k]
    by (simp add: sfs_ok_def de p_def s2_def kp1)
  then have "sub_alloc ent entp (k * 4) s = Some (Inr (ent, b), s2)"
    using al by (simp add: sub_alloc_def)
  moreover have "sfs_ok s2"
    using al(4) lp by (simp add: s2_def sfs_ok_def)
  ultimately show ?thesis
    using al False by (auto simp: s2_def p_def)
qed


text \<open>Appending a block whose entry is in the indirect block \<open>ent\<close>, new or old, after \<open>sub_alloc\<close>.\<close>

lemma appended_indirect:
  assumes ok: "sfs_ok s" and kp: "dev_keeps s" and f: "file_ok s (si_din (sins s sin))"
    and n: "\<not> di_blocks (si_din (sins s sin)) < SFS_NDIRECT" "di_blocks (si_din (sins s sin)) < SFS_MAX_BLOCKS"
    and e: "ent = di_indirect (si_din (sins s sin)) \<and> ent \<noteq> 0 \<and> eb = disk s ent \<or>
      di_indirect (si_din (sins s sin)) = 0 \<and> ent \<in> free_blocks s \<and> ent \<noteq> b \<and> eb = zero_block"
    and b: "b \<in> free_blocks s" "free_blocks s2 = free_blocks s - {b} - {ent}" "sfs_ok s2"
      "disk s2 = (disk s)(b := zero_block, ent := patch eb ((di_blocks (si_din (sins s sin)) - SFS_NDIRECT) * 4) (le32n b))"
      "sb_blocks (super s2) = sb_blocks (super s)" "d_io s2 = d_io s"
    and x: "sins s2 = (sins s)(sin := x)" "si_din x = (si_din (sins s sin))\<lparr>di_indirect := ent, di_blocks := di_blocks (si_din (sins s sin)) + 1\<rparr>"
  shows "appended sin b s s2"
proof -
  define din where "din = si_din (sins s sin)"
  define k where "k = di_blocks din - SFS_NDIRECT"
  have k: "k < SFS_BLK_NENTRY"
    using n MAX_BLOCKS_sub by (simp add: k_def din_def)
  note fb = free_blockD [OF ok b(1)]
  have eu: "ent \<noteq> 0" "ent \<noteq> b" "ent < sb_blocks (super s)"
    using e f fb free_blockD [OF ok, of ent] by (auto simp: file_ok_def used_block_def)
  have le: "length eb = SFS_BLKSIZE"
    using e ok eu by (auto simp: sfs_ok_def)
  have old: "entry_at eb j = bmap_of s din (j + SFS_NDIRECT)" if "j < SFS_BLK_NENTRY" for j
    using that e by (auto simp: bmap_of_def din_def)
  have m: "bmap_of s2 (si_din (sins s2 sin)) i = (if i = di_blocks din then b else bmap_of s din i)"
    if "i < SFS_MAX_BLOCKS" for i
  proof (cases "i < SFS_NDIRECT")
    case True
    then show ?thesis
      using x n by (auto simp: bmap_of_def din_def)
  next
    case False
    have j: "i - SFS_NDIRECT < SFS_BLK_NENTRY" "i - SFS_NDIRECT + SFS_NDIRECT = i"
      using False MAX_BLOCKS_sub [OF False that] by auto
    have "i - SFS_NDIRECT = k \<longleftrightarrow> i = di_blocks din"
      using False n by (auto simp: k_def din_def)
    moreover have "bmap_of s2 (si_din (sins s2 sin)) i = entry_at (patch eb (k * 4) (le32n b)) (i - SFS_NDIRECT)"
      using False x eu b(4) by (simp add: bmap_of_def din_def k_def)
    ultimately show ?thesis
      using entry_at_patch [OF le k j(1), of b] old [OF j(1)] j fb by simp
  qed
  show ?thesis
    using e eu x b n f m kp by (intro appendedI [OF ok f]) (auto simp: din_def blocks_needed_def file_ok_def)
qed


lemma bmap_load_of_sub:
  assumes n: "\<not> di_blocks (si_din (sins s sin)) < SFS_NDIRECT" "di_blocks (si_din (sins s sin)) < SFS_MAX_BLOCKS"
    and sub: "sfs_bmap_get_sub_nolock (di_indirect (si_din (sins s sin))) (di_blocks (si_din (sins s sin)) - SFS_NDIRECT) True s =
      Some (Inr (ent, b), s1)"
    and e: "ent = di_indirect (si_din (sins s sin)) \<or> di_indirect (si_din (sins s sin)) = 0"
    and s1: "sfs_ok s1" "used_block s1 b" "sins s1 = sins s"
  shows "\<exists>x. sfs_bmap_load_nolock sin (di_blocks (si_din (sins s sin))) s = Some (Inr b, s1\<lparr>sins := (sins s)(sin := x)\<rparr>) \<and>
    si_din x = (si_din (sins s sin))\<lparr>di_indirect := ent, di_blocks := di_blocks (si_din (sins s sin)) + 1\<rparr>"
proof -
  note iu = inuse_used [OF s1(1,2)]
  have b0: "b \<noteq> 0"
    using s1(2) by (simp add: used_block_def)
  have k: "di_blocks (si_din (sins s sin)) - SFS_NDIRECT < SFS_BLK_NENTRY"
    using MAX_BLOCKS_sub [OF n] .
  define s2 where "s2 = (if ent \<noteq> di_indirect (si_din (sins s sin))
    then upd_sin sin (\<lambda>x. x\<lparr>si_dirty := True\<rparr>) (upd_din sin (\<lambda>din. din\<lparr>di_indirect := ent\<rparr>) s1) else s1)"
  have "sfs_bmap_get_nolock sin (di_blocks (si_din (sins s sin))) True s = Some (Inr b, s2)"
    using n k sub e iu b0 s1(3)
    by (auto simp: sfs_bmap_get_nolock_def s2_def upd_din_def Let_def)
  moreover have "sfs_block_inuse s2 b = Some True"
    using iu by (simp add: s2_def upd_din_def)
  ultimately have load: "sfs_bmap_load_nolock sin (di_blocks (si_din (sins s sin))) s =
      Some (Inr b, upd_din sin (\<lambda>din. din\<lparr>di_blocks := di_blocks din + 1\<rparr>) s2)"
    by (simp add: sfs_bmap_load_nolock_def Let_def)
  define x where "x = sins (upd_din sin (\<lambda>din. din\<lparr>di_blocks := di_blocks din + 1\<rparr>) s2) sin"
  have "upd_din sin (\<lambda>din. din\<lparr>di_blocks := di_blocks din + 1\<rparr>) s2 = s1\<lparr>sins := (sins s)(sin := x)\<rparr>"
    using s1(3) by (simp add: x_def s2_def upd_din_def upd_sin_def)
  moreover have "si_din x = (si_din (sins s sin))\<lparr>di_indirect := ent, di_blocks := di_blocks (si_din (sins s sin)) + 1\<rparr>"
    using s1(3) by (simp add: x_def s2_def upd_din_def)
  ultimately show ?thesis
    using load by auto
qed

lemma bmap_load_append_old_entry:
  assumes ok: "sfs_ok s" and kp: "dev_keeps s" and f: "file_ok s (si_din (sins s sin))"
    and n: "\<not> di_blocks (si_din (sins s sin)) < SFS_NDIRECT" "di_blocks (si_din (sins s sin)) < SFS_MAX_BLOCKS"
    and e: "di_indirect (si_din (sins s sin)) \<noteq> 0"
  shows "if free_blocks s = {} then
      \<exists>bf. sfs_bmap_load_nolock sin (di_blocks (si_din (sins s sin))) s = Some (Inl E_NO_MEM, s\<lparr>sfs_buffer := bf\<rparr>)
    else \<exists>b s'. sfs_bmap_load_nolock sin (di_blocks (si_din (sins s sin))) s = Some (Inr b, s') \<and> appended sin b s s'"
proof -
  define ent where "ent = di_indirect (si_din (sins s sin))"
  define k where "k = di_blocks (si_din (sins s sin)) - SFS_NDIRECT"
  define s0 where "s0 = s\<lparr>sfs_buffer := disk s ent\<rparr>"
  have k: "k < SFS_BLK_NENTRY"
    using MAX_BLOCKS_sub [OF n] by (simp add: k_def)
  have ue: "used_block s ent"
    using f e by (simp add: file_ok_def ent_def)
  have ok0: "sfs_ok s0" "dev_keeps s0" "used_block s0 ent" "free_blocks s0 = free_blocks s"
    using ok kp ue by (simp_all add: s0_def used_block_def)
  have "entry_at (disk s ent) k = 0"
    using f n e unfolding file_ok_def bmap_of_def by (auto simp: k_def ent_def)
  then have sub: "sfs_bmap_get_sub_nolock ent k True s = sub_alloc ent ent (k * 4) s0"
    using ok k ue e entry_offset [OF k]
    by (simp add: sfs_bmap_get_sub_nolock_def sfs_rbuf_ok sfs_ok_def used_block_def entry_at_def s0_def Let_def)
  show ?thesis
  proof (cases "free_blocks s = {}")
    case True
    then have "sfs_bmap_get_sub_nolock ent k True s = Some (Inl E_NO_MEM, s0)"
      using sub_alloc_ok [OF ok0(1-3) k, of ent] sub ok0(4) by simp
    then have "sfs_bmap_load_nolock sin (di_blocks (si_din (sins s sin))) s = Some (Inl E_NO_MEM, s0)"
      using n k by (simp add: sfs_bmap_load_nolock_def sfs_bmap_get_nolock_def Let_def ent_def k_def)
    with True show ?thesis
      by (auto simp: s0_def)
  next
    case False
    then obtain b s1 where sa: "sub_alloc ent ent (k * 4) s0 = Some (Inr (ent, b), s1)" "b \<in> free_blocks s"
      "free_blocks s1 = free_blocks s - {b}" "sfs_ok s1"
      "disk s1 = (disk s0)(b := zero_block, ent := patch (disk s0 ent) (k * 4) (le32n b))" "sins s1 = sins s0"
      "sb_blocks (super s1) = sb_blocks (super s0)" "d_io s1 = d_io s0"
      using sub_alloc_ok [OF ok0(1-3) k, of ent] ok0(4) by auto
    have ub: "used_block s1 b"
      using free_blockD [OF ok sa(2)] sa by (simp add: used_block_def s0_def)
    have ss: "sins s1 = sins s" "disk s0 = disk s" "sb_blocks (super s0) = sb_blocks (super s)" "d_io s0 = d_io s"
      using sa by (simp_all add: s0_def)
    have sub': "sfs_bmap_get_sub_nolock (di_indirect (si_din (sins s sin))) (di_blocks (si_din (sins s sin)) - SFS_NDIRECT) True s =
        Some (Inr (ent, b), s1)"
      using sub sa(1) by (simp add: k_def ent_def)
    obtain x where x: "sfs_bmap_load_nolock sin (di_blocks (si_din (sins s sin))) s = Some (Inr b, s1\<lparr>sins := (sins s)(sin := x)\<rparr>)"
      "si_din x = (si_din (sins s sin))\<lparr>di_indirect := ent, di_blocks := di_blocks (si_din (sins s sin)) + 1\<rparr>"
      using bmap_load_of_sub [OF n sub' _ sa(4) ub ss(1)] by (auto simp: ent_def)
    have "appended sin b s (s1\<lparr>sins := (sins s)(sin := x)\<rparr>)"
    proof (rule appended_indirect [OF ok kp f n, where ent = ent and eb = "disk s ent" and x = x])
      show "ent = di_indirect (si_din (sins s sin)) \<and> ent \<noteq> 0 \<and> disk s ent = disk s ent \<or>
        di_indirect (si_din (sins s sin)) = 0 \<and> ent \<in> free_blocks s \<and> ent \<noteq> b \<and> disk s ent = zero_block"
        using e by (simp add: ent_def)
      show "free_blocks (s1\<lparr>sins := (sins s)(sin := x)\<rparr>) = free_blocks s - {b} - {ent}"
        using sa(3) used_blockD [OF ue] by simp
    qed (simp_all add: sa ss x(2) k_def [symmetric])
    with x False show ?thesis
      by auto
  qed
qed


lemma bmap_load_append_new_entry:
  assumes ok: "sfs_ok s" and kp: "dev_keeps s" and f: "file_ok s (si_din (sins s sin))"
    and n: "\<not> di_blocks (si_din (sins s sin)) < SFS_NDIRECT" "di_blocks (si_din (sins s sin)) < SFS_MAX_BLOCKS"
    and e: "di_indirect (si_din (sins s sin)) = 0"
  shows "if card (free_blocks s) < 2 then
      \<exists>s'. sfs_bmap_load_nolock sin (di_blocks (si_din (sins s sin))) s = Some (Inl E_NO_MEM, s') \<and> undone s s'
    else \<exists>b s'. sfs_bmap_load_nolock sin (di_blocks (si_din (sins s sin))) s = Some (Inr b, s') \<and> appended sin b s s'"
proof -
  define k where "k = di_blocks (si_din (sins s sin)) - SFS_NDIRECT"
  have k: "k < SFS_BLK_NENTRY"
    using MAX_BLOCKS_sub [OF n] by (simp add: k_def)
  have err: "sfs_bmap_load_nolock sin (di_blocks (si_din (sins s sin))) s = Some (Inl E_NO_MEM, s')"
    if "sfs_bmap_get_sub_nolock 0 k True s = Some (Inl E_NO_MEM, s')" for s'
    using that n k e by (simp add: sfs_bmap_load_nolock_def sfs_bmap_get_nolock_def Let_def k_def)
  show ?thesis
  proof (cases "free_blocks s = {}")
    case True
    then have "sfs_bmap_get_sub_nolock 0 k True s = Some (Inl E_NO_MEM, s)"
      using sfs_block_alloc_ok [OF ok] k by (simp add: sfs_bmap_get_sub_nolock_def)
    from err [OF this] show ?thesis
      using ok True by (auto simp: undone_def)
  next
    case False
    then obtain ent s0 where al: "sfs_block_alloc s = Some (Inr ent, s0)" "ent \<in> free_blocks s"
      "free_blocks s0 = free_blocks s - {ent}" "sfs_ok s0" "disk s0 = (disk s)(ent := zero_block)" "sins s0 = sins s"
      "sb_blocks (super s0) = sb_blocks (super s)" "d_io s0 = d_io s"
      using sfs_block_alloc_ok [OF ok] after_write_keeps [OF kp] by auto
    have kp0: "dev_keeps s0"
      using dev_same(1) [OF al(7,8)] kp by simp
    note fe = free_blockD [OF ok al(2)]
    have ue: "used_block s0 ent"
      using fe al by (simp add: used_block_def)
    have sub: "sfs_bmap_get_sub_nolock 0 k True s = sub_alloc ent 0 (k * 4) s0"
      using k al by (simp add: sfs_bmap_get_sub_nolock_def)
    have card: "card (free_blocks s) = Suc (card (free_blocks s0))"
      using card_Suc_Diff1 [OF finite_free_blocks al(2)] al(3) by simp
    show ?thesis
    proof (cases "free_blocks s0 = {}")
      case True
      then obtain s' where s': "sub_alloc ent 0 (k * 4) s0 = Some (Inl E_NO_MEM, s')"
        "free_blocks s' = insert ent (free_blocks s0)" "sfs_ok s'" "disk s' = disk s0" "sins s' = sins s0"
        "sb_blocks (super s') = sb_blocks (super s0)" "d_io s' = d_io s0"
        using sub_alloc_ok [OF al(4) kp0 ue k, of 0] fe by auto
      then have "undone s s'"
        using al True kp by (auto simp: undone_def)
      with err sub s' card True show ?thesis
        by auto
    next
      case nonempty: False
      then obtain b s1 where sa: "sub_alloc ent 0 (k * 4) s0 = Some (Inr (ent, b), s1)" "b \<in> free_blocks s0"
        "free_blocks s1 = free_blocks s0 - {b}" "sfs_ok s1"
        "disk s1 = (disk s0)(b := zero_block, ent := patch (disk s0 ent) (k * 4) (le32n b))" "sins s1 = sins s0"
        "sb_blocks (super s1) = sb_blocks (super s0)" "d_io s1 = d_io s0"
        using sub_alloc_ok [OF al(4) kp0 ue k, of 0] by auto
      have b: "b \<in> free_blocks s" "b \<noteq> ent"
        using sa(2) al(3) by auto
      have ub: "used_block s1 b"
        using free_blockD [OF ok b(1)] sa al by (simp add: used_block_def)
      have ss: "sins s1 = sins s"
        using sa al by simp
      have sub': "sfs_bmap_get_sub_nolock (di_indirect (si_din (sins s sin))) (di_blocks (si_din (sins s sin)) - SFS_NDIRECT) True s =
          Some (Inr (ent, b), s1)"
        using sub sa(1) e by (simp add: k_def)
      obtain x where x: "sfs_bmap_load_nolock sin (di_blocks (si_din (sins s sin))) s = Some (Inr b, s1\<lparr>sins := (sins s)(sin := x)\<rparr>)"
        "si_din x = (si_din (sins s sin))\<lparr>di_indirect := ent, di_blocks := di_blocks (si_din (sins s sin)) + 1\<rparr>"
        using bmap_load_of_sub [OF n sub' _ sa(4) ub ss] e by blast
      have "appended sin b s (s1\<lparr>sins := (sins s)(sin := x)\<rparr>)"
      proof (rule appended_indirect [OF ok kp f n, where ent = ent and eb = zero_block and x = x])
        show "disk (s1\<lparr>sins := (sins s)(sin := x)\<rparr>) =
          (disk s)(b := zero_block, ent := patch zero_block ((di_blocks (si_din (sins s sin)) - SFS_NDIRECT) * 4) (le32n b))"
          using sa(5) al(5) b(2) by (auto simp: k_def)
        show "free_blocks (s1\<lparr>sins := (sins s)(sin := x)\<rparr>) = free_blocks s - {b} - {ent}"
          using sa(3) al(3) by auto
      qed (use e al b sa x(2) in auto)
      with x nonempty card show ?thesis
        by (auto simp: card_gt_0_iff Suc_le_eq not_less numeral_2_eq_2)
    qed
  qed
qed

lemma bmap_load_append:
  assumes ok: "sfs_ok s" and f: "file_ok s (si_din (sins s sin))" and n: "di_blocks (si_din (sins s sin)) < SFS_MAX_BLOCKS"
    and kp: "dev_keeps s \<or> di_blocks (si_din (sins s sin)) < SFS_NDIRECT"
  shows "if card (free_blocks s) < blocks_needed (si_din (sins s sin)) then
      \<exists>s'. sfs_bmap_load_nolock sin (di_blocks (si_din (sins s sin))) s = Some (Inl E_NO_MEM, s') \<and> undone s s'
    else \<exists>b s'. sfs_bmap_load_nolock sin (di_blocks (si_din (sins s sin))) s = Some (Inr b, s') \<and> appended sin b s s'"
proof -
  have un: "undone s s" "undone s (s\<lparr>sfs_buffer := bf\<rparr>)" for bf
    using ok by (simp_all add: undone_def)
  have c0: "card (free_blocks s) < 1 \<longleftrightarrow> free_blocks s = {}"
    by simp
  show ?thesis
  proof (cases "di_blocks (si_din (sins s sin)) < SFS_NDIRECT")
    case True
    then show ?thesis
      using bmap_load_append_direct [OF ok f True] un c0 by (auto simp: blocks_needed_def)
  next
    case False
    then show ?thesis
      using bmap_load_append_old_entry [OF ok _ f False n] bmap_load_append_new_entry [OF ok _ f False n] kp un c0
      by (cases "di_indirect (si_din (sins s sin)) = 0") (auto simp: blocks_needed_def)
  qed
qed


text \<open>Dropping the last block.\<close>

lemma file_ok_drop:
  assumes f: "file_ok s din" and n: "di_blocks din = Suc n" "di_blocks din' = n" "length (di_direct din') = SFS_NDIRECT"
    and fr: "free_blocks s' = insert (bmap_of s din n) (free_blocks s)" "sb_blocks (super s') = sb_blocks (super s)"
    and ind: "di_indirect din' = di_indirect din"
    and m: "\<And>i. i < SFS_MAX_BLOCKS \<Longrightarrow> bmap_of s' din' i = (if i = n then 0 else bmap_of s din i)"
  shows "file_ok s' din'"
proof -
  define b where "b = bmap_of s din n"
  have nm: "n < SFS_MAX_BLOCKS"
    using f n by (simp add: file_ok_def)
  have ub: "used_block s' c" if "used_block s c" "c \<noteq> b" for c
    using that fr by (simp add: used_block_def b_def)
  have inj: "inj_on (bmap_of s din) {..<Suc n}" and us: "\<And>i. i < Suc n \<Longrightarrow> used_block s (bmap_of s din i) \<and> bmap_of s din i \<noteq> di_indirect din"
    and zs: "\<And>i. Suc n \<le> i \<Longrightarrow> i < SFS_MAX_BLOCKS \<Longrightarrow> bmap_of s din i = 0"
    using f n by (simp_all add: file_ok_def)
  have ne: "bmap_of s din i \<noteq> b" if "i < n" for i
    using inj_onD [OF inj, of i n] that by (auto simp: b_def)
  have m': "bmap_of s' din' i = bmap_of s din i" if "i < n" for i
    using m [of i] that nm by simp
  have "inj_on (bmap_of s' din') {..<n}"
    using inj m' by (auto simp: inj_on_def)
  moreover have "used_block s' (bmap_of s' din' i) \<and> bmap_of s' din' i \<noteq> di_indirect din'" if "i < n" for i
    using ub us [of i] ne [OF that] m' [OF that] that ind by simp
  moreover have "bmap_of s' din' i = 0" if "n \<le> i" "i < SFS_MAX_BLOCKS" for i
    using m [OF that(2)] zs [of i] that by (cases "i = n") simp_all
  moreover have "used_block s' (di_indirect din')" if "di_indirect din' \<noteq> 0"
    using ub [of "di_indirect din"] f that ind us [of n] by (auto simp: file_ok_def b_def)
  ultimately show ?thesis
    unfolding file_ok_def using n nm by simp
qed

lemma droppedI:
  assumes "file_ok s (si_din (sins s sin))" "di_blocks (si_din (sins s sin)) = Suc n"
    and "sfs_ok s'" "length (di_direct (si_din (sins s' sin))) = SFS_NDIRECT"
    and "si_din (sins s' sin) = (si_din (sins s sin))\<lparr>di_blocks := n, di_direct := di_direct (si_din (sins s' sin))\<rparr>"
    and "free_blocks s' = insert (bmap_of s (si_din (sins s sin)) n) (free_blocks s)" "sb_blocks (super s') = sb_blocks (super s)"
    and "\<And>i. i < SFS_MAX_BLOCKS \<Longrightarrow> bmap_of s' (si_din (sins s' sin)) i =
      (if i = n then 0 else bmap_of s (si_din (sins s sin)) i)"
    and "\<And>c. c = 0 \<or> c \<noteq> di_indirect (si_din (sins s sin)) \<Longrightarrow> disk s' c = disk s c" "\<And>x. x \<noteq> sin \<Longrightarrow> sins s' x = sins s x"
    and "dev_keeps s \<or> disk s' = disk s" "d_io s' = d_io s"
  shows "dropped sin s s'"
proof -
  have eq: "di_blocks (si_din (sins s' sin)) = n" "di_indirect (si_din (sins s' sin)) = di_indirect (si_din (sins s sin))"
    "di_size (si_din (sins s' sin)) = di_size (si_din (sins s sin))" "di_type (si_din (sins s' sin)) = di_type (si_din (sins s sin))"
    "di_nlinks (si_din (sins s' sin)) = di_nlinks (si_din (sins s sin))"
    using assms(5) by (metis sfs_disk_inode.select_convs sfs_disk_inode.update_convs sfs_disk_inode.surjective)+
  have "file_ok s' (si_din (sins s' sin))"
    by (rule file_ok_drop [OF assms(1,2) eq(1) assms(4,6,7) eq(2) assms(8)])
  then show ?thesis
    unfolding dropped_def Let_def using assms eq by simp
qed


lemma bmap_truncate_direct:
  assumes ok: "sfs_ok s" and f: "file_ok s (si_din (sins s sin))" and n: "di_blocks (si_din (sins s sin)) = Suc n" "n < SFS_NDIRECT"
  shows "\<exists>s'. sfs_bmap_truncate_nolock sin s = Some (Inr (), s') \<and> dropped sin s s'"
proof -
  define din where "din = si_din (sins s sin)"
  define b where "b = di_direct din ! n"
  have b: "bmap_of s din n = b"
    using n by (simp add: bmap_of_def b_def)
  then have u: "used_block s b" "b \<noteq> di_indirect din"
    using f n by (auto simp: file_ok_def din_def)
  obtain s1 where s1: "sfs_block_free b s = Some s1" "free_blocks s1 = insert b (free_blocks s)" "sfs_ok s1"
    "disk s1 = disk s" "sins s1 = sins s" "sb_blocks (super s1) = sb_blocks (super s)" "d_io s1 = d_io s"
    using sfs_block_free_ok [OF ok u(1)] by auto
  define s2 where "s2 = upd_sin sin (\<lambda>x. x\<lparr>si_dirty := True\<rparr>) (upd_din sin (\<lambda>din. din\<lparr>di_blocks := di_blocks din - 1\<rparr>)
    (upd_sin sin (\<lambda>x. x\<lparr>si_dirty := True\<rparr>) (upd_din sin (\<lambda>din. din\<lparr>di_direct := (di_direct din)[n := 0]\<rparr>) s1)))"
  have l: "length (di_direct din) = SFS_NDIRECT"
    using f by (simp add: file_ok_def din_def)
  have s2: "si_din (sins s2 sin) = din\<lparr>di_direct := (di_direct din)[n := 0], di_blocks := n\<rparr>" "sfs_ok s2" "disk s2 = disk s"
    "free_blocks s2 = insert b (free_blocks s)" "sb_blocks (super s2) = sb_blocks (super s)" "\<And>x. x \<noteq> sin \<Longrightarrow> sins s2 x = sins s x"
    "d_io s2 = d_io s"
    using s1 n by (simp_all add: s2_def upd_din_def din_def)
  have "b \<noteq> 0"
    using u by (simp add: used_block_def)
  then have "sfs_bmap_truncate_nolock sin s = Some (Inr (), s2)"
    using n s1 by (simp add: sfs_bmap_truncate_nolock_def sfs_bmap_free_nolock_def din_def [symmetric] b_def [symmetric]
        s2_def Let_def)
  moreover have "dropped sin s s2"
    by (rule droppedI [OF f n(1)])
      (use s2 n l b in \<open>auto simp: din_def [symmetric] bmap_of_def nth_list_update\<close>)
  ultimately show ?thesis
    by blast
qed

lemma bmap_truncate_indirect:
  assumes ok: "sfs_ok s" and kp: "dev_keeps s" and f: "file_ok s (si_din (sins s sin))" and n: "di_blocks (si_din (sins s sin)) = Suc n" "\<not> n < SFS_NDIRECT"
  shows "\<exists>s'. sfs_bmap_truncate_nolock sin s = Some (Inr (), s') \<and> dropped sin s s'"
proof -
  define din where "din = si_din (sins s sin)"
  define ent where "ent = di_indirect din"
  define k where "k = n - SFS_NDIRECT"
  define b where "b = entry_at (disk s ent) k"
  have k: "k < SFS_BLK_NENTRY"
    using MAX_BLOCKS_sub [OF n(2)] f n by (simp add: file_ok_def k_def)
  have u: "used_block s (bmap_of s din n)" "bmap_of s din n \<noteq> ent"
    using f n by (auto simp: file_ok_def din_def ent_def)
  then have e: "ent \<noteq> 0" and b: "bmap_of s din n = b"
    using n by (auto simp: bmap_of_def ent_def k_def b_def used_block_def split: if_splits)
  have ue: "used_block s ent"
    using e f by (simp add: file_ok_def ent_def din_def)
  define p where "p = patch (disk s ent) (k * 4) (le32n 0)"
  have lp: "length (disk s ent) = SFS_BLKSIZE" "length p = SFS_BLKSIZE"
    using ok used_blockD [OF ue] entry_offset [OF k] by (simp_all add: sfs_ok_def p_def)
  define s1 where "s1 = s\<lparr>sfs_buffer := p, disk := (disk s)(ent := p)\<rparr>"
  have ok1: "sfs_ok s1" "used_block s1 b"
    using ok lp u b by (simp_all add: s1_def sfs_ok_def used_block_def)
  obtain s2 where s2: "sfs_block_free b s1 = Some s2" "free_blocks s2 = insert b (free_blocks s1)" "sfs_ok s2"
    "disk s2 = disk s1" "sins s2 = sins s1" "sb_blocks (super s2) = sb_blocks (super s1)" "d_io s2 = d_io s1"
    using sfs_block_free_ok [OF ok1] by auto
  have w: "sfs_wbuf (le32n 0) ent (k * 4) (s\<lparr>sfs_buffer := disk s ent\<rparr>) = Some (Inr (), s1)"
    using sfs_wbuf_ok [of "s\<lparr>sfs_buffer := disk s ent\<rparr>" ent "k * 4" "le32n 0"] ok used_blockD [OF ue] entry_offset [OF k]
    by (simp add: sfs_ok_def s1_def p_def after_write_keeps [OF kp])
  have "sfs_bmap_free_sub_nolock ent k s = Some (Inr (), s2)"
    using inuse_used [OF ok ue] ok k used_blockD [OF ue] entry_offset [OF k] u b w s2(1)
    by (simp add: sfs_bmap_free_sub_nolock_def sfs_rbuf_ok sfs_ok_def entry_at_def [symmetric] b_def [symmetric] used_block_def Let_def)
  then have t: "sfs_bmap_truncate_nolock sin s = Some (Inr (), upd_sin sin (\<lambda>x. x\<lparr>si_dirty := True\<rparr>)
      (upd_din sin (\<lambda>din. din\<lparr>di_blocks := di_blocks din - 1\<rparr>) s2))"
    using n k e by (simp add: sfs_bmap_truncate_nolock_def sfs_bmap_free_nolock_def din_def [symmetric] ent_def [symmetric]
        k_def [symmetric] Let_def)
  define s3 where "s3 = upd_sin sin (\<lambda>x. x\<lparr>si_dirty := True\<rparr>) (upd_din sin (\<lambda>din. din\<lparr>di_blocks := di_blocks din - 1\<rparr>) s2)"
  have s3: "si_din (sins s3 sin) = din\<lparr>di_blocks := n\<rparr>" "sfs_ok s3" "disk s3 = (disk s)(ent := p)"
    "free_blocks s3 = insert b (free_blocks s)" "sb_blocks (super s3) = sb_blocks (super s)" "\<And>x. x \<noteq> sin \<Longrightarrow> sins s3 x = sins s x"
    "d_io s3 = d_io s"
    using s2 n by (simp_all add: s3_def upd_din_def din_def s1_def)
  have m: "bmap_of s3 (din\<lparr>di_blocks := n\<rparr>) i = (if i = n then 0 else bmap_of s din i)" if "i < SFS_MAX_BLOCKS" for i
  proof (cases "i < SFS_NDIRECT")
    case False
    then have "i - SFS_NDIRECT = k \<longleftrightarrow> i = n"
      using n by (auto simp: k_def)
    then show ?thesis
      using entry_at_patch [OF lp(1) k MAX_BLOCKS_sub [OF False that], of 0] False e s3(3)
      by (simp add: bmap_of_def ent_def [symmetric] p_def)
  qed (use n in \<open>auto simp: bmap_of_def\<close>)
  have "dropped sin s s3"
    by (rule droppedI [OF f n(1)]) (use s3 m f b e kp in \<open>auto simp: din_def [symmetric] ent_def [symmetric] file_ok_def\<close>)
  with t show ?thesis
    by (auto simp: s3_def)
qed

lemma bmap_truncate_ok:
  assumes "sfs_ok s" "file_ok s (si_din (sins s sin))" "0 < di_blocks (si_din (sins s sin))"
    and "dev_keeps s \<or> di_blocks (si_din (sins s sin)) \<le> SFS_NDIRECT"
  shows "\<exists>s'. sfs_bmap_truncate_nolock sin s = Some (Inr (), s') \<and> dropped sin s s'"
proof -
  obtain n where n: "di_blocks (si_din (sins s sin)) = Suc n"
    using assms(3) gr0_conv_Suc by blast
  show ?thesis
    using bmap_truncate_direct [OF assms(1,2) n] bmap_truncate_indirect [OF assms(1) _ assms(2) n] assms(4) n
    by (cases "n < SFS_NDIRECT") auto
qed


text \<open>
  A device that drops what is written loses the entry of a block behind the direct ones: the append succeeds, and looking the
  block up afterwards fails an assertion.
\<close>

lemma bmap_load_lost:
  assumes ok: "sfs_ok s" and dr: "\<not> dev_keeps s" and f: "file_ok s (si_din (sins s sin))"
    and n: "\<not> di_blocks (si_din (sins s sin)) < SFS_NDIRECT" "di_blocks (si_din (sins s sin)) < SFS_MAX_BLOCKS"
    and e: "di_indirect (si_din (sins s sin)) \<noteq> 0" and fr: "free_blocks s \<noteq> {}"
  shows "\<exists>b s'. sfs_bmap_load_nolock sin (di_blocks (si_din (sins s sin))) s = Some (Inr b, s') \<and> b \<in> free_blocks s \<and>
    sfs_bmap_load_nolock sin (di_blocks (si_din (sins s sin))) s' = None"
proof -
  define ent where "ent = di_indirect (si_din (sins s sin))"
  define k where "k = di_blocks (si_din (sins s sin)) - SFS_NDIRECT"
  define s0 where "s0 = s\<lparr>sfs_buffer := disk s ent\<rparr>"
  have k: "k < SFS_BLK_NENTRY"
    using MAX_BLOCKS_sub [OF n] by (simp add: k_def)
  have ue: "used_block s ent"
    using f e by (simp add: file_ok_def ent_def)
  have ok0: "sfs_ok s0"
    using ok by (simp add: s0_def)
  have z: "entry_at (disk s ent) k = 0"
    using f n e unfolding file_ok_def bmap_of_def by (auto simp: k_def ent_def)
  then have sub: "sfs_bmap_get_sub_nolock ent k True s = sub_alloc ent ent (k * 4) s0"
    using ok k ue e entry_offset [OF k]
    by (simp add: sfs_bmap_get_sub_nolock_def sfs_rbuf_ok sfs_ok_def used_block_def entry_at_def s0_def Let_def)
  obtain b s1 where al: "sfs_block_alloc s0 = Some (Inr b, s1)" "b \<in> free_blocks s"
    "free_blocks s1 = free_blocks s - {b}" "sfs_ok s1" "disk s1 = disk s" "sins s1 = sins s"
    "sb_blocks (super s1) = sb_blocks (super s)" "d_io s1 = d_io s"
    using sfs_block_alloc_ok [OF ok0] fr dr by (auto simp: s0_def after_write_def)
  have dr1: "\<not> dev_keeps s1"
    using dev_same(1) [OF al(7,8)] dr by simp
  define s2 where "s2 = s1\<lparr>sfs_buffer := patch (disk s ent) (k * 4) (le32n b)\<rparr>"
  have "sfs_wbuf (le32n b) ent (k * 4) s1 = Some (Inr (), s2)"
    using sfs_wbuf_ok [of s1 ent "k * 4" "le32n b"] al used_blockD [OF ue] entry_offset [OF k] dr1
    by (simp add: sfs_ok_def after_write_def s2_def)
  then have "sfs_bmap_get_sub_nolock (di_indirect (si_din (sins s sin))) (di_blocks (si_din (sins s sin)) - SFS_NDIRECT) True s =
      Some (Inr (ent, b), s2)"
    using sub al(1) by (simp add: sub_alloc_def ent_def k_def)
  moreover have s2: "sfs_ok s2" "used_block s2 b" "sins s2 = sins s" "disk s2 = disk s" "sb_blocks (super s2) = sb_blocks (super s)"
    using al free_blockD [OF ok al(2)] by (simp_all add: s2_def used_block_def)
  ultimately obtain x where x: "sfs_bmap_load_nolock sin (di_blocks (si_din (sins s sin))) s = Some (Inr b, s2\<lparr>sins := (sins s)(sin := x)\<rparr>)"
    "si_din x = (si_din (sins s sin))\<lparr>di_indirect := ent, di_blocks := di_blocks (si_din (sins s sin)) + 1\<rparr>"
    using bmap_load_of_sub [OF n, of ent b s2] by (auto simp: ent_def)
  let ?s = "s2\<lparr>sins := (sins s)(sin := x)\<rparr>"
  have "sfs_bmap_get_sub_nolock ent k False ?s = Some (Inr (ent, 0), ?s\<lparr>sfs_buffer := disk s ent\<rparr>)"
    using s2 k e used_blockD [OF ue] entry_offset [OF k] z
    by (simp add: sfs_bmap_get_sub_nolock_def sfs_rbuf_ok sfs_ok_def entry_at_def ent_def [symmetric] Let_def)
  then have "sfs_bmap_load_nolock sin (di_blocks (si_din (sins s sin))) ?s = None"
    using n x(2) k by (simp add: sfs_bmap_load_nolock_def sfs_bmap_get_nolock_def sfs_block_inuse_def ent_def k_def Let_def)
  with x(1) al(2) show ?thesis
    by blast
qed

section \<open>The witness volume\<close>

lemma bits_F0: "bit (0xF0 :: u32) n \<longleftrightarrow> n \<in> {4, 5, 6, 7}"
proof -
  have "(0xF0 :: u32) = push_bit 4 (mask 4)"
    by (simp add: mask_eq_exp_minus_1)
  then show ?thesis
    by (simp only: bit_push_bit_iff bit_mask_iff) auto
qed

lemma demo_fs_bits: "bitmap_bit (freemap demo_fs) i \<longleftrightarrow> i \<in> {4, 5, 6, 7}"
proof -
  have "bitmap_bit (freemap demo_fs) i \<longleftrightarrow> i < 32 \<and> bit (0xF0 :: u32) i"
    by (cases "i < 32") (simp_all add: bitmap_bit_def demo_fs_def WORD_BITS_def div_greater_zero_iff)
  then show ?thesis
    unfolding bits_F0 by auto
qed

lemma demo_fs_free: "free_blocks demo_fs = {4, 5, 6, 7}"
  using demo_fs_bits by (auto simp: free_blocks_def free_bits_def) (simp_all add: demo_fs_def)

lemma demo_fs_ok: "sfs_ok demo_fs"
proof -
  have "dev_works demo_fs"
    by (simp add: dev_works_def dev_keeps_def demo_fs_def ram_disk_def)
  moreover have "bitmap_inv (freemap demo_fs)"
    unfolding bitmap_inv_def demo_fs_bits by (auto simp: demo_fs_def WORD_BITS_def)
  ultimately show ?thesis
    unfolding sfs_ok_def demo_fs_free by (simp add: demo_fs_def)
qed

lemma demo_file_ok: "file_ok demo_fs (si_din (sins demo_fs sin))"
  by (simp add: file_ok_def demo_fs_def empty_din_def bmap_of_def SFS_NDIRECT_def nth_Cons' numeral_eq_Suc)

lemma disk0_fs_ok:
  "sfs_ok disk0_fs" "file_ok disk0_fs (si_din (sins disk0_fs sin))" "free_blocks disk0_fs = {4, 5, 6, 7}" "\<not> dev_keeps disk0_fs"
proof -
  have "dev_drops disk0_fs" "sb_blocks (super disk0_fs) = 8"
    by (simp_all add: dev_drops_def disk0_fs_def disk0_dev_def demo_fs_def)
  moreover have "d_io disk0_fs False b data d = (Inr (d b), d)" if "b < 8" for b data d
    using that by (simp add: disk0_fs_def disk0_dev_def)
  ultimately have w: "dev_works disk0_fs"
    by (simp add: dev_works_def)
  show f: "free_blocks disk0_fs = {4, 5, 6, 7}"
    using demo_fs_free by (simp add: disk0_fs_def free_blocks_def)
  show "sfs_ok disk0_fs"
    using demo_fs_ok w f unfolding sfs_ok_def demo_fs_free by (simp add: disk0_fs_def)
  show "file_ok disk0_fs (si_din (sins disk0_fs sin))"
    by (simp add: file_ok_def disk0_fs_def demo_fs_def empty_din_def bmap_of_def SFS_NDIRECT_def nth_Cons' numeral_eq_Suc)
  have "d_io disk0_fs True 0 [] (\<lambda>_. [0]) \<noteq> (Inr [], (\<lambda>_. [0])(0 := []))"
    by (simp add: disk0_fs_def disk0_dev_def fun_eq_iff)
  then show "\<not> dev_keeps disk0_fs"
    unfolding dev_keeps_def by (auto simp: disk0_fs_def demo_fs_def intro!: exI [of _ 0])
qed

section \<open>Main result\<close>

text \<open>
  C18. The block map of a well-formed file, on a device that reads right and reports every write as done, whether it keeps what is
  written or drops it as the driver of \<open>disk0\<close> does. Looking up a block of the file returns its entry and changes
  nothing but the buffer. Looking up the block behind the last one appends a block: one that was free, is cleared (on a
  device that keeps it) and enters the map at the end, with a new indirect block when the first entry behind the direct ones is
  needed, all other files, blocks and entries staying as they were; without enough free blocks it fails with
  \<open>E_NO_MEM\<close> and takes back what it had allocated. Truncating takes the last block out of the map and returns it to the free
  blocks. The invariant holds afterwards. On a device that drops writes this holds for the direct blocks; an append to
  an indirect block that exists succeeds, but its entry is lost and the next lookup of the block panics. A device that reports an error is not covered: allocation then keeps the
  block it has failed to clear (\<open>sfs_block_alloc_leak\<close>).
\<close>

theorem sfs_bmap_correct:
  assumes "sfs_ok s" "file_ok s (si_din (sins s sin))"
  shows "(i < di_blocks (si_din (sins s sin)) \<longrightarrow>
      (\<exists>bf. sfs_bmap_load_nolock sin i s = Some (Inr (bmap_of s (si_din (sins s sin)) i), s\<lparr>sfs_buffer := bf\<rparr>))) \<and>
    (i = di_blocks (si_din (sins s sin)) \<and> i < SFS_MAX_BLOCKS \<and> (dev_keeps s \<or> i < SFS_NDIRECT) \<longrightarrow>
      (if card (free_blocks s) < blocks_needed (si_din (sins s sin))
       then \<exists>s'. sfs_bmap_load_nolock sin i s = Some (Inl E_NO_MEM, s') \<and> undone s s'
       else \<exists>b s'. sfs_bmap_load_nolock sin i s = Some (Inr b, s') \<and> appended sin b s s')) \<and>
    (i = di_blocks (si_din (sins s sin)) \<and> i < SFS_MAX_BLOCKS \<and> \<not> dev_keeps s \<and> \<not> i < SFS_NDIRECT \<and>
       di_indirect (si_din (sins s sin)) \<noteq> 0 \<and> free_blocks s \<noteq> {} \<longrightarrow>
      (\<exists>b s'. sfs_bmap_load_nolock sin i s = Some (Inr b, s') \<and> b \<in> free_blocks s \<and> sfs_bmap_load_nolock sin i s' = None)) \<and>
    (0 < di_blocks (si_din (sins s sin)) \<and> (dev_keeps s \<or> di_blocks (si_din (sins s sin)) \<le> SFS_NDIRECT) \<longrightarrow>
      (\<exists>s'. sfs_bmap_truncate_nolock sin s = Some (Inr (), s') \<and> dropped sin s s'))"
proof (intro conjI impI)
  assume "i < di_blocks (si_din (sins s sin))"
  then show "\<exists>bf. sfs_bmap_load_nolock sin i s = Some (Inr (bmap_of s (si_din (sins s sin)) i), s\<lparr>sfs_buffer := bf\<rparr>)"
    by (rule bmap_load_existing [OF assms])
next
  assume "i = di_blocks (si_din (sins s sin)) \<and> i < SFS_MAX_BLOCKS \<and> (dev_keeps s \<or> i < SFS_NDIRECT)"
  then show "if card (free_blocks s) < blocks_needed (si_din (sins s sin))
       then \<exists>s'. sfs_bmap_load_nolock sin i s = Some (Inl E_NO_MEM, s') \<and> undone s s'
       else \<exists>b s'. sfs_bmap_load_nolock sin i s = Some (Inr b, s') \<and> appended sin b s s'"
    using bmap_load_append [OF assms] by blast
qed (use bmap_load_lost [OF assms(1) _ assms(2)] bmap_truncate_ok [OF assms] in blast)+

text \<open>The witness volume on \<open>disk0\<close>.\<close>

theorem sfs_bmap_correct_witness:
  "\<exists>b s'. sfs_bmap_load_nolock 1 0 disk0_fs = Some (Inr b, s') \<and> appended 1 b disk0_fs s' \<and> b \<in> {4, 5, 6, 7} \<and> disk s' = disk disk0_fs"
proof -
  have "di_blocks (si_din (sins disk0_fs 1)) = 0" "0 < SFS_MAX_BLOCKS" "0 < SFS_NDIRECT" "blocks_needed (si_din (sins disk0_fs 1)) = 1"
    by (simp_all add: disk0_fs_def demo_fs_def empty_din_def SFS_MAX_BLOCKS_def SFS_NDIRECT_def blocks_needed_def)
  then obtain b s' where "sfs_bmap_load_nolock 1 0 disk0_fs = Some (Inr b, s') \<and> appended 1 b disk0_fs s'"
    using sfs_bmap_correct [OF disk0_fs_ok(1) disk0_fs_ok(2) [of 1], of 0] by (auto simp: disk0_fs_ok(3))
  then show ?thesis
    using disk0_fs_ok(4) by (auto simp: appended_def Let_def disk0_fs_ok(3))
qed

end
