(* ===== verification/Disk0.thy ===== *)
theory Disk0
  imports KString
begin

text \<open>
  I/O buffers (\<^verbatim>\<open>kern/fs/iobuf.c\<close>) and the disk driver (\<^verbatim>\<open>kern/fs/devs/dev_disk0.c\<close>). The disk is
  a flash memory mapped into the address space; every 32-bit word of it carries 16 bits of data,
  so a byte of the disk image lies at the address \<open>flash_addr\<close> gives. Reading copies through the
  driver's buffer of four blocks; writing only prints a warning. Block numbers and addresses are
  32-bit unsigned integers in the driver, so sums and products of them wrap around, and a negative
  offset becomes a large block number.
\<close>

section \<open>I/O buffers\<close>

record iobuf =
  io_base :: addr
  io_offset :: int
  io_len :: nat
  io_resid :: nat

definition iobuf_init :: "addr \<Rightarrow> nat \<Rightarrow> int \<Rightarrow> iobuf" where
  "iobuf_init base len offset = \<lparr>io_base = base, io_offset = offset, io_len = len, io_resid = len\<rparr>"

definition iobuf_used :: "iobuf \<Rightarrow> nat" where
  "iobuf_used iob = io_len iob - io_resid iob"

definition iobuf_skip :: "nat \<Rightarrow> iobuf \<Rightarrow> iobuf option" where
  "iobuf_skip n iob =
     do { kassert (io_resid iob \<ge> n);
          Some (iob\<lparr>io_base := io_base iob + n, io_offset := io_offset iob + int n, io_resid := io_resid iob - n\<rparr>) }"

text \<open>The results are the return code, \<open>*copiedp\<close>, the buffer and the memory.\<close>

definition iobuf_move ::
  "addr \<Rightarrow> nat \<Rightarrow> bool \<Rightarrow> iobuf \<Rightarrow> mem \<Rightarrow> (kerror option \<times> nat \<times> iobuf \<times> mem) option" where
  "iobuf_move data len m2b iob m =
     (let alen = (if io_resid iob > len then len else io_resid iob);
          ret = (if len - alen = 0 then None else Some E_NO_MEM)
      in if alen > 0 then
           let (src, dst) = (if m2b then (data, io_base iob) else (io_base iob, data));
               m = memmove m dst src alen
           in do { iob \<leftarrow> iobuf_skip alen iob; Some (ret, alen, iob, m) }
         else Some (ret, alen, iob, m))"

definition iobuf_move_zeros :: "nat \<Rightarrow> iobuf \<Rightarrow> mem \<Rightarrow> (kerror option \<times> nat \<times> iobuf \<times> mem) option" where
  "iobuf_move_zeros len iob m =
     (let alen = (if io_resid iob > len then len else io_resid iob);
          ret = (if len - alen = 0 then None else Some E_NO_MEM)
      in if alen > 0 then
           let m = memset m (io_base iob) 0 alen
           in do { iob \<leftarrow> iobuf_skip alen iob; Some (ret, alen, iob, m) }
         else Some (ret, alen, iob, m))"

section \<open>The disk driver\<close>

definition DISK0_BLKSIZE :: nat where "DISK0_BLKSIZE = 4096"

definition DISK0_BUFSIZE :: nat where "DISK0_BUFSIZE = 4 * DISK0_BLKSIZE"

definition DISK0_DEVSIZE :: nat where "DISK0_DEVSIZE = 0x400000"

definition FLASH_START :: addr where "FLASH_START = 0xbe200000"

definition disk0_read_blks_nolock :: "addr \<Rightarrow> nat \<Rightarrow> nat \<Rightarrow> mem \<Rightarrow> mem option" where
  "disk0_read_blks_nolock disk0_buffer blkno nblks m =
     memcpy_flash m disk0_buffer ((FLASH_START + blkno * DISK0_BLKSIZE * 2) mod 2 ^ 32) (of_nat (nblks * DISK0_BLKSIZE))"

definition disk0_write_blks_nolock :: "nat \<Rightarrow> nat \<Rightarrow> mem \<Rightarrow> mem" where
  "disk0_write_blks_nolock blkno nblks m = m"

text \<open>
  The transfer loop. The recursion ends because every round moves at least one byte; the
  assertions of the source make a round that moves nothing a panic.
\<close>

function disk0_loop :: "addr \<Rightarrow> bool \<Rightarrow> nat \<Rightarrow> nat \<Rightarrow> iobuf \<Rightarrow> mem \<Rightarrow> (iobuf \<times> mem) option" where
  "disk0_loop disk0_buffer wr resid blkno iob m =
     (if resid \<noteq> 0 then
        if wr then
          case iobuf_move disk0_buffer DISK0_BUFSIZE False iob m of
            None \<Rightarrow> None
          | Some (_, copied, iob, m) \<Rightarrow>
              if copied \<noteq> 0 \<and> copied \<le> resid \<and> copied mod DISK0_BLKSIZE = 0 then
                let nblks = copied div DISK0_BLKSIZE
                in disk0_loop disk0_buffer wr (resid - copied) ((blkno + nblks) mod 2 ^ 32) iob
                     (disk0_write_blks_nolock blkno nblks m)
              else None
        else
          let alen = (if DISK0_BUFSIZE > resid then resid else DISK0_BUFSIZE);
              nblks = alen div DISK0_BLKSIZE
          in case disk0_read_blks_nolock disk0_buffer blkno nblks m of
               None \<Rightarrow> None
             | Some m \<Rightarrow>
                 (case iobuf_move disk0_buffer alen True iob m of
                    None \<Rightarrow> None
                  | Some (_, copied, iob, m) \<Rightarrow>
                      if copied = alen \<and> copied mod DISK0_BLKSIZE = 0
                      then disk0_loop disk0_buffer wr (resid - copied) ((blkno + nblks) mod 2 ^ 32) iob m
                      else None)
      else Some (iob, m))"
  by pat_completeness auto

termination disk0_loop
  by (relation "measure (\<lambda>(_, _, resid, _, _, _). resid)") (auto simp: DISK0_BUFSIZE_def DISK0_BLKSIZE_def)

text \<open>
  The signed division of the offset is exact where it is used: an offset that is not a multiple of
  the block size is refused first.
\<close>

definition disk0_io :: "nat \<Rightarrow> addr \<Rightarrow> bool \<Rightarrow> iobuf \<Rightarrow> mem \<Rightarrow> ((kerror + unit) \<times> iobuf \<times> mem) option" where
  "disk0_io d_blocks disk0_buffer wr iob m =
     (let offset = io_offset iob; resid = io_resid iob;
          blkno = nat (offset div int DISK0_BLKSIZE mod 2 ^ 32); nblks = resid div DISK0_BLKSIZE
      in if offset mod int DISK0_BLKSIZE \<noteq> 0 \<or> resid mod DISK0_BLKSIZE \<noteq> 0 then Some (Inl E_INVAL, iob, m)
         else if (blkno + nblks) mod 2 ^ 32 > d_blocks then Some (Inl E_INVAL, iob, m)
         else if nblks = 0 then Some (Inr (), iob, m)
         else do { (iob, m) \<leftarrow> disk0_loop disk0_buffer wr resid blkno iob m; Some (Inr (), iob, m) })"

text \<open>Where the byte \<open>k\<close> of the disk image lies, and a part of the image.\<close>

definition flash_addr :: "nat \<Rightarrow> addr" where
  "flash_addr k = FLASH_START + 4 * (k div 2) + k mod 2"

definition image :: "mem \<Rightarrow> nat \<Rightarrow> nat \<Rightarrow> u8 list" where
  "image m k n = map (\<lambda>i. m (flash_addr (k + i))) [0..<n]"

text \<open>Block reads: the destination lies below the flash and apart from the driver's buffer.\<close>

definition apart :: "addr \<Rightarrow> addr \<Rightarrow> nat \<Rightarrow> bool" where
  "apart buf base n \<longleftrightarrow> buf + DISK0_BUFSIZE \<le> FLASH_START \<and> base + n \<le> FLASH_START \<and>
     (buf + DISK0_BUFSIZE \<le> base \<or> base + n \<le> buf)"

section \<open>Reading the flash\<close>

declare disk0_loop.simps [simp del]

lemma memcpy_flash_ok:
  fixes d s :: addr
  assumes "2 * k < 2 ^ 32" "d + 2 * k \<le> s"
  shows "memcpy_flash m d s (of_nat (2 * k)) =
    Some (\<lambda>a. if d \<le> a \<and> a < d + 2 * k then m (s + 4 * ((a - d) div 2) + (a - d) mod 2) else m a)"
  using assms
proof (induction k arbitrary: m d s)
  case 0
  then show ?case
    by (subst memcpy_flash.simps) (auto simp: fun_eq_iff)
next
  case (Suc k)
  have nz: "(of_nat (2 * Suc k) :: u32) > 0"
  proof -
    have "unat (of_nat (2 * Suc k) :: u32) = 2 * Suc k"
      using Suc.prems(1) by (simp only: unat_of_nat) simp
    then show ?thesis
      by (simp add: word_less_nat_alt)
  qed
  define m1 where "m1 = m(d := m s, d + 1 := m (s + 1))"
  have IH: "memcpy_flash m1 (d + 2) (s + 4) (of_nat (2 * k)) =
      Some (\<lambda>a. if d + 2 \<le> a \<and> a < d + 2 + 2 * k then m1 (s + 4 + 4 * ((a - (d + 2)) div 2) + (a - (d + 2)) mod 2)
        else m1 a)"
    by (rule Suc.IH) (use Suc.prems in auto)
  have "memcpy_flash m d s (of_nat (2 * Suc k)) = memcpy_flash m1 (d + 2) (s + 4) (of_nat (2 * k))"
    using nz Suc.prems(2) by (subst memcpy_flash.simps) (simp add: m1_def Let_def)
  also note IH
  also have "(\<lambda>a. if d + 2 \<le> a \<and> a < d + 2 + 2 * k then m1 (s + 4 + 4 * ((a - (d + 2)) div 2) + (a - (d + 2)) mod 2)
        else m1 a) =
      (\<lambda>a. if d \<le> a \<and> a < d + 2 * Suc k then m (s + 4 * ((a - d) div 2) + (a - d) mod 2) else m a)"
  proof
    fix a
    consider "a < d" | "a = d" | "a = d + 1" | "d + 2 \<le> a" "a < d + 2 * Suc k" | "d + 2 * Suc k \<le> a"
      by linarith
    then show "(if d + 2 \<le> a \<and> a < d + 2 + 2 * k then m1 (s + 4 + 4 * ((a - (d + 2)) div 2) + (a - (d + 2)) mod 2)
        else m1 a) = (if d \<le> a \<and> a < d + 2 * Suc k then m (s + 4 * ((a - d) div 2) + (a - d) mod 2) else m a)"
    proof cases
      case 4
      then obtain j where j: "a = d + 2 + j"
        using le_Suc_ex by blast
      have "s + 4 + 4 * (j div 2) + j mod 2 \<noteq> d" "s + 4 + 4 * (j div 2) + j mod 2 \<noteq> d + 1"
        using Suc.prems(2) by auto
      then show ?thesis
        using 4 by (simp add: j m1_def add.assoc)
    qed (auto simp: m1_def)
  qed
  finally show ?case .
qed

lemma disk0_read_ok:
  assumes "nblks * DISK0_BLKSIZE < 2 ^ 32" "buf + nblks * DISK0_BLKSIZE \<le> FLASH_START" "FLASH_START + blkno * DISK0_BLKSIZE * 2 < 2 ^ 32"
  shows "disk0_read_blks_nolock buf blkno nblks m =
    Some (\<lambda>a. if buf \<le> a \<and> a < buf + nblks * DISK0_BLKSIZE
      then m (flash_addr (blkno * DISK0_BLKSIZE + (a - buf))) else m a)"
proof -
  have e1: "FLASH_START + blkno * DISK0_BLKSIZE * 2 + 4 * (j div 2) + j mod 2 = flash_addr (blkno * DISK0_BLKSIZE + j)" for j
  proof -
    have e: "blkno * DISK0_BLKSIZE + j = j + 2 * (blkno * 2048)"
      by (simp add: DISK0_BLKSIZE_def)
    show ?thesis
      unfolding flash_addr_def e mod_mult_self2 div_mult_self2 [OF numeral_neq_zero]
      by (simp add: DISK0_BLKSIZE_def)
  qed
  have e2: "2 * (nblks * 2048) = nblks * DISK0_BLKSIZE"
    by (simp add: DISK0_BLKSIZE_def)
  show ?thesis
    unfolding disk0_read_blks_nolock_def mod_less [OF assms(3)]
    by (rule memcpy_flash_ok [of "nblks * 2048" buf "FLASH_START + blkno * DISK0_BLKSIZE * 2" m, unfolded e1 e2])
      (use assms in simp_all)
qed

lemma disk0_loop_read:
  assumes "resid mod DISK0_BLKSIZE = 0" "io_resid iob = resid" "apart buf (io_base iob) resid"
    "FLASH_START + (blkno * DISK0_BLKSIZE + resid) * 2 \<le> 2 ^ 32"
  shows "\<exists>m'. disk0_loop buf False resid blkno iob m =
      Some (iob\<lparr>io_base := io_base iob + resid, io_offset := io_offset iob + int resid, io_resid := 0\<rparr>, m') \<and>
    (\<forall>i<resid. m' (io_base iob + i) = m (flash_addr (blkno * DISK0_BLKSIZE + i))) \<and>
    (\<forall>a. (a < io_base iob \<or> io_base iob + resid \<le> a) \<and> (a < buf \<or> buf + DISK0_BUFSIZE \<le> a) \<longrightarrow> m' a = m a)"
  using assms
proof (induction resid arbitrary: blkno iob m rule: less_induct)
  case (less resid)
  show ?case
  proof (cases "resid = 0")
    case True
    with less.prems(2) show ?thesis
      by (subst disk0_loop.simps) simp
  next
    case False
    define n where "n = (if DISK0_BUFSIZE > resid then resid else DISK0_BUFSIZE)"
    have n: "0 < n" "n \<le> resid" "n \<le> DISK0_BUFSIZE" "n mod DISK0_BLKSIZE = 0"
      using False less.prems(1) by (auto simp: n_def DISK0_BUFSIZE_def DISK0_BLKSIZE_def)
    define k where "k = n div DISK0_BLKSIZE"
    have k: "k * DISK0_BLKSIZE = n"
      using n(4) by (auto simp: k_def)
    define m1 where "m1 = (\<lambda>a. if buf \<le> a \<and> a < buf + n then m (flash_addr (blkno * DISK0_BLKSIZE + (a - buf))) else m a)"
    have lim: "FLASH_START + blkno * DISK0_BLKSIZE * 2 < 2 ^ 32" "(blkno + k) mod 2 ^ 32 = blkno + k"
      "FLASH_START + ((blkno + k) * DISK0_BLKSIZE + (resid - n)) * 2 \<le> 2 ^ 32"
      using less.prems(4) n(1,2) k by (auto simp: DISK0_BLKSIZE_def FLASH_START_def)
    have "disk0_read_blks_nolock buf blkno k m = Some m1"
      using disk0_read_ok [of k buf blkno m] n(3) less.prems(3) lim(1) unfolding k m1_def
      by (simp add: apart_def DISK0_BUFSIZE_def DISK0_BLKSIZE_def)
    moreover define m2 where "m2 = memmove m1 (io_base iob) buf n"
    define iob2 where "iob2 = iob\<lparr>io_base := io_base iob + n, io_offset := io_offset iob + int n, io_resid := resid - n\<rparr>"
    have "iobuf_move buf n True iob m1 = Some (None, n, iob2, m2)"
      using n less.prems(2) by (simp add: iobuf_move_def iobuf_skip_def Let_def m2_def iob2_def)
    ultimately have step: "disk0_loop buf False resid blkno iob m = disk0_loop buf False (resid - n) (blkno + k) iob2 m2"
      using False n(4) lim(2) by (subst disk0_loop.simps) (simp add: k_def [symmetric] n_def [symmetric] Let_def)
    have ap2: "apart buf (io_base iob2) (resid - n)"
      using less.prems(3) n(2) by (auto simp: apart_def iob2_def)
    have al2: "(resid - n) mod DISK0_BLKSIZE = 0"
      using less.prems(1) n(4) by (simp only: mod_eq_0_iff_dvd dvd_diff_nat)
    have "resid - n < resid" "io_resid iob2 = resid - n"
      using n by (simp_all add: iob2_def)
    from less.IH [OF this(1) al2 this(2) ap2 lim(3), of m2]
    obtain m' where IH: "disk0_loop buf False (resid - n) (blkno + k) iob2 m2 =
        Some (iob2\<lparr>io_base := io_base iob2 + (resid - n), io_offset := io_offset iob2 + int (resid - n), io_resid := 0\<rparr>, m')"
      "\<And>i. i < resid - n \<Longrightarrow> m' (io_base iob2 + i) = m2 (flash_addr ((blkno + k) * DISK0_BLKSIZE + i))"
      "\<And>a. (a < io_base iob2 \<or> io_base iob2 + (resid - n) \<le> a) \<and> (a < buf \<or> buf + DISK0_BUFSIZE \<le> a) \<Longrightarrow> m' a = m2 a"
      by blast
    have ap: "buf + DISK0_BUFSIZE \<le> FLASH_START" "io_base iob + resid \<le> FLASH_START"
      "buf + DISK0_BUFSIZE \<le> io_base iob \<or> io_base iob + resid \<le> buf"
      using less.prems(3) by (simp_all add: apart_def)
    have fl: "FLASH_START \<le> flash_addr j" for j
      by (simp add: flash_addr_def)
    have m2_flash: "m2 (flash_addr j) = m (flash_addr j)" for j
      using fl [of j] ap n(2,3) by (auto simp: m2_def m1_def memmove_ok)
    have "m' (io_base iob + i) = m (flash_addr (blkno * DISK0_BLKSIZE + i))" if "i < resid" for i
    proof (cases "i < n")
      case True
      then have "m' (io_base iob + i) = m2 (io_base iob + i)"
        using ap n(2) that by (intro IH(3)) (auto simp: iob2_def)
      also have "\<dots> = m1 (buf + i)"
        using True by (simp add: m2_def memmove_ok)
      finally show ?thesis
        using True by (simp add: m1_def)
    next
      case False
      then obtain j where j: "i = n + j"
        using le_Suc_ex not_less by blast
      then have "m' (io_base iob2 + j) = m2 (flash_addr ((blkno + k) * DISK0_BLKSIZE + j))"
        using that by (intro IH(2)) simp
      then show ?thesis
        by (simp add: j iob2_def m2_flash add_mult_distrib k add.assoc)
    qed
    moreover have "m' a = m a" if "(a < io_base iob \<or> io_base iob + resid \<le> a) \<and> (a < buf \<or> buf + DISK0_BUFSIZE \<le> a)" for a
    proof -
      have "m' a = m2 a"
        using that n(2) by (intro IH(3)) (auto simp: iob2_def)
      then show ?thesis
        using that n(2,3) by (auto simp: m2_def m1_def memmove_ok)
    qed
    moreover have "iob2\<lparr>io_base := io_base iob2 + (resid - n), io_offset := io_offset iob2 + int (resid - n), io_resid := 0\<rparr> =
        iob\<lparr>io_base := io_base iob + resid, io_offset := io_offset iob + int resid, io_resid := 0\<rparr>"
      using n(2) by (simp add: iob2_def)
    ultimately show ?thesis
      using step IH(1) by auto
  qed
qed

section \<open>Properties\<close>

lemma image_iff_bytes:
  "(\<forall>i<n. m' (p + i) = m (flash_addr (k + i))) \<longleftrightarrow> bytes m' p n = image m k n"
  by (auto simp: bytes_def image_def)

text \<open>
  The disk driver reads exactly: for a device that ends within the address space, an aligned request
  inside the device fills the caller's
  buffer with the image bytes from its offset on, consumes the whole request and changes no other
  memory but the driver's own buffer; a request that is unaligned or reaches past the end of
  the device is refused without effect. The offset is not negative.
\<close>

lemma disk0_request:
  assumes "0 \<le> io_offset iob" "io_offset iob < 2 ^ 31" "io_resid iob < 2 ^ 32"
  shows "disk0_io d_blocks buf wr iob m =
     (let offset = nat (io_offset iob); resid = io_resid iob
      in if offset mod DISK0_BLKSIZE \<noteq> 0 \<or> resid mod DISK0_BLKSIZE \<noteq> 0 \<or> offset + resid > d_blocks * DISK0_BLKSIZE then Some (Inl E_INVAL, iob, m)
         else if resid = 0 then Some (Inr (), iob, m)
         else do { (iob, m) \<leftarrow> disk0_loop buf wr resid (offset div DISK0_BLKSIZE) iob m; Some (Inr (), iob, m) })"
proof -
  define k where "k = nat (io_offset iob)"
  define n where "n = io_resid iob"
  have k: "io_offset iob = int k" "k < 2 ^ 31" "n < 2 ^ 32"
    using assms by (auto simp: k_def n_def)
  have b: "k div DISK0_BLKSIZE + n div DISK0_BLKSIZE < 2 ^ 32" "k div DISK0_BLKSIZE < 2 ^ 32"
    using k(2,3) by (auto simp: DISK0_BLKSIZE_def)
  have d: "nat (int k div int DISK0_BLKSIZE mod 2 ^ 32) = k div DISK0_BLKSIZE"
    using b(2) by (simp add: zdiv_int [symmetric] zmod_int [symmetric] nat_mod_distrib flip: of_nat_power)
  have fits: "k div DISK0_BLKSIZE + n div DISK0_BLKSIZE > d_blocks \<longleftrightarrow> k + n > d_blocks * DISK0_BLKSIZE"
    and z: "n div DISK0_BLKSIZE = 0 \<longleftrightarrow> n = 0"
    if "k mod DISK0_BLKSIZE = 0" "n mod DISK0_BLKSIZE = 0"
    using that by (auto simp: DISK0_BLKSIZE_def mod_eq_0_iff_dvd elim!: dvdE)
  have m: "int k mod int DISK0_BLKSIZE = 0 \<longleftrightarrow> k mod DISK0_BLKSIZE = 0"
    by (simp flip: zmod_int)
  show ?thesis
    unfolding disk0_io_def Let_def n_def [symmetric] k d m mod_less [OF b(1)] nat_int using fits z by auto
qed

theorem disk0_io_read_correct:
  assumes "0 \<le> io_offset iob" "io_offset iob < 2 ^ 31" "io_resid iob < 2 ^ 32" and "apart buf (io_base iob) (io_resid iob)"
    and "FLASH_START + d_blocks * DISK0_BLKSIZE * 2 \<le> 2 ^ 32"
  shows "if nat (io_offset iob) mod DISK0_BLKSIZE = 0 \<and> io_resid iob mod DISK0_BLKSIZE = 0 \<and>
       nat (io_offset iob) + io_resid iob \<le> d_blocks * DISK0_BLKSIZE
    then \<exists>iob' m'. disk0_io d_blocks buf False iob m = Some (Inr (), iob', m') \<and> io_resid iob' = 0 \<and>
       bytes m' (io_base iob) (io_resid iob) = image m (nat (io_offset iob)) (io_resid iob) \<and>
       (\<forall>a. (a < io_base iob \<or> io_base iob + io_resid iob \<le> a) \<and> (a < buf \<or> buf + DISK0_BUFSIZE \<le> a) \<longrightarrow> m' a = m a)
    else disk0_io d_blocks buf False iob m = Some (Inl E_INVAL, iob, m)"
proof -
  let ?off = "nat (io_offset iob)" and ?n = "io_resid iob"
  note rq = disk0_request [OF assms(1-3), of d_blocks buf False m]
  show ?thesis
  proof (cases "?off mod DISK0_BLKSIZE = 0 \<and> ?n mod DISK0_BLKSIZE = 0 \<and> ?off + ?n \<le> d_blocks * DISK0_BLKSIZE")
    case False
    then show ?thesis
      unfolding rq Let_def by auto
  next
    case True
    then have off: "?off div DISK0_BLKSIZE * DISK0_BLKSIZE = ?off" and al: "?n mod DISK0_BLKSIZE = 0"
      and lim: "FLASH_START + (?off + ?n) * 2 \<le> 2 ^ 32"
      using assms(5) by (auto simp: DISK0_BLKSIZE_def)
    from disk0_loop_read [OF al refl assms(4), of "?off div DISK0_BLKSIZE" m, unfolded off image_iff_bytes, OF lim]
    obtain iob' m' where l: "disk0_loop buf False ?n (?off div DISK0_BLKSIZE) iob m = Some (iob', m')"
      "io_resid iob' = 0" "bytes m' (io_base iob) ?n = image m ?off ?n"
      "\<forall>a. (a < io_base iob \<or> io_base iob + ?n \<le> a) \<and> (a < buf \<or> buf + DISK0_BUFSIZE \<le> a) \<longrightarrow> m' a = m a"
      by force
    have "disk0_io d_blocks buf False iob m = (if ?n = 0 then Some (Inr (), iob, m) else Some (Inr (), iob', m'))"
      unfolding rq Let_def using True l(1) by auto
    then show ?thesis
      using True l by (auto simp: bytes_def image_def)
  qed
qed

theorem disk0_io_read_correct_witness:
  "\<exists>iob' m'. disk0_io 1024 0x80010000 False \<lparr>io_base = 0x80020000, io_offset = 8192, io_len = 4096, io_resid = 4096\<rparr>
     (\<lambda>a. of_nat a) = Some (Inr (), iob', m') \<and> io_resid iob' = 0 \<and>
     bytes m' 0x80020000 4096 = image (\<lambda>a. of_nat a) 8192 4096"
  using disk0_io_read_correct [of "\<lparr>io_base = 0x80020000, io_offset = 8192, io_len = 4096, io_resid = 4096\<rparr>"
      "0x80010000" 1024 "\<lambda>a. of_nat a"]
  by (auto simp: apart_def DISK0_BUFSIZE_def DISK0_BLKSIZE_def FLASH_START_def)

text \<open>
  A negative offset is not refused: the block number wraps around, and the sum that is compared with
  the size of the device wraps back. Reading one block at offset -4096 reads the 8192 bytes of the
  address space below the flash.
\<close>

lemma disk0_negative_offset:
  "disk0_io 1024 buf False \<lparr>io_base = p, io_offset = - 4096, io_len = 4096, io_resid = 4096\<rparr> m =
     do { (iob, m) \<leftarrow> disk0_loop buf False 4096 (2 ^ 32 - 1) \<lparr>io_base = p, io_offset = - 4096, io_len = 4096, io_resid = 4096\<rparr> m;
          Some (Inr (), iob, m) } \<and>
   disk0_read_blks_nolock buf (2 ^ 32 - 1) 1 m = memcpy_flash m buf (FLASH_START - 8192) 4096"
  by (simp add: disk0_io_def DISK0_BLKSIZE_def disk0_read_blks_nolock_def FLASH_START_def)

text \<open>
  Writing reports success, but the data only reach the driver's buffer: the image is unchanged.
\<close>

lemma disk0_loop_write:
  assumes "resid mod DISK0_BLKSIZE = 0" "io_resid iob = resid"
  shows "\<exists>iob' m'. disk0_loop buf True resid blkno iob m = Some (iob', m') \<and>
    (\<forall>a. a < buf \<or> buf + DISK0_BUFSIZE \<le> a \<longrightarrow> m' a = m a)"
  using assms
proof (induction resid arbitrary: blkno iob m rule: less_induct)
  case (less resid)
  show ?case
  proof (cases "resid = 0")
    case True
    then show ?thesis
      by (subst disk0_loop.simps) simp
  next
    case False
    define n where "n = (if resid > DISK0_BUFSIZE then DISK0_BUFSIZE else resid)"
    have n: "0 < n" "n \<le> resid" "n \<le> DISK0_BUFSIZE" "n mod DISK0_BLKSIZE = 0"
      using False less.prems(1) by (auto simp: n_def DISK0_BUFSIZE_def DISK0_BLKSIZE_def)
    define m2 where "m2 = memmove m buf (io_base iob) n"
    obtain iob2 ret where mv: "iobuf_move buf DISK0_BUFSIZE False iob m = Some (ret, n, iob2, m2)"
      and io: "io_resid iob2 = resid - n"
      using n less.prems(2) by (auto simp: iobuf_move_def iobuf_skip_def Let_def m2_def n_def)
    have step: "disk0_loop buf True resid blkno iob m =
        disk0_loop buf True (resid - n) ((blkno + n div DISK0_BLKSIZE) mod 2 ^ 32) iob2 m2"
      using False n mv by (subst disk0_loop.simps) (simp add: disk0_write_blks_nolock_def Let_def)
    have "(resid - n) mod DISK0_BLKSIZE = 0"
      using less.prems(1) n(4) by (simp only: mod_eq_0_iff_dvd dvd_diff_nat)
    moreover have "resid - n < resid"
      using n by simp
    ultimately obtain iob' m' where "disk0_loop buf True resid blkno iob m = Some (iob', m')"
      "\<forall>a. a < buf \<or> buf + DISK0_BUFSIZE \<le> a \<longrightarrow> m' a = m2 a"
      using less.IH [OF _ _ io, of "(blkno + n div DISK0_BLKSIZE) mod 2 ^ 32" m2] step by auto
    moreover have "m2 a = m a" if "a < buf \<or> buf + DISK0_BUFSIZE \<le> a" for a
      using that n(3) by (auto simp: m2_def memmove_ok)
    ultimately show ?thesis
      by auto
  qed
qed

lemma disk0_write_ignored:
  assumes "0 \<le> io_offset iob" "io_offset iob < 2 ^ 31" "io_resid iob < 2 ^ 32" "buf + DISK0_BUFSIZE \<le> FLASH_START"
    and "nat (io_offset iob) mod DISK0_BLKSIZE = 0" "io_resid iob mod DISK0_BLKSIZE = 0"
    and "nat (io_offset iob) + io_resid iob \<le> d_blocks * DISK0_BLKSIZE"
  shows "\<exists>iob' m'. disk0_io d_blocks buf True iob m = Some (Inr (), iob', m') \<and>
    (\<forall>a. a < buf \<or> buf + DISK0_BUFSIZE \<le> a \<longrightarrow> m' a = m a)"
proof -
  obtain iob' m' where "disk0_loop buf True (io_resid iob) (nat (io_offset iob) div DISK0_BLKSIZE) iob m = Some (iob', m')"
    "\<forall>a. a < buf \<or> buf + DISK0_BUFSIZE \<le> a \<longrightarrow> m' a = m a"
    using disk0_loop_write [OF assms(6) refl] by blast
  then show ?thesis
    unfolding disk0_request [OF assms(1-3)] Let_def using assms(5-7) by auto
qed

lemma image_unchanged:
  assumes "\<And>a. FLASH_START \<le> a \<Longrightarrow> m' a = m a"
  shows "image m' k n = image m k n"
proof -
  have "FLASH_START \<le> flash_addr j" for j
    by (simp add: flash_addr_def)
  with assms show ?thesis
    by (simp add: image_def)
qed

end
