(* ===== verification/SfsInode.thy ===== *)
theory SfsInode
  imports SfsIo Disk0
begin

text \<open>
  The simple file system, upper half: the inode operations of \<^verbatim>\<open>kern/fs/sfs/sfs_inode.c\<close> and the
  reference counts of \<^verbatim>\<open>kern/fs/vfs/inode.c\<close>. A table of operations is the list of its entries that
  are not null; a call \<open>vop_f(node)\<close> panics when the table of the node lacks \<open>f\<close>. Buffers of the
  caller are in a byte store, disk blocks and directory entries are values; a file name is the
  list of its bytes without the terminating zero.
\<close>

section \<open>Definitions: inodes\<close>

datatype vop =
    Vop_open | Vop_close | Vop_read | Vop_write | Vop_fstat | Vop_fsync | Vop_namefile
  | Vop_getdirentry | Vop_reclaim | Vop_gettype | Vop_tryseek | Vop_truncate | Vop_create
  | Vop_lookup | Vop_ioctl

definition sfs_node_dirops :: "vop list" where
  "sfs_node_dirops = [Vop_open, Vop_close, Vop_fstat, Vop_fsync, Vop_namefile, Vop_getdirentry,
     Vop_reclaim, Vop_gettype, Vop_lookup]"

definition sfs_node_fileops :: "vop list" where
  "sfs_node_fileops = [Vop_open, Vop_close, Vop_read, Vop_write, Vop_fstat, Vop_fsync, Vop_reclaim,
     Vop_gettype, Vop_tryseek, Vop_truncate]"

definition dev_node_ops :: "vop list" where
  "dev_node_ops = [Vop_open, Vop_close, Vop_read, Vop_write, Vop_fstat, Vop_ioctl, Vop_gettype,
     Vop_tryseek, Vop_lookup]"

fun vop_table :: "inode_ops \<Rightarrow> vop list" where
  "vop_table Sfs_node_dirops = sfs_node_dirops"
| "vop_table Sfs_node_fileops = sfs_node_fileops"
| "vop_table Dev_node_ops = dev_node_ops"

definition MAX_INODE_COUNT :: int where "MAX_INODE_COUNT = 0x10000"

definition inode_check :: "inode \<Rightarrow> unit option" where
  "inode_check n =
     do { kassert (ref_count n \<ge> open_count n \<and> open_count n \<ge> 0);
          kassert (ref_count n < MAX_INODE_COUNT \<and> open_count n < MAX_INODE_COUNT) }"

definition vop_op :: "vop \<Rightarrow> addr \<Rightarrow> sfs_fs \<Rightarrow> unit option" where
  "vop_op f node s =
     do { kassert (f \<in> set (vop_table (in_ops (inodes s node))));
          inode_check (inodes s node) }"

definition upd_inode :: "addr \<Rightarrow> (inode \<Rightarrow> inode) \<Rightarrow> sfs_fs \<Rightarrow> sfs_fs" where
  "upd_inode node f s = s\<lparr>inodes := (inodes s)(node := f (inodes s node))\<rparr>"

definition alloc_inode :: "in_type \<Rightarrow> sfs_fs \<Rightarrow> addr option \<times> sfs_fs" where
  "alloc_inode ty s =
     (case kmalloc_next s of
        (None, s) \<Rightarrow> (None, s)
      | (Some node, s) \<Rightarrow> (Some node, upd_inode node (\<lambda>n. n\<lparr>in_type := ty\<rparr>) s))"

definition inode_ref_inc :: "addr \<Rightarrow> sfs_fs \<Rightarrow> int \<times> sfs_fs" where
  "inode_ref_inc node s =
     (let s = upd_inode node (\<lambda>n. n\<lparr>ref_count := ref_count n + 1\<rparr>) s in (ref_count (inodes s node), s))"

definition inode_open_inc :: "addr \<Rightarrow> sfs_fs \<Rightarrow> int \<times> sfs_fs" where
  "inode_open_inc node s =
     (let s = upd_inode node (\<lambda>n. n\<lparr>open_count := open_count n + 1\<rparr>) s in (open_count (inodes s node), s))"

definition inode_init :: "addr \<Rightarrow> inode_ops \<Rightarrow> bool \<Rightarrow> sfs_fs \<Rightarrow> sfs_fs" where
  "inode_init node ops fs s =
     snd (inode_ref_inc node
       (upd_inode node (\<lambda>n. n\<lparr>ref_count := 0, open_count := 0, in_ops := ops, in_fs := fs\<rparr>) s))"

definition inode_kill :: "addr \<Rightarrow> sfs_fs \<Rightarrow> sfs_fs option" where
  "inode_kill node s =
     do { kassert (ref_count (inodes s node) = 0);
          kassert (open_count (inodes s node) = 0);
          Some s }"

section \<open>Definitions: loading inodes\<close>

definition sfs_get_ops :: "u16 \<Rightarrow> inode_ops option" where
  "sfs_get_ops type =
     (if type = SFS_TYPE_DIR then Some Sfs_node_dirops
      else if type = SFS_TYPE_FILE then Some Sfs_node_fileops
      else None)"

definition SFS_HLIST_SHIFT :: nat where "SFS_HLIST_SHIFT = 10"

definition sin_hashfn :: "nat \<Rightarrow> nat" where
  "sin_hashfn x = unat (hash32 (of_nat x) SFS_HLIST_SHIFT)"

definition sfs_set_links :: "addr \<Rightarrow> sfs_fs \<Rightarrow> sfs_fs" where
  "sfs_set_links sin s =
     (let h = sin_hashfn (si_ino (sins s sin))
      in s\<lparr>inode_list := sin # inode_list s, hash_list := (hash_list s)(h := sin # hash_list s h)\<rparr>)"

definition sfs_remove_links :: "addr \<Rightarrow> sfs_fs \<Rightarrow> sfs_fs" where
  "sfs_remove_links sin s =
     (let h = sin_hashfn (si_ino (sins s sin))
      in s\<lparr>inode_list := remove1 sin (inode_list s), hash_list := (hash_list s)(h := remove1 sin (hash_list s h))\<rparr>)"

definition sfs_create_inode :: "sfs_disk_inode \<Rightarrow> nat \<Rightarrow> sfs_fs \<Rightarrow> ((kerror + addr) \<times> sfs_fs) option" where
  "sfs_create_inode din ino s =
     (case alloc_inode Inode_type_sfs_inode_info s of
        (None, s) \<Rightarrow> Some (Inl E_NO_MEM, s)
      | (Some node, s) \<Rightarrow>
          do { ops \<leftarrow> sfs_get_ops (di_type din);
               let s = inode_init node ops True s;
               Some (Inr node, upd_sin node
                 (\<lambda>_. \<lparr>si_din = din, si_ino = ino, si_dirty = False, reclaim_count = 1\<rparr>) s) })"

definition lookup_sfs_nolock :: "nat \<Rightarrow> sfs_fs \<Rightarrow> addr option \<times> sfs_fs" where
  "lookup_sfs_nolock ino s =
     (case find (\<lambda>sin. si_ino (sins s sin) = ino) (hash_list s (sin_hashfn ino)) of
        None \<Rightarrow> (None, s)
      | Some sin \<Rightarrow>
          let (r, s) = inode_ref_inc sin s
          in (Some sin, if r = 1 then upd_sin sin (\<lambda>x. x\<lparr>reclaim_count := reclaim_count x + 1\<rparr>) s else s))"

definition sfs_load_inode :: "nat \<Rightarrow> sfs_fs \<Rightarrow> ((kerror + addr) \<times> sfs_fs) option" where
  "sfs_load_inode ino s =
     (case lookup_sfs_nolock ino s of
        (Some node, s) \<Rightarrow> Some (Inr node, s)
      | (None, s) \<Rightarrow>
          (case kmalloc_next s of
             (None, s) \<Rightarrow> Some (Inl E_NO_MEM, s)
           | (Some _, s) \<Rightarrow>
               do { u \<leftarrow> sfs_block_inuse s ino;
                    kassert u;
                    and_then (sfs_rbuf SIZEOF_DINODE ino 0 s) (\<lambda>bs s.
                      do { let din = decode_inode bs;
                           kassert (di_nlinks din \<noteq> 0);
                           and_then (sfs_create_inode din ino s) (\<lambda>node s.
                             Some (Inr node, sfs_set_links node s)) }) }))"

section \<open>Definitions: directories\<close>

definition c_string :: "u8 list \<Rightarrow> u8 list" where
  "c_string bs = takeWhile (\<lambda>b. b \<noteq> 0) bs"

definition sfs_dirent_read_nolock :: "addr \<Rightarrow> nat \<Rightarrow> sfs_fs \<Rightarrow> ((kerror + sfs_disk_entry) \<times> sfs_fs) option" where
  "sfs_dirent_read_nolock sin slot s =
     do { kassert (di_type (si_din (sins s sin)) = SFS_TYPE_DIR \<and> slot < di_blocks (si_din (sins s sin)));
          and_then (sfs_bmap_load_nolock sin slot s) (\<lambda>ino s.
            do { u \<leftarrow> sfs_block_inuse s ino;
                 kassert u;
                 and_then (sfs_rbuf SIZEOF_DENTRY ino 0 s) (\<lambda>bs s.
                   let entry = decode_entry bs
                   in Some (Inr (entry\<lparr>de_name := (de_name entry)[SFS_MAX_FNAME_LEN := 0]\<rparr>), s)) }) }"

text \<open>The loop over the slots. The result is \<open>*ino_store\<close> and \<open>*slot\<close>, and in both cases \<open>*empty_slot\<close>.\<close>

fun search_loop ::
  "addr \<Rightarrow> u8 list \<Rightarrow> nat list \<Rightarrow> nat \<Rightarrow> sfs_fs \<Rightarrow> ((kerror + nat \<times> nat) \<times> nat \<times> sfs_fs) option" where
  "search_loop sin name [] empty_slot s = Some (Inl E_NOENT, empty_slot, s)"
| "search_loop sin name (i # is) empty_slot s =
     (case sfs_dirent_read_nolock sin i s of
        None \<Rightarrow> None
      | Some (Inl e, s) \<Rightarrow> Some (Inl e, empty_slot, s)
      | Some (Inr entry, s) \<Rightarrow>
          if de_ino entry = 0 then search_loop sin name is i s
          else if name = c_string (de_name entry) then Some (Inr (de_ino entry, i), empty_slot, s)
          else search_loop sin name is empty_slot s)"

definition sfs_dirent_search_nolock ::
  "addr \<Rightarrow> u8 list \<Rightarrow> sfs_fs \<Rightarrow> ((kerror + nat \<times> nat) \<times> nat \<times> sfs_fs) option" where
  "sfs_dirent_search_nolock sin name s =
     do { kassert (length name \<le> SFS_MAX_FNAME_LEN);
          let nslots = di_blocks (si_din (sins s sin));
          case kmalloc_next s of
            (None, s) \<Rightarrow> Some (Inl E_NO_MEM, nslots, s)
          | (Some _, s) \<Rightarrow> search_loop sin name [0..<nslots] nslots s }"

fun findino_loop :: "addr \<Rightarrow> nat \<Rightarrow> nat list \<Rightarrow> sfs_fs \<Rightarrow> ((kerror + sfs_disk_entry) \<times> sfs_fs) option" where
  "findino_loop sin ino [] s = Some (Inl E_NOENT, s)"
| "findino_loop sin ino (i # is) s =
     and_then (sfs_dirent_read_nolock sin i s) (\<lambda>entry s.
       if de_ino entry = ino then Some (Inr entry, s) else findino_loop sin ino is s)"

definition sfs_dirent_findino_nolock ::
  "addr \<Rightarrow> nat \<Rightarrow> sfs_fs \<Rightarrow> ((kerror + sfs_disk_entry) \<times> sfs_fs) option" where
  "sfs_dirent_findino_nolock sin ino s = findino_loop sin ino [0..<di_blocks (si_din (sins s sin))] s"

definition sfs_lookup_once :: "addr \<Rightarrow> u8 list \<Rightarrow> sfs_fs \<Rightarrow> ((kerror + addr \<times> nat) \<times> sfs_fs) option" where
  "sfs_lookup_once sin name s =
     (case sfs_dirent_search_nolock sin name s of
        None \<Rightarrow> None
      | Some (Inl e, _, s) \<Rightarrow> Some (Inl e, s)
      | Some (Inr (ino, slot), _, s) \<Rightarrow>
          and_then (sfs_load_inode ino s) (\<lambda>node s. Some (Inr (node, slot), s)))"


section \<open>Definitions: open flags, file types\<close>

definition O_RDONLY :: u32 where "O_RDONLY = 0"

definition O_WRONLY :: u32 where "O_WRONLY = 1"

definition O_RDWR :: u32 where "O_RDWR = 2"

definition O_CREAT :: u32 where "O_CREAT = 4"

definition O_EXCL :: u32 where "O_EXCL = 8"

definition O_TRUNC :: u32 where "O_TRUNC = 0x10"

definition O_APPEND :: u32 where "O_APPEND = 0x20"

definition O_ACCMODE :: u32 where "O_ACCMODE = 3"

definition S_IFMT :: u32 where "S_IFMT = 0x7000"

definition S_IFREG :: u32 where "S_IFREG = 0x1000"

definition S_IFDIR :: u32 where "S_IFDIR = 0x2000"

definition S_IFLNK :: u32 where "S_IFLNK = 0x3000"

definition S_IFCHR :: u32 where "S_IFCHR = 0x4000"

definition S_IFBLK :: u32 where "S_IFBLK = 0x5000"

record stat =
  st_mode :: u32
  st_nlinks :: nat
  st_blocks :: nat
  st_size :: nat

section \<open>Definitions: file contents\<close>

definition sfs_opendir :: "u32 \<Rightarrow> kerror + unit" where
  "sfs_opendir open_flags =
     (if open_flags AND O_ACCMODE \<noteq> O_RDONLY then Inl E_ISDIR
      else if open_flags AND O_APPEND \<noteq> 0 then Inl E_ISDIR
      else Inr ())"

definition sfs_openfile :: "u32 \<Rightarrow> kerror + unit" where
  "sfs_openfile open_flags = Inr ()"

definition sfs_fsync :: "addr \<Rightarrow> sfs_fs \<Rightarrow> ((kerror + unit) \<times> sfs_fs) option" where
  "sfs_fsync sin s =
     (if si_dirty (sins s sin) then
        (case sfs_wbuf (encode_inode (si_din (sins s sin))) (si_ino (sins s sin)) 0
                (upd_sin sin (\<lambda>x. x\<lparr>si_dirty := False\<rparr>) s) of
           None \<Rightarrow> None
         | Some (Inl e, s) \<Rightarrow> Some (Inl e, upd_sin sin (\<lambda>x. x\<lparr>si_dirty := True\<rparr>) s)
         | Some (Inr _, s) \<Rightarrow> Some (Inr (), s))
      else Some (Inr (), s))"

definition vop_fsync :: "addr \<Rightarrow> sfs_fs \<Rightarrow> ((kerror + unit) \<times> sfs_fs) option" where
  "vop_fsync node s = do { vop_op Vop_fsync node s; sfs_fsync node s }"

definition sfs_close :: "addr \<Rightarrow> sfs_fs \<Rightarrow> ((kerror + unit) \<times> sfs_fs) option" where
  "sfs_close node s = vop_fsync node s"

text \<open>\<open>assert(f(...) == 0)\<close>: an error of \<open>f\<close> is a panic.\<close>

definition must :: "((kerror + 'a) \<times> 's) option \<Rightarrow> ('a \<times> 's) option" where
  "must r = (case r of Some (Inr v, s) \<Rightarrow> Some (v, s) | _ \<Rightarrow> None)"

text \<open>The function pointers of \<open>sfs_io_nolock\<close>: a write takes the first bytes of \<open>data\<close>, a read returns bytes.\<close>

definition sfs_buf_op :: "bool \<Rightarrow> u8 list \<Rightarrow> nat \<Rightarrow> nat \<Rightarrow> nat \<Rightarrow> sfs_fs \<Rightarrow> ((kerror + u8 list) \<times> sfs_fs) option" where
  "sfs_buf_op wr data len blkno offset s =
     (if wr then and_then (sfs_wbuf (take len data) blkno offset s) (\<lambda>_ s. Some (Inr [], s))
      else sfs_rbuf len blkno offset s)"

definition sfs_block_op :: "bool \<Rightarrow> u8 list \<Rightarrow> nat \<Rightarrow> nat \<Rightarrow> sfs_fs \<Rightarrow> ((kerror + u8 list) \<times> sfs_fs) option" where
  "sfs_block_op wr data blkno nblks s =
     (if wr then and_then (sfs_wblock data blkno nblks s) (\<lambda>_ s. Some (Inr [], s))
      else sfs_rblock blkno nblks s)"

text \<open>
  The transfer of \<open>sfs_io_nolock\<close> in its three parts: the rest of the first block, whole blocks,
  and the beginning of the last block. \<open>off\<close> and \<open>endpos\<close> are the checked positions; the result
  is what a read has read and the number of bytes transferred.
\<close>

definition io_head ::
  "addr \<Rightarrow> bool \<Rightarrow> u8 list \<Rightarrow> nat \<Rightarrow> nat \<Rightarrow> sfs_fs \<Rightarrow> ((u8 list \<times> nat) \<times> sfs_fs) option" where
  "io_head sin wr data off endpos s =
     (let nblks = endpos div SFS_BLKSIZE - off div SFS_BLKSIZE; blkoff = off mod SFS_BLKSIZE;
          blklen = (if nblks > 0 then SFS_BLKSIZE - blkoff else endpos - off)
      in if blkoff > 0 then
           do { (ino, s) \<leftarrow> must (sfs_bmap_load_nolock sin (off div SFS_BLKSIZE) s);
                (bs, s) \<leftarrow> must (sfs_buf_op wr data blklen ino blkoff s);
                Some ((bs, blklen), s) }
         else Some (([], 0), s))"

definition io_body ::
  "addr \<Rightarrow> bool \<Rightarrow> u8 list \<Rightarrow> nat \<Rightarrow> nat \<Rightarrow> sfs_fs \<Rightarrow> ((u8 list \<times> nat) \<times> sfs_fs) option" where
  "io_body sin wr data blkno nblks s =
     (if nblks > 0 then
        do { (ino, s) \<leftarrow> must (sfs_bmap_load_nolock sin blkno s);
             (bs, s) \<leftarrow> must (sfs_block_op wr data ino nblks s);
             Some ((bs, nblks * SFS_BLKSIZE), s) }
      else Some (([], 0), s))"

definition io_tail ::
  "addr \<Rightarrow> bool \<Rightarrow> u8 list \<Rightarrow> bool \<Rightarrow> nat \<Rightarrow> sfs_fs \<Rightarrow> ((u8 list \<times> nat) \<times> sfs_fs) option" where
  "io_tail sin wr data single endpos s =
     (let blkend = endpos mod SFS_BLKSIZE
      in if \<not> single \<and> blkend > 0 then
           do { (ino, s) \<leftarrow> must (sfs_bmap_load_nolock sin (endpos div SFS_BLKSIZE) s);
                (bs, s) \<leftarrow> must (sfs_buf_op wr data blkend ino 0 s);
                Some ((bs, blkend), s) }
         else Some (([], 0), s))"

definition io_blocks ::
  "addr \<Rightarrow> bool \<Rightarrow> u8 list \<Rightarrow> nat \<Rightarrow> nat \<Rightarrow> sfs_fs \<Rightarrow> ((u8 list \<times> nat) \<times> sfs_fs) option" where
  "io_blocks sin wr data off endpos s =
     (let blkno = off div SFS_BLKSIZE; nblks = endpos div SFS_BLKSIZE - blkno; head = off mod SFS_BLKSIZE > 0;
          single = (head \<and> nblks = 0)
      in do { ((b1, n1), s) \<leftarrow> io_head sin wr data off endpos s;
              ((b2, n2), s) \<leftarrow> io_body sin wr (drop n1 data) (if head then blkno + 1 else blkno)
                                 (if head then nblks - 1 else nblks) s;
              ((b3, n3), s) \<leftarrow> io_tail sin wr (drop (n1 + n2) data) single endpos s;
              Some ((b1 @ b2 @ b3, n1 + n2 + n3), s) })"

text \<open>\<open>endpos\<close> wraps around.\<close>

definition sfs_io_nolock ::
  "addr \<Rightarrow> bool \<Rightarrow> u8 list \<Rightarrow> int \<Rightarrow> nat \<Rightarrow> sfs_fs \<Rightarrow> ((kerror + u8 list \<times> nat) \<times> sfs_fs) option" where
  "sfs_io_nolock sin wr data offset alen s =
     do { kassert (di_type (si_din (sins s sin)) \<noteq> SFS_TYPE_DIR);
          let endpos = off_t (offset + int alen);
          if offset < 0 \<or> offset \<ge> int SFS_MAX_FILE_SIZE \<or> offset > endpos then Some (Inl E_INVAL, s)
          else if offset = endpos then Some (Inr ([], 0), s)
          else
            let off = nat offset; endpos = min (nat endpos) SFS_MAX_FILE_SIZE;
                fsize = di_size (si_din (sins s sin))
            in if \<not> wr \<and> off \<ge> fsize then Some (Inr ([], 0), s)
               else
                 let endpos = (if wr then endpos else min endpos fsize)
                 in do { ((bs, n), s) \<leftarrow> io_blocks sin wr data off endpos s;
                         Some (Inr (bs, n),
                           if off + n > di_size (si_din (sins s sin))
                           then upd_sin sin (\<lambda>x. x\<lparr>si_dirty := True\<rparr>)
                                  (upd_din sin (\<lambda>din. din\<lparr>di_size := off + n\<rparr>) s)
                           else s) } }"

definition sfs_io :: "bool \<Rightarrow> addr \<Rightarrow> iobuf \<Rightarrow> mem \<Rightarrow> sfs_fs \<Rightarrow> ((kerror + unit) \<times> iobuf \<times> mem \<times> sfs_fs) option" where
  "sfs_io wr node iob m s =
     do { kassert (in_type (inodes s node) = Inode_type_sfs_inode_info);
          let data = (if wr then bytes m (io_base iob) (io_resid iob) else []);
          (r, s) \<leftarrow> sfs_io_nolock node wr data (io_offset iob) (io_resid iob) s;
          case r of
            Inl e \<Rightarrow> Some (Inl e, iob, m, s)
          | Inr (bs, alen) \<Rightarrow>
              do { iob' \<leftarrow> (if alen \<noteq> 0 then iobuf_skip alen iob else Some iob);
                   Some (Inr (), iob', store_bytes m (io_base iob) bs, s) } }"

definition sfs_read :: "addr \<Rightarrow> iobuf \<Rightarrow> mem \<Rightarrow> sfs_fs \<Rightarrow> ((kerror + unit) \<times> iobuf \<times> mem \<times> sfs_fs) option" where
  "sfs_read node iob m s = sfs_io False node iob m s"

definition sfs_write :: "addr \<Rightarrow> iobuf \<Rightarrow> mem \<Rightarrow> sfs_fs \<Rightarrow> ((kerror + unit) \<times> iobuf \<times> mem \<times> sfs_fs) option" where
  "sfs_write node iob m s = sfs_io True node iob m s"

definition sfs_gettype :: "addr \<Rightarrow> sfs_fs \<Rightarrow> u32 option" where
  "sfs_gettype node s =
     (let ty = di_type (si_din (sins s node))
      in if ty = SFS_TYPE_DIR then Some S_IFDIR
         else if ty = SFS_TYPE_FILE then Some S_IFREG
         else if ty = SFS_TYPE_LINK then Some S_IFLNK
         else None)"

definition sfs_fstat :: "addr \<Rightarrow> sfs_fs \<Rightarrow> stat option" where
  "sfs_fstat node s =
     do { vop_op Vop_gettype node s;
          ty \<leftarrow> sfs_gettype node s;
          let din = si_din (sins s node);
          Some \<lparr>st_mode = ty, st_nlinks = unat (di_nlinks din), st_blocks = di_blocks din, st_size = di_size din\<rparr> }"

section \<open>Definitions: changing the length of a file\<close>

fun grow_loop :: "addr \<Rightarrow> nat \<Rightarrow> nat \<Rightarrow> sfs_fs \<Rightarrow> ((kerror + unit) \<times> sfs_fs) option" where
  "grow_loop sin nblks 0 s = Some (Inr (), s)"
| "grow_loop sin nblks (Suc k) s =
     and_then (sfs_bmap_load_nolock sin nblks s) (\<lambda>_ s. grow_loop sin (nblks + 1) k s)"

fun shrink_loop :: "addr \<Rightarrow> nat \<Rightarrow> sfs_fs \<Rightarrow> ((kerror + unit) \<times> sfs_fs) option" where
  "shrink_loop sin 0 s = Some (Inr (), s)"
| "shrink_loop sin (Suc k) s = and_then (sfs_bmap_truncate_nolock sin s) (\<lambda>_ s. shrink_loop sin k s)"

definition sfs_truncfile :: "addr \<Rightarrow> int \<Rightarrow> sfs_fs \<Rightarrow> ((kerror + unit) \<times> sfs_fs) option" where
  "sfs_truncfile sin len s =
     (if len < 0 \<or> len > int SFS_MAX_FILE_SIZE then Some (Inl E_INVAL, s)
      else
        let len = nat len; tblks = (len + SFS_BLKSIZE - 1) div SFS_BLKSIZE; nblks = di_blocks (si_din (sins s sin))
        in if di_size (si_din (sins s sin)) = len then do { kassert (tblks = nblks); Some (Inr (), s) }
           else
             and_then
               (if nblks < tblks then grow_loop sin nblks (tblks - nblks) s
                else if tblks < nblks then shrink_loop sin (nblks - tblks) s
                else Some (Inr (), s))
               (\<lambda>_ s. do { kassert (di_blocks (si_din (sins s sin)) = tblks);
                           Some (Inr (), upd_sin sin (\<lambda>x. x\<lparr>si_dirty := True\<rparr>)
                             (upd_din sin (\<lambda>din. din\<lparr>di_size := len\<rparr>) s)) }))"

definition vop_truncate :: "addr \<Rightarrow> int \<Rightarrow> sfs_fs \<Rightarrow> ((kerror + unit) \<times> sfs_fs) option" where
  "vop_truncate node len s = do { vop_op Vop_truncate node s; sfs_truncfile node len s }"

definition sfs_tryseek :: "addr \<Rightarrow> int \<Rightarrow> sfs_fs \<Rightarrow> ((kerror + unit) \<times> sfs_fs) option" where
  "sfs_tryseek node pos s =
     (if pos < 0 \<or> pos \<ge> int SFS_MAX_FILE_SIZE then Some (Inl E_INVAL, s)
      else if pos > int (di_size (si_din (sins s node))) then vop_truncate node pos s
      else Some (Inr (), s))"

section \<open>Definitions: releasing inodes\<close>

definition sfs_reclaim :: "addr \<Rightarrow> sfs_fs \<Rightarrow> ((kerror + unit) \<times> sfs_fs) option" where
  "sfs_reclaim node s =
     do { kassert (reclaim_count (sins s node) > 0);
          let s = upd_sin node (\<lambda>x. x\<lparr>reclaim_count := reclaim_count x - 1\<rparr>) s;
          if reclaim_count (sins s node) \<noteq> 0 \<or> ref_count (inodes s node) \<noteq> 0 then Some (Inl E_BUSY, s)
          else
            and_then (if di_nlinks (si_din (sins s node)) = 0 then vop_truncate node 0 s else Some (Inr (), s)) (\<lambda>_ s.
            and_then (if si_dirty (sins s node) then vop_fsync node s else Some (Inr (), s)) (\<lambda>_ s.
              do { let s = sfs_remove_links node s;
                   s \<leftarrow> (if di_nlinks (si_din (sins s node)) = 0 then
                           do { s \<leftarrow> sfs_block_free (si_ino (sins s node)) s;
                                let ent = di_indirect (si_din (sins s node));
                                if ent \<noteq> 0 then sfs_block_free ent s else Some s }
                         else Some s);
                   s \<leftarrow> inode_kill node s;
                   Some (Inr (), s) })) }"

definition inode_ref_dec :: "addr \<Rightarrow> sfs_fs \<Rightarrow> (int \<times> sfs_fs) option" where
  "inode_ref_dec node s =
     do { kassert (ref_count (inodes s node) > 0);
          let s = upd_inode node (\<lambda>n. n\<lparr>ref_count := ref_count n - 1\<rparr>) s;
          let r = ref_count (inodes s node);
          if r = 0 then
            do { vop_op Vop_reclaim node s;
                 (_, s) \<leftarrow> sfs_reclaim node s;
                 Some (r, s) }
          else Some (r, s) }"

section \<open>Definitions: names\<close>

definition sfs_lookup :: "addr \<Rightarrow> u8 list \<Rightarrow> sfs_fs \<Rightarrow> ((kerror + addr) \<times> sfs_fs) option" where
  "sfs_lookup node path s =
     do { kassert (path \<noteq> [] \<and> hd path \<noteq> ch CHR ''/'');
          let s = snd (inode_ref_inc node s);
          if di_type (si_din (sins s node)) \<noteq> SFS_TYPE_DIR then
            do { (_, s) \<leftarrow> inode_ref_dec node s; Some (Inl E_NOTDIR, s) }
          else
            do { (r, s) \<leftarrow> sfs_lookup_once node path s;
                 (_, s) \<leftarrow> inode_ref_dec node s;
                 Some (case r of Inl e \<Rightarrow> Inl e | Inr (subnode, _) \<Rightarrow> Inr subnode, s) } }"

text \<open>
  The loop of \<open>sfs_namefile\<close> writes the path from the end of the buffer downwards. It ends because
  every round uses up at least one byte of \<open>resid\<close>.
\<close>

function namefile_loop ::
  "addr \<Rightarrow> addr \<Rightarrow> nat \<Rightarrow> mem \<Rightarrow> sfs_fs \<Rightarrow> ((kerror + addr \<times> nat) \<times> mem \<times> sfs_fs) option" where
  "namefile_loop node ptr resid m s =
     (case sfs_lookup_once node (map of_char ''..'') s of
        None \<Rightarrow> None
      | Some (Inl e, s) \<Rightarrow> do { (_, s) \<leftarrow> inode_ref_dec node s; Some (Inl e, m, s) }
      | Some (Inr (parent, _), s) \<Rightarrow>
          let ino = si_ino (sins s node)
          in case inode_ref_dec node s of
               None \<Rightarrow> None
             | Some (_, s) \<Rightarrow>
                 if node = parent then do { (_, s) \<leftarrow> inode_ref_dec node s; Some (Inr (ptr, resid), m, s) }
                 else if \<not> (ino \<noteq> si_ino (sins s parent) \<and> di_type (si_din (sins s parent)) = SFS_TYPE_DIR) then None
                 else
                   (case sfs_dirent_findino_nolock parent ino s of
                      None \<Rightarrow> None
                    | Some (Inl e, s) \<Rightarrow> do { (_, s) \<leftarrow> inode_ref_dec parent s; Some (Inl e, m, s) }
                    | Some (Inr entry, s) \<Rightarrow>
                        let nm = c_string (de_name entry); alen = length nm + 1
                        in if alen > resid then do { (_, s) \<leftarrow> inode_ref_dec parent s; Some (Inl E_NO_MEM, m, s) }
                           else namefile_loop parent (ptr - alen) (resid - alen)
                                  (store_bytes m (ptr - alen) (nm @ [ch CHR ''/''])) s))"
  by pat_completeness auto

termination namefile_loop
  by (relation "measure (\<lambda>(_, _, resid, _, _). resid)") auto

definition sfs_namefile :: "addr \<Rightarrow> iobuf \<Rightarrow> mem \<Rightarrow> sfs_fs \<Rightarrow> ((kerror + unit) \<times> iobuf \<times> mem \<times> sfs_fs) option" where
  "sfs_namefile node iob m s =
     (if io_resid iob \<le> 2 then Some (Inl E_NO_MEM, iob, m, s)
      else case kmalloc_next s of
        (None, s) \<Rightarrow> Some (Inl E_NO_MEM, iob, m, s)
      | (Some _, s) \<Rightarrow>
          do { (r, m, s) \<leftarrow> namefile_loop node (io_base iob + io_resid iob) (io_resid iob - 2) m
                              (snd (inode_ref_inc node s));
               case r of
                 Inl e \<Rightarrow> Some (Inl e, iob, m, s)
               | Inr (ptr, resid) \<Rightarrow>
                   let alen = io_resid iob - resid - 2;
                       m = memmove m (io_base iob + 1) ptr alen;
                       m = m(io_base iob := ch CHR ''/'', io_base iob + 1 + alen := 0)
                   in do { iob \<leftarrow> iobuf_skip alen iob; Some (Inr (), iob, m, s) } })"

fun direntry_loop :: "addr \<Rightarrow> nat \<Rightarrow> nat list \<Rightarrow> sfs_fs \<Rightarrow> ((kerror + sfs_disk_entry) \<times> sfs_fs) option" where
  "direntry_loop sin slot [] s = Some (Inl E_NOENT, s)"
| "direntry_loop sin slot (i # is) s =
     and_then (sfs_dirent_read_nolock sin i s) (\<lambda>entry s.
       if de_ino entry \<noteq> 0 then
         if slot = 0 then Some (Inr entry, s) else direntry_loop sin (slot - 1) is s
       else direntry_loop sin slot is s)"

definition sfs_getdirentry_sub_nolock :: "addr \<Rightarrow> nat \<Rightarrow> sfs_fs \<Rightarrow> ((kerror + sfs_disk_entry) \<times> sfs_fs) option" where
  "sfs_getdirentry_sub_nolock sin slot s = direntry_loop sin slot [0..<di_blocks (si_din (sins s sin))] s"

definition sfs_dentry_size :: nat where "sfs_dentry_size = 256"

definition sfs_getdirentry :: "addr \<Rightarrow> iobuf \<Rightarrow> mem \<Rightarrow> sfs_fs \<Rightarrow> ((kerror + unit) \<times> iobuf \<times> mem \<times> sfs_fs) option" where
  "sfs_getdirentry node iob m s =
     (case kmalloc_next s of
        (None, s) \<Rightarrow> Some (Inl E_NO_MEM, iob, m, s)
      | (Some p, s) \<Rightarrow>
          if io_offset iob < 0 \<or> io_offset iob mod int sfs_dentry_size \<noteq> 0 then Some (Inl E_INVAL, iob, m, s)
          else
            let slot = nat (io_offset iob) div sfs_dentry_size
            in if slot > di_blocks (si_din (sins s node)) then Some (Inl E_NOENT, iob, m, s)
               else
                 do { (r, s) \<leftarrow> sfs_getdirentry_sub_nolock node slot s;
                      case r of
                        Inl e \<Rightarrow> Some (Inl e, iob, m, s)
                      | Inr entry \<Rightarrow>
                          do { (ret, _, iob, m) \<leftarrow> iobuf_move (p + 4) sfs_dentry_size True iob
                                                    (store_bytes m (p + 4) (de_name entry));
                               Some (case ret of None \<Rightarrow> Inr () | Some e \<Rightarrow> Inl e, iob, m, s) } })"


section \<open>Definitions: what is shown\<close>

text \<open>
  The blocks of a file, and the change of its number of blocks to \<open>n\<close>: the file and the free map
  exchange blocks and nobody else loses or gains one; blocks that stay in the file keep their
  place and contents, new ones are zero on a device that keeps what is written, and no other block is written.
\<close>

definition file_blocks :: "sfs_fs \<Rightarrow> sfs_disk_inode \<Rightarrow> nat set" where
  "file_blocks s din = bmap_of s din ` {..<di_blocks din} \<union> ({di_indirect din} - {0})"

definition resized :: "addr \<Rightarrow> nat \<Rightarrow> sfs_fs \<Rightarrow> sfs_fs \<Rightarrow> bool" where
  "resized sin n s s' \<longleftrightarrow>
     (let din = si_din (sins s sin); din' = si_din (sins s' sin)
      in sfs_ok s' \<and> file_ok s' din' \<and> di_blocks din' = n \<and> di_type din' = di_type din \<and> di_nlinks din' = di_nlinks din \<and>
         file_blocks s' din' \<union> free_blocks s' = file_blocks s din \<union> free_blocks s \<and>
         (\<forall>c. c \<notin> file_blocks s din \<union> free_blocks s \<longrightarrow> disk s' c = disk s c) \<and>
         (\<forall>i < di_blocks din. i < n \<longrightarrow> bmap_of s' din' i = bmap_of s din i \<and> disk s' (bmap_of s din i) = disk s (bmap_of s din i)) \<and>
         (if dev_keeps s then \<forall>i < n. di_blocks din \<le> i \<longrightarrow> disk s' (bmap_of s' din' i) = zero_block else disk s' = disk s) \<and>
         (\<forall>x. x \<noteq> sin \<longrightarrow> sins s' x = sins s x) \<and> sb_blocks (super s') = sb_blocks (super s) \<and> d_io s' = d_io s)"

definition grow_needed :: "sfs_disk_inode \<Rightarrow> nat \<Rightarrow> nat" where
  "grow_needed din k = k + (if di_indirect din = 0 \<and> 0 < k \<and> SFS_NDIRECT < di_blocks din + k then 1 else 0)"

definition blocks_of_size :: "nat \<Rightarrow> nat" where
  "blocks_of_size len = (len + SFS_BLKSIZE - 1) div SFS_BLKSIZE"

section \<open>Changing the number of blocks\<close>

lemma appended_resized:
  assumes ok: "sfs_ok s" and f: "file_ok s (si_din (sins s sin))" and a: "appended sin b s s'"
    and n: "di_blocks (si_din (sins s sin)) < SFS_MAX_BLOCKS"
  shows "resized sin (di_blocks (si_din (sins s sin)) + 1) s s' \<and> di_size (si_din (sins s' sin)) = di_size (si_din (sins s sin))"
proof -
  define din where "din = si_din (sins s sin)"
  define din' where "din' = si_din (sins s' sin)"
  note a' = a [unfolded appended_def Let_def, folded din_def din'_def]
  have m: "bmap_of s' din' i = (if i = di_blocks din then b else bmap_of s din i)" if "i \<le> di_blocks din" for i
    using a' n that by (auto simp: din_def)
  have us: "used_block s (bmap_of s din i) \<and> bmap_of s din i \<noteq> di_indirect din" if "i < di_blocks din" for i
    using f that by (simp add: file_ok_def din_def)
  have ne: "bmap_of s din i \<noteq> b \<and> bmap_of s din i \<noteq> di_indirect din'" if "i < di_blocks din" for i
    using us [OF that] a' by (auto simp: used_block_def split: if_splits)
  have img: "bmap_of s' din' ` {..<di_blocks din + 1} = insert b (bmap_of s din ` {..<di_blocks din})"
    using m by (auto simp: less_Suc_eq lessThan_Suc intro!: image_eqI)
  have free0: "0 \<notin> free_blocks s"
    using ok by (auto simp: sfs_ok_def)
  have ni: "di_blocks din' = di_blocks din + 1" "free_blocks s' = free_blocks s - {b} - {di_indirect din'}" "b \<in> free_blocks s"
    using a' by auto
  have i0: "di_indirect din' \<noteq> di_indirect din \<Longrightarrow> di_indirect din = 0 \<and> di_indirect din' \<in> free_blocks s"
    using a' by (auto simp: blocks_needed_def split: if_splits)
  have region: "file_blocks s' din' \<union> free_blocks s' = file_blocks s din \<union> free_blocks s"
    unfolding file_blocks_def ni(1) img ni(2) using ni(3) i0 free0 by auto
  have keep: "bmap_of s' din' i = bmap_of s din i \<and> disk s' (bmap_of s din i) = disk s (bmap_of s din i)" if "i < di_blocks din" for i
    using a' ne [OF that] m [of i] that by simp
  have frame: "disk s' c = disk s c" if "c \<notin> file_blocks s din \<union> free_blocks s" for c
  proof -
    have "c \<noteq> b \<and> (c = 0 \<or> c \<noteq> di_indirect din')"
      using that ni(3) i0 by (auto simp: file_blocks_def)
    with a' show ?thesis
      by blast
  qed
  show ?thesis
    unfolding resized_def Let_def din_def [symmetric] din'_def [symmetric]
    using a' region keep frame m [of "di_blocks din"] ni by (auto simp: less_Suc_eq)
qed


lemma dropped_resized:
  assumes f: "file_ok s (si_din (sins s sin))" and d: "dropped sin s s'" and n: "di_blocks (si_din (sins s sin)) = Suc n"
  shows "resized sin n s s' \<and> di_size (si_din (sins s' sin)) = di_size (si_din (sins s sin))"
proof -
  define din where "din = si_din (sins s sin)"
  define din' where "din' = si_din (sins s' sin)"
  note d' = d [unfolded dropped_def Let_def, folded din_def din'_def]
  have nm: "n < SFS_MAX_BLOCKS" "di_blocks din = Suc n" "di_blocks din' = n"
    using f n d' by (auto simp: file_ok_def din_def)
  have m: "bmap_of s' din' i = bmap_of s din i" if "i < n" for i
    using d' nm that by auto
  have ne: "bmap_of s din i \<noteq> di_indirect din" if "i < n" for i
    using f that nm(2) by (simp add: file_ok_def din_def)
  have img: "bmap_of s din ` {..<Suc n} = insert (bmap_of s din n) (bmap_of s' din' ` {..<n})"
    using m by (auto simp: lessThan_Suc intro!: image_eqI)
  have fr: "free_blocks s' = insert (bmap_of s din n) (free_blocks s)" "di_indirect din' = di_indirect din"
    using d' nm by auto
  have region: "file_blocks s' din' \<union> free_blocks s' = file_blocks s din \<union> free_blocks s"
    unfolding file_blocks_def nm img fr by auto
  have frame: "disk s' c = disk s c" if "c \<notin> file_blocks s din \<union> free_blocks s" for c
    using d' that by (auto simp: file_blocks_def)
  show ?thesis
    unfolding resized_def Let_def din_def [symmetric] din'_def [symmetric]
    using d' region frame m ne nm by auto
qed

text \<open>Steps in one direction compose.\<close>

lemma resized_refl: "sfs_ok s \<Longrightarrow> file_ok s (si_din (sins s sin)) \<Longrightarrow> resized sin (di_blocks (si_din (sins s sin))) s s"
  by (simp add: resized_def Let_def)

lemma resized_trans:
  assumes a: "resized sin n s s1" and b: "resized sin k s1 s2"
    and dir: "di_blocks (si_din (sins s sin)) \<le> n \<and> n \<le> k \<or> k \<le> n \<and> n \<le> di_blocks (si_din (sins s sin))"
  shows "resized sin k s s2"
proof -
  define din where "din = si_din (sins s sin)"
  define din1 where "din1 = si_din (sins s1 sin)"
  define din2 where "din2 = si_din (sins s2 sin)"
  note a' = a [unfolded resized_def Let_def, folded din_def din1_def]
  note b' = b [unfolded resized_def Let_def, folded din1_def din2_def]
  have keep: "bmap_of s2 din2 i = bmap_of s din i \<and> disk s2 (bmap_of s din i) = disk s (bmap_of s din i)"
    if "i < di_blocks din" "i < k" for i
    using a' b' dir that by (auto simp: din_def [symmetric]) (metis order_less_le_trans)+
  have kp: "dev_keeps s1 = dev_keeps s"
    using dev_same(1) [of s1 s] a' by simp
  have zero: "disk s2 (bmap_of s2 din2 i) = zero_block" if "dev_keeps s" "i < k" "di_blocks din \<le> i" for i
    using a' b' dir that kp by (cases "i < n") (auto simp: din_def [symmetric])
  show ?thesis
    unfolding resized_def Let_def din_def [symmetric] din2_def [symmetric]
    using a' b' keep zero kp by auto
qed

lemma resized_dev:
  assumes "resized sin n s s'"
  shows "dev_keeps s' = dev_keeps s"
proof (rule dev_same(1))
  show "d_io s' = d_io s" "sb_blocks (super s') = sb_blocks (super s)"
    using assms by (simp_all add: resized_def Let_def)
qed

lemma shrink_loop_ok:
  assumes "sfs_ok s" "file_ok s (si_din (sins s sin))" "k \<le> di_blocks (si_din (sins s sin))"
    and "dev_keeps s \<or> di_blocks (si_din (sins s sin)) \<le> SFS_NDIRECT"
  shows "\<exists>s'. shrink_loop sin k s = Some (Inr (), s') \<and> resized sin (di_blocks (si_din (sins s sin)) - k) s s' \<and>
    di_size (si_din (sins s' sin)) = di_size (si_din (sins s sin))"
  using assms
proof (induction k arbitrary: s)
  case 0
  then show ?case
    using resized_refl by auto
next
  case (Suc k)
  then obtain n where n: "di_blocks (si_din (sins s sin)) = Suc n"
    by (metis Suc_le_D)
  obtain s1 where s1: "sfs_bmap_truncate_nolock sin s = Some (Inr (), s1)" "dropped sin s s1"
    using bmap_truncate_ok [OF Suc.prems(1,2) _ Suc.prems(4)] n by auto
  note r1 = dropped_resized [OF Suc.prems(2) s1(2) n]
  have i1: "sfs_ok s1" "file_ok s1 (si_din (sins s1 sin))" "di_blocks (si_din (sins s1 sin)) = n"
    using r1 by (auto simp: resized_def Let_def)
  have "k \<le> di_blocks (si_din (sins s1 sin))" "dev_keeps s1 \<or> di_blocks (si_din (sins s1 sin)) \<le> SFS_NDIRECT"
    using Suc.prems(3,4) unfolding resized_dev [OF conjunct1 [OF r1]] i1(3) n by auto
  from Suc.IH [OF i1(1,2) this] obtain s' where s': "shrink_loop sin k s1 = Some (Inr (), s')" "resized sin (n - k) s1 s'"
    "di_size (si_din (sins s' sin)) = di_size (si_din (sins s1 sin))"
    using i1(3) by auto
  have "resized sin (n - k) s s'"
    using resized_trans [OF conjunct1 [OF r1] s'(2)] n by simp
  with s1 s' r1 n show ?case
    by auto
qed

lemma undone_resized:
  assumes f: "file_ok s (si_din (sins s sin))" and u: "undone s s'"
  shows "resized sin (di_blocks (si_din (sins s sin))) s s'"
proof -
  define din where "din = si_din (sins s sin)"
  note u' = u [unfolded undone_def]
  have "di_indirect din \<noteq> 0 \<Longrightarrow> disk s' (di_indirect din) = disk s (di_indirect din)"
    using f u' by (auto simp: file_ok_def din_def used_block_def)
  then have m: "bmap_of s' din i = bmap_of s din i" for i
    by (simp add: bmap_of_def)
  have ub: "used_block s' c = used_block s c" for c
    using u' by (simp add: used_block_def)
  have "file_ok s' din"
    using f unfolding file_ok_def m ub din_def [symmetric] by (simp add: inj_on_def m)
  moreover have "disk s' (bmap_of s din i) = disk s (bmap_of s din i)" if "i < di_blocks din" for i
    using f u' that by (auto simp: file_ok_def din_def used_block_def)
  ultimately show ?thesis
    using u' m by (auto simp: resized_def Let_def din_def file_blocks_def)
qed

text \<open>How an appended block changes what further growth needs.\<close>

lemma grow_needed_step:
  assumes ok: "sfs_ok s" and a: "appended sin b s s1"
  shows "grow_needed (si_din (sins s sin)) (Suc k) \<le> card (free_blocks s) \<longleftrightarrow>
    grow_needed (si_din (sins s1 sin)) k \<le> card (free_blocks s1)"
proof -
  define din where "din = si_din (sins s sin)"
  define din1 where "din1 = si_din (sins s1 sin)"
  have a1: "di_blocks din1 = di_blocks din + 1" "card (free_blocks s) = card (free_blocks s1) + blocks_needed din"
    and a2: "if blocks_needed din = 1 then di_indirect din1 = di_indirect din else di_indirect din1 \<in> free_blocks s"
    using a [unfolded appended_def Let_def, folded din_def din1_def] by simp_all
  have "0 \<notin> free_blocks s"
    using ok by (auto simp: sfs_ok_def)
  with a2 have "blocks_needed din = 2 \<Longrightarrow> di_indirect din1 \<noteq> 0"
    by (metis one_eq_numeral_iff semiring_norm(85))
  with a1 a2 show ?thesis
    unfolding din_def [symmetric] din1_def [symmetric]
    by (cases "di_indirect din = 0"; cases "di_blocks din < SFS_NDIRECT") (auto simp: grow_needed_def blocks_needed_def)
qed

lemma grow_loop_ok:
  assumes "sfs_ok s" "file_ok s (si_din (sins s sin))" "di_blocks (si_din (sins s sin)) + k \<le> SFS_MAX_BLOCKS"
    and "dev_keeps s \<or> di_blocks (si_din (sins s sin)) + k \<le> SFS_NDIRECT"
  shows "\<exists>r j s'. grow_loop sin (di_blocks (si_din (sins s sin))) k s = Some (r, s') \<and>
    resized sin (di_blocks (si_din (sins s sin)) + j) s s' \<and>
    di_size (si_din (sins s' sin)) = di_size (si_din (sins s sin)) \<and>
    (if grow_needed (si_din (sins s sin)) k \<le> card (free_blocks s) then r = Inr () \<and> j = k else r = Inl E_NO_MEM \<and> j < k)"
  using assms
proof (induction k arbitrary: s)
  case 0
  then show ?case
    using resized_refl [OF 0(1,2)] by (auto simp: grow_needed_def)
next
  case (Suc k)
  define din where "din = si_din (sins s sin)"
  have n: "di_blocks din < SFS_MAX_BLOCKS"
    using Suc.prems(3) by (simp add: din_def)
  have "dev_keeps s \<or> di_blocks (si_din (sins s sin)) < SFS_NDIRECT"
    using Suc.prems(4) by auto
  note ap = bmap_load_append [OF Suc.prems(1,2) n [unfolded din_def] this, folded din_def]
  have need: "blocks_needed din \<le> grow_needed din (Suc k)"
    by (auto simp: blocks_needed_def grow_needed_def)
  show ?case
  proof (cases "card (free_blocks s) < blocks_needed din")
    case True
    then obtain s' where s': "sfs_bmap_load_nolock sin (di_blocks din) s = Some (Inl E_NO_MEM, s')" "undone s s'"
      using ap by auto
    have "resized sin (di_blocks din + 0) s s'"
      using undone_resized [OF Suc.prems(2) s'(2)] by (simp add: din_def)
    moreover have "sins s' = sins s"
      using s'(2) by (simp add: undone_def)
    ultimately show ?thesis
      using s' True need by (intro exI [of _ "Inl E_NO_MEM"] exI [of _ 0]) (simp add: din_def)
  next
    case False
    then obtain b s1 where s1: "sfs_bmap_load_nolock sin (di_blocks din) s = Some (Inr b, s1)" "appended sin b s s1"
      using ap by auto
    note r1 = appended_resized [OF Suc.prems(1,2) s1(2) n [unfolded din_def], folded din_def]
    have i1: "sfs_ok s1" "file_ok s1 (si_din (sins s1 sin))" "di_blocks (si_din (sins s1 sin)) = di_blocks din + 1"
      using r1 by (auto simp: resized_def Let_def)
    then have "di_blocks (si_din (sins s1 sin)) + k \<le> SFS_MAX_BLOCKS"
      "dev_keeps s1 \<or> di_blocks (si_din (sins s1 sin)) + k \<le> SFS_NDIRECT"
      using Suc.prems(3,4) unfolding resized_dev [OF conjunct1 [OF r1]] by (auto simp: din_def)
    from Suc.IH [OF i1(1,2) this] obtain r j s' where s': "grow_loop sin (di_blocks din + 1) k s1 = Some (r, s')"
      "resized sin (di_blocks din + 1 + j) s1 s'" "di_size (si_din (sins s' sin)) = di_size (si_din (sins s1 sin))"
      "if grow_needed (si_din (sins s1 sin)) k \<le> card (free_blocks s1) then r = Inr () \<and> j = k else r = Inl E_NO_MEM \<and> j < k"
      unfolding i1(3) by blast
    have "resized sin (di_blocks din + Suc j) s s'"
      using resized_trans [OF conjunct1 [OF r1] s'(2)] by (simp add: din_def)
    moreover have "if grow_needed din (Suc k) \<le> card (free_blocks s) then r = Inr () \<and> Suc j = Suc k else r = Inl E_NO_MEM \<and> Suc j < Suc k"
      using grow_needed_step [OF Suc.prems(1) s1(2), of k] s'(4) by (simp add: din_def split: if_splits)
    ultimately show ?thesis
      using s1 s' r1 by (intro exI [of _ r] exI [of _ "Suc j"]) (simp add: din_def)
  qed
qed


text \<open>Changing the recorded length leaves the block map alone.\<close>

lemma resized_set_size:
  assumes "resized sin n s s'"
  shows "resized sin n s (upd_sin sin (\<lambda>x. x\<lparr>si_dirty := True\<rparr>) (upd_din sin (\<lambda>din. din\<lparr>di_size := len\<rparr>) s'))"
proof -
  define t where "t = upd_sin sin (\<lambda>x. x\<lparr>si_dirty := True\<rparr>) (upd_din sin (\<lambda>din. din\<lparr>di_size := len\<rparr>) s')"
  have t: "si_din (sins t sin) = (si_din (sins s' sin))\<lparr>di_size := len\<rparr>" "disk t = disk s'" "free_blocks t = free_blocks s'"
    "super t = super s'" "sfs_ok t = sfs_ok s'" "d_io t = d_io s'" "\<And>x. x \<noteq> sin \<Longrightarrow> sins t x = sins s' x"
    by (simp_all add: t_def upd_din_def)
  have m: "bmap_of t (din\<lparr>di_size := len\<rparr>) i = bmap_of s' din i" for din i
    using t by (simp add: bmap_of_def)
  have u: "used_block t c = used_block s' c" for c
    using t by (simp add: used_block_def)
  have f: "file_ok t (din\<lparr>di_size := len\<rparr>) = file_ok s' din" for din
    by (simp add: file_ok_def m u inj_on_def)
  have "file_blocks t (din\<lparr>di_size := len\<rparr>) = file_blocks s' din" for din
    by (simp add: file_blocks_def m)
  with assms t m f have "resized sin n s t"
    by (simp add: resized_def Let_def)
  then show ?thesis
    by (simp add: t_def)
qed

lemma resize_ok:
  assumes ok: "sfs_ok s" and f: "file_ok s (si_din (sins s sin))" and t: "t \<le> SFS_MAX_BLOCKS"
    and n: "n = di_blocks (si_din (sins s sin))" and kp: "dev_keeps s \<or> n \<le> SFS_NDIRECT \<and> t \<le> SFS_NDIRECT"
  shows "\<exists>r k s'. (if n < t then grow_loop sin n (t - n) s else if t < n then shrink_loop sin (n - t) s else Some (Inr (), s)) = Some (r, s') \<and>
    resized sin k s s' \<and> di_size (si_din (sins s' sin)) = di_size (si_din (sins s sin)) \<and>
    (if grow_needed (si_din (sins s sin)) (t - n) \<le> card (free_blocks s) then r = Inr () \<and> k = t
     else r = Inl E_NO_MEM \<and> n \<le> k \<and> k < t)"
proof (cases "n < t")
  case True
  then obtain r j s' where "grow_loop sin n (t - n) s = Some (r, s')"
    "resized sin (n + j) s s'" "di_size (si_din (sins s' sin)) = di_size (si_din (sins s sin))"
    "if grow_needed (si_din (sins s sin)) (t - n) \<le> card (free_blocks s) then r = Inr () \<and> j = t - n else r = Inl E_NO_MEM \<and> j < t - n"
    using grow_loop_ok [OF ok f, of "t - n"] t kp by (auto simp: n)
  with True show ?thesis
    by (intro exI [of _ r] exI [of _ "n + j"] exI [of _ s']) (auto split: if_splits)
next
  case False
  have r0: "resized sin n s s"
    using resized_refl [OF ok f] by (simp add: n)
  obtain s' where "shrink_loop sin (n - t) s = Some (Inr (), s')" "resized sin (n - (n - t)) s s'"
    "di_size (si_din (sins s' sin)) = di_size (si_din (sins s sin))"
    using shrink_loop_ok [OF ok f, of "n - t"] kp by (auto simp: n)
  with False r0 show ?thesis
    by (auto simp: grow_needed_def not_less)
qed

lemma blocks_of_size_le: "blocks_of_size len \<le> SFS_MAX_BLOCKS \<Longrightarrow> len \<le> SFS_MAX_FILE_SIZE"
  by (simp add: blocks_of_size_def SFS_MAX_BLOCKS_def SFS_NDIRECT_def SFS_BLK_NENTRY_def SFS_BLKSIZE_def SFS_MAX_FILE_SIZE_def)

lemma sfs_truncfile_ok:
  assumes ok: "sfs_ok s" and f: "file_ok s (si_din (sins s sin))"
    and sized: "di_blocks (si_din (sins s sin)) = blocks_of_size (di_size (si_din (sins s sin)))"
    and len: "blocks_of_size len \<le> SFS_MAX_BLOCKS"
    and kp: "dev_keeps s \<or> di_blocks (si_din (sins s sin)) \<le> SFS_NDIRECT \<and> blocks_of_size len \<le> SFS_NDIRECT"
  shows "\<exists>r n s'. sfs_truncfile sin (int len) s = Some (r, s') \<and> resized sin n s s' \<and>
    (if grow_needed (si_din (sins s sin)) (blocks_of_size len - di_blocks (si_din (sins s sin))) \<le> card (free_blocks s)
     then r = Inr () \<and> n = blocks_of_size len \<and> di_size (si_din (sins s' sin)) = len
     else r = Inl E_NO_MEM \<and> di_blocks (si_din (sins s sin)) \<le> n \<and> n < blocks_of_size len \<and>
       di_size (si_din (sins s' sin)) = di_size (si_din (sins s sin)))"
proof -
  define din where "din = si_din (sins s sin)"
  define t where "t = blocks_of_size len"
  define resize where "resize = (if di_blocks din < t then grow_loop sin (di_blocks din) (t - di_blocks din) s
    else if t < di_blocks din then shrink_loop sin (di_blocks din - t) s else Some (Inr (), s))"
  obtain r n s' where res: "resize = Some (r, s')" "resized sin n s s'" "di_size (si_din (sins s' sin)) = di_size din"
    "if grow_needed din (t - di_blocks din) \<le> card (free_blocks s) then r = Inr () \<and> n = t else r = Inl E_NO_MEM \<and> di_blocks din \<le> n \<and> n < t"
    using resize_ok [OF ok f, of t "di_blocks din"] len kp by (auto simp: resize_def din_def t_def)
  have nb: "di_blocks (si_din (sins s' sin)) = n"
    using res(2) by (simp add: resized_def Let_def)
  have same: "di_blocks din = t" if "di_size din = len"
    using sized that by (simp add: t_def din_def)
  have tr: "sfs_truncfile sin (int len) s = (if di_size din = len then Some (Inr (), s) else and_then resize (\<lambda>_ s.
      do { kassert (di_blocks (si_din (sins s sin)) = t);
           Some (Inr (), upd_sin sin (\<lambda>x. x\<lparr>si_dirty := True\<rparr>) (upd_din sin (\<lambda>din. din\<lparr>di_size := len\<rparr>) s)) }))"
    using blocks_of_size_le [OF len] same
    by (simp add: sfs_truncfile_def Let_def din_def [symmetric] t_def blocks_of_size_def resize_def)
  show ?thesis
  proof (cases "di_size din = len")
    case True
    then have "resized sin t s s"
      using resized_refl [OF ok f] same by (simp add: din_def)
    with True tr same show ?thesis
      by (auto simp: din_def [symmetric] t_def [symmetric] grow_needed_def)
  next
    case False
    note rs = resized_set_size [OF res(2), of len]
    show ?thesis
      using False tr res nb rs unfolding din_def [symmetric] t_def [symmetric]
      by (cases "grow_needed din (t - di_blocks din) \<le> card (free_blocks s)") (auto simp: upd_din_def)
  qed
qed

text \<open>No block is lost: the blocks of the file and the free blocks are counted together.\<close>

lemma card_file_blocks:
  assumes "file_ok s din"
  shows "card (file_blocks s din \<union> free_blocks s) = di_blocks din + (if di_indirect din = 0 then 0 else 1) + card (free_blocks s)"
proof -
  have img: "card (bmap_of s din ` {..<di_blocks din}) = di_blocks din"
    using assms by (simp add: file_ok_def card_image)
  have "bmap_of s din ` {..<di_blocks din} \<inter> ({di_indirect din} - {0}) = {}"
    using assms by (auto simp: file_ok_def)
  then have "card (file_blocks s din) = di_blocks din + card ({di_indirect din} - {0})"
    unfolding file_blocks_def by (subst card_Un_disjoint) (simp_all add: img)
  moreover have "card ({di_indirect din} - {0}) = (if di_indirect din = 0 then 0 else 1)"
    by simp
  moreover have "file_blocks s din \<inter> free_blocks s = {}" "finite (file_blocks s din)"
    using assms by (auto simp: file_blocks_def file_ok_def used_block_def)
  ultimately show ?thesis
    by (simp add: card_Un_disjoint)
qed

lemma truncfile_same_size:
  assumes "di_size (si_din (sins s sin)) = len" "len \<le> SFS_MAX_FILE_SIZE"
    "di_blocks (si_din (sins s sin)) \<noteq> blocks_of_size len"
  shows "sfs_truncfile sin (int len) s = None"
  using assms by (auto simp: sfs_truncfile_def blocks_of_size_def Let_def bind_kassert)

text \<open>
  A length that needs more blocks than the block map has entries for is accepted by the check of the length; growing then ends
  without success.
\<close>

lemma grow_loop_too_long:
  assumes "sfs_ok s" "file_ok s (si_din (sins s sin))" "SFS_MAX_BLOCKS < di_blocks (si_din (sins s sin)) + k" "dev_keeps s"
  shows "grow_loop sin (di_blocks (si_din (sins s sin))) k s = None \<or>
    (\<exists>s'. grow_loop sin (di_blocks (si_din (sins s sin))) k s = Some (Inl E_NO_MEM, s'))"
  using assms
proof (induction k arbitrary: s)
  case 0
  then show ?case
    by (simp add: file_ok_def)
next
  case (Suc k)
  let ?n = "di_blocks (si_din (sins s sin))"
  show ?case
  proof (cases "?n < SFS_MAX_BLOCKS")
    case True
    show ?thesis
    proof (cases "card (free_blocks s) < blocks_needed (si_din (sins s sin))")
      case small: True
      then show ?thesis
        using bmap_load_append [OF Suc.prems(1,2) True] Suc.prems(4) by auto
    next
      case False
      then obtain b s1 where s1: "sfs_bmap_load_nolock sin ?n s = Some (Inr b, s1)" "appended sin b s s1"
        using bmap_load_append [OF Suc.prems(1,2) True] Suc.prems(4) by auto
      have i1: "sfs_ok s1" "file_ok s1 (si_din (sins s1 sin))" "di_blocks (si_din (sins s1 sin)) = Suc ?n" "dev_keeps s1"
        using s1(2) Suc.prems(4) dev_same(1) [of s1 s] by (auto simp: appended_def Let_def)
      show ?thesis
        using Suc.IH [OF i1(1,2) _ i1(4)] Suc.prems(3) i1(3) s1(1) by simp
    qed
  next
    case False
    then have "sfs_bmap_load_nolock sin ?n s = None"
      by (auto simp: sfs_bmap_load_nolock_def sfs_bmap_get_nolock_def SFS_MAX_BLOCKS_def Let_def)
    then show ?thesis
      by simp
  qed
qed

lemma truncfile_too_long:
  assumes "sfs_ok s" "file_ok s (si_din (sins s sin))" "dev_keeps s"
    and "di_blocks (si_din (sins s sin)) = blocks_of_size (di_size (si_din (sins s sin)))"
    and "SFS_MAX_BLOCKS < blocks_of_size len" "len \<le> SFS_MAX_FILE_SIZE"
  shows "sfs_truncfile sin (int len) s = None \<or> (\<exists>s'. sfs_truncfile sin (int len) s = Some (Inl E_NO_MEM, s'))"
proof -
  let ?n = "di_blocks (si_din (sins s sin))"
  have n: "?n < blocks_of_size len" "di_size (si_din (sins s sin)) \<noteq> len"
    using assms(2,4,5) by (auto simp: file_ok_def)
  then have "sfs_truncfile sin (int len) s = and_then (grow_loop sin ?n (blocks_of_size len - ?n) s) (\<lambda>_ s.
      do { kassert (di_blocks (si_din (sins s sin)) = blocks_of_size len);
           Some (Inr (), upd_sin sin (\<lambda>x. x\<lparr>si_dirty := True\<rparr>) (upd_din sin (\<lambda>din. din\<lparr>di_size := len\<rparr>) s)) })"
    using assms(6) by (simp add: sfs_truncfile_def Let_def blocks_of_size_def)
  then show ?thesis
    using grow_loop_too_long [OF assms(1,2) _ assms(3), of "blocks_of_size len - ?n"] n assms(5) by auto
qed

section \<open>Main results\<close>

text \<open>
  C19. Changing the length of a file whose block count fits its length, to any length that is not
  negative. The device reports no error and either keeps what is written or, like \<open>disk0\<close>, ignores
  it; in the second case the file uses no indirect block before or after (at most 12 blocks).

  A length above \<open>SFS_MAX_FILE_SIZE\<close> is refused with \<open>E_INVAL\<close> and changes nothing. For a length of
  at most 1036 blocks, the entries of a block map, and enough free blocks the file gets the new length
  and the number of blocks for it: blocks that stay keep their place and contents, new blocks are
  zero where the device keeps writes (and nothing on it changes where it ignores them), the file and
  the free map exchange blocks without losing one, no other block is written and no other inode
  changes. Without enough free blocks the call fails with \<open>E_NO_MEM\<close>, but the file keeps the blocks it
  has got so far; if it has got any, its block count no longer fits its length, and setting the file
  to its own length then panics. A length of more than 1036 blocks that is at most
  \<open>SFS_MAX_FILE_SIZE\<close> passes the check of the length and never succeeds: the call panics or fails
  with \<open>E_NO_MEM\<close>.
\<close>

theorem sfs_truncfile_correct:
  assumes "sfs_ok s" "file_ok s (si_din (sins s sin))"
    and "di_blocks (si_din (sins s sin)) = blocks_of_size (di_size (si_din (sins s sin)))"
    and "dev_keeps s \<or> di_blocks (si_din (sins s sin)) \<le> SFS_NDIRECT \<and> blocks_of_size len \<le> SFS_NDIRECT"
  shows "(blocks_of_size len \<le> SFS_MAX_BLOCKS \<longrightarrow>
      (\<exists>r n s'. sfs_truncfile sin (int len) s = Some (r, s') \<and> resized sin n s s' \<and>
        card (free_blocks s') + n + (if di_indirect (si_din (sins s' sin)) = 0 then 0 else 1) =
          card (free_blocks s) + di_blocks (si_din (sins s sin)) + (if di_indirect (si_din (sins s sin)) = 0 then 0 else 1) \<and>
        (if grow_needed (si_din (sins s sin)) (blocks_of_size len - di_blocks (si_din (sins s sin))) \<le> card (free_blocks s)
         then r = Inr () \<and> n = blocks_of_size len \<and> di_size (si_din (sins s' sin)) = len
         else r = Inl E_NO_MEM \<and> di_size (si_din (sins s' sin)) = di_size (si_din (sins s sin)) \<and>
           di_blocks (si_din (sins s sin)) \<le> n \<and>
           (di_blocks (si_din (sins s sin)) < n \<longrightarrow> sfs_truncfile sin (int (di_size (si_din (sins s sin)))) s' = None)))) \<and>
    (SFS_MAX_BLOCKS < blocks_of_size len \<and> len \<le> SFS_MAX_FILE_SIZE \<longrightarrow>
      sfs_truncfile sin (int len) s = None \<or> (\<exists>s'. sfs_truncfile sin (int len) s = Some (Inl E_NO_MEM, s'))) \<and>
    (SFS_MAX_FILE_SIZE < len \<longrightarrow> sfs_truncfile sin (int len) s = Some (Inl E_INVAL, s))"
proof (intro conjI impI)
  assume len: "blocks_of_size len \<le> SFS_MAX_BLOCKS"
  obtain r n s' where t: "sfs_truncfile sin (int len) s = Some (r, s')" "resized sin n s s'"
    "if grow_needed (si_din (sins s sin)) (blocks_of_size len - di_blocks (si_din (sins s sin))) \<le> card (free_blocks s)
     then r = Inr () \<and> n = blocks_of_size len \<and> di_size (si_din (sins s' sin)) = len
     else r = Inl E_NO_MEM \<and> di_blocks (si_din (sins s sin)) \<le> n \<and> n < blocks_of_size len \<and>
       di_size (si_din (sins s' sin)) = di_size (si_din (sins s sin))"
    using sfs_truncfile_ok [OF assms(1-3) len assms(4)] by blast
  have f': "file_ok s' (si_din (sins s' sin))" "di_blocks (si_din (sins s' sin)) = n"
    "file_blocks s' (si_din (sins s' sin)) \<union> free_blocks s' = file_blocks s (si_din (sins s sin)) \<union> free_blocks s"
    using t(2) by (simp_all add: resized_def Let_def)
  have c: "card (free_blocks s') + n + (if di_indirect (si_din (sins s' sin)) = 0 then 0 else 1) =
      card (free_blocks s) + di_blocks (si_din (sins s sin)) + (if di_indirect (si_din (sins s sin)) = 0 then 0 else 1)"
    using card_file_blocks [OF f'(1)] card_file_blocks [OF assms(2)] f'(2,3) by simp
  have "blocks_of_size (di_size (si_din (sins s sin))) \<le> SFS_MAX_BLOCKS"
    using assms(2,3) by (simp add: file_ok_def)
  then have "sfs_truncfile sin (int (di_size (si_din (sins s sin)))) s' = None"
    if "di_blocks (si_din (sins s sin)) < n" "di_size (si_din (sins s' sin)) = di_size (si_din (sins s sin))"
    using truncfile_same_size [OF that(2) blocks_of_size_le] that f'(2) assms(3) by simp
  with t c show "\<exists>r n s'. sfs_truncfile sin (int len) s = Some (r, s') \<and> resized sin n s s' \<and>
      card (free_blocks s') + n + (if di_indirect (si_din (sins s' sin)) = 0 then 0 else 1) =
        card (free_blocks s) + di_blocks (si_din (sins s sin)) + (if di_indirect (si_din (sins s sin)) = 0 then 0 else 1) \<and>
      (if grow_needed (si_din (sins s sin)) (blocks_of_size len - di_blocks (si_din (sins s sin))) \<le> card (free_blocks s)
       then r = Inr () \<and> n = blocks_of_size len \<and> di_size (si_din (sins s' sin)) = len
       else r = Inl E_NO_MEM \<and> di_size (si_din (sins s' sin)) = di_size (si_din (sins s sin)) \<and>
         di_blocks (si_din (sins s sin)) \<le> n \<and>
         (di_blocks (si_din (sins s sin)) < n \<longrightarrow> sfs_truncfile sin (int (di_size (si_din (sins s sin)))) s' = None))"
    by (intro exI [of _ r] exI [of _ n] exI [of _ s']) (auto split: if_splits)
next
  assume l: "SFS_MAX_BLOCKS < blocks_of_size len \<and> len \<le> SFS_MAX_FILE_SIZE"
  then have "dev_keeps s"
    using assms(4) by (auto simp: SFS_MAX_BLOCKS_def)
  then show "sfs_truncfile sin (int len) s = None \<or> (\<exists>s'. sfs_truncfile sin (int len) s = Some (Inl E_NO_MEM, s'))"
    using truncfile_too_long [OF assms(1,2) _ assms(3)] l by simp
next
  assume "SFS_MAX_FILE_SIZE < len"
  then show "sfs_truncfile sin (int len) s = Some (Inl E_INVAL, s)"
    by (simp add: sfs_truncfile_def)
qed

theorem sfs_truncfile_correct_witness:
  "\<exists>s1 s2 s3. sfs_truncfile 3 5000 demo_fs = Some (Inr (), s1) \<and> di_blocks (si_din (sins s1 3)) = 2 \<and>
    sfs_truncfile 3 40000 demo_fs = Some (Inl E_NO_MEM, s2) \<and>
    sfs_truncfile 3 5000 disk0_fs = Some (Inr (), s3) \<and> di_blocks (si_din (sins s3 3)) = 2 \<and> disk s3 = disk disk0_fs"
proof -
  have d: "sins disk0_fs = sins demo_fs" "di_blocks (si_din (sins demo_fs 3)) = 0" "di_size (si_din (sins demo_fs 3)) = 0"
    "di_indirect (si_din (sins demo_fs 3)) = 0"
    by (simp_all add: disk0_fs_def demo_fs_def empty_din_def)
  have b: "blocks_of_size 0 = 0" "blocks_of_size 5000 = 2" "blocks_of_size 40000 = 10"
    by (simp_all add: blocks_of_size_def SFS_BLKSIZE_def)
  have m: "SFS_MAX_BLOCKS = 1036" "SFS_NDIRECT = 12"
    by (simp_all add: SFS_MAX_BLOCKS_def SFS_NDIRECT_def SFS_BLK_NENTRY_def SFS_BLKSIZE_def)
  note tr = sfs_truncfile_correct [OF demo_fs_ok demo_file_ok [of 3]] and t0 = sfs_truncfile_correct [OF disk0_fs_ok(1) disk0_fs_ok(2) [of 3]]
  have need: "grow_needed (si_din (sins demo_fs 3)) 2 = 2" "grow_needed (si_din (sins demo_fs 3)) 10 = 10"
    "card (free_blocks demo_fs) = 4" "card (free_blocks disk0_fs) = 4"
    by (simp_all add: grow_needed_def d SFS_NDIRECT_def demo_fs_free disk0_fs_ok(3))
  have "\<exists>s1. sfs_truncfile 3 5000 demo_fs = Some (Inr (), s1) \<and> resized 3 2 demo_fs s1"
    using tr [of 5000] d b m need by auto
  moreover have "\<exists>s2. sfs_truncfile 3 40000 demo_fs = Some (Inl E_NO_MEM, s2)"
    using tr [of 40000] d b m need by auto
  moreover have "\<exists>s3. sfs_truncfile 3 5000 disk0_fs = Some (Inr (), s3) \<and> resized 3 2 disk0_fs s3"
    using t0 [of 5000] d b m need by auto
  ultimately show ?thesis
    using disk0_fs_ok(4) by (auto simp: resized_def Let_def)
qed

end
