(* ===== verification/SfsFile.thy ===== *)
theory SfsFile
  imports SfsInode
begin

text \<open>
  What reading a file of the simple file system returns (\<open>sfs_io_nolock\<close> of
  \<^verbatim>\<open>kern/fs/sfs/sfs_inode.c\<close>), compared with the contents the block map stands for.
\<close>

section \<open>Definitions: file contents\<close>

definition contents :: "sfs_fs \<Rightarrow> sfs_disk_inode \<Rightarrow> u8 list" where
  "contents s din = concat (map (\<lambda>i. disk s (bmap_of s din i)) [0..<di_blocks din])"

definition slice :: "'a list \<Rightarrow> nat \<Rightarrow> nat \<Rightarrow> 'a list" where
  "slice xs off n = take n (drop off xs)"

text \<open>The whole blocks between the positions: the index of the first one and their number.\<close>

definition first_whole :: "nat \<Rightarrow> nat" where
  "first_whole off = (off + SFS_BLKSIZE - 1) div SFS_BLKSIZE"

definition num_whole :: "nat \<Rightarrow> nat \<Rightarrow> nat" where
  "num_whole off endpos = endpos div SFS_BLKSIZE - first_whole off"

definition head_len :: "nat \<Rightarrow> nat \<Rightarrow> nat" where
  "head_len off endpos =
     (if off mod SFS_BLKSIZE > 0
      then if endpos div SFS_BLKSIZE - off div SFS_BLKSIZE > 0 then SFS_BLKSIZE - off mod SFS_BLKSIZE else endpos - off
      else 0)"

definition tail_len :: "nat \<Rightarrow> nat \<Rightarrow> nat" where
  "tail_len off endpos =
     (if \<not> (off mod SFS_BLKSIZE > 0 \<and> endpos div SFS_BLKSIZE - off div SFS_BLKSIZE = 0) \<and> endpos mod SFS_BLKSIZE > 0
      then endpos mod SFS_BLKSIZE else 0)"

definition contiguous :: "sfs_fs \<Rightarrow> sfs_disk_inode \<Rightarrow> nat \<Rightarrow> nat \<Rightarrow> bool" where
  "contiguous s din k n \<longleftrightarrow> (\<forall>j < n. bmap_of s din (k + j) = bmap_of s din k + j)"

text \<open>A well-formed file whose length fits its blocks.\<close>

definition readable :: "sfs_fs \<Rightarrow> addr \<Rightarrow> bool" where
  "readable s sin \<longleftrightarrow> sfs_ok s \<and> file_ok s (si_din (sins s sin)) \<and>
     di_size (si_din (sins s sin)) \<le> di_blocks (si_din (sins s sin)) * SFS_BLKSIZE"

text \<open>The volume of the witness with a file in it: its length, its blocks and their contents.\<close>

definition demo_din :: "nat \<Rightarrow> nat list \<Rightarrow> sfs_disk_inode" where
  "demo_din len bs = empty_din\<lparr>di_size := len, di_blocks := length bs, di_direct := bs @ replicate (12 - length bs) 0\<rparr>"

definition demo_file :: "nat \<Rightarrow> nat list \<Rightarrow> (nat \<Rightarrow> block) \<Rightarrow> sfs_fs" where
  "demo_file len bs d = demo_fs\<lparr>disk := d,
     sins := (\<lambda>_. \<lparr>si_din = demo_din len bs, si_ino = 1, si_dirty = False, reclaim_count = 1\<rparr>)\<rparr>"

section \<open>Slices of blocks\<close>

lemma slice_add: "slice xs off (a + b) = slice xs off a @ slice xs (off + a) b"
  by (simp add: slice_def take_add drop_drop add.commute)

lemma slice_0 [simp]: "slice xs off 0 = []"
  by (simp add: slice_def)

lemma drop_concat_blocks:
  assumes "\<And>i. i < n \<Longrightarrow> length (f i) = B" "k \<le> n"
  shows "drop (k * B) (concat (map f [0..<n])) = concat (map f [k..<n])"
proof -
  have "concat (map f [0..<n]) = concat (map f [0..<k]) @ concat (map f [k..<n])"
    using upt_add_eq_append [of 0 k "n - k"] assms(2) by simp
  moreover have "length (concat (map f [0..<k])) = k * B"
  proof -
    have eq: "map (\<lambda>i. length (f i)) [0..<k] = map (\<lambda>_. B) [0..<k]"
      using assms by simp
    have "length (concat (map f [0..<k])) = sum_list (map (\<lambda>i. length (f i)) [0..<k])"
      by (simp add: length_concat o_def)
    then show ?thesis
      unfolding eq by (simp add: sum_list_triv)
  qed
  ultimately show ?thesis
    by simp
qed

lemma slice_in_block:
  assumes "\<And>i. i < n \<Longrightarrow> length (f i) = B" "k < n" "o' + len \<le> B"
  shows "slice (concat (map f [0..<n])) (k * B + o') len = take len (drop o' (f k))"
proof -
  have "drop (k * B + o') (concat (map f [0..<n])) = drop o' (concat (map f [k..<n]))"
    using drop_concat_blocks [of n f B k] assms by (metis add.commute drop_drop less_imp_le_nat)
  also have "concat (map f [k..<n]) = f k @ concat (map f [Suc k..<n])"
    using assms(2) by (simp add: upt_conv_Cons)
  finally show ?thesis
    using assms by (simp add: slice_def)
qed

lemma slice_blocks:
  assumes "\<And>i. i < n \<Longrightarrow> length (f i) = B" "k + m \<le> n"
  shows "slice (concat (map f [0..<n])) (k * B) (m * B) = concat (map (\<lambda>j. f (k + j)) [0..<m])"
  using assms(2)
proof (induction m)
  case (Suc m)
  have "slice (concat (map f [0..<n])) (k * B) (Suc m * B) =
      slice (concat (map f [0..<n])) (k * B) (m * B) @ slice (concat (map f [0..<n])) ((k + m) * B + 0) B"
    using slice_add [of _ "k * B" "m * B" B] by (simp add: algebra_simps)
  also have "slice (concat (map f [0..<n])) ((k + m) * B + 0) B = f (k + m)"
    using slice_in_block [where n = n and f = f and B = B and k = "k + m" and o' = 0 and len = B] Suc.prems assms(1)
    by simp
  finally show ?case
    using Suc by simp
qed simp

section \<open>Reading blocks\<close>

lemma rblock_ok:
  assumes "dev_works s" "0 < b" "b + n \<le> sb_blocks (super s)"
  shows "sfs_rblock b n s = Some (Inr (concat (map (\<lambda>j. disk s (b + j)) [0..<n])), s)"
proof -
  have "sfs_rwblock False b n data s = Some (Inr (concat (map (\<lambda>j. disk s (b + j)) [0..<n])), s)" for data
    using assms(2,3)
  proof (induction n arbitrary: b data)
    case (Suc n)
    have "map (\<lambda>j. disk s (b + j)) [0..<Suc n] = disk s b # map (\<lambda>j. disk s (Suc b + j)) [0..<n]"
      by (simp add: upt_conv_Cons map_Suc_upt [symmetric] del: upt_Suc)
    with Suc assms(1) show ?case
      by (simp del: upt_Suc)
  qed simp
  then show ?thesis
    by (simp add: sfs_rblock_def)
qed


section \<open>Reading a file\<close>

text \<open>The buffer is the only field that reading changes.\<close>

lemma bmap_of_buffer [simp]: "bmap_of (s\<lparr>sfs_buffer := bf\<rparr>) = bmap_of s"
  by (intro ext) (simp add: bmap_of_def)

lemma buffer_only [simp]:
  "file_ok (s\<lparr>sfs_buffer := bf\<rparr>) din = file_ok s din"
  "contents (s\<lparr>sfs_buffer := bf\<rparr>) din = contents s din" "readable (s\<lparr>sfs_buffer := bf\<rparr>) sin = readable s sin"
  by (simp_all add: file_ok_def used_block_def contents_def readable_def)

lemma block_length:
  "readable s sin \<Longrightarrow> i < di_blocks (si_din (sins s sin)) \<Longrightarrow>
     length (disk s (bmap_of s (si_din (sins s sin)) i)) = SFS_BLKSIZE"
  by (auto simp: readable_def file_ok_def used_block_def sfs_ok_def)

lemma must_simps [simp]: "must (Some (Inr v, s)) = Some (v, s)" "must (Some (Inl e, s)) = None" "must None = None"
  by (simp_all add: must_def)

lemma read_part:
  assumes r: "readable s sin" and i: "i < di_blocks (si_din (sins s sin))" and o: "off < SFS_BLKSIZE" "off + len \<le> SFS_BLKSIZE"
  shows "\<exists>bf. do { (ino, s) \<leftarrow> must (sfs_bmap_load_nolock sin i s);
                   (bs, s) \<leftarrow> must (sfs_buf_op False data len ino off s);
                   Some ((bs, len), s) } =
    Some ((slice (contents s (si_din (sins s sin))) (i * SFS_BLKSIZE + off) len, len), s\<lparr>sfs_buffer := bf\<rparr>)"
proof -
  define din where "din = si_din (sins s sin)"
  obtain bf where l: "sfs_bmap_load_nolock sin i s = Some (Inr (bmap_of s din i), s\<lparr>sfs_buffer := bf\<rparr>)"
    using bmap_load_existing r i by (metis din_def readable_def)
  have u: "0 < bmap_of s din i" "bmap_of s din i < sb_blocks (super s)" "dev_works s"
    using r i by (auto simp: readable_def file_ok_def used_block_def din_def sfs_ok_def)
  have "slice (contents s din) (i * SFS_BLKSIZE + off) len = take len (drop off (disk s (bmap_of s din i)))"
    unfolding contents_def using block_length [OF r] i o by (intro slice_in_block) (auto simp: din_def)
  with l u o show ?thesis
    by (auto simp: sfs_buf_op_def sfs_rbuf_ok din_def [symmetric])
qed

lemma read_whole:
  assumes r: "readable s sin" and n: "k + n \<le> di_blocks (si_din (sins s sin))"
    and c: "contiguous s (si_din (sins s sin)) k n"
  shows "\<exists>bf. io_body sin False data k n s =
    Some ((slice (contents s (si_din (sins s sin))) (k * SFS_BLKSIZE) (n * SFS_BLKSIZE), n * SFS_BLKSIZE), s\<lparr>sfs_buffer := bf\<rparr>)"
proof (cases "n = 0")
  case True
  then show ?thesis
    by (auto simp: io_body_def intro: exI [of _ "sfs_buffer s"])
next
  case False
  define din where "din = si_din (sins s sin)"
  have k: "k < di_blocks din"
    using n False by (simp add: din_def)
  then obtain bf where l: "sfs_bmap_load_nolock sin k s = Some (Inr (bmap_of s din k), s\<lparr>sfs_buffer := bf\<rparr>)"
    using bmap_load_existing r by (metis din_def readable_def)
  have u: "0 < bmap_of s din i \<and> bmap_of s din i < sb_blocks (super s)" if "i < di_blocks din" for i
    using r that by (auto simp: readable_def file_ok_def used_block_def din_def)
  have last: "bmap_of s din (k + (n - 1)) = bmap_of s din k + (n - 1)"
    using c [unfolded contiguous_def, rule_format, of "n - 1"] False by (simp add: din_def)
  have "bmap_of s din k + n \<le> sb_blocks (super s)"
  proof -
    have "k + (n - 1) < di_blocks din"
      using n False by (auto simp: din_def)
    from u [OF this, unfolded last] False show ?thesis
      by linarith
  qed
  moreover have "concat (map (\<lambda>j. disk s (bmap_of s din k + j)) [0..<n]) = slice (contents s din) (k * SFS_BLKSIZE) (n * SFS_BLKSIZE)"
  proof -
    have "slice (contents s din) (k * SFS_BLKSIZE) (n * SFS_BLKSIZE) = concat (map (\<lambda>j. disk s (bmap_of s din (k + j))) [0..<n])"
      unfolding contents_def using block_length [OF r] n by (intro slice_blocks) (auto simp: din_def)
    moreover have "map (\<lambda>j. disk s (bmap_of s din k + j)) [0..<n] = map (\<lambda>j. disk s (bmap_of s din (k + j))) [0..<n]"
      using c by (simp add: contiguous_def din_def)
    ultimately show ?thesis
      by (simp only:)
  qed
  ultimately have "sfs_rblock (bmap_of s din k) n (s\<lparr>sfs_buffer := bf\<rparr>) =
      Some (Inr (slice (contents s din) (k * SFS_BLKSIZE) (n * SFS_BLKSIZE)), s\<lparr>sfs_buffer := bf\<rparr>)"
    using rblock_ok [of "s\<lparr>sfs_buffer := bf\<rparr>" "bmap_of s din k" n] r u [OF k] by (simp add: readable_def sfs_ok_def)
  with l False show ?thesis
    by (auto simp: io_body_def sfs_block_op_def din_def [symmetric])
qed


text \<open>Where the three parts of a transfer begin and end.\<close>

lemma whole_blocks:
  assumes "off < endpos"
  shows "first_whole off = (if off mod SFS_BLKSIZE > 0 then off div SFS_BLKSIZE + 1 else off div SFS_BLKSIZE)"
    and "num_whole off endpos =
      (if off mod SFS_BLKSIZE > 0 then endpos div SFS_BLKSIZE - off div SFS_BLKSIZE - 1
       else endpos div SFS_BLKSIZE - off div SFS_BLKSIZE)"
proof -
  show fw: "first_whole off = (if off mod SFS_BLKSIZE > 0 then off div SFS_BLKSIZE + 1 else off div SFS_BLKSIZE)"
  proof -
    define q where "q = off div SFS_BLKSIZE"
    define r where "r = off mod SFS_BLKSIZE"
    have o: "off = SFS_BLKSIZE * q + r" "r < SFS_BLKSIZE"
      by (simp_all add: q_def r_def)
    then have "(off + SFS_BLKSIZE - 1) div SFS_BLKSIZE = (if r > 0 then q + 1 else q)"
      using SFS_pos(1) by (intro div_nat_eqI) (auto simp del: SFS_pos)
    then show ?thesis
      by (simp add: first_whole_def q_def r_def)
  qed
  then show "num_whole off endpos =
      (if off mod SFS_BLKSIZE > 0 then endpos div SFS_BLKSIZE - off div SFS_BLKSIZE - 1
       else endpos div SFS_BLKSIZE - off div SFS_BLKSIZE)"
    by (simp add: num_whole_def)
qed

text \<open>The three parts add up.\<close>

lemma parts_add_up:
  fixes B :: nat
  assumes "r1 < B" "r2 < B" "off = q1 * B + r1" "endpos = q2 * B + r2" "off < endpos" "q1 \<le> q2"
    and n1: "n1 = (if r1 > 0 then if q2 - q1 > 0 then B - r1 else endpos - off else 0)"
    and n2: "n2 = (if r1 > 0 then q2 - q1 - 1 else q2 - q1)"
    and n3: "n3 = (if \<not> (r1 > 0 \<and> q2 - q1 = 0) \<and> r2 > 0 then r2 else 0)"
  shows "n1 + n2 * B + n3 = endpos - off \<and> (n2 > 0 \<longrightarrow> off + n1 = (if r1 > 0 then q1 + 1 else q1) * B) \<and>
    (n3 > 0 \<longrightarrow> off + n1 + n2 * B = q2 * B) \<and> r1 + n1 \<le> B"
proof (cases "q1 = q2")
  case True
  with assms show ?thesis
    by auto
next
  case False
  then obtain d where d: "q2 = q1 + Suc d"
    using assms(6) by (metis add_Suc_right le_neq_implies_less less_imp_Suc_add)
  then have mult: "q2 * B = q1 * B + B + d * B"
    by (simp add: algebra_simps)
  show ?thesis
  proof (cases "r1 = 0")
    case True
    with assms d mult show ?thesis
      by (simp add: algebra_simps)
  next
    case nz: False
    with assms d have n: "n1 = B - r1" "n2 = d" "n3 = r2"
      by (auto simp: n1 n2 n3)
    with assms nz d mult show ?thesis
      by (simp add: algebra_simps)
  qed
qed

lemma transfer_parts:
  assumes "off < endpos"
  shows "head_len off endpos + num_whole off endpos * SFS_BLKSIZE + tail_len off endpos = endpos - off"
    and "0 < num_whole off endpos \<Longrightarrow> off + head_len off endpos = first_whole off * SFS_BLKSIZE"
    and "0 < tail_len off endpos \<Longrightarrow>
      off + head_len off endpos + num_whole off endpos * SFS_BLKSIZE = endpos div SFS_BLKSIZE * SFS_BLKSIZE"
    and "off mod SFS_BLKSIZE + head_len off endpos \<le> SFS_BLKSIZE"
proof -
  have le: "off div SFS_BLKSIZE \<le> endpos div SFS_BLKSIZE"
    using assms by (simp add: div_le_mono)
  note parts_add_up [OF mod_less_divisor [OF SFS_pos(1)] mod_less_divisor [OF SFS_pos(1)] div_mult_mod_eq [symmetric]
      div_mult_mod_eq [symmetric] assms le head_len_def whole_blocks(2) [OF assms] tail_len_def]
  note p = this [folded whole_blocks(1) [OF assms]]
  show "head_len off endpos + num_whole off endpos * SFS_BLKSIZE + tail_len off endpos = endpos - off"
    "0 < num_whole off endpos \<Longrightarrow> off + head_len off endpos = first_whole off * SFS_BLKSIZE"
    "0 < tail_len off endpos \<Longrightarrow>
      off + head_len off endpos + num_whole off endpos * SFS_BLKSIZE = endpos div SFS_BLKSIZE * SFS_BLKSIZE"
    "off mod SFS_BLKSIZE + head_len off endpos \<le> SFS_BLKSIZE"
    using p by blast+
qed

lemma position_bounds:
  assumes r: "readable s sin" and e: "off < endpos" "endpos \<le> di_size (si_din (sins s sin))"
  shows "off div SFS_BLKSIZE < di_blocks (si_din (sins s sin))"
    and "endpos div SFS_BLKSIZE \<le> di_blocks (si_din (sins s sin))"
    and "0 < endpos mod SFS_BLKSIZE \<Longrightarrow> endpos div SFS_BLKSIZE < di_blocks (si_din (sins s sin))"
proof -
  define N where "N = di_blocks (si_din (sins s sin))"
  have sz: "endpos \<le> N * SFS_BLKSIZE"
    using r e by (simp add: readable_def N_def)
  show "off div SFS_BLKSIZE < di_blocks (si_din (sins s sin))"
    using sz e less_mult_imp_div_less [of off N SFS_BLKSIZE] by (simp add: N_def)
  show le: "endpos div SFS_BLKSIZE \<le> di_blocks (si_din (sins s sin))"
    using div_le_mono [OF sz, of SFS_BLKSIZE] by (simp add: N_def)
  show "endpos div SFS_BLKSIZE < di_blocks (si_din (sins s sin))" if pos: "0 < endpos mod SFS_BLKSIZE"
  proof (rule ccontr)
    assume "\<not> ?thesis"
    with le have "N * SFS_BLKSIZE + endpos mod SFS_BLKSIZE = endpos"
      using div_mult_mod_eq [of endpos SFS_BLKSIZE] by (simp add: N_def)
    with sz pos show False
      by linarith
  qed
qed

text \<open>Each part returns its slice of the contents.\<close>

lemma io_head_read:
  assumes r: "readable s sin" and e: "off < endpos" "endpos \<le> di_size (si_din (sins s sin))"
  shows "\<exists>bf. io_head sin False data off endpos s =
    Some ((slice (contents s (si_din (sins s sin))) off (head_len off endpos), head_len off endpos), s\<lparr>sfs_buffer := bf\<rparr>)"
proof (cases "off mod SFS_BLKSIZE > 0")
  case True
  then have "io_head sin False data off endpos s =
      do { (ino, s) \<leftarrow> must (sfs_bmap_load_nolock sin (off div SFS_BLKSIZE) s);
           (bs, s) \<leftarrow> must (sfs_buf_op False data (head_len off endpos) ino (off mod SFS_BLKSIZE) s);
           Some ((bs, head_len off endpos), s) }"
    by (simp add: io_head_def Let_def head_len_def)
  then show ?thesis
    using read_part [OF r position_bounds(1) [OF assms] mod_less_divisor [OF SFS_pos(1)] transfer_parts(4) [OF e(1)]]
    by simp
next
  case False
  then show ?thesis
    by (auto simp: io_head_def head_len_def Let_def intro: exI [of _ "sfs_buffer s"])
qed

lemma io_whole_read:
  assumes r: "readable s sin" and e: "off < endpos" "endpos \<le> di_size (si_din (sins s sin))"
    and c: "contiguous s (si_din (sins s sin)) (first_whole off) (num_whole off endpos)"
  shows "\<exists>bf. io_body sin False data (first_whole off) (num_whole off endpos) s =
    Some ((slice (contents s (si_din (sins s sin))) (off + head_len off endpos) (num_whole off endpos * SFS_BLKSIZE),
      num_whole off endpos * SFS_BLKSIZE), s\<lparr>sfs_buffer := bf\<rparr>)"
proof (cases "num_whole off endpos = 0")
  case True
  then show ?thesis
    by (auto simp: io_body_def intro: exI [of _ "sfs_buffer s"])
next
  case False
  then have "first_whole off + num_whole off endpos \<le> di_blocks (si_din (sins s sin))"
    using position_bounds(2) [OF r e] by (simp add: num_whole_def)
  from read_whole [OF r this c, of data] transfer_parts(2) [OF e(1)] False show ?thesis
    by simp
qed

lemma io_tail_read:
  assumes r: "readable s sin" and e: "off < endpos" "endpos \<le> di_size (si_din (sins s sin))"
  shows "\<exists>bf. io_tail sin False data (off mod SFS_BLKSIZE > 0 \<and> endpos div SFS_BLKSIZE - off div SFS_BLKSIZE = 0) endpos s =
    Some ((slice (contents s (si_din (sins s sin))) (off + head_len off endpos + num_whole off endpos * SFS_BLKSIZE)
      (tail_len off endpos), tail_len off endpos), s\<lparr>sfs_buffer := bf\<rparr>)"
proof (cases "tail_len off endpos = 0")
  case True
  then show ?thesis
    by (auto simp: io_tail_def tail_len_def Let_def intro: exI [of _ "sfs_buffer s"] split: if_splits)
next
  case False
  then have t: "tail_len off endpos = endpos mod SFS_BLKSIZE" "0 < endpos mod SFS_BLKSIZE"
    "\<not> (off mod SFS_BLKSIZE > 0 \<and> endpos div SFS_BLKSIZE - off div SFS_BLKSIZE = 0)"
    by (auto simp: tail_len_def split: if_splits)
  have "0 + endpos mod SFS_BLKSIZE \<le> SFS_BLKSIZE"
    by (simp add: less_imp_le)
  from read_part [OF r position_bounds(3) [OF assms t(2)] SFS_pos(1) this, of data] transfer_parts(3) [OF e(1)] t show ?thesis
    by (simp add: io_tail_def Let_def)
qed

lemma io_blocks_read:
  assumes r: "readable s sin" and e: "off < endpos" "endpos \<le> di_size (si_din (sins s sin))"
    and c: "contiguous s (si_din (sins s sin)) (first_whole off) (num_whole off endpos)"
  shows "\<exists>bf. io_blocks sin False data off endpos s =
    Some ((slice (contents s (si_din (sins s sin))) off (endpos - off), endpos - off), s\<lparr>sfs_buffer := bf\<rparr>)"
proof -
  define C where "C = contents s (si_din (sins s sin))"
  have rb: "readable (s\<lparr>sfs_buffer := bf\<rparr>) sin" "endpos \<le> di_size (si_din (sins (s\<lparr>sfs_buffer := bf\<rparr>) sin))"
    "contents (s\<lparr>sfs_buffer := bf\<rparr>) (si_din (sins (s\<lparr>sfs_buffer := bf\<rparr>) sin)) = C"
    "contiguous (s\<lparr>sfs_buffer := bf\<rparr>) (si_din (sins (s\<lparr>sfs_buffer := bf\<rparr>) sin)) (first_whole off) (num_whole off endpos)" for bf
    using r e c by (simp_all add: C_def contiguous_def)
  obtain bf1 where h: "io_head sin False data off endpos s =
      Some ((slice C off (head_len off endpos), head_len off endpos), s\<lparr>sfs_buffer := bf1\<rparr>)"
    using io_head_read [OF r e] by (auto simp: C_def)
  obtain bf2 where b: "io_body sin False (drop (head_len off endpos) data) (first_whole off) (num_whole off endpos) (s\<lparr>sfs_buffer := bf1\<rparr>) =
      Some ((slice C (off + head_len off endpos) (num_whole off endpos * SFS_BLKSIZE), num_whole off endpos * SFS_BLKSIZE), s\<lparr>sfs_buffer := bf2\<rparr>)"
    using io_whole_read [OF rb(1) [of bf1] e(1) rb(2,4)] rb(3) [of bf1] by auto
  obtain bf3 where t: "io_tail sin False (drop (head_len off endpos + num_whole off endpos * SFS_BLKSIZE) data)
      (off mod SFS_BLKSIZE > 0 \<and> endpos div SFS_BLKSIZE - off div SFS_BLKSIZE = 0) endpos (s\<lparr>sfs_buffer := bf2\<rparr>) =
      Some ((slice C (off + head_len off endpos + num_whole off endpos * SFS_BLKSIZE) (tail_len off endpos), tail_len off endpos), s\<lparr>sfs_buffer := bf3\<rparr>)"
    using io_tail_read [OF rb(1) [of bf2] e(1) rb(2)] rb(3) [of bf2] by auto
  have tot: "endpos - off = head_len off endpos + num_whole off endpos * SFS_BLKSIZE + tail_len off endpos"
    using transfer_parts(1) [OF e(1)] by simp
  have "slice C off (endpos - off) = slice C off (head_len off endpos) @
      slice C (off + head_len off endpos) (num_whole off endpos * SFS_BLKSIZE) @
      slice C (off + head_len off endpos + num_whole off endpos * SFS_BLKSIZE) (tail_len off endpos)"
    unfolding tot by (simp only: slice_add append.assoc add.assoc)
  moreover have "io_blocks sin False data off endpos s =
    do { ((b1, n1), s) \<leftarrow> io_head sin False data off endpos s;
         ((b2, n2), s) \<leftarrow> io_body sin False (drop n1 data) (first_whole off) (num_whole off endpos) s;
         ((b3, n3), s) \<leftarrow> io_tail sin False (drop (n1 + n2) data)
           (off mod SFS_BLKSIZE > 0 \<and> endpos div SFS_BLKSIZE - off div SFS_BLKSIZE = 0) endpos s;
         Some ((b1 @ b2 @ b3, n1 + n2 + n3), s) }"
    unfolding io_blocks_def Let_def whole_blocks [OF e(1)] by (rule refl)
  ultimately have "io_blocks sin False data off endpos s = Some ((slice C off (endpos - off), endpos - off), s\<lparr>sfs_buffer := bf3\<rparr>)"
    using h b t tot by simp
  then show ?thesis
    unfolding C_def by blast
qed


lemma readable_small: "readable s sin \<Longrightarrow> di_size (si_din (sins s sin)) < SFS_MAX_FILE_SIZE"
proof -
  assume r: "readable s sin"
  then have "di_size (si_din (sins s sin)) \<le> di_blocks (si_din (sins s sin)) * SFS_BLKSIZE"
    by (simp add: readable_def)
  also have "\<dots> \<le> SFS_MAX_BLOCKS * SFS_BLKSIZE"
    using r by (simp add: readable_def file_ok_def)
  also have "\<dots> < SFS_MAX_FILE_SIZE"
    by (simp add: SFS_MAX_BLOCKS_def SFS_NDIRECT_def SFS_BLK_NENTRY_def SFS_BLKSIZE_def SFS_MAX_FILE_SIZE_def)
  finally show ?thesis .
qed

lemma sfs_io_nolock_read:
  assumes r: "readable s sin" and ty: "di_type (si_din (sins s sin)) \<noteq> SFS_TYPE_DIR"
    and o: "off < SFS_MAX_FILE_SIZE" "off + n < 2 ^ 31"
    and k: "k = min n (di_size (si_din (sins s sin)) - off)"
    and c: "contiguous s (si_din (sins s sin)) (first_whole off) (num_whole off (off + k))"
  shows "\<exists>bf. sfs_io_nolock sin False data (int off) n s =
    Some (Inr (slice (contents s (si_din (sins s sin))) off k, k), s\<lparr>sfs_buffer := bf\<rparr>)"
proof -
  define z where "z = di_size (si_din (sins s sin))"
  have "off_t (int off + int n) = int (off + n)"
    using off_t_id [of "int (off + n)"] o by simp
  then have io: "sfs_io_nolock sin False data (int off) n s =
      (if n = 0 \<or> z \<le> off then Some (Inr ([], 0), s)
       else do { ((bs, m), s) \<leftarrow> io_blocks sin False data off (min (min (off + n) SFS_MAX_FILE_SIZE) z) s;
                 Some (Inr (bs, m), if off + m > di_size (si_din (sins s sin))
                   then upd_sin sin (\<lambda>x. x\<lparr>si_dirty := True\<rparr>) (upd_din sin (\<lambda>din. din\<lparr>di_size := off + m\<rparr>) s) else s) })"
    using ty o unfolding sfs_io_nolock_def Let_def nat_int by (auto simp: z_def nat_int_add)
  show ?thesis
  proof (cases "n = 0 \<or> z \<le> off")
    case True
    then show ?thesis
      using io k by (auto simp: z_def intro: exI [of _ "sfs_buffer s"])
  next
    case False
    have "min (min (off + n) SFS_MAX_FILE_SIZE) z = off + k" "0 < k" "off + k \<le> z"
      using False k readable_small [OF r] by (auto simp: z_def)
    moreover obtain bf where "io_blocks sin False data off (off + k) s =
        Some ((slice (contents s (si_din (sins s sin))) off k, k), s\<lparr>sfs_buffer := bf\<rparr>)"
      using io_blocks_read [OF r, of off "off + k" data] calculation c by (auto simp: z_def)
    ultimately show ?thesis
      using io False by (auto simp: z_def)
  qed
qed

section \<open>The witness files\<close>

lemma demo_file_readable:
  assumes "length bs \<le> 12" "set bs \<subseteq> {1, 2, 3}" "distinct bs" "len \<le> length bs * SFS_BLKSIZE" "\<And>b. length (d b) = SFS_BLKSIZE"
  shows "readable (demo_file len bs d) sin"
proof -
  define din where "din = demo_din len bs"
  define s where "s = demo_file len bs d"
  have fr: "free_blocks s = {4, 5, 6, 7}"
    using demo_fs_free by (simp add: s_def demo_file_def)
  have "sfs_ok s"
    using demo_fs_ok assms(5) unfolding sfs_ok_def fr by (simp add: s_def demo_file_def demo_fs_free)
  moreover have m: "bmap_of s din i = (if i < length bs then bs ! i else 0)" if "i < SFS_MAX_BLOCKS" for i
    using assms(1) by (auto simp: din_def demo_din_def empty_din_def bmap_of_def SFS_NDIRECT_def nth_append)
  have len: "length bs < SFS_MAX_BLOCKS"
    using assms(1) by (simp add: SFS_MAX_BLOCKS_def SFS_NDIRECT_def SFS_BLK_NENTRY_def SFS_BLKSIZE_def)
  have bl: "used_block s (bs ! i) \<and> bs ! i \<noteq> 0" if "i < length bs" for i
    using nth_mem [OF that] assms(2) unfolding used_block_def fr by (auto simp: s_def demo_file_def demo_fs_def)
  have "file_ok s din"
    unfolding file_ok_def using m len bl assms(1,3)
    by (auto simp: din_def demo_din_def empty_din_def SFS_NDIRECT_def inj_on_def nth_eq_iff_index_eq)
  ultimately show ?thesis
    using assms(4) by (simp add: readable_def s_def din_def demo_file_def demo_din_def)
qed


section \<open>Main results\<close>

lemma sfs_read_ok:
  assumes "readable s node" "di_type (si_din (sins s node)) \<noteq> SFS_TYPE_DIR" "in_type (inodes s node) = Inode_type_sfs_inode_info"
    and a: "io_offset iob = int off" "off < SFS_MAX_FILE_SIZE" "off + io_resid iob < 2 ^ 31"
    "k = min (io_resid iob) (di_size (si_din (sins s node)) - off)"
    "contiguous s (si_din (sins s node)) (first_whole off) (num_whole off (off + k))"
  obtains bf where "sfs_read node iob m s =
    Some (Inr (), iob\<lparr>io_base := io_base iob + k, io_offset := int off + int k, io_resid := io_resid iob - k\<rparr>,
      store_bytes m (io_base iob) (slice (contents s (si_din (sins s node))) off k), s\<lparr>sfs_buffer := bf\<rparr>)"
proof -
  obtain bf where "sfs_io_nolock node False [] (int off) (io_resid iob) s =
      Some (Inr (slice (contents s (si_din (sins s node))) off k, k), s\<lparr>sfs_buffer := bf\<rparr>)"
    using sfs_io_nolock_read [OF assms(1,2) a(2,3,4,5)] by blast
  moreover have "(if k \<noteq> 0 then iobuf_skip k iob else Some iob) =
      Some (iob\<lparr>io_base := io_base iob + k, io_offset := int off + int k, io_resid := io_resid iob - k\<rparr>)"
    using a by (auto simp: iobuf_skip_def)
  ultimately show ?thesis
    using that a assms(3) by (auto simp: sfs_read_def sfs_io_def Let_def simp del: neq0_conv)
qed

text \<open>
  C21. Reading a file. A negative or too large position, or one whose end wraps around, is
  refused with \<open>E_INVAL\<close> and nothing changes. Otherwise, on a device that reads right, like
  \<open>disk0\<close>, and for a well-formed file whose whole blocks in the range lie next to one another on disk, the caller's buffer
  receives exactly the bytes of the file from the position on, up to the end of the file, the
  request advances by their number, and nothing else is written.
\<close>

theorem sfs_read_correct:
  assumes "readable s node" "di_type (si_din (sins s node)) \<noteq> SFS_TYPE_DIR" "in_type (inodes s node) = Inode_type_sfs_inode_info"
  shows "(io_offset iob < 0 \<or> int SFS_MAX_FILE_SIZE \<le> io_offset iob \<or> off_t (io_offset iob + int (io_resid iob)) < io_offset iob \<longrightarrow>
      sfs_read node iob m s = Some (Inl E_INVAL, iob, m, s)) \<and>
    (io_offset iob = int off \<and> off < SFS_MAX_FILE_SIZE \<and> off + io_resid iob < 2 ^ 31 \<and>
     k = min (io_resid iob) (di_size (si_din (sins s node)) - off) \<and>
     contiguous s (si_din (sins s node)) (first_whole off) (num_whole off (off + k)) \<longrightarrow>
      (\<exists>bf. sfs_read node iob m s =
         Some (Inr (), iob\<lparr>io_base := io_base iob + k, io_offset := int off + int k, io_resid := io_resid iob - k\<rparr>,
           store_bytes m (io_base iob) (slice (contents s (si_din (sins s node))) off k), s\<lparr>sfs_buffer := bf\<rparr>)))"
proof (intro conjI impI)
  assume "io_offset iob < 0 \<or> int SFS_MAX_FILE_SIZE \<le> io_offset iob \<or> off_t (io_offset iob + int (io_resid iob)) < io_offset iob"
  then show "sfs_read node iob m s = Some (Inl E_INVAL, iob, m, s)"
    using assms(2,3) by (auto simp: sfs_read_def sfs_io_def sfs_io_nolock_def Let_def)
next
  assume a: "io_offset iob = int off \<and> off < SFS_MAX_FILE_SIZE \<and> off + io_resid iob < 2 ^ 31 \<and>
     k = min (io_resid iob) (di_size (si_din (sins s node)) - off) \<and>
     contiguous s (si_din (sins s node)) (first_whole off) (num_whole off (off + k))"
  then show "\<exists>bf. sfs_read node iob m s =
         Some (Inr (), iob\<lparr>io_base := io_base iob + k, io_offset := int off + int k, io_resid := io_resid iob - k\<rparr>,
           store_bytes m (io_base iob) (slice (contents s (si_din (sins s node))) off k), s\<lparr>sfs_buffer := bf\<rparr>)"
    using sfs_read_ok [OF assms, of iob off k m] by blast
qed

theorem sfs_read_correct_witness:
  "\<exists>iob' m' s'. sfs_read 5 (iobuf_init 50 9 2) (\<lambda>_. 7) (demo_file 5 [3] (\<lambda>_. [1, 2, 3, 4, 5] @ replicate 4091 0)) =
     Some (Inr (), iob', m', s') \<and> io_resid iob' = 6 \<and> bytes m' 50 4 = [3, 4, 5, 7]"
proof -
  define s where "s = demo_file 5 [3] (\<lambda>_. [1, 2, 3, 4, 5] @ replicate 4091 0)"
  have r: "readable s 5"
    unfolding s_def by (rule demo_file_readable) (auto simp: SFS_BLKSIZE_def)
  have d: "si_din (sins s 5) = demo_din 5 [3]" "in_type (inodes s 5) = Inode_type_sfs_inode_info"
    by (simp_all add: s_def demo_file_def demo_fs_def)
  have ty: "di_type (si_din (sins s 5)) \<noteq> SFS_TYPE_DIR"
    by (simp add: d demo_din_def empty_din_def SFS_TYPE_FILE_def SFS_TYPE_DIR_def)
  have nw: "num_whole 2 5 = 0"
    by (simp add: num_whole_def SFS_BLKSIZE_def)
  have "contents s (si_din (sins s 5)) = [1, 2, 3, 4, 5] @ replicate 4091 0"
    by (simp add: d contents_def demo_din_def s_def demo_file_def)
  then have sl: "slice (contents s (si_din (sins s 5))) 2 3 = [3, 4, 5]"
    by (simp add: slice_def)
  have "contiguous s (si_din (sins s 5)) (first_whole 2) (num_whole 2 (2 + 3))"
    by (simp add: nw contiguous_def)
  then obtain bf where "sfs_read 5 (iobuf_init 50 9 2) (\<lambda>_. 7) s =
      Some (Inr (), (iobuf_init 50 9 2)\<lparr>io_base := 53, io_offset := 5, io_resid := 6\<rparr>, store_bytes (\<lambda>_. 7) 50 [3, 4, 5], s\<lparr>sfs_buffer := bf\<rparr>)"
    using sfs_read_correct [OF r ty d(2), of "iobuf_init 50 9 2" "\<lambda>_. 7" 2 3] sl
    by (auto simp: iobuf_init_def SFS_MAX_FILE_SIZE_def d demo_din_def)
  moreover have "bytes (store_bytes (\<lambda>_. 7) 50 [3, 4, 5]) 50 4 = [3, 4, 5, 7]"
    by (simp add: bytes_def store_bytes_def upt_rec)
  ultimately show ?thesis
    unfolding s_def [symmetric] by auto
qed

text \<open>
  Without that assumption the code reads the wrong blocks: it looks up the first whole block only
  and takes the following ones from disk. Here a file has the blocks 3 and 2, and the second half
  of what is read comes from block 4.
\<close>

lemma sfs_io_wrong_blocks:
  "\<exists>s bs s'. readable s 5 \<and> sfs_io_nolock 5 False [] 0 8192 s = Some (Inr (bs, 8192), s') \<and>
     bs \<noteq> slice (contents s (si_din (sins s 5))) 0 8192"
proof -
  define d :: "nat \<Rightarrow> block" where "d = (\<lambda>_. zero_block)(2 := replicate 4096 1)"
  define s where "s = demo_file 8192 [3, 2] d"
  have ld: "length (d b) = SFS_BLKSIZE" for b
    by (simp add: d_def SFS_BLKSIZE_def zero_block_def)
  have r: "readable s 5"
    unfolding s_def using ld by (intro demo_file_readable) (auto simp: SFS_BLKSIZE_def)
  have din: "si_din (sins s 5) = demo_din 8192 [3, 2]"
    by (simp add: s_def demo_file_def)
  have b: "bmap_of s (si_din (sins s 5)) 0 = 3" "bmap_of s (si_din (sins s 5)) 1 = 2" "di_blocks (si_din (sins s 5)) = 2"
    by (simp_all add: din bmap_of_def demo_din_def SFS_NDIRECT_def)
  obtain bf where l: "sfs_bmap_load_nolock 5 0 s = Some (Inr 3, s\<lparr>sfs_buffer := bf\<rparr>)"
    using bmap_load_existing [of s 5 0] r b by (auto simp: readable_def)
  have dd: "disk s 3 = zero_block" "disk s 4 = zero_block" "disk s 2 = replicate 4096 1" "sb_blocks (super s) = 8" "dev_works s"
    using r by (simp_all add: s_def demo_file_def d_def demo_fs_def readable_def sfs_ok_def)
  have rb: "sfs_rblock 3 2 (s\<lparr>sfs_buffer := bf\<rparr>) = Some (Inr (zero_block @ zero_block), s\<lparr>sfs_buffer := bf\<rparr>)"
    using rblock_ok [of "s\<lparr>sfs_buffer := bf\<rparr>" 3 2] dd by (simp add: upt_rec)
  have "sfs_io_nolock 5 False [] 0 8192 s = Some (Inr (zero_block @ zero_block, 8192), s\<lparr>sfs_buffer := bf\<rparr>)"
    using l rb off_t_id [of 8192]
    by (simp add: sfs_io_nolock_def io_blocks_def io_head_def io_body_def io_tail_def sfs_block_op_def Let_def din demo_din_def
        empty_din_def SFS_TYPE_FILE_def SFS_TYPE_DIR_def SFS_MAX_FILE_SIZE_def SFS_BLKSIZE_def)
  moreover have "contents s (si_din (sins s 5)) = zero_block @ replicate 4096 1"
    unfolding contents_def b using b dd by (simp add: upt_rec)
  moreover have "zero_block @ zero_block \<noteq> slice (zero_block @ replicate 4096 1) 0 8192"
    by (simp add: slice_def zero_block_def SFS_BLKSIZE_def replicate_eq_replicate)
  ultimately show ?thesis
    using r by metis
qed

end
