(* ===== verification/SfsFs.thy ===== *)
theory SfsFs
  imports SfsFile
begin

text \<open>
  Mounting, syncing and unmounting the simple file system (\<^verbatim>\<open>kern/fs/sfs/sfs_fs.c\<close>). A device is
  its size, its block size, its transfer function and what is on it; mounting builds the state of
  the file system from the superblock and the free map on the device. The flags of \<open>sfs_do_mount\<close>
  are the answers of its calls of \<open>kmalloc\<close>.
\<close>

section \<open>Definitions\<close>

definition SFS_MAGIC :: u32 where "SFS_MAGIC = 0x2f8dbe2a"

definition SFS_MAX_INFO_LEN :: nat where "SFS_MAX_INFO_LEN = 31"

definition SFS_BLKN_ROOT :: nat where "SFS_BLKN_ROOT = 1"

definition sfs_freemap_bits :: "sfs_super \<Rightarrow> nat" where
  "sfs_freemap_bits sb = (sb_blocks sb + SFS_BLKBITS - 1) - (sb_blocks sb + SFS_BLKBITS - 1) mod SFS_BLKBITS"

fun sync_loop :: "addr list \<Rightarrow> sfs_fs \<Rightarrow> sfs_fs option" where
  "sync_loop [] s = Some s"
| "sync_loop (sin # rest) s = do { (_, s) \<leftarrow> vop_fsync sin s; sync_loop rest s }"

definition sfs_sync :: "sfs_fs \<Rightarrow> ((kerror + unit) \<times> sfs_fs) option" where
  "sfs_sync s =
     do { s \<leftarrow> sync_loop (inode_list s) s;
          if super_dirty s then
            (case sfs_sync_super (s\<lparr>super_dirty := False\<rparr>) of
               None \<Rightarrow> None
             | Some (Inl e, s) \<Rightarrow> Some (Inl e, s\<lparr>super_dirty := True\<rparr>)
             | Some (Inr _, s) \<Rightarrow>
                 (case sfs_sync_freemap s of
                    None \<Rightarrow> None
                  | Some (Inl e, s) \<Rightarrow> Some (Inl e, s\<lparr>super_dirty := True\<rparr>)
                  | Some (Inr _, s) \<Rightarrow> Some (Inr (), s)))
          else Some (Inr (), s) }"

definition sfs_get_root :: "sfs_fs \<Rightarrow> (addr \<times> sfs_fs) option" where
  "sfs_get_root s = must (sfs_load_inode SFS_BLKN_ROOT s)"

definition sfs_unmount :: "sfs_fs \<Rightarrow> (kerror + unit) option" where
  "sfs_unmount s =
     (if inode_list s \<noteq> [] then Some (Inl E_BUSY)
      else do { kassert (\<not> super_dirty s); Some (Inr ()) })"

text \<open>The loop of \<open>sfs_cleanup\<close>: at most \<open>k\<close> more attempts.\<close>

fun cleanup_loop :: "nat \<Rightarrow> sfs_fs \<Rightarrow> sfs_fs option" where
  "cleanup_loop 0 s = Some s"
| "cleanup_loop (Suc k) s =
     (case sfs_sync s of
        None \<Rightarrow> None
      | Some (Inr _, s) \<Rightarrow> Some s
      | Some (Inl _, s) \<Rightarrow> cleanup_loop k s)"

definition sfs_cleanup :: "sfs_fs \<Rightarrow> sfs_fs option" where
  "sfs_cleanup s = cleanup_loop 32 s"

record blk_device =
  d_blocks :: nat
  d_blocksize :: nat
  dev_io :: blkdev
  dev_disk :: "nat \<Rightarrow> block"

definition sfs_init_read :: "nat \<Rightarrow> blk_device \<Rightarrow> (kerror + block) \<times> blk_device" where
  "sfs_init_read blkno dev =
     (let (r, d) = dev_io dev False blkno [] (dev_disk dev) in (r, dev\<lparr>dev_disk := d\<rparr>))"

fun init_freemap_loop :: "nat \<Rightarrow> nat \<Rightarrow> blk_device \<Rightarrow> (kerror + u8 list) \<times> blk_device" where
  "init_freemap_loop blkno 0 dev = (Inr [], dev)"
| "init_freemap_loop blkno (Suc nblks) dev =
     (case sfs_init_read blkno dev of
        (Inl e, dev) \<Rightarrow> (Inl e, dev)
      | (Inr b, dev) \<Rightarrow>
          (case init_freemap_loop (Suc blkno) nblks dev of
             (Inl e, dev) \<Rightarrow> (Inl e, dev)
           | (Inr bs, dev) \<Rightarrow> (Inr (b @ bs), dev)))"

definition words_of :: "nat \<Rightarrow> u8 list \<Rightarrow> u32 list" where
  "words_of n bs = map (\<lambda>i. un_le32 (drop (i * 4) bs)) [0..<n]"

definition sfs_init_freemap :: "bitmap \<Rightarrow> nat \<Rightarrow> nat \<Rightarrow> blk_device \<Rightarrow> ((kerror + bitmap) \<times> blk_device) option" where
  "sfs_init_freemap fm blkno nblks dev =
     do { let (_, len) = bitmap_getdata fm;
          kassert (len = nblks * SFS_BLKSIZE);
          Some (case init_freemap_loop blkno nblks dev of
                  (Inl e, dev) \<Rightarrow> (Inl e, dev)
                | (Inr bs, dev) \<Rightarrow> (Inr (fm\<lparr>bits := words_of (nwords fm) bs\<rparr>), dev)) }"

definition decode_super :: "u8 list \<Rightarrow> sfs_super" where
  "decode_super bs = \<lparr>sb_magic = un_le32 bs, sb_blocks = un_le32n (drop 4 bs), sb_unused = un_le32n (drop 8 bs),
     sb_info = take (SFS_MAX_INFO_LEN + 1) (drop 12 bs)\<rparr>"

fun count_free :: "bitmap \<Rightarrow> nat list \<Rightarrow> nat option" where
  "count_free fm [] = Some 0"
| "count_free fm (i # is) =
     do { b \<leftarrow> bitmap_test fm i; n \<leftarrow> count_free fm is; Some (if b then n + 1 else n) }"

definition sfs_do_mount ::
  "bool \<Rightarrow> bool \<Rightarrow> bool \<Rightarrow> bool \<Rightarrow> bool \<Rightarrow> (addr \<Rightarrow> sfs_inode) \<Rightarrow> (addr \<Rightarrow> inode) \<Rightarrow> addr option list \<Rightarrow> blk_device \<Rightarrow>
     ((kerror + sfs_fs) \<times> blk_device) option" where
  "sfs_do_mount have_fs have_buffer have_hash have_bitmap have_map ss ns mem dev =
     (if d_blocksize dev \<noteq> SFS_BLKSIZE then Some (Inl E_NA_DEV, dev)
      else if \<not> have_fs \<or> \<not> have_buffer then Some (Inl E_NO_MEM, dev)
      else and_then (Some (sfs_init_read SFS_BLKN_SUPER dev)) (\<lambda>buf dev.
        let sb = decode_super buf; sb = sb\<lparr>sb_info := (sb_info sb)[SFS_MAX_INFO_LEN := 0]\<rparr>
        in if sb_magic sb \<noteq> SFS_MAGIC then Some (Inl E_INVAL, dev)
           else if sb_blocks sb > d_blocks dev then Some (Inl E_INVAL, dev)
           else if \<not> have_hash then Some (Inl E_NO_MEM, dev)
           else
             (case bitmap_create have_bitmap have_map (sfs_freemap_bits sb) of
                None \<Rightarrow> None
              | Some None \<Rightarrow> Some (Inl E_NO_MEM, dev)
              | Some (Some fm) \<Rightarrow>
                  and_then (sfs_init_freemap fm SFS_BLKN_FREEMAP (sfs_freemap_blocks sb) dev) (\<lambda>fm dev.
                    do { unused_blocks \<leftarrow> count_free fm [0..<sfs_freemap_bits sb];
                         kassert (unused_blocks = sb_unused sb);
                         Some (Inr \<lparr>super = sb, d_io = dev_io dev, disk = dev_disk dev, freemap = fm, super_dirty = False,
                           sfs_buffer = buf[12 + SFS_MAX_INFO_LEN := 0], sins = ss, inode_list = [], hash_list = (\<lambda>_. []), inodes = ns, kmem = mem\<rparr>, dev) }))))"


section \<open>Definitions: what is shown\<close>

text \<open>
  An inode in memory is \<open>synced\<close> when the disk holds it; \<open>volume_ok\<close> says that the superblock and
  the free map have the shape that the disk format gives them.
\<close>

definition wf_din :: "sfs_disk_inode \<Rightarrow> bool" where
  "wf_din din \<longleftrightarrow> length (di_direct din) = SFS_NDIRECT \<and> di_size din < 2 ^ 32 \<and> di_blocks din < 2 ^ 32 \<and>
     (\<forall>b \<in> set (di_direct din). b < 2 ^ 32) \<and> di_indirect din < 2 ^ 32"

definition synced :: "sfs_fs \<Rightarrow> addr \<Rightarrow> bool" where
  "synced s sin \<longleftrightarrow> decode_inode (take SIZEOF_DINODE (disk s (si_ino (sins s sin)))) = si_din (sins s sin)"

definition meta_blocks :: "sfs_fs \<Rightarrow> nat set" where
  "meta_blocks s = insert SFS_BLKN_SUPER {SFS_BLKN_FREEMAP..<SFS_BLKN_FREEMAP + sfs_freemap_blocks (super s)}"

definition volume_ok :: "sfs_fs \<Rightarrow> bool" where
  "volume_ok s \<longleftrightarrow> sfs_ok s \<and> sb_magic (super s) = SFS_MAGIC \<and> length (sb_info (super s)) = SFS_MAX_INFO_LEN + 1 \<and>
     sb_info (super s) ! SFS_MAX_INFO_LEN = 0 \<and> 0 < sb_blocks (super s) \<and> nbits (freemap s) = sfs_freemap_bits (super s) \<and>
     nwords (freemap s) = sfs_freemap_blocks (super s) * SFS_BLK_NENTRY \<and> nbits (freemap s) + WORD_BITS < 2 ^ 32 \<and>
     meta_blocks s \<subseteq> {..<sb_blocks (super s)}"

text \<open>What the two metadata areas hold on disk.\<close>

definition super_block :: "sfs_super \<Rightarrow> block" where
  "super_block sb = encode_super sb @ replicate (SFS_BLKSIZE - length (encode_super sb)) 0"

definition freemap_data :: "bitmap \<Rightarrow> u8 list" where
  "freemap_data fm = concat (map le32 (bits fm))"

definition with_meta :: "sfs_fs \<Rightarrow> (nat \<Rightarrow> block) \<Rightarrow> nat \<Rightarrow> block" where
  "with_meta s d c =
     (if c = SFS_BLKN_SUPER then super_block (super s)
      else if c \<in> meta_blocks s then take SFS_BLKSIZE (drop ((c - SFS_BLKN_FREEMAP) * SFS_BLKSIZE) (freemap_data (freemap s)))
      else d c)"

definition cache_ok :: "addr list \<Rightarrow> sfs_fs \<Rightarrow> bool" where
  "cache_ok l s \<longleftrightarrow> (\<forall>sin \<in> set l. wf_din (si_din (sins s sin)) \<and> used_block s (si_ino (sins s sin)) \<and>
       vop_op Vop_fsync sin s = Some () \<and> (dev_keeps s \<and> \<not> si_dirty (sins s sin) \<longrightarrow> synced s sin)) \<and>
     inj_on (\<lambda>sin. si_ino (sins s sin)) (set l)"

text \<open>The inodes in \<open>A\<close> have been written back.\<close>

definition written_only :: "nat set \<Rightarrow> sfs_fs \<Rightarrow> sfs_fs \<Rightarrow> bool" where
  "written_only B s s' \<longleftrightarrow> (\<forall>c. c \<notin> B \<longrightarrow> disk s' c = disk s c)"

definition same_but_disk :: "addr set \<Rightarrow> sfs_fs \<Rightarrow> sfs_fs \<Rightarrow> bool" where
  "same_but_disk A s s' \<longleftrightarrow> sfs_ok s' \<and> super s' = super s \<and> freemap s' = freemap s \<and> super_dirty s' = super_dirty s \<and>
     d_io s' = d_io s \<and> inodes s' = inodes s \<and> inode_list s' = inode_list s \<and>
     (\<forall>x. si_din (sins s' x) = si_din (sins s x) \<and> si_ino (sins s' x) = si_ino (sins s x) \<and>
        si_dirty (sins s' x) = (si_dirty (sins s x) \<and> x \<notin> A)) \<and>
     written_only {si_ino (sins s x) |x. x \<in> A \<and> si_dirty (sins s x)} s s' \<and> (dev_keeps s \<or> disk s' = disk s)"

text \<open>The flash as an array of blocks.\<close>

definition disk0_blocks :: "mem \<Rightarrow> nat \<Rightarrow> block" where
  "disk0_blocks m b = image m (b * SFS_BLKSIZE) SFS_BLKSIZE"

text \<open>
  The witnesses: volumes of eight blocks with the free map in one block and a dirty inode in memory; one on a
  device that keeps what is written, and one on \<open>disk0\<close>, where a block has been allocated since it was mounted.
\<close>

definition demo_volume :: "blkdev \<Rightarrow> u32 \<Rightarrow> nat \<Rightarrow> (nat \<Rightarrow> block) \<Rightarrow> sfs_fs" where
  "demo_volume io w u d = demo_fs\<lparr>
     super := \<lparr>sb_magic = SFS_MAGIC, sb_blocks = 8, sb_unused = u, sb_info = replicate 32 0\<rparr>, d_io := io, disk := d,
     freemap := \<lparr>nbits = 32768, nwords = 1024, bits = w # replicate 1023 0\<rparr>, super_dirty := True, inode_list := [9],
     sins := (\<lambda>_. \<lparr>si_din = empty_din, si_ino = 3, si_dirty = True, reclaim_count = 1\<rparr>)\<rparr>"

definition demo_vol :: sfs_fs where
  "demo_vol = demo_volume ram_disk 0xF0 4 (\<lambda>_. zero_block)"

definition disk0_old :: sfs_fs where
  "disk0_old = demo_volume (disk0_dev 1024) 0xF0 4 (\<lambda>_. zero_block)"

definition disk0_vol :: sfs_fs where
  "disk0_vol = demo_volume (disk0_dev 1024) 0xE0 3 (with_meta disk0_old (\<lambda>_. zero_block))"

section \<open>The disk format\<close>

lemma drop_concat_map:
  assumes "\<And>x. length (g x) = B" "i < length xs"
  shows "\<exists>t. drop (i * B) (concat (map g xs) @ r) = g (xs ! i) @ t"
  using assms(2)
proof (induction xs arbitrary: i)
  case (Cons x xs)
  then show ?case
    using assms(1) by (cases i) (auto simp: add.commute [of B])
qed simp

lemma un_le32n_entry:
  assumes "i < length ns" "ns ! i < 2 ^ 32"
  shows "un_le32n (drop (i * 4) (concat (map le32n ns) @ r)) = ns ! i"
  using drop_concat_map [of le32n 4 i ns r] assms by auto

lemma words_of_concat:
  assumes "length ws = n"
  shows "words_of n (concat (map le32 ws) @ r) = ws"
proof (rule nth_equalityI)
  fix i assume i: "i < length (words_of n (concat (map le32 ws) @ r))"
  then have "i < length ws"
    using assms by (simp add: words_of_def)
  with drop_concat_map [of le32 4 i ws r] i show "words_of n (concat (map le32 ws) @ r) ! i = ws ! i"
    by (auto simp: words_of_def)
qed (simp add: words_of_def assms)

lemma length_concat_words [simp]: "length (concat (map le32n ns)) = 4 * length ns" "length (concat (map le32 ws)) = 4 * length ws"
  by (induction ns; simp) (induction ws; simp)

lemma length_encode_inode [simp]: "wf_din din \<Longrightarrow> length (encode_inode din) = SIZEOF_DINODE"
  by (simp add: encode_inode_def wf_din_def SFS_NDIRECT_def SIZEOF_DINODE_def)

lemma decode_encode_inode:
  assumes "wf_din din"
  shows "decode_inode (encode_inode din) = din"
proof -
  note wf = assms [unfolded wf_din_def SFS_NDIRECT_def]
  define ds where "ds = concat (map le32n (di_direct din)) @ le32n (di_indirect din)"
  have "un_le32n (drop (12 + 4 * i) (encode_inode din)) = di_direct din ! i" if "i < 12" for i
  proof -
    have "drop (12 + 4 * i) (encode_inode din) = drop (i * 4) ds"
      by (simp add: encode_inode_def ds_def mult.commute)
    then show ?thesis
      using un_le32n_entry [of i "di_direct din" "le32n (di_indirect din)"] wf that by (simp add: ds_def)
  qed
  then have "map (\<lambda>i. un_le32n (drop (12 + 4 * i) (encode_inode din))) [0..<12] = di_direct din"
    using wf by (intro nth_equalityI) simp_all
  moreover have "un_le32n (drop 60 (encode_inode din)) = di_indirect din"
    using wf un_le_append(1) [of "di_indirect din" "[]"] by (simp add: encode_inode_def)
  ultimately show ?thesis
    unfolding decode_inode_def using wf by (simp add: encode_inode_def)
qed


lemma decode_encode_super:
  assumes "length (sb_info sb) = SFS_MAX_INFO_LEN + 1" "sb_info sb ! SFS_MAX_INFO_LEN = 0" "sb_blocks sb < 2 ^ 32" "sb_unused sb < 2 ^ 32"
  shows "(let d = decode_super (encode_super sb @ r) in d\<lparr>sb_info := (sb_info d)[SFS_MAX_INFO_LEN := 0]\<rparr>) = sb"
proof -
  have i: "(sb_info sb)[SFS_MAX_INFO_LEN := 0] = sb_info sb"
    using assms(2) by (metis list_update_id)
  have "decode_super (encode_super sb @ r) = sb"
    using assms by (simp add: decode_super_def encode_super_def)
  with i show ?thesis
    by (simp add: Let_def)
qed

section \<open>Syncing inodes\<close>

lemma sfs_fsync_ok:
  assumes ok: "sfs_ok s" and wf: "wf_din (si_din (sins s sin))" and u: "used_block s (si_ino (sins s sin))"
  shows "\<exists>bf. sfs_fsync sin s = Some (Inr (), s\<lparr>sins := (sins s)(sin := (sins s sin)\<lparr>si_dirty := False\<rparr>), sfs_buffer := bf,
      disk := if si_dirty (sins s sin) then after_write s (disk s) (si_ino (sins s sin)) (patch (disk s (si_ino (sins s sin))) 0 (encode_inode (si_din (sins s sin)))) else disk s\<rparr>)"
proof (cases "si_dirty (sins s sin)")
  case False
  then have "(sins s)(sin := (sins s sin)\<lparr>si_dirty := False\<rparr>) = sins s"
    by (auto simp: fun_eq_iff)
  with False show ?thesis
    by (intro exI [of _ "sfs_buffer s"]) (simp add: sfs_fsync_def)
next
  case True
  have "dev_works s"
    using ok by (simp add: sfs_ok_def)
  then have "sfs_wbuf (encode_inode (si_din (sins s sin))) (si_ino (sins s sin)) 0 (upd_sin sin (\<lambda>x. x\<lparr>si_dirty := False\<rparr>) s) =
    Some (Inr (), (upd_sin sin (\<lambda>x. x\<lparr>si_dirty := False\<rparr>) s)\<lparr>sfs_buffer := patch (disk s (si_ino (sins s sin))) 0 (encode_inode (si_din (sins s sin))),
      disk := after_write s (disk s) (si_ino (sins s sin)) (patch (disk s (si_ino (sins s sin))) 0 (encode_inode (si_din (sins s sin))))\<rparr>)"
    using used_blockD [OF u] wf by (subst sfs_wbuf_ok) (simp_all add: upd_sin_def SIZEOF_DINODE_def SFS_BLKSIZE_def after_write_def)
  with True show ?thesis
    by (auto simp: sfs_fsync_def upd_sin_def)
qed

lemma take_patch: "length data \<le> length b \<Longrightarrow> take (length data) (patch b 0 data) = data"
  by (simp add: patch_def)

lemma vop_fsync_step:
  assumes ok: "sfs_ok s" and c: "cache_ok (sin # l) s"
  shows "\<exists>s'. vop_fsync sin s = Some (Inr (), s') \<and> same_but_disk {sin} s s' \<and> (dev_keeps s \<longrightarrow> synced s' sin) \<and> cache_ok l s'"
proof -
  define ino where "ino = si_ino (sins s sin)"
  define din where "din = si_din (sins s sin)"
  define p where "p = patch (disk s ino) 0 (encode_inode din)"
  have h: "wf_din din" "used_block s ino" "vop_op Vop_fsync sin s = Some ()" "dev_keeps s \<and> \<not> si_dirty (sins s sin) \<longrightarrow> synced s sin"
    and inj: "inj_on (\<lambda>x. si_ino (sins s x)) (set (sin # l))"
    using c by (simp_all add: cache_ok_def ino_def din_def)
  have lb: "length (disk s ino) = SFS_BLKSIZE"
    using ok used_blockD [OF h(2)] by (simp add: sfs_ok_def)
  obtain bf where f: "sfs_fsync sin s = Some (Inr (), s\<lparr>sins := (sins s)(sin := (sins s sin)\<lparr>si_dirty := False\<rparr>), sfs_buffer := bf,
      disk := if si_dirty (sins s sin) then after_write s (disk s) ino p else disk s\<rparr>)"
    using sfs_fsync_ok [OF ok, of sin] h unfolding ino_def din_def p_def by blast
  define s' where "s' = s\<lparr>sins := (sins s)(sin := (sins s sin)\<lparr>si_dirty := False\<rparr>), sfs_buffer := bf,
      disk := if si_dirty (sins s sin) then after_write s (disk s) ino p else disk s\<rparr>"
  have lp: "length p = SFS_BLKSIZE" "take SIZEOF_DINODE p = encode_inode din"
    using lb take_patch [of "encode_inode din" "disk s ino"] h(1)
    by (simp_all add: p_def SIZEOF_DINODE_def SFS_BLKSIZE_def)
  have "sfs_ok s'"
    using ok lp unfolding s'_def sfs_ok_def by (auto intro: length_after_write)
  then have same: "same_but_disk {sin} s s'"
    by (auto simp: same_but_disk_def written_only_def s'_def ino_def after_write_def)
  have kp: "dev_keeps s' = dev_keeps s"
    by (simp add: s'_def)
  have syn: "synced s' sin" if "dev_keeps s"
    using h(4) lp decode_encode_inode [OF h(1)] that by (auto simp: synced_def s'_def ino_def din_def after_write_def)
  have "synced s' x" if x: "x \<in> set l" "\<not> si_dirty (sins s' x)" "dev_keeps s'" for x
  proof (cases "x = sin")
    case False
    then have ne: "si_ino (sins s x) \<noteq> ino"
      using inj_onD [OF inj, of x sin] x(1) by (auto simp: ino_def)
    have "synced s x"
      using c x False kp by (simp add: cache_ok_def s'_def)
    with False ne show ?thesis
      by (simp add: synced_def s'_def after_write_def)
  qed (use syn x kp in simp)
  moreover have "si_din (sins s' x) = si_din (sins s x)" "si_ino (sins s' x) = si_ino (sins s x)"
    "used_block s' b = used_block s b" "vop_op f x s' = vop_op f x s" for x b f
    by (simp_all add: s'_def used_block_def vop_op_def)
  ultimately have "cache_ok l s'"
    using c inj unfolding cache_ok_def by (simp add: inj_on_def)
  then show ?thesis
    using f h(3) same syn unfolding s'_def [symmetric] by (simp add: vop_fsync_def)
qed

lemma written_only_trans:
  "written_only A s s1 \<Longrightarrow> written_only B s1 s2 \<Longrightarrow> A \<subseteq> C \<Longrightarrow> B \<subseteq> C \<Longrightarrow> written_only C s s2"
  by (metis written_only_def subsetD)

lemma same_but_disk_trans:
  assumes a: "same_but_disk A s s1" and b: "same_but_disk B s1 s2"
  shows "same_but_disk (A \<union> B) s s2"
proof -
  have "written_only {si_ino (sins s x) |x. x \<in> A \<and> si_dirty (sins s x)} s s1"
    "written_only {si_ino (sins s1 x) |x. x \<in> B \<and> si_dirty (sins s1 x)} s1 s2"
    using a b by (simp_all add: same_but_disk_def)
  then have "written_only {si_ino (sins s x) |x. x \<in> A \<union> B \<and> si_dirty (sins s x)} s s2"
    by (rule written_only_trans) (use a in \<open>auto simp: same_but_disk_def\<close>)
  moreover have "dev_keeps s1 = dev_keeps s"
    using a by (intro dev_same(1)) (simp_all add: same_but_disk_def)
  ultimately show ?thesis
    using a b by (auto simp: same_but_disk_def)
qed

lemma sync_loop_ok:
  assumes "sfs_ok s" "cache_ok l s"
  shows "\<exists>s'. sync_loop l s = Some s' \<and> same_but_disk (set l) s s' \<and> (dev_keeps s \<longrightarrow> (\<forall>x \<in> set l. synced s' x))"
  using assms
proof (induction l arbitrary: s)
  case Nil
  then show ?case
    by (auto simp: same_but_disk_def written_only_def)
next
  case (Cons sin l)
  obtain s1 where s1: "vop_fsync sin s = Some (Inr (), s1)" "same_but_disk {sin} s s1" "dev_keeps s \<longrightarrow> synced s1 sin" "cache_ok l s1"
    using vop_fsync_step [OF Cons.prems] by blast
  have ok1: "sfs_ok s1"
    using s1(2) by (simp add: same_but_disk_def)
  obtain s2 where s2: "sync_loop l s1 = Some s2" "same_but_disk (set l) s1 s2" "dev_keeps s1 \<longrightarrow> (\<forall>x \<in> set l. synced s2 x)"
    using Cons.IH [OF ok1 s1(4)] by blast
  note a = s1(2) [unfolded same_but_disk_def] and b = s2(2) [unfolded same_but_disk_def]
  have "same_but_disk (set (sin # l)) s s2"
    using same_but_disk_trans [OF s1(2) s2(2)] by simp
  moreover have kp: "dev_keeps s1 = dev_keeps s"
    using a by (intro dev_same(1)) simp_all
  moreover have "synced s2 sin" if "dev_keeps s"
  proof -
    have "si_ino (sins s1 sin) \<notin> {si_ino (sins s1 x) |x. x \<in> set l \<and> si_dirty (sins s1 x)}"
    proof
      assume "si_ino (sins s1 sin) \<in> {si_ino (sins s1 x) |x. x \<in> set l \<and> si_dirty (sins s1 x)}"
      then obtain x where x: "x \<in> set l" "si_dirty (sins s1 x)" "si_ino (sins s x) = si_ino (sins s sin)"
        using a by auto
      moreover have "x \<noteq> sin"
        using x(2) a by auto
      ultimately show False
        using Cons.prems(2) inj_onD [of "\<lambda>x. si_ino (sins s x)" "set (sin # l)" x sin] by (auto simp: cache_ok_def)
    qed
    with b have "disk s2 (si_ino (sins s1 sin)) = disk s1 (si_ino (sins s1 sin))"
      by (simp add: written_only_def)
    then show ?thesis
      using b s1(3) that by (simp add: synced_def)
  qed
  ultimately show ?case
    using s1(1) s2 by auto
qed


section \<open>Writing and reading the superblock and the free map\<close>

lemma wblock_drops:
  assumes "dev_works s" "\<not> dev_keeps s" "0 < b" "b + n \<le> sb_blocks (super s)"
  shows "\<exists>v. sfs_wblock data b n s = Some (Inr v, s)"
  using assms(3,4)
proof (induction n arbitrary: b data)
  case (Suc n)
  obtain v where "sfs_wblock (drop SFS_BLKSIZE data) (Suc b) n s = Some (Inr v, s)"
    using Suc.IH [of "Suc b"] Suc.prems by auto
  then show ?case
    using Suc.prems assms(1,2) by (auto simp: sfs_wblock_def after_write_def)
qed (simp add: sfs_wblock_def)

lemma wblock_keeps:
  assumes "dev_works s" "dev_keeps s" "0 < b" "b + n \<le> sb_blocks (super s)"
  shows "\<exists>v. sfs_wblock data b n s = Some (Inr v,
    s\<lparr>disk := \<lambda>c. if b \<le> c \<and> c < b + n then take SFS_BLKSIZE (drop ((c - b) * SFS_BLKSIZE) data) else disk s c\<rparr>)"
  using assms
proof (induction n arbitrary: b data s)
  case 0
  have "s\<lparr>disk := \<lambda>c. if b \<le> c \<and> c < b + 0 then take SFS_BLKSIZE (drop ((c - b) * SFS_BLKSIZE) data) else disk s c\<rparr> = s"
    by (simp add: not_less [symmetric] cong: if_cong)
  then show ?case
    by (simp add: sfs_wblock_def)
next
  case (Suc n)
  define s1 where "s1 = s\<lparr>disk := (disk s)(b := take SFS_BLKSIZE data)\<rparr>"
  have s1: "dev_works s1" "dev_keeps s1" "0 < Suc b" "Suc b + n \<le> sb_blocks (super s1)"
    using Suc.prems by (simp_all add: s1_def)
  obtain v where v: "sfs_wblock (drop SFS_BLKSIZE data) (Suc b) n s1 = Some (Inr v,
      s1\<lparr>disk := \<lambda>c. if Suc b \<le> c \<and> c < Suc b + n then take SFS_BLKSIZE (drop ((c - Suc b) * SFS_BLKSIZE) (drop SFS_BLKSIZE data)) else disk s1 c\<rparr>)"
    using Suc.IH [OF s1] by blast
  have "(\<lambda>c. if Suc b \<le> c \<and> c < Suc b + n then take SFS_BLKSIZE (drop ((c - Suc b) * SFS_BLKSIZE) (drop SFS_BLKSIZE data)) else disk s1 c) =
      (\<lambda>c. if b \<le> c \<and> c < b + Suc n then take SFS_BLKSIZE (drop ((c - b) * SFS_BLKSIZE) data) else disk s c)"
  proof
    fix c
    have "c \<noteq> b \<Longrightarrow> b \<le> c \<Longrightarrow> (c - Suc b) * SFS_BLKSIZE + SFS_BLKSIZE = (c - b) * SFS_BLKSIZE"
      by (metis Suc_diff_Suc add.commute le_neq_implies_less mult_Suc)
    then show "(if Suc b \<le> c \<and> c < Suc b + n then take SFS_BLKSIZE (drop ((c - Suc b) * SFS_BLKSIZE) (drop SFS_BLKSIZE data)) else disk s1 c) =
        (if b \<le> c \<and> c < b + Suc n then take SFS_BLKSIZE (drop ((c - b) * SFS_BLKSIZE) data) else disk s c)"
      by (cases "c = b") (auto simp: s1_def)
  qed
  with v Suc.prems show ?case
    by (auto simp: sfs_wblock_def after_write_keeps s1_def [symmetric]) (simp add: s1_def)
qed

lemma concat_chunks:
  "length data = n * B \<Longrightarrow> concat (map (\<lambda>j. take B (drop (j * B) data)) [0..<n]) = data"
proof (induction n arbitrary: data)
  case (Suc n)
  have "map (\<lambda>j. take B (drop (j * B) data)) [0..<Suc n] = take B data # map (\<lambda>j. take B (drop (j * B) (drop B data))) [0..<n]"
    by (simp add: upt_conv_Cons map_Suc_upt [symmetric] add.commute del: upt_Suc)
  moreover have "concat (map (\<lambda>j. take B (drop (j * B) (drop B data))) [0..<n]) = drop B data"
    using Suc.IH [of "drop B data"] Suc.prems by (simp del: drop_drop)
  ultimately show ?case
    by (simp del: upt_Suc)
qed simp

lemma init_freemap_loop_ok:
  assumes "\<And>b d. b0 \<le> b \<Longrightarrow> b < b0 + n \<Longrightarrow> dev_io dev False b [] d = (Inr (d b), d)"
  shows "init_freemap_loop b0 n dev = (Inr (concat (map (\<lambda>j. dev_disk dev (b0 + j)) [0..<n])), dev)"
  using assms
proof (induction n arbitrary: b0)
  case (Suc n)
  have "init_freemap_loop (Suc b0) n dev = (Inr (concat (map (\<lambda>j. dev_disk dev (Suc b0 + j)) [0..<n])), dev)"
    by (rule Suc.IH) (use Suc.prems in simp)
  moreover have "map (\<lambda>j. dev_disk dev (b0 + j)) [0..<Suc n] = dev_disk dev b0 # map (\<lambda>j. dev_disk dev (Suc b0 + j)) [0..<n]"
    by (simp add: upt_conv_Cons map_Suc_upt [symmetric] del: upt_Suc)
  ultimately show ?case
    using Suc.prems by (simp add: sfs_init_read_def del: upt_Suc)
qed simp

lemma count_free_ok:
  assumes "bitmap_inv fm" "set is \<subseteq> {..<nbits fm}" "distinct is"
  shows "count_free fm is = Some (card (free_bits fm \<inter> set is))"
  using assms(2,3)
proof (induction "is")
  case (Cons i "is")
  then have "card (free_bits fm \<inter> set (i # is)) = card (free_bits fm \<inter> set is) + (if i \<in> free_bits fm then 1 else 0)"
    by (auto simp: Int_insert_right)
  with Cons show ?case
    using bitmap_test_ok [OF assms(1), of i] by simp
qed simp


lemma sync_meta_ok:
  assumes v: "volume_ok s"
  shows "\<exists>s1 u. sfs_sync_super s = Some (Inr (), s1) \<and>
    sfs_sync_freemap s1 = Some (Inr u, s\<lparr>sfs_buffer := super_block (super s), disk := if dev_keeps s then with_meta s (disk s) else disk s\<rparr>)"
proof -
  have dw: "dev_works s" "0 < sb_blocks (super s)" and mb: "meta_blocks s \<subseteq> {..<sb_blocks (super s)}"
    using v by (simp_all add: volume_ok_def sfs_ok_def)
  define s1 where "s1 = s\<lparr>sfs_buffer := super_block (super s), disk := after_write s (disk s) 0 (super_block (super s))\<rparr>"
  define n where "n = sfs_freemap_blocks (super s)"
  have ss: "sfs_sync_super s = Some (Inr (), s1)"
    using dw by (simp add: sfs_sync_super_def super_block_def [symmetric] Let_def SFS_BLKN_SUPER_def s1_def)
  have n0: "0 < n"
    using dw(2) by (simp add: n_def sfs_freemap_blocks_def SFS_BLKBITS_def SFS_BLKSIZE_def div_greater_zero_iff)
  then have "SFS_BLKN_FREEMAP + n - 1 \<in> meta_blocks s"
    by (simp add: meta_blocks_def n_def [symmetric] SFS_BLKN_FREEMAP_def)
  then have "SFS_BLKN_FREEMAP + n - 1 < sb_blocks (super s)"
    using mb by blast
  then have bnd: "0 < SFS_BLKN_FREEMAP" "SFS_BLKN_FREEMAP + n \<le> sb_blocks (super s1)" and d1: "dev_works s1" "dev_keeps s1 = dev_keeps s"
    using dw n0 by (simp_all add: s1_def SFS_BLKN_FREEMAP_def)
  have "\<exists>u. sfs_wblock (freemap_data (freemap s)) SFS_BLKN_FREEMAP n s1 =
    Some (Inr u, s\<lparr>sfs_buffer := super_block (super s), disk := if dev_keeps s then with_meta s (disk s) else disk s\<rparr>)"
  proof (cases "dev_keeps s")
    case True
    then obtain u where u: "sfs_wblock (freemap_data (freemap s)) SFS_BLKN_FREEMAP n s1 = Some (Inr u,
        s1\<lparr>disk := \<lambda>c. if SFS_BLKN_FREEMAP \<le> c \<and> c < SFS_BLKN_FREEMAP + n
          then take SFS_BLKSIZE (drop ((c - SFS_BLKN_FREEMAP) * SFS_BLKSIZE) (freemap_data (freemap s))) else disk s1 c\<rparr>)"
      using wblock_keeps [OF d1(1) _ bnd] d1(2) by blast
    have "(\<lambda>c. if SFS_BLKN_FREEMAP \<le> c \<and> c < SFS_BLKN_FREEMAP + n
          then take SFS_BLKSIZE (drop ((c - SFS_BLKN_FREEMAP) * SFS_BLKSIZE) (freemap_data (freemap s))) else disk s1 c) = with_meta s (disk s)"
      by (rule ext) (auto simp: with_meta_def meta_blocks_def n_def s1_def after_write_keeps [OF True] SFS_BLKN_SUPER_def SFS_BLKN_FREEMAP_def)
    with u True show ?thesis
      by (simp add: s1_def)
  next
    case False
    then show ?thesis
      using wblock_drops [OF d1(1) _ bnd] d1(2) by (auto simp: s1_def after_write_def)
  qed
  then have "\<exists>u. sfs_sync_freemap s1 =
    Some (Inr u, s\<lparr>sfs_buffer := super_block (super s), disk := if dev_keeps s then with_meta s (disk s) else disk s\<rparr>)"
    by (simp add: sfs_sync_freemap_def bitmap_getdata_def n_def freemap_data_def s1_def)
  with ss show ?thesis
    by blast
qed

lemma init_freemap_ok:
  assumes v: "volume_ok s" and dev: "dev_io dev = d_io s" "dev_disk dev = with_meta s d"
    and n: "n = sfs_freemap_blocks (super s)" and fm: "nbits fm = nbits (freemap s)" "nwords fm = nwords (freemap s)"
  shows "sfs_init_freemap fm SFS_BLKN_FREEMAP n dev = Some (Inr (freemap s), dev)"
proof -
  have ok: "sfs_ok s" and nw: "nwords (freemap s) = n * SFS_BLK_NENTRY" and mbs: "meta_blocks s \<subseteq> {..<sb_blocks (super s)}"
    using v by (simp_all add: volume_ok_def n)
  have ld: "length (freemap_data (freemap s)) = n * SFS_BLKSIZE" "length (bits (freemap s)) = n * SFS_BLK_NENTRY"
    using ok nw by (simp_all add: freemap_data_def bitmap_inv_def sfs_ok_def SFS_BLK_NENTRY_def SFS_BLKSIZE_def)
  have mb: "SFS_BLKN_FREEMAP + j \<in> meta_blocks s \<and> SFS_BLKN_FREEMAP + j \<noteq> SFS_BLKN_SUPER" if "j < n" for j
    using that by (simp add: meta_blocks_def n SFS_BLKN_FREEMAP_def SFS_BLKN_SUPER_def)
  have "init_freemap_loop SFS_BLKN_FREEMAP n dev = (Inr (concat (map (\<lambda>j. dev_disk dev (SFS_BLKN_FREEMAP + j)) [0..<n])), dev)"
  proof (rule init_freemap_loop_ok)
    fix b d assume "SFS_BLKN_FREEMAP \<le> b" "b < SFS_BLKN_FREEMAP + n"
    then have "b \<in> meta_blocks s"
      by (simp add: meta_blocks_def n)
    with mbs ok show "dev_io dev False b [] d = (Inr (d b), d)"
      by (auto simp: dev sfs_ok_def dev_works_def)
  qed
  also have "map (\<lambda>j. dev_disk dev (SFS_BLKN_FREEMAP + j)) [0..<n] =
      map (\<lambda>j. take SFS_BLKSIZE (drop (j * SFS_BLKSIZE) (freemap_data (freemap s)))) [0..<n]"
    using dev mb by (simp add: with_meta_def)
  finally have "init_freemap_loop SFS_BLKN_FREEMAP n dev = (Inr (freemap_data (freemap s)), dev)"
    using concat_chunks [OF ld(1)] by simp
  moreover have "words_of (n * SFS_BLK_NENTRY) (freemap_data (freemap s)) = bits (freemap s)"
    using words_of_concat [OF ld(2), of "[]"] by (simp add: freemap_data_def)
  moreover have "fm\<lparr>bits := bits (freemap s)\<rparr> = freemap s"
    using fm by (intro bitmap.equality) simp_all
  moreover have "4 * nwords fm = n * SFS_BLKSIZE"
    by (simp add: fm nw SFS_BLK_NENTRY_def SFS_BLKSIZE_def)
  ultimately show ?thesis
    by (simp add: sfs_init_freemap_def bitmap_getdata_def fm(2) nw)
qed

text \<open>The free map that mounting creates, before it is read.\<close>

lemma mount_bitmap_create:
  assumes v: "volume_ok s"
  shows "\<exists>fm. bitmap_create True True (sfs_freemap_bits (super s)) = Some (Some fm) \<and>
    nbits fm = nbits (freemap s) \<and> nwords fm = nwords (freemap s)"
proof -
  define n where "n = sfs_freemap_blocks (super s)"
  have fb: "sfs_freemap_bits (super s) = n * SFS_BLKBITS"
    unfolding sfs_freemap_bits_def n_def sfs_freemap_blocks_def by (simp add: minus_mod_eq_div_mult)
  have v': "0 < sb_blocks (super s)" "nbits (freemap s) = n * SFS_BLKBITS" "nwords (freemap s) = n * SFS_BLK_NENTRY"
    "n * SFS_BLKBITS + WORD_BITS < 2 ^ 32"
    using v by (simp_all add: volume_ok_def n_def fb [unfolded n_def])
  have n0: "0 < n"
    using v'(1) by (simp add: n_def sfs_freemap_blocks_def SFS_BLKBITS_def SFS_BLKSIZE_def div_greater_zero_iff)
  have nw: "n * SFS_BLKBITS = n * SFS_BLK_NENTRY * WORD_BITS" "(n * SFS_BLKBITS + WORD_BITS - 1) div WORD_BITS = n * SFS_BLK_NENTRY"
    by (simp_all add: SFS_BLKBITS_def SFS_BLK_NENTRY_def SFS_BLKSIZE_def WORD_BITS_def)
  have "bitmap_create True True (sfs_freemap_bits (super s)) =
      Some (Some \<lparr>nbits = n * SFS_BLKBITS, nwords = n * SFS_BLK_NENTRY, bits = replicate (n * SFS_BLK_NENTRY) (- 1)\<rparr>)"
    using v'(4) n0 unfolding fb bitmap_create_def nw(2) Let_def
    by (simp add: nw(1) [symmetric] SFS_BLKBITS_def SFS_BLKSIZE_def)
  with v' show ?thesis
    by simp
qed

lemma mount_ok:
  assumes v: "volume_ok s" and dev: "d_blocksize dev = SFS_BLKSIZE" "sb_blocks (super s) \<le> d_blocks dev" "dev_io dev = d_io s"
    "dev_disk dev = with_meta s d"
  shows "\<exists>t. sfs_do_mount True True True True True ss ns mem dev = Some (Inr t, dev) \<and> super t = super s \<and> freemap t = freemap s \<and>
    d_io t = d_io s \<and> disk t = with_meta s d \<and> \<not> super_dirty t \<and> inode_list t = []"
proof -
  define sb where "sb = super s"
  define buf where "buf = super_block sb"
  have ok: "sfs_ok s" and v': "sb_magic sb = SFS_MAGIC" "0 < sb_blocks sb" "nbits (freemap s) = sfs_freemap_bits sb"
    using v by (simp_all add: volume_ok_def sb_def)
  have inv: "bitmap_inv (freemap s)" "sb_unused sb = card (free_bits (freemap s))" "free_bits (freemap s) \<subseteq> {0<..<sb_blocks sb}"
    using ok by (simp_all add: sfs_ok_def sb_def free_blocks_def)
  then have "sb_unused sb \<le> sb_blocks sb"
    using card_mono [of "{0<..<sb_blocks sb}" "free_bits (freemap s)"] by simp
  then have "sb_unused sb < 2 ^ 32" "sb_blocks sb < 2 ^ 32"
    using ok by (simp_all add: sfs_ok_def sb_def)
  then have dec: "(let d = decode_super buf in d\<lparr>sb_info := (sb_info d)[SFS_MAX_INFO_LEN := 0]\<rparr>) = sb"
    unfolding buf_def super_block_def using v by (intro decode_encode_super) (simp_all add: volume_ok_def sb_def)
  have "sfs_init_read SFS_BLKN_SUPER dev = (Inr buf, dev)"
    using ok v'(2) dev(3,4) by (simp add: sfs_init_read_def SFS_BLKN_SUPER_def with_meta_def buf_def sb_def sfs_ok_def dev_works_def)
  moreover obtain fm where fm: "bitmap_create True True (sfs_freemap_bits sb) = Some (Some fm)"
    "nbits fm = nbits (freemap s)" "nwords fm = nwords (freemap s)"
    using mount_bitmap_create [OF v] by (auto simp: sb_def)
  moreover have "sfs_init_freemap fm SFS_BLKN_FREEMAP (sfs_freemap_blocks sb) dev = Some (Inr (freemap s), dev)"
    by (rule init_freemap_ok [OF v dev(3,4) _ fm(2,3)]) (simp add: sb_def)
  moreover have "count_free (freemap s) [0..<sfs_freemap_bits sb] = Some (sb_unused sb)"
  proof -
    have "free_bits (freemap s) \<inter> {0..<nbits (freemap s)} = free_bits (freemap s)"
      by (auto simp: free_bits_def)
    then show ?thesis
      using count_free_ok [OF inv(1), of "[0..<nbits (freemap s)]"] v'(3) inv(2) by (simp add: atLeast0LessThan)
  qed
  moreover have "sb_magic (decode_super buf) = sb_magic sb" "sb_blocks (decode_super buf) = sb_blocks sb"
    using arg_cong [OF dec, of sb_magic] arg_cong [OF dec, of sb_blocks] by (simp_all add: Let_def)
  ultimately show ?thesis
    using dev v'(1) dec by (simp add: sfs_do_mount_def Let_def sb_def)
qed

section \<open>Syncing and mounting\<close>

lemma with_meta_cong: "super s' = super s \<Longrightarrow> freemap s' = freemap s \<Longrightarrow> with_meta s' = with_meta s"
  by (intro ext) (simp add: with_meta_def meta_blocks_def)

lemma volume_ok_sync:
  assumes "same_but_disk A s s'" "volume_ok s"
  shows "volume_ok (s'\<lparr>super_dirty := sd\<rparr>)"
proof -
  have "sfs_ok s'"
    using assms(1) by (simp add: same_but_disk_def)
  then have "sfs_ok (s'\<lparr>super_dirty := sd\<rparr>)"
    by (simp add: sfs_ok_def)
  with assms show ?thesis
    by (simp add: same_but_disk_def volume_ok_def meta_blocks_def)
qed

text \<open>
  What \<open>sfs_sync\<close> leaves: everything is marked clean, and on a device that keeps what is written the
  inodes and the metadata are on the disk.
\<close>

lemma sfs_sync_ok:
  assumes "volume_ok s" "super_dirty s \<or> with_meta s (disk s) = disk s" "cache_ok (inode_list s) s"
    and "\<forall>sin \<in> set (inode_list s). si_ino (sins s sin) \<notin> meta_blocks s"
  shows "\<exists>s'. sfs_sync s = Some (Inr (), s') \<and> \<not> super_dirty s' \<and>
    (\<forall>sin \<in> set (inode_list s). \<not> si_dirty (sins s' sin) \<and> si_din (sins s' sin) = si_din (sins s sin) \<and> si_ino (sins s' sin) = si_ino (sins s sin)) \<and>
    (if dev_keeps s then (\<forall>sin \<in> set (inode_list s). synced s' sin) \<and> with_meta s (disk s') = disk s' else disk s' = disk s)"
proof -
  have "sfs_ok s"
    using assms(1) by (simp add: volume_ok_def)
  then obtain s1 where s1: "sync_loop (inode_list s) s = Some s1" "same_but_disk (set (inode_list s)) s s1"
    "dev_keeps s \<longrightarrow> (\<forall>x \<in> set (inode_list s). synced s1 x)"
    using sync_loop_ok assms(3) by blast
  note sm = s1(2) [unfolded same_but_disk_def]
  have wo: "written_only {si_ino (sins s x) |x. x \<in> set (inode_list s) \<and> si_dirty (sins s x)} s s1" and kp: "dev_keeps s1 = dev_keeps s"
    using sm dev_same(1) [of s1 s] by simp_all
  have w1: "with_meta s1 = with_meta s" "with_meta s (with_meta s d) = with_meta s d" for d
    using sm by (auto intro!: with_meta_cong simp: with_meta_def)
  show ?thesis
  proof (cases "super_dirty s")
    case True
    define s2 where "s2 = s1\<lparr>super_dirty := False\<rparr>"
    define s' where "s' = s2\<lparr>sfs_buffer := super_block (super s2), disk := if dev_keeps s then with_meta s (disk s1) else disk s1\<rparr>"
    have "with_meta s2 = with_meta s"
      using w1(1) with_meta_cong [of s2 s1] by (simp add: s2_def)
    then have "sfs_sync s = Some (Inr (), s')"
      using sync_meta_ok [OF volume_ok_sync [OF s1(2) assms(1), of False]] s1(1) True sm kp unfolding sfs_sync_def s'_def by (auto simp: s2_def)
    moreover have "synced s' x" if x: "x \<in> set (inode_list s)" "dev_keeps s" for x
    proof -
      have "si_ino (sins s1 x) \<notin> meta_blocks s"
        using x assms(4) sm by simp
      then have "disk s' (si_ino (sins s1 x)) = disk s1 (si_ino (sins s1 x))"
        by (auto simp: s'_def with_meta_def meta_blocks_def)
      then show ?thesis
        using s1(3) x by (simp add: synced_def s'_def s2_def)
    qed
    ultimately show ?thesis
      using sm w1(2) by (auto simp: s'_def s2_def)
  next
    case False
    have "with_meta s (disk s1) = disk s1"
    proof
      fix c
      have "c \<notin> {si_ino (sins s x) |x. x \<in> set (inode_list s) \<and> si_dirty (sins s x)}" if "c \<in> meta_blocks s"
        using assms(4) that by auto
      then have "disk s1 c = disk s c" if "c \<in> meta_blocks s"
        using wo [unfolded written_only_def, rule_format] that by simp
      moreover have "with_meta s (disk s) c = disk s c"
        using False assms(2) by simp
      ultimately show "with_meta s (disk s1) c = disk s1 c"
        by (cases "c \<in> meta_blocks s") (auto simp: with_meta_def meta_blocks_def split: if_splits)
    qed
    moreover have "sfs_sync s = Some (Inr (), s1)"
      using s1(1) sm False by (simp add: sfs_sync_def)
    ultimately show ?thesis
      using s1(3) sm False by auto
  qed
qed

lemma mount_synced:
  assumes "volume_ok s" "sb_blocks (super s) \<le> n" "d_io s = io" "with_meta s d = d"
  shows "\<exists>t. sfs_do_mount True True True True True ss ns mem \<lparr>d_blocks = n, d_blocksize = SFS_BLKSIZE, dev_io = io, dev_disk = d\<rparr> =
      Some (Inr t, \<lparr>d_blocks = n, d_blocksize = SFS_BLKSIZE, dev_io = io, dev_disk = d\<rparr>) \<and>
    super t = super s \<and> freemap t = freemap s \<and> disk t = d \<and> \<not> super_dirty t \<and> inode_list t = []"
  using mount_ok [OF assms(1), of "\<lparr>d_blocks = n, d_blocksize = SFS_BLKSIZE, dev_io = io, dev_disk = d\<rparr>" d ss ns mem] assms(2-4) by auto

text \<open>
  The driver of \<^verbatim>\<open>dev_disk0.c\<close> is the device \<open>disk0_dev\<close>: a request for one block, as \<open>sfs_rwblock_nolock\<close>
  makes it, returns and leaves in memory and on the flash what \<open>disk0_dev\<close> says. The driver's buffer and
  the caller's lie below the flash and apart, and the device ends within the address space.
\<close>

lemma disk0_implements:
  assumes "apart buf p SFS_BLKSIZE" "FLASH_START + n * DISK0_BLKSIZE * 2 \<le> 2 ^ 32" "b * SFS_BLKSIZE < 2 ^ 31"
  shows "\<exists>r iob' m'. disk0_io n buf wr (iobuf_init p SFS_BLKSIZE (int (b * SFS_BLKSIZE))) m = Some (r, iob', m') \<and>
    disk0_dev n wr b (bytes m p SFS_BLKSIZE) (disk0_blocks m) = (map_sum id (\<lambda>_. bytes m' p SFS_BLKSIZE) r, disk0_blocks m')"
proof -
  define iob where "iob = iobuf_init p SFS_BLKSIZE (int (b * SFS_BLKSIZE))"
  have io: "0 \<le> io_offset iob" "io_offset iob < 2 ^ 31" "io_resid iob < 2 ^ 32" "apart buf (io_base iob) (io_resid iob)"
    "nat (io_offset iob) = b * SFS_BLKSIZE" "io_resid iob = SFS_BLKSIZE" "io_base iob = p"
    and al: "b * SFS_BLKSIZE mod DISK0_BLKSIZE = 0" "SFS_BLKSIZE mod DISK0_BLKSIZE = 0"
    using assms by (simp_all add: iob_def iobuf_init_def SFS_BLKSIZE_def DISK0_BLKSIZE_def)
  have fits: "b * SFS_BLKSIZE + SFS_BLKSIZE \<le> n * DISK0_BLKSIZE \<longleftrightarrow> b < n"
    by (auto simp: SFS_BLKSIZE_def DISK0_BLKSIZE_def)
  have ap: "buf + DISK0_BUFSIZE \<le> FLASH_START" "p + SFS_BLKSIZE \<le> FLASH_START" "buf + DISK0_BUFSIZE \<le> p \<or> p + SFS_BLKSIZE \<le> buf"
    using assms(1) by (simp_all add: apart_def)
  consider "n \<le> b" | "b < n" "wr" | "b < n" "\<not> wr"
    by linarith
  then have "\<exists>r iob' m'. disk0_io n buf wr iob m = Some (r, iob', m') \<and>
    disk0_dev n wr b (bytes m p SFS_BLKSIZE) (disk0_blocks m) = (map_sum id (\<lambda>_. bytes m' p SFS_BLKSIZE) r, disk0_blocks m')"
  proof cases
    case 1
    then have "disk0_io n buf wr iob m = Some (Inl E_INVAL, iob, m)"
      using fits unfolding disk0_request [OF io(1-3)] Let_def io by auto
    with 1 show ?thesis
      by (intro exI [of _ "Inl E_INVAL"]) (simp add: disk0_dev_def)
  next
    case 2
    obtain iob' m' where m: "disk0_io n buf True iob m = Some (Inr (), iob', m')" "\<forall>a. a < buf \<or> buf + DISK0_BUFSIZE \<le> a \<longrightarrow> m' a = m a"
      using disk0_write_ignored [OF io(1-3) ap(1), of n m] fits 2 al unfolding io by blast
    have "bytes m' p SFS_BLKSIZE = bytes m p SFS_BLKSIZE" "disk0_blocks m' = disk0_blocks m"
      using m(2) ap by (auto simp: bytes_def disk0_blocks_def fun_eq_iff intro!: image_unchanged)
    with m(1) 2 show ?thesis
      by (auto simp: disk0_dev_def)
  next
    case 3
    obtain iob' m' where m: "disk0_io n buf False iob m = Some (Inr (), iob', m')"
      "bytes m' p SFS_BLKSIZE = image m (b * SFS_BLKSIZE) SFS_BLKSIZE"
      "\<forall>a. (a < p \<or> p + SFS_BLKSIZE \<le> a) \<and> (a < buf \<or> buf + DISK0_BUFSIZE \<le> a) \<longrightarrow> m' a = m a"
      using disk0_io_read_correct [OF io(1-4) assms(2), of m] fits 3 al unfolding io by auto
    have "disk0_blocks m' = disk0_blocks m"
      using m(3) ap by (auto simp: disk0_blocks_def fun_eq_iff intro!: image_unchanged)
    with m(1,2) 3 show ?thesis
      by (auto simp: disk0_dev_def disk0_blocks_def)
  qed
  then show ?thesis
    by (simp only: iob_def)
qed

text \<open>The demonstration volumes.\<close>

lemma demo_volume_bits: "bitmap_bit (freemap (demo_volume io w u d)) i \<longleftrightarrow> bit w i"
proof (cases "i < 32")
  case True
  then show ?thesis
    by (simp add: bitmap_bit_def demo_volume_def WORD_BITS_def)
next
  case False
  then have "0 < i div 32" "\<not> bit w i"
    by (auto simp: div_greater_zero_iff bit_word.rep_eq)
  then show ?thesis
    by (auto simp: bitmap_bit_def demo_volume_def WORD_BITS_def nth_Cons')
qed

lemma demo_volume_free: "free_blocks (demo_volume io w u d) = {i. bit w i}"
proof -
  have "i < 32768" if "bit w i" for i
    using bit_imp_le_length [OF that] by simp
  then show ?thesis
    unfolding free_blocks_def free_bits_def demo_volume_bits by (auto simp: demo_volume_def)
qed

lemma demo_volume_ok:
  assumes "{i. bit w i} \<subseteq> {4, 5, 6, 7}" "card {i. bit w i} = u" "dev_works (demo_volume io w u d)" "\<And>b. length (d b) = SFS_BLKSIZE"
  shows "volume_ok (demo_volume io w u d)" "cache_ok (inode_list (demo_volume io w u d)) (demo_volume io w u d)"
    "\<forall>sin \<in> set (inode_list (demo_volume io w u d)). si_ino (sins (demo_volume io w u d) sin) \<notin> meta_blocks (demo_volume io w u d)"
proof -
  let ?s = "demo_volume io w u d"
  have "bitmap_inv (freemap ?s)"
    unfolding bitmap_inv_def demo_volume_bits using bit_imp_le_length [of w] by (force simp: demo_volume_def WORD_BITS_def)
  moreover have "{i. bit w i} \<subseteq> {0<..<8}"
    using assms(1) by auto
  ultimately have "sfs_ok ?s"
    unfolding sfs_ok_def demo_volume_free using assms(2-4) by (auto simp: demo_volume_def)
  moreover have m: "sfs_freemap_blocks (super ?s) = 1" "sfs_freemap_bits (super ?s) = 32768"
    by (simp_all add: sfs_freemap_blocks_def sfs_freemap_bits_def demo_volume_def SFS_BLKBITS_def SFS_BLKSIZE_def)
  ultimately show "volume_ok ?s"
    unfolding volume_ok_def meta_blocks_def
    by (auto simp: demo_volume_def SFS_MAX_INFO_LEN_def SFS_BLK_NENTRY_def SFS_BLKSIZE_def WORD_BITS_def SFS_BLKN_SUPER_def SFS_BLKN_FREEMAP_def)
  have "used_block ?s 3"
    unfolding used_block_def demo_volume_free using assms(1) by (auto simp: demo_volume_def)
  moreover have "wf_din empty_din"
    by (simp add: wf_din_def empty_din_def SFS_NDIRECT_def)
  moreover have "inode_list ?s = [9]" "si_din (sins ?s 9) = empty_din" "si_ino (sins ?s 9) = 3" "si_dirty (sins ?s 9)" "vop_op Vop_fsync 9 ?s = Some ()"
    by (simp_all add: demo_volume_def demo_fs_def vop_op_def inode_check_def sfs_node_fileops_def MAX_INODE_COUNT_def)
  ultimately show "cache_ok (inode_list ?s) ?s" "\<forall>sin \<in> set (inode_list ?s). si_ino (sins ?s sin) \<notin> meta_blocks ?s"
    by (simp_all add: cache_ok_def meta_blocks_def m SFS_BLKN_SUPER_def SFS_BLKN_FREEMAP_def)
qed

lemma bits_E0: "bit (0xE0 :: u32) n \<longleftrightarrow> n \<in> {5, 6, 7}"
proof -
  have "(0xE0 :: u32) = push_bit 5 (mask 3)"
    by (simp add: mask_eq_exp_minus_1)
  then show ?thesis
    by (simp only: bit_push_bit_iff bit_mask_iff) auto
qed

lemma set_F0: "{i. bit (0xF0 :: u32) i} = {4, 5, 6, 7}" and set_E0: "{i. bit (0xE0 :: u32) i} = {5, 6, 7}"
  by (auto simp only: bits_F0 bits_E0)

lemma demo_vol_ok:
  "volume_ok demo_vol" "cache_ok (inode_list demo_vol) demo_vol" "\<forall>sin \<in> set (inode_list demo_vol). si_ino (sins demo_vol sin) \<notin> meta_blocks demo_vol"
proof -
  have "dev_works demo_vol"
    by (simp add: dev_works_def dev_keeps_def demo_vol_def demo_volume_def ram_disk_def)
  then show "volume_ok demo_vol" "cache_ok (inode_list demo_vol) demo_vol" "\<forall>sin \<in> set (inode_list demo_vol). si_ino (sins demo_vol sin) \<notin> meta_blocks demo_vol"
    using demo_volume_ok [of "0xF0" 4 ram_disk "\<lambda>_. zero_block", unfolded set_F0] by (simp_all add: demo_vol_def)
qed

lemma disk0_demo_works: "dev_works (demo_volume (disk0_dev 1024) w u d)" "\<not> dev_keeps (demo_volume (disk0_dev 1024) w u d)"
proof -
  let ?s = "demo_volume (disk0_dev 1024) w u d"
  have "dev_drops ?s" "\<forall>b<8. \<forall>data d. d_io ?s False b data d = (Inr (d b), d)"
    by (simp_all add: dev_drops_def demo_volume_def disk0_dev_def)
  then show "dev_works ?s"
    by (simp add: dev_works_def) (simp add: demo_volume_def)
  have "d_io ?s True 0 [] (\<lambda>_. [0]) \<noteq> (Inr [], (\<lambda>_. [0])(0 := []))" "0 < sb_blocks (super ?s)"
    by (simp_all add: demo_volume_def disk0_dev_def fun_eq_iff)
  then show "\<not> dev_keeps ?s"
    unfolding dev_keeps_def by blast
qed

lemma disk0_old_ok: "volume_ok disk0_old"
  using demo_volume_ok(1) [of "0xF0" 4 "disk0_dev 1024" "\<lambda>_. zero_block", unfolded set_F0] disk0_demo_works
  by (simp add: disk0_old_def)

lemma disk0_vol_ok:
  "volume_ok disk0_vol" "cache_ok (inode_list disk0_vol) disk0_vol" "\<forall>sin \<in> set (inode_list disk0_vol). si_ino (sins disk0_vol sin) \<notin> meta_blocks disk0_vol"
  "\<not> dev_keeps disk0_vol"
proof -
  have "length (freemap_data (freemap disk0_old)) = 4 * length (bits (freemap disk0_old))"
    unfolding freemap_data_def by simp
  then have "length (super_block (super disk0_old)) = SFS_BLKSIZE" "length (freemap_data (freemap disk0_old)) = SFS_BLKSIZE"
    by (simp_all add: super_block_def encode_super_def disk0_old_def demo_volume_def SFS_BLKSIZE_def)
  moreover have "meta_blocks disk0_old = {0, 2}"
    by (auto simp: meta_blocks_def disk0_old_def demo_volume_def sfs_freemap_blocks_def SFS_BLKBITS_def SFS_BLKSIZE_def SFS_BLKN_SUPER_def SFS_BLKN_FREEMAP_def)
  ultimately have "length (with_meta disk0_old (\<lambda>_. zero_block) b) = SFS_BLKSIZE" for b
    by (auto simp: with_meta_def SFS_BLKN_FREEMAP_def SFS_BLKN_SUPER_def)
  then show "volume_ok disk0_vol" "cache_ok (inode_list disk0_vol) disk0_vol" "\<forall>sin \<in> set (inode_list disk0_vol). si_ino (sins disk0_vol sin) \<notin> meta_blocks disk0_vol"
    using demo_volume_ok [of "0xE0" 3 "disk0_dev 1024" "with_meta disk0_old (\<lambda>_. zero_block)", unfolded set_E0] disk0_demo_works
    by (simp_all add: disk0_vol_def)
  show "\<not> dev_keeps disk0_vol"
    unfolding disk0_vol_def by (rule disk0_demo_works)
qed

section \<open>Main result\<close>

text \<open>
  C20. What syncing a volume and mounting it again gives, on a device that reports no error and either
  keeps what is written or, like \<open>disk0\<close>, ignores it. The inodes in memory are well-formed, on different
  blocks outside the metadata; on a device that keeps writes those not marked dirty agree with the disk,
  and the superblock and the free map are marked dirty unless the disk already holds them. Then \<open>sfs_sync\<close>
  succeeds, and every inode in memory and the metadata are marked clean and not changed otherwise.

  If the device keeps writes, the disk then holds every inode of the cache, and mounting it (with memory for
  every allocation) succeeds with the same superblock and free map and an empty inode cache. If the device
  ignores writes, the disk is what it was although \<open>sfs_sync\<close> has reported success: mounting gives back
  the superblock and the free map of the volume the disk has held all the time.
\<close>

theorem sync_mount_roundtrip:
  assumes "volume_ok s" "super_dirty s \<or> with_meta s (disk s) = disk s" "cache_ok (inode_list s) s"
    and "\<forall>sin \<in> set (inode_list s). si_ino (sins s sin) \<notin> meta_blocks s" "sb_blocks (super s) \<le> n"
  shows "\<exists>s' dev. sfs_sync s = Some (Inr (), s') \<and> \<not> super_dirty s' \<and>
    dev = \<lparr>d_blocks = n, d_blocksize = SFS_BLKSIZE, dev_io = d_io s, dev_disk = disk s'\<rparr> \<and>
    (\<forall>sin \<in> set (inode_list s). \<not> si_dirty (sins s' sin) \<and> si_din (sins s' sin) = si_din (sins s sin) \<and> si_ino (sins s' sin) = si_ino (sins s sin)) \<and>
    (dev_keeps s \<longrightarrow> (\<forall>sin \<in> set (inode_list s). synced s' sin) \<and>
       (\<exists>t. sfs_do_mount True True True True True ss ns mem dev = Some (Inr t, dev) \<and>
          super t = super s \<and> freemap t = freemap s \<and> disk t = disk s' \<and> \<not> super_dirty t \<and> inode_list t = [])) \<and>
    (\<not> dev_keeps s \<longrightarrow> disk s' = disk s \<and>
       (\<forall>old. volume_ok old \<and> d_io old = d_io s \<and> sb_blocks (super old) \<le> n \<and> with_meta old (disk s) = disk s \<longrightarrow>
          (\<exists>t. sfs_do_mount True True True True True ss ns mem dev = Some (Inr t, dev) \<and>
             super t = super old \<and> freemap t = freemap old \<and> disk t = disk s \<and> \<not> super_dirty t \<and> inode_list t = [])))"
proof -
  obtain s' where s': "sfs_sync s = Some (Inr (), s')" "\<not> super_dirty s'"
    "\<forall>sin \<in> set (inode_list s). \<not> si_dirty (sins s' sin) \<and> si_din (sins s' sin) = si_din (sins s sin) \<and> si_ino (sins s' sin) = si_ino (sins s sin)"
    "if dev_keeps s then (\<forall>sin \<in> set (inode_list s). synced s' sin) \<and> with_meta s (disk s') = disk s' else disk s' = disk s"
    using sfs_sync_ok [OF assms(1-4)] by blast
  show ?thesis
  proof (cases "dev_keeps s")
    case True
    with s' mount_synced [OF assms(1,5) refl, of "disk s'" ss ns mem] show ?thesis
      by auto
  next
    case False
    with s' mount_synced [of _ n "d_io s" "disk s'" ss ns mem] show ?thesis
      by auto
  qed
qed

theorem sync_mount_roundtrip_witness:
  "(\<exists>s' t dev. sfs_sync demo_vol = Some (Inr (), s') \<and> synced s' 9 \<and> dev_disk dev = disk s' \<and>
     sfs_do_mount True True True True True (sins demo_vol) (inodes demo_vol) [] dev = Some (Inr t, dev) \<and> freemap t = freemap demo_vol) \<and>
   (\<exists>s' t dev. sfs_sync disk0_vol = Some (Inr (), s') \<and> \<not> super_dirty s' \<and> dev_disk dev = disk s' \<and>
     sfs_do_mount True True True True True (sins demo_vol) (inodes demo_vol) [] dev = Some (Inr t, dev) \<and>
     freemap t = freemap demo_vol \<and> freemap t \<noteq> freemap disk0_vol)"
proof
  have l: "inode_list demo_vol = [9]" "super_dirty demo_vol" "sb_blocks (super demo_vol) \<le> 1024" "dev_keeps demo_vol"
    by (simp_all add: demo_vol_def demo_volume_def dev_keeps_def ram_disk_def)
  show "\<exists>s' t dev. sfs_sync demo_vol = Some (Inr (), s') \<and> synced s' 9 \<and> dev_disk dev = disk s' \<and>
     sfs_do_mount True True True True True (sins demo_vol) (inodes demo_vol) [] dev = Some (Inr t, dev) \<and> freemap t = freemap demo_vol"
    using sync_mount_roundtrip [OF demo_vol_ok(1) disjI1 [OF l(2)] demo_vol_ok(2,3) l(3), of "sins demo_vol" "inodes demo_vol" "[]"] l(1,4)
    by (force simp: l(1))
  have k: "super_dirty disk0_vol" "sb_blocks (super disk0_vol) \<le> 1024" "d_io disk0_old = d_io disk0_vol" "sb_blocks (super disk0_old) \<le> 1024"
    "with_meta disk0_old (disk disk0_vol) = disk disk0_vol" "freemap disk0_old = freemap demo_vol" "freemap disk0_old \<noteq> freemap disk0_vol"
    by (simp_all add: disk0_vol_def disk0_old_def demo_vol_def demo_volume_def) (auto simp: with_meta_def meta_blocks_def fun_eq_iff)
  show "\<exists>s' t dev. sfs_sync disk0_vol = Some (Inr (), s') \<and> \<not> super_dirty s' \<and> dev_disk dev = disk s' \<and>
     sfs_do_mount True True True True True (sins demo_vol) (inodes demo_vol) [] dev = Some (Inr t, dev) \<and>
     freemap t = freemap demo_vol \<and> freemap t \<noteq> freemap disk0_vol"
    using sync_mount_roundtrip [OF disk0_vol_ok(1) disjI1 [OF k(1)] disk0_vol_ok(2,3) k(2), of "sins demo_vol" "inodes demo_vol" "[]"]
      disk0_vol_ok(4) disk0_old_ok k by force
qed

end
