(* ===== verification/Vfs.thy ===== *)
theory Vfs
  imports SfsFs
begin

text \<open>
  The virtual file system: device inodes (\<^verbatim>\<open>kern/fs/devs/dev.c\<close>), the dispatch of the inode operations
  through their tables, the device list (\<^verbatim>\<open>vfsdev.c\<close>), the boot file system (\<^verbatim>\<open>vfs.c\<close>), path lookup
  (\<^verbatim>\<open>vfslookup.c\<close>, \<^verbatim>\<open>vfspath.c\<close>) and opening of files (\<^verbatim>\<open>vfsfile.c\<close>). There is one mounted file
  system, so a pointer to a \<open>struct fs\<close> is the flag that it is not null. The functions of a
  device are fields of its record, as in the source. A path is the list of its characters; a
  function that writes into the caller's path returns the new path.
\<close>

section \<open>Definitions: state\<close>

record device =
  dv_blocks :: nat
  dv_blocksize :: nat
  dv_open :: "u32 \<Rightarrow> kerror + unit"
  dv_close :: "kerror + unit"
  dv_io :: "bool \<Rightarrow> iobuf \<Rightarrow> mem \<Rightarrow> ((kerror + unit) \<times> iobuf \<times> mem) option"

record vfs_dev =
  devname :: "u8 list"
  devnode :: "addr option"
  vd_fs :: bool
  mountable :: bool

record vfs =
  fs :: sfs_fs
  devices :: "addr \<Rightarrow> device"
  vdev_list :: "vfs_dev list"
  bootfs_node :: "addr option"
  pwd :: "addr option"
  memory :: mem

text \<open>Operations of the file system on the larger state.\<close>

definition on_fs :: "(sfs_fs \<Rightarrow> ('r \<times> sfs_fs) option) \<Rightarrow> 'a vfs_scheme \<Rightarrow> ('r \<times> 'a vfs_scheme) option" where
  "on_fs f s = (case f (fs s) of None \<Rightarrow> None | Some (r, x) \<Rightarrow> Some (r, s\<lparr>fs := x\<rparr>))"

definition on_fs_mem ::
  "(iobuf \<Rightarrow> mem \<Rightarrow> sfs_fs \<Rightarrow> ('r \<times> iobuf \<times> mem \<times> sfs_fs) option) \<Rightarrow> iobuf \<Rightarrow> 'a vfs_scheme \<Rightarrow>
     (('r \<times> iobuf) \<times> 'a vfs_scheme) option" where
  "on_fs_mem f iob s =
     (case f iob (memory s) (fs s) of
        None \<Rightarrow> None
      | Some (r, iob, m, x) \<Rightarrow> Some ((r, iob), s\<lparr>fs := x, memory := m\<rparr>))"

abbreviation node_of :: "'a vfs_scheme \<Rightarrow> addr \<Rightarrow> inode" where
  "node_of s node \<equiv> inodes (fs s) node"

definition vop_ref_inc :: "addr \<Rightarrow> 'a vfs_scheme \<Rightarrow> 'a vfs_scheme" where
  "vop_ref_inc node s = s\<lparr>fs := snd (inode_ref_inc node (fs s))\<rparr>"

definition vop_ref_dec :: "addr \<Rightarrow> 'a vfs_scheme \<Rightarrow> 'a vfs_scheme option" where
  "vop_ref_dec node s = do { (_, s) \<leftarrow> on_fs (inode_ref_dec node) s; Some s }"

definition vop_open_inc :: "addr \<Rightarrow> 'a vfs_scheme \<Rightarrow> 'a vfs_scheme" where
  "vop_open_inc node s = s\<lparr>fs := snd (inode_open_inc node (fs s))\<rparr>"

section \<open>Definitions: device inodes\<close>

definition device_of :: "addr \<Rightarrow> 'a vfs_scheme \<Rightarrow> device option" where
  "device_of node s = do { kassert (in_type (node_of s node) = Inode_type_device_info); Some (devices s node) }"

text \<open>The product of two \<open>size_t\<close> wraps.\<close>

definition dev_size :: "device \<Rightarrow> nat" where
  "dev_size dev = (dv_blocks dev * dv_blocksize dev) mod 2 ^ 32"

definition dev_open :: "addr \<Rightarrow> u32 \<Rightarrow> 'a vfs_scheme \<Rightarrow> (kerror + unit) option" where
  "dev_open node open_flags s =
     (if open_flags AND (O_CREAT OR O_TRUNC OR O_EXCL OR O_APPEND) \<noteq> 0 then Some (Inl E_INVAL)
      else do { dev \<leftarrow> device_of node s; Some (dv_open dev open_flags) })"

definition dev_close :: "addr \<Rightarrow> 'a vfs_scheme \<Rightarrow> (kerror + unit) option" where
  "dev_close node s = do { dev \<leftarrow> device_of node s; Some (dv_close dev) }"

definition dev_io_op :: "bool \<Rightarrow> addr \<Rightarrow> iobuf \<Rightarrow> 'a vfs_scheme \<Rightarrow> (((kerror + unit) \<times> iobuf) \<times> 'a vfs_scheme) option" where
  "dev_io_op wr node iob s =
     do { dev \<leftarrow> device_of node s;
          (r, iob, m) \<leftarrow> dv_io dev wr iob (memory s);
          Some ((r, iob), s\<lparr>memory := m\<rparr>) }"

definition dev_read :: "addr \<Rightarrow> iobuf \<Rightarrow> 'a vfs_scheme \<Rightarrow> (((kerror + unit) \<times> iobuf) \<times> 'a vfs_scheme) option" where
  "dev_read = dev_io_op False"

definition dev_write :: "addr \<Rightarrow> iobuf \<Rightarrow> 'a vfs_scheme \<Rightarrow> (((kerror + unit) \<times> iobuf) \<times> 'a vfs_scheme) option" where
  "dev_write = dev_io_op True"

definition dev_gettype :: "addr \<Rightarrow> 'a vfs_scheme \<Rightarrow> u32 option" where
  "dev_gettype node s = do { dev \<leftarrow> device_of node s; Some (if dv_blocks dev > 0 then S_IFBLK else S_IFCHR) }"

definition dev_fstat :: "addr \<Rightarrow> 'a vfs_scheme \<Rightarrow> stat option" where
  "dev_fstat node s =
     do { vop_op Vop_gettype node (fs s);
          ty \<leftarrow> dev_gettype node s;
          dev \<leftarrow> device_of node s;
          Some \<lparr>st_mode = ty, st_nlinks = 1, st_blocks = dv_blocks dev, st_size = dev_size dev\<rparr> }"

definition dev_tryseek :: "addr \<Rightarrow> int \<Rightarrow> 'a vfs_scheme \<Rightarrow> (kerror + unit) option" where
  "dev_tryseek node pos s =
     do { dev \<leftarrow> device_of node s;
          if dv_blocks dev > 0 then
            do { kassert (dv_blocksize dev = 4096);
                 Some (if pos mod 4096 = 0 \<and> pos \<ge> 0 \<and> pos < int (dev_size dev) then Inr () else Inl E_INVAL) }
          else Some (Inl E_INVAL) }"

definition dev_lookup :: "addr \<Rightarrow> u8 list \<Rightarrow> 'a vfs_scheme \<Rightarrow> (kerror + addr) \<times> 'a vfs_scheme" where
  "dev_lookup node path s = (if path \<noteq> [] then (Inl E_NOENT, s) else (Inr node, vop_ref_inc node s))"

definition dev_create_inode :: "'a vfs_scheme \<Rightarrow> addr option \<times> 'a vfs_scheme" where
  "dev_create_inode s =
     (case alloc_inode Inode_type_device_info (fs s) of
        (None, x) \<Rightarrow> (None, s\<lparr>fs := x\<rparr>)
      | (Some node, x) \<Rightarrow> (Some node, s\<lparr>fs := inode_init node Dev_node_ops False x\<rparr>))"

section \<open>Definitions: dispatch\<close>

definition vop_open :: "addr \<Rightarrow> u32 \<Rightarrow> 'a vfs_scheme \<Rightarrow> (kerror + unit) option" where
  "vop_open node open_flags s =
     do { vop_op Vop_open node (fs s);
          case in_ops (node_of s node) of
            Sfs_node_dirops \<Rightarrow> Some (sfs_opendir open_flags)
          | Sfs_node_fileops \<Rightarrow> Some (sfs_openfile open_flags)
          | Dev_node_ops \<Rightarrow> dev_open node open_flags s }"

definition vop_close :: "addr \<Rightarrow> 'a vfs_scheme \<Rightarrow> ((kerror + unit) \<times> 'a vfs_scheme) option" where
  "vop_close node s =
     do { vop_op Vop_close node (fs s);
          case in_ops (node_of s node) of
            Dev_node_ops \<Rightarrow> do { r \<leftarrow> dev_close node s; Some (r, s) }
          | _ \<Rightarrow> on_fs (sfs_close node) s }"

definition vop_read :: "addr \<Rightarrow> iobuf \<Rightarrow> 'a vfs_scheme \<Rightarrow> (((kerror + unit) \<times> iobuf) \<times> 'a vfs_scheme) option" where
  "vop_read node iob s =
     do { vop_op Vop_read node (fs s);
          case in_ops (node_of s node) of
            Dev_node_ops \<Rightarrow> dev_read node iob s
          | _ \<Rightarrow> on_fs_mem (sfs_read node) iob s }"

definition vop_write :: "addr \<Rightarrow> iobuf \<Rightarrow> 'a vfs_scheme \<Rightarrow> (((kerror + unit) \<times> iobuf) \<times> 'a vfs_scheme) option" where
  "vop_write node iob s =
     do { vop_op Vop_write node (fs s);
          case in_ops (node_of s node) of
            Dev_node_ops \<Rightarrow> dev_write node iob s
          | _ \<Rightarrow> on_fs_mem (sfs_write node) iob s }"

definition vop_gettype :: "addr \<Rightarrow> 'a vfs_scheme \<Rightarrow> u32 option" where
  "vop_gettype node s =
     do { vop_op Vop_gettype node (fs s);
          case in_ops (node_of s node) of
            Dev_node_ops \<Rightarrow> dev_gettype node s
          | _ \<Rightarrow> sfs_gettype node (fs s) }"

definition vop_fstat :: "addr \<Rightarrow> 'a vfs_scheme \<Rightarrow> stat option" where
  "vop_fstat node s =
     do { vop_op Vop_fstat node (fs s);
          case in_ops (node_of s node) of
            Dev_node_ops \<Rightarrow> dev_fstat node s
          | _ \<Rightarrow> sfs_fstat node (fs s) }"

definition vop_tryseek :: "addr \<Rightarrow> int \<Rightarrow> 'a vfs_scheme \<Rightarrow> ((kerror + unit) \<times> 'a vfs_scheme) option" where
  "vop_tryseek node pos s =
     do { vop_op Vop_tryseek node (fs s);
          case in_ops (node_of s node) of
            Dev_node_ops \<Rightarrow> do { r \<leftarrow> dev_tryseek node pos s; Some (r, s) }
          | _ \<Rightarrow> on_fs (sfs_tryseek node pos) s }"

definition vop_lookup :: "addr \<Rightarrow> u8 list \<Rightarrow> 'a vfs_scheme \<Rightarrow> ((kerror + addr) \<times> 'a vfs_scheme) option" where
  "vop_lookup node path s =
     do { vop_op Vop_lookup node (fs s);
          case in_ops (node_of s node) of
            Dev_node_ops \<Rightarrow> Some (dev_lookup node path s)
          | _ \<Rightarrow> on_fs (sfs_lookup node path) s }"

definition vop_namefile :: "addr \<Rightarrow> iobuf \<Rightarrow> 'a vfs_scheme \<Rightarrow> (((kerror + unit) \<times> iobuf) \<times> 'a vfs_scheme) option" where
  "vop_namefile node iob s = do { vop_op Vop_namefile node (fs s); on_fs_mem (sfs_namefile node) iob s }"

definition vop_getdirentry :: "addr \<Rightarrow> iobuf \<Rightarrow> 'a vfs_scheme \<Rightarrow> (((kerror + unit) \<times> iobuf) \<times> 'a vfs_scheme) option" where
  "vop_getdirentry node iob s = do { vop_op Vop_getdirentry node (fs s); on_fs_mem (sfs_getdirentry node) iob s }"

text \<open>No table has an entry for \<open>vop_create\<close>, so its call never gets past the check.\<close>

definition vop_create :: "addr \<Rightarrow> u8 list \<Rightarrow> bool \<Rightarrow> 'a vfs_scheme \<Rightarrow> ((kerror + addr) \<times> 'a vfs_scheme) option" where
  "vop_create node name excl s = do { vop_op Vop_create node (fs s); None }"

definition inode_open_dec :: "addr \<Rightarrow> 'a vfs_scheme \<Rightarrow> (int \<times> 'a vfs_scheme) option" where
  "inode_open_dec node s =
     do { kassert (open_count (node_of s node) > 0);
          let s = s\<lparr>fs := upd_inode node (\<lambda>n. n\<lparr>open_count := open_count n - 1\<rparr>) (fs s)\<rparr>;
          let r = open_count (node_of s node);
          if r = 0 then do { (_, s) \<leftarrow> vop_close node s; Some (r, s) } else Some (r, s) }"


section \<open>Definitions: the device list\<close>

definition FS_MAX_DNAME_LEN :: nat where "FS_MAX_DNAME_LEN = 31"

definition vfs_get_root :: "u8 list \<Rightarrow> 'a vfs_scheme \<Rightarrow> ((kerror + addr) \<times> 'a vfs_scheme) option" where
  "vfs_get_root name s =
     (case find (\<lambda>vdev. name = devname vdev) (vdev_list s) of
        None \<Rightarrow> Some (Inl E_NO_DEV, s)
      | Some vdev \<Rightarrow>
          if vd_fs vdev then do { (root, s) \<leftarrow> on_fs sfs_get_root s; Some (Inr root, s) }
          else if \<not> mountable vdev then do { node \<leftarrow> devnode vdev; Some (Inr node, vop_ref_inc node s) }
          else Some (Inl E_NA_DEV, s))"

text \<open>The result is the null pointer when no device has the file system.\<close>

definition vfs_get_devname :: "'a vfs_scheme \<Rightarrow> u8 list option" where
  "vfs_get_devname s = map_option devname (find vd_fs (vdev_list s))"

definition check_devname_conflict :: "u8 list \<Rightarrow> 'a vfs_scheme \<Rightarrow> bool" where
  "check_devname_conflict name s \<longleftrightarrow> (\<forall>vdev \<in> set (vdev_list s). devname vdev \<noteq> name)"

definition vfs_do_add ::
  "u8 list \<Rightarrow> addr option \<Rightarrow> bool \<Rightarrow> bool \<Rightarrow> 'a vfs_scheme \<Rightarrow> ((kerror + unit) \<times> 'a vfs_scheme) option" where
  "vfs_do_add name node fsp mnt s =
     do { kassert (case node of None \<Rightarrow> \<not> mnt | Some n \<Rightarrow> in_type (node_of s n) = Inode_type_device_info);
          if length name > FS_MAX_DNAME_LEN then Some (Inl E_TOO_BIG, s)
          else
            (case kmalloc_next (fs s) of
               (None, x) \<Rightarrow> Some (Inl E_NO_MEM, s\<lparr>fs := x\<rparr>)
             | (Some _, x) \<Rightarrow>
                 (case kmalloc_next x of
                    (None, x) \<Rightarrow> Some (Inl E_NO_MEM, s\<lparr>fs := x\<rparr>)
                  | (Some _, x) \<Rightarrow>
                      if \<not> check_devname_conflict name s then Some (Inl E_EXISTS, s\<lparr>fs := x\<rparr>)
                      else Some (Inr (), s\<lparr>fs := x, vdev_list :=
                        \<lparr>devname = name, devnode = node, vd_fs = fsp, mountable = mnt\<rparr> # vdev_list s\<rparr>))) }"

definition vfs_add_fs :: "u8 list \<Rightarrow> bool \<Rightarrow> 'a vfs_scheme \<Rightarrow> ((kerror + unit) \<times> 'a vfs_scheme) option" where
  "vfs_add_fs name fsp s = vfs_do_add name None fsp False s"

definition vfs_add_dev :: "u8 list \<Rightarrow> addr \<Rightarrow> bool \<Rightarrow> 'a vfs_scheme \<Rightarrow> ((kerror + unit) \<times> 'a vfs_scheme) option" where
  "vfs_add_dev name node mnt s = vfs_do_add name (Some node) False mnt s"

text \<open>The place of a mountable device in the list.\<close>

definition find_mount :: "u8 list \<Rightarrow> 'a vfs_scheme \<Rightarrow> kerror + nat" where
  "find_mount name s =
     (case find (\<lambda>i. mountable (vdev_list s ! i) \<and> devname (vdev_list s ! i) = name) [0..<length (vdev_list s)] of
        None \<Rightarrow> Inl E_NO_DEV
      | Some i \<Rightarrow> Inr i)"

definition set_vd_fs :: "nat \<Rightarrow> bool \<Rightarrow> 'a vfs_scheme \<Rightarrow> 'a vfs_scheme" where
  "set_vd_fs i b s = s\<lparr>vdev_list := (vdev_list s)[i := (vdev_list s ! i)\<lparr>vd_fs := b\<rparr>]\<rparr>"

text \<open>\<open>mountfunc\<close> sets up the file system on the device of a node and hands it back.\<close>

definition vfs_mount ::
  "u8 list \<Rightarrow> (device \<Rightarrow> 'a vfs_scheme \<Rightarrow> ((kerror + sfs_fs) \<times> 'a vfs_scheme) option) \<Rightarrow> 'a vfs_scheme \<Rightarrow>
     ((kerror + unit) \<times> 'a vfs_scheme) option" where
  "vfs_mount name mountfunc s =
     (case find_mount name s of
        Inl e \<Rightarrow> Some (Inl e, s)
      | Inr i \<Rightarrow>
          if vd_fs (vdev_list s ! i) then Some (Inl E_BUSY, s)
          else do { node \<leftarrow> devnode (vdev_list s ! i);
                    dev \<leftarrow> device_of node s;
                    and_then (mountfunc dev s) (\<lambda>x s. Some (Inr (), set_vd_fs i True (s\<lparr>fs := x\<rparr>))) })"

definition vfs_unmount :: "u8 list \<Rightarrow> 'a vfs_scheme \<Rightarrow> ((kerror + unit) \<times> 'a vfs_scheme) option" where
  "vfs_unmount name s =
     (case find_mount name s of
        Inl e \<Rightarrow> Some (Inl e, s)
      | Inr i \<Rightarrow>
          if \<not> vd_fs (vdev_list s ! i) then Some (Inl E_INVAL, s)
          else and_then (on_fs sfs_sync s) (\<lambda>_ s.
            do { r \<leftarrow> sfs_unmount (fs s);
                 Some (case r of Inl e \<Rightarrow> (Inl e, s) | Inr _ \<Rightarrow> (Inr (), set_vd_fs i False s)) }))"

fun unmount_loop :: "nat list \<Rightarrow> 'a vfs_scheme \<Rightarrow> 'a vfs_scheme option" where
  "unmount_loop [] s = Some s"
| "unmount_loop (i # is) s =
     (if mountable (vdev_list s ! i) \<and> vd_fs (vdev_list s ! i) then
        do { (r, s) \<leftarrow> on_fs sfs_sync s;
             case r of
               Inl _ \<Rightarrow> unmount_loop is s
             | Inr _ \<Rightarrow>
                 do { u \<leftarrow> sfs_unmount (fs s);
                      case u of Inl _ \<Rightarrow> unmount_loop is s | Inr _ \<Rightarrow> unmount_loop is (set_vd_fs i False s) } }
      else unmount_loop is s)"

definition vfs_unmount_all :: "'a vfs_scheme \<Rightarrow> 'a vfs_scheme option" where
  "vfs_unmount_all s = unmount_loop [0..<length (vdev_list s)] s"

fun vfs_cleanup_loop :: "vfs_dev list \<Rightarrow> 'a vfs_scheme \<Rightarrow> 'a vfs_scheme option" where
  "vfs_cleanup_loop [] s = Some s"
| "vfs_cleanup_loop (vdev # rest) s =
     (if vd_fs vdev then do { x \<leftarrow> sfs_cleanup (fs s); vfs_cleanup_loop rest (s\<lparr>fs := x\<rparr>) }
      else vfs_cleanup_loop rest s)"

definition vfs_cleanup :: "'a vfs_scheme \<Rightarrow> 'a vfs_scheme option" where
  "vfs_cleanup s = vfs_cleanup_loop (vdev_list s) s"

section \<open>Definitions: working directory and boot file system\<close>

definition vfs_get_curdir :: "'a vfs_scheme \<Rightarrow> (kerror + addr) \<times> 'a vfs_scheme" where
  "vfs_get_curdir s =
     (case pwd s of None \<Rightarrow> (Inl E_NOENT, s) | Some node \<Rightarrow> (Inr node, vop_ref_inc node s))"

definition vfs_get_bootfs :: "'a vfs_scheme \<Rightarrow> (kerror + addr) \<times> 'a vfs_scheme" where
  "vfs_get_bootfs s =
     (case bootfs_node s of None \<Rightarrow> (Inl E_NOENT, s) | Some node \<Rightarrow> (Inr node, vop_ref_inc node s))"

definition vfs_set_curdir :: "addr option \<Rightarrow> 'a vfs_scheme \<Rightarrow> ((kerror + unit) \<times> 'a vfs_scheme) option" where
  "vfs_set_curdir dir s =
     (let old_dir = pwd s
      in if old_dir = dir then Some (Inr (), s)
         else
           and_then
             (case dir of
                None \<Rightarrow> Some (Inr (), s)
              | Some node \<Rightarrow>
                  do { type \<leftarrow> vop_gettype node s;
                       Some (if type AND S_IFMT \<noteq> S_IFDIR then (Inl E_NOTDIR, s) else (Inr (), vop_ref_inc node s)) })
             (\<lambda>_ s. let s = s\<lparr>pwd := dir\<rparr>
                    in case old_dir of None \<Rightarrow> Some (Inr (), s) | Some old \<Rightarrow> do { s \<leftarrow> vop_ref_dec old s; Some (Inr (), s) }))"

section \<open>Definitions: path lookup\<close>

abbreviation slash :: u8 where "slash \<equiv> ch CHR ''/''"

abbreviation colon :: u8 where "colon \<equiv> ch CHR '':''"

text \<open>The position of the first colon or slash; the second component tells whether it is a colon.\<close>

definition scan_path :: "u8 list \<Rightarrow> (nat \<times> bool) option" where
  "scan_path path =
     (let i = length (takeWhile (\<lambda>c. c \<noteq> colon \<and> c \<noteq> slash) path)
      in if i < length path then Some (i, path ! i = colon) else None)"

definition skip_slashes :: "u8 list \<Rightarrow> u8 list" where
  "skip_slashes path = dropWhile (\<lambda>c. c = slash) path"

text \<open>The result is the path as the call leaves it, the rest of the path and the inode to start from.\<close>

definition get_device ::
  "u8 list \<Rightarrow> 'a vfs_scheme \<Rightarrow> ((kerror + u8 list \<times> u8 list \<times> addr) \<times> 'a vfs_scheme) option" where
  "get_device path s =
     (case scan_path path of
        Some (i, is_colon) \<Rightarrow>
          if is_colon \<and> i > 0 then
            and_then (vfs_get_root (take i path) s) (\<lambda>node s.
              Some (Inr (take i path, skip_slashes (drop (i + 1) path), node), s))
          else if i = 0 then
            if \<not> is_colon then
              and_then (Some (vfs_get_bootfs s)) (\<lambda>node s. Some (Inr (path, skip_slashes (tl path), node), s))
            else
              and_then (Some (vfs_get_curdir s)) (\<lambda>node s.
                do { kassert (in_fs (node_of s node));
                     (root, s) \<leftarrow> on_fs sfs_get_root s;
                     s \<leftarrow> vop_ref_dec node s;
                     Some (Inr (path, skip_slashes (tl path), root), s) })
          else and_then (Some (vfs_get_curdir s)) (\<lambda>node s. Some (Inr (path, path, node), s))
      | None \<Rightarrow> and_then (Some (vfs_get_curdir s)) (\<lambda>node s. Some (Inr (path, path, node), s)))"

text \<open>After a failed \<open>get_device\<close> the path is as this function says.\<close>

definition path_after :: "u8 list \<Rightarrow> u8 list" where
  "path_after path = (case scan_path path of Some (i, True) \<Rightarrow> if i > 0 then take i path else path | _ \<Rightarrow> path)"

definition vfs_lookup :: "u8 list \<Rightarrow> 'a vfs_scheme \<Rightarrow> ((kerror + addr) \<times> 'a vfs_scheme) option" where
  "vfs_lookup path s =
     and_then (get_device path s) (\<lambda>(_, sub, node) s.
       if sub \<noteq> [] then
         do { (r, s) \<leftarrow> vop_lookup node sub s;
              s \<leftarrow> vop_ref_dec node s;
              Some (r, s) }
       else Some (Inr node, s))"

definition vfs_lookup_parent :: "u8 list \<Rightarrow> 'a vfs_scheme \<Rightarrow> ((kerror + addr \<times> u8 list) \<times> 'a vfs_scheme) option" where
  "vfs_lookup_parent path s = and_then (get_device path s) (\<lambda>(_, sub, node) s. Some (Inr (node, sub), s))"

definition vfs_chdir :: "u8 list \<Rightarrow> 'a vfs_scheme \<Rightarrow> ((kerror + unit) \<times> 'a vfs_scheme) option" where
  "vfs_chdir path s =
     and_then (vfs_lookup path s) (\<lambda>node s.
       do { (r, s) \<leftarrow> vfs_set_curdir (Some node) s;
            s \<leftarrow> vop_ref_dec node s;
            Some (r, s) })"

definition change_bootfs :: "addr option \<Rightarrow> 'a vfs_scheme \<Rightarrow> 'a vfs_scheme option" where
  "change_bootfs node s =
     (let old = bootfs_node s; s = s\<lparr>bootfs_node := node\<rparr>
      in case old of None \<Rightarrow> Some s | Some n \<Rightarrow> vop_ref_dec n s)"

definition vfs_set_bootfs :: "u8 list option \<Rightarrow> 'a vfs_scheme \<Rightarrow> ((kerror + unit) \<times> 'a vfs_scheme) option" where
  "vfs_set_bootfs fsname s =
     and_then
       (case fsname of
          None \<Rightarrow> Some (Inr None, s)
        | Some name \<Rightarrow>
            let i = length (takeWhile (\<lambda>c. c \<noteq> colon) name)
            in if i + 1 \<noteq> length name then Some (Inl E_INVAL, s)
               else and_then (vfs_chdir name s) (\<lambda>_ s.
                 and_then (Some (vfs_get_curdir s)) (\<lambda>node s. Some (Inr (Some node), s))))
       (\<lambda>node s. do { s \<leftarrow> change_bootfs node s; Some (Inr (), s) })"

text \<open>Bytes of the kernel that are copied into the caller's buffer.\<close>

definition iobuf_put :: "u8 list \<Rightarrow> iobuf \<Rightarrow> 'a vfs_scheme \<Rightarrow> (((kerror + unit) \<times> iobuf) \<times> 'a vfs_scheme) option" where
  "iobuf_put data iob s =
     (let alen = min (io_resid iob) (length data);
          ret = (if length data - alen = 0 then Inr () else Inl E_NO_MEM)
      in do { iob' \<leftarrow> (if alen > 0 then iobuf_skip alen iob else Some iob);
              Some ((ret, iob'), s\<lparr>memory := store_bytes (memory s) (io_base iob) (take alen data)\<rparr>) })"

definition vfs_getcwd :: "iobuf \<Rightarrow> 'a vfs_scheme \<Rightarrow> (((kerror + unit) \<times> iobuf) \<times> 'a vfs_scheme) option" where
  "vfs_getcwd iob s =
     (case vfs_get_curdir s of
        (Inl e, s) \<Rightarrow> Some ((Inl e, iob), s)
      | (Inr node, s) \<Rightarrow>
          do { kassert (in_fs (node_of s node));
               name \<leftarrow> vfs_get_devname s;
               ((r, iob), s) \<leftarrow> iobuf_put name iob s;
               ((r, iob), s) \<leftarrow> (case r of
                   Inl e \<Rightarrow> Some ((Inl e, iob), s)
                 | Inr _ \<Rightarrow>
                     do { ((r, iob), s) \<leftarrow> iobuf_put [colon] iob s;
                          case r of Inl e \<Rightarrow> Some ((Inl e, iob), s) | Inr _ \<Rightarrow> vop_namefile node iob s });
               s \<leftarrow> vop_ref_dec node s;
               Some ((r, iob), s) })"

section \<open>Definitions: opening files\<close>

definition vfs_close :: "addr \<Rightarrow> 'a vfs_scheme \<Rightarrow> 'a vfs_scheme option" where
  "vfs_close node s = do { (_, s) \<leftarrow> inode_open_dec node s; vop_ref_dec node s }"

text \<open>
  After the lookup: the inode of an existing file, or of the file \<open>vop_create\<close> makes. The second
  lookup starts from the path as the first one left it.
\<close>

definition open_node :: "u8 list \<Rightarrow> bool \<Rightarrow> bool \<Rightarrow> 'a vfs_scheme \<Rightarrow> ((kerror + addr) \<times> 'a vfs_scheme) option" where
  "open_node path excl create s =
     (case vfs_lookup path s of
        None \<Rightarrow> None
      | Some (Inl e, s) \<Rightarrow>
          if e = E_NOENT \<and> create then
            and_then (vfs_lookup_parent (path_after path) s) (\<lambda>(dir, name) s.
              do { (r, s) \<leftarrow> vop_create dir name excl s;
                   case r of Inl _ \<Rightarrow> None | Inr node \<Rightarrow> Some (Inr node, s) })
          else Some (Inl e, s)
      | Some (Inr node, s) \<Rightarrow> if excl \<and> create then Some (Inl E_EXISTS, s) else Some (Inr node, s))"

text \<open>The second half of \<open>vfs_open\<close>: the inode is opened and, when asked for, truncated.\<close>

definition open_truncate :: "addr \<Rightarrow> 'a vfs_scheme \<Rightarrow> ((kerror + addr) \<times> 'a vfs_scheme) option" where
  "open_truncate node s =
     (case on_fs (vop_truncate node 0) s of
        None \<Rightarrow> None
      | Some (Inl e, s) \<Rightarrow> do { (_, s) \<leftarrow> inode_open_dec node s; s \<leftarrow> vop_ref_dec node s; Some (Inl e, s) }
      | Some (Inr _, s) \<Rightarrow> Some (Inr node, s))"

definition open_found :: "u32 \<Rightarrow> bool \<Rightarrow> addr \<Rightarrow> 'a vfs_scheme \<Rightarrow> ((kerror + addr) \<times> 'a vfs_scheme) option" where
  "open_found open_flags trunc node s =
     (case vop_open node open_flags s of
        None \<Rightarrow> None
      | Some (Inl e) \<Rightarrow> do { s \<leftarrow> vop_ref_dec node s; Some (Inl e, s) }
      | Some (Inr _) \<Rightarrow>
          if trunc then open_truncate node (vop_open_inc node s) else Some (Inr node, vop_open_inc node s))"

definition vfs_open :: "u8 list \<Rightarrow> u32 \<Rightarrow> 'a vfs_scheme \<Rightarrow> ((kerror + addr) \<times> 'a vfs_scheme) option" where
  "vfs_open path open_flags s =
     (let acc = open_flags AND O_ACCMODE; can_write = (acc = O_WRONLY \<or> acc = O_RDWR);
          excl = (open_flags AND O_EXCL \<noteq> 0); create = (open_flags AND O_CREAT \<noteq> 0);
          trunc = (open_flags AND O_TRUNC \<noteq> 0)
      in if acc \<noteq> O_RDONLY \<and> \<not> can_write then Some (Inl E_INVAL, s)
         else if trunc \<and> \<not> can_write then Some (Inl E_INVAL, s)
         else and_then (open_node path excl create s) (open_found open_flags (trunc \<or> create)))"

text \<open>The operations that are not implemented.\<close>

definition vfs_unimplemented :: "kerror + unit" where "vfs_unimplemented = Inl E_UNIMP"

section \<open>Creating files\<close>

lemma vop_create_None [simp]: "vop_create d n e s = None"
  by (auto simp: vop_create_def bind_eq_None_conv)

text \<open>A missing file whose directory exists cannot be created: the kernel panics.\<close>

lemma vfs_open_create_panics:
  assumes "vfs_lookup path s = Some (Inl E_NOENT, s1)" "vfs_lookup_parent (path_after path) s1 = Some (Inr dir, s2)"
    and "flags AND O_ACCMODE \<in> {O_WRONLY, O_RDWR}" "flags AND O_CREAT \<noteq> 0"
  shows "vfs_open path flags s = None"
  using assms by (cases dir) (auto simp: vfs_open_def open_node_def Let_def)

end
