(* ===== verification/File.thy ===== *)
theory File
  imports Vfs
begin

text \<open>
  Open files of a process (\<^verbatim>\<open>kern/fs/file.c\<close>, \<^verbatim>\<open>kern/fs/fs.c\<close>): the table of file descriptors and
  the operations on them. The state of the virtual file system is extended by the table of the
  current process. An operation on a table entry works on the table and the file systems.
\<close>

section \<open>Definitions: the table\<close>

datatype fd_status = FD_NONE | FD_INIT | FD_OPENED | FD_CLOSED

record file_t =
  status :: fd_status
  f_readable :: bool
  f_writable :: bool
  f_fd :: int
  f_pos :: int
  f_node :: "addr option"
  f_open_count :: int

record fstate = vfs +
  fd_array :: "file_t list"
  files_count :: int

text \<open>Entries in the page that holds the table: the page less 24 bytes, 28 bytes each.\<close>

definition FILES_STRUCT_NENTRY :: nat where "FILES_STRUCT_NENTRY = (4096 - 24) div 28"

definition NO_FD :: int where "NO_FD = - 0x9527"

definition testfd :: "int \<Rightarrow> bool" where
  "testfd fd \<longleftrightarrow> fd \<ge> 0 \<and> fd < int FILES_STRUCT_NENTRY"

definition upd_fd :: "nat \<Rightarrow> (file_t \<Rightarrow> file_t) \<Rightarrow> file_t list \<Rightarrow> file_t list" where
  "upd_fd i f fds = fds[i := f (fds ! i)]"

definition fd_array_init :: "file_t list \<Rightarrow> file_t list" where
  "fd_array_init fds = map (\<lambda>(i, x). x\<lparr>f_open_count := 0, status := FD_NONE, f_fd := int i\<rparr>) (enumerate 0 fds)"

definition fd_array_alloc :: "int \<Rightarrow> file_t list \<Rightarrow> ((kerror + nat) \<times> file_t list) option" where
  "fd_array_alloc fd fds =
     and_then
       (if fd = NO_FD then
          (case find (\<lambda>i. status (fds ! i) = FD_NONE) [0..<FILES_STRUCT_NENTRY] of
             None \<Rightarrow> Some (Inl E_MAX_OPEN, fds)
           | Some i \<Rightarrow> Some (Inr i, fds))
        else if testfd fd then
          if status (fds ! nat fd) = FD_NONE then Some (Inr (nat fd), fds) else Some (Inl E_BUSY, fds)
        else Some (Inl E_INVAL, fds))
       (\<lambda>i fds. do { kassert (f_open_count (fds ! i) = 0);
                     Some (Inr i, upd_fd i (\<lambda>x. x\<lparr>status := FD_INIT, f_node := None\<rparr>) fds) })"

definition fd_array_free :: "nat \<Rightarrow> file_t list \<times> 'a vfs_scheme \<Rightarrow> (file_t list \<times> 'a vfs_scheme) option" where
  "fd_array_free i = (\<lambda>(fds, s).
     do { kassert (status (fds ! i) = FD_INIT \<or> status (fds ! i) = FD_CLOSED);
          kassert (f_open_count (fds ! i) = 0);
          s \<leftarrow> (if status (fds ! i) = FD_CLOSED then do { node \<leftarrow> f_node (fds ! i); vfs_close node s } else Some s);
          Some (upd_fd i (\<lambda>x. x\<lparr>status := FD_NONE\<rparr>) fds, s) })"

definition fd_array_acquire :: "nat \<Rightarrow> file_t list \<Rightarrow> file_t list option" where
  "fd_array_acquire i fds =
     do { kassert (status (fds ! i) = FD_OPENED);
          Some (upd_fd i (\<lambda>x. x\<lparr>f_open_count := f_open_count x + 1\<rparr>) fds) }"

definition fd_array_release :: "nat \<Rightarrow> file_t list \<times> 'a vfs_scheme \<Rightarrow> (file_t list \<times> 'a vfs_scheme) option" where
  "fd_array_release i = (\<lambda>(fds, s).
     do { kassert (status (fds ! i) = FD_OPENED \<or> status (fds ! i) = FD_CLOSED);
          kassert (f_open_count (fds ! i) > 0);
          let fds = upd_fd i (\<lambda>x. x\<lparr>f_open_count := f_open_count x - 1\<rparr>) fds;
          if f_open_count (fds ! i) = 0 then fd_array_free i (fds, s) else Some (fds, s) })"

definition fd_array_open :: "nat \<Rightarrow> file_t list \<Rightarrow> file_t list option" where
  "fd_array_open i fds =
     do { kassert (status (fds ! i) = FD_INIT \<and> f_node (fds ! i) \<noteq> None);
          Some (upd_fd i (\<lambda>x. x\<lparr>status := FD_OPENED, f_open_count := f_open_count x + 1\<rparr>) fds) }"

definition fd_array_close :: "nat \<Rightarrow> file_t list \<times> 'a vfs_scheme \<Rightarrow> (file_t list \<times> 'a vfs_scheme) option" where
  "fd_array_close i = (\<lambda>(fds, s).
     do { kassert (status (fds ! i) = FD_OPENED);
          kassert (f_open_count (fds ! i) > 0);
          let fds = upd_fd i (\<lambda>x. x\<lparr>status := FD_CLOSED, f_open_count := f_open_count x - 1\<rparr>) fds;
          if f_open_count (fds ! i) = 0 then fd_array_free i (fds, s) else Some (fds, s) })"

text \<open>Copying the open file \<open>from\<close> (of this or another table) to the entry \<open>i\<close>.\<close>

definition fd_array_dup :: "nat \<Rightarrow> file_t \<Rightarrow> file_t list \<times> 'a vfs_scheme \<Rightarrow> (file_t list \<times> 'a vfs_scheme) option" where
  "fd_array_dup i from_file = (\<lambda>(fds, s).
     do { kassert (status (fds ! i) = FD_INIT \<and> status from_file = FD_OPENED);
          node \<leftarrow> f_node from_file;
          let s = vop_open_inc node (vop_ref_inc node s);
          fds \<leftarrow> fd_array_open i (upd_fd i (\<lambda>x. x\<lparr>f_pos := f_pos from_file, f_readable := f_readable from_file,
                   f_writable := f_writable from_file, f_node := Some node\<rparr>) fds);
          Some (fds, s) })"

section \<open>Definitions: operations on the current process's files\<close>

definition get_fd_array :: "fstate \<Rightarrow> file_t list option" where
  "get_fd_array s = do { kassert (files_count s > 0); Some (fd_array s) }"

definition fd2file :: "int \<Rightarrow> fstate \<Rightarrow> (kerror + nat) option" where
  "fd2file fd s =
     (if testfd fd then
        do { fds \<leftarrow> get_fd_array s;
             Some (if status (fds ! nat fd) = FD_OPENED \<and> f_fd (fds ! nat fd) = fd then Inr (nat fd) else Inl E_INVAL) }
      else Some (Inl E_INVAL))"

definition on_fds :: "(file_t list \<times> fstate \<Rightarrow> (file_t list \<times> fstate) option) \<Rightarrow> fstate \<Rightarrow> fstate option" where
  "on_fds f s = do { (fds, s) \<leftarrow> f (fd_array s, s); Some (s\<lparr>fd_array := fds\<rparr>) }"

definition file_testfd :: "int \<Rightarrow> bool \<Rightarrow> bool \<Rightarrow> fstate \<Rightarrow> bool option" where
  "file_testfd fd rd wr s =
     do { r \<leftarrow> fd2file fd s;
          Some (case r of
                  Inl _ \<Rightarrow> False
                | Inr i \<Rightarrow> \<not> (rd \<and> \<not> f_readable (fd_array s ! i)) \<and> \<not> (wr \<and> \<not> f_writable (fd_array s ! i))) }"

definition file_open :: "u8 list \<Rightarrow> u32 \<Rightarrow> fstate \<Rightarrow> ((kerror + int) \<times> fstate) option" where
  "file_open path open_flags s =
     (let acc = open_flags AND O_ACCMODE; rd = (acc = O_RDONLY \<or> acc = O_RDWR); wr = (acc = O_WRONLY \<or> acc = O_RDWR)
      in if \<not> rd \<and> \<not> wr then Some (Inl E_INVAL, s)
         else
           do { fds \<leftarrow> get_fd_array s;
                (r, fds) \<leftarrow> fd_array_alloc NO_FD fds;
                case r of
                  Inl e \<Rightarrow> Some (Inl e, s)
                | Inr i \<Rightarrow>
                    do { (r, s) \<leftarrow> vfs_open path open_flags (s\<lparr>fd_array := fds\<rparr>);
                         case r of
                           Inl e \<Rightarrow> do { s \<leftarrow> on_fds (fd_array_free i) s; Some (Inl e, s) }
                         | Inr node \<Rightarrow>
                             do { pos \<leftarrow> (if open_flags AND O_APPEND \<noteq> 0
                                           then do { st \<leftarrow> vop_fstat node s; Some (off_t (int (st_size st))) } else Some 0);
                                  fds \<leftarrow> fd_array_open i (upd_fd i (\<lambda>x. x\<lparr>f_pos := pos, f_node := Some node,
                                           f_readable := rd, f_writable := wr\<rparr>) (fd_array s));
                                  Some (Inr (f_fd (fds ! i)), s\<lparr>fd_array := fds\<rparr>) } } })"

definition file_close :: "int \<Rightarrow> fstate \<Rightarrow> ((kerror + unit) \<times> fstate) option" where
  "file_close fd s =
     do { r \<leftarrow> fd2file fd s;
          case r of
            Inl e \<Rightarrow> Some (Inl e, s)
          | Inr i \<Rightarrow> do { s \<leftarrow> on_fds (fd_array_close i) s; Some (Inr (), s) } }"

text \<open>
  What the operations on an open file have in common: the entry is looked up and held while the
  file is used.
\<close>

definition with_file :: "int \<Rightarrow> (nat \<Rightarrow> fstate \<Rightarrow> ((kerror + 'r) \<times> fstate) option) \<Rightarrow> fstate \<Rightarrow> ((kerror + 'r) \<times> fstate) option" where
  "with_file fd body s =
     do { r \<leftarrow> fd2file fd s;
          case r of
            Inl e \<Rightarrow> Some (Inl e, s)
          | Inr i \<Rightarrow>
              do { fds \<leftarrow> fd_array_acquire i (fd_array s);
                   (r, s) \<leftarrow> body i (s\<lparr>fd_array := fds\<rparr>);
                   s \<leftarrow> on_fds (fd_array_release i) s;
                   Some (r, s) } }"

text \<open>Reading and writing return the code and \<open>*copied_store\<close>.\<close>

definition file_rw ::
  "bool \<Rightarrow> int \<Rightarrow> addr \<Rightarrow> nat \<Rightarrow> fstate \<Rightarrow> (((kerror + unit) \<times> nat) \<times> fstate) option" where
  "file_rw wr fd base len s =
     do { r \<leftarrow> fd2file fd s;
          case r of
            Inl e \<Rightarrow> Some ((Inl e, 0), s)
          | Inr i \<Rightarrow>
              if \<not> (if wr then f_writable (fd_array s ! i) else f_readable (fd_array s ! i)) then Some ((Inl E_INVAL, 0), s)
              else
                do { fds \<leftarrow> fd_array_acquire i (fd_array s);
                     let s = s\<lparr>fd_array := fds\<rparr>;
                     let iob = iobuf_init base len (f_pos (fds ! i));
                     node \<leftarrow> f_node (fds ! i);
                     ((r, iob), s) \<leftarrow> (if wr then vop_write node iob s else vop_read node iob s);
                     let copied = iobuf_used iob;
                     let s = (if status (fd_array s ! i) = FD_OPENED
                              then s\<lparr>fd_array := upd_fd i (\<lambda>x. x\<lparr>f_pos := off_t (f_pos x + int copied)\<rparr>) (fd_array s)\<rparr> else s);
                     s \<leftarrow> on_fds (fd_array_release i) s;
                     Some ((r, copied), s) } }"

definition file_read :: "int \<Rightarrow> addr \<Rightarrow> nat \<Rightarrow> fstate \<Rightarrow> (((kerror + unit) \<times> nat) \<times> fstate) option" where
  "file_read = file_rw False"

definition file_write :: "int \<Rightarrow> addr \<Rightarrow> nat \<Rightarrow> fstate \<Rightarrow> (((kerror + unit) \<times> nat) \<times> fstate) option" where
  "file_write = file_rw True"

definition LSEEK_SET :: int where "LSEEK_SET = 0"

definition LSEEK_CUR :: int where "LSEEK_CUR = 1"

definition LSEEK_END :: int where "LSEEK_END = 2"

definition file_seek :: "int \<Rightarrow> int \<Rightarrow> int \<Rightarrow> fstate \<Rightarrow> ((kerror + unit) \<times> fstate) option" where
  "file_seek fd pos whence = with_file fd (\<lambda>i s.
     do { node \<leftarrow> f_node (fd_array s ! i);
          p \<leftarrow> (if whence = LSEEK_SET then Some (Inr pos)
                else if whence = LSEEK_CUR then Some (Inr (off_t (pos + f_pos (fd_array s ! i))))
                else if whence = LSEEK_END then do { st \<leftarrow> vop_fstat node s; Some (Inr (off_t (pos + int (st_size st)))) }
                else Some (Inl E_INVAL));
          case p of
            Inl e \<Rightarrow> Some (Inl e, s)
          | Inr pos \<Rightarrow>
              and_then (vop_tryseek node pos s) (\<lambda>_ s.
                Some (Inr (), s\<lparr>fd_array := upd_fd i (\<lambda>x. x\<lparr>f_pos := pos\<rparr>) (fd_array s)\<rparr>)) })"

definition file_fstat :: "int \<Rightarrow> fstate \<Rightarrow> ((kerror + stat) \<times> fstate) option" where
  "file_fstat fd = with_file fd (\<lambda>i s.
     do { node \<leftarrow> f_node (fd_array s ! i); st \<leftarrow> vop_fstat node s; Some (Inr st, s) })"

definition file_fsync :: "int \<Rightarrow> fstate \<Rightarrow> ((kerror + unit) \<times> fstate) option" where
  "file_fsync fd = with_file fd (\<lambda>i s. do { node \<leftarrow> f_node (fd_array s ! i); on_fs (vop_fsync node) s })"

text \<open>The buffer of the entry is the name in the caller's \<open>struct dirent\<close> at \<open>p\<close>; the result is the new offset.\<close>

definition file_getdirentry :: "int \<Rightarrow> addr \<Rightarrow> int \<Rightarrow> fstate \<Rightarrow> ((kerror + int) \<times> fstate) option" where
  "file_getdirentry fd p offset = with_file fd (\<lambda>i s.
     do { node \<leftarrow> f_node (fd_array s ! i);
          ((r, iob), s) \<leftarrow> vop_getdirentry node (iobuf_init (p + 4) (SFS_MAX_FNAME_LEN + 1) offset) s;
          Some (case r of Inl e \<Rightarrow> Inl e | Inr _ \<Rightarrow> Inr (offset + int (iobuf_used iob)), s) })"

definition file_dup :: "int \<Rightarrow> int \<Rightarrow> fstate \<Rightarrow> ((kerror + int) \<times> fstate) option" where
  "file_dup fd1 fd2 s =
     do { r \<leftarrow> fd2file fd1 s;
          case r of
            Inl e \<Rightarrow> Some (Inl e, s)
          | Inr i \<Rightarrow>
              do { fds \<leftarrow> get_fd_array s;
                   (r, fds) \<leftarrow> fd_array_alloc fd2 fds;
                   case r of
                     Inl e \<Rightarrow> Some (Inl e, s)
                   | Inr j \<Rightarrow>
                       do { s \<leftarrow> on_fds (fd_array_dup j (fds ! i)) (s\<lparr>fd_array := fds\<rparr>);
                            Some (Inr (f_fd (fd_array s ! j)), s) } } }"

section \<open>Definitions: the files of a process\<close>

record files_struct =
  fl_pwd :: "addr option"
  fl_array :: "file_t list"
  fl_count :: int

text \<open>\<open>page\<close> is what the allocated page holds before it is initialised.\<close>

definition files_create :: "file_t list \<Rightarrow> files_struct" where
  "files_create page = \<lparr>fl_pwd = None, fl_array = fd_array_init page, fl_count = 0\<rparr>"

fun closeall_loop :: "nat list \<Rightarrow> bool \<Rightarrow> file_t list \<times> 'a vfs_scheme \<Rightarrow> (file_t list \<times> 'a vfs_scheme) option" where
  "closeall_loop [] chk x = Some x"
| "closeall_loop (i # is) chk x =
     do { x \<leftarrow> (if status (fst x ! i) = FD_OPENED then fd_array_close i x else Some x);
          kassert (chk \<longrightarrow> status (fst x ! i) = FD_NONE);
          closeall_loop is chk x }"

definition files_destroy :: "files_struct \<Rightarrow> 'a vfs_scheme \<Rightarrow> 'a vfs_scheme option" where
  "files_destroy filesp s =
     do { kassert (fl_count filesp = 0);
          s \<leftarrow> (case fl_pwd filesp of None \<Rightarrow> Some s | Some node \<Rightarrow> vop_ref_dec node s);
          (_, s) \<leftarrow> closeall_loop [0..<FILES_STRUCT_NENTRY] True (fl_array filesp, s);
          Some s }"

definition files_closeall :: "files_struct \<Rightarrow> 'a vfs_scheme \<Rightarrow> (files_struct \<times> 'a vfs_scheme) option" where
  "files_closeall filesp s =
     do { kassert (fl_count filesp > 0);
          (fds, s) \<leftarrow> closeall_loop [2..<FILES_STRUCT_NENTRY] False (fl_array filesp, s);
          Some (filesp\<lparr>fl_array := fds\<rparr>, s) }"

fun dup_loop :: "nat list \<Rightarrow> file_t list \<Rightarrow> file_t list \<times> 'a vfs_scheme \<Rightarrow> (file_t list \<times> 'a vfs_scheme) option" where
  "dup_loop [] from_fds x = Some x"
| "dup_loop (i # is) from_fds x =
     (if status (from_fds ! i) = FD_OPENED then
        do { x \<leftarrow> fd_array_dup i (from_fds ! i) (upd_fd i (\<lambda>x. x\<lparr>status := FD_INIT\<rparr>) (fst x), snd x);
             dup_loop is from_fds x }
      else dup_loop is from_fds x)"

definition dup_files :: "files_struct \<Rightarrow> files_struct \<Rightarrow> 'a vfs_scheme \<Rightarrow> (files_struct \<times> 'a vfs_scheme) option" where
  "dup_files to_files from_files s =
     do { kassert (fl_count to_files = 0 \<and> fl_count from_files > 0);
          let s = (case fl_pwd from_files of None \<Rightarrow> s | Some node \<Rightarrow> vop_ref_inc node s);
          (fds, s) \<leftarrow> dup_loop [0..<FILES_STRUCT_NENTRY] (fl_array from_files) (fl_array to_files, s);
          Some (to_files\<lparr>fl_pwd := fl_pwd from_files, fl_array := fds\<rparr>, s) }"


section \<open>Definitions: what is shown\<close>

text \<open>
  The invariant of a table: entry \<open>i\<close> has descriptor \<open>i\<close>, an entry that is free or being set up is
  held by nobody, an open one is held and has an inode.
\<close>

definition entry_ok :: "nat \<Rightarrow> file_t \<Rightarrow> bool" where
  "entry_ok i x \<longleftrightarrow> f_fd x = int i \<and>
     (case status x of
        FD_NONE \<Rightarrow> f_open_count x = 0
      | FD_INIT \<Rightarrow> f_open_count x = 0
      | _ \<Rightarrow> 0 < f_open_count x \<and> f_node x \<noteq> None)"

definition fd_inv :: "file_t list \<Rightarrow> bool" where
  "fd_inv fds \<longleftrightarrow> length fds = FILES_STRUCT_NENTRY \<and> (\<forall>i < FILES_STRUCT_NENTRY. entry_ok i (fds ! i))"

text \<open>No entry is left half set up or closed but held: the state between two system calls.\<close>

definition fd_quiet :: "file_t list \<Rightarrow> bool" where
  "fd_quiet fds \<longleftrightarrow> fd_inv fds \<and> (\<forall>i < FILES_STRUCT_NENTRY.
     status (fds ! i) = FD_NONE \<or> status (fds ! i) = FD_OPENED \<and> f_open_count (fds ! i) = 1)"

definition quiet_entry :: "nat \<Rightarrow> file_t \<Rightarrow> bool" where
  "quiet_entry i x \<longleftrightarrow> f_fd x = int i \<and>
     (status x = FD_NONE \<and> f_open_count x = 0 \<or> status x = FD_OPENED \<and> f_open_count x = 1 \<and> f_node x \<noteq> None)"

text \<open>An entry after \<open>file_open\<close>.\<close>

definition opened_file :: "nat \<Rightarrow> addr \<Rightarrow> int \<Rightarrow> bool \<Rightarrow> bool \<Rightarrow> file_t" where
  "opened_file i node pos rd wr = \<lparr>status = FD_OPENED, f_readable = rd, f_writable = wr, f_fd = int i, f_pos = pos,
     f_node = Some node, f_open_count = 1\<rparr>"

text \<open>The calls on the files of a process, and sequences of them.\<close>

datatype file_call =
    Call_open "u8 list" u32
  | Call_close int
  | Call_read int addr nat
  | Call_write int addr nat
  | Call_seek int int int
  | Call_fstat int
  | Call_fsync int
  | Call_getdirentry int addr int
  | Call_dup int int

fun file_step :: "file_call \<Rightarrow> fstate \<Rightarrow> fstate option" where
  "file_step (Call_open path flags) s = map_option snd (file_open path flags s)"
| "file_step (Call_close fd) s = map_option snd (file_close fd s)"
| "file_step (Call_read fd base len) s = map_option snd (file_read fd base len s)"
| "file_step (Call_write fd base len) s = map_option snd (file_write fd base len s)"
| "file_step (Call_seek fd pos whence) s = map_option snd (file_seek fd pos whence s)"
| "file_step (Call_fstat fd) s = map_option snd (file_fstat fd s)"
| "file_step (Call_fsync fd) s = map_option snd (file_fsync fd s)"
| "file_step (Call_getdirentry fd p offset) s = map_option snd (file_getdirentry fd p offset s)"
| "file_step (Call_dup fd1 fd2) s = map_option snd (file_dup fd1 fd2 s)"

fun file_calls :: "file_call list \<Rightarrow> fstate \<Rightarrow> fstate option" where
  "file_calls [] s = Some s"
| "file_calls (c # cs) s = do { s \<leftarrow> file_step c s; file_calls cs s }"

text \<open>The lowest free descriptor.\<close>

definition free_fd :: "file_t list \<Rightarrow> nat \<Rightarrow> bool" where
  "free_fd fds i \<longleftrightarrow> i < FILES_STRUCT_NENTRY \<and> status (fds ! i) = FD_NONE \<and> (\<forall>j < i. status (fds ! j) \<noteq> FD_NONE)"

definition same_fds :: "fstate \<Rightarrow> fstate \<Rightarrow> bool" where
  "same_fds s s' \<longleftrightarrow> fd_array s' = fd_array s \<and> files_count s' = files_count s"

text \<open>What the use of a held entry may do to the table: move the position of that entry.\<close>

definition moves_pos :: "nat \<Rightarrow> fstate \<Rightarrow> fstate \<Rightarrow> bool" where
  "moves_pos i s s' \<longleftrightarrow> (\<exists>p. fd_array s' = (fd_array s)[i := (fd_array s ! i)\<lparr>f_pos := p\<rparr>]) \<and> files_count s' = files_count s"

text \<open>How many of the open entries \<open>is\<close> of a table refer to the inode \<open>n\<close>.\<close>

definition holders :: "addr \<Rightarrow> nat list \<Rightarrow> file_t list \<Rightarrow> int" where
  "holders n is fds = int (length (filter (\<lambda>i. status (fds ! i) = FD_OPENED \<and> f_node (fds ! i) = Some n) is))"

text \<open>An entry of the table \<open>dup_files\<close> fills: the copy of an open one, or as it was.\<close>

definition copied_entry :: "nat \<Rightarrow> file_t \<Rightarrow> file_t \<Rightarrow> file_t" where
  "copied_entry i x y =
     (if status x = FD_OPENED then opened_file i (the (f_node x)) (f_pos x) (f_readable x) (f_writable x) else y)"

text \<open>Examples: a console device \<open>c:\<close>, and a process with an empty table.\<close>

definition blank_file :: file_t where
  "blank_file = \<lparr>status = FD_NONE, f_readable = False, f_writable = False, f_fd = 0, f_pos = 0, f_node = None, f_open_count = 0\<rparr>"

definition demo_vfs :: fstate where
  "demo_vfs = \<lparr>
     fs = demo_fs\<lparr>inodes := (\<lambda>_. \<lparr>in_type = Inode_type_device_info, ref_count = 1, open_count = 0, in_fs = False, in_ops = Dev_node_ops\<rparr>)\<rparr>,
     devices = (\<lambda>_. \<lparr>dv_blocks = 0, dv_blocksize = 1, dv_open = (\<lambda>_. Inr ()), dv_close = Inr (),
       dv_io = (\<lambda>wr iob m. Some (Inr (), iob, m))\<rparr>),
     vdev_list = [\<lparr>devname = [ch CHR ''c''], devnode = Some 3, vd_fs = False, mountable = False\<rparr>],
     bootfs_node = None, pwd = None, memory = (\<lambda>_. 0),
     fd_array = fd_array_init (replicate FILES_STRUCT_NENTRY blank_file), files_count = 1\<rparr>"

definition demo_path :: "u8 list" where "demo_path = [ch CHR ''c'', ch CHR '':'']"

definition demo_opened :: fstate where
  "demo_opened = vop_open_inc 3 (vop_ref_inc 3 demo_vfs)"

section \<open>The file systems leave the table alone\<close>

named_theorems frame \<open>operations that leave the table of the process alone\<close>

lemma same_fds_refl [simp]: "same_fds s s"
  by (simp add: same_fds_def)

lemma same_fds_upd [simp]:
  "same_fds s (s'\<lparr>fs := x\<rparr>) = same_fds s s'" "same_fds s (s'\<lparr>memory := m\<rparr>) = same_fds s s'" "same_fds s (s'\<lparr>pwd := d\<rparr>) = same_fds s s'"
  "same_fds s (vop_ref_inc n s') = same_fds s s'" "same_fds s (vop_open_inc n s') = same_fds s s'"
  by (simp_all add: same_fds_def vop_ref_inc_def vop_open_inc_def)

lemma fds_counts [simp]:
  "fd_array (vop_ref_inc n s) = fd_array s" "files_count (vop_ref_inc n s) = files_count s"
  "fd_array (vop_open_inc n s) = fd_array s" "files_count (vop_open_inc n s) = files_count s"
  by (simp_all add: vop_ref_inc_def vop_open_inc_def)

lemma same_fds_trans: "same_fds s t \<Longrightarrow> same_fds t u \<Longrightarrow> same_fds s u"
  by (simp add: same_fds_def)

lemma same_fds_on_fs [frame]: "on_fs f s = Some (r, s') \<Longrightarrow> same_fds s s'"
  by (auto simp: on_fs_def split: option.splits)

lemma same_fds_on_fs_mem [frame]: "on_fs_mem f iob s = Some (r, s') \<Longrightarrow> same_fds s s'"
  by (auto simp: on_fs_mem_def split: option.splits)

lemma same_fds_ref_dec [frame]: "vop_ref_dec n s = Some s' \<Longrightarrow> same_fds s s'"
  by (auto simp: vop_ref_dec_def bind_eq_Some_conv dest: frame)

lemma same_fds_dev_io [frame]: "dev_io_op w n iob s = Some (r, s') \<Longrightarrow> same_fds s s'"
  by (auto simp: dev_io_op_def bind_eq_Some_conv)

lemma same_fds_vop_close [frame]: "vop_close n s = Some (r, s') \<Longrightarrow> same_fds s s'"
  by (auto simp: vop_close_def bind_eq_Some_conv split: inode_ops.splits dest: frame)

lemma same_fds_vop_rw [frame]:
  "vop_read n iob s = Some (r, s') \<Longrightarrow> same_fds s s'" "vop_write n iob s = Some (r, s') \<Longrightarrow> same_fds s s'"
  by (auto simp: vop_read_def vop_write_def dev_read_def dev_write_def bind_eq_Some_conv split: inode_ops.splits dest: frame)

lemma same_fds_tryseek [frame]: "vop_tryseek n p s = Some (r, s') \<Longrightarrow> same_fds s s'"
  by (auto simp: vop_tryseek_def bind_eq_Some_conv split: inode_ops.splits dest: frame)

lemma same_fds_lookup [frame]: "vop_lookup n p s = Some (r, s') \<Longrightarrow> same_fds s s'"
  by (auto simp: vop_lookup_def dev_lookup_def bind_eq_Some_conv split: inode_ops.splits if_splits dest: frame)

lemma same_fds_getdirentry [frame]: "vop_getdirentry n iob s = Some (r, s') \<Longrightarrow> same_fds s s'"
  by (auto simp: vop_getdirentry_def bind_eq_Some_conv dest: frame)

lemma same_fds_open_dec [frame]: "inode_open_dec n s = Some (r, s') \<Longrightarrow> same_fds s s'"
  by (auto simp: inode_open_dec_def bind_eq_Some_conv same_fds_def Let_def split: if_splits dest!: frame)

lemma same_fds_vfs_close [frame]: "vfs_close n s = Some s' \<Longrightarrow> same_fds s s'"
  by (auto simp: vfs_close_def bind_eq_Some_conv dest!: frame intro: same_fds_trans)

lemma same_fds_get_root [frame]: "vfs_get_root d s = Some (r, s') \<Longrightarrow> same_fds s s'"
  by (auto simp: vfs_get_root_def bind_eq_Some_conv split: option.splits if_splits dest: frame)


lemma same_fds_curdir [frame]:
  "vfs_get_curdir s = (r, s') \<Longrightarrow> same_fds s s'" "vfs_get_bootfs s = (r, s') \<Longrightarrow> same_fds s s'"
  by (auto simp: vfs_get_curdir_def vfs_get_bootfs_def split: option.splits)

lemma same_fds_get_device [frame]: "get_device p s = Some (r, s') \<Longrightarrow> same_fds s s'"
  by (auto simp: get_device_def same_fds_def and_then_eq_Some bind_eq_Some_conv split: option.splits if_splits dest!: frame)

lemma same_fds_vfs_lookup [frame]:
  "vfs_lookup p s = Some (r, s') \<Longrightarrow> same_fds s s'" "vfs_lookup_parent p s = Some (r1, s') \<Longrightarrow> same_fds s s'"
  by (auto simp: vfs_lookup_def vfs_lookup_parent_def same_fds_def and_then_eq_Some bind_eq_Some_conv split: if_splits dest!: frame)

lemma same_fds_open_node [frame]: "open_node p e c s = Some (r, s') \<Longrightarrow> same_fds s s'"
  by (auto simp: open_node_def same_fds_def and_then_eq_Some split: option.splits sum.splits if_splits prod.splits dest!: frame)

lemma same_fds_open_truncate [frame]: "open_truncate n s = Some (r, s') \<Longrightarrow> same_fds s s'"
  by (auto simp: open_truncate_def same_fds_def bind_eq_Some_conv split: option.splits sum.splits prod.splits dest!: frame)

lemma same_fds_open_found [frame]: "open_found f b n s = Some (r, s') \<Longrightarrow> same_fds s s'"
  by (auto simp: open_found_def same_fds_def bind_eq_Some_conv split: option.splits sum.splits if_splits dest!: frame)

lemma same_fds_vfs_open [frame]: "vfs_open p f s = Some (r, s') \<Longrightarrow> same_fds s s'"
  by (auto simp: vfs_open_def Let_def and_then_eq_Some split: if_splits dest!: frame intro: same_fds_trans)

section \<open>The table\<close>

lemma fd_quiet_iff:
  "fd_quiet fds \<longleftrightarrow> length fds = FILES_STRUCT_NENTRY \<and> (\<forall>i < FILES_STRUCT_NENTRY. quiet_entry i (fds ! i))"
  by (auto simp: fd_quiet_def fd_inv_def entry_ok_def quiet_entry_def split: fd_status.splits)

lemma fd_quiet_update:
  assumes "fd_quiet fds" "quiet_entry i x"
  shows "fd_quiet (fds[i := x])"
proof -
  have "quiet_entry j (fds[i := x] ! j)" if "j < length fds" for j
    using that assms by (cases "i = j") (auto simp: fd_quiet_iff)
  then show ?thesis
    using assms by (simp add: fd_quiet_iff)
qed

lemma fd_quiet_entry: "fd_quiet fds \<Longrightarrow> i < FILES_STRUCT_NENTRY \<Longrightarrow> quiet_entry i (fds ! i)"
  by (simp add: fd_quiet_iff)

lemma fd_quiet_length: "fd_quiet fds \<Longrightarrow> length fds = FILES_STRUCT_NENTRY"
  by (simp add: fd_quiet_iff)

lemma fd2file_Inr:
  "fd2file fd s = Some (Inr i) \<Longrightarrow> i < FILES_STRUCT_NENTRY \<and> fd = int i \<and> status (fd_array s ! i) = FD_OPENED \<and> 0 < files_count s"
  by (auto simp: fd2file_def get_fd_array_def testfd_def split: if_splits)

lemma find_free_fd:
  "find (\<lambda>i. status (fds ! i) = FD_NONE) [0..<FILES_STRUCT_NENTRY] = Some i \<longleftrightarrow> free_fd fds i"
  by (auto simp: find_Some_iff free_fd_def)

lemma no_free_fd:
  assumes "\<nexists>i. free_fd fds i" "j < FILES_STRUCT_NENTRY"
  shows "status (fds ! j) \<noteq> FD_NONE"
proof (cases "find (\<lambda>i. status (fds ! i) = FD_NONE) [0..<FILES_STRUCT_NENTRY]")
  case None
  then show ?thesis
    using assms(2) by (auto simp: find_None_iff)
qed (use assms(1) find_free_fd in auto)

lemma fd_array_alloc_NO_FD:
  assumes "fd_quiet fds"
  shows "free_fd fds i \<Longrightarrow> fd_array_alloc NO_FD fds = Some (Inr i, fds[i := (fds ! i)\<lparr>status := FD_INIT, f_node := None\<rparr>])"
    and "(\<forall>i < FILES_STRUCT_NENTRY. status (fds ! i) \<noteq> FD_NONE) \<Longrightarrow> fd_array_alloc NO_FD fds = Some (Inl E_MAX_OPEN, fds)"
proof -
  assume f: "free_fd fds i"
  then have "f_open_count (fds ! i) = 0"
    using fd_quiet_entry [OF assms, of i] by (auto simp: free_fd_def quiet_entry_def)
  then show "fd_array_alloc NO_FD fds = Some (Inr i, fds[i := (fds ! i)\<lparr>status := FD_INIT, f_node := None\<rparr>])"
    using f by (simp add: fd_array_alloc_def upd_fd_def find_free_fd [THEN iffD2])
next
  assume "\<forall>i < FILES_STRUCT_NENTRY. status (fds ! i) \<noteq> FD_NONE"
  then have "find (\<lambda>i. status (fds ! i) = FD_NONE) [0..<FILES_STRUCT_NENTRY] = None"
    by (auto simp: find_None_iff)
  then show "fd_array_alloc NO_FD fds = Some (Inl E_MAX_OPEN, fds)"
    by (simp add: fd_array_alloc_def)
qed

lemma fd_array_alloc_Inr:
  assumes "fd_array_alloc fd fds = Some (Inr i, fds')"
  shows "i < FILES_STRUCT_NENTRY \<and> status (fds ! i) = FD_NONE \<and> f_open_count (fds ! i) = 0 \<and>
    fds' = fds[i := (fds ! i)\<lparr>status := FD_INIT, f_node := None\<rparr>]"
  using assms
  by (auto simp: fd_array_alloc_def and_then_eq_Some upd_fd_def testfd_def find_free_fd free_fd_def
      split: if_splits option.splits)

lemma release_held:
  assumes "i < length fds" "status (fds ! i) = FD_OPENED" "f_open_count (fds ! i) = 2"
  shows "fd_array_release i (fds, s) = Some (fds[i := (fds ! i)\<lparr>f_open_count := 1\<rparr>], s)"
  using assms by (simp add: fd_array_release_def upd_fd_def)


lemma acquire_opened:
  assumes "status (fds ! i) = FD_OPENED"
  shows "fd_array_acquire i fds = Some (fds[i := (fds ! i)\<lparr>f_open_count := f_open_count (fds ! i) + 1\<rparr>])"
  using assms by (simp add: fd_array_acquire_def upd_fd_def)

section \<open>The operations keep the table\<close>

lemma moves_pos_same: "same_fds s s' \<Longrightarrow> moves_pos i s s'"
  unfolding moves_pos_def same_fds_def by (rule conjI, rule exI [of _ "f_pos (fd_array s ! i)"]) auto

lemma moves_posI:
  "same_fds s s1 \<Longrightarrow> moves_pos i s (s1\<lparr>fd_array := upd_fd i (\<lambda>x. x\<lparr>f_pos := p x\<rparr>) (fd_array s1)\<rparr>)"
  by (auto simp: moves_pos_def same_fds_def upd_fd_def)

lemma hold_quiet:
  assumes q: "fd_quiet (fd_array s)" and i: "i < FILES_STRUCT_NENTRY" and o: "status (fd_array s ! i) = FD_OPENED"
    and a: "fd_array_acquire i (fd_array s) = Some fds"
    and m: "moves_pos i (s\<lparr>fd_array := fds\<rparr>) s1"
    and r: "on_fds (fd_array_release i) s1 = Some s'"
  shows "fd_quiet (fd_array s') \<and> files_count s' = files_count s"
proof -
  let ?x = "fd_array s ! i"
  have l: "i < length (fd_array s)" and x: "f_open_count ?x = 1" "quiet_entry i ?x"
    using i o fd_quiet_entry [OF q i] fd_quiet_length [OF q] by (auto simp: quiet_entry_def)
  have fds: "fds = (fd_array s)[i := ?x\<lparr>f_open_count := 2\<rparr>]"
    using a acquire_opened [OF o] x by simp
  obtain p where p: "fd_array s1 = (fd_array s)[i := ?x\<lparr>f_open_count := 2, f_pos := p\<rparr>]" "files_count s1 = files_count s"
    using m l by (auto simp: moves_pos_def fds)
  have "s' = s1\<lparr>fd_array := (fd_array s)[i := ?x\<lparr>f_pos := p, f_open_count := 1\<rparr>]\<rparr>"
    using r o l by (simp add: on_fds_def p release_held)
  moreover have "quiet_entry i (?x\<lparr>f_pos := p, f_open_count := 1\<rparr>)"
    using x o by (simp add: quiet_entry_def)
  ultimately show ?thesis
    using fd_quiet_update [OF q] p by simp
qed

lemma with_file_quiet:
  assumes "with_file fd body s = Some (r, s')" and q: "fd_quiet (fd_array s)"
    and body: "\<And>i s r s'. body i s = Some (r, s') \<Longrightarrow> moves_pos i s s'"
  shows "fd_quiet (fd_array s') \<and> files_count s' = files_count s"
  using assms(1) q unfolding with_file_def bind_case_sum
  by (auto simp: bind_eq_Some_conv dest!: fd2file_Inr body dest: hold_quiet)

lemma file_rw_quiet:
  assumes "file_rw wr fd base len s = Some (r, s')" and q: "fd_quiet (fd_array s)"
  shows "fd_quiet (fd_array s') \<and> files_count s' = files_count s"
  using assms unfolding file_rw_def bind_case_sum
  by (auto simp: bind_eq_Some_conv Let_def split: if_split_asm
      dest!: fd2file_Inr frame dest: hold_quiet moves_pos_same moves_posI)

lemma close_opened:
  assumes "i < length fds" "status (fds ! i) = FD_OPENED" "f_open_count (fds ! i) = 1" "f_node (fds ! i) = Some n"
  shows "fd_array_close i (fds, s) =
    map_option (Pair (fds[i := (fds ! i)\<lparr>f_open_count := 0, status := FD_NONE\<rparr>])) (vfs_close n s)"
  using assms by (cases "vfs_close n s") (simp_all add: fd_array_close_def fd_array_free_def upd_fd_def)

lemma free_init:
  assumes "status (fds ! i) = FD_INIT" "f_open_count (fds ! i) = 0"
  shows "fd_array_free i (fds, s) = Some (fds[i := (fds ! i)\<lparr>status := FD_NONE\<rparr>], s)"
  using assms by (simp add: fd_array_free_def upd_fd_def)

lemma opened_file_eq:
  assumes "f_fd x = int i"
  shows "x\<lparr>f_pos := p, f_readable := r, f_writable := w, f_node := Some n, status := FD_OPENED, f_open_count := 1\<rparr> = opened_file i n p r w"
    and "x\<lparr>f_pos := p, f_node := Some n, f_readable := r, f_writable := w, status := FD_OPENED, f_open_count := 1\<rparr> = opened_file i n p r w"
  using assms by (simp_all add: opened_file_def)

lemma opened_file_fields [simp]:
  "f_fd (opened_file i n p r w) = int i" "status (opened_file i n p r w) = FD_OPENED" "f_node (opened_file i n p r w) = Some n"
  "f_pos (opened_file i n p r w) = p" "f_readable (opened_file i n p r w) = r" "f_writable (opened_file i n p r w) = w"
  "f_open_count (opened_file i n p r w) = 1"
  by (simp_all add: opened_file_def)

lemma dup_init:
  assumes "j < length fds" "status (fds ! j) = FD_INIT" "f_open_count (fds ! j) = 0" "f_fd (fds ! j) = int j"
    and "status x = FD_OPENED" "f_node x = Some n"
  shows "fd_array_dup j x (fds, s) =
    Some (fds[j := opened_file j n (f_pos x) (f_readable x) (f_writable x)], vop_open_inc n (vop_ref_inc n s))"
  using assms by (simp add: fd_array_dup_def fd_array_open_def upd_fd_def opened_file_eq)

lemma dup_Some:
  assumes "fd_array_dup j x (fds, s) = Some y"
  shows "status x = FD_OPENED \<and> f_node x \<noteq> None"
  using assms by (auto simp: fd_array_dup_def bind_eq_Some_conv)

lemma quiet_opened_file [simp]: "quiet_entry i (opened_file i n p r w)"
  by (simp add: quiet_entry_def opened_file_def)

lemma file_open_free:
  fixes s :: fstate
  defines "fds \<equiv> fd_array s"
  assumes q: "fd_quiet fds" and c: "0 < files_count s" and f: "free_fd fds i"
    and m: "flags AND O_ACCMODE \<in> {O_RDONLY, O_WRONLY, O_RDWR}"
  shows "file_open path flags s =
    (case vfs_open path flags (s\<lparr>fd_array := fds[i := (fds ! i)\<lparr>status := FD_INIT, f_node := None\<rparr>]\<rparr>) of
       None \<Rightarrow> None
     | Some (Inl e, s1) \<Rightarrow> Some (Inl e, s1\<lparr>fd_array := fds[i := (fds ! i)\<lparr>f_node := None, status := FD_NONE\<rparr>]\<rparr>)
     | Some (Inr node, s1) \<Rightarrow>
         do { pos \<leftarrow> (if flags AND O_APPEND \<noteq> 0 then do { st \<leftarrow> vop_fstat node s1; Some (off_t (int (st_size st))) } else Some 0);
              Some (Inr (int i), s1\<lparr>fd_array := fds[i := opened_file i node pos
                (flags AND O_ACCMODE \<noteq> O_WRONLY) (flags AND O_ACCMODE \<noteq> O_RDONLY)]\<rparr>) })"
proof -
  have x: "f_open_count (fds ! i) = 0" "f_fd (fds ! i) = int i" "i < length fds"
    using f fd_quiet_entry [OF q, of i] fd_quiet_length [OF q] by (auto simp: free_fd_def quiet_entry_def)
  have acc: "O_RDONLY \<noteq> O_WRONLY" "O_RDWR \<noteq> O_WRONLY" "O_RDWR \<noteq> O_RDONLY"
    by (simp_all add: O_RDONLY_def O_WRONLY_def O_RDWR_def)
  have "fd_array s1 = fds[i := (fds ! i)\<lparr>status := FD_INIT, f_node := None\<rparr>]"
    if "vfs_open path flags (s\<lparr>fd_array := fds[i := (fds ! i)\<lparr>status := FD_INIT, f_node := None\<rparr>]\<rparr>) = Some (r, s1)" for r s1
    using same_fds_vfs_open [OF that] by (simp add: same_fds_def)
  then show ?thesis
    using m x acc fd_array_alloc_NO_FD(1) [OF q f]
    by (auto simp: file_open_def Let_def get_fd_array_def c fds_def [symmetric] on_fds_def free_init upd_fd_def
        fd_array_open_def opened_file_eq split: option.split sum.split prod.split)
qed

lemma file_open_quiet:
  assumes "file_open path flags s = Some (r, s')" and q: "fd_quiet (fd_array s)"
  shows "fd_quiet (fd_array s') \<and> files_count s' = files_count s"
proof (cases "s' = s")
  case False
  then have m: "flags AND O_ACCMODE \<in> {O_RDONLY, O_WRONLY, O_RDWR}" and c: "0 < files_count s"
    using assms(1) by (auto simp: file_open_def Let_def get_fd_array_def split: if_splits)
  obtain i where f: "free_fd (fd_array s) i"
  proof (cases "\<exists>i. free_fd (fd_array s) i")
    case no: False
    then have "s' = s"
      using assms(1) fd_array_alloc_NO_FD(2) [OF q] no_free_fd
      by (auto simp: file_open_def Let_def get_fd_array_def c split: if_splits)
    with False show thesis by simp
  qed auto
  then have "quiet_entry i ((fd_array s ! i)\<lparr>f_node := None, status := FD_NONE\<rparr>)"
    using fd_quiet_entry [OF q, of i] by (auto simp: quiet_entry_def free_fd_def)
  then show ?thesis
    using assms(1) unfolding file_open_free [OF q c f m]
    by (auto simp: bind_eq_Some_conv same_fds_def intro!: fd_quiet_update q split: option.splits sum.splits prod.splits dest!: frame)
qed (simp add: q)

lemma file_close_quiet:
  assumes "file_close fd s = Some (r, s')" and q: "fd_quiet (fd_array s)"
  shows "fd_quiet (fd_array s') \<and> files_count s' = files_count s"
proof -
  consider "s' = s" | i where "fd2file fd s = Some (Inr i)" "on_fds (fd_array_close i) s = Some s'"
    using assms(1) unfolding file_close_def bind_case_sum by (auto simp: bind_eq_Some_conv)
  then show ?thesis
  proof cases
    case 2
    then have i: "i < FILES_STRUCT_NENTRY" "status (fd_array s ! i) = FD_OPENED"
      by (auto dest: fd2file_Inr)
    then obtain n where n: "f_open_count (fd_array s ! i) = 1" "f_node (fd_array s ! i) = Some n" "f_fd (fd_array s ! i) = int i"
      using fd_quiet_entry [OF q, of i] by (auto simp: quiet_entry_def)
    then obtain s1 where "vfs_close n s = Some s1"
        "s' = s1\<lparr>fd_array := (fd_array s)[i := (fd_array s ! i)\<lparr>f_open_count := 0, status := FD_NONE\<rparr>]\<rparr>"
      using 2(2) i by (auto simp: on_fds_def close_opened fd_quiet_length [OF q] bind_eq_Some_conv)
    then show ?thesis
      using fd_quiet_update [OF q, of i] n by (auto simp: quiet_entry_def same_fds_def dest!: frame)
  qed (simp add: q)
qed

lemma file_dup_quiet:
  assumes "file_dup fd1 fd2 s = Some (r, s')" and q: "fd_quiet (fd_array s)"
  shows "fd_quiet (fd_array s') \<and> files_count s' = files_count s"
proof -
  consider "s' = s" | i j fds where "fd2file fd1 s = Some (Inr i)" "fd_array_alloc fd2 (fd_array s) = Some (Inr j, fds)"
     "on_fds (fd_array_dup j (fds ! i)) (s\<lparr>fd_array := fds\<rparr>) = Some s'"
    using assms(1) unfolding file_dup_def bind_case_sum bind_case_sum_state
    by (auto simp: get_fd_array_def bind_case_sum_state) (auto simp: bind_eq_Some_conv)
  then show ?thesis
  proof cases
    case 2
    note j = fd_array_alloc_Inr [OF 2(2)]
    define x where "x = fds ! i"
    obtain n where x: "status x = FD_OPENED" "f_node x = Some n"
      using 2(3) by (auto simp: x_def on_fds_def bind_eq_Some_conv dest!: dup_Some)
    have "f_fd (fd_array s ! j) = int j"
      using j fd_quiet_entry [OF q, of j] by (auto simp: quiet_entry_def)
    then have "s' = (vop_open_inc n (vop_ref_inc n (s\<lparr>fd_array := fds\<rparr>)))
        \<lparr>fd_array := (fd_array s)[j := opened_file j n (f_pos x) (f_readable x) (f_writable x)]\<rparr>"
      using 2(3) j x unfolding x_def [symmetric] by (auto simp: on_fds_def dup_init fd_quiet_length [OF q])
    then show ?thesis
      using fd_quiet_update [OF q] by simp
  qed (simp add: q)
qed

lemma file_step_quiet:
  assumes "file_step c s = Some s'" and q: "fd_quiet (fd_array s)"
  shows "fd_quiet (fd_array s') \<and> files_count s' = files_count s"
proof (cases c)
  case (Call_seek fd pos whence)
  have "moves_pos i t t'"
    if "(do { node \<leftarrow> f_node (fd_array t ! i);
          p \<leftarrow> (if whence = LSEEK_SET then Some (Inr pos)
                else if whence = LSEEK_CUR then Some (Inr (off_t (pos + f_pos (fd_array t ! i))))
                else if whence = LSEEK_END then do { st \<leftarrow> vop_fstat node t; Some (Inr (off_t (pos + int (st_size st)))) }
                else Some (Inl E_INVAL));
          case p of
            Inl e \<Rightarrow> Some (Inl e, t)
          | Inr pos \<Rightarrow>
              and_then (vop_tryseek node pos t) (\<lambda>_ s.
                Some (Inr (), s\<lparr>fd_array := upd_fd i (\<lambda>x. x\<lparr>f_pos := pos\<rparr>) (fd_array s)\<rparr>)) }) = Some (r, t')" for i t t' r
    using that
    by (clarsimp simp: bind_eq_Some_conv)
      (auto simp: and_then_eq_Some split: sum.split_asm dest!: frame intro: moves_pos_same moves_posI)
  then show ?thesis
    using assms Call_seek by (auto simp: file_seek_def dest!: with_file_quiet)
next
  case Call_fstat
  with assms show ?thesis
    by (auto simp: file_fstat_def bind_eq_Some_conv moves_pos_same dest!: with_file_quiet)
next
  case Call_fsync
  with assms show ?thesis
    by (auto simp: file_fsync_def bind_eq_Some_conv dest!: with_file_quiet frame intro: moves_pos_same)
next
  case Call_getdirentry
  with assms show ?thesis
    by (auto simp: file_getdirentry_def bind_eq_Some_conv dest!: with_file_quiet frame intro: moves_pos_same)
qed (use assms in \<open>auto simp: file_read_def file_write_def dest: file_open_quiet file_close_quiet file_rw_quiet file_dup_quiet\<close>)

lemma fd_quiet_init: "length page = FILES_STRUCT_NENTRY \<Longrightarrow> fd_quiet (fd_array_init page)"
  by (auto simp: fd_quiet_iff fd_array_init_def quiet_entry_def nth_enumerate_eq)


lemma file_calls_ok:
  assumes "file_calls cs s = Some s'" "fd_quiet (fd_array s)"
  shows "fd_quiet (fd_array s') \<and> files_count s' = files_count s"
  using assms
proof (induction cs arbitrary: s)
  case (Cons c cs)
  then obtain t where "file_step c s = Some t" "file_calls cs t = Some s'"
    by (auto simp: bind_eq_Some_conv)
  with Cons.IH [of t] Cons.prems(2) file_step_quiet [of c s t] show ?case
    by simp
qed simp

section \<open>Copying the table\<close>

lemma dup_loop_ok:
  assumes "\<forall>i \<in> set is. i < length fds \<and> status (fds ! i) = FD_NONE \<and> f_open_count (fds ! i) = 0 \<and> f_fd (fds ! i) = int i"
    and "\<forall>i \<in> set is. status (src ! i) = FD_OPENED \<longrightarrow> f_node (src ! i) \<noteq> None" "distinct is"
  shows "\<exists>fds' s'. dup_loop is src (fds, s) = Some (fds', s') \<and> length fds' = length fds \<and>
     (\<forall>i < length fds. fds' ! i = (if i \<in> set is then copied_entry i (src ! i) (fds ! i) else fds ! i)) \<and>
     (\<forall>n. node_of s' n = node_of s n\<lparr>ref_count := ref_count (node_of s n) + holders n is src,
                                      open_count := open_count (node_of s n) + holders n is src\<rparr>)"
  using assms
proof (induction "is" arbitrary: fds s)
  case Nil
  then show ?case
    by (simp add: holders_def)
next
  case (Cons i "is")
  show ?case
  proof (cases "status (src ! i) = FD_OPENED")
    case False
    then have h: "holders n (i # is) src = holders n is src" for n
      by (simp add: holders_def)
    have "dup_loop (i # is) src (fds, s) = dup_loop is src (fds, s)" "copied_entry i (src ! i) (fds ! i) = fds ! i"
      using False by (simp_all add: copied_entry_def)
    then show ?thesis
      using Cons.IH [of fds s] Cons.prems unfolding h by auto
  next
    case True
    with Cons.prems(2) obtain m where m: "f_node (src ! i) = Some m" by auto
    define fds1 where "fds1 = fds[i := copied_entry i (src ! i) (fds ! i)]"
    define s1 where "s1 = vop_open_inc m (vop_ref_inc m s)"
    have step: "dup_loop (i # is) src (fds, s) = dup_loop is src (fds1, s1)"
      using Cons.prems(1) True m by (simp add: upd_fd_def dup_init fds1_def s1_def copied_entry_def)
    have "\<forall>j \<in> set is. j < length fds1 \<and> status (fds1 ! j) = FD_NONE \<and> f_open_count (fds1 ! j) = 0 \<and> f_fd (fds1 ! j) = int j"
    proof
      fix j assume j: "j \<in> set is"
      with Cons.prems(3) have "fds1 ! j = fds ! j"
        unfolding fds1_def by (intro nth_list_update_neq) auto
      then show "j < length fds1 \<and> status (fds1 ! j) = FD_NONE \<and> f_open_count (fds1 ! j) = 0 \<and> f_fd (fds1 ! j) = int j"
        using j Cons.prems(1) by (simp add: fds1_def)
    qed
    then obtain fds' s' where r: "dup_loop is src (fds1, s1) = Some (fds', s')" "length fds' = length fds1"
        "\<forall>i < length fds1. fds' ! i = (if i \<in> set is then copied_entry i (src ! i) (fds1 ! i) else fds1 ! i)"
        "\<forall>n. node_of s' n = node_of s1 n\<lparr>ref_count := ref_count (node_of s1 n) + holders n is src,
                                      open_count := open_count (node_of s1 n) + holders n is src\<rparr>"
      using Cons.IH [of fds1 s1] Cons.prems(2,3) by auto
    have "fds' ! j = (if j \<in> set (i # is) then copied_entry j (src ! j) (fds ! j) else fds ! j)" if "j < length fds" for j
      using r(3) that Cons.prems(3) by (cases "j = i") (auto simp: fds1_def)
    moreover have "node_of s' n = node_of s n\<lparr>ref_count := ref_count (node_of s n) + holders n (i # is) src,
         open_count := open_count (node_of s n) + holders n (i # is) src\<rparr>" for n
      using r(4) True m
      by (cases "n = m") (simp_all add: s1_def vop_open_inc_def vop_ref_inc_def inode_open_inc_def inode_ref_inc_def
          upd_inode_def Let_def holders_def)
    ultimately show ?thesis
      using step r(1,2) by (simp add: fds1_def)
  qed
qed


lemma dup_files_ok:
  fixes s :: "'a vfs_scheme"
  assumes q: "fd_quiet (fl_array src)" and c: "0 < fl_count src" and l: "length page = FILES_STRUCT_NENTRY"
  shows "\<exists>dst s'. dup_files (files_create page) src s = Some (dst, s') \<and> fd_quiet (fl_array dst) \<and> fl_pwd dst = fl_pwd src \<and>
     (\<forall>i < FILES_STRUCT_NENTRY. if status (fl_array src ! i) = FD_OPENED then fl_array dst ! i = fl_array src ! i
                                  else status (fl_array dst ! i) = FD_NONE) \<and>
     (\<forall>n. node_of s' n = node_of s n\<lparr>ref_count := ref_count (node_of s n) + holders n [0..<FILES_STRUCT_NENTRY] (fl_array src) +
                                         (if fl_pwd src = Some n then 1 else 0),
                                       open_count := open_count (node_of s n) + holders n [0..<FILES_STRUCT_NENTRY] (fl_array src)\<rparr>)"
proof -
  define fds where "fds = fd_array_init page"
  define s0 where "s0 = (case fl_pwd src of None \<Rightarrow> s | Some node \<Rightarrow> vop_ref_inc node s)"
  let ?is = "[0..<FILES_STRUCT_NENTRY]"
  have lf: "length fds = FILES_STRUCT_NENTRY" and new: "\<forall>i \<in> set ?is. i < length fds \<and> status (fds ! i) = FD_NONE \<and>
      f_open_count (fds ! i) = 0 \<and> f_fd (fds ! i) = int i"
    using l by (auto simp: fds_def fd_array_init_def nth_enumerate_eq)
  have n: "\<forall>i \<in> set ?is. status (fl_array src ! i) = FD_OPENED \<longrightarrow> f_node (fl_array src ! i) \<noteq> None"
    using fd_quiet_entry [OF q] by (fastforce simp: quiet_entry_def)
  obtain fds' s' where r: "dup_loop ?is (fl_array src) (fds, s0) = Some (fds', s')" "length fds' = FILES_STRUCT_NENTRY"
    "\<forall>i < FILES_STRUCT_NENTRY. fds' ! i = copied_entry i (fl_array src ! i) (fds ! i)"
    "\<forall>n. node_of s' n = node_of s0 n\<lparr>ref_count := ref_count (node_of s0 n) + holders n ?is (fl_array src),
                                      open_count := open_count (node_of s0 n) + holders n ?is (fl_array src)\<rparr>"
    using dup_loop_ok [OF new n, of s0] lf by auto
  have e: "if status (fl_array src ! i) = FD_OPENED then fds' ! i = fl_array src ! i else fds' ! i = fds ! i"
    if "i < FILES_STRUCT_NENTRY" for i
    using r(3) that fd_quiet_entry [OF q that] by (auto simp: copied_entry_def quiet_entry_def opened_file_def)
  then have "fd_quiet fds'"
    using fd_quiet_entry [OF q] fd_quiet_entry [OF fd_quiet_init [OF l]] r(2) unfolding fds_def [symmetric] fd_quiet_iff by metis
  moreover have "node_of s' n = node_of s n\<lparr>ref_count := ref_count (node_of s n) + holders n ?is (fl_array src) +
        (if fl_pwd src = Some n then 1 else 0), open_count := open_count (node_of s n) + holders n ?is (fl_array src)\<rparr>" for n
    using r(4) by (auto simp: s0_def vop_ref_inc_def inode_ref_inc_def upd_inode_def Let_def split: option.split)
  ultimately show ?thesis
    using r(1) e new c by (auto simp: dup_files_def files_create_def fds_def [symmetric] s0_def [symmetric])
qed

section \<open>The examples\<close>

lemma demo_quiet: "fd_quiet (fd_array demo_vfs)"
  by (simp add: demo_vfs_def fd_quiet_init)

lemma demo_fds: "i < FILES_STRUCT_NENTRY \<Longrightarrow> fd_array demo_vfs ! i = blank_file\<lparr>f_fd := int i\<rparr>"
  by (simp add: demo_vfs_def fd_array_init_def nth_enumerate_eq blank_file_def)

lemma demo_free: "free_fd (fd_array demo_vfs) 0"
proof -
  have "0 < FILES_STRUCT_NENTRY"
    by (simp add: FILES_STRUCT_NENTRY_def)
  then show ?thesis
    by (simp add: free_fd_def demo_fds blank_file_def)
qed

lemmas open_flag_defs = O_ACCMODE_def O_RDONLY_def O_WRONLY_def O_RDWR_def O_CREAT_def O_EXCL_def O_TRUNC_def O_APPEND_def

lemma demo_open:
  "vfs_open demo_path 2 (demo_vfs\<lparr>fd_array := fds\<rparr>) = Some (Inr 3, demo_opened\<lparr>fd_array := fds\<rparr>)"
  by (simp add: demo_vfs_def demo_opened_def demo_path_def vfs_open_def Let_def open_node_def vfs_lookup_def get_device_def scan_path_def
      vfs_get_root_def open_flag_defs open_found_def vop_open_def vop_op_def dev_node_ops_def skip_slashes_def inode_check_def
      MAX_INODE_COUNT_def vop_ref_inc_def vop_open_inc_def inode_ref_inc_def inode_open_inc_def upd_inode_def dev_open_def device_of_def)

lemma demo_close: "vfs_close 3 (demo_opened\<lparr>fd_array := fds\<rparr>) = Some (demo_vfs\<lparr>fd_array := fds\<rparr>)"
  by (simp add: demo_vfs_def demo_opened_def vfs_close_def inode_open_dec_def vop_ref_inc_def vop_open_inc_def inode_ref_inc_def
      inode_open_inc_def upd_inode_def vop_close_def vop_op_def dev_node_ops_def inode_check_def MAX_INODE_COUNT_def dev_close_def
      device_of_def vop_ref_dec_def on_fs_def inode_ref_dec_def fun_upd_idem_iff)

text \<open>The device is opened as descriptor 0, descriptor 7 is refused and 0 closed again.\<close>

lemma demo_calls:
  "\<exists>s'. file_calls [Call_open demo_path 2, Call_close 7, Call_close 0] demo_vfs = Some s'"
proof -
  define fds where "fds = (fd_array demo_vfs)[0 := opened_file 0 3 0 True True]"
  have n: "0 < FILES_STRUCT_NENTRY" "7 < FILES_STRUCT_NENTRY" "length (fd_array demo_vfs) = FILES_STRUCT_NENTRY"
    using fd_quiet_length [OF demo_quiet] by (simp_all add: FILES_STRUCT_NENTRY_def)
  have c: "files_count (demo_opened\<lparr>fd_array := fds\<rparr>) = 1" "0 < files_count demo_vfs"
    by (simp_all add: demo_opened_def demo_vfs_def)
  have "file_open demo_path 2 demo_vfs = Some (Inr 0, demo_opened\<lparr>fd_array := fds\<rparr>)"
    using file_open_free [OF demo_quiet c(2) demo_free] by (simp add: demo_open open_flag_defs fds_def)
  moreover have "fds ! 0 = opened_file 0 3 0 True True" "fds ! 7 = blank_file\<lparr>f_fd := 7\<rparr>"
    using n by (simp_all add: fds_def demo_fds)
  ultimately show ?thesis
    using n c demo_close by (simp add: file_close_def fd2file_def get_fd_array_def testfd_def blank_file_def on_fds_def close_opened fds_def)
qed

section \<open>Main results\<close>

text \<open>
  C22. Between two calls the table of a process is quiet: entry \<open>i\<close> has descriptor \<open>i\<close>, and is either free with nobody
  holding it, or open, held once, with an inode. Every sequence of calls on files (open, close, read, write, seek,
  stat, sync, directory entries, dup) that returns, with whatever results and errors, leaves it so: no call leaves an
  entry half set up, still held or closed but not freed.
\<close>

theorem file_calls_quiet:
  assumes "fd_quiet (fd_array s)" "file_calls cs s = Some s'"
  shows "fd_quiet (fd_array s') \<and> files_count s' = files_count s"
  by (rule file_calls_ok [OF assms(2,1)])

theorem file_calls_quiet_witness:
  "fd_quiet (fd_array demo_vfs) \<and>
   (\<exists>s'. file_calls [Call_open demo_path 2, Call_close 7, Call_close 0] demo_vfs = Some s' \<and>
      fd_quiet (fd_array s'))"
  using demo_quiet demo_calls file_calls_quiet [OF demo_quiet] by blast

text \<open>
  C23. Opening a file with a valid access mode from a quiet table. When no entry is free the result is \<open>E_MAX_OPEN\<close> and
  nothing changes. Otherwise the file is opened by \<open>vfs_open\<close>; its error is returned and the entry is free again, and
  on success the result is the lowest free descriptor, whose entry is open for the requested access on the inode,
  with the position at the end of the file in append mode and 0 otherwise. The other entries stay as they are.
\<close>

theorem file_open_correct:
  fixes s :: fstate
  defines "fds \<equiv> fd_array s"
  assumes "fd_quiet fds" "0 < files_count s" "flags AND O_ACCMODE \<in> {O_RDONLY, O_WRONLY, O_RDWR}"
  shows "((\<forall>i < FILES_STRUCT_NENTRY. status (fds ! i) \<noteq> FD_NONE) \<longrightarrow> file_open path flags s = Some (Inl E_MAX_OPEN, s)) \<and>
      (\<forall>i. free_fd fds i \<longrightarrow>
      (case vfs_open path flags (s\<lparr>fd_array := fds[i := (fds ! i)\<lparr>status := FD_INIT, f_node := None\<rparr>]\<rparr>) of
         None \<Rightarrow> file_open path flags s = None
       | Some (Inl e, s1) \<Rightarrow>
           file_open path flags s = Some (Inl e, s1\<lparr>fd_array := fds[i := (fds ! i)\<lparr>f_node := None, status := FD_NONE\<rparr>]\<rparr>)
       | Some (Inr node, s1) \<Rightarrow>
           file_open path flags s =
             map_option (\<lambda>pos. (Inr (int i), s1\<lparr>fd_array := fds[i := opened_file i node pos
                 (flags AND O_ACCMODE \<noteq> O_WRONLY) (flags AND O_ACCMODE \<noteq> O_RDONLY)]\<rparr>))
               (if flags AND O_APPEND = 0 then Some 0 else map_option (\<lambda>st. off_t (int (st_size st))) (vop_fstat node s1))))"
proof (intro conjI allI impI)
  assume "\<forall>i < FILES_STRUCT_NENTRY. status (fds ! i) \<noteq> FD_NONE"
  then show "file_open path flags s = Some (Inl E_MAX_OPEN, s)"
    using assms(2-) fd_array_alloc_NO_FD(2) by (auto simp: fds_def file_open_def Let_def get_fd_array_def)
next
  fix i assume "free_fd fds i"
  then show "case vfs_open path flags (s\<lparr>fd_array := fds[i := (fds ! i)\<lparr>status := FD_INIT, f_node := None\<rparr>]\<rparr>) of
         None \<Rightarrow> file_open path flags s = None
       | Some (Inl e, s1) \<Rightarrow>
           file_open path flags s = Some (Inl e, s1\<lparr>fd_array := fds[i := (fds ! i)\<lparr>f_node := None, status := FD_NONE\<rparr>]\<rparr>)
       | Some (Inr node, s1) \<Rightarrow>
           file_open path flags s =
             map_option (\<lambda>pos. (Inr (int i), s1\<lparr>fd_array := fds[i := opened_file i node pos
                 (flags AND O_ACCMODE \<noteq> O_WRONLY) (flags AND O_ACCMODE \<noteq> O_RDONLY)]\<rparr>))
               (if flags AND O_APPEND = 0 then Some 0 else map_option (\<lambda>st. off_t (int (st_size st))) (vop_fstat node s1))"
    using file_open_free [of s i flags path] assms(2-) unfolding fds_def
    by (auto simp: map_option_case split: option.split sum.split prod.split)
qed

theorem file_open_correct_witness:
  "\<exists>s'. file_open demo_path 2 demo_vfs = Some (Inr 0, s') \<and> fd_array s' ! 0 = opened_file 0 3 0 True True"
proof -
  let ?fds = "fd_array demo_vfs"
  have "free_fd ?fds 0" "0 < length ?fds" "0 < files_count demo_vfs"
    by (rule demo_free) (simp_all add: demo_vfs_def fd_array_init_def FILES_STRUCT_NENTRY_def)
  then show ?thesis
    using file_open_correct [of demo_vfs 2 demo_path] demo_quiet
    by (simp add: demo_open open_flag_defs)
qed

text \<open>
  Copying the files of a process for its child never panics: the table made by \<open>files_create\<close> becomes a copy of the
  parent's, with the same working directory; every open descriptor is open in the child on the same inode with the same
  position and access, every other one is free. Each inode gains one reference and one opening per descriptor that
  refers to it, and one reference for the working directory.
\<close>

theorem dup_files_correct:
  assumes "fd_quiet (fl_array src)" "0 < fl_count src" "length page = FILES_STRUCT_NENTRY"
  shows "\<exists>dst s'. dup_files (files_create page) src s = Some (dst, s') \<and> fd_quiet (fl_array dst) \<and> fl_pwd dst = fl_pwd src \<and>
     (\<forall>i < FILES_STRUCT_NENTRY. if status (fl_array src ! i) = FD_OPENED then fl_array dst ! i = fl_array src ! i
                                  else status (fl_array dst ! i) = FD_NONE) \<and>
     (\<forall>n. node_of s' n = node_of s n\<lparr>ref_count := ref_count (node_of s n) + holders n [0..<FILES_STRUCT_NENTRY] (fl_array src) +
                                         (if fl_pwd src = Some n then 1 else 0),
                                       open_count := open_count (node_of s n) + holders n [0..<FILES_STRUCT_NENTRY] (fl_array src)\<rparr>)"
  by (rule dup_files_ok [OF assms])

theorem dup_files_correct_witness:
  "\<exists>dst s'. dup_files (files_create (replicate FILES_STRUCT_NENTRY blank_file))
       \<lparr>fl_pwd = Some 5, fl_array = (fd_array demo_vfs)[2 := opened_file 2 3 7 True False], fl_count = 1\<rparr> demo_vfs = Some (dst, s') \<and>
     fd_quiet (fl_array dst) \<and> fl_pwd dst = Some 5 \<and> f_pos (fl_array dst ! 2) = 7 \<and> open_count (node_of s' 5) = 0"
proof -
  let ?src = "\<lparr>fl_pwd = Some 5, fl_array = (fd_array demo_vfs)[2 := opened_file 2 3 7 True False], fl_count = 1\<rparr>"
  have n: "2 < FILES_STRUCT_NENTRY" "length (fd_array demo_vfs) = FILES_STRUCT_NENTRY"
    using fd_quiet_length [OF demo_quiet] by (simp_all add: FILES_STRUCT_NENTRY_def)
  have "holders 5 [0..<FILES_STRUCT_NENTRY] (fl_array ?src) = 0"
    using n by (auto simp: holders_def filter_empty_conv demo_fds nth_list_update blank_file_def)
  moreover have "open_count (node_of demo_vfs 5) = 0"
    by (simp add: demo_vfs_def)
  moreover have "fd_quiet (fl_array ?src)"
    using fd_quiet_update [OF demo_quiet] by simp
  ultimately show ?thesis
    using dup_files_correct [of ?src "replicate FILES_STRUCT_NENTRY blank_file" demo_vfs] n by fastforce
qed

end
