(* ===== verification/BlockManager.thy ===== *)
theory BlockManager
  imports Prelude
begin

text \<open>
  What the allocators of the kernel have in common: an interface for managers of blocks, and the safety of
  their clients. It is interpreted on the page allocator (theory \<open>DefaultPmm\<close>) and on the heap of small
  blocks (theory \<open>Slob\<close>).
\<close>

section \<open>Clients\<close>

text \<open>
  Runs of a client: it allocates blocks of the sizes \<open>req\<close> allows, and frees blocks it holds, with the size they
  were allocated with. The list holds the live blocks.
\<close>

inductive client_run ::
  "(nat \<Rightarrow> bool) \<Rightarrow> (nat \<Rightarrow> 'm \<Rightarrow> (nat option \<times> 'm) option) \<Rightarrow> (nat \<Rightarrow> nat \<Rightarrow> 'm \<Rightarrow> 'm option) \<Rightarrow>
    'm \<Rightarrow> 'm \<times> (nat \<times> nat) list \<Rightarrow> bool"
  for req al fr s0 where
  start: "client_run req al fr s0 (s0, [])"
| alloc: "client_run req al fr s0 (s, held) \<Longrightarrow> req n \<Longrightarrow> al n s = Some (Some b, s') \<Longrightarrow>
    client_run req al fr s0 (s', (b, n) # held)"
| alloc_fail: "client_run req al fr s0 (s, held) \<Longrightarrow> req n \<Longrightarrow> al n s = Some (None, s') \<Longrightarrow>
    client_run req al fr s0 (s', held)"
| free: "client_run req al fr s0 (s, held) \<Longrightarrow> (b, n) \<in> set held \<Longrightarrow> fr b n s = Some s' \<Longrightarrow>
    client_run req al fr s0 (s', remove1 (b, n) held)"

text \<open>The extent of the live blocks, and that no two of them overlap.\<close>

definition held_set :: "(nat \<times> nat) list \<Rightarrow> nat set" where
  "held_set held = (\<Union>(b, n)\<in>set held. {b..<b + n})"

fun held_ok :: "(nat \<times> nat) list \<Rightarrow> bool" where
  "held_ok [] \<longleftrightarrow> True"
| "held_ok ((b, n) # held) \<longleftrightarrow> 0 < n \<and> {b..<b + n} \<inter> held_set held = {} \<and> held_ok held"

lemma held_set_simps [simp]:
  "held_set [] = {}" "held_set ((b, n) # held) = {b..<b + n} \<union> held_set held"
  by (auto simp: held_set_def)

lemma held_ok_remove1:
  assumes "held_ok held" "(b, n) \<in> set held"
  shows "0 < n" and "held_set held = {b..<b + n} \<union> held_set (remove1 (b, n) held)"
    and "{b..<b + n} \<inter> held_set (remove1 (b, n) held) = {}" and "held_ok (remove1 (b, n) held)"
proof -
  have "0 < n \<and> held_set held = {b..<b + n} \<union> held_set (remove1 (b, n) held) \<and>
    {b..<b + n} \<inter> held_set (remove1 (b, n) held) = {} \<and> held_ok (remove1 (b, n) held)"
    using assms by (induction held rule: held_ok.induct) (auto split: if_splits)
  then show "0 < n" and "held_set held = {b..<b + n} \<union> held_set (remove1 (b, n) held)"
    and "{b..<b + n} \<inter> held_set (remove1 (b, n) held) = {}" and "held_ok (remove1 (b, n) held)"
    by simp_all
qed

section \<open>The interface\<close>

text \<open>\<open>free\<close> is the set of free places, \<open>avail\<close> the set of places under management.\<close>

locale block_manager =
  fixes req :: "nat \<Rightarrow> bool"
    and inv :: "'m \<Rightarrow> bool"
    and free :: "'m \<Rightarrow> nat set"
    and avail :: "'m \<Rightarrow> nat set"
    and alloc_pages :: "nat \<Rightarrow> 'm \<Rightarrow> (nat option \<times> 'm) option"
    and free_pages :: "nat \<Rightarrow> nat \<Rightarrow> 'm \<Rightarrow> 'm option"
  assumes req_pos: "req n \<Longrightarrow> 0 < n"
    and alloc_sound: "inv s \<Longrightarrow> req n \<Longrightarrow> alloc_pages n s = Some (r, s') \<Longrightarrow> inv s' \<and> avail s' = avail s \<and>
        (case r of None \<Rightarrow> free s' = free s
         | Some b \<Rightarrow> {b..<b + n} \<subseteq> free s \<and> free s' = free s - {b..<b + n})"
    and free_ok: "inv s \<Longrightarrow> req n \<Longrightarrow> {b..<b + n} \<subseteq> avail s - free s \<Longrightarrow>
      \<exists>s'. free_pages b n s = Some s' \<and> inv s' \<and> avail s' = avail s \<and>
        free s' = free s \<union> {b..<b + n}"
    and free_avail: "inv s \<Longrightarrow> free s \<subseteq> avail s"
begin

lemma client_inv:
  assumes "client_run req alloc_pages free_pages s0 c" "inv s0"
  shows "inv (fst c) \<and> held_ok (snd c) \<and> held_set (snd c) \<inter> free (fst c) = {} \<and>
    held_set (snd c) \<union> free (fst c) = free s0 \<and> avail (fst c) = avail s0 \<and> (\<forall>(b, n) \<in> set (snd c). req n)"
  using assms
proof (induction rule: client_run.induct)
  case start
  then show ?case by (simp add: held_set_def)
next
  case (alloc s held n b s')
  then have "inv s" by simp
  from alloc_sound [OF this alloc.hyps(2,3)] alloc req_pos [OF alloc.hyps(2)] show ?case
    by (auto simp: held_set_def)
next
  case (alloc_fail s held n s')
  then have "inv s" by simp
  from alloc_sound [OF this alloc_fail.hyps(2,3)] alloc_fail show ?case
    by auto
next
  case (free s held b n s')
  then have I: "inv s" "held_ok held" "held_set held \<inter> free s = {}"
    "held_set held \<union> free s = free s0" "avail s = avail s0" "\<forall>(b, n) \<in> set held. req n"
    by simp_all
  note rem = held_ok_remove1 [OF I(2) free.hyps(2)]
  have "{b..<b + n} \<subseteq> avail s - free s" "req n"
    using free_avail [OF free.prems] I(3-6) rem(2,3) free.hyps(2) by auto
  from free_ok [OF I(1) this(2,1)] free.hyps(3) I rem show ?case
    by (auto dest: notin_set_remove1)
qed

text \<open>Freeing a live block never fails an assertion.\<close>

lemma client_free_ok:
  assumes "client_run req alloc_pages free_pages s0 (s, held)" "inv s0" "(b, n) \<in> set held"
  shows "\<exists>s'. free_pages b n s = Some s'"
proof -
  from client_inv [OF assms(1,2)] have I: "inv s" "held_ok held" "held_set held \<inter> free s = {}"
    "held_set held \<union> free s = free s0" "avail s = avail s0" "\<forall>(b, n) \<in> set held. req n"
    by simp_all
  note rem = held_ok_remove1 [OF I(2) assms(3)]
  have "{b..<b + n} \<subseteq> avail s - free s" "req n"
    using free_avail [OF assms(2)] I(3-6) rem(2,3) assms(3) by auto
  from free_ok [OF I(1) this(2,1)] show ?thesis by blast
qed

end

end
