(* ===== verification/DefaultPmm.thy ===== *)
theory DefaultPmm
  imports KList BlockManager
begin

text \<open>
  The first-fit physical page allocator (\<^verbatim>\<open>kern/mm/default_pmm.c\<close>, with \<open>struct Page\<close> and
  \<open>free_area_t\<close> of \<^verbatim>\<open>kern/mm/memlayout.h\<close>).

  A \<open>struct Page *\<close> is the index of the page descriptor in the array \<open>pages\<close>, so pointer
  comparison and \<open>base + n\<close> are comparison and addition of naturals. The circular list
  \<open>free_list\<close> is the list of the indices it links; theory \<open>KList\<close> shows that the list
  operations of the code act on it as the list operations used here. \<open>property\<close> and \<open>nr_free\<close>
  are \<open>unsigned int\<close> in C: the invariant bounds both by \<open>npage\<close>, which is 2048, so they do not wrap.
\<close>

section \<open>Data\<close>

record page =
  pg_ref :: int
  pg_flags :: u32
  pg_property :: nat
  pra_vaddr :: u32

record pmm =
  pages :: "nat \<Rightarrow> page"
  npage :: nat
  free_list :: "nat list"
  nr_free :: nat

definition PG_reserved :: nat where "PG_reserved = 0"

definition PG_property :: nat where "PG_property = 1"

definition upd_page :: "nat \<Rightarrow> (page \<Rightarrow> page) \<Rightarrow> pmm \<Rightarrow> pmm" where
  "upd_page p f s = s\<lparr>pages := (pages s)(p := f (pages s p))\<rparr>"

definition PageReserved :: "page \<Rightarrow> bool" where
  "PageReserved p = atomic_test_bit PG_reserved (pg_flags p)"

definition SetPageReserved :: "page \<Rightarrow> page" where
  "SetPageReserved p = p\<lparr>pg_flags := atomic_set_bit PG_reserved (pg_flags p)\<rparr>"

definition ClearPageReserved :: "page \<Rightarrow> page" where
  "ClearPageReserved p = p\<lparr>pg_flags := atomic_clear_bit PG_reserved (pg_flags p)\<rparr>"

definition PageProperty :: "page \<Rightarrow> bool" where
  "PageProperty p = atomic_test_bit PG_property (pg_flags p)"

definition SetPageProperty :: "page \<Rightarrow> page" where
  "SetPageProperty p = p\<lparr>pg_flags := atomic_set_bit PG_property (pg_flags p)\<rparr>"

definition ClearPageProperty :: "page \<Rightarrow> page" where
  "ClearPageProperty p = p\<lparr>pg_flags := atomic_clear_bit PG_property (pg_flags p)\<rparr>"

definition set_page_ref :: "int \<Rightarrow> page \<Rightarrow> page" where
  "set_page_ref v p = p\<lparr>pg_ref := v\<rparr>"

section \<open>Operations\<close>

text \<open>
  \<open>default_list_add\<close> walks the free list from its head; the recursion is the loop, \<open>[]\<close> the
  case where the walk came back to the head and the entry goes in front of it, at the tail.
\<close>

fun list_add_loop :: "(nat \<Rightarrow> page) \<Rightarrow> nat \<Rightarrow> nat list \<Rightarrow> nat list option" where
  "list_add_loop pg base [] = Some [base]"
| "list_add_loop pg base (p # ps) =
     do { kassert (base \<noteq> p);
          if base < p then
            do { kassert (base + pg_property (pg base) \<le> p); Some (base # p # ps) }
          else
            do { kassert (p + pg_property (pg p) \<le> base);
                 ps' \<leftarrow> list_add_loop pg base ps;
                 Some (p # ps') } }"

definition default_list_add :: "nat \<Rightarrow> pmm \<Rightarrow> pmm option" where
  "default_list_add base s =
     do { xs \<leftarrow> list_add_loop (pages s) base (free_list s); Some (s\<lparr>free_list := xs\<rparr>) }"

definition default_init :: "pmm \<Rightarrow> pmm" where
  "default_init s = s\<lparr>free_list := [], nr_free := 0\<rparr>"

text \<open>The loop over the pages \<open>p\<close>, \<open>p + 1\<close>, ... of a block, \<open>k\<close> of them left.\<close>

fun init_memmap_loop :: "nat \<Rightarrow> nat \<Rightarrow> pmm \<Rightarrow> pmm option" where
  "init_memmap_loop p 0 s = Some s"
| "init_memmap_loop p (Suc k) s =
     do { kassert (PageReserved (pages s p));
          init_memmap_loop (Suc p) k
            (upd_page p (\<lambda>q. set_page_ref 0 (q\<lparr>pg_flags := 0, pg_property := 0\<rparr>)) s) }"

definition default_init_memmap :: "nat \<Rightarrow> nat \<Rightarrow> pmm \<Rightarrow> pmm option" where
  "default_init_memmap base n s =
     do { kassert (n > 0);
          s \<leftarrow> init_memmap_loop base n s;
          let s = upd_page base (\<lambda>q. SetPageProperty (q\<lparr>pg_property := n\<rparr>)) s;
          default_list_add base (s\<lparr>nr_free := nr_free s + n\<rparr>) }"

fun find_fit :: "(nat \<Rightarrow> page) \<Rightarrow> nat \<Rightarrow> nat list \<Rightarrow> nat option" where
  "find_fit pg n [] = None"
| "find_fit pg n (p # ps) = (if pg_property (pg p) \<ge> n then Some p else find_fit pg n ps)"

text \<open>
  \<open>list_del\<close> of the chosen block followed by \<open>list_add\<close> of the remainder after the block's old
  predecessor puts the remainder in the block's place.
\<close>

fun list_replace :: "nat \<Rightarrow> nat \<Rightarrow> nat list \<Rightarrow> nat list" where
  "list_replace x y [] = []"
| "list_replace x y (z # zs) = (if z = x then y # zs else z # list_replace x y zs)"

definition default_alloc_pages :: "nat \<Rightarrow> pmm \<Rightarrow> (nat option \<times> pmm) option" where
  "default_alloc_pages n s =
     do { kassert (n > 0);
          if n > nr_free s then Some (None, s)
          else
            case find_fit (pages s) n (free_list s) of
              None \<Rightarrow> Some (None, s)
            | Some page \<Rightarrow>
                let s1 =
                  (if pg_property (pages s page) > n then
                     (upd_page (page + n)
                        (\<lambda>q. SetPageProperty (q\<lparr>pg_property := pg_property (pages s page) - n\<rparr>)) s)
                       \<lparr>free_list := list_replace page (page + n) (free_list s)\<rparr>
                   else s\<lparr>free_list := remove1 page (free_list s)\<rparr>)
                in Some (Some page,
                     upd_page page ClearPageProperty (s1\<lparr>nr_free := nr_free s1 - n\<rparr>)) }"

fun free_pages_loop :: "nat \<Rightarrow> nat \<Rightarrow> pmm \<Rightarrow> pmm option" where
  "free_pages_loop p 0 s = Some s"
| "free_pages_loop p (Suc k) s =
     do { kassert (\<not> PageReserved (pages s p) \<and> \<not> PageProperty (pages s p));
          free_pages_loop (Suc p) k (upd_page p (\<lambda>q. set_page_ref 0 (q\<lparr>pg_flags := 0\<rparr>)) s) }"

text \<open>
  The merging loop: it visits the blocks of the free list in order, joins \<open>base\<close> with a block
  that follows or precedes it immediately, and unlinks the joined block. The result is the
  page array, the base of the merged block and the blocks that stay linked.
\<close>

fun free_merge :: "(nat \<Rightarrow> page) \<Rightarrow> nat \<Rightarrow> nat list \<Rightarrow> (nat \<Rightarrow> page) \<times> nat \<times> nat list" where
  "free_merge pg base [] = (pg, base, [])"
| "free_merge pg base (p # ps) =
     (if base + pg_property (pg base) = p then
        free_merge
          (pg(base := (pg base)\<lparr>pg_property := pg_property (pg base) + pg_property (pg p)\<rparr>,
              p := ClearPageProperty (pg p)))
          base ps
      else if p + pg_property (pg p) = base then
        free_merge
          (pg(p := (pg p)\<lparr>pg_property := pg_property (pg p) + pg_property (pg base)\<rparr>,
              base := ClearPageProperty (pg base)))
          p ps
      else (let (pg', base', ks) = free_merge pg base ps in (pg', base', p # ks)))"

definition default_free_pages :: "nat \<Rightarrow> nat \<Rightarrow> pmm \<Rightarrow> pmm option" where
  "default_free_pages base n s =
     do { kassert (n > 0);
          s \<leftarrow> free_pages_loop base n s;
          let s = upd_page base (\<lambda>q. SetPageProperty (q\<lparr>pg_property := n\<rparr>)) s;
          let (pg, base', ks) = free_merge (pages s) base (free_list s);
          default_list_add base' (s\<lparr>pages := pg, free_list := ks, nr_free := nr_free s + n\<rparr>) }"

definition default_nr_free_pages :: "pmm \<Rightarrow> nat" where
  "default_nr_free_pages s = nr_free s"

section \<open>Specification\<close>

text \<open>
  \<open>blocks_ok pg lo xs hi\<close>: the blocks headed by \<open>xs\<close> are non-empty, lie in \<open>[lo, hi)\<close>, in
  increasing order and without overlap. \<open>coalesced\<close>: no block ends where the next one starts.
\<close>

abbreviation blk_end :: "(nat \<Rightarrow> page) \<Rightarrow> nat \<Rightarrow> nat" where
  "blk_end pg p \<equiv> p + pg_property (pg p)"

fun blocks_ok :: "(nat \<Rightarrow> page) \<Rightarrow> nat \<Rightarrow> nat list \<Rightarrow> nat \<Rightarrow> bool" where
  "blocks_ok pg lo [] hi \<longleftrightarrow> lo \<le> hi"
| "blocks_ok pg lo (p # ps) hi \<longleftrightarrow>
     lo \<le> p \<and> 0 < pg_property (pg p) \<and> blocks_ok pg (blk_end pg p) ps hi"

fun coalesced :: "(nat \<Rightarrow> page) \<Rightarrow> nat list \<Rightarrow> bool" where
  "coalesced pg (p # q # ps) \<longleftrightarrow> blk_end pg p \<noteq> q \<and> coalesced pg (q # ps)"
| "coalesced pg _ \<longleftrightarrow> True"

definition blk_union :: "(nat \<Rightarrow> page) \<Rightarrow> nat list \<Rightarrow> nat set" where
  "blk_union pg xs = (\<Union>p\<in>set xs. {p..<blk_end pg p})"

definition blk_sum :: "(nat \<Rightarrow> page) \<Rightarrow> nat list \<Rightarrow> nat" where
  "blk_sum pg xs = (\<Sum>p\<leftarrow>xs. pg_property (pg p))"

definition free_set :: "pmm \<Rightarrow> nat set" where
  "free_set s = blk_union (pages s) (free_list s)"

definition pmm_inv :: "pmm \<Rightarrow> bool" where
  "pmm_inv s \<longleftrightarrow>
     blocks_ok (pages s) 0 (free_list s) (npage s) \<and>
     nr_free s = blk_sum (pages s) (free_list s) \<and>
     (\<forall>p < npage s. PageProperty (pages s p) \<longleftrightarrow> p \<in> set (free_list s)) \<and>
     (\<forall>p \<in> free_set s. \<not> PageReserved (pages s p))"

text \<open>The pages that may ever be free: those that exist and are not reserved.\<close>

definition avail_set :: "pmm \<Rightarrow> nat set" where
  "avail_set s = {p. p < npage s \<and> \<not> PageReserved (pages s p)}"

text \<open>A machine of six pages, all usable: pages 1, 2 and 4 are free, 0, 3 and 5 are in use.\<close>

definition six_pages :: pmm where
  "six_pages =
     \<lparr>pages = \<lambda>p. \<lparr>pg_ref = 0, pg_flags = if p = 1 \<or> p = 4 then 2 else 0,
        pg_property = if p = 1 then 2 else if p = 4 then 1 else 0, pra_vaddr = 0\<rparr>,
      npage = 6, free_list = [1, 4], nr_free = 3\<rparr>"

section \<open>The page manager interface\<close>

text \<open>
  \<open>struct pmm_manager\<close> of \<^verbatim>\<open>kern/mm/pmm.h\<close>: the operations the rest of the kernel calls, and what
  it relies on beyond the interface of a block manager: requests are always answered, and a single page is
  given whenever one is free.
\<close>

locale pmm_manager = block_manager "\<lambda>n. 0 < n" inv free avail alloc_pages free_pages
  for inv :: "'m \<Rightarrow> bool"
    and free :: "'m \<Rightarrow> nat set"
    and avail :: "'m \<Rightarrow> nat set"
    and alloc_pages :: "nat \<Rightarrow> 'm \<Rightarrow> (nat option \<times> 'm) option"
    and free_pages :: "nat \<Rightarrow> nat \<Rightarrow> 'm \<Rightarrow> 'm option" +
  fixes nr_free_pages :: "'m \<Rightarrow> nat"
  assumes alloc_total: "inv s \<Longrightarrow> 0 < n \<Longrightarrow> \<exists>r s'. alloc_pages n s = Some (r, s')"
    and alloc_one: "inv s \<Longrightarrow> free s \<noteq> {} \<Longrightarrow> \<exists>b s'. alloc_pages 1 s = Some (Some b, s')"
    and nr_ok: "inv s \<Longrightarrow> nr_free_pages s = card (free s)"
begin

lemma alloc_ok:
  assumes "inv s" "0 < n"
  shows "\<exists>r s'. alloc_pages n s = Some (r, s') \<and> inv s' \<and> avail s' = avail s \<and>
    (case r of None \<Rightarrow> free s' = free s
     | Some b \<Rightarrow> {b..<b + n} \<subseteq> free s \<and> free s' = free s - {b..<b + n})"
  using alloc_total [OF assms] alloc_sound [OF assms] by blast

end

section \<open>Flag and block lemmas\<close>

named_theorems page_simps \<open>page descriptor fields under the flag operations\<close>

lemmas page_flag_defs = PageReserved_def SetPageReserved_def ClearPageReserved_def
  PageProperty_def SetPageProperty_def ClearPageProperty_def PG_reserved_def PG_property_def
  set_page_ref_def

lemma page_flags_simps [page_simps, simp]:
  "pg_property (SetPageProperty q) = pg_property q"
  "pg_property (ClearPageProperty q) = pg_property q"
  "pg_property (set_page_ref v q) = pg_property q"
  "pg_flags (set_page_ref v q) = pg_flags q"
  "PageProperty (SetPageProperty q)"
  "\<not> PageProperty (ClearPageProperty q)"
  "PageReserved (SetPageProperty q) = PageReserved q"
  "PageReserved (ClearPageProperty q) = PageReserved q"
  "PageReserved (q\<lparr>pg_property := n\<rparr>) = PageReserved q"
  "PageProperty (q\<lparr>pg_property := n\<rparr>) = PageProperty q"
  "\<not> PageReserved (set_page_ref v (q\<lparr>pg_flags := 0\<rparr>))"
  "\<not> PageProperty (set_page_ref v (q\<lparr>pg_flags := 0\<rparr>))"
  "\<not> PageReserved (set_page_ref v (q\<lparr>pg_flags := 0, pg_property := n\<rparr>))"
  "\<not> PageProperty (set_page_ref v (q\<lparr>pg_flags := 0, pg_property := n\<rparr>))"
  by (simp_all add: page_flag_defs)

lemma upd_page_simps [simp]:
  "pages (upd_page p f s) = (pages s)(p := f (pages s p))"
  "npage (upd_page p f s) = npage s"
  "free_list (upd_page p f s) = free_list s"
  "nr_free (upd_page p f s) = nr_free s"
  by (simp_all add: upd_page_def)

lemma blk_union_simps [simp]:
  "blk_union pg [] = {}"
  "blk_union pg (p # ps) = {p..<blk_end pg p} \<union> blk_union pg ps"
  "blk_union pg (xs @ ys) = blk_union pg xs \<union> blk_union pg ys"
  by (auto simp: blk_union_def)

lemma blk_sum_simps [simp]:
  "blk_sum pg [] = 0"
  "blk_sum pg (p # ps) = pg_property (pg p) + blk_sum pg ps"
  "blk_sum pg (xs @ ys) = blk_sum pg xs + blk_sum pg ys"
  by (simp_all add: blk_sum_def)

lemma blocks_ok_le: "blocks_ok pg lo xs hi \<Longrightarrow> lo \<le> hi"
  by (induction xs arbitrary: lo) fastforce+

lemma blocks_ok_weaken: "blocks_ok pg lo xs hi \<Longrightarrow> lo' \<le> lo \<Longrightarrow> blocks_ok pg lo' xs hi"
  by (cases xs) auto

lemma blocks_ok_extend: "blocks_ok pg lo xs hi \<Longrightarrow> hi \<le> hi' \<Longrightarrow> blocks_ok pg lo xs hi'"
  by (induction xs arbitrary: lo) auto

lemma blocks_ok_append:
  "blocks_ok pg lo (xs @ ys) hi \<longleftrightarrow> (\<exists>mid. blocks_ok pg lo xs mid \<and> blocks_ok pg mid ys hi)"
proof (induction xs arbitrary: lo)
  case Nil
  then show ?case by (auto intro: blocks_ok_weaken)
qed auto

lemma blocks_ok_mem:
  "blocks_ok pg lo xs hi \<Longrightarrow> p \<in> set xs \<Longrightarrow> lo \<le> p \<and> 0 < pg_property (pg p) \<and> blk_end pg p \<le> hi"
proof (induction xs arbitrary: lo)
  case (Cons x xs)
  then show ?case
    by (fastforce dest: blocks_ok_le)
qed simp

lemma blocks_ok_union: "blocks_ok pg lo xs hi \<Longrightarrow> blk_union pg xs \<subseteq> {lo..<hi}"
  by (fastforce simp: blk_union_def dest: blocks_ok_mem)

lemma blocks_ok_distinct: "blocks_ok pg lo xs hi \<Longrightarrow> distinct xs"
  by (induction xs arbitrary: lo) (auto dest: blocks_ok_mem)

lemma blocks_ok_cong:
  "(\<And>p. p \<in> set xs \<Longrightarrow> pg_property (pg p) = pg_property (pg' p)) \<Longrightarrow>
    blocks_ok pg lo xs hi = blocks_ok pg' lo xs hi"
  by (induction xs arbitrary: lo) auto

lemma blk_union_cong:
  "(\<And>p. p \<in> set xs \<Longrightarrow> pg_property (pg p) = pg_property (pg' p)) \<Longrightarrow>
    blk_union pg xs = blk_union pg' xs"
  by (auto simp: blk_union_def)

lemma blk_sum_cong:
  "(\<And>p. p \<in> set xs \<Longrightarrow> pg_property (pg p) = pg_property (pg' p)) \<Longrightarrow>
    blk_sum pg xs = blk_sum pg' xs"
  by (induction xs) auto

lemma coalesced_cong:
  "(\<And>p. p \<in> set xs \<Longrightarrow> pg_property (pg p) = pg_property (pg' p)) \<Longrightarrow>
    coalesced pg xs = coalesced pg' xs"
  by (induction xs rule: induct_list012) auto

lemmas blk_congs = blocks_ok_cong blk_union_cong blk_sum_cong coalesced_cong

lemma blk_sum_card: "blocks_ok pg lo xs hi \<Longrightarrow> blk_sum pg xs = card (blk_union pg xs)"
proof (induction xs arbitrary: lo)
  case (Cons x xs)
  then have "blocks_ok pg (blk_end pg x) xs hi" by simp
  then have "blk_union pg xs \<subseteq> {blk_end pg x..<hi}"
    by (rule blocks_ok_union)
  then have "{x..<blk_end pg x} \<inter> blk_union pg xs = {}" and "finite (blk_union pg xs)"
    by (auto intro: finite_subset)
  moreover have "blk_sum pg xs = card (blk_union pg xs)"
    using Cons.IH Cons.prems by auto
  ultimately show ?case
    by (simp add: card_Un_disjoint)
qed simp

lemma blk_sum_ge: "p \<in> set xs \<Longrightarrow> pg_property (pg p) \<le> blk_sum pg xs"
  by (induction xs) auto

lemma coalesced_Cons:
  "coalesced pg (p # ps) \<longleftrightarrow> coalesced pg ps \<and> (ps \<noteq> [] \<longrightarrow> blk_end pg p \<noteq> hd ps)"
  by (cases ps) auto

section \<open>Allocation\<close>

lemma find_fit_Some:
  "find_fit pg n xs = Some p \<Longrightarrow>
    \<exists>pre post. xs = pre @ p # post \<and> (\<forall>q\<in>set pre. pg_property (pg q) < n) \<and> n \<le> pg_property (pg p)"
proof (induction xs)
  case (Cons x xs)
  show ?case
  proof (cases "n \<le> pg_property (pg x)")
    case True
    with Cons.prems show ?thesis by fastforce
  next
    case False
    with Cons obtain pre post where "xs = pre @ p # post"
      "\<forall>q\<in>set pre. pg_property (pg q) < n" "n \<le> pg_property (pg p)"
      by auto
    with False have "x # xs = (x # pre) @ p # post \<and>
        (\<forall>q\<in>set (x # pre). pg_property (pg q) < n) \<and> n \<le> pg_property (pg p)"
      by simp
    then show ?thesis by blast
  qed
qed simp

lemma find_fit_None: "find_fit pg n xs = None \<longleftrightarrow> (\<forall>p\<in>set xs. pg_property (pg p) < n)"
  by (induction xs) auto

lemma list_replace_split:
  "x \<notin> set pre \<Longrightarrow> list_replace x y (pre @ x # post) = pre @ y # post"
  by (induction pre) auto

text \<open>
  What an allocation of \<open>n\<close> pages does to the free blocks, on the block list: the chosen block
  shrinks from its front, or disappears when it fits exactly.
\<close>

definition take_block :: "pmm \<Rightarrow> nat \<Rightarrow> nat \<Rightarrow> pmm" where
  "take_block s page n =
     (let s1 =
        (if pg_property (pages s page) > n then
           (upd_page (page + n)
              (\<lambda>q. SetPageProperty (q\<lparr>pg_property := pg_property (pages s page) - n\<rparr>)) s)
             \<lparr>free_list := list_replace page (page + n) (free_list s)\<rparr>
         else s\<lparr>free_list := remove1 page (free_list s)\<rparr>)
      in upd_page page ClearPageProperty (s1\<lparr>nr_free := nr_free s1 - n\<rparr>))"

lemma default_alloc_pages_eq:
  "0 < n \<Longrightarrow> default_alloc_pages n s =
     (if n > nr_free s then Some (None, s)
      else case find_fit (pages s) n (free_list s) of
             None \<Rightarrow> Some (None, s)
           | Some page \<Rightarrow> Some (Some page, take_block s page n))"
  by (simp add: default_alloc_pages_def take_block_def bind_kassert Let_def split: option.splits)

lemma free_list_split:
  assumes "pmm_inv s" "free_list s = pre @ page # post"
  shows "blocks_ok (pages s) 0 pre page"
    and "blocks_ok (pages s) (blk_end (pages s) page) post (npage s)"
    and "\<forall>q \<in> set pre. blk_end (pages s) q \<le> page \<and> 0 < pg_property (pages s q)"
    and "\<forall>q \<in> set post. blk_end (pages s) page \<le> q"
    and "blk_end (pages s) page \<le> npage s"
proof -
  from assms obtain mid where m: "blocks_ok (pages s) 0 pre mid" "mid \<le> page"
    "blocks_ok (pages s) (blk_end (pages s) page) post (npage s)"
    by (auto simp: pmm_inv_def blocks_ok_append)
  from m(1,2) show p: "blocks_ok (pages s) 0 pre page"
    by (rule blocks_ok_extend)
  from m(3) show "blocks_ok (pages s) (blk_end (pages s) page) post (npage s)" .
  from p show "\<forall>q \<in> set pre. blk_end (pages s) q \<le> page \<and> 0 < pg_property (pages s q)"
    by (blast dest: blocks_ok_mem)
  from m(3) show "\<forall>q \<in> set post. blk_end (pages s) page \<le> q"
    by (blast dest: blocks_ok_mem)
  from m(3) show "blk_end (pages s) page \<le> npage s"
    by (rule blocks_ok_le)
qed

text \<open>
  The effect on the blocks, stated on the list alone: \<open>page\<close> loses its first \<open>n\<close> pages, so it is
  replaced by \<open>[page + n]\<close> or, when it had exactly \<open>n\<close> pages, by nothing.
\<close>

lemma shrink_block:
  assumes "blocks_ok pg lo (pre @ page # post) hi" "0 < n" "n \<le> pg_property (pg page)"
    and "\<And>q. q \<in> set pre \<union> set post \<Longrightarrow> pg_property (pg' q) = pg_property (pg q)"
    and "rest = (if n = pg_property (pg page) then [] else [page + n])"
    and "n < pg_property (pg page) \<Longrightarrow> pg_property (pg' (page + n)) = pg_property (pg page) - n"
  shows "blocks_ok pg' lo (pre @ rest @ post) hi \<and>
    blk_union pg' (pre @ rest @ post) = blk_union pg (pre @ page # post) - {page..<page + n} \<and>
    blk_sum pg' (pre @ rest @ post) = blk_sum pg (pre @ page # post) - n \<and>
    (coalesced pg (pre @ page # post) \<longrightarrow> coalesced pg' (pre @ rest @ post))"
  using assms
proof (induction pre arbitrary: lo)
  case Nil
  have post: "blocks_ok pg' (blk_end pg page) post hi" "blk_union pg' post = blk_union pg post"
    "blk_sum pg' post = blk_sum pg post" "coalesced pg' post = coalesced pg post"
    using Nil.prems(1,4) blk_congs [of post pg pg'] by simp_all
  have "blk_union pg post \<subseteq> {blk_end pg page..<hi}"
    using Nil.prems(1) by (intro blocks_ok_union) simp
  with Nil post show ?case
    by (auto simp: coalesced_Cons intro: blocks_ok_weaken)
next
  case (Cons x pre)
  have x: "pg_property (pg' x) = pg_property (pg x)"
    using Cons.prems(4) by simp
  have IH: "blocks_ok pg' (blk_end pg x) (pre @ rest @ post) hi \<and>
    blk_union pg' (pre @ rest @ post) = blk_union pg (pre @ page # post) - {page..<page + n} \<and>
    blk_sum pg' (pre @ rest @ post) = blk_sum pg (pre @ page # post) - n \<and>
    (coalesced pg (pre @ page # post) \<longrightarrow> coalesced pg' (pre @ rest @ post))"
    using Cons.prems by (intro Cons.IH) auto
  have ge: "blk_end pg x \<le> q" if "q \<in> set (pre @ page # post)" for q
    using Cons.prems(1) that by (auto dest: blocks_ok_mem)
  let ?L = "pre @ page # post" and ?L' = "pre @ rest @ post"
  have n_le: "n \<le> blk_sum pg ?L"
    using Cons.prems(3) by simp
  have hd_L': "hd (pre @ rest @ post) = hd (pre @ page # post) \<or>
      blk_end pg x < hd (pre @ rest @ post)" if "pre @ rest @ post \<noteq> []"
    using that ge [of page] Cons.prems(1,2,3,5)
    by (cases pre; cases post) (auto dest: blocks_ok_mem)
  have "coalesced pg' (x # ?L')" if "coalesced pg (x # ?L)"
  proof -
    from that have "coalesced pg ?L" "blk_end pg x \<noteq> hd ?L"
      by (auto simp: coalesced_Cons)
    moreover from IH this(1) have "coalesced pg' ?L'"
      by simp
    ultimately show ?thesis
      using hd_L' x unfolding coalesced_Cons by auto
  qed
  moreover have "blocks_ok pg' lo (x # ?L') hi"
    using IH x Cons.prems(1) by simp
  moreover have "blk_union pg' (x # ?L') = blk_union pg (x # ?L) - {page..<page + n}"
  proof -
    have "{x..<blk_end pg x} \<inter> {page..<page + n} = {}"
      using ge [of page] by auto
    then show ?thesis
      using IH unfolding blk_union_simps(2) x by blast
  qed
  moreover have "blk_sum pg' (x # ?L') = blk_sum pg (x # ?L) - n"
    using IH x n_le by (simp only: blk_sum_simps(2))
  ultimately show ?case
    by simp
qed

lemma take_block_shape:
  assumes "0 < n" "page \<notin> set pre" "free_list s = pre @ page # post"
    "n \<le> pg_property (pages s page)"
  shows "free_list (take_block s page n) =
      pre @ (if n = pg_property (pages s page) then [] else [page + n]) @ post"
    and "pages (take_block s page n) q =
      (if q = page then ClearPageProperty (pages s page)
       else if q = page + n \<and> n < pg_property (pages s page) then
         SetPageProperty ((pages s q)\<lparr>pg_property := pg_property (pages s page) - n\<rparr>)
       else pages s q)"
    and "npage (take_block s page n) = npage s"
    and "nr_free (take_block s page n) = nr_free s - n"
  using assms by (auto simp: take_block_def Let_def list_replace_split remove1_append)

lemma take_block_correct:
  assumes inv: "pmm_inv s" and fl: "free_list s = pre @ page # post"
    and n: "0 < n" "n \<le> pg_property (pages s page)"
  shows "pmm_inv (take_block s page n)"
    and "free_set (take_block s page n) = free_set s - {page..<page + n}"
    and "coalesced (pages s) (free_list s) \<Longrightarrow>
      coalesced (pages (take_block s page n)) (free_list (take_block s page n))"
proof -
  note sp = free_list_split [OF inv fl]
  have notin: "page \<notin> set pre \<union> set post"
    "n < pg_property (pages s page) \<Longrightarrow> page + n \<notin> set pre \<union> set post"
    using sp(3,4) n by fastforce+
  then have "page \<notin> set pre" by simp
  note shape = take_block_shape [OF n(1) this fl n(2)]
  let ?s = "take_block s page n"
  have blocks: "blocks_ok (pages s) 0 (pre @ page # post) (npage s)"
    using inv fl by (simp add: pmm_inv_def)
  have shrink: "blocks_ok (pages ?s) 0 (free_list ?s) (npage s) \<and>
    blk_union (pages ?s) (free_list ?s) =
      blk_union (pages s) (pre @ page # post) - {page..<page + n} \<and>
    blk_sum (pages ?s) (free_list ?s) = blk_sum (pages s) (pre @ page # post) - n \<and>
    (coalesced (pages s) (pre @ page # post) \<longrightarrow> coalesced (pages ?s) (free_list ?s))"
    unfolding shape(1) using notin n by (intro shrink_block [OF blocks]) (auto simp: shape(2))
  then show un: "free_set ?s = free_set s - {page..<page + n}"
    by (simp add: free_set_def fl)
  from shrink show "coalesced (pages s) (free_list s) \<Longrightarrow> coalesced (pages ?s) (free_list ?s)"
    by (simp add: fl)
  have "PageProperty (pages ?s p) \<longleftrightarrow> p \<in> set (free_list ?s)" if "p < npage s" for p
    using inv that notin n by (auto simp: shape pmm_inv_def fl)
  moreover have "\<not> PageReserved (pages ?s p)" if "p \<in> free_set ?s" for p
    using inv that by (auto simp: un shape(2) pmm_inv_def)
  ultimately show "pmm_inv ?s"
    using shrink inv by (simp add: pmm_inv_def shape(3,4) fl)
qed

section \<open>Freeing\<close>

text \<open>What the merging loop touches, independently of where the blocks lie.\<close>

lemma free_merge_frame:
  "free_merge pg b xs = (pg', b', ks) \<Longrightarrow> distinct (b # xs) \<Longrightarrow>
    (\<forall>q. PageReserved (pg' q) = PageReserved (pg q)) \<and>
    (\<forall>q. q \<notin> insert b (set xs) \<longrightarrow> pg' q = pg q) \<and>
    set ks \<subseteq> set xs \<and> b' \<in> insert b (set xs) \<and> b' \<notin> set ks \<and>
    (\<forall>q \<in> set ks. pg' q = pg q)"
proof (induction pg b xs arbitrary: pg' b' ks rule: free_merge.induct)
  case (1 pg b)
  then show ?case by simp
next
  case (2 pg b p ps)
  consider "blk_end pg b = p" | "blk_end pg b \<noteq> p" "blk_end pg p = b"
    | "blk_end pg b \<noteq> p" "blk_end pg p \<noteq> b"
    by blast
  then show ?case
  proof cases
    case 1
    let ?pg = "pg(b := (pg b)\<lparr>pg_property := pg_property (pg b) + pg_property (pg p)\<rparr>,
      p := ClearPageProperty (pg p))"
    have m: "free_merge ?pg b ps = (pg', b', ks)"
      using "2.prems"(1) 1 by simp
    have "distinct (b # ps)" "p \<notin> insert b (set ps)"
      using "2.prems"(2) by auto
    with "2.IH"(1) [OF 1 m] show ?thesis
      by (auto split: if_splits)
  next
    case 2
    let ?pg = "pg(p := (pg p)\<lparr>pg_property := pg_property (pg p) + pg_property (pg b)\<rparr>,
      b := ClearPageProperty (pg b))"
    have m: "free_merge ?pg p ps = (pg', b', ks)"
      using "2.prems"(1) 2 by simp
    have "distinct (p # ps)" "b \<notin> insert p (set ps)"
      using "2.prems"(2) by auto
    with "2.IH"(2) [OF 2 m] show ?thesis
      by (auto split: if_splits)
  next
    case 3
    with "2.prems"(1) obtain ks' where ks': "free_merge pg b ps = (pg', b', ks')" "ks = p # ks'"
      by (auto split: prod.splits)
    have "distinct (b # ps)" "p \<notin> insert b (set ps)"
      using "2.prems"(2) by auto
    with ks'(2) "2.IH"(3) [OF 3 ks'(1)] show ?thesis
      by (auto simp del: free_merge.simps)
  qed
qed

lemma free_merge_flags:
  "free_merge pg b xs = (pg', b', ks) \<Longrightarrow> distinct (b # xs) \<Longrightarrow>
    \<forall>q \<in> insert b (set xs). PageProperty (pg q) \<Longrightarrow> q \<in> insert b (set xs) \<Longrightarrow>
    PageProperty (pg' q) \<longleftrightarrow> q \<in> insert b' (set ks)"
proof (induction pg b xs arbitrary: pg' b' ks q rule: free_merge.induct)
  case (1 pg b)
  then show ?case by simp
next
  case (2 pg b p ps)
  consider "blk_end pg b = p" | "blk_end pg b \<noteq> p" "blk_end pg p = b"
    | "blk_end pg b \<noteq> p" "blk_end pg p \<noteq> b"
    by blast
  then show ?case
  proof cases
    case 1
    let ?pg = "pg(b := (pg b)\<lparr>pg_property := pg_property (pg b) + pg_property (pg p)\<rparr>,
      p := ClearPageProperty (pg p))"
    have m: "free_merge ?pg b ps = (pg', b', ks)"
      using "2.prems"(1) 1 by simp
    have d: "distinct (b # ps)" "p \<notin> insert b (set ps)"
      using "2.prems"(2) by auto
    note fr = free_merge_frame [OF m d(1)]
    show ?thesis
    proof (cases "q = p")
      case True
      with fr d show ?thesis by auto
    next
      case False
      with "2.prems" 1 d show ?thesis
        by (intro "2.IH"(1) [OF 1 m]) auto
    qed
  next
    case 2
    let ?pg = "pg(p := (pg p)\<lparr>pg_property := pg_property (pg p) + pg_property (pg b)\<rparr>,
      b := ClearPageProperty (pg b))"
    have m: "free_merge ?pg p ps = (pg', b', ks)"
      using "2.prems"(1) 2 by simp
    have d: "distinct (p # ps)" "b \<notin> insert p (set ps)"
      using "2.prems"(2) by auto
    note fr = free_merge_frame [OF m d(1)]
    show ?thesis
    proof (cases "q = b")
      case True
      with fr d show ?thesis by auto
    next
      case False
      with "2.prems" d show ?thesis
        by (intro "2.IH"(2) [OF 2 m]) auto
    qed
  next
    case 3
    with "2.prems"(1) obtain ks' where ks': "free_merge pg b ps = (pg', b', ks')" "ks = p # ks'"
      by (auto split: prod.splits)
    have d: "distinct (b # ps)" "p \<notin> insert b (set ps)"
      using "2.prems"(2) by auto
    note fr = free_merge_frame [OF ks'(1) d(1)]
    show ?thesis
    proof (cases "q = p")
      case True
      with fr d "2.prems"(3) ks'(2) show ?thesis by auto
    next
      case False
      with "2.prems" d have "PageProperty (pg' q) \<longleftrightarrow> q \<in> insert b' (set ks')"
        by (intro "2.IH"(3) [OF 3 ks'(1)]) auto
      with False ks'(2) show ?thesis by auto
    qed
  qed
qed

lemma blocks_ok_raise:
  "blocks_ok pg lo xs hi \<Longrightarrow> \<forall>p\<in>set xs. lo' \<le> p \<Longrightarrow> lo' \<le> hi \<Longrightarrow> blocks_ok pg lo' xs hi"
  by (cases xs) auto

lemma list_add_front:
  "blocks_ok pg (blk_end pg b) ks hi \<Longrightarrow> 0 < pg_property (pg b) \<Longrightarrow>
    list_add_loop pg b ks = Some (b # ks)"
  by (cases ks) (auto simp: bind_kassert)

text \<open>A base that ends strictly before every block does not merge.\<close>

lemma free_merge_none:
  "blocks_ok pg lo xs hi \<Longrightarrow> blk_end pg b < lo \<Longrightarrow> free_merge pg b xs = (pg, b, xs)"
proof (induction xs arbitrary: lo)
  case (Cons x xs)
  then have "free_merge pg b xs = (pg, b, xs)"
    by (intro Cons.IH [of "blk_end pg x"]) auto
  with Cons.prems show ?case by auto
qed simp

text \<open>A base that ends at or before the first block absorbs the blocks that follow it without a gap.\<close>

lemma free_merge_after:
  "free_merge pg b xs = (pg', b', ks) \<Longrightarrow> blocks_ok pg lo xs hi \<Longrightarrow> blk_end pg b \<le> lo \<Longrightarrow>
    0 < pg_property (pg b) \<Longrightarrow>
    b' = b \<and> 0 < pg_property (pg' b) \<and> blocks_ok pg' (blk_end pg' b) ks hi \<and>
    {b..<blk_end pg' b} \<union> blk_union pg' ks = {b..<blk_end pg b} \<union> blk_union pg xs \<and>
    pg_property (pg' b) + blk_sum pg' ks = pg_property (pg b) + blk_sum pg xs \<and>
    (coalesced pg xs \<longrightarrow> coalesced pg' (b # ks))"
proof (induction xs arbitrary: pg lo)
  case Nil
  then show ?case by auto
next
  case (Cons x xs)
  then have x: "lo \<le> x" "0 < pg_property (pg x)" "blocks_ok pg (blk_end pg x) xs hi"
    by simp_all
  show ?case
  proof (cases "blk_end pg b = x")
    case True
    define pg1 where "pg1 = pg(b := (pg b)\<lparr>pg_property := pg_property (pg b) + pg_property (pg x)\<rparr>,
      x := ClearPageProperty (pg x))"
    have m: "free_merge pg1 b xs = (pg', b', ks)"
      using Cons.prems(1) True by (simp add: pg1_def)
    have b: "b \<noteq> x" "blk_end pg1 b = blk_end pg x" "0 < pg_property (pg1 b)"
      using Cons.prems(4) True by (auto simp: pg1_def)
    have "pg_property (pg q) = pg_property (pg1 q)" if "q \<in> set xs" for q
      using blocks_ok_mem [OF x(3) that] True x(2) by (auto simp: pg1_def)
    note congs = blk_congs [of xs pg pg1, OF this]
    have "blocks_ok pg1 (blk_end pg x) xs hi"
      using x(3) congs(1) by simp
    from Cons.IH [OF m this _ b(3)] b(2)
    have IH: "b' = b" "0 < pg_property (pg' b)" "blocks_ok pg' (blk_end pg' b) ks hi"
      "{b..<blk_end pg' b} \<union> blk_union pg' ks = {b..<blk_end pg x} \<union> blk_union pg1 xs"
      "pg_property (pg' b) + blk_sum pg' ks = pg_property (pg1 b) + blk_sum pg1 xs"
      "coalesced pg1 xs \<longrightarrow> coalesced pg' (b # ks)"
      by simp_all
    have sum: "pg_property (pg1 b) = pg_property (pg b) + pg_property (pg x)"
      using b(1) by (simp add: pg1_def)
    have un: "{b..<blk_end pg x} = {b..<blk_end pg b} \<union> {x..<blk_end pg x}"
      using True by auto
    show ?thesis
    proof (intro conjI)
      show "{b..<blk_end pg' b} \<union> blk_union pg' ks = {b..<blk_end pg b} \<union> blk_union pg (x # xs)"
        by (simp only: IH(4) congs(2) un blk_union_simps(2) Un_assoc)
      show "pg_property (pg' b) + blk_sum pg' ks = pg_property (pg b) + blk_sum pg (x # xs)"
        by (simp only: IH(5) sum congs(3) blk_sum_simps(2) add.assoc)
      show "coalesced pg (x # xs) \<longrightarrow> coalesced pg' (b # ks)"
        using IH(6) congs(4) by (simp only: coalesced_Cons [of pg x]) blast
    qed (fact IH)+
  next
    case False
    with Cons.prems x have "blk_end pg b < x" by simp
    moreover from this have "free_merge pg b xs = (pg, b, xs)"
      using x by (intro free_merge_none [OF x(3)]) simp
    ultimately show ?thesis
      using Cons.prems x by (auto simp: coalesced_Cons split: if_splits)
  qed
qed

text \<open>
  The result of the merging loop and the sorted insertion together: \<open>merged pg b xs pg' ys lo hi\<close>
  says that the block list \<open>ys\<close> holds the blocks of \<open>xs\<close> and the block at \<open>b\<close>.
\<close>

definition merged ::
  "(nat \<Rightarrow> page) \<Rightarrow> nat \<Rightarrow> nat list \<Rightarrow> (nat \<Rightarrow> page) \<Rightarrow> nat list \<Rightarrow> nat \<Rightarrow> nat \<Rightarrow> bool" where
  "merged pg b xs pg' ys lo hi \<longleftrightarrow>
     blocks_ok pg' lo ys hi \<and>
     blk_union pg' ys = {b..<blk_end pg b} \<union> blk_union pg xs \<and>
     blk_sum pg' ys = pg_property (pg b) + blk_sum pg xs \<and>
     (coalesced pg xs \<longrightarrow> coalesced pg' ys)"

lemma free_merge_front:
  assumes m: "free_merge pg b xs = (pg', b', ks)" and "blocks_ok pg lo' xs hi"
    and "blk_end pg b \<le> lo'" "0 < pg_property (pg b)" "lo \<le> b"
  shows "b' = b \<and> list_add_loop pg' b' ks = Some (b # ks) \<and> merged pg b xs pg' (b # ks) lo hi"
proof -
  note A = free_merge_after [OF assms(1-4)]
  then have "list_add_loop pg' b ks = Some (b # ks)"
    by (intro list_add_front) auto
  with A assms(5) show ?thesis
    by (auto simp: merged_def)
qed

text \<open>A block that ends exactly at the base swallows it and goes on merging forwards.\<close>

lemma free_merge_back:
  assumes m0: "free_merge pg b (x # xs) = (pg', b', ks)" and "lo \<le> x" "0 < pg_property (pg x)"
    and blocks: "blocks_ok pg (blk_end pg x) xs hi" and adj: "blk_end pg x = b"
    and b: "blk_end pg b \<le> hi" "0 < pg_property (pg b)"
    and sep: "\<forall>p\<in>set xs. blk_end pg p \<le> b \<or> blk_end pg b \<le> p"
  shows "b' = x \<and> list_add_loop pg' b' ks = Some (x # ks) \<and> merged pg b (x # xs) pg' (x # ks) lo hi"
proof -
  define pg1 where "pg1 = pg(x := (pg x)\<lparr>pg_property := pg_property (pg x) + pg_property (pg b)\<rparr>,
    b := ClearPageProperty (pg b))"
  have m: "free_merge pg1 x xs = (pg', b', ks)"
    using m0 adj assms(3) by (simp add: pg1_def)
  have x1: "pg_property (pg1 x) = pg_property (pg x) + pg_property (pg b)"
    "blk_end pg1 x = blk_end pg b" "0 < pg_property (pg1 x)"
    using adj assms(3) by (auto simp: pg1_def)
  have after: "blk_end pg b \<le> q" if "q \<in> set xs" for q
    using blocks_ok_mem [OF blocks that] sep that adj by fastforce
  then have "pg_property (pg q) = pg_property (pg1 q)" if "q \<in> set xs" for q
    using that adj assms(3) b(2) by (fastforce simp: pg1_def)
  note congs = blk_congs [of xs pg pg1, OF this]
  have "blocks_ok pg1 (blk_end pg b) xs hi"
    using blocks congs(1) after b(1) by (auto intro: blocks_ok_raise)
  moreover have "blk_end pg1 x \<le> blk_end pg b"
    using x1(2) by simp
  ultimately have "b' = x \<and> list_add_loop pg' b' ks = Some (x # ks) \<and>
      merged pg1 x xs pg' (x # ks) lo hi"
    by (rule free_merge_front [OF m _ _ x1(3) assms(2)])
  then have F: "b' = x" "list_add_loop pg' b' ks = Some (x # ks)"
    "merged pg1 x xs pg' (x # ks) lo hi"
    by blast+
  have un: "{x..<blk_end pg1 x} = {b..<blk_end pg b} \<union> {x..<blk_end pg x}"
    unfolding x1(2) using adj by auto
  have "merged pg b (x # xs) pg' (x # ks) lo hi"
    unfolding merged_def
  proof (intro conjI)
    show "blk_union pg' (x # ks) = {b..<blk_end pg b} \<union> blk_union pg (x # xs)"
      using F(3) un congs(2) by (simp only: merged_def blk_union_simps(2) [of pg x] Un_assoc)
    show "blk_sum pg' (x # ks) = pg_property (pg b) + blk_sum pg (x # xs)"
      using F(3) x1(1) congs(3) by (simp only: merged_def blk_sum_simps(2) [of pg x])
    show "coalesced pg (x # xs) \<longrightarrow> coalesced pg' (x # ks)"
      using F(3) congs(4) by (simp only: merged_def coalesced_Cons [of pg x]) blast
    show "blocks_ok pg' lo (x # ks) hi"
      using F(3) by (simp only: merged_def)
  qed
  with F(1,2) show ?thesis by blast
qed

lemma free_merge_insert:
  "free_merge pg b xs = (pg', b', ks) \<Longrightarrow> blocks_ok pg lo xs hi \<Longrightarrow> lo \<le> b \<Longrightarrow>
    blk_end pg b \<le> hi \<Longrightarrow> 0 < pg_property (pg b) \<Longrightarrow>
    \<forall>p\<in>set xs. blk_end pg p \<le> b \<or> blk_end pg b \<le> p \<Longrightarrow>
    \<exists>ys. list_add_loop pg' b' ks = Some ys \<and> set ys = insert b' (set ks) \<and>
      merged pg b xs pg' ys lo hi \<and> (hd ys = b \<or> xs \<noteq> [] \<and> hd ys = hd xs)"
proof (induction xs arbitrary: pg b lo ks)
  case Nil
  then show ?case by (auto simp: merged_def)
next
  case (Cons x xs)
  then have x: "lo \<le> x" "0 < pg_property (pg x)" "blocks_ok pg (blk_end pg x) xs hi"
    and sep: "\<forall>p\<in>set xs. blk_end pg p \<le> b \<or> blk_end pg b \<le> p"
    by simp_all
  consider "blk_end pg b \<le> x" | "\<not> blk_end pg b \<le> x" "blk_end pg x = b"
    | "\<not> blk_end pg b \<le> x" "blk_end pg x < b"
    using Cons.prems(6) by fastforce
  then show ?case
  proof cases
    case 1
    have "blocks_ok pg x (x # xs) hi"
      using Cons.prems(2) by simp
    from free_merge_front [OF Cons.prems(1) this 1 Cons.prems(5,3)] show ?thesis
      by auto
  next
    case 2
    from free_merge_back [OF Cons.prems(1) x 2(2) Cons.prems(4,5) sep] show ?thesis
      by auto
  next
    case 3
    from Cons.prems(1) 3 obtain ks' where m: "free_merge pg b xs = (pg', b', ks')" "ks = x # ks'"
      by (auto split: prod.splits if_splits)
    from Cons.IH [OF m(1) x(3) _ Cons.prems(4,5) sep] 3
    obtain ys where ys: "list_add_loop pg' b' ks' = Some ys" "set ys = insert b' (set ks')"
      "merged pg b xs pg' ys (blk_end pg x) hi" "hd ys = b \<or> xs \<noteq> [] \<and> hd ys = hd xs"
      by auto
    have d: "distinct (b # xs)" "x \<notin> insert b (set xs)"
      using blocks_ok_distinct [OF Cons.prems(2)] sep Cons.prems(5) 3 x blocks_ok_mem [OF x(3)]
      by force+
    have px: "pg' x = pg x"
      using free_merge_frame [OF m(1) d(1)] d(2) by blast
    have b': "blk_end pg x \<le> b'"
      using ys(2,3) by (auto simp: merged_def dest: blocks_ok_mem)
    have "list_add_loop pg' b' ks = Some (x # ys)"
      using m(2) ys(1) b' px x(2) by (auto simp: bind_kassert)
    moreover have "merged pg b (x # xs) pg' (x # ys) lo hi"
    proof -
      have "coalesced pg' (x # ys)" if "coalesced pg (x # xs)"
        using that ys(3,4) px 3 by (auto simp: merged_def coalesced_Cons)
      with ys(3) px x show ?thesis
        by (auto simp: merged_def)
    qed
    ultimately show ?thesis
      using ys(2) m(2) by auto
  qed
qed

lemma free_pages_loop_eq:
  "\<forall>q \<in> {b..<b + n}. \<not> PageReserved (pages s q) \<and> \<not> PageProperty (pages s q) \<Longrightarrow>
    free_pages_loop b n s = Some (s\<lparr>pages := \<lambda>q. if q \<in> {b..<b + n}
      then set_page_ref 0 ((pages s q)\<lparr>pg_flags := 0\<rparr>) else pages s q\<rparr>)"
proof (induction n arbitrary: b s)
  case (Suc n)
  let ?s = "upd_page b (\<lambda>q. set_page_ref 0 (q\<lparr>pg_flags := 0\<rparr>)) s"
  have "free_pages_loop (Suc b) n ?s = Some (?s\<lparr>pages := \<lambda>q. if q \<in> {Suc b..<Suc b + n}
      then set_page_ref 0 ((pages ?s q)\<lparr>pg_flags := 0\<rparr>) else pages ?s q\<rparr>)"
    using Suc.prems by (intro Suc.IH) auto
  moreover have "?s\<lparr>pages := \<lambda>q. if q \<in> {Suc b..<Suc b + n}
      then set_page_ref 0 ((pages ?s q)\<lparr>pg_flags := 0\<rparr>) else pages ?s q\<rparr> =
    s\<lparr>pages := \<lambda>q. if q \<in> {b..<b + Suc n}
      then set_page_ref 0 ((pages s q)\<lparr>pg_flags := 0\<rparr>) else pages s q\<rparr>"
    by (simp add: upd_page_def) (rule arg_cong [where f = "\<lambda>pg. s\<lparr>pages := pg\<rparr>"], auto)
  ultimately show ?case
    using Suc.prems by (simp add: bind_kassert)
qed simp

lemma init_memmap_loop_eq:
  "\<forall>q \<in> {b..<b + n}. PageReserved (pages s q) \<Longrightarrow>
    init_memmap_loop b n s = Some (s\<lparr>pages := \<lambda>q. if q \<in> {b..<b + n}
      then set_page_ref 0 ((pages s q)\<lparr>pg_flags := 0, pg_property := 0\<rparr>) else pages s q\<rparr>)"
proof (induction n arbitrary: b s)
  case (Suc n)
  let ?f = "\<lambda>q. set_page_ref 0 (q\<lparr>pg_flags := 0, pg_property := 0\<rparr>)"
  let ?s = "upd_page b ?f s"
  have "init_memmap_loop (Suc b) n ?s = Some (?s\<lparr>pages := \<lambda>q. if q \<in> {Suc b..<Suc b + n}
      then ?f (pages ?s q) else pages ?s q\<rparr>)"
    using Suc.prems by (intro Suc.IH) auto
  moreover have "?s\<lparr>pages := \<lambda>q. if q \<in> {Suc b..<Suc b + n}
      then ?f (pages ?s q) else pages ?s q\<rparr> =
    s\<lparr>pages := \<lambda>q. if q \<in> {b..<b + Suc n} then ?f (pages s q) else pages s q\<rparr>"
    by (simp add: upd_page_def) (rule arg_cong [where f = "\<lambda>pg. s\<lparr>pages := pg\<rparr>"], auto)
  ultimately show ?case
    using Suc.prems by (simp add: bind_kassert)
qed simp

text \<open>The free blocks and a block of pages that are not free lie apart.\<close>

lemma free_blocks_apart:
  assumes "pmm_inv s" "0 < n" "{b..<b + n} \<inter> free_set s = {}" "p \<in> set (free_list s)"
  shows "blk_end (pages s) p \<le> b \<or> b + n \<le> p" and "p \<notin> {b..<b + n}"
    and "0 < pg_property (pages s p)"
proof -
  from assms(1,4) show pos: "0 < pg_property (pages s p)"
    by (auto simp: pmm_inv_def dest: blocks_ok_mem)
  have "{p..<blk_end (pages s) p} \<subseteq> free_set s"
    using assms(4) by (auto simp: free_set_def blk_union_def)
  with assms(3) have sub: "{p..<blk_end (pages s) p} \<inter> {b..<b + n} = {}"
    by blast
  then show "p \<notin> {b..<b + n}"
    using pos by fastforce
  show "blk_end (pages s) p \<le> b \<or> b + n \<le> p"
  proof (rule ccontr)
    assume "\<not> ?thesis"
    then have "max p b \<in> {p..<blk_end (pages s) p} \<inter> {b..<b + n}"
      using pos assms(2) by auto
    with sub show False by blast
  qed
qed

lemma not_free_no_property:
  assumes "pmm_inv s" "p < npage s" "p \<notin> free_set s"
  shows "\<not> PageProperty (pages s p)"
proof
  assume "PageProperty (pages s p)"
  with assms(1,2) have p: "p \<in> set (free_list s)"
    by (simp add: pmm_inv_def)
  with assms(1) have "0 < pg_property (pages s p)"
    by (auto simp: pmm_inv_def dest: blocks_ok_mem)
  with p have "p \<in> free_set s"
    by (auto simp: free_set_def blk_union_def)
  with assms(3) show False by simp
qed

text \<open>
  Linking a block \<open>[b, b + n)\<close> of pages that are not free, once its first page is marked and
  the flags of the others are cleared: the common end of \<open>default_free_pages\<close> and, without
  the merging, of \<open>default_init_memmap\<close>.
\<close>

definition prepared :: "pmm \<Rightarrow> nat \<Rightarrow> nat \<Rightarrow> (nat \<Rightarrow> page) \<Rightarrow> bool" where
  "prepared s b n pg \<longleftrightarrow> pg_property (pg b) = n \<and>
     (\<forall>q. q \<notin> {b..<b + n} \<longrightarrow> pg q = pages s q) \<and>
     (\<forall>q \<in> {b..<b + n}. \<not> PageReserved (pg q) \<and> (PageProperty (pg q) \<longleftrightarrow> q = b))"

lemma prepared_props:
  assumes inv: "pmm_inv s" and n: "0 < n" and blk: "b + n \<le> npage s"
    and disj: "{b..<b + n} \<inter> free_set s = {}" and prep: "prepared s b n pg"
  shows "blocks_ok pg 0 (free_list s) (npage s)"
    and "blk_union pg (free_list s) = free_set s"
    and "blk_sum pg (free_list s) = nr_free s"
    and "coalesced pg (free_list s) = coalesced (pages s) (free_list s)"
    and "\<forall>p \<in> set (free_list s). blk_end pg p \<le> b \<or> blk_end pg b \<le> p"
    and "distinct (b # free_list s)"
    and "p < npage s \<Longrightarrow> PageProperty (pg p) \<longleftrightarrow> p \<in> insert b (set (free_list s))"
proof -
  note ap = free_blocks_apart [OF inv n disj]
  have same: "pg q = pages s q" if "q \<in> set (free_list s)" for q
    using prep ap(2) [OF that] by (simp add: prepared_def)
  then have "pg_property (pages s q) = pg_property (pg q)" if "q \<in> set (free_list s)" for q
    using that by simp
  note congs = blk_congs [of "free_list s" "pages s" pg, OF this]
  show "blocks_ok pg 0 (free_list s) (npage s)" "blk_union pg (free_list s) = free_set s"
    "blk_sum pg (free_list s) = nr_free s"
    "coalesced pg (free_list s) = coalesced (pages s) (free_list s)"
    using inv by (simp_all add: congs [symmetric] pmm_inv_def free_set_def)
  have "pg_property (pg b) = n"
    using prep by (simp add: prepared_def)
  with ap(1) same show "\<forall>p \<in> set (free_list s). blk_end pg p \<le> b \<or> blk_end pg b \<le> p"
    by auto
  have "b \<notin> set (free_list s)"
    using ap(2) [of b] n by auto
  moreover have "distinct (free_list s)"
    using inv by (auto simp: pmm_inv_def dest: blocks_ok_distinct)
  ultimately show "distinct (b # free_list s)"
    by simp
  show "PageProperty (pg p) \<longleftrightarrow> p \<in> insert b (set (free_list s))" if "p < npage s"
    using prep inv ap(2) n that by (cases "p \<in> {b..<b + n}") (auto simp: prepared_def pmm_inv_def)
qed

lemma link_block:
  assumes inv: "pmm_inv s" and n: "0 < n" and blk: "b + n \<le> npage s"
    and disj: "{b..<b + n} \<inter> free_set s = {}" and prep: "prepared s b n pg"
    and m: "free_merge pg b (free_list s) = (pg', b', ks)"
  shows "\<exists>ys. list_add_loop pg' b' ks = Some ys \<and>
    (let s' = s\<lparr>pages := pg', free_list := ys, nr_free := nr_free s + n\<rparr> in
      pmm_inv s' \<and> free_set s' = free_set s \<union> {b..<b + n} \<and>
      (coalesced (pages s) (free_list s) \<longrightarrow> coalesced (pages s') (free_list s')) \<and>
      (\<forall>q. PageReserved (pg' q) = PageReserved (pg q)))"
proof -
  note pp = prepared_props [OF inv n blk disj prep]
  have b: "pg_property (pg b) = n"
    using prep by (simp add: prepared_def)
  obtain ys where ys: "list_add_loop pg' b' ks = Some ys" "set ys = insert b' (set ks)"
    "merged pg b (free_list s) pg' ys 0 (npage s)"
    using free_merge_insert [OF m pp(1)] pp(5) blk n b by auto
  note fr = free_merge_frame [OF m pp(6)]
  let ?s = "s\<lparr>pages := pg', free_list := ys, nr_free := nr_free s + n\<rparr>"
  have un: "free_set ?s = free_set s \<union> {b..<b + n}"
    using ys(3) pp(2) b by (simp add: merged_def free_set_def Un_commute)
  have b_lt: "b < npage s"
    using blk n by simp
  have lt: "q < npage s" if "q \<in> insert b (set (free_list s))" for q
    using that pp(1) b_lt by (fastforce dest: blocks_ok_mem)
  have flags: "PageProperty (pg' q) \<longleftrightarrow> q \<in> set ys" if "q < npage s" for q
  proof (cases "q \<in> insert b (set (free_list s))")
    case True
    have "\<forall>q \<in> insert b (set (free_list s)). PageProperty (pg q)"
      using pp(7) lt by blast
    from free_merge_flags [OF m pp(6) this True] ys(2) show ?thesis by simp
  next
    case False
    then have "pg' q = pg q"
      using fr by blast
    moreover have "q \<notin> set ys"
      using fr ys(2) False by auto
    ultimately show ?thesis
      using pp(7) [OF that] False by simp
  qed
  have res: "\<not> PageReserved (pg' q)" if "q \<in> free_set ?s" for q
    using that inv prep fr unfolding un by (cases "q \<in> {b..<b + n}")
      (auto simp: prepared_def pmm_inv_def)
  have "pmm_inv ?s"
    using ys(3) flags res pp(3) b by (simp add: pmm_inv_def merged_def)
  moreover have "coalesced (pages s) (free_list s) \<longrightarrow> coalesced pg' ys"
    using ys(3) pp(4) by (simp add: merged_def)
  ultimately show ?thesis
    using ys(1) un fr by (simp add: Let_def)
qed

lemma list_add_loop_ok:
  "blocks_ok pg lo xs hi \<Longrightarrow> lo \<le> b \<Longrightarrow> blk_end pg b \<le> hi \<Longrightarrow> 0 < pg_property (pg b) \<Longrightarrow>
    \<forall>p\<in>set xs. blk_end pg p \<le> b \<or> blk_end pg b \<le> p \<Longrightarrow>
    \<exists>ys. list_add_loop pg b xs = Some ys \<and> set ys = insert b (set xs) \<and> blocks_ok pg lo ys hi \<and>
      blk_union pg ys = {b..<blk_end pg b} \<union> blk_union pg xs \<and>
      blk_sum pg ys = pg_property (pg b) + blk_sum pg xs"
proof (induction xs arbitrary: lo)
  case (Cons x xs)
  show ?case
  proof (cases "blk_end pg b \<le> x")
    case True
    with Cons.prems show ?thesis
      by (auto simp: bind_kassert)
  next
    case False
    with Cons.prems have "blk_end pg x \<le> b"
      by auto
    with Cons.prems Cons.IH [of "blk_end pg x"] obtain ys where
      "list_add_loop pg b xs = Some ys" "set ys = insert b (set xs)"
      "blocks_ok pg (blk_end pg x) ys hi"
      "blk_union pg ys = {b..<blk_end pg b} \<union> blk_union pg xs"
      "blk_sum pg ys = pg_property (pg b) + blk_sum pg xs"
      by auto
    with \<open>blk_end pg x \<le> b\<close> Cons.prems show ?thesis
      by (auto simp: bind_kassert)
  qed
qed auto

text \<open>With coalesced blocks, a run of consecutive free pages lies inside one block.\<close>

lemma run_in_block:
  "blocks_ok pg lo xs hi \<Longrightarrow> coalesced pg xs \<Longrightarrow> 0 < n \<Longrightarrow> {a..<a + n} \<subseteq> blk_union pg xs \<Longrightarrow>
    \<exists>p\<in>set xs. p \<le> a \<and> a + n \<le> blk_end pg p"
proof (induction xs arbitrary: lo)
  case (Cons x xs)
  then have x: "blocks_ok pg (blk_end pg x) xs hi" "coalesced pg xs"
    by (auto simp: coalesced_Cons)
  have rest: "blk_end pg x < q" if "q \<in> blk_union pg xs" for q
  proof (cases xs)
    case (Cons y ys)
    with Cons.prems that blocks_ok_union [of pg y "y # ys" hi] show ?thesis
      by auto
  qed (use that in simp)
  show ?case
  proof (cases "a < blk_end pg x")
    case True
    have "a \<in> {a..<a + n}"
      using Cons.prems(3) by simp
    with Cons.prems(4) have "a \<in> blk_union pg (x # xs)"
      by blast
    with True rest have "x \<le> a"
      by force
    moreover have "a + n \<le> blk_end pg x"
    proof (rule ccontr)
      assume "\<not> ?thesis"
      with True have "blk_end pg x \<in> {a..<a + n}"
        by simp
      with Cons.prems(4) have "blk_end pg x \<in> blk_union pg xs"
        by auto
      with rest show False by blast
    qed
    ultimately show ?thesis by simp
  next
    case False
    then have "{a..<a + n} \<inter> {x..<blk_end pg x} = {}"
      by auto
    with Cons.prems(4) have "{a..<a + n} \<subseteq> blk_union pg xs"
      by auto
    with Cons.IH [OF x Cons.prems(3)] show ?thesis by simp
  qed
qed simp

section \<open>The interface, on the code's operations\<close>

lemma alloc_pages_cases:
  assumes inv: "pmm_inv s" and n: "0 < n"
  shows "(default_alloc_pages n s = Some (None, s) \<and>
      (\<forall>p\<in>set (free_list s). pg_property (pages s p) < n)) \<or>
    (\<exists>b pre post. default_alloc_pages n s = Some (Some b, take_block s b n) \<and>
      free_list s = pre @ b # post \<and> (\<forall>q\<in>set pre. pg_property (pages s q) < n) \<and>
      n \<le> pg_property (pages s b))"
proof (cases "n > nr_free s")
  case True
  moreover have "pg_property (pages s p) \<le> nr_free s" if "p \<in> set (free_list s)" for p
    using inv blk_sum_ge [OF that] by (simp add: pmm_inv_def)
  ultimately show ?thesis
    using n by (force simp: default_alloc_pages_eq)
next
  case False
  then show ?thesis
    using n find_fit_Some [of "pages s" n "free_list s"] find_fit_None [of "pages s" n "free_list s"]
    by (cases "find_fit (pages s) n (free_list s)") (auto simp: default_alloc_pages_eq)
qed

lemma alloc_avail:
  assumes "pmm_inv s" "0 < n" "default_alloc_pages n s = Some (r, s')"
  shows "avail_set s' = avail_set s" and "npage s' = npage s"
proof -
  have "npage (take_block s b n) = npage s \<and>
    (\<forall>q. PageReserved (pages (take_block s b n) q) = PageReserved (pages s q))" for b
    by (auto simp: take_block_def Let_def)
  with alloc_pages_cases [OF assms(1,2)] assms(3)
  show "avail_set s' = avail_set s" and "npage s' = npage s"
    by (auto simp: avail_set_def)
qed

lemma alloc_pages_ok:
  assumes inv: "pmm_inv s" and n: "0 < n"
  shows "\<exists>r s'. default_alloc_pages n s = Some (r, s') \<and> pmm_inv s' \<and> avail_set s' = avail_set s \<and>
    (case r of None \<Rightarrow> free_set s' = free_set s
     | Some b \<Rightarrow> {b..<b + n} \<subseteq> free_set s \<and> free_set s' = free_set s - {b..<b + n})"
  using alloc_pages_cases [OF inv n]
proof
  assume "default_alloc_pages n s = Some (None, s) \<and>
    (\<forall>p\<in>set (free_list s). pg_property (pages s p) < n)"
  with inv show ?thesis by auto
next
  assume "\<exists>b pre post. default_alloc_pages n s = Some (Some b, take_block s b n) \<and>
      free_list s = pre @ b # post \<and> (\<forall>q\<in>set pre. pg_property (pages s q) < n) \<and>
      n \<le> pg_property (pages s b)"
  then obtain b pre post where b: "default_alloc_pages n s = Some (Some b, take_block s b n)"
    "free_list s = pre @ b # post" "n \<le> pg_property (pages s b)"
    by blast
  have "{b..<b + n} \<subseteq> free_set s"
    using b(2,3) by (auto simp: free_set_def)
  with take_block_correct(1,2) [OF inv b(2) n b(3)] alloc_avail(1) [OF inv n b(1)] b(1)
  show ?thesis by auto
qed

lemma free_pages_ok:
  assumes inv: "pmm_inv s" and n: "0 < n" and sub: "{b..<b + n} \<subseteq> avail_set s - free_set s"
  shows "\<exists>s'. default_free_pages b n s = Some s' \<and> pmm_inv s' \<and> avail_set s' = avail_set s \<and>
    free_set s' = free_set s \<union> {b..<b + n} \<and> nr_free s' = nr_free s + n \<and>
    (coalesced (pages s) (free_list s) \<longrightarrow> coalesced (pages s') (free_list s'))"
proof -
  have "b + n - 1 \<in> {b..<b + n}"
    using n by simp
  with sub have blk: "b + n \<le> npage s"
    by (fastforce simp: avail_set_def)
  have disj: "{b..<b + n} \<inter> free_set s = {}"
    using sub by blast
  have ok: "\<forall>q \<in> {b..<b + n}. \<not> PageReserved (pages s q) \<and> \<not> PageProperty (pages s q)"
    using sub not_free_no_property [OF inv] by (auto simp: avail_set_def)
  define s1 where "s1 = s\<lparr>pages := \<lambda>q. if q \<in> {b..<b + n}
      then set_page_ref 0 ((pages s q)\<lparr>pg_flags := 0\<rparr>) else pages s q\<rparr>"
  define s2 where "s2 = upd_page b (\<lambda>q. SetPageProperty (q\<lparr>pg_property := n\<rparr>)) s1"
  have loop: "free_pages_loop b n s = Some s1"
    unfolding s1_def by (rule free_pages_loop_eq [OF ok])
  have s2: "free_list s1 = free_list s" "nr_free s1 = nr_free s"
    "s2\<lparr>pages := pg, nr_free := k, free_list := xs\<rparr> = s\<lparr>pages := pg, free_list := xs, nr_free := k\<rparr>"
    for pg xs k
    by (simp_all add: s2_def s1_def upd_page_def)
  have prep: "prepared s b n (pages s2)"
    using n by (auto simp: prepared_def s2_def s1_def)
  obtain pg' b' ks where m: "free_merge (pages s2) b (free_list s) = (pg', b', ks)"
    by (metis prod_cases3)
  obtain ys where ys: "list_add_loop pg' b' ks = Some ys" and
    post: "let s' = s\<lparr>pages := pg', free_list := ys, nr_free := nr_free s + n\<rparr> in
      pmm_inv s' \<and> free_set s' = free_set s \<union> {b..<b + n} \<and>
      (coalesced (pages s) (free_list s) \<longrightarrow> coalesced (pages s') (free_list s')) \<and>
      (\<forall>q. PageReserved (pg' q) = PageReserved (pages s2 q))"
    using link_block [OF inv n blk disj prep m] by blast
  have res: "PageReserved (pages s2 q) = PageReserved (pages s q)" for q
    using ok n by (auto simp: s2_def s1_def)
  have "default_free_pages b n s = Some (s\<lparr>pages := pg', free_list := ys, nr_free := nr_free s + n\<rparr>)"
    using n loop m ys by (simp add: default_free_pages_def default_list_add_def bind_kassert Let_def
      s2_def [symmetric] s2 del: upd_page_simps(1))
  with post res show ?thesis
    by (simp add: Let_def avail_set_def)
qed

lemma nr_free_pages_ok: "pmm_inv s \<Longrightarrow> default_nr_free_pages s = card (free_set s)"
  by (auto simp: default_nr_free_pages_def pmm_inv_def free_set_def dest: blk_sum_card)

interpretation dpmm: pmm_manager pmm_inv free_set avail_set default_alloc_pages default_free_pages
  default_nr_free_pages
proof unfold_locales
  fix s :: pmm and n b :: nat
  assume inv: "pmm_inv s"
  show "default_nr_free_pages s = card (free_set s)"
    by (rule nr_free_pages_ok [OF inv])
  show "free_set s \<subseteq> avail_set s"
  proof -
    have "free_set s \<subseteq> {0..<npage s}"
      using inv unfolding free_set_def by (intro blocks_ok_union) (simp add: pmm_inv_def)
    with inv show ?thesis
      by (auto simp: avail_set_def pmm_inv_def)
  qed
  show "\<exists>b s'. default_alloc_pages 1 s = Some (Some b, s')" if ne: "free_set s \<noteq> {}"
  proof -
    from ne obtain p where p: "p \<in> set (free_list s)"
      by (auto simp: free_set_def blk_union_def)
    with inv have "\<not> pg_property (pages s p) < 1"
      by (auto simp: pmm_inv_def dest: blocks_ok_mem)
    with p alloc_pages_cases [OF inv, of 1] show ?thesis by fastforce
  qed
  assume n: "0 < n"
  from alloc_pages_ok [OF inv n] show "\<exists>r s'. default_alloc_pages n s = Some (r, s')"
    by blast
  show "pmm_inv s' \<and> avail_set s' = avail_set s \<and>
    (case r of None \<Rightarrow> free_set s' = free_set s
     | Some b \<Rightarrow> {b..<b + n} \<subseteq> free_set s \<and> free_set s' = free_set s - {b..<b + n})"
    if "default_alloc_pages n s = Some (r, s')" for r s'
    using alloc_pages_ok [OF inv n] that by auto
  assume "{b..<b + n} \<subseteq> avail_set s - free_set s"
  from free_pages_ok [OF inv n this]
  show "\<exists>s'. default_free_pages b n s = Some s' \<and> pmm_inv s' \<and> avail_set s' = avail_set s \<and>
    free_set s' = free_set s \<union> {b..<b + n}"
    by blast
qed

lemma init_memmap_ok:
  assumes inv: "pmm_inv s" and n: "0 < n" and blk: "b + n \<le> npage s"
    and rsv: "\<forall>q \<in> {b..<b + n}. PageReserved (pages s q)"
  shows "\<exists>s'. default_init_memmap b n s = Some s' \<and> pmm_inv s' \<and>
    avail_set s' = avail_set s \<union> {b..<b + n} \<and>
    free_set s' = free_set s \<union> {b..<b + n} \<and> nr_free s' = nr_free s + n"
proof -
  have disj: "{b..<b + n} \<inter> free_set s = {}"
    using inv rsv by (auto simp: pmm_inv_def)
  define s1 where "s1 = s\<lparr>pages := \<lambda>q. if q \<in> {b..<b + n}
      then set_page_ref 0 ((pages s q)\<lparr>pg_flags := 0, pg_property := 0\<rparr>) else pages s q\<rparr>"
  define s2 where "s2 = upd_page b (\<lambda>q. SetPageProperty (q\<lparr>pg_property := n\<rparr>)) s1"
  have loop: "init_memmap_loop b n s = Some s1"
    unfolding s1_def by (rule init_memmap_loop_eq [OF rsv])
  have s2: "free_list s2 = free_list s" "nr_free s2 = nr_free s" "npage s2 = npage s"
    by (simp_all add: s2_def s1_def)
  have prep: "prepared s b n (pages s2)"
    using n by (auto simp: prepared_def s2_def s1_def)
  note pp = prepared_props [OF inv n blk disj prep]
  have b: "pg_property (pages s2 b) = n"
    using prep by (simp add: prepared_def)
  obtain ys where ys: "list_add_loop (pages s2) b (free_list s) = Some ys"
    "set ys = insert b (set (free_list s))" "blocks_ok (pages s2) 0 ys (npage s)"
    "blk_union (pages s2) ys = {b..<b + n} \<union> free_set s"
    "blk_sum (pages s2) ys = n + nr_free s"
    using list_add_loop_ok [OF pp(1) _ _ _ pp(5)] n blk b pp(2,3) by auto
  let ?s = "s2\<lparr>nr_free := nr_free s + n, free_list := ys\<rparr>"
  have "default_init_memmap b n s = Some ?s"
    using n loop ys(1) by (simp add: default_init_memmap_def default_list_add_def bind_kassert Let_def
      s2_def [symmetric] s2 del: upd_page_simps)
  moreover have "pmm_inv ?s"
    using ys pp(7) prep inv s2 by (auto simp: pmm_inv_def free_set_def prepared_def)
  moreover have "avail_set ?s = avail_set s \<union> {b..<b + n}"
    using prep s2 blk by (auto simp: avail_set_def prepared_def)
  ultimately show ?thesis
    using ys(4) by (auto simp: free_set_def)
qed

lemma six_pages_inv:
  "pmm_inv six_pages" "coalesced (pages six_pages) (free_list six_pages)"
  by (auto simp: six_pages_def pmm_inv_def page_flag_defs free_set_def)

lemma six_pages_sets: "avail_set six_pages = {..<6}" "free_set six_pages = {1, 2, 4}"
  by (auto simp: six_pages_def avail_set_def page_flag_defs free_set_def)

section \<open>Properties\<close>

text \<open>
  C16. \<open>default_alloc_pages\<close> is a first-fit allocator for the set of free pages: on a well-formed,
  coalesced free list it never fails an assertion; it returns \<open>NULL\<close> and changes nothing exactly
  when no \<open>n\<close> consecutive pages are free; otherwise it returns the lowest address at which \<open>n\<close>
  consecutive pages are free, and exactly these pages leave the free set. The invariant and the
  absence of adjacent free blocks are kept.
\<close>

theorem default_alloc_pages_first_fit:
  assumes inv: "pmm_inv s" and co: "coalesced (pages s) (free_list s)" and n: "0 < n"
  shows "\<exists>r s'. default_alloc_pages n s = Some (r, s') \<and> pmm_inv s' \<and>
    coalesced (pages s') (free_list s') \<and>
    (case r of
       None \<Rightarrow> s' = s \<and> (\<nexists>a. {a..<a + n} \<subseteq> free_set s)
     | Some b \<Rightarrow> {b..<b + n} \<subseteq> free_set s \<and> (\<forall>a. {a..<a + n} \<subseteq> free_set s \<longrightarrow> b \<le> a) \<and>
         free_set s' = free_set s - {b..<b + n} \<and> nr_free s' + n = nr_free s)"
proof -
  have in_blk: "\<exists>p\<in>set (free_list s). p \<le> a \<and> a + n \<le> blk_end (pages s) p"
    if "{a..<a + n} \<subseteq> free_set s" for a
    using run_in_block [OF _ co n] that inv by (auto simp: pmm_inv_def free_set_def)
  from alloc_pages_cases [OF inv n] show ?thesis
  proof (elim disjE exE conjE)
    assume "default_alloc_pages n s = Some (None, s)"
      "\<forall>p\<in>set (free_list s). pg_property (pages s p) < n"
    with in_blk inv co show ?thesis by fastforce
  next
    fix b pre post
    assume b: "default_alloc_pages n s = Some (Some b, take_block s b n)"
      "free_list s = pre @ b # post" "\<forall>q\<in>set pre. pg_property (pages s q) < n"
      "n \<le> pg_property (pages s b)"
    note tb = take_block_correct [OF inv b(2) n b(4)]
    have sub: "{b..<b + n} \<subseteq> free_set s"
      using b(2,4) by (auto simp: free_set_def)
    have "b \<le> a" if "{a..<a + n} \<subseteq> free_set s" for a
      using in_blk [OF that] b(2,3) free_list_split(4) [OF inv b(2)] by fastforce
    moreover have "nr_free (take_block s b n) + n = nr_free s"
      using inv b(2,4) by (simp add: take_block_def Let_def pmm_inv_def)
    ultimately show ?thesis
      using tb co b(1) sub by auto
  qed
qed

theorem default_alloc_pages_first_fit_witness:
  "\<exists>r s'. default_alloc_pages 1 six_pages = Some (r, s') \<and> pmm_inv s' \<and>
    coalesced (pages s') (free_list s') \<and>
    (case r of
       None \<Rightarrow> s' = six_pages \<and> (\<nexists>a. {a..<a + 1} \<subseteq> free_set six_pages)
     | Some b \<Rightarrow> {b..<b + 1} \<subseteq> free_set six_pages \<and>
         (\<forall>a. {a..<a + 1} \<subseteq> free_set six_pages \<longrightarrow> b \<le> a) \<and>
         free_set s' = free_set six_pages - {b..<b + 1} \<and> nr_free s' + 1 = nr_free six_pages)"
  by (rule default_alloc_pages_first_fit [OF six_pages_inv]) simp

text \<open>
  C17. \<open>default_free_pages\<close> gives a block back: when the pages are usable and not free, no
  assertion fails, exactly these pages join the free set, the count grows by \<open>n\<close>, and adjacent
  free blocks are merged, so that a free list without adjacent blocks stays so.
\<close>

theorem default_free_pages_correct:
  assumes "pmm_inv s" and "0 < n" and "{b..<b + n} \<subseteq> avail_set s - free_set s"
  shows "\<exists>s'. default_free_pages b n s = Some s' \<and> pmm_inv s' \<and> avail_set s' = avail_set s \<and>
    free_set s' = free_set s \<union> {b..<b + n} \<and> nr_free s' = nr_free s + n \<and>
    (coalesced (pages s) (free_list s) \<longrightarrow> coalesced (pages s') (free_list s'))"
  using assms by (rule free_pages_ok)

theorem default_free_pages_correct_witness:
  "\<exists>s'. default_free_pages 3 1 six_pages = Some s' \<and> pmm_inv s' \<and>
    avail_set s' = avail_set six_pages \<and> free_set s' = free_set six_pages \<union> {3..<3 + 1} \<and>
    nr_free s' = nr_free six_pages + 1 \<and>
    (coalesced (pages six_pages) (free_list six_pages) \<longrightarrow> coalesced (pages s') (free_list s'))"
  by (rule default_free_pages_correct [OF six_pages_inv(1)]) (auto simp: six_pages_sets)

text \<open>
  \<open>default_init_memmap\<close> puts a block of reserved pages under management: no assertion fails,
  its pages become usable and free, and the invariant holds of the new free list, which keeps
  its address order whatever the position of the block.
\<close>

theorem default_init_memmap_correct:
  assumes "pmm_inv s" and "0 < n" and "b + n \<le> npage s"
    and "\<forall>q \<in> {b..<b + n}. PageReserved (pages s q)"
  shows "\<exists>s'. default_init_memmap b n s = Some s' \<and> pmm_inv s' \<and>
    avail_set s' = avail_set s \<union> {b..<b + n} \<and>
    free_set s' = free_set s \<union> {b..<b + n} \<and> nr_free s' = nr_free s + n"
  using assms by (rule init_memmap_ok)

theorem default_init_memmap_correct_witness:
  "\<exists>s'. default_init_memmap 5 1 (upd_page 5 SetPageReserved six_pages) = Some s' \<and> pmm_inv s' \<and>
    avail_set s' = avail_set (upd_page 5 SetPageReserved six_pages) \<union> {5..<5 + 1} \<and>
    free_set s' = free_set (upd_page 5 SetPageReserved six_pages) \<union> {5..<5 + 1} \<and>
    nr_free s' = nr_free (upd_page 5 SetPageReserved six_pages) + 1"
proof (rule default_init_memmap_correct)
  show "pmm_inv (upd_page 5 SetPageReserved six_pages)"
    by (auto simp: six_pages_def pmm_inv_def page_flag_defs free_set_def)
  show "\<forall>q \<in> {5..<5 + 1}. PageReserved (pages (upd_page 5 SetPageReserved six_pages) q)"
    by (auto simp: page_flag_defs)
qed (simp_all add: six_pages_def)

text \<open>
  C11. Whatever the order in which the kernel allocates blocks and frees blocks it holds, no two
  live blocks overlap, none overlaps the free pages, no page is lost or invented, and freeing a
  live block never fails an assertion.
\<close>

theorem default_pmm_client_safe:
  assumes run: "client_run (\<lambda>n. 0 < n) default_alloc_pages default_free_pages s0 (s, held)"
    and inv: "pmm_inv s0"
  shows "pmm_inv s \<and> held_ok held \<and> held_set held \<inter> free_set s = {} \<and>
    held_set held \<union> free_set s = free_set s0 \<and>
    (\<forall>(b, n) \<in> set held. \<exists>s'. default_free_pages b n s = Some s')"
  using dpmm.client_inv [OF run inv] dpmm.client_free_ok [OF run inv] by auto

theorem default_pmm_client_safe_witness:
  "\<exists>s held. (1, 1) \<in> set held \<and> (2, 1) \<in> set held \<and> pmm_inv s \<and> held_ok held \<and>
    held_set held \<inter> free_set s = {} \<and> held_set held \<union> free_set s = free_set six_pages \<and>
    (\<forall>(b, n) \<in> set held. \<exists>s'. default_free_pages b n s = Some s')"
proof -
  let ?t = "take_block six_pages 1 1"
  let ?u = "take_block ?t 2 1"
  have "nr_free six_pages = 3" "find_fit (pages six_pages) 1 (free_list six_pages) = Some 1"
    "nr_free ?t = 2" "find_fit (pages ?t) 1 (free_list ?t) = Some 2"
    by (simp_all add: take_block_def six_pages_def)
  then have "default_alloc_pages 1 six_pages = Some (Some 1, ?t)"
    "default_alloc_pages 1 ?t = Some (Some 2, ?u)"
    by (simp_all add: default_alloc_pages_eq)
  then have "client_run (\<lambda>n. 0 < n) default_alloc_pages default_free_pages six_pages (?u, [(2, 1), (1, 1)])"
    using client_run.start [of "\<lambda>n. 0 < n" default_alloc_pages default_free_pages six_pages]
    by (meson client_run.alloc zero_less_one)
  from default_pmm_client_safe [OF this six_pages_inv(1)] show ?thesis
    by (intro exI [of _ ?u] exI [of _ "[(2, 1), (1, 1)]"]) simp
qed

end
