(* ===== verification/Vmm.thy ===== *)
theory Vmm
  imports KString
begin

text \<open>
  The virtual memory areas of a process (\<^verbatim>\<open>kern/mm/vmm.c\<close>, \<^verbatim>\<open>kern/mm/vmm.h\<close>): the sorted list of
  areas of an \<open>mm_struct\<close> with its one-entry cache, insertion with its overlap assertions,
  \<open>mm_map\<close>, and the checks every system call applies to user pointers. Areas are records in a
  heap \<open>vmas\<close>, and \<open>mmap_list\<close> is the list of their addresses. Virtual addresses are 32-bit words.
\<close>

section \<open>Definitions\<close>

definition PGSIZE :: u32 where "PGSIZE = 4096"

definition USERBASE :: u32 where "USERBASE = 0x00200000"

definition USERTOP :: u32 where "USERTOP = 0x80000000"

definition KERNBASE :: u32 where "KERNBASE = 0x80000000"

definition KERNTOP :: u32 where "KERNTOP = 0x80800000"

definition USER_ACCESS :: "u32 \<Rightarrow> u32 \<Rightarrow> bool" where
  "USER_ACCESS start fin \<longleftrightarrow> USERBASE \<le> start \<and> start < fin \<and> fin \<le> USERTOP"

definition KERN_ACCESS :: "u32 \<Rightarrow> u32 \<Rightarrow> bool" where
  "KERN_ACCESS start fin \<longleftrightarrow> KERNBASE \<le> start \<and> start < fin \<and> fin \<le> KERNTOP"

definition VM_READ :: u32 where "VM_READ = 1"

definition VM_WRITE :: u32 where "VM_WRITE = 2"

definition VM_EXEC :: u32 where "VM_EXEC = 4"

definition VM_STACK :: u32 where "VM_STACK = 8"

record vma_struct =
  vm_mm :: addr
  vm_start :: u32
  vm_end :: u32
  vm_flags :: u32

record mm_struct =
  mmap_list :: "addr list"
  mmap_cache :: "addr option"
  mm_pgdir :: "nat option"
  map_count :: int
  sm_priv :: "addr option"
  mm_count :: int
  locked_by :: int

record vmm =
  vmas :: "addr \<Rightarrow> vma_struct"
  mms :: "addr \<Rightarrow> mm_struct"

definition upd_mm :: "addr \<Rightarrow> (mm_struct \<Rightarrow> mm_struct) \<Rightarrow> 'a vmm_scheme \<Rightarrow> 'a vmm_scheme" where
  "upd_mm mm f s = s\<lparr>mms := (mms s)(mm := f (mms s mm))\<rparr>"

definition set_mm_count :: "int \<Rightarrow> mm_struct \<Rightarrow> mm_struct" where
  "set_mm_count v mm = mm\<lparr>mm_count := v\<rparr>"

definition mm_count_inc :: "addr \<Rightarrow> 'a vmm_scheme \<Rightarrow> int \<times> 'a vmm_scheme" where
  "mm_count_inc mm s =
     (let s = upd_mm mm (\<lambda>m. m\<lparr>mm_count := mm_count m + 1\<rparr>) s in (mm_count (mms s mm), s))"

definition mm_count_dec :: "addr \<Rightarrow> 'a vmm_scheme \<Rightarrow> int \<times> 'a vmm_scheme" where
  "mm_count_dec mm s =
     (let s = upd_mm mm (\<lambda>m. m\<lparr>mm_count := mm_count m - 1\<rparr>) s in (mm_count (mms s mm), s))"

text \<open>The block for a new area comes from \<open>kmalloc\<close>; its answer \<open>blk\<close> is a parameter.\<close>

definition vma_create :: "addr option \<Rightarrow> u32 \<Rightarrow> u32 \<Rightarrow> u32 \<Rightarrow> 'a vmm_scheme \<Rightarrow> addr option \<times> 'a vmm_scheme" where
  "vma_create blk start fin flags s =
     (case blk of
        None \<Rightarrow> (None, s)
      | Some vma \<Rightarrow>
          (Some vma, s\<lparr>vmas := (vmas s)(vma := (vmas s vma)\<lparr>vm_start := start, vm_end := fin, vm_flags := flags\<rparr>)\<rparr>))"

definition vma_contains :: "vma_struct \<Rightarrow> u32 \<Rightarrow> bool" where
  "vma_contains v a \<longleftrightarrow> vm_start v \<le> a \<and> a < vm_end v"

fun find_vma_loop :: "(addr \<Rightarrow> vma_struct) \<Rightarrow> u32 \<Rightarrow> addr list \<Rightarrow> addr option" where
  "find_vma_loop vs a [] = None"
| "find_vma_loop vs a (v # l) = (if vma_contains (vs v) a then Some v else find_vma_loop vs a l)"

definition find_vma :: "addr option \<Rightarrow> u32 \<Rightarrow> 'a vmm_scheme \<Rightarrow> addr option \<times> 'a vmm_scheme" where
  "find_vma mm a s =
     (case mm of
        None \<Rightarrow> (None, s)
      | Some mm \<Rightarrow>
          let vma = mmap_cache (mms s mm);
              vma = (if \<not> (vma \<noteq> None \<and> vm_start (vmas s (the vma)) \<le> a \<and> vm_end (vmas s (the vma)) > a)
                     then find_vma_loop (vmas s) a (mmap_list (mms s mm)) else vma)
          in (vma, if vma \<noteq> None then upd_mm mm (\<lambda>m. m\<lparr>mmap_cache := vma\<rparr>) s else s))"

definition check_vma_overlap :: "vma_struct \<Rightarrow> vma_struct \<Rightarrow> unit option" where
  "check_vma_overlap prev nxt =
     do { kassert (vm_start prev < vm_end prev);
          kassert (vm_end prev \<le> vm_start nxt);
          kassert (vm_start nxt < vm_end nxt) }"

text \<open>The search for \<open>le_prev\<close>: the entries up to it, and those from \<open>le_next\<close> on.\<close>

fun insert_split :: "(addr \<Rightarrow> vma_struct) \<Rightarrow> u32 \<Rightarrow> addr list \<Rightarrow> addr list \<times> addr list" where
  "insert_split vs start [] = ([], [])"
| "insert_split vs start (v # l) =
     (if vm_start (vs v) > start then ([], v # l)
      else case insert_split vs start l of (xs, ys) \<Rightarrow> (v # xs, ys))"

definition insert_vma_struct :: "addr \<Rightarrow> addr \<Rightarrow> 'a vmm_scheme \<Rightarrow> 'a vmm_scheme option" where
  "insert_vma_struct mm vma s =
     do { kassert (vm_start (vmas s vma) < vm_end (vmas s vma));
          let (xs, ys) = insert_split (vmas s) (vm_start (vmas s vma)) (mmap_list (mms s mm));
          (if xs \<noteq> [] then check_vma_overlap (vmas s (last xs)) (vmas s vma) else Some ());
          (if ys \<noteq> [] then check_vma_overlap (vmas s vma) (vmas s (hd ys)) else Some ());
          let s = s\<lparr>vmas := (vmas s)(vma := (vmas s vma)\<lparr>vm_mm := mm\<rparr>)\<rparr>;
          Some (upd_mm mm (\<lambda>m. m\<lparr>mmap_list := xs @ vma # ys, map_count := map_count m + 1\<rparr>) s) }"

text \<open>\<open>mm_destroy\<close>: the blocks given back to \<open>kfree\<close>, in order, and the emptied list.\<close>

definition mm_destroy :: "addr \<Rightarrow> 'a vmm_scheme \<Rightarrow> (addr list \<times> 'a vmm_scheme) option" where
  "mm_destroy mm s =
     do { kassert (mm_count (mms s mm) = 0);
          Some (mmap_list (mms s mm) @ [mm], upd_mm mm (\<lambda>m. m\<lparr>mmap_list := []\<rparr>) s) }"

definition mm_map :: "addr option \<Rightarrow> addr \<Rightarrow> u32 \<Rightarrow> u32 \<Rightarrow> u32 \<Rightarrow> 'a vmm_scheme \<Rightarrow>
    ((kerror + addr) \<times> 'a vmm_scheme) option" where
  "mm_map blk mm a len flags s =
     (let start = ROUNDDOWN a PGSIZE; fin = ROUNDUP (a + len) PGSIZE
      in if \<not> USER_ACCESS start fin then Some (Inl E_INVAL, s)
         else
           let (vma, s) = find_vma (Some mm) start s
           in if vma \<noteq> None \<and> fin > vm_start (vmas s (the vma)) then Some (Inl E_INVAL, s)
              else case vma_create blk start fin flags s of
                (None, s) \<Rightarrow> Some (Inl E_NO_MEM, s)
              | (Some vma, s) \<Rightarrow>
                  do { s \<leftarrow> insert_vma_struct mm vma s; Some (Inr vma, s) })"

lemma find_vma_contains:
  "find_vma mm a s = (Some v, s') \<Longrightarrow> vma_contains (vmas s v) a \<and> vmas s' = vmas s"
proof -
  have "find_vma_loop vs a l = Some v \<Longrightarrow> vma_contains (vs v) a" for vs l
    by (induction l) (auto split: if_splits)
  moreover assume "find_vma mm a s = (Some v, s')"
  ultimately show ?thesis
    by (auto simp: find_vma_def Let_def vma_contains_def upd_mm_def split: option.splits if_splits)
qed

text \<open>The loop of \<open>user_mem_check\<close> goes from area to area; it ends because every area ends later.\<close>

function user_mem_loop :: "addr \<Rightarrow> u32 \<Rightarrow> u32 \<Rightarrow> bool \<Rightarrow> 'a vmm_scheme \<Rightarrow> bool \<times> 'a vmm_scheme" where
  "user_mem_loop mm start fin wr s =
     (if start < fin then
        (case find_vma (Some mm) start s of
           (None, s') \<Rightarrow> (False, s')
         | (Some v, s') \<Rightarrow>
             let vma = vmas s' v
             in if start < vm_start vma then (False, s')
                else if vm_flags vma AND (if wr then VM_WRITE else VM_READ) = 0 then (False, s')
                else if wr \<and> vm_flags vma AND VM_STACK \<noteq> 0 \<and> start < vm_start vma + PGSIZE then (False, s')
                else user_mem_loop mm (vm_end vma) fin wr s')
      else (True, s))"
  by pat_completeness auto

termination user_mem_loop
  by (relation "measure (\<lambda>(mm, start, fin, wr, s). unat fin - unat start)")
    (auto simp: vma_contains_def word_less_nat_alt dest!: sym [of "(_, _)"] find_vma_contains)

definition user_mem_check :: "addr option \<Rightarrow> u32 \<Rightarrow> u32 \<Rightarrow> bool \<Rightarrow> 'a vmm_scheme \<Rightarrow> bool \<times> 'a vmm_scheme" where
  "user_mem_check mm a len wr s =
     (case mm of
        Some mm \<Rightarrow>
          if \<not> USER_ACCESS a (a + len) then (False, s) else user_mem_loop mm a (a + len) wr s
      | None \<Rightarrow> (KERN_ACCESS a (a + len), s))"

definition copy_from_user ::
  "addr option \<Rightarrow> addr \<Rightarrow> u32 \<Rightarrow> u32 \<Rightarrow> bool \<Rightarrow> mem \<times> 'a vmm_scheme \<Rightarrow> bool \<times> mem \<times> 'a vmm_scheme" where
  "copy_from_user mm dst src len writable = (\<lambda>(m, s).
     case user_mem_check mm src len writable s of
       (False, s) \<Rightarrow> (False, m, s)
     | (True, s) \<Rightarrow> (True, memcpy m dst (unat src) (unat len), s))"

definition copy_to_user ::
  "addr option \<Rightarrow> u32 \<Rightarrow> addr \<Rightarrow> u32 \<Rightarrow> mem \<times> 'a vmm_scheme \<Rightarrow> bool \<times> mem \<times> 'a vmm_scheme" where
  "copy_to_user mm dst src len = (\<lambda>(m, s).
     case user_mem_check mm dst len True s of
       (False, s) \<Rightarrow> (False, m, s)
     | (True, s) \<Rightarrow> (True, memcpy m (unat dst) src (unat len), s))"

lemma user_mem_check_len: "user_mem_check mm a len wr s = (True, s') \<Longrightarrow> len \<noteq> 0"
  by (auto simp: user_mem_check_def USER_ACCESS_def KERN_ACCESS_def split: option.splits if_splits)

function copy_string_loop ::
  "addr option \<Rightarrow> addr \<Rightarrow> u32 \<Rightarrow> u32 \<Rightarrow> u32 \<Rightarrow> mem \<Rightarrow> 'a vmm_scheme \<Rightarrow> bool \<times> mem \<times> 'a vmm_scheme" where
  "copy_string_loop mm dst src maxn part m s =
     (let part = (if part > maxn then maxn else part)
      in case user_mem_check mm src part False s of
           (False, s') \<Rightarrow> (False, m, s')
         | (True, s') \<Rightarrow>
             let alen = strnlen m (unat src) (unat part)
             in if alen < unat part then (True, memcpy m dst (unat src) (alen + 1), s')
                else if part = maxn then (False, m, s')
                else copy_string_loop mm (dst + unat part) (src + part) (maxn - part) PGSIZE
                       (memcpy m dst (unat src) (unat part)) s')"
  by pat_completeness auto

termination copy_string_loop
proof (relation "measure (\<lambda>(mm, dst, src, maxn, part, m, s). unat maxn)", goal_cases)
  case (2 mm dst src maxn part m s p x s' alen)
  have "p \<noteq> 0"
    using 2 user_mem_check_len [of mm src p False s s'] by auto
  moreover have "p \<le> maxn"
    using 2(1) by (simp add: not_less)
  ultimately show ?case
    using unat_gt_0 [of p] by (simp add: unat_sub word_le_nat_alt)
qed simp

definition copy_string ::
  "addr option \<Rightarrow> addr \<Rightarrow> u32 \<Rightarrow> u32 \<Rightarrow> mem \<Rightarrow> 'a vmm_scheme \<Rightarrow> bool \<times> mem \<times> 'a vmm_scheme" where
  "copy_string mm dst src maxn m s =
     copy_string_loop mm dst src maxn (ROUNDDOWN (src + PGSIZE) PGSIZE - src) m s"

text \<open>
  The invariant of an address space: areas are non-empty, sorted and disjoint, the cache points
  to one of them, and the counter counts them. \<open>area_set\<close> is what the list stands for.
\<close>

definition areas_ok :: "(addr \<Rightarrow> vma_struct) \<Rightarrow> addr list \<Rightarrow> bool" where
  "areas_ok vs xs \<longleftrightarrow>
     sorted_wrt (\<lambda>u v. vm_end (vs u) \<le> vm_start (vs v)) xs \<and> (\<forall>v\<in>set xs. vm_start (vs v) < vm_end (vs v))"

definition mm_inv :: "'a vmm_scheme \<Rightarrow> addr \<Rightarrow> bool" where
  "mm_inv s mm \<longleftrightarrow>
     areas_ok (vmas s) (mmap_list (mms s mm)) \<and>
     (\<forall>v. mmap_cache (mms s mm) = Some v \<longrightarrow> v \<in> set (mmap_list (mms s mm))) \<and>
     map_count (mms s mm) = int (length (mmap_list (mms s mm)))"

definition area :: "vma_struct \<Rightarrow> u32 \<times> u32 \<times> u32" where
  "area v = (vm_start v, vm_end v, vm_flags v)"

definition area_set :: "'a vmm_scheme \<Rightarrow> addr \<Rightarrow> (u32 \<times> u32 \<times> u32) set" where
  "area_set s mm = (\<lambda>v. area (vmas s v)) ` set (mmap_list (mms s mm))"

definition accessible :: "(u32 \<times> u32 \<times> u32) set \<Rightarrow> bool \<Rightarrow> u32 \<Rightarrow> bool" where
  "accessible A wr x \<longleftrightarrow> (\<exists>(start, fin, flags)\<in>A. start \<le> x \<and> x < fin \<and>
     flags AND (if wr then VM_WRITE else VM_READ) \<noteq> 0 \<and>
     \<not> (wr \<and> flags AND VM_STACK \<noteq> 0 \<and> x < start + PGSIZE))"

definition overlaps :: "vma_struct \<Rightarrow> u32 \<Rightarrow> u32 \<Rightarrow> bool" where
  "overlaps v start fin \<longleftrightarrow> vm_start v < fin \<and> start < vm_end v"

definition string_copied ::
  "(u32 \<times> u32 \<times> u32) set \<Rightarrow> mem \<Rightarrow> mem \<Rightarrow> addr \<Rightarrow> u32 \<Rightarrow> u32 \<Rightarrow> u8 list \<Rightarrow> bool" where
  "string_copied A m m' dst src maxn xs \<longleftrightarrow>
     length xs < unat maxn \<and> unat src + length xs < 2 ^ 31 \<and>
     cstr m (unat src) xs \<and> cstr m' dst xs \<and>
     (\<forall>i \<le> length xs. accessible A False (src + of_nat i)) \<and>
     (\<forall>k. k < dst \<or> dst + length xs < k \<longrightarrow> m' k = m k)"

declare user_mem_loop.simps [simp del] copy_string_loop.simps [simp del]

section \<open>Lookup\<close>

lemma areas_ok_Cons:
  "areas_ok vs (v # l) \<longleftrightarrow> vm_start (vs v) < vm_end (vs v) \<and> (\<forall>u\<in>set l. vm_end (vs v) \<le> vm_start (vs u)) \<and> areas_ok vs l"
  by (auto simp: areas_ok_def)

lemma areas_ok_append:
  "areas_ok vs (xs @ ys) \<longleftrightarrow> areas_ok vs xs \<and> areas_ok vs ys \<and>
     (\<forall>u\<in>set xs. \<forall>v\<in>set ys. vm_end (vs u) \<le> vm_start (vs v))"
  by (auto simp: areas_ok_def sorted_wrt_append)

lemma areas_unique:
  "areas_ok vs l \<Longrightarrow> u \<in> set l \<Longrightarrow> v \<in> set l \<Longrightarrow> vma_contains (vs u) a \<Longrightarrow> vma_contains (vs v) a \<Longrightarrow> u = v"
  by (induction l) (force simp: areas_ok_Cons vma_contains_def)+

lemma find_vma_loop_iff:
  assumes "areas_ok vs l"
  shows "find_vma_loop vs a l = Some v \<longleftrightarrow> v \<in> set l \<and> vma_contains (vs v) a"
proof -
  have "(case find_vma_loop vs a l of Some v \<Rightarrow> v \<in> set l \<and> vma_contains (vs v) a
      | None \<Rightarrow> \<forall>v\<in>set l. \<not> vma_contains (vs v) a)"
    by (induction l) (auto split: option.splits)
  then show ?thesis
    using areas_unique [OF assms] by (auto split: option.splits)
qed

lemma find_vma_ok:
  assumes "mm_inv s mm" "find_vma (Some mm) a s = (r, s')"
  shows "r = Some v \<longleftrightarrow> v \<in> set (mmap_list (mms s mm)) \<and> vma_contains (vmas s v) a"
    and "mm_inv s' mm" and "vmas s' = vmas s" and "mmap_list (mms s' mm) = mmap_list (mms s mm)"
    and "area_set s' mm = area_set s mm"
proof -
  let ?l = "mmap_list (mms s mm)" and ?c = "mmap_cache (mms s mm)"
  have ok: "areas_ok (vmas s) ?l"
    using assms(1) by (simp add: mm_inv_def)
  have r: "r = (if \<exists>v. ?c = Some v \<and> vma_contains (vmas s v) a then ?c else find_vma_loop (vmas s) a ?l)"
    using assms(2) by (auto simp: find_vma_def Let_def vma_contains_def)
  have s': "s' = (if r = None then s else upd_mm mm (\<lambda>m. m\<lparr>mmap_cache := r\<rparr>) s)"
    using assms(2) by (auto simp: find_vma_def Let_def)
  have cache: "?c = Some v \<Longrightarrow> v \<in> set ?l" for v
    using assms(1) by (simp add: mm_inv_def)
  show iff: "r = Some v \<longleftrightarrow> v \<in> set ?l \<and> vma_contains (vmas s v) a" for v
    using find_vma_loop_iff [OF ok] areas_unique [OF ok] cache unfolding r by (auto split: if_splits)
  show "vmas s' = vmas s" "mmap_list (mms s' mm) = ?l"
    by (simp_all add: s' upd_mm_def)
  then show "area_set s' mm = area_set s mm"
    by (simp add: area_set_def)
  show "mm_inv s' mm"
  proof (cases r)
    case None
    then show ?thesis
      using assms(1) s' by simp
  next
    case (Some v)
    then have "v \<in> set ?l"
      using iff by simp
    then show ?thesis
      using assms(1) Some s' by (simp add: mm_inv_def upd_mm_def)
  qed
qed

section \<open>Insertion\<close>

lemma insert_split_ok:
  assumes "insert_split vs start l = (xs, ys)" "areas_ok vs l"
  shows "l = xs @ ys" and "\<And>u. u \<in> set xs \<Longrightarrow> vm_start (vs u) \<le> start"
    and "\<And>u. u \<in> set ys \<Longrightarrow> start < vm_start (vs u)"
proof -
  have "l = xs @ ys \<and> (\<forall>u\<in>set xs. vm_start (vs u) \<le> start) \<and> (\<forall>u\<in>set ys. start < vm_start (vs u))"
    using assms
  proof (induction l arbitrary: xs ys)
    case (Cons v l)
    show ?case
    proof (cases "vm_start (vs v) > start")
      case True
      with Cons.prems show ?thesis
        by (fastforce simp: areas_ok_Cons)
    next
      case False
      with Cons.prems obtain zs where "xs = v # zs" "insert_split vs start l = (zs, ys)"
        by (auto split: prod.splits)
      with Cons.IH [OF this(2)] Cons.prems(2) False show ?thesis
        by (auto simp: areas_ok_Cons)
    qed
  qed simp
  then show "l = xs @ ys" and "\<And>u. u \<in> set xs \<Longrightarrow> vm_start (vs u) \<le> start"
    and "\<And>u. u \<in> set ys \<Longrightarrow> start < vm_start (vs u)"
    by auto
qed

lemma areas_ok_last:
  "areas_ok vs xs \<Longrightarrow> u \<in> set xs \<Longrightarrow> vm_end (vs u) \<le> vm_end (vs (last xs))"
proof (induction xs)
  case (Cons x xs)
  have "vm_end (vs x) \<le> vm_end (vs (last xs))" if "xs \<noteq> []"
  proof -
    have "last xs \<in> set xs"
      using that by simp
    with Cons.prems(1) have "vm_end (vs x) \<le> vm_start (vs (last xs))" "vm_start (vs (last xs)) < vm_end (vs (last xs))"
      by (auto simp: areas_ok_def)
    then show ?thesis
      by simp
  qed
  with Cons show ?case
    by (auto simp: areas_ok_Cons)
qed simp

lemma areas_ok_hd:
  "areas_ok vs ys \<Longrightarrow> u \<in> set ys \<Longrightarrow> vm_start (vs (hd ys)) \<le> vm_start (vs u)"
  by (cases ys) (auto simp: areas_ok_Cons)

lemma areas_ok_cong:
  assumes "\<And>u. u \<in> set l \<Longrightarrow> vm_start (vs' u) = vm_start (vs u) \<and> vm_end (vs' u) = vm_end (vs u)"
  shows "areas_ok vs' l = areas_ok vs l"
  using assms by (induction l) (simp add: areas_ok_def, simp add: areas_ok_Cons)

text \<open>The assertions about the two neighbours decide whether the new area overlaps any area.\<close>

lemma neighbours_decide:
  assumes ok: "areas_ok vs (xs @ ys)" and xs: "\<And>u. u \<in> set xs \<Longrightarrow> vm_start (vs u) \<le> start"
    and ys: "\<And>u. u \<in> set ys \<Longrightarrow> start < vm_start (vs u)" and lt: "start < fin"
  shows "(xs \<noteq> [] \<longrightarrow> vm_end (vs (last xs)) \<le> start) \<and> (ys \<noteq> [] \<longrightarrow> fin \<le> vm_start (vs (hd ys))) \<longleftrightarrow>
    (\<forall>u\<in>set (xs @ ys). \<not> overlaps (vs u) start fin)"
proof (intro iffI conjI impI ballI)
  fix u
  assume nb: "(xs \<noteq> [] \<longrightarrow> vm_end (vs (last xs)) \<le> start) \<and> (ys \<noteq> [] \<longrightarrow> fin \<le> vm_start (vs (hd ys)))"
    and u: "u \<in> set (xs @ ys)"
  have oks: "areas_ok vs xs" "areas_ok vs ys"
    using ok by (simp_all add: areas_ok_append)
  show "\<not> overlaps (vs u) start fin"
  proof (cases "u \<in> set xs")
    case True
    then have "vm_end (vs u) \<le> start"
      using areas_ok_last [OF oks(1) True] nb by (auto intro: order_trans)
    then show ?thesis
      by (simp add: overlaps_def not_less)
  next
    case False
    with u have "u \<in> set ys"
      by simp
    then have "fin \<le> vm_start (vs u)"
      using areas_ok_hd [OF oks(2)] nb by (auto intro: order_trans)
    then show ?thesis
      by (simp add: overlaps_def not_less)
  qed
next
  assume no: "\<forall>u\<in>set (xs @ ys). \<not> overlaps (vs u) start fin" and "xs \<noteq> []"
  then have "last xs \<in> set xs"
    by simp
  with no have "\<not> overlaps (vs (last xs)) start fin"
    by simp
  with xs [OF \<open>last xs \<in> set xs\<close>] lt show "vm_end (vs (last xs)) \<le> start"
    by (auto simp: overlaps_def not_less)
next
  assume no: "\<forall>u\<in>set (xs @ ys). \<not> overlaps (vs u) start fin" and "ys \<noteq> []"
  then have h: "hd ys \<in> set ys"
    by simp
  then have "vm_start (vs (hd ys)) < vm_end (vs (hd ys))"
    using ok by (simp add: areas_ok_def)
  moreover have "\<not> overlaps (vs (hd ys)) start fin"
    using no h by simp
  ultimately show "fin \<le> vm_start (vs (hd ys))"
    using ys [OF h] by (auto simp: overlaps_def not_less)
qed

lemma insert_vma_struct_ok:
  fixes s :: "'a vmm_scheme"
  assumes inv: "mm_inv s mm" and new: "vma \<notin> set (mmap_list (mms s mm))"
  defines "v \<equiv> vmas s vma"
  shows "insert_vma_struct mm vma s = None \<longleftrightarrow>
      \<not> vm_start v < vm_end v \<or> (\<exists>u\<in>set (mmap_list (mms s mm)). overlaps (vmas s u) (vm_start v) (vm_end v))"
    and "insert_vma_struct mm vma s = Some s' \<Longrightarrow>
      mm_inv s' mm \<and> area_set s' mm = insert (area v) (area_set s mm) \<and>
      set (mmap_list (mms s' mm)) = insert vma (set (mmap_list (mms s mm)))"
proof -
  let ?l = "mmap_list (mms s mm)"
  obtain xs ys where split: "insert_split (vmas s) (vm_start v) ?l = (xs, ys)"
    by fastforce
  have ok: "areas_ok (vmas s) ?l"
    using inv by (simp add: mm_inv_def)
  note sp = insert_split_ok [OF split ok]
  have oks: "areas_ok (vmas s) xs" "areas_ok (vmas s) ys"
    using ok unfolding sp(1) by (simp_all add: areas_ok_append)
  define nb where "nb \<longleftrightarrow> (xs \<noteq> [] \<longrightarrow> vm_end (vmas s (last xs)) \<le> vm_start v) \<and>
      (ys \<noteq> [] \<longrightarrow> vm_end v \<le> vm_start (vmas s (hd ys)))"
  define s1 where "s1 = upd_mm mm (\<lambda>m. m\<lparr>mmap_list := xs @ vma # ys, map_count := map_count m + 1\<rparr>)
        (s\<lparr>vmas := (vmas s)(vma := v\<lparr>vm_mm := mm\<rparr>)\<rparr>)"
  have ne: "xs = [] \<or> vm_start (vmas s (last xs)) < vm_end (vmas s (last xs))"
    "ys = [] \<or> vm_start (vmas s (hd ys)) < vm_end (vmas s (hd ys))"
    using oks by (meson areas_ok_def last_in_set hd_in_set)+
  have e: "insert_vma_struct mm vma s = (if vm_start v < vm_end v \<and> nb then Some s1 else None)"
    using ne unfolding insert_vma_struct_def v_def [symmetric] split Let_def prod.case
    by (cases "xs = []"; cases "ys = []")
      (simp_all add: check_vma_overlap_def bind_kassert nb_def s1_def kassert_def)
  have nb: "nb \<longleftrightarrow> (\<forall>u\<in>set ?l. \<not> overlaps (vmas s u) (vm_start v) (vm_end v))" if "vm_start v < vm_end v"
    unfolding nb_def sp(1) by (rule neighbours_decide [OF ok [unfolded sp(1)] sp(2,3) that])
  then show "insert_vma_struct mm vma s = None \<longleftrightarrow>
      \<not> vm_start v < vm_end v \<or> (\<exists>u\<in>set ?l. overlaps (vmas s u) (vm_start v) (vm_end v))"
    by (auto simp: e)
  show "mm_inv s' mm \<and> area_set s' mm = insert (area v) (area_set s mm) \<and>
      set (mmap_list (mms s' mm)) = insert vma (set ?l)"
    if "insert_vma_struct mm vma s = Some s'"
  proof -
    have s': "s' = s1" and lt: "vm_start v < vm_end v" and "nb"
      using that by (auto simp: e split: if_splits)
    let ?vs = "(vmas s)(vma := v\<lparr>vm_mm := mm\<rparr>)"
    have "areas_ok ?vs (xs @ ys) = areas_ok (vmas s) (xs @ ys)"
      by (rule areas_ok_cong) (use new sp(1) in auto)
    then have "areas_ok ?vs (xs @ ys)"
      using ok sp(1) by simp
    moreover have "vm_end (vmas s u) \<le> vm_start v" if "u \<in> set xs" for u
      using areas_ok_last [OF oks(1) that] \<open>nb\<close> that by (auto simp: nb_def intro: order_trans)
    moreover have "vm_end v \<le> vm_start (vmas s u)" if "u \<in> set ys" for u
      using areas_ok_hd [OF oks(2) that] \<open>nb\<close> that by (auto simp: nb_def intro: order_trans)
    ultimately have "areas_ok ?vs (xs @ vma # ys)"
      using lt new unfolding sp(1) by (auto simp: areas_ok_append areas_ok_Cons)
    moreover have "area_set s1 mm = insert (area v) (area_set s mm)"
      using new unfolding sp(1) s1_def area_set_def by (auto simp: area_def upd_mm_def sp(1))
    ultimately show ?thesis
      using inv sp(1) by (auto simp: s' s1_def mm_inv_def upd_mm_def)
  qed
qed

section \<open>Mapping\<close>

lemma vma_create_frame:
  assumes "vma_create (Some v) start fin flags s = (r, s')" "v \<notin> set (mmap_list (mms s mm))" "mm_inv s mm"
  shows "r = Some v" and "mms s' = mms s" and "mm_inv s' mm" and "area_set s' mm = area_set s mm"
    and "area (vmas s' v) = (start, fin, flags)" and "\<And>u. u \<noteq> v \<Longrightarrow> vmas s' u = vmas s u"
proof -
  have s': "s' = s\<lparr>vmas := (vmas s)(v := (vmas s v)\<lparr>vm_start := start, vm_end := fin, vm_flags := flags\<rparr>)\<rparr>"
    and "r = Some v"
    using assms(1) by (auto simp: vma_create_def)
  then show "r = Some v" "mms s' = mms s" "area (vmas s' v) = (start, fin, flags)"
    by (simp_all add: area_def)
  show same: "vmas s' u = vmas s u" if "u \<noteq> v" for u
    using that by (simp add: s')
  have "areas_ok (vmas s') (mmap_list (mms s mm)) = areas_ok (vmas s) (mmap_list (mms s mm))"
    by (rule areas_ok_cong) (use same assms(2) in metis)
  then show "mm_inv s' mm"
    using assms(3) by (simp add: mm_inv_def \<open>mms s' = mms s\<close>)
  show "area_set s' mm = area_set s mm"
    unfolding area_set_def \<open>mms s' = mms s\<close> by (rule image_cong) (use same assms(2) in metis)+
qed

text \<open>
  C26. \<open>mm_map\<close> adds the page-rounded region to the areas of an address space: it refuses a region
  outside user space or whose first page is mapped already, reports a failed allocation, and
  otherwise adds exactly the new area, keeping the list sorted and disjoint. It stops the kernel
  exactly when the region's first page is free but a later area overlaps it.
\<close>

theorem mm_map_correct:
  fixes s :: "'a vmm_scheme" and a len flags :: u32 and blk :: "addr option"
  assumes inv: "mm_inv s mm" and fresh: "\<forall>v. blk = Some v \<longrightarrow> v \<notin> set (mmap_list (mms s mm))"
  defines "start \<equiv> ROUNDDOWN a PGSIZE" and "fin \<equiv> ROUNDUP (a + len) PGSIZE"
  defines "taken \<equiv> \<exists>v\<in>set (mmap_list (mms s mm)). vma_contains (vmas s v) start"
    and "clash \<equiv> \<exists>v\<in>set (mmap_list (mms s mm)). overlaps (vmas s v) start fin"
  shows "case mm_map blk mm a len flags s of
      None \<Rightarrow> USER_ACCESS start fin \<and> \<not> taken \<and> blk \<noteq> None \<and> clash
    | Some (Inl e, s') \<Rightarrow> mm_inv s' mm \<and> area_set s' mm = area_set s mm \<and>
        (e = E_INVAL \<and> (\<not> USER_ACCESS start fin \<or> taken) \<or>
         e = E_NO_MEM \<and> USER_ACCESS start fin \<and> \<not> taken \<and> blk = None)
    | Some (Inr v, s') \<Rightarrow> blk = Some v \<and> USER_ACCESS start fin \<and> \<not> clash \<and> mm_inv s' mm \<and>
        area_set s' mm = insert (start, fin, flags) (area_set s mm)"
proof (cases "USER_ACCESS start fin")
  case False
  then show ?thesis
    using inv by (simp add: mm_map_def flip: start_def fin_def)
next
  case ua: True
  then have lt: "start < fin"
    by (simp add: USER_ACCESS_def)
  obtain r s1 where f: "find_vma (Some mm) start s = (r, s1)"
    by (cases "find_vma (Some mm) start s")
  note F = find_vma_ok [OF inv f]
  have taken: "taken \<longleftrightarrow> r \<noteq> None"
    unfolding taken_def using F(1) by auto
  have m: "mm_map blk mm a len flags s = (if r \<noteq> None then Some (Inl E_INVAL, s1)
      else case vma_create blk start fin flags s1 of (None, s) \<Rightarrow> Some (Inl E_NO_MEM, s)
        | (Some vma, s) \<Rightarrow> do { s \<leftarrow> insert_vma_struct mm vma s; Some (Inr vma, s) })"
  proof -
    have "fin > vm_start (vmas s1 v)" if "r = Some v" for v
      using that F(1) [of v] F(3) lt by (auto simp: vma_contains_def)
    then show ?thesis
      using ua f by (auto simp: mm_map_def Let_def simp flip: start_def fin_def)
  qed
  show ?thesis
  proof (cases "r \<noteq> None \<or> blk = None")
    case True
    then show ?thesis
      using F(2,5) taken ua by (auto simp: m vma_create_def)
  next
    case False
    then obtain v where v: "blk = Some v" "r = None"
      by auto
    then have nin: "v \<notin> set (mmap_list (mms s1 mm))"
      using fresh F(4) by simp
    obtain r2 s2 where c: "vma_create (Some v) start fin flags s1 = (r2, s2)"
      by (cases "vma_create (Some v) start fin flags s1")
    note C = vma_create_frame [OF c nin F(2)]
    have nin2: "v \<notin> set (mmap_list (mms s2 mm))"
      using nin C(2) by simp
    note I = insert_vma_struct_ok [OF C(3) nin2]
    have ends: "vm_start (vmas s2 v) = start" "vm_end (vmas s2 v) = fin"
      using C(5) by (simp_all add: area_def)
    have clash: "clash \<longleftrightarrow> (\<exists>u\<in>set (mmap_list (mms s2 mm)). overlaps (vmas s2 u) start fin)"
      unfolding clash_def using C(2) F(4)
      by (intro bex_cong) (simp, metis C(6) F(3) nin)
    have m2: "mm_map blk mm a len flags s = do { s \<leftarrow> insert_vma_struct mm v s2; Some (Inr v, s) }"
      unfolding m unfolding v c C(1) by simp
    show ?thesis
    proof (cases "insert_vma_struct mm v s2")
      case None
      then have clash
        using I(1) lt by (simp add: ends clash)
      then show ?thesis
        unfolding m2 None using v(1,2) ua taken by simp
    next
      case (Some s3)
      then have "\<not> clash"
        using I(1) by (simp add: ends clash)
      then show ?thesis
        unfolding m2 Some using I(2) [OF Some] v(1) C(4,5) F(5) ua by simp
    qed
  qed
qed

definition demo_mm :: vmm where
  "demo_mm = \<lparr>vmas = (\<lambda>v. \<lparr>vm_mm = 1, vm_start = 0x800000, vm_end = 0x802000, vm_flags = 5\<rparr>),
     mms = (\<lambda>_. \<lparr>mmap_list = [7], mmap_cache = None, mm_pgdir = None, map_count = 1, sm_priv = None,
       mm_count = 1, locked_by = 0\<rparr>)\<rparr>"

lemma demo_mm_inv: "mm_inv demo_mm 1"
  by (simp add: mm_inv_def areas_ok_def demo_mm_def)

theorem mm_map_correct_witness:
  "\<exists>s'. mm_map (Some 9) 1 0x900123 0x2000 2 demo_mm = Some (Inr 9, s') \<and> mm_inv s' 1 \<and>
     area_set s' 1 = {(0x900000, 0x903000, 2), (0x800000, 0x802000, 5)}"
proof -
  have r: "ROUNDDOWN 0x900123 PGSIZE = 0x900000" "ROUNDUP (0x900123 + 0x2000) PGSIZE = 0x903000"
    by (simp_all add: ROUNDDOWN_def ROUNDUP_def PGSIZE_def)
  have "case mm_map (Some 9) 1 0x900123 0x2000 2 demo_mm of None \<Rightarrow> False | Some (Inl e, s') \<Rightarrow> False
    | Some (Inr v, s') \<Rightarrow> v = 9 \<and> mm_inv s' 1 \<and> area_set s' 1 = insert (0x900000, 0x903000, 2) (area_set demo_mm 1)"
    using mm_map_correct [OF demo_mm_inv, of "Some 9" "0x900123" "0x2000" 2] unfolding r
    by (simp add: demo_mm_def USER_ACCESS_def USERBASE_def USERTOP_def vma_contains_def overlaps_def
        split: option.splits sum.splits prod.splits)
  moreover have "area_set demo_mm 1 = {(0x800000, 0x802000, 5)}"
    by (simp add: area_set_def area_def demo_mm_def)
  ultimately show ?thesis
    by (cases "mm_map (Some 9) 1 0x900123 0x2000 2 demo_mm";
        cases "fst (the (mm_map (Some 9) 1 0x900123 0x2000 2 demo_mm))") auto
qed

section \<open>Access checks\<close>

text \<open>One round of the check looks at the area that holds the current address.\<close>

lemma accessible_at:
  assumes "mm_inv s mm" "v \<in> set (mmap_list (mms s mm))" "vma_contains (vmas s v) x"
  shows "accessible (area_set s mm) wr x \<longleftrightarrow>
    vm_flags (vmas s v) AND (if wr then VM_WRITE else VM_READ) \<noteq> 0 \<and>
    \<not> (wr \<and> vm_flags (vmas s v) AND VM_STACK \<noteq> 0 \<and> x < vm_start (vmas s v) + PGSIZE)"
proof -
  let ?Q = "\<lambda>u. vm_flags (vmas s u) AND (if wr then VM_WRITE else VM_READ) \<noteq> 0 \<and>
    \<not> (wr \<and> vm_flags (vmas s u) AND VM_STACK \<noteq> 0 \<and> x < vm_start (vmas s u) + PGSIZE)"
  have "accessible (area_set s mm) wr x \<longleftrightarrow> (\<exists>u\<in>set (mmap_list (mms s mm)). vma_contains (vmas s u) x \<and> ?Q u)"
    unfolding accessible_def area_set_def area_def vma_contains_def bex_simps(7) prod.case by simp
  moreover have "u = v" if "u \<in> set (mmap_list (mms s mm))" "vma_contains (vmas s u) x" for u
    using areas_unique [of "vmas s" _ u v x] assms that by (auto simp: mm_inv_def)
  ultimately show ?thesis
    using assms(2,3) by blast
qed

lemma user_mem_loop_ok:
  "user_mem_loop mm start fin wr s = (b, s') \<Longrightarrow> mm_inv s mm \<Longrightarrow>
    (b \<longleftrightarrow> (\<forall>x. start \<le> x \<and> x < fin \<longrightarrow> accessible (area_set s mm) wr x)) \<and>
    mm_inv s' mm \<and> area_set s' mm = area_set s mm \<and> vmas s' = vmas s"
proof (induction mm start fin wr s rule: user_mem_loop.induct)
  case (1 mm start fin wr s)
  show ?case
  proof (cases "start < fin")
    case False
    with "1.prems" show ?thesis
      by (subst (asm) user_mem_loop.simps) auto
  next
    case lt: True
    obtain r s1 where f: "find_vma (Some mm) start s = (r, s1)"
      by (cases "find_vma (Some mm) start s")
    note F = find_vma_ok [OF "1.prems"(2) f]
    show ?thesis
    proof (cases r)
      case None
      then have "\<not> accessible (area_set s mm) wr start"
        using F(1) by (auto simp: accessible_def area_set_def area_def vma_contains_def)
      moreover have "b = False" "s' = s1"
        using "1.prems"(1) lt f None by (subst (asm) user_mem_loop.simps, simp)+
      ultimately show ?thesis
        using F lt by (auto intro!: exI [of _ start])
    next
      case (Some v)
      let ?v = "vmas s v"
      have v: "v \<in> set (mmap_list (mms s mm))" "vma_contains ?v start"
        using F(1) Some by auto
      note A = accessible_at [OF "1.prems"(2) v(1)]
      have step: "user_mem_loop mm start fin wr s =
          (if accessible (area_set s mm) wr start then user_mem_loop mm (vm_end ?v) fin wr s1 else (False, s1))"
        using lt f Some v(2) A [OF v(2), of wr] F(3)
        by (subst user_mem_loop.simps) (auto simp: vma_contains_def not_less Let_def)
      show ?thesis
      proof (cases "accessible (area_set s mm) wr start")
        case False
        with step "1.prems"(1) F lt show ?thesis
          by (auto intro!: exI [of _ start])
      next
        case True
        have "user_mem_loop mm (vm_end ?v) fin wr s1 = (b, s')"
          using step True "1.prems"(1) by simp
        then have IH: "(b \<longleftrightarrow> (\<forall>x. vm_end ?v \<le> x \<and> x < fin \<longrightarrow> accessible (area_set s1 mm) wr x)) \<and>
            mm_inv s' mm \<and> area_set s' mm = area_set s1 mm \<and> vmas s' = vmas s1"
          using "1.IH" [OF lt f [symmetric] Some, of "vmas s1 v"] True A [OF v(2), of wr] v(2) F(2,3)
          by (auto simp: vma_contains_def not_less)
        have low: "accessible (area_set s mm) wr x" if "start \<le> x" "x < vm_end ?v" for x
        proof -
          have "vma_contains ?v x"
            using that v(2) by (auto simp: vma_contains_def)
          then show ?thesis
            using A [of x wr] A [OF v(2), of wr] True that(1) by auto
        qed
        have "start \<le> vm_end ?v"
          using v(2) by (auto simp: vma_contains_def)
        then have "(\<forall>x. start \<le> x \<and> x < fin \<longrightarrow> accessible (area_set s mm) wr x) \<longleftrightarrow>
            (\<forall>x. vm_end ?v \<le> x \<and> x < fin \<longrightarrow> accessible (area_set s mm) wr x)"
          using low by (meson leI order_trans)
        then show ?thesis
          using IH F(3,5) by simp
      qed
    qed
  qed
qed

lemma user_mem_check_ok:
  assumes "mm_inv s mm" "user_mem_check (Some mm) a len wr s = (b, s')"
  shows "b \<longleftrightarrow> USER_ACCESS a (a + len) \<and> (\<forall>x. a \<le> x \<and> x < a + len \<longrightarrow> accessible (area_set s mm) wr x)"
    and "mm_inv s' mm" and "area_set s' mm = area_set s mm"
  using assms user_mem_loop_ok [of mm a "a + len" wr s b s']
  by (auto simp: user_mem_check_def split: if_splits)

text \<open>
  C27. The check of user pointers is exact: it accepts a buffer if and only if the whole buffer
  lies in user space and every byte of it is in an area with the needed permission (and, for
  writing, not in the guard page of the stack). Lookups change only the cache.
\<close>

theorem user_mem_check_correct:
  assumes "mm_inv s mm"
  shows "(fst (user_mem_check (Some mm) a len wr s) \<longleftrightarrow>
      USER_ACCESS a (a + len) \<and> (\<forall>x. a \<le> x \<and> x < a + len \<longrightarrow> accessible (area_set s mm) wr x)) \<and>
    mm_inv (snd (user_mem_check (Some mm) a len wr s)) mm \<and>
    area_set (snd (user_mem_check (Some mm) a len wr s)) mm = area_set s mm"
  using user_mem_check_ok [OF assms, of a len wr] by (cases "user_mem_check (Some mm) a len wr s") simp

theorem user_mem_check_correct_witness:
  "fst (user_mem_check (Some 1) 0x800ff0 0x20 False demo_mm) \<and>
   \<not> fst (user_mem_check (Some 1) 0x801ff0 0x20 False demo_mm)"
proof -
  have A: "area_set demo_mm 1 = {(0x800000, 0x802000, 5)}"
    by (simp add: area_set_def area_def demo_mm_def)
  have "accessible {(0x800000, 0x802000, 5)} False x" if "0x800ff0 \<le> x" "x < 0x801010" for x
  proof -
    have "0x800000 \<le> x" "x < 0x802000"
      using order_trans [OF _ that(1), of "0x800000"] less_trans [OF that(2), of "0x802000"] by simp_all
    then show ?thesis
      by (simp add: accessible_def VM_READ_def)
  qed
  moreover have "\<not> accessible {(0x800000, 0x802000, 5)} False 0x802000"
    by (simp add: accessible_def)
  ultimately show ?thesis
    using user_mem_check_correct [OF demo_mm_inv, of "0x800ff0" "0x20" False]
      user_mem_check_correct [OF demo_mm_inv, of "0x801ff0" "0x20" False]
    unfolding A by (auto simp: USER_ACCESS_def USERBASE_def USERTOP_def)
qed

section \<open>Strings from user space\<close>

lemma strnlen_spec:
  "strnlen m p k \<le> k \<and> (\<forall>i < strnlen m p k. m (p + i) \<noteq> 0) \<and> (strnlen m p k < k \<longrightarrow> m (p + strnlen m p k) = 0)"
proof -
  have "\<exists>n. strnlen_loop m p k cnt = cnt + n \<and> n \<le> k \<and> (\<forall>i<n. m (p + i) \<noteq> 0) \<and> (n < k \<longrightarrow> m (p + n) = 0)" for cnt
  proof (induction k arbitrary: p cnt)
    case (Suc k)
    show ?case
    proof (cases "m p = 0")
      case False
      obtain n where "strnlen_loop m (p + 1) k (cnt + 1) = cnt + 1 + n" "n \<le> k"
        "\<forall>i<n. m (p + 1 + i) \<noteq> 0" "n < k \<longrightarrow> m (p + 1 + n) = 0"
        using Suc.IH by blast
      with False show ?thesis
        by (intro exI [of _ "Suc n"]) (auto simp: less_Suc_eq_0_disj)
    qed auto
  qed auto
  from this [of 0] show ?thesis
    by (auto simp: strnlen_def)
qed

lemma unat32: "unat (w :: u32) < 4294967296"
  using unsigned_less [of w] by simp

lemma user_range:
  assumes "USER_ACCESS src (src + len)"
  shows "unat (src + len) = unat src + unat len" and "unat src + unat len \<le> 2 ^ 31" and "0 < unat len"
proof -
  have lt: "unat src < unat (src + len)" "unat (src + len) \<le> 2 ^ 31"
    using assms by (auto simp: USER_ACCESS_def USERTOP_def word_less_nat_alt word_le_nat_alt)
  then show "unat (src + len) = unat src + unat len"
    using unat_plus_if_size [of src len] unat32 [of len] by (auto simp: word_size split: if_splits)
  with lt show "unat src + unat len \<le> 2 ^ 31" "0 < unat len"
    by simp_all
qed

lemma accessible_prefix:
  assumes "USER_ACCESS src (src + len)" "\<forall>x. src \<le> x \<and> x < src + len \<longrightarrow> accessible A wr x" "i < unat len"
  shows "accessible A wr (src + of_nat i)"
proof -
  note U = user_range [OF assms(1)]
  have "unat (of_nat i :: u32) = i"
    using assms(3) unat32 [of len] by (simp add: unat_of_nat)
  then have "unat (src + of_nat i) = unat src + i"
    using U assms(3) by (simp add: unat_word_ariths)
  then show ?thesis
    using U assms(2,3) by (simp add: word_le_nat_alt word_less_nat_alt)
qed

text \<open>The chunk a round of \<open>copy_string\<close> looks at.\<close>

lemma copy_chunk:
  assumes "USER_ACCESS src (src + p)" "2 ^ 31 \<le> dst" "n \<le> unat p"
  shows "memcpy m dst (unat src) n = memmove m dst (unat src) n"
    and "\<And>k. k < 2 ^ 31 \<Longrightarrow> memmove m dst (unat src) n k = m k"
proof -
  show "memcpy m dst (unat src) n = memmove m dst (unat src) n"
    using user_range [OF assms(1)] assms(2,3) unfolding memcpy_def by (intro copy_up_eq_memmove) simp
  show "memmove m dst (unat src) n k = m k" if "k < 2 ^ 31" for k
    using that assms(2) by (simp add: memmove_ok)
qed

lemma copy_string_last_chunk:
  assumes ua: "USER_ACCESS src (src + p)" and dst: "2 ^ 31 \<le> dst" and p: "unat p \<le> unat maxn"
    and acc: "\<forall>x. src \<le> x \<and> x < src + p \<longrightarrow> accessible A False x"
    and a: "strnlen m (unat src) (unat p) < unat p"
  defines "n \<equiv> strnlen m (unat src) (unat p)"
  shows "string_copied A m (memmove m dst (unat src) (n + 1)) dst src maxn (bytes m (unat src) n)"
proof -
  note S = strnlen_spec [of m "unat src" "unat p", folded n_def]
  have c: "cstr m (unat src) (bytes m (unat src) n @ [])"
    by (rule cstr_append_intro) (use S a in \<open>auto simp: bytes_def n_def\<close>)
  then have "cstr (memmove m dst (unat src) (length (bytes m (unat src) n) + 1)) dst (bytes m (unat src) n)"
    by (intro memmove_cstr) simp
  moreover have len: "length (bytes m (unat src) n) = n"
    by (simp add: bytes_def)
  moreover have "accessible A False (src + of_nat i)" if "i \<le> n" for i
    using accessible_prefix [OF ua acc] that a by (simp add: n_def)
  moreover have "memmove m dst (unat src) (n + 1) k = m k" if "k < dst \<or> dst + n < k" for k
    using that by (auto simp: memmove_ok)
  ultimately show ?thesis
    using c user_range [OF ua] p a unfolding string_copied_def len by (simp add: n_def)
qed

lemma copy_string_next_chunk:
  assumes ua: "USER_ACCESS src (src + p)" and dst: "2 ^ 31 \<le> dst" and p: "unat p \<le> unat maxn"
    and acc: "\<forall>x. src \<le> x \<and> x < src + p \<longrightarrow> accessible A False x"
    and full: "strnlen m (unat src) (unat p) = unat p"
    and rest: "string_copied A (memmove m dst (unat src) (unat p)) m' (dst + unat p) (src + p) (maxn - p) xs"
  shows "string_copied A m m' dst src maxn (bytes m (unat src) (unat p) @ xs)"
proof -
  let ?m = "memmove m dst (unat src) (unat p)" and ?b = "bytes m (unat src) (unat p)"
  note S = strnlen_spec [of m "unat src" "unat p", unfolded full] and U = user_range [OF ua]
  have R: "length xs < unat (maxn - p)" "unat (src + p) + length xs < 2 ^ 31" "cstr ?m (unat (src + p)) xs"
    "cstr m' (dst + unat p) xs" "\<And>i. i \<le> length xs \<Longrightarrow> accessible A False (src + p + of_nat i)"
    "\<And>k. k < dst + unat p \<or> dst + unat p + length xs < k \<Longrightarrow> m' k = ?m k"
    using rest by (auto simp: string_copied_def)
  have len: "length (?b @ xs) = unat p + length xs"
    by (simp add: bytes_def)
  have "cstr ?m (unat (src + p)) xs = cstr m (unat (src + p)) xs"
    by (rule cstr_cong) (use R(2) dst in \<open>simp add: memmove_ok\<close>)
  then have "cstr m (unat src + length ?b) xs"
    using R(3) U(1) by (simp add: bytes_def)
  then have 1: "cstr m (unat src) (?b @ xs)"
    by (intro cstr_append_intro) (use S in \<open>auto simp: bytes_def\<close>)
  have 2: "cstr m' dst (?b @ xs)"
  proof (rule cstr_append_intro)
    show "0 \<notin> set ?b"
      using S by (auto simp: bytes_def)
    show "m' (dst + i) = ?b ! i" if "i < length ?b" for i
      using that R(6) [of "dst + i"] by (simp add: bytes_def memmove_ok)
    show "cstr m' (dst + length ?b) xs"
      using R(4) by (simp add: bytes_def)
  qed
  have 3: "accessible A False (src + of_nat i)" if "i \<le> unat p + length xs" for i
  proof (cases "i < unat p")
    case False
    then obtain j where j: "i = unat p + j"
      using le_Suc_ex not_less by blast
    with that R(5) [of j] show ?thesis
      by (simp add: algebra_simps)
  qed (rule accessible_prefix [OF ua acc])
  have 4: "m' k = m k" if "k < dst \<or> dst + (unat p + length xs) < k" for k
    using R(6) [of k] that by (auto simp: memmove_ok)
  have "unat (maxn - p) = unat maxn - unat p"
    using p by (simp add: unat_sub word_le_nat_alt)
  with R(1,2) U(1) 1 2 3 4 show ?thesis
    unfolding string_copied_def len by simp
qed

lemma copy_string_loop_ok:
  "copy_string_loop (Some mm) dst src maxn part m s = (b, m', s') \<Longrightarrow> mm_inv s mm \<Longrightarrow> 2 ^ 31 \<le> dst \<Longrightarrow>
    (b \<longrightarrow> (\<exists>xs. string_copied (area_set s mm) m m' dst src maxn xs)) \<and>
    mm_inv s' mm \<and> area_set s' mm = area_set s mm \<and>
    (\<forall>k. k < dst \<or> dst + unat maxn \<le> k \<longrightarrow> m' k = m k)"
proof (induction "Some mm" dst src maxn part m s rule: copy_string_loop.induct)
  case (1 dst src maxn part m s)
  define p where "p = (if part > maxn then maxn else part)"
  have p: "unat p \<le> unat maxn"
    by (simp add: p_def word_less_nat_alt)
  obtain c s1 where u: "user_mem_check (Some mm) src p False s = (c, s1)"
    by (cases "user_mem_check (Some mm) src p False s")
  note C = user_mem_check_ok [OF "1.prems"(2) u]
  let ?n = "strnlen m (unat src) (unat p)"
  have step: "copy_string_loop (Some mm) dst src maxn part m s =
      (if \<not> c then (False, m, s1)
       else if ?n < unat p then (True, memcpy m dst (unat src) (?n + 1), s1)
       else if p = maxn then (False, m, s1)
       else copy_string_loop (Some mm) (dst + unat p) (src + p) (maxn - p) PGSIZE (memcpy m dst (unat src) (unat p)) s1)"
    by (subst copy_string_loop.simps) (simp only: Let_def u prod.case p_def [symmetric] split: bool.split, simp)
  show ?case
  proof (cases "\<not> c \<or> \<not> ?n < unat p \<and> p = maxn")
    case True
    with step "1.prems"(1) C(2,3) show ?thesis
      by (auto split: if_splits)
  next
    case False
    then have c: "USER_ACCESS src (src + p)" "\<forall>x. src \<le> x \<and> x < src + p \<longrightarrow> accessible (area_set s mm) False x"
      using C(1) by auto
    note K = copy_chunk [OF c(1) "1.prems"(3)]
    show ?thesis
    proof (cases "?n < unat p")
      case True
      have "string_copied (area_set s mm) m (memmove m dst (unat src) (?n + 1)) dst src maxn (bytes m (unat src) ?n)"
        by (rule copy_string_last_chunk [OF c(1) "1.prems"(3) p c(2) True])
      moreover have "m' = memmove m dst (unat src) (?n + 1)" "s' = s1" "b"
        using step "1.prems"(1) False True K(1) [of "?n + 1" m] by auto
      ultimately show ?thesis
        using C(2,3) True p by (auto simp: memmove_ok)
    next
      case more: False
      then have full: "?n = unat p"
        using strnlen_spec [of m "unat src" "unat p"] by linarith
      let ?m = "memmove m dst (unat src) (unat p)"
      have rec: "copy_string_loop (Some mm) (dst + unat p) (src + p) (maxn - p) PGSIZE ?m s1 = (b, m', s')"
        using step "1.prems"(1) False more K(1) [of "unat p" m] by simp
      have IH: "(b \<longrightarrow> (\<exists>xs. string_copied (area_set s1 mm) ?m m' (dst + unat p) (src + p) (maxn - p) xs)) \<and>
          mm_inv s' mm \<and> area_set s' mm = area_set s1 mm \<and>
          (\<forall>k. k < dst + unat p \<or> dst + unat p + unat (maxn - p) \<le> k \<longrightarrow> m' k = ?m k)"
        using "1.hyps" [OF p_def u [symmetric] _ refl] False more full rec C(2) "1.prems"(3) K(1) [of "unat p" m]
        by simp
      have "\<exists>xs. string_copied (area_set s mm) m m' dst src maxn xs" if b
        using IH that copy_string_next_chunk [OF c(1) "1.prems"(3) p c(2) full] C(3) by auto
      moreover have "unat (maxn - p) = unat maxn - unat p"
        using p by (simp add: unat_sub word_le_nat_alt)
      ultimately show ?thesis
        using IH C(3) p by (auto simp: memmove_ok)
    qed
  qed
qed

lemma user_access_part:
  assumes "USER_ACCESS src (src + maxn)" "p \<noteq> 0" "unat p \<le> unat maxn"
  shows "USER_ACCESS src (src + p)" and "src + p \<le> src + maxn" and "unat (src + p) = unat src + unat p"
    and "unat p < unat maxn \<Longrightarrow> USER_ACCESS (src + p) (src + p + (maxn - p))"
proof -
  note U = user_range [OF assms(1)]
  have p0: "0 < unat p"
    using assms(2) by (simp add: unat_gt_0)
  show e: "unat (src + p) = unat src + unat p"
    using U assms(3) by (simp add: unat_word_ariths)
  show le: "src + p \<le> src + maxn"
    using e U(1) assms(3) by (simp add: word_le_nat_alt)
  have b: "USERBASE \<le> src" "src + maxn \<le> USERTOP" "src < src + p" "src + maxn \<le> USERTOP"
    using assms(1) e p0 by (simp_all add: USER_ACCESS_def word_less_nat_alt)
  then show "USER_ACCESS src (src + p)"
    using le by (auto simp: USER_ACCESS_def intro: order_trans)
  show "USER_ACCESS (src + p) (src + p + (maxn - p))" if "unat p < unat maxn"
  proof -
    have "src + p < src + maxn"
      using that e U(1) by (simp add: word_less_nat_alt)
    moreover have "USERBASE \<le> src + p"
      using b by (auto intro: order_trans)
    ultimately show ?thesis
      using b by (simp add: USER_ACCESS_def)
  qed
qed

lemma cstr_drop:
  "cstr m p xs \<Longrightarrow> k \<le> length xs \<Longrightarrow> cstr m (p + k) (drop k xs)"
  using cstr_append [of m p "take k xs" "drop k xs"] by (simp add: min_absorb2)

lemma copy_string_loop_complete:
  "mm_inv s mm \<Longrightarrow> 2 ^ 31 \<le> dst \<Longrightarrow> USER_ACCESS src (src + maxn) \<Longrightarrow>
    (\<And>x. src \<le> x \<Longrightarrow> x < src + maxn \<Longrightarrow> accessible (area_set s mm) False x) \<Longrightarrow>
    part \<noteq> 0 \<Longrightarrow> cstr m (unat src) xs \<Longrightarrow> length xs < unat maxn \<Longrightarrow>
    fst (copy_string_loop (Some mm) dst src maxn part m s)"
proof (induction "Some mm" dst src maxn part m s arbitrary: xs rule: copy_string_loop.induct)
  case (1 dst src maxn part m s)
  define p where "p = (if part > maxn then maxn else part)"
  have p: "unat p \<le> unat maxn" "p \<noteq> 0"
    using "1.prems"(5,7) by (auto simp: p_def word_less_nat_alt)
  note P = user_access_part [OF "1.prems"(3) p(2,1)]
  obtain c s1 where u: "user_mem_check (Some mm) src p False s = (c, s1)"
    by (cases "user_mem_check (Some mm) src p False s")
  note C = user_mem_check_ok [OF "1.prems"(1) u]
  have c
    using C(1) P(1,2) "1.prems"(4) by (auto intro: less_le_trans)
  let ?n = "strnlen m (unat src) (unat p)"
  have step: "copy_string_loop (Some mm) dst src maxn part m s =
      (if ?n < unat p then (True, memcpy m dst (unat src) (?n + 1), s1)
       else if p = maxn then (False, m, s1)
       else copy_string_loop (Some mm) (dst + unat p) (src + p) (maxn - p) PGSIZE (memcpy m dst (unat src) (unat p)) s1)"
    using \<open>c\<close> by (subst copy_string_loop.simps)
      (simp only: Let_def u prod.case p_def [symmetric] split: bool.split, simp)
  show ?case
  proof (cases "?n < unat p")
    case True
    then show ?thesis
      by (simp add: step)
  next
    case False
    have nz: "\<And>i. i < unat p \<Longrightarrow> m (unat src + i) \<noteq> 0"
      using strnlen_spec [of m "unat src" "unat p"] False by auto
    then have long: "unat p \<le> length xs"
      using cstr_end [OF "1.prems"(6)] by (meson not_less)
    then have lt: "unat p < unat maxn" "p \<noteq> maxn"
      using "1.prems"(7) by auto
    let ?m = "memmove m dst (unat src) (unat p)"
    have m: "memcpy m dst (unat src) (unat p) = ?m"
      using copy_chunk(1) [OF P(1) "1.prems"(2)] by simp
    have "unat src + length xs < 2 ^ 31"
      using user_range [OF "1.prems"(3)] "1.prems"(7) by linarith
    then have "cstr ?m (unat src) xs = cstr m (unat src) xs"
      using "1.prems"(2) by (intro cstr_cong) (simp add: memmove_ok)
    then have rest: "cstr ?m (unat (src + p)) (drop (unat p) xs)"
      using cstr_drop [OF _ long, of ?m "unat src"] "1.prems"(6) P(3) by simp
    have "fst (copy_string_loop (Some mm) (dst + unat p) (src + p) (maxn - p) PGSIZE ?m s1)"
      unfolding m [symmetric]
    proof (rule "1.hyps" [OF p_def u [symmetric] _ refl False lt(2)])
      show "c = True"
        using \<open>c\<close> by simp
      show "length (drop (unat p) xs) < unat (maxn - p)"
        using p "1.prems"(7) long by (simp add: unat_sub word_le_nat_alt)
      show "accessible (area_set s1 mm) False x" if "src + p \<le> x" "x < src + p + (maxn - p)" for x
        using "1.prems"(4) [of x] that P(3) C(3) by (simp add: word_le_nat_alt)
    qed (use C(2) "1.prems"(2) P(4) lt rest m in \<open>simp_all add: PGSIZE_def\<close>)
    then show ?thesis
      using step False lt m by simp
  qed
qed

lemma copy_string_ok:
  assumes "mm_inv s mm" and "2 ^ 31 \<le> dst"
  shows "case copy_string (Some mm) dst src maxn m s of (b, m', s') \<Rightarrow>
    (b \<longrightarrow> (\<exists>xs. string_copied (area_set s mm) m m' dst src maxn xs)) \<and>
    ((\<exists>xs. cstr m (unat src) xs \<and> length xs < unat maxn) \<and> USER_ACCESS src (src + maxn) \<and>
      (\<forall>x. src \<le> x \<and> x < src + maxn \<longrightarrow> accessible (area_set s mm) False x) \<longrightarrow> b) \<and>
    mm_inv s' mm \<and> area_set s' mm = area_set s mm \<and>
    (\<forall>k. k < dst \<or> dst + unat maxn \<le> k \<longrightarrow> m' k = m k)"
proof -
  define part where "part = ROUNDDOWN (src + PGSIZE) PGSIZE - src"
  have "unat ((src + PGSIZE) mod PGSIZE) < unat PGSIZE"
    by (simp add: unat_mod PGSIZE_def)
  then have "(src + PGSIZE) mod PGSIZE \<noteq> PGSIZE"
    by auto
  then have part: "part \<noteq> 0"
    by (auto simp: part_def ROUNDDOWN_def)
  obtain b m' s' where e: "copy_string_loop (Some mm) dst src maxn part m s = (b, m', s')"
    by (cases "copy_string_loop (Some mm) dst src maxn part m s")
  have "b" if "\<exists>xs. cstr m (unat src) xs \<and> length xs < unat maxn" "USER_ACCESS src (src + maxn)"
    "\<forall>x. src \<le> x \<and> x < src + maxn \<longrightarrow> accessible (area_set s mm) False x"
    using copy_string_loop_complete [OF assms that(2) _ part, of m] that(1,3) e by auto
  with copy_string_loop_ok [OF e assms] show ?thesis
    by (auto simp: copy_string_def e simp flip: part_def)
qed

text \<open>
  C28. \<open>copy_string\<close> copies a string from user space safely. On success the kernel buffer holds
  exactly the user's string, terminated and shorter than the limit, every byte read was
  accessible, and only the bytes of the copy were written; it succeeds whenever the string is
  shorter than the limit and the whole range is accessible; and in every case nothing outside
  the buffer changes.
\<close>

theorem copy_string_correct:
  assumes "mm_inv s mm" and "2 ^ 31 \<le> dst"
  shows "case copy_string (Some mm) dst src maxn m s of (b, m', s') \<Rightarrow>
    (b \<longrightarrow> (\<exists>xs. string_copied (area_set s mm) m m' dst src maxn xs)) \<and>
    ((\<exists>xs. cstr m (unat src) xs \<and> length xs < unat maxn) \<and> USER_ACCESS src (src + maxn) \<and>
      (\<forall>x. src \<le> x \<and> x < src + maxn \<longrightarrow> accessible (area_set s mm) False x) \<longrightarrow> b) \<and>
    mm_inv s' mm \<and> area_set s' mm = area_set s mm \<and>
    (\<forall>k. k < dst \<or> dst + unat maxn \<le> k \<longrightarrow> m' k = m k)"
  by (rule copy_string_ok [OF assms])

theorem copy_string_correct_witness:
  "fst (copy_string (Some 1) 0x80010000 0x800100 8 ((\<lambda>_. 0)(0x800100 := 104, 0x800101 := 105)) demo_mm)"
proof -
  define m :: mem where "m = (\<lambda>_. 0)(0x800100 := 104, 0x800101 := 105)"
  have A: "area_set demo_mm 1 = {(0x800000, 0x802000, 5)}"
    by (simp add: area_set_def area_def demo_mm_def)
  have "accessible {(0x800000, 0x802000, 5)} False x" if "0x800100 \<le> x" "x < 0x800108" for x
  proof -
    have "0x800000 \<le> x" "x < 0x802000"
      using order_trans [OF _ that(1), of "0x800000"] less_trans [OF that(2), of "0x802000"] by simp_all
    then show ?thesis
      by (simp add: accessible_def VM_READ_def)
  qed
  moreover have "cstr m 0x800100 [104, 105]"
    by (simp add: m_def)
  then have "\<exists>xs. cstr m 0x800100 xs \<and> length xs < 8"
    by (intro exI [of _ "[104, 105]"]) simp
  moreover have "USER_ACCESS 0x800100 0x800108"
    by (simp add: USER_ACCESS_def USERBASE_def USERTOP_def)
  ultimately show ?thesis
    using copy_string_correct [OF demo_mm_inv, where dst = "0x80010000" and src = "0x800100" and maxn = 8 and m = m]
    unfolding m_def [symmetric] A by (simp add: case_prod_beta)
qed

end
