(* ===== verification/Mmu.thy ===== *)
theory Mmu
  imports DefaultPmm Vmm
begin

text \<open>
  Address arithmetic, page tables in memory and the software-managed TLB (\<^verbatim>\<open>kern/mm/mmu.h\<close>,
  \<^verbatim>\<open>kern/mm/pmm.h\<close>, \<^verbatim>\<open>kern/mm/tlb.c\<close>). Kernel memory is a byte store indexed by kernel virtual
  addresses; page tables are words of it. A \<open>struct Page *\<close> is the index into \<open>pages\<close>. The state extends
  that of the memory areas by the page manager, the memory, the TLB and the swap manager. Reading through a
  null pointer and writing past the end of an array have no result.
\<close>

section \<open>Definitions: state\<close>

record pstate = vmm +
  pm :: pmm
  km :: mem
  cur_pgdir :: "addr option"
  tlb_entries :: "nat \<Rightarrow> u32 \<times> u32 \<times> u32"
  tlb_algo_empty :: "nat \<Rightarrow> nat"
  tlb_algo_n :: nat
  tlb_algo_hi :: "nat \<Rightarrow> u32"
  tlb_algo_ptr :: nat
  swap_init_ok :: bool
  check_mm_struct :: "addr option"
  pra_list :: "nat list"
  clean_block :: u32
  pgfault_num :: u32
  kanswers :: "addr option list"

definition ld32 :: "mem \<Rightarrow> addr \<Rightarrow> u32" where
  "ld32 m a = un_le32 (map (\<lambda>i. m (a + i)) [0..<4])"

definition st32 :: "mem \<Rightarrow> addr \<Rightarrow> u32 \<Rightarrow> mem" where
  "st32 m a w = (\<lambda>x. if a \<le> x \<and> x < a + 4 then le32 w ! (x - a) else m x)"

definition upd_km :: "(mem \<Rightarrow> mem) \<Rightarrow> 'a pstate_scheme \<Rightarrow> 'a pstate_scheme" where
  "upd_km f s = s\<lparr>km := f (km s)\<rparr>"

definition upd_pg :: "nat \<Rightarrow> (page \<Rightarrow> page) \<Rightarrow> 'a pstate_scheme \<Rightarrow> 'a pstate_scheme" where
  "upd_pg p f s = s\<lparr>pm := upd_page p f (pm s)\<rparr>"

text \<open>The answers of \<open>kmalloc\<close>, in the order of the calls.\<close>

definition kmalloc_ans :: "'a pstate_scheme \<Rightarrow> addr option \<times> 'a pstate_scheme" where
  "kmalloc_ans s = (case kanswers s of [] \<Rightarrow> (None, s) | r # rs \<Rightarrow> (r, s\<lparr>kanswers := rs\<rparr>))"

section \<open>Definitions: addresses\<close>

definition PTE_P :: u32 where "PTE_P = 1"

definition PTE_W :: u32 where "PTE_W = 2"

definition PTE_U :: u32 where "PTE_U = 4"

definition PTE_USER :: u32 where "PTE_USER = PTE_U OR PTE_W OR PTE_P"

definition NPTEENTRY :: u32 where "NPTEENTRY = 1024"

definition PTSIZE :: u32 where "PTSIZE = PGSIZE * NPTEENTRY"

definition PDX :: "u32 \<Rightarrow> u32" where "PDX la = drop_bit 22 la AND 0x3FF"

definition PPN :: "u32 \<Rightarrow> u32" where "PPN la = drop_bit 12 la"

definition PTE_ADDR :: "u32 \<Rightarrow> u32" where "PTE_ADDR pte = pte AND NOT 0xFFF"

definition PADDR :: "addr \<Rightarrow> u32 option" where
  "PADDR kva = (if kva < unat KERNBASE then None else Some (of_nat kva - KERNBASE))"

definition KADDR :: "u32 \<Rightarrow> 'a pstate_scheme \<Rightarrow> addr option" where
  "KADDR pa s = (if unat (PPN pa) \<ge> npage (pm s) then None else Some (unat (pa + KERNBASE)))"

definition page2pa :: "nat \<Rightarrow> u32" where "page2pa page = push_bit 12 (of_nat page)"

definition pa2page :: "u32 \<Rightarrow> 'a pstate_scheme \<Rightarrow> nat option" where
  "pa2page pa s = (if unat (PPN pa) \<ge> npage (pm s) then None else Some (unat (PPN pa)))"

definition page2kva :: "nat \<Rightarrow> 'a pstate_scheme \<Rightarrow> addr option" where
  "page2kva page s = KADDR (page2pa page) s"

definition kva2page :: "addr \<Rightarrow> 'a pstate_scheme \<Rightarrow> nat option" where
  "kva2page kva s = do { pa \<leftarrow> PADDR kva; pa2page pa s }"

definition pte2page :: "u32 \<Rightarrow> 'a pstate_scheme \<Rightarrow> nat option" where
  "pte2page pte s = do { kassert (pte AND PTE_P \<noteq> 0); pa2page (PTE_ADDR pte) s }"

definition pde2page :: "u32 \<Rightarrow> 'a pstate_scheme \<Rightarrow> nat option" where
  "pde2page pde s = pa2page (PTE_ADDR pde) s"

definition page_ref :: "nat \<Rightarrow> 'a pstate_scheme \<Rightarrow> int" where
  "page_ref page s = pg_ref (pages (pm s) page)"

definition page_ref_inc :: "nat \<Rightarrow> 'a pstate_scheme \<Rightarrow> 'a pstate_scheme" where
  "page_ref_inc page s = upd_pg page (\<lambda>p. p\<lparr>pg_ref := pg_ref p + 1\<rparr>) s"

definition page_ref_dec :: "nat \<Rightarrow> 'a pstate_scheme \<Rightarrow> 'a pstate_scheme" where
  "page_ref_dec page s = upd_pg page (\<lambda>p. p\<lparr>pg_ref := pg_ref p - 1\<rparr>) s"

definition free_page :: "nat \<Rightarrow> 'a pstate_scheme \<Rightarrow> 'a pstate_scheme option" where
  "free_page page s = do { x \<leftarrow> default_free_pages page 1 (pm s); Some (s\<lparr>pm := x\<rparr>) }"

text \<open>\<open>get_pte\<close> without \<open>create\<close>: the address of the entry, or the null pointer when there is no table.\<close>

definition pte_slot :: "u32 \<Rightarrow> u32 \<Rightarrow> 'a pstate_scheme \<Rightarrow> addr option" where
  "pte_slot pde la s =
     do { t \<leftarrow> KADDR (pde AND 0xfffff000) s;
          Some (t + 4 * unat (drop_bit 12 (la AND 0x003ff000))) }"

definition find_pte :: "addr \<Rightarrow> u32 \<Rightarrow> 'a pstate_scheme \<Rightarrow> addr option option" where
  "find_pte pgdir la s =
     (let pde = ld32 (km s) (pgdir + 4 * unat (PDX la))
      in if pde AND PTE_P = 0 then Some None
         else do { p \<leftarrow> pte_slot pde la s; Some (Some p) })"

section \<open>Definitions: the TLB\<close>

definition TLBN :: nat where "TLBN = 16"

definition TLB_P :: u32 where "TLB_P = 0x80"

definition TLBIDX :: "u32 \<Rightarrow> nat" where "TLBIDX pte = unat (drop_bit 8 pte AND 0xf)"

definition TLBPAIR :: "u32 \<Rightarrow> u32" where "TLBPAIR la = la XOR 0x1000"

definition TLBLO :: "u32 \<Rightarrow> bool" where "TLBLO la \<longleftrightarrow> PPN la AND 1 = 1"

definition ENTRYLO :: "u32 \<Rightarrow> u32" where
  "ENTRYLO pte = push_bit 6 (PPN pte) OR push_bit 3 2 OR push_bit 2 (drop_bit 1 pte AND 1) OR 3"

definition ENTRYLO_INVALID :: u32 where "ENTRYLO_INVALID = 0"

definition ENTRYHI_INVALID :: u32 where "ENTRYHI_INVALID = 0x80000000"

definition tlb_write :: "nat \<Rightarrow> u32 \<Rightarrow> u32 \<Rightarrow> u32 \<Rightarrow> 'a pstate_scheme \<Rightarrow> 'a pstate_scheme" where
  "tlb_write idx hi lo0 lo1 s = s\<lparr>tlb_entries := (tlb_entries s)(idx := (hi, lo0, lo1))\<rparr>"

text \<open>The two halves of an entry, \<open>a\<close> for the page of \<open>la\<close> and \<open>b\<close> for the other one.\<close>

definition tlb_write_pair :: "nat \<Rightarrow> u32 \<Rightarrow> u32 \<Rightarrow> u32 \<Rightarrow> u32 \<Rightarrow> 'a pstate_scheme \<Rightarrow> 'a pstate_scheme" where
  "tlb_write_pair idx hi la a b s = (if TLBLO la then tlb_write idx hi b a s else tlb_write idx hi a b s)"

definition tlb_init_callback :: "'a pstate_scheme \<Rightarrow> 'a pstate_scheme" where
  "tlb_init_callback s = s\<lparr>tlb_algo_empty := (\<lambda>i. if i < TLBN then i else tlb_algo_empty s i), tlb_algo_n := TLBN\<rparr>"

definition tlb_init :: "'a pstate_scheme \<Rightarrow> 'a pstate_scheme" where
  "tlb_init s = tlb_init_callback
     (fold (\<lambda>i. tlb_write i ENTRYHI_INVALID ENTRYLO_INVALID ENTRYLO_INVALID) [0..<TLBN] s)"

definition load_pgdir :: "addr option \<Rightarrow> 'a pstate_scheme \<Rightarrow> 'a pstate_scheme" where
  "load_pgdir pgdir s = tlb_init (s\<lparr>cur_pgdir := pgdir\<rparr>)"

definition tlb_del_callback :: "nat \<Rightarrow> 'a pstate_scheme \<Rightarrow> 'a pstate_scheme option" where
  "tlb_del_callback idx s =
     do { kassert (tlb_algo_n s < TLBN);
          Some (s\<lparr>tlb_algo_empty := (tlb_algo_empty s)(tlb_algo_n s := idx), tlb_algo_n := tlb_algo_n s + 1\<rparr>) }"

definition clear_TLB_P :: "addr option \<Rightarrow> 'a pstate_scheme \<Rightarrow> 'a pstate_scheme" where
  "clear_TLB_P ptep s =
     (case ptep of None \<Rightarrow> s | Some p \<Rightarrow> upd_km (\<lambda>m. st32 m p (ld32 m p AND NOT TLB_P)) s)"

definition tlb_get_empty :: "u32 \<Rightarrow> 'a pstate_scheme \<Rightarrow> (nat \<times> 'a pstate_scheme) option" where
  "tlb_get_empty hi s =
     do { (idx, s) \<leftarrow>
            (if tlb_algo_n s > 0 then
               Some (tlb_algo_empty s (tlb_algo_n s - 1), s\<lparr>tlb_algo_n := tlb_algo_n s - 1\<rparr>)
             else
               do { let idx = tlb_algo_ptr s;
                    let hi0 = tlb_algo_hi s idx;
                    let s = s\<lparr>tlb_algo_ptr := (idx + 1) mod TLBN\<rparr>;
                    dir \<leftarrow> cur_pgdir s;
                    p \<leftarrow> find_pte dir hi0 s;
                    let s = clear_TLB_P p s;
                    p \<leftarrow> find_pte dir (TLBPAIR hi0) s;
                    Some (idx, clear_TLB_P p s) });
          Some (idx, s\<lparr>tlb_algo_hi := (tlb_algo_hi s)(idx := hi)\<rparr>) }"

text \<open>The other half of the TLB entry of \<open>la\<close>: its page table entry, when that is in the TLB.\<close>

definition paired_pte :: "addr \<Rightarrow> u32 \<Rightarrow> 'a pstate_scheme \<Rightarrow> u32 option option" where
  "paired_pte pgdir la s =
     do { p \<leftarrow> find_pte pgdir (TLBPAIR la) s;
          Some (case p of
                  None \<Rightarrow> None
                | Some p \<Rightarrow> let pte = ld32 (km s) p in if pte AND TLB_P = 0 then None else Some pte) }"

definition tlb_invalidate :: "addr \<Rightarrow> u32 \<Rightarrow> 'a pstate_scheme \<Rightarrow> 'a pstate_scheme option" where
  "tlb_invalidate pgdir la s =
     (if cur_pgdir s \<noteq> Some pgdir then Some s
      else
        do { q \<leftarrow> find_pte pgdir la s;
             case q of
               None \<Rightarrow> Some s
             | Some ptep \<Rightarrow>
                 let pte = ld32 (km s) ptep; idx = TLBIDX pte
                 in if pte AND TLB_P = 0 then Some s
                    else
                      do { other \<leftarrow> paired_pte pgdir la s;
                           s \<leftarrow> (case other of
                                   Some pte2 \<Rightarrow>
                                     Some (tlb_write_pair idx (la AND 0xffffe000) la ENTRYLO_INVALID (ENTRYLO pte2) s)
                                 | None \<Rightarrow>
                                     do { s \<leftarrow> tlb_del_callback idx s;
                                          Some (tlb_write_pair idx ENTRYHI_INVALID la ENTRYLO_INVALID ENTRYLO_INVALID s) });
                           Some (clear_TLB_P (Some ptep) s) } })"

text \<open>
  The end of \<open>tlb_miss_handler\<close>, once \<open>la\<close> has a present page at the entry \<open>ptep\<close>: the page and its
  pair are written to the TLB.
\<close>

definition tlb_refill :: "addr \<Rightarrow> u32 \<Rightarrow> addr \<Rightarrow> 'a pstate_scheme \<Rightarrow> 'a pstate_scheme option" where
  "tlb_refill pgdir la ptep s =
     do { other \<leftarrow> paired_pte pgdir la s;
          let lo = ENTRYLO (ld32 (km s) ptep);
          (idx, lo2, s) \<leftarrow> (case other of
                              Some pte2 \<Rightarrow> Some (TLBIDX pte2, ENTRYLO pte2, s)
                            | None \<Rightarrow> do { (idx, s) \<leftarrow> tlb_get_empty (la AND 0xffffe000) s; Some (idx, ENTRYLO_INVALID, s) });
          let s = tlb_write_pair idx (la AND 0xffffe000) la lo lo2 s;
          Some (upd_km (\<lambda>m. st32 m ptep (ld32 m ptep AND 0xfffff0ff OR push_bit 8 (of_nat idx) OR TLB_P)) s) }"

end
