(* ===== verification/Paging.thy ===== *)
theory Paging
  imports Mmu
begin

text \<open>
  Page tables, demand paging and swapping (\<^verbatim>\<open>kern/mm/pmm.c\<close>, \<^verbatim>\<open>kern/mm/swap.c\<close>,
  \<^verbatim>\<open>kern/mm/swap_fifo.c\<close>, \<^verbatim>\<open>kern/fs/swap/swapfs.c\<close>, the rest of \<^verbatim>\<open>kern/mm/vmm.c\<close> and
  \<open>tlb_miss_handler\<close> of \<^verbatim>\<open>kern/mm/tlb.c\<close>). The loops over address ranges are partial functions;
  theory \<open>PageMap\<close> shows that they return.
\<close>

section \<open>Definitions: swapping\<close>

definition pra_list_head :: addr where "pra_list_head = 0"

definition fifo_init_mm :: "addr \<Rightarrow> 'a pstate_scheme \<Rightarrow> 'a pstate_scheme" where
  "fifo_init_mm mm s = upd_mm mm (\<lambda>m. m\<lparr>sm_priv := Some pra_list_head\<rparr>) (s\<lparr>pra_list := []\<rparr>)"

definition fifo_map_swappable :: "addr \<Rightarrow> nat \<Rightarrow> 'a pstate_scheme \<Rightarrow> 'a pstate_scheme option" where
  "fifo_map_swappable mm page s =
     do { kassert (sm_priv (mms s mm) \<noteq> None);
          Some (s\<lparr>pra_list := pra_list s @ [page]\<rparr>) }"

text \<open>On an empty queue the code takes the queue's head for the link of a page; this has no result.\<close>

definition fifo_swap_out_victim :: "addr \<Rightarrow> bool \<Rightarrow> 'a pstate_scheme \<Rightarrow> (nat \<times> 'a pstate_scheme) option" where
  "fifo_swap_out_victim mm in_tick s =
     do { kassert (sm_priv (mms s mm) \<noteq> None);
          kassert (\<not> in_tick);
          case pra_list s of
            [] \<Rightarrow> None
          | page # rest \<Rightarrow> Some (page, s\<lparr>pra_list := rest\<rparr>) }"

definition BLOCKBASE :: "u32 \<Rightarrow> u32" where "BLOCKBASE a = a AND 0xff7e0000"

definition BLOCKOFF :: "u32 \<Rightarrow> u32" where "BLOCKOFF a = a AND 0x0001f000"

definition SWAP_FLAGS :: "u32 \<Rightarrow> u32" where "SWAP_FLAGS entry = entry AND 0x6"

definition swapfs_clean :: "u32 \<Rightarrow> unit option" where
  "swapfs_clean base = kassert (BLOCKBASE base = base)"

definition swapfs_init :: "'a pstate_scheme \<Rightarrow> unit option" where
  "swapfs_init s = swapfs_clean (clean_block s)"

text \<open>Reading leaves the page alone and writing stores nothing: the transfers are commented out.\<close>

definition swapfs_read :: "u32 \<Rightarrow> nat \<Rightarrow> 'a pstate_scheme \<Rightarrow> 'a pstate_scheme" where
  "swapfs_read entry page s = s"

definition swapfs_write :: "u32 \<Rightarrow> nat \<Rightarrow> 'a pstate_scheme \<Rightarrow> (u32 \<times> 'a pstate_scheme) option" where
  "swapfs_write entry page s =
     do { let free_slot = 0xbe421000;
          let entry = clean_block s OR BLOCKOFF free_slot OR SWAP_FLAGS entry;
          swapfs_clean (BLOCKBASE free_slot);
          Some (entry, s\<lparr>clean_block := BLOCKBASE free_slot\<rparr>) }"

fun swap_out_loop :: "addr \<Rightarrow> nat \<Rightarrow> bool \<Rightarrow> 'a pstate_scheme \<Rightarrow> 'a pstate_scheme option" where
  "swap_out_loop mm 0 in_tick s = Some s"
| "swap_out_loop mm (Suc n) in_tick s =
     do { (page, s) \<leftarrow> fifo_swap_out_victim mm in_tick s;
          let v = pra_vaddr (pages (pm s) page);
          dir \<leftarrow> mm_pgdir (mms s mm);
          q \<leftarrow> find_pte dir v s;
          ptep \<leftarrow> q;
          kassert (ld32 (km s) ptep AND PTE_P \<noteq> 0);
          (entry, s) \<leftarrow> swapfs_write (ld32 (km s) ptep) page s;
          s \<leftarrow> tlb_invalidate dir v s;
          s \<leftarrow> free_page page (upd_km (\<lambda>m. st32 m ptep entry) s);
          swap_out_loop mm n in_tick s }"

definition swap_out :: "addr option \<Rightarrow> nat \<Rightarrow> bool \<Rightarrow> 'a pstate_scheme \<Rightarrow> 'a pstate_scheme option" where
  "swap_out mm n in_tick s = do { mm \<leftarrow> mm; swap_out_loop mm n in_tick s }"

section \<open>Definitions: pages\<close>

partial_function (option) alloc_pages :: "nat \<Rightarrow> 'a pstate_scheme \<Rightarrow> (nat option \<times> 'a pstate_scheme) option" where
  "alloc_pages n s =
     do { (page, x) \<leftarrow> default_alloc_pages n (pm s);
          if page \<noteq> None \<or> n > 1 \<or> \<not> swap_init_ok s then Some (page, s\<lparr>pm := x\<rparr>)
          else do { s \<leftarrow> swap_out (check_mm_struct s) n False (s\<lparr>pm := x\<rparr>); alloc_pages n s } }"

definition alloc_page :: "'a pstate_scheme \<Rightarrow> (nat option \<times> 'a pstate_scheme) option" where
  "alloc_page s = alloc_pages 1 s"

definition free_pages :: "nat \<Rightarrow> nat \<Rightarrow> 'a pstate_scheme \<Rightarrow> 'a pstate_scheme option" where
  "free_pages base n s = do { x \<leftarrow> default_free_pages base n (pm s); Some (s\<lparr>pm := x\<rparr>) }"

definition nr_free_pages :: "'a pstate_scheme \<Rightarrow> nat" where
  "nr_free_pages s = default_nr_free_pages (pm s)"

definition swap_in :: "addr \<Rightarrow> u32 \<Rightarrow> 'a pstate_scheme \<Rightarrow> (nat \<times> 'a pstate_scheme) option" where
  "swap_in mm a s =
     do { (result, s) \<leftarrow> alloc_page s;
          page \<leftarrow> result;
          dir \<leftarrow> mm_pgdir (mms s mm);
          q \<leftarrow> find_pte dir a s;
          ptep \<leftarrow> q;
          Some (page, swapfs_read (ld32 (km s) ptep) page s) }"

section \<open>Definitions: page tables\<close>

definition get_pte :: "addr \<Rightarrow> u32 \<Rightarrow> bool \<Rightarrow> 'a pstate_scheme \<Rightarrow> (addr option \<times> 'a pstate_scheme) option" where
  "get_pte pgdir la create s =
     (let pdep = pgdir + 4 * unat (PDX la)
      in if ld32 (km s) pdep AND PTE_P = 0 then
           if \<not> create then Some (None, s)
           else
             do { (page, s) \<leftarrow> alloc_page s;
                  page \<leftarrow> page;
                  let s = upd_pg page (set_page_ref 1) s;
                  let s = upd_km (\<lambda>m. st32 m pdep (page2pa page OR PTE_P OR PTE_W OR PTE_U)) s;
                  t \<leftarrow> KADDR (page2pa page) s;
                  let s = upd_km (\<lambda>m. memset m t 0 (unat PGSIZE)) s;
                  p \<leftarrow> pte_slot (ld32 (km s) pdep) la s;
                  Some (Some p, s) }
         else do { p \<leftarrow> pte_slot (ld32 (km s) pdep) la s; Some (Some p, s) })"

text \<open>The page, with the address of the entry that is stored through \<open>ptep_store\<close>.\<close>

definition get_page :: "addr \<Rightarrow> u32 \<Rightarrow> 'a pstate_scheme \<Rightarrow> (nat option \<times> addr option) option" where
  "get_page pgdir la s =
     do { (q, s) \<leftarrow> get_pte pgdir la False s;
          case q of
            None \<Rightarrow> Some (None, None)
          | Some ptep \<Rightarrow>
              if ld32 (km s) ptep AND PTE_P \<noteq> 0 then do { page \<leftarrow> pa2page (ld32 (km s) ptep) s; Some (Some page, q) }
              else Some (None, q) }"

definition page_remove_pte :: "addr \<Rightarrow> u32 \<Rightarrow> addr \<Rightarrow> 'a pstate_scheme \<Rightarrow> 'a pstate_scheme option" where
  "page_remove_pte pgdir la ptep s =
     (if ld32 (km s) ptep AND PTE_P > 0 then
        do { page \<leftarrow> pte2page (ld32 (km s) ptep) s;
             let s = page_ref_dec page s;
             s \<leftarrow> (if page_ref page s = 0 then free_page page s else Some s);
             s \<leftarrow> tlb_invalidate pgdir la s;
             Some (upd_km (\<lambda>m. st32 m ptep 0) s) }
      else Some s)"

definition page_remove :: "addr \<Rightarrow> u32 \<Rightarrow> 'a pstate_scheme \<Rightarrow> 'a pstate_scheme option" where
  "page_remove pgdir la s =
     do { (q, s) \<leftarrow> get_pte pgdir la False s;
          case q of None \<Rightarrow> Some s | Some ptep \<Rightarrow> page_remove_pte pgdir la ptep s }"

definition page_insert :: "addr \<Rightarrow> nat \<Rightarrow> u32 \<Rightarrow> u32 \<Rightarrow> 'a pstate_scheme \<Rightarrow> ((kerror + unit) \<times> 'a pstate_scheme) option" where
  "page_insert pgdir page la perm s =
     do { (q, s) \<leftarrow> get_pte pgdir la True s;
          case q of
            None \<Rightarrow> Some (Inl E_NO_MEM, s)
          | Some ptep \<Rightarrow>
              do { let s = page_ref_inc page s;
                   s \<leftarrow> (if ld32 (km s) ptep AND PTE_P \<noteq> 0 then
                            do { p \<leftarrow> pte2page (ld32 (km s) ptep) s;
                                 if p = page then Some (page_ref_dec page s) else page_remove_pte pgdir la ptep s }
                          else Some s);
                   s \<leftarrow> tlb_invalidate pgdir la s;
                   Some (Inr (), upd_km (\<lambda>m. st32 m ptep (page2pa page OR PTE_P OR perm)) s) } }"

definition swap_map_swappable :: "addr \<Rightarrow> nat \<Rightarrow> 'a pstate_scheme \<Rightarrow> 'a pstate_scheme option" where
  "swap_map_swappable mm page s = fifo_map_swappable mm page s"

definition pgdir_alloc_page :: "addr \<Rightarrow> u32 \<Rightarrow> u32 \<Rightarrow> 'a pstate_scheme \<Rightarrow> (nat option \<times> 'a pstate_scheme) option" where
  "pgdir_alloc_page pgdir la perm s =
     do { (r, s) \<leftarrow> alloc_page s;
          case r of
            None \<Rightarrow> Some (None, s)
          | Some page \<Rightarrow>
              do { (e, s) \<leftarrow> page_insert pgdir page la perm s;
                   case e of
                     Inl _ \<Rightarrow> do { s \<leftarrow> free_page page s; Some (None, s) }
                   | Inr _ \<Rightarrow>
                       (case (swap_init_ok s, check_mm_struct s) of
                          (True, Some mm) \<Rightarrow>
                            do { s \<leftarrow> swap_map_swappable mm page s;
                                 let s = upd_pg page (\<lambda>p. p\<lparr>pra_vaddr := la\<rparr>) s;
                                 kassert (page_ref page s = 1);
                                 Some (Some page, s) }
                        | _ \<Rightarrow> Some (Some page, s)) } }"

section \<open>Definitions: address ranges\<close>

partial_function (option) unmap_loop :: "addr \<Rightarrow> u32 \<Rightarrow> u32 \<Rightarrow> 'a pstate_scheme \<Rightarrow> 'a pstate_scheme option" where
  "unmap_loop pgdir start fin s =
     do { q \<leftarrow> find_pte pgdir start s;
          (start, s) \<leftarrow>
            (case q of
               None \<Rightarrow> Some (ROUNDDOWN (start + PTSIZE) PTSIZE, s)
             | Some ptep \<Rightarrow>
                 do { s \<leftarrow> (if ld32 (km s) ptep \<noteq> 0 then page_remove_pte pgdir start ptep s else Some s);
                      Some (start + PGSIZE, s) });
          if start \<noteq> 0 \<and> start < fin then unmap_loop pgdir start fin s else Some s }"

definition unmap_range :: "addr \<Rightarrow> u32 \<Rightarrow> u32 \<Rightarrow> 'a pstate_scheme \<Rightarrow> 'a pstate_scheme option" where
  "unmap_range pgdir start fin s =
     do { kassert (start mod PGSIZE = 0 \<and> fin mod PGSIZE = 0);
          kassert (USER_ACCESS start fin);
          unmap_loop pgdir start fin s }"

partial_function (option) exit_loop :: "addr \<Rightarrow> u32 \<Rightarrow> u32 \<Rightarrow> 'a pstate_scheme \<Rightarrow> 'a pstate_scheme option" where
  "exit_loop pgdir start fin s =
     do { let pdep = pgdir + 4 * unat (PDX start);
          s \<leftarrow> (if ld32 (km s) pdep AND PTE_P \<noteq> 0 then
                   do { page \<leftarrow> pde2page (ld32 (km s) pdep) s;
                        s \<leftarrow> free_page page s;
                        Some (upd_km (\<lambda>m. st32 m pdep 0) s) }
                 else Some s);
          let start = start + PTSIZE;
          if start \<noteq> 0 \<and> start < fin then exit_loop pgdir start fin s else Some s }"

definition exit_range :: "addr \<Rightarrow> u32 \<Rightarrow> u32 \<Rightarrow> 'a pstate_scheme \<Rightarrow> 'a pstate_scheme option" where
  "exit_range pgdir start fin s =
     do { kassert (start mod PGSIZE = 0 \<and> fin mod PGSIZE = 0);
          kassert (USER_ACCESS start fin);
          exit_loop pgdir (ROUNDDOWN start PTSIZE) fin s }"

text \<open>One page of \<open>copy_range\<close>.\<close>

definition copy_page :: "addr \<Rightarrow> addr \<Rightarrow> u32 \<Rightarrow> 'a pstate_scheme \<Rightarrow> ((kerror + unit) \<times> 'a pstate_scheme) option" where
  "copy_page to_dir ptep start s =
     do { (q, s) \<leftarrow> get_pte to_dir start True s;
          case q of
            None \<Rightarrow> Some (Inl E_NO_MEM, s)
          | Some nptep \<Rightarrow>
              do { let perm = ld32 (km s) ptep AND PTE_USER;
                   page \<leftarrow> pte2page (ld32 (km s) ptep) s;
                   (r, s) \<leftarrow> alloc_page s;
                   npage \<leftarrow> r;
                   dst \<leftarrow> page2kva npage s;
                   src \<leftarrow> page2kva page s;
                   (_, s) \<leftarrow> page_insert to_dir npage start perm (upd_km (\<lambda>m. memcpy m dst src (unat PGSIZE)) s);
                   Some (Inr (), s) } }"

partial_function (option) copy_loop :: "addr \<Rightarrow> addr \<Rightarrow> u32 \<Rightarrow> u32 \<Rightarrow> 'a pstate_scheme \<Rightarrow> ((kerror + unit) \<times> 'a pstate_scheme) option" where
  "copy_loop to_dir from_dir start fin s =
     do { q \<leftarrow> find_pte from_dir start s;
          (r, start, s) \<leftarrow>
            (case q of
               None \<Rightarrow> Some (Inr (), ROUNDDOWN (start + PTSIZE) PTSIZE, s)
             | Some ptep \<Rightarrow>
                 do { (r, s) \<leftarrow> (if ld32 (km s) ptep AND PTE_P \<noteq> 0 then copy_page to_dir ptep start s else Some (Inr (), s));
                      Some (r, start + PGSIZE, s) });
          if r \<noteq> Inr () then Some (r, s)
          else if start \<noteq> 0 \<and> start < fin then copy_loop to_dir from_dir start fin s
          else Some (Inr (), s) }"

definition copy_range :: "addr \<Rightarrow> addr \<Rightarrow> u32 \<Rightarrow> u32 \<Rightarrow> 'a pstate_scheme \<Rightarrow> ((kerror + unit) \<times> 'a pstate_scheme) option" where
  "copy_range to_dir from_dir start fin s =
     do { kassert (start mod PGSIZE = 0 \<and> fin mod PGSIZE = 0);
          kassert (USER_ACCESS start fin);
          copy_loop to_dir from_dir start fin s }"

section \<open>Definitions: address spaces\<close>

definition swap_init_mm :: "addr \<Rightarrow> 'a pstate_scheme \<Rightarrow> 'a pstate_scheme" where
  "swap_init_mm mm s = fifo_init_mm mm s"

definition mm_create :: "'a pstate_scheme \<Rightarrow> addr option \<times> 'a pstate_scheme" where
  "mm_create s =
     (case kmalloc_ans s of
        (None, s) \<Rightarrow> (None, s)
      | (Some mm, s) \<Rightarrow>
          let s = upd_mm mm (\<lambda>m. m\<lparr>mmap_list := [], mmap_cache := None, mm_pgdir := None, map_count := 0\<rparr>) s;
              s = (if swap_init_ok s then swap_init_mm mm s else upd_mm mm (\<lambda>m. m\<lparr>sm_priv := None\<rparr>) s)
          in (Some mm, upd_mm mm (set_mm_count 0) s))"

text \<open>\<open>dup_mmap\<close> walks the areas of \<open>from\<close> from the last to the first.\<close>

fun dup_mmap_loop :: "addr list \<Rightarrow> addr \<Rightarrow> addr \<Rightarrow> addr \<Rightarrow> 'a pstate_scheme \<Rightarrow> ((kerror + unit) \<times> 'a pstate_scheme) option" where
  "dup_mmap_loop [] to_mm to_dir from_dir s = Some (Inr (), s)"
| "dup_mmap_loop (vma # rest) to_mm to_dir from_dir s =
     (let (blk, s) = kmalloc_ans s; v = vmas s vma;
          (nvma, s) = vma_create blk (vm_start v) (vm_end v) (vm_flags v) s
      in case nvma of
           None \<Rightarrow> Some (Inl E_NO_MEM, s)
         | Some nvma \<Rightarrow>
             do { s \<leftarrow> insert_vma_struct to_mm nvma s;
                  (r, s) \<leftarrow> copy_range to_dir from_dir (vm_start v) (vm_end v) s;
                  if r \<noteq> Inr () then Some (Inl E_NO_MEM, s) else dup_mmap_loop rest to_mm to_dir from_dir s })"

definition dup_mmap :: "addr \<Rightarrow> addr \<Rightarrow> 'a pstate_scheme \<Rightarrow> ((kerror + unit) \<times> 'a pstate_scheme) option" where
  "dup_mmap to_mm from_mm s =
     (if mmap_list (mms s from_mm) = [] then Some (Inr (), s)
      else do { to_dir \<leftarrow> mm_pgdir (mms s to_mm);
                from_dir \<leftarrow> mm_pgdir (mms s from_mm);
                dup_mmap_loop (rev (mmap_list (mms s from_mm))) to_mm to_dir from_dir s })"

fun range_loop :: "(u32 \<Rightarrow> u32 \<Rightarrow> 'a pstate_scheme \<Rightarrow> 'a pstate_scheme option) \<Rightarrow> addr list \<Rightarrow> 'a pstate_scheme \<Rightarrow> 'a pstate_scheme option" where
  "range_loop f [] s = Some s"
| "range_loop f (vma # rest) s = do { s \<leftarrow> f (vm_start (vmas s vma)) (vm_end (vmas s vma)) s; range_loop f rest s }"

definition exit_mmap :: "addr \<Rightarrow> 'a pstate_scheme \<Rightarrow> 'a pstate_scheme option" where
  "exit_mmap mm s =
     do { kassert (mm_count (mms s mm) = 0);
          let l = mmap_list (mms s mm);
          if l = [] then Some s
          else do { dir \<leftarrow> mm_pgdir (mms s mm);
                    s \<leftarrow> range_loop (unmap_range dir) l s;
                    range_loop (exit_range dir) l s } }"

text \<open>The access check of \<open>do_pgfault\<close>: the error code has bit 1 for a write and bit 0 for a page that is present.\<close>

definition pgfault_allowed :: "u32 \<Rightarrow> u32 \<Rightarrow> bool" where
  "pgfault_allowed error_code flags =
     (let c = error_code AND 3
      in if c = 1 then False
         else if c = 0 then flags AND (VM_READ OR VM_EXEC) \<noteq> 0
         else flags AND VM_WRITE \<noteq> 0)"

definition do_pgfault :: "addr option \<Rightarrow> u32 \<Rightarrow> u32 \<Rightarrow> 'a pstate_scheme \<Rightarrow> ((kerror + unit) \<times> 'a pstate_scheme) option" where
  "do_pgfault mm error_code a s =
     (let (vma, s) = find_vma mm a s; s = s\<lparr>pgfault_num := pgfault_num s + 1\<rparr>
      in case vma of
           None \<Rightarrow> Some (Inl E_INVAL, s)
         | Some vma \<Rightarrow>
             let flags = vm_flags (vmas s vma)
             in if vm_start (vmas s vma) > a then Some (Inl E_INVAL, s)
                else if \<not> pgfault_allowed error_code flags then Some (Inl E_INVAL, s)
                else
                  do { let perm = (if flags AND VM_WRITE \<noteq> 0 then PTE_U OR PTE_W else PTE_U);
                       let la = ROUNDDOWN a PGSIZE;
                       mm \<leftarrow> mm;
                       dir \<leftarrow> mm_pgdir (mms s mm);
                       (q, s) \<leftarrow> get_pte dir la True s;
                       ptep \<leftarrow> q;
                       if ld32 (km s) ptep = 0 then do { (_, s) \<leftarrow> pgdir_alloc_page dir la perm s; Some (Inr (), s) }
                       else if swap_init_ok s then
                         do { (page, s) \<leftarrow> swap_in mm la s;
                              (_, s) \<leftarrow> page_insert dir page la perm s;
                              s \<leftarrow> swap_map_swappable mm page s;
                              Some (Inr (), s) }
                       else Some (Inl E_NO_MEM, s) })"

text \<open>
  The handler of TLB misses. \<open>current\<close> is the memory of the current process (which may be null), when there
  is one, and \<open>idle\<close> tells that it is the idle process; \<open>store\<close> and \<open>in_kernel\<close> are read off the trap frame.
  \<open>Inl E_KILLED\<close> stands for the call of \<open>do_exit\<close>, which does not return.
\<close>

definition tlb_miss_handler ::
  "addr option option \<Rightarrow> bool \<Rightarrow> bool \<Rightarrow> bool \<Rightarrow> u32 \<Rightarrow> 'a pstate_scheme \<Rightarrow> ((kerror + unit) \<times> 'a pstate_scheme) option" where
  "tlb_miss_handler current idle store in_kernel la s =
     do { dir \<leftarrow> cur_pgdir s;
          q \<leftarrow> find_pte dir la s;
          (r, s) \<leftarrow>
            (if q = None \<or> ld32 (km s) (the q) AND PTE_P = 0 then
               do { mm \<leftarrow> (case check_mm_struct s of
                             Some mm \<Rightarrow> do { kassert idle; Some mm }
                           | None \<Rightarrow> do { cur \<leftarrow> current; cur });
                    kassert (mm_pgdir (mms s mm) = Some dir);
                    (r, s) \<leftarrow> do_pgfault (Some mm) (if store then 2 else 0) la s;
                    if r = Inr () then Some (r, s)
                    else do { kassert (current \<noteq> None); kassert (\<not> in_kernel); Some (Inl E_KILLED, s) } }
             else Some (Inr (), s));
          case r of
            Inl e \<Rightarrow> Some (Inl e, s)
          | Inr _ \<Rightarrow>
              do { q \<leftarrow> find_pte dir la s;
                   ptep \<leftarrow> q;
                   s \<leftarrow> tlb_refill dir la ptep s;
                   Some (Inr (), s) } }"

section \<open>Definitions: start-up\<close>

definition KMEMSIZE :: u32 where "KMEMSIZE = 0x00800000"

definition SIZEOF_PAGE :: nat where "SIZEOF_PAGE = 32"

text \<open>\<open>kend\<close> is the end of the kernel image, a symbol of the linker.\<close>

definition page_init :: "u32 \<Rightarrow> 'a pstate_scheme \<Rightarrow> 'a pstate_scheme option" where
  "page_init kend s =
     do { let np = unat (KMEMSIZE div PGSIZE);
          let pages_at = unat (ROUNDUP kend PGSIZE);
          let x = (pm s)\<lparr>npage := np, pages := (\<lambda>i. if i < np then SetPageReserved (pages (pm s) i) else pages (pm s) i)\<rparr>;
          let s = s\<lparr>pm := x\<rparr>;
          freemem \<leftarrow> PADDR (pages_at + SIZEOF_PAGE * np);
          let lo = ROUNDUP freemem PGSIZE;
          let hi = ROUNDDOWN KMEMSIZE PGSIZE;
          if lo < hi then
            do { base \<leftarrow> pa2page lo s;
                 x \<leftarrow> default_init_memmap base (unat ((hi - lo) div PGSIZE)) (pm s);
                 Some (s\<lparr>pm := x\<rparr>) }
          else Some s }"

definition boot_alloc_page :: "'a pstate_scheme \<Rightarrow> (addr \<times> 'a pstate_scheme) option" where
  "boot_alloc_page s = do { (r, s) \<leftarrow> alloc_page s; page \<leftarrow> r; kva \<leftarrow> page2kva page s; Some (kva, s) }"

definition enable_paging :: "addr \<Rightarrow> 'a pstate_scheme \<Rightarrow> 'a pstate_scheme" where
  "enable_paging boot_pgdir s = load_pgdir (Some boot_pgdir) (tlb_init s)"

definition VPT :: u32 where "VPT = 0xFAC00000"

text \<open>\<open>pmm_init\<close> without its self tests and output; the result is \<open>boot_pgdir\<close>.\<close>

definition pmm_init :: "u32 \<Rightarrow> 'a pstate_scheme \<Rightarrow> (addr \<times> 'a pstate_scheme) option" where
  "pmm_init kend s =
     do { s \<leftarrow> page_init kend (s\<lparr>pm := default_init (pm s)\<rparr>);
          (boot_pgdir, s) \<leftarrow> boot_alloc_page s;
          let s = upd_km (\<lambda>m. memset m boot_pgdir 0 (unat PGSIZE)) s;
          pa \<leftarrow> PADDR boot_pgdir;
          let s = upd_km (\<lambda>m. st32 m (boot_pgdir + 4 * unat (PDX VPT)) (pa OR PTE_P OR PTE_W)) s;
          Some (boot_pgdir, enable_paging boot_pgdir s) }"

end
