(* ===== verification/PageMap.thy ===== *)
theory PageMap
  imports Paging
begin

text \<open>
  What the page tables mean. A page directory is a frame of memory; the tables of a set of directories and the
  pages they map are read off the words of those frames. The operations of theory \<open>Paging\<close> are shown to
  act on this map, with exact reference counts.
\<close>

section \<open>Definitions: the map of a page directory\<close>

text \<open>The kernel address of a frame, the words of a frame, and the frame a table entry points to.\<close>

definition kva :: "nat \<Rightarrow> addr" where "kva p = unat KERNBASE + 4096 * p"

definition W :: "mem \<Rightarrow> nat \<Rightarrow> nat \<Rightarrow> u32" where "W m p j = ld32 m (kva p + 4 * j)"

definition frame_of :: "u32 \<Rightarrow> nat" where "frame_of e = unat e div 4096"

definition user_pages :: nat where "user_pages = 2 ^ 19"

definition vpn :: "u32 \<Rightarrow> nat" where "vpn la = unat la div 4096"

definition tbl :: "mem \<Rightarrow> nat \<Rightarrow> nat \<Rightarrow> nat option" where
  "tbl m d i = (if bit (W m d i) 0 then Some (frame_of (W m d i)) else None)"

definition pmap :: "mem \<Rightarrow> nat \<Rightarrow> nat \<Rightarrow> (nat \<times> u32) option" where
  "pmap m d v =
     (case tbl m d (v div 1024) of
        None \<Rightarrow> None
      | Some t \<Rightarrow> let e = W m t (v mod 1024) in if bit e 0 then Some (frame_of e, e AND PTE_USER) else None)"

definition tables :: "mem \<Rightarrow> nat set \<Rightarrow> nat set" where
  "tables m D = {t. \<exists>d \<in> D. \<exists>i < 512. tbl m d i = Some t}"

definition mappers :: "mem \<Rightarrow> nat set \<Rightarrow> nat \<Rightarrow> (nat \<times> nat) set" where
  "mappers m D p = {(d, v). d \<in> D \<and> v < user_pages \<and> (\<exists>f. pmap m d v = Some (p, f))}"

definition taken :: "pmm \<Rightarrow> nat set" where "taken x = avail_set x - free_set x"

text \<open>
  The invariant of the page directories \<open>D\<close>: directories, tables and mapped pages are pairwise different
  frames in use, no table is shared, and the reference count of every page that is no table is the number of
  times it is mapped, plus the references \<open>ex\<close> an operation holds in between.
\<close>

definition tables_ok :: "(nat \<Rightarrow> int) \<Rightarrow> nat set \<Rightarrow> pmm \<Rightarrow> mem \<Rightarrow> bool" where
  "tables_ok ex D x m \<longleftrightarrow>
     D \<subseteq> taken x \<and> tables m D \<subseteq> taken x - D \<and>
     (\<forall>d \<in> D. \<forall>d' \<in> D. \<forall>i < 512. \<forall>i' < 512. \<forall>t. tbl m d i = Some t \<and> tbl m d' i' = Some t \<longrightarrow> d = d' \<and> i = i') \<and>
     (\<forall>d \<in> D. \<forall>v < user_pages. \<forall>p f. pmap m d v = Some (p, f) \<longrightarrow> p \<in> taken x - D - tables m D) \<and>
     (\<forall>p \<in> avail_set x - tables m D. pg_ref (pages x p) = int (card (mappers m D p)) + ex p)"

definition pt_inv :: "nat set \<Rightarrow> 'a pstate_scheme \<Rightarrow> bool" where
  "pt_inv D s \<longleftrightarrow> pmm_inv (pm s) \<and> npage (pm s) \<le> user_pages \<and> tables_ok (\<lambda>_. 0) D (pm s) (km s)"

text \<open>The user parts of the maps of all directories, as one map: the abstract state of the page tables.\<close>

definition user_map :: "nat set \<Rightarrow> 'a pstate_scheme \<Rightarrow> nat \<Rightarrow> nat \<Rightarrow> (nat \<times> u32) option" where
  "user_map D s d v = (if d \<in> D \<and> v < user_pages then pmap (km s) d v else None)"

section \<open>Words\<close>

lemma unat_PPN: "unat (PPN w) = unat w div 4096"
  by (simp add: PPN_def drop_bit_eq_div unat_div)

lemma and_high: "w AND 0xfffff000 = push_bit 12 (drop_bit 12 (w :: u32))"
proof (rule bit_eqI)
  fix n assume "possible_bit TYPE(32 word) n"
  then have "n < 32" by simp
  moreover have h: "(0xfffff000 :: u32) = push_bit 12 (mask 20)"
    by (simp add: mask_eq_exp_minus_1 push_bit_eq_mult)
  ultimately show "bit (w AND 0xfffff000) n = bit (push_bit 12 (drop_bit 12 w)) n"
    unfolding h by (auto simp: bit_simps)
qed

lemma PTE_ADDR_high: "PTE_ADDR w = w AND 0xfffff000"
proof -
  have h: "(NOT 0xFFF :: u32) = 0xfffff000"
    by (simp add: word_unat_eq_iff)
  show ?thesis
    unfolding PTE_ADDR_def h by (rule refl)
qed

lemma unat_high: "unat (w AND 0xfffff000 :: u32) = 4096 * (unat w div 4096)"
proof -
  have "unat w div 4096 * 4096 < 2 ^ 32"
    using div_times_less_eq_dividend [of "unat w" 4096] unsigned_less [of w, where ?'a = nat] by simp
  then show ?thesis
    by (simp add: and_high push_bit_eq_mult drop_bit_eq_div unat_word_ariths unat_div)
qed

lemma kva_less: "p < user_pages \<Longrightarrow> unat KERNBASE + 4096 * p < 2 ^ 32"
  by (simp add: user_pages_def KERNBASE_def)

lemma KADDR_high:
  assumes "frame_of w < npage (pm s)" "npage (pm s) \<le> user_pages"
  shows "KADDR (w AND 0xfffff000) s = Some (kva (frame_of w))"
proof -
  have "unat ((w AND 0xfffff000) + KERNBASE) = kva (frame_of w)"
    using assms kva_less [of "frame_of w"]
    by (simp add: unat_word_ariths unat_high kva_def frame_of_def KERNBASE_def)
  then show ?thesis
    using assms by (simp add: KADDR_def unat_PPN unat_high frame_of_def)
qed

lemma unat_page2pa: "p < user_pages \<Longrightarrow> unat (page2pa p) = 4096 * p"
  by (simp add: page2pa_def push_bit_eq_mult unat_word_ariths unat_of_nat user_pages_def mult.commute)

lemma KADDR_page2pa:
  assumes "p < npage (pm s)" "npage (pm s) \<le> user_pages"
  shows "KADDR (page2pa p) s = Some (kva p)"
proof -
  have "unat (page2pa p + KERNBASE) = kva p"
    using assms kva_less [of p] by (simp add: unat_word_ariths unat_page2pa kva_def KERNBASE_def)
  then show ?thesis
    using assms by (simp add: KADDR_def unat_PPN unat_page2pa)
qed

lemma unat_PDX: "unat (PDX la) = vpn la div 1024"
proof -
  have "PDX la = take_bit 10 (drop_bit 22 la)"
    by (simp add: PDX_def take_bit_eq_mask mask_eq_exp_minus_1)
  moreover have "unat la div 4194304 < 1024"
    using unsigned_less [of la, where ?'a = nat] by (simp add: less_mult_imp_div_less)
  ultimately show ?thesis
    by (simp add: vpn_def drop_bit_eq_div unat_div unat_mod take_bit_eq_mod div_mult2_eq [symmetric])
qed

lemma unat_PTX: "unat (drop_bit 12 (la AND 0x003ff000) :: u32) = vpn la mod 1024"
proof -
  have "drop_bit 12 (la AND 0x003ff000) = take_bit 10 (drop_bit 12 (la :: u32))"
  proof (rule bit_eqI)
    fix n assume "possible_bit TYPE(32 word) n"
    moreover have h: "(0x003ff000 :: u32) = push_bit 12 (mask 10)"
      by (simp add: mask_eq_exp_minus_1 push_bit_eq_mult)
    ultimately show "bit (drop_bit 12 (la AND 0x003ff000)) n = bit (take_bit 10 (drop_bit 12 la)) n"
      unfolding h by (auto simp: bit_simps)
  qed
  then show ?thesis
    by (simp add: take_bit_eq_mod drop_bit_eq_div unat_div unat_mod vpn_def)
qed

lemma pte_slot_ok:
  assumes "frame_of e < npage (pm s)" "npage (pm s) \<le> user_pages"
  shows "pte_slot e la s = Some (kva (frame_of e) + 4 * (vpn la mod 1024))"
  unfolding pte_slot_def KADDR_high [OF assms] unat_PTX by simp

lemma pte2page_ok:
  assumes "frame_of e < npage (pm s)" "bit e 0"
  shows "pte2page e s = Some (frame_of e)"
  using assms by (simp add: pte2page_def pa2page_def PTE_P_def PTE_ADDR_high unat_PPN unat_high frame_of_def
      and_one_eq odd_iff_mod_2_eq_one bit_0)

lemma and_PTE_P: "w AND PTE_P = 0 \<longleftrightarrow> \<not> bit w 0" "w AND PTE_P > 0 \<longleftrightarrow> bit w 0"
  by (auto simp: PTE_P_def and_one_eq bit_0 odd_iff_mod_2_eq_one word_gt_0)

lemma PTE_USER_mask: "PTE_USER = mask 3"
  by (simp add: PTE_USER_def PTE_P_def PTE_W_def PTE_U_def mask_eq_exp_minus_1)

lemma page2pa_low: "page2pa p AND PTE_USER = 0"
  by (rule bit_eqI) (auto simp: PTE_USER_mask page2pa_def bit_simps)

lemma entry_frame:
  assumes "p < user_pages" "f AND PTE_USER = f"
  shows "frame_of (page2pa p OR f) = p" "(page2pa p OR f) AND PTE_USER = f"
proof -
  have f: "drop_bit 12 f = 0"
  proof -
    have "drop_bit 12 PTE_USER = 0"
      by (simp add: PTE_USER_def PTE_P_def PTE_W_def PTE_U_def)
    then have "drop_bit 12 (f AND PTE_USER) = 0"
      by (simp add: drop_bit_and)
    then show ?thesis
      by (simp add: assms(2))
  qed
  have "PPN (page2pa p OR f) = PPN (page2pa p)"
    using f by (simp add: PPN_def drop_bit_or)
  then show "frame_of (page2pa p OR f) = p"
    using assms(1) unat_PPN [of "page2pa p"] by (simp add: frame_of_def unat_page2pa flip: unat_PPN)
  show "(page2pa p OR f) AND PTE_USER = f"
    using assms(2) page2pa_low [of p] by (simp add: bit.conj_disj_distrib2)
qed

section \<open>Memory\<close>

lemma ld32_st32_same [simp]: "ld32 (st32 m a w) a = w"
proof -
  have "map (\<lambda>i. st32 m a w (a + i)) [0..<4] = le32 w"
    by (rule nth_equalityI) (simp_all add: st32_def le32_def)
  then show ?thesis
    by (simp add: ld32_def)
qed

lemma ld32_cong: "(\<And>i. i < 4 \<Longrightarrow> m (a + i) = m' (b + i)) \<Longrightarrow> ld32 m a = ld32 m' b"
  unfolding ld32_def by (rule arg_cong [where f = un_le32]) simp

lemma ld32_st32_other: "a + 4 \<le> b \<or> b + 4 \<le> a \<Longrightarrow> ld32 (st32 m a w) b = ld32 m b"
  by (rule ld32_cong) (auto simp: st32_def)

lemma W_st32:
  assumes "j < 1024" "j' < 1024"
  shows "W (st32 m (kva t + 4 * j) w) t' j' = (if t' = t \<and> j' = j then w else W m t' j')"
proof (cases "t' = t \<and> j' = j")
  case False
  then have "kva t + 4 * j + 4 \<le> kva t' + 4 * j' \<or> kva t' + 4 * j' + 4 \<le> kva t + 4 * j"
    using assms unfolding kva_def by (cases "t < t'"; cases "t = t'") auto
  then show ?thesis
    using False by (auto simp: W_def ld32_st32_other)
qed (simp add: W_def)

lemma W_memset:
  assumes "j < 1024"
  shows "W (memset m (kva t) 0 4096) t' j = (if t' = t then 0 else W m t' j)"
proof (cases "t' = t")
  case True
  have "ld32 (memset m (kva t) 0 4096) (kva t + 4 * j) = ld32 (\<lambda>_. 0) 0"
    using assms by (intro ld32_cong) (auto simp: memset_ok)
  also have "\<dots> = 0"
    by (simp add: ld32_def un_le32_def)
  finally show ?thesis
    using True by (simp add: W_def)
next
  case False
  then have "kva t' + 4 * j + 4 \<le> kva t \<or> kva t + 4096 \<le> kva t' + 4 * j"
    using assms unfolding kva_def by (cases "t < t'") auto
  then have "ld32 (memset m (kva t) 0 4096) (kva t' + 4 * j) = ld32 m (kva t' + 4 * j)"
    by (intro ld32_cong) (auto simp: memset_ok)
  with False show ?thesis
    by (simp add: W_def)
qed

lemma W_memcpy:
  assumes "j < 1024" "d \<noteq> src"
  shows "W (memcpy m (kva d) (kva src) 4096) t j = (if t = d then W m src j else W m t j)"
proof (cases "t = d")
  case True
  have "kva d \<le> kva src \<or> kva src + 4096 \<le> kva d"
    using assms(2) unfolding kva_def by (cases "d < src") auto
  then have "copy_up m (kva d) (kva src) 4096 (kva d + i) = m (kva src + i)" if "i < 4096" for i
    using that by (rule copy_up_block)
  then have "ld32 (memcpy m (kva d) (kva src) 4096) (kva d + 4 * j) = ld32 m (kva src + 4 * j)"
    using assms by (intro ld32_cong) (simp add: memcpy_def add.assoc)
  with True show ?thesis
    by (simp add: W_def)
next
  case False
  then have "kva t + 4 * j + 4 \<le> kva d \<or> kva d + 4096 \<le> kva t + 4 * j"
    using assms unfolding kva_def by (cases "d < t") auto
  then have "ld32 (memcpy m (kva d) (kva src) 4096) (kva t + 4 * j) = ld32 m (kva t + 4 * j)"
    by (intro ld32_cong) (auto simp: memcpy_def copy_up_other)
  with False show ?thesis
    by (simp add: W_def)
qed

section \<open>Reference counts in the page manager\<close>

lemma alloc_refs:
  assumes "pmm_inv x" "default_alloc_pages 1 x = Some (r, y)"
  shows "pg_ref (pages y q) = pg_ref (pages x q)"
  using alloc_pages_cases [OF assms(1), of 1] assms(2)
  by (auto simp: take_block_def upd_page_def Let_def SetPageProperty_def ClearPageProperty_def)

lemma free_merge_refs: "free_merge pg b xs = (pg', b', ks) \<Longrightarrow> pg_ref (pg' q) = pg_ref (pg q)"
proof (induction pg b xs arbitrary: pg' b' ks rule: free_merge.induct)
  case (2 pg b p ps)
  consider "blk_end pg b = p" | "blk_end pg b \<noteq> p" "blk_end pg p = b" | "blk_end pg b \<noteq> p" "blk_end pg p \<noteq> b"
    by blast
  then show ?case
  proof cases
    case 1
    let ?pg = "pg(b := (pg b)\<lparr>pg_property := pg_property (pg b) + pg_property (pg p)\<rparr>, p := ClearPageProperty (pg p))"
    have "free_merge ?pg b ps = (pg', b', ks)"
      using 2(4) 1 by simp
    from 2(1) [OF 1 this] show ?thesis
      by (cases "q = b"; cases "q = p") (simp_all add: ClearPageProperty_def)
  next
    case c: 2
    let ?pg = "pg(p := (pg p)\<lparr>pg_property := pg_property (pg p) + pg_property (pg b)\<rparr>, b := ClearPageProperty (pg b))"
    have "free_merge ?pg p ps = (pg', b', ks)"
      using 2(4) c by simp
    from 2(2) [OF c this] show ?thesis
      by (cases "q = b"; cases "q = p") (simp_all add: ClearPageProperty_def)
  next
    case 3
    with 2(4) obtain ks' where "free_merge pg b ps = (pg', b', ks')"
      by (auto split: prod.splits)
    from 2(3) [OF 3 this] show ?thesis .
  qed
qed simp

lemma free_refs:
  assumes "default_free_pages b 1 x = Some y"
  shows "pg_ref (pages y q) = (if q = b then 0 else pg_ref (pages x q))" "npage y = npage x"
  using assms
  by (auto simp: default_free_pages_def default_list_add_def bind_kassert Let_def upd_page_def set_page_ref_def
      SetPageProperty_def numeral_eq_Suc bind_eq_Some_conv dest!: free_merge_refs [of _ _ _ _ _ _ q] split: if_splits prod.splits)

section \<open>Changing one entry\<close>

lemma finite_avail [simp]: "finite (avail_set x)"
  by (rule finite_subset [of _ "{..<npage x}"]) (auto simp: avail_set_def)

lemma finite_mappers:
  assumes "finite D"
  shows "finite (mappers m D p)"
  by (rule finite_subset [of _ "D \<times> {..<user_pages}"]) (use assms in \<open>auto simp: mappers_def\<close>)

lemma tables_okD:
  assumes "tables_ok ex D x m"
  shows "D \<subseteq> taken x" "finite D" "tables m D \<subseteq> taken x - D"
    and "d \<in> D \<Longrightarrow> i < 512 \<Longrightarrow> tbl m d i = Some t \<Longrightarrow> t \<in> tables m D"
    and "d \<in> D \<Longrightarrow> d' \<in> D \<Longrightarrow> i < 512 \<Longrightarrow> i' < 512 \<Longrightarrow> tbl m d i = Some t \<Longrightarrow> tbl m d' i' = Some t \<Longrightarrow> d = d' \<and> i = i'"
    and "d \<in> D \<Longrightarrow> v < user_pages \<Longrightarrow> pmap m d v = Some (p, f) \<Longrightarrow> p \<in> taken x - D - tables m D"
    and "p \<in> avail_set x \<Longrightarrow> p \<notin> tables m D \<Longrightarrow> pg_ref (pages x p) = int (card (mappers m D p)) + ex p"
proof -
  show *: "D \<subseteq> taken x"
    using assms by (simp add: tables_ok_def)
  then show "finite D"
    by (rule finite_subset) (simp add: taken_def)
  show "tables m D \<subseteq> taken x - D"
    using assms by (simp add: tables_ok_def)
  show "d \<in> D \<Longrightarrow> i < 512 \<Longrightarrow> tbl m d i = Some t \<Longrightarrow> t \<in> tables m D"
    by (auto simp: tables_def)
  show "d \<in> D \<Longrightarrow> d' \<in> D \<Longrightarrow> i < 512 \<Longrightarrow> i' < 512 \<Longrightarrow> tbl m d i = Some t \<Longrightarrow> tbl m d' i' = Some t \<Longrightarrow> d = d' \<and> i = i'"
    using assms unfolding tables_ok_def by blast
  show "d \<in> D \<Longrightarrow> v < user_pages \<Longrightarrow> pmap m d v = Some (p, f) \<Longrightarrow> p \<in> taken x - D - tables m D"
    using assms unfolding tables_ok_def by blast
  show "p \<in> avail_set x \<Longrightarrow> p \<notin> tables m D \<Longrightarrow> pg_ref (pages x p) = int (card (mappers m D p)) + ex p"
    using assms unfolding tables_ok_def by blast
qed

lemma tables_okI:
  assumes "D \<subseteq> taken x" "tables m D \<subseteq> taken x - D"
    and "\<And>d d' i i' t. d \<in> D \<Longrightarrow> d' \<in> D \<Longrightarrow> i < 512 \<Longrightarrow> i' < 512 \<Longrightarrow> tbl m d i = Some t \<Longrightarrow> tbl m d' i' = Some t \<Longrightarrow> d = d' \<and> i = i'"
    and "\<And>d v p f. d \<in> D \<Longrightarrow> v < user_pages \<Longrightarrow> pmap m d v = Some (p, f) \<Longrightarrow> p \<in> taken x - D - tables m D"
    and "\<And>p. p \<in> avail_set x \<Longrightarrow> p \<notin> tables m D \<Longrightarrow> pg_ref (pages x p) = int (card (mappers m D p)) + ex p"
  shows "tables_ok ex D x m"
  unfolding tables_ok_def using assms by blast

lemma vpn_index: "v < user_pages \<Longrightarrow> v div 1024 < 512" "v mod 1024 < 1024"
  by (simp_all add: user_pages_def less_mult_imp_div_less)

text \<open>The entry of \<open>v\<close> in the directory \<open>d\<close> becomes \<open>e\<close>; nothing else of a table changes.\<close>

definition entry_set :: "nat set \<Rightarrow> nat \<Rightarrow> nat \<Rightarrow> u32 \<Rightarrow> mem \<Rightarrow> mem \<Rightarrow> bool" where
  "entry_set D d v e m m' \<longleftrightarrow>
     (\<exists>t. tbl m d (v div 1024) = Some t \<and>
        (\<forall>q j. j < 1024 \<longrightarrow> W m' q j = (if q = t \<and> j = v mod 1024 then e else W m q j)))"

lemma entry_set_tbl:
  assumes ok: "tables_ok ex D x m" and d: "d \<in> D" "v < user_pages" and e: "entry_set D d v e m m'"
  shows "d' \<in> D \<Longrightarrow> i < 1024 \<Longrightarrow> tbl m' d' i = tbl m d' i" and "tables m' D = tables m D"
proof -
  obtain t where t: "tbl m d (v div 1024) = Some t"
    "\<And>q j. j < 1024 \<Longrightarrow> W m' q j = (if q = t \<and> j = v mod 1024 then e else W m q j)"
    using e by (auto simp: entry_set_def)
  have "t \<notin> D"
    using tables_okD(3,4) [OF ok] t(1) d vpn_index by blast
  then show *: "tbl m' d' i = tbl m d' i" if "d' \<in> D" "i < 1024" for d' i
    using that t(2) by (auto simp: tbl_def)
  have "i < 1024" if "i < 512" for i :: nat
    using that by simp
  then show "tables m' D = tables m D"
    using * unfolding tables_def by (metis (no_types, lifting))
qed

lemma entry_set_inj:
  assumes ok: "tables_ok ex D x m" and d: "d \<in> D" "v < user_pages" and e: "entry_set D d v e m m'"
    and "d1 \<in> D" "d2 \<in> D" "i1 < 512" "i2 < 512" "tbl m' d1 i1 = Some u" "tbl m' d2 i2 = Some u"
  shows "d1 = d2 \<and> i1 = i2"
  using assms(5-) tables_okD(5) [OF ok, of d1 d2 i1 i2 u] entry_set_tbl(1) [OF ok d e, of d1 i1] entry_set_tbl(1) [OF ok d e, of d2 i2]
  by simp

lemma entry_set_pmap:
  assumes ok: "tables_ok ex D x m" and d: "d \<in> D" "v < user_pages" and e: "entry_set D d v e m m'"
    and d': "d' \<in> D" "v' < user_pages"
  shows "pmap m' d' v' =
    (if d' = d \<and> v' = v then if bit e 0 then Some (frame_of e, e AND PTE_USER) else None else pmap m d' v')"
proof -
  obtain t where t: "tbl m d (v div 1024) = Some t"
    "\<And>q j. j < 1024 \<Longrightarrow> W m' q j = (if q = t \<and> j = v mod 1024 then e else W m q j)"
    using e by (auto simp: entry_set_def)
  have tb: "tbl m' d' (v' div 1024) = tbl m d' (v' div 1024)"
    using entry_set_tbl(1) [OF ok d e d'(1)] vpn_index(1) [OF d'(2)] by simp
  show ?thesis
  proof (cases "d' = d \<and> v' = v")
    case True
    then show ?thesis
      using t tb by (simp add: pmap_def)
  next
    case False
    have "W m' t' (v' mod 1024) = W m t' (v' mod 1024)" if "tbl m d' (v' div 1024) = Some t'" for t'
    proof (cases "t' = t \<and> v' mod 1024 = v mod 1024")
      case True
      then have "d' = d \<and> v' div 1024 = v div 1024"
        using tables_okD(5) [OF ok d'(1) d(1)] vpn_index that t(1) d d' by blast
      with True False have False
        by (metis mod_div_decomp)
      then show ?thesis ..
    qed (use t(2) in auto)
    with False tb show ?thesis
      by (auto simp: pmap_def split: option.split)
  qed
qed

lemma entry_set_mappers:
  assumes "tables_ok ex D x m" "d \<in> D" "v < user_pages" "entry_set D d v e m m'"
  shows "mappers m' D p = mappers m D p - {(d, v)} \<union> (if bit e 0 \<and> frame_of e = p then {(d, v)} else {})"
  using assms(2,3) by (auto simp: mappers_def entry_set_pmap [OF assms] split: if_splits)

section \<open>The invariant under changes of one entry\<close>

text \<open>A page manager that differs in reference counts (and in what is free) only.\<close>

definition refs_upd :: "(nat \<Rightarrow> int) \<Rightarrow> nat set \<Rightarrow> pmm \<Rightarrow> pmm \<Rightarrow> bool" where
  "refs_upd r F x x' \<longleftrightarrow> pmm_inv x' \<and> npage x' = npage x \<and> avail_set x' = avail_set x \<and> free_set x' = F \<and>
     (\<forall>p. pg_ref (pages x' p) = r p)"

lemma tables_ok_clear_entry:
  assumes ok: "tables_ok ex D x m" and d: "d \<in> D" "v < user_pages" and e: "entry_set D d v e m m'" and n: "\<not> bit e 0"
    and old: "pmap m d v = Some (p, f)" and ex: "0 \<le> ex p"
    and r: "refs_upd ((\<lambda>q. pg_ref (pages x q))(p := pg_ref (pages x p) - 1))
      (if pg_ref (pages x p) = 1 then insert p (free_set x) else free_set x) x x'"
  shows "tables_ok ex D x' m'"
proof -
  note tbl' = entry_set_tbl [OF ok d e] and pmap' = entry_set_pmap [OF ok d e] and map' = entry_set_mappers [OF ok d e]
  have p: "p \<in> taken x" "p \<notin> D" "p \<notin> tables m D"
    using tables_okD(6) [OF ok d old] by auto
  have dv: "(d, v) \<in> mappers m D p"
    using d old by (auto simp: mappers_def)
  have fin: "finite (mappers m D q)" for q
    by (rule finite_mappers [OF tables_okD(2) [OF ok]])
  have ref: "pg_ref (pages x p) = int (card (mappers m D p)) + ex p"
    using tables_okD(7) [OF ok, of p] p by (simp add: taken_def)
  have single: "mappers m D p = {(d, v)}" if "pg_ref (pages x p) = 1"
    using ref ex that dv fin [of p] by (metis card_1_singletonE card_gt_0_iff empty_iff int_one_le_iff_zero_less le_antisym
        le_add_same_cancel1 of_nat_1 of_nat_eq_iff of_nat_le_iff One_nat_def Suc_leI singletonD)
  have tk: "taken x' = taken x - (if pg_ref (pages x p) = 1 then {p} else {})"
    using r by (auto simp: taken_def refs_upd_def)
  have "q \<in> taken x' - D - tables m' D"
    if "d' \<in> D" "v' < user_pages" "pmap m' d' v' = Some (q, f')" for d' v' q f'
  proof -
    have o: "pmap m d' v' = Some (q, f')" "(d', v') \<noteq> (d, v)"
      using that pmap' [OF that(1,2)] n by (auto split: if_splits)
    then have "q \<noteq> p" if "pg_ref (pages x p) = 1"
      using single [OF that] \<open>d' \<in> D\<close> \<open>v' < user_pages\<close> by (auto simp: mappers_def)
    then show ?thesis
      using tables_okD(6) [OF ok that(1,2) o(1)] by (auto simp: tk tbl'(2))
  qed
  moreover have "pg_ref (pages x' q) = int (card (mappers m' D q)) + ex q" if q: "q \<in> avail_set x'" "q \<notin> tables m' D" for q
  proof (cases "q = p")
    case True
    have "1 \<le> card (mappers m D p)"
      using dv fin [of p] by (auto simp: Suc_le_eq card_gt_0_iff)
    with True show ?thesis
      using r ref dv fin [of p] n by (simp add: refs_upd_def map' card_Diff_singleton of_nat_diff)
  next
    case False
    then have "(d, v) \<notin> mappers m D q"
      using old by (auto simp: mappers_def)
    then show ?thesis
      using False tables_okD(7) [OF ok, of q] r q n by (simp add: refs_upd_def map' tbl'(2))
  qed
  moreover have "D \<subseteq> taken x'" "tables m' D \<subseteq> taken x' - D"
    using tables_okD(1,3) [OF ok] p by (auto simp: tk tbl'(2))
  ultimately show ?thesis
    using entry_set_inj [OF ok d e] by (intro tables_okI) blast+
qed

lemma tables_ok_set_entry:
  assumes ok: "tables_ok ex D x m" and d: "d \<in> D" "v < user_pages" and e: "entry_set D d v e m m'"
    and b: "bit e 0" and q: "frame_of e \<in> taken x - D - tables m D"
    and old: "pmap m d v = None \<or> (\<exists>f. pmap m d v = Some (frame_of e, f))"
    and ex': "ex' = (if pmap m d v = None then ex(frame_of e := ex (frame_of e) - 1) else ex)"
  shows "tables_ok ex' D x m'"
proof -
  note tbl' = entry_set_tbl [OF ok d e] and pmap' = entry_set_pmap [OF ok d e] and map' = entry_set_mappers [OF ok d e]
  have fin: "finite (mappers m D q)" for q
    by (rule finite_mappers [OF tables_okD(2) [OF ok]])
  have "p \<in> taken x - D - tables m' D"
    if "d' \<in> D" "v' < user_pages" "pmap m' d' v' = Some (p, f')" for d' v' p f'
    using that(3) tables_okD(6) [OF ok that(1,2)] q b unfolding pmap' [OF that(1,2)] tbl'(2) by (auto split: if_splits)
  moreover have "pg_ref (pages x p) = int (card (mappers m' D p)) + ex' p" if p: "p \<in> avail_set x" "p \<notin> tables m' D" for p
  proof -
    have i: "(d, v) \<in> mappers m D p \<longleftrightarrow> pmap m d v \<noteq> None \<and> p = frame_of e"
      using d old by (auto simp: mappers_def)
    then have "mappers m' D p = (if p = frame_of e then insert (d, v) (mappers m D p) else mappers m D p)"
      using b by (auto simp: map')
    then show ?thesis
      using tables_okD(7) [OF ok, of p] p i fin [of p] by (auto simp: tbl'(2) ex' card_insert_if insert_absorb)
  qed
  moreover have "tables m' D \<subseteq> taken x - D"
    using tables_okD(3) [OF ok] by (simp add: tbl'(2))
  ultimately show ?thesis
    using tables_okD(1) [OF ok] entry_set_inj [OF ok d e] by (intro tables_okI) blast+
qed

text \<open>A new, empty table \<open>t\<close> for the entry \<open>i\<close> of the directory \<open>d\<close>.\<close>

lemma new_table:
  assumes ok: "tables_ok ex D x m" and d: "d \<in> D" "i < 512" and none: "tbl m d i = None"
    and t: "t \<in> free_set x" "t < user_pages"
    and x': "refs_upd ((\<lambda>q. pg_ref (pages x q))(t := 1)) (free_set x - {t}) x x'" and sub: "free_set x \<subseteq> avail_set x"
    and m': "\<And>q j. j < 1024 \<Longrightarrow> W m' q j = (if q = t then 0 else if q = d \<and> j = i then page2pa t OR PTE_USER else W m q j)"
  shows "tables_ok ex D x' m'" and "tbl m' d i = Some t" and "d' \<in> D \<Longrightarrow> v < user_pages \<Longrightarrow> pmap m' d' v = pmap m d' v"
proof -
  have tf: "t \<notin> taken x" "t \<notin> D" "t \<notin> tables m D"
    using t tables_okD(1,3) [OF ok] by (auto simp: taken_def)
  have e: "frame_of (page2pa t OR PTE_USER) = t" "bit (page2pa t OR PTE_USER) 0"
    using t(2) entry_frame [of t PTE_USER] by (auto simp: bit_or_iff PTE_USER_mask bit_mask_iff)
  have tb: "tbl m' d' i' = (if d' = d \<and> i' = i then Some t else tbl m d' i')" if "d' \<in> D" "i' < 1024" for d' i'
    using that tf e m' by (auto simp: tbl_def)
  have lt: "j < 1024" if "j < 512" for j :: nat
    using that by simp
  have tabs: "tables m' D = insert t (tables m D)"
  proof (intro set_eqI iffI)
    fix u assume "u \<in> tables m' D"
    then obtain d' i' where "d' \<in> D" "i' < 512" "tbl m' d' i' = Some u"
      by (auto simp: tables_def)
    then show "u \<in> insert t (tables m D)"
      using tb [of d' i'] lt by (auto simp: tables_def split: if_splits)
  next
    fix u assume "u \<in> insert t (tables m D)"
    then obtain d' i' where "d' \<in> D" "i' < 512" "tbl m' d' i' = Some u"
      using d none tb [OF _ lt] by (auto simp: tables_def) (metis option.distinct(1))
    then show "u \<in> tables m' D"
      by (auto simp: tables_def)
  qed
  show "tbl m' d i = Some t"
    using tb d by simp
  show pm': "pmap m' d' v = pmap m d' v" if "d' \<in> D" "v < user_pages" for d' v
  proof (cases "d' = d \<and> v div 1024 = i")
    case True
    then show ?thesis
      using none tb [OF that(1), of i] d m' by (auto simp: pmap_def)
  next
    case False
    have "t' \<noteq> t \<and> t' \<notin> D" if "tbl m d' (v div 1024) = Some t'" for t'
      using tf tables_okD(3,4) [OF ok] \<open>d' \<in> D\<close> vpn_index(1) [OF \<open>v < user_pages\<close>] that by blast
    then show ?thesis
      using False tb [OF that(1), of "v div 1024"] vpn_index(1) [OF that(2)] d m' by (auto simp: pmap_def Let_def split: option.split)
  qed
  have mp: "mappers m' D p = mappers m D p" for p
    using pm' by (auto simp: mappers_def)
  have tk: "taken x' = insert t (taken x)" "avail_set x' = avail_set x"
    using x' t sub by (auto simp: taken_def refs_upd_def)
  show "tables_ok ex D x' m'"
  proof (rule tables_okI)
    show "D \<subseteq> taken x'" "tables m' D \<subseteq> taken x' - D"
      using tables_okD(1,3) [OF ok] tf by (auto simp: tk tabs)
  next
    fix d1 d2 i1 i2 u
    assume u: "d1 \<in> D" "d2 \<in> D" "i1 < 512" "i2 < 512" "tbl m' d1 i1 = Some u" "tbl m' d2 i2 = Some u"
    show "d1 = d2 \<and> i1 = i2"
      using u(5,6) tables_okD(4) [OF ok u(1,3), of u] tables_okD(4) [OF ok u(2,4), of u] tables_okD(5) [OF ok u(1-4), of u] tf(3)
      unfolding tb [OF u(1) lt [OF u(3)]] tb [OF u(2) lt [OF u(4)]] by (auto split: if_splits)
  next
    fix d' v p f
    assume "d' \<in> D" "v < user_pages" "pmap m' d' v = Some (p, f)"
    then show "p \<in> taken x' - D - tables m' D"
      using pm' tables_okD(6) [OF ok, of d' v p f] tf by (auto simp: tk tabs)
  next
    fix p assume "p \<in> avail_set x'" "p \<notin> tables m' D"
    then show "pg_ref (pages x' p) = int (card (mappers m' D p)) + ex p"
      using tables_okD(7) [OF ok, of p] x' by (auto simp: mp tabs refs_upd_def)
  qed
qed

section \<open>The operations\<close>

text \<open>Operations on page tables leave everything but memory, pages and TLB alone.\<close>

definition same_env :: "'a pstate_scheme \<Rightarrow> 'a pstate_scheme \<Rightarrow> bool" where
  "same_env s s' \<longleftrightarrow> s' = s\<lparr>pm := pm s', km := km s', tlb_entries := tlb_entries s',
     tlb_algo_empty := tlb_algo_empty s', tlb_algo_n := tlb_algo_n s'\<rparr>"

lemma same_env_refl [simp]: "same_env s s"
  by (simp add: same_env_def)

lemma same_env_trans: "same_env s s1 \<Longrightarrow> same_env s1 s2 \<Longrightarrow> same_env s s2"
  by (cases s; cases s1; cases s2) (simp add: same_env_def)

lemma same_env_upd [simp]:
  "same_env s (s'\<lparr>pm := x\<rparr>) = same_env s s'" "same_env s (s'\<lparr>km := m\<rparr>) = same_env s s'"
  "same_env s (upd_km f s') = same_env s s'" "same_env s (upd_pg p g s') = same_env s s'"
  by (cases s; cases s'; simp add: same_env_def upd_km_def upd_pg_def)+

lemma same_env_fields:
  assumes "same_env s s'"
  shows "cur_pgdir s' = cur_pgdir s" "vmas s' = vmas s" "mms s' = mms s" "swap_init_ok s' = swap_init_ok s"
    "check_mm_struct s' = check_mm_struct s" "pra_list s' = pra_list s" "kanswers s' = kanswers s"
proof -
  have s': "s' = s\<lparr>pm := pm s', km := km s', tlb_entries := tlb_entries s', tlb_algo_empty := tlb_algo_empty s', tlb_algo_n := tlb_algo_n s'\<rparr>"
    using assms by (simp add: same_env_def)
  show "cur_pgdir s' = cur_pgdir s" "vmas s' = vmas s" "mms s' = mms s" "swap_init_ok s' = swap_init_ok s"
    "check_mm_struct s' = check_mm_struct s" "pra_list s' = pra_list s" "kanswers s' = kanswers s"
    by (subst s', simp)+
qed

lemma find_pte_ok:
  assumes "npage (pm s) \<le> user_pages" "\<And>t. tbl (km s) d (vpn la div 1024) = Some t \<Longrightarrow> t < npage (pm s)"
  shows "find_pte (kva d) la s =
    Some (map_option (\<lambda>t. kva t + 4 * (vpn la mod 1024)) (tbl (km s) d (vpn la div 1024)))"
proof -
  have "ld32 (km s) (kva d + 4 * unat (PDX la)) = W (km s) d (vpn la div 1024)"
    by (simp add: W_def unat_PDX)
  then show ?thesis
    using assms by (auto simp: find_pte_def Let_def and_PTE_P tbl_def pte_slot_ok)
qed

lemma vpn_pair: "vpn (TLBPAIR la) div 1024 = vpn la div 1024"
proof -
  have "drop_bit 22 (TLBPAIR la) = drop_bit 22 la"
    by (simp add: TLBPAIR_def drop_bit_xor)
  then have "PDX (TLBPAIR la) = PDX la"
    by (simp only: PDX_def)
  then show ?thesis
    by (metis unat_PDX)
qed

lemma st32_st32 [simp]: "st32 (st32 m a w) a w' = st32 m a w'"
  by (rule ext) (simp add: st32_def)

lemma tlb_invalidate_ok:
  assumes n: "npage (pm s) \<le> user_pages" and t: "tbl (km s) d (vpn la div 1024) = Some t" "t < npage (pm s)"
    and tlb: "cur_pgdir s = Some (kva d) \<Longrightarrow> W (km s) t (vpn la mod 1024) AND TLB_P \<noteq> 0 \<Longrightarrow> tlb_algo_n s < TLBN"
  shows "\<exists>s'. tlb_invalidate (kva d) la s = Some s' \<and> same_env s s' \<and> pm s' = pm s \<and>
    (\<forall>w. st32 (km s') (kva t + 4 * (vpn la mod 1024)) w = st32 (km s) (kva t + 4 * (vpn la mod 1024)) w) \<and>
    (W (km s) t (vpn la mod 1024) AND TLB_P = 0 \<longrightarrow> s' = s)"
proof (cases "cur_pgdir s = Some (kva d) \<and> W (km s) t (vpn la mod 1024) AND TLB_P \<noteq> 0")
  case False
  then show ?thesis
    using find_pte_ok [of s d la] n t by (auto simp: tlb_invalidate_def Let_def W_def)
next
  case True
  define a where "a = kva t + 4 * (vpn la mod 1024)"
  have f: "find_pte (kva d) la s = Some (Some a)"
    using find_pte_ok [of s d la] n t by (simp add: a_def)
  have "find_pte (kva d) (TLBPAIR la) s = Some (Some (kva t + 4 * (vpn (TLBPAIR la) mod 1024)))"
    using find_pte_ok [of s d "TLBPAIR la"] n t by (simp add: vpn_pair)
  then obtain other where o: "paired_pte (kva d) la s = Some other"
    by (simp add: paired_pte_def)
  have p: "ld32 (km s) a AND TLB_P \<noteq> 0" "tlb_algo_n s < TLBN" "cur_pgdir s = Some (kva d)"
    using True tlb by (auto simp: a_def W_def)
  have "\<exists>s'. tlb_invalidate (kva d) la s = Some s' \<and> same_env s s' \<and> pm s' = pm s \<and> (\<forall>w. st32 (km s') a w = st32 (km s) a w)"
    using p f o by (cases other)
      (auto simp: tlb_invalidate_def Let_def clear_TLB_P_def tlb_del_callback_def tlb_write_pair_def tlb_write_def upd_km_def same_env_def)
  then show ?thesis
    using True by (auto simp: a_def)
qed

lemma upd_ref:
  assumes "pmm_inv x"
  shows "refs_upd ((\<lambda>q. pg_ref (pages x q))(p := h (pages x p))) (free_set x) x (upd_page p (\<lambda>q. q\<lparr>pg_ref := h q\<rparr>) x)"
proof -
  let ?y = "upd_page p (\<lambda>q. q\<lparr>pg_ref := h q\<rparr>) x"
  have pr: "pg_property (pages ?y q) = pg_property (pages x q)" "pg_flags (pages ?y q) = pg_flags (pages x q)" for q
    by (simp_all add: upd_page_def)
  have fl: "PageProperty (pages ?y q) = PageProperty (pages x q)" "PageReserved (pages ?y q) = PageReserved (pages x q)" for q
    by (simp_all add: PageProperty_def PageReserved_def pr)
  have l: "free_list ?y = free_list x" "nr_free ?y = nr_free x" "npage ?y = npage x"
    by (simp_all add: upd_page_def)
  have f: "free_set ?y = free_set x"
    unfolding free_set_def l by (rule blk_union_cong) (simp add: pr)
  have "blocks_ok (pages ?y) 0 (free_list x) (npage x) = blocks_ok (pages x) 0 (free_list x) (npage x)"
    "blk_sum (pages ?y) (free_list x) = blk_sum (pages x) (free_list x)"
    by (rule blocks_ok_cong, simp add: pr) (rule blk_sum_cong, simp add: pr)
  then have "pmm_inv ?y"
    using assms unfolding pmm_inv_def l f fl by simp
  moreover have "avail_set ?y = avail_set x"
    unfolding avail_set_def l fl by simp
  ultimately show ?thesis
    by (simp add: refs_upd_def f l del: upd_page_simps) (simp add: upd_page_def)
qed

lemma refs_upd_trans: "refs_upd r F x y \<Longrightarrow> refs_upd r' F' y z \<Longrightarrow> refs_upd r' F' x z"
  by (simp add: refs_upd_def)

lemma alloc_page_ok:
  assumes inv: "pmm_inv (pm s)" and ne: "free_set (pm s) \<noteq> {}"
  obtains p x where "alloc_page s = Some (Some p, s\<lparr>pm := x\<rparr>)" "p \<in> free_set (pm s)"
    "refs_upd (\<lambda>q. pg_ref (pages (pm s) q)) (free_set (pm s) - {p}) (pm s) x"
proof -
  obtain p x where px: "default_alloc_pages 1 (pm s) = Some (Some p, x)"
    using dpmm.alloc_one [OF inv ne] by blast
  then have "pmm_inv x" "avail_set x = avail_set (pm s)" "p \<in> free_set (pm s)" "free_set x = free_set (pm s) - {p}"
    using dpmm.alloc_ok [OF inv, of 1] by auto
  moreover have "npage x = npage (pm s)"
    using alloc_avail(2) [OF inv _ px] by simp
  moreover have "alloc_page s = Some (Some p, s\<lparr>pm := x\<rparr>)"
    using px by (simp add: alloc_page_def alloc_pages.simps [of "Suc 0"])
  ultimately show thesis
    using that alloc_refs [OF inv px] by (simp add: refs_upd_def)
qed

lemma free_page_ok:
  assumes inv: "pmm_inv (pm s)" and p: "p \<in> taken (pm s)"
  obtains x where "free_page p s = Some (s\<lparr>pm := x\<rparr>)"
    "refs_upd ((\<lambda>q. pg_ref (pages (pm s) q))(p := 0)) (insert p (free_set (pm s))) (pm s) x"
proof -
  have "{p..<p + 1} = {p}" by auto
  then obtain x where x: "default_free_pages p 1 (pm s) = Some x" "pmm_inv x" "avail_set x = avail_set (pm s)"
    "free_set x = insert p (free_set (pm s))"
    using dpmm.free_ok [OF inv, of 1 p] p by (auto simp: taken_def)
  then show thesis
    using that free_refs [OF x(1)] by (simp add: free_page_def refs_upd_def)
qed

lemma pt_invD:
  assumes "pt_inv D s"
  shows "pmm_inv (pm s)" "npage (pm s) \<le> user_pages" "tables_ok (\<lambda>_. 0) D (pm s) (km s)"
    and "p \<in> taken (pm s) \<Longrightarrow> p < npage (pm s)" "p \<in> taken (pm s) \<Longrightarrow> p < user_pages"
  using assms by (auto simp: pt_inv_def taken_def avail_set_def)

lemma unat_PGSIZE [simp]: "unat PGSIZE = 4096"
  by (simp add: PGSIZE_def)

lemma free_less:
  assumes "pmm_inv x" "t \<in> free_set x"
  shows "t < npage x" "t \<in> avail_set x"
  using dpmm.free_avail [OF assms(1)] assms(2) by (auto simp: avail_set_def)

lemma finite_free: "pmm_inv x \<Longrightarrow> finite (free_set x)"
  using dpmm.free_avail [of x] finite_avail [of x] by (rule finite_subset)

lemma get_pte_new:
  assumes inv: "pt_inv D s" and d: "d \<in> D" "vpn la < user_pages" and none: "tbl (km s) d (vpn la div 1024) = None"
    and room: "free_set (pm s) \<noteq> {}"
  obtains t x m where "get_pte (kva d) la True s = Some (Some (kva t + 4 * (vpn la mod 1024)), s\<lparr>pm := x, km := m\<rparr>)"
    "t \<in> free_set (pm s)" "refs_upd ((\<lambda>q. pg_ref (pages (pm s) q))(t := 1)) (free_set (pm s) - {t}) (pm s) x"
    "\<And>q j. j < 1024 \<Longrightarrow> W m q j = (if q = t then 0 else if q = d \<and> j = vpn la div 1024 then page2pa t OR PTE_USER else W (km s) q j)"
proof -
  note i = pt_invD [OF inv]
  obtain t x where t: "alloc_page s = Some (Some t, s\<lparr>pm := x\<rparr>)" "t \<in> free_set (pm s)"
    "refs_upd (\<lambda>q. pg_ref (pages (pm s) q)) (free_set (pm s) - {t}) (pm s) x"
    by (rule alloc_page_ok [OF i(1) room])
  define y where "y = upd_page t (set_page_ref 1) x"
  have y: "refs_upd ((\<lambda>q. pg_ref (pages (pm s) q))(t := 1)) (free_set (pm s) - {t}) (pm s) y"
    using upd_ref [of x t "\<lambda>_. 1"] t(3) unfolding y_def set_page_ref_def by (auto simp: refs_upd_def fun_upd_def)
  define i where "i = vpn la div 1024"
  define m1 where "m1 = st32 (km s) (kva d + 4 * i) (page2pa t OR PTE_USER)"
  define m where "m = memset m1 (kva t) 0 4096"
  have n: "t < npage (pm s)" "npage y = npage (pm s)" "t \<noteq> d" "i < 1024"
    using free_less [OF \<open>pmm_inv (pm s)\<close> t(2)] y t(2) tables_okD(1) [OF pt_invD(3) [OF inv]] d vpn_index(1) [OF d(2)]
    by (auto simp: refs_upd_def taken_def i_def)
  have W: "W m q j = (if q = t then 0 else if q = d \<and> j = i then page2pa t OR PTE_USER else W (km s) q j)" if "j < 1024" for q j
    using that n by (simp add: m_def m1_def W_memset W_st32)
  have e: "ld32 m (kva d + 4 * i) = page2pa t OR PTE_USER" "page2pa t OR PTE_P OR PTE_W OR PTE_U = page2pa t OR PTE_USER"
    using W [of i d] n by (auto simp: W_def PTE_USER_def ac_simps)
  have slot: "pte_slot (page2pa t OR PTE_USER) la (s\<lparr>pm := y, km := m\<rparr>) = Some (kva t + 4 * (vpn la mod 1024))"
    using pte_slot_ok [of "page2pa t OR PTE_USER" "s\<lparr>pm := y, km := m\<rparr>" la] entry_frame(1) [of t PTE_USER] n pt_invD(2) [OF inv] by simp
  have "get_pte (kva d) la True s = Some (Some (kva t + 4 * (vpn la mod 1024)), s\<lparr>pm := y, km := m\<rparr>)"
  proof -
    have "unat (PDX la) = i" "\<not> bit (ld32 (km s) (kva d + 4 * i)) 0"
      using none by (auto simp: unat_PDX i_def tbl_def W_def split: if_splits)
    moreover have "KADDR (page2pa t) (s\<lparr>pm := y, km := m1\<rparr>) = Some (kva t)"
      using KADDR_page2pa [of t "s\<lparr>pm := y, km := m1\<rparr>"] n pt_invD(2) [OF inv] by simp
    ultimately show ?thesis
      using t(1) e slot by (simp add: get_pte_def Let_def and_PTE_P upd_pg_def upd_km_def y_def [symmetric] m1_def [symmetric] m_def [symmetric])
  qed
  then show thesis
    using that t(2) y W by (simp add: i_def)
qed

abbreviation slot :: "nat \<Rightarrow> u32 \<Rightarrow> addr" where
  "slot t la \<equiv> kva t + 4 * (vpn la mod 1024)"

lemma entry_set_slot:
  assumes "tbl m d (vpn la div 1024) = Some t" "m' = st32 m (slot t la) e"
  shows "entry_set D d (vpn la) e m m'"
  unfolding entry_set_def using assms by (intro exI [of _ t]) (simp add: W_st32)

lemma pmap_slot:
  assumes "tbl m d (vpn la div 1024) = Some t"
  shows "pmap m d (vpn la) = (let e = ld32 m (slot t la) in if bit e 0 then Some (frame_of e, e AND PTE_USER) else None)"
  using assms by (simp add: pmap_def W_def)

text \<open>The TLB has room for what an invalidation gives back.\<close>

definition tlb_room :: "nat \<Rightarrow> u32 \<Rightarrow> 'a pstate_scheme \<Rightarrow> bool" where
  "tlb_room d la s \<longleftrightarrow> cur_pgdir s = Some (kva d) \<longrightarrow> tlb_algo_n s < TLBN \<or>
     (case tbl (km s) d (vpn la div 1024) of None \<Rightarrow> True | Some t \<Rightarrow> ld32 (km s) (slot t la) AND TLB_P = 0)"

lemma tlb_room_pm [simp]: "tlb_room d la (s\<lparr>pm := x\<rparr>) = tlb_room d la s"
  by (simp add: tlb_room_def split: option.split)

lemma page_remove_pte_ok:
  assumes pi: "pmm_inv (pm s)" and n: "npage (pm s) \<le> user_pages" and ok: "tables_ok ex D (pm s) (km s)"
    and d: "d \<in> D" "vpn la < user_pages" and t: "tbl (km s) d (vpn la div 1024) = Some t"
    and old: "pmap (km s) d (vpn la) = Some (p, f)" and ex: "0 \<le> ex p" and tlb: "tlb_room d la s"
  obtains s' where "page_remove_pte (kva d) la (slot t la) s = Some s'" "same_env s s'" "km s' = st32 (km s) (slot t la) 0"
    "tables_ok ex D (pm s') (km s')"
    "refs_upd ((\<lambda>q. pg_ref (pages (pm s) q))(p := pg_ref (pages (pm s) p) - 1))
      (if pg_ref (pages (pm s) p) = 1 then insert p (free_set (pm s)) else free_set (pm s)) (pm s) (pm s')"
proof -
  let ?e = "ld32 (km s) (slot t la)" and ?r = "pg_ref (pages (pm s) p)"
  have e: "bit ?e 0" "frame_of ?e = p"
    using old pmap_slot [OF t] by (auto simp: Let_def split: if_splits)
  have p: "p \<in> taken (pm s)"
    using tables_okD(6) [OF ok d old] by simp
  have tn: "t < npage (pm s)" "p < npage (pm s)"
    using tables_okD(3,4) [OF ok] t d p vpn_index(1) [OF d(2)] by (auto simp: taken_def avail_set_def)
  define s1 where "s1 = page_ref_dec p s"
  have s1: "same_env s s1" "km s1 = km s" "tlb_room d la s1"
    "refs_upd ((\<lambda>q. pg_ref (pages (pm s) q))(p := ?r - 1)) (free_set (pm s)) (pm s) (pm s1)"
    using upd_ref [OF pi, of p "\<lambda>q. pg_ref q - 1"] tlb by (simp_all add: s1_def page_ref_dec_def upd_pg_def)
  obtain s2 where s2: "(if page_ref p s1 = 0 then free_page p s1 else Some s1) = Some s2" "same_env s s2" "km s2 = km s" "tlb_room d la s2"
    "refs_upd ((\<lambda>q. pg_ref (pages (pm s) q))(p := ?r - 1)) (if ?r = 1 then insert p (free_set (pm s)) else free_set (pm s)) (pm s) (pm s2)"
  proof (cases "?r = 1")
    case True
    have "pmm_inv (pm s1)" "p \<in> taken (pm s1)"
      using s1(4) p by (auto simp: refs_upd_def taken_def)
    then obtain x where "free_page p s1 = Some (s1\<lparr>pm := x\<rparr>)"
      "refs_upd ((\<lambda>q. pg_ref (pages (pm s1) q))(p := 0)) (insert p (free_set (pm s1))) (pm s1) x"
      by (rule free_page_ok)
    then show thesis
      using that [of "s1\<lparr>pm := x\<rparr>"] True s1 by (auto simp: refs_upd_def page_ref_def)
  next
    case False
    then show thesis
      using that [of s1] s1 by (simp add: refs_upd_def page_ref_def)
  qed
  have n2: "npage (pm s2) = npage (pm s)"
    using s2(5) by (simp add: refs_upd_def)
  obtain s3 where s3: "tlb_invalidate (kva d) la s2 = Some s3" "same_env s2 s3" "pm s3 = pm s2"
    "\<And>w. st32 (km s3) (slot t la) w = st32 (km s2) (slot t la) w"
    using tlb_invalidate_ok [of s2 d la t] n t tn s2(3,4) n2 by (auto simp: tlb_room_def W_def)
  define s4 where "s4 = upd_km (\<lambda>m. st32 m (slot t la) 0) s3"
  have s4: "same_env s s4" "km s4 = st32 (km s) (slot t la) 0" "pm s4 = pm s2"
    using same_env_trans [OF s2(2) s3(2)] s3 s2(3) by (simp_all add: s4_def) (simp_all add: upd_km_def)
  have "page_remove_pte (kva d) la (slot t la) s = Some s4"
    using e tn s2(1) s3(1) pte2page_ok [of ?e s]
    by (simp add: page_remove_pte_def and_PTE_P s1_def [symmetric] s4_def)
  moreover have "tables_ok ex D (pm s4) (km s4)"
    using tables_ok_clear_entry [OF ok d entry_set_slot [OF t s4(2)] _ old ex] s2(5) s4(3) by simp
  ultimately show thesis
    using that s4 s2(5) by simp
qed

text \<open>The table of a page, made when it is missing.\<close>

lemma get_pte_ok:
  assumes inv: "pt_inv D s" and d: "d \<in> D" "vpn la < user_pages"
    and room: "tbl (km s) d (vpn la div 1024) = None \<Longrightarrow> free_set (pm s) \<noteq> {}"
  obtains t x m where "get_pte (kva d) la True s = Some (Some (slot t la), s\<lparr>pm := x, km := m\<rparr>)"
    "tbl m d (vpn la div 1024) = Some t" "pt_inv D (s\<lparr>pm := x, km := m\<rparr>)"
    "\<And>d' v. d' \<in> D \<Longrightarrow> v < user_pages \<Longrightarrow> pmap m d' v = pmap (km s) d' v"
    "avail_set x = avail_set (pm s)" "free_set x \<subseteq> free_set (pm s)" "card (free_set (pm s)) \<le> card (free_set x) + (if tbl (km s) d (vpn la div 1024) = None then 1 else 0)"
    "\<And>q j. q \<notin> D \<Longrightarrow> q \<notin> free_set (pm s) \<Longrightarrow> j < 1024 \<Longrightarrow> W m q j = W (km s) q j"
    "tables m D \<subseteq> tables (km s) D \<union> free_set (pm s)"
    "tlb_room d la s \<Longrightarrow> tlb_room d la (s\<lparr>pm := x, km := m\<rparr>)"
    "\<And>q. q \<notin> free_set (pm s) \<Longrightarrow> pg_ref (pages x q) = pg_ref (pages (pm s) q)"
proof (cases "tbl (km s) d (vpn la div 1024)")
  case (Some t)
  note i = pt_invD [OF inv]
  have "t < npage (pm s)"
    using tables_okD(3,4) [OF i(3)] Some d vpn_index(1) [OF d(2)] i(4) by blast
  moreover have "ld32 (km s) (kva d + 4 * unat (PDX la)) = W (km s) d (vpn la div 1024)"
    by (simp add: W_def unat_PDX)
  ultimately have "get_pte (kva d) la True s = Some (Some (slot t la), s)"
    using Some i(2) pte_slot_ok [of "W (km s) d (vpn la div 1024)" s la]
    by (auto simp: get_pte_def Let_def and_PTE_P tbl_def split: if_splits)
  then show thesis
    using that [of t "km s" "pm s"] Some inv by simp
next
  case None
  note i = pt_invD [OF inv]
  obtain t x m where g: "get_pte (kva d) la True s = Some (Some (slot t la), s\<lparr>pm := x, km := m\<rparr>)"
    "t \<in> free_set (pm s)" "refs_upd ((\<lambda>q. pg_ref (pages (pm s) q))(t := 1)) (free_set (pm s) - {t}) (pm s) x"
    "\<And>q j. j < 1024 \<Longrightarrow> W m q j = (if q = t then 0 else if q = d \<and> j = vpn la div 1024 then page2pa t OR PTE_USER else W (km s) q j)"
    by (rule get_pte_new [OF inv d None room [OF None]]) blast
  have tu: "t < user_pages" "free_set (pm s) \<subseteq> avail_set (pm s)" "finite (free_set (pm s))"
    using free_less [OF i(1)] g(2) i(2) by (fastforce, blast, auto intro: finite_subset [of _ "avail_set (pm s)"])
  note new = new_table [OF i(3) d(1) vpn_index(1) [OF d(2)] None g(2) tu(1) g(3) tu(2) g(4)]
  have "t \<noteq> d"
    using g(2) tables_okD(1) [OF i(3)] d by (auto simp: taken_def)
  then have "ld32 m (slot t la) = 0"
    using g(4) [of "vpn la mod 1024" t] by (simp add: W_def)
  then have tl: "tlb_room d la (s\<lparr>pm := x, km := m\<rparr>)" if "tlb_room d la s"
    by (simp add: tlb_room_def new(2))
  have tabs: "tables m D \<subseteq> tables (km s) D \<union> free_set (pm s)"
  proof
    fix u assume "u \<in> tables m D"
    then obtain d' i' where u: "d' \<in> D" "i' < 512" "tbl m d' i' = Some u"
      by (auto simp: tables_def)
    then show "u \<in> tables (km s) D \<union> free_set (pm s)"
      using g(4) [of i' d'] g(2) \<open>t \<noteq> d\<close> entry_frame(1) [OF tu(1), of PTE_USER] tables_okD(1) [OF i(3)]
      by (auto simp: tables_def tbl_def taken_def split: if_splits)
  qed
  have fr: "W m q j = W (km s) q j" if "q \<notin> D" "q \<notin> free_set (pm s)" "j < 1024" for q j
    using that g(2,4) d(1) by auto
  have x: "avail_set x = avail_set (pm s)" "free_set x = free_set (pm s) - {t}" "pmm_inv x" "npage x = npage (pm s)"
    "\<And>q. q \<notin> free_set (pm s) \<Longrightarrow> pg_ref (pages x q) = pg_ref (pages (pm s) q)"
    using g(2,3) by (auto simp: refs_upd_def)
  have y: "pt_inv D (s\<lparr>pm := x, km := m\<rparr>)" "free_set x \<subseteq> free_set (pm s)" "card (free_set (pm s)) \<le> card (free_set x) + (if tbl (km s) d (vpn la div 1024) = None then 1 else 0)"
    using x i(2) new(1) g(2) tu(3) None by (auto simp: pt_inv_def)
  show thesis
    by (rule that [OF g(1) new(2) y(1) new(3) x(1) y(2,3) fr tabs tl x(5)])
qed

lemma tables_ok_ref:
  assumes ok: "tables_ok ex D x m"
    and r: "refs_upd ((\<lambda>q. pg_ref (pages x q))(q := pg_ref (pages x q) + k)) (free_set x) x x'"
  shows "tables_ok (ex(q := ex q + k)) D x' m"
proof -
  have tk: "taken x' = taken x" "avail_set x' = avail_set x"
    using r by (simp_all add: taken_def refs_upd_def)
  have "pg_ref (pages x' p) = int (card (mappers m D p)) + (ex(q := ex q + k)) p" if "p \<in> avail_set x'" "p \<notin> tables m D" for p
    using that tables_okD(7) [OF ok, of p] r by (auto simp: refs_upd_def)
  moreover have "D \<subseteq> taken x'" "tables m D \<subseteq> taken x' - D"
    "\<And>d v p f. d \<in> D \<Longrightarrow> v < user_pages \<Longrightarrow> pmap m d v = Some (p, f) \<Longrightarrow> p \<in> taken x' - D - tables m D"
    using tables_okD(1,3,6) [OF ok] unfolding tk by blast+
  ultimately show ?thesis
    using tables_okD(5) [OF ok] by (intro tables_okI) blast+
qed

lemma page_ref_upd:
  assumes "pmm_inv (pm s)"
  shows "refs_upd ((\<lambda>p. pg_ref (pages (pm s) p))(q := pg_ref (pages (pm s) q) + 1)) (free_set (pm s)) (pm s) (pm (page_ref_inc q s))"
    "refs_upd ((\<lambda>p. pg_ref (pages (pm s) p))(q := pg_ref (pages (pm s) q) + - 1)) (free_set (pm s)) (pm s) (pm (page_ref_dec q s))"
  using upd_ref [OF assms, of q "\<lambda>p. pg_ref p + 1"] upd_ref [OF assms, of q "\<lambda>p. pg_ref p - 1"]
  by (simp_all add: page_ref_inc_def page_ref_dec_def upd_pg_def)

text \<open>The middle of \<open>page_insert\<close>: what the entry mapped before is dropped.\<close>

definition drop_old :: "addr \<Rightarrow> nat \<Rightarrow> u32 \<Rightarrow> addr \<Rightarrow> 'a pstate_scheme \<Rightarrow> 'a pstate_scheme option" where
  "drop_old pgdir page la ptep s =
     (if ld32 (km s) ptep AND PTE_P \<noteq> 0 then
        do { p \<leftarrow> pte2page (ld32 (km s) ptep) s;
             if p = page then Some (page_ref_dec page s) else page_remove_pte pgdir la ptep s }
      else Some s)"

lemma drop_old_ok:
  assumes pi: "pmm_inv (pm s)" and n: "npage (pm s) \<le> user_pages" and ok: "tables_ok (\<lambda>_. 0) D (pm s) (km s)"
    and d: "d \<in> D" "vpn la < user_pages" and t: "tbl (km s) d (vpn la div 1024) = Some t"
    and tlb: "tlb_room d la s"
  obtains s' ex where "drop_old (kva d) q la (slot t la) (page_ref_inc q s) = Some s'" "same_env s s'"
    "tables_ok ex D (pm s') (km s')" "tlb_room d la s'" "pmm_inv (pm s')" "npage (pm s') = npage (pm s)" "avail_set (pm s') = avail_set (pm s)"
    "pmap (km s') d (vpn la) = None \<and> ex = (\<lambda>_. 0)(q := 1) \<or> (\<exists>f. pmap (km s') d (vpn la) = Some (q, f)) \<and> ex = (\<lambda>_. 0)"
    "km s' = km s \<or> km s' = st32 (km s) (slot t la) 0"
    "free_set (pm s) \<subseteq> free_set (pm s')"
    "\<And>p. p \<in> free_set (pm s') \<Longrightarrow> p \<in> free_set (pm s) \<or>
       (\<exists>f. pmap (km s) d (vpn la) = Some (p, f) \<and> p \<noteq> q \<and> pg_ref (pages (pm s) p) = 1)"
proof -
  let ?e = "ld32 (km s) (slot t la)"
  define s1 where "s1 = page_ref_inc q s"
  note r1 = page_ref_upd(1) [OF pi, of q, folded s1_def]
  have k1: "km s1 = km s" "same_env s s1" "tlb_room d la s1"
    using tlb by (simp_all add: s1_def page_ref_inc_def upd_pg_def)
  have ok1: "tables_ok ((\<lambda>_. 0)(q := 1)) D (pm s1) (km s1)"
    using tables_ok_ref [OF ok r1] by (simp add: k1)
  have r1': "pmm_inv (pm s1)" "npage (pm s1) = npage (pm s)" "avail_set (pm s1) = avail_set (pm s)" "free_set (pm s1) = free_set (pm s)"
    "\<And>p. pg_ref (pages (pm s1) p) = (if p = q then pg_ref (pages (pm s) p) + 1 else pg_ref (pages (pm s) p))"
    using r1 by (auto simp: refs_upd_def)
  have pf: "pmap (km s) d (vpn la) = (if bit ?e 0 then Some (frame_of ?e, ?e AND PTE_USER) else None)"
    using pmap_slot [OF t] by (simp add: Let_def)
  show thesis
  proof (cases "bit ?e 0")
    case False
    then show thesis
      using that [of s1 "(\<lambda>_. 0)(q := 1)"] k1 ok1 r1' pf by (simp add: drop_old_def and_PTE_P s1_def [symmetric])
  next
    case True
    have fn: "frame_of ?e < npage (pm s1)"
      using tables_okD(6) [OF ok d, of "frame_of ?e"] pf True by (simp add: taken_def avail_set_def r1')
    show thesis
    proof (cases "frame_of ?e = q")
      case q: True
      define s2 where "s2 = page_ref_dec q s1"
      note r2 = page_ref_upd(2) [OF r1'(1), of q, folded s2_def]
      have k2: "km s2 = km s" "same_env s s2" "tlb_room d la s2"
        using k1 by (simp_all add: s2_def page_ref_dec_def upd_pg_def)
      have "tables_ok (\<lambda>_. 0) D (pm s2) (km s2)"
        using tables_ok_ref [OF ok1 r2] k1 k2 by (simp add: fun_upd_idem)
      moreover have "drop_old (kva d) q la (slot t la) s1 = Some s2"
        using True q fn pte2page_ok [of ?e s1] by (simp add: drop_old_def and_PTE_P k1 s2_def)
      ultimately show thesis
        using that [of s2 "\<lambda>_. 0"] k2 r1' r2 pf True q by (simp add: s1_def [symmetric] refs_upd_def)
    next
      case q: False
      obtain s2 where s2: "page_remove_pte (kva d) la (slot t la) s1 = Some s2" "same_env s1 s2" "km s2 = st32 (km s1) (slot t la) 0"
        "tables_ok ((\<lambda>_. 0)(q := 1)) D (pm s2) (km s2)"
        "refs_upd ((\<lambda>p. pg_ref (pages (pm s1) p))(frame_of ?e := pg_ref (pages (pm s1) (frame_of ?e)) - 1))
          (if pg_ref (pages (pm s1) (frame_of ?e)) = 1 then insert (frame_of ?e) (free_set (pm s1)) else free_set (pm s1)) (pm s1) (pm s2)"
        by (rule page_remove_pte_ok [of s1 "(\<lambda>_. 0)(q := 1)" D d la t "frame_of ?e" "?e AND PTE_USER"])
          (use r1' n ok1 d t pf True k1 q in simp_all)
      have "drop_old (kva d) q la (slot t la) s1 = Some s2"
        using True q fn pte2page_ok [of ?e s1] s2(1) by (simp add: drop_old_def and_PTE_P k1)
      moreover have "pmap (km s2) d (vpn la) = None" "tlb_room d la s2"
        using entry_set_pmap [OF ok1 d entry_set_slot [OF _ s2(3), of d] d] entry_set_tbl(1) [OF ok1 d entry_set_slot [OF _ s2(3), of d], of d "vpn la div 1024"]
          t k1 d vpn_index(1) [OF d(2)] s2(3) by (simp_all add: tlb_room_def)
      moreover have "free_set (pm s2) = (if pg_ref (pages (pm s) (frame_of ?e)) = 1 then insert (frame_of ?e) (free_set (pm s)) else free_set (pm s))"
        "pmm_inv (pm s2)" "npage (pm s2) = npage (pm s)" "avail_set (pm s2) = avail_set (pm s)"
        using s2(5) r1' q by (simp_all add: refs_upd_def)
      ultimately show thesis
        unfolding s1_def
        by (intro that [of s2 "(\<lambda>_. 0)(q := 1)"])
          (use s2(3,4) k1(1) pf True q same_env_trans [OF k1(2) s2(2)] in \<open>auto split: if_splits\<close>)
    qed
  qed
qed

lemma page_insert_ok:
  assumes inv: "pt_inv D s" and d: "d \<in> D" "vpn la < user_pages"
    and room: "tbl (km s) d (vpn la div 1024) = None \<Longrightarrow> free_set (pm s) \<noteq> {}"
    and q: "q \<in> taken (pm s)" "q \<notin> D" "q \<notin> tables (km s) D" and perm: "perm AND PTE_USER = perm"
    and tlb: "tlb_room d la s"
  obtains s' where "page_insert (kva d) q la perm s = Some (Inr (), s')" "same_env s s'" "pt_inv D s'"
    "\<And>d' v. d' \<in> D \<Longrightarrow> v < user_pages \<Longrightarrow>
       pmap (km s') d' v = (if d' = d \<and> v = vpn la then Some (q, PTE_P OR perm) else pmap (km s) d' v)"
    "avail_set (pm s') = avail_set (pm s)" "card (free_set (pm s)) \<le> card (free_set (pm s')) + (if tbl (km s) d (vpn la div 1024) = None then 1 else 0)"
    "\<And>p. p \<in> free_set (pm s') \<Longrightarrow> p \<in> free_set (pm s) \<or> (\<exists>f. pmap (km s) d (vpn la) = Some (p, f) \<and> p \<noteq> q \<and> pg_ref (pages (pm s) p) = 1)"
    "\<And>p j. p \<notin> D \<Longrightarrow> p \<notin> free_set (pm s) \<Longrightarrow> p \<notin> tables (km s) D \<Longrightarrow> j < 1024 \<Longrightarrow> W (km s') p j = W (km s) p j"
    "tables (km s') D \<subseteq> tables (km s) D \<union> free_set (pm s)"
proof -
  note i = pt_invD [OF inv]
  obtain t x m where g: "get_pte (kva d) la True s = Some (Some (slot t la), s\<lparr>pm := x, km := m\<rparr>)"
    "tbl m d (vpn la div 1024) = Some t" "pt_inv D (s\<lparr>pm := x, km := m\<rparr>)"
    "\<And>d' v. d' \<in> D \<Longrightarrow> v < user_pages \<Longrightarrow> pmap m d' v = pmap (km s) d' v"
    "avail_set x = avail_set (pm s)" "free_set x \<subseteq> free_set (pm s)" "card (free_set (pm s)) \<le> card (free_set x) + (if tbl (km s) d (vpn la div 1024) = None then 1 else 0)"
    "\<And>p j. p \<notin> D \<Longrightarrow> p \<notin> free_set (pm s) \<Longrightarrow> j < 1024 \<Longrightarrow> W m p j = W (km s) p j"
    "tables m D \<subseteq> tables (km s) D \<union> free_set (pm s)"
    "tlb_room d la (s\<lparr>pm := x, km := m\<rparr>)"
    "\<And>p. p \<notin> free_set (pm s) \<Longrightarrow> pg_ref (pages x p) = pg_ref (pages (pm s) p)"
    by (rule get_pte_ok [OF inv d room]) (use tlb in blast)+
  define s1 where "s1 = s\<lparr>pm := x, km := m\<rparr>"
  have s1: "same_env s s1" "pm s1 = x" "km s1 = m"
    by (simp_all add: s1_def)
  note i1 = pt_invD [OF g(3) [folded s1_def]]
  have t1: "tbl (km s1) d (vpn la div 1024) = Some t"
    using g(2) s1 by simp
  obtain s2 ex where s2: "drop_old (kva d) q la (slot t la) (page_ref_inc q s1) = Some s2" "same_env s1 s2"
    "tables_ok ex D (pm s2) (km s2)" "tlb_room d la s2" "pmm_inv (pm s2)" "npage (pm s2) = npage (pm s1)" "avail_set (pm s2) = avail_set (pm s1)"
    "pmap (km s2) d (vpn la) = None \<and> ex = (\<lambda>_. 0)(q := 1) \<or> (\<exists>f. pmap (km s2) d (vpn la) = Some (q, f)) \<and> ex = (\<lambda>_. 0)"
    "km s2 = km s1 \<or> km s2 = st32 (km s1) (slot t la) 0" "free_set (pm s1) \<subseteq> free_set (pm s2)"
    "\<And>p. p \<in> free_set (pm s2) \<Longrightarrow> p \<in> free_set (pm s1) \<or> (\<exists>f. pmap (km s1) d (vpn la) = Some (p, f) \<and> p \<noteq> q \<and> pg_ref (pages (pm s1) p) = 1)"
    by (rule drop_old_ok [OF i1(1,2,3) d t1 g(10) [folded s1_def]]) blast
  have old: "\<exists>e0. entry_set D d (vpn la) e0 (km s1) (km s2)"
    using s2(9) entry_set_slot [OF t1] t1 by (auto simp: entry_set_def W_def)
  have t2: "tbl (km s2) d (vpn la div 1024) = Some t" "tables (km s2) D = tables m D"
    using old t1 entry_set_tbl [OF i1(3) d] d vpn_index(1) [OF d(2)] s1 by auto
  have "t \<in> tables (km s1) D"
    using tables_okD(4) [OF i1(3) d(1) vpn_index(1) [OF d(2)] t1] .
  then have tt: "t \<in> tables m D" "t < npage (pm s2)"
    using tables_okD(3) [OF i1(3)] i1(4) [of t] s1 s2(6) by auto
  have q2: "q \<in> taken (pm s2) - D - tables (km s2) D"
    using q g(5,6,9) s2(7) s2(11) [of q] t2(2) s1 by (auto simp: taken_def)
  obtain s3 where s3: "tlb_invalidate (kva d) la s2 = Some s3" "same_env s2 s3" "pm s3 = pm s2"
    "\<And>w. st32 (km s3) (slot t la) w = st32 (km s2) (slot t la) w"
    using tlb_invalidate_ok [of s2 d la t] t2(1) tt(2) s2(4,6) i1(2) by (auto simp: tlb_room_def W_def)
  define e where "e = page2pa q OR PTE_P OR perm"
  define s4 where "s4 = upd_km (\<lambda>m. st32 m (slot t la) e) s3"
  have k4: "km s4 = st32 (km s2) (slot t la) e" "km s4 = st32 (km s1) (slot t la) e" "pm s4 = pm s2" "same_env s s4"
    using s3 s2(2,9) same_env_trans [OF s1(1) same_env_trans [OF s2(2) s3(2)]] by (auto simp: s4_def) (simp_all add: upd_km_def)
  have "PTE_P AND PTE_USER = PTE_P"
    by (simp add: PTE_P_def PTE_USER_def PTE_U_def PTE_W_def)
  then have "(PTE_P OR perm) AND PTE_USER = PTE_P OR perm"
    by (simp add: bit.conj_disj_distrib2 perm)
  then have ef: "frame_of e = q" "e AND PTE_USER = PTE_P OR perm" "bit e 0"
    using entry_frame [of q "PTE_P OR perm"] q(1) i(5) by (auto simp: e_def bit_or_iff PTE_P_def)
  note new = entry_set_slot [OF t1 k4(2)]
  have "tables_ok (\<lambda>_. 0) D (pm s4) (km s4)"
    using tables_ok_set_entry [OF s2(3) d entry_set_slot [OF t2(1) k4(1)] ef(3), of "\<lambda>_. 0"] s2(8) q2 ef(1) k4(3) by (auto simp: fun_upd_idem)
  then have "pt_inv D s4"
    using k4(3) s2(5,6) i1(2) by (simp add: pt_inv_def)
  moreover have "pmap (km s4) d' v = (if d' = d \<and> v = vpn la then Some (q, PTE_P OR perm) else pmap (km s) d' v)"
    if "d' \<in> D" "v < user_pages" for d' v
    using entry_set_pmap [OF i1(3) d new that] ef g(4) [OF that] s1 by simp
  moreover have "W (km s4) p j = W (km s) p j" if "p \<notin> D" "p \<notin> free_set (pm s)" "p \<notin> tables (km s) D" "j < 1024" for p j
    using that g(8,9) tt(1) k4(2) s1 by (auto simp: W_st32)
  moreover have "tables (km s4) D \<subseteq> tables (km s) D \<union> free_set (pm s)"
    using entry_set_tbl(2) [OF i1(3) d new] g(9) s1 by simp
  moreover have "page_insert (kva d) q la perm s = Some (Inr (), s4)"
    using g(1) s2(1) s3(1) by (simp add: page_insert_def drop_old_def s1_def [symmetric] s4_def e_def)
  moreover have "card (free_set (pm s)) \<le> card (free_set (pm s4)) + (if tbl (km s) d (vpn la div 1024) = None then 1 else 0)"
    using g(7) card_mono [OF finite_free [OF s2(5)] s2(10)] s1 k4(3) by simp
  moreover have "p \<in> free_set (pm s) \<or> (\<exists>f. pmap (km s) d (vpn la) = Some (p, f) \<and> p \<noteq> q \<and> pg_ref (pages (pm s) p) = 1)"
    if "p \<in> free_set (pm s4)" for p
    using s2(11) [of p] that g(4,6,11) d s1 k4(3) by auto
  ultimately show thesis
    using k4(3,4) s2(7) g(5) s1 by (intro that [of s4]) auto
qed

text \<open>A page is taken from the free ones and memory changes outside directories and tables.\<close>

lemma tables_ok_fresh:
  assumes ok: "tables_ok ex D x m" and W: "\<And>p j. p \<in> D \<union> tables m D \<Longrightarrow> j < 1024 \<Longrightarrow> W m' p j = W m p j"
    and x': "taken x \<subseteq> taken x'" "avail_set x' = avail_set x" "\<And>p. pg_ref (pages x' p) = pg_ref (pages x p)"
  shows "tables_ok ex D x' m'" and "d \<in> D \<Longrightarrow> v < user_pages \<Longrightarrow> pmap m' d v = pmap m d v"
    and "tables m' D = tables m D" and "d \<in> D \<Longrightarrow> i < 512 \<Longrightarrow> tbl m' d i = tbl m d i"
proof -
  show tb: "tbl m' d i = tbl m d i" if "d \<in> D" "i < 512" for d i
    using W [of d i] that by (simp add: tbl_def)
  show tabs: "tables m' D = tables m D"
    using tb unfolding tables_def by metis
  show pm': "pmap m' d v = pmap m d v" if "d \<in> D" "v < user_pages" for d v
    using tb [OF that(1) vpn_index(1) [OF that(2)]] tables_okD(4) [OF ok that(1) vpn_index(1) [OF that(2)]] W
    by (auto simp: pmap_def split: option.split)
  have mp: "mappers m' D p = mappers m D p" for p
    using pm' by (auto simp: mappers_def)
  show "tables_ok ex D x' m'"
  proof (rule tables_okI)
    show "D \<subseteq> taken x'" "tables m' D \<subseteq> taken x' - D"
      using tables_okD(1,3) [OF ok] x'(1) tabs by auto
    show "d = d' \<and> i = i'" if "d \<in> D" "d' \<in> D" "i < 512" "i' < 512" "tbl m' d i = Some u" "tbl m' d' i' = Some u" for d d' i i' u
      using tables_okD(5) [OF ok that(1-4)] that(5,6) tb [OF that(1,3)] tb [OF that(2,4)] by simp
    show "p \<in> taken x' - D - tables m' D" if "d \<in> D" "v < user_pages" "pmap m' d v = Some (p, f)" for d v p f
      using tables_okD(6) [OF ok that(1,2)] that(3) pm' [OF that(1,2)] x'(1) tabs by auto
    show "pg_ref (pages x' p) = int (card (mappers m' D p)) + ex p" if "p \<in> avail_set x'" "p \<notin> tables m' D" for p
      using tables_okD(7) [OF ok, of p] that x'(2,3) tabs mp by simp
  qed
qed

lemma alloc_fresh:
  assumes inv: "pt_inv D s" and ne: "free_set (pm s) \<noteq> {}"
  obtains q x where "alloc_page s = Some (Some q, s\<lparr>pm := x\<rparr>)" "q \<in> free_set (pm s)" "free_set x = free_set (pm s) - {q}"
    "avail_set x = avail_set (pm s)" "npage x = npage (pm s)" "q \<in> taken x" "q \<notin> D" "q \<notin> tables (km s) D" "q < npage (pm s)"
    "\<And>m. (\<And>p j. p \<noteq> q \<Longrightarrow> j < 1024 \<Longrightarrow> W m p j = W (km s) p j) \<Longrightarrow> pt_inv D (s\<lparr>pm := x, km := m\<rparr>) \<and> tables m D = tables (km s) D \<and>
       (\<forall>d \<in> D. \<forall>v < user_pages. pmap m d v = pmap (km s) d v) \<and> (\<forall>d \<in> D. \<forall>i < 512. tbl m d i = tbl (km s) d i)"
    "\<And>p. pg_ref (pages x p) = pg_ref (pages (pm s) p)"
proof -
  note i = pt_invD [OF inv]
  obtain q x where q: "alloc_page s = Some (Some q, s\<lparr>pm := x\<rparr>)" "q \<in> free_set (pm s)"
    "refs_upd (\<lambda>p. pg_ref (pages (pm s) p)) (free_set (pm s) - {q}) (pm s) x"
    by (rule alloc_page_ok [OF i(1) ne])
  have x: "avail_set x = avail_set (pm s)" "free_set x = free_set (pm s) - {q}" "pmm_inv x" "npage x = npage (pm s)"
    "\<And>p. pg_ref (pages x p) = pg_ref (pages (pm s) p)"
    using q(3) by (auto simp: refs_upd_def)
  have qf: "q \<in> taken x" "taken (pm s) \<subseteq> taken x" "q \<notin> D" "q \<notin> tables (km s) D" "q < npage (pm s)"
    using q(2) x free_less [OF i(1) q(2)] tables_okD(1,3) [OF i(3)] by (auto simp: taken_def)
  have "pt_inv D (s\<lparr>pm := x, km := m\<rparr>) \<and> tables m D = tables (km s) D \<and>
       (\<forall>d \<in> D. \<forall>v < user_pages. pmap m d v = pmap (km s) d v) \<and> (\<forall>d \<in> D. \<forall>i < 512. tbl m d i = tbl (km s) d i)"
    if "\<And>p j. p \<noteq> q \<Longrightarrow> j < 1024 \<Longrightarrow> W m p j = W (km s) p j" for m
  proof -
    have "W m p j = W (km s) p j" if "p \<in> D \<union> tables (km s) D" "j < 1024" for p j
      using that qf by (intro \<open>\<And>p j. p \<noteq> q \<Longrightarrow> j < 1024 \<Longrightarrow> W m p j = W (km s) p j\<close>) auto
    from tables_ok_fresh [OF i(3) this qf(2) x(1,5)] show ?thesis
      using x(3,4) i(2) by (simp add: pt_inv_def)
  qed
  then show thesis
    by (rule that [OF q(1,2) x(2,1,4) qf(1,3,4,5) _ x(5)])
qed

section \<open>Copying a range\<close>

text \<open>
  What a step of \<open>copy_range\<close> from the directory \<open>d\<close> to \<open>d'\<close> relies on and keeps, for the pages of \<open>V\<close>
  already copied: the source map is unchanged and the pages it maps keep their contents, and the target maps
  fresh pages with the same contents and permissions.
\<close>

definition copied :: "nat set \<Rightarrow> nat \<Rightarrow> nat \<Rightarrow> nat set \<Rightarrow> 'a pstate_scheme \<Rightarrow> 'a pstate_scheme \<Rightarrow> bool" where
  "copied D d d' V s s' \<longleftrightarrow>
     pt_inv D s' \<and> same_env s s' \<and> avail_set (pm s') = avail_set (pm s) \<and>
     free_set (pm s') \<subseteq> free_set (pm s) \<and>
     (\<forall>c \<in> D. \<forall>v < user_pages. c \<noteq> d' \<or> v \<notin> V \<or> pmap (km s) d v = None \<longrightarrow> pmap (km s') c v = pmap (km s) c v) \<and>
     (\<forall>v \<in> V. \<forall>p f. pmap (km s) d v = Some (p, f) \<longrightarrow>
        (\<exists>q. pmap (km s') d' v = Some (q, f) \<and> q \<in> free_set (pm s) \<and> (\<forall>j < 1024. W (km s') q j = W (km s) p j))) \<and>
     (\<forall>p \<in> taken (pm s) - D - tables (km s) D. \<forall>j < 1024. W (km s') p j = W (km s) p j) \<and>
     tables (km s') D \<subseteq> tables (km s) D \<union> free_set (pm s)"

lemma copied_refl: "pt_inv D s \<Longrightarrow> copied D d d' {} s s"
  by (auto simp: copied_def)

text \<open>A free page becomes a copy of the page \<open>p\<close> and is mapped.\<close>

lemma fill_page_ok:
  assumes inv: "pt_inv D s" and d: "d \<in> D" "vpn la < user_pages" and t: "tbl (km s) d (vpn la div 1024) \<noteq> None"
    and room: "free_set (pm s) \<noteq> {}" and p: "p \<in> taken (pm s)" "p \<notin> D" "p \<notin> tables (km s) D"
    and f: "f AND PTE_USER = f" "PTE_P OR f = f" and new: "pmap (km s) d (vpn la) = None" and cur: "cur_pgdir s \<noteq> Some (kva d)"
  obtains q s' where "(do { (r, s) \<leftarrow> alloc_page s; np \<leftarrow> r; dst \<leftarrow> page2kva np s; src \<leftarrow> page2kva p s;
      (_, s) \<leftarrow> page_insert (kva d) np la f (upd_km (\<lambda>m. memcpy m dst src (unat PGSIZE)) s); Some (Inr () :: kerror + unit, s) }) = Some (Inr (), s')"
    "pt_inv D s'" "same_env s s'" "q \<in> free_set (pm s)" "\<And>j. j < 1024 \<Longrightarrow> W (km s') q j = W (km s) p j"
    "\<And>c v. c \<in> D \<Longrightarrow> v < user_pages \<Longrightarrow> pmap (km s') c v = (if c = d \<and> v = vpn la then Some (q, f) else pmap (km s) c v)"
    "avail_set (pm s') = avail_set (pm s)" "free_set (pm s') \<subseteq> free_set (pm s)" "card (free_set (pm s)) \<le> card (free_set (pm s')) + 1"
    "\<And>p j. p \<notin> D \<Longrightarrow> p \<notin> free_set (pm s) \<Longrightarrow> p \<notin> tables (km s) D \<Longrightarrow> j < 1024 \<Longrightarrow> W (km s') p j = W (km s) p j"
    "tables (km s') D \<subseteq> tables (km s) D \<union> free_set (pm s)"
proof -
  note i = pt_invD [OF inv]
  obtain q y where q: "alloc_page s = Some (Some q, s\<lparr>pm := y\<rparr>)" "q \<in> free_set (pm s)" "free_set y = free_set (pm s) - {q}"
    "avail_set y = avail_set (pm s)" "npage y = npage (pm s)" "q \<in> taken y" "q \<notin> D" "q \<notin> tables (km s) D" "q < npage (pm s)"
    "\<And>m. (\<And>p j. p \<noteq> q \<Longrightarrow> j < 1024 \<Longrightarrow> W m p j = W (km s) p j) \<Longrightarrow> pt_inv D (s\<lparr>pm := y, km := m\<rparr>) \<and> tables m D = tables (km s) D \<and>
       (\<forall>d \<in> D. \<forall>v < user_pages. pmap m d v = pmap (km s) d v) \<and> (\<forall>d \<in> D. \<forall>i < 512. tbl m d i = tbl (km s) d i)"
    by (rule alloc_fresh [OF inv room]) blast
  have pq: "p \<noteq> q" "p < npage (pm s)"
    using p(1) q(2) i(4) by (auto simp: taken_def)
  define m where "m = memcpy (km s) (kva q) (kva p) 4096"
  have W: "W m r j = (if r = q then W (km s) p j else W (km s) r j)" if "j < 1024" for r j
    using W_memcpy [OF that, of q p "km s" r] pq by (auto simp: m_def)
  define s1 where "s1 = s\<lparr>pm := y, km := m\<rparr>"
  have s1: "pm s1 = y" "km s1 = m" "same_env s s1" "cur_pgdir s1 = cur_pgdir s"
    by (simp_all add: s1_def)
  have m: "pt_inv D s1" "tables m D = tables (km s) D" "\<And>c v. c \<in> D \<Longrightarrow> v < user_pages \<Longrightarrow> pmap m c v = pmap (km s) c v"
    "\<And>i. i < 512 \<Longrightarrow> tbl m d i = tbl (km s) d i"
    using q(10) [of m] W d(1) by (auto simp: s1_def)
  have tn: "tbl (km s1) d (vpn la div 1024) \<noteq> None"
    using m(4) vpn_index(1) [OF d(2)] t s1 by simp
  obtain s2 where s2: "page_insert (kva d) q la f s1 = Some (Inr (), s2)" "same_env s1 s2" "pt_inv D s2"
    "\<And>d' v. d' \<in> D \<Longrightarrow> v < user_pages \<Longrightarrow> pmap (km s2) d' v = (if d' = d \<and> v = vpn la then Some (q, PTE_P OR f) else pmap (km s1) d' v)"
    "avail_set (pm s2) = avail_set (pm s1)" "card (free_set (pm s1)) \<le> card (free_set (pm s2)) + (if tbl (km s1) d (vpn la div 1024) = None then 1 else 0)"
    "\<And>p. p \<in> free_set (pm s2) \<Longrightarrow> p \<in> free_set (pm s1) \<or> (\<exists>f. pmap (km s1) d (vpn la) = Some (p, f) \<and> p \<noteq> q \<and> pg_ref (pages (pm s1) p) = 1)"
    "\<And>p j. p \<notin> D \<Longrightarrow> p \<notin> free_set (pm s1) \<Longrightarrow> p \<notin> tables (km s1) D \<Longrightarrow> j < 1024 \<Longrightarrow> W (km s2) p j = W (km s1) p j"
    "tables (km s2) D \<subseteq> tables (km s1) D \<union> free_set (pm s1)"
    by (rule page_insert_ok [OF m(1) d, of q f]) (use tn q(6-8) m(2) s1 f(1) cur in \<open>simp_all add: tlb_room_def\<close>)
  have kva: "page2kva q (s\<lparr>pm := y\<rparr>) = Some (kva q)" "page2kva p (s\<lparr>pm := y\<rparr>) = Some (kva p)"
    using KADDR_page2pa [of _ "s\<lparr>pm := y\<rparr>"] q(5,9) pq i(2) by (simp_all add: page2kva_def)
  show thesis
  proof (rule that [of s2 q])
    show "(do { (r, s) \<leftarrow> alloc_page s; np \<leftarrow> r; dst \<leftarrow> page2kva np s; src \<leftarrow> page2kva p s;
      (_, s) \<leftarrow> page_insert (kva d) np la f (upd_km (\<lambda>m. memcpy m dst src (unat PGSIZE)) s); Some (Inr () :: kerror + unit, s) }) = Some (Inr (), s2)"
      using q(1) kva s2(1) by (simp add: upd_km_def m_def [symmetric] s1_def [symmetric])
    show "same_env s s2"
      by (rule same_env_trans [OF s1(3) s2(2)])
    show "card (free_set (pm s)) \<le> card (free_set (pm s2)) + 1"
    proof -
      have "card (free_set y) \<le> card (free_set (pm s2))"
        using s2(6) tn unfolding if_not_P [OF tn] s1 by simp
      moreover have "card (free_set y) = card (free_set (pm s)) - 1"
        using q(2,3) finite_free [OF i(1)] by simp
      ultimately show ?thesis
        by linarith
    qed
    show "free_set (pm s2) \<subseteq> free_set (pm s)"
      using s2(7) q(3) m(3) [OF d] new s1 by auto
    show "W (km s2) q j = W (km s) p j" if "j < 1024" for j
      using s2(8) [OF q(7), of j] q(3,8) m(2) s1 W that by simp
    show "pmap (km s2) c v = (if c = d \<and> v = vpn la then Some (q, f) else pmap (km s) c v)" if "c \<in> D" "v < user_pages" for c v
      using s2(4) [OF that] m(3) [OF that] f(2) s1 by simp
    show "W (km s2) r j = W (km s) r j" if "r \<notin> D" "r \<notin> free_set (pm s)" "r \<notin> tables (km s) D" "j < 1024" for r j
      using s2(8) [OF that(1), of j] that q(2,3) m(2) s1 W by auto
    show "tables (km s2) D \<subseteq> tables (km s) D \<union> free_set (pm s)"
      using s2(9) m(2) q(3) s1 by auto
    show "avail_set (pm s2) = avail_set (pm s)"
      using s2(5) q(4) s1 by simp
  qed (fact s2(3) q(2))+
qed

text \<open>The new page of one step and what it holds.\<close>

lemma copy_page_ok:
  assumes inv: "pt_inv D s" and d: "d \<in> D" "d' \<in> D" "d \<noteq> d'" "vpn la < user_pages"
    and src: "tbl (km s) d (vpn la div 1024) = Some t" "pmap (km s) d (vpn la) = Some (p, f)"
    and new: "pmap (km s) d' (vpn la) = None" and cur: "cur_pgdir s \<noteq> Some (kva d')" and room: "2 \<le> card (free_set (pm s))"
  obtains s' where "copy_page (kva d') (slot t la) la s = Some (Inr (), s')" "copied D d d' {vpn la} s s'"
    "card (free_set (pm s)) \<le> card (free_set (pm s')) + 2"
proof -
  note i = pt_invD [OF inv]
  have fs: "free_set (pm s) \<noteq> {}" "finite (free_set (pm s))"
    using room by (auto intro: finite_free [OF i(1)])
  obtain t' x m where g: "get_pte (kva d') la True s = Some (Some (slot t' la), s\<lparr>pm := x, km := m\<rparr>)"
    "tbl m d' (vpn la div 1024) = Some t'" "pt_inv D (s\<lparr>pm := x, km := m\<rparr>)"
    "\<And>c v. c \<in> D \<Longrightarrow> v < user_pages \<Longrightarrow> pmap m c v = pmap (km s) c v"
    "avail_set x = avail_set (pm s)" "free_set x \<subseteq> free_set (pm s)"
    "card (free_set (pm s)) \<le> card (free_set x) + (if tbl (km s) d' (vpn la div 1024) = None then 1 else 0)"
    "\<And>p j. p \<notin> D \<Longrightarrow> p \<notin> free_set (pm s) \<Longrightarrow> j < 1024 \<Longrightarrow> W m p j = W (km s) p j"
    "tables m D \<subseteq> tables (km s) D \<union> free_set (pm s)"
    by (rule get_pte_ok [OF inv d(2,4) fs(1)]) blast
  have c1: "card (free_set (pm s)) \<le> card (free_set x) + 1"
    using g(7) by (simp split: if_splits)
  define s1 where "s1 = s\<lparr>pm := x, km := m\<rparr>"
  have s1: "pm s1 = x" "km s1 = m" "same_env s s1" "cur_pgdir s1 = cur_pgdir s"
    by (simp_all add: s1_def)
  have pt: "p \<in> taken (pm s)" "p \<notin> D" "p \<notin> tables (km s) D" "t \<in> taken (pm s)" "t \<notin> D"
    using tables_okD(6) [OF i(3) d(1,4) src(2)] tables_okD(3,4) [OF i(3)] src(1) d(1) vpn_index(1) [OF d(4)] by auto
  let ?e = "ld32 m (slot t la)"
  have "?e = ld32 (km s) (slot t la)"
    using g(8) [of t "vpn la mod 1024"] pt(4,5) by (simp add: W_def taken_def)
  then have e: "bit ?e 0" "frame_of ?e = p" "?e AND PTE_USER = f"
    using src(2) pmap_slot [OF src(1)] by (auto simp: Let_def split: if_splits)
  have f: "f AND PTE_USER = f" "PTE_P OR f = f"
    using e(1) by (auto simp flip: e(3) intro!: bit_eqI simp: bit_simps PTE_USER_mask PTE_P_def)
  have px: "p \<in> taken x" "p \<notin> tables m D" "free_set x \<noteq> {}"
    using pt g(5,6,9) c1 room by (auto simp: taken_def)
  have new1: "pmap m d' (vpn la) = None"
    using g(4) [OF d(2,4)] new by simp
  obtain q s' where q: "(do { (r, s) \<leftarrow> alloc_page s1; np \<leftarrow> r; dst \<leftarrow> page2kva np s; src \<leftarrow> page2kva p s;
      (_, s) \<leftarrow> page_insert (kva d') np la f (upd_km (\<lambda>m. memcpy m dst src (unat PGSIZE)) s); Some (Inr () :: kerror + unit, s) }) = Some (Inr (), s')"
    "pt_inv D s'" "same_env s1 s'" "q \<in> free_set x" "\<And>j. j < 1024 \<Longrightarrow> W (km s') q j = W m p j"
    "\<And>c v. c \<in> D \<Longrightarrow> v < user_pages \<Longrightarrow> pmap (km s') c v = (if c = d' \<and> v = vpn la then Some (q, f) else pmap m c v)"
    "avail_set (pm s') = avail_set x" "free_set (pm s') \<subseteq> free_set x" "card (free_set x) \<le> card (free_set (pm s')) + 1"
    "\<And>p j. p \<notin> D \<Longrightarrow> p \<notin> free_set x \<Longrightarrow> p \<notin> tables m D \<Longrightarrow> j < 1024 \<Longrightarrow> W (km s') p j = W m p j"
    "tables (km s') D \<subseteq> tables m D \<union> free_set x"
    by (rule fill_page_ok [OF g(3) [folded s1_def] d(2,4), of p f, unfolded s1]) (use g(2) px pt(2) f new1 cur in \<open>simp_all\<close>)
  have "copy_page (kva d') (slot t la) la s = Some (Inr (), s')"
    using g(1) q(1) e pte2page_ok [of ?e s1] i(4) [OF pt(1)] pt_invD(4) [OF g(3), of p] px(1)
    by (simp add: copy_page_def s1_def [symmetric] s1)
  moreover have "copied D d d' {vpn la} s s'"
    unfolding copied_def
  proof (intro conjI ballI allI impI)
    show "pmap (km s') c v = pmap (km s) c v"
      if "c \<in> D" "v < user_pages" "c \<noteq> d' \<or> v \<notin> {vpn la} \<or> pmap (km s) d v = None" for c v
      using q(6) [OF that(1,2)] g(4) [OF that(1,2)] that(3) src(2) by auto
    show "\<exists>q. pmap (km s') d' v = Some (q, f') \<and> q \<in> free_set (pm s) \<and> (\<forall>j < 1024. W (km s') q j = W (km s) p' j)"
      if "v \<in> {vpn la}" "pmap (km s) d v = Some (p', f')" for v p' f'
      using that q(4,5) q(6) [OF d(2,4)] g(6) g(8) pt(1,2) src(2) by (auto simp: taken_def)
    show "W (km s') r j = W (km s) r j" if "r \<in> taken (pm s) - D - tables (km s) D" "j < 1024" for r j
      using that q(10) [of r j] g(6,9) g(8) [of r j] by (auto simp: taken_def)
  qed (use q(2,7,8,11) g(5,6,9) same_env_trans [OF s1(3) q(3)] in auto)
  moreover have "card (free_set (pm s)) \<le> card (free_set (pm s')) + 2"
    using c1 q(9) by simp
  ultimately show thesis
    by (rule that)
qed

lemma copiedD:
  assumes "copied D d d' V s s'"
  shows "pt_inv D s'" "same_env s s'" "avail_set (pm s') = avail_set (pm s)" "free_set (pm s') \<subseteq> free_set (pm s)"
    and "c \<in> D \<Longrightarrow> v < user_pages \<Longrightarrow> c \<noteq> d' \<or> v \<notin> V \<or> pmap (km s) d v = None \<Longrightarrow> pmap (km s') c v = pmap (km s) c v"
    and "v \<in> V \<Longrightarrow> pmap (km s) d v = Some (p, f) \<Longrightarrow>
      \<exists>q. pmap (km s') d' v = Some (q, f) \<and> q \<in> free_set (pm s) \<and> (\<forall>j < 1024. W (km s') q j = W (km s) p j)"
    and "p \<in> taken (pm s) - D - tables (km s) D \<Longrightarrow> j < 1024 \<Longrightarrow> W (km s') p j = W (km s) p j"
    and "tables (km s') D \<subseteq> tables (km s) D \<union> free_set (pm s)"
  using assms unfolding copied_def by blast+

lemma copied_trans:
  assumes inv: "pt_inv D s" and d: "d \<in> D" "d' \<in> D" "d \<noteq> d'" and V: "V \<subseteq> {..<user_pages}" "V' \<subseteq> {..<user_pages}" "V \<inter> V' = {}"
    and c1: "copied D d d' V s s1" and c2: "copied D d d' V' s1 s2"
  shows "copied D d d' (V \<union> V') s s2"
proof -
  note i = tables_okD [OF pt_invD(3) [OF inv]] and i1 = tables_okD [OF pt_invD(3) [OF copiedD(1) [OF c1]]]
  have src: "pmap (km s1) d v = pmap (km s) d v" if "v < user_pages" for v
    using copiedD(5) [OF c1 d(1) that] d(3) by simp
  have "\<exists>q. pmap (km s2) d' v = Some (q, f) \<and> q \<in> free_set (pm s) \<and> (\<forall>j < 1024. W (km s2) q j = W (km s) p j)"
    if v: "v \<in> V \<union> V'" "pmap (km s) d v = Some (p, f)" for v p f
  proof (cases "v \<in> V")
    case True
    then have vu: "v < user_pages" "v \<notin> V'"
      using V by auto
    from copiedD(6) [OF c1 True v(2)] obtain q where q: "pmap (km s1) d' v = Some (q, f)" "q \<in> free_set (pm s)"
      "\<forall>j < 1024. W (km s1) q j = W (km s) p j" by blast
    then show ?thesis
      using copiedD(5) [OF c2 d(2) vu(1)] vu(2) copiedD(7) [OF c2 i1(6) [OF d(2) vu(1) q(1)]] by auto
  next
    case False
    then have vu: "v \<in> V'" "v < user_pages"
      using V v by auto
    then obtain q where "pmap (km s2) d' v = Some (q, f)" "q \<in> free_set (pm s1)" "\<forall>j < 1024. W (km s2) q j = W (km s1) p j"
      using copiedD(6) [OF c2 vu(1)] src v(2) by metis
    then show ?thesis
      using copiedD(4) [OF c1] copiedD(7) [OF c1 i(6) [OF d(1) vu(2) v(2)]] by auto
  qed
  moreover have "pmap (km s2) c v = pmap (km s) c v"
    if "c \<in> D" "v < user_pages" "c \<noteq> d' \<or> v \<notin> V \<union> V' \<or> pmap (km s) d v = None" for c v
    using copiedD(5) [OF c1 that(1,2)] copiedD(5) [OF c2 that(1,2)] src [OF that(2)] that(3) by auto
  moreover have "W (km s2) p j = W (km s) p j" if "p \<in> taken (pm s) - D - tables (km s) D" "j < 1024" for p j
  proof -
    have "p \<in> taken (pm s1) - D - tables (km s1) D"
      using that(1) copiedD(3,4,8) [OF c1] by (auto simp: taken_def)
    then show ?thesis
      using copiedD(7) [OF c1 that] copiedD(7) [OF c2 _ that(2)] by simp
  qed
  moreover have "tables (km s2) D \<subseteq> tables (km s) D \<union> free_set (pm s)" "free_set (pm s2) \<subseteq> free_set (pm s)"
    using copiedD(4,8) [OF c1] copiedD(4,8) [OF c2] by auto
  ultimately show ?thesis
    using copiedD(1,3) [OF c2] copiedD(3) [OF c1] same_env_trans [OF copiedD(2) [OF c1] copiedD(2) [OF c2]]
    unfolding copied_def by simp
qed

lemma copied_skip:
  assumes "copied D d d' V s s'" "\<And>v. v \<in> X \<Longrightarrow> pmap (km s) d v = None"
  shows "copied D d d' (V \<union> X) s s'"
proof -
  have "\<exists>q. pmap (km s') d' v = Some (q, f) \<and> q \<in> free_set (pm s) \<and> (\<forall>j < 1024. W (km s') q j = W (km s) p j)"
    if "v \<in> V \<union> X" "pmap (km s) d v = Some (p, f)" for v p f
    using that copiedD(6) [OF assms(1), of v p f] assms(2) [of v] by auto
  then show ?thesis
    using assms unfolding copied_def by auto
qed

section \<open>Page addresses\<close>

definition page_addr :: "nat \<Rightarrow> u32" where "page_addr a = of_nat (4096 * a)"

lemma unat_page_addr: "a \<le> user_pages \<Longrightarrow> unat (page_addr a) = 4096 * a"
  by (simp add: page_addr_def unat_of_nat user_pages_def del: of_nat_mult)

lemma vpn_page_addr [simp]: "a \<le> user_pages \<Longrightarrow> vpn (page_addr a) = a"
  by (simp add: vpn_def unat_page_addr)

lemma page_addr_less: "a \<le> user_pages \<Longrightarrow> b \<le> user_pages \<Longrightarrow> page_addr a < page_addr b \<longleftrightarrow> a < b"
  by (simp add: word_less_nat_alt unat_page_addr)

lemma page_addr_next: "page_addr a + PGSIZE = page_addr (a + 1)"
  by (simp add: page_addr_def PGSIZE_def)

lemma page_addr_table:
  assumes "a < user_pages"
  shows "ROUNDDOWN (page_addr a + PTSIZE) PTSIZE = page_addr ((a div 1024 + 1) * 1024)" "(a div 1024 + 1) * 1024 \<le> user_pages"
proof -
  show le: "(a div 1024 + 1) * 1024 \<le> user_pages"
    using vpn_index(1) [OF assms] by (simp add: user_pages_def)
  have "unat (page_addr a + PTSIZE) = 4096 * a + 4194304"
    using assms by (simp add: unat_word_ariths unat_page_addr PTSIZE_def PGSIZE_def NPTEENTRY_def user_pages_def)
  then have "unat (ROUNDDOWN (page_addr a + PTSIZE) PTSIZE) = 4096 * a + 4194304 - (4096 * a + 4194304) mod 4194304"
    by (simp add: unat_ROUNDDOWN PTSIZE_def PGSIZE_def NPTEENTRY_def)
  also have "\<dots> = 4096 * ((a div 1024 + 1) * 1024)"
  proof -
    define k r where "k = a div 1024" and "r = a mod 1024"
    then have "a = 1024 * k + r" "r < 1024"
      by simp_all
    then have "4096 * a + 4194304 = 4194304 * (k + 1) + 4096 * r" "4096 * r < 4194304"
      by simp_all
    then show ?thesis
      by (simp add: k_def [symmetric])
  qed
  also have "\<dots> = unat (page_addr ((a div 1024 + 1) * 1024))"
    using unat_page_addr [OF le] by simp
  finally show "ROUNDDOWN (page_addr a + PTSIZE) PTSIZE = page_addr ((a div 1024 + 1) * 1024)"
    by (simp add: word_unat_eq_iff)
qed

lemma pmap_no_table:
  assumes "tbl m d i = None" "v div 1024 = i"
  shows "pmap m d v = None"
  using assms by (simp add: pmap_def)

lemma copy_loop_step:
  assumes inv: "pt_inv D s" and d: "d \<in> D" "d' \<in> D" "d \<noteq> d'" and a: "a < b" "b \<le> user_pages"
    and new: "\<And>v. a \<le> v \<Longrightarrow> v < b \<Longrightarrow> pmap (km s) d' v = None" and cur: "cur_pgdir s \<noteq> Some (kva d')"
    and room: "2 * card {v \<in> {a..<b}. pmap (km s) d v \<noteq> None} \<le> card (free_set (pm s))"
  obtains a' s' where "copy_loop (kva d') (kva d) (page_addr a) (page_addr b) s =
      (if a' < b then copy_loop (kva d') (kva d) (page_addr a') (page_addr b) s' else Some (Inr (), s'))"
    "a < a'" "a' \<le> user_pages" "copied D d d' {a..<min a' b} s s'"
    "card (free_set (pm s)) \<le> card (free_set (pm s')) + 2 * card {v \<in> {a..<min a' b}. pmap (km s) d v \<noteq> None}"
proof -
  note i = pt_invD [OF inv]
  have au: "a < user_pages" "vpn (page_addr a) = a"
    using a by auto
  have loop: "copy_loop (kva d') (kva d) (page_addr a) (page_addr b) s =
      (if a' < b then copy_loop (kva d') (kva d) (page_addr a') (page_addr b) s' else Some (Inr (), s'))"
    if "(case q of
               None \<Rightarrow> Some (Inr (), ROUNDDOWN (page_addr a + PTSIZE) PTSIZE, s)
             | Some ptep \<Rightarrow>
                 do { (r, s) \<leftarrow> (if ld32 (km s) ptep AND PTE_P \<noteq> 0 then copy_page (kva d') ptep (page_addr a) s else Some (Inr (), s));
                      Some (r, page_addr a + PGSIZE, s) }) = Some (Inr (), page_addr a', s')"
      "find_pte (kva d) (page_addr a) s = Some q" "a < a'" "a' \<le> user_pages" for q a' s'
  proof -
    have "page_addr a' \<noteq> 0 \<and> page_addr a' < page_addr b \<longleftrightarrow> a' < b"
      using that(3,4) a unat_page_addr [of a'] page_addr_less [of a' b] by (auto simp: unat_eq_0)
    then show ?thesis
      using that(1,2) by (subst copy_loop.simps) simp
  qed
  have tn: "t < npage (pm s)" if "tbl (km s) d (a div 1024) = Some t" for t
    using tables_okD(3,4) [OF i(3)] that d(1) vpn_index(1) [OF au(1)] i(4) by blast
  note fp = find_pte_ok [of s d "page_addr a", OF i(2), unfolded au(2), OF tn]
  show thesis
  proof (cases "tbl (km s) d (a div 1024)")
    case None
    have no: "pmap (km s) d v = None" if "v \<in> {a..<min ((a div 1024 + 1) * 1024) b}" for v
    proof (rule pmap_no_table [OF None])
      have "a div 1024 \<le> v div 1024" "v div 1024 < a div 1024 + 1"
        using that by (auto simp: div_le_mono less_mult_imp_div_less)
      then show "v div 1024 = a div 1024" by simp
    qed
    have "a < (a div 1024 + 1) * 1024"
      using div_mult_mod_eq [of a 1024] mod_less_divisor [of 1024 a] by simp
    moreover have "copied D d d' {a..<min ((a div 1024 + 1) * 1024) b} s s"
      using copied_skip [OF copied_refl [OF inv, of d d'] no, of "{a..<min ((a div 1024 + 1) * 1024) b}"] by simp
    ultimately show thesis
      using that [of "(a div 1024 + 1) * 1024" s] loop [of None "(a div 1024 + 1) * 1024" s] fp None page_addr_table [OF au(1)] by simp
  next
    case (Some t)
    let ?p = "slot t (page_addr a)"
    have q: "find_pte (kva d) (page_addr a) s = Some (Some ?p)"
      using fp Some au by simp
    have mn: "{a..<min (a + 1) b} = {a}"
      using a by auto
    have pa: "pmap (km s) d a = (if bit (ld32 (km s) ?p) 0 then Some (frame_of (ld32 (km s) ?p), ld32 (km s) ?p AND PTE_USER) else None)"
      using pmap_slot [of "km s" d "page_addr a" t] Some au by (simp add: Let_def)
    show thesis
    proof (cases "bit (ld32 (km s) ?p) 0")
      case False
      then have "copied D d d' {a} s s"
        using copied_skip [OF copied_refl [OF inv, of d d'], of "{a}"] pa by simp
      then show thesis
        using that [of "a + 1" s] loop [of "Some ?p" "a + 1" s] q False a au mn by (simp add: and_PTE_P page_addr_next)
    next
      case True
      have "{a} \<subseteq> {v \<in> {a..<b}. pmap (km s) d v \<noteq> None}"
        using pa True a by auto
      then have "card {a} \<le> card {v \<in> {a..<b}. pmap (km s) d v \<noteq> None}"
        by (rule card_mono [rotated]) simp
      then have "2 \<le> card (free_set (pm s))"
        using room by simp
      then obtain s' where s': "copy_page (kva d') ?p (page_addr a) s = Some (Inr (), s')" "copied D d d' {a} s s'"
        "card (free_set (pm s)) \<le> card (free_set (pm s')) + 2"
        using copy_page_ok [OF inv d, of "page_addr a" t] au Some pa True new [of a] a cur by auto
      have "{v \<in> {a..<min (a + 1) b}. pmap (km s) d v \<noteq> None} = {a}"
        using mn pa True by auto
      with s' show thesis
        using that [of "a + 1" s'] loop [of "Some ?p" "a + 1" s'] q True a au mn pa by (simp add: and_PTE_P page_addr_next)
    qed
  qed
qed

lemma copy_loop_ok:
  assumes "pt_inv D s" and d: "d \<in> D" "d' \<in> D" "d \<noteq> d'" and "a < b" "b \<le> user_pages"
    and "\<And>v. a \<le> v \<Longrightarrow> v < b \<Longrightarrow> pmap (km s) d' v = None" and "cur_pgdir s \<noteq> Some (kva d')"
    and "2 * card {v \<in> {a..<b}. pmap (km s) d v \<noteq> None} \<le> card (free_set (pm s))"
  shows "\<exists>s'. copy_loop (kva d') (kva d) (page_addr a) (page_addr b) s = Some (Inr (), s') \<and> copied D d d' {a..<b} s s' \<and>
    card (free_set (pm s)) \<le> card (free_set (pm s')) + 2 * card {v \<in> {a..<b}. pmap (km s) d v \<noteq> None}"
  using assms
proof (induction "b - a" arbitrary: a s rule: less_induct)
  case less
  note inv = less.prems(1) and ab = less.prems(5,6) and new = less.prems(7)
  obtain a' s1 where st: "copy_loop (kva d') (kva d) (page_addr a) (page_addr b) s =
      (if a' < b then copy_loop (kva d') (kva d) (page_addr a') (page_addr b) s1 else Some (Inr (), s1))"
    "a < a'" "a' \<le> user_pages" and c: "copied D d d' {a..<min a' b} s s1"
    and fr: "card (free_set (pm s)) \<le> card (free_set (pm s1)) + 2 * card {v \<in> {a..<min a' b}. pmap (km s) d v \<noteq> None}"
    by (rule copy_loop_step [OF inv d ab new less.prems(8,9)])
  show ?case
  proof (cases "a' < b")
    case False
    then show ?thesis
      using st(1) c fr by (simp add: min_absorb2)
  next
    case True
    have same: "pmap (km s1) d v = pmap (km s) d v" "a' \<le> v \<Longrightarrow> pmap (km s1) d' v = pmap (km s) d' v" if "v < b" for v
      using copiedD(5) [OF c d(1), of v] copiedD(5) [OF c d(2), of v] that ab d(3) by auto
    have "{v \<in> {a..<b}. pmap (km s) d v \<noteq> None} = {v \<in> {a..<a'}. pmap (km s) d v \<noteq> None} \<union> {v \<in> {a'..<b}. pmap (km s1) d v \<noteq> None}"
      using same(1) True st(2) by auto
    then have sum: "card {v \<in> {a..<b}. pmap (km s) d v \<noteq> None} =
        card {v \<in> {a..<a'}. pmap (km s) d v \<noteq> None} + card {v \<in> {a'..<b}. pmap (km s1) d v \<noteq> None}"
      by (simp only:) (rule card_Un_disjoint, auto)
    have fr1: "card (free_set (pm s)) \<le> card (free_set (pm s1)) + 2 * card {v \<in> {a..<a'}. pmap (km s) d v \<noteq> None}"
      using fr True by (simp add: min_def)
    with sum have "2 * card {v \<in> {a'..<b}. pmap (km s1) d v \<noteq> None} \<le> card (free_set (pm s1))"
      using less.prems(9) by linarith
    moreover have "b - a' < b - a"
      using True st(2) by simp
    ultimately obtain s2 where s2: "copy_loop (kva d') (kva d) (page_addr a') (page_addr b) s1 = Some (Inr (), s2)" "copied D d d' {a'..<b} s1 s2"
        "card (free_set (pm s1)) \<le> card (free_set (pm s2)) + 2 * card {v \<in> {a'..<b}. pmap (km s1) d v \<noteq> None}"
      using less.hyps [of a' s1] copiedD(1) [OF c] d True ab st(2) same new less.prems(8) same_env_fields(1) [OF copiedD(2) [OF c]] by auto
    have "copied D d d' ({a..<a'} \<union> {a'..<b}) s s2"
      using copied_trans [OF inv d _ _ _ c s2(2)] True ab by (fastforce simp: min_def subset_iff)
    then show ?thesis
      using st(1,2) s2(1) True fr1 s2(3) sum by (simp add: ivl_disj_un)
  qed
qed

lemma aligned_page_addr:
  assumes "w mod PGSIZE = 0"
  shows "w = page_addr (vpn w)"
proof -
  have "unat w mod 4096 = 0"
    using arg_cong [OF assms, of unat] by (simp add: unat_mod)
  then have "4096 * vpn w = unat w"
    by (auto simp: vpn_def)
  then show ?thesis
    by (simp add: page_addr_def del: of_nat_mult)
qed

lemma page_range:
  assumes "start mod PGSIZE = 0" "fin mod PGSIZE = 0" "USER_ACCESS start fin"
  shows "start = page_addr (vpn start)" "fin = page_addr (vpn fin)" "vpn start < vpn fin" "vpn fin \<le> user_pages"
proof -
  have "unat fin \<le> 2147483648" "unat start < unat fin"
    using assms(3) by (simp_all add: USER_ACCESS_def USERTOP_def word_le_nat_alt word_less_nat_alt)
  then show le: "vpn fin \<le> user_pages"
    by (simp add: vpn_def user_pages_def)
  have "vpn start \<le> vpn fin"
    using \<open>unat start < unat fin\<close> by (simp add: vpn_def div_le_mono)
  then show "vpn start < vpn fin"
    using assms(3) page_addr_less [of "vpn start" "vpn fin"] le aligned_page_addr [OF assms(1)] aligned_page_addr [OF assms(2)]
    by (auto simp: USER_ACCESS_def)
qed (use assms aligned_page_addr in auto)

lemma copy_range_ok:
  assumes "pt_inv D s" "d \<in> D" "d' \<in> D" "d \<noteq> d'"
    and range: "start mod PGSIZE = 0" "fin mod PGSIZE = 0" "USER_ACCESS start fin"
    and "\<And>v. vpn start \<le> v \<Longrightarrow> v < vpn fin \<Longrightarrow> pmap (km s) d' v = None" and "cur_pgdir s \<noteq> Some (kva d')"
    and "2 * card {v \<in> {vpn start..<vpn fin}. pmap (km s) d v \<noteq> None} \<le> card (free_set (pm s))"
  obtains s' where "copy_range (kva d') (kva d) start fin s = Some (Inr (), s')" "copied D d d' {vpn start..<vpn fin} s s'"
    "card (free_set (pm s)) \<le> card (free_set (pm s')) + 2 * card {v \<in> {vpn start..<vpn fin}. pmap (km s) d v \<noteq> None}"
proof -
  note r = page_range [OF range]
  show thesis
    using copy_loop_ok [OF assms(1-4) r(3,4) assms(8-10)] range r(1,2) that by (auto simp: copy_range_def)
qed

lemma kva2page_kva:
  assumes "p < npage (pm s)" "npage (pm s) \<le> user_pages"
  shows "kva2page (kva p) s = Some p"
proof -
  have "(of_nat (kva p) :: u32) - KERNBASE = of_nat (4096 * p)"
    by (simp add: kva_def KERNBASE_def)
  moreover have "unat (of_nat (4096 * p) :: u32) = 4096 * p"
    using assms by (simp add: unat_of_nat user_pages_def del: of_nat_mult)
  ultimately show ?thesis
    using assms by (simp add: kva2page_def PADDR_def pa2page_def kva_def unat_PPN KERNBASE_def)
qed

section \<open>Looking up, removing and inserting\<close>

lemma get_pte_False: "get_pte pgdir la False s = map_option (\<lambda>q. (q, s)) (find_pte pgdir la s)"
  by (auto simp: get_pte_def find_pte_def Let_def map_option_case bind_eq_None_conv split: option.split Option.bind_split)

lemma lookup_pte:
  assumes inv: "pt_inv D s" and d: "d \<in> D" "vpn la < user_pages"
  shows "get_pte (kva d) la False s = Some (map_option (\<lambda>t. slot t la) (tbl (km s) d (vpn la div 1024)), s)"
proof -
  note i = pt_invD [OF inv]
  have "t < npage (pm s)" if "tbl (km s) d (vpn la div 1024) = Some t" for t
    using tables_okD(3,4) [OF i(3)] that d vpn_index(1) [OF d(2)] i(4) by blast
  then show ?thesis
    using find_pte_ok [of s d la] i(2) by (simp add: get_pte_False)
qed

lemma page_remove_ok:
  assumes inv: "pt_inv D s" and d: "d \<in> D" "vpn la < user_pages" and tlb: "tlb_room d la s"
  shows "\<exists>s'. page_remove (kva d) la s = Some s' \<and> pt_inv D s' \<and>
    (\<forall>d' \<in> D. \<forall>v < user_pages. pmap (km s') d' v = (if d' = d \<and> v = vpn la then None else pmap (km s) d' v))"
proof (cases "pmap (km s) d (vpn la)")
  case None
  then have "page_remove (kva d) la s = Some s"
    using lookup_pte [OF inv d] pmap_slot [of "km s" d la]
    by (cases "tbl (km s) d (vpn la div 1024)") (auto simp: page_remove_def page_remove_pte_def and_PTE_P Let_def split: if_splits)
  with None inv show ?thesis by auto
next
  case (Some pf)
  note i = pt_invD [OF inv]
  obtain p f where pf: "pmap (km s) d (vpn la) = Some (p, f)"
    using Some by fastforce
  then obtain t where t: "tbl (km s) d (vpn la div 1024) = Some t"
    by (auto simp: pmap_def split: option.splits)
  obtain s' where s': "page_remove_pte (kva d) la (slot t la) s = Some s'" "km s' = st32 (km s) (slot t la) 0"
    "tables_ok (\<lambda>_. 0) D (pm s') (km s')" "pmm_inv (pm s')" "npage (pm s') = npage (pm s)"
    by (rule page_remove_pte_ok [OF i(1-3) d t pf _ tlb]) (auto simp: refs_upd_def)
  have "pt_inv D s'"
    using s' i(2) by (simp add: pt_inv_def)
  moreover have "page_remove (kva d) la s = Some s'"
    using s'(1) lookup_pte [OF inv d] t by (simp add: page_remove_def)
  ultimately show ?thesis
    using entry_set_pmap [OF i(3) d entry_set_slot [OF t s'(2)]] by auto
qed

lemma get_page_ok:
  assumes inv: "pt_inv D s" and d: "d \<in> D" "vpn la < user_pages"
  shows "\<exists>q. get_page (kva d) la s = Some (map_option fst (pmap (km s) d (vpn la)), q)"
proof (cases "tbl (km s) d (vpn la div 1024)")
  case None
  then show ?thesis
    using lookup_pte [OF inv d] by (simp add: get_page_def pmap_def)
next
  case (Some t)
  note i = pt_invD [OF inv]
  let ?e = "ld32 (km s) (slot t la)"
  have "frame_of ?e < npage (pm s)" if "bit ?e 0"
    using tables_okD(6) [OF i(3) d, of "frame_of ?e" "?e AND PTE_USER"] pmap_slot [OF Some] that i(4) by (simp add: Let_def)
  then show ?thesis
    using lookup_pte [OF inv d] Some pmap_slot [OF Some]
    by (auto simp: get_page_def and_PTE_P Let_def pa2page_def unat_PPN frame_of_def)
qed

section \<open>Properties\<close>

lemma user_map_upd:
  assumes "d \<in> D" "v < user_pages"
    and "\<And>d' w. d' \<in> D \<Longrightarrow> w < user_pages \<Longrightarrow> pmap (km s') d' w = (if d' = d \<and> w = v then e else pmap (km s) d' w)"
  shows "user_map D s' = (user_map D s)(d := (user_map D s d)(v := e))"
  using assms by (auto simp: user_map_def fun_eq_iff)

text \<open>
  A machine with twelve frames: 2 and 3 are directories, 4 is a table of the first, which maps the frame 5 at
  page 512 (address 0x200000), 6 to 11 are free and 0 and 1 are in use.
\<close>

definition demo_pmm :: pmm where
  "demo_pmm = \<lparr>pages = (\<lambda>p. \<lparr>pg_ref = if p = 5 then 1 else 0, pg_flags = if p = 6 then 2 else 0,
     pg_property = if p = 6 then 6 else 0, pra_vaddr = 0\<rparr>), npage = 12, free_list = [6], nr_free = 6\<rparr>"

definition demo_mem :: mem where
  "demo_mem = st32 (st32 (\<lambda>_. 0) (kva 2 + 4 * 0) (page2pa 4 OR 7)) (kva 4 + 4 * 512) (page2pa 5 OR 7)"

definition demo_pt :: pstate where
  "demo_pt = \<lparr>vmas = vmas demo_mm, mms = mms demo_mm, pm = demo_pmm, km = demo_mem, cur_pgdir = None,
     tlb_entries = (\<lambda>_. (0, 0, 0)), tlb_algo_empty = (\<lambda>_. 0), tlb_algo_n = 0, tlb_algo_hi = (\<lambda>_. 0), tlb_algo_ptr = 0,
     swap_init_ok = False, check_mm_struct = None, pra_list = [], clean_block = 0, pgfault_num = 0, kanswers = []\<rparr>"

lemma demo_W: "j < 1024 \<Longrightarrow> W demo_mem q j = (if q = 2 \<and> j = 0 then page2pa 4 OR 7 else if q = 4 \<and> j = 512 then page2pa 5 OR 7 else 0)"
  unfolding demo_mem_def by (subst W_st32, simp, simp) (subst W_st32, simp, simp, simp add: W_def ld32_def un_le32_def)

lemma demo_tbl: "i < 512 \<Longrightarrow> tbl demo_mem d i = (if d = 2 \<and> i = 0 then Some 4 else None)"
  by (simp add: tbl_def demo_W frame_of_def page2pa_def bit_or_iff)

lemma demo_pmap: "v < user_pages \<Longrightarrow> pmap demo_mem d v = (if d = 2 \<and> v = 512 then Some (5, 7) else None)"
proof -
  assume "v < user_pages"
  then have "v div 1024 < 512" "v mod 1024 < 1024" "v div 1024 = 0 \<longleftrightarrow> v < 1024"
    using vpn_index by auto
  then show ?thesis
    by (auto simp: pmap_def demo_tbl demo_W frame_of_def page2pa_def PTE_USER_def PTE_P_def PTE_W_def PTE_U_def bit_or_iff)
qed

lemma demo_sets:
  "avail_set demo_pmm = {..<12}" "free_set demo_pmm = {6..<12}" "taken demo_pmm = {..<6}" "tables demo_mem {2, 3} = {4}"
proof -
  show a: "avail_set demo_pmm = {..<12}"
    by (auto simp: avail_set_def demo_pmm_def PageReserved_def PG_reserved_def)
  show f: "free_set demo_pmm = {6..<12}"
    by (simp add: free_set_def demo_pmm_def )
  show "taken demo_pmm = {..<6}"
    by (auto simp: taken_def a f)
  have "tables demo_mem {2, 3} = {t. \<exists>d \<in> {2, 3}. \<exists>i < 512. (if d = (2::nat) \<and> i = (0::nat) then Some 4 else None) = Some t}"
    unfolding tables_def using demo_tbl by (metis (no_types, lifting))
  then show "tables demo_mem {2, 3} = {4}"
    by (auto split: if_splits)
qed

lemma demo_mappers: "mappers demo_mem {2, 3} p = (if p = 5 then {(2, 512)} else {})"
proof -
  have "(512 :: nat) < user_pages"
    by (simp add: user_pages_def)
  then show ?thesis
    by (auto simp: mappers_def demo_pmap split: if_splits)
qed

lemma demo_pt_inv: "pt_inv {2, 3} demo_pt"
proof -
  have "pmm_inv demo_pmm"
    by (auto simp: pmm_inv_def demo_sets) (auto simp: demo_pmm_def PageProperty_def PageReserved_def PG_property_def PG_reserved_def bit_simps split: if_splits)
  moreover have "tables_ok (\<lambda>_. 0) {2, 3} demo_pmm demo_mem"
    by (rule tables_okI; (simp add: demo_sets demo_mappers demo_pmap demo_tbl split: if_splits; fail)?)
      (simp_all add: demo_sets demo_mappers demo_pmm_def)
  ultimately show ?thesis
    by (simp add: pt_inv_def demo_pt_def user_pages_def) (simp add: demo_pmm_def)
qed

lemma demo_fields [simp]: "pm demo_pt = demo_pmm" "km demo_pt = demo_mem" "cur_pgdir demo_pt = None"
  by (simp_all add: demo_pt_def)

lemma demo_user_map: "user_map {2, 3} demo_pt d v = (if d = 2 \<and> v = 512 then Some (5, 7) else None)"
  by (auto simp: user_map_def demo_pmap user_pages_def)

text \<open>
  C4. The page tables implement a map from user pages to frames with permissions. For every set of page
  directories with the invariant (directories, tables and mapped pages are different frames in use, and
  reference counts are exact), \<open>get_page\<close> returns what the map holds; \<open>page_remove\<close> succeeds and deletes
  exactly the entry of the address; \<open>page_insert\<close> of a page in use that is no directory or table succeeds and
  sets exactly that entry, whatever was mapped before. Both keep the invariant, so reference counts stay exact.
  The condition \<open>tlb_room\<close> holds unless the directory is the current one, the entry of the address is marked as being in the TLB
  and yet the list of unused TLB slots is full (as after a switch of directories, which empties the TLB and not the marks);
  \<open>tlb_del_callback\<close> would then write behind its array.
\<close>

theorem page_table_refines_map:
  assumes "pt_inv D s" "d \<in> D" "vpn la < user_pages" "tlb_room d la s"
  shows "(\<exists>ptep. get_page (kva d) la s = Some (map_option fst (user_map D s d (vpn la)), ptep)) \<and>
    (\<exists>s'. page_remove (kva d) la s = Some s' \<and> pt_inv D s' \<and>
       user_map D s' = (user_map D s)(d := (user_map D s d)(vpn la := None))) \<and>
    (q \<in> taken (pm s) - D - tables (km s) D \<and> perm AND PTE_USER = perm \<and> free_set (pm s) \<noteq> {} \<longrightarrow>
       (\<exists>s'. page_insert (kva d) q la perm s = Some (Inr (), s') \<and> pt_inv D s' \<and>
          user_map D s' = (user_map D s)(d := (user_map D s d)(vpn la \<mapsto> (q, PTE_P OR perm)))))"
    (is "?get \<and> ?remove \<and> (_ \<longrightarrow> ?insert)")
proof (intro conjI impI)
  show ?get
    using get_page_ok [OF assms(1-3)] assms(2,3) by (simp add: user_map_def)
  show ?remove
    using page_remove_ok [OF assms] user_map_upd [OF assms(2,3), where e = None] by metis
  assume "q \<in> taken (pm s) - D - tables (km s) D \<and> perm AND PTE_USER = perm \<and> free_set (pm s) \<noteq> {}"
  then obtain s' where "page_insert (kva d) q la perm s = Some (Inr (), s')" "pt_inv D s'"
    "\<And>d' v. d' \<in> D \<Longrightarrow> v < user_pages \<Longrightarrow>
       pmap (km s') d' v = (if d' = d \<and> v = vpn la then Some (q, PTE_P OR perm) else pmap (km s) d' v)"
    by (elim conjE DiffE) (rule page_insert_ok [OF assms(1-3) _ _ _ _ _ assms(4), of q perm], auto)
  then show ?insert
    using user_map_upd [OF assms(2,3), where e = "Some (q, PTE_P OR perm)"] by metis
qed

theorem page_table_refines_map_witness:
  "\<exists>s'. page_insert (kva 2) 5 0x201000 7 demo_pt = Some (Inr (), s') \<and> pt_inv {2, 3} s' \<and>
     user_map {2, 3} s' 2 512 = Some (5, 7) \<and> user_map {2, 3} s' 2 513 = Some (5, 7)"
proof -
  have "vpn 0x201000 = 513" "(7 :: u32) AND PTE_USER = 7" "PTE_P OR 7 = (7 :: u32)"
    by (simp_all add: vpn_def PTE_USER_def PTE_P_def PTE_W_def PTE_U_def)
  moreover have "(513 :: nat) < user_pages"
    by (simp add: user_pages_def)
  ultimately obtain s' where "page_insert (kva 2) 5 0x201000 7 demo_pt = Some (Inr (), s')" "pt_inv {2, 3} s'"
    "user_map {2, 3} s' = (user_map {2, 3} demo_pt)(2 := (user_map {2, 3} demo_pt 2)(513 \<mapsto> (5, 7)))"
    using page_table_refines_map [OF demo_pt_inv, of 2 "0x201000" 5 7] by (auto simp: demo_sets tlb_room_def)
  then show ?thesis
    by (simp add: demo_user_map)
qed

text \<open>
  \<open>copy_range\<close> gives the child its own copy of a range of user pages. With an empty target range and two
  free frames for every page to copy (the page and, at worst, a table), it succeeds; every page the parent maps
  is mapped by the child, at the same address with the same permissions, to a frame that was free and that now
  holds the same words; the parent's map, its pages and every other directory are unchanged, and the invariant
  with its exact reference counts is kept.
\<close>

theorem copy_range_correct:
  assumes inv: "pt_inv D s" and d: "d \<in> D" "d' \<in> D" "d \<noteq> d'"
    and range: "start mod PGSIZE = 0" "fin mod PGSIZE = 0" "USER_ACCESS start fin"
    and new: "\<And>v. vpn start \<le> v \<Longrightarrow> v < vpn fin \<Longrightarrow> user_map D s d' v = None" and cur: "cur_pgdir s \<noteq> Some (kva d')"
    and room: "2 * card {v \<in> {vpn start..<vpn fin}. user_map D s d v \<noteq> None} \<le> card (free_set (pm s))"
  shows "\<exists>s'. copy_range (kva d') (kva d) start fin s = Some (Inr (), s') \<and> pt_inv D s' \<and>
    (\<forall>c. c \<noteq> d' \<longrightarrow> user_map D s' c = user_map D s c) \<and>
    (\<forall>v. v \<notin> {vpn start..<vpn fin} \<or> user_map D s d v = None \<longrightarrow> user_map D s' d' v = user_map D s d' v) \<and>
    (\<forall>v \<in> {vpn start..<vpn fin}. \<forall>p f. user_map D s d v = Some (p, f) \<longrightarrow>
       (\<exists>q. user_map D s' d' v = Some (q, f) \<and> q \<in> free_set (pm s) \<and> (\<forall>j < 1024. W (km s') q j = W (km s) p j))) \<and>
    (\<forall>p \<in> taken (pm s) - D - tables (km s) D. \<forall>j < 1024. W (km s') p j = W (km s) p j)"
proof -
  note r = page_range [OF range]
  have um: "user_map D s c v = pmap (km s) c v" if "c \<in> D" "v < vpn fin" for c v
    using that r(4) by (simp add: user_map_def)
  have set_eq: "{v \<in> {vpn start..<vpn fin}. pmap (km s) d v \<noteq> None} = {v \<in> {vpn start..<vpn fin}. user_map D s d v \<noteq> None}"
    using um [OF d(1)] by auto
  have empty: "pmap (km s) d' v = None" if "vpn start \<le> v" "v < vpn fin" for v
    using new [OF that] um [OF d(2) that(2)] by simp
  obtain s' where s': "copy_range (kva d') (kva d) start fin s = Some (Inr (), s')" "copied D d d' {vpn start..<vpn fin} s s'"
    by (rule copy_range_ok [OF inv d range empty cur]) (use room set_eq in simp_all)
  note c = copiedD [OF s'(2)]
  have "user_map D s' c = user_map D s c" if "c \<noteq> d'" for c
    using c(5) that by (auto simp: user_map_def fun_eq_iff)
  moreover have "user_map D s' d' v = user_map D s d' v" if "v \<notin> {vpn start..<vpn fin} \<or> user_map D s d v = None" for v
    using c(5) [OF d(2), of v] that d(1) by (auto simp: user_map_def)
  moreover have "\<exists>q. user_map D s' d' v = Some (q, f) \<and> q \<in> free_set (pm s) \<and> (\<forall>j < 1024. W (km s') q j = W (km s) p j)"
    if "v \<in> {vpn start..<vpn fin}" "user_map D s d v = Some (p, f)" for v p f
  proof -
    have "v < user_pages" "pmap (km s) d v = Some (p, f)"
      using that um [OF d(1)] r(4) by auto
    then show ?thesis
      using c(6) [OF that(1)] d(2) by (auto simp: user_map_def)
  qed
  ultimately show ?thesis
    using s'(1) c(1,7) by blast
qed

theorem copy_range_correct_witness:
  "\<exists>s' q. copy_range (kva 3) (kva 2) 0x200000 0x201000 demo_pt = Some (Inr (), s') \<and> pt_inv {2, 3} s' \<and>
     user_map {2, 3} s' 2 512 = Some (5, 7) \<and> user_map {2, 3} s' 3 512 = Some (q, 7) \<and> q \<in> {6..<12}"
proof -
  have v: "vpn 0x200000 = 512" "vpn 0x201000 = 513" "{512..<513} = {512 :: nat}"
    by (auto simp: vpn_def)
  have "{v \<in> {512..<513}. user_map {2, 3} demo_pt 2 v \<noteq> None} = {512}"
    by (auto simp: demo_user_map)
  then have c: "2 * card {v \<in> {512..<513}. user_map {2, 3} demo_pt 2 v \<noteq> None} \<le> 6"
    by simp
  obtain s' where "copy_range (kva 3) (kva 2) 0x200000 0x201000 demo_pt = Some (Inr (), s')" "pt_inv {2, 3} s'"
    "\<forall>c. c \<noteq> 3 \<longrightarrow> user_map {2, 3} s' c = user_map {2, 3} demo_pt c"
    "\<forall>v \<in> {512..<513}. \<forall>p f. user_map {2, 3} demo_pt 2 v = Some (p, f) \<longrightarrow>
       (\<exists>q. user_map {2, 3} s' 3 v = Some (q, f) \<and> q \<in> free_set (pm demo_pt) \<and> (\<forall>j < 1024. W (km s') q j = W (km demo_pt) p j))"
    using copy_range_correct [OF demo_pt_inv, of 2 3 "0x200000" "0x201000"] c
    by (auto simp: v demo_sets demo_user_map PGSIZE_def USER_ACCESS_def USERBASE_def USERTOP_def)
  then show ?thesis
    by (auto simp: demo_user_map demo_sets v)
qed

end
