(* ===== verification/Slob.thy ===== *)
theory Slob
  imports PageMap
begin

text \<open>
  The heap of the kernel (\<^verbatim>\<open>kern/mm/kmalloc.c\<close>): small blocks on a circular list in the order of their
  addresses, grown by pages of the page allocator, and big blocks that are runs of pages. The fields of block
  headers are maps from addresses; user data is not part of the model.
\<close>

section \<open>Definitions: state\<close>

text \<open>
  \<open>slob_arena\<close> is the address of the static block \<open>arena\<close>, \<open>units_of\<close> and \<open>next_of\<close> are the fields of
  \<open>struct slob_block\<close>, and \<open>bb_order\<close> and \<open>bb_pages\<close> those of \<open>struct bigblock\<close>.
\<close>

record heap = pstate +
  slob_arena :: addr
  units_of :: "addr \<Rightarrow> int"
  next_of :: "addr \<Rightarrow> addr"
  slobfree :: addr
  bigblocks :: "addr list"
  bb_order :: "addr \<Rightarrow> nat"
  bb_pages :: "addr \<Rightarrow> addr"

definition set_units :: "addr \<Rightarrow> int \<Rightarrow> heap \<Rightarrow> heap" where
  "set_units a n s = s\<lparr>units_of := (units_of s)(a := n)\<rparr>"

definition set_next :: "addr \<Rightarrow> addr \<Rightarrow> heap \<Rightarrow> heap" where
  "set_next a b s = s\<lparr>next_of := (next_of s)(a := b)\<rparr>"

definition SLOB_UNIT :: nat where "SLOB_UNIT = 8"

definition SLOB_UNITS :: "u32 \<Rightarrow> int" where
  "SLOB_UNITS sz = uint ((sz + of_nat SLOB_UNIT - 1) div of_nat SLOB_UNIT)"

definition SLOB_ALIGN_UP :: "u32 \<Rightarrow> u32 \<Rightarrow> u32" where
  "SLOB_ALIGN_UP a sz = (a + sz - 1) AND NOT (sz - 1)"

definition sizeof_bigblock :: u32 where "sizeof_bigblock = 12"

text \<open>The address a number of units behind a block.\<close>

definition units_after :: "addr \<Rightarrow> int \<Rightarrow> addr" where
  "units_after a n = a + SLOB_UNIT * nat n"

section \<open>Definitions: pages and small blocks\<close>

definition slob_get_free_pages :: "nat \<Rightarrow> heap \<Rightarrow> (addr option \<times> heap) option" where
  "slob_get_free_pages order s =
     do { (page, s) \<leftarrow> alloc_pages (2 ^ order) s;
          case page of
            None \<Rightarrow> Some (None, s)
          | Some page \<Rightarrow> do { a \<leftarrow> page2kva page s; Some (Some a, s) } }"

definition slob_free_pages :: "addr \<Rightarrow> nat \<Rightarrow> heap \<Rightarrow> heap option" where
  "slob_free_pages a order s = do { page \<leftarrow> kva2page a s; free_pages page (2 ^ order) s }"

text \<open>The search for the block behind which a freed block belongs.\<close>

partial_function (option) slob_find_place :: "addr \<Rightarrow> addr \<Rightarrow> heap \<Rightarrow> addr option" where
  "slob_find_place b cur s =
     (if b > cur \<and> b < next_of s cur then Some cur
      else if cur \<ge> next_of s cur \<and> (b > cur \<or> b < next_of s cur) then Some cur
      else slob_find_place b (next_of s cur) s)"

definition slob_insert :: "addr \<Rightarrow> addr \<Rightarrow> heap \<Rightarrow> heap" where
  "slob_insert b cur s =
     (let nxt = next_of s cur;
          s = (if units_after b (units_of s b) = nxt
               then set_next b (next_of s nxt) (set_units b (units_of s b + units_of s nxt) s)
               else set_next b nxt s);
          s = (if units_after cur (units_of s cur) = b
               then set_next cur (next_of s b) (set_units cur (units_of s cur + units_of s b) s)
               else set_next cur b s)
      in s\<lparr>slobfree := cur\<rparr>)"

definition slob_free :: "addr \<Rightarrow> u32 \<Rightarrow> heap \<Rightarrow> heap option" where
  "slob_free block sz s =
     (if block = 0 then Some s
      else do { let s = (if sz \<noteq> 0 then set_units block (SLOB_UNITS sz) s else s);
                cur \<leftarrow> slob_find_place block (slobfree s) s;
                Some (slob_insert block cur s) })"

text \<open>A block that is large enough is cut to the alignment and to the size.\<close>

definition slob_cut_head :: "addr \<Rightarrow> int \<Rightarrow> addr \<Rightarrow> addr \<Rightarrow> heap \<Rightarrow> (addr \<times> addr) \<times> heap" where
  "slob_cut_head aligned delta prev cur s =
     (if delta \<noteq> 0 then
        ((cur, aligned),
         set_units cur delta (set_next cur aligned
           (set_next aligned (next_of s cur) (set_units aligned (units_of s cur - delta) s))))
      else ((prev, cur), s))"

definition slob_take :: "int \<Rightarrow> addr \<Rightarrow> addr \<Rightarrow> heap \<Rightarrow> heap" where
  "slob_take units prev cur s =
     (let s = (if units_of s cur = units then set_next prev (next_of s cur) s
               else let rest = units_after cur units;
                        s = set_next prev rest s;
                        s = set_units rest (units_of s cur - units) s;
                        s = set_next rest (next_of s cur) s
                    in set_units cur units s)
      in s\<lparr>slobfree := prev\<rparr>)"

definition slob_aligned :: "u32 \<Rightarrow> addr \<Rightarrow> addr \<times> int" where
  "slob_aligned align cur =
     (if align \<noteq> 0 then let aligned = unat (SLOB_ALIGN_UP (of_nat cur) align)
                         in (aligned, (int aligned - int cur) div int SLOB_UNIT)
      else (0, 0))"

partial_function (option) slob_search :: "u32 \<Rightarrow> u32 \<Rightarrow> addr \<Rightarrow> addr \<Rightarrow> heap \<Rightarrow> (addr option \<times> heap) option" where
  "slob_search sz align prev cur s =
     (let (aligned, delta) = slob_aligned align cur
      in if units_of s cur \<ge> SLOB_UNITS sz + delta then
           let ((prev, cur), s) = slob_cut_head aligned delta prev cur s
           in Some (Some cur, slob_take (SLOB_UNITS sz) prev cur s)
         else if cur = slobfree s then
           if sz = PGSIZE then Some (None, s)
           else do { (page, s) \<leftarrow> slob_get_free_pages 0 s;
                     case page of
                       None \<Rightarrow> Some (None, s)
                     | Some page \<Rightarrow>
                         do { s \<leftarrow> slob_free page PGSIZE s;
                              slob_search sz align (slobfree s) (next_of s (slobfree s)) s } }
         else slob_search sz align cur (next_of s cur) s)"

definition slob_alloc :: "u32 \<Rightarrow> u32 \<Rightarrow> heap \<Rightarrow> (addr option \<times> heap) option" where
  "slob_alloc sz align s =
     do { kassert (sz + of_nat SLOB_UNIT < PGSIZE);
          slob_search sz align (slobfree s) (next_of s (slobfree s)) s }"

section \<open>Definitions: \<open>kmalloc\<close> and \<open>kfree\<close>\<close>

function find_order :: "int \<Rightarrow> nat" where
  "find_order sz = (if sz > 4096 then find_order (sz div 2) + 1 else 0)"
  by pat_completeness auto
termination
  by (relation "measure nat") auto

declare find_order.simps [simp del]

definition kmalloc :: "u32 \<Rightarrow> heap \<Rightarrow> (addr option \<times> heap) option" where
  "kmalloc sz s =
     (if sz < PGSIZE - of_nat SLOB_UNIT then
        do { (m, s) \<leftarrow> slob_alloc (sz + of_nat SLOB_UNIT) 0 s;
             Some (map_option (\<lambda>m. m + SLOB_UNIT) m, s) }
      else
        do { (bb, s) \<leftarrow> slob_alloc sizeof_bigblock 0 s;
             case bb of
               None \<Rightarrow> Some (None, s)
             | Some bb \<Rightarrow>
                 do { let s = s\<lparr>bb_order := (bb_order s)(bb := find_order (sint sz))\<rparr>;
                      (page, s) \<leftarrow> slob_get_free_pages (bb_order s bb) s;
                      let s = s\<lparr>bb_pages := (bb_pages s)(bb := (case page of None \<Rightarrow> 0 | Some a \<Rightarrow> a))\<rparr>;
                      if bb_pages s bb \<noteq> 0 then Some (page, s\<lparr>bigblocks := bb # bigblocks s\<rparr>)
                      else do { s \<leftarrow> slob_free bb sizeof_bigblock s; Some (None, s) } } })"

definition find_bigblock :: "addr \<Rightarrow> heap \<Rightarrow> addr option" where
  "find_bigblock block s =
     (if block mod unat PGSIZE = 0 then List.find (\<lambda>bb. bb_pages s bb = block) (bigblocks s) else None)"

definition kfree :: "addr \<Rightarrow> heap \<Rightarrow> heap option" where
  "kfree block s =
     (if block = 0 then Some s
      else case find_bigblock block s of
             Some bb \<Rightarrow>
               do { s \<leftarrow> slob_free_pages block (bb_order s bb) (s\<lparr>bigblocks := remove1 bb (bigblocks s)\<rparr>);
                    slob_free bb sizeof_bigblock s }
           | None \<Rightarrow> slob_free (block - SLOB_UNIT) 0 s)"

definition ksize :: "addr \<Rightarrow> heap \<Rightarrow> int" where
  "ksize block s =
     (if block = 0 then 0
      else case find_bigblock block s of
             Some bb \<Rightarrow> uint (push_bit (bb_order s bb) PGSIZE)
           | None \<Rightarrow> units_of s (block - SLOB_UNIT) * int SLOB_UNIT)"

definition kallocated :: "heap \<Rightarrow> nat" where "kallocated s = 0"

section \<open>Definitions: what the heap stands for\<close>

text \<open>
  \<open>links f xs z\<close>: following \<open>f\<close> from the first element of \<open>xs\<close> visits \<open>xs\<close> and then \<open>z\<close>. The free blocks
  form a ring that starts with \<open>arena\<close> and is sorted, with gaps between neighbours.
\<close>

fun links :: "(addr \<Rightarrow> addr) \<Rightarrow> addr list \<Rightarrow> addr \<Rightarrow> bool" where
  "links f [] z \<longleftrightarrow> True"
| "links f (x # xs) z \<longleftrightarrow> f x = hd (xs @ [z]) \<and> links f xs z"

definition blk_bytes :: "heap \<Rightarrow> addr \<Rightarrow> nat set" where
  "blk_bytes s x = {x..<units_after x (units_of s x)}"

definition page_bytes :: "nat set \<Rightarrow> nat set" where
  "page_bytes P = (\<Union>p \<in> P. {kva p..<kva p + 4096})"

definition ring :: "heap \<Rightarrow> addr list \<Rightarrow> bool" where
  "ring s bs \<longleftrightarrow>
     links (next_of s) (slob_arena s # bs) (slob_arena s) \<and> slobfree s \<in> set (slob_arena s # bs) \<and>
     units_of s (slob_arena s) = 1 \<and> (\<forall>x \<in> set bs. 0 < units_of s x) \<and>
     sorted_wrt (\<lambda>x y. units_after x (units_of s x) < y) (slob_arena s # bs)"

text \<open>The blocks of the ring, read off the pointers, and the bytes that can be allocated.\<close>

definition slob_blocks :: "heap \<Rightarrow> addr set" where
  "slob_blocks s = range (\<lambda>k. (next_of s ^^ k) (slob_arena s)) - {slob_arena s}"

definition slob_bytes :: "heap \<Rightarrow> nat set" where
  "slob_bytes s = (\<Union>x \<in> slob_blocks s. blk_bytes s x)"

definition heap_free :: "heap \<Rightarrow> nat set" where
  "heap_free s = slob_bytes s \<union> page_bytes (free_set (pm s))"

definition heap_avail :: "heap \<Rightarrow> nat set" where
  "heap_avail s = page_bytes (avail_set (pm s))"

definition heap_inv :: "heap \<Rightarrow> bool" where
  "heap_inv s \<longleftrightarrow>
     pmm_inv (pm s) \<and> npage (pm s) \<le> user_pages \<and> (swap_init_ok s \<longrightarrow> check_mm_struct s = None) \<and>
     (\<forall>p \<in> avail_set (pm s). units_after (slob_arena s) 1 < kva p) \<and>
     (\<exists>bs. ring s bs) \<and> slob_bytes s \<subseteq> page_bytes (taken (pm s))"

section \<open>Chains and rings\<close>

lemma links_append: "links f (xs @ ys) z \<longleftrightarrow> links f xs (hd (ys @ [z])) \<and> links f ys z"
proof (induction xs)
  case (Cons x xs)
  then show ?case by (cases xs) auto
qed simp

lemma links_cong: "(\<And>x. x \<in> set xs \<Longrightarrow> f x = g x) \<Longrightarrow> links f xs z = links g xs z"
  by (induction xs) auto

lemma links_upd [simp]: "a \<notin> set xs \<Longrightarrow> links (f(a := b)) xs z = links f xs z"
  by (rule links_cong) auto

lemma links_rotate: "links f (xs @ ys) (hd (xs @ ys)) \<Longrightarrow> ys \<noteq> [] \<Longrightarrow> links f (ys @ xs) (hd (ys @ xs))"
  by (cases xs; cases ys) (auto simp: links_append hd_append)

lemma links_nth: "links f xs z \<Longrightarrow> i < length xs \<Longrightarrow> f (xs ! i) = (xs @ [z]) ! Suc i"
proof (induction xs arbitrary: i)
  case (Cons x xs)
  then show ?case
    by (cases i; cases xs) auto
qed simp

lemma links_orbit:
  assumes "links f xs (hd xs)" "xs \<noteq> []"
  shows "range (\<lambda>k. (f ^^ k) (hd xs)) = set xs"
proof -
  have "(f ^^ k) (hd xs) = xs ! (k mod length xs)" for k
  proof (induction k)
    case (Suc k)
    have "f (xs ! (k mod length xs)) = (xs @ [hd xs]) ! Suc (k mod length xs)"
      using assms by (intro links_nth) simp_all
    also have "\<dots> = xs ! (Suc k mod length xs)"
    proof (cases "Suc (k mod length xs) = length xs")
      case True
      then show ?thesis
        using assms(2) by (simp add: mod_Suc hd_conv_nth)
    next
      case False
      then have "Suc (k mod length xs) < length xs"
        using assms(2) by (simp add: Suc_lessI)
      then show ?thesis
        using False by (simp add: mod_Suc nth_append)
    qed
    finally show ?case
      using Suc by simp
  qed (use assms(2) in \<open>simp add: hd_conv_nth\<close>)
  then have "range (\<lambda>k. (f ^^ k) (hd xs)) = range (\<lambda>k. xs ! (k mod length xs))"
    by simp
  moreover have "xs ! i \<in> range (\<lambda>k. xs ! (k mod length xs))" if "i < length xs" for i
    using that by (intro range_eqI [of _ _ i]) simp
  moreover have "xs ! (k mod length xs) \<in> set xs" for k
    using assms(2) by simp
  ultimately show ?thesis
    by (auto simp: in_set_conv_nth)
qed

text \<open>A ring of blocks, given by pointers and sizes; \<open>gap\<close> is the order of blocks that do not touch.\<close>

definition gap :: "(addr \<Rightarrow> int) \<Rightarrow> addr \<Rightarrow> addr \<Rightarrow> bool" where
  "gap u x y \<longleftrightarrow> units_after x (u x) < y"

lemma units_after_gt: "0 < n \<Longrightarrow> x < units_after x n"
  by (simp add: units_after_def SLOB_UNIT_def)

lemma units_after_add: "0 < n \<Longrightarrow> 0 < k \<Longrightarrow> units_after x (n + k) = units_after (units_after x n) k"
  by (simp add: units_after_def nat_add_distrib distrib_left)

lemma gap_upd [simp]: "x \<noteq> a \<Longrightarrow> gap (u(a := n)) x y = gap u x y"
  by (simp add: gap_def)

lemma sorted_gap_upd [simp]: "a \<notin> set xs \<Longrightarrow> sorted_wrt (gap (u(a := n))) xs = sorted_wrt (gap u) xs"
  by (induction xs) (auto simp: gap_def)

definition rng :: "(addr \<Rightarrow> addr) \<Rightarrow> (addr \<Rightarrow> int) \<Rightarrow> addr list \<Rightarrow> bool" where
  "rng f u xs \<longleftrightarrow> links f xs (hd xs) \<and> (\<forall>x \<in> set xs. 0 < u x) \<and> sorted_wrt (gap u) xs"

lemma ring_rng:
  "ring s bs \<longleftrightarrow> rng (next_of s) (units_of s) (slob_arena s # bs) \<and> slobfree s \<in> set (slob_arena s # bs) \<and> units_of s (slob_arena s) = 1"
  by (auto simp: ring_def rng_def gap_def [abs_def])

lemma rng_less:
  assumes "rng f u (xs @ x # ys)"
  shows "y \<in> set xs \<Longrightarrow> units_after y (u y) < x" "y \<in> set xs \<Longrightarrow> y < x" "y \<in> set ys \<Longrightarrow> units_after x (u x) < y" "y \<in> set ys \<Longrightarrow> x < y" "0 < u x"
proof -
  show *: "y \<in> set xs \<Longrightarrow> units_after y (u y) < x" "y \<in> set ys \<Longrightarrow> units_after x (u x) < y" "0 < u x"
    using assms by (auto simp: rng_def sorted_wrt_append gap_def)
  show "y \<in> set xs \<Longrightarrow> y < x"
    using * units_after_gt [of "u y" y] assms by (auto simp: rng_def)
  show "y \<in> set ys \<Longrightarrow> x < y"
    using * units_after_gt [of "u x" x] by auto
qed

lemma rng_distinct: "rng f u xs \<Longrightarrow> distinct xs"
proof -
  assume r: "rng f u xs"
  then have "sorted_wrt (<) xs"
    by (auto simp: rng_def gap_def intro!: sorted_wrt_mono_rel [of xs "gap u"] intro: less_trans [OF units_after_gt])
  then show ?thesis
    by (simp add: strict_sorted_iff)
qed

lemma ring_blocks: "ring s bs \<Longrightarrow> slob_blocks s = set bs" "ring s bs \<Longrightarrow> slob_bytes s = (\<Union>x \<in> set bs. blk_bytes s x)"
proof -
  assume r: "ring s bs"
  then have "links (next_of s) (slob_arena s # bs) (slob_arena s)" "distinct (slob_arena s # bs)"
    using rng_distinct [of "next_of s" "units_of s" "slob_arena s # bs"] by (auto simp: ring_rng rng_def)
  then show "slob_blocks s = set bs"
    using links_orbit [of "next_of s" "slob_arena s # bs"] by (auto simp: slob_blocks_def)
  then show "slob_bytes s = (\<Union>x \<in> set bs. blk_bytes s x)"
    by (simp add: slob_bytes_def)
qed

section \<open>Freeing a block\<close>

lemma find_place_walk:
  assumes "links (next_of s) zs z" "pr \<in> set zs"
    and stop: "\<And>x. x \<in> set zs \<Longrightarrow> (b > x \<and> b < next_of s x) \<or> (x \<ge> next_of s x \<and> (b > x \<or> b < next_of s x)) \<longleftrightarrow> x = pr"
  shows "slob_find_place b (hd zs) s = Some pr"
  using assms
proof (induction zs)
  case (Cons x xs)
  show ?case
  proof (cases "x = pr")
    case True
    then show ?thesis
      using Cons.prems(3) [of x] by (subst slob_find_place.simps) auto
  next
    case False
    then have "slob_find_place b x s = slob_find_place b (next_of s x) s"
      using Cons.prems(3) [of x] by (subst slob_find_place.simps) auto
    then show ?thesis
      using Cons False by (cases xs) auto
  qed
qed simp

lemma find_place_ok:
  assumes r: "rng (next_of s) (units_of s) (pre @ pr # post)" and sf: "slobfree s \<in> set (pre @ pr # post)"
    and b: "hd (pre @ [pr]) < b" "pr < b" "\<And>x. x \<in> set post \<Longrightarrow> b < x"
  shows "slob_find_place b (slobfree s) s = Some pr"
proof -
  let ?xs = "pre @ pr # post"
  have c: "links (next_of s) ?xs (hd ?xs)"
    using r by (simp add: rng_def)
  have stop: "(b > x \<and> b < next_of s x) \<or> (x \<ge> next_of s x \<and> (b > x \<or> b < next_of s x)) \<longleftrightarrow> x = pr" if x: "x \<in> set ?xs" for x
  proof -
    consider P1 P2 where "pre = P1 @ x # P2" | "x = pr" | P1 P2 where "post = P1 @ x # P2"
      using x split_list [of x pre] split_list [of x post] by auto
    then show ?thesis
    proof cases
      case 1
      then have "next_of s x = hd (P2 @ [pr])" "x < pr"
        using c rng_less(2) [OF r, of x] by (auto simp: links_append hd_append)
      moreover have "hd (P2 @ [pr]) \<le> pr" "x < hd (P2 @ [pr])"
        using 1 rng_less(2) [OF r, of "hd P2"] rng_less(4) [of _ _ P1 x "P2 @ pr # post" "hd (P2 @ [pr])"] r by (cases P2; simp)+
      ultimately show ?thesis
        using b(2) by auto
    next
      case 2
      then have "next_of s x = hd (post @ [hd ?xs])"
        using c by (simp add: links_append)
      moreover have "hd ?xs \<le> pr"
        using rng_less(2) [OF r, of "hd pre"] by (cases pre) auto
      ultimately show ?thesis
        using 2 b by (cases post) auto
    next
      case 3
      then have "next_of s x = hd (P2 @ [hd ?xs])" "b < x" "x \<noteq> pr"
        using c b(2) b(3) [of x] by (auto simp: links_append)
      moreover have "x < hd P2" if "P2 \<noteq> []"
        using 3 rng_less(4) [of _ _ "pre @ pr # P1" x P2 "hd P2"] r that by simp
      moreover have "hd ?xs < b"
        using b(1) by (cases pre) auto
      ultimately show ?thesis
        by (cases P2) auto
    qed
  qed
  obtain A B where AB: "?xs = A @ slobfree s # B"
    using split_list [OF sf] by auto
  then have "links (next_of s) ((slobfree s # B) @ A) (hd ((slobfree s # B) @ A))"
    using c links_rotate [of "next_of s" A "slobfree s # B"] by simp
  moreover have "set ((slobfree s # B) @ A) = set ?xs"
    using AB by auto
  ultimately show ?thesis
    using find_place_walk [of s "(slobfree s # B) @ A" "hd ((slobfree s # B) @ A)" pr b] stop by simp
qed

text \<open>What inserting a block does to pointers and sizes; the bytes of the ring grow by the block.\<close>

definition ring_bytes :: "(addr \<Rightarrow> int) \<Rightarrow> addr list \<Rightarrow> nat set" where
  "ring_bytes u xs = (\<Union>x \<in> set xs. {x..<units_after x (u x)})"

lemma ring_bytes_simps [simp]:
  "ring_bytes u [] = {}" "ring_bytes u (x # xs) = {x..<units_after x (u x)} \<union> ring_bytes u xs"
  "ring_bytes u (xs @ ys) = ring_bytes u xs \<union> ring_bytes u ys" "a \<notin> set xs \<Longrightarrow> ring_bytes (u(a := n)) xs = ring_bytes u xs"
proof -
  show "ring_bytes (u(a := n)) xs = ring_bytes u xs" if "a \<notin> set xs"
    unfolding ring_bytes_def using that by (intro arg_cong [where f = Union] image_cong) auto
qed (auto simp: ring_bytes_def)

lemma insert_next:
  fixes f :: "addr \<Rightarrow> addr"
  assumes r: "rng f u (pre @ pr # post)" and n: "0 < u b" and b: "pr < b"
    and hi: "\<And>x. x \<in> set post \<Longrightarrow> units_after b (u b) \<le> x"
    and f1: "f1 = (if units_after b (u b) = f pr then f(b := f (f pr)) else f(b := f pr))"
    and u1: "u1 = (if units_after b (u b) = f pr then u(b := u b + u (f pr)) else u)"
  obtains post1 where "f1 b = hd (post1 @ [hd (pre @ [pr])])" "links f1 post1 (hd (pre @ [pr]))" "sorted_wrt (gap u1) (b # post1)"
    "\<forall>x \<in> set (b # post1). 0 < u1 x" "set post1 \<subseteq> set post"
    "ring_bytes u1 (b # post1) = {b..<units_after b (u b)} \<union> ring_bytes u post"
proof -
  let ?h = "hd (pre @ [pr])"
  have h: "?h \<le> pr"
    using rng_less(2) [OF r, of "hd pre"] by (cases pre) auto
  have fp: "f pr = hd (post @ [?h])" "links f post ?h" "sorted_wrt (gap u) post" "\<forall>x \<in> set post. 0 < u x"
    using r by (auto simp: rng_def links_append sorted_wrt_append hd_append)
  have nb: "b \<notin> set post"
    using hi units_after_gt [OF n, of b] by fastforce
  show thesis
  proof (cases "units_after b (u b) = f pr")
    case True
    then obtain x post1 where p: "post = x # post1" "f pr = x" "x = units_after b (u b)"
      using fp(1) h b units_after_gt [OF n, of b] by (cases post) auto
    have ux: "0 < u x"
      using fp p by simp
    have e: "units_after b (u b + u x) = units_after x (u x)"
      using units_after_add [OF n ux, of b] p(3) by simp
    have bx: "b < x" "x < units_after x (u x)"
      using p(3) units_after_gt [OF n] units_after_gt [OF ux] by auto
    show thesis
    proof (rule that [of post1])
      show "f1 b = hd (post1 @ [?h])" "links f1 post1 ?h" "set post1 \<subseteq> set post"
        using fp(2) p nb by (auto simp: f1)
      show "sorted_wrt (gap u1) (b # post1)" "\<forall>x \<in> set (b # post1). 0 < u1 x"
        using fp(3,4) p nb e n ux by (auto simp: u1 gap_def)
      show "ring_bytes u1 (b # post1) = {b..<units_after b (u b)} \<union> ring_bytes u post"
        using p nb e bx by (auto simp: u1)
    qed
  next
    case False
    have "units_after b (u b) < x" if "x \<in> set post" for x
    proof (cases post)
      case (Cons y ys)
      then have "units_after b (u b) < y"
        using False fp(1) hi [of y] by simp
      then show ?thesis
        using that Cons fp(3,4) units_after_gt [of "u y" y] by (auto simp: gap_def)
    qed (use that in simp)
    then show thesis
      using that [of post] False fp nb n by (auto simp: f1 u1 gap_def)
  qed
qed

lemma slob_insert_ok:
  assumes r: "rng (next_of s) (units_of s) (pre @ pr # post)" and n: "0 < units_of s b"
    and lo: "units_after pr (units_of s pr) \<le> b" and hi: "\<And>x. x \<in> set post \<Longrightarrow> units_after b (units_of s b) \<le> x"
  obtains post' where "rng (next_of (slob_insert b pr s)) (units_of (slob_insert b pr s)) (pre @ pr # post')"
    "ring_bytes (units_of (slob_insert b pr s)) (pre @ pr # post') =
       ring_bytes (units_of s) (pre @ pr # post) \<union> {b..<units_after b (units_of s b)}"
    "units_after pr (units_of s pr) < b \<Longrightarrow> units_of (slob_insert b pr s) pr = units_of s pr"
    "\<And>x. x \<in> set pre \<Longrightarrow> units_of (slob_insert b pr s) x = units_of s x"
proof -
  let ?u = "units_of s" and ?f = "next_of s"
  define f1 where "f1 = (if units_after b (?u b) = ?f pr then ?f(b := ?f (?f pr)) else ?f(b := ?f pr))"
  define u1 where "u1 = (if units_after b (?u b) = ?f pr then ?u(b := ?u b + ?u (?f pr)) else ?u)"
  have d: "distinct (pre @ pr # post)" "0 < ?u pr"
    using rng_distinct [OF r] rng_less(5) [OF r] by auto
  then have prb: "pr < b"
    using lo units_after_gt [of "?u pr" pr] by simp
  obtain post1 where p1: "f1 b = hd (post1 @ [hd (pre @ [pr])])" "links f1 post1 (hd (pre @ [pr]))" "sorted_wrt (gap u1) (b # post1)"
    "\<forall>x \<in> set (b # post1). 0 < u1 x" "set post1 \<subseteq> set post"
    "ring_bytes u1 (b # post1) = {b..<units_after b (?u b)} \<union> ring_bytes ?u post"
    by (rule insert_next [OF r n prb hi f1_def u1_def])
  have bp: "x \<noteq> b" if "x \<in> set (pre @ [pr])" for x
    using rng_less(2) [OF r, of x] prb that by auto
  have nb: "b \<notin> set (pre @ [pr])" "b \<notin> set post1" "pr \<notin> set post1" "pr \<notin> set pre"
    using bp p1(3,4) p1(5) d units_after_gt [of "u1 b" b] by (auto simp: gap_def)
  have keep: "f1 x = ?f x" "u1 x = ?u x" if "x \<in> set (pre @ [pr])" for x
    using bp [OF that] by (auto simp: f1_def u1_def)
  have pre: "links f1 pre pr" "sorted_wrt (gap u1) (pre @ [pr])" "\<forall>x \<in> set (pre @ [pr]). 0 < u1 x" "ring_bytes u1 (pre @ [pr]) = ring_bytes ?u (pre @ [pr])"
    using r links_cong [of pre f1 ?f pr] keep sorted_gap_upd [of b "pre @ [pr]" ?u] nb(1)
    by (auto simp: rng_def links_append sorted_wrt_append u1_def)
  have ins: "next_of (slob_insert b pr s) = (if units_after pr (u1 pr) = b then f1(pr := f1 b) else f1(pr := b))"
    "units_of (slob_insert b pr s) = (if units_after pr (u1 pr) = b then u1(pr := u1 pr + u1 b) else u1)"
    using prb by (auto simp: slob_insert_def Let_def set_next_def set_units_def f1_def u1_def)
  have pb: "gap u1 x b" if "x \<in> set pre" for x
    using that pre(2) prb by (auto simp: sorted_wrt_append gap_def)
  have pp: "gap u1 x y" if "gap u1 x b" "y \<in> set post1" for x y
    using that p1(3,4) units_after_gt [of "u1 b" b] by (auto simp: gap_def)
  show thesis
  proof (cases "units_after pr (u1 pr) = b")
    case True
    have e: "units_after pr (u1 pr + u1 b) = units_after b (u1 b)"
      using units_after_add [of "u1 pr" "u1 b" pr] pre(3) p1(4) True by simp
    show thesis
    proof (rule that [of post1])
      show "rng (next_of (slob_insert b pr s)) (units_of (slob_insert b pr s)) (pre @ pr # post1)"
        using True pre p1(1-4) nb e pp [OF pb] by (auto simp: rng_def ins links_append sorted_wrt_append gap_def hd_append)
      have "{pr..<units_after b (u1 b)} = {pr..<b} \<union> {b..<units_after b (u1 b)}"
        using prb units_after_gt [of "u1 b" b] p1(4) by auto
      then show "ring_bytes (units_of (slob_insert b pr s)) (pre @ pr # post1) =
          ring_bytes ?u (pre @ pr # post) \<union> {b..<units_after b (?u b)}"
        using True pre(4) p1(6) nb e by (auto simp: ins)
      show "units_of (slob_insert b pr s) pr = ?u pr" if "units_after pr (?u pr) < b"
        using True that keep(2) [of pr] by simp
      show "units_of (slob_insert b pr s) x = ?u x" if "x \<in> set pre" for x
        using True that keep(2) [of x] nb by (auto simp: ins)
    qed
  next
    case False
    then have lt: "units_after pr (u1 pr) < b"
      using lo keep(2) [of pr] by simp
    show thesis
    proof (rule that [of "b # post1"])
      show "rng (next_of (slob_insert b pr s)) (units_of (slob_insert b pr s)) (pre @ pr # b # post1)"
        using False pre p1(1-4) nb lt pb pp [OF pb] pp [of pr] by (auto simp: rng_def ins links_append sorted_wrt_append gap_def hd_append)
      show "ring_bytes (units_of (slob_insert b pr s)) (pre @ pr # b # post1) =
          ring_bytes ?u (pre @ pr # post) \<union> {b..<units_after b (?u b)}"
        using False pre(4) p1(6) by (auto simp: ins)
      show "units_of (slob_insert b pr s) pr = ?u pr" "\<And>x. x \<in> set pre \<Longrightarrow> units_of (slob_insert b pr s) x = ?u x"
        using False keep(2) by (auto simp: ins)
    qed
  qed
qed

text \<open>Freeing leaves everything but the headers and the start of the search alone.\<close>

definition same_pages :: "heap \<Rightarrow> heap \<Rightarrow> bool" where
  "same_pages s s' \<longleftrightarrow> s' = s\<lparr>units_of := units_of s', next_of := next_of s', slobfree := slobfree s'\<rparr>"

lemma same_pages_simps [simp]:
  "same_pages s s" "same_pages s (set_units a n s') = same_pages s s'" "same_pages s (set_next a b s') = same_pages s s'"
  "same_pages s (s'\<lparr>slobfree := a\<rparr>) = same_pages s s'"
  by (cases s; cases s'; simp add: same_pages_def set_units_def set_next_def)+

lemma same_pages_trans: "same_pages s s1 \<Longrightarrow> same_pages s1 s2 \<Longrightarrow> same_pages s s2"
  by (cases s; cases s1; cases s2) (simp add: same_pages_def)

lemma same_pagesD:
  assumes "same_pages s s'"
  shows "pm s' = pm s" "slob_arena s' = slob_arena s" "swap_init_ok s' = swap_init_ok s" "check_mm_struct s' = check_mm_struct s"
    "bigblocks s' = bigblocks s" "bb_order s' = bb_order s" "bb_pages s' = bb_pages s"
proof -
  have s': "s' = s\<lparr>units_of := units_of s', next_of := next_of s', slobfree := slobfree s'\<rparr>"
    using assms by (simp add: same_pages_def)
  show "pm s' = pm s" "slob_arena s' = slob_arena s" "swap_init_ok s' = swap_init_ok s" "check_mm_struct s' = check_mm_struct s"
    "bigblocks s' = bigblocks s" "bb_order s' = bb_order s" "bb_pages s' = bb_pages s"
    by (subst s', simp)+
qed

lemma slob_insert_same: "same_pages s (slob_insert b cur s)" "slobfree (slob_insert b cur s) = cur"
  by (simp_all add: slob_insert_def Let_def)

lemma ring_bytes_ring: "ring s bs \<Longrightarrow> slob_bytes s = ring_bytes (units_of s) bs"
  by (simp add: ring_blocks(2) ring_bytes_def blk_bytes_def)

lemma ring_bytes_above:
  assumes "ring s bs" "x \<in> slob_bytes s"
  shows "units_after (slob_arena s) 1 < x"
proof -
  obtain y where "y \<in> set bs" "y \<le> x"
    using assms(2) by (auto simp: ring_bytes_ring [OF assms(1)] ring_bytes_def)
  then show ?thesis
    using assms(1) by (auto simp: ring_def)
qed

lemma split_at:
  assumes r: "rng f u (a # bs)" and b: "a < b" "b \<notin> set bs"
  obtains pre pr post where "a # bs = pre @ pr # post" "pr < b" "\<And>x. x \<in> set post \<Longrightarrow> b < x"
proof -
  let ?xs = "a # bs"
  let ?t = "takeWhile (\<lambda>x. x < b) ?xs" and ?d = "dropWhile (\<lambda>x. x < b) ?xs"
  have t: "?t \<noteq> []"
    using b(1) by simp
  then have xs: "?xs = butlast ?t @ last ?t # ?d"
    using append_butlast_last_id [OF t] takeWhile_dropWhile_id [of "\<lambda>x. x < b" ?xs] by (metis append.assoc append_Cons append_Nil)
  have "last ?t < b"
    using last_in_set [OF t] by (rule set_takeWhileD [THEN conjunct2])
  moreover have "b < x" if "x \<in> set ?d" for x
  proof -
    have "?d \<noteq> []"
      using that by (metis empty_iff empty_set)
    then obtain y ys where d: "?d = y # ys"
      by (meson list.exhaust)
    then have "\<not> y < b" "y \<in> set bs"
      using hd_dropWhile [of "\<lambda>x. x < b" ?xs] set_dropWhileD [of y "\<lambda>x. x < b" ?xs] b(1) by auto
    then have "b < y"
      using b(2) by (metis linorder_neqE_nat)
    moreover have "y \<le> x"
      using rng_less(4) [of f u "butlast ?t @ [last ?t]" y ys x] r xs d that by auto
    ultimately show ?thesis by simp
  qed
  ultimately show thesis
    using that xs by blast
qed

lemma slob_put_ok:
  assumes r: "ring s bs" and n: "0 < units_of s b" and lo: "units_after (slob_arena s) 1 < b"
    and dis: "{b..<units_after b (units_of s b)} \<inter> slob_bytes s = {}"
  obtains cur bs' where "slob_find_place b (slobfree s) s = Some cur" "ring (slob_insert b cur s) bs'"
    "slob_bytes (slob_insert b cur s) = slob_bytes s \<union> {b..<units_after b (units_of s b)}"
proof -
  let ?a = "slob_arena s" and ?u = "units_of s" and ?f = "next_of s"
  have rr: "rng ?f ?u (?a # bs)" "slobfree s \<in> set (?a # bs)" "?u ?a = 1"
    using r by (simp_all add: ring_rng)
  have ab: "?a < b" "b \<notin> set bs"
    using lo dis units_after_gt [of 1 ?a] rr(1) units_after_gt [OF n, of b] units_after_gt [of "?u b" b]
    by (auto simp: ring_bytes_ring [OF r] ring_bytes_def rng_def disjoint_iff)
  obtain pre pr post where xs: "?a # bs = pre @ pr # post" "pr < b" "\<And>x. x \<in> set post \<Longrightarrow> b < x"
    using split_at [OF rr(1) ab] by blast
  have r': "rng ?f ?u (pre @ pr # post)"
    using rr(1) xs(1) by simp
  have in_bytes: "x \<in> slob_bytes s" if "y \<in> set bs" "y \<le> x" "x < units_after y (?u y)" for x y
    using that by (auto simp: ring_bytes_ring [OF r] ring_bytes_def)
  have p: "units_after pr (?u pr) \<le> b" "units_after ?a (?u ?a) < b"
  proof -
    show "units_after ?a (?u ?a) < b"
      using lo rr(3) by simp
    then show "units_after pr (?u pr) \<le> b"
      using xs in_bytes [of pr b] dis units_after_gt [OF n, of b] by (cases pre) (auto simp: disjoint_iff intro: leI)
  qed
  have q: "units_after b (?u b) \<le> x" if "x \<in> set post" for x
  proof -
    have "x \<in> set bs" "b < x"
      using xs(1) xs(3) [OF that] that by (cases pre; auto)+
    then have "x \<in> slob_bytes s"
      using in_bytes [of x x] units_after_gt [of "?u x" x] rr(1) by (auto simp: rng_def)
    then show ?thesis
      using dis \<open>b < x\<close> by (auto simp: disjoint_iff intro: leI)
  qed
  have "hd (pre @ [pr]) = ?a"
    using xs(1) by (cases pre) auto
  then have fp: "slob_find_place b (slobfree s) s = Some pr"
    using rr(2) ab(1) xs by (intro find_place_ok [OF r']) auto
  obtain post' where ins: "rng (next_of (slob_insert b pr s)) (units_of (slob_insert b pr s)) (pre @ pr # post')"
    "ring_bytes (units_of (slob_insert b pr s)) (pre @ pr # post') = ring_bytes ?u (pre @ pr # post) \<union> {b..<units_after b (?u b)}"
    "units_after pr (?u pr) < b \<Longrightarrow> units_of (slob_insert b pr s) pr = ?u pr"
    "\<And>x. x \<in> set pre \<Longrightarrow> units_of (slob_insert b pr s) x = ?u x"
    using slob_insert_ok [OF r' n p(1) q] by blast
  have ua: "units_of (slob_insert b pr s) ?a = 1" "pre @ pr # post' = ?a # tl (pre @ pr # post')"
    using ins(3,4) xs(1) p(2) rr(3) by (cases pre; auto)+
  have new: "ring (slob_insert b pr s) (tl (pre @ pr # post'))"
    using ins(1) ua slob_insert_same(1) [of s b pr] slob_insert_same(2) [of b pr s] by (auto simp: ring_rng same_pagesD)
  have "{?a..<units_after ?a 1} \<union> slob_bytes (slob_insert b pr s) = {?a..<units_after ?a 1} \<union> (slob_bytes s \<union> {b..<units_after b (?u b)})"
    using ins(2) xs(1) ua rr(3) ring_bytes_simps(2) [of "units_of (slob_insert b pr s)" ?a "tl (pre @ pr # post')"] ring_bytes_simps(2) [of ?u ?a bs]
    by (simp only: ring_bytes_ring [OF r] ring_bytes_ring [OF new]) auto
  moreover have "{?a..<units_after ?a 1} \<inter> slob_bytes (slob_insert b pr s) = {}" "{?a..<units_after ?a 1} \<inter> (slob_bytes s \<union> {b..<units_after b (?u b)}) = {}"
    using ring_bytes_above [OF new] ring_bytes_above [OF r] lo slob_insert_same(1) [of s b pr] by (auto simp: same_pagesD disjoint_iff dest: less_asym)
  ultimately have "slob_bytes (slob_insert b pr s) = slob_bytes s \<union> {b..<units_after b (?u b)}"
    by blast
  then show thesis
    using that fp new by blast
qed

section \<open>Allocating a block\<close>

lemma slob_take_ok:
  assumes r: "rng (next_of s) (units_of s) (pre @ prev # cur # post)" and n: "0 < n" "n \<le> units_of s cur"
  obtains post' where "rng (next_of (slob_take n prev cur s)) (units_of (slob_take n prev cur s)) (pre @ prev # post')"
    "ring_bytes (units_of (slob_take n prev cur s)) (pre @ prev # post') =
       ring_bytes (units_of s) (pre @ prev # cur # post) - {cur..<units_after cur n}"
    "{cur..<units_after cur n} \<subseteq> ring_bytes (units_of s) (pre @ prev # cur # post)"
    "\<And>x. x \<in> set (pre @ [prev]) \<Longrightarrow> units_of (slob_take n prev cur s) x = units_of s x"
proof -
  let ?u = "units_of s" and ?f = "next_of s" and ?xs = "pre @ prev # cur # post"
  have d: "distinct ?xs"
    by (rule rng_distinct [OF r])
  have r2: "rng ?f ?u ((pre @ [prev]) @ cur # post)"
    using r by simp
  have lo: "units_after x (?u x) < cur" "x < cur" if "x \<in> set (pre @ [prev])" for x
    using rng_less(1,2) [OF r2] that by auto
  have hi: "units_after cur (?u cur) < x" if "x \<in> set post" for x
    using rng_less(3) [OF r2] that by auto
  have c: "links ?f pre prev" "?f prev = cur" "?f cur = hd (post @ [hd (pre @ [prev])])" "links ?f post (hd (pre @ [prev]))"
    "sorted_wrt (gap ?u) (pre @ [prev])" "sorted_wrt (gap ?u) post" "\<forall>x \<in> set ?xs. 0 < ?u x"
    "\<And>x y. x \<in> set (pre @ [prev]) \<Longrightarrow> y \<in> set post \<Longrightarrow> gap ?u x y"
    using r by (auto simp: rng_def links_append sorted_wrt_append hd_append)
  have out: "ring_bytes ?u (pre @ [prev]) \<inter> {cur..<units_after cur (?u cur)} = {}" "ring_bytes ?u post \<inter> {cur..<units_after cur (?u cur)} = {}"
    unfolding ring_bytes_def disjoint_iff using lo(1) hi by (fastforce simp del: set_append)+
  show thesis
  proof (cases "?u cur = n")
    case True
    have e: "next_of (slob_take n prev cur s) = ?f(prev := ?f cur)" "units_of (slob_take n prev cur s) = ?u"
      using True by (simp_all add: slob_take_def Let_def set_next_def)
    show thesis
    proof (rule that [of post])
      show "rng (next_of (slob_take n prev cur s)) (units_of (slob_take n prev cur s)) (pre @ prev # post)"
        using c d by (auto simp: e rng_def links_append sorted_wrt_append hd_append)
    qed (use out True in \<open>auto simp: e\<close>)
  next
    case False
    let ?rest = "units_after cur n"
    have m: "0 < ?u cur - n" "units_after ?rest (?u cur - n) = units_after cur (?u cur)"
      using n False units_after_add [of n "?u cur - n" cur] by auto
    have cr: "cur < ?rest" "?rest < units_after cur (?u cur)"
      using units_after_gt [OF n(1), of cur] units_after_gt [OF m(1), of ?rest] m(2) by auto
    have nr: "?rest \<notin> set (pre @ [prev])" "?rest \<notin> set post" "prev \<noteq> cur" "cur \<notin> set (pre @ [prev])" "cur \<notin> set post"
      using lo(2) [of ?rest] cr hi [of ?rest] d by auto
    have e: "next_of (slob_take n prev cur s) = ?f(prev := ?rest, ?rest := ?f cur)"
      "units_of (slob_take n prev cur s) = ?u(?rest := ?u cur - n, cur := n)"
      using False cr nr by (auto simp: slob_take_def Let_def set_next_def set_units_def)
    have lo': "gap ?u x ?rest" if "x \<in> set (pre @ [prev])" for x
      using lo(1) [OF that] cr by (simp add: gap_def)
    show thesis
    proof (rule that [of "?rest # post"])
      show "rng (next_of (slob_take n prev cur s)) (units_of (slob_take n prev cur s)) (pre @ prev # ?rest # post)"
        using c d nr lo' m hi cr by (auto simp: e rng_def links_append sorted_wrt_append hd_append gap_def)
      show "ring_bytes (units_of (slob_take n prev cur s)) (pre @ prev # ?rest # post) = ring_bytes ?u ?xs - {cur..<?rest}"
        using nr out m cr by (auto simp: e)
      show "{cur..<?rest} \<subseteq> ring_bytes ?u ?xs"
        using cr by auto
      show "units_of (slob_take n prev cur s) x = ?u x" if "x \<in> set (pre @ [prev])" for x
        using that nr by (auto simp: e)
    qed
  qed
qed

lemma slob_take_same: "same_pages s (slob_take n prev cur s)" "slobfree (slob_take n prev cur s) = prev"
  by (simp_all add: slob_take_def Let_def)

lemma slob_take_units: "prev \<noteq> cur \<Longrightarrow> 0 < n \<Longrightarrow> units_of (slob_take n prev cur s) cur = n"
  by (auto simp: slob_take_def Let_def set_units_def set_next_def)

lemma slob_take_ring:
  assumes r: "ring s bs" and p: "next_of s prev = cur" "prev \<in> set (slob_arena s # bs)" "cur \<in> set bs" and n: "0 < n" "n \<le> units_of s cur"
  shows "\<exists>bs'. ring (slob_take n prev cur s) bs'" "{cur..<units_after cur n} \<subseteq> slob_bytes s"
    "slob_bytes (slob_take n prev cur s) = slob_bytes s - {cur..<units_after cur n}" "prev \<noteq> cur"
proof -
  let ?a = "slob_arena s" and ?u = "units_of s" and ?s = "slob_take n prev cur s"
  have rr: "rng (next_of s) ?u (?a # bs)" "?u ?a = 1"
    using r by (simp_all add: ring_rng)
  obtain pre post0 where xs0: "?a # bs = pre @ prev # post0"
    using split_list [OF p(2)] by auto
  have "next_of s prev = hd (post0 @ [?a])"
    using rr(1) unfolding rng_def list.sel unfolding xs0 by (simp add: links_append)
  moreover have "cur \<noteq> ?a"
    using rng_distinct [OF rr(1)] p(3) by auto
  ultimately obtain post where xs: "?a # bs = pre @ prev # cur # post"
    using p(1) xs0 by (cases post0) auto
  obtain post' where t: "rng (next_of ?s) (units_of ?s) (pre @ prev # post')"
    "ring_bytes (units_of ?s) (pre @ prev # post') = ring_bytes ?u (pre @ prev # cur # post) - {cur..<units_after cur n}"
    "{cur..<units_after cur n} \<subseteq> ring_bytes ?u (pre @ prev # cur # post)"
    "\<And>x. x \<in> set (pre @ [prev]) \<Longrightarrow> units_of ?s x = ?u x"
    using slob_take_ok [OF rr(1) [unfolded xs] n] by blast
  have ua: "units_of ?s ?a = 1" "pre @ prev # post' = ?a # tl (pre @ prev # post')" "cur \<noteq> prev"
    using t(4) xs rr(2) rng_distinct [OF rr(1) [unfolded xs]] by (cases pre; auto)+
  have new: "ring ?s (tl (pre @ prev # post'))"
    using t(1) ua slob_take_same(1) [of s n prev cur] slob_take_same(2) [of n prev cur s] by (auto simp: ring_rng same_pagesD)
  then show "\<exists>bs'. ring ?s bs'" ..
  let ?A = "{?a..<units_after ?a 1}"
  have e: "?A \<union> slob_bytes ?s = (?A \<union> slob_bytes s) - {cur..<units_after cur n}" "{cur..<units_after cur n} \<subseteq> ?A \<union> slob_bytes s"
    using t(2,3) xs ua rr(2) ring_bytes_simps(2) [of "units_of ?s" ?a "tl (pre @ prev # post')"] ring_bytes_simps(2) [of ?u ?a bs]
    by (simp_all only: ring_bytes_ring [OF r] ring_bytes_ring [OF new])
  have dis: "?A \<inter> slob_bytes ?s = {}" "?A \<inter> slob_bytes s = {}" "?A \<inter> {cur..<units_after cur n} = {}"
    using ring_bytes_above [OF new] ring_bytes_above [OF r] slob_take_same(1) [of s n prev cur] p(3) r
    by (auto simp: same_pagesD disjoint_iff ring_def dest: less_asym)
  show "slob_bytes ?s = slob_bytes s - {cur..<units_after cur n}" "{cur..<units_after cur n} \<subseteq> slob_bytes s" "prev \<noteq> cur"
    using e dis ua(3) by blast+
qed

text \<open>The search with alignment 0, as all callers have it.\<close>

definition slob_refill :: "u32 \<Rightarrow> heap \<Rightarrow> (addr option \<times> heap) option" where
  "slob_refill sz s =
     (if sz = PGSIZE then Some (None, s)
      else do { (page, s) \<leftarrow> slob_get_free_pages 0 s;
                case page of
                  None \<Rightarrow> Some (None, s)
                | Some page \<Rightarrow>
                    do { s \<leftarrow> slob_free page PGSIZE s;
                         slob_search sz 0 (slobfree s) (next_of s (slobfree s)) s } })"

lemma slob_search_step:
  "slob_search sz 0 prev cur s =
     (if SLOB_UNITS sz \<le> units_of s cur then Some (Some cur, slob_take (SLOB_UNITS sz) prev cur s)
      else if cur = slobfree s then slob_refill sz s
      else slob_search sz 0 cur (next_of s cur) s)"
  by (subst slob_search.simps) (simp add: slob_aligned_def slob_cut_head_def slob_refill_def)

lemma slob_search_walk:
  assumes "links (next_of s) ys z" "ys \<noteq> []" "last ys = slobfree s" "distinct ys" "next_of s prev = hd ys"
  shows "(\<forall>y \<in> set ys. units_of s y < SLOB_UNITS sz) \<and> slob_search sz 0 prev (hd ys) s = slob_refill sz s \<or>
    (\<exists>p c. slob_search sz 0 prev (hd ys) s = Some (Some c, slob_take (SLOB_UNITS sz) p c s) \<and> next_of s p = c \<and>
       c \<in> set ys \<and> SLOB_UNITS sz \<le> units_of s c \<and> p \<in> insert prev (set ys))"
  using assms
proof (induction ys arbitrary: prev)
  case (Cons y ys)
  show ?case
  proof (cases "SLOB_UNITS sz \<le> units_of s y")
    case True
    then have "slob_search sz 0 prev y s = Some (Some y, slob_take (SLOB_UNITS sz) prev y s)"
      by (subst slob_search_step) simp
    then show ?thesis
      using True Cons.prems(5) by auto
  next
    case fit: False
    show ?thesis
    proof (cases "ys = []")
      case True
      then show ?thesis
        using fit Cons.prems(3) slob_search_step [of sz prev y s] by auto
    next
      case False
      then have "y \<noteq> slobfree s" "last ys = slobfree s" "next_of s y = hd ys"
        using Cons.prems last_in_set [OF False] by auto
      then have "slob_search sz 0 prev y s = slob_search sz 0 y (hd ys) s"
        using fit by (subst slob_search_step) simp
      then show ?thesis
        using Cons.IH [of y] Cons.prems False fit \<open>last ys = slobfree s\<close> \<open>next_of s y = hd ys\<close> by auto
    qed
  qed
qed simp

lemma slob_search_ring:
  assumes r: "ring s bs" and k: "2 \<le> SLOB_UNITS sz"
  shows "(\<forall>y \<in> set bs. units_of s y < SLOB_UNITS sz) \<and> slob_search sz 0 (slobfree s) (next_of s (slobfree s)) s = slob_refill sz s \<or>
    (\<exists>p c. slob_search sz 0 (slobfree s) (next_of s (slobfree s)) s = Some (Some c, slob_take (SLOB_UNITS sz) p c s) \<and> next_of s p = c \<and>
       c \<in> set bs \<and> SLOB_UNITS sz \<le> units_of s c \<and> p \<in> set (slob_arena s # bs))"
proof -
  let ?xs = "slob_arena s # bs" and ?sf = "slobfree s"
  have rr: "rng (next_of s) (units_of s) ?xs" "?sf \<in> set ?xs" "units_of s (slob_arena s) = 1"
    using r by (simp_all add: ring_rng)
  obtain A B where AB: "?xs = A @ ?sf # B"
    using split_list [OF rr(2)] by auto
  let ?ys = "B @ (A @ [?sf])"
  have c: "links (next_of s) ((A @ [?sf]) @ B) (hd ((A @ [?sf]) @ B))"
    using rr(1) AB by (simp add: rng_def)
  then have "links (next_of s) ?ys (hd ?ys)"
    using links_rotate [of "next_of s" "A @ [?sf]" B] by (cases "B = []") auto
  moreover have "next_of s ?sf = hd ?ys"
    using c by (cases A; cases B) (auto simp: links_append)
  moreover have "set ?ys = set ?xs" "distinct ?ys" "last ?ys = ?sf" "?ys \<noteq> []"
    using AB rng_distinct [OF rr(1)] by auto
  ultimately show ?thesis
    using slob_search_walk [of s ?ys "hd ?ys" ?sf sz] rr(2,3) k by auto
qed

section \<open>The heap\<close>

lemma page_bytes_simps [simp]: "page_bytes (insert p P) = {kva p..<kva p + 4096} \<union> page_bytes P" "page_bytes {} = {}"
  by (auto simp: page_bytes_def)

lemma page_bytes_mono: "P \<subseteq> Q \<Longrightarrow> page_bytes P \<subseteq> page_bytes Q"
  by (auto simp: page_bytes_def)

lemma page_bytes_disjoint: "P \<inter> Q = {} \<Longrightarrow> page_bytes P \<inter> page_bytes Q = {}"
proof (rule ccontr)
  assume PQ: "P \<inter> Q = {}" and "page_bytes P \<inter> page_bytes Q \<noteq> {}"
  then obtain x p q where "p \<in> P" "q \<in> Q" "kva p \<le> x" "x < kva p + 4096" "kva q \<le> x" "x < kva q + 4096"
    by (auto simp: page_bytes_def)
  moreover from this have "p = q"
    by (auto simp: kva_def)
  ultimately show False
    using PQ by auto
qed

lemma ring_pm [simp]: "ring (s\<lparr>pm := x\<rparr>) bs = ring s bs"
  by (simp add: ring_def)

lemma bytes_pm [simp]: "slob_blocks (s\<lparr>pm := x\<rparr>) = slob_blocks s" "slob_bytes (s\<lparr>pm := x\<rparr>) = slob_bytes s"
  by (simp_all add: slob_bytes_def slob_blocks_def blk_bytes_def)

lemma heap_invD:
  assumes "heap_inv s"
  shows "pmm_inv (pm s)" "npage (pm s) \<le> user_pages" "swap_init_ok s \<Longrightarrow> check_mm_struct s = None"
    "p \<in> avail_set (pm s) \<Longrightarrow> units_after (slob_arena s) 1 < kva p" "\<exists>bs. ring s bs" "slob_bytes s \<subseteq> page_bytes (taken (pm s))"
  using assms by (auto simp: heap_inv_def)

lemma heap_inv_cong:
  assumes "heap_inv s" "same_pages s s'" "ring s' bs" "slob_bytes s' \<subseteq> page_bytes (taken (pm s))"
  shows "heap_inv s'"
  using assms same_pagesD [OF assms(2)] unfolding heap_inv_def by auto

text \<open>Taking pages for the heap.\<close>

lemma get_free_pages_cases:
  assumes inv: "heap_inv s"
  obtains (none) "order = 0" "free_set (pm s) = {}" "slob_get_free_pages order s = None"
  | (null) x where "order = 0 \<longrightarrow> free_set (pm s) = {}" "slob_get_free_pages order s = Some (None, s\<lparr>pm := x\<rparr>)"
      "pmm_inv x" "npage x = npage (pm s)" "avail_set x = avail_set (pm s)" "free_set x = free_set (pm s)"
  | (page) p x where "{p..<p + 2 ^ order} \<subseteq> free_set (pm s)" "slob_get_free_pages order s = Some (Some (kva p), s\<lparr>pm := x\<rparr>)"
      "pmm_inv x" "npage x = npage (pm s)" "avail_set x = avail_set (pm s)" "free_set x = free_set (pm s) - {p..<p + 2 ^ order}"
proof -
  note i = heap_invD [OF inv]
  obtain r x where x: "default_alloc_pages (2 ^ order) (pm s) = Some (r, x)" "pmm_inv x" "avail_set x = avail_set (pm s)"
    "case r of None \<Rightarrow> free_set x = free_set (pm s)
     | Some b \<Rightarrow> {b..<b + 2 ^ order} \<subseteq> free_set (pm s) \<and> free_set x = free_set (pm s) - {b..<b + 2 ^ order}"
    using dpmm.alloc_ok [OF i(1), of "2 ^ order"] by auto
  have n: "npage x = npage (pm s)"
    using alloc_avail(2) [OF i(1) _ x(1)] by simp
  show thesis
  proof (cases r)
    case None
    have e: "order = 0 \<longrightarrow> free_set (pm s) = {}"
      using dpmm.alloc_one [OF i(1)] x(1) None by (cases "free_set (pm s) = {}") auto
    show thesis
    proof (cases "order = 0 \<and> swap_init_ok s")
      case True
      then have "slob_get_free_pages order s = None"
        using x(1) None i(3) by (simp add: slob_get_free_pages_def alloc_pages.simps [of "Suc 0"] swap_out_def)
      then show thesis
        using none e True by blast
    next
      case False
      then have "(1 :: nat) < 2 ^ order \<or> \<not> swap_init_ok s"
        using one_less_power [of "2 :: nat" order] by auto
      then have "slob_get_free_pages order s = Some (None, s\<lparr>pm := x\<rparr>)"
        using x(1) None by (auto simp: slob_get_free_pages_def alloc_pages.simps [of "2 ^ order"])
      then show thesis
        using null x(2-4) n None e by simp
    qed
  next
    case (Some p)
    have "p \<in> free_set (pm s)"
      using x(4) Some by auto
    then have "page2kva p (s\<lparr>pm := x\<rparr>) = Some (kva p)"
      using KADDR_page2pa [of p "s\<lparr>pm := x\<rparr>"] free_less(1) [OF i(1)] n i(2) by (simp add: page2kva_def)
    then have "slob_get_free_pages order s = Some (Some (kva p), s\<lparr>pm := x\<rparr>)"
      using x(1) Some by (simp add: slob_get_free_pages_def alloc_pages.simps [of "2 ^ order"])
    then show thesis
      using page [of p x] x(2-4) n Some by simp
  qed
qed

lemma ring_set_units:
  assumes "ring s bs" "b \<notin> set (slob_arena s # bs)"
  shows "ring (set_units b k s) bs" "slob_bytes (set_units b k s) = slob_bytes s"
proof -
  show r: "ring (set_units b k s) bs"
    using assms by (auto simp: ring_rng rng_def set_units_def)
  show "slob_bytes (set_units b k s) = slob_bytes s"
    unfolding ring_bytes_ring [OF r] ring_bytes_ring [OF assms(1)] using assms(2) by (simp add: set_units_def)
qed

lemma slob_free_ok:
  assumes inv: "heap_inv s" and k: "k = (if sz = 0 then units_of s b else SLOB_UNITS sz)" "0 < k"
    and b: "{b..<units_after b k} \<subseteq> heap_avail s - heap_free s"
  shows "\<exists>s'. slob_free b sz s = Some s' \<and> same_pages s s' \<and> heap_inv s' \<and> heap_free s' = heap_free s \<union> {b..<units_after b k}"
proof -
  note i = heap_invD [OF inv]
  obtain bs where r: "ring s bs"
    using i(5) by blast
  have bb: "b \<in> {b..<units_after b k}"
    using units_after_gt [OF k(2), of b] by simp
  then obtain p where "p \<in> avail_set (pm s)" "kva p \<le> b"
    using b by (auto simp: heap_avail_def page_bytes_def)
  then have lo: "units_after (slob_arena s) 1 < b"
    using i(4) [of p] by simp
  have nb: "b \<notin> set (slob_arena s # bs)"
  proof -
    have "b \<in> slob_bytes s" if "b \<in> set bs"
      using that r units_after_gt [of "units_of s b" b] by (auto simp: ring_bytes_ring [OF r] ring_bytes_def ring_def)
    then show ?thesis
      using bb b lo units_after_gt [of 1 "slob_arena s"] by (auto simp: heap_free_def)
  qed
  define s1 where "s1 = (if sz \<noteq> 0 then set_units b (SLOB_UNITS sz) s else s)"
  have s1: "ring s1 bs" "slob_bytes s1 = slob_bytes s" "units_of s1 b = k" "same_pages s s1"
    using r ring_set_units [OF r nb] k(1) by (auto simp: s1_def) (simp add: set_units_def)
  have a1: "slob_arena s1 = slob_arena s"
    using same_pagesD(2) [OF s1(4)] .
  obtain cur bs' where c: "slob_find_place b (slobfree s1) s1 = Some cur" "ring (slob_insert b cur s1) bs'"
    "slob_bytes (slob_insert b cur s1) = slob_bytes s1 \<union> {b..<units_after b (units_of s1 b)}"
  proof (rule slob_put_ok [OF s1(1), of b])
    show "0 < units_of s1 b" "units_after (slob_arena s1) 1 < b" "{b..<units_after b (units_of s1 b)} \<inter> slob_bytes s1 = {}"
      using k(2) lo b by (auto simp: s1(2,3) a1 heap_free_def)
  qed
  let ?s = "slob_insert b cur s1"
  have same: "same_pages s ?s"
    using same_pages_trans [OF s1(4) slob_insert_same(1)] .
  have bytes: "slob_bytes ?s = slob_bytes s \<union> {b..<units_after b k}"
    using c(3) by (simp add: s1(2,3))
  have "avail_set (pm s) = taken (pm s) \<union> free_set (pm s)"
    using dpmm.free_avail [OF i(1)] by (auto simp: taken_def)
  then have "{b..<units_after b k} \<subseteq> page_bytes (taken (pm s))"
    using b by (auto simp: heap_avail_def heap_free_def page_bytes_def)
  then have "heap_inv ?s"
    using heap_inv_cong [OF inv same c(2)] bytes i(6) by simp
  moreover have "slob_free b sz s = Some ?s"
    using lo c(1) by (simp add: slob_free_def s1_def [symmetric])
  moreover have "heap_free ?s = heap_free s \<union> {b..<units_after b k}"
    using bytes same_pagesD(1) [OF same] by (auto simp: heap_free_def)
  ultimately show ?thesis
    using same by blast
qed

text \<open>Allocation from the blocks at hand.\<close>

lemma slob_found:
  assumes inv: "heap_inv s" and r: "ring s bs" and p: "next_of s p = c" "c \<in> set bs" "k \<le> units_of s c" "p \<in> set (slob_arena s # bs)" and k: "0 < k"
  shows "heap_inv (slob_take k p c s)" "{c..<units_after c k} \<subseteq> slob_bytes s"
    "heap_free (slob_take k p c s) = heap_free s - {c..<units_after c k}" "units_of (slob_take k p c s) c = k"
proof -
  note t = slob_take_ring [OF r p(1,4,2) k p(3)]
  have same: "same_pages s (slob_take k p c s)"
    by (rule slob_take_same)
  show "heap_inv (slob_take k p c s)"
    using t(1,3) heap_invD(6) [OF inv] by (auto intro: heap_inv_cong [OF inv same])
  show sub: "{c..<units_after c k} \<subseteq> slob_bytes s"
    by (rule t(2))
  have "page_bytes (taken (pm s)) \<inter> page_bytes (free_set (pm s)) = {}"
    by (rule page_bytes_disjoint) (auto simp: taken_def)
  then have "{c..<units_after c k} \<inter> page_bytes (free_set (pm s)) = {}"
    using sub heap_invD(6) [OF inv] by blast
  then show "heap_free (slob_take k p c s) = heap_free s - {c..<units_after c k}"
    using t(3) same_pagesD(1) [OF same] by (auto simp: heap_free_def)
  show "units_of (slob_take k p c s) c = k"
    using slob_take_units [OF t(4) k] .
qed

text \<open>Blocks that touch are merged, so a run of free bytes lies within one block.\<close>

lemma run_in_free_block:
  assumes r: "ring s bs" and m: "0 < m" "{a..<units_after a m} \<subseteq> slob_bytes s"
  shows "\<exists>y \<in> set bs. m \<le> units_of s y"
proof -
  let ?u = "units_of s"
  have "a \<in> slob_bytes s"
    using m units_after_gt [OF m(1), of a] by auto
  then obtain y where y: "y \<in> set bs" "y \<le> a" "a < units_after y (?u y)"
    by (auto simp: ring_bytes_ring [OF r] ring_bytes_def)
  obtain A B where AB: "slob_arena s # bs = A @ y # B"
    using split_list [of y "slob_arena s # bs"] y(1) by auto
  have rr: "rng (next_of s) ?u (A @ y # B)"
    using r AB by (simp add: ring_rng)
  have "units_after y (?u y) \<notin> slob_bytes s"
  proof
    assume "units_after y (?u y) \<in> slob_bytes s"
    then obtain z where z: "z \<in> set bs" "z \<le> units_after y (?u y)" "units_after y (?u y) < units_after z (?u z)"
      by (auto simp: ring_bytes_ring [OF r] ring_bytes_def)
    then consider "z = y" | "z \<in> set A" | "z \<in> set B"
      using AB by (metis Un_iff insert_iff list.set(2) list.set_intros(2) set_append)
    then show False
      using z rng_less(1,3) [OF rr, of z] units_after_gt [OF rng_less(5) [OF rr], of y] by cases auto
  qed
  then have "units_after a m \<le> units_after y (?u y)"
    using m(2) y(3) by (meson atLeastLessThan_iff less_imp_le_nat not_le subsetD)
  then have "m \<le> ?u y"
    using y(2) m(1) by (auto simp: units_after_def SLOB_UNIT_def)
  with y(1) show ?thesis ..
qed

lemma SLOB_UNITS_PGSIZE: "SLOB_UNITS PGSIZE = 512" "units_after a 512 = a + 4096"
  by (simp_all add: SLOB_UNITS_def SLOB_UNIT_def PGSIZE_def units_after_def)

text \<open>Pages taken from the page allocator leave the free memory of the heap.\<close>

lemma heap_take_pages:
  assumes inv: "heap_inv s" and p: "P \<subseteq> free_set (pm s)" and x: "pmm_inv x" "npage x = npage (pm s)" "avail_set x = avail_set (pm s)" "free_set x = free_set (pm s) - P"
  shows "heap_inv (s\<lparr>pm := x\<rparr>)" "heap_free (s\<lparr>pm := x\<rparr>) = heap_free s - page_bytes P" "page_bytes P \<subseteq> heap_free s" "page_bytes P \<inter> slob_bytes s = {}"
proof -
  note i = heap_invD [OF inv]
  have tk: "taken (pm s) \<subseteq> taken x" "taken (pm s) \<inter> P = {}"
    using x(3,4) p by (auto simp: taken_def)
  show "heap_inv (s\<lparr>pm := x\<rparr>)"
    using i x(1-3) page_bytes_mono [OF tk(1)] unfolding heap_inv_def by auto
  show dis: "page_bytes P \<inter> slob_bytes s = {}"
    using page_bytes_disjoint [OF tk(2)] i(6) by auto
  have "page_bytes (free_set (pm s)) = page_bytes (free_set (pm s) - P) \<union> page_bytes P"
    using p by (auto simp: page_bytes_def)
  moreover have "page_bytes (free_set (pm s) - P) \<inter> page_bytes P = {}"
    by (rule page_bytes_disjoint) auto
  ultimately show "heap_free (s\<lparr>pm := x\<rparr>) = heap_free s - page_bytes P" "page_bytes P \<subseteq> heap_free s"
    using dis by (auto simp: heap_free_def x(4))
qed

lemma page_for_heap:
  assumes inv: "heap_inv s" and p: "p \<in> free_set (pm s)" and x: "pmm_inv x" "npage x = npage (pm s)" "avail_set x = avail_set (pm s)" "free_set x = free_set (pm s) - {p}"
  obtains s' bs where "slob_free (kva p) PGSIZE (s\<lparr>pm := x\<rparr>) = Some s'" "same_pages (s\<lparr>pm := x\<rparr>) s'" "heap_inv s'" "heap_free s' = heap_free s"
    "ring s' bs" "\<exists>y \<in> set bs. 512 \<le> units_of s' y"
proof -
  let ?s = "s\<lparr>pm := x\<rparr>" and ?P = "{kva p..<kva p + 4096}"
  have "{p} \<subseteq> free_set (pm s)" "page_bytes {p} = ?P"
    using p by auto
  note t = heap_take_pages [OF inv this(1) x, unfolded this(2)]
  have "p \<in> avail_set (pm s)"
    using free_less(2) [OF heap_invD(1) [OF inv] p] .
  then have P: "?P \<subseteq> heap_avail ?s - heap_free ?s"
    using t(2) x(3) by (auto simp: heap_avail_def page_bytes_def)
  have pz: "PGSIZE \<noteq> 0"
    by (simp add: PGSIZE_def)
  obtain s' where s': "slob_free (kva p) PGSIZE ?s = Some s'" "same_pages ?s s'" "heap_inv s'" "heap_free s' = heap_free ?s \<union> ?P"
    using slob_free_ok [OF t(1), of 512 PGSIZE "kva p"] P pz by (auto simp: SLOB_UNITS_PGSIZE)
  obtain bs where r: "ring s' bs"
    using heap_invD(5) [OF s'(3)] by blast
  have "page_bytes (free_set (pm s) - {p}) \<inter> page_bytes {p} = {}"
    by (rule page_bytes_disjoint) auto
  then have "?P \<subseteq> slob_bytes s'"
    using s'(4) same_pagesD(1) [OF s'(2)] by (auto simp: heap_free_def x(4))
  then have "\<exists>y \<in> set bs. 512 \<le> units_of s' y"
    using run_in_free_block [OF r, of 512 "kva p"] by (simp add: SLOB_UNITS_PGSIZE)
  then show thesis
    using that s' r t(2,3) by (metis Un_Diff_cancel2 sup.absorb1)
qed

lemma slob_alloc_cases:
  assumes inv: "heap_inv s" and k: "k = SLOB_UNITS sz" "2 \<le> k" "k \<le> 512" and sz: "sz + of_nat SLOB_UNIT < PGSIZE"
  obtains (given) b s' x where "slob_alloc sz 0 s = Some (Some b, s')" "same_pages (s\<lparr>pm := x\<rparr>) s'" "heap_inv s'" "{b..<units_after b k} \<subseteq> heap_free s"
      "heap_free s' = heap_free s - {b..<units_after b k}" "units_of s' b = k" "avail_set x = avail_set (pm s)"
      "\<exists>p. free_set (pm s) - {p} \<subseteq> free_set x"
  | (none) "free_set (pm s) = {}" "\<forall>y \<in> slob_blocks s. units_of s y < k" "slob_alloc sz 0 s = None"
  | (null) x where "free_set (pm s) = {}" "\<forall>y \<in> slob_blocks s. units_of s y < k" "slob_alloc sz 0 s = Some (None, s\<lparr>pm := x\<rparr>)"
      "heap_inv (s\<lparr>pm := x\<rparr>)" "heap_free (s\<lparr>pm := x\<rparr>) = heap_free s" "avail_set x = avail_set (pm s)"
proof -
  obtain bs where r: "ring s bs"
    using heap_invD(5) [OF inv] by blast
  have kpos: "0 < k" and sp: "sz \<noteq> PGSIZE"
    using k(2) sz by (auto simp: PGSIZE_def SLOB_UNIT_def)
  have al: "slob_alloc sz 0 s = slob_search sz 0 (slobfree s) (next_of s (slobfree s)) s"
    using sz by (simp add: slob_alloc_def)
  consider (refill) "\<forall>y \<in> set bs. units_of s y < k" "slob_alloc sz 0 s = slob_refill sz s"
    | (found) p c where "slob_alloc sz 0 s = Some (Some c, slob_take k p c s)" "next_of s p = c" "c \<in> set bs" "k \<le> units_of s c" "p \<in> set (slob_arena s # bs)"
    using slob_search_ring [OF r, of sz] k al by auto
  then show thesis
  proof cases
    case found
    note f = slob_found [OF inv r found(2-5) kpos]
    show thesis
    proof (rule given [of c "slob_take k p c s" "pm s"])
      show "same_pages (s\<lparr>pm := pm s\<rparr>) (slob_take k p c s)"
        using slob_take_same(1) by simp
    qed (use found f in \<open>auto simp: heap_free_def\<close>)
  next
    case refill
    have no: "\<forall>y \<in> slob_blocks s. units_of s y < k"
      using refill(1) ring_blocks(1) [OF r] by simp
    from inv show thesis
    proof (cases rule: get_free_pages_cases [where order = 0])
      case none
      then show thesis
        using that(2) refill(2) no sp by (simp add: slob_refill_def)
    next
      case (null x)
      have "heap_inv (s\<lparr>pm := x\<rparr>)"
        using heap_invD [OF inv] null(3-6) unfolding heap_inv_def taken_def by auto
      then show thesis
        using that(3) [of x] null refill(2) no sp by (simp add: slob_refill_def heap_free_def)
    next
      case (page p x)
      have "{p..<p + 2 ^ 0} = {p}"
        by auto
      then have pf: "p \<in> free_set (pm s)" "free_set x = free_set (pm s) - {p}"
        using page(1,6) by auto
      obtain s1 bs1 where s1: "slob_free (kva p) PGSIZE (s\<lparr>pm := x\<rparr>) = Some s1" "same_pages (s\<lparr>pm := x\<rparr>) s1" "heap_inv s1" "heap_free s1 = heap_free s"
        "ring s1 bs1" "\<exists>y \<in> set bs1. 512 \<le> units_of s1 y"
        by (rule page_for_heap [OF inv pf(1) page(3-5) pf(2)])
      have "\<not> (\<forall>y \<in> set bs1. units_of s1 y < k)"
        using s1(6) k(3) by force
      then obtain q c where c: "slob_search sz 0 (slobfree s1) (next_of s1 (slobfree s1)) s1 = Some (Some c, slob_take k q c s1)"
        "next_of s1 q = c" "c \<in> set bs1" "k \<le> units_of s1 c" "q \<in> set (slob_arena s1 # bs1)"
        using slob_search_ring [OF s1(5), of sz] k by auto
      note f = slob_found [OF s1(3,5) c(2-5) kpos]
      have "slob_alloc sz 0 s = Some (Some c, slob_take k q c s1)"
        using refill(2) page(2) s1(1) c(1) sp by (simp add: slob_refill_def)
      moreover have "{c..<units_after c k} \<subseteq> heap_free s"
        using f(2) s1(4) by (auto simp: heap_free_def)
      ultimately show thesis
        using given [of c "slob_take k q c s1" x] f s1(4) same_pages_trans [OF s1(2) slob_take_same(1)] page(5) pf by auto
    qed
  qed
qed

section \<open>The heap as a block manager\<close>

text \<open>Sizes in whole units, of at least two units and below the size of a page.\<close>

definition slob_req :: "nat \<Rightarrow> bool" where
  "slob_req n \<longleftrightarrow> n mod SLOB_UNIT = 0 \<and> 2 * SLOB_UNIT \<le> n \<and> n + SLOB_UNIT < 4096"

lemma slob_req_units:
  assumes "slob_req n"
  shows "SLOB_UNITS (of_nat n) = int (n div 8)" "2 \<le> SLOB_UNITS (of_nat n)" "SLOB_UNITS (of_nat n) \<le> 512"
    "(of_nat n :: u32) + of_nat SLOB_UNIT < PGSIZE" "units_after b (SLOB_UNITS (of_nat n)) = b + n" "of_nat n \<noteq> (0 :: u32)"
proof -
  define m where "m = n div 8"
  have m: "n = 8 * m" "2 \<le> m" "m < 511"
  proof -
    have "n = 8 * m"
      using assms mult_div_mod_eq [of 8 n] by (simp only: slob_req_def SLOB_UNIT_def m_def)
    then show "n = 8 * m" "2 \<le> m" "m < 511"
      using assms by (simp_all add: slob_req_def SLOB_UNIT_def)
  qed
  have "(of_nat n :: u32) + of_nat SLOB_UNIT - 1 = of_nat (n + 7)"
    by (simp add: SLOB_UNIT_def)
  moreover have "uint (of_nat (n + 7) :: u32) = int (n + 7)"
    using m by (simp add: unsigned_of_nat take_bit_nat_eq_self del: of_nat_add)
  ultimately have "SLOB_UNITS (of_nat n) = int (n + 7) div 8"
    unfolding SLOB_UNITS_def by (simp only: uint_div) (simp add: SLOB_UNIT_def)
  then have "SLOB_UNITS (of_nat n) = int ((n + 7) div 8)"
    by (simp add: zdiv_int)
  then show u: "SLOB_UNITS (of_nat n) = int (n div 8)"
    using m(1) by simp
  show "2 \<le> SLOB_UNITS (of_nat n)" "SLOB_UNITS (of_nat n) \<le> 512" "units_after b (SLOB_UNITS (of_nat n)) = b + n"
    using m unfolding u units_after_def SLOB_UNIT_def by simp_all
  show "(of_nat n :: u32) + of_nat SLOB_UNIT < PGSIZE" "of_nat n \<noteq> (0 :: u32)"
    using m by (simp_all add: word_less_nat_alt unat_word_ariths unat_of_nat SLOB_UNIT_def PGSIZE_def word_unat_eq_iff)
qed

lemma heap_free_avail: "heap_inv s \<Longrightarrow> heap_free s \<subseteq> heap_avail s"
  using heap_invD(6) [of s] dpmm.free_avail [OF heap_invD(1), of s] page_bytes_mono [of "taken (pm s)" "avail_set (pm s)"]
    page_bytes_mono [of "free_set (pm s)" "avail_set (pm s)"]
  by (auto simp: heap_free_def heap_avail_def taken_def)

interpretation slob: block_manager slob_req heap_inv heap_free heap_avail
  "\<lambda>n. slob_alloc (of_nat n) 0" "\<lambda>b n. slob_free b (of_nat n)"
proof unfold_locales
  fix s :: heap and n b :: nat
  show "slob_req n \<Longrightarrow> 0 < n"
    by (auto simp: slob_req_def SLOB_UNIT_def)
  assume inv: "heap_inv s"
  then show "heap_free s \<subseteq> heap_avail s"
    by (rule heap_free_avail)
  assume n: "slob_req n"
  note u = slob_req_units [OF n]
  show "heap_inv s' \<and> heap_avail s' = heap_avail s \<and>
      (case r of None \<Rightarrow> heap_free s' = heap_free s
       | Some b \<Rightarrow> {b..<b + n} \<subseteq> heap_free s \<and> heap_free s' = heap_free s - {b..<b + n})"
    if "slob_alloc (of_nat n) 0 s = Some (r, s')" for r s'
    using inv refl u(2,3,4)
  proof (cases rule: slob_alloc_cases)
    case (given c s1 x)
    then show ?thesis
      using that same_pagesD(1) [OF given(2)] by (auto simp: u(5) heap_avail_def)
  next
    case none
    then show ?thesis
      using that by simp
  next
    case (null x)
    then show ?thesis
      using that by (auto simp: heap_avail_def)
  qed
  assume b: "{b..<b + n} \<subseteq> heap_avail s - heap_free s"
  have "0 < SLOB_UNITS (of_nat n)" "SLOB_UNITS (of_nat n) = (if of_nat n = (0 :: u32) then units_of s b else SLOB_UNITS (of_nat n))"
    using u(2,6) by simp_all
  then obtain s' where "slob_free b (of_nat n) s = Some s'" "same_pages s s'" "heap_inv s'" "heap_free s' = heap_free s \<union> {b..<b + n}"
    using slob_free_ok [OF inv, of "SLOB_UNITS (of_nat n)" "of_nat n" b, unfolded u(5)] b by blast
  then show "\<exists>s'. slob_free b (of_nat n) s = Some s' \<and> heap_inv s' \<and> heap_avail s' = heap_avail s \<and> heap_free s' = heap_free s \<union> {b..<b + n}"
    using same_pagesD(1) [of s s'] by (simp add: heap_avail_def)
qed

lemma slob_alloc_succeeds:
  assumes inv: "heap_inv s" and n: "slob_req n" and room: "free_set (pm s) \<noteq> {} \<or> (\<exists>a. {a..<a + n} \<subseteq> slob_bytes s)"
  shows "\<exists>b s'. slob_alloc (of_nat n) 0 s = Some (Some b, s')"
proof -
  note u = slob_req_units [OF n]
  have fit: "\<exists>y \<in> slob_blocks s. SLOB_UNITS (of_nat n) \<le> units_of s y" if "{a..<a + n} \<subseteq> slob_bytes s" for a
  proof -
    obtain bs where r: "ring s bs"
      using heap_invD(5) [OF inv] by blast
    show ?thesis
      using run_in_free_block [OF r, of "SLOB_UNITS (of_nat n)" a] that u(2) by (simp add: u(5) ring_blocks(1) [OF r])
  qed
  show ?thesis
    using inv refl u(2,3,4)
  proof (cases rule: slob_alloc_cases)
    case none
    then show ?thesis
      using room fit by force
  next
    case null
    then show ?thesis
      using room fit by force
  qed blast
qed

text \<open>
  C9. Whatever the order in which the kernel takes blocks of two units or more from the heap and gives them
  back, no two live blocks overlap, none overlaps memory that is free (in the heap or as a page), no byte is lost or
  invented, and giving back a live block always succeeds. As long as a page is free, or a run of free bytes of the heap is long
  enough, a request is served.
\<close>

theorem slob_client_safe:
  assumes run: "client_run slob_req (\<lambda>n. slob_alloc (of_nat n) 0) (\<lambda>b n. slob_free b (of_nat n)) s0 (s, held)"
    and inv: "heap_inv s0"
  shows "heap_inv s \<and> held_ok held \<and> held_set held \<inter> heap_free s = {} \<and> held_set held \<union> heap_free s = heap_free s0 \<and>
    (\<forall>(b, n) \<in> set held. \<exists>s'. slob_free b (of_nat n) s = Some s') \<and>
    (\<forall>n. slob_req n \<and> (free_set (pm s) \<noteq> {} \<or> (\<exists>a. {a..<a + n} \<subseteq> slob_bytes s)) \<longrightarrow>
       (\<exists>b s'. slob_alloc (of_nat n) 0 s = Some (Some b, s')))"
  using slob.client_inv [OF run inv] slob.client_free_ok [OF run inv] slob_alloc_succeeds [of s] by auto

section \<open>\<open>kmalloc\<close> and \<open>kfree\<close>\<close>

lemma heap_bb [simp]:
  "ring (s\<lparr>bigblocks := l\<rparr>) bs = ring s bs" "ring (s\<lparr>bb_order := f\<rparr>) bs = ring s bs" "ring (s\<lparr>bb_pages := g\<rparr>) bs = ring s bs"
  "slob_bytes (s\<lparr>bigblocks := l\<rparr>) = slob_bytes s" "slob_bytes (s\<lparr>bb_order := f\<rparr>) = slob_bytes s" "slob_bytes (s\<lparr>bb_pages := g\<rparr>) = slob_bytes s"
  by (simp_all add: ring_def slob_bytes_def slob_blocks_def blk_bytes_def)

lemma heap_inv_bb [simp]:
  "heap_inv (s\<lparr>bigblocks := l\<rparr>) = heap_inv s" "heap_inv (s\<lparr>bb_order := f\<rparr>) = heap_inv s" "heap_inv (s\<lparr>bb_pages := g\<rparr>) = heap_inv s"
  "heap_free (s\<lparr>bigblocks := l\<rparr>) = heap_free s" "heap_free (s\<lparr>bb_order := f\<rparr>) = heap_free s" "heap_free (s\<lparr>bb_pages := g\<rparr>) = heap_free s"
  "heap_avail (s\<lparr>bigblocks := l\<rparr>) = heap_avail s" "heap_avail (s\<lparr>bb_order := f\<rparr>) = heap_avail s" "heap_avail (s\<lparr>bb_pages := g\<rparr>) = heap_avail s"
  by (simp_all add: heap_inv_def heap_free_def heap_avail_def)

lemma small_units:
  assumes "0 < sz" "sz < 4080"
  shows "2 \<le> SLOB_UNITS (sz + of_nat SLOB_UNIT)" "SLOB_UNITS (sz + of_nat SLOB_UNIT) \<le> 512"
    "sz + of_nat SLOB_UNIT + of_nat SLOB_UNIT < PGSIZE" "m + 8 + unat sz \<le> units_after m (SLOB_UNITS (sz + of_nat SLOB_UNIT))"
proof -
  have z: "0 < unat sz" "unat sz < 4080"
    using assms by (simp_all add: word_less_nat_alt)
  have "unat (sz + of_nat SLOB_UNIT + of_nat SLOB_UNIT - 1) = unat sz + 15"
    using z by (simp add: SLOB_UNIT_def unat_word_ariths)
  from arg_cong [OF this, of int] have "uint (sz + of_nat SLOB_UNIT + of_nat SLOB_UNIT - 1) = int (unat sz + 15)"
    by simp
  then have "SLOB_UNITS (sz + of_nat SLOB_UNIT) = int (unat sz + 15) div 8"
    unfolding SLOB_UNITS_def by (simp only: uint_div) (simp add: SLOB_UNIT_def)
  then have "SLOB_UNITS (sz + of_nat SLOB_UNIT) = int ((unat sz + 15) div 8)"
    by (simp only: zdiv_int) simp
  then show "2 \<le> SLOB_UNITS (sz + of_nat SLOB_UNIT)" "SLOB_UNITS (sz + of_nat SLOB_UNIT) \<le> 512"
    "m + 8 + unat sz \<le> units_after m (SLOB_UNITS (sz + of_nat SLOB_UNIT))"
    using z by (simp_all add: units_after_def SLOB_UNIT_def)
  show "sz + of_nat SLOB_UNIT + of_nat SLOB_UNIT < PGSIZE"
    using z by (simp add: word_less_nat_alt unat_word_ariths SLOB_UNIT_def PGSIZE_def)
qed

text \<open>A big block is no small one: the addresses of big blocks are not free.\<close>

definition big_ok :: "heap \<Rightarrow> bool" where
  "big_ok s \<longleftrightarrow> (\<forall>bb \<in> set (bigblocks s). bb_pages s bb \<notin> heap_free s)"

lemma kmalloc_small:
  assumes inv: "heap_inv s" and big: "big_ok s" and sz: "0 < sz" "sz < 4080" and room: "free_set (pm s) \<noteq> {}"
  shows "\<exists>b s' s''. kmalloc sz s = Some (Some b, s') \<and> {b - SLOB_UNIT..<b + unat sz} \<subseteq> heap_free s - heap_free s' \<and>
    heap_inv s' \<and> kfree b s' = Some s'' \<and> heap_inv s'' \<and> heap_free s'' = heap_free s"
proof -
  let ?k = "SLOB_UNITS (sz + of_nat SLOB_UNIT)"
  note u = small_units [OF sz]
  have small: "sz < PGSIZE - of_nat SLOB_UNIT"
    using sz(2) by (simp add: PGSIZE_def SLOB_UNIT_def word_less_nat_alt)
  from inv refl u(1-3) obtain m s' x where a: "slob_alloc (sz + of_nat SLOB_UNIT) 0 s = Some (Some m, s')" "same_pages (s\<lparr>pm := x\<rparr>) s'" "heap_inv s'"
    "{m..<units_after m ?k} \<subseteq> heap_free s" "heap_free s' = heap_free s - {m..<units_after m ?k}" "units_of s' m = ?k" "avail_set x = avail_set (pm s)"
    by (cases rule: slob_alloc_cases) (use room in auto)
  let ?b = "m + SLOB_UNIT"
  have e: "?b + unat sz \<le> units_after m ?k" "0 < unat sz"
    using u(4) [of m] sz(1) by (simp_all add: SLOB_UNIT_def word_less_nat_alt)
  have "?b \<in> heap_free s"
    using a(4) e by auto
  then have nb: "find_bigblock ?b s' = None"
    using big same_pagesD(5,7) [OF a(2)] by (auto simp: find_bigblock_def big_ok_def find_None_iff)
  have av: "heap_avail s' = heap_avail s"
    using same_pagesD(1) [OF a(2)] a(7) by (simp add: heap_avail_def)
  have "{m..<units_after m ?k} \<subseteq> heap_avail s' - heap_free s'"
    using a(4,5) heap_free_avail [OF inv] av by auto
  then obtain s'' where "slob_free m 0 s' = Some s''" "heap_inv s''" "heap_free s'' = heap_free s' \<union> {m..<units_after m ?k}"
    using slob_free_ok [OF a(3), of ?k 0 m] a(6) u(1) by auto
  then have f: "kfree ?b s' = Some s''" "heap_inv s''" "heap_free s'' = heap_free s"
    using nb a(4,5) by (auto simp: kfree_def SLOB_UNIT_def)
  have "kmalloc sz s = Some (Some ?b, s')"
    using a(1) small by (simp add: kmalloc_def)
  moreover have "{?b - SLOB_UNIT..<?b + unat sz} \<subseteq> heap_free s - heap_free s'"
    using a(4,5) e by auto
  ultimately show ?thesis
    using f a(3) by blast
qed

text \<open>The size of the header is counted twice in the assertion of \<open>slob_alloc\<close>.\<close>

lemma kmalloc_panics:
  assumes "4080 \<le> sz" "sz < 4088"
  shows "kmalloc sz s = None"
proof -
  have z: "4080 \<le> unat sz" "unat sz < 4088"
    using assms by (simp_all add: word_less_nat_alt word_le_nat_alt)
  have "\<not> sz + of_nat SLOB_UNIT + of_nat SLOB_UNIT < PGSIZE" "sz < PGSIZE - of_nat SLOB_UNIT"
    using z by (simp_all add: word_less_nat_alt unat_word_ariths SLOB_UNIT_def PGSIZE_def)
  then show ?thesis
    by (simp add: kmalloc_def slob_alloc_def kassert_def)
qed

text \<open>Pages given back to the page allocator.\<close>

lemma free_pages_loop_npage: "free_pages_loop b n x = Some y \<Longrightarrow> npage y = npage x"
  by (induction n arbitrary: b x) (auto simp: bind_kassert upd_page_def split: if_splits)

lemma free_npage:
  assumes "default_free_pages b n x = Some y"
  shows "npage y = npage x"
proof -
  obtain x1 where l: "free_pages_loop b n x = Some x1"
    using assms by (auto simp: default_free_pages_def bind_eq_Some_conv)
  let ?x = "upd_page b (\<lambda>q. SetPageProperty (q\<lparr>pg_property := n\<rparr>)) x1"
  obtain pg b' ks where "free_merge (pages ?x) b (free_list ?x) = (pg, b', ks)"
    by (metis prod_cases3)
  then show ?thesis
    using assms l free_pages_loop_npage [OF l]
    by (auto simp: default_free_pages_def default_list_add_def bind_kassert bind_eq_Some_conv Let_def upd_page_def split: if_splits)
qed

lemma heap_free_pages:
  assumes inv: "heap_inv s" and p: "{p..<p + 2 ^ order} \<subseteq> taken (pm s)" and dis: "page_bytes {p..<p + 2 ^ order} \<inter> slob_bytes s = {}"
  obtains x where "slob_free_pages (kva p) order s = Some (s\<lparr>pm := x\<rparr>)" "heap_inv (s\<lparr>pm := x\<rparr>)"
    "heap_free (s\<lparr>pm := x\<rparr>) = heap_free s \<union> page_bytes {p..<p + 2 ^ order}" "avail_set x = avail_set (pm s)"
proof -
  note i = heap_invD [OF inv]
  let ?n = "2 ^ order :: nat"
  obtain x where x: "default_free_pages p ?n (pm s) = Some x" "pmm_inv x" "avail_set x = avail_set (pm s)" "free_set x = free_set (pm s) \<union> {p..<p + ?n}"
    using dpmm.free_ok [OF i(1), of ?n p] p by (auto simp: taken_def)
  have "p \<in> taken (pm s)"
    using p by auto
  then have "kva2page (kva p) s = Some p"
    using i(2) by (intro kva2page_kva) (auto simp: taken_def avail_set_def)
  then have f: "slob_free_pages (kva p) order s = Some (s\<lparr>pm := x\<rparr>)"
    using x(1) by (simp add: slob_free_pages_def free_pages_def)
  have "page_bytes (taken (pm s)) \<subseteq> page_bytes (taken x) \<union> page_bytes {p..<p + ?n}"
    using x(3,4) by (auto simp: page_bytes_def taken_def)
  then have "heap_inv (s\<lparr>pm := x\<rparr>)"
    using i x(2,3) dis free_npage [OF x(1)] unfolding heap_inv_def by auto
  moreover have "heap_free (s\<lparr>pm := x\<rparr>) = heap_free s \<union> page_bytes {p..<p + ?n}"
    by (auto simp: heap_free_def x(4) page_bytes_def)
  ultimately show thesis
    using that f x(3) by blast
qed

lemma page_bytes_run: "page_bytes {p..<p + n} = {kva p..<kva p + 4096 * n}"
proof (induction n)
  case (Suc n)
  have "{p..<p + Suc n} = insert (p + n) {p..<p + n}"
    by auto
  then have "page_bytes {p..<p + Suc n} = {kva (p + n)..<kva (p + n) + 4096} \<union> {kva p..<kva p + 4096 * n}"
    using Suc by simp
  also have "\<dots> = {kva p..<kva p + 4096 * Suc n}"
    by (auto simp: kva_def)
  finally show ?case .
qed simp

lemma bigblock_units: "SLOB_UNITS sizeof_bigblock = 2" "sizeof_bigblock + of_nat SLOB_UNIT < PGSIZE" "sizeof_bigblock \<noteq> 0"
  by (simp_all add: SLOB_UNITS_def sizeof_bigblock_def SLOB_UNIT_def PGSIZE_def)

lemma kva_aligned: "kva p mod unat PGSIZE = 0" "kva p \<noteq> 0"
  by (simp_all add: kva_def KERNBASE_def)

text \<open>Freeing a big block gives back its pages and its descriptor.\<close>

lemma kfree_big:
  assumes inv: "heap_inv s" and bb: "find_bigblock (kva p) s = Some bb" "bb_order s bb = order"
    and p: "page_bytes {p..<p + 2 ^ order} \<inter> heap_free s = {}" "{p..<p + 2 ^ order} \<subseteq> avail_set (pm s)"
    and b: "{bb..<units_after bb 2} \<subseteq> heap_avail s - heap_free s - page_bytes {p..<p + 2 ^ order}"
  shows "\<exists>s'. kfree (kva p) s = Some s' \<and> heap_inv s' \<and>
    heap_free s' = heap_free s \<union> page_bytes {p..<p + 2 ^ order} \<union> {bb..<units_after bb 2}"
proof -
  let ?s = "s\<lparr>bigblocks := remove1 bb (bigblocks s)\<rparr>" and ?P = "page_bytes {p..<p + 2 ^ order}"
  have tk: "{p..<p + 2 ^ order} \<subseteq> taken (pm ?s)"
  proof
    fix q assume q: "q \<in> {p..<p + 2 ^ order}"
    then have "kva q \<in> ?P"
      by (auto simp: page_bytes_def)
    moreover have "kva q \<in> page_bytes (free_set (pm s))" if "q \<in> free_set (pm s)"
      using that by (auto simp: page_bytes_def)
    ultimately have "q \<notin> free_set (pm s)"
      using p(1) by (auto simp: heap_free_def)
    then show "q \<in> taken (pm ?s)"
      using p(2) q by (auto simp: taken_def)
  qed
  obtain x where x: "slob_free_pages (kva p) order ?s = Some (?s\<lparr>pm := x\<rparr>)" "heap_inv (?s\<lparr>pm := x\<rparr>)"
    "heap_free (?s\<lparr>pm := x\<rparr>) = heap_free ?s \<union> ?P" "avail_set x = avail_set (pm ?s)"
    by (rule heap_free_pages [OF _ tk]) (use inv p(1) in \<open>auto simp: heap_free_def\<close>)
  have "{bb..<units_after bb 2} \<subseteq> heap_avail (?s\<lparr>pm := x\<rparr>) - heap_free (?s\<lparr>pm := x\<rparr>)"
    using b x(3,4) by (auto simp: heap_avail_def)
  then obtain s' where "slob_free bb sizeof_bigblock (?s\<lparr>pm := x\<rparr>) = Some s'" "heap_inv s'"
    "heap_free s' = heap_free (?s\<lparr>pm := x\<rparr>) \<union> {bb..<units_after bb 2}"
    using slob_free_ok [OF x(2), of 2 sizeof_bigblock bb] bigblock_units by auto
  then show ?thesis
    using bb x(1,3) kva_aligned(2) [of p] by (auto simp: kfree_def)
qed

lemma kmalloc_big:
  assumes inv: "heap_inv s" and sz: "4088 \<le> sz" and room: "2 \<le> card (free_set (pm s))"
  defines "n \<equiv> 4096 * 2 ^ find_order (sint sz) :: nat"
  shows "(\<exists>s'. kmalloc sz s = Some (None, s') \<and> heap_inv s' \<and> heap_free s' = heap_free s) \<or>
    (\<exists>b s' s''. kmalloc sz s = Some (Some b, s') \<and> {b..<b + n} \<subseteq> heap_free s - heap_free s' \<and> heap_inv s' \<and>
       kfree b s' = Some s'' \<and> heap_inv s'' \<and> heap_free s'' = heap_free s)"
proof -
  let ?o = "find_order (sint sz)"
  have big: "\<not> sz < PGSIZE - of_nat SLOB_UNIT"
    using sz by (simp add: PGSIZE_def SLOB_UNIT_def word_le_nat_alt word_less_nat_alt)
  have ne: "free_set (pm s) \<noteq> {}"
    using room by auto
  have u: "2 = SLOB_UNITS sizeof_bigblock" "(2 :: int) \<le> 2" "(2 :: int) \<le> 512"
    by (simp_all add: bigblock_units)
  from inv u bigblock_units(2) obtain bb s1 x where a: "slob_alloc sizeof_bigblock 0 s = Some (Some bb, s1)" "same_pages (s\<lparr>pm := x\<rparr>) s1" "heap_inv s1"
    "{bb..<units_after bb 2} \<subseteq> heap_free s" "heap_free s1 = heap_free s - {bb..<units_after bb 2}" "avail_set x = avail_set (pm s)"
    "\<exists>p. free_set (pm s) - {p} \<subseteq> free_set x"
    by (cases rule: slob_alloc_cases) (use ne in auto)
  have "free_set (pm s1) \<noteq> {}"
  proof
    assume "free_set (pm s1) = {}"
    then obtain p where "free_set (pm s) \<subseteq> {p}"
      using a(7) same_pagesD(1) [OF a(2)] by auto
    then have "card (free_set (pm s)) \<le> card {p}"
      by (rule card_mono [rotated]) simp
    then show False
      using room by simp
  qed
  moreover define s2 where "s2 = s1\<lparr>bb_order := (bb_order s1)(bb := ?o)\<rparr>"
  ultimately have s2: "heap_inv s2" "free_set (pm s2) \<noteq> {}" "heap_free s2 = heap_free s1" "heap_avail s2 = heap_avail s" "bb_order s2 bb = ?o"
    "{bb..<units_after bb 2} \<subseteq> heap_avail s2 - heap_free s2"
    using a(3-6) heap_free_avail [OF inv] same_pagesD(1) [OF a(2)] by (auto simp: heap_avail_def s2_def)
  have km: "kmalloc sz s = do { (page, s) \<leftarrow> slob_get_free_pages ?o s2;
      let s = s\<lparr>bb_pages := (bb_pages s)(bb := (case page of None \<Rightarrow> 0 | Some a \<Rightarrow> a))\<rparr>;
      if bb_pages s bb \<noteq> 0 then Some (page, s\<lparr>bigblocks := bb # bigblocks s\<rparr>)
      else do { s \<leftarrow> slob_free bb sizeof_bigblock s; Some (None, s) } }"
    using big a(1) by (simp add: kmalloc_def s2_def)
  from s2(1) show ?thesis
  proof (cases rule: get_free_pages_cases [where order = ?o])
    case none
    then show ?thesis
      using s2(2) by simp
  next
    case (null y)
    let ?s = "s2\<lparr>pm := y, bb_pages := (bb_pages s2)(bb := 0)\<rparr>"
    have t: "heap_inv ?s" "heap_free ?s = heap_free s2" "heap_avail ?s = heap_avail s2"
      using heap_take_pages(1,2) [OF s2(1), of "{}" y] null(3-6) by (simp_all add: heap_avail_def)
    obtain s' where "slob_free bb sizeof_bigblock ?s = Some s'" "heap_inv s'" "heap_free s' = heap_free ?s \<union> {bb..<units_after bb 2}"
      using slob_free_ok [OF t(1), of 2 sizeof_bigblock bb] bigblock_units s2(6) t(2,3) by auto
    then show ?thesis
      using km null(2) t(2) s2(3) a(4,5) by (intro disjI1 exI [of _ s']) auto
  next
    case (page p y)
    let ?s = "s2\<lparr>pm := y, bb_pages := (bb_pages s2)(bb := kva p), bigblocks := bb # bigblocks s2\<rparr>" and ?P = "page_bytes {p..<p + 2 ^ ?o}"
    note t = heap_take_pages [OF s2(1) page(1,3-6)]
    have t': "heap_inv ?s" "heap_free ?s = heap_free s2 - ?P" "heap_avail ?s = heap_avail s2"
      using t(1,2) page(5) by (simp_all add: heap_avail_def)
    have r: "kmalloc sz s = Some (Some (kva p), ?s)"
      using km page(2) kva_aligned(2) [of p] by simp
    have f: "find_bigblock (kva p) ?s = Some bb"
      using kva_aligned(1) [of p] by (simp add: find_bigblock_def)
    have P: "?P \<subseteq> heap_free s - heap_free ?s" "?P \<inter> {bb..<units_after bb 2} = {}"
      using t(3) t'(2) s2(3) a(5) by auto
    have B: "bb_order ?s bb = ?o" "?P \<inter> heap_free ?s = {}" "{p..<p + 2 ^ ?o} \<subseteq> avail_set (pm ?s)"
      "{bb..<units_after bb 2} \<subseteq> heap_avail ?s - heap_free ?s - ?P"
      using page(1,5) dpmm.free_avail [OF heap_invD(1) [OF s2(1)]] s2(5,6) t'(2,3) P by auto
    obtain s'' where "kfree (kva p) ?s = Some s''" "heap_inv s''" "heap_free s'' = heap_free ?s \<union> ?P \<union> {bb..<units_after bb 2}"
      using kfree_big [OF t'(1) f B] by blast
    moreover from this have "heap_free s'' = heap_free s"
      using t'(2) P a(4,5) s2(3) by auto
    ultimately show ?thesis
      using r P(1) t'(1) by (intro disjI2) (auto simp: page_bytes_run n_def)
  qed
qed

lemma find_order_bound: "sz div 2 ^ find_order sz \<le> 4096"
proof (induction sz rule: find_order.induct)
  case (1 sz)
  show ?case
  proof (cases "sz > 4096")
    case True
    have "sz div 2 ^ (find_order (sz div 2) + 1) = sz div 2 div 2 ^ find_order (sz div 2)"
      by (simp add: zdiv_zmult2_eq mult.commute)
    with 1 [OF True] True show ?thesis
      by (simp add: find_order.simps [of sz])
  qed (simp add: find_order.simps)
qed

text \<open>
  C10. \<open>kmalloc\<close> and \<open>kfree\<close>. With two free pages, a request of 1 to 4079 bytes is served by a block that was
  free, with its header in front of it, and is no longer free; \<open>kfree\<close> of the block restores exactly the free
  memory. A request of 4080 to 4087 bytes panics: \<open>slob_alloc\<close> adds the header again in its assertion. A larger
  request fails with the free memory unchanged, or gets a block of \<open>2 ^ find_order\<close> pages that was free, and
  \<open>kfree\<close> restores the free memory. That block is as large as the request, or falls short of it by less than one byte
  in every 4096.
\<close>

theorem kmalloc_kfree:
  assumes "heap_inv s" "big_ok s" "2 \<le> card (free_set (pm s))"
  defines "n sz \<equiv> 4096 * 2 ^ find_order (sint sz) :: nat"
  shows "(0 < sz \<and> sz < 4080 \<longrightarrow>
      (\<exists>b s' s''. kmalloc sz s = Some (Some b, s') \<and> {b - SLOB_UNIT..<b + unat sz} \<subseteq> heap_free s - heap_free s' \<and>
         heap_inv s' \<and> kfree b s' = Some s'' \<and> heap_inv s'' \<and> heap_free s'' = heap_free s)) \<and>
    (4080 \<le> sz \<and> sz < 4088 \<longrightarrow> kmalloc sz s = None) \<and>
    (4088 \<le> sz \<longrightarrow>
      (\<exists>s'. kmalloc sz s = Some (None, s') \<and> heap_inv s' \<and> heap_free s' = heap_free s) \<or>
      (\<exists>b s' s''. kmalloc sz s = Some (Some b, s') \<and> {b..<b + n sz} \<subseteq> heap_free s - heap_free s' \<and> heap_inv s' \<and>
         kfree b s' = Some s'' \<and> heap_inv s'' \<and> heap_free s'' = heap_free s)) \<and>
    sint sz < 4097 * 2 ^ find_order (sint sz)"
proof -
  let ?d = "2 ^ find_order (sint sz) :: int"
  have "?d * (sint sz div ?d) \<le> ?d * 4096"
    using find_order_bound [of "sint sz"] by (intro mult_left_mono) simp_all
  then have "sint sz < 4097 * ?d"
    using mult_div_mod_eq [of ?d "sint sz"] pos_mod_bound [of ?d "sint sz", OF zero_less_power [OF zero_less_numeral]] by linarith
  moreover have "free_set (pm s) \<noteq> {}"
    using assms(3) by auto
  ultimately show ?thesis
    unfolding n_def using kmalloc_small [OF assms(1,2), of sz] kmalloc_panics [of sz s] kmalloc_big [OF assms(1) _ assms(3), of sz]
    by (intro conjI impI) blast+
qed

text \<open>The smallest size for which the block is too short.\<close>

lemma kmalloc_too_short: "find_order 8193 = 1" "4096 * 2 ^ find_order 8193 < (8193 :: int)"
  by (simp_all add: find_order.simps)

text \<open>
  A request of no bytes asks for one unit, which the block \<open>arena\<close> itself has: on an empty heap both of two
  requests get the same block.
\<close>

lemma kmalloc_zero_twice:
  assumes "slobfree s = slob_arena s" "next_of s (slob_arena s) = slob_arena s" "units_of s (slob_arena s) = 1"
  shows "\<exists>s' s''. kmalloc 0 s = Some (Some (slob_arena s + SLOB_UNIT), s') \<and>
    kmalloc 0 s' = Some (Some (slob_arena s + SLOB_UNIT), s'')"
proof -
  have one: "SLOB_UNITS (0 + of_nat SLOB_UNIT) = 1"
    by (simp add: SLOB_UNITS_def SLOB_UNIT_def)
  have k: "kmalloc 0 t = Some (Some (slob_arena s + SLOB_UNIT), slob_take 1 (slob_arena s) (slob_arena s) t)"
    if "slobfree t = slob_arena s" "next_of t (slob_arena s) = slob_arena s" "units_of t (slob_arena s) = 1" for t
    using that one by (simp add: kmalloc_def slob_alloc_def slob_search_step [of _ "slob_arena s" "slob_arena s" t])
      (simp add: PGSIZE_def SLOB_UNIT_def)
  let ?t = "slob_take 1 (slob_arena s) (slob_arena s) s"
  have "slobfree ?t = slob_arena s" "next_of ?t (slob_arena s) = slob_arena s" "units_of ?t (slob_arena s) = 1"
    using assms by (simp_all add: slob_take_def Let_def set_next_def)
  then show ?thesis
    using k [OF assms] k [of ?t] by blast
qed

section \<open>Witnesses\<close>

text \<open>The machine of theory \<open>PageMap\<close> with an empty heap.\<close>

definition demo_heap :: heap where
  "demo_heap = \<lparr>vmas = vmas demo_pt, mms = mms demo_pt, pm = demo_pmm, km = demo_mem, cur_pgdir = None,
     tlb_entries = (\<lambda>_. (0, 0, 0)), tlb_algo_empty = (\<lambda>_. 0), tlb_algo_n = 0, tlb_algo_hi = (\<lambda>_. 0), tlb_algo_ptr = 0,
     swap_init_ok = True, check_mm_struct = None, pra_list = [], clean_block = 0, pgfault_num = 0, kanswers = [],
     slob_arena = 64, units_of = (\<lambda>_. 1), next_of = (\<lambda>_. 64), slobfree = 64,
     bigblocks = [], bb_order = (\<lambda>_. 0), bb_pages = (\<lambda>_. 0)\<rparr>"

lemma demo_heap_inv: "heap_inv demo_heap" "big_ok demo_heap" "free_set (pm demo_heap) = {6..<12}"
proof -
  have r: "ring demo_heap []"
    by (simp add: ring_def demo_heap_def)
  moreover have "pmm_inv demo_pmm" "npage demo_pmm \<le> user_pages"
    using pt_invD(1,2) [OF demo_pt_inv] by simp_all
  moreover have "\<forall>p. units_after 64 1 < kva p"
    by (simp add: units_after_def SLOB_UNIT_def kva_def KERNBASE_def)
  ultimately show "heap_inv demo_heap"
    using ring_blocks(2) [OF r] by (auto simp: heap_inv_def) (simp_all add: demo_heap_def)
  show "big_ok demo_heap" "free_set (pm demo_heap) = {6..<12}"
    by (simp_all add: big_ok_def demo_heap_def demo_sets)
qed

theorem slob_client_safe_witness:
  "\<exists>b s. slob_alloc 24 0 demo_heap = Some (Some b, s) \<and> heap_inv s \<and> {b..<b + 24} \<inter> heap_free s = {} \<and>
     {b..<b + 24} \<union> heap_free s = heap_free demo_heap \<and> (\<exists>s'. slob_free b 24 s = Some s')"
proof -
  let ?run = "client_run slob_req (\<lambda>n. slob_alloc (of_nat n) 0) (\<lambda>b n. slob_free b (of_nat n)) demo_heap"
  have n: "slob_req 24"
    by (simp add: slob_req_def SLOB_UNIT_def)
  have "?run (demo_heap, [])"
    by (rule client_run.start)
  moreover from slob_client_safe [OF this demo_heap_inv(1)] n demo_heap_inv(3)
  obtain b s where b: "slob_alloc (of_nat 24) 0 demo_heap = Some (Some b, s)"
    by fastforce
  ultimately have "?run (s, [(b, 24)])"
    using n by (metis client_run.alloc)
  from slob_client_safe [OF this demo_heap_inv(1)] b show ?thesis
    by (intro exI [of _ b] exI [of _ s]) simp
qed

theorem kmalloc_kfree_witness:
  "(\<exists>b s' s''. kmalloc 100 demo_heap = Some (Some b, s') \<and> kfree b s' = Some s'' \<and> heap_free s'' = heap_free demo_heap) \<and>
   kmalloc 4082 demo_heap = None"
proof -
  have c: "2 \<le> card (free_set (pm demo_heap))"
    by (simp add: demo_heap_inv)
  show ?thesis
    using kmalloc_kfree [OF demo_heap_inv(1,2) c, of 100] kmalloc_kfree [OF demo_heap_inv(1,2) c, of 4082] by auto
qed

end
