(* ===== verification/Console.thy ===== *)
theory Console
  imports Sync Vfs
begin

text \<open>
  Characters: the serial port and its buffer (\<^verbatim>\<open>kern/driver/console.c\<close>), the console functions of
  \<^verbatim>\<open>kern/libs/stdio.c\<close> and \<^verbatim>\<open>kern/libs/readline.c\<close>, the devices of standard input and output
  (\<^verbatim>\<open>kern/fs/devs/dev_stdin.c\<close>, \<^verbatim>\<open>kern/fs/devs/dev_stdout.c\<close>) and the handler of serial interrupts in
  \<^verbatim>\<open>kern/trap/trap.c\<close>.
\<close>

section \<open>Definitions: state\<close>

text \<open>
  \<open>serial_in\<close> is what the port will answer when it is polled: nothing (\<open>None\<close>) or a character; after the end
  of the list it answers nothing. \<open>serial_out\<close> is what was sent. A port that is not ready to send is waited for, which
  is not modelled.
\<close>

record console =
  serial_exists :: bool
  serial_in :: "u32 option list"
  serial_out :: "int list"
  cons_buf :: "u8 list"
  cons_rpos :: nat
  cons_wpos :: nat
  stdin_buffer :: "u8 list"
  p_rpos :: int
  p_wpos :: int

definition CONSBUFSIZE :: nat where "CONSBUFSIZE = 512"

definition STDIN_BUFSIZE :: nat where "STDIN_BUFSIZE = 4096"

section \<open>Definitions: serial port\<close>

definition serial_init :: "console \<Rightarrow> console" where
  "serial_init c = c\<lparr>serial_exists := True\<rparr>"

definition serial_putc_sub :: "int \<Rightarrow> console \<Rightarrow> console" where
  "serial_putc_sub x c = c\<lparr>serial_out := serial_out c @ [x]\<rparr>"

definition serial_putc :: "int \<Rightarrow> console \<Rightarrow> console" where
  "serial_putc x c =
     (if x \<noteq> 8 then serial_putc_sub x c else serial_putc_sub 8 (serial_putc_sub 32 (serial_putc_sub 8 c)))"

definition serial_proc_data :: "console \<Rightarrow> int \<times> console" where
  "serial_proc_data c =
     (case serial_in c of
        [] \<Rightarrow> (-1, c)
      | None # r \<Rightarrow> (-1, c\<lparr>serial_in := r\<rparr>)
      | Some w # r \<Rightarrow> (if sint w = 127 then 8 else sint w, c\<lparr>serial_in := r\<rparr>))"

definition cons_store :: "int \<Rightarrow> console \<Rightarrow> console" where
  "cons_store x c =
     (if x \<noteq> 0 then
        let c = c\<lparr>cons_buf := (cons_buf c)[cons_wpos c := word_of_int x], cons_wpos := cons_wpos c + 1\<rparr>
        in if cons_wpos c = CONSBUFSIZE then c\<lparr>cons_wpos := 0\<rparr> else c
      else c)"

function cons_intr :: "console \<Rightarrow> console" where
  "cons_intr c =
     (let (x, c') = serial_proc_data c in if x \<noteq> -1 then cons_intr (cons_store x c') else c')"
  by pat_completeness auto
termination
  by (relation "measure (\<lambda>c. length (serial_in c))")
    (auto simp: serial_proc_data_def cons_store_def Let_def split: list.splits option.splits if_splits)

declare cons_intr.simps [simp del]

definition serial_intr :: "console \<Rightarrow> console" where
  "serial_intr c = (if serial_exists c then cons_intr c else c)"

definition cons_init :: "console \<Rightarrow> console" where
  "cons_init c = serial_init c"

definition cons_putc :: "int \<Rightarrow> console \<Rightarrow> console" where
  "cons_putc x c = serial_putc x c"

definition cons_getc :: "console \<Rightarrow> int \<times> console" where
  "cons_getc c =
     (let c = serial_intr c
      in if cons_rpos c \<noteq> cons_wpos c then
           let x = uint (cons_buf c ! cons_rpos c); c = c\<lparr>cons_rpos := cons_rpos c + 1\<rparr>
           in (x, if cons_rpos c = CONSBUFSIZE then c\<lparr>cons_rpos := 0\<rparr> else c)
         else (0, c))"

section \<open>Definitions: console functions of the kernel\<close>

definition cputchar :: "int \<Rightarrow> console \<Rightarrow> console" where
  "cputchar x c = cons_putc x c"

partial_function (option) cputs_loop :: "mem \<Rightarrow> addr \<Rightarrow> nat \<Rightarrow> console \<Rightarrow> (nat \<times> console) option" where
  "cputs_loop m str cnt c =
     (if m str \<noteq> 0 then cputs_loop m (str + 1) (cnt + 1) (cons_putc (sint (m str)) c)
      else Some (cnt + 1, cons_putc 10 c))"

definition cputs :: "mem \<Rightarrow> addr \<Rightarrow> console \<Rightarrow> (nat \<times> console) option" where
  "cputs m str c = cputs_loop m str 0 c"

partial_function (option) getchar :: "console \<Rightarrow> (int \<times> console) option" where
  "getchar c = (let (x, c') = cons_getc c in if x = 0 then getchar c' else Some (x, c'))"

definition BUFSIZE :: nat where "BUFSIZE = 1024"

text \<open>The loop of \<open>readline\<close>; the line so far is the list, \<open>i\<close> is its length.\<close>

partial_function (option) readline_loop :: "u8 list \<Rightarrow> console \<Rightarrow> (u8 list \<times> console) option" where
  "readline_loop line c =
     do { (x, c) \<leftarrow> getchar c;
          if x \<ge> 32 \<and> length line < BUFSIZE - 1 then readline_loop (line @ [word_of_int x]) (cputchar x c)
          else if x = 8 \<and> line \<noteq> [] then readline_loop (butlast line) (cputchar x c)
          else if x = 10 \<or> x = 13 then Some (line, cputchar x c)
          else readline_loop line c }"

section \<open>Definitions: standard input\<close>

text \<open>
  The positions are signed words that are never reduced; the remainder of a negative one is no index of the
  buffer.
\<close>

definition stdin_slot :: "int \<Rightarrow> nat option" where
  "stdin_slot pos = (if 0 \<le> pos then Some (nat pos mod STDIN_BUFSIZE) else None)"

definition stdin_store :: "u8 \<Rightarrow> console \<Rightarrow> console option" where
  "stdin_store x c =
     do { i \<leftarrow> stdin_slot (p_wpos c);
          let c = c\<lparr>stdin_buffer := (stdin_buffer c)[i := x]\<rparr>;
          Some (if off_t (p_wpos c - p_rpos c) < int STDIN_BUFSIZE then c\<lparr>p_wpos := off_t (p_wpos c + 1)\<rparr> else c) }"


text \<open>
  \<open>dev_stdin_read\<close>: characters are taken as long as there are some. The result is the bytes stored, and whether
  the call returns (\<open>True\<close>) or waits for more (\<open>False\<close>). \<open>wait\<close> is the address of the \<open>wait_t\<close> on the stack.
\<close>

fun stdin_take :: "nat \<Rightarrow> console \<Rightarrow> (u8 list \<times> console) option" where
  "stdin_take 0 c = Some ([], c)"
| "stdin_take (Suc n) c =
     (if p_rpos c < p_wpos c then
        do { i \<leftarrow> stdin_slot (p_rpos c);
             (bs, c') \<leftarrow> stdin_take n (c\<lparr>p_rpos := off_t (p_rpos c + 1)\<rparr>);
             Some (stdin_buffer c ! i # bs, c') }
      else Some ([], c))"

definition dev_stdin_read :: "addr \<Rightarrow> addr \<Rightarrow> nat \<Rightarrow> console \<Rightarrow> 'a sync_scheme \<Rightarrow>
    ((u8 list \<times> bool) \<times> console \<times> 'a sync_scheme) option" where
  "dev_stdin_read q wait len c s =
     do { (bs, c) \<leftarrow> stdin_take len c;
          if length bs = len then Some ((bs, True), c, s)
          else do { s \<leftarrow> wait_current_set q wait WT_KBD s; Some ((bs, False), c, s) } }"

text \<open>After the switch: \<open>len\<close> is what is still asked for.\<close>

definition dev_stdin_read_resume :: "addr \<Rightarrow> addr \<Rightarrow> nat \<Rightarrow> console \<Rightarrow> 'a sync_scheme \<Rightarrow>
    ((u8 list \<times> bool) \<times> console \<times> 'a sync_scheme) option" where
  "dev_stdin_read_resume q wait len c s =
     do { s \<leftarrow> wait_current_del q wait s;
          if w_flags (waits s wait) = WT_KBD then dev_stdin_read q wait len c s else Some (([], True), c, s) }"

definition stdin_open :: "u32 \<Rightarrow> kerror + unit" where
  "stdin_open open_flags = (if open_flags \<noteq> O_RDONLY then Inl E_INVAL else Inr ())"

definition stdin_close :: "kerror + unit" where "stdin_close = Inr ()"

text \<open>The result of a read that returned the bytes \<open>bs\<close> is their number.\<close>

definition stdin_io_done :: "u8 list \<Rightarrow> iobuf \<Rightarrow> mem \<Rightarrow> int \<times> iobuf \<times> mem" where
  "stdin_io_done bs iob m =
     (int (length bs), if 0 < length bs then iob\<lparr>io_resid := io_resid iob - length bs\<rparr> else iob, store_bytes m (io_base iob) bs)"

definition stdin_ioctl :: "kerror + unit" where "stdin_ioctl = Inl E_INVAL"

definition stdin_device_init :: "addr \<Rightarrow> console \<Rightarrow> 'a sync_scheme \<Rightarrow> console \<times> 'a sync_scheme" where
  "stdin_device_init q c s = (c\<lparr>p_rpos := 0, p_wpos := 0\<rparr>, wait_queue_init q s)"

section \<open>Definitions: standard output\<close>

definition stdout_open :: "u32 \<Rightarrow> kerror + unit" where
  "stdout_open open_flags = (if open_flags \<noteq> O_WRONLY then Inl E_INVAL else Inr ())"

definition stdout_close :: "kerror + unit" where "stdout_close = Inr ()"

fun stdout_loop :: "mem \<Rightarrow> addr \<Rightarrow> nat \<Rightarrow> console \<Rightarrow> console" where
  "stdout_loop m data 0 c = c"
| "stdout_loop m data (Suc n) c = stdout_loop m (data + 1) n (cputchar (sint (m data)) c)"

definition stdout_io :: "bool \<Rightarrow> iobuf \<Rightarrow> mem \<Rightarrow> console \<Rightarrow> (kerror + unit) \<times> iobuf \<times> console" where
  "stdout_io wr iob m c =
     (if wr then (Inr (), iob\<lparr>io_resid := 0\<rparr>, stdout_loop m (io_base iob) (io_resid iob) c)
      else (Inl E_INVAL, iob, c))"

definition stdout_ioctl :: "kerror + unit" where "stdout_ioctl = Inl E_INVAL"

section \<open>Definitions: serial interrupts\<close>


section \<open>Definitions: what the buffers hold\<close>

definition stdin_inv :: "console \<Rightarrow> bool" where
  "stdin_inv c \<longleftrightarrow> 0 \<le> p_rpos c \<and> p_rpos c \<le> p_wpos c \<and> p_wpos c - p_rpos c \<le> int STDIN_BUFSIZE \<and>
     p_wpos c < 2 ^ 31 \<and> length (stdin_buffer c) = STDIN_BUFSIZE"

definition stdin_queue :: "console \<Rightarrow> u8 list" where
  "stdin_queue c = map (\<lambda>i. stdin_buffer c ! (i mod STDIN_BUFSIZE)) [nat (p_rpos c)..<nat (p_wpos c)]"

definition cons_inv :: "console \<Rightarrow> bool" where
  "cons_inv c \<longleftrightarrow> cons_rpos c < CONSBUFSIZE \<and> cons_wpos c < CONSBUFSIZE \<and> length (cons_buf c) = CONSBUFSIZE"

definition cons_count :: "console \<Rightarrow> nat" where
  "cons_count c = (cons_wpos c + CONSBUFSIZE - cons_rpos c) mod CONSBUFSIZE"

definition cons_queue :: "console \<Rightarrow> u8 list" where
  "cons_queue c = map (\<lambda>k. cons_buf c ! ((cons_rpos c + k) mod CONSBUFSIZE)) [0..<cons_count c]"

text \<open>The characters among the answers of the port; DEL becomes backspace.\<close>

fun arrived :: "u32 option list \<Rightarrow> u8 list" where
  "arrived [] = []"
| "arrived (None # r) = arrived r"
| "arrived (Some w # r) = (if w = 127 then 8 else ucast w) # arrived r"







definition plain_input :: "u32 option list \<Rightarrow> bool" where
  "plain_input ps \<longleftrightarrow> (\<forall>w. Some w \<in> set ps \<longrightarrow> 0 < w \<and> w < 256)"

section \<open>Standard input is a queue\<close>

lemma length_stdin_queue: "length (stdin_queue c) = nat (p_wpos c) - nat (p_rpos c)"
  by (simp add: stdin_queue_def)

lemma mod_window:
  assumes "r \<le> i" "i < w" "w < r + n" "(0 :: nat) < n"
  shows "i mod n \<noteq> w mod n"
proof
  assume "i mod n = w mod n"
  then have "n dvd w - i"
    using assms(2) by (metis less_imp_le_nat mod_eq_dvd_iff_nat)
  then show False
    using assms by (auto dest!: dvd_imp_le)
qed

lemma stdin_store_ok:
  assumes inv: "stdin_inv c" and room: "p_wpos c < 2 ^ 31 - 1"
  shows "\<exists>c'. stdin_store x c = Some c' \<and> stdin_inv c' \<and> cons_queue c' = cons_queue c \<and> serial_in c' = serial_in c \<and>
    p_rpos c' = p_rpos c \<and> p_wpos c' \<le> p_wpos c + 1 \<and> serial_exists c' = serial_exists c \<and> cons_inv c' = cons_inv c \<and>
    stdin_queue c' = (if length (stdin_queue c) < STDIN_BUFSIZE then stdin_queue c @ [x] else (stdin_queue c)[0 := x])"
proof -
  define r w where "r = nat (p_rpos c)" and "w = nat (p_wpos c)"
  have i: "p_rpos c = int r" "p_wpos c = int w" "r \<le> w" "w \<le> r + 4096" "w < 2 ^ 31 - 1" "length (stdin_buffer c) = 4096"
    using inv room by (auto simp: stdin_inv_def STDIN_BUFSIZE_def r_def w_def)
  let ?b = "(stdin_buffer c)[w mod 4096 := x]"
  have o: "off_t (int w - int r) = int w - int r" "off_t (int w + 1) = int w + 1"
    using i by (intro off_t_id; simp)+
  have cq: "cons_queue (c\<lparr>stdin_buffer := b\<rparr>) = cons_queue c" "cons_queue (c\<lparr>stdin_buffer := b, p_wpos := n\<rparr>) = cons_queue c" for b n
    by (simp_all add: cons_queue_def cons_count_def)
  show ?thesis
  proof (cases "w < r + 4096")
    case True
    let ?c = "c\<lparr>stdin_buffer := ?b, p_wpos := int w + 1\<rparr>"
    have "stdin_store x c = Some ?c"
      using True i o by (simp add: stdin_store_def stdin_slot_def STDIN_BUFSIZE_def)
    moreover have "stdin_inv ?c"
      using True i by (simp add: stdin_inv_def STDIN_BUFSIZE_def)
    moreover have "stdin_queue ?c = stdin_queue c @ [x]"
    proof -
      have "?b ! (k mod 4096) = stdin_buffer c ! (k mod 4096)" if "k \<in> set [r..<w]" for k
        using mod_window [of r k w 4096] that True by auto
      then have "map (\<lambda>k. ?b ! (k mod 4096)) [r..<w] = map (\<lambda>k. stdin_buffer c ! (k mod 4096)) [r..<w]"
        by (intro map_cong refl)
      then show ?thesis
        using i by (simp add: stdin_queue_def STDIN_BUFSIZE_def nat_add_distrib)
    qed
    ultimately show ?thesis
      using True i cq(2) by (auto simp: length_stdin_queue STDIN_BUFSIZE_def cons_inv_def)
  next
    case False
    then have w: "w = r + 4096"
      using i by simp
    let ?c = "c\<lparr>stdin_buffer := ?b\<rparr>"
    have "off_t (p_wpos c - p_rpos c) = 4096"
      unfolding i(1,2) o(1) using w by simp
    moreover have "stdin_slot (p_wpos c) = Some (w mod 4096)"
      unfolding i(2) by (simp add: stdin_slot_def STDIN_BUFSIZE_def)
    ultimately have "stdin_store x c = Some ?c"
      by (simp add: stdin_store_def STDIN_BUFSIZE_def)
    moreover have "stdin_inv ?c"
      using i w by (simp add: stdin_inv_def STDIN_BUFSIZE_def)
    moreover have "stdin_queue ?c = (stdin_queue c)[0 := x]"
    proof (rule nth_equalityI)
      fix k assume "k < length (stdin_queue ?c)"
      then have k: "k < 4096"
        using i w by (simp add: length_stdin_queue)
      have ne: "r mod 4096 \<noteq> (r + k) mod 4096" if "k \<noteq> 0"
        using that k by (intro mod_window [of r r]) auto
      have len: "length [r..<w] = 4096" "[r..<w] ! k = r + k" "w mod 4096 = r mod 4096"
        using w k by simp_all
      show "stdin_queue ?c ! k = (stdin_queue c)[0 := x] ! k"
      proof (cases "k = 0")
        case True
        then show ?thesis
          using i len by (simp add: stdin_queue_def STDIN_BUFSIZE_def)
      next
        case False
        then show ?thesis
          using i len k ne by (simp add: stdin_queue_def STDIN_BUFSIZE_def)
      qed
    qed (use i in \<open>simp add: length_stdin_queue\<close>)
    ultimately show ?thesis
      using w i cq(1) by (auto simp: length_stdin_queue STDIN_BUFSIZE_def cons_inv_def)
  qed
qed

lemma stdin_take_ok:
  assumes "stdin_inv c"
  shows "\<exists>c'. stdin_take n c = Some (take n (stdin_queue c), c') \<and> stdin_inv c' \<and> stdin_queue c' = drop n (stdin_queue c) \<and> p_wpos c' = p_wpos c"
  using assms
proof (induction n arbitrary: c)
  case (Suc n)
  define r w where "r = nat (p_rpos c)" and "w = nat (p_wpos c)"
  have i: "p_rpos c = int r" "p_wpos c = int w" "r \<le> w" "w \<le> r + 4096" "w < 2 ^ 31" "length (stdin_buffer c) = 4096"
    using Suc.prems by (auto simp: stdin_inv_def STDIN_BUFSIZE_def r_def w_def)
  show ?case
  proof (cases "r < w")
    case False
    then show ?thesis
      using i Suc.prems by (simp add: stdin_queue_def)
  next
    case True
    let ?c = "c\<lparr>p_rpos := int r + 1\<rparr>"
    have o: "off_t (int r + 1) = int r + 1"
      using off_t_id [of "int r + 1"] i True by simp
    have "stdin_inv ?c"
      using i True by (simp add: stdin_inv_def STDIN_BUFSIZE_def)
    from Suc.IH [OF this] obtain c' where c': "stdin_take n ?c = Some (take n (stdin_queue ?c), c')" "stdin_inv c'"
      "stdin_queue c' = drop n (stdin_queue ?c)" "p_wpos c' = p_wpos ?c"
      by blast
    have "stdin_queue c = stdin_buffer c ! (r mod 4096) # stdin_queue ?c"
      using i True by (simp add: stdin_queue_def STDIN_BUFSIZE_def upt_conv_Cons nat_add_distrib)
    then show ?thesis
      using c' i True o by (simp add: stdin_slot_def STDIN_BUFSIZE_def)
  qed
qed simp

section \<open>The buffer of the serial port is a queue\<close>

lemma cons_count_less: "cons_count c < CONSBUFSIZE"
  by (simp add: cons_count_def CONSBUFSIZE_def)













text \<open>What is waiting to be moved to standard input, and that there is room for it.\<close>

definition pending :: "console \<Rightarrow> nat" where
  "pending c = length (cons_queue c) + length (arrived (serial_in c))"

definition input_ok :: "console \<Rightarrow> bool" where
  "input_ok c \<longleftrightarrow> serial_exists c \<and> cons_inv c \<and> stdin_inv c \<and> plain_input (serial_in c) \<and> (\<forall>x \<in> set (cons_queue c). x \<noteq> 0) \<and>
     pending c < CONSBUFSIZE \<and> length (stdin_queue c) + pending c \<le> STDIN_BUFSIZE \<and> p_wpos c + int (pending c) < 2 ^ 31 - 1"




section \<open>Serial interrupts\<close>







section \<open>Properties\<close>

text \<open>
  C39. The ring buffer of standard input implements a bounded queue. As long as the write position, a C
  \<open>int\<close> that only grows, is below \<open>2 ^ 31 - 1\<close>, storing a character appends it when fewer
  than 4096 characters are waiting; when the buffer is full the oldest waiting character is overwritten. Taking
  characters returns the oldest ones, as many as were asked for and are there, and leaves the rest in order.
\<close>

theorem stdin_refines_queue:
  assumes "stdin_inv c"
  shows "(p_wpos c < 2 ^ 31 - 1 \<longrightarrow>
      (\<exists>c'. stdin_store x c = Some c' \<and> stdin_inv c' \<and>
         stdin_queue c' = (if length (stdin_queue c) < STDIN_BUFSIZE then stdin_queue c @ [x] else (stdin_queue c)[0 := x]))) \<and>
    (\<exists>c'. stdin_take n c = Some (take n (stdin_queue c), c') \<and> stdin_inv c' \<and> stdin_queue c' = drop n (stdin_queue c))"
  using stdin_store_ok [OF assms, of x] stdin_take_ok [OF assms, of n] by blast


text \<open>A console with two characters in the buffer of the port and two more on the line.\<close>

definition demo_console :: console where
  "demo_console = \<lparr>serial_exists = True, serial_in = [Some 99, Some 127, None, Some 100], serial_out = [],
     cons_buf = (replicate 512 0)[511 := 97, 0 := 98], cons_rpos = 511, cons_wpos = 1,
     stdin_buffer = replicate 4096 0, p_rpos = 4095, p_wpos = 4095\<rparr>"

lemma demo_console_ok: "input_ok demo_console" "stdin_queue demo_console = []" "cons_queue demo_console = [97, 98]"
proof -
  have "cons_count demo_console = 2"
    by (simp add: cons_count_def CONSBUFSIZE_def demo_console_def)
  moreover have "[0..<2] = [0, 1 :: nat]"
    by (simp add: numeral_2_eq_2)
  ultimately show q: "cons_queue demo_console = [97, 98]"
    by (simp add: cons_queue_def CONSBUFSIZE_def demo_console_def)
  show e: "stdin_queue demo_console = []"
    by (simp add: stdin_queue_def demo_console_def)
  show "input_ok demo_console"
    by (simp add: input_ok_def q e pending_def) (auto simp: demo_console_def cons_inv_def stdin_inv_def plain_input_def CONSBUFSIZE_def STDIN_BUFSIZE_def)
qed

theorem stdin_refines_queue_witness:
  "\<exists>c'. stdin_store 120 demo_console = Some c' \<and> stdin_queue c' = [120]"
  using stdin_refines_queue [of demo_console 120 0] demo_console_ok by (auto simp: input_ok_def pending_def STDIN_BUFSIZE_def)



end
