(* ===== verification/Philosophers.thy ===== *)
theory Philosophers
  imports Sync
begin

text \<open>
  \<open>kern/sync/check_sync.c\<close>, the solution of the dining philosophers with semaphores. Every philosopher is a kernel thread;
  \<open>phi_pc\<close> says where it stands in its program. A step of a philosopher is one statement, so that the runs considered here
  include those of a kernel that preempts its threads anywhere between two statements; a call that blocks is cut at
  \<open>schedule\<close>.

  The calls of \<open>down\<close> and \<open>up\<close> are those of \<open>Sync\<close>, on the scheduler of \<open>Sched\<close>. They are related to an abstract
  protocol in which a blocked philosopher is just one that is asleep; the invariants are proved for the protocol.
\<close>

section \<open>The program\<close>

datatype phi_state = THINKING | HUNGRY | EATING

datatype phi_at =
    Start \<comment> \<open>the test of the loop\<close>
  | Thinking | Take_wait | Take_in | Take_test | Take_out | Take_fork | Fork_wait \<comment> \<open>\<open>phi_take_forks_sema\<close>\<close>
  | Eating | Put_wait | Put_in | Put_left | Put_right | Put_out \<comment> \<open>\<open>phi_put_forks_sema\<close>\<close>
  | Quit

definition N :: nat where "N = 5"
definition TIMES :: nat where "TIMES = 4"
definition LEFT :: "nat \<Rightarrow> nat" where "LEFT i = (i + N - 1) mod N"
definition RIGHT :: "nat \<Rightarrow> nat" where "RIGHT i = (i + 1) mod N"

text \<open>
  The global variables. \<open>fork_sem\<close> gives the addresses of the semaphores \<open>s[i]\<close>, \<open>wnode i\<close> is the \<open>wait_t\<close> on the kernel stack of
  philosopher \<open>i\<close>, which is in at most one call of \<open>down\<close> at a time.
\<close>

record phils = sync +
  mutex :: addr
  fork_sem :: "nat \<Rightarrow> addr"
  wnode :: "nat \<Rightarrow> addr"
  state_sema :: "nat \<Rightarrow> phi_state"
  philosopher_proc_sema :: "nat \<Rightarrow> addr"
  phi_iter :: "nat \<Rightarrow> nat"
  phi_pc :: "nat \<Rightarrow> phi_at"

definition set_phi :: "nat \<Rightarrow> phi_state \<Rightarrow> phils \<Rightarrow> phils" where
  "set_phi i x s = s\<lparr>state_sema := (state_sema s)(i := x)\<rparr>"

definition goto :: "nat \<Rightarrow> phi_at \<Rightarrow> phils \<Rightarrow> phils" where
  "goto i c s = s\<lparr>phi_pc := (phi_pc s)(i := c)\<rparr>"

definition phi_test_sema :: "nat \<Rightarrow> phils \<Rightarrow> phils option" where
  "phi_test_sema i s =
     (if state_sema s i = HUNGRY \<and> state_sema s (LEFT i) \<noteq> EATING \<and> state_sema s (RIGHT i) \<noteq> EATING
      then up (fork_sem s i) (set_phi i EATING s) else Some s)"

definition phi_take_forks_sema :: "nat \<Rightarrow> phils \<Rightarrow> phils option" where
  "phi_take_forks_sema i s =
     (case phi_pc s i of
        Thinking \<Rightarrow> do { (got, s) \<leftarrow> down (mutex s) (wnode s i) s; Some (goto i (if got then Take_in else Take_wait) s) }
      | Take_wait \<Rightarrow> do { s \<leftarrow> down_resume (mutex s) (wnode s i) s; Some (goto i Take_in s) }
      | Take_in \<Rightarrow> Some (goto i Take_test (set_phi i HUNGRY s))
      | Take_test \<Rightarrow> do { s \<leftarrow> phi_test_sema i s; Some (goto i Take_out s) }
      | Take_out \<Rightarrow> do { s \<leftarrow> up (mutex s) s; Some (goto i Take_fork s) }
      | Take_fork \<Rightarrow> do { (got, s) \<leftarrow> down (fork_sem s i) (wnode s i) s; Some (goto i (if got then Eating else Fork_wait) s) }
      | Fork_wait \<Rightarrow> do { s \<leftarrow> down_resume (fork_sem s i) (wnode s i) s; Some (goto i Eating s) }
      | _ \<Rightarrow> None)"

definition phi_put_forks_sema :: "nat \<Rightarrow> phils \<Rightarrow> phils option" where
  "phi_put_forks_sema i s =
     (case phi_pc s i of
        Eating \<Rightarrow> do { (got, s) \<leftarrow> down (mutex s) (wnode s i) s; Some (goto i (if got then Put_in else Put_wait) s) }
      | Put_wait \<Rightarrow> do { s \<leftarrow> down_resume (mutex s) (wnode s i) s; Some (goto i Put_in s) }
      | Put_in \<Rightarrow> Some (goto i Put_left (set_phi i THINKING s))
      | Put_left \<Rightarrow> do { s \<leftarrow> phi_test_sema (LEFT i) s; Some (goto i Put_right s) }
      | Put_right \<Rightarrow> do { s \<leftarrow> phi_test_sema (RIGHT i) s; Some (goto i Put_out s) }
      | Put_out \<Rightarrow> do { s \<leftarrow> up (mutex s) s; Some (goto i Start s) }
      | _ \<Rightarrow> None)"

definition philosopher_using_semaphore :: "nat \<Rightarrow> phils \<Rightarrow> phils option" where
  "philosopher_using_semaphore i s =
     (case phi_pc s i of
        Start \<Rightarrow>
          Some (goto i (if phi_iter s i < TIMES then Thinking else Quit)
            (s\<lparr>phi_iter := (phi_iter s)(i := phi_iter s i + 1)\<rparr>))
      | Quit \<Rightarrow> None
      | c \<Rightarrow> if c \<in> {Thinking, Take_wait, Take_in, Take_test, Take_out, Take_fork, Fork_wait}
             then phi_take_forks_sema i s else phi_put_forks_sema i s)"

text \<open>The part of \<open>check_sync\<close> that sets the semaphores up; the threads are there already.\<close>

definition check_sync_sema :: "phils \<Rightarrow> phils" where
  "check_sync_sema s = fold (\<lambda>i s. sem_init (fork_sem s i) 0 s) [0..<N] (sem_init (mutex s) 1 s)"

text \<open>
  The rest of the kernel: the sleeping of philosophers in \<open>do_sleep\<close>, timers, other processes and switches between processes. It
  keeps the philosophers' variables and semaphores and does not wake a philosopher that waits for a semaphore.
\<close>

definition phi_env :: "phils \<Rightarrow> phils \<Rightarrow> bool" where
  "phi_env s s' \<longleftrightarrow> sched_inv s' \<and> idleproc s' = idleproc s \<and> sync.more s' = sync.more s \<and>
     (\<forall>sem \<in> insert (mutex s) (fork_sem s ` {..<N}).
        sem_value s' sem = sem_value s sem \<and> wqs s' (sem_wq sem) = wqs s (sem_wq sem) \<and>
        (\<forall>w \<in> set (wqs s (sem_wq sem)). run_state s' (w_proc (waits s w)) = run_state s (w_proc (waits s w)))) \<and>
     (\<forall>i < N. waits s' (wnode s i) = waits s (wnode s i))"

inductive phi_run :: "phils \<Rightarrow> phils \<Rightarrow> bool" for s0 where
  start: "phi_run s0 s0"
| move: "phi_run s0 s \<Longrightarrow> i < N \<Longrightarrow> current s = philosopher_proc_sema s i \<Longrightarrow>
    p_state (procs s (current s)) = PROC_RUNNABLE \<Longrightarrow> philosopher_using_semaphore i s = Some s' \<Longrightarrow> phi_run s0 s'"
| env: "phi_run s0 s \<Longrightarrow> phi_env s s' \<Longrightarrow> phi_run s0 s'"

section \<open>The protocol\<close>

text \<open>
  What matters of a state: the units of the lock and of the semaphores, who is asleep, where everyone stands and what the array
  says. A unit given back goes to some sleeper, if there is one.
\<close>

record dining =
  lock :: int
  tok :: "nat \<Rightarrow> int"
  asleep :: "nat \<Rightarrow> bool"
  pos :: "nat \<Rightarrow> phi_at"
  st :: "nat \<Rightarrow> phi_state"

definition lock_wait :: "phi_at set" where "lock_wait = {Take_wait, Put_wait}"
definition critical :: "phi_at set" where
  "critical = {Take_in, Take_test, Take_out, Put_in, Put_left, Put_right, Put_out}"

definition dgoto :: "nat \<Rightarrow> phi_at \<Rightarrow> dining \<Rightarrow> dining" where
  "dgoto i c d = d\<lparr>pos := (pos d)(i := c)\<rparr>"

definition dset :: "nat \<Rightarrow> phi_state \<Rightarrow> dining \<Rightarrow> dining" where
  "dset i x d = d\<lparr>st := (st d)(i := x)\<rparr>"

definition wake :: "nat \<Rightarrow> dining \<Rightarrow> dining" where
  "wake i d = d\<lparr>asleep := (asleep d)(i := False)\<rparr>"

definition give :: "nat \<Rightarrow> dining \<Rightarrow> dining" where
  "give i d = (if pos d i = Fork_wait \<and> asleep d i then wake i d else d\<lparr>tok := (tok d)(i := tok d i + 1)\<rparr>)"

definition unlocks :: "dining \<Rightarrow> dining \<Rightarrow> bool" where
  "unlocks d d' \<longleftrightarrow>
     (if \<exists>j < N. pos d j \<in> lock_wait \<and> asleep d j then \<exists>j < N. pos d j \<in> lock_wait \<and> asleep d j \<and> d' = wake j d
      else d' = d\<lparr>lock := lock d + 1\<rparr>)"

definition dtest :: "nat \<Rightarrow> dining \<Rightarrow> dining" where
  "dtest i d = (if st d i = HUNGRY \<and> st d (LEFT i) \<noteq> EATING \<and> st d (RIGHT i) \<noteq> EATING then give i (dset i EATING d) else d)"

definition dlock :: "nat \<Rightarrow> phi_at \<Rightarrow> phi_at \<Rightarrow> dining \<Rightarrow> dining" where
  "dlock i c w d = (if 0 < lock d then dgoto i c (d\<lparr>lock := lock d - 1\<rparr>)
     else dgoto i w (d\<lparr>asleep := (asleep d)(i := True)\<rparr>))"

definition dfork :: "nat \<Rightarrow> dining \<Rightarrow> dining" where
  "dfork i d = (if 0 < tok d i then dgoto i Eating (d\<lparr>tok := (tok d)(i := tok d i - 1)\<rparr>)
     else dgoto i Fork_wait (d\<lparr>asleep := (asleep d)(i := True)\<rparr>))"

definition dine :: "nat \<Rightarrow> dining \<Rightarrow> dining \<Rightarrow> bool" where
  "dine i d d' \<longleftrightarrow> \<not> asleep d i \<and>
     (case pos d i of
        Start \<Rightarrow> d' = dgoto i Thinking d \<or> d' = dgoto i Quit d
      | Thinking \<Rightarrow> d' = dlock i Take_in Take_wait d
      | Take_wait \<Rightarrow> d' = dgoto i Take_in d
      | Take_in \<Rightarrow> d' = dgoto i Take_test (dset i HUNGRY d)
      | Take_test \<Rightarrow> d' = dgoto i Take_out (dtest i d)
      | Take_out \<Rightarrow> \<exists>e. unlocks d e \<and> d' = dgoto i Take_fork e
      | Take_fork \<Rightarrow> d' = dfork i d
      | Fork_wait \<Rightarrow> d' = dgoto i Eating d
      | Eating \<Rightarrow> d' = dlock i Put_in Put_wait d
      | Put_wait \<Rightarrow> d' = dgoto i Put_in d
      | Put_in \<Rightarrow> d' = dgoto i Put_left (dset i THINKING d)
      | Put_left \<Rightarrow> d' = dgoto i Put_right (dtest (LEFT i) d)
      | Put_right \<Rightarrow> d' = dgoto i Put_out (dtest (RIGHT i) d)
      | Put_out \<Rightarrow> \<exists>e. unlocks d e \<and> d' = dgoto i Start e
      | Quit \<Rightarrow> False)"

definition has_lock :: "dining \<Rightarrow> nat \<Rightarrow> bool" where
  "has_lock d i \<longleftrightarrow> pos d i \<in> critical \<or> pos d i \<in> lock_wait \<and> \<not> asleep d i"

text \<open>
  What a philosopher at a given place can be like. A unit of \<open>s[i]\<close> exists, is on its way to philosopher \<open>i\<close> or is with it, exactly while
  the array says \<open>EATING\<close>.
\<close>

definition seat :: "int \<Rightarrow> bool \<Rightarrow> phi_at \<Rightarrow> phi_state \<Rightarrow> bool" where
  "seat t a p x =
     (case p of
        Take_wait \<Rightarrow> t = 0 \<and> x = THINKING
      | Take_test \<Rightarrow> t = 0 \<and> \<not> a \<and> x = HUNGRY
      | Take_out \<Rightarrow> \<not> a \<and> (t = 0 \<and> x = HUNGRY \<or> t = 1 \<and> x = EATING)
      | Take_fork \<Rightarrow> \<not> a \<and> (t = 0 \<and> x = HUNGRY \<or> t = 1 \<and> x = EATING)
      | Fork_wait \<Rightarrow> t = 0 \<and> x = (if a then HUNGRY else EATING)
      | Eating \<Rightarrow> t = 0 \<and> \<not> a \<and> x = EATING
      | Put_wait \<Rightarrow> t = 0 \<and> x = EATING
      | Put_in \<Rightarrow> t = 0 \<and> \<not> a \<and> x = EATING
      | _ \<Rightarrow> t = 0 \<and> \<not> a \<and> x = THINKING)"

text \<open>Someone is about to test philosopher \<open>i\<close>.\<close>

definition test_due :: "dining \<Rightarrow> nat \<Rightarrow> bool" where
  "test_due d i \<longleftrightarrow> pos d i = Take_test \<or> pos d (RIGHT i) = Put_left \<or> pos d (LEFT i) \<in> {Put_left, Put_right}"

definition lock_inv :: "dining \<Rightarrow> bool" where
  "lock_inv d \<longleftrightarrow> (\<forall>i < N. \<forall>j < N. has_lock d i \<longrightarrow> has_lock d j \<longrightarrow> i = j) \<and>
     lock d = (if \<exists>i < N. has_lock d i then 0 else 1)"

definition fork_inv :: "dining \<Rightarrow> nat \<Rightarrow> bool" where
  "fork_inv d i \<longleftrightarrow> seat (tok d i) (asleep d i) (pos d i) (st d i) \<and>
     (st d i = EATING \<longrightarrow> st d (RIGHT i) \<noteq> EATING) \<and>
     (st d i = HUNGRY \<longrightarrow> test_due d i \<or> st d (LEFT i) = EATING \<or> st d (RIGHT i) = EATING)"

definition dining_inv :: "dining \<Rightarrow> bool" where
  "dining_inv d \<longleftrightarrow> lock_inv d \<and> (\<forall>i < N. fork_inv d i)"

section \<open>The program implements the protocol\<close>

definition mutex_q :: "phils \<Rightarrow> addr list" where "mutex_q s = wqs s (sem_wq (mutex s))"
definition fork_q :: "phils \<Rightarrow> nat \<Rightarrow> addr list" where "fork_q s i = wqs s (sem_wq (fork_sem s i))"

definition phi_abs :: "phils \<Rightarrow> dining" where
  "phi_abs s = \<lparr>lock = sem_value s (mutex s), tok = (\<lambda>i. if i < N then sem_value s (fork_sem s i) else 0),
     asleep = (\<lambda>i. i < N \<and> (wnode s i \<in> set (mutex_q s) \<or> wnode s i \<in> set (fork_q s i))),
     pos = phi_pc s, st = state_sema s\<rparr>"

definition phi_static :: "phils \<Rightarrow> bool" where
  "phi_static s \<longleftrightarrow> inj_on (wnode s) {..<N} \<and> inj_on (fork_sem s) {..<N} \<and> (\<forall>i < N. fork_sem s i \<noteq> mutex s) \<and>
     inj_on (philosopher_proc_sema s) {..<N} \<and>
     (\<forall>i < N. philosopher_proc_sema s i \<noteq> 0 \<and> philosopher_proc_sema s i \<noteq> idleproc s)"

definition waiting :: "phi_at set" where "waiting = insert Fork_wait lock_wait"

definition phi_inv :: "phils \<Rightarrow> bool" where
  "phi_inv s \<longleftrightarrow> sched_inv s \<and> phi_static s \<and> sem_inv (mutex s) WT_KSEM s \<and>
     (\<forall>i < N. sem_inv (fork_sem s i) WT_KSEM s) \<and>
     (\<forall>w \<in> set (mutex_q s). \<exists>i < N. w = wnode s i \<and> phi_pc s i \<in> lock_wait) \<and>
     (\<forall>i < N. \<forall>w \<in> set (fork_q s i). w = wnode s i \<and> phi_pc s i = Fork_wait) \<and>
     (\<forall>i < N. phi_pc s i \<in> waiting \<longrightarrow> w_proc (waits s (wnode s i)) = philosopher_proc_sema s i \<and>
        (asleep (phi_abs s) i \<or> \<not> w_linked (waits s (wnode s i)) \<and> w_flags (waits s (wnode s i)) = WT_KSEM))"

text \<open>The threads have been created: the processes are there, nobody has moved.\<close>

definition phi_ready :: "phils \<Rightarrow> bool" where
  "phi_ready s \<longleftrightarrow> sched_inv s \<and> phi_static s \<and> (\<forall>i < N. phi_pc s i = Start \<and> state_sema s i = THINKING \<and> phi_iter s i = 0)"

text \<open>
  Five threads at the addresses 10 to 14, the idle process at 1; the first thread runs, the others sleep in \<open>do_sleep\<close>. The
  mutex is at 100, the semaphores \<open>s[i]\<close> at 200 to 248.
\<close>

definition phi_demo :: phils where
  "phi_demo =
     \<lparr>procs = (\<lambda>p. if p = 1 \<or> p = 10 then blank_proc\<lparr>p_state := PROC_RUNNABLE\<rparr>
         else blank_proc\<lparr>p_state := PROC_SLEEPING, p_wait_state := WT_TIMER\<rparr>),
      current = 10, idleproc = 1, run_list = [], proc_num = 0, max_time_slice = 20,
      timer_list = [], timers = (\<lambda>_. \<lparr>t_expires = 0, t_proc = 0\<rparr>), cpu_ksp = 0, cur_pgdir = 0,
      waits = (\<lambda>_. \<lparr>w_proc = 0, w_flags = 0, w_queue = 0, w_linked = False\<rparr>), wqs = (\<lambda>_. []), sem_value = (\<lambda>_. 0),
      mutex = 100, fork_sem = (\<lambda>i. 200 + 12 * i), wnode = (\<lambda>i. 1000 * (i + 1)), state_sema = (\<lambda>_. THINKING),
      philosopher_proc_sema = (\<lambda>i. 10 + i), phi_iter = (\<lambda>_. 0), phi_pc = (\<lambda>_. Start)\<rparr>"

section \<open>Neighbours\<close>

lemma less_N: "i < N \<longleftrightarrow> i = 0 \<or> i = 1 \<or> i = 2 \<or> i = 3 \<or> i = 4"
  by (auto simp: N_def)

lemma neighbours [simp]:
  assumes "i < N"
  shows "LEFT i < N" "RIGHT i < N" "LEFT (RIGHT i) = i" "RIGHT (LEFT i) = i" "LEFT i \<noteq> i" "RIGHT i \<noteq> i"
    "LEFT i \<noteq> RIGHT i" "RIGHT i \<noteq> LEFT i" "i \<noteq> LEFT i" "i \<noteq> RIGHT i"
  using assms unfolding less_N by (elim disjE; simp add: LEFT_def RIGHT_def N_def)+

lemma neighbour_eq:
  "i < N \<Longrightarrow> j < N \<Longrightarrow> LEFT i = j \<longleftrightarrow> i = RIGHT j"
  "i < N \<Longrightarrow> j < N \<Longrightarrow> RIGHT i = j \<longleftrightarrow> i = LEFT j"
  by auto


section \<open>Invariants of the protocol\<close>

lemmas dine_defs = dgoto_def dset_def wake_def give_def dlock_def dfork_def dtest_def
lemmas place_defs = critical_def lock_wait_def

lemma lock_inv_cong:
  "lock_inv d \<Longrightarrow> lock d' = lock d \<Longrightarrow> (\<And>i. i < N \<Longrightarrow> has_lock d' i = has_lock d i) \<Longrightarrow> lock_inv d'"
  by (simp add: lock_inv_def cong: conj_cong)

lemma lock_inv_take:
  "lock_inv d \<Longrightarrow> 0 < lock d \<Longrightarrow> i < N \<Longrightarrow> lock d' = lock d - 1 \<Longrightarrow>
    (\<And>j. j < N \<Longrightarrow> has_lock d' j = (j = i \<or> has_lock d j)) \<Longrightarrow> lock_inv d'"
  by (auto simp: lock_inv_def split: if_splits)

lemma lock_inv_pass:
  "lock_inv d \<Longrightarrow> i < N \<Longrightarrow> j < N \<Longrightarrow> has_lock d i \<Longrightarrow> lock d' = lock d \<Longrightarrow>
    (\<And>k. k < N \<Longrightarrow> has_lock d' k = (k = j)) \<Longrightarrow> lock_inv d'"
  by (auto simp: lock_inv_def split: if_splits)

lemma lock_inv_free:
  "lock_inv d \<Longrightarrow> i < N \<Longrightarrow> has_lock d i \<Longrightarrow> lock d' = lock d + 1 \<Longrightarrow>
    (\<And>k. k < N \<Longrightarrow> \<not> has_lock d' k) \<Longrightarrow> lock_inv d'"
  by (auto simp: lock_inv_def split: if_splits)

lemma dtest_frame [simp]: "lock (dtest j d) = lock d" "pos (dtest j d) = pos d"
  by (simp_all add: dine_defs)

lemma dtest_asleep: "asleep (dtest j d) i \<longleftrightarrow> asleep d i \<and> \<not> (i = j \<and> pos d j = Fork_wait \<and> st d j = HUNGRY \<and>
    st d (LEFT j) \<noteq> EATING \<and> st d (RIGHT j) \<noteq> EATING)"
  by (auto simp: dine_defs)

lemma lock_inv_step:
  assumes inv: "dining_inv d" and k: "k < N" and step: "dine k d d'"
  shows "lock_inv d'"
proof -
  have L: "lock_inv d" using inv by (simp add: dining_inv_def)
  have unl: "lock_inv (dgoto k c e)" if "unlocks d e" "pos d k \<in> critical" "c \<notin> critical" "c \<notin> lock_wait" for c e
  proof -
    have hk: "has_lock d k" using that(2) by (simp add: has_lock_def)
    then have only: "\<not> has_lock d j" if "j < N" "j \<noteq> k" for j
      using L k that by (auto simp: lock_inv_def)
    show ?thesis
    proof (cases "\<exists>j < N. pos d j \<in> lock_wait \<and> asleep d j")
      case True
      with that(1) obtain j where j: "j < N" "pos d j \<in> lock_wait" "asleep d j" "e = wake j d"
        by (auto simp: unlocks_def)
      have "j \<noteq> k" using j that(2) by (auto simp: place_defs)
      then show ?thesis
        using j that(3,4) only by (intro lock_inv_pass [OF L k j(1) hk]) (auto simp: has_lock_def dgoto_def wake_def)
    next
      case False
      with that(1) have "e = d\<lparr>lock := lock d + 1\<rparr>"
        by (simp add: unlocks_def)
      then show ?thesis
        using that(3,4) only by (intro lock_inv_free [OF L k hk]) (auto simp: has_lock_def dgoto_def)
    qed
  qed
  have lk: "lock_inv (dlock k c w d)" if "pos d k \<notin> critical" "c \<in> critical" "w \<in> lock_wait" "pos d k \<notin> lock_wait" for c w
  proof (cases "0 < lock d")
    case True
    with that show ?thesis
      by (intro lock_inv_take [OF L True k]) (auto simp: has_lock_def dine_defs)
  next
    case False
    with that show ?thesis
      by (intro lock_inv_cong [OF L]) (auto simp: has_lock_def dine_defs place_defs)
  qed
  have mv: "lock_inv (dgoto k c e)" if "lock e = lock d" "pos e = pos d" "\<And>j. pos d j \<in> lock_wait \<Longrightarrow> asleep e j = asleep d j"
    "has_lock d k \<longleftrightarrow> c \<in> critical" "c \<notin> lock_wait" for c e
    using that by (intro lock_inv_cong [OF L]) (auto simp: has_lock_def dgoto_def)
  have "\<not> asleep d k" using step by (simp add: dine_def)
  show ?thesis
  proof (cases "pos d k \<in> {Take_out, Put_out}")
    case True
    with step show ?thesis
      by (auto simp: dine_def place_defs intro!: unl)
  next
    case False
    with step \<open>\<not> asleep d k\<close> show ?thesis
      by (cases "pos d k") (auto simp: dine_def place_defs has_lock_def dset_def dtest_asleep dfork_def
        intro!: lk mv split: if_splits)
  qed
qed

abbreviation seat_ok :: "dining \<Rightarrow> nat \<Rightarrow> bool" where
  "seat_ok d i \<equiv> seat (tok d i) (asleep d i) (pos d i) (st d i)"

lemma dtest_st: "st (dtest j d) = (if st d j = HUNGRY \<and> st d (LEFT j) \<noteq> EATING \<and> st d (RIGHT j) \<noteq> EATING
    then (st d)(j := EATING) else st d)"
  by (simp add: dine_defs)

lemma dtest_seat:
  assumes "seat_ok d i" "pos d j \<noteq> Take_test"
  shows "seat_ok (dtest j d) i"
  using assms by (cases "i = j"; cases "pos d i") (auto simp: dine_defs seat_def split: if_splits)

lemma dtest_self:
  assumes "seat_ok d i" "pos d i = Take_test"
  shows "seat_ok (dgoto i Take_out (dtest i d)) i"
  using assms by (simp add: dine_defs seat_def)

lemma unlocks_frame:
  assumes "unlocks d e"
  shows "tok e = tok d" "pos e = pos d" "st e = st d" "pos d i \<notin> lock_wait \<Longrightarrow> asleep e i = asleep d i"
  using assms by (auto simp: unlocks_def wake_def split: if_splits)

lemma unlocks_seat: "unlocks d e \<Longrightarrow> seat_ok d i \<Longrightarrow> seat_ok e i"
  using unlocks_frame(1-3) [of d e] unlocks_frame(4) [of d e i] by (cases "pos d i \<in> lock_wait") (auto simp: lock_wait_def seat_def)

lemma seat_step:
  assumes inv: "dining_inv d" and k: "k < N" and step: "dine k d d'" and i: "i < N"
  shows "seat_ok d' i"
proof -
  have S: "seat_ok d j" if "j < N" for j using inv that by (simp add: dining_inv_def fork_inv_def)
  have L: "lock_inv d" using inv by (simp add: dining_inv_def)
  have notest: "pos d j \<noteq> Take_test" if "pos d k \<in> {Put_left, Put_right}" "j < N" for j
  proof
    assume "pos d j = Take_test"
    then have "has_lock d j" "has_lock d k" using that by (auto simp: has_lock_def critical_def)
    with L k that(2) have "j = k" by (simp add: lock_inv_def)
    with that \<open>pos d j = Take_test\<close> show False by auto
  qed
  show ?thesis
  proof (cases "i = k")
    case True
    show ?thesis
    proof (cases "pos d k \<in> {Take_out, Put_out}")
      case True
      with step S [OF k] unlocks_frame(1-3) [of d] unlocks_frame(4) [of d _ k] show ?thesis
        unfolding \<open>i = k\<close> by (auto simp: dine_def dgoto_def lock_wait_def seat_def)
    next
      case False
      with step S [OF k] notest dtest_self [OF S [OF k]] neighbours(5,6) [OF k] show ?thesis
        unfolding \<open>i = k\<close> dine_def by (cases "pos d k") (auto simp: seat_def dine_defs)
    qed
  next
    case False
    then have dg: "seat_ok (dgoto k c e) i = seat_ok e i" for c e
      by (simp add: dgoto_def)
    have "seat_ok (dlock k c w d) i" "seat_ok (dfork k d) i" "seat_ok (dset k x d) i" "seat_ok (dtest k d) i" for c w x
      using S [OF i] False by (auto simp: dine_defs)
    with step S [OF i] dtest_seat [OF S [OF i]] notest neighbours(1,2) [OF k] False show ?thesis
      unfolding dine_def by (cases "pos d k") (auto simp: dg intro: unlocks_seat)
  qed
qed

lemma dtest_decides:
  "st (dtest j d) j = HUNGRY \<Longrightarrow> st (dtest j d) (LEFT j) = EATING \<or> st (dtest j d) (RIGHT j) = EATING"
  by (auto simp: dtest_st split: if_splits)

lemma dtest_apart:
  assumes "\<forall>i < N. st d i = EATING \<longrightarrow> st d (RIGHT i) \<noteq> EATING" "j < N" "i < N" "st (dtest j d) i = EATING"
  shows "st (dtest j d) (RIGHT i) \<noteq> EATING"
  using assms by (auto simp: dtest_st split: if_splits)

lemma dtest_mono: "st d i = EATING \<Longrightarrow> st (dtest j d) i = EATING"
  by (simp add: dtest_st)

lemma dtest_other: "i \<noteq> j \<Longrightarrow> st (dtest j d) i = st d i"
  by (simp add: dtest_st)

lemma test_due_goto:
  assumes "k < N" "i < N" "pos e = pos d" "test_due d i"
    and "pos d k \<in> {Take_test, Put_left, Put_right} \<Longrightarrow>
      i \<noteq> k \<and> i \<noteq> LEFT k \<and> i \<noteq> RIGHT k \<or> pos d k = Take_test \<and> i \<noteq> k \<or> pos d k = Put_right \<and> i \<noteq> RIGHT k \<or>
      pos d k = Put_left \<and> c = Put_right \<and> i \<noteq> LEFT k"
  shows "test_due (dgoto k c e) i"
proof -
  have "LEFT i = k \<longleftrightarrow> i = RIGHT k" "RIGHT i = k \<longleftrightarrow> i = LEFT k"
    using assms(1,2) neighbour_eq by auto
  with assms(3-5) show ?thesis
    by (auto simp: test_due_def dgoto_def)
qed

lemma hungry_step:
  assumes inv: "dining_inv d" and k: "k < N" and step: "dine k d d'" and i: "i < N" and h: "st d' i = HUNGRY"
  shows "test_due d' i \<or> st d' (LEFT i) = EATING \<or> st d' (RIGHT i) = EATING"
proof -
  have F: "fork_inv d j" if "j < N" for j using inv that by (simp add: dining_inv_def)
  have H: "test_due d i \<or> st d (LEFT i) = EATING \<or> st d (RIGHT i) = EATING" if "st d i = HUNGRY"
    using F [OF i] that by (simp add: fork_inv_def)
  have LR: "LEFT i = k \<longleftrightarrow> i = RIGHT k" "RIGHT i = k \<longleftrightarrow> i = LEFT k"
    using k i neighbour_eq by auto
  have tst: ?thesis if "d' = dgoto k c (dtest j d)" "j < N" "pos d k = Take_test \<and> j = k \<or>
      pos d k = Put_left \<and> c = Put_right \<and> j = LEFT k \<or> pos d k = Put_right \<and> j = RIGHT k" for c j
  proof (cases "i = j")
    case True
    with dtest_decides [of i d] h that(1) show ?thesis by (simp add: dgoto_def)
  next
    case False
    then have "st d i = HUNGRY" using h that(1) by (simp add: dgoto_def dtest_other)
    with H dtest_mono [of d _ j] test_due_goto [OF k i, of "dtest j d" d c] that False show ?thesis
      by (auto simp: dgoto_def)
  qed
  have same: ?thesis if "st d' = st d" "pos d' = (pos d)(k := c)" "pos d k \<notin> {Take_test, Put_left, Put_right}" for c
    using that h H LR by (auto simp: test_due_def)
  show ?thesis
  proof (cases "pos d k \<in> {Take_test, Put_left, Put_right}")
    case True
    with step k have "\<exists>c j. d' = dgoto k c (dtest j d) \<and> j < N \<and> (pos d k = Take_test \<and> j = k \<or>
        pos d k = Put_left \<and> c = Put_right \<and> j = LEFT k \<or> pos d k = Put_right \<and> j = RIGHT k)"
      by (auto simp: dine_def)
    with tst show ?thesis by blast
  next
    case False
    have Sk: "seat_ok d k" using F [OF k] by (simp add: fork_inv_def)
    show ?thesis
    proof (cases "pos d k \<in> {Take_in, Put_in}")
      case True
      with step Sk h H LR show ?thesis
        by (auto simp: dine_def dgoto_def dset_def test_due_def seat_def split: if_splits)
    next
      case f: False
      have "st d' = st d \<and> (\<exists>c. pos d' = (pos d)(k := c))"
        using step False f unlocks_frame(2,3) [of d] unfolding dine_def
        by (cases "pos d k") (auto simp: dgoto_def dlock_def dfork_def)
      with same False show ?thesis by blast
    qed
  qed
qed

lemma fork_step:
  assumes inv: "dining_inv d" and k: "k < N" and step: "dine k d d'" and i: "i < N"
  shows "fork_inv d' i"
proof -
  have F: "fork_inv d j" if "j < N" for j using inv that by (simp add: dining_inv_def)
  then have A: "\<forall>i < N. st d i = EATING \<longrightarrow> st d (RIGHT i) \<noteq> EATING"
    by (simp add: fork_inv_def)
  have "st d' i = EATING \<longrightarrow> st d' (RIGHT i) \<noteq> EATING"
    using step A dtest_apart [OF A _ i] unlocks_frame(3) [of d] k i unfolding dine_def
    by (cases "pos d k") (auto simp: dgoto_def dset_def dlock_def dfork_def)
  moreover have "st d' i = HUNGRY \<longrightarrow> test_due d' i \<or> st d' (LEFT i) = EATING \<or> st d' (RIGHT i) = EATING"
    using hungry_step [OF inv k step i] by blast
  ultimately show ?thesis
    using seat_step [OF inv k step i] by (simp add: fork_inv_def)
qed

lemma dining_step: "dining_inv d \<Longrightarrow> k < N \<Longrightarrow> dine k d d' \<Longrightarrow> dining_inv d'"
  using lock_inv_step [of d k d'] fork_step [of d k d'] by (simp add: dining_inv_def)

section \<open>Simulation\<close>

lemma goto_simps [simp]:
  "sched_inv (goto i c s) = sched_inv s" "current (goto i c s) = current s" "idleproc (goto i c s) = idleproc s"
  "procs (goto i c s) = procs s" "run_state (goto i c s) = run_state s" "waits (goto i c s) = waits s"
  "wqs (goto i c s) = wqs s" "sem_value (goto i c s) = sem_value s" "sem_inv sem ws (goto i c s) = sem_inv sem ws s"
  "mutex (goto i c s) = mutex s" "fork_sem (goto i c s) = fork_sem s" "wnode (goto i c s) = wnode s"
  "state_sema (goto i c s) = state_sema s" "philosopher_proc_sema (goto i c s) = philosopher_proc_sema s"
  "phi_pc (goto i c s) = (phi_pc s)(i := c)" "phi_static (goto i c s) = phi_static s"
  "mutex_q (goto i c s) = mutex_q s" "fork_q (goto i c s) = fork_q s" "phi_abs (goto i c s) = dgoto i c (phi_abs s)"
  by (simp_all add: goto_def sched_inv_def rq_inv_def run_state_def fun_eq_iff sem_inv_def wq_inv_def phi_static_def
    mutex_q_def fork_q_def phi_abs_def dgoto_def)

lemma set_phi_simps [simp]:
  "phi_inv (set_phi i x s) = phi_inv s" "phi_abs (set_phi i x s) = dset i x (phi_abs s)"
  "fork_sem (set_phi i x s) = fork_sem s" "phi_pc (set_phi i x s) = phi_pc s"
  by (simp_all add: set_phi_def phi_inv_def sched_inv_def rq_inv_def run_state_def sem_inv_def wq_inv_def phi_static_def
    mutex_q_def fork_q_def phi_abs_def dset_def fun_eq_iff)

lemma phi_iter_simps [simp]:
  "phi_inv (s\<lparr>phi_iter := f\<rparr>) = phi_inv s" "phi_abs (s\<lparr>phi_iter := f\<rparr>) = phi_abs s"
  by (simp_all add: phi_inv_def sched_inv_def rq_inv_def run_state_def sem_inv_def wq_inv_def phi_static_def
    mutex_q_def fork_q_def phi_abs_def fun_eq_iff)

lemma phils_moreD:
  assumes "sync.more s' = sync.more (s :: phils)"
  shows "mutex s' = mutex s" "fork_sem s' = fork_sem s" "wnode s' = wnode s" "state_sema s' = state_sema s"
    "philosopher_proc_sema s' = philosopher_proc_sema s" "phi_iter s' = phi_iter s" "phi_pc s' = phi_pc s"
  using assms by (cases s; cases s'; simp)+

lemma sem_inv_frame:
  "sem_inv x ws s \<Longrightarrow> sem_value s' x = sem_value s x \<Longrightarrow> wqs s' (sem_wq x) = wqs s (sem_wq x) \<Longrightarrow>
    (\<And>w. w \<in> set (wqs s (sem_wq x)) \<Longrightarrow> waits s' w = waits s w \<and>
      run_state s' (w_proc (waits s w)) = run_state s (w_proc (waits s w))) \<Longrightarrow> sem_inv x ws s'"
  by (simp add: sem_inv_def wq_inv_def cong: map_cong)

definition phi_sems :: "phils \<Rightarrow> addr set" where
  "phi_sems s = insert (mutex s) (fork_sem s ` {..<N})"

text \<open>The philosopher that waits with a given \<open>wait_t\<close>.\<close>

lemma phi_owner:
  assumes inv: "phi_inv s" and sem: "sem \<in> phi_sems s" and w: "w \<in> set (wqs s (sem_wq sem))"
  obtains j where "j < N" "w = wnode s j" "w_proc (waits s w) = philosopher_proc_sema s j"
    "sem = mutex s \<and> phi_pc s j \<in> lock_wait \<or> sem = fork_sem s j \<and> phi_pc s j = Fork_wait"
  using assms by (fastforce simp: phi_inv_def phi_sems_def mutex_q_def fork_q_def waiting_def)

lemma phi_owner_unique:
  assumes inv: "phi_inv s" and x: "x \<in> phi_sems s" "v \<in> set (wqs s (sem_wq x))"
    and y: "y \<in> phi_sems s" "w \<in> set (wqs s (sem_wq y))" and ne: "x \<noteq> y"
  shows "v \<noteq> w" "w_proc (waits s v) \<noteq> w_proc (waits s w)"
proof -
  obtain i where i: "i < N" "v = wnode s i" "w_proc (waits s v) = philosopher_proc_sema s i"
    "x = mutex s \<and> phi_pc s i \<in> lock_wait \<or> x = fork_sem s i \<and> phi_pc s i = Fork_wait"
    using phi_owner [OF inv x] .
  obtain j where j: "j < N" "w = wnode s j" "w_proc (waits s w) = philosopher_proc_sema s j"
    "y = mutex s \<and> phi_pc s j \<in> lock_wait \<or> y = fork_sem s j \<and> phi_pc s j = Fork_wait"
    using phi_owner [OF inv y] .
  have "i \<noteq> j" using i j ne by (auto simp: lock_wait_def)
  then show "v \<noteq> w" "w_proc (waits s v) \<noteq> w_proc (waits s w)"
    using inv i j by (auto simp: phi_inv_def phi_static_def inj_on_def)
qed

text \<open>Giving a unit back to one of the semaphores.\<close>

lemma phi_up:
  assumes inv: "phi_inv s" and sem: "sem \<in> phi_sems s"
  obtains s' where "up sem s = Some s'" "phi_inv s'" "sync.more s' = sync.more s"
    "wqs s (sem_wq sem) = [] \<and> wqs s' = wqs s \<and> sem_value s' = (sem_value s)(sem := sem_value s sem + 1) \<or>
     (\<exists>j ws. j < N \<and> wqs s (sem_wq sem) = wnode s j # ws \<and> wqs s' = (wqs s)(sem_wq sem := ws) \<and> sem_value s' = sem_value s \<and>
       wnode s j \<notin> set ws)"
proof -
  let ?q = "sem_wq sem"
  have I: "sched_inv s" "sem_inv sem WT_KSEM s"
    using inv sem by (auto simp: phi_inv_def phi_sems_def)
  obtain s' where s': "up sem s = Some s'" "sched_inv s'" "sem_inv sem WT_KSEM s'"
    "sem_value s' = (sem_value s)(sem := sem_value s sem + (if wqs s ?q = [] then 1 else 0))"
    "wqs s' = (wqs s)(?q := tl (wqs s ?q))"
    "waits s' = (case wqs s ?q of [] \<Rightarrow> waits s
      | w # _ \<Rightarrow> (waits s)(w := (waits s w)\<lparr>w_linked := False, w_flags := WT_KSEM\<rparr>))"
    "idleproc s' = idleproc s" "sync.more s' = sync.more s"
    "run_state s' = woken (set (map (\<lambda>w. w_proc (waits s w)) (take 1 (wqs s ?q)))) (run_state s)"
    using sem_up_ok [OF I] unfolding up_def by blast
  note more = phils_moreD [OF s'(8)]
  have oth: "sem_inv x WT_KSEM s'" if "x \<in> phi_sems s" for x
  proof (cases "x = sem")
    case False
    then have "sem_wq x \<noteq> ?q" by (simp add: sem_wq_def)
    moreover have "sem_inv x WT_KSEM s" using inv that by (auto simp: phi_inv_def phi_sems_def)
    moreover have "waits s' w = waits s w \<and> run_state s' (w_proc (waits s w)) = run_state s (w_proc (waits s w))"
      if w: "w \<in> set (wqs s (sem_wq x))" for w
      using phi_owner_unique [OF inv \<open>x \<in> phi_sems s\<close> w sem _ False]
      by (cases "wqs s ?q") (auto simp: s'(6,9) woken_def)
    ultimately show ?thesis
      using False by (intro sem_inv_frame [of x WT_KSEM s s']) (simp_all add: s'(4,5))
  qed (simp add: s'(3))
  show ?thesis
  proof (cases "wqs s ?q")
    case Nil
    then have f: "wqs s' = wqs s" "waits s' = waits s" "sem_value s' = (sem_value s)(sem := sem_value s sem + 1)"
      by (simp_all add: s'(4,5,6) fun_upd_idem)
    have "phi_inv s'"
      using inv s'(2,7) oth unfolding phi_inv_def phi_static_def mutex_q_def fork_q_def phi_abs_def phi_sems_def more f
      by simp
    with that s'(1,8) f Nil show ?thesis by blast
  next
    case (Cons w ws)
    obtain j where j: "j < N" "w = wnode s j" "w_proc (waits s w) = philosopher_proc_sema s j"
      "sem = mutex s \<and> phi_pc s j \<in> lock_wait \<or> sem = fork_sem s j \<and> phi_pc s j = Fork_wait"
      using phi_owner [OF inv sem, of w] Cons by auto
    have d: "w \<notin> set ws" using I(2) Cons by (simp add: sem_inv_def wq_inv_def)
    have f: "wqs s' = (wqs s)(?q := ws)" "sem_value s' = sem_value s"
      "waits s' = (waits s)(w := (waits s w)\<lparr>w_linked := False, w_flags := WT_KSEM\<rparr>)"
      using Cons by (simp_all add: s'(4,5,6))
    have sub: "set (wqs s' q) \<subseteq> set (wqs s q)" "v \<noteq> w \<Longrightarrow> v \<in> set (wqs s q) \<Longrightarrow> v \<in> set (wqs s' q)" for q v
      using Cons by (auto simp: f(1))
    have asl: "asleep (phi_abs s') i" if "asleep (phi_abs s) i" "i < N" "i \<noteq> j" for i
    proof -
      have "wnode s i \<noteq> w" using that(2,3) inv j(1,2) by (auto simp: phi_inv_def phi_static_def inj_on_def)
      with that sub(2) show ?thesis by (auto simp: phi_abs_def mutex_q_def fork_q_def more)
    qed
    have "w_proc (waits s' (wnode s i)) = philosopher_proc_sema s i \<and>
        (asleep (phi_abs s') i \<or> \<not> w_linked (waits s' (wnode s i)) \<and> w_flags (waits s' (wnode s i)) = WT_KSEM)"
      if "i < N" "phi_pc s i \<in> waiting" for i
    proof (cases "i = j")
      case False
      then have "wnode s i \<noteq> w" using that(1) inv j(1,2) by (auto simp: phi_inv_def phi_static_def inj_on_def)
      with inv that asl False show ?thesis by (auto simp: phi_inv_def f(3))
    qed (use j in \<open>simp add: f(3)\<close>)
    moreover have "\<forall>v \<in> set (mutex_q s'). \<exists>i < N. v = wnode s i \<and> phi_pc s i \<in> lock_wait"
      "\<forall>i < N. \<forall>v \<in> set (fork_q s' i). v = wnode s i \<and> phi_pc s i = Fork_wait"
      using inv sub(1) unfolding phi_inv_def mutex_q_def fork_q_def more by blast+
    ultimately have "phi_inv s'"
      using inv s'(2,7) oth unfolding phi_inv_def phi_static_def phi_sems_def more by simp
    with that s'(1,8) f Cons j d show ?thesis by blast
  qed
qed

lemma phi_abs_eqI:
  assumes "sync.more s' = sync.more s" "sem_value s' (mutex s) = lock d"
    "\<And>i. i < N \<Longrightarrow> sem_value s' (fork_sem s i) = tok d i" "\<And>i. \<not> i < N \<Longrightarrow> tok d i = 0 \<and> \<not> asleep d i"
    "\<And>i. i < N \<Longrightarrow> (wnode s i \<in> set (wqs s' (sem_wq (mutex s))) \<or> wnode s i \<in> set (wqs s' (sem_wq (fork_sem s i)))) = asleep d i"
    "pos d = phi_pc s" "st d = state_sema s"
  shows "phi_abs s' = d"
  using assms(2-) phils_moreD [OF assms(1)] by (cases d) (auto simp: phi_abs_def mutex_q_def fork_q_def fun_eq_iff)

lemma phi_abs_simps [simp]:
  "lock (phi_abs s) = sem_value s (mutex s)" "pos (phi_abs s) = phi_pc s" "st (phi_abs s) = state_sema s"
  "i < N \<Longrightarrow> tok (phi_abs s) i = sem_value s (fork_sem s i)" "\<not> i < N \<Longrightarrow> tok (phi_abs s) i = 0"
  "\<not> i < N \<Longrightarrow> \<not> asleep (phi_abs s) i"
  by (simp_all add: phi_abs_def)

lemma asleep_iff: "i < N \<Longrightarrow> asleep (phi_abs s) i \<longleftrightarrow>
    wnode s i \<in> set (wqs s (sem_wq (mutex s))) \<or> wnode s i \<in> set (wqs s (sem_wq (fork_sem s i)))"
  by (simp add: phi_abs_def mutex_q_def fork_q_def)

lemma phi_inv_mutex_q: "phi_inv s \<Longrightarrow> \<forall>w \<in> set (mutex_q s). \<exists>i < N. w = wnode s i \<and> phi_pc s i \<in> lock_wait"
  by (simp add: phi_inv_def)

text \<open>Where a philosopher sleeps.\<close>

lemma asleep_at:
  assumes inv: "phi_inv s" and i: "i < N"
  shows "wnode s i \<in> set (wqs s (sem_wq (mutex s))) \<longleftrightarrow> asleep (phi_abs s) i \<and> phi_pc s i \<in> lock_wait"
    "wnode s i \<in> set (wqs s (sem_wq (fork_sem s i))) \<longleftrightarrow> asleep (phi_abs s) i \<and> phi_pc s i = Fork_wait"
    "asleep (phi_abs s) i \<Longrightarrow> phi_pc s i \<in> waiting"
proof -
  have m: "phi_pc s i \<in> lock_wait" if w: "wnode s i \<in> set (wqs s (sem_wq (mutex s)))"
  proof -
    obtain j where "j < N" "wnode s i = wnode s j" "phi_pc s j \<in> lock_wait"
      using bspec [OF phi_inv_mutex_q [OF inv] w [folded mutex_q_def]] by blast
    with inv i show ?thesis by (auto simp: phi_inv_def phi_static_def inj_on_def)
  qed
  have f: "phi_pc s i = Fork_wait" if "wnode s i \<in> set (wqs s (sem_wq (fork_sem s i)))"
    using inv i that by (auto simp: phi_inv_def fork_q_def)
  show "wnode s i \<in> set (wqs s (sem_wq (mutex s))) \<longleftrightarrow> asleep (phi_abs s) i \<and> phi_pc s i \<in> lock_wait"
    "wnode s i \<in> set (wqs s (sem_wq (fork_sem s i))) \<longleftrightarrow> asleep (phi_abs s) i \<and> phi_pc s i = Fork_wait"
    "asleep (phi_abs s) i \<Longrightarrow> phi_pc s i \<in> waiting"
    using m f by (auto simp: asleep_iff [OF i] lock_wait_def waiting_def)
qed

lemma sem_apart:
  assumes "phi_inv s"
  shows "i < N \<Longrightarrow> mutex s \<noteq> fork_sem s i" "i < N \<Longrightarrow> fork_sem s i \<noteq> mutex s"
    "i < N \<Longrightarrow> j < N \<Longrightarrow> fork_sem s i = fork_sem s j \<longleftrightarrow> i = j" "i < N \<Longrightarrow> j < N \<Longrightarrow> wnode s i = wnode s j \<longleftrightarrow> i = j"
    "i < N \<Longrightarrow> sem_wq (mutex s) \<noteq> sem_wq (fork_sem s i)" "i < N \<Longrightarrow> sem_wq (fork_sem s i) \<noteq> sem_wq (mutex s)"
    "i < N \<Longrightarrow> j < N \<Longrightarrow> sem_wq (fork_sem s i) = sem_wq (fork_sem s j) \<longleftrightarrow> i = j"
  using assms by (auto simp: phi_inv_def phi_static_def inj_on_def sem_wq_def)

lemma phi_up_mutex:
  assumes inv: "phi_inv s"
  obtains s' where "up (mutex s) s = Some s'" "phi_inv s'" "sync.more s' = sync.more s" "unlocks (phi_abs s) (phi_abs s')"
proof -
  let ?q = "sem_wq (mutex s)"
  obtain s' where s': "up (mutex s) s = Some s'" "phi_inv s'" "sync.more s' = sync.more s"
    and q: "wqs s ?q = [] \<and> wqs s' = wqs s \<and> sem_value s' = (sem_value s)(mutex s := sem_value s (mutex s) + 1) \<or>
     (\<exists>j ws. j < N \<and> wqs s ?q = wnode s j # ws \<and> wqs s' = (wqs s)(?q := ws) \<and> sem_value s' = sem_value s \<and> wnode s j \<notin> set ws)"
    using phi_up [OF inv, of "mutex s"] by (auto simp: phi_sems_def)
  note ap = sem_apart [OF inv] and at = asleep_at(1) [OF inv]
  from q have "unlocks (phi_abs s) (phi_abs s')"
  proof (elim disjE exE conjE)
    assume e: "wqs s ?q = []" "wqs s' = wqs s" "sem_value s' = (sem_value s)(mutex s := sem_value s (mutex s) + 1)"
    have "phi_abs s' = (phi_abs s)\<lparr>lock := lock (phi_abs s) + 1\<rparr>"
      by (rule phi_abs_eqI [OF s'(3)]) (use e(3) ap in \<open>auto simp: asleep_iff e(2)\<close>)
    with e(1) at show ?thesis by (auto simp: unlocks_def)
  next
    fix j ws assume c: "j < N" "wqs s ?q = wnode s j # ws" "wqs s' = (wqs s)(?q := ws)" "sem_value s' = sem_value s" "wnode s j \<notin> set ws"
    have a: "asleep (phi_abs s) j" "phi_pc s j \<in> lock_wait" using at [OF c(1)] c(2) by simp_all
    then have nf: "wnode s j \<notin> set (wqs s (sem_wq (fork_sem s j)))"
      using asleep_at(2) [OF inv c(1)] by (auto simp: lock_wait_def)
    have "phi_abs s' = wake j (phi_abs s)"
      by (rule phi_abs_eqI [OF s'(3)]) (use c ap nf in \<open>auto simp: wake_def asleep_iff\<close>)
    with c(1) a show ?thesis by (auto simp: unlocks_def)
  qed
  with that s' show ?thesis by blast
qed

lemma phi_up_fork:
  assumes inv: "phi_inv s" and j: "j < N"
  obtains s' where "up (fork_sem s j) s = Some s'" "phi_inv s'" "sync.more s' = sync.more s" "phi_abs s' = give j (phi_abs s)"
proof -
  let ?q = "sem_wq (fork_sem s j)"
  obtain s' where s': "up (fork_sem s j) s = Some s'" "phi_inv s'" "sync.more s' = sync.more s"
    and q: "wqs s ?q = [] \<and> wqs s' = wqs s \<and> sem_value s' = (sem_value s)(fork_sem s j := sem_value s (fork_sem s j) + 1) \<or>
     (\<exists>i ws. i < N \<and> wqs s ?q = wnode s i # ws \<and> wqs s' = (wqs s)(?q := ws) \<and> sem_value s' = sem_value s \<and> wnode s i \<notin> set ws)"
    using phi_up [OF inv, of "fork_sem s j"] j by (auto simp: phi_sems_def)
  note ap = sem_apart [OF inv] and at = asleep_at(2) [OF inv]
  from q have "phi_abs s' = give j (phi_abs s)"
  proof (elim disjE exE conjE)
    assume e: "wqs s ?q = []" "wqs s' = wqs s" "sem_value s' = (sem_value s)(fork_sem s j := sem_value s (fork_sem s j) + 1)"
    then have "\<not> (phi_pc s j = Fork_wait \<and> asleep (phi_abs s) j)" using at [OF j] by auto
    then have "give j (phi_abs s) = (phi_abs s)\<lparr>tok := (tok (phi_abs s))(j := tok (phi_abs s) j + 1)\<rparr>"
      by (auto simp: give_def)
    then show ?thesis
      by (intro phi_abs_eqI [OF s'(3)]) (use e(3) ap j in \<open>auto simp: asleep_iff e(2)\<close>)
  next
    fix i ws assume c: "i < N" "wqs s ?q = wnode s i # ws" "wqs s' = (wqs s)(?q := ws)" "sem_value s' = sem_value s" "wnode s i \<notin> set ws"
    have "i = j" using inv j c(1,2) ap by (auto simp: phi_inv_def fork_q_def)
    then have a: "phi_pc s j = Fork_wait \<and> asleep (phi_abs s) j" using at [OF j] c(2) by simp
    then have nm: "wnode s j \<notin> set (wqs s (sem_wq (mutex s)))"
      using asleep_at(1) [OF inv j] by (auto simp: lock_wait_def)
    show ?thesis
      by (rule phi_abs_eqI [OF s'(3)]) (use c ap nm a j \<open>i = j\<close> in \<open>auto simp: give_def wake_def asleep_iff\<close>)
  qed
  with that s' show ?thesis by blast
qed

lemma asleep_sleeps:
  assumes inv: "phi_inv s" and i: "i < N" and a: "asleep (phi_abs s) i"
  shows "p_state (procs s (philosopher_proc_sema s i)) = PROC_SLEEPING"
proof -
  obtain sem where sem: "sem \<in> phi_sems s" "wnode s i \<in> set (wqs s (sem_wq sem))"
    using a i unfolding asleep_iff [OF i] phi_sems_def by blast
  obtain j where j: "j < N" "wnode s i = wnode s j" "w_proc (waits s (wnode s i)) = philosopher_proc_sema s j"
    using phi_owner [OF inv sem] by blast
  have "sem_inv sem WT_KSEM s" using inv sem(1) by (auto simp: phi_inv_def phi_sems_def)
  with sem(2) j sem_apart(4) [OF inv i j(1)] show ?thesis
    by (auto simp: sem_inv_def run_state_def)
qed

lemma phi_inv_goto:
  assumes inv: "phi_inv s" and i: "i < N" and a: "\<not> asleep (phi_abs s) i" and c: "c \<notin> waiting"
  shows "phi_inv (goto i c s)"
proof -
  have q: "wnode s i \<notin> set (mutex_q s)" "wnode s i \<notin> set (fork_q s i)"
    using a i by (simp_all add: phi_abs_def)
  have "\<forall>w \<in> set (mutex_q s). \<exists>j < N. w = wnode s j \<and> ((phi_pc s)(i := c)) j \<in> lock_wait"
    using phi_inv_mutex_q [OF inv] q(1) by (metis fun_upd_other)
  moreover have "\<forall>j < N. \<forall>w \<in> set (fork_q s j). w = wnode s j \<and> ((phi_pc s)(i := c)) j = Fork_wait"
    using inv q(2) by (auto simp: phi_inv_def)
  moreover have "asleep (dgoto i c (phi_abs s)) j = asleep (phi_abs s) j" for j
    by (simp add: dgoto_def)
  ultimately show ?thesis
    using inv c by (simp add: phi_inv_def)
qed

text \<open>Taking a unit from one of the semaphores, or falling asleep on it.\<close>

lemma phi_down_now:
  assumes inv: "phi_inv s" and sem: "sem \<in> phi_sems s" and v: "0 < sem_value s sem"
  shows "down sem w s = Some (True, set_value sem (sem_value s sem - 1) s)" "phi_inv (set_value sem (sem_value s sem - 1) s)"
proof -
  let ?s' = "set_value sem (sem_value s sem - 1) s"
  show "down sem w s = Some (True, ?s')" using v by (simp add: down_def sem_down_now)
  have more: "sync.more ?s' = sync.more s" by simp
  have si: "sem_inv x WT_KSEM s" if "x \<in> phi_sems s" for x using inv that by (auto simp: phi_inv_def phi_sems_def)
  have "sem_inv x WT_KSEM ?s'" if "x \<in> phi_sems s" for x
    using si [OF that] v by (auto simp: sem_inv_def wq_inv_def)
  moreover have "asleep (phi_abs ?s') = asleep (phi_abs s)"
    by (simp add: phi_abs_def mutex_q_def fork_q_def phils_moreD [OF more] cong: conj_cong)
  ultimately show "phi_inv ?s'"
    using inv unfolding phi_inv_def phi_static_def phi_sems_def mutex_q_def fork_q_def phils_moreD [OF more] by simp
qed

lemma phi_down_block:
  assumes inv: "phi_inv s" and i: "i < N" and cur: "current s = philosopher_proc_sema s i" "p_state (procs s (current s)) = PROC_RUNNABLE"
    and sem: "sem = mutex s \<and> w \<in> lock_wait \<or> sem = fork_sem s i \<and> w = Fork_wait" and v: "sem_value s sem = 0"
  obtains s' where "down sem (wnode s i) s = Some (False, s')" "phi_inv (goto i w s')" "sync.more s' = sync.more s"
    "sem_value s' = sem_value s" "wqs s' = (wqs s)(sem_wq sem := wqs s (sem_wq sem) @ [wnode s i])"
proof -
  let ?q = "sem_wq sem"
  have S: "sem \<in> phi_sems s" using sem i by (auto simp: phi_sems_def)
  have a: "\<not> asleep (phi_abs s) i" using asleep_sleeps [OF inv i] cur by auto
  have I: "sched_inv s" "sem_inv sem WT_KSEM s" using inv S by (auto simp: phi_inv_def phi_sems_def)
  have n: "wnode s i \<notin> set (wqs s (sem_wq x))" if x: "x \<in> phi_sems s" for x
  proof
    assume w: "wnode s i \<in> set (wqs s (sem_wq x))"
    obtain j where "j < N" "wnode s i = wnode s j" "x = mutex s \<or> x = fork_sem s j"
      using phi_owner [OF inv x w] by blast
    with w a i sem_apart(4) [OF inv i] show False by (auto simp: asleep_iff)
  qed
  have c: "current s \<noteq> 0" "current s \<noteq> idleproc s" using inv i cur(1) by (auto simp: phi_inv_def phi_static_def)
  obtain s' where s': "down sem (wnode s i) s = Some (False, s')" "sched_inv s'" "sem_inv sem WT_KSEM s'" "sem_value s' = sem_value s"
    "wqs s' = (wqs s)(?q := wqs s ?q @ [wnode s i])"
    "waits s' = (waits s)(wnode s i := (waits s (wnode s i))\<lparr>w_proc := current s, w_flags := WT_INTERRUPTED,
      w_queue := ?q, w_linked := True\<rparr>)" "idleproc s' = idleproc s" "sync.more s' = sync.more s"
    "run_state s' = (run_state s)(current s := (PROC_SLEEPING, WT_KSEM))"
    using sem_down_block [OF I v c cur(2) n [OF S]] unfolding down_def by blast
  note more = phils_moreD [OF s'(8)] and node = sem_apart(4) [OF inv i]
  have si: "sem_inv x WT_KSEM s'" if x: "x \<in> phi_sems s" for x
  proof (cases "x = sem")
    case False
    have sx: "sem_inv x WT_KSEM s" using inv x by (auto simp: phi_inv_def phi_sems_def)
    have "waits s' v = waits s v \<and> run_state s' (w_proc (waits s v)) = run_state s (w_proc (waits s v))"
      if "v \<in> set (wqs s (sem_wq x))" for v
      using that n [OF x] sx cur(2) by (auto simp: s'(6,9) sem_inv_def run_state_def)
    with False show ?thesis
      by (intro sem_inv_frame [OF sx]) (simp_all add: s'(4,5) sem_wq_def)
  qed (simp add: s'(3))
  have nm: "wnode s i \<notin> set (wqs s (sem_wq (mutex s)))" "wqs s (sem_wq (fork_sem s i)) = []"
    using n [of "mutex s"] n [of "fork_sem s i"] inv i
    by (auto simp: phi_sems_def phi_inv_def fork_q_def) (metis list.set_intros(1) neq_Nil_conv)
  have "\<exists>j < N. v = wnode s j \<and> ((phi_pc s)(i := w)) j \<in> lock_wait" if "v \<in> set (wqs s' (sem_wq (mutex s)))" for v
    using that phi_inv_mutex_q [OF inv] sem i nm(1) sem_apart(5) [OF inv i]
    by (auto simp: s'(5) mutex_q_def split: if_splits)
  moreover have "v = wnode s j \<and> ((phi_pc s)(i := w)) j = Fork_wait" if "j < N" "v \<in> set (wqs s' (sem_wq (fork_sem s j)))" for j v
    using that inv sem i nm(2) sem_apart [OF inv] by (auto simp: s'(5) phi_inv_def fork_q_def split: if_splits)
  moreover have "w_proc (waits s' (wnode s j)) = philosopher_proc_sema s j \<and> (asleep (phi_abs s') j \<or>
      \<not> w_linked (waits s' (wnode s j)) \<and> w_flags (waits s' (wnode s j)) = WT_KSEM)"
    if j: "j < N" "((phi_pc s)(i := w)) j \<in> waiting" for j
  proof (cases "j = i")
    case True
    have "asleep (phi_abs s') i"
      using sem i by (auto simp: phi_abs_def mutex_q_def fork_q_def more s'(5))
    with True cur(1) show ?thesis by (simp add: s'(6))
  next
    case False
    then have "asleep (phi_abs s) j \<Longrightarrow> asleep (phi_abs s') j"
      by (auto simp: phi_abs_def mutex_q_def fork_q_def more s'(5))
    with False j inv node [OF j(1)] show ?thesis by (auto simp: s'(6) phi_inv_def)
  qed
  ultimately have "phi_inv (goto i w s')"
    using inv s'(2,7) si unfolding phi_inv_def phi_static_def phi_sems_def mutex_q_def fork_q_def
    by (simp add: more dgoto_def)
  with that s' show ?thesis by blast
qed

lemma phi_test_ok:
  assumes inv: "phi_inv s" and j: "j < N"
  obtains s' where "phi_test_sema j s = Some s'" "phi_inv s'" "phi_abs s' = dtest j (phi_abs s)"
proof (cases "state_sema s j = HUNGRY \<and> state_sema s (LEFT j) \<noteq> EATING \<and> state_sema s (RIGHT j) \<noteq> EATING")
  case True
  obtain s' where "up (fork_sem s j) (set_phi j EATING s) = Some s'" "phi_inv s'" "phi_abs s' = give j (dset j EATING (phi_abs s))"
    using phi_up_fork [of "set_phi j EATING s" j] inv j by auto
  with True that show ?thesis by (simp add: phi_test_sema_def dtest_def)
next
  case False
  with inv that show ?thesis by (simp add: phi_test_sema_def dtest_def)
qed

lemma phi_resume:
  assumes inv: "phi_inv s" and i: "i < N" and a: "\<not> asleep (phi_abs s) i" and w: "phi_pc s i \<in> waiting"
  shows "down_resume sem (wnode s i) s = Some s"
proof -
  have "\<not> w_linked (waits s (wnode s i))" "w_flags (waits s (wnode s i)) = WT_KSEM"
    using inv i a w by (auto simp: phi_inv_def)
  then show ?thesis
    by (simp add: down_resume_def sem_down_resume_def wait_current_del_def wait_in_queue_def)
qed

lemma phi_down_mutex:
  assumes inv: "phi_inv s" and i: "i < N" and cur: "current s = philosopher_proc_sema s i" "p_state (procs s (current s)) = PROC_RUNNABLE"
    and c: "c \<notin> waiting" "w \<in> lock_wait"
  obtains got s' where "down (mutex s) (wnode s i) s = Some (got, s')" "phi_inv (goto i (if got then c else w) s')"
    "phi_abs (goto i (if got then c else w) s') = dlock i c w (phi_abs s)"
proof -
  have m: "mutex s \<in> phi_sems s" by (simp add: phi_sems_def)
  have a: "\<not> asleep (phi_abs s) i" using asleep_sleeps [OF inv i] cur by auto
  note ap = sem_apart [OF inv]
  show ?thesis
  proof (cases "0 < sem_value s (mutex s)")
    case True
    let ?s' = "set_value (mutex s) (sem_value s (mutex s) - 1) s"
    have abs: "phi_abs ?s' = (phi_abs s)\<lparr>lock := lock (phi_abs s) - 1\<rparr>"
      by (rule phi_abs_eqI) (use ap in \<open>auto simp: asleep_iff\<close>)
    then have "phi_inv (goto i c ?s')"
      using phi_down_now(2) [OF inv m True] i a c by (intro phi_inv_goto) simp_all
    with that [of True ?s'] phi_down_now(1) [OF inv m True] abs True show ?thesis by (simp add: dlock_def)
  next
    case False
    then have v: "sem_value s (mutex s) = 0" using inv by (simp add: phi_inv_def sem_inv_def)
    obtain s' where s': "down (mutex s) (wnode s i) s = Some (False, s')" "phi_inv (goto i w s')" "sync.more s' = sync.more s"
      "sem_value s' = sem_value s" "wqs s' = (wqs s)(sem_wq (mutex s) := wqs s (sem_wq (mutex s)) @ [wnode s i])"
      using phi_down_block [OF inv i cur _ v] c(2) by blast
    have "phi_abs s' = (phi_abs s)\<lparr>asleep := (asleep (phi_abs s))(i := True)\<rparr>"
      by (rule phi_abs_eqI [OF s'(3)]) (use s'(4,5) ap i in \<open>auto simp: asleep_iff\<close>)
    with that [of False s'] s'(1,2) False show ?thesis by (simp add: dlock_def)
  qed
qed

lemma phi_down_fork:
  assumes inv: "phi_inv s" and i: "i < N" and cur: "current s = philosopher_proc_sema s i" "p_state (procs s (current s)) = PROC_RUNNABLE"
  obtains got s' where "down (fork_sem s i) (wnode s i) s = Some (got, s')" "phi_inv (goto i (if got then Eating else Fork_wait) s')"
    "phi_abs (goto i (if got then Eating else Fork_wait) s') = dfork i (phi_abs s)"
proof -
  have m: "fork_sem s i \<in> phi_sems s" using i by (simp add: phi_sems_def)
  have a: "\<not> asleep (phi_abs s) i" using asleep_sleeps [OF inv i] cur by auto
  note ap = sem_apart [OF inv]
  show ?thesis
  proof (cases "0 < sem_value s (fork_sem s i)")
    case True
    let ?s' = "set_value (fork_sem s i) (sem_value s (fork_sem s i) - 1) s"
    have abs: "phi_abs ?s' = (phi_abs s)\<lparr>tok := (tok (phi_abs s))(i := tok (phi_abs s) i - 1)\<rparr>"
      by (rule phi_abs_eqI) (use ap i in \<open>auto simp: asleep_iff\<close>)
    then have "phi_inv (goto i Eating ?s')"
      using phi_down_now(2) [OF inv m True] i a by (intro phi_inv_goto) (simp_all add: waiting_def lock_wait_def)
    with that [of True ?s'] phi_down_now(1) [OF inv m True] abs True i show ?thesis by (simp add: dfork_def)
  next
    case False
    then have v: "sem_value s (fork_sem s i) = 0" using inv i by (fastforce simp: phi_inv_def sem_inv_def)
    obtain s' where s': "down (fork_sem s i) (wnode s i) s = Some (False, s')" "phi_inv (goto i Fork_wait s')" "sync.more s' = sync.more s"
      "sem_value s' = sem_value s" "wqs s' = (wqs s)(sem_wq (fork_sem s i) := wqs s (sem_wq (fork_sem s i)) @ [wnode s i])"
      using phi_down_block [OF inv i cur _ v] by blast
    have "phi_abs s' = (phi_abs s)\<lparr>asleep := (asleep (phi_abs s))(i := True)\<rparr>"
      by (rule phi_abs_eqI [OF s'(3)]) (use s'(4,5) ap i in \<open>auto simp: asleep_iff\<close>)
    with that [of False s'] s'(1,2) False i show ?thesis by (simp add: dfork_def)
  qed
qed

lemmas phi_code = philosopher_using_semaphore_def phi_take_forks_sema_def phi_put_forks_sema_def

lemma phi_step:
  assumes inv: "phi_inv s" and i: "i < N" and cur: "current s = philosopher_proc_sema s i" "p_state (procs s (current s)) = PROC_RUNNABLE"
    and q: "phi_pc s i \<noteq> Quit"
  shows "\<exists>s'. philosopher_using_semaphore i s = Some s' \<and> phi_inv s' \<and> dine i (phi_abs s) (phi_abs s')"
proof -
  have a: "\<not> asleep (phi_abs s) i" using asleep_sleeps [OF inv i] cur by auto
  have go: "phi_inv (goto i c s')" if "phi_inv s'" "\<not> asleep (phi_abs s') i" "c \<notin> waiting" for c s'
    using phi_inv_goto [OF that(1) i that(2,3)] .
  have lk: "\<exists>got s'. down (mutex s) (wnode s i) s = Some (got, s') \<and> phi_inv (goto i (if got then c else w) s') \<and>
      dgoto i (if got then c else w) (phi_abs s') = dlock i c w (phi_abs s)" if "c \<notin> waiting" "w \<in> lock_wait" for c w
    using phi_down_mutex [OF inv i cur that] by (metis goto_simps(19))
  have ts: "\<exists>s'. phi_test_sema j s = Some s' \<and> phi_inv (goto i c s') \<and> phi_abs s' = dtest j (phi_abs s)"
    if "j < N" "c \<notin> waiting" for j c
    using phi_test_ok [OF inv that(1)] go [OF _ _ that(2)] a by (metis dtest_asleep)
  have ul: "\<exists>s'. up (mutex s) s = Some s' \<and> phi_inv (goto i c s') \<and> unlocks (phi_abs s) (phi_abs s')"
    if "c \<notin> waiting" "phi_pc s i \<notin> lock_wait" for c
    using phi_up_mutex [OF inv] go [OF _ _ that(1)] a that(2) unlocks_frame(4) [of "phi_abs s" _ i] by (metis phi_abs_simps(2))
  have st: "phi_inv (goto i c (set_phi i x s))" if "c \<notin> waiting" for c x
    using that inv a by (intro go) (simp_all add: dset_def)
  note R = phi_resume [OF inv i a] and P = waiting_def lock_wait_def
  show ?thesis
  proof (cases "phi_pc s i")
    case Start
    then show ?thesis using go [of "s\<lparr>phi_iter := f\<rparr>" for f] inv a by (simp add: phi_code dine_def P)
  next
    case Thinking
    then show ?thesis using lk [of Take_in Take_wait] a by (auto simp: phi_code dine_def P)
  next
    case Take_wait
    then show ?thesis using R go [OF inv a, of Take_in] a by (auto simp: phi_code dine_def P)
  next
    case Take_in
    then show ?thesis using st [of Take_test HUNGRY] a by (auto simp: phi_code dine_def P)
  next
    case Take_test
    then show ?thesis using ts [OF i, of Take_out] a by (auto simp: phi_code dine_def P)
  next
    case Take_out
    then show ?thesis using ul [of Take_fork] a by (auto simp: phi_code dine_def P)
  next
    case Take_fork
    obtain got s' where "down (fork_sem s i) (wnode s i) s = Some (got, s')" "phi_inv (goto i (if got then Eating else Fork_wait) s')"
      "phi_abs (goto i (if got then Eating else Fork_wait) s') = dfork i (phi_abs s)"
      using phi_down_fork [OF inv i cur] by blast
    with Take_fork a show ?thesis by (auto simp: phi_code dine_def)
  next
    case Fork_wait
    then show ?thesis using R go [OF inv a, of Eating] a by (auto simp: phi_code dine_def P)
  next
    case Eating
    then show ?thesis using lk [of Put_in Put_wait] a by (auto simp: phi_code dine_def P)
  next
    case Put_wait
    then show ?thesis using R go [OF inv a, of Put_in] a by (auto simp: phi_code dine_def P)
  next
    case Put_in
    then show ?thesis using st [of Put_left THINKING] a by (auto simp: phi_code dine_def P)
  next
    case Put_left
    then show ?thesis using ts [OF neighbours(1) [OF i], of Put_right] a by (auto simp: phi_code dine_def P)
  next
    case Put_right
    then show ?thesis using ts [OF neighbours(2) [OF i], of Put_out] a by (auto simp: phi_code dine_def P)
  next
    case Put_out
    then show ?thesis using ul [of Start] a by (auto simp: phi_code dine_def P)
  qed (simp add: q)
qed

lemma phi_env_ok:
  assumes inv: "phi_inv s" and env: "phi_env s s'"
  shows "phi_inv s' \<and> phi_abs s' = phi_abs s"
proof -
  have e: "sched_inv s'" "idleproc s' = idleproc s" "sync.more s' = sync.more s" "\<And>i. i < N \<Longrightarrow> waits s' (wnode s i) = waits s (wnode s i)"
    "\<And>x. x \<in> phi_sems s \<Longrightarrow> sem_value s' x = sem_value s x \<and> wqs s' (sem_wq x) = wqs s (sem_wq x) \<and>
      (\<forall>w \<in> set (wqs s (sem_wq x)). run_state s' (w_proc (waits s w)) = run_state s (w_proc (waits s w)))"
    using env by (auto simp: phi_env_def phi_sems_def)
  note more = phils_moreD [OF e(3)]
  have si: "sem_inv x WT_KSEM s'" if x: "x \<in> phi_sems s" for x
  proof -
    have sx: "sem_inv x WT_KSEM s" using inv x by (auto simp: phi_inv_def phi_sems_def)
    have "waits s' w = waits s w" if "w \<in> set (wqs s (sem_wq x))" for w
      using phi_owner [OF inv x that] e(4) by blast
    with e(5) [OF x] show ?thesis by (intro sem_inv_frame [OF sx]) auto
  qed
  have q: "mutex_q s' = mutex_q s" "\<And>i. i < N \<Longrightarrow> fork_q s' i = fork_q s i"
    using e(5) by (simp_all add: mutex_q_def fork_q_def more phi_sems_def)
  have abs: "phi_abs s' = phi_abs s"
    using e(5) q by (auto simp: phi_abs_def more phi_sems_def fun_eq_iff)
  with inv e(1,2,4) si q show ?thesis
    unfolding phi_inv_def phi_static_def phi_sems_def more by simp
qed

lemma phi_run_ok:
  assumes "phi_run s0 s" "phi_inv s0" "dining_inv (phi_abs s0)"
  shows "phi_inv s \<and> dining_inv (phi_abs s)"
  using assms
proof (induction rule: phi_run.induct)
  case (move s i s')
  then have "phi_pc s i \<noteq> Quit" by (auto simp: phi_code)
  with phi_step [of s i] move dining_step show ?case by fastforce
next
  case (env s s')
  with phi_env_ok show ?case by fastforce
qed auto

lemma sem_init_simps [simp]:
  "sem_value (sem_init x v s) = (sem_value s)(x := v)" "wqs (sem_init x v s) = (wqs s)(sem_wq x := [])"
  "waits (sem_init x v s) = waits s" "run_state (sem_init x v s) = run_state s" "sched_inv (sem_init x v s) = sched_inv s"
  "idleproc (sem_init x v s) = idleproc s" "sync.more (sem_init x v s) = sync.more s"
  by (simp_all add: sem_init_def wait_queue_init_def)

lemma fork_init_loop:
  "sync.more (fold (\<lambda>i s. sem_init (fork_sem s i) 0 s) ns s) = sync.more s \<and>
   idleproc (fold (\<lambda>i s. sem_init (fork_sem s i) 0 s) ns s) = idleproc (s :: phils) \<and>
   sched_inv (fold (\<lambda>i s. sem_init (fork_sem s i) 0 s) ns s) = sched_inv s \<and>
   sem_value (fold (\<lambda>i s. sem_init (fork_sem s i) 0 s) ns s) x = (if x \<in> fork_sem s ` set ns then 0 else sem_value s x) \<and>
   wqs (fold (\<lambda>i s. sem_init (fork_sem s i) 0 s) ns s) q = (if q \<in> (\<lambda>i. sem_wq (fork_sem s i)) ` set ns then [] else wqs s q)"
proof (induction ns arbitrary: s)
  case (Cons i ns)
  have "fork_sem (sem_init (fork_sem s i) 0 s) = fork_sem s"
    by (rule phils_moreD) simp
  with Cons [of "sem_init (fork_sem s i) 0 s"] show ?case by auto
qed simp

lemma check_sync_start:
  assumes "phi_ready s"
  shows "phi_inv (check_sync_sema s) \<and> dining_inv (phi_abs (check_sync_sema s))"
proof -
  let ?s = "check_sync_sema s"
  have st: "phi_static s" "sched_inv s" "\<And>i. i < N \<Longrightarrow> phi_pc s i = Start" "\<And>i. i < N \<Longrightarrow> state_sema s i = THINKING"
    using assms by (simp_all add: phi_ready_def)
  have 0: "fork_sem (sem_init (mutex s) 1 s) = fork_sem s" by (rule phils_moreD) simp
  note L = fork_init_loop [where s = "sem_init (mutex s) 1 s" and ns = "[0..<N]", folded check_sync_sema_def, unfolded 0]
  have m: "sync.more ?s = sync.more s" "idleproc ?s = idleproc s" "sched_inv ?s" using L st(2) by simp_all
  note more = phils_moreD [OF m(1)]
  have v: "sem_value ?s (mutex s) = 1" "\<And>i. i < N \<Longrightarrow> sem_value ?s (fork_sem s i) = 0"
    "wqs ?s (sem_wq (mutex s)) = []" "\<And>i. i < N \<Longrightarrow> wqs ?s (sem_wq (fork_sem s i)) = []"
    using L st(1) by (auto simp: phi_static_def sem_wq_def)
  have "phi_inv ?s"
    using st m v unfolding phi_inv_def phi_static_def mutex_q_def fork_q_def more
    by (simp add: sem_inv_def wq_inv_def waiting_def lock_wait_def)
  moreover have "\<not> asleep (phi_abs ?s) i" for i
    using v by (simp add: phi_abs_def mutex_q_def fork_q_def more)
  then have "dining_inv (phi_abs ?s)"
    using st(3,4) v by (simp add: dining_inv_def lock_inv_def fork_inv_def has_lock_def place_defs seat_def more)
  ultimately show ?thesis ..
qed

section \<open>Properties\<close>

text \<open>A philosopher has the forks from its return from \<open>phi_take_forks_sema\<close> until it writes that it thinks again.\<close>

definition eats :: "phils \<Rightarrow> nat \<Rightarrow> bool" where
  "eats s i \<longleftrightarrow> phi_pc s i \<in> {Eating, Put_wait, Put_in}"

definition sleeps :: "phils \<Rightarrow> nat \<Rightarrow> bool" where
  "sleeps s i \<longleftrightarrow> (\<exists>sem \<in> phi_sems s. wnode s i \<in> set (wqs s (sem_wq sem)))"

lemma sleeps_iff: "phi_inv s \<Longrightarrow> i < N \<Longrightarrow> sleeps s i \<longleftrightarrow> asleep (phi_abs s) i"
proof -
  assume inv: "phi_inv s" and i: "i < N"
  have "asleep (phi_abs s) i" if x: "sem \<in> phi_sems s" "wnode s i \<in> set (wqs s (sem_wq sem))" for sem
  proof -
    obtain j where "j < N" "wnode s i = wnode s j" "sem = mutex s \<or> sem = fork_sem s j"
      using phi_owner [OF inv x] by blast
    with x(2) i sem_apart(4) [OF inv i] show ?thesis by (auto simp: asleep_iff)
  qed
  with i show ?thesis by (auto simp: sleeps_def asleep_iff phi_sems_def)
qed

lemma eats_EATING: "fork_inv (phi_abs s) i \<Longrightarrow> i < N \<Longrightarrow> eats s i \<Longrightarrow> state_sema s i = EATING"
  by (auto simp: fork_inv_def eats_def seat_def)

lemma someone_awake:
  assumes inv: "phi_inv s" "dining_inv (phi_abs s)" and i: "i < N" "phi_pc s i \<noteq> Quit"
  shows "\<exists>j < N. phi_pc s j \<noteq> Quit \<and> \<not> asleep (phi_abs s) j"
proof (rule ccontr)
  assume n: "\<not> (\<exists>j < N. phi_pc s j \<noteq> Quit \<and> \<not> asleep (phi_abs s) j)"
  have seat: "seat_ok (phi_abs s) j" if "j < N" for j using inv(2) that by (simp add: dining_inv_def fork_inv_def)
  have sl: "phi_pc s j = Quit \<or> phi_pc s j \<in> waiting \<and> asleep (phi_abs s) j" if "j < N" for j
    using n that asleep_at(3) [OF inv(1)] by blast
  then have nl: "\<not> has_lock (phi_abs s) j" if "j < N" for j
    using sl [OF that] by (auto simp: has_lock_def place_defs waiting_def)
  then have "lock (phi_abs s) = 1" using inv(2) by (auto simp: dining_inv_def lock_inv_def)
  then have "wqs s (sem_wq (mutex s)) = []" using inv(1) by (simp add: phi_inv_def sem_inv_def)
  then have f: "phi_pc s j = Quit \<or> phi_pc s j = Fork_wait \<and> asleep (phi_abs s) j" if "j < N" for j
    using sl [OF that] asleep_at(1) [OF inv(1) that] by (auto simp: waiting_def)
  have ne: "state_sema s j \<noteq> EATING" if "j < N" for j
    using f [OF that] seat [OF that] by (auto simp: seat_def)
  have "state_sema s i = HUNGRY" using f [OF i(1)] seat [OF i(1)] i(2) by (auto simp: seat_def)
  moreover have "\<not> test_due (phi_abs s) i"
    using f [OF i(1)] f [OF neighbours(1) [OF i(1)]] f [OF neighbours(2) [OF i(1)]] by (auto simp: test_due_def)
  ultimately show False
    using inv(2) i(1) ne [OF neighbours(1) [OF i(1)]] ne [OF neighbours(2) [OF i(1)]] by (auto simp: dining_inv_def fork_inv_def)
qed

lemma phi_demo_ready: "phi_ready phi_demo"
  by (auto simp: phi_ready_def phi_demo_def sched_inv_def rq_inv_def blank_proc_def phi_static_def inj_on_def N_def)

lemma phi_demo_sync: "check_sync_sema phi_demo = phi_demo\<lparr>sem_value := (\<lambda>_. 0)(100 := 1)\<rparr>"
  by (simp add: check_sync_sema_def N_def upt_rec sem_init_def wait_queue_init_def set_value_def phi_demo_def fun_eq_iff)

lemma phi_demo_start:
  "current (check_sync_sema phi_demo) = philosopher_proc_sema (check_sync_sema phi_demo) 0"
  "p_state (procs (check_sync_sema phi_demo) (current (check_sync_sema phi_demo))) = PROC_RUNNABLE"
  unfolding phi_demo_sync by (simp_all add: phi_demo_def)

lemmas phi_eval = phi_code down_def sem_down_now up_def sem_up_def wait_queue_first_def goto_def set_phi_def set_value_def
  phi_test_sema_def LEFT_def RIGHT_def N_def TIMES_def

text \<open>The first philosopher takes its forks.\<close>

lemma phi_demo_eats: "\<exists>s. phi_run (check_sync_sema phi_demo) s \<and> phi_pc s 0 = Eating"
proof -
  define t where "t v f x c = phi_demo\<lparr>sem_value := (\<lambda>_. 0)(100 := v, 200 := f), state_sema := (\<lambda>_. THINKING)(0 := x),
    phi_iter := (\<lambda>_. 0)(0 := 1), phi_pc := (\<lambda>_. Start)(0 := c)\<rparr>" for v f x c
  let ?run = "phi_run (check_sync_sema phi_demo)"
  note m = phi_run.move [where i = 0]
  have c: "current (t v f x c) = philosopher_proc_sema (t v f x c) 0" "p_state (procs (t v f x c) (current (t v f x c))) = PROC_RUNNABLE"
    for v f x c by (simp_all add: t_def phi_demo_def)
  have "philosopher_using_semaphore 0 (check_sync_sema phi_demo) = Some (t 1 0 THINKING Thinking)"
    unfolding phi_demo_sync by (simp add: t_def phi_demo_def phi_eval, simp add: fun_eq_iff)
  from m [OF phi_run.start _ phi_demo_start this] have "?run (t 1 0 THINKING Thinking)"
    by (simp add: N_def)
  moreover have "philosopher_using_semaphore 0 (t 1 0 THINKING Thinking) = Some (t 0 0 THINKING Take_in)"
    "philosopher_using_semaphore 0 (t 0 0 THINKING Take_in) = Some (t 0 0 HUNGRY Take_test)"
    "philosopher_using_semaphore 0 (t 0 0 HUNGRY Take_test) = Some (t 0 1 EATING Take_out)"
    "philosopher_using_semaphore 0 (t 0 1 EATING Take_out) = Some (t 1 1 EATING Take_fork)"
    "philosopher_using_semaphore 0 (t 1 1 EATING Take_fork) = Some (t 1 0 EATING Eating)"
    by (simp_all add: t_def phi_demo_def phi_eval, simp_all add: fun_eq_iff)
  ultimately have "?run (t 1 0 EATING Eating)"
    using m [OF _ _ c] by (simp add: N_def) blast
  then show ?thesis by (intro exI [of _ "t 1 0 EATING Eating"]) (simp add: t_def)
qed

text \<open>
  C12. The solution of the dining philosophers with semaphores is safe: in every run of the five threads, interleaved statement by
  statement with each other and with the rest of the kernel, two neighbours never have their forks at the same time, and at most one
  philosopher is inside a section that the mutex protects.
\<close>

theorem philosophers_exclude:
  assumes "phi_ready s0" and "phi_run (check_sync_sema s0) s" and "i < N" and "j < N"
  shows "(eats s i \<longrightarrow> \<not> eats s (LEFT i) \<and> \<not> eats s (RIGHT i)) \<and>
    (phi_pc s i \<in> critical \<longrightarrow> phi_pc s j \<in> critical \<longrightarrow> i = j)"
proof -
  have inv: "phi_inv s" "dining_inv (phi_abs s)"
    using phi_run_ok [OF assms(2)] check_sync_start [OF assms(1)] by simp_all
  then have F: "fork_inv (phi_abs s) k" if "k < N" for k using that by (simp add: dining_inv_def)
  have "state_sema s k = EATING \<Longrightarrow> state_sema s (RIGHT k) \<noteq> EATING" if "k < N" for k
    using F [OF that] by (simp add: fork_inv_def)
  then have "eats s k \<Longrightarrow> \<not> eats s (RIGHT k)" if "k < N" for k
    using eats_EATING [OF F] that neighbours(2) [OF that] by blast
  from this [of i] this [of "LEFT i"] have "eats s i \<longrightarrow> \<not> eats s (LEFT i) \<and> \<not> eats s (RIGHT i)"
    using assms(3) by auto
  moreover have "phi_pc s i \<in> critical \<longrightarrow> phi_pc s j \<in> critical \<longrightarrow> i = j"
    using inv(2) assms(3,4) by (auto simp: dining_inv_def lock_inv_def has_lock_def)
  ultimately show ?thesis ..
qed

theorem philosophers_exclude_witness:
  "\<exists>s. phi_run (check_sync_sema phi_demo) s \<and> eats s 0 \<and> \<not> eats s (LEFT 0) \<and> \<not> eats s (RIGHT 0)"
  using phi_demo_eats philosophers_exclude [OF phi_demo_ready _ less_N [THEN iffD2], of _ 0 0] by (auto simp: eats_def N_def)

text \<open>
  C13. The philosophers never get stuck. The thread that the processor is given to can always execute its next statement, no assertion
  of the semaphores fails; as long as somebody has not finished, somebody is not asleep on a semaphore; and a philosopher
  sleeps for its forks only while a neighbour eats or somebody is about to test whether it can be woken.
\<close>

theorem philosophers_not_stuck:
  assumes "phi_ready s0" and "phi_run (check_sync_sema s0) s" and "i < N" and "phi_pc s i \<noteq> Quit"
  shows "(current s = philosopher_proc_sema s i \<longrightarrow> p_state (procs s (current s)) = PROC_RUNNABLE \<longrightarrow>
      (\<exists>s'. philosopher_using_semaphore i s = Some s')) \<and>
    (\<exists>j < N. phi_pc s j \<noteq> Quit \<and> \<not> sleeps s j) \<and>
    (phi_pc s i = Fork_wait \<longrightarrow> sleeps s i \<longrightarrow>
      state_sema s (LEFT i) = EATING \<or> state_sema s (RIGHT i) = EATING \<or> test_due (phi_abs s) i)"
proof -
  have inv: "phi_inv s" "dining_inv (phi_abs s)"
    using phi_run_ok [OF assms(2)] check_sync_start [OF assms(1)] by simp_all
  have F: "fork_inv (phi_abs s) i" using inv(2) assms(3) by (simp add: dining_inv_def)
  then have "state_sema s (LEFT i) = EATING \<or> state_sema s (RIGHT i) = EATING \<or> test_due (phi_abs s) i"
    if "phi_pc s i = Fork_wait" "sleeps s i"
    using that sleeps_iff [OF inv(1) assms(3)] by (auto simp: fork_inv_def seat_def)
  moreover have "\<exists>j < N. phi_pc s j \<noteq> Quit \<and> \<not> sleeps s j"
    using someone_awake [OF inv assms(3,4)] sleeps_iff [OF inv(1)] by auto
  ultimately show ?thesis
    using phi_step [OF inv(1) assms(3) _ _ assms(4)] by blast
qed

theorem philosophers_not_stuck_witness:
  "(\<exists>s'. philosopher_using_semaphore 0 (check_sync_sema phi_demo) = Some s') \<and>
   (\<exists>j < N. phi_pc (check_sync_sema phi_demo) j \<noteq> Quit \<and> \<not> sleeps (check_sync_sema phi_demo) j)"
proof -
  have "phi_pc (check_sync_sema phi_demo) 0 \<noteq> Quit" "0 < N"
    unfolding phi_demo_sync by (simp_all add: phi_demo_def N_def)
  with philosophers_not_stuck [OF phi_demo_ready phi_run.start, of 0] phi_demo_start show ?thesis by blast
qed

end
