(* ===== verification/Sysfile.thy ===== *)
theory Sysfile
  imports File Mmu
begin

text \<open>
  The file system calls (\<^verbatim>\<open>kern/fs/sysfile.c\<close>): the operations of theory \<open>File\<close> behind the checks of user
  pointers of theory \<open>Vmm\<close>. Data passes through a buffer of the kernel, one block at a time.

  The memory in the state is what the current process sees: its own pages below \<open>2 ^ 31\<close>, the kernel above.
\<close>

section \<open>Definitions: the state\<close>

text \<open>
  \<open>mm_sem\<close> holds the values of the locks of the address spaces. \<open>held\<close> lists the buffers that are allocated and not freed;
  \<open>local_buf\<close> is the address of the local variable of \<open>sysfile_fstat\<close>.
\<close>

record sysf =
  files :: fstate
  space :: vmm
  cur_mm :: "addr option"
  cur_pid :: int
  mm_sem :: "addr \<Rightarrow> int"
  held :: "addr list"
  local_buf :: addr

definition IOBUF_SIZE :: u32 where "IOBUF_SIZE = 4096"
definition FS_MAX_FPATH_LEN :: nat where "FS_MAX_FPATH_LEN = 4095"
definition SIZEOF_STAT :: nat where "SIZEOF_STAT = 16"
definition SIZEOF_DIRENT :: nat where "SIZEOF_DIRENT = 4 + SFS_MAX_FNAME_LEN + 1"

text \<open>
  \<open>lock_mm\<close> sleeps when another thread of the address space holds the lock; the operations below are for a process that
  finds it free, and are \<open>None\<close> otherwise.
\<close>

definition lock_mm :: "sysf \<Rightarrow> sysf option" where
  "lock_mm s =
     (case cur_mm s of
        None \<Rightarrow> Some s
      | Some mm \<Rightarrow>
          do { kassert (mm_sem s mm > 0);
               Some (s\<lparr>mm_sem := (mm_sem s)(mm := mm_sem s mm - 1),
                       space := upd_mm mm (\<lambda>m. m\<lparr>locked_by := cur_pid s\<rparr>) (space s)\<rparr>) })"

definition unlock_mm :: "sysf \<Rightarrow> sysf" where
  "unlock_mm s =
     (case cur_mm s of
        None \<Rightarrow> s
      | Some mm \<Rightarrow>
          s\<lparr>mm_sem := (mm_sem s)(mm := mm_sem s mm + 1), space := upd_mm mm (\<lambda>m. m\<lparr>locked_by := 0\<rparr>) (space s)\<rparr>)"

definition buf_alloc :: "sysf \<Rightarrow> addr option \<times> sysf" where
  "buf_alloc s =
     (case kmalloc_next (fs (files s)) of
        (None, x) \<Rightarrow> (None, s\<lparr>files := (files s)\<lparr>fs := x\<rparr>\<rparr>)
      | (Some a, x) \<Rightarrow> (Some a, s\<lparr>files := (files s)\<lparr>fs := x\<rparr>, held := a # held s\<rparr>))"

definition buf_free :: "addr \<Rightarrow> sysf \<Rightarrow> sysf option" where
  "buf_free a s = do { kassert (a \<in> set (held s)); Some (s\<lparr>held := remove1 a (held s)\<rparr>) }"

definition on_files :: "(fstate \<Rightarrow> ('r \<times> fstate) option) \<Rightarrow> sysf \<Rightarrow> ('r \<times> sysf) option" where
  "on_files f s = (case f (files s) of None \<Rightarrow> None | Some (r, x) \<Rightarrow> Some (r, s\<lparr>files := x\<rparr>))"

definition upd_memory :: "(mem \<Rightarrow> mem) \<Rightarrow> sysf \<Rightarrow> sysf" where
  "upd_memory f s = s\<lparr>files := (files s)\<lparr>memory := f (memory (files s))\<rparr>\<rparr>"

definition user_copy :: "(mem \<times> vmm \<Rightarrow> bool \<times> mem \<times> vmm) \<Rightarrow> sysf \<Rightarrow> bool \<times> sysf" where
  "user_copy f s =
     (case f (memory (files s), space s) of
        (ok, m, v) \<Rightarrow> (ok, s\<lparr>files := (files s)\<lparr>memory := m\<rparr>, space := v\<rparr>))"

text \<open>A check or a copy under the lock.\<close>

definition locked :: "(sysf \<Rightarrow> 'r \<times> sysf) \<Rightarrow> sysf \<Rightarrow> ('r \<times> sysf) option" where
  "locked f s = do { s \<leftarrow> lock_mm s; let (r, s) = f s; Some (r, unlock_mm s) }"

section \<open>Definitions: the calls\<close>

definition copy_path :: "u32 \<Rightarrow> sysf \<Rightarrow> ((kerror + addr) \<times> sysf) option" where
  "copy_path from s =
     (case buf_alloc s of
        (None, s) \<Rightarrow> Some (Inl E_NO_MEM, s)
      | (Some buffer, s) \<Rightarrow>
          do { (ok, s) \<leftarrow> locked (\<lambda>s. user_copy (\<lambda>(m, v).
                 copy_string (cur_mm s) buffer from (of_nat (FS_MAX_FPATH_LEN + 1)) m v) s) s;
               if \<not> ok then do { s \<leftarrow> buf_free buffer s; Some (Inl E_INVAL, s) }
               else Some (Inr buffer, s) })"

text \<open>The string in a buffer.\<close>

definition path_at :: "addr \<Rightarrow> sysf \<Rightarrow> u8 list" where
  "path_at p s = bytes (memory (files s)) p (strnlen (memory (files s)) p (FS_MAX_FPATH_LEN + 1))"

definition with_path ::
  "u32 \<Rightarrow> (u8 list \<Rightarrow> fstate \<Rightarrow> ((kerror + 'r) \<times> fstate) option) \<Rightarrow> sysf \<Rightarrow> ((kerror + 'r) \<times> sysf) option" where
  "with_path from f s =
     and_then (copy_path from s) (\<lambda>path s.
       do { (ret, s) \<leftarrow> on_files (f (path_at path s)) s;
            s \<leftarrow> buf_free path s;
            Some (ret, s) })"

definition sysfile_open :: "u32 \<Rightarrow> u32 \<Rightarrow> sysf \<Rightarrow> ((kerror + int) \<times> sysf) option" where
  "sysfile_open from open_flags = with_path from (\<lambda>path. file_open path open_flags)"

definition sysfile_close :: "int \<Rightarrow> sysf \<Rightarrow> ((kerror + unit) \<times> sysf) option" where
  "sysfile_close fd = on_files (file_close fd)"

partial_function (option) read_loop ::
  "int \<Rightarrow> addr \<Rightarrow> u32 \<Rightarrow> u32 \<Rightarrow> u32 \<Rightarrow> sysf \<Rightarrow> (((kerror + unit) \<times> u32) \<times> sysf) option" where
  "read_loop fd buffer base len copied s =
     (if len = 0 then Some ((Inr (), copied), s)
      else
        do { let alen = (if IOBUF_SIZE > len then len else IOBUF_SIZE);
             ((ret, n), s) \<leftarrow> on_files (file_read fd buffer (unat alen)) s;
             ((ret, d), s) \<leftarrow>
               (if n \<noteq> 0 then
                  do { (ok, s) \<leftarrow> locked (\<lambda>s. user_copy (copy_to_user (cur_mm s) base buffer (of_nat n)) s) s;
                       if ok then do { kassert (len \<ge> of_nat n); Some ((ret, of_nat n), s) }
                       else Some ((if ret = Inr () then Inl E_INVAL else ret, 0), s) }
                else Some ((ret, 0), s));
             if ret \<noteq> Inr () \<or> n = 0 then Some ((ret, copied + d), s)
             else read_loop fd buffer (base + d) (len - d) (copied + d) s })"

text \<open>The number of bytes transferred if there are any, else the return code.\<close>

definition rw_result :: "(kerror + unit) \<times> u32 \<Rightarrow> kerror + u32" where
  "rw_result = (\<lambda>(ret, copied). if copied \<noteq> 0 then Inr copied else case ret of Inl e \<Rightarrow> Inl e | Inr _ \<Rightarrow> Inr 0)"

definition sysfile_read :: "int \<Rightarrow> u32 \<Rightarrow> u32 \<Rightarrow> sysf \<Rightarrow> ((kerror + u32) \<times> sysf) option" where
  "sysfile_read fd base len s =
     (if len = 0 then Some (Inr 0, s)
      else
        do { ok \<leftarrow> file_testfd fd True False (files s);
             if \<not> ok then Some (Inl E_INVAL, s)
             else
               case buf_alloc s of
                 (None, s) \<Rightarrow> Some (Inl E_NO_MEM, s)
               | (Some buffer, s) \<Rightarrow>
                   do { (r, s) \<leftarrow> read_loop fd buffer base len 0 s;
                        s \<leftarrow> buf_free buffer s;
                        Some (rw_result r, s) } })"

partial_function (option) write_loop ::
  "int \<Rightarrow> addr \<Rightarrow> u32 \<Rightarrow> u32 \<Rightarrow> u32 \<Rightarrow> sysf \<Rightarrow> (((kerror + unit) \<times> u32) \<times> sysf) option" where
  "write_loop fd buffer base len copied s =
     (if len = 0 then Some ((Inr (), copied), s)
      else
        do { let alen = (if IOBUF_SIZE > len then len else IOBUF_SIZE);
             (ok, s) \<leftarrow> locked (\<lambda>s. user_copy (copy_from_user (cur_mm s) buffer base alen False) s) s;
             if \<not> ok then Some ((Inl E_INVAL, copied), s)
             else
               do { ((ret, n), s) \<leftarrow> on_files (file_write fd buffer (unat alen)) s;
                    (if n \<noteq> 0 then kassert (len \<ge> of_nat n) else Some ());
                    if ret \<noteq> Inr () \<or> n = 0 then Some ((ret, copied + of_nat n), s)
                    else write_loop fd buffer (base + of_nat n) (len - of_nat n) (copied + of_nat n) s } })"

definition sysfile_write :: "int \<Rightarrow> u32 \<Rightarrow> u32 \<Rightarrow> sysf \<Rightarrow> ((kerror + u32) \<times> sysf) option" where
  "sysfile_write fd base len s =
     (if len = 0 then Some (Inr 0, s)
      else
        do { ok \<leftarrow> file_testfd fd False True (files s);
             if \<not> ok then Some (Inl E_INVAL, s)
             else
               case buf_alloc s of
                 (None, s) \<Rightarrow> Some (Inl E_NO_MEM, s)
               | (Some buffer, s) \<Rightarrow>
                   do { (r, s) \<leftarrow> write_loop fd buffer base len 0 s;
                        s \<leftarrow> buf_free buffer s;
                        Some (rw_result r, s) } })"

definition sysfile_seek :: "int \<Rightarrow> int \<Rightarrow> int \<Rightarrow> sysf \<Rightarrow> ((kerror + unit) \<times> sysf) option" where
  "sysfile_seek fd pos whence = on_files (file_seek fd pos whence)"

text \<open>The layout of \<open>struct stat\<close> (\<^verbatim>\<open>libs/stat.h\<close>).\<close>

definition stat_bytes :: "stat \<Rightarrow> u8 list" where
  "stat_bytes st = le32 (st_mode st) @ le32n (st_nlinks st) @ le32n (st_blocks st) @ le32n (st_size st)"

definition sysfile_fstat :: "int \<Rightarrow> u32 \<Rightarrow> sysf \<Rightarrow> ((kerror + unit) \<times> sysf) option" where
  "sysfile_fstat fd to s =
     and_then (on_files (file_fstat fd) s) (\<lambda>st s.
       do { let s = upd_memory (\<lambda>m. store_bytes m (local_buf s) (stat_bytes st)) s;
            (ok, s) \<leftarrow> locked (\<lambda>s. user_copy (copy_to_user (cur_mm s) to (local_buf s) (of_nat SIZEOF_STAT)) s) s;
            Some (if ok then Inr () else Inl E_INVAL, s) })"

definition sysfile_fsync :: "int \<Rightarrow> sysf \<Rightarrow> ((kerror + unit) \<times> sysf) option" where
  "sysfile_fsync fd = on_files (file_fsync fd)"

definition sysfile_chdir :: "u32 \<Rightarrow> sysf \<Rightarrow> ((kerror + unit) \<times> sysf) option" where
  "sysfile_chdir from = with_path from vfs_chdir"

definition with_paths ::
  "u32 \<Rightarrow> u32 \<Rightarrow> (u8 list \<Rightarrow> u8 list \<Rightarrow> kerror + unit) \<Rightarrow> sysf \<Rightarrow> ((kerror + unit) \<times> sysf) option" where
  "with_paths from1 from2 f s =
     and_then (copy_path from1 s) (\<lambda>old_path s.
       do { (r, s) \<leftarrow> copy_path from2 s;
            case r of
              Inl e \<Rightarrow> do { s \<leftarrow> buf_free old_path s; Some (Inl e, s) }
            | Inr new_path \<Rightarrow>
                do { let ret = f (path_at old_path s) (path_at new_path s);
                     s \<leftarrow> buf_free old_path s;
                     s \<leftarrow> buf_free new_path s;
                     Some (ret, s) } })"

definition sysfile_link :: "u32 \<Rightarrow> u32 \<Rightarrow> sysf \<Rightarrow> ((kerror + unit) \<times> sysf) option" where
  "sysfile_link from1 from2 = with_paths from1 from2 (\<lambda>_ _. vfs_unimplemented)"

definition sysfile_rename :: "u32 \<Rightarrow> u32 \<Rightarrow> sysf \<Rightarrow> ((kerror + unit) \<times> sysf) option" where
  "sysfile_rename from1 from2 = with_paths from1 from2 (\<lambda>_ _. vfs_unimplemented)"

definition sysfile_unlink :: "u32 \<Rightarrow> sysf \<Rightarrow> ((kerror + unit) \<times> sysf) option" where
  "sysfile_unlink from = with_path from (\<lambda>_ x. Some (vfs_unimplemented, x))"

definition sysfile_getcwd :: "u32 \<Rightarrow> u32 \<Rightarrow> sysf \<Rightarrow> ((kerror + unit) \<times> sysf) option" where
  "sysfile_getcwd buf len s =
     (if len = 0 then Some (Inl E_INVAL, s)
      else
        do { s \<leftarrow> lock_mm s;
             let (ok, v) = user_mem_check (cur_mm s) buf len True (space s);
             let s = s\<lparr>space := v\<rparr>;
             (ret, s) \<leftarrow>
               (if ok then
                  do { ((ret, _), s) \<leftarrow> on_files (vfs_getcwd (iobuf_init (unat buf) (unat len) 0)) s; Some (ret, s) }
                else Some (Inl E_INVAL, s));
             Some (ret, unlock_mm s) })"

definition sysfile_getdirentry :: "int \<Rightarrow> u32 \<Rightarrow> sysf \<Rightarrow> ((kerror + unit) \<times> sysf) option" where
  "sysfile_getdirentry fd udirent s =
     (case buf_alloc s of
        (None, s) \<Rightarrow> Some (Inl E_NO_MEM, s)
      | (Some direntp, s) \<Rightarrow>
          do { (ok, s) \<leftarrow> locked (\<lambda>s. user_copy (copy_from_user (cur_mm s) direntp udirent 4 True) s) s;
               (ret, s) \<leftarrow>
                 and_then (Some (if ok then Inr () else Inl E_INVAL, s)) (\<lambda>_ s.
                   and_then (on_files (file_getdirentry fd direntp (sint (ld32 (memory (files s)) direntp))) s) (\<lambda>offset s.
                     do { let s = upd_memory (\<lambda>m. st32 m direntp (word_of_int offset)) s;
                          (ok, s) \<leftarrow> locked (\<lambda>s. user_copy (copy_to_user (cur_mm s) udirent direntp (of_nat SIZEOF_DIRENT)) s) s;
                          Some (if ok then Inr () else Inl E_INVAL, s) }));
               s \<leftarrow> buf_free direntp s;
               Some (ret, s) })"

definition sysfile_dup :: "int \<Rightarrow> int \<Rightarrow> sysf \<Rightarrow> ((kerror + int) \<times> sysf) option" where
  "sysfile_dup fd1 fd2 = on_files (file_dup fd1 fd2)"

definition sysfile_pipe :: "kerror + unit" where "sysfile_pipe = Inl E_UNIMP"
definition sysfile_mkfifo :: "kerror + unit" where "sysfile_mkfifo = Inl E_UNIMP"

datatype sys_call =
    Sys_open u32 u32
  | Sys_close int
  | Sys_read int u32 u32
  | Sys_write int u32 u32
  | Sys_seek int int int
  | Sys_fstat int u32
  | Sys_fsync int
  | Sys_chdir u32
  | Sys_link u32 u32
  | Sys_rename u32 u32
  | Sys_unlink u32
  | Sys_getcwd u32 u32
  | Sys_getdirentry int u32
  | Sys_dup int int

fun sysfile_call :: "sys_call \<Rightarrow> sysf \<Rightarrow> sysf option" where
  "sysfile_call (Sys_open path flags) s = map_option snd (sysfile_open path flags s)"
| "sysfile_call (Sys_close fd) s = map_option snd (sysfile_close fd s)"
| "sysfile_call (Sys_read fd base len) s = map_option snd (sysfile_read fd base len s)"
| "sysfile_call (Sys_write fd base len) s = map_option snd (sysfile_write fd base len s)"
| "sysfile_call (Sys_seek fd pos whence) s = map_option snd (sysfile_seek fd pos whence s)"
| "sysfile_call (Sys_fstat fd st) s = map_option snd (sysfile_fstat fd st s)"
| "sysfile_call (Sys_fsync fd) s = map_option snd (sysfile_fsync fd s)"
| "sysfile_call (Sys_chdir path) s = map_option snd (sysfile_chdir path s)"
| "sysfile_call (Sys_link path1 path2) s = map_option snd (sysfile_link path1 path2 s)"
| "sysfile_call (Sys_rename path1 path2) s = map_option snd (sysfile_rename path1 path2 s)"
| "sysfile_call (Sys_unlink path) s = map_option snd (sysfile_unlink path s)"
| "sysfile_call (Sys_getcwd buf len) s = map_option snd (sysfile_getcwd buf len s)"
| "sysfile_call (Sys_getdirentry fd p) s = map_option snd (sysfile_getdirentry fd p s)"
| "sysfile_call (Sys_dup fd1 fd2) s = map_option snd (sysfile_dup fd1 fd2 s)"

fun sysfile_calls :: "sys_call list \<Rightarrow> sysf \<Rightarrow> sysf option" where
  "sysfile_calls [] s = Some s"
| "sysfile_calls (c # cs) s = do { s \<leftarrow> sysfile_call c s; sysfile_calls cs s }"

section \<open>Specification\<close>

text \<open>Descriptor \<open>i\<close> of the table is a regular file of the volume, at position \<open>off\<close>; \<open>file_data\<close> is what the file holds.\<close>

definition regular :: "fstate \<Rightarrow> addr \<Rightarrow> bool" where
  "regular x node \<longleftrightarrow> readable (fs x) node \<and> di_type (si_din (sins (fs x) node)) \<noteq> SFS_TYPE_DIR \<and>
     in_type (node_of x node) = Inode_type_sfs_inode_info \<and> in_ops (node_of x node) = Sfs_node_fileops \<and>
     inode_check (node_of x node) = Some ()"

definition reading :: "fstate \<Rightarrow> nat \<Rightarrow> addr \<Rightarrow> nat \<Rightarrow> bool" where
  "reading x i node off \<longleftrightarrow> fd_quiet (fd_array x) \<and> 0 < files_count x \<and> i < FILES_STRUCT_NENTRY \<and>
     status (fd_array x ! i) = FD_OPENED \<and> f_readable (fd_array x ! i) \<and> f_node (fd_array x ! i) = Some node \<and>
     f_pos (fd_array x ! i) = int off \<and> off < SFS_MAX_FILE_SIZE \<and> regular x node"

definition file_data :: "fstate \<Rightarrow> addr \<Rightarrow> u8 list" where
  "file_data x node = contents (fs x) (si_din (sins (fs x) node))"

definition file_size :: "fstate \<Rightarrow> addr \<Rightarrow> nat" where
  "file_size x node = di_size (si_din (sins (fs x) node))"

definition set_pos :: "nat \<Rightarrow> nat \<Rightarrow> fstate \<Rightarrow> fstate" where
  "set_pos i p x = x\<lparr>fd_array := (fd_array x)[i := (fd_array x ! i)\<lparr>f_pos := int p\<rparr>]\<rparr>"

text \<open>The buffer \<open>[base, base + len)\<close> of the process may be written.\<close>

definition writable :: "sysf \<Rightarrow> addr \<Rightarrow> u32 \<Rightarrow> u32 \<Rightarrow> bool" where
  "writable s mm base len \<longleftrightarrow> cur_mm s = Some mm \<and> 0 < mm_sem s mm \<and> mm_inv (space s) mm \<and>
     (len \<noteq> 0 \<longrightarrow> USER_ACCESS base (base + len) \<and>
        (\<forall>x. base \<le> x \<and> x < base + len \<longrightarrow> accessible (area_set (space s) mm) True x))"

text \<open>What a read of \<open>k\<close> bytes leaves in memory: the data at \<open>base\<close>, and scratch in the block at \<open>buffer\<close>.\<close>

definition delivered :: "mem \<Rightarrow> mem \<Rightarrow> addr \<Rightarrow> addr \<Rightarrow> u8 list \<Rightarrow> bool" where
  "delivered m m' base buffer ds \<longleftrightarrow> bytes m' base (length ds) = ds \<and>
     (\<forall>a. \<not> (base \<le> a \<and> a < base + length ds) \<and> \<not> (buffer \<le> a \<and> a < buffer + SFS_BLKSIZE) \<longrightarrow> m' a = m a)"

text \<open>What every call keeps: the locks, the allocated buffers, the areas of the process and the order of its table of files.\<close>

definition kept :: "sysf \<Rightarrow> sysf \<Rightarrow> bool" where
  "kept s s' \<longleftrightarrow> cur_mm s' = cur_mm s \<and> cur_pid s' = cur_pid s \<and> local_buf s' = local_buf s \<and> mm_sem s' = mm_sem s \<and> held s' = held s \<and>
     (\<forall>mm. cur_mm s = Some mm \<longrightarrow> mm_inv (space s) mm \<longrightarrow>
        mm_inv (space s') mm \<and> area_set (space s') mm = area_set (space s) mm) \<and>
     (fd_quiet (fd_array (files s)) \<longrightarrow> fd_quiet (fd_array (files s')) \<and> files_count (files s') = files_count (files s))"

text \<open>
  An example: a process whose descriptor 3 is a file of five bytes, at position 2, and whose memory may be written from
  \<open>0x800000\<close> to \<open>0x802000\<close>.
\<close>

definition demo_sysf :: sysf where
  "demo_sysf = \<lparr>
     files = demo_vfs\<lparr>fs := (demo_file 5 [3] (\<lambda>_. [1, 2, 3, 4, 5] @ replicate 4091 0))\<lparr>kmem := [Some 0x80010000, None]\<rparr>,
       fd_array := (fd_array demo_vfs)[3 := opened_file 3 5 2 True False]\<rparr>,
     space = demo_mm\<lparr>vmas := (\<lambda>v. \<lparr>vm_mm = 1, vm_start = 0x800000, vm_end = 0x802000, vm_flags = 3\<rparr>)\<rparr>,
     cur_mm = Some 1, cur_pid = 4, mm_sem = (\<lambda>_. 1), held = [], local_buf = 0x80020000\<rparr>"

section \<open>Reading a block\<close>

lemma num_whole_le_1:
  assumes "k \<le> SFS_BLKSIZE"
  shows "num_whole off (off + k) \<le> 1"
proof -
  have "(off + k) div SFS_BLKSIZE \<le> (off + SFS_BLKSIZE - 1 + SFS_BLKSIZE) div SFS_BLKSIZE"
    using assms by (intro div_le_mono) (simp add: SFS_BLKSIZE_def)
  also have "\<dots> = first_whole off + 1"
    by (simp add: first_whole_def SFS_BLKSIZE_def)
  finally show ?thesis by (simp add: num_whole_def)
qed

lemma contiguous_short:
  assumes "n \<le> 1"
  shows "contiguous s din k n"
proof -
  have "j = 0" if "j < n" for j using assms that by linarith
  then show ?thesis unfolding contiguous_def by (metis add.right_neutral)
qed

lemma file_read_sfs:
  assumes r: "reading x i node off" and n: "n \<le> SFS_BLKSIZE" and k: "k = min n (file_size x node - off)"
  obtains bf where "file_read (int i) base n x =
    Some ((Inr (), k), set_pos i (off + k) (x\<lparr>fs := (fs x)\<lparr>sfs_buffer := bf\<rparr>,
      memory := store_bytes (memory x) base (slice (file_data x node) off k)\<rparr>))"
proof -
  let ?e = "fd_array x ! i"
  have R: "fd_quiet (fd_array x)" "i < FILES_STRUCT_NENTRY" "status ?e = FD_OPENED" "f_node ?e = Some node" "f_pos ?e = int off"
    "f_readable ?e" "0 < files_count x" "off < SFS_MAX_FILE_SIZE"
    "readable (fs x) node" "di_type (si_din (sins (fs x) node)) \<noteq> SFS_TYPE_DIR" "in_type (node_of x node) = Inode_type_sfs_inode_info"
    "in_ops (node_of x node) = Sfs_node_fileops" "inode_check (node_of x node) = Some ()"
    using r by (simp_all add: reading_def regular_def)
  have e: "f_fd ?e = int i" "f_open_count ?e = 1" and l: "i < length (fd_array x)"
    using fd_quiet_entry [OF R(1,2)] R(2,3) fd_quiet_length [OF R(1)] by (auto simp: quiet_entry_def)
  have fd: "fd2file (int i) x = Some (Inr i)"
    using R e by (simp add: fd2file_def testfd_def get_fd_array_def)
  let ?iob = "iobuf_init base n (int off)"
  have sm: "off + n < 2 ^ 31"
    using R(8) n by (simp add: SFS_MAX_FILE_SIZE_def SFS_BLKSIZE_def)
  have "contiguous (fs x) (si_din (sins (fs x) node)) (first_whole off) (num_whole off (off + k))"
    using k n by (intro contiguous_short num_whole_le_1) simp
  with sfs_read_ok [OF R(9-11), of ?iob off k "memory x"] R(8) sm k
  obtain bf where sr: "sfs_read node ?iob (memory x) (fs x) =
    Some (Inr (), ?iob\<lparr>io_base := base + k, io_offset := int off + int k, io_resid := n - k\<rparr>,
      store_bytes (memory x) base (slice (file_data x node) off k), (fs x)\<lparr>sfs_buffer := bf\<rparr>)"
    by (auto simp: iobuf_init_def file_data_def file_size_def)
  have op: "vop_op Vop_read node (fs x) = Some ()"
    using R(12,13) by (simp add: vop_op_def sfs_node_fileops_def)
  have "off_t (int off + int k) = int (off + k)"
    using off_t_id [of "int (off + k)"] sm k by simp
  moreover have "n - (n - k) = k" using k by simp
  ultimately have res: "file_read (int i) base n x = Some ((Inr (), k), x\<lparr>fs := (fs x)\<lparr>sfs_buffer := bf\<rparr>,
      memory := store_bytes (memory x) base (slice (file_data x node) off k),
      fd_array := (fd_array x)[i := ?e\<lparr>f_pos := int (off + k), f_open_count := 1\<rparr>]\<rparr>)"
    using R(2-6) e l fd sr op R(12)
    by (simp add: file_read_def file_rw_def acquire_opened vop_read_def on_fs_mem_def on_fds_def release_held upd_fd_def
        iobuf_used_def iobuf_init_def Let_def)
  have eq: "?e\<lparr>f_pos := int (off + k), f_open_count := 1\<rparr> = ?e\<lparr>f_pos := int (off + k)\<rparr>"
    using e(2) by (cases ?e) simp
  show ?thesis
    by (rule that [of bf]) (simp only: res eq, simp add: set_pos_def)
qed

section \<open>The lock and the check of pointers\<close>

lemma locked_by_frame [simp]:
  "mm_inv (upd_mm mm (\<lambda>m. m\<lparr>locked_by := p\<rparr>) v) mm' = mm_inv v mm'"
  "area_set (upd_mm mm (\<lambda>m. m\<lparr>locked_by := p\<rparr>) v) mm' = area_set v mm'"
  by (simp_all add: upd_mm_def mm_inv_def area_set_def)

lemma locked_user:
  assumes mm: "cur_mm s = Some mm" "0 < mm_sem s mm" and inv: "mm_inv (space s) mm"
    and f: "\<And>m v ok m' v'. mm_inv v mm \<Longrightarrow> f (m, v) = (ok, m', v') \<Longrightarrow>
      mm_inv v' mm \<and> area_set v' mm = area_set v mm \<and> P (area_set v mm) m ok m'"
  obtains ok m' v where "locked (user_copy f) s = Some (ok, s\<lparr>files := (files s)\<lparr>memory := m'\<rparr>, space := v\<rparr>)"
    "mm_inv v mm" "area_set v mm = area_set (space s) mm" "P (area_set (space s) mm) (memory (files s)) ok m'"
proof -
  let ?v = "upd_mm mm (\<lambda>m. m\<lparr>locked_by := cur_pid s\<rparr>) (space s)"
  obtain ok m' v' where e: "f (memory (files s), ?v) = (ok, m', v')" by (cases "f (memory (files s), ?v)")
  have "mm_inv ?v mm" using inv by simp
  from f [OF this e] have r: "mm_inv v' mm" "area_set v' mm = area_set (space s) mm" "P (area_set (space s) mm) (memory (files s)) ok m'"
    by simp_all
  show ?thesis
  proof (rule that [where ok = ok and m' = m' and v = "upd_mm mm (\<lambda>m. m\<lparr>locked_by := 0\<rparr>) v'"])
    show "locked (user_copy f) s = Some (ok, s\<lparr>files := (files s)\<lparr>memory := m'\<rparr>, space := upd_mm mm (\<lambda>m. m\<lparr>locked_by := 0\<rparr>) v'\<rparr>)"
      using mm e by (simp add: locked_def lock_mm_def unlock_mm_def user_copy_def Let_def)
  qed (use r in simp_all)
qed

lemma copy_to_user_ok:
  assumes "mm_inv v mm" "copy_to_user (Some mm) dst src len (m, v) = (ok, m', v')"
  shows "mm_inv v' mm \<and> area_set v' mm = area_set v mm \<and>
    (ok \<longleftrightarrow> USER_ACCESS dst (dst + len) \<and> (\<forall>x. dst \<le> x \<and> x < dst + len \<longrightarrow> accessible (area_set v mm) True x)) \<and>
    m' = (if ok then memcpy m (unat dst) src (unat len) else m)"
proof (cases "user_mem_check (Some mm) dst len True v")
  case (Pair b v1)
  have "ok = b \<and> v' = v1 \<and> m' = (if b then memcpy m (unat dst) src (unat len) else m)"
    using assms(2) Pair by (cases b) (simp_all add: copy_to_user_def)
  with user_mem_check_ok [OF assms(1) Pair] show ?thesis by simp
qed

lemma writable_to_user:
  assumes w: "writable s mm base len" and n: "0 < n" "n \<le> unat len" and b: "2 ^ 31 \<le> buf"
  obtains v where "locked (\<lambda>s. user_copy (copy_to_user (cur_mm s) base buf (of_nat n)) s) s =
      Some (True, s\<lparr>files := (files s)\<lparr>memory := memmove (memory (files s)) (unat base) buf n\<rparr>, space := v\<rparr>)"
    "mm_inv v mm" "area_set v mm = area_set (space s) mm"
    "unat (base + of_nat n) = unat base + n" "unat (len - of_nat n) = unat len - n"
    "\<And>x. writable (s\<lparr>files := x, space := v\<rparr>) mm (base + of_nat n) (len - of_nat n)"
proof -
  have W: "cur_mm s = Some mm" "0 < mm_sem s mm" "mm_inv (space s) mm" "USER_ACCESS base (base + len)"
    "\<forall>x. base \<le> x \<and> x < base + len \<longrightarrow> accessible (area_set (space s) mm) True x"
    using w n by (auto simp: writable_def)
  let ?n = "of_nat n :: u32"
  have un: "unat ?n = n" using n(2) unat32 [of len] by (simp add: unat_of_nat)
  then have n0: "?n \<noteq> 0" using n(1) by auto
  note A = user_access_part [OF W(4) n0]
  have lk: "locked (\<lambda>s. user_copy (copy_to_user (cur_mm s) base buf ?n) s) s = locked (user_copy (copy_to_user (Some mm) base buf ?n)) s"
    using W(1,2) by (simp add: locked_def lock_mm_def)
  have acc: "USER_ACCESS base (base + ?n)" "\<forall>x. base \<le> x \<and> x < base + ?n \<longrightarrow> accessible (area_set (space s) mm) True x"
    using A(1,2) un n(2) W(5) by (auto intro: less_le_trans)
  define P where "P A m ok m' \<longleftrightarrow>
    (ok \<longleftrightarrow> USER_ACCESS base (base + ?n) \<and> (\<forall>x. base \<le> x \<and> x < base + ?n \<longrightarrow> accessible A True x)) \<and>
    m' = (if ok then memcpy m (unat base) buf n else m)" for A and m :: mem and ok m'
  have P: "mm_inv v' mm \<and> area_set v' mm = area_set v mm \<and> P (area_set v mm) m ok m'"
    if "mm_inv v mm" "copy_to_user (Some mm) base buf ?n (m, v) = (ok, m', v')" for m v ok m' v'
    using copy_to_user_ok [OF that] unfolding P_def un .
  obtain ok m' v where v: "locked (user_copy (copy_to_user (Some mm) base buf ?n)) s =
      Some (ok, s\<lparr>files := (files s)\<lparr>memory := m'\<rparr>, space := v\<rparr>)"
    "mm_inv v mm" "area_set v mm = area_set (space s) mm" "P (area_set (space s) mm) (memory (files s)) ok m'"
    by (rule locked_user [OF W(1-3), where f = "copy_to_user (Some mm) base buf ?n" and P = P]) (erule P, assumption, rule that)
  have ok: "ok" "m' = memcpy (memory (files s)) (unat base) buf n" using v(4) acc by (simp_all add: P_def)
  have "memcpy (memory (files s)) (unat base) buf n = memmove (memory (files s)) (unat base) buf n"
    using user_range(2) [OF acc(1)] b un unfolding memcpy_def by (intro copy_up_eq_memmove) simp
  with v(1) ok lk have 1: "locked (\<lambda>s. user_copy (copy_to_user (cur_mm s) base buf ?n) s) s =
      Some (True, s\<lparr>files := (files s)\<lparr>memory := memmove (memory (files s)) (unat base) buf n\<rparr>, space := v\<rparr>)" by simp
  have 2: "unat (base + ?n) = unat base + n" "unat (len - ?n) = unat len - n"
    using A(3) un n(2) by (simp_all add: unat_sub word_le_nat_alt)
  have "writable (s\<lparr>files := x, space := v\<rparr>) mm (base + ?n) (len - ?n)" for x
  proof -
    have "USER_ACCESS (base + ?n) (base + ?n + (len - ?n))" if "len - ?n \<noteq> 0"
      using A(4) un n(2) 2(2) that by (metis diff_is_0_eq le_neq_implies_less unat_eq_zero)
    moreover have "accessible (area_set (space s) mm) True y" if "base + ?n \<le> y" "y < base + len" for y
      using W(5) that 2(1) by (auto simp: word_le_nat_alt)
    ultimately show ?thesis
      using W(1,2) v(2,3) by (auto simp: writable_def)
  qed
  with that 1 2 v(2,3) show ?thesis by blast
qed

section \<open>Reading a file\<close>

lemma bytes_append: "bytes m p (a + b) = bytes m p a @ bytes m (p + a) b"
  by (rule nth_equalityI) (auto simp: bytes_def nth_append)

lemma length_file_data:
  assumes "regular x node"
  shows "file_size x node \<le> length (file_data x node)"
proof -
  have r: "readable (fs x) node" using assms by (simp add: regular_def)
  let ?d = "si_din (sins (fs x) node)"
  have "length (file_data x node) = (\<Sum>i\<leftarrow>[0..<di_blocks ?d]. SFS_BLKSIZE)"
    unfolding file_data_def contents_def length_concat map_map
    by (rule arg_cong [where f = sum_list], rule map_cong) (auto simp: block_length [OF r])
  then show ?thesis
    using r by (simp add: sum_list_triv file_size_def readable_def)
qed

lemma delivered_step:
  assumes d: "length ds \<le> SFS_BLKSIZE" and b: "base + length ds + length es \<le> 2 ^ 31" "2 ^ 31 \<le> buffer"
    and r: "delivered (memmove (store_bytes m buffer ds) base buffer (length ds)) m' (base + length ds) buffer es"
  shows "delivered m m' base buffer (ds @ es)"
proof -
  let ?m1 = "memmove (store_bytes m buffer ds) base buffer (length ds)"
  have m1: "?m1 a = (if base \<le> a \<and> a < base + length ds then ds ! (a - base)
      else if buffer \<le> a \<and> a < buffer + length ds then ds ! (a - buffer) else m a)" for a
    using b by (auto simp: memmove_ok store_bytes_def)
  have "m' a = ?m1 a" if "base \<le> a" "a < base + length ds" for a
    using r that b by (auto simp: delivered_def)
  then have "bytes m' base (length ds) = ds"
    by (intro nth_equalityI) (auto simp: bytes_def m1)
  then show ?thesis
    using r d unfolding delivered_def by (auto simp: bytes_append m1)
qed

lemma reading_step:
  assumes "reading x i node off" "off + k \<le> file_size x node \<or> k = 0"
  shows "reading (set_pos i (off + k) (x\<lparr>fs := (fs x)\<lparr>sfs_buffer := bf\<rparr>, memory := m\<rparr>)) i node (off + k)"
    "file_size (set_pos i p (x\<lparr>fs := (fs x)\<lparr>sfs_buffer := bf\<rparr>, memory := m\<rparr>)) node = file_size x node"
    "file_data (set_pos i p (x\<lparr>fs := (fs x)\<lparr>sfs_buffer := bf\<rparr>, memory := m\<rparr>)) node = file_data x node"
proof -
  have R: "fd_quiet (fd_array x)" "i < FILES_STRUCT_NENTRY" "status (fd_array x ! i) = FD_OPENED" "readable (fs x) node" "off < SFS_MAX_FILE_SIZE"
    using assms(1) by (auto simp: reading_def regular_def)
  have l: "i < length (fd_array x)" using R(1,2) fd_quiet_length by simp
  have "quiet_entry i (fd_array x ! i)" using fd_quiet_entry [OF R(1,2)] .
  then have "quiet_entry i ((fd_array x ! i)\<lparr>f_pos := int (off + k)\<rparr>)" by (simp add: quiet_entry_def)
  then have "fd_quiet ((fd_array x)[i := (fd_array x ! i)\<lparr>f_pos := int (off + k)\<rparr>])"
    by (rule fd_quiet_update [OF R(1)])
  moreover have "off + k < SFS_MAX_FILE_SIZE"
    using assms(2) readable_small [OF R(4)] R(5) by (auto simp: file_size_def)
  ultimately show "reading (set_pos i (off + k) (x\<lparr>fs := (fs x)\<lparr>sfs_buffer := bf\<rparr>, memory := m\<rparr>)) i node (off + k)"
    using assms(1) l by (simp add: reading_def regular_def set_pos_def)
  show "file_size (set_pos i p (x\<lparr>fs := (fs x)\<lparr>sfs_buffer := bf\<rparr>, memory := m\<rparr>)) node = file_size x node"
    "file_data (set_pos i p (x\<lparr>fs := (fs x)\<lparr>sfs_buffer := bf\<rparr>, memory := m\<rparr>)) node = file_data x node"
    by (simp_all add: set_pos_def file_size_def file_data_def)
qed

lemma set_pos_set_pos: "i < length (fd_array x) \<Longrightarrow>
    set_pos i q ((set_pos i p (x\<lparr>fs := f, memory := m\<rparr>))\<lparr>fs := f', memory := m'\<rparr>) = set_pos i q (x\<lparr>fs := f', memory := m'\<rparr>)"
  by (simp add: set_pos_def)

lemma read_loop_ok:
  assumes "reading (files s) i node off" "writable s mm base len" "2 ^ 31 \<le> buffer"
    and "k = min (unat len) (file_size (files s) node - off)"
  shows "\<exists>m bf v. read_loop (int i) buffer base len copied s =
      Some ((Inr (), copied + of_nat k), s\<lparr>files := set_pos i (off + k) ((files s)\<lparr>fs := (fs (files s))\<lparr>sfs_buffer := bf\<rparr>, memory := m\<rparr>),
        space := v\<rparr>) \<and>
    delivered (memory (files s)) m (unat base) buffer (slice (file_data (files s) node) off k) \<and>
    mm_inv v mm \<and> area_set v mm = area_set (space s) mm"
  using assms
proof (induction "unat len" arbitrary: len s base off copied k rule: less_induct)
  case less
  note R = less.prems(1) and W = less.prems(2) and B = less.prems(3) and K = less.prems(4)
  let ?x = "files s"
  have id: "set_pos i off (?x\<lparr>fs := (fs ?x)\<lparr>sfs_buffer := sfs_buffer (fs ?x)\<rparr>, memory := memory ?x\<rparr>) = ?x"
    using R by (simp add: set_pos_def reading_def list_update_same_conv fd_quiet_length)
  show ?case
  proof (cases "len = 0")
    case True
    then have "read_loop (int i) buffer base len copied s = Some ((Inr (), copied), s)" "k = 0"
      using K by (simp_all add: read_loop.simps)
    with id W show ?thesis
      by (intro exI [of _ "memory ?x"] exI [of _ "sfs_buffer (fs ?x)"] exI [of _ "space s"])
        (simp add: delivered_def bytes_def writable_def)
  next
    case False
    define alen where "alen = (if IOBUF_SIZE > len then len else IOBUF_SIZE)"
    define n where "n = min (unat alen) (file_size ?x node - off)"
    define ds where "ds = slice (file_data ?x node) off n"
    have al: "unat alen = min (unat len) SFS_BLKSIZE"
      by (auto simp: alen_def IOBUF_SIZE_def SFS_BLKSIZE_def word_less_nat_alt)
    have nk: "n \<le> SFS_BLKSIZE" "n \<le> unat len" "n \<le> k" "off + n \<le> file_size ?x node \<or> n = 0" "n = 0 \<Longrightarrow> k = 0"
      using K al False by (auto simp: n_def SFS_BLKSIZE_def unat_eq_zero)
    have kn: "k - n = min (unat len - n) (file_size ?x node - (off + n))"
      using nk(2,3) K by linarith
    have "length (file_data ?x node) \<ge> file_size ?x node" using R length_file_data by (simp add: reading_def)
    moreover have "k - n \<le> file_size ?x node - (off + n)" using kn by simp
    ultimately have lds: "length ds = n" and lsl: "length (slice (file_data ?x node) (off + n) (k - n)) = k - n"
      using nk(4) by (auto simp: ds_def slice_def)
    obtain bf where "file_read (int i) buffer (unat alen) ?x =
      Some ((Inr (), n), set_pos i (off + n) (?x\<lparr>fs := (fs ?x)\<lparr>sfs_buffer := bf\<rparr>, memory := store_bytes (memory ?x) buffer ds\<rparr>))"
      using file_read_sfs [OF R, of "unat alen" n buffer] al by (auto simp: n_def ds_def)
    moreover define s1 where "s1 = s\<lparr>files := set_pos i (off + n) (?x\<lparr>fs := (fs ?x)\<lparr>sfs_buffer := bf\<rparr>, memory := store_bytes (memory ?x) buffer ds\<rparr>)\<rparr>"
    ultimately have fr: "on_files (file_read (int i) buffer (unat alen)) s = Some ((Inr (), n), s1)"
      by (simp add: on_files_def)
    show ?thesis
    proof (cases "n = 0")
      case True
      then have "read_loop (int i) buffer base len copied s = Some ((Inr (), copied), s1)"
        using False fr by (subst read_loop.simps) (simp flip: alen_def)
      with True nk(5) W show ?thesis
        by (intro exI [of _ "store_bytes (memory ?x) buffer ds"] exI [of _ bf] exI [of _ "space s"])
          (simp add: s1_def delivered_def bytes_def writable_def ds_def store_bytes_def)
    next
      case n0: False
      have W1: "writable s1 mm base len" using W by (simp add: writable_def s1_def)
      let ?m1 = "memmove (store_bytes (memory ?x) buffer ds) (unat base) buffer n"
      obtain v where v: "locked (\<lambda>s. user_copy (copy_to_user (cur_mm s) base buffer (of_nat n)) s) s1 =
          Some (True, s1\<lparr>files := (files s1)\<lparr>memory := ?m1\<rparr>, space := v\<rparr>)"
        "mm_inv v mm" "area_set v mm = area_set (space s1) mm"
        "unat (base + of_nat n) = unat base + n" "unat (len - of_nat n) = unat len - n"
        "\<And>x. writable (s1\<lparr>files := x, space := v\<rparr>) mm (base + of_nat n) (len - of_nat n)"
        using writable_to_user [OF W1 _ nk(2) B] n0 by (auto simp: s1_def set_pos_def)
      define s2 where "s2 = s1\<lparr>files := (files s1)\<lparr>memory := ?m1\<rparr>, space := v\<rparr>"
      have x2: "files s2 = set_pos i (off + n) (?x\<lparr>fs := (fs ?x)\<lparr>sfs_buffer := bf\<rparr>, memory := ?m1\<rparr>)"
        by (simp add: s2_def s1_def set_pos_def)
      have le: "(of_nat n :: u32) \<le> len"
        using nk(2) unat32 [of len] by (simp add: word_le_nat_alt unat_of_nat)
      have step: "read_loop (int i) buffer base len copied s =
          read_loop (int i) buffer (base + of_nat n) (len - of_nat n) (copied + of_nat n) s2"
        using False fr v(1) n0 le by (subst read_loop.simps) (simp add: s2_def flip: alen_def)
      note F = reading_step [OF R nk(4)]
      have "\<exists>m bf v. read_loop (int i) buffer (base + of_nat n) (len - of_nat n) (copied + of_nat n) s2 =
          Some ((Inr (), copied + of_nat n + of_nat (k - n)), s2\<lparr>files := set_pos i (off + n + (k - n)) ((files s2)\<lparr>fs := (fs (files s2))\<lparr>sfs_buffer := bf\<rparr>, memory := m\<rparr>),
            space := v\<rparr>) \<and>
        delivered (memory (files s2)) m (unat (base + of_nat n)) buffer (slice (file_data (files s2) node) (off + n) (k - n)) \<and>
        mm_inv v mm \<and> area_set v mm = area_set (space s2) mm"
      proof (rule less.hyps)
        show "unat (len - of_nat n) < unat len" using v(5) nk(2) n0 by simp
        show "reading (files s2) i node (off + n)" unfolding x2 by (rule F(1))
        show "writable s2 mm (base + of_nat n) (len - of_nat n)" unfolding s2_def by (rule v(6))
        show "k - n = min (unat (len - of_nat n)) (file_size (files s2) node - (off + n))"
          using kn v(5) unfolding x2 F(2) by simp
      qed (rule B)
      then obtain m bf' v' where r: "read_loop (int i) buffer (base + of_nat n) (len - of_nat n) (copied + of_nat n) s2 =
          Some ((Inr (), copied + of_nat n + of_nat (k - n)), s2\<lparr>files := set_pos i (off + n + (k - n)) ((files s2)\<lparr>fs := (fs (files s2))\<lparr>sfs_buffer := bf'\<rparr>, memory := m\<rparr>),
            space := v'\<rparr>)"
        "delivered (memory (files s2)) m (unat (base + of_nat n)) buffer (slice (file_data (files s2) node) (off + n) (k - n))"
        "mm_inv v' mm" "area_set v' mm = area_set (space s2) mm"
        by blast
      have l: "i < length (fd_array ?x)" using R by (simp add: reading_def fd_quiet_length)
      have sp: "space s2 = v" "space s1 = space s" "memory (files s2) = ?m1" "fs (files s2) = (fs ?x)\<lparr>sfs_buffer := bf\<rparr>"
        by (simp_all add: s2_def s1_def set_pos_def)
      have e1: "s2\<lparr>files := y, space := v'\<rparr> = s\<lparr>files := y, space := v'\<rparr>" for y by (simp add: s2_def s1_def)
      have e2: "set_pos i (off + k) ((files s2)\<lparr>fs := (fs (files s2))\<lparr>sfs_buffer := bf'\<rparr>, memory := m\<rparr>) =
          set_pos i (off + k) (?x\<lparr>fs := (fs ?x)\<lparr>sfs_buffer := bf'\<rparr>, memory := m\<rparr>)"
        unfolding x2 by (subst set_pos_set_pos [OF l]) (simp add: set_pos_def)
      have e3: "copied + of_nat n + of_nat (k - n) = copied + of_nat k" "off + n + (k - n) = off + k"
        using nk(3) by (simp_all add: of_nat_diff)
      have fd2: "file_data (files s2) node = file_data ?x node" unfolding x2 by (rule F(3))
      have "unat base + n + (k - n) \<le> 2 ^ 31"
        using user_range(2) [of base len] W False K nk(3) by (auto simp: writable_def)
      then have "delivered (memory ?x) m (unat base) buffer (ds @ slice (file_data ?x node) (off + n) (k - n))"
        using r(2) nk(1) B lds lsl unfolding sp(3) fd2 v(4) by (intro delivered_step) simp_all
      moreover have "ds @ slice (file_data ?x node) (off + n) (k - n) = slice (file_data ?x node) off k"
        using slice_add [of "file_data ?x node" off n "k - n"] nk(3) by (simp add: ds_def)
      ultimately show ?thesis
        using r(1) [unfolded e3 e1 e2] r(3,4) v(3) unfolding step sp(1,2) by metis
    qed
  qed
qed

lemma kmem_only [simp]:
  "file_ok (x\<lparr>kmem := r\<rparr>) din = file_ok x din" "contents (x\<lparr>kmem := r\<rparr>) din = contents x din" "readable (x\<lparr>kmem := r\<rparr>) sin = readable x sin"
proof -
  have b: "bmap_of (x\<lparr>kmem := r\<rparr>) = bmap_of x" by (intro ext) (simp add: bmap_of_def)
  have f: "free_blocks (x\<lparr>kmem := r\<rparr>) = free_blocks x" "dev_works (x\<lparr>kmem := r\<rparr>) = dev_works x"
    by (simp_all add: free_blocks_def dev_works_def dev_keeps_def dev_drops_def)
  with b show "file_ok (x\<lparr>kmem := r\<rparr>) din = file_ok x din" by (simp add: file_ok_def used_block_def)
  with b f show "contents (x\<lparr>kmem := r\<rparr>) din = contents x din" "readable (x\<lparr>kmem := r\<rparr>) sin = readable x sin"
    by (simp_all add: contents_def readable_def file_ok_def used_block_def sfs_ok_def)
qed

lemma rw_result_Inr [simp]: "rw_result (Inr (), c) = Inr c"
  by (simp add: rw_result_def)

section \<open>What every call keeps\<close>

text \<open>
  The contract of the operations that touch user memory: they leave the areas of the address space alone. A copy under the
  lock then keeps everything a call has to keep.
\<close>

lemma kept_refl [simp]: "kept s s"
  by (simp add: kept_def)

lemma kept_trans [trans]: "kept s t \<Longrightarrow> kept t u \<Longrightarrow> kept s u"
  by (simp add: kept_def)

locale user_op =
  fixes access :: "addr option \<Rightarrow> mem \<times> vmm \<Rightarrow> bool \<times> mem \<times> vmm"
  assumes keeps_areas: "access (Some mm) (m, v) = (ok, m', v') \<Longrightarrow> mm_inv v mm \<Longrightarrow>
    mm_inv v' mm \<and> area_set v' mm = area_set v mm"
begin

lemma locked_kept:
  assumes "locked (\<lambda>s. user_copy (access (cur_mm s)) s) s = Some (ok, s')"
  shows "kept s s'"
proof (cases "cur_mm s")
  case None
  with assms show ?thesis
    by (auto simp: locked_def lock_mm_def unlock_mm_def user_copy_def kept_def split: prod.splits)
next
  case (Some mm)
  let ?v = "upd_mm mm (\<lambda>m. m\<lparr>locked_by := cur_pid s\<rparr>) (space s)"
  obtain b m v where e: "access (Some mm) (memory (files s), ?v) = (b, m, v)"
    by (cases "access (Some mm) (memory (files s), ?v)")
  have "mm_inv v mm \<and> area_set v mm = area_set (space s) mm" if "mm_inv (space s) mm"
    using keeps_areas [OF e] that by simp
  moreover have "s' = s\<lparr>files := (files s)\<lparr>memory := m\<rparr>, space := upd_mm mm (\<lambda>m. m\<lparr>locked_by := 0\<rparr>) v\<rparr>"
    using assms Some e by (simp add: locked_def lock_mm_def unlock_mm_def user_copy_def Let_def bind_kassert split: if_splits)
  ultimately show ?thesis
    using Some by (simp add: kept_def)
qed

end

lemma copy_string_loop_areas:
  "copy_string_loop mm dst src maxn part m s = (b, m', s') \<Longrightarrow> mm = Some p \<Longrightarrow> mm_inv s p \<Longrightarrow>
    mm_inv s' p \<and> area_set s' p = area_set s p"
proof (induction mm dst src maxn part m s rule: copy_string_loop.induct)
  case (1 mm dst src maxn part m s)
  let ?p = "if part > maxn then maxn else part"
  obtain ok v where c: "user_mem_check mm src ?p False s = (ok, v)" by (cases "user_mem_check mm src ?p False s")
  have k: "mm_inv v p \<and> area_set v p = area_set s p"
    using user_mem_check_ok [of s p src ?p False ok v] c "1.prems" by simp
  have e: "copy_string_loop mm dst src maxn part m s =
    (if \<not> ok then (False, m, v)
     else let alen = strnlen m (unat src) (unat ?p)
          in if alen < unat ?p then (True, memcpy m dst (unat src) (alen + 1), v)
             else if ?p = maxn then (False, m, v)
             else copy_string_loop mm (dst + unat ?p) (src + ?p) (maxn - ?p) PGSIZE (memcpy m dst (unat src) (unat ?p)) v)"
    by (subst copy_string_loop.simps) (simp only: Let_def c prod.case bool.case_eq_if split: if_splits, cases ok; simp)
  show ?case
  proof (cases "ok \<and> \<not> strnlen m (unat src) (unat ?p) < unat ?p \<and> ?p \<noteq> maxn")
    case True
    then have "copy_string_loop mm (dst + unat ?p) (src + ?p) (maxn - ?p) PGSIZE (memcpy m dst (unat src) (unat ?p)) v = (b, m', s')"
      using "1.prems"(1) unfolding e by (simp add: Let_def)
    with "1.IH" [OF refl c [symmetric]] True k "1.prems"(2) show ?thesis
      by simp
  next
    case False
    then have "s' = v" using "1.prems"(1) unfolding e by (auto simp: Let_def split: if_splits)
    with k show ?thesis by simp
  qed
qed

interpretation to_user: user_op "\<lambda>mm. copy_to_user mm dst src len" for dst src len
  by unfold_locales (use copy_to_user_ok in blast)

interpretation from_user: user_op "\<lambda>mm. copy_from_user mm dst src len wr" for dst src len wr
  by unfold_locales (auto simp: copy_from_user_def split: prod.splits bool.splits dest: user_mem_check_ok)

interpretation string_user: user_op "\<lambda>mm (m, v). copy_string mm dst src maxn m v" for dst src maxn
  by unfold_locales (auto simp: copy_string_def dest: copy_string_loop_areas)

lemma on_files_kept:
  assumes "on_files f s = Some (r, s')"
    and "\<And>x r x'. f x = Some (r, x') \<Longrightarrow> fd_quiet (fd_array x) \<Longrightarrow> fd_quiet (fd_array x') \<and> files_count x' = files_count x"
  shows "kept s s'"
  using assms by (auto simp: on_files_def kept_def split: option.splits)

lemma on_files_step:
  assumes "on_files f s = Some (r, s')" and "\<And>x. map_option snd (f x) = file_step c x"
  shows "kept s s'"
  using assms(1) by (rule on_files_kept) (metis assms(2) file_step_quiet option.simps(9) snd_conv)

lemma on_files_same:
  assumes "on_files f s = Some (r, s')" and "\<And>x r x'. f x = Some (r, x') \<Longrightarrow> same_fds x x'"
  shows "kept s s'"
  using assms(1) by (rule on_files_kept) (use assms(2) in \<open>fastforce simp: same_fds_def\<close>)

lemma buf_alloc_kept: "buf_alloc s = (None, s') \<Longrightarrow> kept s s'"
  by (auto simp: buf_alloc_def kept_def kmalloc_next_def split: prod.splits option.splits list.splits)

lemma buf_alloc_Some: "buf_alloc s = (Some b, s') \<Longrightarrow> kept (s\<lparr>held := b # held s\<rparr>) s'"
  by (auto simp: buf_alloc_def kept_def kmalloc_next_def split: prod.splits option.splits list.splits)

lemma buf_free_kept:
  assumes "kept (s\<lparr>held := b # held s\<rparr>) s'" "buf_free b s' = Some t"
  shows "kept s t"
  using assms by (auto simp: kept_def buf_free_def bind_kassert split: if_splits)

lemma upd_memory_kept [simp]: "kept s (upd_memory f s)"
  by (simp add: kept_def upd_memory_def)

lemma read_loop_kept:
  assumes "read_loop fd buffer base len copied s = Some y"
  shows "kept s (snd y)"
proof (rule read_loop.raw_induct [where P = "\<lambda>_ _ _ _ _ s y. kept s (snd y)", OF _ assms], goal_cases)
  case 1: (1 loop fd buffer base len copied s y)
  let ?alen = "if IOBUF_SIZE > len then len else IOBUF_SIZE"
  show ?case
  proof (cases "len = 0")
    case True
    with 1(2) show ?thesis by auto
  next
    case False
    with 1(2) obtain ret n s1 where r: "on_files (file_read fd buffer (unat ?alen)) s = Some ((ret, n), s1)"
      by (auto simp: bind_eq_Some_conv)
    have k1: "kept s s1"
      using r by (rule on_files_step [where c = "Call_read fd buffer (unat ?alen)"]) simp
    show ?thesis
    proof (cases "n = 0")
      case True
      with 1(2) False r k1 show ?thesis by (auto simp: bind_eq_Some_conv)
    next
      case n: False
      with 1(2) False r obtain ok s2 where c: "locked (\<lambda>s. user_copy (copy_to_user (cur_mm s) base buffer (of_nat n)) s) s1 = Some (ok, s2)"
        by (auto simp: bind_eq_Some_conv)
      have k2: "kept s s2" using k1 to_user.locked_kept [OF c] by (rule kept_trans)
      show ?thesis
        using 1(2) False r n c k2 1(1) kept_trans [OF k2]
        by (auto simp: bind_eq_Some_conv split: if_splits)
    qed
  qed
qed

lemma write_loop_kept:
  assumes "write_loop fd buffer base len copied s = Some y"
  shows "kept s (snd y)"
proof (rule write_loop.raw_induct [where P = "\<lambda>_ _ _ _ _ s y. kept s (snd y)", OF _ assms], goal_cases)
  case 1: (1 loop fd buffer base len copied s y)
  let ?alen = "if IOBUF_SIZE > len then len else IOBUF_SIZE"
  show ?case
  proof (cases "len = 0")
    case True
    with 1(2) show ?thesis by auto
  next
    case False
    with 1(2) obtain ok s1 where c: "locked (\<lambda>s. user_copy (copy_from_user (cur_mm s) buffer base ?alen False) s) s = Some (ok, s1)"
      by (auto simp: bind_eq_Some_conv Let_def)
    have k1: "kept s s1" using from_user.locked_kept [OF c] .
    show ?thesis
    proof (cases ok)
      case True
      with 1(2) False c obtain ret n s2 where r: "on_files (file_write fd buffer (unat ?alen)) s1 = Some ((ret, n), s2)"
        by (auto simp: bind_eq_Some_conv Let_def)
      have "kept s1 s2"
        using r by (rule on_files_step [where c = "Call_write fd buffer (unat ?alen)"]) simp
      with k1 have k2: "kept s s2" by (rule kept_trans)
      show ?thesis
        using 1(2) False c True r k2 1(1) kept_trans [OF k2]
        by (auto simp: bind_eq_Some_conv Let_def split: if_splits)
    qed (use 1(2) False c k1 in \<open>auto simp: bind_eq_Some_conv Let_def\<close>)
  qed
qed

lemma copy_path_kept:
  assumes "copy_path from s = Some (r, s')"
  shows "case r of Inl _ \<Rightarrow> kept s s' | Inr b \<Rightarrow> kept (s\<lparr>held := b # held s\<rparr>) s'"
proof (cases "buf_alloc s")
  case (Pair q s1)
  show ?thesis
  proof (cases q)
    case None
    with assms Pair show ?thesis by (auto simp: copy_path_def dest: buf_alloc_kept)
  next
    case (Some b)
    with Pair have al: "buf_alloc s = (Some b, s1)" by simp
    from assms al obtain ok s2 where c: "locked (\<lambda>s. user_copy (\<lambda>(m, v). copy_string (cur_mm s) b from (of_nat (FS_MAX_FPATH_LEN + 1)) m v) s) s1 = Some (ok, s2)"
      by (auto simp: copy_path_def bind_eq_Some_conv)
    have k: "kept (s\<lparr>held := b # held s\<rparr>) s2" using buf_alloc_Some [OF al] string_user.locked_kept [OF c] by (rule kept_trans)
    show ?thesis
    proof (cases ok)
      case False
      with assms al c have "buf_free b s2 = Some s'" "r = Inl E_INVAL"
        by (auto simp: copy_path_def bind_eq_Some_conv)
      with buf_free_kept [OF k] show ?thesis by simp
    qed (use assms al c k in \<open>auto simp: copy_path_def\<close>)
  qed
qed

lemma with_path_kept:
  assumes w: "with_path from f s = Some (r, s')"
    and f: "\<And>p x r x'. f p x = Some (r, x') \<Longrightarrow> fd_quiet (fd_array x) \<Longrightarrow> fd_quiet (fd_array x') \<and> files_count x' = files_count x"
  shows "kept s s'"
proof -
  from w obtain q s1 where c: "copy_path from s = Some (q, s1)"
    by (auto simp: with_path_def and_then_eq_Some)
  note k = copy_path_kept [OF c]
  show ?thesis
  proof (cases q)
    case (Inl e)
    with w c k show ?thesis by (auto simp: with_path_def)
  next
    case (Inr b)
    with w c obtain s2 where o: "on_files (f (path_at b s1)) s1 = Some (r, s2)" "buf_free b s2 = Some s'"
      by (auto simp: with_path_def bind_eq_Some_conv)
    have "kept s1 s2" using o(1) f by (rule on_files_kept)
    with k Inr have "kept (s\<lparr>held := b # held s\<rparr>) s2" by (auto intro: kept_trans)
    then show ?thesis using o(2) by (rule buf_free_kept)
  qed
qed

lemma with_paths_kept:
  assumes w: "with_paths from1 from2 f s = Some (r, s')"
  shows "kept s s'"
proof -
  from w obtain q s1 where c: "copy_path from1 s = Some (q, s1)"
    by (auto simp: with_paths_def and_then_eq_Some)
  note k = copy_path_kept [OF c]
  show ?thesis
  proof (cases q)
    case (Inl e)
    with w c k show ?thesis by (auto simp: with_paths_def)
  next
    case q: (Inr b)
    with w c obtain q2 s2 where c2: "copy_path from2 s1 = Some (q2, s2)"
      by (auto simp: with_paths_def bind_eq_Some_conv)
    note k2 = copy_path_kept [OF c2]
    show ?thesis
    proof (cases q2)
      case (Inl e)
      with w c c2 q have f: "buf_free b s2 = Some s'" by (auto simp: with_paths_def bind_eq_Some_conv)
      have "kept (s\<lparr>held := b # held s\<rparr>) s2" using k k2 q Inl by (auto intro: kept_trans)
      then show ?thesis using f by (rule buf_free_kept)
    next
      case (Inr b2)
      with w c c2 q obtain s3 where "buf_free b s2 = Some s3" "buf_free b2 s3 = Some s'"
        by (auto simp: with_paths_def bind_eq_Some_conv Let_def)
      moreover have "kept (s\<lparr>held := b2 # b # held s\<rparr>) (s1\<lparr>held := b2 # held s1\<rparr>)" using k q by (simp add: kept_def)
      then have k3: "kept (s\<lparr>held := b2 # b # held s\<rparr>) s2" using k2 Inr by (auto intro: kept_trans)
      then have "held s2 = b2 # b # held s" by (simp add: kept_def)
      ultimately have "s' = s2\<lparr>held := held s\<rparr>"
        by (cases "b = b2") (auto simp: buf_free_def bind_kassert split: if_splits)
      with k3 show ?thesis by (simp add: kept_def)
    qed
  qed
qed

lemma buf_user:
  assumes "buf_alloc s = (Some b, s1)" "kept s1 s2" "buf_free b s2 = Some s3"
  shows "kept s s3"
  using buf_free_kept [OF kept_trans [OF buf_alloc_Some [OF assms(1)] assms(2)] assms(3)] .

lemma same_fds_iobuf_put [frame]: "iobuf_put d iob s = Some (r, s') \<Longrightarrow> same_fds s s'"
  by (auto simp: iobuf_put_def Let_def bind_eq_Some_conv)

lemma same_fds_namefile [frame]: "vop_namefile n iob s = Some (r, s') \<Longrightarrow> same_fds s s'"
  by (auto simp: vop_namefile_def bind_eq_Some_conv dest: frame)

lemma same_fds_getcwd [frame]:
  assumes "vfs_getcwd iob s = Some (r, s')"
  shows "same_fds s s'"
proof -
  obtain q s1 where c: "vfs_get_curdir s = (q, s1)" by (cases "vfs_get_curdir s")
  then have k: "same_fds s s1" by (rule frame)
  show ?thesis
  proof (cases q)
    case (Inl e)
    with assms c k show ?thesis by (simp add: vfs_getcwd_def)
  next
    case (Inr node)
    with assms c obtain name r2 iob2 s2 x s3 where p: "iobuf_put name iob s1 = Some ((r2, iob2), s2)"
      and f: "(case r2 of Inl e \<Rightarrow> Some ((Inl e, iob2), s2)
        | Inr _ \<Rightarrow> do { ((r, iob), s) \<leftarrow> iobuf_put [colon] iob2 s2;
                        case r of Inl e \<Rightarrow> Some ((Inl e, iob), s) | Inr _ \<Rightarrow> vop_namefile node iob s }) = Some (x, s3)"
      and d: "vop_ref_dec node s3 = Some s'"
      by (auto simp: vfs_getcwd_def bind_eq_Some_conv)
    have "same_fds s2 s3"
    proof (cases r2)
      case (Inr u)
      with f obtain r4 iob4 s4 where "iobuf_put [colon] iob2 s2 = Some ((r4, iob4), s4)"
        "(case r4 of Inl e \<Rightarrow> Some ((Inl e, iob4), s4) | Inr _ \<Rightarrow> vop_namefile node iob4 s4) = Some (x, s3)"
        by (auto simp: bind_eq_Some_conv)
      then show ?thesis by (cases r4) (auto dest!: frame intro: same_fds_trans)
    qed (use f in simp)
    with k p d show ?thesis by (blast dest: frame intro: same_fds_trans)
  qed
qed

lemma same_fds_set_curdir [frame]: "vfs_set_curdir d s = Some (r, s') \<Longrightarrow> same_fds s s'"
  by (auto simp: vfs_set_curdir_def Let_def and_then_eq_Some bind_eq_Some_conv same_fds_def split: if_splits option.splits dest!: frame)

lemma same_fds_chdir [frame]: "vfs_chdir p s = Some (r, s') \<Longrightarrow> same_fds s s'"
  by (auto simp: vfs_chdir_def same_fds_def and_then_eq_Some bind_eq_Some_conv dest!: frame)

lemma sysfile_getcwd_kept:
  assumes g: "sysfile_getcwd buf len s = Some (r, s')"
  shows "kept s s'"
proof (cases "len = 0")
  case False
  from g False obtain s1 where l: "lock_mm s = Some s1" by (auto simp: sysfile_getcwd_def bind_eq_Some_conv)
  obtain ok v where c: "user_mem_check (cur_mm s1) buf len True (space s1) = (ok, v)"
    by (cases "user_mem_check (cur_mm s1) buf len True (space s1)")
  let ?s2 = "s1\<lparr>space := v\<rparr>"
  from g False l c obtain q s3 where e: "(if ok then do { ((ret, _), s) \<leftarrow> on_files (vfs_getcwd (iobuf_init (unat buf) (unat len) 0)) ?s2; Some (ret, s) }
      else Some (Inl E_INVAL, ?s2)) = Some (q, s3)" and u: "s' = unlock_mm s3"
    by (auto simp: sysfile_getcwd_def bind_eq_Some_conv Let_def)
  have e: "kept ?s2 s3" "space s3 = v"
    using e by (auto simp: bind_eq_Some_conv on_files_def kept_def same_fds_def split: if_splits option.splits dest!: frame)
  show ?thesis
  proof (cases "cur_mm s")
    case None
    with l c e u show ?thesis by (auto simp: lock_mm_def unlock_mm_def kept_def)
  next
    case (Some mm)
    then have s1: "cur_mm s1 = Some mm" "s1 = s\<lparr>mm_sem := (mm_sem s)(mm := mm_sem s mm - 1),
        space := upd_mm mm (\<lambda>m. m\<lparr>locked_by := cur_pid s\<rparr>) (space s)\<rparr>"
      using l by (auto simp: lock_mm_def bind_kassert split: if_splits)
    have "mm_inv v mm \<and> area_set v mm = area_set (space s) mm" if "mm_inv (space s) mm"
      using user_mem_check_ok [of "space s1" mm buf len True ok v] c s1 that by simp
    with e u Some s1 show ?thesis by (auto simp: kept_def unlock_mm_def)
  qed
qed (use g in \<open>simp add: sysfile_getcwd_def\<close>)

lemma sysfile_fstat_kept:
  assumes "sysfile_fstat fd p s = Some (r, s')"
  shows "kept s s'"
proof -
  from assms obtain q s1 where o: "on_files (file_fstat fd) s = Some (q, s1)"
    by (auto simp: sysfile_fstat_def and_then_eq_Some)
  have k: "kept s s1" using o by (rule on_files_step [where c = "Call_fstat fd"]) simp
  show ?thesis
  proof (cases q)
    case (Inr st)
    let ?s2 = "upd_memory (\<lambda>m. store_bytes m (local_buf s1) (stat_bytes st)) s1"
    from assms o Inr obtain ok where
      "locked (\<lambda>s. user_copy (copy_to_user (cur_mm s) p (local_buf s) (of_nat SIZEOF_STAT)) s) ?s2 = Some (ok, s')"
      by (auto simp: sysfile_fstat_def bind_eq_Some_conv Let_def)
    then have "locked (\<lambda>s. user_copy (copy_to_user (cur_mm s) p (local_buf s1) (of_nat SIZEOF_STAT)) s) ?s2 = Some (ok, s')"
      by (simp add: locked_def lock_mm_def upd_memory_def split: option.splits)
    then have "kept ?s2 s'" by (rule to_user.locked_kept)
    with k show ?thesis by (blast intro: kept_trans upd_memory_kept)
  qed (use assms o k in \<open>simp add: sysfile_fstat_def\<close>)
qed

lemma sysfile_getdirentry_kept:
  assumes g: "sysfile_getdirentry fd p s = Some (r, s')"
  shows "kept s s'"
proof (cases "buf_alloc s")
  case (Pair q s1)
  show ?thesis
  proof (cases q)
    case None
    with g Pair show ?thesis by (auto simp: sysfile_getdirentry_def dest: buf_alloc_kept)
  next
    case (Some b)
    with Pair have al: "buf_alloc s = (Some b, s1)" by simp
    from g al obtain ok s2 s5 where c: "locked (\<lambda>s. user_copy (copy_from_user (cur_mm s) b p 4 True) s) s1 = Some (ok, s2)"
      and m: "and_then (Some (if ok then Inr () else Inl E_INVAL, s2)) (\<lambda>_ s.
          and_then (on_files (file_getdirentry fd b (sint (ld32 (memory (files s)) b))) s) (\<lambda>offset s.
            do { let s = upd_memory (\<lambda>m. st32 m b (word_of_int offset)) s;
                 (ok, s) \<leftarrow> locked (\<lambda>s. user_copy (copy_to_user (cur_mm s) p b (of_nat SIZEOF_DIRENT)) s) s;
                 Some (if ok then Inr () else Inl E_INVAL, s) })) = Some (r, s5)"
      and f: "buf_free b s5 = Some s'"
      by (auto simp: sysfile_getdirentry_def bind_eq_Some_conv)
    have k2: "kept s1 s2" using from_user.locked_kept [OF c] .
    have "kept s2 s5"
    proof (cases ok)
      case True
      with m obtain q3 s3 where o: "on_files (file_getdirentry fd b (sint (ld32 (memory (files s2)) b))) s2 = Some (q3, s3)"
        by (auto simp: and_then_eq_Some)
      have k3: "kept s2 s3" using o by (rule on_files_step [where c = "Call_getdirentry fd b (sint (ld32 (memory (files s2)) b))"]) simp
      show ?thesis
      proof (cases q3)
        case (Inr d)
        with m o True obtain ok2 where
          "locked (\<lambda>s. user_copy (copy_to_user (cur_mm s) p b (of_nat SIZEOF_DIRENT)) s) (upd_memory (\<lambda>m. st32 m b (word_of_int d)) s3) = Some (ok2, s5)"
          by (auto simp: bind_eq_Some_conv Let_def)
        from to_user.locked_kept [OF this] k3 show ?thesis by (blast intro: kept_trans upd_memory_kept)
      qed (use m o True k3 in simp)
    qed (use m in simp)
    with k2 have "kept s1 s5" by (rule kept_trans)
    with al f show ?thesis by (blast intro: buf_user)
  qed
qed

lemma sysfile_rw_kept:
  "sysfile_read fd base len s = Some (r, s') \<Longrightarrow> kept s s'" "sysfile_write fd base len s = Some (r, s') \<Longrightarrow> kept s s'"
  unfolding sysfile_read_def sysfile_write_def
  by (auto simp: bind_eq_Some_conv split: if_splits prod.splits option.splits dest!: read_loop_kept write_loop_kept intro: buf_alloc_kept buf_user)

lemma sysfile_call_kept:
  assumes "sysfile_call c s = Some s'"
  shows "kept s s'"
proof (cases c)
  case (Sys_open path flags)
  with assms show ?thesis
    by (auto simp: sysfile_open_def elim!: with_path_kept) (metis file_step.simps(1) file_step_quiet option.simps(9) snd_conv)+
next
  case (Sys_close fd)
  with assms show ?thesis by (auto simp: sysfile_close_def elim!: on_files_step [where c = "Call_close fd"])
next
  case (Sys_read fd base len)
  with assms show ?thesis by (auto dest: sysfile_rw_kept)
next
  case (Sys_write fd base len)
  with assms show ?thesis by (auto dest: sysfile_rw_kept)
next
  case (Sys_seek fd pos whence)
  with assms show ?thesis by (auto simp: sysfile_seek_def elim!: on_files_step [where c = "Call_seek fd pos whence"])
next
  case (Sys_fstat fd st)
  with assms show ?thesis by (auto dest: sysfile_fstat_kept)
next
  case (Sys_fsync fd)
  with assms show ?thesis by (auto simp: sysfile_fsync_def elim!: on_files_step [where c = "Call_fsync fd"])
next
  case (Sys_chdir path)
  with assms show ?thesis by (auto simp: sysfile_chdir_def same_fds_def elim!: with_path_kept dest!: frame)
next
  case (Sys_unlink path)
  with assms show ?thesis by (auto simp: sysfile_unlink_def elim!: with_path_kept)
next
  case (Sys_dup fd1 fd2)
  with assms show ?thesis by (auto simp: sysfile_dup_def elim!: on_files_step [where c = "Call_dup fd1 fd2"])
qed (use assms in \<open>auto simp: sysfile_link_def sysfile_rename_def dest: with_paths_kept sysfile_getcwd_kept sysfile_getdirentry_kept\<close>)

lemma sysfile_calls_kept: "sysfile_calls cs s = Some s' \<Longrightarrow> kept s s'"
  by (induction cs arbitrary: s) (auto simp: bind_eq_Some_conv dest: sysfile_call_kept intro: kept_trans)

section \<open>The call read\<close>

lemma sysfile_read_ok:
  assumes "reading (files s) i node off" and "writable s mm base len" and "len \<noteq> 0"
    and "kmem (fs (files s)) = Some buffer # rest" and "2 ^ 31 \<le> buffer"
    and "k = min (unat len) (file_size (files s) node - off)"
  shows "\<exists>m bf v. sysfile_read (int i) base len s =
      Some (Inr (of_nat k), s\<lparr>files := set_pos i (off + k) ((files s)\<lparr>fs := (fs (files s))\<lparr>sfs_buffer := bf, kmem := rest\<rparr>, memory := m\<rparr>),
        space := v\<rparr>) \<and>
    bytes m (unat base) k = slice (file_data (files s) node) off k \<and>
    (\<forall>a < 2 ^ 31. \<not> (unat base \<le> a \<and> a < unat base + k) \<longrightarrow> m a = memory (files s) a) \<and>
    mm_inv v mm \<and> area_set v mm = area_set (space s) mm"
proof -
  let ?x = "files s"
  define s1 where "s1 = s\<lparr>files := ?x\<lparr>fs := (fs ?x)\<lparr>kmem := rest\<rparr>\<rparr>, held := buffer # held s\<rparr>"
  have al: "buf_alloc s = (Some buffer, s1)"
    using assms(4) by (simp add: buf_alloc_def kmalloc_next_def s1_def)
  have x1: "reading (files s1) i node off" "writable s1 mm base len" "file_size (files s1) node = file_size ?x node"
    "file_data (files s1) node = file_data ?x node" "memory (files s1) = memory ?x" "space s1 = space s"
    using assms(1,2) by (simp_all add: s1_def reading_def regular_def writable_def file_size_def file_data_def)
  obtain m bf v where r: "read_loop (int i) buffer base len 0 s1 =
      Some ((Inr (), of_nat k), s1\<lparr>files := set_pos i (off + k) ((files s1)\<lparr>fs := (fs (files s1))\<lparr>sfs_buffer := bf\<rparr>, memory := m\<rparr>), space := v\<rparr>)"
    "delivered (memory ?x) m (unat base) buffer (slice (file_data ?x node) off k)" "mm_inv v mm" "area_set v mm = area_set (space s) mm"
    using read_loop_ok [OF x1(1,2) assms(5), of k 0] assms(6) unfolding x1(3-6) by auto
  have ok: "file_testfd (int i) True False ?x = Some True"
    using assms(1) fd_quiet_entry [of "fd_array ?x" i]
    by (auto simp: file_testfd_def fd2file_def testfd_def get_fd_array_def reading_def quiet_entry_def)
  have "sysfile_read (int i) base len s = Some (Inr (of_nat k),
      s\<lparr>files := set_pos i (off + k) (?x\<lparr>fs := (fs ?x)\<lparr>sfs_buffer := bf, kmem := rest\<rparr>, memory := m\<rparr>), space := v\<rparr>)"
    using assms(3) ok al r(1) by (simp add: sysfile_read_def buf_free_def s1_def set_pos_def)
  moreover have "length (slice (file_data ?x node) off k) = k"
    using length_file_data [of ?x node] assms(1,6) by (auto simp: slice_def reading_def)
  then have "bytes m (unat base) k = slice (file_data ?x node) off k"
    "\<forall>a < 2 ^ 31. \<not> (unat base \<le> a \<and> a < unat base + k) \<longrightarrow> m a = memory ?x a"
    using r(2) assms(5) by (auto simp: delivered_def)
  ultimately show ?thesis using r(3,4) by blast
qed

section \<open>The example\<close>

lemma demo_sysf_reading: "reading (files demo_sysf) 3 5 2"
proof -
  let ?x = "files demo_sysf"
  have "fd_quiet ((fd_array demo_vfs)[3 := opened_file 3 5 2 True False])"
    by (rule fd_quiet_update [OF demo_quiet]) (simp add: quiet_entry_def opened_file_def)
  moreover have "readable (fs ?x) 5"
    by (simp add: demo_sysf_def) (rule demo_file_readable, auto simp: SFS_BLKSIZE_def)
  moreover have "length (fd_array demo_vfs) = FILES_STRUCT_NENTRY" using fd_quiet_length [OF demo_quiet] .
  ultimately show ?thesis
    by (simp add: reading_def regular_def demo_sysf_def FILES_STRUCT_NENTRY_def opened_file_def demo_vfs_def SFS_MAX_FILE_SIZE_def
        demo_file_def demo_fs_def demo_din_def empty_din_def SFS_TYPE_FILE_def SFS_TYPE_DIR_def inode_check_def MAX_INODE_COUNT_def)
qed

lemma demo_sysf_writable: "writable demo_sysf 1 0x800100 9"
proof -
  have A: "area_set (space demo_sysf) 1 = {(0x800000, 0x802000, 3)}"
    by (simp add: area_set_def area_def demo_mm_def demo_sysf_def)
  have "accessible {(0x800000, 0x802000, 3)} True x" if "0x800100 \<le> x" "x < 0x800109" for x
  proof -
    have "0x800000 \<le> x" "x < 0x802000"
      using order_trans [OF _ that(1), of "0x800000"] less_trans [OF that(2), of "0x802000"] by simp_all
    then show ?thesis by (simp add: accessible_def VM_WRITE_def VM_STACK_def)
  qed
  moreover have "mm_inv (space demo_sysf) 1" by (simp add: mm_inv_def areas_ok_def demo_mm_def demo_sysf_def)
  ultimately show ?thesis
    unfolding writable_def A by (simp add: demo_sysf_def USER_ACCESS_def USERBASE_def USERTOP_def)
qed

lemma demo_sysf_data: "file_size (files demo_sysf) 5 = 5" "slice (file_data (files demo_sysf) 5) 2 3 = [3, 4, 5]"
  by (simp_all add: file_size_def file_data_def demo_sysf_def demo_file_def demo_din_def contents_def slice_def)

section \<open>Main results\<close>

text \<open>
  C3. The system call \<open>read\<close>, from the user's buffer to the disk. If descriptor \<open>i\<close> is a regular file of a well-formed volume open for
  reading at position \<open>off\<close>, the user's buffer may be written and the kernel has a block for it, then the call returns
  \<open>k\<close>, the bytes up to the end of the file or the length asked for; the user's buffer holds the bytes of the file from
  \<open>off\<close> on; the position has moved by \<open>k\<close>; no other memory of the process has changed; the block is freed, the lock
  of the address space released, and volume and table are otherwise as before. Since the call reads one block at a time, this
  holds for files whose blocks are scattered over the disk, too.
\<close>

theorem sysfile_read_correct:
  assumes "reading (files s) i node off" and "writable s mm base len" and "len \<noteq> 0"
    and "kmem (fs (files s)) = Some buffer # rest" and "2 ^ 31 \<le> buffer"
    and "k = min (unat len) (file_size (files s) node - off)"
  shows "\<exists>m bf v. sysfile_read (int i) base len s =
      Some (Inr (of_nat k), s\<lparr>files := set_pos i (off + k) ((files s)\<lparr>fs := (fs (files s))\<lparr>sfs_buffer := bf, kmem := rest\<rparr>, memory := m\<rparr>),
        space := v\<rparr>) \<and>
    bytes m (unat base) k = slice (file_data (files s) node) off k \<and>
    (\<forall>a < 2 ^ 31. \<not> (unat base \<le> a \<and> a < unat base + k) \<longrightarrow> m a = memory (files s) a) \<and>
    mm_inv v mm \<and> area_set v mm = area_set (space s) mm"
  using assms by (rule sysfile_read_ok)

theorem sysfile_read_correct_witness:
  "\<exists>s'. sysfile_read 3 0x800100 9 demo_sysf = Some (Inr 3, s') \<and> bytes (memory (files s')) 0x800100 3 = [3, 4, 5] \<and>
     f_pos (fd_array (files s') ! 3) = 5 \<and> held s' = []"
proof -
  have k: "kmem (fs (files demo_sysf)) = Some 0x80010000 # [None]" by (simp add: demo_sysf_def)
  have "length (fd_array (files demo_sysf)) = FILES_STRUCT_NENTRY"
    using demo_sysf_reading by (simp add: reading_def fd_quiet_length)
  then have l: "3 < length (fd_array (files demo_sysf))" by (simp add: FILES_STRUCT_NENTRY_def)
  show ?thesis
    using sysfile_read_correct [OF demo_sysf_reading demo_sysf_writable _ k, of 3] l
    by (auto simp: demo_sysf_data set_pos_def) (simp add: demo_sysf_def)
qed

text \<open>
  C15. The file system calls are balanced. Whatever sequence of them a process makes, on whatever arguments and with whatever
  results and errors, when the calls have returned every buffer that \<^verbatim>\<open>sysfile.c\<close> allocated is freed again (allocations inside
  the file system are not counted), the locks of the
  address spaces have the values they had, the areas of the process are the same and still well-formed, and its table of
  files is quiet.
\<close>

theorem sysfile_calls_balanced:
  assumes "sysfile_calls cs s = Some s'"
  shows "held s' = held s \<and> mm_sem s' = mm_sem s \<and>
    (\<forall>mm. cur_mm s = Some mm \<longrightarrow> mm_inv (space s) mm \<longrightarrow> mm_inv (space s') mm \<and> area_set (space s') mm = area_set (space s) mm) \<and>
    (fd_quiet (fd_array (files s)) \<longrightarrow> fd_quiet (fd_array (files s')) \<and> files_count (files s') = files_count (files s))"
  using sysfile_calls_kept [OF assms] by (simp add: kept_def)

theorem sysfile_calls_balanced_witness:
  "\<exists>s'. sysfile_calls [Sys_close 7, Sys_read 3 0x800100 9, Sys_open 0 0] demo_sysf = Some s' \<and>
     held s' = [] \<and> mm_sem s' 1 = 1 \<and> fd_quiet (fd_array (files s'))"
proof -
  have k: "kmem (fs (files demo_sysf)) = Some 0x80010000 # [None]" by (simp add: demo_sysf_def)
  have q: "fd_quiet (fd_array (files demo_sysf))" using demo_sysf_reading by (simp add: reading_def)
  have n: "length (fd_array demo_vfs) = FILES_STRUCT_NENTRY" "7 < FILES_STRUCT_NENTRY"
    using fd_quiet_length [OF demo_quiet] by (simp_all add: FILES_STRUCT_NENTRY_def)
  have c: "sysfile_close 7 demo_sysf = Some (Inl E_INVAL, demo_sysf)"
    using n by (simp add: sysfile_close_def on_files_def demo_sysf_def file_close_def fd2file_def get_fd_array_def testfd_def demo_fds
        blank_file_def) (simp add: demo_vfs_def)
  obtain s2 where r: "sysfile_read 3 0x800100 9 demo_sysf = Some (Inr 3, s2)" "kmem (fs (files s2)) = [None]"
    using sysfile_read_ok [OF demo_sysf_reading demo_sysf_writable _ k, of 3] by (auto simp: demo_sysf_data set_pos_def)
  have "\<exists>s'. sysfile_open 0 0 s2 = Some (Inl E_NO_MEM, s')"
    using r(2) by (simp add: sysfile_open_def with_path_def copy_path_def buf_alloc_def kmalloc_next_def)
  with c r(1) obtain s' where "sysfile_calls [Sys_close 7, Sys_read 3 0x800100 9, Sys_open 0 0] demo_sysf = Some s'"
    by auto
  with sysfile_calls_balanced [OF this] q show ?thesis by (simp add: demo_sysf_def)
qed

end
