(* ===== verification/AddressSpace.thy ===== *)
theory AddressSpace
  imports PageMap
begin

text \<open>
  Address spaces as a whole: making the page directory of a process and giving it back (\<open>setup_pgdir\<close> and \<open>put_pgdir\<close>
  of \<^verbatim>\<open>kern/process/proc.c\<close>), copying all areas of a process (\<open>dup_mmap\<close>) and tearing an address space down
  (\<open>exit_mmap\<close>), over the map of theory \<open>PageMap\<close>.
\<close>

section \<open>Definitions\<close>

definition setup_pgdir :: "addr \<Rightarrow> addr \<Rightarrow> 'a pstate_scheme \<Rightarrow> ((kerror + unit) \<times> 'a pstate_scheme) option" where
  "setup_pgdir boot_pgdir mm s =
     do { (r, s) \<leftarrow> alloc_page s;
          case r of
            None \<Rightarrow> Some (Inl E_NO_MEM, s)
          | Some page \<Rightarrow>
              do { pgdir \<leftarrow> page2kva page s;
                   let s = upd_km (\<lambda>m. memcpy m pgdir boot_pgdir (unat PGSIZE)) s;
                   pa \<leftarrow> PADDR pgdir;
                   let s = upd_km (\<lambda>m. st32 m (pgdir + 4 * unat (PDX VPT)) (pa OR PTE_P OR PTE_W)) s;
                   Some (Inr (), upd_mm mm (\<lambda>m. m\<lparr>mm_pgdir := Some pgdir\<rparr>) s) } }"

definition put_pgdir :: "addr \<Rightarrow> 'a pstate_scheme \<Rightarrow> 'a pstate_scheme option" where
  "put_pgdir mm s = do { dir \<leftarrow> mm_pgdir (mms s mm); page \<leftarrow> kva2page dir s; free_page page s }"

section \<open>Specification\<close>

text \<open>The pages of the directory \<open>d\<close> in \<open>V\<close> are no longer mapped; a page that nobody maps any more is free.\<close>

definition unmapped :: "nat set \<Rightarrow> nat \<Rightarrow> nat set \<Rightarrow> 'a pstate_scheme \<Rightarrow> 'a pstate_scheme \<Rightarrow> bool" where
  "unmapped D d V s s' \<longleftrightarrow>
     pt_inv D s' \<and> same_env s s' \<and> npage (pm s') = npage (pm s) \<and> avail_set (pm s') = avail_set (pm s) \<and>
     (\<forall>c \<in> D. \<forall>v < user_pages. pmap (km s') c v = (if c = d \<and> v \<in> V then None else pmap (km s) c v)) \<and>
     (\<forall>c \<in> D. \<forall>i < 512. tbl (km s') c i = tbl (km s) c i) \<and>
     free_set (pm s') = free_set (pm s) \<union> {p. mappers (km s) D p \<noteq> {} \<and> mappers (km s') D p = {}} \<and>
     (\<forall>p j. j < 1024 \<longrightarrow> p \<notin> tables (km s) {d} \<longrightarrow> W (km s') p j = W (km s) p j)"

text \<open>The tables with the numbers \<open>I\<close> of the directory \<open>d\<close> are gone, and free.\<close>

definition untabled :: "nat set \<Rightarrow> nat \<Rightarrow> nat set \<Rightarrow> 'a pstate_scheme \<Rightarrow> 'a pstate_scheme \<Rightarrow> bool" where
  "untabled D d I s s' \<longleftrightarrow>
     pt_inv D s' \<and> same_env s s' \<and> npage (pm s') = npage (pm s) \<and> avail_set (pm s') = avail_set (pm s) \<and>
     (\<forall>c \<in> D. \<forall>v < user_pages. pmap (km s') c v = pmap (km s) c v) \<and>
     (\<forall>c \<in> D. \<forall>i < 512. tbl (km s') c i = (if c = d \<and> i \<in> I then None else tbl (km s) c i)) \<and>
     free_set (pm s') = free_set (pm s) \<union> {t. \<exists>i \<in> I. tbl (km s) d i = Some t} \<and>
     (\<forall>p j. j < 1024 \<longrightarrow> p \<noteq> d \<longrightarrow> W (km s') p j = W (km s) p j)"

text \<open>The pages of the areas of an address space, and that the areas are ranges of whole user pages.\<close>

definition area_pages :: "'a vmm_scheme \<Rightarrow> addr list \<Rightarrow> nat set" where
  "area_pages s vs = (\<Union>v \<in> set vs. {vpn (vm_start (vmas s v))..<vpn (vm_end (vmas s v))})"

definition aligned :: "'a vmm_scheme \<Rightarrow> addr list \<Rightarrow> bool" where
  "aligned s vs \<longleftrightarrow> (\<forall>v \<in> set vs. vm_start (vmas s v) mod PGSIZE = 0 \<and> vm_end (vmas s v) mod PGSIZE = 0 \<and>
     USER_ACCESS (vm_start (vmas s v)) (vm_end (vmas s v)))"

text \<open>Everything the directory \<open>d\<close> maps, and every table it has, belongs to the areas.\<close>

definition confined :: "nat \<Rightarrow> addr list \<Rightarrow> 'a pstate_scheme \<Rightarrow> bool" where
  "confined d vs s \<longleftrightarrow> (\<forall>v < user_pages. pmap (km s) d v \<noteq> None \<longrightarrow> v \<in> area_pages s vs) \<and>
     (\<forall>i < 512. tbl (km s) d i \<noteq> None \<longrightarrow> (\<exists>v \<in> area_pages s vs. v div 1024 = i))"

text \<open>The pages that only the directory \<open>d\<close> maps.\<close>

definition own_pages :: "nat set \<Rightarrow> nat \<Rightarrow> 'a pstate_scheme \<Rightarrow> nat set" where
  "own_pages D d s = {p. mappers (km s) D p \<noteq> {} \<and> mappers (km s) D p \<subseteq> {d} \<times> UNIV}"

text \<open>The state \<open>s\<close> with the areas, address spaces and heap answers of \<open>s'\<close>.\<close>

definition with_areas :: "'a pstate_scheme \<Rightarrow> 'a pstate_scheme \<Rightarrow> 'a pstate_scheme" where
  "with_areas s' s = s\<lparr>vmas := vmas s', mms := mms s', kanswers := kanswers s'\<rparr>"

text \<open>Everything the loop of \<open>dup_mmap\<close> relies on: \<open>vs\<close> are the areas still to copy, \<open>bs\<close> the blocks \<open>kmalloc\<close> will return.\<close>

definition dup_ready :: "nat set \<Rightarrow> nat \<Rightarrow> nat \<Rightarrow> addr \<Rightarrow> addr list \<Rightarrow> addr list \<Rightarrow> addr option list \<Rightarrow> 'a pstate_scheme \<Rightarrow> bool" where
  "dup_ready D d d' to_mm vs bs rest s \<longleftrightarrow> pt_inv D s \<and> cur_pgdir s \<noteq> Some (kva d') \<and>
     aligned s vs \<and> sorted_wrt (\<lambda>u v. vm_end (vmas s v) \<le> vm_start (vmas s u)) vs \<and> (\<forall>v \<in> set vs. vm_start (vmas s v) < vm_end (vmas s v)) \<and>
     mm_inv s to_mm \<and> (\<forall>u \<in> set (mmap_list (mms s to_mm)). \<forall>v \<in> set vs. vm_end (vmas s v) \<le> vm_start (vmas s u)) \<and>
     kanswers s = map Some bs @ rest \<and> length bs = length vs \<and> distinct bs \<and>
     set bs \<inter> (set vs \<union> set (mmap_list (mms s to_mm))) = {} \<and>
     (\<forall>v \<in> area_pages s vs. pmap (km s) d' v = None) \<and>
     2 * card {v \<in> area_pages s vs. pmap (km s) d v \<noteq> None} \<le> card (free_set (pm s))"

text \<open>What it has done: areas and address spaces other than the new one are the same.\<close>

definition dup_done :: "nat set \<Rightarrow> nat \<Rightarrow> nat \<Rightarrow> addr \<Rightarrow> addr list \<Rightarrow> addr list \<Rightarrow> 'a pstate_scheme \<Rightarrow> 'a pstate_scheme \<Rightarrow> bool" where
  "dup_done D d d' to_mm vs bs s s' \<longleftrightarrow> copied D d d' (area_pages s vs) (with_areas s' s) s' \<and>
     mm_inv s' to_mm \<and> area_set s' to_mm = area_set s to_mm \<union> (\<lambda>v. area (vmas s v)) ` set vs \<and>
     set (mmap_list (mms s' to_mm)) = set (mmap_list (mms s to_mm)) \<union> set bs \<and>
     (\<forall>mm. mm \<noteq> to_mm \<longrightarrow> mms s' mm = mms s mm) \<and> (\<forall>v. v \<notin> set bs \<longrightarrow> vm_start (vmas s' v) = vm_start (vmas s v) \<and>
        vm_end (vmas s' v) = vm_end (vmas s v) \<and> vm_flags (vmas s' v) = vm_flags (vmas s v)) \<and>
     mm_pgdir (mms s' to_mm) = mm_pgdir (mms s to_mm) \<and> mm_count (mms s' to_mm) = mm_count (mms s to_mm)"

text \<open>
  An example: address space 6 has one area, the page 512, which the directory 2 of the example of theory \<open>PageMap\<close> maps; address space 8 is empty and
  has the directory 3.
\<close>

definition demo_space :: pstate where
  "demo_space = demo_pt\<lparr>vmas := (\<lambda>_. \<lparr>vm_mm = 6, vm_start = 0x200000, vm_end = 0x201000, vm_flags = 3\<rparr>),
     mms := (\<lambda>mm. if mm = 6
        then \<lparr>mmap_list = [7], mmap_cache = None, mm_pgdir = Some (kva 2), map_count = 1, sm_priv = None, mm_count = 0, locked_by = 0\<rparr>
        else \<lparr>mmap_list = [], mmap_cache = None, mm_pgdir = Some (kva 3), map_count = 0, sm_priv = None, mm_count = 0, locked_by = 0\<rparr>),
     kanswers := [Some 9, None]\<rparr>"

section \<open>Unmapping\<close>

lemma unmapped_refl: "pt_inv D s \<Longrightarrow> unmapped D d {} s s"
  by (auto simp: unmapped_def)

lemma unmappedD:
  assumes "unmapped D d V s s'"
  shows "pt_inv D s'" "same_env s s'" "npage (pm s') = npage (pm s)" "avail_set (pm s') = avail_set (pm s)"
    and "c \<in> D \<Longrightarrow> v < user_pages \<Longrightarrow> pmap (km s') c v = (if c = d \<and> v \<in> V then None else pmap (km s) c v)"
    and "c \<in> D \<Longrightarrow> i < 512 \<Longrightarrow> tbl (km s') c i = tbl (km s) c i"
    and "free_set (pm s') = free_set (pm s) \<union> {p. mappers (km s) D p \<noteq> {} \<and> mappers (km s') D p = {}}"
    and "j < 1024 \<Longrightarrow> p \<notin> tables (km s) {d} \<Longrightarrow> W (km s') p j = W (km s) p j"
  using assms unfolding unmapped_def by blast+

lemma mappers_unmapped: "unmapped D d V s s' \<Longrightarrow> mappers (km s') D p \<subseteq> mappers (km s) D p"
  by (auto simp: mappers_def unmappedD(5) split: if_splits)

lemma tables_cong: "(\<And>c i. c \<in> D \<Longrightarrow> i < 512 \<Longrightarrow> tbl m' c i = tbl m c i) \<Longrightarrow> tables m' D = tables m D"
  unfolding tables_def by metis

lemma unmapped_trans:
  assumes d: "d \<in> D" and u: "unmapped D d V s s1" "unmapped D d V' s1 s2"
  shows "unmapped D d (V \<union> V') s s2"
proof -
  have t: "tables (km s1) {d} = tables (km s) {d}"
    using unmappedD(6) [OF u(1)] d by (intro tables_cong) auto
  have "free_set (pm s2) = free_set (pm s) \<union> {p. mappers (km s) D p \<noteq> {} \<and> mappers (km s2) D p = {}}"
  proof -
    have "mappers (km s2) D p \<subseteq> mappers (km s1) D p" "mappers (km s1) D p \<subseteq> mappers (km s) D p" for p
      by (rule mappers_unmapped [OF u(2)], rule mappers_unmapped [OF u(1)])
    then have "{p. mappers (km s) D p \<noteq> {} \<and> mappers (km s1) D p = {}} \<union> {p. mappers (km s1) D p \<noteq> {} \<and> mappers (km s2) D p = {}} =
        {p. mappers (km s) D p \<noteq> {} \<and> mappers (km s2) D p = {}}"
      by blast
    then show ?thesis unfolding unmappedD(7) [OF u(2)] unmappedD(7) [OF u(1)] by blast
  qed
  then show ?thesis
    unfolding unmapped_def
    using unmappedD [OF u(1)] unmappedD [OF u(2)] same_env_trans [OF unmappedD(2) [OF u(1)] unmappedD(2) [OF u(2)]] t
    by (intro conjI ballI allI impI) auto
qed

lemma unmapped_skip:
  assumes "unmapped D d V s s'" "\<And>v. v \<in> X \<Longrightarrow> pmap (km s) d v = None"
  shows "unmapped D d (V \<union> X) s s'"
  using assms unfolding unmapped_def by auto

lemma unmap_page_ok:
  assumes inv: "pt_inv D s" and d: "d \<in> D" "a < user_pages" and t: "tbl (km s) d (a div 1024) = Some t"
    and cur: "cur_pgdir s \<noteq> Some (kva d)"
  obtains s' where "page_remove_pte (kva d) (page_addr a) (slot t (page_addr a)) s = Some s'" "unmapped D d {a} s s'"
proof (cases "pmap (km s) d a")
  case None
  then have "page_remove_pte (kva d) (page_addr a) (slot t (page_addr a)) s = Some s"
    using pmap_slot [of "km s" d "page_addr a" t] t d by (auto simp: page_remove_pte_def and_PTE_P Let_def split: if_splits)
  then show thesis
    using that unmapped_skip [OF unmapped_refl [OF inv, of d], of "{a}"] None by simp
next
  case (Some pf)
  note i = pt_invD [OF inv]
  obtain p f where pf: "pmap (km s) d a = Some (p, f)" using Some by fastforce
  let ?la = "page_addr a"
  have v: "vpn ?la = a" using d by simp
  obtain s' where s': "page_remove_pte (kva d) ?la (slot t ?la) s = Some s'" "same_env s s'" "km s' = st32 (km s) (slot t ?la) 0"
    "tables_ok (\<lambda>_. 0) D (pm s') (km s')"
    "refs_upd ((\<lambda>q. pg_ref (pages (pm s) q))(p := pg_ref (pages (pm s) p) - 1))
      (if pg_ref (pages (pm s) p) = 1 then insert p (free_set (pm s)) else free_set (pm s)) (pm s) (pm s')"
    by (rule page_remove_pte_ok [OF i(1-3) d(1), where la = ?la]) (use d t pf cur v in \<open>auto simp: tlb_room_def\<close>)
  have E: "entry_set D d a 0 (km s) (km s')"
    using entry_set_slot [of "km s" d ?la t, OF _ s'(3)] t v by simp
  note T = entry_set_tbl [OF i(3) d E] and P = entry_set_pmap [OF i(3) d E] and M = entry_set_mappers [OF i(3) d E]
  have ref: "pg_ref (pages (pm s) p) = int (card (mappers (km s) D p))"
    using tables_okD(6,7) [OF i(3)] d pf by (auto simp: taken_def)
  have fin: "finite (mappers (km s) D q)" for q by (rule finite_mappers [OF tables_okD(2) [OF i(3)]])
  have dv: "(d, a) \<in> mappers (km s) D q \<longleftrightarrow> q = p" for q using d pf by (auto simp: mappers_def)
  have one: "pg_ref (pages (pm s) p) = 1 \<longleftrightarrow> mappers (km s) D p = {(d, a)}"
    using ref dv [of p] by (metis One_nat_def card_1_singletonE card.empty card.insert empty_iff finite.emptyI nat_int_comparison(1) of_nat_1 singletonD)
  have m': "mappers (km s') D q = mappers (km s) D q - {(d, a)}" for q by (auto simp: M)
  have fs: "{q. mappers (km s) D q \<noteq> {} \<and> mappers (km s') D q = {}} = (if pg_ref (pages (pm s) p) = 1 then {p} else {})"
  proof -
    have "q = p" if "mappers (km s) D q \<noteq> {}" "mappers (km s') D q = {}" for q
      using that dv [of q] unfolding m' by blast
    moreover have "mappers (km s) D p \<noteq> {}" "mappers (km s') D p = {} \<longleftrightarrow> mappers (km s) D p = {(d, a)}"
      using dv [of p] unfolding m' by blast+
    ultimately have "{q. mappers (km s) D q \<noteq> {} \<and> mappers (km s') D q = {}} = {q. q = p \<and> pg_ref (pages (pm s) p) = 1}"
      unfolding one by blast
    then show ?thesis by simp
  qed
  have "unmapped D d {a} s s'"
    unfolding unmapped_def
  proof (intro conjI ballI allI impI)
    show "W (km s') q j = W (km s) q j" if "j < 1024" "q \<notin> tables (km s) {d}" for q j
    proof -
      have "q \<noteq> t" using that(2) t vpn_index(1) [OF d(2)] by (auto simp: tables_def)
      with that(1) show ?thesis
        using W_st32 [of "a mod 1024" j "km s" t 0 q] v by (simp add: s'(3))
    qed
    show "free_set (pm s') = free_set (pm s) \<union> {q. mappers (km s) D q \<noteq> {} \<and> mappers (km s') D q = {}}"
      using s'(5) fs by (simp add: refs_upd_def)
    show "pmap (km s') c v = (if c = d \<and> v \<in> {a} then None else pmap (km s) c v)" if "c \<in> D" "v < user_pages" for c v
      using P [OF that] by simp
    show "tbl (km s') c i = tbl (km s) c i" if "c \<in> D" "i < 512" for c i
      using T(1) [OF that(1), of i] that(2) by simp
    show "pt_inv D s'" "npage (pm s') = npage (pm s)" "avail_set (pm s') = avail_set (pm s)"
      using s'(4,5) i(2) by (simp_all add: refs_upd_def pt_inv_def)
  qed (rule s'(2))
  then show thesis using that s'(1) by blast
qed

lemma unmap_loop_step:
  assumes inv: "pt_inv D s" and d: "d \<in> D" and a: "a < b" "b \<le> user_pages" and cur: "cur_pgdir s \<noteq> Some (kva d)"
  obtains a' s' where "unmap_loop (kva d) (page_addr a) (page_addr b) s =
      (if a' < b then unmap_loop (kva d) (page_addr a') (page_addr b) s' else Some s')"
    "a < a'" "a' \<le> user_pages" "unmapped D d {a..<min a' b} s s'"
proof -
  note i = pt_invD [OF inv]
  have au: "a < user_pages" "vpn (page_addr a) = a" using a by auto
  have loop: "unmap_loop (kva d) (page_addr a) (page_addr b) s = (if a' < b then unmap_loop (kva d) (page_addr a') (page_addr b) s' else Some s')"
    if "(case q of
               None \<Rightarrow> Some (ROUNDDOWN (page_addr a + PTSIZE) PTSIZE, s)
             | Some ptep \<Rightarrow>
                 do { s \<leftarrow> (if ld32 (km s) ptep \<noteq> 0 then page_remove_pte (kva d) (page_addr a) ptep s else Some s);
                      Some (page_addr a + PGSIZE, s) }) = Some (page_addr a', s')"
      "find_pte (kva d) (page_addr a) s = Some q" "a < a'" "a' \<le> user_pages" for q a' s'
  proof -
    have "page_addr a' \<noteq> 0 \<and> page_addr a' < page_addr b \<longleftrightarrow> a' < b"
      using that(3,4) a unat_page_addr [of a'] page_addr_less [of a' b] by (auto simp: unat_eq_0)
    then show ?thesis
      using that(1,2) by (subst unmap_loop.simps) simp
  qed
  have tn: "t < npage (pm s)" if "tbl (km s) d (a div 1024) = Some t" for t
    using tables_okD(3,4) [OF i(3)] that d vpn_index(1) [OF au(1)] i(4) by blast
  note fp = find_pte_ok [of s d "page_addr a", OF i(2), unfolded au(2), OF tn]
  show thesis
  proof (cases "tbl (km s) d (a div 1024)")
    case None
    have no: "pmap (km s) d v = None" if "v \<in> {a..<min ((a div 1024 + 1) * 1024) b}" for v
    proof (rule pmap_no_table [OF None])
      have "a div 1024 \<le> v div 1024" "v div 1024 < a div 1024 + 1"
        using that by (auto simp: div_le_mono less_mult_imp_div_less)
      then show "v div 1024 = a div 1024" by simp
    qed
    have "a < (a div 1024 + 1) * 1024"
      using div_mult_mod_eq [of a 1024] mod_less_divisor [of 1024 a] by simp
    moreover have "unmapped D d {a..<min ((a div 1024 + 1) * 1024) b} s s"
      using unmapped_skip [OF unmapped_refl [OF inv, of d] no, of "{a..<min ((a div 1024 + 1) * 1024) b}"] by simp
    ultimately show thesis
      using that [of "(a div 1024 + 1) * 1024" s] loop [of None "(a div 1024 + 1) * 1024" s] fp None page_addr_table [OF au(1)] by simp
  next
    case (Some t)
    let ?p = "slot t (page_addr a)"
    have q: "find_pte (kva d) (page_addr a) s = Some (Some ?p)" using fp Some au by simp
    have mn: "{a..<min (a + 1) b} = {a}" using a by auto
    obtain s' where "(if ld32 (km s) ?p \<noteq> 0 then page_remove_pte (kva d) (page_addr a) ?p s else Some s) = Some s'" "unmapped D d {a} s s'"
    proof (cases "ld32 (km s) ?p = 0")
      case True
      then have "pmap (km s) d a = None" using pmap_slot [of "km s" d "page_addr a" t] Some au by simp
      then show thesis using that [of s] True unmapped_skip [OF unmapped_refl [OF inv, of d], of "{a}"] by simp
    next
      case False
      show thesis by (rule unmap_page_ok [OF inv d au(1) Some cur]) (use that False in simp)
    qed
    moreover from this(1) have "unmap_loop (kva d) (page_addr a) (page_addr b) s =
        (if a + 1 < b then unmap_loop (kva d) (page_addr (a + 1)) (page_addr b) s' else Some s')"
      using a by (intro loop [where q = "Some ?p"] q) (auto simp: page_addr_next split: if_splits)
    ultimately show thesis
      using that [of "a + 1" s'] a mn by simp
  qed
qed

lemma unmap_loop_ok:
  assumes "pt_inv D s" and d: "d \<in> D" and "a < b" "b \<le> user_pages" and "cur_pgdir s \<noteq> Some (kva d)"
  shows "\<exists>s'. unmap_loop (kva d) (page_addr a) (page_addr b) s = Some s' \<and> unmapped D d {a..<b} s s'"
  using assms
proof (induction "b - a" arbitrary: a s rule: less_induct)
  case less
  note inv = less.prems(1)
  obtain a' s1 where st: "unmap_loop (kva d) (page_addr a) (page_addr b) s =
      (if a' < b then unmap_loop (kva d) (page_addr a') (page_addr b) s1 else Some s1)"
    "a < a'" "a' \<le> user_pages" and c: "unmapped D d {a..<min a' b} s s1"
    by (rule unmap_loop_step [OF less.prems])
  show ?case
  proof (cases "a' < b")
    case True
    then have "b - a' < b - a" using st(2) by simp
    then obtain s2 where s2: "unmap_loop (kva d) (page_addr a') (page_addr b) s1 = Some s2" "unmapped D d {a'..<b} s1 s2"
      using less.hyps [of a' s1] unmappedD(1) [OF c] d True less.prems(4,5) same_env_fields(1) [OF unmappedD(2) [OF c]] by auto
    have "{a..<a'} \<union> {a'..<b} = {a..<b}" using True st(2) by auto
    then have "unmapped D d {a..<b} s s2"
      using unmapped_trans [OF d c s2(2)] True by (simp add: min_def)
    then show ?thesis using st(1) s2(1) True by simp
  qed (use st c in \<open>simp add: min_absorb2\<close>)
qed

section \<open>Giving back tables\<close>

text \<open>The directory entry of a table that maps nothing is cleared and the table freed.\<close>

lemma drop_table:
  assumes ok: "tables_ok (\<lambda>_. 0) D x m" and d: "d \<in> D" "i < 512" and t: "tbl m d i = Some t"
    and empty: "\<And>v. v < user_pages \<Longrightarrow> v div 1024 = i \<Longrightarrow> pmap m d v = None"
    and x': "refs_upd ((\<lambda>q. pg_ref (pages x q))(t := 0)) (insert t (free_set x)) x x'"
    and m': "\<And>q j. j < 1024 \<Longrightarrow> W m' q j = (if q = d \<and> j = i then 0 else W m q j)"
  shows "tables_ok (\<lambda>_. 0) D x' m'" and "c \<in> D \<Longrightarrow> j < 512 \<Longrightarrow> tbl m' c j = (if c = d \<and> j = i then None else tbl m c j)"
    and "c \<in> D \<Longrightarrow> v < user_pages \<Longrightarrow> pmap m' c v = pmap m c v"
proof -
  have tt: "t \<in> tables m D" "t \<in> taken x" "t \<notin> D" using tables_okD(3,4) [OF ok] d t by blast+
  show tb: "tbl m' c j = (if c = d \<and> j = i then None else tbl m c j)" if "c \<in> D" "j < 512" for c j
    using that m' [of j c] by (simp add: tbl_def)
  have tabs: "tables m' D = tables m D - {t}"
  proof (intro set_eqI iffI)
    fix u assume "u \<in> tables m' D"
    then obtain c j where "c \<in> D" "j < 512" "tbl m' c j = Some u" by (auto simp: tables_def)
    then have "c \<in> D" "j < 512" "tbl m c j = Some u" "\<not> (c = d \<and> j = i)" using tb [of c j] by (auto split: if_splits)
    then show "u \<in> tables m D - {t}"
      using tables_okD(4) [OF ok] tables_okD(5) [OF ok \<open>c \<in> D\<close> d(1) \<open>j < 512\<close> d(2) _ t] by blast
  next
    fix u assume "u \<in> tables m D - {t}"
    then obtain c j where "c \<in> D" "j < 512" "tbl m c j = Some u" "u \<noteq> t" by (auto simp: tables_def)
    then have "tbl m' c j = Some u" using tb [of c j] t by auto
    with \<open>c \<in> D\<close> \<open>j < 512\<close> show "u \<in> tables m' D" unfolding tables_def by blast
  qed
  show pm': "pmap m' c v = pmap m c v" if "c \<in> D" "v < user_pages" for c v
  proof (cases "c = d \<and> v div 1024 = i")
    case True
    then show ?thesis using empty [of v] tb [OF that(1), of i] that d by (simp add: pmap_def)
  next
    case False
    have "u \<noteq> d" if "tbl m c (v div 1024) = Some u" for u
      using tables_okD(3,4) [OF ok] \<open>c \<in> D\<close> vpn_index(1) [OF \<open>v < user_pages\<close>] that d by blast
    then show ?thesis
      using False tb [OF that(1) vpn_index(1) [OF that(2)]] m' by (auto simp: pmap_def Let_def split: option.split)
  qed
  have mp: "mappers m' D p = mappers m D p" for p using pm' by (auto simp: mappers_def)
  have tk: "taken x' = taken x - {t}" "avail_set x' = avail_set x" using x' by (auto simp: taken_def refs_upd_def)
  have nt: "mappers m D t = {}" using tables_okD(6) [OF ok] tt(1) by (auto simp: mappers_def)
  show "tables_ok (\<lambda>_. 0) D x' m'"
  proof (rule tables_okI)
    show "D \<subseteq> taken x'" "tables m' D \<subseteq> taken x' - D" using tables_okD(1,3) [OF ok] tt by (auto simp: tk tabs)
    show "d1 = d2 \<and> i1 = i2"
      if u: "d1 \<in> D" "d2 \<in> D" "i1 < 512" "i2 < 512" "tbl m' d1 i1 = Some u" "tbl m' d2 i2 = Some u" for d1 d2 i1 i2 u
      using u(5,6) tables_okD(5) [OF ok u(1-4), of u] unfolding tb [OF u(1,3)] tb [OF u(2,4)] by (auto split: if_splits)
    show "p \<in> taken x' - D - tables m' D" if "c \<in> D" "v < user_pages" "pmap m' c v = Some (p, f)" for c v p f
      using pm' [OF that(1,2)] tables_okD(6) [OF ok that(1,2), of p f] that(3) tt(1) by (auto simp: tk tabs)
    show "pg_ref (pages x' p) = int (card (mappers m' D p)) + 0" if "p \<in> avail_set x'" "p \<notin> tables m' D" for p
    proof (cases "p = t")
      case True
      then show ?thesis using x' nt by (simp add: refs_upd_def mp)
    next
      case False
      then show ?thesis using tables_okD(7) [OF ok, of p] that x' by (simp add: refs_upd_def mp tabs tk)
    qed
  qed
qed

lemma untabledD:
  assumes "untabled D d I s s'"
  shows "pt_inv D s'" "same_env s s'" "npage (pm s') = npage (pm s)" "avail_set (pm s') = avail_set (pm s)"
    and "c \<in> D \<Longrightarrow> v < user_pages \<Longrightarrow> pmap (km s') c v = pmap (km s) c v"
    and "c \<in> D \<Longrightarrow> i < 512 \<Longrightarrow> tbl (km s') c i = (if c = d \<and> i \<in> I then None else tbl (km s) c i)"
    and "free_set (pm s') = free_set (pm s) \<union> {t. \<exists>i \<in> I. tbl (km s) d i = Some t}"
    and "j < 1024 \<Longrightarrow> p \<noteq> d \<Longrightarrow> W (km s') p j = W (km s) p j"
  using assms unfolding untabled_def by blast+

lemma untabled_refl: "pt_inv D s \<Longrightarrow> untabled D d {} s s"
  by (auto simp: untabled_def)

lemma untabled_trans:
  assumes d: "d \<in> D" and I: "I \<subseteq> {..<512}" "I' \<subseteq> {..<512}" and u: "untabled D d I s s1" "untabled D d I' s1 s2"
  shows "untabled D d (I \<union> I') s s2"
proof -
  have t1: "tbl (km s1) d i = (if i \<in> I then None else tbl (km s) d i)" if "i \<in> I'" for i
    using untabledD(6) [OF u(1) d, of i] that I by auto
  then have "{t. \<exists>i \<in> I. tbl (km s) d i = Some t} \<union> {t. \<exists>i \<in> I'. tbl (km s1) d i = Some t} = {t. \<exists>i \<in> I \<union> I'. tbl (km s) d i = Some t}"
    by (auto split: if_splits)
  then have "free_set (pm s2) = free_set (pm s) \<union> {t. \<exists>i \<in> I \<union> I'. tbl (km s) d i = Some t}"
    unfolding untabledD(7) [OF u(2)] untabledD(7) [OF u(1)] by blast
  then show ?thesis
    unfolding untabled_def
    using untabledD [OF u(1)] untabledD [OF u(2)] same_env_trans [OF untabledD(2) [OF u(1)] untabledD(2) [OF u(2)]]
    by (intro conjI ballI allI impI) auto
qed

lemma page_addr_tables: "page_addr (1024 * i) + PTSIZE = page_addr (1024 * (i + 1))"
  by (simp add: page_addr_def PTSIZE_def PGSIZE_def NPTEENTRY_def)

lemma exit_table_ok:
  assumes inv: "pt_inv D s" and d: "d \<in> D" "i < 512"
    and empty: "\<And>v. v < user_pages \<Longrightarrow> v div 1024 = i \<Longrightarrow> pmap (km s) d v = None"
  defines "pdep \<equiv> kva d + 4 * i"
  obtains s' where "(if ld32 (km s) pdep AND PTE_P \<noteq> 0 then
       do { page \<leftarrow> pde2page (ld32 (km s) pdep) s; s \<leftarrow> free_page page s; Some (upd_km (\<lambda>m. st32 m pdep 0) s) }
     else Some s) = Some s'" "untabled D d {i} s s'"
proof (cases "tbl (km s) d i")
  case None
  then have "ld32 (km s) pdep AND PTE_P = 0" by (simp add: tbl_def W_def pdep_def and_PTE_P split: if_splits)
  moreover have "untabled D d {i} s s" using inv None by (auto simp: untabled_def)
  ultimately show thesis using that by simp
next
  case (Some t)
  note j = pt_invD [OF inv]
  have e: "bit (ld32 (km s) pdep) 0" "frame_of (ld32 (km s) pdep) = t"
    using Some by (auto simp: tbl_def W_def pdep_def split: if_splits)
  have t: "t \<in> taken (pm s)" "t < npage (pm s)" using tables_okD(3,4) [OF j(3)] d Some j(4) by blast+
  have pg: "pde2page (ld32 (km s) pdep) s = Some t"
    using e(2) t(2) by (simp add: pde2page_def pa2page_def PTE_ADDR_high unat_PPN unat_high frame_of_def)
  obtain x where x: "free_page t s = Some (s\<lparr>pm := x\<rparr>)"
    "refs_upd ((\<lambda>q. pg_ref (pages (pm s) q))(t := 0)) (insert t (free_set (pm s))) (pm s) x"
    by (rule free_page_ok [OF j(1) t(1)])
  let ?m = "st32 (km s) pdep 0"
  have W: "W ?m q k = (if q = d \<and> k = i then 0 else W (km s) q k)" if "k < 1024" for q k
    unfolding pdep_def using W_st32 [of i k] d(2) that by simp
  note T = drop_table [OF j(3) d Some empty x(2) W]
  let ?s = "upd_km (\<lambda>m. st32 m pdep 0) (s\<lparr>pm := x\<rparr>)"
  have f: "km ?s = ?m" "pm ?s = x" by (simp_all add: upd_km_def)
  have "untabled D d {i} s ?s"
    unfolding untabled_def f
    using T W x(2) Some j(2) by (intro conjI ballI allI impI) (auto simp: refs_upd_def pt_inv_def f)
  then show thesis using that e(1) pg x(1) by (simp add: and_PTE_P)
qed

lemma exit_loop_ok:
  assumes "pt_inv D s" and d: "d \<in> D" and "1024 * i < b" "b \<le> user_pages"
    and "\<And>v. v < user_pages \<Longrightarrow> i \<le> v div 1024 \<Longrightarrow> v div 1024 < (b + 1023) div 1024 \<Longrightarrow> pmap (km s) d v = None"
  shows "\<exists>s'. exit_loop (kva d) (page_addr (1024 * i)) (page_addr b) s = Some s' \<and> untabled D d {i..<(b + 1023) div 1024} s s'"
  using assms
proof (induction "512 - i" arbitrary: i s rule: less_induct)
  case less
  have i: "i < 512" using less.prems(3,4) by (simp add: user_pages_def)
  have iu: "1024 * i < user_pages" "1024 * (i + 1) \<le> user_pages" using i by (simp_all add: user_pages_def)
  let ?n = "(b + 1023) div 1024"
  have n: "i < ?n" "?n \<le> 512" using less.prems(3,4) by (simp_all add: user_pages_def)
  have px: "unat (PDX (page_addr (1024 * i))) = i" using iu(1) by (simp add: unat_PDX)
  have em: "pmap (km s) d v = None" if "v < user_pages" "v div 1024 = i" for v
    using less.prems(5) [OF that(1)] that(2) n by simp
  obtain s1 where s1: "(if ld32 (km s) (kva d + 4 * i) AND PTE_P \<noteq> 0 then
       do { page \<leftarrow> pde2page (ld32 (km s) (kva d + 4 * i)) s; s \<leftarrow> free_page page s; Some (upd_km (\<lambda>m. st32 m (kva d + 4 * i) 0) s) }
     else Some s) = Some s1" "untabled D d {i} s s1"
    by (rule exit_table_ok [OF less.prems(1) d i em])
  have c: "page_addr (1024 * (i + 1)) \<noteq> 0 \<and> page_addr (1024 * (i + 1)) < page_addr b \<longleftrightarrow> 1024 * (i + 1) < b"
    using iu(2) less.prems(4) unat_page_addr [of "1024 * (i + 1)"] page_addr_less [of "1024 * (i + 1)" b] by (auto simp: unat_eq_0)
  have e: "exit_loop (kva d) (page_addr (1024 * i)) (page_addr b) s =
      (if 1024 * (i + 1) < b then exit_loop (kva d) (page_addr (1024 * (i + 1))) (page_addr b) s1 else Some s1)"
    by (subst exit_loop.simps) (simp only: Let_def px s1(1) page_addr_tables c Option.bind.simps)
  show ?case
  proof (cases "1024 * (i + 1) < b")
    case True
    have "pmap (km s1) d v = None" if "v < user_pages" "i + 1 \<le> v div 1024" "v div 1024 < ?n" for v
      using untabledD(5) [OF s1(2) d that(1)] less.prems(5) [OF that(1) _ that(3)] that(2) by simp
    then obtain s2 where s2: "exit_loop (kva d) (page_addr (1024 * (i + 1))) (page_addr b) s1 = Some s2" "untabled D d {i + 1..<?n} s1 s2"
      using less.hyps [OF _ untabledD(1) [OF s1(2)] d True less.prems(4)] i by fastforce
    have "{i} \<union> {i + 1..<?n} = {i..<?n}" using n(1) by auto
    then have "untabled D d {i..<?n} s s2"
      using untabled_trans [OF d _ _ s1(2) s2(2)] i n(2) by (metis atLeastLessThan_iff empty_subsetI insert_subset lessThan_iff less_le_trans subsetI)
    with e True s2(1) show ?thesis by simp
  next
    case False
    then have "?n = i + 1" using n(1) by (simp add: div_nat_eqI)
    then show ?thesis using e False s1(2) by simp
  qed
qed

section \<open>Tearing down an address space\<close>

lemma area_pages_env: "vmas s' = vmas s \<Longrightarrow> area_pages s' vs = area_pages s vs" "vmas s' = vmas s \<Longrightarrow> aligned s' vs = aligned s vs"
  by (simp_all add: area_pages_def aligned_def)

lemma area_pages_user: "aligned s vs \<Longrightarrow> area_pages s vs \<subseteq> {..<user_pages}"
  unfolding area_pages_def aligned_def using page_range(4) by (meson UN_least atLeastLessThan_iff lessThan_iff less_le_trans subsetI)

lemma area_pages_Cons: "area_pages s (v # vs) = {vpn (vm_start (vmas s v))..<vpn (vm_end (vmas s v))} \<union> area_pages s vs"
  by (simp add: area_pages_def)

lemma range_unmap_ok:
  assumes "pt_inv D s" "d \<in> D" "aligned s vs" "cur_pgdir s \<noteq> Some (kva d)"
  shows "\<exists>s'. range_loop (unmap_range (kva d)) vs s = Some s' \<and> unmapped D d (area_pages s vs) s s'"
  using assms
proof (induction vs arbitrary: s)
  case Nil
  then show ?case using unmapped_refl by (simp add: area_pages_def)
next
  case (Cons v vs)
  let ?a = "vm_start (vmas s v)" and ?b = "vm_end (vmas s v)"
  have al: "?a mod PGSIZE = 0" "?b mod PGSIZE = 0" "USER_ACCESS ?a ?b" using Cons.prems(3) by (simp_all add: aligned_def)
  note r = page_range [OF al]
  obtain s1 where s1: "unmap_range (kva d) ?a ?b s = Some s1" "unmapped D d {vpn ?a..<vpn ?b} s s1"
    using unmap_loop_ok [OF Cons.prems(1,2) r(3,4) Cons.prems(4)] al r(1,2) by (auto simp: unmap_range_def)
  note e = same_env_fields [OF unmappedD(2) [OF s1(2)]]
  have "aligned s1 vs" using Cons.prems(3) e(2) by (simp add: aligned_def)
  then obtain s2 where s2: "range_loop (unmap_range (kva d)) vs s1 = Some s2" "unmapped D d (area_pages s vs) s1 s2"
    using Cons.IH [OF unmappedD(1) [OF s1(2)] Cons.prems(2)] Cons.prems(4) e(1,2) area_pages_env(1) [of s1 s] by auto
  show ?case
    using s1(1) s2(1) unmapped_trans [OF Cons.prems(2) s1(2) s2(2)] by (simp add: area_pages_Cons)
qed

lemma rounddown_table:
  assumes "a < user_pages"
  shows "ROUNDDOWN (page_addr a) PTSIZE = page_addr (1024 * (a div 1024))"
proof -
  have "4096 * a - 4096 * a mod 4194304 = 4194304 * (a div 1024)"
    by (simp add: minus_mod_eq_mult_div)
  then have "unat (ROUNDDOWN (page_addr a) PTSIZE) = 4096 * (1024 * (a div 1024))"
    using assms by (simp add: unat_ROUNDDOWN PTSIZE_def PGSIZE_def NPTEENTRY_def unat_page_addr)
  moreover have "1024 * (a div 1024) \<le> user_pages" using assms by (meson le_trans less_imp_le times_div_less_eq_dividend)
  ultimately show ?thesis using unat_page_addr [of "1024 * (a div 1024)"] by (simp add: word_unat_eq_iff)
qed

lemma range_exit_ok:
  assumes "pt_inv D s" "d \<in> D" "aligned s vs" "\<And>v. v < user_pages \<Longrightarrow> pmap (km s) d v = None"
  shows "\<exists>s'. range_loop (exit_range (kva d)) vs s = Some s' \<and> untabled D d ((\<lambda>v. v div 1024) ` area_pages s vs) s s'"
  using assms
proof (induction vs arbitrary: s)
  case Nil
  then show ?case using untabled_refl by (simp add: area_pages_def)
next
  case (Cons v vs)
  let ?a = "vm_start (vmas s v)" and ?b = "vm_end (vmas s v)"
  have al: "?a mod PGSIZE = 0" "?b mod PGSIZE = 0" "USER_ACCESS ?a ?b" using Cons.prems(3) by (simp_all add: aligned_def)
  note r = page_range [OF al]
  let ?I = "{vpn ?a div 1024..<(vpn ?b + 1023) div 1024}"
  have au: "vpn ?a < user_pages" using r(3,4) by simp
  have "1024 * (vpn ?a div 1024) < vpn ?b" using r(3) by (meson le_less_trans times_div_less_eq_dividend)
  then obtain s1 where s1: "exit_range (kva d) ?a ?b s = Some s1" "untabled D d ?I s s1"
    using exit_loop_ok [OF Cons.prems(1,2) _ r(4)] Cons.prems(4) al rounddown_table [OF au] r(1,2) by (auto simp: exit_range_def)
  have I: "?I = (\<lambda>v. v div 1024) ` {vpn ?a..<vpn ?b}"
  proof (intro set_eqI iffI)
    fix i assume "i \<in> ?I"
    then have "vpn ?a div 1024 \<le> i" "1024 * i < vpn ?b" by auto
    then show "i \<in> (\<lambda>v. v div 1024) ` {vpn ?a..<vpn ?b}"
      using r(3) by (intro image_eqI [of _ _ "max (vpn ?a) (1024 * i)"]) (auto simp: max_def not_le less_mult_imp_div_less intro!: antisym)
  next
    fix i assume "i \<in> (\<lambda>v. v div 1024) ` {vpn ?a..<vpn ?b}"
    then show "i \<in> ?I" by (auto simp: div_le_mono)
  qed
  note e = same_env_fields [OF untabledD(2) [OF s1(2)]]
  have "aligned s1 vs" using Cons.prems(3) e(2) by (simp add: aligned_def)
  then obtain s2 where s2: "range_loop (exit_range (kva d)) vs s1 = Some s2" "untabled D d ((\<lambda>v. v div 1024) ` area_pages s vs) s1 s2"
    using Cons.IH [OF untabledD(1) [OF s1(2)] Cons.prems(2)] Cons.prems(2,4) untabledD(5) [OF s1(2)] area_pages_env(1) [of s1 s] e(2) by auto
  have "area_pages s vs \<subseteq> {..<user_pages}" using Cons.prems(3) by (intro area_pages_user) (simp add: aligned_def)
  then have sub: "?I \<subseteq> {..<512}" "(\<lambda>v. v div 1024) ` area_pages s vs \<subseteq> {..<512}"
    using r(4) by (auto simp: vpn_index(1) user_pages_def)
  show ?case
    using s1(1) s2(1) untabled_trans [OF Cons.prems(2) sub s1(2) s2(2)] by (simp add: area_pages_Cons I image_Un)
qed

lemma exit_mmap_ok:
  assumes inv: "pt_inv D s" and d: "d \<in> D" "mm_pgdir (mms s mm) = Some (kva d)" and c0: "mm_count (mms s mm) = 0"
    and al: "aligned s (mmap_list (mms s mm))" and con: "confined d (mmap_list (mms s mm)) s" and cur: "cur_pgdir s \<noteq> Some (kva d)"
  obtains s' where "exit_mmap mm s = Some s'" "same_env s s'" "pt_inv D s'" "npage (pm s') = npage (pm s)" "avail_set (pm s') = avail_set (pm s)"
    "free_set (pm s') = free_set (pm s) \<union> own_pages D d s \<union> tables (km s) {d}"
    "\<And>i. i < 512 \<Longrightarrow> tbl (km s') d i = None"
    "\<And>c v. c \<in> D \<Longrightarrow> c \<noteq> d \<Longrightarrow> v < user_pages \<Longrightarrow> pmap (km s') c v = pmap (km s) c v"
    "\<And>c i. c \<in> D \<Longrightarrow> c \<noteq> d \<Longrightarrow> i < 512 \<Longrightarrow> tbl (km s') c i = tbl (km s) c i"
    "\<And>p j. j < 1024 \<Longrightarrow> p \<noteq> d \<Longrightarrow> p \<notin> tables (km s) {d} \<Longrightarrow> W (km s') p j = W (km s) p j"
proof -
  let ?l = "mmap_list (mms s mm)"
  obtain s1 where s1: "range_loop (unmap_range (kva d)) ?l s = Some s1" "unmapped D d (area_pages s ?l) s s1"
    using range_unmap_ok [OF inv d(1) al cur] by blast
  note u = unmappedD [OF s1(2)] and e = same_env_fields [OF unmappedD(2) [OF s1(2)]]
  have none: "pmap (km s1) d v = None" if "v < user_pages" for v
    using u(5) [OF d(1) that] con that unfolding confined_def by (metis (no_types, lifting))
  obtain s2 where s2: "range_loop (exit_range (kva d)) ?l s1 = Some s2" "untabled D d ((\<lambda>v. v div 1024) ` area_pages s ?l) s1 s2"
    using range_exit_ok [OF u(1) d(1) _ none, of ?l] al area_pages_env [of s1 s ?l] e(2) by auto
  note w = untabledD [OF s2(2)]
  have "exit_mmap mm s = Some s2"
  proof (cases "?l = []")
    case True
    then have "s2 = s" using s1(1) s2(1) by simp
    with True c0 show ?thesis by (simp add: exit_mmap_def)
  qed (use c0 d(2) s1(1) s2(1) in \<open>simp add: exit_mmap_def\<close>)
  moreover have "free_set (pm s2) = free_set (pm s) \<union> own_pages D d s \<union> tables (km s) {d}"
  proof -
    have "mappers (km s1) D p = {} \<longleftrightarrow> mappers (km s) D p \<subseteq> {d} \<times> UNIV" for p
    proof
      assume e: "mappers (km s1) D p = {}"
      show "mappers (km s) D p \<subseteq> {d} \<times> UNIV"
      proof (rule subsetI, rule ccontr)
        fix cv assume cv: "cv \<in> mappers (km s) D p" "cv \<notin> {d} \<times> UNIV"
        then have "cv \<in> mappers (km s1) D p" using u(5) by (cases cv) (auto simp: mappers_def)
        with e show False by simp
      qed
    next
      assume "mappers (km s) D p \<subseteq> {d} \<times> UNIV"
      moreover have "(d, v) \<notin> mappers (km s1) D p" for v using none by (auto simp: mappers_def)
      ultimately show "mappers (km s1) D p = {}" using mappers_unmapped [OF s1(2), of p] by blast
    qed
    then have "{p. mappers (km s) D p \<noteq> {} \<and> mappers (km s1) D p = {}} = own_pages D d s" by (simp add: own_pages_def)
    moreover have "{t. \<exists>i \<in> (\<lambda>v. v div 1024) ` area_pages s ?l. tbl (km s1) d i = Some t} = tables (km s) {d}"
    proof -
      have "(\<exists>i \<in> (\<lambda>v. v div 1024) ` area_pages s ?l. tbl (km s1) d i = Some t) \<longleftrightarrow> (\<exists>i < 512. tbl (km s) d i = Some t)" for t
      proof
        assume "\<exists>i \<in> (\<lambda>v. v div 1024) ` area_pages s ?l. tbl (km s1) d i = Some t"
        then obtain v where v: "v \<in> area_pages s ?l" "tbl (km s1) d (v div 1024) = Some t" by blast
        then have "v div 1024 < 512" using area_pages_user [OF al] vpn_index(1) by blast
        with u(6) [OF d(1)] v(2) show "\<exists>i < 512. tbl (km s) d i = Some t" by auto
      next
        assume "\<exists>i < 512. tbl (km s) d i = Some t"
        then obtain i where i: "i < 512" "tbl (km s) d i = Some t" by blast
        with con obtain v where "v \<in> area_pages s ?l" "v div 1024 = i" unfolding confined_def by blast
        with u(6) [OF d(1) i(1)] i(2) show "\<exists>i \<in> (\<lambda>v. v div 1024) ` area_pages s ?l. tbl (km s1) d i = Some t" by auto
      qed
      then show ?thesis by (auto simp: tables_def)
    qed
    ultimately show ?thesis unfolding w(7) u(7) by blast
  qed
  moreover have "tbl (km s2) d i = None" if "i < 512" for i
    using w(6) [OF d(1) that] u(6) [OF d(1) that] con that by (fastforce simp: confined_def split: if_splits)
  ultimately show thesis
    using that [of s2] same_env_trans [OF u(2) w(2)] w u by simp
qed

lemma drop_dir:
  assumes ok: "tables_ok (\<lambda>_. 0) D x m" and d: "d \<in> D" and none: "\<And>i. i < 512 \<Longrightarrow> tbl m d i = None"
    and x': "refs_upd ((\<lambda>q. pg_ref (pages x q))(d := 0)) (insert d (free_set x)) x x'"
  shows "tables_ok (\<lambda>_. 0) (D - {d}) x' m"
proof -
  have tabs: "tables m (D - {d}) = tables m D" using none by (force simp: tables_def)
  have pn: "pmap m d v = None" if "v < user_pages" for v using none [OF vpn_index(1) [OF that]] by (simp add: pmap_def)
  have mp: "mappers m (D - {d}) p = mappers m D p" for p using pn by (auto simp: mappers_def)
  have md: "mappers m D d = {}" using tables_okD(6) [OF ok] d by (auto simp: mappers_def)
  have tk: "taken x' = taken x - {d}" "avail_set x' = avail_set x" using x' by (auto simp: taken_def refs_upd_def)
  show ?thesis
  proof (rule tables_okI)
    show "D - {d} \<subseteq> taken x'" "tables m (D - {d}) \<subseteq> taken x' - (D - {d})" using tables_okD(1,3) [OF ok] d by (auto simp: tk tabs)
    show "d1 = d2 \<and> i1 = i2"
      if "d1 \<in> D - {d}" "d2 \<in> D - {d}" "i1 < 512" "i2 < 512" "tbl m d1 i1 = Some u" "tbl m d2 i2 = Some u" for d1 d2 i1 i2 u
      using tables_okD(5) [OF ok _ _ that(3-6)] that(1,2) by simp
    show "p \<in> taken x' - (D - {d}) - tables m (D - {d})" if "c \<in> D - {d}" "v < user_pages" "pmap m c v = Some (p, f)" for c v p f
      using tables_okD(6) [OF ok _ that(2,3)] that(1) d by (auto simp: tk tabs)
    show "pg_ref (pages x' p) = int (card (mappers m (D - {d}) p)) + 0" if "p \<in> avail_set x'" "p \<notin> tables m (D - {d})" for p
      using tables_okD(7) [OF ok, of p] that x' md by (auto simp: refs_upd_def mp tabs tk)
  qed
qed

lemma put_pgdir_ok:
  assumes inv: "pt_inv D s" and d: "d \<in> D" "mm_pgdir (mms s mm) = Some (kva d)" and none: "\<And>i. i < 512 \<Longrightarrow> tbl (km s) d i = None"
  obtains x where "put_pgdir mm s = Some (s\<lparr>pm := x\<rparr>)" "pt_inv (D - {d}) (s\<lparr>pm := x\<rparr>)" "npage x = npage (pm s)"
    "avail_set x = avail_set (pm s)" "free_set x = insert d (free_set (pm s))"
proof -
  note i = pt_invD [OF inv]
  have t: "d \<in> taken (pm s)" using tables_okD(1) [OF i(3)] d(1) by blast
  obtain x where x: "free_page d s = Some (s\<lparr>pm := x\<rparr>)"
    "refs_upd ((\<lambda>q. pg_ref (pages (pm s) q))(d := 0)) (insert d (free_set (pm s))) (pm s) x"
    by (rule free_page_ok [OF i(1) t])
  have "kva2page (kva d) s = Some d" by (rule kva2page_kva [OF i(4) [OF t] i(2)])
  then have "put_pgdir mm s = Some (s\<lparr>pm := x\<rparr>)" using d(2) x(1) by (simp add: put_pgdir_def)
  moreover have "pt_inv (D - {d}) (s\<lparr>pm := x\<rparr>)"
    using drop_dir [OF i(3) d(1) none x(2)] x(2) i(2) by (simp add: pt_inv_def refs_upd_def)
  ultimately show thesis using that x(2) by (simp add: refs_upd_def)
qed

section \<open>A new page directory\<close>

lemma add_dir:
  assumes ok: "tables_ok (\<lambda>_. 0) D x m" and q: "q \<in> taken x" "q \<notin> D" "q \<notin> tables m D" "mappers m D q = {}"
    and none: "\<And>i. i < 512 \<Longrightarrow> tbl m q i = None"
  shows "tables_ok (\<lambda>_. 0) (insert q D) x m"
proof -
  have tabs: "tables m (insert q D) = tables m D" using none by (force simp: tables_def)
  have pn: "pmap m q v = None" if "v < user_pages" for v using none [OF vpn_index(1) [OF that]] by (simp add: pmap_def)
  have mp: "mappers m (insert q D) p = mappers m D p" for p using pn by (auto simp: mappers_def)
  show ?thesis
  proof (rule tables_okI)
    show "insert q D \<subseteq> taken x" "tables m (insert q D) \<subseteq> taken x - insert q D" using tables_okD(1,3) [OF ok] q by (auto simp: tabs)
    show "d1 = d2 \<and> i1 = i2"
      if "d1 \<in> insert q D" "d2 \<in> insert q D" "i1 < 512" "i2 < 512" "tbl m d1 i1 = Some u" "tbl m d2 i2 = Some u" for d1 d2 i1 i2 u
      using tables_okD(5) [OF ok _ _ that(3-6)] that none by (metis insertE option.distinct(1))
    show "p \<in> taken x - insert q D - tables m (insert q D)" if c: "c \<in> insert q D" "v < user_pages" "pmap m c v = Some (p, f)" for c v p f
    proof -
      have "c \<in> D" using c pn by auto
      moreover from this have "p \<noteq> q" using c(2,3) q(4) by (auto simp: mappers_def)
      ultimately show ?thesis using tables_okD(6) [OF ok _ c(2,3)] by (simp add: tabs)
    qed
    show "pg_ref (pages x p) = int (card (mappers m (insert q D) p)) + 0" if "p \<in> avail_set x" "p \<notin> tables m (insert q D)" for p
      using tables_okD(7) [OF ok, of p] that by (simp add: mp tabs)
  qed
qed

lemma unat_PDX_VPT: "unat (PDX VPT) = 1003"
  by (simp add: unat_PDX vpn_def VPT_def)

lemma setup_pgdir_ok:
  assumes inv: "pt_inv D s" and ne: "free_set (pm s) \<noteq> {}" and b: "b \<in> taken (pm s)" "\<And>i. i < 512 \<Longrightarrow> tbl (km s) b i = None"
  obtains q x m where "setup_pgdir (kva b) mm s = Some (Inr (), upd_mm mm (\<lambda>m. m\<lparr>mm_pgdir := Some (kva q)\<rparr>) (s\<lparr>pm := x, km := m\<rparr>))"
    "pt_inv (insert q D) (s\<lparr>pm := x, km := m\<rparr>)" "q \<in> free_set (pm s)" "q \<notin> D" "free_set x = free_set (pm s) - {q}" "avail_set x = avail_set (pm s)"
    "npage x = npage (pm s)" "\<forall>i < 512. tbl m q i = None" "\<forall>p j. p \<noteq> q \<longrightarrow> j < 1024 \<longrightarrow> W m p j = W (km s) p j"
    "tables m D = tables (km s) D" "\<forall>d \<in> D. \<forall>v < user_pages. pmap m d v = pmap (km s) d v"
proof -
  note i = pt_invD [OF inv]
  obtain q x where q: "alloc_page s = Some (Some q, s\<lparr>pm := x\<rparr>)" "q \<in> free_set (pm s)" "free_set x = free_set (pm s) - {q}"
    "avail_set x = avail_set (pm s)" "npage x = npage (pm s)" "q \<in> taken x" "q \<notin> D" "q \<notin> tables (km s) D" "q < npage (pm s)"
    and M: "\<And>m. (\<And>p j. p \<noteq> q \<Longrightarrow> j < 1024 \<Longrightarrow> W m p j = W (km s) p j) \<Longrightarrow> pt_inv D (s\<lparr>pm := x, km := m\<rparr>) \<and> tables m D = tables (km s) D \<and>
       (\<forall>d \<in> D. \<forall>v < user_pages. pmap m d v = pmap (km s) d v) \<and> (\<forall>d \<in> D. \<forall>i < 512. tbl m d i = tbl (km s) d i)"
    by (rule alloc_fresh [OF inv ne]) blast
  have bq: "b \<noteq> q" using b(1) q(2) by (auto simp: taken_def)
  have qu: "q < user_pages" using q(9) i(2) by simp
  obtain pa where pa: "PADDR (kva q) = Some pa" by (simp add: PADDR_def kva_def)
  define m where "m = st32 (memcpy (km s) (kva q) (kva b) 4096) (kva q + 4 * 1003) (pa OR PTE_P OR PTE_W)"
  have W: "W m p j = (if p = q then if j = 1003 then pa OR PTE_P OR PTE_W else W (km s) b j else W (km s) p j)" if "j < 1024" for p j
    unfolding m_def using that bq by (subst W_st32) (auto simp: W_memcpy)
  note I = M [of m]
  have I: "pt_inv D (s\<lparr>pm := x, km := m\<rparr>)" "tables m D = tables (km s) D" "\<And>d v. d \<in> D \<Longrightarrow> v < user_pages \<Longrightarrow> pmap m d v = pmap (km s) d v"
    using I W by auto
  have none: "tbl m q j = None" if "j < 512" for j
    using b(2) [OF that] W [of j q] that by (simp add: tbl_def split: if_splits)
  have mq: "mappers m D q = {}"
  proof -
    have "(c, v) \<notin> mappers m D q" for c v
      using tables_okD(6) [OF i(3), of c v q] I(3) [of c v] q(2) by (auto simp: mappers_def taken_def)
    then show ?thesis by auto
  qed
  have "pt_inv (insert q D) (s\<lparr>pm := x, km := m\<rparr>)"
    using I(1) add_dir [of D x m q] none q(6,7,8) mq I(2) by (simp add: pt_inv_def)
  moreover have "page2kva q (s\<lparr>pm := x\<rparr>) = Some (kva q)"
    using KADDR_page2pa [of q "s\<lparr>pm := x\<rparr>"] q(5,9) i(2) by (simp add: page2kva_def)
  then have "setup_pgdir (kva b) mm s = Some (Inr (), upd_mm mm (\<lambda>m. m\<lparr>mm_pgdir := Some (kva q)\<rparr>) (s\<lparr>pm := x, km := m\<rparr>))"
    using q(1) pa by (simp add: setup_pgdir_def unat_PDX_VPT upd_km_def m_def)
  ultimately show thesis
    using that q(2,3,4,5,7) none W I by simp
qed

section \<open>Copying an address space\<close>

lemma insert_vma_frame:
  assumes "insert_vma_struct mm vma s = Some s'"
  obtains l where "s' = upd_mm mm (\<lambda>m. m\<lparr>mmap_list := l, map_count := map_count m + 1\<rparr>) (s\<lparr>vmas := (vmas s)(vma := (vmas s vma)\<lparr>vm_mm := mm\<rparr>)\<rparr>)"
  using assms that unfolding insert_vma_struct_def by (auto simp: bind_eq_Some_conv Let_def split: prod.splits)

lemma pt_inv_env [simp]: "pt_inv D (s\<lparr>vmas := v\<rparr>) = pt_inv D s" "pt_inv D (s\<lparr>mms := m\<rparr>) = pt_inv D s" "pt_inv D (s\<lparr>kanswers := k\<rparr>) = pt_inv D s"
  by (simp_all add: pt_inv_def)

lemma with_areas_simps [simp]:
  "km (with_areas s' s) = km s" "pm (with_areas s' s) = pm s" "vmas (with_areas s' s) = vmas s'" "mms (with_areas s' s) = mms s'"
  "kanswers (with_areas s' s) = kanswers s'" "cur_pgdir (with_areas s' s) = cur_pgdir s" "with_areas s'' (with_areas s' s) = with_areas s'' s"
  "pt_inv D (with_areas s' s) = pt_inv D s"
  by (simp_all add: with_areas_def pt_inv_def)

lemma same_env_areas: "same_env s s' \<Longrightarrow> same_env (with_areas s2 s) (with_areas s2 s')"
  by (cases s; cases s'; cases s2) (simp add: same_env_def with_areas_def)

lemma copied_areas: "copied D d d' V s s' \<Longrightarrow> copied D d d' V (with_areas s2 s) (with_areas s2 s')"
  unfolding copied_def by (simp add: same_env_areas)

lemma with_areas_id [simp]: "with_areas s s = s"
  by (cases s) (simp add: with_areas_def)

lemma copied_cong: "copied D d d' V s s' \<Longrightarrow> km t = km s \<Longrightarrow> pm t = pm s \<Longrightarrow> same_env t s' \<Longrightarrow> copied D d d' V t s'"
  unfolding copied_def by simp

lemma vpn_mono: "a \<le> b \<Longrightarrow> vpn a \<le> vpn b"
  by (simp add: vpn_def word_le_nat_alt div_le_mono)

text \<open>The new area of one step.\<close>

lemma dup_area_ok:
  assumes r: "dup_ready D d d' to_mm (v # vs) (b # bs) rest s"
  defines "w \<equiv> vmas s v"
  obtains s1 s2 where "vma_create (Some b) (vm_start w) (vm_end w) (vm_flags w) (s\<lparr>kanswers := map Some bs @ rest\<rparr>) = (Some b, s1)"
      "insert_vma_struct to_mm b s1 = Some s2" "s2 = with_areas s2 s" "kanswers s2 = map Some bs @ rest"
      "mm_inv s2 to_mm" "area_set s2 to_mm = insert (area w) (area_set s to_mm)" "set (mmap_list (mms s2 to_mm)) = insert b (set (mmap_list (mms s to_mm)))"
      "\<And>mm. mm \<noteq> to_mm \<Longrightarrow> mms s2 mm = mms s mm" "\<And>u. u \<noteq> b \<Longrightarrow> vmas s2 u = vmas s u" "area (vmas s2 b) = area w"
      "mm_pgdir (mms s2 to_mm) = mm_pgdir (mms s to_mm)" "mm_count (mms s2 to_mm) = mm_count (mms s to_mm)"
proof -
  let ?s0 = "s\<lparr>kanswers := map Some bs @ rest\<rparr>" and ?l = "mmap_list (mms s to_mm)"
  define s1 where "s1 = ?s0\<lparr>vmas := (vmas s)(b := (vmas s b)\<lparr>vm_start := vm_start w, vm_end := vm_end w, vm_flags := vm_flags w\<rparr>)\<rparr>"
  have c: "vma_create (Some b) (vm_start w) (vm_end w) (vm_flags w) ?s0 = (Some b, s1)" by (simp add: vma_create_def s1_def)
  have bn: "b \<notin> set ?l" "mm_inv s to_mm" "vm_start w < vm_end w" "\<forall>u \<in> set ?l. vm_end w \<le> vm_start (vmas s u)"
    using r by (auto simp: dup_ready_def w_def)
  have m1: "mm_inv s1 to_mm" "area_set s1 to_mm = area_set s to_mm" "mms s1 = mms s"
  proof -
    have "areas_ok (vmas s1) ?l = areas_ok (vmas s) ?l"
      using bn(1) by (intro areas_ok_cong) (auto simp: s1_def)
    with bn(2) show "mm_inv s1 to_mm" by (simp add: mm_inv_def s1_def)
    show "area_set s1 to_mm = area_set s to_mm" using bn(1) by (auto simp: area_set_def s1_def)
  qed (simp add: s1_def)
  have v1: "vmas s1 b = (vmas s b)\<lparr>vm_start := vm_start w, vm_end := vm_end w, vm_flags := vm_flags w\<rparr>"
    "\<And>u. u \<noteq> b \<Longrightarrow> vmas s1 u = vmas s u" by (simp_all add: s1_def)
  note I = insert_vma_struct_ok [OF m1(1), of b, unfolded m1(3), OF bn(1)]
  have "\<not> overlaps (vmas s1 u) (vm_start w) (vm_end w)" if "u \<in> set ?l" for u
    using bn(1,4) that v1(2) [of u] by (metis overlaps_def leD)
  then obtain s2 where s2: "insert_vma_struct to_mm b s1 = Some s2"
    using I(1) bn(3) v1(1) by (cases "insert_vma_struct to_mm b s1") auto
  obtain l where l: "s2 = upd_mm to_mm (\<lambda>m. m\<lparr>mmap_list := l, map_count := map_count m + 1\<rparr>) (s1\<lparr>vmas := (vmas s1)(b := (vmas s1 b)\<lparr>vm_mm := to_mm\<rparr>)\<rparr>)"
    by (rule insert_vma_frame [OF s2])
  have aw: "area (vmas s1 b) = area w" by (simp add: v1(1) area_def)
  show thesis
  proof (rule that [OF c s2])
    show "s2 = with_areas s2 s" by (cases s) (simp add: l with_areas_def upd_mm_def s1_def)
    show "kanswers s2 = map Some bs @ rest" by (simp add: l upd_mm_def s1_def)
    show "mm_inv s2 to_mm" "area_set s2 to_mm = insert (area w) (area_set s to_mm)" "set (mmap_list (mms s2 to_mm)) = insert b (set ?l)"
      using I(2) [OF s2] m1(2) aw by simp_all
    show "area (vmas s2 b) = area w" using aw by (simp add: l upd_mm_def area_def)
  qed (simp_all add: l upd_mm_def v1(2) m1(3))
qed

lemma dup_ready_disjoint:
  assumes "dup_ready D d d' to_mm (v # vs) bs rest s"
  shows "{vpn (vm_start (vmas s v))..<vpn (vm_end (vmas s v))} \<inter> area_pages s vs = {}"
proof -
  have "p < vpn (vm_start (vmas s v))" if p: "p \<in> area_pages s vs" for p
  proof -
    obtain u where u: "u \<in> set vs" "p < vpn (vm_end (vmas s u))" using p by (auto simp: area_pages_def)
    then have "vm_end (vmas s u) \<le> vm_start (vmas s v)" using assms by (simp add: dup_ready_def)
    with u(2) show ?thesis using vpn_mono less_le_trans by blast
  qed
  then show ?thesis by fastforce
qed

lemma dup_ready_step:
  assumes r: "dup_ready D d d' to_mm (v # vs) (b # bs) rest s" and d: "d \<in> D" "d' \<in> D" "d \<noteq> d'"
    and s2: "s2 = with_areas s2 s" "kanswers s2 = map Some bs @ rest" "mm_inv s2 to_mm"
      "set (mmap_list (mms s2 to_mm)) = insert b (set (mmap_list (mms s to_mm)))" "\<And>u. u \<noteq> b \<Longrightarrow> vmas s2 u = vmas s u" "area (vmas s2 b) = area (vmas s v)"
    and c: "copied D d d' {vpn (vm_start (vmas s v))..<vpn (vm_end (vmas s v))} s2 s3"
    and fr: "card (free_set (pm s2)) \<le> card (free_set (pm s3)) + 2 * card {p \<in> {vpn (vm_start (vmas s v))..<vpn (vm_end (vmas s v))}. pmap (km s2) d p \<noteq> None}"
  shows "dup_ready D d d' to_mm vs bs rest s3"
proof -
  let ?V = "{vpn (vm_start (vmas s v))..<vpn (vm_end (vmas s v))}"
  note e = same_env_fields [OF copiedD(2) [OF c]] and ks = arg_cong [OF s2(1), of km] arg_cong [OF s2(1), of pm] arg_cong [OF s2(1), of cur_pgdir]
  have k2: "km s2 = km s" "pm s2 = pm s" "cur_pgdir s2 = cur_pgdir s"
    by (subst s2(1), simp)+
  have R: "pt_inv D s" "cur_pgdir s \<noteq> Some (kva d')" "aligned s (v # vs)" "\<forall>u \<in> set vs. vm_end (vmas s u) \<le> vm_start (vmas s v)"
    "sorted_wrt (\<lambda>u v. vm_end (vmas s v) \<le> vm_start (vmas s u)) vs" "\<forall>u \<in> set vs. vm_start (vmas s u) < vm_end (vmas s u)"
    "\<forall>u \<in> set (mmap_list (mms s to_mm)). \<forall>v \<in> set vs. vm_end (vmas s v) \<le> vm_start (vmas s u)"
    "b \<notin> set vs" "b \<notin> set bs" "distinct bs" "length bs = length vs" "set bs \<inter> (set vs \<union> set (mmap_list (mms s to_mm))) = {}" "b \<notin> set (mmap_list (mms s to_mm))"
    "\<forall>p \<in> ?V \<union> area_pages s vs. pmap (km s) d' p = None" "2 * card {p \<in> ?V \<union> area_pages s vs. pmap (km s) d p \<noteq> None} \<le> card (free_set (pm s))"
    using r by (auto simp: dup_ready_def area_pages_Cons)
  have v3: "vmas s3 u = vmas s u" if "u \<in> set vs" for u using e(2) s2(5) [of u] that R(8) by auto
  have b3: "vm_start (vmas s3 b) = vm_start (vmas s v)" using e(2) s2(6) by (simp add: area_def)
  have al: "aligned s3 vs" using R(3) v3 by (simp add: aligned_def)
  have ap: "area_pages s3 vs = area_pages s vs" using v3 by (simp add: area_pages_def)
  have dis: "?V \<inter> area_pages s vs = {}" by (rule dup_ready_disjoint [OF r])
  have vu: "?V \<subseteq> {..<user_pages}" "area_pages s vs \<subseteq> {..<user_pages}"
    using area_pages_user [OF R(3)] by (auto simp: area_pages_Cons)
  have p3: "pmap (km s3) d p = pmap (km s) d p" "pmap (km s3) d' p = None" if "p \<in> area_pages s vs" for p
  proof -
    have "p < user_pages" "p \<notin> ?V" "pmap (km s) d' p = None" using that vu dis R(14) by auto
    then show "pmap (km s3) d p = pmap (km s) d p" "pmap (km s3) d' p = None"
      using copiedD(5) [OF c d(1), of p] copiedD(5) [OF c d(2), of p] d(3) by (simp_all add: k2)
  qed
  have fin: "finite ?V" "finite (area_pages s vs)" using vu finite_subset by blast+
  have "{p \<in> ?V \<union> area_pages s vs. pmap (km s) d p \<noteq> None} =
      {p \<in> ?V. pmap (km s) d p \<noteq> None} \<union> {p \<in> area_pages s vs. pmap (km s3) d p \<noteq> None}" using p3(1) by auto
  then have "card {p \<in> ?V \<union> area_pages s vs. pmap (km s) d p \<noteq> None} =
      card {p \<in> ?V. pmap (km s) d p \<noteq> None} + card {p \<in> area_pages s vs. pmap (km s3) d p \<noteq> None}"
    by (simp only:) (rule card_Un_disjoint, use fin dis in auto)
  with R(15) fr have "2 * card {p \<in> area_pages s vs. pmap (km s3) d p \<noteq> None} \<le> card (free_set (pm s3))"
    unfolding k2 by linarith
  moreover have "mm_inv s3 to_mm" using s2(3) e(2,3) by (simp add: mm_inv_def)
  moreover have "sorted_wrt (\<lambda>u v. vm_end (vmas s3 v) \<le> vm_start (vmas s3 u)) vs"
    using R(5) v3 by (auto intro: sorted_wrt_mono_rel [of vs, rotated])
  moreover have "\<forall>u \<in> set (mmap_list (mms s3 to_mm)). \<forall>v \<in> set vs. vm_end (vmas s3 v) \<le> vm_start (vmas s3 u)"
  proof (intro ballI)
    fix u u' assume u: "u \<in> set (mmap_list (mms s3 to_mm))" "u' \<in> set vs"
    show "vm_end (vmas s3 u') \<le> vm_start (vmas s3 u)"
    proof (cases "u = b")
      case True
      then show ?thesis using R(4) v3 [OF u(2)] b3 u(2) by simp
    next
      case False
      then show ?thesis using u R(7) v3 [OF u(2)] s2(5) [OF False] e(2,3) s2(4) by auto
    qed
  qed
  ultimately show ?thesis
    unfolding dup_ready_def
    using copiedD(1) [OF c] R(2,6,9-12) e(1,3,7) k2(3) s2(2,4) al ap v3 p3(2) by auto
qed

lemma dup_mmap_loop_ok:
  assumes "dup_ready D d d' to_mm vs bs rest s" and d: "d \<in> D" "d' \<in> D" "d \<noteq> d'"
  shows "\<exists>s'. dup_mmap_loop vs to_mm (kva d') (kva d) s = Some (Inr (), s') \<and> dup_done D d d' to_mm vs bs s s' \<and> kanswers s' = rest"
  using assms(1)
proof (induction vs arbitrary: bs s)
  case Nil
  then have s: "pt_inv D s" "mm_inv s to_mm" "bs = []" "kanswers s = rest" by (auto simp: dup_ready_def)
  have "dup_done D d d' to_mm [] bs s s"
    using s copied_refl [OF s(1), of d d'] by (simp add: dup_done_def area_pages_def)
  with s(4) show ?case by simp
next
  case (Cons v vs)
  obtain b bs' where bs: "bs = b # bs'" using Cons.prems by (cases bs) (auto simp: dup_ready_def)
  note r = Cons.prems [unfolded bs]
  let ?w = "vmas s v"
  let ?V = "{vpn (vm_start ?w)..<vpn (vm_end ?w)}"
  obtain s1 s2 where vc: "vma_create (Some b) (vm_start ?w) (vm_end ?w) (vm_flags ?w) (s\<lparr>kanswers := map Some bs' @ rest\<rparr>) = (Some b, s1)"
    and iv: "insert_vma_struct to_mm b s1 = Some s2" and s2: "s2 = with_areas s2 s" "kanswers s2 = map Some bs' @ rest"
      "mm_inv s2 to_mm" "area_set s2 to_mm = insert (area ?w) (area_set s to_mm)" "set (mmap_list (mms s2 to_mm)) = insert b (set (mmap_list (mms s to_mm)))"
      "\<And>mm. mm \<noteq> to_mm \<Longrightarrow> mms s2 mm = mms s mm" "\<And>u. u \<noteq> b \<Longrightarrow> vmas s2 u = vmas s u" "area (vmas s2 b) = area ?w"
      "mm_pgdir (mms s2 to_mm) = mm_pgdir (mms s to_mm)" "mm_count (mms s2 to_mm) = mm_count (mms s to_mm)"
    by (rule dup_area_ok [OF r]) blast
  have k2: "km s2 = km s" "pm s2 = pm s" "cur_pgdir s2 = cur_pgdir s" "pt_inv D s2 = pt_inv D s"
    by (subst s2(1), simp)+
  have R: "pt_inv D s" "cur_pgdir s \<noteq> Some (kva d')" "aligned s (v # vs)" "\<forall>p \<in> ?V. pmap (km s) d' p = None" "kanswers s = Some b # map Some bs' @ rest"
    "2 * card {p \<in> ?V \<union> area_pages s vs. pmap (km s) d p \<noteq> None} \<le> card (free_set (pm s))" "b \<notin> set vs" "b \<notin> set bs'" "b \<noteq> v"
    "set bs' \<inter> set vs = {}" "v \<notin> set bs'"
    using r by (auto simp: dup_ready_def area_pages_Cons)
  have al: "vm_start ?w mod PGSIZE = 0" "vm_end ?w mod PGSIZE = 0" "USER_ACCESS (vm_start ?w) (vm_end ?w)" using R(3) by (simp_all add: aligned_def)
  have "card {p \<in> ?V. pmap (km s) d p \<noteq> None} \<le> card {p \<in> ?V \<union> area_pages s vs. pmap (km s) d p \<noteq> None}"
    by (rule card_mono [OF finite_subset [OF _ finite_lessThan [of user_pages]]])
      (use area_pages_user [OF R(3)] in \<open>auto simp: area_pages_Cons\<close>)
  then have room: "2 * card {p \<in> ?V. pmap (km s2) d p \<noteq> None} \<le> card (free_set (pm s2))" using R(6) unfolding k2 by linarith
  obtain s3 where s3: "copy_range (kva d') (kva d) (vm_start ?w) (vm_end ?w) s2 = Some (Inr (), s3)" "copied D d d' ?V s2 s3"
    "card (free_set (pm s2)) \<le> card (free_set (pm s3)) + 2 * card {p \<in> ?V. pmap (km s2) d p \<noteq> None}"
    by (rule copy_range_ok [OF _ d al _ _ room]) (use R k2 in auto)
  have rd: "dup_ready D d d' to_mm vs bs' rest s3" by (rule dup_ready_step [OF r d s2(1,2,3,5,7,8) s3(2,3)])
  then obtain s4 where s4: "dup_mmap_loop vs to_mm (kva d') (kva d) s3 = Some (Inr (), s4)" "dup_done D d d' to_mm vs bs' s3 s4" "kanswers s4 = rest"
    using Cons.IH by blast
  note e = same_env_fields [OF copiedD(2) [OF s3(2)]]
  have loop: "dup_mmap_loop (v # vs) to_mm (kva d') (kva d) s = Some (Inr (), s4)"
    using R(5) vc iv s3(1) s4(1) by (simp add: kmalloc_ans_def Let_def)
  have v3: "vmas s3 u = vmas s u" if "u \<noteq> b" for u using e(2) s2(7) [OF that] by simp
  have v3s: "vmas s3 u = vmas s u" if "u \<in> set vs" for u using v3 [of u] R(7) that by auto
  then have ap: "area_pages s3 vs = area_pages s vs" by (simp add: area_pages_def)
  have "copied D d d' (?V \<union> area_pages s vs) (with_areas s4 s) s4"
  proof -
    have c1: "copied D d d' ?V (with_areas s4 s) (with_areas s4 s3)"
      using copied_areas [OF s3(2), of s4] s2(1) by (metis with_areas_simps(7))
    have c2: "copied D d d' (area_pages s vs) (with_areas s4 s3) s4" using s4(2) ap by (simp add: dup_done_def)
    have "?V \<subseteq> {..<user_pages}" "area_pages s vs \<subseteq> {..<user_pages}" using area_pages_user [OF R(3)] by (auto simp: area_pages_Cons)
    moreover have "?V \<inter> area_pages s vs = {}" by (rule dup_ready_disjoint [OF r])
    moreover have "pt_inv D (with_areas s4 s)" using R(1) by simp
    ultimately show ?thesis using copied_trans [OF _ d _ _ _ c1 c2] by blast
  qed
  moreover have "(\<lambda>v. area (vmas s3 v)) ` set vs = (\<lambda>v. area (vmas s v)) ` set vs" using v3s by (intro image_cong) auto
  moreover have "area_set s3 to_mm = insert (area ?w) (area_set s to_mm)" "set (mmap_list (mms s3 to_mm)) = insert b (set (mmap_list (mms s to_mm)))"
    using s2(4,5) e(2,3) by (simp_all add: area_set_def)
  ultimately have "dup_done D d d' to_mm (v # vs) bs s s4"
    using s4(2) s2(6,9,10) e(3) v3 unfolding dup_done_def bs by (auto simp: area_pages_Cons)
  with loop s4(3) show ?case by blast
qed

lemma dup_mmap_ok:
  assumes inv: "pt_inv D s" and d: "d \<in> D" "d' \<in> D" "d \<noteq> d'" and cur: "cur_pgdir s \<noteq> Some (kva d')"
    and src: "mm_inv s from_mm" "aligned s (mmap_list (mms s from_mm))" "mm_pgdir (mms s from_mm) = Some (kva d)"
    and tgt: "mmap_list (mms s to_mm) = []" "mmap_cache (mms s to_mm) = None" "map_count (mms s to_mm) = 0" "mm_pgdir (mms s to_mm) = Some (kva d')"
    and blk: "kanswers s = map Some bs @ rest" "length bs = length (mmap_list (mms s from_mm))" "distinct bs" "set bs \<inter> set (mmap_list (mms s from_mm)) = {}"
    and new: "\<And>v. v < user_pages \<Longrightarrow> pmap (km s) d' v = None"
    and room: "2 * card {v \<in> area_pages s (mmap_list (mms s from_mm)). pmap (km s) d v \<noteq> None} \<le> card (free_set (pm s))"
  shows "\<exists>s'. dup_mmap to_mm from_mm s = Some (Inr (), s') \<and> dup_done D d d' to_mm (rev (mmap_list (mms s from_mm))) bs s s' \<and> kanswers s' = rest"
proof -
  let ?l = "mmap_list (mms s from_mm)"
  have ok: "areas_ok (vmas s) ?l" using src(1) by (simp add: mm_inv_def)
  have "dup_ready D d d' to_mm (rev ?l) bs rest s"
    unfolding dup_ready_def using inv cur src(2) ok tgt blk room new area_pages_user [OF src(2)]
    by (auto simp: aligned_def areas_ok_def mm_inv_def sorted_wrt_rev area_pages_def)
  from dup_mmap_loop_ok [OF this d] show ?thesis
  proof (cases "?l = []")
    case True
    then have "bs = []" using blk(2) by simp
    with True dup_mmap_loop_ok [OF \<open>dup_ready D d d' to_mm (rev ?l) bs rest s\<close> d] show ?thesis by (simp add: dup_mmap_def)
  qed (use src(3) tgt(4) in \<open>simp add: dup_mmap_def\<close>)
qed

section \<open>The example\<close>

lemma demo_space_fields [simp]:
  "km demo_space = demo_mem" "pm demo_space = demo_pmm" "cur_pgdir demo_space = None" "mmap_list (mms demo_space 6) = [7]"
  "area_pages demo_space [7] = {512}" "kanswers demo_space = map Some [9] @ [None]"
  "mm_pgdir (mms demo_space 6) = Some (kva 2)" "mm_pgdir (mms demo_space 8) = Some (kva 3)"
  "mmap_list (mms demo_space 8) = []" "mmap_cache (mms demo_space 8) = None" "map_count (mms demo_space 8) = 0" "mm_count (mms demo_space 6) = 0"
  by (auto simp: demo_space_def area_pages_def vpn_def)

lemma demo_space_ok: "pt_inv {2, 3} demo_space" "mm_inv demo_space 6" "aligned demo_space [7]"
  using demo_pt_inv by (simp_all add: pt_inv_def mm_inv_def areas_ok_def aligned_def demo_space_def PGSIZE_def USER_ACCESS_def USERBASE_def USERTOP_def)

lemma demo_space_map: "user_map {2, 3} demo_space d v = (if d = 2 \<and> v = 512 then Some (5, 7) else None)"
  by (auto simp: user_map_def demo_pmap user_pages_def)

lemma demo_space_owns: "confined 2 [7] demo_space" "tables demo_mem {2} = {4}" "own_pages {2, 3} 2 demo_space = {5}"
proof -
  show "confined 2 [7] demo_space" unfolding confined_def by (auto simp: demo_tbl demo_pmap split: if_splits)
  show "tables demo_mem {2} = {4}" using demo_sets(4) demo_tbl by (auto simp: tables_def split: if_splits)
  show "own_pages {2, 3} 2 demo_space = {5}" by (auto simp: own_pages_def demo_mappers)
qed

section \<open>Main results\<close>

text \<open>
  C7. \<open>dup_mmap\<close> gives a process a copy of the whole address space of another. If the new address space is empty, \<open>kmalloc\<close> has a
  block for every area and there are two free frames for each mapped page (one for the copy and at worst one for a table), it
  succeeds: the new address space has the same areas; every page the old one maps in them is mapped at the same address with the same
  permissions to a frame that was free, with the same contents, and nothing else is mapped; the old address space, the contents of
  its pages and every other directory are as before, and the reference counts are exact.
\<close>

theorem dup_mmap_correct:
  assumes "pt_inv D s" "d \<in> D" "d' \<in> D" "d \<noteq> d'" "cur_pgdir s \<noteq> Some (kva d')" "from_mm \<noteq> to_mm"
    and "mm_inv s from_mm" "aligned s (mmap_list (mms s from_mm))" "mm_pgdir (mms s from_mm) = Some (kva d)"
    and "mmap_list (mms s to_mm) = []" "mmap_cache (mms s to_mm) = None" "map_count (mms s to_mm) = 0" "mm_pgdir (mms s to_mm) = Some (kva d')"
    and "kanswers s = map Some bs @ rest" "length bs = length (mmap_list (mms s from_mm))" "distinct bs" "set bs \<inter> set (mmap_list (mms s from_mm)) = {}"
    and "\<And>v. user_map D s d' v = None"
    and "2 * card {v \<in> area_pages s (mmap_list (mms s from_mm)). user_map D s d v \<noteq> None} \<le> card (free_set (pm s))"
  shows "\<exists>s'. dup_mmap to_mm from_mm s = Some (Inr (), s') \<and> mm_inv s' to_mm \<and> area_set s' to_mm = area_set s from_mm \<and>
    area_set s' from_mm = area_set s from_mm \<and> pt_inv D s' \<and> (\<forall>c. c \<noteq> d' \<longrightarrow> user_map D s' c = user_map D s c) \<and>
    (\<forall>v. if v \<in> area_pages s (mmap_list (mms s from_mm)) \<and> user_map D s d v \<noteq> None
         then \<exists>p f q. user_map D s d v = Some (p, f) \<and> user_map D s' d' v = Some (q, f) \<and> q \<in> free_set (pm s) \<and>
                (\<forall>j < 1024. W (km s') q j = W (km s) p j)
         else user_map D s' d' v = None) \<and>
    (\<forall>p \<in> taken (pm s) - D - tables (km s) D. \<forall>j < 1024. W (km s') p j = W (km s) p j)"
proof -
  let ?l = "mmap_list (mms s from_mm)"
  have ap: "area_pages s ?l \<subseteq> {..<user_pages}" by (rule area_pages_user [OF assms(8)])
  have um: "user_map D s c v = pmap (km s) c v" if "c \<in> D" "v < user_pages" for c v using that by (simp add: user_map_def)
  have new: "pmap (km s) d' v = None" if "v < user_pages" for v using assms(18) [of v] um [OF assms(3) that] by simp
  have "{v \<in> area_pages s ?l. user_map D s d v \<noteq> None} = {v \<in> area_pages s ?l. pmap (km s) d v \<noteq> None}"
    using um [OF assms(2)] ap by auto
  then obtain s' where s': "dup_mmap to_mm from_mm s = Some (Inr (), s')" "dup_done D d d' to_mm (rev ?l) bs s s'"
    using dup_mmap_ok [OF assms(1-5,7-17) new] assms(19) by auto
  have ar: "area_pages s (rev ?l) = area_pages s ?l" by (simp add: area_pages_def)
  have S: "copied D d d' (area_pages s ?l) (with_areas s' s) s'" "mm_inv s' to_mm" "area_set s' to_mm = area_set s from_mm"
    using s'(2) assms(10) ar by (auto simp: dup_done_def area_set_def)
  note c = copiedD [OF S(1), unfolded with_areas_simps]
  have "area_set s' from_mm = area_set s from_mm"
    using s'(2) assms(6,17) by (auto simp: dup_done_def area_set_def area_def disjoint_iff intro!: image_cong)
  moreover have "user_map D s' c = user_map D s c" if "c \<noteq> d'" for c
    using c(5) that by (auto simp: user_map_def fun_eq_iff)
  moreover have "if v \<in> area_pages s ?l \<and> user_map D s d v \<noteq> None
         then \<exists>p f q. user_map D s d v = Some (p, f) \<and> user_map D s' d' v = Some (q, f) \<and> q \<in> free_set (pm s) \<and>
                (\<forall>j < 1024. W (km s') q j = W (km s) p j)
         else user_map D s' d' v = None" for v
  proof (cases "v \<in> area_pages s ?l \<and> user_map D s d v \<noteq> None")
    case True
    then have v: "v < user_pages" "v \<in> area_pages s ?l" using ap by auto
    obtain p f where pf: "user_map D s d v = Some (p, f)" using True by fastforce
    with um [OF assms(2) v(1)] have "pmap (km s) d v = Some (p, f)" by simp
    from c(6) [OF v(2) this] v(1) assms(3) pf True show ?thesis by (auto simp: user_map_def)
  next
    case False
    show ?thesis
    proof (cases "v < user_pages")
      case True
      then have "v \<notin> area_pages s ?l \<or> pmap (km s) d v = None" using False um [OF assms(2) True] by metis
      then show ?thesis unfolding if_not_P [OF False] using c(5) [OF assms(3) True] new [OF True] by (simp add: user_map_def)
    qed (use False ap in \<open>auto simp: user_map_def\<close>)
  qed
  ultimately show ?thesis using s'(1) S(2,3) c(1,7) by blast
qed

theorem dup_mmap_correct_witness:
  "\<exists>s' q. dup_mmap 8 6 demo_space = Some (Inr (), s') \<and> area_set s' 8 = {(0x200000, 0x201000, 3)} \<and>
     user_map {2, 3} s' 2 512 = Some (5, 7) \<and> user_map {2, 3} s' 3 512 = Some (q, 7) \<and> q \<in> {6..<12}"
proof -
  have "{v \<in> area_pages demo_space [7]. user_map {2, 3} demo_space 2 v \<noteq> None} = {512}" by (auto simp: demo_space_map)
  then obtain s' where s': "dup_mmap 8 6 demo_space = Some (Inr (), s')" "area_set s' 8 = area_set demo_space 6"
    "\<forall>c. c \<noteq> 3 \<longrightarrow> user_map {2, 3} s' c = user_map {2, 3} demo_space c"
    "\<forall>v. if v \<in> area_pages demo_space (mmap_list (mms demo_space 6)) \<and> user_map {2, 3} demo_space 2 v \<noteq> None
         then \<exists>p f q. user_map {2, 3} demo_space 2 v = Some (p, f) \<and> user_map {2, 3} s' 3 v = Some (q, f) \<and> q \<in> free_set (pm demo_space) \<and>
                (\<forall>j < 1024. W (km s') q j = W (km demo_space) p j)
         else user_map {2, 3} s' 3 v = None"
    using dup_mmap_correct [OF demo_space_ok(1), of 2 3 6 8 "[9]" "[None]"] demo_space_ok(2,3)
    by (auto simp: demo_sets demo_space_map)
  moreover have "area_set demo_space 6 = {(0x200000, 0x201000, 3)}" by (simp add: area_set_def area_def demo_space_def)
  ultimately show ?thesis
    using spec [OF s'(4), of 512] by (auto simp: demo_space_map demo_sets)
qed

text \<open>
  C8. Tearing down an address space gives back everything it had. If nobody counts on the address space any more, it is not the one
  the processor uses, and its directory maps nothing outside its areas, then \<open>exit_mmap\<close> and \<open>put_pgdir\<close> succeed; exactly its
  directory, its tables and the pages that nobody else maps become free; the maps of all other directories stay the same, with exact
  reference counts, and so does the contents of all frames but the directory and its tables.
\<close>

theorem exit_mmap_correct:
  assumes "pt_inv D s" "d \<in> D" "mm_pgdir (mms s mm) = Some (kva d)" "mm_count (mms s mm) = 0"
    and "aligned s (mmap_list (mms s mm))" "confined d (mmap_list (mms s mm)) s" "cur_pgdir s \<noteq> Some (kva d)"
  shows "\<exists>s1 s2. exit_mmap mm s = Some s1 \<and> put_pgdir mm s1 = Some s2 \<and> pt_inv (D - {d}) s2 \<and>
    free_set (pm s2) = free_set (pm s) \<union> {d} \<union> tables (km s) {d} \<union> own_pages D d s \<and> avail_set (pm s2) = avail_set (pm s) \<and>
    (\<forall>c. user_map (D - {d}) s2 c = (if c = d then Map.empty else user_map D s c)) \<and>
    (\<forall>p j. p \<notin> {d} \<union> tables (km s) {d} \<longrightarrow> j < 1024 \<longrightarrow> W (km s2) p j = W (km s) p j)"
proof -
  obtain s1 where s1: "exit_mmap mm s = Some s1" "same_env s s1" "pt_inv D s1" "npage (pm s1) = npage (pm s)" "avail_set (pm s1) = avail_set (pm s)"
    "free_set (pm s1) = free_set (pm s) \<union> own_pages D d s \<union> tables (km s) {d}"
    "\<And>i. i < 512 \<Longrightarrow> tbl (km s1) d i = None"
    "\<And>c v. c \<in> D \<Longrightarrow> c \<noteq> d \<Longrightarrow> v < user_pages \<Longrightarrow> pmap (km s1) c v = pmap (km s) c v"
    "\<And>p j. j < 1024 \<Longrightarrow> p \<noteq> d \<Longrightarrow> p \<notin> tables (km s) {d} \<Longrightarrow> W (km s1) p j = W (km s) p j"
    by (rule exit_mmap_ok [OF assms]) blast
  have "mm_pgdir (mms s1 mm) = Some (kva d)" using same_env_fields(3) [OF s1(2)] assms(3) by simp
  then obtain x where x: "put_pgdir mm s1 = Some (s1\<lparr>pm := x\<rparr>)" "pt_inv (D - {d}) (s1\<lparr>pm := x\<rparr>)" "avail_set x = avail_set (pm s1)"
    "free_set x = insert d (free_set (pm s1))"
    by (rule put_pgdir_ok [OF s1(3) assms(2) _ s1(7)])
  have "user_map (D - {d}) (s1\<lparr>pm := x\<rparr>) c = (if c = d then Map.empty else user_map D s c)" for c
    using s1(8) by (auto simp: user_map_def fun_eq_iff)
  with s1(1,5,6,9) x show ?thesis by (intro exI [of _ s1] exI [of _ "s1\<lparr>pm := x\<rparr>"]) auto
qed

theorem exit_mmap_correct_witness:
  "\<exists>s1 s2. exit_mmap 6 demo_space = Some s1 \<and> put_pgdir 6 s1 = Some s2 \<and> pt_inv {3} s2 \<and> free_set (pm s2) = {2} \<union> {4..<12}"
  using exit_mmap_correct [OF demo_space_ok(1), of 2 6] demo_space_ok(3) demo_space_owns
  by (auto simp: demo_sets)

end
