(* ===== verification/Tlb.thy ===== *)
theory Tlb
  imports PageMap
begin

text \<open>
  Translation of a user address by the hardware, through the TLB that \<^verbatim>\<open>kern/mm/tlb.c\<close> fills, and what the refill of
  \<open>tlb_miss_handler\<close> does to the page tables. The TLB of the processor has 16 entries for pairs of pages; the bits
  of a half are \<open>V\<close> (1, valid) and \<open>D\<close> (2, may be written), the frame is at bit 6, as \<open>ENTRYLO\<close> of
  \<^verbatim>\<open>kern/mm/tlb.h\<close> builds them. All entries and the processor have address space identifier 0 (\<open>tlb_write\<close> sets no
  other one). When several entries match, the hardware is undefined, and so is the model (\<open>None\<close>).
\<close>

section \<open>Definitions\<close>

definition tlb_hit :: "u32 \<Rightarrow> 'a pstate_scheme \<Rightarrow> nat \<Rightarrow> bool" where
  "tlb_hit la s i \<longleftrightarrow> fst (tlb_entries s i) AND 0xffffe000 = la AND 0xffffe000"

definition tlb_half :: "u32 \<Rightarrow> 'a pstate_scheme \<Rightarrow> nat \<Rightarrow> u32" where
  "tlb_half la s i = (if TLBLO la then snd (snd (tlb_entries s i)) else fst (snd (tlb_entries s i)))"

text \<open>The half of the TLB for the page of \<open>la\<close>; the null answer is a TLB miss.\<close>

definition tlb_probe :: "u32 \<Rightarrow> 'a pstate_scheme \<Rightarrow> u32 option option" where
  "tlb_probe la s =
     (case filter (tlb_hit la s) [0..<TLBN] of
        [] \<Rightarrow> Some None
      | [i] \<Rightarrow> Some (let lo = tlb_half la s i in if bit lo 1 then Some lo else None)
      | _ \<Rightarrow> None)"

text \<open>The word of the kernel's view of memory that a half translates \<open>la\<close> to.\<close>

definition tlb_addr :: "u32 \<Rightarrow> u32 \<Rightarrow> addr" where
  "tlb_addr lo la = unat KERNBASE + 4096 * unat (drop_bit 6 lo) + unat (la AND 0xFFF)"

section \<open>Specification\<close>

text \<open>The bits of a page table entry that only the TLB functions use: the index and \<open>TLB_P\<close>.\<close>

definition same_entry :: "u32 \<Rightarrow> u32 \<Rightarrow> bool" where
  "same_entry e e' \<longleftrightarrow> e AND 0xfffff07f = e' AND 0xfffff07f"

text \<open>Memory in which only these bits of page table entries have changed.\<close>

definition tlb_same :: "nat set \<Rightarrow> mem \<Rightarrow> mem \<Rightarrow> bool" where
  "tlb_same D m m' \<longleftrightarrow> (\<forall>r j. j < 1024 \<longrightarrow>
     (if r \<in> tables m D then same_entry (W m r j) (W m' r j) else W m' r j = W m r j))"

text \<open>The bookkeeping of the replacement algorithm names TLB entries and user pages.\<close>

definition tlb_algo_ok :: "'a pstate_scheme \<Rightarrow> bool" where
  "tlb_algo_ok s \<longleftrightarrow> tlb_algo_n s \<le> TLBN \<and> (\<forall>i < tlb_algo_n s. tlb_algo_empty s i < TLBN) \<and> tlb_algo_ptr s < TLBN \<and>
     (\<forall>i < TLBN. vpn (tlb_algo_hi s i) < user_pages)"

text \<open>
  The TLB agrees with the page table about the page of \<open>la\<close>: at most one entry is for the pair of pages; a valid half for \<open>la\<close>
  is what the page table says; and when only the other half is valid, the page table entry of the other page names the
  TLB entry.
\<close>

definition tlb_agrees :: "nat \<Rightarrow> u32 \<Rightarrow> 'a pstate_scheme \<Rightarrow> bool" where
  "tlb_agrees d la s \<longleftrightarrow>
     (\<forall>i < TLBN. \<forall>j < TLBN. tlb_hit la s i \<and> tlb_hit la s j \<longrightarrow> i = j) \<and>
     (\<forall>i < TLBN. tlb_hit la s i \<longrightarrow>
        (if bit (tlb_half la s i) 1
         then \<exists>t. tbl (km s) d (vpn la div 1024) = Some t \<and> tlb_half la s i = ENTRYLO (ld32 (km s) (slot t la))
         else \<exists>pte2. paired_pte (kva d) la s = Some (Some pte2) \<and> TLBIDX pte2 = i))"

section \<open>Entries up to the bits of the TLB\<close>

lemma same_entry_refl [simp]: "same_entry e e"
  by (simp add: same_entry_def)

lemma same_entry_trans: "same_entry e e1 \<Longrightarrow> same_entry e1 e2 \<Longrightarrow> same_entry e e2"
  by (simp add: same_entry_def)

lemma same_entry_and:
  assumes "same_entry e e'" "k AND 0xfffff07f = k"
  shows "e AND k = e' AND k"
proof -
  have k: "x AND k = (x AND 0xfffff07f) AND k" for x
    by (subst assms(2) [symmetric]) (simp only: ac_simps)
  show ?thesis
    by (subst (1 2) k) (simp only: assms(1) [unfolded same_entry_def])
qed

lemma same_entryD:
  assumes "same_entry e e'"
  shows "bit e 0 = bit e' 0" "frame_of e = frame_of e'" "e AND PTE_USER = e' AND PTE_USER"
proof -
  show "bit e 0 = bit e' 0"
    using same_entry_and [OF assms, of 1] by (simp add: and_one_eq odd_iff_mod_2_eq_one bit_0 split: if_splits)
  have "unat (e AND 0xfffff000) = unat (e' AND 0xfffff000)"
    by (rule arg_cong [OF same_entry_and [OF assms]]) simp
  then show "frame_of e = frame_of e'"
    by (simp add: unat_high frame_of_def)
  show "e AND PTE_USER = e' AND PTE_USER"
    by (rule same_entry_and [OF assms]) (simp add: PTE_USER_def PTE_P_def PTE_W_def PTE_U_def)
qed

lemma same_entry_clear: "same_entry e (e AND NOT TLB_P)"
  by (simp add: same_entry_def TLB_P_def and.assoc)

lemma same_entry_index:
  assumes "idx < TLBN"
  shows "same_entry e (e AND 0xfffff0ff OR push_bit 8 (of_nat idx) OR TLB_P)"
proof -
  have "push_bit 8 (of_nat idx) AND 0xfffff07f = (0 :: u32)"
  proof -
    have "idx \<in> set [0..<16]"
      using assms by (simp add: TLBN_def)
    then show ?thesis
      by (simp add: upt_rec) (elim disjE; simp)
  qed
  then show ?thesis
    by (simp add: same_entry_def TLB_P_def bit.conj_disj_distrib2 and.assoc)
qed

lemma tlb_same_refl [simp]: "tlb_same D m m"
  by (simp add: tlb_same_def)

text \<open>Such changes keep the page tables as maps, and their invariant.\<close>

lemma tlb_same_tables:
  assumes ok: "tables_ok ex D x m" and s: "tlb_same D m m'"
  shows "d \<in> D \<Longrightarrow> i < 1024 \<Longrightarrow> tbl m' d i = tbl m d i" and "tables m' D = tables m D"
    and "d \<in> D \<Longrightarrow> v < user_pages \<Longrightarrow> pmap m' d v = pmap m d v" and "tables_ok ex D x m'"
proof -
  have dis: "d \<notin> tables m D" if "d \<in> D" for d
    using tables_okD(3) [OF ok] that by auto
  show tb: "tbl m' d i = tbl m d i" if "d \<in> D" "i < 1024" for d i
    using s that dis [OF that(1)] by (simp add: tlb_same_def tbl_def)
  have tb2: "tbl m' d i = tbl m d i" if "d \<in> D" "i < 512" for d i
    using tb [OF that(1), of i] that(2) by simp
  show tabs: "tables m' D = tables m D"
    using tb2 unfolding tables_def by metis
  show pm': "pmap m' d v = pmap m d v" if d: "d \<in> D" "v < user_pages" for d v
  proof (cases "tbl m d (v div 1024)")
    case None
    then show ?thesis
      using tb2 [OF d(1) vpn_index(1) [OF d(2)]] by (simp add: pmap_def)
  next
    case (Some t)
    then have "t \<in> tables m D"
      using tables_okD(4) [OF ok d(1) vpn_index(1) [OF d(2)]] by simp
    then have "same_entry (W m t (v mod 1024)) (W m' t (v mod 1024))"
      using s by (simp add: tlb_same_def)
    from same_entryD [OF this] show ?thesis
      using Some tb2 [OF d(1) vpn_index(1) [OF d(2)]] by (simp add: pmap_def Let_def)
  qed
  have mp: "mappers m' D p = mappers m D p" for p
    using pm' by (auto simp: mappers_def)
  show "tables_ok ex D x m'"
  proof (rule tables_okI)
    show "D \<subseteq> taken x" "tables m' D \<subseteq> taken x - D"
      using tables_okD(1,3) [OF ok] tabs by auto
    show "d = d' \<and> i = i'" if "d \<in> D" "d' \<in> D" "i < 512" "i' < 512" "tbl m' d i = Some u" "tbl m' d' i' = Some u" for d d' i i' u
      using tables_okD(5) [OF ok that(1-4)] that(5,6) tb2 [OF that(1,3)] tb2 [OF that(2,4)] by simp
    show "p \<in> taken x - D - tables m' D" if "d \<in> D" "v < user_pages" "pmap m' d v = Some (p, f)" for d v p f
      using tables_okD(6) [OF ok that(1,2)] that(3) pm' [OF that(1,2)] tabs by auto
    show "pg_ref (pages x p) = int (card (mappers m' D p)) + ex p" if "p \<in> avail_set x" "p \<notin> tables m' D" for p
      using tables_okD(7) [OF ok, of p] that tabs mp by simp
  qed
qed

lemma tlb_same_trans:
  assumes "tables_ok ex D x m" "tlb_same D m m1" "tlb_same D m1 m2"
  shows "tlb_same D m m2"
proof -
  have "tables m1 D = tables m D"
    by (rule tlb_same_tables(2) [OF assms(1,2)])
  then show ?thesis
    using assms(2,3) same_entry_trans unfolding tlb_same_def by (metis (full_types))
qed

lemma tlb_same_st32:
  assumes "t \<in> tables m D" "j < 1024" "same_entry (W m t j) w"
  shows "tlb_same D m (st32 m (kva t + 4 * j) w)"
  using assms by (auto simp: tlb_same_def W_st32)

lemma tlb_same_pt_inv:
  assumes "pt_inv D s" "tlb_same D (km s) (km s')" "pm s' = pm s"
  shows "pt_inv D s'"
  using assms tlb_same_tables(4) [OF pt_invD(3) [OF assms(1)] assms(2)] by (simp add: pt_inv_def)

section \<open>Refilling the TLB\<close>

lemma find_user_pte:
  assumes inv: "pt_inv D s" and d: "d \<in> D" "vpn la < user_pages"
  shows "find_pte (kva d) la s = Some (map_option (\<lambda>t. slot t la) (tbl (km s) d (vpn la div 1024)))"
    and "tbl (km s) d (vpn la div 1024) = Some t \<Longrightarrow> t \<in> tables (km s) D"
proof -
  show t: "tbl (km s) d (vpn la div 1024) = Some t \<Longrightarrow> t \<in> tables (km s) D" for t
    using tables_okD(4) [OF pt_invD(3) [OF inv] d(1) vpn_index(1) [OF d(2)]] .
  show "find_pte (kva d) la s = Some (map_option (\<lambda>t. slot t la) (tbl (km s) d (vpn la div 1024)))"
    using lookup_pte [OF inv d] by (simp add: get_pte_False)
qed

lemma clear_TLB_P_ok:
  assumes inv: "pt_inv D s" and d: "d \<in> D" "vpn la < user_pages"
  obtains p m where "find_pte (kva d) la s = Some p" "clear_TLB_P p s = s\<lparr>km := m\<rparr>" "tlb_same D (km s) m"
proof (cases "tbl (km s) d (vpn la div 1024)")
  case None
  then show thesis
    using that [of None "km s"] find_user_pte(1) [OF inv d] by (simp add: clear_TLB_P_def)
next
  case (Some t)
  have j: "vpn la mod 1024 < 1024" by simp
  have "tlb_same D (km s) (st32 (km s) (slot t la) (ld32 (km s) (slot t la) AND NOT TLB_P))"
    by (rule tlb_same_st32 [OF find_user_pte(2) [OF inv d Some] j]) (simp add: W_def same_entry_clear)
  then show thesis
    using that [of "Some (slot t la)"] find_user_pte(1) [OF inv d] Some
    by (simp add: clear_TLB_P_def upd_km_def)
qed

lemma vpn_pair_user: "vpn la < user_pages \<Longrightarrow> vpn (TLBPAIR la) < user_pages"
proof -
  assume "vpn la < user_pages"
  then have "vpn la div 1024 < 512"
    by (rule vpn_index)
  then have "vpn (TLBPAIR la) div 1024 < 512"
    by (simp only: vpn_pair)
  then show ?thesis
    by (simp add: user_pages_def)
qed

lemma tlb_get_empty_ok:
  assumes inv: "pt_inv D s" and d: "d \<in> D" "cur_pgdir s = Some (kva d)" and a: "tlb_algo_ok s"
  obtains idx s' where "tlb_get_empty hi s = Some (idx, s')" "idx < TLBN" "tlb_entries s' = tlb_entries s" "pm s' = pm s"
    "tlb_same D (km s) (km s')"
proof (cases "tlb_algo_n s > 0")
  case True
  then show thesis
    using that [of "tlb_algo_empty s (tlb_algo_n s - 1)"] a by (simp add: tlb_get_empty_def tlb_algo_ok_def)
next
  case False
  let ?i = "tlb_algo_ptr s" and ?h = "tlb_algo_hi s (tlb_algo_ptr s)" and ?s = "s\<lparr>tlb_algo_ptr := (tlb_algo_ptr s + 1) mod TLBN\<rparr>"
  have v: "?i < TLBN" "vpn ?h < user_pages"
    using a by (auto simp: tlb_algo_ok_def)
  have i0: "pt_inv D ?s"
    using inv by (simp add: pt_inv_def)
  obtain p m1 where 1: "find_pte (kva d) ?h ?s = Some p" "clear_TLB_P p ?s = ?s\<lparr>km := m1\<rparr>" "tlb_same D (km ?s) m1"
    by (rule clear_TLB_P_ok [OF i0 d(1) v(2)]) (rule that)
  have i1: "pt_inv D (?s\<lparr>km := m1\<rparr>)"
    by (rule tlb_same_pt_inv [OF i0]) (simp_all add: 1(3) [simplified])
  obtain p2 m2 where 2: "find_pte (kva d) (TLBPAIR ?h) (?s\<lparr>km := m1\<rparr>) = Some p2"
    "clear_TLB_P p2 (?s\<lparr>km := m1\<rparr>) = ?s\<lparr>km := m1, km := m2\<rparr>" "tlb_same D (km (?s\<lparr>km := m1\<rparr>)) m2"
    by (rule clear_TLB_P_ok [OF i1 d(1) vpn_pair_user [OF v(2)]]) (rule that)
  have "tlb_same D (km s) m2"
    by (rule tlb_same_trans [OF pt_invD(3) [OF inv]]) (use 1(3) 2(3) in simp_all)
  then show thesis
    using that [of ?i "?s\<lparr>km := m2, tlb_algo_hi := (tlb_algo_hi s)(?i := hi)\<rparr>"] False d(2) 1(1,2) 2(1,2) v(1)
    by (simp add: tlb_get_empty_def Let_def)
qed

text \<open>What the hardware finds.\<close>

lemma tlb_probe_miss: "(\<And>i. i < TLBN \<Longrightarrow> \<not> tlb_hit la s i) \<Longrightarrow> tlb_probe la s = Some None"
  by (simp add: tlb_probe_def filter_empty_conv)

lemma tlb_probe_one:
  assumes "i < TLBN" "tlb_hit la s i" "\<And>j. j < TLBN \<Longrightarrow> tlb_hit la s j \<Longrightarrow> j = i"
  shows "tlb_probe la s = Some (if bit (tlb_half la s i) 1 then Some (tlb_half la s i) else None)"
proof -
  let ?h = "filter (tlb_hit la s) [0..<TLBN]"
  have s: "set ?h = {i}"
    using assms(1,2) by (auto dest: assms(3))
  have d: "distinct ?h"
    by simp
  have "length ?h = 1"
    using distinct_card [OF d] s by simp
  then have "?h = [i]"
    using s by (cases ?h) simp_all
  then show ?thesis
    by (simp add: tlb_probe_def Let_def)
qed

lemma ENTRYLO_ok:
  "drop_bit 6 (ENTRYLO e) = PPN e" "bit (ENTRYLO e) 1" "bit (ENTRYLO e) 2 = bit e 1"
proof -
  define x where "x = (drop_bit 1 e AND 1 :: u32)"
  have x: "x = (if bit e 1 then 1 else 0)"
    by (simp only: x_def and_one_eq mod_2_eq_odd bit_iff_odd_drop_bit [of e] of_bool_def)
  have p: "drop_bit 6 (push_bit 6 (PPN e)) = PPN e"
    by (rule bit_word_eqI) (auto simp: PPN_def bit_simps dest: bit_imp_le_length)
  have "drop_bit 6 (push_bit 2 x) = 0"
    by (simp add: x)
  then show "drop_bit 6 (ENTRYLO e) = PPN e"
    by (simp add: ENTRYLO_def drop_bit_or p flip: x_def)
  show "bit (ENTRYLO e) 1"
    by (simp add: ENTRYLO_def bit_or_iff)
  show "bit (ENTRYLO e) 2 = bit e 1"
    unfolding ENTRYLO_def x_def [symmetric] x by (simp add: bit_or_iff bit_push_bit_iff)
qed

lemma tlb_agrees_one:
  "tlb_agrees d la s \<Longrightarrow> i < TLBN \<Longrightarrow> tlb_hit la s i \<Longrightarrow> j < TLBN \<Longrightarrow> tlb_hit la s j \<Longrightarrow> i = j"
  unfolding tlb_agrees_def by blast

text \<open>The TLB entry that the refill takes: that of the other page of the pair, or one that is free or given up.\<close>

lemma refill_index:
  assumes inv: "pt_inv D s" and d: "d \<in> D" "cur_pgdir s = Some (kva d)" "vpn la < user_pages" and a: "tlb_algo_ok s"
    and ag: "tlb_agrees d la s" and miss: "tlb_probe la s = Some None"
  obtains other idx lo2 s1 where "paired_pte (kva d) la s = Some other"
    "(case other of Some pte2 \<Rightarrow> Some (TLBIDX pte2, ENTRYLO pte2, s)
      | None \<Rightarrow> do { (idx, s) \<leftarrow> tlb_get_empty (la AND 0xffffe000) s; Some (idx, ENTRYLO_INVALID, s) }) = Some (idx, lo2, s1)"
    "idx < TLBN" "tlb_entries s1 = tlb_entries s" "pm s1 = pm s" "tlb_same D (km s) (km s1)"
    "\<forall>j < TLBN. tlb_hit la s j \<longrightarrow> j = idx"
proof -
  obtain other where o: "paired_pte (kva d) la s = Some other"
    using find_user_pte(1) [OF inv d(1) vpn_pair_user [OF d(3)]] by (simp add: paired_pte_def)
  have inval: "\<not> bit (tlb_half la s j) 1" if j: "j < TLBN" "tlb_hit la s j" for j
  proof
    assume v: "bit (tlb_half la s j) 1"
    have "tlb_probe la s = Some (if bit (tlb_half la s j) 1 then Some (tlb_half la s j) else None)"
      by (rule tlb_probe_one [OF j tlb_agrees_one [OF ag _ _ j]])
    then have "tlb_probe la s = Some (Some (tlb_half la s j))"
      by (simp only: v if_True)
    with miss show False by simp
  qed
  have pair: "\<exists>pte2. other = Some pte2 \<and> TLBIDX pte2 = j" if j: "j < TLBN" "tlb_hit la s j" for j
  proof -
    have "if bit (tlb_half la s j) 1
      then \<exists>t. tbl (km s) d (vpn la div 1024) = Some t \<and> tlb_half la s j = ENTRYLO (ld32 (km s) (slot t la))
      else \<exists>pte2. paired_pte (kva d) la s = Some (Some pte2) \<and> TLBIDX pte2 = j"
      using ag j unfolding tlb_agrees_def by blast
    then show ?thesis
      using inval [OF j] o by auto
  qed
  show thesis
  proof (cases other)
    case None
    obtain idx s1 where e: "tlb_get_empty (la AND 0xffffe000) s = Some (idx, s1)" "idx < TLBN" "tlb_entries s1 = tlb_entries s"
      "pm s1 = pm s" "tlb_same D (km s) (km s1)"
      by (rule tlb_get_empty_ok [OF inv d(1,2) a]) (rule that)
    have J: "\<forall>j < TLBN. tlb_hit la s j \<longrightarrow> j = idx"
      using pair None by blast
    show thesis
      by (rule that [OF o _ e(2-5) J]) (simp add: None e(1))
  next
    case (Some pte2)
    have i: "TLBIDX pte2 < TLBN"
      unfolding TLBIDX_def TLBN_def using word_and_le1 [of "drop_bit 8 pte2" "0xf"] by (simp add: word_le_nat_alt)
    have J: "\<forall>j < TLBN. tlb_hit la s j \<longrightarrow> j = TLBIDX pte2"
      using pair Some by blast
    show thesis
      by (rule that [OF o _ i refl refl tlb_same_refl J]) (simp add: Some)
  qed
qed

lemma tlb_refill_ok:
  assumes inv: "pt_inv D s" and d: "d \<in> D" "cur_pgdir s = Some (kva d)" "vpn la < user_pages" and a: "tlb_algo_ok s"
    and ag: "tlb_agrees d la s" and miss: "tlb_probe la s = Some None" and t: "tbl (km s) d (vpn la div 1024) = Some t"
  obtains s' where "tlb_refill (kva d) la (slot t la) s = Some s'" "pm s' = pm s" "tlb_same D (km s) (km s')"
    "tlb_probe la s' = Some (Some (ENTRYLO (ld32 (km s) (slot t la))))"
proof -
  obtain other idx lo2 s1 where o: "paired_pte (kva d) la s = Some other"
    and c: "(case other of Some pte2 \<Rightarrow> Some (TLBIDX pte2, ENTRYLO pte2, s)
      | None \<Rightarrow> do { (idx, s) \<leftarrow> tlb_get_empty (la AND 0xffffe000) s; Some (idx, ENTRYLO_INVALID, s) }) = Some (idx, lo2, s1)"
    and i: "idx < TLBN" "tlb_entries s1 = tlb_entries s" "pm s1 = pm s" "tlb_same D (km s) (km s1)"
      "\<forall>j < TLBN. tlb_hit la s j \<longrightarrow> j = idx"
    by (rule refill_index [OF inv d a ag miss]) (rule that)
  let ?lo = "ENTRYLO (ld32 (km s) (slot t la))" and ?hi = "la AND 0xffffe000"
  let ?f = "\<lambda>m. st32 m (slot t la) (ld32 m (slot t la) AND 0xfffff0ff OR push_bit 8 (of_nat idx) OR TLB_P)"
  define s' where "s' = upd_km ?f (tlb_write_pair idx ?hi la ?lo lo2 s1)"
  have r: "tlb_refill (kva d) la (slot t la) s = Some s'"
    unfolding tlb_refill_def Let_def s'_def by (simp add: o c)
  have f: "pm s' = pm s1" "km s' = ?f (km s1)" "tlb_entries s' = (tlb_entries s)(idx := if TLBLO la then (?hi, lo2, ?lo) else (?hi, ?lo, lo2))"
    by (simp_all add: s'_def upd_km_def tlb_write_pair_def tlb_write_def i(2))
  have "tables (km s1) D = tables (km s) D"
    by (rule tlb_same_tables(2) [OF pt_invD(3) [OF inv] i(4)])
  then have "t \<in> tables (km s1) D"
    using find_user_pte(2) [OF inv d(1,3) t] by simp
  then have "tlb_same D (km s1) (km s')"
    unfolding f(2) by (rule tlb_same_st32) (simp_all add: W_def same_entry_index [OF i(1)])
  from tlb_same_trans [OF pt_invD(3) [OF inv] i(4) this] have s: "tlb_same D (km s) (km s')" .
  have h: "tlb_hit la s' idx" "tlb_half la s' idx = ?lo"
    by (simp_all add: tlb_hit_def tlb_half_def f(3))
  have "j = idx" if "j < TLBN" "tlb_hit la s' j" for j
    using that i(5) by (cases "j = idx") (auto simp: tlb_hit_def f(3))
  from tlb_probe_one [OF i(1) h(1) this] have "tlb_probe la s' = Some (Some ?lo)"
    by (simp only: h(2) ENTRYLO_ok if_True)
  with r f(1) i(3) s show thesis
    using that by simp
qed

text \<open>
  A user address that is mapped translates to its frame, at once or after the handler has refilled the TLB, with the right
  to write that the page table gives.
\<close>

lemma tlb_translate:
  assumes inv: "pt_inv D s" and d: "d \<in> D" "cur_pgdir s = Some (kva d)" "vpn la < user_pages" and a: "tlb_algo_ok s"
    and ag: "tlb_agrees d la s" and p: "pmap (km s) d (vpn la) = Some (p, f)"
  obtains lo where "tlb_probe la s = Some (Some lo)" "tlb_addr lo la = kva p + unat la mod 4096" "bit lo 2 = bit f 1"
  | lo s' where "tlb_probe la s = Some None" "tlb_miss_handler cur idle st ker la s = Some (Inr (), s')"
      "tlb_probe la s' = Some (Some lo)" "tlb_addr lo la = kva p + unat la mod 4096" "bit lo 2 = bit f 1"
      "pm s' = pm s" "tlb_same D (km s) (km s')"
proof -
  obtain t where t: "tbl (km s) d (vpn la div 1024) = Some t"
    using p by (auto simp: pmap_def split: option.splits)
  let ?e = "ld32 (km s) (slot t la)"
  have e: "bit ?e 0" "frame_of ?e = p" "?e AND PTE_USER = f"
    using pmap_slot [OF t] p by (auto simp: Let_def split: if_splits)
  have "la AND 0xFFF = take_bit 12 la"
    by (simp add: take_bit_eq_mask mask_eq_exp_minus_1)
  then have "unat (la AND 0xFFF) = unat la mod 4096"
    by (simp add: unat_mod take_bit_eq_mod)
  then have lo: "tlb_addr (ENTRYLO ?e) la = kva p + unat la mod 4096" "bit (ENTRYLO ?e) 2 = bit f 1"
    using e(2) by (simp_all add: tlb_addr_def ENTRYLO_ok unat_PPN kva_def frame_of_def e(3) [symmetric] bit_and_iff PTE_USER_mask bit_mask_iff)
  show thesis
  proof (cases "\<exists>i < TLBN. tlb_hit la s i \<and> bit (tlb_half la s i) 1")
    case True
    then obtain i where i: "i < TLBN" "tlb_hit la s i" "bit (tlb_half la s i) 1" by blast
    have "tlb_probe la s = Some (if bit (tlb_half la s i) 1 then Some (tlb_half la s i) else None)"
      by (rule tlb_probe_one [OF i(1,2) tlb_agrees_one [OF ag _ _ i(1,2)]])
    moreover have "\<exists>t. tbl (km s) d (vpn la div 1024) = Some t \<and> tlb_half la s i = ENTRYLO (ld32 (km s) (slot t la))"
      using ag i unfolding tlb_agrees_def by (simp only: if_True)
    then have "tlb_half la s i = ENTRYLO ?e"
      using t by auto
    ultimately have "tlb_probe la s = Some (Some (ENTRYLO ?e))"
      using i(3) by (simp only: if_True)
    then show thesis
      using that(1) lo by blast
  next
    case False
    have miss: "tlb_probe la s = Some None"
    proof (cases "\<exists>i < TLBN. tlb_hit la s i")
      case True
      then obtain i where i: "i < TLBN" "tlb_hit la s i" by blast
      have "tlb_probe la s = Some (if bit (tlb_half la s i) 1 then Some (tlb_half la s i) else None)"
        by (rule tlb_probe_one [OF i tlb_agrees_one [OF ag _ _ i]])
      moreover have "\<not> bit (tlb_half la s i) 1"
        using False i by blast
      ultimately show ?thesis
        by (simp only: if_False)
    qed (auto intro: tlb_probe_miss)
    obtain s' where s': "tlb_refill (kva d) la (slot t la) s = Some s'" "pm s' = pm s" "tlb_same D (km s) (km s')"
      "tlb_probe la s' = Some (Some (ENTRYLO ?e))"
      by (rule tlb_refill_ok [OF inv d a ag miss t]) (rule that)
    have "find_pte (kva d) la s = Some (Some (slot t la))"
      using find_user_pte(1) [OF inv d(1,3)] t by simp
    then have "tlb_miss_handler cur idle st ker la s = Some (Inr (), s')"
      using s'(1) d(2) e(1) by (simp add: tlb_miss_handler_def and_PTE_P)
    then show thesis
      using that(2) [OF miss _ s'(4) lo s'(2,3)] by blast
  qed
qed

end
