(* ===== verification/Process.thy ===== *)
theory Process
  imports ProcTable File AddressSpace Tlb
begin

text \<open>
  Creating, ending and waiting for processes (\<open>do_fork\<close>, \<open>do_exit\<close>, \<open>do_wait\<close> and what they use, \<^verbatim>\<open>kern/process/proc.c\<close>):
  the composition of the process table, the address spaces and the files of processes.
\<close>

section \<open>Definitions: the state\<close>

text \<open>The registers of a trap frame by their numbers; the layout of \<open>struct pushregs\<close> is in the order of the numbers.\<close>

record trapframe =
  tf_regs :: "nat \<Rightarrow> u32"
  tf_Status :: u32
  tf_Cause :: u32
  tf_EPC :: u32
  tf_BadVAddr :: u32
  tf_LO :: u32
  tf_HI :: u32

definition REG_v0 :: nat where "REG_v0 = 2"
definition REG_a0 :: nat where "REG_a0 = 4"
definition REG_a1 :: nat where "REG_a1 = 5"
definition REG_gp :: nat where "REG_gp = 28"
definition REG_sp :: nat where "REG_sp = 29"

definition SIZEOF_TRAPFRAME :: u32 where "SIZEOF_TRAPFRAME = 38 * 4"

definition KSTACKPAGE :: nat where "KSTACKPAGE = 2"

definition CLONE_VM :: u32 where "CLONE_VM = 0x00000100"
definition CLONE_FS :: u32 where "CLONE_FS = 0x00000800"

text \<open>
  \<open>ftab\<close> holds the tables of open files, \<open>frames\<close> the trap frames on the kernel stacks, \<open>mm_sems\<close> the locks of the address spaces;
  \<open>kfreed\<close> are the blocks given back to \<open>kfree\<close>. \<open>forkret_at\<close> and \<open>kthread_at\<close> are the addresses of \<open>forkret\<close> and \<open>kernel_thread_entry\<close>.
\<close>

record kernel =
  tab :: proctab
  ps :: pstate
  vf :: vfs
  ftab :: "addr \<Rightarrow> files_struct"
  frames :: "u32 \<Rightarrow> trapframe"
  mm_sems :: "addr \<Rightarrow> int"
  kfreed :: "addr list"
  boot_pgdir :: addr
  forkret_at :: u32
  kthread_at :: u32

abbreviation this_proc :: "kernel \<Rightarrow> proc_struct" where
  "this_proc s \<equiv> procs (tab s) (current (tab s))"

definition set_proc :: "addr \<Rightarrow> (proc_struct \<Rightarrow> proc_struct) \<Rightarrow> kernel \<Rightarrow> kernel" where
  "set_proc p f s = s\<lparr>tab := upd_proc p f (tab s)\<rparr>"

definition on_tab :: "(proctab \<Rightarrow> proctab option) \<Rightarrow> kernel \<Rightarrow> kernel option" where
  "on_tab f s = do { t \<leftarrow> f (tab s); Some (s\<lparr>tab := t\<rparr>) }"

definition on_ps :: "(pstate \<Rightarrow> ('r \<times> pstate) option) \<Rightarrow> kernel \<Rightarrow> ('r \<times> kernel) option" where
  "on_ps f s = do { (r, p) \<leftarrow> f (ps s); Some (r, s\<lparr>ps := p\<rparr>) }"

definition upd_ps :: "(pstate \<Rightarrow> pstate option) \<Rightarrow> kernel \<Rightarrow> kernel option" where
  "upd_ps f s = do { p \<leftarrow> f (ps s); Some (s\<lparr>ps := p\<rparr>) }"

definition kmalloc_k :: "kernel \<Rightarrow> addr option \<times> kernel" where
  "kmalloc_k s = (case kmalloc_ans (ps s) of (r, p) \<Rightarrow> (r, s\<lparr>ps := p\<rparr>))"

definition kfree_k :: "addr \<Rightarrow> kernel \<Rightarrow> kernel" where
  "kfree_k a s = s\<lparr>kfreed := a # kfreed s\<rparr>"

section \<open>Definitions: the parts of a process\<close>

text \<open>\<open>files_create\<close> on the heap: the table finds in its page what the last owner left.\<close>

definition files_create_k :: "kernel \<Rightarrow> addr \<times> kernel" where
  "files_create_k s =
     (case kmalloc_k s of
        (None, s) \<Rightarrow> (0, s)
      | (Some f, s) \<Rightarrow> (f, s\<lparr>ftab := (ftab s)(f := files_create (fl_array (ftab s f)))\<rparr>))"

definition alloc_proc :: "kernel \<Rightarrow> addr option \<times> kernel" where
  "alloc_proc s =
     (case kmalloc_k s of
        (None, s) \<Rightarrow> (None, s)
      | (Some proc, s) \<Rightarrow>
          let s = set_proc proc (\<lambda>_. blank_proc\<lparr>p_state := PROC_UNINIT, p_pgdir := of_nat (boot_pgdir s)\<rparr>) s;
              (f, s) = files_create_k s
          in (Some proc, set_proc proc (\<lambda>p. p\<lparr>p_filesp := f\<rparr>) s))"

definition setup_kstack :: "addr \<Rightarrow> kernel \<Rightarrow> ((kerror + unit) \<times> kernel) option" where
  "setup_kstack proc s =
     do { (page, s) \<leftarrow> on_ps (alloc_pages KSTACKPAGE) s;
          case page of
            None \<Rightarrow> Some (Inl E_NO_MEM, s)
          | Some page \<Rightarrow>
              do { stack \<leftarrow> page2kva page (ps s);
                   Some (Inr (), set_proc proc (\<lambda>p. p\<lparr>p_kstack := of_nat stack\<rparr>) s) } }"

definition put_kstack :: "addr \<Rightarrow> kernel \<Rightarrow> kernel option" where
  "put_kstack proc s =
     do { page \<leftarrow> kva2page (unat (p_kstack (procs (tab s) proc))) (ps s);
          upd_ps (free_pages page KSTACKPAGE) s }"

definition mm_create_k :: "kernel \<Rightarrow> addr option \<times> kernel" where
  "mm_create_k s =
     (case mm_create (ps s) of
        (None, p) \<Rightarrow> (None, s\<lparr>ps := p\<rparr>)
      | (Some mm, p) \<Rightarrow> (Some mm, s\<lparr>ps := p, mm_sems := (mm_sems s)(mm := 1)\<rparr>))"

definition mm_destroy_k :: "addr \<Rightarrow> kernel \<Rightarrow> kernel option" where
  "mm_destroy_k mm s = do { (blocks, s) \<leftarrow> on_ps (mm_destroy mm) s; Some (s\<lparr>kfreed := rev blocks @ kfreed s\<rparr>) }"

text \<open>As in theory \<open>Sysfile\<close>, a process finds the lock free.\<close>

definition lock_mm_k :: "addr \<Rightarrow> kernel \<Rightarrow> kernel option" where
  "lock_mm_k mm s =
     do { kassert (mm_sems s mm > 0);
          Some (s\<lparr>mm_sems := (mm_sems s)(mm := mm_sems s mm - 1),
                  ps := upd_mm mm (\<lambda>m. m\<lparr>locked_by := p_pid (this_proc s)\<rparr>) (ps s)\<rparr>) }"

definition unlock_mm_k :: "addr \<Rightarrow> kernel \<Rightarrow> kernel" where
  "unlock_mm_k mm s =
     s\<lparr>mm_sems := (mm_sems s)(mm := mm_sems s mm + 1), ps := upd_mm mm (\<lambda>m. m\<lparr>locked_by := 0\<rparr>) (ps s)\<rparr>"

definition good_mm :: "addr \<Rightarrow> addr \<Rightarrow> kernel \<Rightarrow> kernel" where
  "good_mm proc mm s =
     (let s = s\<lparr>ps := snd (mm_count_inc mm (ps s))\<rparr>;
          dir = (case mm_pgdir (mms (ps s) mm) of None \<Rightarrow> 0 | Some d \<Rightarrow> of_nat d)
      in set_proc proc (\<lambda>p. p\<lparr>p_mm := mm, p_pgdir := dir\<rparr>) s)"

definition copy_mm :: "u32 \<Rightarrow> addr \<Rightarrow> kernel \<Rightarrow> ((kerror + unit) \<times> kernel) option" where
  "copy_mm clone_flags proc s =
     (let oldmm = p_mm (this_proc s)
      in if oldmm = 0 then Some (Inr (), s)
         else if clone_flags AND CLONE_VM \<noteq> 0 then Some (Inr (), good_mm proc oldmm s)
         else
           case mm_create_k s of
             (None, s) \<Rightarrow> Some (Inl E_NO_MEM, s)
           | (Some mm, s) \<Rightarrow>
               do { (r, s) \<leftarrow> on_ps (setup_pgdir (boot_pgdir s) mm) s;
                    case r of
                      Inl _ \<Rightarrow> do { s \<leftarrow> mm_destroy_k mm s; Some (Inl E_NO_MEM, s) }
                    | Inr _ \<Rightarrow>
                        do { s \<leftarrow> lock_mm_k oldmm s;
                             (r, s) \<leftarrow> on_ps (dup_mmap mm oldmm) s;
                             let s = unlock_mm_k oldmm s;
                             case r of
                               Inl e \<Rightarrow>
                                 do { s \<leftarrow> upd_ps (exit_mmap mm) s;
                                      s \<leftarrow> upd_ps (put_pgdir mm) s;
                                      s \<leftarrow> mm_destroy_k mm s;
                                      Some (Inl e, s) }
                             | Inr _ \<Rightarrow> Some (Inr (), good_mm proc mm s) } })"

definition copy_thread :: "addr \<Rightarrow> u32 \<Rightarrow> trapframe \<Rightarrow> kernel \<Rightarrow> kernel" where
  "copy_thread proc esp tf s =
     (let t = p_kstack (procs (tab s) proc) + KSTACKSIZE - SIZEOF_TRAPFRAME;
          s = s\<lparr>frames := (frames s)(t := tf\<lparr>tf_regs := (tf_regs tf)(REG_v0 := 0, REG_sp := esp), tf_Status := tf_Status tf OR 3\<rparr>)\<rparr>
      in set_proc proc (\<lambda>p. p\<lparr>p_tf := t, p_context := (p_context p)\<lparr>ctx_ra := forkret_at s, ctx_sp := t\<rparr>\<rparr>) s)"

definition good_files :: "addr \<Rightarrow> addr \<Rightarrow> kernel \<Rightarrow> kernel" where
  "good_files proc f s =
     set_proc proc (\<lambda>p. p\<lparr>p_filesp := f\<rparr>) (s\<lparr>ftab := (ftab s)(f := (ftab s f)\<lparr>fl_count := fl_count (ftab s f) + 1\<rparr>)\<rparr>)"

definition copy_files :: "u32 \<Rightarrow> addr \<Rightarrow> kernel \<Rightarrow> ((kerror + unit) \<times> kernel) option" where
  "copy_files clone_flags proc s =
     (let old_filesp = p_filesp (this_proc s)
      in do { kassert (old_filesp \<noteq> 0);
              if clone_flags AND CLONE_FS \<noteq> 0 then Some (Inr (), good_files proc old_filesp s)
              else
                case files_create_k s of
                  (f, s) \<Rightarrow>
                    if f = 0 then Some (Inl E_NO_MEM, s)
                    else do { (dst, v) \<leftarrow> dup_files (ftab s f) (ftab s old_filesp) (vf s);
                              Some (Inr (), good_files proc f (s\<lparr>ftab := (ftab s)(f := dst), vf := v\<rparr>)) } })"

definition put_files :: "addr \<Rightarrow> kernel \<Rightarrow> kernel option" where
  "put_files proc s =
     (let f = p_filesp (procs (tab s) proc)
      in if f = 0 then Some s
         else
           let s = s\<lparr>ftab := (ftab s)(f := (ftab s f)\<lparr>fl_count := fl_count (ftab s f) - 1\<rparr>)\<rparr>
           in if fl_count (ftab s f) = 0
              then do { v \<leftarrow> files_destroy (ftab s f) (vf s); Some (kfree_k f (s\<lparr>vf := v\<rparr>)) }
              else Some s)"

section \<open>Definitions: fork, exit and wait\<close>

definition do_fork :: "u32 \<Rightarrow> u32 \<Rightarrow> trapframe \<Rightarrow> kernel \<Rightarrow> ((kerror + int) \<times> kernel) option" where
  "do_fork clone_flags stack tf s =
     (if nr_process (tab s) \<ge> MAX_PROCESS then Some (Inl E_NO_FREE_PROC, s)
      else
        case alloc_proc s of
          (None, s) \<Rightarrow> None
        | (Some proc, s) \<Rightarrow>
            do { kassert (p_wait_state (this_proc s) = 0);
                 let s = set_proc proc (\<lambda>p. p\<lparr>p_parent := current (tab s)\<rparr>) s;
                 (r, s) \<leftarrow> setup_kstack proc s;
                 if r \<noteq> Inr () then Some (Inl E_NO_MEM, kfree_k proc s)
                 else
                   do { (r, s) \<leftarrow> copy_mm clone_flags proc s;
                        if r \<noteq> Inr () then do { s \<leftarrow> put_kstack proc s; Some (Inl E_NO_MEM, kfree_k proc s) }
                        else
                          do { (r, s) \<leftarrow> copy_files clone_flags proc s;
                               if r \<noteq> Inr () then
                                 do { s \<leftarrow> put_files proc s; s \<leftarrow> put_kstack proc s; Some (Inl E_NO_MEM, kfree_k proc s) }
                               else
                                 do { let s = copy_thread proc stack tf s;
                                      (pid, t) \<leftarrow> enter_proc proc (tab s);
                                      t \<leftarrow> wakeup_proc proc t;
                                      Some (Inr pid, s\<lparr>tab := t\<rparr>) } } } })"

text \<open>\<open>fn\<close> and \<open>arg\<close> are the addresses of a function and its argument, \<open>gp\<close> is the register.\<close>

definition kernel_thread :: "u32 \<Rightarrow> u32 \<Rightarrow> u32 \<Rightarrow> u32 \<Rightarrow> kernel \<Rightarrow> ((kerror + int) \<times> kernel) option" where
  "kernel_thread gp fn arg clone_flags s =
     do_fork (clone_flags OR CLONE_VM) 0
       \<lparr>tf_regs = (\<lambda>_. 0)(REG_a1 := fn, REG_a0 := arg, REG_gp := gp), tf_Status = 0, tf_Cause = 0, tf_EPC = kthread_at s,
        tf_BadVAddr = 0, tf_LO = 0, tf_HI = 0\<rparr> s"

text \<open>A switch of processes loads the page directory of the next one.\<close>

definition schedule_k :: "kernel \<Rightarrow> kernel option" where
  "schedule_k s =
     do { t \<leftarrow> schedule (tab s);
          Some (if current t = current (tab s) then s\<lparr>tab := t\<rparr>
                else s\<lparr>tab := t, ps := load_pgdir (Some (unat (p_pgdir (procs t (current t))))) (ps s)\<rparr>) }"

text \<open>The address space of the current process is left, and given back when it was the last one to use it.\<close>

definition leave_mm :: "kernel \<Rightarrow> kernel option" where
  "leave_mm s =
     (let mm = p_mm (this_proc s)
      in if mm = 0 then Some s
         else
           do { let s = s\<lparr>ps := load_pgdir (Some (boot_pgdir s)) (ps s)\<rparr>;
                let (n, p) = mm_count_dec mm (ps s);
                let s = s\<lparr>ps := p\<rparr>;
                s \<leftarrow> (if n = 0 then do { s \<leftarrow> upd_ps (exit_mmap mm) s; s \<leftarrow> upd_ps (put_pgdir mm) s; mm_destroy_k mm s } else Some s);
                Some (set_proc (current (tab s)) (\<lambda>p. p\<lparr>p_mm := 0\<rparr>) s) })"

text \<open>\<open>do_exit\<close> does not return: the state is the one in which the next process goes on.\<close>

definition do_exit :: "int \<Rightarrow> kernel \<Rightarrow> kernel option" where
  "do_exit error_code s =
     do { kassert (current (tab s) \<noteq> idleproc (tab s));
          kassert (current (tab s) \<noteq> initproc (tab s));
          s \<leftarrow> leave_mm s;
          s \<leftarrow> put_files (current (tab s)) s;
          let s = set_proc (current (tab s)) (\<lambda>p. p\<lparr>p_state := PROC_ZOMBIE, p_exit_code := error_code\<rparr>) s;
          let parent = p_parent (this_proc s);
          s \<leftarrow> (if p_wait_state (procs (tab s) parent) = WT_CHILD then on_tab (wakeup_proc parent) s else Some s);
          s \<leftarrow> on_tab exit_children s;
          s' \<leftarrow> schedule_k s;
          kassert (current (tab s') \<noteq> current (tab s));
          Some s' }"

text \<open>
  A store of a word by the kernel to user memory. The hardware looks the page up in the TLB; a miss raises \<open>EXC_TLBS\<close>, the
  handler refills the TLB (after a page fault when the page is not there) and the store is tried again. A store to a page
  without the right to write (\<open>EXC_TLBM\<close>) or to an address that is no multiple of four (\<open>EXC_ADES\<close>) ends in the default
  case of \<open>trap_dispatch\<close>, where the current process exits. The result says whether the store was done.
\<close>

definition store_user :: "u32 \<Rightarrow> u32 \<Rightarrow> kernel \<Rightarrow> (bool \<times> kernel) option" where
  "store_user a w s =
     (if a mod 4 \<noteq> 0 then do { s \<leftarrow> do_exit (- errno E_KILLED) s; Some (False, s) }
      else
        do { hit \<leftarrow> tlb_probe a (ps s);
             (lo, s) \<leftarrow>
               (case hit of
                  Some lo \<Rightarrow> Some (lo, s)
                | None \<Rightarrow>
                    do { (r, s) \<leftarrow> on_ps (tlb_miss_handler (Some (if p_mm (this_proc s) = 0 then None else Some (p_mm (this_proc s))))
                                           (current (tab s) = idleproc (tab s)) True True a) s;
                         kassert (r = Inr ());
                         hit \<leftarrow> tlb_probe a (ps s);
                         lo \<leftarrow> hit;
                         Some (lo, s) });
             if bit lo 2 then Some (True, s\<lparr>ps := upd_km (\<lambda>m. st32 m (tlb_addr lo a) w) (ps s)\<rparr>)
             else do { s \<leftarrow> do_exit (- errno E_KILLED) s; Some (False, s) } })"

text \<open>
  The result of \<open>do_wait\<close>: it returns, it sleeps until a child exits, or it does not return because the process
  has exited.
\<close>

datatype wait_result = Returned "kerror + unit" | Sleeping | Exited

definition do_wait_repeat :: "int \<Rightarrow> u32 \<Rightarrow> kernel \<Rightarrow> (wait_result \<times> kernel) option" where
  "do_wait_repeat pid code_store s =
     do { (haskid, found) \<leftarrow> wait_search pid (tab s);
          case found of
            None \<Rightarrow>
              if haskid then
                do { s \<leftarrow> schedule_k (set_proc (current (tab s)) (\<lambda>p. p\<lparr>p_state := PROC_SLEEPING, p_wait_state := WT_CHILD\<rparr>) s);
                     Some (Sleeping, s) }
              else Some (Returned (Inl E_BAD_PROC), s)
          | Some proc \<Rightarrow>
              do { kassert (proc \<noteq> idleproc (tab s) \<and> proc \<noteq> initproc (tab s));
                   (ok, s) \<leftarrow> (if code_store \<noteq> 0 then store_user code_store (word_of_int (p_exit_code (procs (tab s) proc))) s
                               else Some (True, s));
                   if \<not> ok then Some (Exited, s)
                   else
                     do { (_, t) \<leftarrow> wait_found proc (tab s);
                          s \<leftarrow> put_kstack proc (s\<lparr>tab := t\<rparr>);
                          Some (Returned (Inr ()), kfree_k proc s) } } }"

definition do_wait :: "int \<Rightarrow> u32 \<Rightarrow> kernel \<Rightarrow> (wait_result \<times> kernel) option" where
  "do_wait pid code_store s =
     (let mm = p_mm (this_proc s);
          (ok, p) = (if code_store \<noteq> 0 then user_mem_check (if mm = 0 then None else Some mm) code_store 4 True (ps s) else (True, ps s));
          s = s\<lparr>ps := p\<rparr>
      in if \<not> ok then Some (Returned (Inl E_INVAL), s) else do_wait_repeat pid code_store s)"

text \<open>After the sleep, with the same process current: a process that is being killed exits.\<close>

definition do_wait_resume :: "int \<Rightarrow> u32 \<Rightarrow> kernel \<Rightarrow> (wait_result \<times> kernel) option" where
  "do_wait_resume pid code_store s =
     (if p_flags (this_proc s) AND PF_EXITING \<noteq> 0 then do { s \<leftarrow> do_exit (- errno E_KILLED) s; Some (Exited, s) }
      else do_wait_repeat pid code_store s)"

section \<open>Specification\<close>

text \<open>What a process owns: its stack, address space, trap frame and files.\<close>

definition owned :: "proc_struct \<Rightarrow> u32 \<times> addr \<times> u32 \<times> u32 \<times> kcontext \<times> addr" where
  "owned p = (p_kstack p, p_mm p, p_pgdir p, p_tf p, p_context p, p_filesp p)"

text \<open>
  The directory \<open>q\<close> is new and maps a copy of every page of \<open>V\<close> that \<open>d\<close> maps, in frames that were free; the other directories and the pages in use
  are as before.
\<close>

definition space_copied :: "nat set \<Rightarrow> nat \<Rightarrow> nat \<Rightarrow> nat set \<Rightarrow> pstate \<Rightarrow> pstate \<Rightarrow> bool" where
  "space_copied D d q V s s' \<longleftrightarrow> pt_inv (insert q D) s' \<and> q \<in> free_set (pm s) \<and>
     (\<forall>c \<in> D. \<forall>v < user_pages. pmap (km s') c v = pmap (km s) c v) \<and>
     (\<forall>v < user_pages. if v \<in> V \<and> pmap (km s) d v \<noteq> None
        then \<exists>p f r. pmap (km s) d v = Some (p, f) \<and> pmap (km s') q v = Some (r, f) \<and> r \<in> free_set (pm s) \<and> (\<forall>j < 1024. W (km s') r j = W (km s) p j)
        else pmap (km s') q v = None) \<and>
     (\<forall>p \<in> taken (pm s) - D - tables (km s) D. \<forall>j < 1024. W (km s') p j = W (km s) p j)"

text \<open>
  The current process has an address space with the page directory \<open>d\<close>, which the processor uses and nobody has locked, and a quiet table of open files.
\<close>

definition user_process :: "nat set \<Rightarrow> nat \<Rightarrow> kernel \<Rightarrow> bool" where
  "user_process D d s \<longleftrightarrow>
     (let mm = p_mm (this_proc s); f = p_filesp (this_proc s)
      in mm \<noteq> 0 \<and> 0 < mm_sems s mm \<and> pt_inv D (ps s) \<and> d \<in> D \<and> mm_pgdir (mms (ps s) mm) = Some (kva d) \<and> Mmu.cur_pgdir (ps s) = Some (kva d) \<and>
         mm_inv (ps s) mm \<and> aligned (ps s) (mmap_list (mms (ps s) mm)) \<and> f \<noteq> 0 \<and> 0 < fl_count (ftab s f) \<and> fd_quiet (fl_array (ftab s f)))"

text \<open>The pages that the areas of the current process hold, and those of them that are mapped.\<close>

definition my_pages :: "kernel \<Rightarrow> nat set" where
  "my_pages s = area_pages (ps s) (mmap_list (mms (ps s) (p_mm (this_proc s))))"

definition mapped_pages :: "nat \<Rightarrow> kernel \<Rightarrow> nat set" where
  "mapped_pages d s = {v \<in> my_pages s. pmap (km (ps s)) d v \<noteq> None}"

text \<open>
  The blocks that \<open>kmalloc\<close> will return are not in use: \<open>proc\<close> is not a process of the table or its families, \<open>f0\<close> and \<open>f\<close> are not the files, \<open>mm\<close> is not the
  address space and \<open>bs\<close> are not the areas of the current process.
\<close>

definition fresh_proc :: "(addr \<Rightarrow> addr list) \<Rightarrow> addr \<Rightarrow> proctab \<Rightarrow> bool" where
  "fresh_proc F proc t \<longleftrightarrow> proc \<noteq> 0 \<and> proc \<noteq> current t \<and> proc \<noteq> idleproc t \<and> proc \<notin> set (proc_list t) \<and> proc \<notin> set (run_list t) \<and>
     F proc = [] \<and> (\<forall>q. proc \<notin> set (F q))"

definition fresh_blocks :: "addr \<Rightarrow> addr \<Rightarrow> addr list \<Rightarrow> addr \<Rightarrow> kernel \<Rightarrow> bool" where
  "fresh_blocks f0 mm bs f s \<longleftrightarrow>
     (let l = mmap_list (mms (ps s) (p_mm (this_proc s)))
      in f0 \<noteq> 0 \<and> f \<noteq> 0 \<and> f0 \<noteq> p_filesp (this_proc s) \<and> f \<noteq> p_filesp (this_proc s) \<and> f \<noteq> f0 \<and> mm \<noteq> p_mm (this_proc s) \<and>
         length bs = length l \<and> distinct bs \<and> set bs \<inter> set l = {} \<and> length (fl_array (ftab s f)) = FILES_STRUCT_NENTRY)"

text \<open>The table \<open>f'\<close> of open files has the working directory and the open files of \<open>f\<close>, and one user.\<close>

definition files_copied :: "files_struct \<Rightarrow> files_struct \<Rightarrow> bool" where
  "files_copied f f' \<longleftrightarrow> fl_count f' = 1 \<and> fl_pwd f' = fl_pwd f \<and> fd_quiet (fl_array f') \<and>
     (\<forall>i < FILES_STRUCT_NENTRY. if status (fl_array f ! i) = FD_OPENED then fl_array f' ! i = fl_array f ! i else status (fl_array f' ! i) = FD_NONE)"

text \<open>
  An example: the process 2 of the example of theory \<open>ProcTable\<close> with the address space 6 of theory \<open>AddressSpace\<close> and the files 30; \<open>kmalloc\<close> has a process structure, a
  table of files, an address space, an area and a table of files to give.
\<close>

definition demo_kernel :: kernel where
  "demo_kernel = \<lparr>tab = upd_proc 2 (\<lambda>p. p\<lparr>p_mm := 6, p_filesp := 30\<rparr>) two_procs,
     ps = Mmu.cur_pgdir_update (\<lambda>_. Some (kva 2)) (demo_space\<lparr>kanswers := [Some 20, Some 31, Some 8, Some 9, Some 32]\<rparr>),
     vf = vfs.truncate demo_vfs, ftab = \<lambda>_. \<lparr>fl_pwd = Some 3, fl_array = fd_array demo_vfs, fl_count = 2\<rparr>,
     frames = \<lambda>_. \<lparr>tf_regs = \<lambda>_. 5, tf_Status = 0, tf_Cause = 0, tf_EPC = 0x200000, tf_BadVAddr = 0, tf_LO = 0, tf_HI = 0\<rparr>,
     mm_sems = \<lambda>_. 1, kfreed = [], boot_pgdir = kva 0, forkret_at = 0x80001000, kthread_at = 0x80002000\<rparr>"

section \<open>Entering the table\<close>

lemma set_links_sched:
  "current (set_links p x) = current x" "idleproc (set_links p x) = idleproc x" "run_list (set_links p x) = run_list x"
  "proc_num (set_links p x) = proc_num x" "max_time_slice (set_links p x) = max_time_slice x" "initproc (set_links p x) = initproc x"
  by (simp_all add: set_links_def Let_def)

lemma owned_upd [simp]:
  "owned (p_yptr_update f x) = owned x" "owned (p_optr_update f x) = owned x" "owned (p_cptr_update f x) = owned x" "owned (p_parent_update f x) = owned x"
  "owned (p_pid_update g x) = owned x" "owned (p_state_update h x) = owned x" "owned (p_wait_state_update w x) = owned x"
  by (simp_all add: owned_def)

lemma upd_proc_owned: "(\<And>x. owned (f x) = owned x) \<Longrightarrow> owned (procs (upd_proc p f s) q) = owned (procs s q)"
  by simp

lemma set_links_owned:
  "owned (procs (set_links p x) q) = owned (procs x q)" "p_state (procs (set_links p x) q) = p_state (procs x q)"
  "p_rq (procs (set_links p x) q) = p_rq (procs x q)" "p_time_slice (procs (set_links p x) q) = p_time_slice (procs x q)"
  by (simp_all add: set_links_def Let_def upd_proc_keeps upd_proc_owned del: upd_proc_simps(1) split: if_split)

lemma enter_proc_shape:
  assumes "enter_proc p t = Some (pid, t1)"
  shows "owned (procs t1 q) = owned (procs t q)" and "p_state (procs t1 q) = p_state (procs t q)" and "p_rq (procs t1 q) = p_rq (procs t q)"
    and "p_time_slice (procs t1 q) = p_time_slice (procs t q)" and "current t1 = current t" "idleproc t1 = idleproc t" "run_list t1 = run_list t"
    "proc_num t1 = proc_num t" "max_time_slice t1 = max_time_slice t" "initproc t1 = initproc t"
proof -
  obtain pid' lp sf where g: "get_pid t = Some (pid', t\<lparr>last_pid := lp, next_safe := sf\<rparr>)"
  proof -
    from assms obtain g where "get_pid t = Some g" by (auto simp: enter_proc_def bind_eq_Some_conv)
    then show thesis using that
      by (cases t) (auto simp: get_pid_def Let_def bind_eq_Some_conv split: if_splits)
  qed
  let ?t = "hash_proc p (upd_proc p (\<lambda>p. p\<lparr>p_pid := pid\<rparr>) (t\<lparr>last_pid := lp, next_safe := sf\<rparr>))"
  have t1: "t1 = set_links p ?t" using assms g by (auto simp: enter_proc_def Let_def)
  have h: "procs ?t q = (if q = p then (procs t p)\<lparr>p_pid := pid\<rparr> else procs t q)" for q by (simp add: hash_proc_def Let_def)
  show "owned (procs t1 q) = owned (procs t q)" "p_state (procs t1 q) = p_state (procs t q)" "p_rq (procs t1 q) = p_rq (procs t q)"
    "p_time_slice (procs t1 q) = p_time_slice (procs t q)" unfolding t1 set_links_owned h by (simp_all add: owned_def)
  show "current t1 = current t" "idleproc t1 = idleproc t" "run_list t1 = run_list t"
    "proc_num t1 = proc_num t" "max_time_slice t1 = max_time_slice t" "initproc t1 = initproc t"
    unfolding t1 set_links_sched by (simp_all add: hash_proc_def Let_def)
qed

lemma wakeup_owned: "wakeup_proc p t = Some t' \<Longrightarrow> owned (procs t' q) = owned (procs t q)"
  by (auto simp: wakeup_proc_def sched_class_enqueue_def RR_enqueue_eq Let_def owned_def split: if_splits)

lemma family_cong:
  assumes "\<And>q. p_parent (procs t' q) = p_parent (procs t q) \<and> p_yptr (procs t' q) = p_yptr (procs t q) \<and>
      p_optr (procs t' q) = p_optr (procs t q) \<and> p_cptr (procs t' q) = p_cptr (procs t q)"
  shows "family F t' = family F t"
  unfolding family_def using kids_cong [of _ "procs t'" "procs t"] assms by blast

lemma ptab_inv_cong:
  assumes "sched.more t' = sched.more t" "\<And>q. p_pid (procs t' q) = p_pid (procs t q)"
  shows "ptab_inv t' = ptab_inv (t :: proctab)" "find_proc pid t' = find_proc pid t"
proof -
  have m: "proc_list t' = proc_list t" "proctab.hash_list t' = proctab.hash_list t" "nr_process t' = nr_process t" "next_safe t' = next_safe t" "last_pid t' = last_pid t"
    using assms(1) by (cases t; cases t'; simp)+
  then have p: "proc_pids t' = proc_pids t" using assms(2) by (simp add: proc_pids_def)
  show "ptab_inv t' = ptab_inv t" using assms(2) m p by (simp add: ptab_inv_def pid_inv_def hash_inv_def)
  show "find_proc pid t' = find_proc pid t" using assms(2) m by (simp add: find_proc_def)
qed

text \<open>A new process becomes a child of its parent and ready to run.\<close>

lemma enter_child:
  fixes t :: proctab
  assumes inv: "ptab_inv t" "sched_inv t" "nr_process t < MAX_PROCESS" and fam: "family F t"
    and new: "p \<notin> set (proc_list t)" "p \<noteq> 0" "\<forall>q. p \<notin> set (F q)" "p_state (procs t p) = PROC_UNINIT" "p \<noteq> current t"
  obtains pid t1 t2 where "enter_proc p t = Some (pid, t1)" "wakeup_proc p t1 = Some t2" "ptab_inv t2" "sched_inv t2"
    "find_proc pid t = None" "\<And>q. find_proc q t2 = (if q = pid then Some p else find_proc q t)"
    "family (F(p_parent (procs t p) := p # F (p_parent (procs t p)))) t2" "run_list t2 = run_list t @ [p]"
    "current t2 = current t" "p_state (procs t2 p) = PROC_RUNNABLE" "\<And>q. owned (procs t2 q) = owned (procs t q)"
proof -
  obtain pid t1 where e: "enter_proc p t = Some (pid, t1)" "ptab_inv t1" "find_proc pid t = None"
    "\<forall>q. find_proc q t1 = (if q = pid then Some p else find_proc q t)"
    using find_proc_enter [OF inv(1,3) new(1)] by blast
  note sh = enter_proc_shape [OF e(1)]
  have s1: "sched_inv t1" using sched_inv_fields [of t1 t] sh inv(2) by simp
  have f1: "family (F(p_parent (procs t p) := p # F (p_parent (procs t p)))) t1"
  proof -
    from e(1) obtain g where g: "get_pid t = Some (pid, g)" "t1 = set_links p (hash_proc p (upd_proc p (\<lambda>p. p\<lparr>p_pid := pid\<rparr>) g))"
      by (auto simp: enter_proc_def bind_eq_Some_conv Let_def)
    let ?h = "hash_proc p (upd_proc p (\<lambda>p. p\<lparr>p_pid := pid\<rparr>) g)"
    have gp: "procs g = procs t" using g(1) by (auto simp: get_pid_def Let_def bind_eq_Some_conv split: if_splits)
    have h: "procs ?h = (procs t)(p := (procs t p)\<lparr>p_pid := pid\<rparr>)" by (simp add: hash_proc_def Let_def gp)
    have "family F ?h" using fam family_cong [of ?h t F] unfolding h by simp
    from set_links_family [OF this new(2,3) refl] show ?thesis unfolding g(2) h by simp
  qed
  have st: "p_state (procs t1 p) = PROC_UNINIT" using sh(2) new(4) by simp
  obtain t2 where w: "wakeup_proc p t1 = Some t2" "sched_inv t2" "run_list t2 = run_list t1 @ [p]" "run_state t2 = woken {p} (run_state t1)"
    using wakeup_proc_ok [OF s1, of p] st new(5) sh(5) by auto
  note wl = wakeup_proc_links [OF w(1)]
  have "p_state (procs t2 p) = PROC_RUNNABLE" using fun_cong [OF w(4), of p] st by (simp add: run_state_def woken_def)
  moreover have "family (F(p_parent (procs t p) := p # F (p_parent (procs t p)))) t2" using f1 family_cong [of t2 t1] wl by simp
  ultimately show thesis
    using that [OF e(1) w(1)] w(2,3) ptab_inv_cong [OF wl(7,5)] e(2-4) sh(1,5,7) wl(6) wakeup_owned [OF w(1)] by simp
qed

section \<open>The address space of the child\<close>

lemma kva_inject: "kva p = kva q \<longleftrightarrow> p = q"
  by (simp add: kva_def)

lemma mm_create_ok:
  assumes "kanswers p = Some mm # rest"
  obtains p1 where "mm_create p = (Some mm, p1)" "km p1 = km p" "pm p1 = pm p" "vmas p1 = vmas p" "Mmu.cur_pgdir p1 = Mmu.cur_pgdir p" "kanswers p1 = rest"
    "\<And>m. m \<noteq> mm \<Longrightarrow> mms p1 m = mms p m" "mmap_list (mms p1 mm) = []" "mmap_cache (mms p1 mm) = None" "map_count (mms p1 mm) = 0" "mm_count (mms p1 mm) = 0"
  using assms by (fastforce simp: mm_create_def kmalloc_ans_def Let_def upd_mm_def set_mm_count_def swap_init_mm_def fifo_init_mm_def)

text \<open>Changing the lock or the count of an address space leaves the areas alone.\<close>

lemma mm_fields:
  assumes "\<And>m. mmap_list (f m) = mmap_list m" "\<And>m. mmap_cache (f m) = mmap_cache m" "\<And>m. map_count (f m) = map_count m"
  shows "mm_inv (upd_mm k f s) mm = mm_inv s mm" "area_set (upd_mm k f s) mm = area_set s mm"
  using assms by (simp_all add: mm_inv_def area_set_def upd_mm_def)

lemma upd_mm_frame [simp]:
  "km (upd_mm k f s) = km s" "pm (upd_mm k f s) = pm s" "vmas (upd_mm k f s) = vmas s" "Mmu.cur_pgdir (upd_mm k f s) = Mmu.cur_pgdir s"
  "kanswers (upd_mm k f s) = kanswers s" "mms (upd_mm k f s) = (mms s)(k := f (mms s k))" "pt_inv D (upd_mm k f s) = pt_inv D s"
  by (simp_all add: upd_mm_def pt_inv_def)

lemma pt_inv_cong: "pm s' = pm s \<Longrightarrow> km s' = km s \<Longrightarrow> pt_inv D s' = pt_inv D s"
  by (simp add: pt_inv_def)

lemma dup_space:
  assumes inv: "pt_inv D s" and d: "d \<in> D" "mm_pgdir (mms s mm) = Some (kva d)" "Mmu.cur_pgdir s = Some (kva d)"
    and mm: "mm_inv s mm" "aligned s (mmap_list (mms s mm))" "mm' \<noteq> mm"
    and new: "mmap_list (mms s mm') = []" "mmap_cache (mms s mm') = None" "map_count (mms s mm') = 0"
    and blk: "kanswers s = map Some bs @ rest" "length bs = length (mmap_list (mms s mm))" "distinct bs" "set bs \<inter> set (mmap_list (mms s mm)) = {}"
    and b: "b \<in> taken (pm s)" "\<And>i. i < 512 \<Longrightarrow> tbl (km s) b i = None"
    and room: "2 * card {v \<in> area_pages s (mmap_list (mms s mm)). pmap (km s) d v \<noteq> None} + 1 \<le> card (free_set (pm s))"
    and lk: "\<And>m. mmap_list (lk m) = mmap_list m" "\<And>m. mmap_cache (lk m) = mmap_cache m" "\<And>m. map_count (lk m) = map_count m" "\<And>m. mm_pgdir (lk m) = mm_pgdir m"
  obtains q s1 s2 where "setup_pgdir (kva b) mm' s = Some (Inr (), s1)" "dup_mmap mm' mm (upd_mm mm lk s1) = Some (Inr (), s2)"
    "space_copied D d q (area_pages s (mmap_list (mms s mm))) s s2" "kanswers s2 = rest" "mm_inv s2 mm'" "area_set s2 mm' = area_set s mm"
    "area_set s2 mm = area_set s mm" "\<And>m. m \<noteq> mm' \<Longrightarrow> mms s2 m = mms (upd_mm mm lk s) m" "mm_pgdir (mms s2 mm') = Some (kva q)"
    "mm_count (mms s2 mm') = mm_count (mms s mm')" "Mmu.cur_pgdir s2 = Some (kva d)"
proof -
  let ?l = "mmap_list (mms s mm)"
  let ?V = "area_pages s ?l"
  have V: "?V \<subseteq> {..<user_pages}" by (rule area_pages_user [OF mm(2)])
  have ne: "free_set (pm s) \<noteq> {}" using room by auto
  obtain q x m where q: "setup_pgdir (kva b) mm' s = Some (Inr (), upd_mm mm' (\<lambda>m. m\<lparr>mm_pgdir := Some (kva q)\<rparr>) (s\<lparr>pm := x, km := m\<rparr>))"
    "pt_inv (insert q D) (s\<lparr>pm := x, km := m\<rparr>)" "q \<in> free_set (pm s)" "q \<notin> D" "free_set x = free_set (pm s) - {q}" "avail_set x = avail_set (pm s)"
    "npage x = npage (pm s)" "\<forall>i < 512. tbl m q i = None" "\<forall>p j. p \<noteq> q \<longrightarrow> j < 1024 \<longrightarrow> W m p j = W (km s) p j"
    "tables m D = tables (km s) D" "\<forall>d \<in> D. \<forall>v < user_pages. pmap m d v = pmap (km s) d v"
    by (rule setup_pgdir_ok [OF inv ne b, where mm = mm']) blast
  note q = q(1-7) q(8) [rule_format] q(9) [rule_format] q(10) q(11) [rule_format]
  define s1 where "s1 = upd_mm mm' (\<lambda>m. m\<lparr>mm_pgdir := Some (kva q)\<rparr>) (s\<lparr>pm := x, km := m\<rparr>)"
  define s2 where "s2 = upd_mm mm lk s1"
  have f2: "km s2 = m" "pm s2 = x" "vmas s2 = vmas s" "Mmu.cur_pgdir s2 = Some (kva d)" "kanswers s2 = map Some bs @ rest" "mms s2 mm = lk (mms s mm)"
    "mms s2 mm' = (mms s mm')\<lparr>mm_pgdir := Some (kva q)\<rparr>" "\<And>k. k \<noteq> mm' \<Longrightarrow> k \<noteq> mm \<Longrightarrow> mms s2 k = mms s k"
    using d(3) blk(1) mm(3) by (simp_all add: s2_def s1_def)
  have l2: "mmap_list (mms s2 mm) = ?l" "area_pages s2 ?l = ?V" "aligned s2 ?l"
    using lk mm(2) f2 by (simp_all add: area_pages_def aligned_def)
  have dq: "d \<in> insert q D" "q \<in> insert q D" "d \<noteq> q" using d(1) q(4) by auto
  have pq: "pmap m q v = None" if "v < user_pages" for v using q(8) [OF vpn_index(1) [OF that]] by (simp add: pmap_def)
  have set_eq: "{v \<in> ?V. pmap m d v \<noteq> None} = {v \<in> ?V. pmap (km s) d v \<noteq> None}" using V q(11) [OF d(1)] by auto
  have "card (free_set x) = card (free_set (pm s)) - 1" using q(3,5) by simp
  then have rm: "2 * card {v \<in> area_pages s2 ?l. pmap (km s2) d v \<noteq> None} \<le> card (free_set (pm s2))"
    using room unfolding f2 l2 set_eq by linarith
  have mi: "mm_inv s2 mm" "mm_pgdir (mms s2 mm) = Some (kva d)"
    using mm(1) lk f2 d(2) by (simp_all add: mm_inv_def)
  have pt2: "pt_inv (insert q D) s2" using q(2) pt_inv_cong [of s2 "s\<lparr>pm := x, km := m\<rparr>"] f2 by simp
  have cur2: "Mmu.cur_pgdir s2 \<noteq> Some (kva q)" using f2(4) dq(3) by (simp add: kva_inject)
  obtain s3 where s3: "dup_mmap mm' mm s2 = Some (Inr (), s3)" "dup_done (insert q D) d q mm' (rev ?l) bs s2 s3" "kanswers s3 = rest"
    using dup_mmap_ok [OF pt2 dq cur2, of mm mm' bs rest] mi l2 f2 new blk pq rm by auto
  have ra: "area_pages s2 (rev ?l) = ?V" using f2(3) by (simp add: area_pages_def)
  have S: "copied (insert q D) d q ?V (with_areas s3 s2) s3" "mm_inv s3 mm'" "mm_pgdir (mms s3 mm') = Some (kva q)"
    "mm_count (mms s3 mm') = mm_count (mms s mm')" "\<And>k. k \<noteq> mm' \<Longrightarrow> mms s3 k = mms s2 k"
    "area_set s3 mm' = area_set s2 mm' \<union> (\<lambda>v. area (vmas s2 v)) ` set ?l"
    using s3(2) f2(7) ra by (auto simp: dup_done_def)
  have "area (vmas s3 v) = area (vmas s v)" if "v \<in> set ?l" for v
    using s3(2) blk(4) f2(3) that by (auto simp: dup_done_def area_def disjoint_iff)
  then have A: "area_set s3 mm = area_set s mm" using S(5) mm(3) l2(1) by (simp add: area_set_def)
  have A': "area_set s3 mm' = area_set s mm" using S(6) f2(3,7) new(1) by (simp add: area_set_def)
  note c = copiedD [OF S(1), unfolded with_areas_simps f2]
  have "space_copied D d q ?V s s3"
    unfolding space_copied_def
  proof (intro conjI allI ballI impI)
    show "pt_inv (insert q D) s3" "q \<in> free_set (pm s)" by (rule c(1), rule q(3))
    show "pmap (km s3) k v = pmap (km s) k v" if "k \<in> D" "v < user_pages" for k v
      using c(5) [of k v] q(11) [OF that] that q(4) by auto
    show "if v \<in> ?V \<and> pmap (km s) d v \<noteq> None
        then \<exists>p f r. pmap (km s) d v = Some (p, f) \<and> pmap (km s3) q v = Some (r, f) \<and> r \<in> free_set (pm s) \<and> (\<forall>j < 1024. W (km s3) r j = W (km s) p j)
        else pmap (km s3) q v = None" if v: "v < user_pages" for v
    proof (cases "v \<in> ?V \<and> pmap (km s) d v \<noteq> None")
      case True
      then obtain p f where pf: "pmap (km s) d v = Some (p, f)" by fastforce
      then have "p \<noteq> q" using tables_okD(6) [OF pt_invD(3) [OF inv] d(1) v] q(3) by (auto simp: taken_def)
      from c(6) [of v p f] True pf q(11) [OF d(1) v] obtain r where "pmap (km s3) q v = Some (r, f)" "r \<in> free_set x" "\<forall>j < 1024. W (km s3) r j = W m p j"
        by auto
      with pf True q(5) q(9) [OF \<open>p \<noteq> q\<close>] show ?thesis by auto
    next
      case False
      have "q \<noteq> q \<or> v \<notin> ?V \<or> pmap m d v = None" using False unfolding q(11) [OF d(1) v] by blast
      from c(5) [OF dq(2) v this] pq [OF v] show ?thesis unfolding if_not_P [OF False] by simp
    qed
    show "W (km s3) p j = W (km s) p j" if "p \<in> taken (pm s) - D - tables (km s) D" "j < 1024" for p j
    proof -
      have "p \<noteq> q" using that(1) q(3) by (auto simp: taken_def)
      moreover have "tables m (insert q D) = tables m D" using q(8) by (force simp: tables_def)
      ultimately have "p \<in> taken x - insert q D - tables m (insert q D)" using that(1) q(5,6,10) by (auto simp: taken_def)
      from c(7) [OF this that(2)] q(9) [OF \<open>p \<noteq> q\<close> that(2)] show ?thesis by simp
    qed
  qed
  moreover have "Mmu.cur_pgdir s3 = Some (kva d)" using same_env_fields(1) [OF c(2)] f2(4) by simp
  moreover have "mms s3 k = mms (upd_mm mm lk s) k" if "k \<noteq> mm'" for k
    using S(5) [OF that] f2(6,8) that by (cases "k = mm") auto
  ultimately show thesis
    using that [of s1 s3 q] q(1) s3(1,3) S(2-4) A A' unfolding s1_def s2_def by blast
qed

lemma space_copied_mono:
  assumes "space_copied D d q V p p'" and "km p = km s" "free_set (pm p) \<subseteq> free_set (pm s)" "taken (pm s) \<subseteq> taken (pm p)"
    and "km p'' = km p'" "pm p'' = pm p'"
  shows "space_copied D d q V s p''"
proof -
  have pt: "pt_inv (insert q D) p''" using assms(1) pt_inv_cong [OF assms(6,5)] by (simp add: space_copied_def)
  have per: "if v \<in> V \<and> pmap (km s) d v \<noteq> None
      then \<exists>p f r. pmap (km s) d v = Some (p, f) \<and> pmap (km p'') q v = Some (r, f) \<and> r \<in> free_set (pm s) \<and> (\<forall>j < 1024. W (km p'') r j = W (km s) p j)
      else pmap (km p'') q v = None" if "v < user_pages" for v
  proof (cases "v \<in> V \<and> pmap (km s) d v \<noteq> None")
    case True
    then have "\<exists>a f r. pmap (km p) d v = Some (a, f) \<and> pmap (km p') q v = Some (r, f) \<and> r \<in> free_set (pm p) \<and> (\<forall>j < 1024. W (km p') r j = W (km p) a j)"
      using assms(1,2) that unfolding space_copied_def by (metis (no_types, lifting))
    with True assms(2,3,5) show ?thesis unfolding if_P [OF True] by (metis subsetD)
  next
    case False
    then have "pmap (km p') q v = None" using assms(1,2) that unfolding space_copied_def by (metis (no_types, lifting))
    with False assms(5) show ?thesis by simp
  qed
  have c: "q \<in> free_set (pm p)" "\<forall>k \<in> D. \<forall>v < user_pages. pmap (km p') k v = pmap (km p) k v"
    "\<forall>r \<in> taken (pm p) - D - tables (km p) D. \<forall>j < 1024. W (km p') r j = W (km p) r j"
    using assms(1) unfolding space_copied_def by blast+
  show ?thesis
    unfolding space_copied_def
  proof (intro conjI allI impI ballI)
    show "q \<in> free_set (pm s)" using c(1) assms(3) by blast
    show "pmap (km p'') k v = pmap (km s) k v" if "k \<in> D" "v < user_pages" for k v using c(2) that assms(2,5) by simp
    show "W (km p'') r j = W (km s) r j" if "r \<in> taken (pm s) - D - tables (km s) D" "j < 1024" for r j
      using c(3) that assms(2,4,5) by auto
  qed (rule pt, erule per)
qed

lemma space_copiedD:
  assumes "space_copied D d q V s s'" "v < user_pages" "v \<in> V" "pmap (km s) d v = Some (p, f)"
  obtains r where "pmap (km s') q v = Some (r, f)" "r \<in> free_set (pm s)" "q \<in> free_set (pm s)" "\<forall>j < 1024. W (km s') r j = W (km s) p j"
proof -
  have "if v \<in> V \<and> pmap (km s) d v \<noteq> None
      then \<exists>p f r. pmap (km s) d v = Some (p, f) \<and> pmap (km s') q v = Some (r, f) \<and> r \<in> free_set (pm s) \<and> (\<forall>j < 1024. W (km s') r j = W (km s) p j)
      else pmap (km s') q v = None"
    using assms(1,2) unfolding space_copied_def by blast
  with assms(3,4) have "\<exists>r. pmap (km s') q v = Some (r, f) \<and> r \<in> free_set (pm s) \<and> (\<forall>j < 1024. W (km s') r j = W (km s) p j)" by simp
  with assms(1) that show thesis unfolding space_copied_def by blast
qed

lemma copy_mm_ok:
  assumes mm: "p_mm (this_proc s) = mm" "mm \<noteq> 0" "clone_flags AND CLONE_VM = 0" "0 < mm_sems s mm" "mm' \<noteq> mm"
    and inv: "pt_inv D (ps s)" and d: "d \<in> D" "mm_pgdir (mms (ps s) mm) = Some (kva d)" "Mmu.cur_pgdir (ps s) = Some (kva d)"
    and ar: "mm_inv (ps s) mm" "aligned (ps s) (mmap_list (mms (ps s) mm))"
    and blk: "kanswers (ps s) = Some mm' # map Some bs @ rest" "length bs = length (mmap_list (mms (ps s) mm))" "distinct bs" "set bs \<inter> set (mmap_list (mms (ps s) mm)) = {}"
    and b: "boot_pgdir s = kva b" "b \<in> taken (pm (ps s))" "\<And>i. i < 512 \<Longrightarrow> tbl (km (ps s)) b i = None"
    and room: "2 * card {v \<in> area_pages (ps s) (mmap_list (mms (ps s) mm)). pmap (km (ps s)) d v \<noteq> None} + 1 \<le> card (free_set (pm (ps s)))"
  obtains q p where "copy_mm clone_flags proc s = Some (Inr (), set_proc proc (\<lambda>x. x\<lparr>p_mm := mm', p_pgdir := of_nat (kva q)\<rparr>) (s\<lparr>mm_sems := (mm_sems s)(mm' := 1), ps := p\<rparr>))"
    "space_copied D d q (area_pages (ps s) (mmap_list (mms (ps s) mm))) (ps s) p" "kanswers p = rest" "mm_inv p mm'" "area_set p mm' = area_set (ps s) mm"
    "area_set p mm = area_set (ps s) mm" "mm_pgdir (mms p mm') = Some (kva q)" "mm_count (mms p mm') = 1" "mm_pgdir (mms p mm) = Some (kva d)"
proof -
  let ?l = "mmap_list (mms (ps s) mm)"
  obtain p1 where p1: "mm_create (ps s) = (Some mm', p1)" "km p1 = km (ps s)" "pm p1 = pm (ps s)" "vmas p1 = vmas (ps s)" "Mmu.cur_pgdir p1 = Mmu.cur_pgdir (ps s)"
    "kanswers p1 = map Some bs @ rest" "\<And>m. m \<noteq> mm' \<Longrightarrow> mms p1 m = mms (ps s) m" "mmap_list (mms p1 mm') = []" "mmap_cache (mms p1 mm') = None"
    "map_count (mms p1 mm') = 0" "mm_count (mms p1 mm') = 0"
    by (rule mm_create_ok [OF blk(1)]) blast
  have e: "mms p1 mm = mms (ps s) mm" using p1(7) mm(5) by simp
  have ap: "area_pages p1 ?l = area_pages (ps s) ?l" "aligned p1 ?l" using ar(2) p1(4) by (simp_all add: area_pages_def aligned_def)
  have I: "pt_inv D p1" "mm_inv p1 mm" "area_set p1 mm = area_set (ps s) mm"
    using inv ar(1) e p1(2-4) pt_inv_cong [of p1 "ps s" D] by (simp_all add: mm_inv_def area_set_def)
  let ?lk = "\<lambda>m. m\<lparr>locked_by := p_pid (this_proc s)\<rparr>"
  obtain q p2 p3 where c: "setup_pgdir (kva b) mm' p1 = Some (Inr (), p2)" "dup_mmap mm' mm (upd_mm mm ?lk p2) = Some (Inr (), p3)"
    "space_copied D d q (area_pages p1 (mmap_list (mms p1 mm))) p1 p3" "kanswers p3 = rest" "mm_inv p3 mm'" "area_set p3 mm' = area_set p1 mm"
    "area_set p3 mm = area_set p1 mm" "\<And>m. m \<noteq> mm' \<Longrightarrow> mms p3 m = mms (upd_mm mm ?lk p1) m" "mm_pgdir (mms p3 mm') = Some (kva q)"
    "mm_count (mms p3 mm') = mm_count (mms p1 mm')"
    by (rule dup_space [OF I(1) d(1), of mm mm' bs rest b ?lk]) (use d I e p1 ap blk b room mm(5) in auto)
  define p where "p = upd_mm mm' (\<lambda>m. m\<lparr>mm_count := mm_count m + 1\<rparr>) (upd_mm mm (\<lambda>m. m\<lparr>locked_by := 0\<rparr>) p3)"
  have "copy_mm clone_flags proc s = Some (Inr (), set_proc proc (\<lambda>x. x\<lparr>p_mm := mm', p_pgdir := of_nat (kva q)\<rparr>) (s\<lparr>mm_sems := (mm_sems s)(mm' := 1), ps := p\<rparr>))"
  proof -
    have sems: "(mm_sems s)(mm' := 1, mm := mm_sems s mm) = (mm_sems s)(mm' := 1)"
      using mm(5) by (auto simp: fun_eq_iff)
    show ?thesis
      using mm b(1) p1(1) c(1,2,9)
      by (simp add: copy_mm_def mm_create_k_def on_ps_def lock_mm_k_def unlock_mm_k_def good_mm_def mm_count_inc_def Let_def p_def sems)
  qed
  moreover have "space_copied D d q (area_pages (ps s) ?l) (ps s) p"
    by (rule space_copied_mono [OF c(3) [unfolded e ap(1)]]) (simp_all add: p1(2,3) p_def)
  moreover have "mm_inv p mm'" "area_set p mm' = area_set (ps s) mm" "area_set p mm = area_set (ps s) mm"
    using c(5,6,7) I(3) by (simp_all add: p_def mm_fields)
  moreover have "mm_pgdir (mms p mm') = Some (kva q)" "mm_count (mms p mm') = 1" "mm_pgdir (mms p mm) = Some (kva d)" "kanswers p = rest"
    using c(4,8,9,10) p1(11) mm(5) d(2) e by (simp_all add: p_def)
  ultimately show thesis using that by blast
qed

section \<open>The stack and the files of the child\<close>

lemma alloc_frames_ok:
  assumes inv: "pt_inv D p" and n: "0 < n" and al: "default_alloc_pages n (pm p) = Some (Some k, x)"
  shows "pt_inv D (p\<lparr>pm := x\<rparr>)" "free_set x = free_set (pm p) - {k..<k + n}" "{k..<k + n} \<subseteq> free_set (pm p)" "taken (pm p) \<subseteq> taken x"
    "avail_set x = avail_set (pm p)" "npage x = npage (pm p)" "k < npage x"
proof -
  note i = pt_invD [OF inv]
  show f: "free_set x = free_set (pm p) - {k..<k + n}" "{k..<k + n} \<subseteq> free_set (pm p)" and av: "avail_set x = avail_set (pm p)"
    using alloc_pages_ok [OF i(1) n] al by auto
  show np: "npage x = npage (pm p)" using alloc_avail(2) [OF i(1) n al] .
  show tk: "taken (pm p) \<subseteq> taken x" using f av by (auto simp: taken_def)
  have "pmm_inv x" using alloc_pages_ok [OF i(1) n] al by auto
  moreover have "pg_ref (pages x q) = pg_ref (pages (pm p) q)" for q
    using alloc_pages_cases [OF i(1) n] al by (auto simp: take_block_def upd_page_def Let_def SetPageProperty_def ClearPageProperty_def)
  ultimately show "pt_inv D (p\<lparr>pm := x\<rparr>)"
    using tables_ok_fresh(1) [OF i(3) refl tk av] i(2) np by (simp add: pt_inv_def)
  have "k \<in> free_set (pm p)" using f(2) n by auto
  from free_less(1) [OF i(1) this] show "k < npage x" by (simp add: np)
qed

lemma setup_kstack_ok:
  assumes "pt_inv D (ps s)" "default_alloc_pages KSTACKPAGE (pm (ps s)) = Some (Some k, x)"
  shows "setup_kstack proc s = Some (Inr (), set_proc proc (\<lambda>p. p\<lparr>p_kstack := of_nat (kva k)\<rparr>) (s\<lparr>ps := (ps s)\<lparr>pm := x\<rparr>\<rparr>))"
proof -
  have n: "0 < KSTACKPAGE" by (simp add: KSTACKPAGE_def)
  note a = alloc_frames_ok [OF assms(1) n assms(2)]
  have "page2kva k ((ps s)\<lparr>pm := x\<rparr>) = Some (kva k)"
    using KADDR_page2pa [of k "(ps s)\<lparr>pm := x\<rparr>"] a(7) pt_invD(2) [OF a(1)] by (simp add: page2kva_def)
  moreover have "alloc_pages KSTACKPAGE (ps s) = Some (Some k, (ps s)\<lparr>pm := x\<rparr>)"
    using assms(2) by (subst alloc_pages.simps) simp
  ultimately show ?thesis by (simp add: setup_kstack_def on_ps_def)
qed

lemma copy_files_ok:
  assumes f: "p_filesp (this_proc s) = f" "f \<noteq> 0" "clone_flags AND CLONE_FS = 0" and blk: "kanswers (ps s) = Some f' # rest" "f' \<noteq> 0" "f' \<noteq> f"
    and q: "fd_quiet (fl_array (ftab s f))" "0 < fl_count (ftab s f)" "length (fl_array (ftab s f')) = FILES_STRUCT_NENTRY"
  obtains dst v where "copy_files clone_flags proc s = Some (Inr (), set_proc proc (\<lambda>p. p\<lparr>p_filesp := f'\<rparr>)
      (s\<lparr>ps := (ps s)\<lparr>kanswers := rest\<rparr>, vf := v, ftab := (ftab s)(f' := dst\<lparr>fl_count := 1\<rparr>)\<rparr>))"
    "fd_quiet (fl_array dst)" "fl_pwd dst = fl_pwd (ftab s f)"
    "\<forall>i < FILES_STRUCT_NENTRY. if status (fl_array (ftab s f) ! i) = FD_OPENED then fl_array dst ! i = fl_array (ftab s f) ! i else status (fl_array dst ! i) = FD_NONE"
proof -
  obtain dst v where r: "dup_files (files_create (fl_array (ftab s f'))) (ftab s f) (vf s) = Some (dst, v)" "fd_quiet (fl_array dst)" "fl_pwd dst = fl_pwd (ftab s f)"
    "\<forall>i < FILES_STRUCT_NENTRY. if status (fl_array (ftab s f) ! i) = FD_OPENED then fl_array dst ! i = fl_array (ftab s f) ! i else status (fl_array dst ! i) = FD_NONE"
    using dup_files_ok [OF q, of "vf s"] by blast
  have "fl_count dst = 0" using r(1) by (auto simp: dup_files_def files_create_def bind_eq_Some_conv)
  then have "copy_files clone_flags proc s = Some (Inr (), set_proc proc (\<lambda>p. p\<lparr>p_filesp := f'\<rparr>)
      (s\<lparr>ps := (ps s)\<lparr>kanswers := rest\<rparr>, vf := v, ftab := (ftab s)(f' := dst\<lparr>fl_count := 1\<rparr>)\<rparr>))"
    using f blk r(1) by (simp add: copy_files_def files_create_k_def kmalloc_k_def kmalloc_ans_def good_files_def Let_def)
  with r(2-4) show thesis using that by blast
qed

section \<open>Fork\<close>

lemma set_proc_simps [simp]:
  "tab (set_proc p f s) = upd_proc p f (tab s)" "ps (set_proc p f s) = ps s" "vf (set_proc p f s) = vf s" "ftab (set_proc p f s) = ftab s"
  "frames (set_proc p f s) = frames s" "mm_sems (set_proc p f s) = mm_sems s" "kfreed (set_proc p f s) = kfreed s"
  "boot_pgdir (set_proc p f s) = boot_pgdir s" "forkret_at (set_proc p f s) = forkret_at s"
  by (simp_all add: set_proc_def)

text \<open>A block that is not yet a process may be filled in without the table noticing.\<close>

lemma fill_fresh:
  fixes t :: proctab
  assumes t: "ptab_inv t" "sched_inv t" "family F t" and fr: "fresh_proc F proc t"
    and st: "p_state P = PROC_UNINIT" "\<not> p_rq P" "p_time_slice P = 0" "p_cptr P = 0"
  defines "t' \<equiv> upd_proc proc (\<lambda>_. P) t"
  shows "ptab_inv t'" "sched_inv t'" "family F t'" "find_proc i t' = find_proc i t"
proof -
  note fr = fr [unfolded fresh_proc_def]
  have l: "proc_list t' = proc_list t" "proctab.hash_list t' = proctab.hash_list t" "nr_process t' = nr_process t" "next_safe t' = next_safe t" "last_pid t' = last_pid t"
    and o: "\<And>q. q \<noteq> proc \<Longrightarrow> procs t' q = procs t q" "procs t' proc = P"
    by (simp_all add: t'_def upd_proc_def)
  have h: "procs t' q = procs t q" if "q \<in> set (proc_list t)" for q using that fr o(1) [of q] by blast
  have hk: "q \<in> set (proc_list t)" if "q \<in> set (proctab.hash_list t k)" for q k using that t(1) by (auto simp: ptab_inv_def hash_inv_def)
  have pp: "proc_pids t' = proc_pids t" by (simp add: proc_pids_def l h)
  have "{p \<in> set (proc_list t). pid_hashfn (p_pid (procs t' p)) = k} = {p \<in> set (proc_list t). pid_hashfn (p_pid (procs t p)) = k}" for k
    using h by auto
  then show "ptab_inv t'" using t(1) by (simp add: ptab_inv_def pid_inv_def hash_inv_def l pp)
  show "find_proc i t' = find_proc i t"
    unfolding find_proc_def l using h hk by (intro if_cong refl find_cong) auto
  show "sched_inv t'" using t(2) fr st by (auto simp: t'_def sched_inv_def rq_inv_def)
  show "family F t'"
    unfolding family_def
  proof
    fix q
    have "p_cptr (procs t' q) = p_cptr (procs t q)"
      using t(3) fr st(4) o by (cases "q = proc") (auto simp: family_def kids_def dest!: spec [of _ proc])
    moreover have "procs t' k = procs t k" if "k \<in> set (F q)" for k using that fr o(1) [of k] by blast
    ultimately show "kids (procs t') q (F q)" using t(3) kids_cong [of "F q" "procs t'" "procs t" q] by (simp add: family_def)
  qed
qed

lemma alloc_proc_ok:
  assumes "kanswers (ps s) = Some proc # Some f0 # rest"
  shows "alloc_proc s = (Some proc, set_proc proc (\<lambda>_. blank_proc\<lparr>p_pgdir := of_nat (boot_pgdir s), p_filesp := f0\<rparr>)
    (s\<lparr>ps := (ps s)\<lparr>kanswers := rest\<rparr>, ftab := (ftab s)(f0 := files_create (fl_array (ftab s f0)))\<rparr>))"
  using assms by (simp add: alloc_proc_def files_create_k_def kmalloc_k_def kmalloc_ans_def set_proc_def upd_proc_def blank_proc_def Let_def)

lemma upd_proc_fuse [simp]: "upd_proc p g (upd_proc p (\<lambda>_. P) t) = upd_proc p (\<lambda>_. g P) t"
  by (simp add: upd_proc_def)

text \<open>The structure, the stack and the address space of the child.\<close>

lemma fork_memory:
  assumes up: "user_process D d s" and fb: "fresh_blocks f0 mm' bs f' s" and pc: "proc \<noteq> current (tab s)" and fl: "clone_flags AND CLONE_VM = 0"
    and blk: "kanswers (ps s) = Some proc # Some f0 # Some mm' # map Some bs @ rest"
    and b: "boot_pgdir s = kva b" "b \<in> taken (pm (ps s))" "\<And>i. i < 512 \<Longrightarrow> tbl (km (ps s)) b i = None"
    and st: "default_alloc_pages KSTACKPAGE (pm (ps s)) = Some (Some k, x)"
    and room: "2 * card (mapped_pages d s) + 3 \<le> card (free_set (pm (ps s)))"
  obtains s1 s2 s3 q where "alloc_proc s = (Some proc, s1)" "this_proc s1 = this_proc s" "current (tab s1) = current (tab s)"
    "setup_kstack proc (set_proc proc (\<lambda>p. p\<lparr>p_parent := current (tab s)\<rparr>) s1) = Some (Inr (), s2)"
    "copy_mm clone_flags proc s2 = Some (Inr (), s3)"
    "tab s3 = upd_proc proc (\<lambda>_. blank_proc\<lparr>p_filesp := f0, p_parent := current (tab s), p_kstack := of_nat (kva k), p_mm := mm', p_pgdir := of_nat (kva q)\<rparr>) (tab s)"
    "space_copied D d q (my_pages s) ((ps s)\<lparr>pm := x\<rparr>) (ps s3)" "kanswers (ps s3) = rest" "mm_inv (ps s3) mm'"
    "area_set (ps s3) mm' = area_set (ps s) (p_mm (this_proc s))" "area_set (ps s3) (p_mm (this_proc s)) = area_set (ps s) (p_mm (this_proc s))"
    "mm_pgdir (mms (ps s3) mm') = Some (kva q)" "mm_count (mms (ps s3) mm') = 1" "ftab s3 = (ftab s)(f0 := files_create (fl_array (ftab s f0)))"
    "vf s3 = vf s" "kfreed s3 = kfreed s" "frames s3 = frames s" "forkret_at s3 = forkret_at s"
proof -
  let ?mm = "p_mm (this_proc s)"
  let ?l = "mmap_list (mms (ps s) ?mm)"
  note U = up [unfolded user_process_def Let_def] and B = fb [unfolded fresh_blocks_def Let_def]
  define s1 where "s1 = set_proc proc (\<lambda>_. blank_proc\<lparr>p_pgdir := of_nat (boot_pgdir s), p_filesp := f0\<rparr>)
    (s\<lparr>ps := (ps s)\<lparr>kanswers := Some mm' # map Some bs @ rest\<rparr>, ftab := (ftab s)(f0 := files_create (fl_array (ftab s f0)))\<rparr>)"
  define s1' where "s1' = set_proc proc (\<lambda>p. p\<lparr>p_parent := current (tab s)\<rparr>) s1"
  define s2 where "s2 = set_proc proc (\<lambda>p. p\<lparr>p_kstack := of_nat (kva k)\<rparr>) (s1'\<lparr>ps := (ps s1')\<lparr>pm := x\<rparr>\<rparr>)"
  have a1: "alloc_proc s = (Some proc, s1)" "this_proc s1 = this_proc s" "current (tab s1) = current (tab s)"
    unfolding s1_def by (rule alloc_proc_ok) (use pc in \<open>auto simp: blk\<close>)
  have f1: "pm (ps s1') = pm (ps s)" "km (ps s1') = km (ps s)" by (simp_all add: s1'_def s1_def)
  have n: "0 < KSTACKPAGE" by (simp add: KSTACKPAGE_def)
  have inv: "pt_inv D (ps s)" using U by blast
  note fr = alloc_frames_ok [OF inv n st]
  have a2: "setup_kstack proc s1' = Some (Inr (), s2)"
    unfolding s2_def by (rule setup_kstack_ok) (use inv st f1 pt_inv_cong [OF f1] in simp_all)
  have f2: "tab s2 = upd_proc proc (\<lambda>_. blank_proc\<lparr>p_pgdir := of_nat (boot_pgdir s), p_filesp := f0, p_parent := current (tab s), p_kstack := of_nat (kva k)\<rparr>) (tab s)"
    "ps s2 = (ps s)\<lparr>kanswers := Some mm' # map Some bs @ rest, pm := x\<rparr>" "mm_sems s2 = mm_sems s" "boot_pgdir s2 = kva b"
    "ftab s2 = (ftab s)(f0 := files_create (fl_array (ftab s f0)))" "vf s2 = vf s" "kfreed s2 = kfreed s" "frames s2 = frames s" "forkret_at s2 = forkret_at s"
    using b(1) by (simp_all add: s2_def s1'_def s1_def)
  have t2: "this_proc s2 = this_proc s" using pc f2(1) by simp
  have room2: "2 * card {v \<in> my_pages s. pmap (km (ps s2)) d v \<noteq> None} + 1 \<le> card (free_set x)"
  proof -
    have "finite (free_set (pm (ps s)))" using room card.infinite by fastforce
    with fr(2,3) have "card (free_set x) + 2 = card (free_set (pm (ps s)))"
      using card_Diff_subset [of "{k..<k + KSTACKPAGE}" "free_set (pm (ps s))"] card_mono [of "free_set (pm (ps s))" "{k..<k + KSTACKPAGE}"] by (simp add: KSTACKPAGE_def)
    with room show ?thesis by (simp add: mapped_pages_def f2(2))
  qed
  have pt2: "pt_inv D (ps s2)" using fr(1) pt_inv_cong [of "ps s2" "(ps s)\<lparr>pm := x\<rparr>" D] by (simp add: f2(2))
  have V: "area_pages (ps s2) ?l = my_pages s" "aligned (ps s2) ?l" "mm_inv (ps s2) ?mm" "area_set (ps s2) ?mm = area_set (ps s) ?mm"
    "mms (ps s2) = mms (ps s)" "Mmu.cur_pgdir (ps s2) = Some (kva d)" "mm_pgdir (mms (ps s2) ?mm) = Some (kva d)" "d \<in> D"
    using U by (simp_all add: f2(2) area_pages_def aligned_def my_pages_def mm_inv_def area_set_def)
  obtain q p where c: "copy_mm clone_flags proc s2 = Some (Inr (), set_proc proc (\<lambda>x. x\<lparr>p_mm := mm', p_pgdir := of_nat (kva q)\<rparr>) (s2\<lparr>mm_sems := (mm_sems s2)(mm' := 1), ps := p\<rparr>))"
    "space_copied D d q (my_pages s) (ps s2) p" "kanswers p = rest" "mm_inv p mm'" "area_set p mm' = area_set (ps s2) ?mm"
    "area_set p ?mm = area_set (ps s2) ?mm" "mm_pgdir (mms p mm') = Some (kva q)" "mm_count (mms p mm') = 1"
  proof (rule copy_mm_ok [of s2 ?mm clone_flags mm' D d bs rest b proc, unfolded V(5) V(1)])
    show "tbl (km (ps s2)) b i = None" if "i < 512" for i using b(3) [OF that] by (simp add: f2(2))
    show "b \<in> taken (pm (ps s2))" using b(2) fr(4) by (auto simp: f2(2))
  qed (use U B fl t2 pt2 V f2 room2 in simp_all)
  define s3 where "s3 = set_proc proc (\<lambda>x. x\<lparr>p_mm := mm', p_pgdir := of_nat (kva q)\<rparr>) (s2\<lparr>mm_sems := (mm_sems s2)(mm' := 1), ps := p\<rparr>)"
  have "space_copied D d q (my_pages s) ((ps s)\<lparr>pm := x\<rparr>) (ps s3)"
    by (rule space_copied_mono [OF c(2)]) (simp_all add: f2(2) s3_def)
  moreover have "tab s3 = upd_proc proc (\<lambda>_. blank_proc\<lparr>p_filesp := f0, p_parent := current (tab s), p_kstack := of_nat (kva k), p_mm := mm', p_pgdir := of_nat (kva q)\<rparr>) (tab s)"
    by (simp add: s3_def f2(1) blank_proc_def)
  ultimately show thesis
    using that [OF a1 a2 [unfolded s1'_def] c(1) [folded s3_def]] c(3-8) V(4) by (simp add: s3_def f2)
qed

text \<open>Everything up to the trap frame.\<close>

lemma fork_parts:
  assumes up: "user_process D d s" and fb: "fresh_blocks f0 mm' bs f' s" and pc: "proc \<noteq> current (tab s)"
    and fl: "clone_flags AND CLONE_VM = 0" "clone_flags AND CLONE_FS = 0"
    and blk: "kanswers (ps s) = Some proc # Some f0 # Some mm' # map Some bs @ Some f' # rest"
    and b: "boot_pgdir s = kva b" "b \<in> taken (pm (ps s))" "\<And>i. i < 512 \<Longrightarrow> tbl (km (ps s)) b i = None"
    and st: "default_alloc_pages KSTACKPAGE (pm (ps s)) = Some (Some k, x)"
    and room: "2 * card (mapped_pages d s) + 3 \<le> card (free_set (pm (ps s)))"
  obtains s1 s2 s3 s4 q where "alloc_proc s = (Some proc, s1)" "this_proc s1 = this_proc s" "current (tab s1) = current (tab s)"
    "setup_kstack proc (set_proc proc (\<lambda>p. p\<lparr>p_parent := current (tab s)\<rparr>) s1) = Some (Inr (), s2)"
    "copy_mm clone_flags proc s2 = Some (Inr (), s3)" "copy_files clone_flags proc s3 = Some (Inr (), s4)"
    "tab s4 = upd_proc proc (\<lambda>_. blank_proc\<lparr>p_parent := current (tab s), p_kstack := of_nat (kva k), p_mm := mm', p_pgdir := of_nat (kva q), p_filesp := f'\<rparr>) (tab s)"
    "space_copied D d q (my_pages s) ((ps s)\<lparr>pm := x\<rparr>) (ps s4)" "mm_inv (ps s4) mm'"
    "area_set (ps s4) mm' = area_set (ps s) (p_mm (this_proc s))" "area_set (ps s4) (p_mm (this_proc s)) = area_set (ps s) (p_mm (this_proc s))"
    "mm_pgdir (mms (ps s4) mm') = Some (kva q)" "mm_count (mms (ps s4) mm') = 1" "ftab s4 (p_filesp (this_proc s)) = ftab s (p_filesp (this_proc s))"
    "files_copied (ftab s (p_filesp (this_proc s))) (ftab s4 f')" "kfreed s4 = kfreed s" "frames s4 = frames s" "forkret_at s4 = forkret_at s"
proof -
  let ?f = "p_filesp (this_proc s)"
  note U = up [unfolded user_process_def Let_def] and B = fb [unfolded fresh_blocks_def Let_def]
  obtain s1 s2 s3 q where a: "alloc_proc s = (Some proc, s1)" "this_proc s1 = this_proc s" "current (tab s1) = current (tab s)"
    "setup_kstack proc (set_proc proc (\<lambda>p. p\<lparr>p_parent := current (tab s)\<rparr>) s1) = Some (Inr (), s2)"
    "copy_mm clone_flags proc s2 = Some (Inr (), s3)"
    and tab3: "tab s3 = upd_proc proc (\<lambda>_. blank_proc\<lparr>p_filesp := f0, p_parent := current (tab s), p_kstack := of_nat (kva k), p_mm := mm', p_pgdir := of_nat (kva q)\<rparr>) (tab s)"
    and c: "space_copied D d q (my_pages s) ((ps s)\<lparr>pm := x\<rparr>) (ps s3)" "kanswers (ps s3) = Some f' # rest" "mm_inv (ps s3) mm'"
    "area_set (ps s3) mm' = area_set (ps s) (p_mm (this_proc s))" "area_set (ps s3) (p_mm (this_proc s)) = area_set (ps s) (p_mm (this_proc s))"
    "mm_pgdir (mms (ps s3) mm') = Some (kva q)" "mm_count (mms (ps s3) mm') = 1"
    and f3: "ftab s3 = (ftab s)(f0 := files_create (fl_array (ftab s f0)))" "vf s3 = vf s" "kfreed s3 = kfreed s" "frames s3 = frames s" "forkret_at s3 = forkret_at s"
    by (rule fork_memory [OF up fb pc fl(1) blk b st room])
  have t3: "this_proc s3 = this_proc s" using pc tab3 by simp
  have old: "ftab s3 ?f = ftab s ?f" "fl_array (ftab s3 f') = fl_array (ftab s f')" using B by (simp_all add: f3)
  obtain dst v where w: "copy_files clone_flags proc s3 = Some (Inr (), set_proc proc (\<lambda>p. p\<lparr>p_filesp := f'\<rparr>)
      (s3\<lparr>ps := (ps s3)\<lparr>kanswers := rest\<rparr>, vf := v, ftab := (ftab s3)(f' := dst\<lparr>fl_count := 1\<rparr>)\<rparr>))"
    "fd_quiet (fl_array dst)" "fl_pwd dst = fl_pwd (ftab s ?f)"
    "\<forall>i < FILES_STRUCT_NENTRY. if status (fl_array (ftab s ?f) ! i) = FD_OPENED then fl_array dst ! i = fl_array (ftab s ?f) ! i else status (fl_array dst ! i) = FD_NONE"
    by (rule copy_files_ok [of s3 ?f clone_flags f' rest proc, unfolded old]) (use t3 U B fl(2) c(2) in simp_all)
  define s4 where "s4 = set_proc proc (\<lambda>p. p\<lparr>p_filesp := f'\<rparr>)
      (s3\<lparr>ps := (ps s3)\<lparr>kanswers := rest\<rparr>, vf := v, ftab := (ftab s3)(f' := dst\<lparr>fl_count := 1\<rparr>)\<rparr>)"
  have "tab s4 = upd_proc proc (\<lambda>_. blank_proc\<lparr>p_parent := current (tab s), p_kstack := of_nat (kva k), p_mm := mm', p_pgdir := of_nat (kva q), p_filesp := f'\<rparr>) (tab s)"
    by (simp add: s4_def tab3 blank_proc_def)
  moreover have "space_copied D d q (my_pages s) ((ps s)\<lparr>pm := x\<rparr>) (ps s4)"
    by (rule space_copied_mono [OF c(1)]) (simp_all add: s4_def)
  moreover have "files_copied (ftab s ?f) (ftab s4 f')" using w(2-4) by (simp add: s4_def files_copied_def)
  moreover have "mm_inv (ps s4) mm = mm_inv (ps s3) mm" "area_set (ps s4) mm = area_set (ps s3) mm" for mm by (simp_all add: s4_def mm_inv_def area_set_def)
  ultimately show thesis
    using that [OF a w(1) [folded s4_def]] c(3-7) B f3(3-5) old by (simp add: s4_def)
qed

text \<open>The end of a fork: the trap frame, the pid, the links and the run queue.\<close>

lemma fork_finish:
  assumes inv: "ptab_inv (tab s)" "sched_inv (tab s)" "family F (tab s)" "nr_process (tab s) < MAX_PROCESS" "p_wait_state (this_proc s) = 0" and fr: "fresh_proc F proc (tab s)"
    and a: "alloc_proc s = (Some proc, s1)" "this_proc s1 = this_proc s" "current (tab s1) = current (tab s)"
    "setup_kstack proc (set_proc proc (\<lambda>p. p\<lparr>p_parent := current (tab s)\<rparr>) s1) = Some (Inr (), s2)"
    "copy_mm clone_flags proc s2 = Some (Inr (), s3)" "copy_files clone_flags proc s3 = Some (Inr (), s4)"
    and tab4: "tab s4 = upd_proc proc (\<lambda>_. blank_proc\<lparr>p_parent := current (tab s), p_kstack := ks, p_mm := mm, p_pgdir := dir, p_filesp := f\<rparr>) (tab s)"
  defines "a \<equiv> ks + KSTACKSIZE - SIZEOF_TRAPFRAME"
  obtains pid t1 t2 where "do_fork clone_flags stack tf s =
      Some (Inr pid, s4\<lparr>tab := t2, frames := (frames s4)(a := tf\<lparr>tf_regs := (tf_regs tf)(REG_v0 := 0, REG_sp := stack), tf_Status := tf_Status tf OR 3\<rparr>)\<rparr>)"
    "ptab_inv t2" "sched_inv t2" "find_proc pid (tab s) = None" "\<forall>i. find_proc i t2 = (if i = pid then Some proc else find_proc i (tab s))"
    "family (F(current (tab s) := proc # F (current (tab s)))) t2" "run_list t2 = run_list (tab s) @ [proc]" "current t2 = current (tab s)"
    "p_state (procs t2 proc) = PROC_RUNNABLE" "owned (procs t2 proc) = (ks, mm, dir, a, (p_context blank_proc)\<lparr>ctx_ra := forkret_at s4, ctx_sp := a\<rparr>, f)"
    "\<forall>p. p \<noteq> proc \<longrightarrow> owned (procs t2 p) = owned (procs (tab s) p)" "\<exists>P. enter_proc proc (upd_proc proc (\<lambda>_. P) (tab s)) = Some (pid, t1)" "wakeup_proc proc t1 = Some t2"
proof -
  note f = fr [unfolded fresh_proc_def]
  define s5 where "s5 = copy_thread proc stack tf s4"
  obtain P where P: "tab s5 = upd_proc proc (\<lambda>_. P) (tab s)" "p_state P = PROC_UNINIT" "\<not> p_rq P" "p_time_slice P = 0" "p_cptr P = 0" "p_parent P = current (tab s)"
    "owned P = (ks, mm, dir, a, (p_context blank_proc)\<lparr>ctx_ra := forkret_at s4, ctx_sp := a\<rparr>, f)"
    using tab4 by (simp add: s5_def copy_thread_def Let_def blank_proc_def owned_def a_def)
  note t5 = fill_fresh [OF inv(1-3) fr P(2-5), folded P(1)]
  have l5: "nr_process (tab s5) = nr_process (tab s)" "proc_list (tab s5) = proc_list (tab s)" "current (tab s5) = current (tab s)"
    "procs (tab s5) proc = P" "p_parent P = current (tab s)" "run_list (tab s5) = run_list (tab s)"
    using P(1,6) by (simp_all add: upd_proc_def)
  obtain pid t1 t2 where e: "enter_proc proc (tab s5) = Some (pid, t1)" "wakeup_proc proc t1 = Some t2" "ptab_inv t2" "sched_inv t2"
    "find_proc pid (tab s5) = None" "\<And>i. find_proc i t2 = (if i = pid then Some proc else find_proc i (tab s5))"
    "family (F(current (tab s) := proc # F (current (tab s)))) t2" "run_list t2 = run_list (tab s) @ [proc]"
    "current t2 = current (tab s)" "p_state (procs t2 proc) = PROC_RUNNABLE" "\<And>p. owned (procs t2 p) = owned (procs (tab s5) p)"
    by (rule enter_child [OF t5(1,2) _ t5(3), of proc, unfolded l5]) (use f inv(4) P(2) in \<open>simp_all add: l5\<close>)
  have "do_fork clone_flags stack tf s = Some (Inr pid, s5\<lparr>tab := t2\<rparr>)"
    using a inv(4,5) e(1,2) by (simp add: do_fork_def s5_def [symmetric])
  moreover have "s5\<lparr>tab := t2\<rparr> = s4\<lparr>tab := t2, frames := (frames s4)(a := tf\<lparr>tf_regs := (tf_regs tf)(REG_v0 := 0, REG_sp := stack), tf_Status := tf_Status tf OR 3\<rparr>)\<rparr>"
    using tab4 by (cases s4) (simp add: s5_def copy_thread_def Let_def set_proc_def a_def)
  ultimately have f: "do_fork clone_flags stack tf s = Some (Inr pid, s4\<lparr>tab := t2, frames := (frames s4)(a := tf\<lparr>tf_regs := (tf_regs tf)(REG_v0 := 0, REG_sp := stack), tf_Status := tf_Status tf OR 3\<rparr>)\<rparr>)"
    by simp
  have fp: "find_proc pid (tab s) = None" "\<forall>i. find_proc i t2 = (if i = pid then Some proc else find_proc i (tab s))" using e(5,6) t5(4) by simp_all
  have ow: "owned (procs t2 proc) = (ks, mm, dir, a, (p_context blank_proc)\<lparr>ctx_ra := forkret_at s4, ctx_sp := a\<rparr>, f)" using e(11) [of proc] l5(4) P(7) by simp
  have oth: "\<forall>p. p \<noteq> proc \<longrightarrow> owned (procs t2 p) = owned (procs (tab s) p)" using e(11) P(1) by simp
  have en: "\<exists>P. enter_proc proc (upd_proc proc (\<lambda>_. P) (tab s)) = Some (pid, t1)" using e(1) P(1) by auto
  show thesis by (rule that [OF f e(3,4) fp e(7-10) ow oth en e(2)])
qed

section \<open>The example\<close>

lemma demo_kernel_fields [simp]:
  "pm (ps demo_kernel) = demo_pmm" "km (ps demo_kernel) = demo_mem" "Mmu.cur_pgdir (ps demo_kernel) = Some (kva 2)" "mms (ps demo_kernel) = mms demo_space"
  "vmas (ps demo_kernel) = vmas demo_space" "kanswers (ps demo_kernel) = [Some 20, Some 31, Some 8, Some 9, Some 32]" "boot_pgdir demo_kernel = kva 0"
  "current (tab demo_kernel) = 2" "p_mm (procs (tab demo_kernel) 2) = 6" "p_filesp (procs (tab demo_kernel) 2) = 30" "p_wait_state (procs (tab demo_kernel) 2) = 0" "mm_sems demo_kernel = (\<lambda>_. 1)"
  "idleproc (tab demo_kernel) = 1" "proc_list (tab demo_kernel) = [4, 3]" "run_list (tab demo_kernel) = [3]" "nr_process (tab demo_kernel) = 3"
  by (simp_all add: demo_kernel_def two_procs_def upd_proc_def blank_proc_def)

lemma demo_kernel_tab:
  "ptab_inv (tab demo_kernel)" "sched_inv (tab demo_kernel)" "family ((\<lambda>_. [])(3 := [4])) (tab demo_kernel)" "fresh_proc ((\<lambda>_. [])(3 := [4])) 20 (tab demo_kernel)"
proof -
  have p: "tab demo_kernel = upd_proc 2 (\<lambda>p. p\<lparr>p_mm := 6, p_filesp := 30\<rparr>) two_procs" by (simp add: demo_kernel_def)
  show "ptab_inv (tab demo_kernel)" unfolding p by (subst ptab_inv_cong(1) [of _ two_procs]) (simp_all add: two_procs_inv upd_proc_def)
  show "sched_inv (tab demo_kernel)" unfolding p by (subst sched_inv_fields [of _ two_procs]) (simp_all add: two_procs_inv)
  show "family ((\<lambda>_. [])(3 := [4])) (tab demo_kernel)" unfolding p by (subst family_cong [of _ two_procs]) (simp_all add: two_procs_family)
qed (simp add: fresh_proc_def)

lemma demo_kernel_pages: "my_pages demo_kernel = {512}" "mapped_pages 2 demo_kernel = {512}"
proof -
  show m: "my_pages demo_kernel = {512}" using demo_space_fields(5) by (simp add: my_pages_def area_pages_def)
  show "mapped_pages 2 demo_kernel = {512}" by (auto simp: mapped_pages_def m demo_pmap user_pages_def)
qed

lemma demo_kernel_user: "user_process {2, 3} 2 demo_kernel" "fresh_blocks 31 8 [9] 32 demo_kernel"
proof -
  have f: "ftab demo_kernel f = \<lparr>fl_pwd = Some 3, fl_array = fd_array demo_vfs, fl_count = 2\<rparr>" for f by (simp add: demo_kernel_def)
  have l: "length (fd_array demo_vfs) = FILES_STRUCT_NENTRY" "fd_quiet (fd_array demo_vfs)" using fd_quiet_init [of "replicate FILES_STRUCT_NENTRY blank_file"] by (simp_all add: demo_vfs_def fd_array_init_def)
  have "pt_inv {2, 3} (ps demo_kernel)" using demo_space_ok(1) pt_inv_cong [of "ps demo_kernel" demo_space] by simp
  moreover have "mm_inv (ps demo_kernel) 6" "aligned (ps demo_kernel) [7]" using demo_space_ok(2,3) by (simp_all add: mm_inv_def aligned_def)
  ultimately show "user_process {2, 3} 2 demo_kernel" using l by (simp add: user_process_def f)
  show "fresh_blocks 31 8 [9] 32 demo_kernel" using l by (simp add: fresh_blocks_def f)
qed

lemma demo_kernel_stack: "default_alloc_pages KSTACKPAGE demo_pmm = Some (Some 6, take_block demo_pmm 6 2)"
  by (simp add: default_alloc_pages_eq KSTACKPAGE_def) (simp add: demo_pmm_def)

section \<open>Main results\<close>

text \<open>
  C1. \<open>do_fork\<close> makes a child that is a copy of the calling process. For a user process (without the flags that share the address space or the
  files), when \<open>kmalloc\<close> has the blocks, a stack of two frames is free and there are two frames for every mapped page and one more, the call returns
  a pid that no process had, under which the table finds the child and nobody else; the child is the youngest child of the caller and is the last in the run
  queue, so it will run. It returns to user mode with the registers of the caller, but the value 0 and the given stack. Its page directory is new and maps
  a copy of every mapped page of the caller in frames that were free and are not the stack, with the same areas; it has the open files and the working
  directory of the caller. The caller keeps its address space, files and pages, and so does every other process. (The table of files that \<open>alloc_proc\<close>
  has made is not freed.)
\<close>

theorem do_fork_correct:
  assumes "ptab_inv (tab s)" "sched_inv (tab s)" "family F (tab s)" "nr_process (tab s) < MAX_PROCESS" "p_wait_state (this_proc s) = 0"
    and "user_process D d s" "clone_flags AND CLONE_VM = 0" "clone_flags AND CLONE_FS = 0"
    and "kanswers (ps s) = Some proc # Some f0 # Some mm # map Some bs @ Some f # rest" "fresh_proc F proc (tab s)" "fresh_blocks f0 mm bs f s"
    and "boot_pgdir s = kva b" "b \<in> taken (pm (ps s))" "\<And>i. i < 512 \<Longrightarrow> tbl (km (ps s)) b i = None"
    and "default_alloc_pages KSTACKPAGE (pm (ps s)) = Some (Some k, x)" "2 * card (mapped_pages d s) + 3 \<le> card (free_set (pm (ps s)))"
  shows "\<exists>pid q s'. do_fork clone_flags stack tf s = Some (Inr pid, s') \<and>
    find_proc pid (tab s) = None \<and> (\<forall>i. find_proc i (tab s') = (if i = pid then Some proc else find_proc i (tab s))) \<and>
    ptab_inv (tab s') \<and> sched_inv (tab s') \<and> family (F(current (tab s) := proc # F (current (tab s)))) (tab s') \<and>
    current (tab s') = current (tab s) \<and> run_list (tab s') = run_list (tab s) @ [proc] \<and>
    (let c = procs (tab s') proc
     in p_state c = PROC_RUNNABLE \<and> p_kstack c = of_nat (kva k) \<and> p_tf c = of_nat (kva k) + KSTACKSIZE - SIZEOF_TRAPFRAME \<and>
        ctx_ra (p_context c) = forkret_at s \<and> ctx_sp (p_context c) = p_tf c \<and>
        frames s' (p_tf c) = tf\<lparr>tf_regs := (tf_regs tf)(REG_v0 := 0, REG_sp := stack), tf_Status := tf_Status tf OR 3\<rparr> \<and>
        p_mm c = mm \<and> p_pgdir c = of_nat (kva q) \<and> p_filesp c = f) \<and>
    space_copied D d q (my_pages s) ((ps s)\<lparr>pm := x\<rparr>) (ps s') \<and> free_set x = free_set (pm (ps s)) - {k, k + 1} \<and>
    mm_inv (ps s') mm \<and> mm_count (mms (ps s') mm) = 1 \<and> mm_pgdir (mms (ps s') mm) = Some (kva q) \<and>
    area_set (ps s') mm = area_set (ps s) (p_mm (this_proc s)) \<and> files_copied (ftab s (p_filesp (this_proc s))) (ftab s' f) \<and>
    area_set (ps s') (p_mm (this_proc s)) = area_set (ps s) (p_mm (this_proc s)) \<and>
    ftab s' (p_filesp (this_proc s)) = ftab s (p_filesp (this_proc s)) \<and>
    (\<forall>p. p \<noteq> proc \<longrightarrow> owned (procs (tab s') p) = owned (procs (tab s) p)) \<and> kfreed s' = kfreed s"
proof -
  note fr = assms(10) [unfolded fresh_proc_def]
  obtain s1 s2 s3 s4 q where a: "alloc_proc s = (Some proc, s1)" "this_proc s1 = this_proc s" "current (tab s1) = current (tab s)"
    "setup_kstack proc (set_proc proc (\<lambda>p. p\<lparr>p_parent := current (tab s)\<rparr>) s1) = Some (Inr (), s2)"
    "copy_mm clone_flags proc s2 = Some (Inr (), s3)" "copy_files clone_flags proc s3 = Some (Inr (), s4)"
    and tab4: "tab s4 = upd_proc proc (\<lambda>_. blank_proc\<lparr>p_parent := current (tab s), p_kstack := of_nat (kva k), p_mm := mm, p_pgdir := of_nat (kva q), p_filesp := f\<rparr>) (tab s)"
    and c: "space_copied D d q (my_pages s) ((ps s)\<lparr>pm := x\<rparr>) (ps s4)" "mm_inv (ps s4) mm"
    "area_set (ps s4) mm = area_set (ps s) (p_mm (this_proc s))" "area_set (ps s4) (p_mm (this_proc s)) = area_set (ps s) (p_mm (this_proc s))"
    "mm_pgdir (mms (ps s4) mm) = Some (kva q)" "mm_count (mms (ps s4) mm) = 1" "ftab s4 (p_filesp (this_proc s)) = ftab s (p_filesp (this_proc s))"
    "files_copied (ftab s (p_filesp (this_proc s))) (ftab s4 f)" "kfreed s4 = kfreed s" "frames s4 = frames s" "forkret_at s4 = forkret_at s"
    by (rule fork_parts [OF assms(6,11) _ assms(7-9,12-16)]) (use fr in blast)+
  obtain pid t1 t2 where e: "do_fork clone_flags stack tf s = Some (Inr pid, s4\<lparr>tab := t2, frames := (frames s4)(of_nat (kva k) + KSTACKSIZE - SIZEOF_TRAPFRAME :=
      tf\<lparr>tf_regs := (tf_regs tf)(REG_v0 := 0, REG_sp := stack), tf_Status := tf_Status tf OR 3\<rparr>)\<rparr>)"
    "ptab_inv t2" "sched_inv t2" "find_proc pid (tab s) = None" "\<forall>i. find_proc i t2 = (if i = pid then Some proc else find_proc i (tab s))"
    "family (F(current (tab s) := proc # F (current (tab s)))) t2" "run_list t2 = run_list (tab s) @ [proc]" "current t2 = current (tab s)" "p_state (procs t2 proc) = PROC_RUNNABLE"
    "owned (procs t2 proc) = (of_nat (kva k), mm, of_nat (kva q), of_nat (kva k) + KSTACKSIZE - SIZEOF_TRAPFRAME,
       (p_context blank_proc)\<lparr>ctx_ra := forkret_at s4, ctx_sp := of_nat (kva k) + KSTACKSIZE - SIZEOF_TRAPFRAME\<rparr>, f)"
    "\<forall>p. p \<noteq> proc \<longrightarrow> owned (procs t2 p) = owned (procs (tab s) p)"
    by (rule fork_finish [OF assms(1-5,10) a tab4])
  have "free_set x = free_set (pm (ps s)) - {k, k + 1}"
  proof -
    have "pt_inv D (ps s)" using assms(6) by (simp add: user_process_def Let_def)
    moreover have "{k..<k + KSTACKPAGE} = {k, k + 1}" by (auto simp: KSTACKPAGE_def)
    ultimately show ?thesis using alloc_frames_ok(2) [of D "ps s" KSTACKPAGE k x] assms(15) by (simp add: KSTACKPAGE_def)
  qed
  with e show ?thesis
    using c by (intro exI [of _ pid] exI [of _ q] exI) (auto simp: Let_def owned_def)
qed

theorem do_fork_correct_witness:
  "\<exists>pid q r s'. do_fork 0 0x7fffff00 (frames demo_kernel 0) demo_kernel = Some (Inr pid, s') \<and> find_proc pid (tab s') = Some 20 \<and>
     run_list (tab s') = [3, 20] \<and> family ((\<lambda>_. [])(3 := [4], 2 := [20])) (tab s') \<and> tf_regs (frames s' (p_tf (procs (tab s') 20))) REG_v0 = 0 \<and>
     p_pgdir (procs (tab s') 20) = of_nat (kva q) \<and> q \<in> {8..<12} \<and> pmap (km (ps s')) q 512 = Some (r, 7) \<and> r \<in> {8..<12}"
proof -
  have v: "512 < user_pages" by (simp add: user_pages_def)
  have t: "tbl demo_mem 0 i = None" if "i < 512" for i using demo_tbl [OF that, of 0] by simp
  have "free_set (take_block demo_pmm 6 2) = {8..<12}"
    by (auto simp: free_set_def take_block_def demo_pmm_def Let_def upd_page_def ClearPageProperty_def SetPageProperty_def)
  moreover obtain pid q s' where "do_fork 0 0x7fffff00 (frames demo_kernel 0) demo_kernel = Some (Inr pid, s')" "find_proc pid (tab s') = Some 20"
    "run_list (tab s') = [3, 20]" "family ((\<lambda>_. [])(3 := [4], 2 := [20])) (tab s')"
    "frames s' (p_tf (procs (tab s') 20)) = (frames demo_kernel 0)\<lparr>tf_regs := (tf_regs (frames demo_kernel 0))(REG_v0 := 0, REG_sp := 0x7fffff00), tf_Status := tf_Status (frames demo_kernel 0) OR 3\<rparr>"
    "p_pgdir (procs (tab s') 20) = of_nat (kva q)" and c: "space_copied {2, 3} 2 q {512} ((ps demo_kernel)\<lparr>pm := take_block demo_pmm 6 2\<rparr>) (ps s')"
    using do_fork_correct [OF demo_kernel_tab(1-3) _ _ demo_kernel_user(1) _ _ _ demo_kernel_tab(4) demo_kernel_user(2),
      of 0 "[]" 0 6 "take_block demo_pmm 6 2" "0x7fffff00" "frames demo_kernel 0"] demo_kernel_stack t
    by (simp add: demo_kernel_pages demo_sets MAX_PROCESS_def Let_def) metis
  moreover have m: "pmap (km ((ps demo_kernel)\<lparr>pm := take_block demo_pmm 6 2\<rparr>)) 2 512 = Some (5, 7)" using demo_pmap [OF v, of 2] by simp
  obtain r where "pmap (km (ps s')) q 512 = Some (r, 7)" "r \<in> free_set (take_block demo_pmm 6 2)" "q \<in> free_set (take_block demo_pmm 6 2)"
    using space_copiedD [OF c v _ m] by auto
  ultimately show ?thesis by (intro exI [of _ pid] exI [of _ q] exI [of _ r] exI [of _ s']) (simp add: REG_v0_def REG_sp_def)
qed

end
