(* ===== verification/ProcessExit.thy ===== *)
theory ProcessExit
  imports Process
begin

text \<open>
  The end of a process: \<open>do_exit\<close> gives back what the process had, makes it a zombie and runs another process; \<open>do_wait\<close> of its parent removes it
  (\<^verbatim>\<open>kern/process/proc.c\<close>; the definitions are in theory \<open>Process\<close>).
\<close>

section \<open>Specification\<close>

text \<open>The directory \<open>d\<close> is gone; it, its tables and the pages that only it mapped are free; the other address spaces are as before.\<close>

definition space_freed :: "nat set \<Rightarrow> nat \<Rightarrow> pstate \<Rightarrow> pstate \<Rightarrow> bool" where
  "space_freed D d s s' \<longleftrightarrow> pt_inv (D - {d}) s' \<and>
     free_set (pm s') = free_set (pm s) \<union> {d} \<union> tables (km s) {d} \<union> own_pages D d s \<and>
     (\<forall>c \<in> D - {d}. \<forall>v < user_pages. pmap (km s') c v = pmap (km s) c v) \<and>
     (\<forall>p j. p \<notin> {d} \<union> tables (km s) {d} \<longrightarrow> j < 1024 \<longrightarrow> W (km s') p j = W (km s) p j)"

text \<open>The current process alone uses its address space, with the directory \<open>d\<close>, which maps nothing outside the areas.\<close>

definition sole_user :: "nat set \<Rightarrow> nat \<Rightarrow> kernel \<Rightarrow> bool" where
  "sole_user D d s \<longleftrightarrow>
     (let mm = p_mm (this_proc s)
      in mm \<noteq> 0 \<and> mm_count (mms (ps s) mm) = 1 \<and> mm_pgdir (mms (ps s) mm) = Some (kva d) \<and> pt_inv D (ps s) \<and> d \<in> D \<and>
         aligned (ps s) (mmap_list (mms (ps s) mm)) \<and> confined d (mmap_list (mms (ps s) mm)) (ps s))"

text \<open>What identifies a process for its parent.\<close>

definition ident :: "proc_struct \<Rightarrow> int \<times> int \<times> u32 \<times> addr \<times> u32 \<times> u32 \<times> kcontext \<times> addr" where
  "ident p = (p_pid p, p_exit_code p, owned p)"

text \<open>What the loop over the children keeps; only \<open>initproc\<close> may be woken.\<close>

definition exit_keeps :: "proctab \<Rightarrow> proctab \<Rightarrow> bool" where
  "exit_keeps t t' \<longleftrightarrow> sched.more t' = sched.more t \<and> idleproc t' = idleproc t \<and>
     (\<forall>q. ident (procs t' q) = ident (procs t q) \<and>
        (p_state (procs t' q) = p_state (procs t q) \<or> p_state (procs t' q) = PROC_RUNNABLE \<and> p_state (procs t q) \<noteq> PROC_ZOMBIE))"

text \<open>
  Two examples: the running process 2 of the example of theory \<open>Process\<close> as the only user of its address space and of its table of files, and the process 3 that will wait for the
  zombie 4, whose stack are the frames 0 and 1.
\<close>

definition demo_dying :: kernel where
  "demo_dying = demo_kernel\<lparr>ps := upd_mm 6 (\<lambda>m. m\<lparr>mm_count := 1\<rparr>) (ps demo_kernel),
     ftab := \<lambda>_. \<lparr>fl_pwd = None, fl_array = replicate FILES_STRUCT_NENTRY blank_file, fl_count = 1\<rparr>\<rparr>"

definition demo_waiting :: kernel where
  "demo_waiting = demo_kernel\<lparr>tab := (upd_proc 3 (\<lambda>p. p\<lparr>p_mm := 6\<rparr>)
     (upd_proc 4 (\<lambda>p. p\<lparr>p_kstack := of_nat (kva 0), p_exit_code := 9\<rparr>) two_procs))\<lparr>current := 3\<rparr>\<rparr>"

section \<open>The address space\<close>

lemma tlb_writes_same_env: "same_env s (fold (\<lambda>i. tlb_write i h l l') is s)" "km (fold (\<lambda>i. tlb_write i h l l') is s) = km s" "pm (fold (\<lambda>i. tlb_write i h l l') is s) = pm s"
proof (induction "is" arbitrary: s)
  case (Cons i ix)
  {
    case 1
    have "same_env s (tlb_write i h l l' s)" by (simp add: tlb_write_def same_env_def)
    then show ?case using same_env_trans [OF _ Cons(1)] by simp
  next
    case 2
    then show ?case using Cons(2) by (simp add: tlb_write_def)
  next
    case 3
    then show ?case using Cons(3) by (simp add: tlb_write_def)
  }
qed (simp_all add: same_env_def)

lemma load_pgdir_fields [simp]:
  "km (load_pgdir d s) = km s" "pm (load_pgdir d s) = pm s" "vmas (load_pgdir d s) = vmas s" "mms (load_pgdir d s) = mms s"
  "Mmu.cur_pgdir (load_pgdir d s) = d"
  by (simp_all add: load_pgdir_def tlb_init_def tlb_init_callback_def Let_def tlb_writes_same_env same_env_fields [OF tlb_writes_same_env(1)])

lemma leave_mm_ok:
  assumes u: "sole_user D d s" and b: "boot_pgdir s \<noteq> kva d"
  obtains p where "leave_mm s = Some (set_proc (current (tab s)) (\<lambda>x. x\<lparr>p_mm := 0\<rparr>)
      (s\<lparr>ps := p, kfreed := p_mm (this_proc s) # rev (mmap_list (mms (ps s) (p_mm (this_proc s)))) @ kfreed s\<rparr>))"
    "space_freed D d (ps s) p" "Mmu.cur_pgdir p = Some (boot_pgdir s)"
proof -
  let ?mm = "p_mm (this_proc s)"
  note U = u [unfolded sole_user_def Let_def]
  define p0 where "p0 = snd (mm_count_dec ?mm (load_pgdir (Some (boot_pgdir s)) (ps s)))"
  have f0: "km p0 = km (ps s)" "pm p0 = pm (ps s)" "vmas p0 = vmas (ps s)" "Mmu.cur_pgdir p0 = Some (boot_pgdir s)" "mmap_list (mms p0 ?mm) = mmap_list (mms (ps s) ?mm)"
    "mm_pgdir (mms p0 ?mm) = Some (kva d)" "mm_count (mms p0 ?mm) = 0" "mm_count_dec ?mm (load_pgdir (Some (boot_pgdir s)) (ps s)) = (0, p0)"
    using U by (simp_all add: p0_def mm_count_dec_def)
  have g: "pt_inv D p0" "aligned p0 (mmap_list (mms p0 ?mm))" "confined d (mmap_list (mms p0 ?mm)) p0" "own_pages D d p0 = own_pages D d (ps s)"
    using U pt_inv_cong [OF f0(2,1)] by (simp_all add: f0 aligned_def confined_def area_pages_def own_pages_def)
  have dD: "d \<in> D" using U by blast
  obtain p1 where p1: "exit_mmap ?mm p0 = Some p1" "same_env p0 p1" "pt_inv D p1" "npage (pm p1) = npage (pm p0)" "avail_set (pm p1) = avail_set (pm p0)"
    "free_set (pm p1) = free_set (pm p0) \<union> own_pages D d p0 \<union> tables (km p0) {d}"
    "\<And>i. i < 512 \<Longrightarrow> tbl (km p1) d i = None"
    "\<And>c v. c \<in> D \<Longrightarrow> c \<noteq> d \<Longrightarrow> v < user_pages \<Longrightarrow> pmap (km p1) c v = pmap (km p0) c v"
    "\<And>p j. j < 1024 \<Longrightarrow> p \<noteq> d \<Longrightarrow> p \<notin> tables (km p0) {d} \<Longrightarrow> W (km p1) p j = W (km p0) p j"
    by (rule exit_mmap_ok [OF g(1) dD f0(6,7) g(2,3)]) (use f0(4) b in auto)
  note e = same_env_fields [OF p1(2)]
  obtain x where x: "put_pgdir ?mm p1 = Some (p1\<lparr>pm := x\<rparr>)" "pt_inv (D - {d}) (p1\<lparr>pm := x\<rparr>)" "free_set x = insert d (free_set (pm p1))"
    by (rule put_pgdir_ok [OF p1(3) dD _ p1(7), of ?mm]) (use f0(6) e(3) in simp_all)
  define p where "p = upd_mm ?mm (\<lambda>m. m\<lparr>mmap_list := []\<rparr>) (p1\<lparr>pm := x\<rparr>)"
  have "mm_destroy ?mm (p1\<lparr>pm := x\<rparr>) = Some (mmap_list (mms (ps s) ?mm) @ [?mm], p)"
    using e(3) f0(5,7) by (simp add: mm_destroy_def p_def)
  with U f0(8) p1(1) x(1) have "leave_mm s = Some (set_proc (current (tab s)) (\<lambda>x. x\<lparr>p_mm := 0\<rparr>)
      (s\<lparr>ps := p, kfreed := ?mm # rev (mmap_list (mms (ps s) ?mm)) @ kfreed s\<rparr>))"
    by (simp add: leave_mm_def Let_def upd_ps_def mm_destroy_k_def on_ps_def)
  moreover have "space_freed D d (ps s) p"
    unfolding space_freed_def using x(2,3) p1(6,8,9) g(4) f0(1,2) by (auto simp: p_def)
  moreover have "Mmu.cur_pgdir p = Some (boot_pgdir s)" using e(1) f0(4) by (simp add: p_def)
  ultimately show thesis by (rule that)
qed

section \<open>The table\<close>

lemma ident_upd [simp]:
  "ident (p_yptr_update f x) = ident x" "ident (p_optr_update f x) = ident x" "ident (p_cptr_update f x) = ident x" "ident (p_parent_update f x) = ident x"
  "ident (p_state_update h x) = ident x" "ident (p_wait_state_update w x) = ident x" "ident (p_need_resched_update b x) = ident x"
  "ident (p_runs_update i x) = ident x" "ident (p_rq_update b x) = ident x" "ident (p_time_slice_update i x) = ident x"
  by (simp_all add: ident_def owned_def)

lemma upd_proc_ident: "(\<And>x. ident (f x) = ident x) \<Longrightarrow> ident (procs (upd_proc p f s) q) = ident (procs s q)"
  by simp

lemma upd_proc_more: "sched.more (upd_proc p f s) = sched.more s"
  by (simp add: upd_proc_def)

lemma wakeup_frame:
  assumes "wakeup_proc p t = Some t'"
  shows "ident (procs t' q) = ident (procs t q)" "idleproc t' = idleproc t"
    "p_state (procs t' q) = p_state (procs t q) \<or> q = p \<and> p_state (procs t' q) = PROC_RUNNABLE \<and> p_state (procs t q) \<noteq> PROC_ZOMBIE"
  using assms by (auto simp: wakeup_proc_def sched_class_enqueue_def RR_enqueue_eq Let_def bind_eq_Some_conv kassert_def split: if_splits)

lemma schedule_frame:
  fixes t t' :: "'a sched_scheme"
  assumes "schedule t = Some t'"
  shows "ident (procs t' q) = ident (procs t q)" "p_parent (procs t' q) = p_parent (procs t q)" "p_yptr (procs t' q) = p_yptr (procs t q)"
    "p_optr (procs t' q) = p_optr (procs t q)" "p_cptr (procs t' q) = p_cptr (procs t q)"
proof -
  define L where "L p = (ident p, p_parent p, p_yptr p, p_optr p, p_cptr p)" for p
  have e: "L (procs b q) = L (procs a q)" if "sched_class_enqueue x a = Some b" for x and a b :: "'a sched_scheme"
    using that by (auto simp: sched_class_enqueue_def RR_enqueue_eq Let_def bind_eq_Some_conv L_def split: if_splits)
  have d: "L (procs b q) = L (procs a q)" if "sched_class_dequeue x a = Some b" for x and a b :: "'a sched_scheme"
    using that by (auto simp: sched_class_dequeue_def RR_dequeue_eq Let_def bind_eq_Some_conv L_def split: if_splits)
  have r: "L (procs (proc_run x a) q) = L (procs a q)" for x and a :: "'a sched_scheme" by (simp add: proc_run_def load_ksp_def Let_def)
  have u: "L (procs (upd_proc x f a) q) = L (procs a q)" if "\<And>p. L (f p) = L p" for f x and a :: "'a sched_scheme" using that by simp
  define t1 where "t1 = upd_proc (current t) (\<lambda>p. p\<lparr>p_need_resched := False\<rparr>) t"
  have "L (procs t1 q) = L (procs t q)" unfolding t1_def by (rule u) (simp add: L_def)
  moreover obtain t2 t3 nxt where t2: "(if p_state (procs t1 (current t1)) = PROC_RUNNABLE then sched_class_enqueue (current t1) t1 else Some t1) = Some t2"
    and t3: "(case sched_class_pick_next t2 of Some nxt \<Rightarrow> do { s \<leftarrow> sched_class_dequeue nxt t2; Some (nxt, s) } | None \<Rightarrow> Some (idleproc t2, t2)) = Some (nxt, t3)"
    and t': "t' = (let s = upd_proc nxt (\<lambda>p. p\<lparr>p_runs := p_runs p + 1\<rparr>) t3 in if nxt \<noteq> current s then proc_run nxt s else s)"
    using assms unfolding schedule_def Let_def t1_def [symmetric] by (auto simp: bind_eq_Some_conv)
  have "L (procs t2 q) = L (procs t1 q)" using t2 e by (cases "p_state (procs t1 (current t1)) = PROC_RUNNABLE") auto
  moreover have "L (procs t3 q) = L (procs t2 q)" using t3 d by (cases "sched_class_pick_next t2") (auto simp: bind_eq_Some_conv)
  moreover have "L (procs (upd_proc nxt (\<lambda>p. p\<lparr>p_runs := p_runs p + 1\<rparr>) t3) q) = L (procs t3 q)" by (rule u) (simp add: L_def)
  then have "L (procs t' q) = L (procs t3 q)" unfolding t' Let_def by (cases "nxt = current t3") (simp_all add: r del: upd_proc_simps(1))
  ultimately have "L (procs t' q) = L (procs t q)" by simp
  then show "ident (procs t' q) = ident (procs t q)" "p_parent (procs t' q) = p_parent (procs t q)" "p_yptr (procs t' q) = p_yptr (procs t q)"
    "p_optr (procs t' q) = p_optr (procs t q)" "p_cptr (procs t' q) = p_cptr (procs t q)" by (simp_all add: L_def)
qed

lemma exit_relink_keeps: "exit_keeps t (exit_relink k t)"
proof -
  have "sched.more (exit_relink k t) = sched.more t" "ident (procs (exit_relink k t) q) = ident (procs t q)" for q
    by (simp_all add: exit_relink_def Let_def upd_proc_ident upd_proc_more del: upd_proc_simps(1) split: if_split)
  then show ?thesis by (simp add: exit_keeps_def exit_relink_frame)
qed

lemma exit_keeps_trans: "exit_keeps t t1 \<Longrightarrow> exit_keeps t1 t2 \<Longrightarrow> exit_keeps t t2"
  unfolding exit_keeps_def by (metis proc_state.distinct)

lemma exit_child_keeps: "exit_child k t = Some t' \<Longrightarrow> exit_keeps t t'"
proof -
  assume a: "exit_child k t = Some t'"
  have "exit_keeps (exit_relink k t) t'" if "wakeup_proc p (exit_relink k t) = Some t'" for p
    using wakeup_frame [OF that] wakeup_proc_links(7) [OF that] by (auto simp: exit_keeps_def)
  moreover have "exit_keeps t t" by (simp add: exit_keeps_def)
  ultimately show "exit_keeps t t'"
    using a exit_keeps_trans [OF exit_relink_keeps] by (auto simp: exit_child_def Let_def exit_relink_keeps split: if_splits)
qed

lemma exit_children_keeps: "exit_children t = Some t' \<Longrightarrow> exit_keeps t t'"
proof (rule exit_children.raw_induct [where P = "exit_keeps"])
  fix f t t'
  assume IH: "\<And>t t'. f t = Some t' \<Longrightarrow> exit_keeps t t'"
    and r: "(if p_cptr (procs t (current t)) = 0 then Some t else do { t \<leftarrow> exit_child (p_cptr (procs t (current t))) t; f t }) = Some t'"
  show "exit_keeps t t'"
  proof (cases "p_cptr (procs t (current t)) = 0")
    case False
    then obtain t1 where "exit_child (p_cptr (procs t (current t))) t = Some t1" "f t1 = Some t'" using r by (auto simp: bind_eq_Some_conv)
    then show ?thesis using exit_keeps_trans [OF exit_child_keeps IH] by blast
  qed (use r in \<open>simp add: exit_keeps_def\<close>)
qed

section \<open>Exit\<close>

lemma put_files_ok:
  assumes "p_filesp (procs (tab s) proc) = f" "fl_count (ftab s f) = 1 \<longrightarrow> files_destroy ((ftab s f)\<lparr>fl_count := 0\<rparr>) (vf s) \<noteq> None"
  obtains s' where "put_files proc s = Some s'" "tab s' = tab s" "ps s' = ps s" "boot_pgdir s' = boot_pgdir s" "frames s' = frames s"
    "kfreed s' = (if f \<noteq> 0 \<and> fl_count (ftab s f) = 1 then f # kfreed s else kfreed s)"
    "ftab s' = (if f = 0 then ftab s else (ftab s)(f := (ftab s f)\<lparr>fl_count := fl_count (ftab s f) - 1\<rparr>))"
proof (cases "f = 0")
  case True
  with assms(1) that [of s] show thesis by (simp add: put_files_def Let_def)
next
  case f: False
  let ?s = "s\<lparr>ftab := (ftab s)(f := (ftab s f)\<lparr>fl_count := fl_count (ftab s f) - 1\<rparr>)\<rparr>"
  show thesis
  proof (cases "fl_count (ftab s f) = 1")
    case True
    then obtain v where "files_destroy ((ftab s f)\<lparr>fl_count := 0\<rparr>) (vf s) = Some v" using assms(2) by auto
    with f True assms(1) that [of "kfree_k f (?s\<lparr>vf := v\<rparr>)"] show thesis by (simp add: put_files_def Let_def kfree_k_def)
  next
    case False
    with f assms(1) that [of ?s] show thesis by (simp add: put_files_def Let_def)
  qed
qed

text \<open>The part of \<open>do_exit\<close> that works on the table, from the moment the process is a zombie.\<close>

lemma exit_table:
  fixes t :: proctab
  assumes inv: "ptab_inv t" "sched_inv t" "family F t" and c: "c = current t" "c \<noteq> idleproc t" "c \<noteq> initproc t"
    and z: "p_state (procs t c) = PROC_ZOMBIE" "p_state (procs t (initproc t)) \<noteq> PROC_ZOMBIE"
    and par: "par = p_parent (procs t c)" "p_state (procs t par) \<noteq> PROC_ZOMBIE"
  obtains t1 t2 t3 where "(if p_wait_state (procs t par) = WT_CHILD then wakeup_proc par t else Some t) = Some t1" "exit_children t1 = Some t2" "schedule t2 = Some t3"
    "current t2 = c" "current t3 \<noteq> c" "sched_inv t3" "ptab_inv t3" "\<And>i. find_proc i t3 = find_proc i t" "family (F(c := [], initproc t := rev (F c) @ F (initproc t))) t3"
    "\<And>q. ident (procs t3 q) = ident (procs t q)" "p_state (procs t3 c) = PROC_ZOMBIE"
    "p_wait_state (procs t par) = WT_CHILD \<Longrightarrow> p_state (procs t3 par) = PROC_RUNNABLE"
proof -
  obtain t1 where t1: "(if p_wait_state (procs t par) = WT_CHILD then wakeup_proc par t else Some t) = Some t1" "sched_inv t1" "family F t1" "current t1 = c"
    "exit_keeps t t1" "p_wait_state (procs t par) = WT_CHILD \<Longrightarrow> p_state (procs t1 par) = PROC_RUNNABLE"
  proof (cases "p_wait_state (procs t par) = WT_CHILD")
    case True
    obtain t1 where w: "wakeup_proc par t = Some t1" "sched_inv t1" "run_state t1 = woken {par} (run_state t)"
      using wakeup_proc_ok [OF inv(2) par(2)] by blast
    note l = wakeup_proc_links [OF w(1)] and f = wakeup_frame [OF w(1)]
    have "p_state (procs t1 par) = PROC_RUNNABLE" using fun_cong [OF w(3), of par] by (auto simp: run_state_def woken_def split: if_splits)
    moreover have "exit_keeps t t1" using l(7) f by (auto simp: exit_keeps_def)
    moreover have "family F t1" using inv(3) family_cong [of t1 t F] l by simp
    ultimately show thesis using that [of t1] True w l(6) c(1) by simp
  qed (use that [of t] inv c(1) in \<open>auto simp: exit_keeps_def\<close>)
  have i1: "initproc t1 = initproc t" using t1(5) more_eq_initproc by (auto simp: exit_keeps_def)
  have "p_state (procs t1 (initproc t1)) \<noteq> PROC_ZOMBIE" using t1(5) z(2) unfolding i1 exit_keeps_def by (metis proc_state.distinct)
  then obtain t2 where t2: "exit_children t1 = Some t2" "sched_inv t2" "current t2 = c" "family (F(c := [], initproc t := rev (F c) @ F (initproc t))) t2"
    using exit_children_family [OF t1(2,3)] c(3) t1(4) i1 by auto
  have k: "exit_keeps t t2" "exit_keeps t1 t2" using exit_children_keeps [OF t2(1)] exit_keeps_trans [OF t1(5)] by auto
  obtain t3 where t3: "schedule t2 = Some t3" "sched_inv t3" "run_state t3 = run_state t2" "sched.more t3 = sched.more t2"
    "case ready_queue t2 of [] \<Rightarrow> current t3 = idleproc t2 \<and> run_list t3 = [] | x # xs \<Rightarrow> current t3 = x \<and> run_list t3 = xs"
    using schedule_ok [OF t2(2)] by auto
  have z2: "p_state (procs t2 c) = PROC_ZOMBIE" using k(1) z(1) unfolding exit_keeps_def by (metis proc_state.distinct)
  then have "ready_queue t2 = run_list t2" using t2(3) by (simp add: ready_queue_def)
  moreover have "c \<notin> set (run_list t2)" "c \<noteq> idleproc t2" using t2(2,3) k(1) c(2) by (auto simp: sched_inv_def exit_keeps_def)
  ultimately have "current t3 \<noteq> c" using t3(5) by (cases "run_list t2") auto
  moreover have st: "p_state (procs t3 q) = p_state (procs t2 q)" for q using fun_cong [OF t3(3), of q] by (simp add: run_state_def)
  moreover have id: "ident (procs t3 q) = ident (procs t q)" for q using schedule_frame(1) [OF t3(1)] k(1) by (simp add: exit_keeps_def)
  moreover have "sched.more t3 = sched.more t" using t3(4) k(1) by (simp add: exit_keeps_def)
  then have "ptab_inv t3" "find_proc i t3 = find_proc i t" for i using ptab_inv_cong [of t3 t] id inv(1) by (auto simp: ident_def)
  moreover have "family (F(c := [], initproc t := rev (F c) @ F (initproc t))) t3" using t2(4) family_cong [of t3 t2] schedule_frame [OF t3(1)] by simp
  moreover have "p_state (procs t2 par) = PROC_RUNNABLE" if "p_state (procs t1 par) = PROC_RUNNABLE" using k(2) that unfolding exit_keeps_def by metis
  ultimately show thesis using that [OF t1(1) t2(1) t3(1) t2(3)] t3(2) z2 t1(6) by simp
qed

section \<open>Giving the stack back\<close>

lemma free_loop_refs:
  "free_pages_loop b n x = Some y \<Longrightarrow> pg_ref (pages y q) = (if q \<in> {b..<b + n} then 0 else pg_ref (pages x q)) \<and> npage y = npage x"
  by (induction b n x rule: free_pages_loop.induct) (auto simp: bind_kassert upd_page_def set_page_ref_def split: if_splits)

lemma free_pages_refs:
  assumes "default_free_pages b n x = Some y"
  shows "pg_ref (pages y q) = (if q \<in> {b..<b + n} then 0 else pg_ref (pages x q))" "npage y = npage x"
proof -
  obtain z where z: "free_pages_loop b n x = Some z" using assms by (auto simp: default_free_pages_def bind_kassert bind_eq_Some_conv split: if_splits)
  have "pg_ref (pages y q) = pg_ref (pages z q)" "npage y = npage z"
    using assms z
    by (auto simp: default_free_pages_def default_list_add_def bind_kassert Let_def upd_page_def
        SetPageProperty_def bind_eq_Some_conv dest!: free_merge_refs [of _ _ _ _ _ _ q] split: if_splits prod.splits)
  with free_loop_refs [OF z, of q] show "pg_ref (pages y q) = (if q \<in> {b..<b + n} then 0 else pg_ref (pages x q))" "npage y = npage x" by simp_all
qed

lemma free_frames_ok:
  assumes inv: "pt_inv D p" and n: "0 < n" and k: "{k..<k + n} \<subseteq> taken (pm p) - D - tables (km p) D" and un: "\<And>r. r \<in> {k..<k + n} \<Longrightarrow> mappers (km p) D r = {}"
  obtains x where "free_pages k n p = Some (p\<lparr>pm := x\<rparr>)" "pt_inv D (p\<lparr>pm := x\<rparr>)" "free_set x = free_set (pm p) \<union> {k..<k + n}"
proof -
  note i = pt_invD [OF inv]
  have "{k..<k + n} \<subseteq> avail_set (pm p) - free_set (pm p)" using k by (auto simp: taken_def)
  then obtain x where x: "default_free_pages k n (pm p) = Some x" "pmm_inv x" "avail_set x = avail_set (pm p)" "free_set x = free_set (pm p) \<union> {k..<k + n}"
    using free_pages_ok [OF i(1) n] by blast
  note r = free_pages_refs [OF x(1)]
  have tk: "taken x = taken (pm p) - {k..<k + n}" using x(3,4) by (auto simp: taken_def)
  have "tables_ok (\<lambda>_. 0) D x (km p)"
  proof (rule tables_okI)
    show "D \<subseteq> taken x" "tables (km p) D \<subseteq> taken x - D" using tables_okD(1,3) [OF i(3)] k unfolding tk by blast+
    show "q \<in> taken x - D - tables (km p) D" if "d \<in> D" "v < user_pages" "pmap (km p) d v = Some (q, f)" for d v q f
    proof -
      have "(d, v) \<in> mappers (km p) D q" using that by (auto simp: mappers_def)
      then have "q \<notin> {k..<k + n}" using un [of q] by blast
      with tables_okD(6) [OF i(3) that] show ?thesis unfolding tk by blast
    qed
    show "pg_ref (pages x q) = int (card (mappers (km p) D q)) + 0" if "q \<in> avail_set x" "q \<notin> tables (km p) D" for q
      using tables_okD(7) [OF i(3), of q] that un [of q] unfolding r(1) x(3) by simp
  qed (use tables_okD(5) [OF i(3)] in blast)
  then have "pt_inv D (p\<lparr>pm := x\<rparr>)" using x(2) i(2) r(2) by (simp add: pt_inv_def)
  with x(1,4) show thesis using that by (simp add: free_pages_def)
qed

section \<open>Writing to user memory\<close>

lemma find_vma_more: "find_vma mm a s = (r, s') \<Longrightarrow> vmm.more s' = vmm.more s"
  by (auto simp: find_vma_def upd_mm_def Let_def split: option.splits)

lemma user_mem_loop_more: "vmm.more (snd (user_mem_loop mm a e wr s)) = vmm.more s"
proof (induction mm a e wr s rule: user_mem_loop.induct)
  case (1 mm a e wr s)
  obtain r s' where f: "find_vma (Some mm) a s = (r, s')" by (cases "find_vma (Some mm) a s")
  note m = find_vma_more [OF f]
  show ?case
  proof (cases "a < e")
    case True
    show ?thesis
    proof (cases r)
      case None
      then show ?thesis using True f m by (simp add: user_mem_loop.simps [of mm a])
    next
      case (Some v)
      then show ?thesis using True f m 1 [OF True f [symmetric] Some refl] by (cases wr) (simp_all add: user_mem_loop.simps [of mm a] Let_def)
    qed
  qed (simp add: user_mem_loop.simps [of mm a])
qed

lemma user_mem_check_frame:
  fixes s s' :: pstate
  assumes "user_mem_check mm a len wr s = (b, s')"
  shows "pm s' = pm s" "km s' = km s" "Mmu.cur_pgdir s' = Mmu.cur_pgdir s"
proof -
  have "vmm.more s' = vmm.more s"
    using assms user_mem_loop_more [of "the mm" a "a + len" wr s] by (auto simp: user_mem_check_def split: option.splits if_splits)
  then show "pm s' = pm s" "km s' = km s" "Mmu.cur_pgdir s' = Mmu.cur_pgdir s" by (cases s; cases s'; simp)+
qed

text \<open>
  A store to a mapped page that may be written writes to its frame, which is no directory and no table; the refill of the TLB
  changes at most the bits of the TLB in page table entries.
\<close>

definition stored :: "nat set \<Rightarrow> nat \<Rightarrow> u32 \<Rightarrow> u32 \<Rightarrow> mem \<Rightarrow> mem \<Rightarrow> bool" where
  "stored D p a w m m' \<longleftrightarrow> (\<forall>r j. j < 1024 \<longrightarrow>
     (if r = p \<and> j = unat a mod 4096 div 4 then W m' r j = w
      else if r \<in> tables m D then same_entry (W m r j) (W m' r j) else W m' r j = W m r j))"

lemma offset_word: "a mod 4 = 0 \<Longrightarrow> unat (a :: u32) mod 4096 = 4 * (unat a mod 4096 div 4)"
proof -
  assume "a mod 4 = 0"
  then have "unat (a mod 4) = 0" by simp
  then have "unat a mod 4 = 0" by (simp add: unat_mod)
  then show ?thesis by (simp add: minus_mod_eq_mult_div [symmetric] mod_mod_cancel)
qed

lemma store_frame:
  fixes w :: u32
  assumes inv: "pt_inv D s" and p: "p \<in> taken (pm s) - D - tables (km s) D" and a: "a mod 4 = 0"
    and t: "tlb_same D (km s0) (km s)" "tables (km s) D = tables (km s0) D"
  defines "m \<equiv> st32 (km s) (kva p + unat a mod 4096) w"
  shows "pt_inv D (s\<lparr>km := m\<rparr>)" "\<forall>c \<in> D. \<forall>v < user_pages. pmap m c v = pmap (km s) c v" "tables m D = tables (km s) D"
    "stored D p a w (km s0) m"
proof -
  note i = pt_invD [OF inv]
  let ?j = "unat a mod 4096 div 4"
  have j: "?j < 1024" by (simp add: less_mult_imp_div_less)
  have m: "m = st32 (km s) (kva p + 4 * ?j) w"
    unfolding m_def by (rule arg_cong [OF offset_word [OF a]])
  have W: "W m r j = (if r = p \<and> j = ?j then w else W (km s) r j)" if "j < 1024" for r j
    using W_st32 [OF j that, of "km s" p w r] by (simp only: m)
  have k: "W m r j = W (km s) r j" if "r \<in> D \<union> tables (km s) D" "j < 1024" for r j using W [OF that(2), of r] that(1) p by auto
  note f = tables_ok_fresh [OF i(3) k order_refl refl refl]
  show "pt_inv D (s\<lparr>km := m\<rparr>)" using f(1) i(1,2) by (simp add: pt_inv_def)
  show "\<forall>c \<in> D. \<forall>v < user_pages. pmap m c v = pmap (km s) c v" using f(2) by blast
  show "tables m D = tables (km s) D" by (rule f(3))
  show "stored D p a w (km s0) m" using t(1) by (simp add: stored_def tlb_same_def W)
qed

lemma store_user_ok:
  fixes w :: u32
  assumes inv: "pt_inv D (ps s)" and d: "d \<in> D" "Mmu.cur_pgdir (ps s) = Some (kva d)" and a: "a mod 4 = 0" "vpn a < user_pages" "pmap (km (ps s)) d (vpn a) = Some (p, f)"
    and f: "bit f 1" and tlb: "tlb_algo_ok (ps s)" "tlb_agrees d a (ps s)"
  obtains s' where "store_user a w s = Some (True, s\<lparr>ps := s'\<rparr>)" "pt_inv D s'" "pm s' = pm (ps s)"
    "\<forall>c \<in> D. \<forall>v < user_pages. pmap (km s') c v = pmap (km (ps s)) c v" "tables (km s') D = tables (km (ps s)) D" "stored D p a w (km (ps s)) (km s')"
proof -
  have pt: "p \<in> taken (pm (ps s)) - D - tables (km (ps s)) D" by (rule tables_okD(6) [OF pt_invD(3) [OF inv] d(1) a(2,3)])
  let ?cur = "Some (if p_mm (this_proc s) = 0 then None else Some (p_mm (this_proc s)))" and ?idle = "current (tab s) = idleproc (tab s)"
  from inv d(1,2) a(2) tlb a(3) show thesis
  proof (cases rule: tlb_translate [where cur = ?cur and idle = ?idle and st = True and ker = True])
    case (1 lo)
    note m = store_frame [OF inv pt a(1) tlb_same_refl refl, of w]
    show thesis
      by (rule that [OF _ m(1) _ _ _ ]) (use m 1 a(1) f in \<open>simp_all add: store_user_def upd_km_def\<close>)
  next
    case (2 lo s1)
    note t = tlb_same_tables [OF pt_invD(3) [OF inv] 2(7)]
    have i1: "pt_inv D s1" by (rule tlb_same_pt_inv [OF inv 2(7,6)])
    have p1: "p \<in> taken (pm s1) - D - tables (km s1) D" using pt t(2) 2(6) by simp
    note m = store_frame [OF i1 p1 a(1) 2(7) t(2), of w]
    have c: "\<forall>c \<in> D. \<forall>v < user_pages. pmap (st32 (km s1) (kva p + unat a mod 4096) w) c v = pmap (km (ps s)) c v" using m(2) t(3) by simp
    show thesis
      by (rule that [OF _ m(1)]) (use m(3,4) c t(2) 2 a(1) f in \<open>simp_all add: store_user_def on_ps_def upd_km_def\<close>)
  qed
qed

section \<open>Wait\<close>

lemma remove_links_owned: "owned (procs (remove_links p t) q) = owned (procs t q)" "current (remove_links p t) = current t"
  by (simp_all add: remove_links_def Let_def upd_proc_owned del: upd_proc_simps(1) split: if_split)

text \<open>The child that \<open>do_wait\<close> takes: the one with the pid, or the youngest zombie when the pid is 0.\<close>

definition waits_for :: "int \<Rightarrow> (addr \<Rightarrow> addr list) \<Rightarrow> addr \<Rightarrow> proctab \<Rightarrow> bool" where
  "waits_for pid F z t \<longleftrightarrow>
     (if pid = 0 then find (\<lambda>q. p_state (procs t q) = PROC_ZOMBIE) (F (current t)) = Some z
      else find_proc pid t = Some z \<and> z \<in> set (F (current t)) \<and> p_state (procs t z) = PROC_ZOMBIE)"

lemma wait_any_ok:
  "chain (procs s) par y ks \<Longrightarrow> 0 \<notin> set ks \<Longrightarrow>
    wait_any (hd0 ks) b s = Some (b \<or> ks \<noteq> [], find (\<lambda>q. p_state (procs s q) = PROC_ZOMBIE) ks)"
proof (induction ks arbitrary: y b)
  case Nil
  show ?case by (subst wait_any.simps) simp
next
  case (Cons k ks)
  then have "wait_any (hd0 ks) True s = Some (True, find (\<lambda>q. p_state (procs s q) = PROC_ZOMBIE) ks)" using Cons.IH [of k True] by simp
  with Cons.prems show ?case by (subst wait_any.simps) simp
qed

lemma waits_forD:
  assumes "waits_for pid F z t" "family F t"
  shows "wait_search pid t = Some (True, Some z)" "z \<in> set (F (current t))" "p_state (procs t z) = PROC_ZOMBIE"
proof -
  have k: "kids (procs t) (current t) (F (current t))" using assms(2) by (simp add: family_def)
  show z: "z \<in> set (F (current t))" "p_state (procs t z) = PROC_ZOMBIE" using assms(1) by (auto simp: waits_for_def find_Some_iff split: if_splits)
  then have "F (current t) \<noteq> []" by auto
  then show "wait_search pid t = Some (True, Some z)"
    using assms(1) k wait_any_ok [of t "current t" 0 "F (current t)" False] family_parent [OF assms(2) z(1)]
    by (auto simp: waits_for_def wait_search_def wait_one_def kids_def split: if_splits)
qed

lemma wait_table:
  assumes "ptab_inv t" "family F t" "waits_for pid F z t" "find_proc (p_pid (procs t z)) t = Some z" "z \<noteq> idleproc t" "z \<noteq> initproc t"
  obtains t' where "wait_search pid t = Some (True, Some z)" "wait_found z t = Some (p_exit_code (procs t z), t')" "ptab_inv t'"
    "\<And>i. find_proc i t' = (if i = p_pid (procs t z) then None else find_proc i t)" "family (F(current t := remove1 z (F (current t)))) t'" "current t' = current t"
    "owned (procs t' z) = owned (procs t z)"
proof -
  note w = waits_forD [OF assms(3,2)]
  obtain t' where t': "wait_found z t = Some (p_exit_code (procs t z), t')" "ptab_inv t'"
    "\<forall>i. find_proc i t' = (if i = p_pid (procs t z) then None else find_proc i t)"
    using find_proc_reap [OF assms(1,4,5,6)] by blast
  moreover have e: "t' = remove_links z (unhash_proc z t)" using t'(1) assms(5,6) by (simp add: wait_found_def)
  have u: "procs (unhash_proc z t) = procs t" "current (unhash_proc z t) = current t" by (simp_all add: unhash_proc_def Let_def)
  have "family F (unhash_proc z t)" using assms(2) u(1) by (simp add: family_def)
  from remove_links_family [OF this w(2)] have "family (F(current t := remove1 z (F (current t)))) t'" by (simp add: e)
  ultimately show thesis using that [of t'] w(1) by (simp add: e remove_links_owned u)
qed

text \<open>The address at which the exit code is stored can be written: the check passes, and the page is mapped for writing.\<close>

definition code_place :: "nat set \<Rightarrow> u32 \<Rightarrow> nat \<Rightarrow> kernel \<Rightarrow> bool" where
  "code_place D a p s \<longleftrightarrow> p_mm (this_proc s) \<noteq> 0 \<and> fst (user_mem_check (Some (p_mm (this_proc s))) a 4 True (ps s)) \<and> a mod 4 = 0 \<and>
     (\<exists>d \<in> D. Mmu.cur_pgdir (ps s) = Some (kva d) \<and> vpn a < user_pages \<and> (\<exists>f. pmap (km (ps s)) d (vpn a) = Some (p, f) \<and> bit f 1) \<and>
        tlb_algo_ok (ps s) \<and> tlb_agrees d a (ps s))"

text \<open>The store of the exit code, or nothing, after the check.\<close>

lemma user_mem_check_more:
  fixes s s' :: pstate
  assumes "user_mem_check mm a len wr s = (b, s')"
  shows "tlb_algo_ok s' = tlb_algo_ok s" "tlb_agrees d la s' = tlb_agrees d la s"
proof -
  have "vmm.more s' = vmm.more s"
    using assms user_mem_loop_more [of "the mm" a "a + len" wr s] by (auto simp: user_mem_check_def split: option.splits if_splits)
  then have f: "pm s' = pm s" "km s' = km s" "tlb_entries s' = tlb_entries s" "tlb_algo_n s' = tlb_algo_n s" "tlb_algo_empty s' = tlb_algo_empty s"
    "tlb_algo_ptr s' = tlb_algo_ptr s" "tlb_algo_hi s' = tlb_algo_hi s" by (cases s; cases s'; simp)+
  show "tlb_algo_ok s' = tlb_algo_ok s" by (simp add: tlb_algo_ok_def f)
  have "KADDR x s' = KADDR x s" for x by (simp add: KADDR_def f)
  then have "pte_slot x la s' = pte_slot x la s" for x la by (simp add: pte_slot_def)
  then have "find_pte (kva d) la s' = find_pte (kva d) la s" for la by (simp add: find_pte_def Let_def f)
  then have "paired_pte (kva d) la s' = paired_pte (kva d) la s" unfolding paired_pte_def f(2) by simp
  moreover have "tlb_hit la s' = tlb_hit la s" "tlb_half la s' = tlb_half la s" by (simp_all add: fun_eq_iff tlb_hit_def tlb_half_def f)
  ultimately show "tlb_agrees d la s' = tlb_agrees d la s" by (simp add: tlb_agrees_def f)
qed

lemma wait_store:
  assumes inv: "pt_inv D (ps s)" and st: "a \<noteq> 0 \<Longrightarrow> code_place D a p s"
  obtains p0 p1 where "do_wait pid a s = do_wait_repeat pid a (s\<lparr>ps := p0\<rparr>)"
    "(if a \<noteq> 0 then store_user a w (s\<lparr>ps := p0\<rparr>) else Some (True, s\<lparr>ps := p0\<rparr>)) = Some (True, s\<lparr>ps := p1\<rparr>)"
    "pt_inv D p1" "pm p1 = pm (ps s)" "\<forall>c \<in> D. \<forall>v < user_pages. pmap (km p1) c v = pmap (km (ps s)) c v" "tables (km p1) D = tables (km (ps s)) D"
    "if a \<noteq> 0 then stored D p a w (km (ps s)) (km p1) else km p1 = km (ps s)"
proof (cases "a = 0")
  case True
  then show thesis by (intro that [of "ps s" "ps s"]) (use inv in \<open>simp_all add: do_wait_def\<close>)
next
  case False
  let ?mm = "Some (p_mm (this_proc s))"
  obtain b p0 where c: "user_mem_check ?mm a 4 True (ps s) = (b, p0)" by (cases "user_mem_check ?mm a 4 True (ps s)")
  from st [OF False] c obtain d f where b: "p_mm (this_proc s) \<noteq> 0" "b" "a mod 4 = 0" "d \<in> D" "Mmu.cur_pgdir (ps s) = Some (kva d)" "vpn a < user_pages"
    "pmap (km (ps s)) d (vpn a) = Some (p, f)" "bit f 1" "tlb_algo_ok (ps s)" "tlb_agrees d a (ps s)" by (auto simp: code_place_def)
  note f0 = user_mem_check_frame [OF c] user_mem_check_more [OF c]
  have w: "do_wait pid a s = do_wait_repeat pid a (s\<lparr>ps := p0\<rparr>)" using False b(1,2) c by (simp add: do_wait_def)
  have i0: "pt_inv D (ps (s\<lparr>ps := p0\<rparr>))" using inv pt_inv_cong [OF f0(1,2)] by simp
  obtain p1 where "store_user a w (s\<lparr>ps := p0\<rparr>) = Some (True, s\<lparr>ps := p0, ps := p1\<rparr>)" "pt_inv D p1" "pm p1 = pm p0"
    "\<forall>c \<in> D. \<forall>v < user_pages. pmap (km p1) c v = pmap (km p0) c v" "tables (km p1) D = tables (km p0) D" "stored D p a w (km p0) (km p1)"
    by (rule store_user_ok [OF i0 b(4) _ b(3,6) _ b(8), of p w]) (use b f0 in simp_all)
  then show thesis by (intro that [OF w, of p1]) (use False f0 in simp_all)
qed

section \<open>Main results\<close>

text \<open>
  C2. \<open>do_exit\<close> ends the current process and gives back what it had. For a process that alone uses its address space, and whose parent and \<open>initproc\<close> are not
  zombies, it succeeds (no assertion fails, and another process runs): the process is a zombie with the exit code, still in the table for its parent, which
  is ready to run if it was waiting for a child; the children now belong to \<open>initproc\<close>; exactly its page directory, page tables and the pages nobody else
  maps have become free, with exact reference counts; all other address spaces, stacks and files are as before; its areas and its address space structure
  are freed, and its table of files when it was the last to use it, for which closing the files is assumed to fail no
  assertion (\<open>files_destroy\<close> returns).
\<close>

theorem do_exit_correct:
  assumes "ptab_inv (tab s)" "sched_inv (tab s)" "family F (tab s)" "c = current (tab s)" "c \<noteq> idleproc (tab s)" "c \<noteq> initproc (tab s)"
    and "par = p_parent (this_proc s)" "par \<noteq> c" "p_state (procs (tab s) par) \<noteq> PROC_ZOMBIE" "p_state (procs (tab s) (initproc (tab s))) \<noteq> PROC_ZOMBIE"
    and "sole_user D d s" "boot_pgdir s \<noteq> kva d" "mm = p_mm (this_proc s)" "f = p_filesp (this_proc s)"
    and "fl_count (ftab s f) = 1 \<longrightarrow> files_destroy ((ftab s f)\<lparr>fl_count := 0\<rparr>) (vf s) \<noteq> None"
  shows "\<exists>s'. do_exit code s = Some s' \<and> current (tab s') \<noteq> c \<and> ptab_inv (tab s') \<and> sched_inv (tab s') \<and>
    (\<forall>i. find_proc i (tab s') = find_proc i (tab s)) \<and>
    family (F(c := [], initproc (tab s) := rev (F c) @ F (initproc (tab s)))) (tab s') \<and>
    p_state (procs (tab s') c) = PROC_ZOMBIE \<and> p_exit_code (procs (tab s') c) = code \<and> p_mm (procs (tab s') c) = 0 \<and>
    p_kstack (procs (tab s') c) = p_kstack (procs (tab s) c) \<and>
    (p_wait_state (procs (tab s) par) = WT_CHILD \<longrightarrow> p_state (procs (tab s') par) = PROC_RUNNABLE) \<and>
    (\<forall>q. q \<noteq> c \<longrightarrow> owned (procs (tab s') q) = owned (procs (tab s) q)) \<and>
    space_freed D d (ps s) (ps s') \<and>
    kfreed s' = (if f \<noteq> 0 \<and> fl_count (ftab s f) = 1 then [f] else []) @ mm # rev (mmap_list (mms (ps s) mm)) @ kfreed s \<and>
    ftab s' = (if f = 0 then ftab s else (ftab s)(f := (ftab s f)\<lparr>fl_count := fl_count (ftab s f) - 1\<rparr>))"
proof -
  obtain p where p: "leave_mm s = Some (set_proc c (\<lambda>x. x\<lparr>p_mm := 0\<rparr>) (s\<lparr>ps := p, kfreed := mm # rev (mmap_list (mms (ps s) mm)) @ kfreed s\<rparr>))"
    "space_freed D d (ps s) p"
    using leave_mm_ok [OF assms(11,12)] assms(4,13) by metis
  define s1 where "s1 = set_proc c (\<lambda>x. x\<lparr>p_mm := 0\<rparr>) (s\<lparr>ps := p, kfreed := mm # rev (mmap_list (mms (ps s) mm)) @ kfreed s\<rparr>)"
  have f1: "p_filesp (procs (tab s1) c) = f" "ftab s1 = ftab s" "vf s1 = vf s" "current (tab s1) = c" using assms(4,14) by (simp_all add: s1_def)
  obtain s2 where s2: "put_files c s1 = Some s2" "tab s2 = tab s1" "ps s2 = p"
    "kfreed s2 = (if f \<noteq> 0 \<and> fl_count (ftab s f) = 1 then [f] else []) @ mm # rev (mmap_list (mms (ps s) mm)) @ kfreed s"
    "ftab s2 = (if f = 0 then ftab s else (ftab s)(f := (ftab s f)\<lparr>fl_count := fl_count (ftab s f) - 1\<rparr>))"
    by (rule put_files_ok [OF f1(1), unfolded f1(2,3)]) (use assms(15) in \<open>auto simp: s1_def\<close>)
  define s3 where "s3 = set_proc c (\<lambda>p. p\<lparr>p_state := PROC_ZOMBIE, p_exit_code := code\<rparr>) s2"
  let ?t = "upd_proc c (\<lambda>p. p\<lparr>p_mm := 0, p_state := PROC_ZOMBIE, p_exit_code := code\<rparr>) (tab s)"
  have t3: "tab s3 = ?t" by (simp add: s3_def s2(2) s1_def upd_proc_def)
  have pt: "ptab_inv ?t" and fp: "\<And>i. find_proc i ?t = find_proc i (tab s)" using ptab_inv_cong [of ?t "tab s"] assms(1) by (auto simp: upd_proc_more)
  have fam: "family F ?t" using family_cong [of ?t "tab s" F] assms(3) by simp
  have sch: "sched_inv ?t" using assms(2,4,5) by (auto simp: sched_inv_def rq_inv_def)
  have h: "c = current ?t" "c \<noteq> idleproc ?t" "c \<noteq> initproc ?t" "p_state (procs ?t c) = PROC_ZOMBIE" "p_state (procs ?t (initproc ?t)) \<noteq> PROC_ZOMBIE"
    "par = p_parent (procs ?t c)" "p_state (procs ?t par) \<noteq> PROC_ZOMBIE" and e: "initproc ?t = initproc (tab s)" "p_wait_state (procs ?t par) = p_wait_state (procs (tab s) par)"
    using assms(4-10) by auto
  obtain t1 t2 t3 where t: "(if p_wait_state (procs ?t par) = WT_CHILD then wakeup_proc par ?t else Some ?t) = Some t1" "exit_children t1 = Some t2" "schedule t2 = Some t3"
    "current t2 = c" "current t3 \<noteq> c" "sched_inv t3" "ptab_inv t3" "\<And>i. find_proc i t3 = find_proc i ?t" "family (F(c := [], initproc ?t := rev (F c) @ F (initproc ?t))) t3"
    "\<And>q. ident (procs t3 q) = ident (procs ?t q)" "p_state (procs t3 c) = PROC_ZOMBIE"
    "p_wait_state (procs ?t par) = WT_CHILD \<Longrightarrow> p_state (procs t3 par) = PROC_RUNNABLE"
    by (rule exit_table [OF pt sch fam h]) (rule that)
  define s' where "s' = s3\<lparr>tab := t3, ps := load_pgdir (Some (unat (p_pgdir (procs t3 (current t3))))) (ps s3)\<rparr>"
  have k: "schedule_k (s3\<lparr>tab := t2\<rparr>) = Some s'" using t(3-5) by (simp add: schedule_k_def s'_def)
  have w: "(if p_wait_state (procs (tab s3) par) = WT_CHILD then on_tab (wakeup_proc par) s3 else Some s3) = Some (s3\<lparr>tab := t1\<rparr>)"
    using t(1) t3 by (auto simp: on_tab_def split: if_splits)
  have c3: "p_parent (this_proc s3) = par" using h(1,6) t3 by simp
  have c2: "current (tab s2) = c" using f1(4) s2(2) by simp
  have "do_exit code s = do { s \<leftarrow> (if p_wait_state (procs (tab s3) par) = WT_CHILD then on_tab (wakeup_proc par) s3 else Some s3);
      s \<leftarrow> on_tab exit_children s; s' \<leftarrow> schedule_k s; kassert (current (tab s') \<noteq> current (tab s)); Some s' }"
    using assms(4) [symmetric] assms(5,6) p(1) [folded s1_def] f1(4) s2(1) c2 c3 by (simp add: do_exit_def Let_def s3_def [symmetric] del: set_proc_simps)
  also have "\<dots> = Some s'" unfolding w using t(2,4,5) k by (simp add: on_tab_def s'_def)
  finally have "do_exit code s = Some s'" .
  moreover have "ident (procs (tab s') c) = (p_pid (procs (tab s) c), code, owned ((procs (tab s) c)\<lparr>p_mm := 0\<rparr>))"
    using t(10) [of c] by (simp add: s'_def ident_def owned_def)
  moreover have "owned (procs (tab s') q) = owned (procs (tab s) q)" if "q \<noteq> c" for q using t(10) [of q] that by (simp add: s'_def ident_def)
  moreover have "space_freed D d (ps s) (ps s')"
    using p(2) pt_inv_cong [of "ps s'" p] by (simp add: space_freed_def s'_def s3_def s2(3))
  ultimately show ?thesis
    using t(5-9,11,12) fp e s2(4,5) by (intro exI [of _ s'] conjI) (simp_all add: ident_def owned_def s'_def s3_def)
qed

lemma closeall_none: "(\<forall>i \<in> set is. status (fds ! i) = FD_NONE) \<Longrightarrow> closeall_loop is chk (fds, s) = Some (fds, s)"
  by (induction "is") (simp_all add: kassert_def)

theorem do_exit_correct_witness:
  "\<exists>s'. do_exit 5 demo_dying = Some s' \<and> current (tab s') \<noteq> 2 \<and> p_state (procs (tab s') 2) = PROC_ZOMBIE \<and> p_exit_code (procs (tab s') 2) = 5 \<and>
     free_set (pm (ps s')) = {2} \<union> {4..<12} \<and> kfreed s' = [30, 6, 7]"
proof -
  have t: "tab demo_dying = tab demo_kernel" "current (tab demo_dying) = 2" "initproc (tab demo_dying) = 3" "fl_count (ftab demo_dying f) = 1" "kfreed demo_dying = []"
    "boot_pgdir demo_dying \<noteq> kva 2" "km (ps demo_dying) = demo_mem" "pm (ps demo_dying) = demo_pmm" for f
    by (simp_all add: demo_dying_def kva_inject) (simp_all add: demo_kernel_def two_procs_def upd_proc_def)
  have p: "p_parent (procs (tab demo_kernel) 2) = Suc 0" "p_state (procs (tab demo_kernel) (Suc 0)) = PROC_RUNNABLE" "p_state (procs (tab demo_kernel) 3) = PROC_RUNNABLE"
    "initproc (tab demo_kernel) = 3"
    by (simp_all add: demo_kernel_def two_procs_def upd_proc_def blank_proc_def)
  have m: "mmap_list (mms (ps demo_dying) 6) = [7]" by (simp add: demo_dying_def)
  have u: "sole_user {2, 3} 2 demo_dying"
    using demo_space_ok demo_space_owns(1) pt_inv_cong [of "ps demo_dying" demo_space]
    by (simp add: sole_user_def t m) (simp add: demo_dying_def aligned_def confined_def area_pages_def)
  have o: "own_pages {2, 3} 2 (ps demo_dying) = {5}" using demo_space_owns(3) by (simp add: own_pages_def t)
  have h: "ptab_inv (tab demo_dying)" "sched_inv (tab demo_dying)" "family ((\<lambda>_. [])(3 := [4])) (tab demo_dying)" "2 = current (tab demo_dying)" "2 \<noteq> idleproc (tab demo_dying)"
    "2 \<noteq> initproc (tab demo_dying)" "Suc 0 = p_parent (this_proc demo_dying)" "Suc 0 \<noteq> 2" "p_state (procs (tab demo_dying) (Suc 0)) \<noteq> PROC_ZOMBIE"
    "p_state (procs (tab demo_dying) (initproc (tab demo_dying))) \<noteq> PROC_ZOMBIE"
    "6 = p_mm (this_proc demo_dying)" "30 = p_filesp (this_proc demo_dying)"
    "fl_count (ftab demo_dying 30) = 1 \<longrightarrow> files_destroy ((ftab demo_dying 30)\<lparr>fl_count := 0\<rparr>) (vf demo_dying) \<noteq> None"
    using demo_kernel_tab(1-3) by (simp_all add: t p) (simp add: demo_dying_def files_destroy_def closeall_none blank_file_def)
  obtain s' where s': "do_exit 5 demo_dying = Some s'" "current (tab s') \<noteq> 2" "p_state (procs (tab s') 2) = PROC_ZOMBIE" "p_exit_code (procs (tab s') 2) = 5"
    and sf: "space_freed {2, 3} 2 (ps demo_dying) (ps s')"
    and kf: "kfreed s' = (if (30 :: nat) \<noteq> 0 \<and> fl_count (ftab demo_dying 30) = 1 then [30] else []) @ 6 # rev (mmap_list (mms (ps demo_dying) 6)) @ kfreed demo_dying"
    using do_exit_correct [OF h(1-10) u t(6) h(11-13), where code = 5] by blast
  have "free_set (pm (ps s')) = {2} \<union> {4..<12}" using sf by (auto simp: space_freed_def t o demo_space_owns(2) demo_sets)
  moreover have "kfreed s' = [30, 6, 7]" using kf by (simp add: t m)
  ultimately show ?thesis using s' by blast
qed

text \<open>
  C5. \<open>do_wait\<close> of a parent for a child that has exited, given by its pid or (pid 0) as the youngest such child, returns at once with success and removes
  the child completely: its pid is unbound and all other pids are bound as before; the child is no longer among the children; the two frames of its
  stack are free, with exact reference counts and unchanged address spaces; and its structure is freed. When an address for the exit code is given, in a page
  that is mapped for writing and about which the TLB agrees with the page table, the exit code is stored there; of all other words only page table entries
  change, and of these only the bits for the TLB. Without an address no word changes. (The stack of the child is two frames that no address space maps.)
\<close>

theorem do_wait_correct:
  assumes "ptab_inv (tab s)" "family F (tab s)" "waits_for pid F z (tab s)" "find_proc (p_pid (procs (tab s) z)) (tab s) = Some z"
    and "z \<noteq> idleproc (tab s)" "z \<noteq> initproc (tab s)"
    and "pt_inv D (ps s)" "p_kstack (procs (tab s) z) = of_nat (kva k)" "{k, k + 1} \<subseteq> taken (pm (ps s)) - D - tables (km (ps s)) D"
    and "\<And>r. r \<in> {k, k + 1} \<Longrightarrow> mappers (km (ps s)) D r = {}"
    and "code_store \<noteq> 0 \<Longrightarrow> code_place D code_store p s"
  shows "\<exists>s'. do_wait pid code_store s = Some (Returned (Inr ()), s') \<and> ptab_inv (tab s') \<and>
    (\<forall>i. find_proc i (tab s') = (if i = p_pid (procs (tab s) z) then None else find_proc i (tab s))) \<and>
    family (F(current (tab s) := remove1 z (F (current (tab s))))) (tab s') \<and> current (tab s') = current (tab s) \<and>
    pt_inv D (ps s') \<and> free_set (pm (ps s')) = free_set (pm (ps s)) \<union> {k, k + 1} \<and>
    (\<forall>c \<in> D. \<forall>v < user_pages. pmap (km (ps s')) c v = pmap (km (ps s)) c v) \<and> kfreed s' = z # kfreed s \<and>
    (if code_store \<noteq> 0 then stored D p code_store (word_of_int (p_exit_code (procs (tab s) z))) (km (ps s)) (km (ps s')) else km (ps s') = km (ps s))"
proof -
  let ?code = "word_of_int (p_exit_code (procs (tab s) z)) :: u32"
  obtain p0 p1 where w: "do_wait pid code_store s = do_wait_repeat pid code_store (s\<lparr>ps := p0\<rparr>)"
    and m: "(if code_store \<noteq> 0 then store_user code_store ?code (s\<lparr>ps := p0\<rparr>) else Some (True, s\<lparr>ps := p0\<rparr>)) = Some (True, s\<lparr>ps := p1\<rparr>)"
    "pt_inv D p1" "pm p1 = pm (ps s)" "\<forall>c \<in> D. \<forall>v < user_pages. pmap (km p1) c v = pmap (km (ps s)) c v" "tables (km p1) D = tables (km (ps s)) D"
    "if code_store \<noteq> 0 then stored D p code_store ?code (km (ps s)) (km p1) else km p1 = km (ps s)"
    by (rule wait_store [OF assms(7), where a = code_store and p = p and w = ?code and pid = pid]) (erule assms(11), rule that)
  obtain t where t: "wait_search pid (tab s) = Some (True, Some z)" "wait_found z (tab s) = Some (p_exit_code (procs (tab s) z), t)" "ptab_inv t"
    "\<And>i. find_proc i t = (if i = p_pid (procs (tab s) z) then None else find_proc i (tab s))" "family (F(current (tab s) := remove1 z (F (current (tab s))))) t"
    "current t = current (tab s)" "owned (procs t z) = owned (procs (tab s) z)"
    by (rule wait_table [OF assms(1-6)]) (rule that)
  have mp: "mappers (km p1) D r = mappers (km (ps s)) D r" for r using m(4) by (auto simp: mappers_def)
  have two: "{k..<k + KSTACKPAGE} = {k, k + 1}" "0 < KSTACKPAGE" by (auto simp: KSTACKPAGE_def)
  obtain x where x: "free_pages k KSTACKPAGE p1 = Some (p1\<lparr>pm := x\<rparr>)" "pt_inv D (p1\<lparr>pm := x\<rparr>)" "free_set x = free_set (pm (ps s)) \<union> {k, k + 1}"
    using free_frames_ok [OF m(2) two(2), of k] assms(9,10) mp m(3,5) unfolding two(1) by auto
  have kl: "k < npage (pm (ps s))" "k < user_pages" using assms(9) pt_invD(4,5) [OF assms(7), of k] by auto
  have "kva2page (unat (p_kstack (procs t z))) p1 = Some k"
  proof -
    have "kva k < 2 ^ 32" using kva_less [OF kl(2)] by (simp add: kva_def)
    then have "unat (of_nat (kva k) :: u32) = kva k" by (simp add: unat_of_nat)
    then show ?thesis using t(7) assms(8) kva2page_kva [of k p1] kl(1) pt_invD(2) [OF assms(7)] m(3) by (simp add: owned_def)
  qed
  then have "put_kstack z (s\<lparr>ps := p1, tab := t\<rparr>) = Some (s\<lparr>ps := p1\<lparr>pm := x\<rparr>, tab := t\<rparr>)"
    using x(1) by (simp add: put_kstack_def upd_ps_def)
  then have "do_wait pid code_store s = Some (Returned (Inr ()), kfree_k z (s\<lparr>ps := p1\<lparr>pm := x\<rparr>, tab := t\<rparr>))"
    using t(1,2) assms(5,6) unfolding w by (simp add: do_wait_repeat_def m(1) cong: if_cong split del: if_split)
  with t(3-6) x(2,3) m(4,6) show ?thesis
    by (intro exI [of _ "kfree_k z (s\<lparr>ps := p1\<lparr>pm := x\<rparr>, tab := t\<rparr>)"]) (simp add: kfree_k_def)
qed

theorem do_wait_correct_witness:
  "\<exists>s'. do_wait 0 0x200008 demo_waiting = Some (Returned (Inr ()), s') \<and> find_proc 2 (tab s') = None \<and> find_proc 1 (tab s') = Some 3 \<and>
     free_set (pm (ps s')) = {0, 0 + 1} \<union> {6..<12} \<and> W (km (ps s')) 5 2 = 9 \<and> kfreed s' = [4]"
proof -
  let ?t = "upd_proc 3 (\<lambda>p. p\<lparr>p_mm := 6\<rparr>) (upd_proc 4 (\<lambda>p. p\<lparr>p_kstack := of_nat (kva 0), p_exit_code := 9\<rparr>) two_procs)"
  have w: "tab demo_waiting = ?t\<lparr>current := 3\<rparr>" "ps demo_waiting = ps demo_kernel" "kfreed demo_waiting = []" by (simp_all add: demo_waiting_def) (simp add: demo_kernel_def)
  have more: "sched.more (?t\<lparr>current := 3\<rparr>) = sched.more two_procs" by (simp add: upd_proc_more)
  have pt: "ptab_inv (tab demo_waiting)" "find_proc i (tab demo_waiting) = find_proc i two_procs" for i
    using ptab_inv_cong [OF more] two_procs_inv(1) unfolding w(1) by simp_all
  have fam: "family ((\<lambda>_. [])(3 := [4])) (tab demo_waiting)" unfolding w(1) by (subst family_cong [of _ two_procs]) (simp_all add: two_procs_family)
  have c: "current (tab demo_waiting) = 3" "idleproc (tab demo_waiting) = Suc 0" "initproc (tab demo_waiting) = 3" "p_state (procs (tab demo_waiting) 4) = PROC_ZOMBIE"
    "p_kstack (procs (tab demo_waiting) 4) = of_nat (kva 0)" "p_exit_code (procs (tab demo_waiting) 4) = 9" "p_mm (procs (tab demo_waiting) 3) = 6"
    "p_pid (procs (tab demo_waiting) 4) = 2"
    unfolding w(1) by (simp_all add: two_procs_def upd_proc_def)
  have inv: "pt_inv {2, 3} (ps demo_kernel)" using demo_space_ok(1) pt_inv_cong [of "ps demo_kernel" demo_space] by simp
  have chk: "fst (user_mem_check (Some 6) 0x200008 4 True (ps demo_kernel))"
    by (simp add: user_mem_check_def USER_ACCESS_def USERBASE_def USERTOP_def user_mem_loop.simps [of 6 "0x200008"] user_mem_loop.simps [of 6 "0x201000"]
        find_vma_def Let_def VM_WRITE_def VM_STACK_def demo_space_def vma_contains_def)
  have v: "vpn 0x200008 = 512" "512 < user_pages" by (simp_all add: vpn_def user_pages_def)
  have tlb: "tlb_algo_ok (ps demo_kernel)" "tlb_agrees 2 0x200008 (ps demo_kernel)"
    by (simp_all add: tlb_algo_ok_def tlb_agrees_def tlb_hit_def TLBN_def vpn_def user_pages_def demo_kernel_def demo_space_def demo_pt_def)
  have h: "find_proc (p_pid (procs (tab demo_waiting) 4)) (tab demo_waiting) = Some 4" "waits_for 0 ((\<lambda>_. [])(3 := [4])) 4 (tab demo_waiting)"
    "4 \<noteq> idleproc (tab demo_waiting)" "4 \<noteq> initproc (tab demo_waiting)" "pt_inv {2, 3} (ps demo_waiting)"
    "{0, 0 + 1} \<subseteq> taken (pm (ps demo_waiting)) - {2, 3} - tables (km (ps demo_waiting)) {2, 3}"
    using inv by (simp_all add: c pt(2) two_procs_find w(2) demo_sets waits_for_def)
  have un: "mappers (km (ps demo_waiting)) {2, 3} r = {}" if "r \<in> {0, 0 + 1}" for r using that by (auto simp: w(2) demo_mappers)
  have st: "code_place {2, 3} 0x200008 5 demo_waiting"
    unfolding code_place_def using chk v demo_pmap [OF v(2), of 2] tlb by (intro conjI bexI [of _ 2] exI [of _ 7]) (simp_all add: c w(2))
  obtain s' where "do_wait 0 0x200008 demo_waiting = Some (Returned (Inr ()), s')"
    "\<forall>i. find_proc i (tab s') = (if i = p_pid (procs (tab demo_waiting) 4) then None else find_proc i (tab demo_waiting))"
    "free_set (pm (ps s')) = free_set (pm (ps demo_waiting)) \<union> {0, 0 + 1}" "kfreed s' = 4 # kfreed demo_waiting"
    "stored {2, 3} 5 0x200008 (word_of_int (p_exit_code (procs (tab demo_waiting) 4))) (km (ps demo_waiting)) (km (ps s'))"
    using do_wait_correct [OF pt(1) fam h(2,1,3-5) c(5) h(6) un st] by auto
  then show ?thesis by (intro exI [of _ s']) (auto simp: pt(2) two_procs_find w(2,3) demo_sets c stored_def)
qed

end
