(* ===== verification/ProcessInit.thy ===== *)
theory ProcessInit
  imports Process
begin

text \<open>
  The first two processes (\<open>proc_init\<close> of \<^verbatim>\<open>kern/process/proc.c\<close>): the kernel becomes the process \<open>idle\<close> and starts the thread
  \<open>init\<close>. This is where the invariants of the process table, the scheduler and the families begin.
\<close>

section \<open>Definitions\<close>

text \<open>\<open>bootstack\<close> and \<open>init_main\<close> are addresses of the kernel image, \<open>gp\<close> is the register.\<close>

definition proc_init :: "u32 \<Rightarrow> u32 \<Rightarrow> u32 \<Rightarrow> kernel \<Rightarrow> kernel option" where
  "proc_init gp bootstack init_main s =
     (let s = s\<lparr>tab := proctab.hash_list_update (\<lambda>_ _. []) ((tab s)\<lparr>proc_list := []\<rparr>)\<rparr>
      in case alloc_proc s of
           (None, s) \<Rightarrow> None
         | (Some idle, s) \<Rightarrow>
             do { let s = s\<lparr>tab := (tab s)\<lparr>idleproc := idle\<rparr>\<rparr>;
                  let s = set_proc idle (\<lambda>p. p\<lparr>p_pid := 0, p_state := PROC_RUNNABLE, p_kstack := bootstack, p_need_resched := True\<rparr>) s;
                  let (f, s) = files_create_k s;
                  kassert (f \<noteq> 0);
                  let s = good_files idle f s;
                  let s = s\<lparr>tab := set_proc_name idle ''idle'' (tab s)\<rparr>;
                  let s = s\<lparr>tab := (tab s)\<lparr>nr_process := nr_process (tab s) + 1, current := idle\<rparr>\<rparr>;
                  (r, s) \<leftarrow> kernel_thread gp init_main 0 0 s;
                  case r of
                    Inl _ \<Rightarrow> None
                  | Inr pid \<Rightarrow>
                      do { kassert (pid > 0);
                           init \<leftarrow> find_proc pid (tab s);
                           let s = s\<lparr>tab := set_proc_name init ''init'' ((tab s)\<lparr>initproc := init\<rparr>)\<rparr>;
                           kassert (idleproc (tab s) \<noteq> 0 \<and> p_pid (procs (tab s) (idleproc (tab s))) = 0);
                           kassert (initproc (tab s) \<noteq> 0 \<and> p_pid (procs (tab s) (initproc (tab s))) = 1);
                           Some s } })"

section \<open>Specification\<close>

text \<open>The table when the kernel starts, after \<open>sched_init\<close>: no process yet.\<close>

definition boot_table :: "proctab \<Rightarrow> bool" where
  "boot_table t \<longleftrightarrow> procs t = (\<lambda>_. blank_proc) \<and> run_list t = [] \<and> proc_num t = 0 \<and> 0 < max_time_slice t \<and> nr_process t = 0 \<and>
     last_pid t = MAX_PID \<and> next_safe t = MAX_PID"

definition demo_boot :: kernel where
  "demo_boot = demo_kernel\<lparr>tab := two_procs\<lparr>procs := (\<lambda>_. blank_proc), run_list := [], proc_num := 0, nr_process := 0, last_pid := MAX_PID, next_safe := MAX_PID\<rparr>,
     ps := (ps demo_kernel)\<lparr>kanswers := [Some 20, Some 31, Some 32, Some 21, Some 33, Some 34]\<rparr>\<rparr>"

section \<open>The first pid\<close>

lemma get_first_pid:
  assumes "proc_list t = []" "last_pid t = MAX_PID"
  shows "get_pid t = Some (1, t\<lparr>last_pid := 1, next_safe := MAX_PID\<rparr>)"
  using assms by (simp add: get_pid_def proc_pids_def pid_repeat.simps [of "[]"])

lemma enter_first:
  assumes "proc_list t = []" "last_pid t = MAX_PID" "enter_proc p t = Some (pid, t1)"
  shows "pid = 1" "p_pid (procs t1 q) = (if q = p then 1 else p_pid (procs t q))"
  using assms(3) by (auto simp: enter_proc_def get_first_pid [OF assms(1,2)] Let_def hash_proc_def set_links_frame)

lemma wakeup_idle: "wakeup_proc p t = Some t' \<Longrightarrow> idleproc t' = idleproc t"
  by (auto simp: wakeup_proc_def sched_class_enqueue_def RR_enqueue_eq Let_def split: if_splits)

lemma set_proc_name_frame:
  fixes t :: proctab
  shows "ptab_inv (set_proc_name p n (t\<lparr>initproc := i\<rparr>)) = ptab_inv t" "sched_inv (set_proc_name p n (t\<lparr>initproc := i\<rparr>)) = sched_inv t"
    "family F (set_proc_name p n (t\<lparr>initproc := i\<rparr>)) = family F t" "find_proc j (set_proc_name p n (t\<lparr>initproc := i\<rparr>)) = find_proc j t"
    "owned (procs (set_proc_name p n (t\<lparr>initproc := i\<rparr>)) q) = owned (procs t q)" "p_pid (procs (set_proc_name p n (t\<lparr>initproc := i\<rparr>)) q) = p_pid (procs t q)"
proof -
  let ?t = "set_proc_name p n (t\<lparr>initproc := i\<rparr>)"
  have m: "sched.more ?t = sched.more (t\<lparr>initproc := i\<rparr>)" and pd: "\<And>q. p_pid (procs ?t q) = p_pid (procs (t\<lparr>initproc := i\<rparr>) q)"
    by (simp_all add: set_proc_name_def upd_proc_def)
  have "ptab_inv (t\<lparr>initproc := i\<rparr>) = ptab_inv t" "find_proc j (t\<lparr>initproc := i\<rparr>) = find_proc j t"
    by (simp_all add: ptab_inv_def pid_inv_def hash_inv_def proc_pids_def find_proc_def)
  then show "ptab_inv ?t = ptab_inv t" "find_proc j ?t = find_proc j t" using ptab_inv_cong [OF m pd] by simp_all
  show "sched_inv ?t = sched_inv t" by (rule sched_inv_fields) (simp_all add: set_proc_name_def)
  show "family F ?t = family F t" by (rule family_cong) (simp add: set_proc_name_def)
  show "owned (procs ?t q) = owned (procs t q)" "p_pid (procs ?t q) = p_pid (procs t q)" by (simp_all add: set_proc_name_def owned_def)
qed

section \<open>The first fork\<close>

text \<open>A kernel thread, started by a process without an address space.\<close>

lemma fork_kthread:
  assumes inv: "ptab_inv (tab s)" "sched_inv (tab s)" "family F (tab s)" "nr_process (tab s) < MAX_PROCESS" "p_wait_state (this_proc s) = 0" and fr: "fresh_proc F proc (tab s)"
    and pt: "pt_inv D (ps s)" and me: "p_mm (this_proc s) = 0" "p_filesp (this_proc s) = f" "f \<noteq> 0" "0 < fl_count (ftab s f)" "fd_quiet (fl_array (ftab s f))" "clone_flags AND CLONE_FS = 0"
    and blk: "kanswers (ps s) = Some proc # Some f0 # Some f' # rest" "f' \<noteq> 0" "f' \<noteq> f" "f0 \<noteq> f" "f' \<noteq> f0" "length (fl_array (ftab s f')) = FILES_STRUCT_NENTRY"
    and st: "default_alloc_pages KSTACKPAGE (pm (ps s)) = Some (Some k, x)"
  defines "a \<equiv> of_nat (kva k) + KSTACKSIZE - SIZEOF_TRAPFRAME :: u32"
  obtains pid t1 s' where "do_fork clone_flags stack tf s = Some (Inr pid, s')"
    "ptab_inv (tab s')" "sched_inv (tab s')" "\<forall>i. find_proc i (tab s') = (if i = pid then Some proc else find_proc i (tab s))"
    "family (F(current (tab s) := proc # F (current (tab s)))) (tab s')" "run_list (tab s') = run_list (tab s) @ [proc]" "current (tab s') = current (tab s)"
    "owned (procs (tab s') proc) = (of_nat (kva k), 0, of_nat (boot_pgdir s), a, (p_context blank_proc)\<lparr>ctx_ra := forkret_at s, ctx_sp := a\<rparr>, f')"
    "frames s' a = tf\<lparr>tf_regs := (tf_regs tf)(REG_v0 := 0, REG_sp := stack), tf_Status := tf_Status tf OR 3\<rparr>" "files_copied (ftab s f) (ftab s' f')"
    "pt_inv D (ps s')" "\<exists>P. enter_proc proc (upd_proc proc (\<lambda>_. P) (tab s)) = Some (pid, t1)" "wakeup_proc proc t1 = Some (tab s')"
proof -
  have pc: "current (tab s) \<noteq> proc" using fr by (auto simp: fresh_proc_def)
  define s1 where "s1 = set_proc proc (\<lambda>_. blank_proc\<lparr>p_pgdir := of_nat (boot_pgdir s), p_filesp := f0\<rparr>)
    (s\<lparr>ps := (ps s)\<lparr>kanswers := Some f' # rest\<rparr>, ftab := (ftab s)(f0 := files_create (fl_array (ftab s f0)))\<rparr>)"
  define s1' where "s1' = set_proc proc (\<lambda>p. p\<lparr>p_parent := current (tab s)\<rparr>) s1"
  define s2 where "s2 = set_proc proc (\<lambda>p. p\<lparr>p_kstack := of_nat (kva k)\<rparr>) (s1'\<lparr>ps := (ps s1')\<lparr>pm := x\<rparr>\<rparr>)"
  have a1: "alloc_proc s = (Some proc, s1)" unfolding s1_def by (rule alloc_proc_ok) (simp add: blk(1))
  have f1: "pm (ps s1') = pm (ps s)" "km (ps s1') = km (ps s)" "this_proc s1 = this_proc s" "current (tab s1) = current (tab s)" using pc by (simp_all add: s1'_def s1_def)
  have a2: "setup_kstack proc s1' = Some (Inr (), s2)"
    unfolding s2_def by (rule setup_kstack_ok) (use pt st f1 pt_inv_cong [OF f1(1,2)] in simp_all)
  have f2: "this_proc s2 = this_proc s" "ps s2 = (ps s)\<lparr>kanswers := Some f' # rest, pm := x\<rparr>" "ftab s2 = (ftab s)(f0 := files_create (fl_array (ftab s f0)))" "forkret_at s2 = forkret_at s"
    using pc by (simp_all add: s2_def s1'_def s1_def)
  have a3: "copy_mm clone_flags proc s2 = Some (Inr (), s2)" using f2(1) me(1) by (simp add: copy_mm_def)
  have old: "ftab s2 f = ftab s f" "ftab s2 f' = ftab s f'" using blk by (simp_all add: f2(3))
  obtain dst v where w: "copy_files clone_flags proc s2 = Some (Inr (), set_proc proc (\<lambda>p. p\<lparr>p_filesp := f'\<rparr>)
      (s2\<lparr>ps := (ps s2)\<lparr>kanswers := rest\<rparr>, vf := v, ftab := (ftab s2)(f' := dst\<lparr>fl_count := 1\<rparr>)\<rparr>))"
    "fd_quiet (fl_array dst)" "fl_pwd dst = fl_pwd (ftab s f)"
    "\<forall>i < FILES_STRUCT_NENTRY. if status (fl_array (ftab s f) ! i) = FD_OPENED then fl_array dst ! i = fl_array (ftab s f) ! i else status (fl_array dst ! i) = FD_NONE"
    by (rule copy_files_ok [of s2 f clone_flags f' rest proc, unfolded old]) (use f2 me blk in simp_all)
  define s4 where "s4 = set_proc proc (\<lambda>p. p\<lparr>p_filesp := f'\<rparr>)
      (s2\<lparr>ps := (ps s2)\<lparr>kanswers := rest\<rparr>, vf := v, ftab := (ftab s2)(f' := dst\<lparr>fl_count := 1\<rparr>)\<rparr>)"
  have tab4: "tab s4 = upd_proc proc (\<lambda>_. blank_proc\<lparr>p_parent := current (tab s), p_kstack := of_nat (kva k), p_mm := 0, p_pgdir := of_nat (boot_pgdir s), p_filesp := f'\<rparr>) (tab s)"
    by (simp add: s4_def s2_def s1'_def s1_def blank_proc_def)
  note fin = fork_finish [OF inv fr a1 f1(3,4) a2 [unfolded s1'_def] a3 w(1) [folded s4_def] tab4, folded a_def, where stack = stack and tf = tf]
  have n: "0 < KSTACKPAGE" by (simp add: KSTACKPAGE_def)
  have g: "pt_inv D (ps s4)" "files_copied (ftab s f) (ftab s4 f')" "forkret_at s4 = forkret_at s"
    using alloc_frames_ok(1) [OF pt n st] pt_inv_cong [of "ps s4" "(ps s)\<lparr>pm := x\<rparr>" D] w(2-4) by (simp_all add: s4_def f2 files_copied_def)
  show thesis by (rule fin) (rule that, (assumption | simp add: g)+)
qed

text \<open>The process \<open>idle\<close>, up to the first fork.\<close>

lemma proc_init_idle:
  assumes bt: "boot_table (tab s)" and blk: "kanswers (ps s) = Some idle # Some f0 # Some f # rest" "f \<noteq> 0" "f \<noteq> f0"
  obtains s0 where "proc_init gp bootstack init_main s = do { (r, s) \<leftarrow> kernel_thread gp init_main 0 0 s0;
      case r of Inl _ \<Rightarrow> None
      | Inr pid \<Rightarrow> do { kassert (pid > 0); init \<leftarrow> find_proc pid (tab s);
          let s = s\<lparr>tab := set_proc_name init ''init'' ((tab s)\<lparr>initproc := init\<rparr>)\<rparr>;
          kassert (idleproc (tab s) \<noteq> 0 \<and> p_pid (procs (tab s) (idleproc (tab s))) = 0);
          kassert (initproc (tab s) \<noteq> 0 \<and> p_pid (procs (tab s) (initproc (tab s))) = 1); Some s } }"
    "ptab_inv (tab s0)" "sched_inv (tab s0)" "family (\<lambda>_. []) (tab s0)" "nr_process (tab s0) = 1" "proc_list (tab s0) = []" "last_pid (tab s0) = MAX_PID"
    "current (tab s0) = idle" "idleproc (tab s0) = idle" "run_list (tab s0) = []" "p_pid (procs (tab s0) idle) = 0" "p_mm (procs (tab s0) idle) = 0" "p_filesp (procs (tab s0) idle) = f"
    "p_wait_state (procs (tab s0) idle) = 0" "p_kstack (procs (tab s0) idle) = bootstack"
    "ps s0 = (ps s)\<lparr>kanswers := rest\<rparr>" "ftab s0 f = (files_create (fl_array (ftab s f)))\<lparr>fl_count := 1\<rparr>" "\<forall>g. g \<noteq> f \<and> g \<noteq> f0 \<longrightarrow> ftab s0 g = ftab s g"
    "boot_pgdir s0 = boot_pgdir s" "forkret_at s0 = forkret_at s" "kthread_at s0 = kthread_at s"
proof -
  note B = bt [unfolded boot_table_def]
  define sa where "sa = s\<lparr>tab := proctab.hash_list_update (\<lambda>_ _. []) ((tab s)\<lparr>proc_list := []\<rparr>)\<rparr>"
  define P where "P = blank_proc\<lparr>p_pgdir := of_nat (boot_pgdir s), p_filesp := f0\<rparr>"
  define sb where "sb = set_proc idle (\<lambda>_. P) (sa\<lparr>ps := (ps s)\<lparr>kanswers := Some f # rest\<rparr>, ftab := (ftab s)(f0 := files_create (fl_array (ftab s f0)))\<rparr>)"
  have al: "alloc_proc sa = (Some idle, sb)"
    using alloc_proc_ok [of sa idle f0 "Some f # rest"] blk(1) by (simp add: sa_def sb_def P_def)
  define sc where "sc = set_proc idle (\<lambda>p. p\<lparr>p_pid := 0, p_state := PROC_RUNNABLE, p_kstack := bootstack, p_need_resched := True\<rparr>) (sb\<lparr>tab := (tab sb)\<lparr>idleproc := idle\<rparr>\<rparr>)"
  define F where "F = files_create (fl_array (ftab s f))"
  have fc: "files_create_k sc = (f, sc\<lparr>ps := (ps s)\<lparr>kanswers := rest\<rparr>, ftab := (ftab sc)(f := F)\<rparr>)"
    using blk(3) by (simp add: files_create_k_def kmalloc_k_def kmalloc_ans_def sc_def sb_def F_def)
  define s0 where "s0 = (let s = good_files idle f (sc\<lparr>ps := (ps s)\<lparr>kanswers := rest\<rparr>, ftab := (ftab sc)(f := F)\<rparr>);
       s = s\<lparr>tab := set_proc_name idle ''idle'' (tab s)\<rparr>
     in s\<lparr>tab := (tab s)\<lparr>nr_process := nr_process (tab s) + 1, current := idle\<rparr>\<rparr>)"
  let ?P = "P\<lparr>p_state := PROC_RUNNABLE, p_kstack := bootstack, p_need_resched := True, p_filesp := f, p_name := take PROC_NAME_LEN ''idle'' @ [CHR 0x00]\<rparr>"
  have t0: "tab s0 = (proctab.hash_list_update (\<lambda>_ _. []) ((tab s)\<lparr>procs := (\<lambda>_. blank_proc)(idle := ?P), current := idle, idleproc := idle, proc_list := [], nr_process := 1\<rparr>))"
    using B by (cases "tab s") (simp add: s0_def sc_def sb_def sa_def good_files_def set_proc_name_def upd_proc_def P_def blank_proc_def Let_def)
  have e: "proc_init gp bootstack init_main s = do { (r, s) \<leftarrow> kernel_thread gp init_main 0 0 s0;
      case r of Inl _ \<Rightarrow> None
      | Inr pid \<Rightarrow> do { kassert (pid > 0); init \<leftarrow> find_proc pid (tab s);
          let s = s\<lparr>tab := set_proc_name init ''init'' ((tab s)\<lparr>initproc := init\<rparr>)\<rparr>;
          kassert (idleproc (tab s) \<noteq> 0 \<and> p_pid (procs (tab s) (idleproc (tab s))) = 0);
          kassert (initproc (tab s) \<noteq> 0 \<and> p_pid (procs (tab s) (initproc (tab s))) = 1); Some s } }"
    unfolding proc_init_def Let_def sa_def [symmetric] al prod.case option.case sc_def [symmetric] fc
    using blk(2) by (simp add: s0_def Let_def)
  have "ptab_inv (tab s0)" unfolding t0 using B by (simp add: ptab_inv_def pid_inv_def hash_inv_def proc_pids_def MAX_PID_def MAX_PROCESS_def)
  moreover have "sched_inv (tab s0)" unfolding t0 using B by (simp add: sched_inv_def rq_inv_def P_def blank_proc_def)
  moreover have "family (\<lambda>_. []) (tab s0)" unfolding t0 by (simp add: family_def kids_def P_def blank_proc_def)
  moreover have "ftab s0 f = F\<lparr>fl_count := 1\<rparr>" "\<forall>g. g \<noteq> f \<and> g \<noteq> f0 \<longrightarrow> ftab s0 g = ftab s g" "ps s0 = (ps s)\<lparr>kanswers := rest\<rparr>"
    "boot_pgdir s0 = boot_pgdir s" "forkret_at s0 = forkret_at s" "kthread_at s0 = kthread_at s"
    by (simp_all add: s0_def good_files_def Let_def sc_def sb_def sa_def F_def files_create_def set_proc_def)
  ultimately show thesis
    using that [OF e] B by (simp add: t0 F_def P_def blank_proc_def)
qed

section \<open>Main result\<close>

text \<open>
  C6. \<open>proc_init\<close> establishes the invariants of the process table that all operations on processes keep. From a table without processes, when \<open>kmalloc\<close> has the blocks and
  two frames are free, it succeeds (no assertion fails, so the first pid is 1): the table, the scheduler and the families are well formed, and page tables
  and reference counts that are exact before stay exact; \<open>idle\<close> is the running process and its only child \<open>init\<close> is the only one in the table, under pid 1, and waits in the run queue to start at
  \<open>kernel_thread_entry\<close> with the function \<open>init_main\<close>.
\<close>

theorem proc_init_correct:
  assumes "boot_table (tab s)" "pt_inv D (ps s)" "kanswers (ps s) = Some idle # Some f0 # Some f # Some init # Some f1 # Some f2 # rest"
    and "distinct [0, idle, init]" "distinct [0, f0, f, f1, f2]" "length (fl_array (ftab s f)) = FILES_STRUCT_NENTRY" "length (fl_array (ftab s f2)) = FILES_STRUCT_NENTRY"
    and "default_alloc_pages KSTACKPAGE (pm (ps s)) = Some (Some k, x)"
  shows "\<exists>s'. proc_init gp bootstack init_main s = Some s' \<and> ptab_inv (tab s') \<and> sched_inv (tab s') \<and> family ((\<lambda>_. [])(idle := [init])) (tab s') \<and>
    pt_inv D (ps s') \<and> current (tab s') = idle \<and> initproc (tab s') = init \<and> run_list (tab s') = [init] \<and>
    (\<forall>i. find_proc i (tab s') = (if i = 1 then Some init else None)) \<and>
    (let c = procs (tab s') init; tf = frames s' (p_tf c)
     in p_kstack c = of_nat (kva k) \<and> p_mm c = 0 \<and> p_filesp c = f2 \<and> ctx_ra (p_context c) = forkret_at s \<and> ctx_sp (p_context c) = p_tf c \<and>
        tf_EPC tf = kthread_at s \<and> tf_regs tf REG_a1 = init_main \<and> tf_regs tf REG_a0 = 0 \<and> tf_regs tf REG_gp = gp)"
proof -
  obtain s0 where i: "proc_init gp bootstack init_main s = do { (r, s) \<leftarrow> kernel_thread gp init_main 0 0 s0;
      case r of Inl _ \<Rightarrow> None
      | Inr pid \<Rightarrow> do { kassert (pid > 0); init \<leftarrow> find_proc pid (tab s);
          let s = s\<lparr>tab := set_proc_name init ''init'' ((tab s)\<lparr>initproc := init\<rparr>)\<rparr>;
          kassert (idleproc (tab s) \<noteq> 0 \<and> p_pid (procs (tab s) (idleproc (tab s))) = 0);
          kassert (initproc (tab s) \<noteq> 0 \<and> p_pid (procs (tab s) (initproc (tab s))) = 1); Some s } }"
    and s0: "ptab_inv (tab s0)" "sched_inv (tab s0)" "family (\<lambda>_. []) (tab s0)" "nr_process (tab s0) = 1" "proc_list (tab s0) = []" "last_pid (tab s0) = MAX_PID"
    "current (tab s0) = idle" "idleproc (tab s0) = idle" "run_list (tab s0) = []" "p_pid (procs (tab s0) idle) = 0" "p_mm (procs (tab s0) idle) = 0" "p_filesp (procs (tab s0) idle) = f"
    "p_wait_state (procs (tab s0) idle) = 0" "ps s0 = (ps s)\<lparr>kanswers := Some init # Some f1 # Some f2 # rest\<rparr>" "ftab s0 f = (files_create (fl_array (ftab s f)))\<lparr>fl_count := 1\<rparr>"
    "\<forall>g. g \<noteq> f \<and> g \<noteq> f0 \<longrightarrow> ftab s0 g = ftab s g" "forkret_at s0 = forkret_at s" "kthread_at s0 = kthread_at s"
    by (rule proc_init_idle [OF assms(1,3), where gp = gp and bootstack = bootstack and init_main = init_main]) (use assms(5) in auto)
  let ?a = "of_nat (kva k) + KSTACKSIZE - SIZEOF_TRAPFRAME :: u32"
  let ?tf = "\<lparr>tf_regs = (\<lambda>_. 0)(REG_a1 := init_main, REG_a0 := 0, REG_gp := gp), tf_Status = 0, tf_Cause = 0, tf_EPC = kthread_at s, tf_BadVAddr = 0, tf_LO = 0, tf_HI = 0\<rparr>"
  have fq: "fd_quiet (fl_array (ftab s0 f))" "0 < fl_count (ftab s0 f)" "length (fl_array (ftab s0 f2)) = FILES_STRUCT_NENTRY"
    using fd_quiet_init [OF assms(6)] assms(5,7) s0(15,16) by (auto simp: files_create_def)
  have fr: "fresh_proc (\<lambda>_. []) init (tab s0)" using assms(4) s0(5,7-9) by (auto simp: fresh_proc_def)
  have pt: "pt_inv D (ps s0)" using assms(2) pt_inv_cong [of "ps s0" "ps s" D] by (simp add: s0(14))
  obtain pid t1 s1 where d: "do_fork (0 OR CLONE_VM) 0 ?tf s0 = Some (Inr pid, s1)"
    "ptab_inv (tab s1)" "sched_inv (tab s1)" "\<forall>i. find_proc i (tab s1) = (if i = pid then Some init else find_proc i (tab s0))"
    "family ((\<lambda>_. [])(idle := [init])) (tab s1)" "run_list (tab s1) = [init]" "current (tab s1) = idle"
    "owned (procs (tab s1) init) = (of_nat (kva k), 0, of_nat (boot_pgdir s0), ?a, (p_context blank_proc)\<lparr>ctx_ra := forkret_at s, ctx_sp := ?a\<rparr>, f2)"
    "frames s1 ?a = ?tf\<lparr>tf_regs := (tf_regs ?tf)(REG_v0 := 0, REG_sp := 0), tf_Status := tf_Status ?tf OR 3\<rparr>"
    "pt_inv D (ps s1)" "\<exists>P. enter_proc init (upd_proc init (\<lambda>_. P) (tab s0)) = Some (pid, t1)" "wakeup_proc init t1 = Some (tab s1)"
    by (rule fork_kthread [of s0 "\<lambda>_. []" init D f "0 OR CLONE_VM" f1 f2 rest k x 0 ?tf])
      (use s0 fr pt fq assms(5,8) in \<open>simp_all add: MAX_PROCESS_def CLONE_VM_def CLONE_FS_def\<close>)
  obtain P where P: "enter_proc init (upd_proc init (\<lambda>_. P) (tab s0)) = Some (pid, t1)" using d(11) by blast
  have l: "proc_list (upd_proc init (\<lambda>_. P) (tab s0)) = []" "last_pid (upd_proc init (\<lambda>_. P) (tab s0)) = MAX_PID" using s0(5,6) by (simp_all add: upd_proc_def)
  note first = enter_first [OF l P]
  have pid: "p_pid (procs (tab s1) init) = 1" "p_pid (procs (tab s1) idle) = 0"
    using first(2) wakeup_proc_links(5) [OF d(12)] s0(10) assms(4) by auto
  have idle: "idleproc (tab s1) = idle"
    using wakeup_idle [OF d(12)] enter_proc_shape(6) [OF P] s0(8) by simp
  have none: "find_proc j (tab s0) = None" for j using s0(1,5) by (auto simp: find_proc_def ptab_inv_def hash_inv_def)
  let ?s = "s1\<lparr>tab := set_proc_name init ''init'' ((tab s1)\<lparr>initproc := init\<rparr>)\<rparr>"
  have c: "idleproc (tab ?s) = idle" "initproc (tab ?s) = init" "current (tab ?s) = idle" "run_list (tab ?s) = [init]"
    using idle d(6,7) by (simp_all add: set_proc_name_def)
  have "kernel_thread gp init_main 0 0 s0 = Some (Inr 1, s1)" using d(1) first(1) s0(18) by (simp add: kernel_thread_def)
  then have "proc_init gp bootstack init_main s = Some ?s"
    using d(4) first(1) c pid assms(4) unfolding i by (simp add: Let_def set_proc_name_frame(6))
  moreover have "owned (procs (tab ?s) init) = owned (procs (tab s1) init)" using set_proc_name_frame(5) by simp
  ultimately show ?thesis
    using d(2-10) first(1) none c set_proc_name_frame(1-4) [where p = init and n = "''init''" and t = "tab s1" and i = init]
    by (intro exI [of _ ?s]) (simp add: Let_def owned_def REG_a1_def REG_a0_def REG_gp_def REG_v0_def REG_sp_def)
qed

theorem proc_init_correct_witness:
  "\<exists>s'. proc_init 7 0x80010000 0x80003000 demo_boot = Some s' \<and> find_proc 1 (tab s') = Some 21 \<and> run_list (tab s') = [21] \<and>
     tf_regs (frames s' (p_tf (procs (tab s') 21))) REG_a1 = 0x80003000"
proof -
  have f: "ftab demo_boot g = \<lparr>fl_pwd = Some 3, fl_array = fd_array demo_vfs, fl_count = 2\<rparr>" for g by (simp add: demo_boot_def demo_kernel_def)
  have l: "length (fd_array demo_vfs) = FILES_STRUCT_NENTRY" by (simp add: demo_vfs_def fd_array_init_def)
  have "boot_table (tab demo_boot)" by (simp add: demo_boot_def boot_table_def two_procs_def)
  moreover have "pt_inv {2, 3} (ps demo_boot)" using demo_space_ok(1) pt_inv_cong [of "ps demo_boot" demo_space] by (simp add: demo_boot_def)
  moreover have "kanswers (ps demo_boot) = Some 20 # Some 31 # Some 32 # Some 21 # Some 33 # Some 34 # []" "pm (ps demo_boot) = demo_pmm" by (simp_all add: demo_boot_def)
  ultimately show ?thesis
    using proc_init_correct [of demo_boot "{2, 3}" 20 31 32 21 33 34 "[]" 6 "take_block demo_pmm 6 2" 7 "0x80010000" "0x80003000"] demo_kernel_stack f l
    by (simp add: Let_def) (elim exE conjE, rule exI, intro conjI, assumption, simp_all)
qed

end
