(* ===== verification/Spec2Isabelle.thy ===== *)
theory Spec2Isabelle
  imports ProcTable Printfmt File Slob Console Philosophers Sysfile ProcessExit ProcessInit
begin

text \<open>
  A verification development for the kernel of the Cache-CPU project: the teaching kernel ucore, ported to a
  MIPS processor on an FPGA. The code is C, under \<open>src/ucore_modified\<close>; all paths below are relative to it.

  \<^bold>\<open>The parts of the program and how they interact.\<close> At the bottom is the manager of physical pages
  (\<open>kern/mm/default_pmm.c\<close>). The page tables (\<open>kern/mm/pmm.c\<close>) take their frames from it, the TLB is filled in
  software from the page tables (\<open>kern/mm/tlb.c\<close>), and pages may be replaced (\<open>kern/mm/swap*.c\<close>). An address space
  (\<open>kern/mm/vmm.c\<close>) is a list of areas over a page directory; the page fault handler fills it, and every
  pointer that comes from user space is checked against it. Processes (\<open>kern/process/proc.c\<close>) are scheduled
  round robin (\<open>kern/schedule\<close>), wait on queues, semaphores, monitors and timers (\<open>kern/sync\<close>), and own a table
  of open files (\<open>kern/fs/file.c\<close>, \<open>fs.c\<close>). Files are reached through the virtual file system (\<open>kern/fs/vfs\<close>), which finds
  devices, mounts volumes and calls the simple file system (\<open>kern/fs/sfs\<close>); its blocks are handed out by a bitmap
  and read from the flash device (\<open>kern/fs/devs/dev_disk0.c\<close>), which ignores writes. The system calls on files
  (\<open>kern/fs/sysfile.c\<close>) copy between user memory and the files; the console (\<open>kern/driver/console.c\<close>, \<open>kern/fs/devs\<close>) is a file, too.
  Small blocks of kernel memory come from a heap (\<open>kern/mm/kmalloc.c\<close>) on top of the manager of pages. Underneath all of this are pointer lists, strings,
  formatted output and software division (\<open>libs\<close>, \<open>kern/libs\<close>, \<open>kern/trap/ri.h\<close>, \<open>user/libs/intrinsic.c\<close>).

  \<^bold>\<open>Conventions.\<close> A failed assertion, a panic and the use of a null pointer are \<open>None\<close>; an error code is \<open>Inl\<close>
  of the datatype \<open>kerror\<close> (theory \<open>Prelude\<close>). Operations on a state return \<open>((kerror + 'a) \<times> 's) option\<close> and are chained with
  \<open>and_then\<close>, the early return on an error. Words are 32-bit words wherever the code computes with
  addresses, flags or unsigned numbers that may wrap around. A call that gives up the processor is cut into the part up to
  \<open>schedule\<close> and the part after it (\<open>_resume\<close>), so that other processes can act in between. Loops whose end is
  not structural are \<open>partial_function (option)\<close> or carry a termination proof; their theorems say that they end.
  The result of \<open>kmalloc\<close> is a parameter (or a list of answers in the state), so that theorems hold whether or not memory is
  given; theory \<open>Slob\<close> models \<open>kmalloc\<close> itself. A block device is a function of the state of the file system, and the
  theorems on the file system hold for devices that report no error, whether they keep what is written or ignore it;
  \<open>disk0_implements\<close> (theory \<open>SfsFs\<close>) shows that the driver of the flash is such a device. Disabled interrupts make the sections they protect atomic; they are not modelled otherwise.

  \<^bold>\<open>Theories.\<close>

  \<^item> \<open>Prelude\<close>: error codes (\<open>libs/error.h\<close>), assertions, rounding (\<open>libs/defs.h\<close>), bit operations (\<open>libs/atomic.h\<close>),
    little-endian words, and the lemmas all theories share.
  \<^item> \<open>KList\<close>: \<open>libs/list.h\<close> on an explicit pointer store. The operations are shown to implement insertion into and deletion
    from Isabelle lists, which the other theories then use.
  \<^item> \<open>BlockManager\<close>: a locale with the contract of a manager of blocks of memory; the safety of its clients (live blocks
    never overlap, nothing is lost) is proved once, and interpreted on the definitions of the next two theories.
  \<^item> \<open>DefaultPmm\<close>: all of \<open>default_pmm.c\<close> but its self test. First fit, exact effect on the set of free pages, merging of
    neighbours.
  \<^item> \<open>Slob\<close>: the heap of \<open>kern/mm/kmalloc.c\<close>, small and big blocks; freeing restores the free memory exactly.
  \<^item> \<open>Sched\<close>: \<open>kern/schedule\<close>. The invariant of ready queue and timers, exact hand-over, bounded waiting, and timers as a
    delta list that implements absolute times.
  \<^item> \<open>Sync\<close>: \<open>wait.c\<close>, \<open>sem.c\<close>, \<open>monitor.c\<close>. Units of a semaphore are conserved in every run of a step relation, and processes
    are woken in the order in which they came.
  \<^item> \<open>ProcTable\<close>: from \<open>proc.c\<close> the pid allocator, the hash lists, the family links, kill, yield, sleep, and the parts of
    wait and exit that change the table.
  \<^item> \<open>Philosophers\<close>: the dining philosophers of \<open>kern/sync/check_sync.c\<close> with semaphores, as threads that interleave between
    any two statements: mutual exclusion, no deadlock, no lost wake-up.
  \<^item> \<open>KArith\<close>, \<open>KString\<close>, \<open>Printfmt\<close>: software division, strings and memory, formatted output and reading of numbers.
  \<^item> \<open>Vmm\<close>: the areas of an address space and the checks of user pointers. \<open>Mmu\<close> and \<open>Paging\<close>: memory with page tables,
    TLB, swapping, page faults, copying and tearing down of address spaces, set-up of physical memory. \<open>PageMap\<close>: the map a
    page directory stands for, and the proof that lookup, insertion, removal and copying act on it, with exact reference
    counts. \<open>Tlb\<close>: translation by the hardware through the TLB and its refill on a miss. \<open>AddressSpace\<close>: copying and
    tearing down a whole address space.
  \<^item> \<open>Process\<close>, \<open>ProcessExit\<close>, \<open>ProcessInit\<close>: fork, exit, wait and the first two processes, composed from the process table, the
    address spaces, the TLB, the page manager and the files.
  \<^item> \<open>Bitmap\<close>, \<open>Disk0\<close>: the bitmap of free blocks implements a finite set; transfers from the flash device.
  \<^item> \<open>SfsIo\<close>, \<open>SfsInode\<close>, \<open>SfsFile\<close>, \<open>SfsFs\<close>: block transfers and the block map of a file; inodes, truncation, reference counts;
    reading, writing and directories; mounting, syncing and unmounting.
  \<^item> \<open>Vfs\<close>, \<open>File\<close>, \<open>Sysfile\<close>: devices, mount points, paths and opening; the table of open files of a process; the system
    calls on files with their buffers, user memory and the lock of the address space.
  \<^item> \<open>Console\<close>: the serial console, its interrupt, and the devices for standard input and output.

  \<^bold>\<open>Bounds.\<close> No theorem is about a bounded number of steps. Frames are below \<open>2 ^ 19\<close>, since kernel addresses of frames
  start at \<open>0x80000000\<close>; user pages are the \<open>2 ^ 19\<close> pages below that address.

  \<^bold>\<open>Not modelled.\<close> Assembly (boot loader, trap entry, context switch); the registers of the interrupt controller and the clock;
  the dispatch of traps and system calls; loading of ELF programs (\<open>do_execve\<close>, \<open>load_icode\<close>) and the bodies of the kernel
  threads (\<open>init_main\<close>, \<open>user_main\<close>, \<open>cpu_idle\<close>); the philosophers with a monitor and the other self tests; the debugger
  (\<open>kdebug.c\<close>) and the kernel monitor; skew heaps (\<open>libs/skew_heap.h\<close>, whose operations no file of the kernel calls); user programs; the host tool that builds file system
  images (\<open>tools/mksfs.c\<close>); the hardware descriptions, the compiler for Decaf and the documents of the project, which are not C.
\<close>

end
